(* ===== verification/Prelude.thy ===== *)
theory Prelude
  imports Main "HOL-Library.Word" "HOL-Library.Monad_Syntax"
begin

unbundle bit_operations_syntax

text \<open>
  Shared vocabulary of the development: the C integer types as words, bounds-checked access
  to C arrays, the functions of \<^verbatim>\<open>string.h\<close> the sources call, and the generic lemmas on
  lists, options and words that the component theories use.

  A C array is the list of its cells. Reading or writing outside it is undefined in C; here
  every access goes through \<open>arr_get\<close> and \<open>arr_set\<close>, whose \<open>None\<close> is that undefined
  behaviour, so that a theorem of the form \<open>\<dots> = Some \<dots>\<close> includes memory safety.
\<close>

section \<open>Machine integers\<close>

type_synonym u8 = "8 word"
type_synonym u16 = "16 word"
type_synonym u32 = "32 word"
type_synonym u64 = "64 word"

named_theorems array_simps \<open>bounds-checked array access\<close>
named_theorems cstring_simps \<open>functions on NUL-terminated strings\<close>

lemma unat_of_nat_eq_small:
  "n < 2 ^ LENGTH('a) \<Longrightarrow> unat (of_nat n :: 'a::len word) = n"
  by (simp add: unat_of_nat take_bit_nat_eq_self)

lemma unat_Suc_small:
  fixes w :: "'a::len word"
  assumes "unat w + 1 < 2 ^ LENGTH('a)"
  shows "unat (w + 1) = unat w + 1"
  using assms by (simp add: unat_word_ariths)

lemma unat_pred_pos:
  fixes w :: "'a::len word"
  assumes "0 < unat w"
  shows "unat (w - 1) = unat w - 1"
proof -
  from assms have "1 \<le> w"
    by (metis One_nat_def Suc_leI unat_1 word_le_nat_alt)
  then show ?thesis
    by (metis unat_1 unat_sub)
qed

section \<open>Arrays\<close>

definition arr_get :: "'a list \<Rightarrow> nat \<Rightarrow> 'a option" where
  "arr_get xs i = (if i < length xs then Some (xs ! i) else None)"

definition arr_set :: "'a list \<Rightarrow> nat \<Rightarrow> 'a \<Rightarrow> 'a list option" where
  "arr_set xs i v = (if i < length xs then Some (xs[i := v]) else None)"

lemma arr_get_in [array_simps]: "i < length xs \<Longrightarrow> arr_get xs i = Some (xs ! i)"
  by (simp add: arr_get_def)

lemma arr_set_in [array_simps]: "i < length xs \<Longrightarrow> arr_set xs i v = Some (xs[i := v])"
  by (simp add: arr_set_def)

lemma arr_set_length: "arr_set xs i v = Some ys \<Longrightarrow> length ys = length xs"
  by (auto simp: arr_set_def split: if_splits)

text \<open>Two list facts the in-place shifts of the sources come down to.\<close>

lemma take_update_shift:
  "n < length xs \<Longrightarrow> take (Suc n) (xs[n := v]) = take n xs @ [v]"
  by (simp add: take_Suc_conv_app_nth)

lemma take_nth_drop_Suc:
  "i < length xs \<Longrightarrow> take i xs @ xs ! i # drop (Suc i) xs = xs"
  by (rule id_take_nth_drop [symmetric])

text \<open>The search loops over tables: the first index whose entry satisfies \<open>P\<close>, or the length.\<close>

fun scan_table :: "('a \<Rightarrow> bool) \<Rightarrow> nat \<Rightarrow> 'a list \<Rightarrow> nat" where
  "scan_table P i [] = i"
| "scan_table P i (x # xs) = (if P x then i else scan_table P (Suc i) xs)"

lemma scan_table_eq:
  "scan_table P k xs = (case find (\<lambda>i. P (xs ! i)) [0..<length xs] of None \<Rightarrow> k + length xs | Some i \<Rightarrow> k + i)"
proof (induction xs arbitrary: k)
  case (Cons x xs)
  have "find Q (map Suc ns) = map_option Suc (find (\<lambda>i. Q (Suc i)) ns)" for Q and ns :: "nat list" by (induction ns) auto
  from this [of "\<lambda>i. P ((x # xs) ! i)" "[0..<length xs]"]
  have "find (\<lambda>i. P ((x # xs) ! i)) [Suc 0..<Suc (length xs)] = map_option Suc (find (\<lambda>i. P (xs ! i)) [0..<length xs])"
    by (simp add: map_Suc_upt)
  then show ?case using Cons.IH [of "Suc k"] by (simp add: upt_conv_Cons del: upt_Suc split: option.splits)
qed simp

lemma scan_table_less: "scan_table P 0 xs < length xs \<longleftrightarrow> (\<exists>j < length xs. P (xs ! j))"
proof (cases "find (\<lambda>i. P (xs ! i)) [0..<length xs]")
  case None
  then have "\<forall>j < length xs. \<not> P (xs ! j)" by (auto simp: find_None_iff)
  then show ?thesis unfolding scan_table_eq None by auto
next
  case (Some i)
  then have "i < length xs" "P (xs ! i)" by (auto simp: find_Some_iff)
  then show ?thesis unfolding scan_table_eq Some by auto
qed

lemma scan_table_le: "scan_table P k xs \<le> k + length xs"
proof (induction xs arbitrary: k)
  case (Cons x xs)
  then show ?case using Cons.IH [of "Suc k"] by simp
qed simp

lemma scan_table_sat:
  assumes "scan_table P 0 xs < length xs"
  shows "P (xs ! scan_table P 0 xs)"
proof (cases "find (\<lambda>i. P (xs ! i)) [0..<length xs]")
  case None
  show ?thesis using assms unfolding scan_table_eq None by simp
next
  case (Some i)
  then have "P (xs ! i)" by (auto simp: find_Some_iff)
  then show ?thesis unfolding scan_table_eq Some by simp
qed

section \<open>NUL-terminated strings\<close>

text \<open>
  \<open>cstr\<close> is the text before the first NUL. \<open>c_strlen\<close> walks the array the way
  \<^verbatim>\<open>strlen\<close> does and leaves it (\<open>None\<close>) when there is no NUL; \<open>c_strcpy\<close> also needs
  room in the destination; \<open>c_strncmp\<close> compares at most \<open>n\<close> bytes and stops at a NUL.
\<close>

definition cstr :: "u8 list \<Rightarrow> u8 list" where
  "cstr xs = takeWhile (\<lambda>c. c \<noteq> 0) xs"

primrec c_strlen :: "u8 list \<Rightarrow> nat option" where
  "c_strlen [] = None"
| "c_strlen (c # cs) = (if c = 0 then Some 0 else map_option Suc (c_strlen cs))"

definition c_strcpy :: "u8 list \<Rightarrow> u8 list \<Rightarrow> u8 list option" where
  "c_strcpy dst src =
     do { n \<leftarrow> c_strlen src;
          if n < length dst then Some (take (Suc n) src @ drop (Suc n) dst) else None }"

fun c_strncmp :: "u8 list \<Rightarrow> u8 list \<Rightarrow> nat \<Rightarrow> int option" where
  "c_strncmp a b 0 = Some 0"
| "c_strncmp (x # xs) (y # ys) (Suc n) =
     (if x \<noteq> y then Some (uint x - uint y)
      else if x = 0 then Some 0 else c_strncmp xs ys n)"
| "c_strncmp a b (Suc n) = None"

lemma c_strlen_terminated [cstring_simps]:
  "0 \<in> set xs \<Longrightarrow> c_strlen xs = Some (length (cstr xs))"
  by (induction xs) (auto simp: cstr_def)

lemma c_strlen_SomeD: "c_strlen xs = Some n \<Longrightarrow> 0 \<in> set xs \<and> n = length (cstr xs)"
  by (induction xs arbitrary: n) (auto simp: cstr_def split: if_splits)

lemma length_cstr_less: "0 \<in> set xs \<Longrightarrow> length (cstr xs) < length xs"
  by (induction xs) (auto simp: cstr_def)

lemma cstr_no_nul [simp]: "0 \<notin> set (cstr xs)"
  by (auto simp: cstr_def dest: set_takeWhileD)

lemma cstr_append [cstring_simps]: "0 \<notin> set xs \<Longrightarrow> cstr (xs @ 0 # ys) = xs"
  unfolding cstr_def by (subst takeWhile_append2) auto

lemma take_Suc_cstr:
  "0 \<in> set xs \<Longrightarrow> take (Suc (length (cstr xs))) xs = cstr xs @ [0]"
  by (induction xs) (auto simp: cstr_def)

lemma c_strcpy_terminated [cstring_simps]:
  assumes "0 \<in> set src" "length (cstr src) < length dst"
  shows "c_strcpy dst src = Some (cstr src @ 0 # drop (Suc (length (cstr src))) dst)"
  using assms by (simp add: c_strcpy_def c_strlen_terminated take_Suc_cstr)

lemma c_strncmp_prefix:
  assumes "0 \<in> set a" "n \<le> length b" "0 \<notin> set (take n b)"
  shows "\<exists>r. c_strncmp a b n = Some r \<and> (r = 0 \<longleftrightarrow> take n (cstr a) = take n b)"
  using assms
proof (induction a b n rule: c_strncmp.induct)
  case (2 x xs y ys n)
  then show ?case by (auto simp: cstr_def word_uint_eq_iff)
qed (auto simp: cstr_def)

end
