(* ===== verification/Mmio.thy ===== *)
theory Mmio
  imports Prelude
begin

text \<open>
  Memory-mapped input/output. The drivers reach the hardware through the \<^verbatim>\<open>XIo_In\<close> and
  \<^verbatim>\<open>XIo_Out\<close> accessors of Xilinx's \<^verbatim>\<open>xio.h\<close>, which is not part of the repository: a value
  of type \<open>'b mmio\<close> stands for them and for the hardware behind them, and every driver
  function takes it as an argument. The state \<open>'b\<close> is that of the whole bus, so an access may
  also let time pass. The status codes of \<^verbatim>\<open>xstatus.h\<close> are a datatype.
\<close>

record 'b mmio =
  io_in8 :: "u32 \<Rightarrow> 'b \<Rightarrow> u8 \<times> 'b"
  io_in16 :: "u32 \<Rightarrow> 'b \<Rightarrow> u16 \<times> 'b"
  io_in32 :: "u32 \<Rightarrow> 'b \<Rightarrow> u32 \<times> 'b"
  io_out8 :: "u32 \<Rightarrow> u8 \<Rightarrow> 'b \<Rightarrow> 'b"
  io_out16 :: "u32 \<Rightarrow> u16 \<Rightarrow> 'b \<Rightarrow> 'b"
  io_out32 :: "u32 \<Rightarrow> u32 \<Rightarrow> 'b \<Rightarrow> 'b"

datatype xstatus =
    XST_SUCCESS | XST_FAILURE | XST_DEVICE_NOT_FOUND | XST_DEVICE_IS_STARTED
  | XST_DEVICE_IS_STOPPED | XST_DEVICE_BUSY | XST_REGISTER_ERROR | XST_LOOPBACK_ERROR
  | XST_SPI_NO_SLAVE | XST_SPI_TOO_MANY_SLAVES | XST_SPI_SLAVE_ONLY
  | XST_SPI_MODE_FAULT | XST_SPI_TRANSFER_DONE | XST_SPI_TRANSMIT_UNDERRUN
  | XST_SPI_RECEIVE_OVERRUN | XST_SPI_SLAVE_MODE_FAULT

end
