(* ===== verification/Spi_Drv.thy ===== *)
theory Spi_Drv
  imports Mmio
begin

unbundle bit_operations_syntax

text \<open>
  The Xilinx SPI driver, \<^verbatim>\<open>src/drivers/spi_v2_00_a/src\<close>, that connects the SD card and the
  display: initialisation, options, slave selection, the transfer in polled and in interrupt
  mode, the interrupt handler, statistics and the self test. Register access goes through the
  bus parameter; the SPI core itself is not part of the repository. A function is \<open>None\<close> when
  an assertion of the driver fails, a buffer is overrun or a polling loop does not end.

  The C structure \<^verbatim>\<open>XSpi\<close> is the record \<open>xspi\<close>. A buffer pointer is the buffer (the bytes
  from the pointer passed by the caller on) and the number of bytes it has advanced. A send
  buffer that is also the receive buffer may be passed as two copies: the driver has sent a
  byte before it stores the byte received in its place.
\<close>

section \<open>Registers\<close>

named_theorems spi_regs \<open>register offsets and masks of the SPI core\<close>

definition XSP_DGIER_OFFSET :: u32 where [spi_regs]: "XSP_DGIER_OFFSET = 0x1C"
definition XSP_IISR_OFFSET :: u32 where [spi_regs]: "XSP_IISR_OFFSET = 0x20"
definition XSP_IIER_OFFSET :: u32 where [spi_regs]: "XSP_IIER_OFFSET = 0x28"
definition XSP_SRR_OFFSET :: u32 where [spi_regs]: "XSP_SRR_OFFSET = 0x40"
definition XSP_CR_OFFSET :: u32 where [spi_regs]: "XSP_CR_OFFSET = 0x60 + 0x2"
definition XSP_SR_OFFSET :: u32 where [spi_regs]: "XSP_SR_OFFSET = 0x64 + 3"
definition XSP_DTR_OFFSET :: u32 where [spi_regs]: "XSP_DTR_OFFSET = 0x68 + 3"
definition XSP_DRR_OFFSET :: u32 where [spi_regs]: "XSP_DRR_OFFSET = 0x6C + 3"
definition XSP_SSR_OFFSET :: u32 where [spi_regs]: "XSP_SSR_OFFSET = 0x70"
definition XSP_TFO_OFFSET :: u32 where [spi_regs]: "XSP_TFO_OFFSET = 0x74 + 3"
definition XSP_RFO_OFFSET :: u32 where [spi_regs]: "XSP_RFO_OFFSET = 0x78 + 3"

definition XSP_GINTR_ENABLE_MASK :: u32 where [spi_regs]: "XSP_GINTR_ENABLE_MASK = 0x80000000"
definition XSP_INTR_MODE_FAULT_MASK :: u32 where [spi_regs]: "XSP_INTR_MODE_FAULT_MASK = 0x1"
definition XSP_INTR_SLAVE_MODE_FAULT_MASK :: u32 where
  [spi_regs]: "XSP_INTR_SLAVE_MODE_FAULT_MASK = 0x2"
definition XSP_INTR_TX_EMPTY_MASK :: u32 where [spi_regs]: "XSP_INTR_TX_EMPTY_MASK = 0x4"
definition XSP_INTR_TX_UNDERRUN_MASK :: u32 where [spi_regs]: "XSP_INTR_TX_UNDERRUN_MASK = 0x8"
definition XSP_INTR_RX_FULL_MASK :: u32 where [spi_regs]: "XSP_INTR_RX_FULL_MASK = 0x10"
definition XSP_INTR_RX_OVERRUN_MASK :: u32 where [spi_regs]: "XSP_INTR_RX_OVERRUN_MASK = 0x20"
definition XSP_INTR_TX_HALF_EMPTY_MASK :: u32 where
  [spi_regs]: "XSP_INTR_TX_HALF_EMPTY_MASK = 0x40"
definition XSP_INTR_ALL :: u32 where
  [spi_regs]: "XSP_INTR_ALL =
     XSP_INTR_MODE_FAULT_MASK OR XSP_INTR_SLAVE_MODE_FAULT_MASK OR XSP_INTR_TX_EMPTY_MASK OR
     XSP_INTR_TX_UNDERRUN_MASK OR XSP_INTR_RX_FULL_MASK OR XSP_INTR_TX_HALF_EMPTY_MASK OR
     XSP_INTR_RX_OVERRUN_MASK"
definition XSP_INTR_DFT_MASK :: u32 where
  [spi_regs]: "XSP_INTR_DFT_MASK =
     XSP_INTR_MODE_FAULT_MASK OR XSP_INTR_TX_UNDERRUN_MASK OR XSP_INTR_RX_OVERRUN_MASK OR
     XSP_INTR_SLAVE_MODE_FAULT_MASK"
definition XSP_SRR_RESET_MASK :: u32 where [spi_regs]: "XSP_SRR_RESET_MASK = 0xA"

definition XSP_CR_LOOPBACK_MASK :: u16 where [spi_regs]: "XSP_CR_LOOPBACK_MASK = 0x1"
definition XSP_CR_ENABLE_MASK :: u16 where [spi_regs]: "XSP_CR_ENABLE_MASK = 0x2"
definition XSP_CR_MASTER_MODE_MASK :: u16 where [spi_regs]: "XSP_CR_MASTER_MODE_MASK = 0x4"
definition XSP_CR_CLK_POLARITY_MASK :: u16 where [spi_regs]: "XSP_CR_CLK_POLARITY_MASK = 0x8"
definition XSP_CR_CLK_PHASE_MASK :: u16 where [spi_regs]: "XSP_CR_CLK_PHASE_MASK = 0x10"
definition XSP_CR_TXFIFO_RESET_MASK :: u16 where [spi_regs]: "XSP_CR_TXFIFO_RESET_MASK = 0x20"
definition XSP_CR_RXFIFO_RESET_MASK :: u16 where [spi_regs]: "XSP_CR_RXFIFO_RESET_MASK = 0x40"
definition XSP_CR_MANUAL_SS_MASK :: u16 where [spi_regs]: "XSP_CR_MANUAL_SS_MASK = 0x80"
definition XSP_CR_TRANS_INHIBIT_MASK :: u16 where [spi_regs]: "XSP_CR_TRANS_INHIBIT_MASK = 0x100"

definition XSP_SR_RX_EMPTY_MASK :: u8 where [spi_regs]: "XSP_SR_RX_EMPTY_MASK = 0x1"
definition XSP_SR_TX_EMPTY_MASK :: u8 where [spi_regs]: "XSP_SR_TX_EMPTY_MASK = 0x4"
definition XSP_SR_TX_FULL_MASK :: u8 where [spi_regs]: "XSP_SR_TX_FULL_MASK = 0x8"

definition XSP_DATAWIDTH_BYTE :: u8 where [spi_regs]: "XSP_DATAWIDTH_BYTE = 8"
definition XSP_DATAWIDTH_HALF_WORD :: u8 where [spi_regs]: "XSP_DATAWIDTH_HALF_WORD = 16"
definition XSP_DATAWIDTH_WORD :: u8 where [spi_regs]: "XSP_DATAWIDTH_WORD = 32"

definition XSP_MASTER_OPTION :: u32 where [spi_regs]: "XSP_MASTER_OPTION = 0x1"
definition XSP_CLK_ACTIVE_LOW_OPTION :: u32 where [spi_regs]: "XSP_CLK_ACTIVE_LOW_OPTION = 0x2"
definition XSP_CLK_PHASE_1_OPTION :: u32 where [spi_regs]: "XSP_CLK_PHASE_1_OPTION = 0x4"
definition XSP_LOOPBACK_OPTION :: u32 where [spi_regs]: "XSP_LOOPBACK_OPTION = 0x8"
definition XSP_MANUAL_SSELECT_OPTION :: u32 where [spi_regs]: "XSP_MANUAL_SSELECT_OPTION = 0x10"

section \<open>The instance\<close>

record xspi_stats =
  ModeFaults :: u32
  XmitUnderruns :: u32
  RecvOverruns :: u32
  SlaveModeFaults :: u32
  BytesTransferred :: u32
  NumInterrupts :: u32

record xspi_config =
  cfg_DeviceId :: u16
  cfg_BaseAddress :: u32
  cfg_HasFifos :: bool
  cfg_SlaveOnly :: bool
  cfg_NumSlaveBits :: u8
  cfg_DataWidth :: u8

text \<open>\<open>StatusHandler\<close> is \<open>None\<close> for \<^verbatim>\<open>StubStatusHandler\<close>, which only asserts.\<close>

record 'h xspi =
  Stats :: xspi_stats
  BaseAddr :: u32
  IsReady :: bool
  IsStarted :: bool
  HasFifos :: bool
  SlaveOnly :: bool
  NumSlaveBits :: u8
  DataWidth :: u8
  SlaveSelectMask :: u32
  SlaveSelectReg :: u32
  SendBuffer :: "u8 list"
  SendOffset :: nat
  RecvBuffer :: "u8 list option"
  RecvOffset :: nat
  RequestedBytes :: u32
  RemainingBytes :: u32
  IsBusy :: bool
  StatusHandler :: "'h option"

definition no_stats :: xspi_stats where
  "no_stats =
     \<lparr>ModeFaults = 0, XmitUnderruns = 0, RecvOverruns = 0, SlaveModeFaults = 0,
      BytesTransferred = 0, NumInterrupts = 0\<rparr>"

section \<open>Register access macros\<close>

definition XSpi_mReset :: "'b mmio \<Rightarrow> 'h xspi \<Rightarrow> 'b \<Rightarrow> 'b" where
  "XSpi_mReset io x b = io_out32 io (BaseAddr x + XSP_SRR_OFFSET) XSP_SRR_RESET_MASK b"

definition XSpi_mIntrGlobalEnable :: "'b mmio \<Rightarrow> 'h xspi \<Rightarrow> 'b \<Rightarrow> 'b" where
  "XSpi_mIntrGlobalEnable io x b =
     io_out32 io (BaseAddr x + XSP_DGIER_OFFSET) XSP_GINTR_ENABLE_MASK b"

definition XSpi_mIntrGlobalDisable :: "'b mmio \<Rightarrow> 'h xspi \<Rightarrow> 'b \<Rightarrow> 'b" where
  "XSpi_mIntrGlobalDisable io x b = io_out32 io (BaseAddr x + XSP_DGIER_OFFSET) 0 b"

definition XSpi_mIsIntrGlobalEnabled :: "'b mmio \<Rightarrow> 'h xspi \<Rightarrow> 'b \<Rightarrow> bool \<times> 'b" where
  "XSpi_mIsIntrGlobalEnabled io x b =
     (let (r, b) = io_in32 io (BaseAddr x + XSP_DGIER_OFFSET) b in (r = XSP_GINTR_ENABLE_MASK, b))"

definition XSpi_mIntrGetStatus :: "'b mmio \<Rightarrow> 'h xspi \<Rightarrow> 'b \<Rightarrow> u32 \<times> 'b" where
  "XSpi_mIntrGetStatus io x b = io_in32 io (BaseAddr x + XSP_IISR_OFFSET) b"

definition XSpi_mIntrClear :: "'b mmio \<Rightarrow> 'h xspi \<Rightarrow> u32 \<Rightarrow> 'b \<Rightarrow> 'b" where
  "XSpi_mIntrClear io x m b =
     (let (r, b) = XSpi_mIntrGetStatus io x b
      in io_out32 io (BaseAddr x + XSP_IISR_OFFSET) (r OR m) b)"

definition XSpi_mIntrEnable :: "'b mmio \<Rightarrow> 'h xspi \<Rightarrow> u32 \<Rightarrow> 'b \<Rightarrow> 'b" where
  "XSpi_mIntrEnable io x m b =
     (let (r, b) = io_in32 io (BaseAddr x + XSP_IIER_OFFSET) b
      in io_out32 io (BaseAddr x + XSP_IIER_OFFSET) (r OR (m AND XSP_INTR_ALL)) b)"

definition XSpi_mIntrDisable :: "'b mmio \<Rightarrow> 'h xspi \<Rightarrow> u32 \<Rightarrow> 'b \<Rightarrow> 'b" where
  "XSpi_mIntrDisable io x m b =
     (let (r, b) = io_in32 io (BaseAddr x + XSP_IIER_OFFSET) b
      in io_out32 io (BaseAddr x + XSP_IIER_OFFSET) (r AND NOT (m AND XSP_INTR_ALL)) b)"

definition XSpi_mSetControlReg :: "'b mmio \<Rightarrow> 'h xspi \<Rightarrow> u16 \<Rightarrow> 'b \<Rightarrow> 'b" where
  "XSpi_mSetControlReg io x m b = io_out16 io (BaseAddr x + XSP_CR_OFFSET) m b"

definition XSpi_mGetControlReg :: "'b mmio \<Rightarrow> 'h xspi \<Rightarrow> 'b \<Rightarrow> u16 \<times> 'b" where
  "XSpi_mGetControlReg io x b = io_in16 io (BaseAddr x + XSP_CR_OFFSET) b"

definition XSpi_mGetStatusReg :: "'b mmio \<Rightarrow> 'h xspi \<Rightarrow> 'b \<Rightarrow> u8 \<times> 'b" where
  "XSpi_mGetStatusReg io x b = io_in8 io (BaseAddr x + XSP_SR_OFFSET) b"

definition XSpi_mSetSlaveSelectReg :: "'b mmio \<Rightarrow> 'h xspi \<Rightarrow> u32 \<Rightarrow> 'b \<Rightarrow> 'b" where
  "XSpi_mSetSlaveSelectReg io x m b = io_out32 io (BaseAddr x + XSP_SSR_OFFSET) m b"

definition XSpi_mGetSlaveSelectReg :: "'b mmio \<Rightarrow> 'h xspi \<Rightarrow> 'b \<Rightarrow> u32 \<times> 'b" where
  "XSpi_mGetSlaveSelectReg io x b = io_in32 io (BaseAddr x + XSP_SSR_OFFSET) b"

section \<open>Initialisation and control\<close>

definition XSpi_Abort :: "'b mmio \<Rightarrow> 'h xspi \<times> 'b \<Rightarrow> 'h xspi \<times> 'b" where
  "XSpi_Abort io xb =
     (let (x, b) = xb;
          b = XSpi_mSetSlaveSelectReg io x (SlaveSelectMask x) b;
          (ControlReg, b) = XSpi_mGetControlReg io x b;
          ControlReg = ControlReg OR XSP_CR_TRANS_INHIBIT_MASK;
          ControlReg = (if HasFifos x
                        then ControlReg OR (XSP_CR_TXFIFO_RESET_MASK OR XSP_CR_RXFIFO_RESET_MASK)
                        else ControlReg);
          b = XSpi_mSetControlReg io x ControlReg b
      in (x\<lparr>RemainingBytes := 0, RequestedBytes := 0, IsBusy := False\<rparr>, b))"

definition XSpi_Reset :: "'b mmio \<Rightarrow> 'h xspi \<times> 'b \<Rightarrow> ('h xspi \<times> 'b) option" where
  "XSpi_Reset io xb =
     (if IsReady (fst xb) then
        (let (x, b) = XSpi_Abort io xb;
             x = x\<lparr>IsStarted := False, SlaveSelectReg := SlaveSelectMask x\<rparr>
         in Some (x, XSpi_mReset io x b))
      else None)"

definition XSpi_CfgInitialize ::
  "'b mmio \<Rightarrow> xspi_config \<Rightarrow> u32 \<Rightarrow> 'h xspi \<times> 'b \<Rightarrow> (xstatus \<times> 'h xspi \<times> 'b) option" where
  "XSpi_CfgInitialize io Config EffectiveAddr xb =
     (let (x, b) = xb
      in if IsStarted x then Some (XST_DEVICE_IS_STARTED, x, b)
         else
           (let x = x\<lparr>IsStarted := False, IsBusy := False, StatusHandler := None,
                      SendBuffer := [], SendOffset := 0, RecvBuffer := None, RecvOffset := 0,
                      RequestedBytes := 0, RemainingBytes := 0, BaseAddr := EffectiveAddr,
                      HasFifos := cfg_HasFifos Config, SlaveOnly := cfg_SlaveOnly Config,
                      NumSlaveBits := cfg_NumSlaveBits Config,
                      DataWidth := (if cfg_DataWidth Config = 0 then XSP_DATAWIDTH_BYTE
                                    else cfg_DataWidth Config),
                      IsReady := True\<rparr>;
                x = x\<lparr>SlaveSelectMask := push_bit (unat (NumSlaveBits x)) 1 - 1\<rparr>;
                x = x\<lparr>SlaveSelectReg := SlaveSelectMask x, Stats := no_stats\<rparr>
            in do { (x, b) \<leftarrow> XSpi_Reset io (x, b); Some (XST_SUCCESS, x, b) }))"

text \<open>The configuration table is generated for the board: it is an argument.\<close>

definition XSpi_LookupConfig :: "xspi_config list \<Rightarrow> u16 \<Rightarrow> xspi_config option" where
  "XSpi_LookupConfig XSpi_ConfigTable DeviceId =
     find (\<lambda>c. cfg_DeviceId c = DeviceId) XSpi_ConfigTable"

definition XSpi_Initialize ::
  "'b mmio \<Rightarrow> xspi_config list \<Rightarrow> u16 \<Rightarrow> 'h xspi \<times> 'b \<Rightarrow> (xstatus \<times> 'h xspi \<times> 'b) option" where
  "XSpi_Initialize io XSpi_ConfigTable DeviceId xb =
     (case XSpi_LookupConfig XSpi_ConfigTable DeviceId of
        None \<Rightarrow> Some (XST_DEVICE_NOT_FOUND, xb)
      | Some Config \<Rightarrow> XSpi_CfgInitialize io Config (cfg_BaseAddress Config) xb)"

definition XSpi_Start :: "'b mmio \<Rightarrow> 'h xspi \<times> 'b \<Rightarrow> (xstatus \<times> 'h xspi \<times> 'b) option" where
  "XSpi_Start io xb =
     (let (x, b) = xb
      in if \<not> IsReady x then None
         else if IsStarted x then Some (XST_DEVICE_IS_STARTED, x, b)
         else
           (let b = XSpi_mIntrEnable io x XSP_INTR_DFT_MASK b;
                x = x\<lparr>IsStarted := True\<rparr>;
                (ControlReg, b) = XSpi_mGetControlReg io x b;
                ControlReg = ControlReg OR
                  (XSP_CR_TXFIFO_RESET_MASK OR XSP_CR_RXFIFO_RESET_MASK OR XSP_CR_ENABLE_MASK);
                b = XSpi_mSetControlReg io x ControlReg b;
                b = XSpi_mIntrGlobalEnable io x b
            in Some (XST_SUCCESS, x, b)))"

definition XSpi_Stop :: "'b mmio \<Rightarrow> 'h xspi \<times> 'b \<Rightarrow> (xstatus \<times> 'h xspi \<times> 'b) option" where
  "XSpi_Stop io xb =
     (let (x, b) = xb
      in if \<not> IsReady x then None
         else if IsBusy x then Some (XST_DEVICE_BUSY, x, b)
         else
           (let b = XSpi_mIntrGlobalDisable io x b;
                (ControlReg, b) = XSpi_mGetControlReg io x b;
                b = XSpi_mSetControlReg io x (ControlReg AND NOT XSP_CR_ENABLE_MASK) b
            in Some (XST_SUCCESS, x\<lparr>IsStarted := False\<rparr>, b)))"

definition XSpi_SetSlaveSelect :: "u32 \<Rightarrow> 'h xspi \<Rightarrow> (xstatus \<times> 'h xspi) option" where
  "XSpi_SetSlaveSelect SlaveMask x =
     (if \<not> IsReady x then None
      else if IsBusy x then Some (XST_DEVICE_BUSY, x)
      else
        (let NumAsserted = length (filter (\<lambda>Index. drop_bit Index SlaveMask AND 1 = 1)
                                     (rev [0..<unat (NumSlaveBits x)]))
         in if NumAsserted > 1 then Some (XST_SPI_TOO_MANY_SLAVES, x)
            else Some (XST_SUCCESS, x\<lparr>SlaveSelectReg := NOT SlaveMask\<rparr>)))"

definition XSpi_GetSlaveSelect :: "'b mmio \<Rightarrow> 'h xspi \<times> 'b \<Rightarrow> (u32 \<times> 'b) option" where
  "XSpi_GetSlaveSelect io xb =
     (let (x, b) = xb
      in if \<not> IsReady x then None
         else (let (SsReg, b) = XSpi_mGetSlaveSelectReg io x b in Some (NOT (SlaveSelectReg x), b)))"

definition XSpi_SetStatusHandler :: "'h \<Rightarrow> 'h xspi \<Rightarrow> 'h xspi option" where
  "XSpi_SetStatusHandler FuncPtr x =
     (if IsReady x then Some (x\<lparr>StatusHandler := Some FuncPtr\<rparr>) else None)"

section \<open>Options and statistics\<close>

definition OptionsTable :: "(u32 \<times> u16) list" where
  "OptionsTable =
     [(XSP_LOOPBACK_OPTION, XSP_CR_LOOPBACK_MASK),
      (XSP_CLK_ACTIVE_LOW_OPTION, XSP_CR_CLK_POLARITY_MASK),
      (XSP_CLK_PHASE_1_OPTION, XSP_CR_CLK_PHASE_MASK),
      (XSP_MASTER_OPTION, XSP_CR_MASTER_MODE_MASK),
      (XSP_MANUAL_SSELECT_OPTION, XSP_CR_MANUAL_SS_MASK)]"

definition apply_options :: "u32 \<Rightarrow> u16 \<Rightarrow> u16" where
  "apply_options Options ControlReg =
     fold (\<lambda>(opt, mask) r. if Options AND opt \<noteq> 0 then r OR mask else r AND NOT mask)
       OptionsTable ControlReg"

definition read_options :: "u16 \<Rightarrow> u32" where
  "read_options ControlReg =
     fold (\<lambda>(opt, mask) f. if ControlReg AND mask \<noteq> 0 then f OR opt else f) OptionsTable 0"

definition XSpi_SetOptions ::
  "'b mmio \<Rightarrow> u32 \<Rightarrow> 'h xspi \<times> 'b \<Rightarrow> (xstatus \<times> 'h xspi \<times> 'b) option" where
  "XSpi_SetOptions io Options xb =
     (let (x, b) = xb
      in if \<not> IsReady x then None
         else if IsBusy x then Some (XST_DEVICE_BUSY, x, b)
         else if Options AND XSP_MASTER_OPTION \<noteq> 0 \<and> SlaveOnly x then Some (XST_SPI_SLAVE_ONLY, x, b)
         else
           (let (ControlReg, b) = XSpi_mGetControlReg io x b
            in Some (XST_SUCCESS, x, XSpi_mSetControlReg io x (apply_options Options ControlReg) b)))"

definition XSpi_GetOptions :: "'b mmio \<Rightarrow> 'h xspi \<times> 'b \<Rightarrow> (u32 \<times> 'b) option" where
  "XSpi_GetOptions io xb =
     (let (x, b) = xb
      in if \<not> IsReady x then None
         else (let (ControlReg, b) = XSpi_mGetControlReg io x b in Some (read_options ControlReg, b)))"

definition XSpi_GetStats :: "'h xspi \<Rightarrow> xspi_stats option" where
  "XSpi_GetStats x = (if IsReady x then Some (Stats x) else None)"

definition XSpi_ClearStats :: "'h xspi \<Rightarrow> 'h xspi option" where
  "XSpi_ClearStats x = (if IsReady x then Some (x\<lparr>Stats := no_stats\<rparr>) else None)"

section \<open>Transfer\<close>

text \<open>
  One pass of a send loop: the next byte, half word or word (big endian) of the send buffer to
  the transmit register. A data width that is none of the three leaves everything as it is.
\<close>

definition spi_put :: "'b mmio \<Rightarrow> 'h xspi \<times> 'b \<Rightarrow> ('h xspi \<times> 'b) option" where
  "spi_put io xb =
     (let (x, b) = xb; p = SendOffset x; buf = SendBuffer x
      in if DataWidth x = XSP_DATAWIDTH_BYTE then
           do { d \<leftarrow> arr_get buf p;
                Some (x\<lparr>SendOffset := p + 1, RemainingBytes := RemainingBytes x - 1\<rparr>,
                      io_out8 io (BaseAddr x + XSP_DTR_OFFSET) d b) }
         else if DataWidth x = XSP_DATAWIDTH_HALF_WORD then
           do { d0 \<leftarrow> arr_get buf p; d1 \<leftarrow> arr_get buf (p + 1);
                Some (x\<lparr>SendOffset := p + 2, RemainingBytes := RemainingBytes x - 2\<rparr>,
                      io_out16 io (BaseAddr x + XSP_DTR_OFFSET - 1)
                        (push_bit 8 (ucast d0) OR ucast d1) b) }
         else if DataWidth x = XSP_DATAWIDTH_WORD then
           do { d0 \<leftarrow> arr_get buf p; d1 \<leftarrow> arr_get buf (p + 1);
                d2 \<leftarrow> arr_get buf (p + 2); d3 \<leftarrow> arr_get buf (p + 3);
                Some (x\<lparr>SendOffset := p + 4, RemainingBytes := RemainingBytes x - 4\<rparr>,
                      io_out32 io (BaseAddr x + XSP_DTR_OFFSET - 3)
                        (push_bit 24 (ucast d0) OR push_bit 16 (ucast d1) OR
                         push_bit 8 (ucast d2) OR ucast d3) b) }
         else Some (x, b))"

text \<open>Storing received bytes, if there is a receive buffer.\<close>

definition spi_store :: "u8 list \<Rightarrow> 'h xspi \<Rightarrow> 'h xspi option" where
  "spi_store ds x =
     (case RecvBuffer x of
        None \<Rightarrow> Some x
      | Some buf \<Rightarrow>
          if RecvOffset x + length ds \<le> length buf then
            Some (x\<lparr>RecvBuffer := Some (take (RecvOffset x) buf @ ds @
                                          drop (RecvOffset x + length ds) buf),
                    RecvOffset := RecvOffset x + length ds\<rparr>)
          else None)"

text \<open>One pass of a receive loop; \<open>n\<close> is the local \<^verbatim>\<open>ByteCount\<close> of the polled transfer.\<close>

definition spi_get :: "'b mmio \<Rightarrow> 'h xspi \<times> 'b \<times> u32 \<Rightarrow> ('h xspi \<times> 'b \<times> u32) option" where
  "spi_get io xbn =
     (let (x, b, n) = xbn;
          count = (\<lambda>k. x\<lparr>Stats := (Stats x)\<lparr>BytesTransferred := BytesTransferred (Stats x) + k\<rparr>\<rparr>)
      in if DataWidth x = XSP_DATAWIDTH_BYTE then
           (let (d, b) = io_in8 io (BaseAddr x + XSP_DRR_OFFSET) b
            in do { x \<leftarrow> spi_store [d] (count 1); Some (x, b, n - 1) })
         else if DataWidth x = XSP_DATAWIDTH_HALF_WORD then
           (let (d, b) = io_in16 io (BaseAddr x + XSP_DRR_OFFSET - 1) b
            in do { x \<leftarrow> spi_store [ucast (drop_bit 8 d), ucast d] (count 2); Some (x, b, n - 2) })
         else if DataWidth x = XSP_DATAWIDTH_WORD then
           (let (d, b) = io_in32 io (BaseAddr x + XSP_DRR_OFFSET - 3) b
            in do { x \<leftarrow> spi_store [ucast (drop_bit 24 d), ucast (drop_bit 16 d),
                                    ucast (drop_bit 8 d), ucast d] (count 4);
                    Some (x, b, n - 4) })
         else Some (x, b, n))"

text \<open>The four loops: fill the transmit FIFO, wait for it to drain, empty the receive FIFO.\<close>

partial_function (option) spi_fill :: "'b mmio \<Rightarrow> 'h xspi \<times> 'b \<Rightarrow> ('h xspi \<times> 'b) option" where
  "spi_fill io xb =
     (let (x, b) = xb; (StatusReg, b) = XSpi_mGetStatusReg io x b
      in if StatusReg AND XSP_SR_TX_FULL_MASK = 0 \<and> RemainingBytes x > 0
         then do { xb \<leftarrow> spi_put io (x, b); spi_fill io xb }
         else Some (x, b))"

partial_function (option) spi_wait :: "'b mmio \<Rightarrow> 'h xspi \<Rightarrow> 'b \<Rightarrow> 'b option" where
  "spi_wait io x b =
     (let (StatusReg, b) = XSpi_mGetStatusReg io x b
      in if StatusReg AND XSP_SR_TX_EMPTY_MASK = 0 then spi_wait io x b else Some b)"

partial_function (option) spi_drain ::
  "'b mmio \<Rightarrow> 'h xspi \<times> 'b \<times> u32 \<Rightarrow> ('h xspi \<times> 'b \<times> u32) option" where
  "spi_drain io xbn =
     (let (x, b, n) = xbn; (StatusReg, b) = XSpi_mGetStatusReg io x b
      in if StatusReg AND XSP_SR_RX_EMPTY_MASK = 0
         then do { xbn \<leftarrow> spi_get io (x, b, n); spi_drain io xbn }
         else Some (x, b, n))"

definition spi_inhibit :: "'b mmio \<Rightarrow> 'h xspi \<Rightarrow> 'b \<Rightarrow> 'b" where
  "spi_inhibit io x b =
     (let (ControlReg, b) = XSpi_mGetControlReg io x b
      in XSpi_mSetControlReg io x (ControlReg OR XSP_CR_TRANS_INHIBIT_MASK) b)"

definition spi_release :: "'b mmio \<Rightarrow> 'h xspi \<Rightarrow> 'b \<Rightarrow> 'b" where
  "spi_release io x b =
     (let (ControlReg, b) = XSpi_mGetControlReg io x b
      in XSpi_mSetControlReg io x (ControlReg AND NOT XSP_CR_TRANS_INHIBIT_MASK) b)"

text \<open>The polled part: \<open>while (ByteCount > 0)\<close>.\<close>

partial_function (option) spi_poll :: "'b mmio \<Rightarrow> 'h xspi \<times> 'b \<times> u32 \<Rightarrow> ('h xspi \<times> 'b) option" where
  "spi_poll io xbn =
     (let (x, b, n) = xbn
      in if n > 0 then
           do { b \<leftarrow> spi_wait io x b;
                (x, b, n) \<leftarrow> spi_drain io (x, spi_inhibit io x b, n);
                if RemainingBytes x > 0 then
                  do { (x, b) \<leftarrow> spi_fill io (x, b); spi_poll io (x, spi_release io x b, n) }
                else spi_poll io (x, b, n) }
         else Some (x, b))"

definition XSpi_Transfer ::
  "'b mmio \<Rightarrow> u8 list \<Rightarrow> u8 list option \<Rightarrow> u32 \<Rightarrow> 'h xspi \<times> 'b
   \<Rightarrow> (xstatus \<times> 'h xspi \<times> 'b) option" where
  "XSpi_Transfer io SendBuf RecvBuf ByteCount xb =
     (let (x, b) = xb
      in if \<not> IsReady x \<or> ByteCount = 0 then None
         else if \<not> IsStarted x then Some (XST_DEVICE_IS_STOPPED, x, b)
         else if IsBusy x then Some (XST_DEVICE_BUSY, x, b)
         else
           (let (GlobalIntrReg, b) = XSpi_mIsIntrGlobalEnabled io x b;
                b = XSpi_mIntrGlobalDisable io x b;
                (ControlReg, b) = XSpi_mGetControlReg io x b
            in if ControlReg AND XSP_CR_MASTER_MODE_MASK \<noteq> 0 \<and> ControlReg AND XSP_CR_LOOPBACK_MASK = 0 \<and>
                  SlaveSelectReg x = SlaveSelectMask x
               then Some (XST_SPI_NO_SLAVE, x, XSpi_mIntrGlobalEnable io x b)
               else
                 (let b = XSpi_mSetSlaveSelectReg io x (SlaveSelectReg x) b;
                      x = x\<lparr>IsBusy := True, SendBuffer := SendBuf, SendOffset := 0,
                             RecvBuffer := RecvBuf, RecvOffset := 0,
                             RequestedBytes := ByteCount, RemainingBytes := ByteCount\<rparr>
                  in do { (x, b) \<leftarrow> spi_fill io (x, b);
                          let b = spi_release io x b;
                          if GlobalIntrReg then
                            Some (XST_SUCCESS, x, XSpi_mIntrGlobalEnable io x
                                    (XSpi_mIntrEnable io x XSP_INTR_TX_EMPTY_MASK b))
                          else
                            do { (x, b) \<leftarrow> spi_poll io (x, b, ByteCount);
                                 let b = spi_inhibit io x b;
                                 let b = XSpi_mSetSlaveSelectReg io x (SlaveSelectMask x) b;
                                 Some (XST_SUCCESS, x\<lparr>IsBusy := False\<rparr>, b) } })))"

section \<open>Interrupt handler\<close>

text \<open>
  \<open>call\<close> is the call through the status handler pointer: it may use the driver again.
\<close>

definition spi_notify ::
  "('h \<Rightarrow> xstatus \<Rightarrow> u32 \<Rightarrow> 'h xspi \<times> 'b \<Rightarrow> ('h xspi \<times> 'b) option) \<Rightarrow> xstatus \<Rightarrow> u32
   \<Rightarrow> 'h xspi \<times> 'b \<Rightarrow> ('h xspi \<times> 'b) option" where
  "spi_notify call st n xb =
     (case StatusHandler (fst xb) of None \<Rightarrow> None | Some h \<Rightarrow> call h st n xb)"

definition spi_intr_tx_empty ::
  "('h \<Rightarrow> xstatus \<Rightarrow> u32 \<Rightarrow> 'h xspi \<times> 'b \<Rightarrow> ('h xspi \<times> 'b) option) \<Rightarrow> 'b mmio
   \<Rightarrow> 'h xspi \<times> 'b \<Rightarrow> ('h xspi \<times> 'b) option" where
  "spi_intr_tx_empty call io xb =
     (let (x, b) = xb;
          (ControlReg, b) = XSpi_mGetControlReg io x b;
          b = XSpi_mSetControlReg io x (ControlReg OR XSP_CR_TRANS_INHIBIT_MASK) b
      in do { (x, b, _) \<leftarrow> spi_drain io (x, b, 0);
              if RemainingBytes x > 0 then
                do { (x, b) \<leftarrow> spi_fill io (x, b); Some (x, XSpi_mSetControlReg io x ControlReg b) }
              else
                (let b = XSpi_mSetSlaveSelectReg io x (SlaveSelectMask x) b;
                     b = XSpi_mIntrDisable io x XSP_INTR_TX_EMPTY_MASK b
                 in spi_notify call XST_SPI_TRANSFER_DONE (RequestedBytes x)
                      (x\<lparr>IsBusy := False\<rparr>, b)) })"

text \<open>One error interrupt: count it with \<open>upd\<close> and report the bytes done so far.\<close>

definition spi_intr_error ::
  "('h \<Rightarrow> xstatus \<Rightarrow> u32 \<Rightarrow> 'h xspi \<times> 'b \<Rightarrow> ('h xspi \<times> 'b) option) \<Rightarrow> (xspi_stats \<Rightarrow> xspi_stats)
   \<Rightarrow> xstatus \<Rightarrow> 'h xspi \<times> 'b \<Rightarrow> ('h xspi \<times> 'b) option" where
  "spi_intr_error call upd st xb =
     (let (x, b) = xb
      in spi_notify call st (RequestedBytes x - RemainingBytes x) (x\<lparr>Stats := upd (Stats x)\<rparr>, b))"

definition XSpi_InterruptHandler ::
  "('h \<Rightarrow> xstatus \<Rightarrow> u32 \<Rightarrow> 'h xspi \<times> 'b \<Rightarrow> ('h xspi \<times> 'b) option) \<Rightarrow> 'b mmio
   \<Rightarrow> 'h xspi \<times> 'b \<Rightarrow> ('h xspi \<times> 'b) option" where
  "XSpi_InterruptHandler call io xb =
     (let (x, b) = xb;
          x = x\<lparr>Stats := (Stats x)\<lparr>NumInterrupts := NumInterrupts (Stats x) + 1\<rparr>\<rparr>;
          (IntrStatus, b) = XSpi_mIntrGetStatus io x b;
          b = XSpi_mIntrClear io x IntrStatus b
      in if IntrStatus AND XSP_INTR_MODE_FAULT_MASK \<noteq> 0 then
           (let BytesDone = RequestedBytes x - RemainingBytes x;
                x = x\<lparr>Stats := (Stats x)\<lparr>ModeFaults := ModeFaults (Stats x) + 1\<rparr>\<rparr>;
                (x, b) = XSpi_Abort io (x, b);
                (_, b) = XSpi_mGetStatusReg io x b
            in spi_notify call XST_SPI_MODE_FAULT BytesDone (x, b))
         else
           do { xb \<leftarrow> (if IntrStatus AND XSP_INTR_TX_EMPTY_MASK \<noteq> 0
                       then spi_intr_tx_empty call io (x, b) else Some (x, b));
                xb \<leftarrow> (if IntrStatus AND XSP_INTR_SLAVE_MODE_FAULT_MASK \<noteq> 0
                       then spi_intr_error call (\<lambda>s. s\<lparr>SlaveModeFaults := SlaveModeFaults s + 1\<rparr>)
                              XST_SPI_SLAVE_MODE_FAULT xb else Some xb);
                xb \<leftarrow> (if IntrStatus AND XSP_INTR_RX_OVERRUN_MASK \<noteq> 0
                       then spi_intr_error call (\<lambda>s. s\<lparr>RecvOverruns := RecvOverruns s + 1\<rparr>)
                              XST_SPI_RECEIVE_OVERRUN xb else Some xb);
                if IntrStatus AND XSP_INTR_TX_UNDERRUN_MASK \<noteq> 0
                then spi_intr_error call (\<lambda>s. s\<lparr>XmitUnderruns := XmitUnderruns s + 1\<rparr>)
                       XST_SPI_TRANSMIT_UNDERRUN xb else Some xb })"

section \<open>Self test\<close>

definition XSP_CR_RESET_STATE :: u16 where [spi_regs]: "XSP_CR_RESET_STATE = 0x180"
definition XSP_SR_RESET_STATE :: u8 where [spi_regs]: "XSP_SR_RESET_STATE = 0x5"
definition XSP_HALF_WORD_TESTBYTE :: u32 where [spi_regs]: "XSP_HALF_WORD_TESTBYTE = 0x2200"
definition XSP_WORD_TESTBYTE :: u32 where [spi_regs]: "XSP_WORD_TESTBYTE = 0xAA005500"

text \<open>Fill the transmitter with the test value; \<open>n\<close> is \<^verbatim>\<open>NumSent\<close>.\<close>

partial_function (option) loop_fill :: "'b mmio \<Rightarrow> 'h xspi \<Rightarrow> u32 \<Rightarrow> 'b \<times> u32 \<Rightarrow> ('b \<times> u32) option" where
  "loop_fill io x Data bn =
     (let (b, n) = bn; (StatusReg, b) = XSpi_mGetStatusReg io x b
      in if StatusReg AND XSP_SR_TX_FULL_MASK = 0 then
           if DataWidth x = XSP_DATAWIDTH_BYTE then
             loop_fill io x Data (io_out8 io (BaseAddr x + XSP_DTR_OFFSET) (ucast Data) b, n + 1)
           else if DataWidth x = XSP_DATAWIDTH_HALF_WORD then
             loop_fill io x Data (io_out16 io (BaseAddr x + XSP_DTR_OFFSET - 1)
                                    (ucast (Data + XSP_HALF_WORD_TESTBYTE)) b, n + 2)
           else if DataWidth x = XSP_DATAWIDTH_WORD then
             loop_fill io x Data (io_out32 io (BaseAddr x + XSP_DTR_OFFSET - 3)
                                    (Data + XSP_WORD_TESTBYTE) b, n + 4)
           else loop_fill io x Data (b, n)
         else Some (b, n))"

text \<open>
  Read back and compare; \<open>StatusReg\<close> is the status the loop starts with and \<open>n\<close> is
  \<^verbatim>\<open>NumRecvd\<close>. The flag of the result is false when a value differs.
\<close>

partial_function (option) loop_check ::
  "'b mmio \<Rightarrow> 'h xspi \<Rightarrow> u32 \<Rightarrow> u8 \<times> 'b \<times> u32 \<Rightarrow> (bool \<times> 'b \<times> u32) option" where
  "loop_check io x Index sbn =
     (let (StatusReg, b, n) = sbn
      in if StatusReg AND XSP_SR_RX_EMPTY_MASK = 0 then
           (let (ok, b, n) =
                  (if DataWidth x = XSP_DATAWIDTH_BYTE then
                     (let (d, b) = io_in8 io (BaseAddr x + XSP_DRR_OFFSET) b
                      in (ucast d = Index, b, n + 1))
                   else if DataWidth x = XSP_DATAWIDTH_HALF_WORD then
                     (let (d, b) = io_in16 io (BaseAddr x + XSP_DRR_OFFSET - 1) b
                      in (d = ucast (Index + XSP_HALF_WORD_TESTBYTE), b, n + 2))
                   else if DataWidth x = XSP_DATAWIDTH_WORD then
                     (let (d, b) = io_in32 io (BaseAddr x + XSP_DRR_OFFSET - 3) b
                      in (d = Index + XSP_WORD_TESTBYTE, b, n + 4))
                   else (True, b, n))
            in if \<not> ok then Some (False, b, n)
               else (let (StatusReg, b) = XSpi_mGetStatusReg io x b
                     in loop_check io x Index (StatusReg, b, n)))
         else Some (True, b, n))"

partial_function (option) loop_wait :: "'b mmio \<Rightarrow> 'h xspi \<Rightarrow> 'b \<Rightarrow> (u8 \<times> 'b) option" where
  "loop_wait io x b =
     (let (StatusReg, b) = XSpi_mGetStatusReg io x b
      in if StatusReg AND XSP_SR_TX_EMPTY_MASK = 0 then loop_wait io x b else Some (StatusReg, b))"

fun loop_rounds ::
  "'b mmio \<Rightarrow> 'h xspi \<Rightarrow> u32 list \<Rightarrow> 'b \<times> u32 \<times> u32 \<Rightarrow> (xstatus \<times> 'b) option" where
  "loop_rounds io x [] (b, NumSent, NumRecvd) =
     Some (if NumSent \<noteq> NumRecvd then XST_LOOPBACK_ERROR else XST_SUCCESS, b)"
| "loop_rounds io x (Index # rest) (b, NumSent, NumRecvd) =
     do { (b, NumSent) \<leftarrow> loop_fill io x Index (b, NumSent);
          let (ControlReg, b) = XSpi_mGetControlReg io x b;
          let ControlReg = ControlReg AND NOT XSP_CR_TRANS_INHIBIT_MASK;
          let b = XSpi_mSetControlReg io x (ControlReg OR XSP_CR_ENABLE_MASK) b;
          (StatusReg, b) \<leftarrow> loop_wait io x b;
          (ok, b, NumRecvd) \<leftarrow> loop_check io x Index (StatusReg, b, NumRecvd);
          if \<not> ok then Some (XST_LOOPBACK_ERROR, b)
          else
            (let ControlReg = ControlReg OR XSP_CR_TRANS_INHIBIT_MASK;
                 b = XSpi_mSetControlReg io x (ControlReg AND NOT XSP_CR_ENABLE_MASK) b
             in loop_rounds io x rest (b, NumSent, NumRecvd)) }"

definition LoopbackTest :: "'b mmio \<Rightarrow> 'h xspi \<times> 'b \<Rightarrow> (xstatus \<times> 'b) option" where
  "LoopbackTest io xb =
     (let (x, b) = xb
      in if SlaveOnly x then Some (XST_SUCCESS, b)
         else
           (let (ControlReg, b) = XSpi_mGetControlReg io x b;
                b = XSpi_mSetControlReg io x
                      (ControlReg OR (XSP_CR_LOOPBACK_MASK OR XSP_CR_MASTER_MODE_MASK)) b;
                b = XSpi_mIntrGlobalDisable io x b
            in loop_rounds io x [0, 1, 2, 3] (b, 0, 0)))"

definition XSpi_SelfTest :: "'b mmio \<Rightarrow> 'h xspi \<times> 'b \<Rightarrow> (xstatus \<times> 'h xspi \<times> 'b) option" where
  "XSpi_SelfTest io xb =
     (if \<not> IsReady (fst xb) then None
      else
        do { (x, b) \<leftarrow> XSpi_Reset io xb;
             let (cr, b) = XSpi_mGetControlReg io x b;
             if cr \<noteq> XSP_CR_RESET_STATE then Some (XST_REGISTER_ERROR, x, b)
             else
               (let (sr, b) = XSpi_mGetStatusReg io x b
                in if sr \<noteq> XSP_SR_RESET_STATE then Some (XST_REGISTER_ERROR, x, b)
                   else
                     (let (ss, b) = XSpi_mGetSlaveSelectReg io x b
                      in if ss \<noteq> SlaveSelectMask x then Some (XST_REGISTER_ERROR, x, b)
                         else
                           (let (fifo_ok, b) =
                                  (if HasFifos x then
                                     (let (t, b) = io_in8 io (BaseAddr x + XSP_TFO_OFFSET) b
                                      in if t \<noteq> 0 then (False, b)
                                         else (let (r, b) = io_in8 io (BaseAddr x + XSP_RFO_OFFSET) b
                                               in (r = 0, b)))
                                   else (True, b))
                            in if \<not> fifo_ok then Some (XST_REGISTER_ERROR, x, b)
                               else
                                 do { (Result, b) \<leftarrow> LoopbackTest io (x, b);
                                      if Result \<noteq> XST_SUCCESS then Some (Result, x, b)
                                      else do { (x, b) \<leftarrow> XSpi_Reset io (x, b);
                                                Some (XST_SUCCESS, x, b) } }))) })"

section \<open>What the driver needs of the SPI core\<close>

text \<open>
  The software's view of the core: the bytes in the two FIFOs, the control and slave select
  registers, the global interrupt enable and the state \<open>'d\<close> of whatever is wired to the bus;
  \<open>slave ss c\<close> is its answer to the byte \<open>c\<close> clocked out while the select lines are \<open>ss\<close>.
\<close>

record 'd spi_view =
  sv_tx :: "u8 list"
  sv_rx :: "u8 list"
  sv_cr :: u16
  sv_ss :: u32
  sv_gie :: bool
  sv_dev :: 'd

fun exchange :: "(u32 \<Rightarrow> u8 \<Rightarrow> 'd \<Rightarrow> u8 \<times> 'd) \<Rightarrow> u32 \<Rightarrow> u8 list \<Rightarrow> 'd \<Rightarrow> u8 list \<times> 'd" where
  "exchange slave ss [] d = ([], d)"
| "exchange slave ss (c # cs) d =
     (let (r, d) = slave ss c d; (rs, d) = exchange slave ss cs d in (r # rs, d))"

definition sv_adv :: "(u32 \<Rightarrow> u8 \<Rightarrow> 'd \<Rightarrow> u8 \<times> 'd) \<Rightarrow> nat \<Rightarrow> 'd spi_view \<Rightarrow> 'd spi_view" where
  "sv_adv slave k v =
     (let (rs, d) = exchange slave (sv_ss v) (take k (sv_tx v)) (sv_dev v)
      in v\<lparr>sv_tx := drop k (sv_tx v), sv_rx := sv_rx v @ rs, sv_dev := d\<rparr>)"

abbreviation sv_held :: "'d spi_view \<Rightarrow> bool" where
  "sv_held v \<equiv> bit (sv_cr v) 8"

lemma exchange_length [simp]: "length (fst (exchange slave ss cs d)) = length cs"
  by (induction cs arbitrary: d) (simp_all add: case_prod_beta)

lemma exchange_append:
  "exchange slave ss (xs @ ys) d =
     (let (rs, d1) = exchange slave ss xs d; (rs', d2) = exchange slave ss ys d1 in (rs @ rs', d2))"
  by (induction xs arbitrary: d) (simp_all add: case_prod_beta)

lemma sv_adv_add:
  "k \<le> length (sv_tx v) \<Longrightarrow> sv_adv slave l (sv_adv slave k v) = sv_adv slave (k + l) v"
  by (simp add: sv_adv_def case_prod_beta take_add exchange_append Let_def add.commute)

text \<open>
  The laws, each from the register descriptions of the core. Transmission is held while the
  inhibit bit is set; otherwise bytes are exchanged between one status read and the next, and
  \<open>lag\<close> bounds the number of reads before the transmitter is empty.
\<close>

locale spi_core =
  fixes io :: "'b mmio"
    and base :: u32
    and depth :: nat
    and slave :: "u32 \<Rightarrow> u8 \<Rightarrow> 'd \<Rightarrow> u8 \<times> 'd"
    and vw :: "'b \<Rightarrow> 'd spi_view"
    and lag :: "'b \<Rightarrow> nat"
  assumes depth_pos: "0 < depth"
    and status_held: "sv_held (vw b) \<Longrightarrow> io_in8 io (base + XSP_SR_OFFSET) b = (st, b') \<Longrightarrow>
      vw b' = vw b \<and> bit st 3 = (depth \<le> length (sv_tx (vw b))) \<and> bit st 0 = (sv_rx (vw b) = [])"
    and status_runs: "\<not> sv_held (vw b) \<Longrightarrow> io_in8 io (base + XSP_SR_OFFSET) b = (st, b') \<Longrightarrow>
      \<exists>k \<le> length (sv_tx (vw b)). vw b' = sv_adv slave k (vw b) \<and>
        bit st 2 = (sv_tx (vw b') = []) \<and> (sv_tx (vw b') \<noteq> [] \<longrightarrow> lag b' < lag b)"
    and cr_read: "sv_held (vw b) \<or> sv_tx (vw b) = [] \<Longrightarrow>
      io_in16 io (base + XSP_CR_OFFSET) b = (c, b') \<Longrightarrow> c = sv_cr (vw b) \<and> vw b' = vw b"
    and cr_write: "sv_held (vw b) \<or> sv_tx (vw b) = [] \<Longrightarrow> c AND 0x60 = 0 \<Longrightarrow>
      vw (io_out16 io (base + XSP_CR_OFFSET) c b) = (vw b)\<lparr>sv_cr := c\<rparr>"
    and dtr_write: "sv_held (vw b) \<Longrightarrow> length (sv_tx (vw b)) < depth \<Longrightarrow>
      vw (io_out8 io (base + XSP_DTR_OFFSET) d b) = (vw b)\<lparr>sv_tx := sv_tx (vw b) @ [d]\<rparr>"
    and drr_read: "sv_held (vw b) \<Longrightarrow> sv_rx (vw b) = y # ys \<Longrightarrow>
      io_in8 io (base + XSP_DRR_OFFSET) b = (d, b') \<Longrightarrow> d = y \<and> vw b' = (vw b)\<lparr>sv_rx := ys\<rparr>"
    and gie_read: "sv_held (vw b) \<Longrightarrow> io_in32 io (base + XSP_DGIER_OFFSET) b = (r, b') \<Longrightarrow>
      (r = XSP_GINTR_ENABLE_MASK) = sv_gie (vw b) \<and> vw b' = vw b"
    and gie_write: "sv_held (vw b) \<Longrightarrow>
      vw (io_out32 io (base + XSP_DGIER_OFFSET) r b) = (vw b)\<lparr>sv_gie := (r = XSP_GINTR_ENABLE_MASK)\<rparr>"
    and ss_write: "sv_held (vw b) \<Longrightarrow>
      vw (io_out32 io (base + XSP_SSR_OFFSET) r b) = (vw b)\<lparr>sv_ss := r\<rparr>"

text \<open>The effect of the loops on the instance.\<close>

definition spi_sent :: "nat \<Rightarrow> 'h xspi \<Rightarrow> 'h xspi" where
  "spi_sent k x = x\<lparr>SendOffset := SendOffset x + k, RemainingBytes := RemainingBytes x - of_nat k\<rparr>"

definition spi_recvd :: "u8 list \<Rightarrow> 'h xspi \<Rightarrow> 'h xspi" where
  "spi_recvd rs x =
     x\<lparr>Stats := (Stats x)\<lparr>BytesTransferred := BytesTransferred (Stats x) + of_nat (length rs)\<rparr>,
       RecvBuffer := map_option (\<lambda>buf. take (RecvOffset x) buf @ rs @
                                         drop (RecvOffset x + length rs) buf) (RecvBuffer x),
       RecvOffset := (if RecvBuffer x = None then RecvOffset x else RecvOffset x + length rs)\<rparr>"

definition recv_room :: "nat \<Rightarrow> 'h xspi \<Rightarrow> bool" where
  "recv_room n x \<longleftrightarrow> (\<forall>buf. RecvBuffer x = Some buf \<longrightarrow> RecvOffset x + n \<le> length buf)"

lemma spi_sent_0 [simp]: "spi_sent 0 x = x"
  by (simp add: spi_sent_def)

lemma spi_sent_add: "spi_sent l (spi_sent k x) = spi_sent (k + l) x"
  by (simp add: spi_sent_def algebra_simps)

lemma spi_sent_recvd: "spi_sent k (spi_recvd rs x) = spi_recvd rs (spi_sent k x)"
  by (cases x) (simp add: spi_sent_def spi_recvd_def)

lemma spi_recvd_append:
  assumes "recv_room (length rs + length rs') x"
  shows "spi_recvd rs' (spi_recvd rs x) = spi_recvd (rs @ rs') x"
  using assms
  by (cases "RecvBuffer x") (auto simp: spi_recvd_def recv_room_def min.absorb2 algebra_simps)

lemma spi_sel [simp]:
  "BaseAddr (spi_sent k x) = BaseAddr x" "BaseAddr (spi_recvd rs x) = BaseAddr x"
  "DataWidth (spi_sent k x) = DataWidth x" "DataWidth (spi_recvd rs x) = DataWidth x"
  "SendBuffer (spi_sent k x) = SendBuffer x" "SendBuffer (spi_recvd rs x) = SendBuffer x"
  "SendOffset (spi_sent k x) = SendOffset x + k" "SendOffset (spi_recvd rs x) = SendOffset x"
  "RemainingBytes (spi_sent k x) = RemainingBytes x - of_nat k"
  "RemainingBytes (spi_recvd rs x) = RemainingBytes x"
  "recv_room n (spi_sent k x) = recv_room n x"
  by (simp_all add: spi_sent_def spi_recvd_def recv_room_def)

lemma recv_room_recvd: "recv_room (length rs + n) x \<Longrightarrow> recv_room n (spi_recvd rs x)"
  by (auto simp: recv_room_def spi_recvd_def)

lemma bit_masks:
  "(st :: u8) AND XSP_SR_TX_FULL_MASK = 0 \<longleftrightarrow> \<not> bit st 3"
  "st AND XSP_SR_TX_EMPTY_MASK = 0 \<longleftrightarrow> \<not> bit st 2"
  "st AND XSP_SR_RX_EMPTY_MASK = 0 \<longleftrightarrow> \<not> bit st 0"
proof -
  have "st AND push_bit n 1 = 0 \<longleftrightarrow> \<not> bit st n" if "n < 8" for n
    using and_exp_eq_0_iff_not_bit [of st n] by simp
  from this [of 3] this [of 2] this [of 0]
  show "st AND XSP_SR_TX_FULL_MASK = 0 \<longleftrightarrow> \<not> bit st 3"
    "st AND XSP_SR_TX_EMPTY_MASK = 0 \<longleftrightarrow> \<not> bit st 2"
    "st AND XSP_SR_RX_EMPTY_MASK = 0 \<longleftrightarrow> \<not> bit st 0"
    by (simp_all add: spi_regs)
qed

lemma cr_bits:
  fixes c :: u16
  shows "bit (c OR XSP_CR_TRANS_INHIBIT_MASK) 8"
    and "\<not> bit (c AND NOT XSP_CR_TRANS_INHIBIT_MASK) 8"
    and "c AND 0x60 = 0 \<Longrightarrow> (c OR XSP_CR_TRANS_INHIBIT_MASK) AND 0x60 = 0"
    and "c AND 0x60 = 0 \<Longrightarrow> (c AND NOT XSP_CR_TRANS_INHIBIT_MASK) AND 0x60 = 0"
    and "\<not> bit c 8 \<Longrightarrow> (c OR XSP_CR_TRANS_INHIBIT_MASK) AND NOT XSP_CR_TRANS_INHIBIT_MASK = c"
    and "(c AND NOT XSP_CR_TRANS_INHIBIT_MASK) OR XSP_CR_TRANS_INHIBIT_MASK =
         c OR XSP_CR_TRANS_INHIBIT_MASK"
    and "bit c 8 \<Longrightarrow> c OR XSP_CR_TRANS_INHIBIT_MASK = c"
proof -
  define m :: u16 where "m = 2 ^ 8"
  have m: "XSP_CR_TRANS_INHIBIT_MASK = m" by (simp add: spi_regs m_def)
  have bm: "bit m n \<longleftrightarrow> n = 8" for n
    unfolding m_def bit_exp_iff by auto
  have m60: "m AND 0x60 = 0" by (simp add: m_def)
  show "bit (c OR XSP_CR_TRANS_INHIBIT_MASK) 8" "\<not> bit (c AND NOT XSP_CR_TRANS_INHIBIT_MASK) 8"
    by (simp_all add: m bm bit_or_iff bit_and_iff bit_not_iff)
  show "(c OR XSP_CR_TRANS_INHIBIT_MASK) AND 0x60 = 0" if "c AND 0x60 = 0"
    using that m60 by (simp add: m bit.conj_disj_distrib2)
  show "(c AND NOT XSP_CR_TRANS_INHIBIT_MASK) AND 0x60 = 0" if "c AND 0x60 = 0"
  proof -
    have "(c AND NOT m) AND 0x60 = (c AND 0x60) AND NOT m" by (simp only: ac_simps)
    then show ?thesis using that by (simp add: m)
  qed
  show "(c OR XSP_CR_TRANS_INHIBIT_MASK) AND NOT XSP_CR_TRANS_INHIBIT_MASK = c" if "\<not> bit c 8"
    using that by (intro bit_word_eqI) (auto simp: m bm bit_or_iff bit_and_iff bit_not_iff)
  show "(c AND NOT XSP_CR_TRANS_INHIBIT_MASK) OR XSP_CR_TRANS_INHIBIT_MASK =
         c OR XSP_CR_TRANS_INHIBIT_MASK"
    by (intro bit_word_eqI) (auto simp: m bm bit_or_iff bit_and_iff bit_not_iff)
  show "c OR XSP_CR_TRANS_INHIBIT_MASK = c" if "bit c 8"
    using that by (intro bit_word_eqI) (auto simp: m bm bit_or_iff)
qed

section \<open>The loops on such a core\<close>

context spi_core
begin

lemma fill:
  assumes "BaseAddr x = base" "DataWidth x = XSP_DATAWIDTH_BYTE" "sv_held (vw b)"
    and "SendOffset x + unat (RemainingBytes x) \<le> length (SendBuffer x)"
  shows "\<exists>k b'. spi_fill io (x, b) = Some (spi_sent k x, b') \<and> k \<le> unat (RemainingBytes x) \<and>
     (0 < unat (RemainingBytes x) \<and> length (sv_tx (vw b)) < depth \<longrightarrow> 0 < k) \<and>
     vw b' = (vw b)\<lparr>sv_tx := sv_tx (vw b) @ take k (drop (SendOffset x) (SendBuffer x))\<rparr>"
  using assms
proof (induction "unat (RemainingBytes x)" arbitrary: x b)
  case 0
  obtain st b1 where rd: "io_in8 io (base + XSP_SR_OFFSET) b = (st, b1)" by fastforce
  have "vw b1 = vw b" using status_held [OF 0(4) rd] by simp
  moreover have "RemainingBytes x = 0" using 0(1) by (simp add: word_unat_eq_iff)
  ultimately show ?case
    using 0 rd by (subst spi_fill.simps)
      (auto simp: XSpi_mGetStatusReg_def intro!: exI [of _ "0 :: nat"])
next
  case (Suc r)
  obtain st b1 where rd: "io_in8 io (base + XSP_SR_OFFSET) b = (st, b1)" by fastforce
  have b1: "vw b1 = vw b" "bit st 3 = (depth \<le> length (sv_tx (vw b)))"
    using status_held [OF Suc.prems(3) rd] by simp_all
  have pos: "0 < RemainingBytes x" "0 < unat (RemainingBytes x)"
    using Suc.hyps(2) by (simp_all add: word_less_nat_alt)
  show ?case
  proof (cases "depth \<le> length (sv_tx (vw b))")
    case True
    then show ?thesis
      using b1 rd Suc.prems(1) by (subst spi_fill.simps)
        (auto simp: XSpi_mGetStatusReg_def bit_masks intro!: exI [of _ "0 :: nat"])
  next
    case False
    define p where "p = SendOffset x"
    have p: "p < length (SendBuffer x)" using Suc.prems(4) pos by (simp add: p_def)
    define b2 where "b2 = io_out8 io (base + XSP_DTR_OFFSET) (SendBuffer x ! p) b1"
    have b2: "vw b2 = (vw b)\<lparr>sv_tx := sv_tx (vw b) @ [SendBuffer x ! p]\<rparr>"
      using dtr_write [of b1] Suc.prems(3) False b1 by (simp add: b2_def)
    have put: "spi_put io (x, b1) = Some (spi_sent 1 x, b2)"
      using Suc.prems(1,2) p by (simp add: spi_put_def array_simps spi_sent_def b2_def p_def Let_def)
    have rem: "unat (RemainingBytes (spi_sent 1 x)) = r"
      using Suc.hyps(2) pos unat_pred_pos [of "RemainingBytes x"] by simp
    obtain k b' where k: "spi_fill io (spi_sent 1 x, b2) = Some (spi_sent k (spi_sent 1 x), b')" "k \<le> r"
        "vw b' = (vw b2)\<lparr>sv_tx := sv_tx (vw b2) @ take k (drop (Suc p) (SendBuffer x))\<rparr>"
      using Suc.hyps(1) [of "spi_sent 1 x" b2] Suc.prems rem b2 Suc.hyps(2) by (auto simp: p_def)
    have "take (Suc k) (drop p (SendBuffer x)) = SendBuffer x ! p # take k (drop (Suc p) (SendBuffer x))"
      using p by (metis Cons_nth_drop_Suc take_Suc_Cons)
    then have "vw b' = (vw b)\<lparr>sv_tx := sv_tx (vw b) @ take (Suc k) (drop p (SendBuffer x))\<rparr>"
      using k(3) b2 by simp
    moreover have "spi_fill io (x, b) = Some (spi_sent (Suc k) x, b')"
      using rd b1 False Suc.prems(1) pos put k(1)
      by (subst spi_fill.simps) (simp add: XSpi_mGetStatusReg_def bit_masks spi_sent_add)
    ultimately show ?thesis using k(2) Suc.hyps(2) by (auto simp: p_def)
  qed
qed

lemma wait:
  assumes "BaseAddr x = base" "\<not> sv_held (vw b)"
  shows "\<exists>b'. spi_wait io x b = Some b' \<and> vw b' = sv_adv slave (length (sv_tx (vw b))) (vw b)"
  using assms(2)
proof (induction "lag b" arbitrary: b rule: less_induct)
  case less
  obtain st b1 where rd: "io_in8 io (base + XSP_SR_OFFSET) b = (st, b1)" by fastforce
  obtain k where k: "k \<le> length (sv_tx (vw b))" "vw b1 = sv_adv slave k (vw b)"
      "bit st 2 = (sv_tx (vw b1) = [])" "sv_tx (vw b1) \<noteq> [] \<Longrightarrow> lag b1 < lag b"
    using status_runs [OF less.prems rd] by blast
  have tx: "sv_tx (vw b1) = drop k (sv_tx (vw b))" "sv_cr (vw b1) = sv_cr (vw b)"
    using k(2) by (simp_all add: sv_adv_def case_prod_beta)
  show ?case
  proof (cases "sv_tx (vw b1) = []")
    case True
    then have "k = length (sv_tx (vw b))" using tx k(1) by simp
    then show ?thesis
      using True k rd assms(1)
      by (subst spi_wait.simps) (simp add: XSpi_mGetStatusReg_def bit_masks)
  next
    case False
    have "length (sv_tx (vw b1)) + k = length (sv_tx (vw b))" using tx k(1) by simp
    then have "sv_adv slave (length (sv_tx (vw b1))) (vw b1) = sv_adv slave (length (sv_tx (vw b))) (vw b)"
      using k(1,2) by (simp add: sv_adv_add add.commute)
    then show ?thesis
      using less.hyps [of b1] False k rd assms(1) tx less.prems
      by (subst spi_wait.simps) (simp add: XSpi_mGetStatusReg_def bit_masks)
  qed
qed

lemma drain:
  assumes "BaseAddr x = base" "DataWidth x = XSP_DATAWIDTH_BYTE" "sv_held (vw b)"
    and "recv_room (length (sv_rx (vw b))) x"
  shows "\<exists>b'. spi_drain io (x, b, n) = Some (spi_recvd (sv_rx (vw b)) x, b', n - of_nat (length (sv_rx (vw b)))) \<and>
     vw b' = (vw b)\<lparr>sv_rx := []\<rparr>"
  using assms
proof (induction "sv_rx (vw b)" arbitrary: x b n)
  case Nil
  note rx = Nil.hyps(1) [symmetric]
  obtain st b1 where rd: "io_in8 io (base + XSP_SR_OFFSET) b = (st, b1)" by fastforce
  have b1: "vw b1 = vw b" "bit st 0" using status_held [OF Nil.prems(3) rd] rx by simp_all
  have "spi_recvd [] x = x" by (cases "RecvBuffer x") (auto simp: spi_recvd_def)
  moreover have "(vw b)\<lparr>sv_rx := []\<rparr> = vw b" using rx by (cases "vw b") simp
  ultimately show ?case
    unfolding rx using b1 rd Nil.prems(1)
    by (subst spi_drain.simps) (simp add: XSpi_mGetStatusReg_def bit_masks)
next
  case (Cons y ys)
  note rx = Cons.hyps(2) [symmetric]
  obtain st b1 where rd: "io_in8 io (base + XSP_SR_OFFSET) b = (st, b1)" by fastforce
  have b1: "vw b1 = vw b" "\<not> bit st 0"
    using status_held [OF Cons.prems(3) rd] rx by simp_all
  obtain d b2 where rd2: "io_in8 io (base + XSP_DRR_OFFSET) b1 = (d, b2)" by fastforce
  have b2: "d = y" "vw b2 = (vw b)\<lparr>sv_rx := ys\<rparr>"
    using drr_read [OF _ _ rd2, of y ys] b1 Cons.prems(3) rx by simp_all
  have get: "spi_get io (x, b1, n) = Some (spi_recvd [y] x, b2, n - 1)"
    using Cons.prems b2(1) rd2 rx
    by (cases "RecvBuffer x") (simp_all add: spi_get_def spi_store_def spi_recvd_def recv_room_def)
  have room: "recv_room (length ys) (spi_recvd [y] x)"
    using recv_room_recvd [of "[y]" "length ys" x] Cons.prems(4) rx by simp
  have "ys = sv_rx (vw b2)" "sv_held (vw b2)" using b2(2) Cons.prems(3) by simp_all
  with Cons.hyps(1) [of b2 "spi_recvd [y] x" "n - 1"] Cons.prems(1,2) room
  obtain b' where b': "spi_drain io (spi_recvd [y] x, b2, n - 1) =
      Some (spi_recvd ys (spi_recvd [y] x), b', n - 1 - of_nat (length ys))" "vw b' = (vw b2)\<lparr>sv_rx := []\<rparr>"
    by auto
  have "spi_recvd ys (spi_recvd [y] x) = spi_recvd (y # ys) x"
    using spi_recvd_append [of "[y]" ys x] Cons.prems(4) rx by simp
  moreover have "n - 1 - of_nat (length ys) = n - of_nat (length (y # ys))" by simp
  moreover have "spi_drain io (x, b, n) = spi_drain io (spi_recvd [y] x, b2, n - 1)"
    using rd b1 get Cons.prems(1)
    by (subst spi_drain.simps) (simp add: XSpi_mGetStatusReg_def bit_masks)
  ultimately show ?case using b' b2(2) unfolding rx by simp
qed

end

lemma unat_u32_lt: "unat (w :: u32) < 2 ^ 32"
  using unsigned_less [of w] by simp

context spi_core
begin

lemma inhibit:
  assumes "BaseAddr x = base" "sv_held (vw b) \<or> sv_tx (vw b) = []" "sv_cr (vw b) AND 0x60 = 0"
  shows "vw (spi_inhibit io x b) = (vw b)\<lparr>sv_cr := sv_cr (vw b) OR XSP_CR_TRANS_INHIBIT_MASK\<rparr>"
proof -
  obtain c b1 where rd: "io_in16 io (base + XSP_CR_OFFSET) b = (c, b1)" by fastforce
  with cr_read [OF assms(2) rd] cr_write [of b1 "c OR XSP_CR_TRANS_INHIBIT_MASK"] assms
  show ?thesis
    by (simp add: spi_inhibit_def XSpi_mGetControlReg_def XSpi_mSetControlReg_def cr_bits)
qed

lemma release:
  assumes "BaseAddr x = base" "sv_held (vw b) \<or> sv_tx (vw b) = []" "sv_cr (vw b) AND 0x60 = 0"
  shows "vw (spi_release io x b) = (vw b)\<lparr>sv_cr := sv_cr (vw b) AND NOT XSP_CR_TRANS_INHIBIT_MASK\<rparr>"
proof -
  obtain c b1 where rd: "io_in16 io (base + XSP_CR_OFFSET) b = (c, b1)" by fastforce
  with cr_read [OF assms(2) rd] cr_write [of b1 "c AND NOT XSP_CR_TRANS_INHIBIT_MASK"] assms
  show ?thesis
    by (simp add: spi_release_def XSpi_mGetControlReg_def XSpi_mSetControlReg_def cr_bits)
qed

text \<open>One round of the polled loop: everything in the transmitter is exchanged and stored.\<close>

lemma poll_round:
  assumes "BaseAddr x = base" "DataWidth x = XSP_DATAWIDTH_BYTE" "\<not> sv_held (vw b)"
    and "sv_rx (vw b) = []" "sv_cr (vw b) AND 0x60 = 0" "recv_room (length (sv_tx (vw b))) x"
  defines "ex \<equiv> exchange slave (sv_ss (vw b)) (sv_tx (vw b)) (sv_dev (vw b))"
  shows "\<exists>b1 b2. spi_wait io x b = Some b1 \<and>
     spi_drain io (x, spi_inhibit io x b1, n) =
       Some (spi_recvd (fst ex) x, b2, n - of_nat (length (sv_tx (vw b)))) \<and>
     vw b2 = (vw b)\<lparr>sv_tx := [], sv_cr := sv_cr (vw b) OR XSP_CR_TRANS_INHIBIT_MASK, sv_dev := snd ex\<rparr>"
proof -
  obtain b1 where b1: "spi_wait io x b = Some b1" "vw b1 = sv_adv slave (length (sv_tx (vw b))) (vw b)"
    using wait [OF assms(1,3)] by blast
  have v1: "vw b1 = (vw b)\<lparr>sv_tx := [], sv_rx := fst ex, sv_dev := snd ex\<rparr>"
    using assms(4) by (simp add: b1(2) sv_adv_def ex_def case_prod_beta)
  define b2 where "b2 = spi_inhibit io x b1"
  have v2: "vw b2 = (vw b)\<lparr>sv_tx := [], sv_rx := fst ex, sv_dev := snd ex,
      sv_cr := sv_cr (vw b) OR XSP_CR_TRANS_INHIBIT_MASK\<rparr>"
    using inhibit [OF assms(1), of b1] assms(5) by (simp add: v1 b2_def)
  then obtain b3 where b3: "spi_drain io (x, b2, n) = Some (spi_recvd (fst ex) x, b3,
      n - of_nat (length (fst ex)))" "vw b3 = (vw b2)\<lparr>sv_rx := []\<rparr>"
    using drain [OF assms(1,2), of b2 n] assms(6) cr_bits(1) by (auto simp: ex_def)
  have "vw b3 = (vw b)\<lparr>sv_tx := [], sv_cr := sv_cr (vw b) OR XSP_CR_TRANS_INHIBIT_MASK, sv_dev := snd ex\<rparr>"
    using b3(2) v2 assms(4) by (cases "vw b") simp
  then show ?thesis using b1(1) b3(1) by (auto simp: b2_def ex_def)
qed

lemma poll:
  fixes x :: "'h xspi"
  assumes "BaseAddr x = base" "DataWidth x = XSP_DATAWIDTH_BYTE" "\<not> sv_held (vw b)"
    and "sv_rx (vw b) = []" "sv_cr (vw b) AND 0x60 = 0" "recv_room (unat n) x"
    and "SendOffset x + unat (RemainingBytes x) \<le> length (SendBuffer x)"
    and "unat n = length (sv_tx (vw b)) + unat (RemainingBytes x)" "sv_tx (vw b) \<noteq> []"
  defines "r \<equiv> unat (RemainingBytes x)"
  defines "ex \<equiv> exchange slave (sv_ss (vw b)) (sv_tx (vw b) @ take r (drop (SendOffset x) (SendBuffer x)))
     (sv_dev (vw b))"
  shows "\<exists>b'. spi_poll io (x, b, n) = Some (spi_recvd (fst ex) (spi_sent r x), b') \<and>
     vw b' = (vw b)\<lparr>sv_tx := [], sv_cr := sv_cr (vw b) OR XSP_CR_TRANS_INHIBIT_MASK, sv_dev := snd ex\<rparr>"
  using assms(1-9) unfolding r_def ex_def
proof (induction "unat n" arbitrary: x b n rule: less_induct)
  case (less n x b)
  note prems = less.prems
  define r where "r = unat (RemainingBytes x)"
  define ts where "ts = sv_tx (vw b)"
  define e1 where "e1 = exchange slave (sv_ss (vw b)) ts (sv_dev (vw b))"
  define n1 where "n1 = n - of_nat (length ts)"
  have lt: "length ts \<le> unat n" "0 < length ts" using prems(8,9) by (simp_all add: ts_def)
  have small: "unat (of_nat (length ts) :: u32) = length ts"
    using lt unat_u32_lt [of n] by (intro unat_of_nat_eq_small) simp
  have n1: "unat n1 = r"
    unfolding n1_def using small lt prems(8) by (subst unat_sub) (simp_all add: word_le_nat_alt r_def ts_def)
  have room: "recv_room (length ts) x" "recv_room (length ts + r) x"
    using prems(6,8) by (auto simp: recv_room_def ts_def r_def)
  obtain b1 b2 where b2: "spi_wait io x b = Some b1"
      "spi_drain io (x, spi_inhibit io x b1, n) = Some (spi_recvd (fst e1) x, b2, n1)"
      "vw b2 = (vw b)\<lparr>sv_tx := [], sv_cr := sv_cr (vw b) OR XSP_CR_TRANS_INHIBIT_MASK, sv_dev := snd e1\<rparr>"
    using poll_round [OF prems(1-5) room(1) [unfolded ts_def], of n] by (auto simp: e1_def ts_def n1_def)
  have "0 < unat n" using lt by linarith
  then have npos: "0 < n" by (simp add: word_less_nat_alt)
  define x1 where "x1 = spi_recvd (fst e1) x"
  have len1: "length (fst e1) = length ts" by (simp add: e1_def)
  show ?case
  proof (cases "r = 0")
    case True
    then have "n1 = 0" "RemainingBytes x = 0" using n1 by (simp_all add: r_def word_unat_eq_iff)
    then have "spi_poll io (x, b, n) = Some (x1, b2)"
      using b2(1,2) npos by (subst spi_poll.simps, simp, subst spi_poll.simps) (simp add: x1_def)
    then show ?thesis
      using True b2(3) by (simp add: r_def e1_def ts_def x1_def)
  next
    case False
    have held: "sv_held (vw b2)" using b2(3) cr_bits(1) by simp
    have rem: "RemainingBytes x1 = RemainingBytes x" "SendOffset x1 = SendOffset x" "SendBuffer x1 = SendBuffer x"
        "BaseAddr x1 = base" "DataWidth x1 = XSP_DATAWIDTH_BYTE"
      using prems(1,2) by (simp_all add: x1_def)
    obtain k b3 where k: "spi_fill io (x1, b2) = Some (spi_sent k x1, b3)" "k \<le> r" "0 < k"
        "vw b3 = (vw b2)\<lparr>sv_tx := take k (drop (SendOffset x) (SendBuffer x))\<rparr>"
      using fill [OF rem(4,5) held] prems(7) False depth_pos b2(3) rem by (auto simp: r_def)
    define b4 where "b4 = spi_release io (spi_sent k x1) b3"
    have v4: "vw b4 = (vw b)\<lparr>sv_tx := take k (drop (SendOffset x) (SendBuffer x)), sv_dev := snd e1\<rparr>"
      using release [of "spi_sent k x1" b3] rem(4) k(4) b2(3) prems(3,5) cr_bits
      by (simp add: b4_def)
    have step: "spi_poll io (x, b, n) = spi_poll io (spi_sent k x1, b4, n1)"
    proof -
      have "0 < RemainingBytes x1" using False rem(1) by (simp add: r_def word_less_nat_alt)
      then show ?thesis
        using b2(1,2) npos k(1) by (subst spi_poll.simps) (simp add: x1_def b4_def)
    qed
    define buf where "buf = drop (SendOffset x) (SendBuffer x)"
    have buf: "r \<le> length buf" using prems(7) by (simp add: buf_def r_def)
    have u: "unat (RemainingBytes (spi_sent k x1)) = r - k"
    proof -
      have "unat (of_nat k :: u32) = k"
        using k(2) unat_u32_lt [of "RemainingBytes x"] by (intro unat_of_nat_eq_small) (simp add: r_def)
      then show ?thesis using rem(1) k(2) by (simp add: unat_sub word_le_nat_alt r_def)
    qed
    define e2 where "e2 = exchange slave (sv_ss (vw b)) (take r buf) (snd e1)"
    have split: "take k buf @ take (r - k) (drop k buf) = take r buf"
      using k(2) by (metis le_add_diff_inverse take_add)
    have "recv_room r (spi_sent k x1)"
      using room(2) recv_room_recvd [of "fst e1" r x] len1 by (simp add: x1_def)
    moreover have "sv_tx (vw b4) \<noteq> []" "r = length (sv_tx (vw b4)) + (r - k)"
      using v4 k(2,3) buf by (auto simp flip: buf_def)
    ultimately obtain b' where b': "spi_poll io (spi_sent k x1, b4, n1) =
        Some (spi_recvd (fst e2) (spi_sent (r - k) (spi_sent k x1)), b')"
        "vw b' = (vw b4)\<lparr>sv_tx := [], sv_cr := sv_cr (vw b4) OR XSP_CR_TRANS_INHIBIT_MASK, sv_dev := snd e2\<rparr>"
      using less.hyps [of n1 "spi_sent k x1" b4] n1 u rem v4 prems(3-5,7,8) lt split False k(2)
      by (auto simp: e2_def buf_def r_def ts_def add.commute)
    have "spi_recvd (fst e2) (spi_sent (r - k) (spi_sent k x1)) = spi_recvd (fst e1 @ fst e2) (spi_sent r x)"
      using k(2) room(2) len1 buf spi_recvd_append [of "fst e1" "fst e2" "spi_sent r x"]
      by (simp add: spi_sent_add x1_def spi_sent_recvd e2_def)
    moreover have "exchange slave (sv_ss (vw b)) (ts @ take r buf) (sv_dev (vw b)) = (fst e1 @ fst e2, snd e2)"
      by (simp add: exchange_append e1_def e2_def case_prod_beta)
    ultimately show ?thesis
      using step b' v4 by (simp add: r_def ts_def buf_def)
  qed
qed

end

section \<open>The polled transfer\<close>

text \<open>A started byte-wide instance between transfers, with interrupts off.\<close>

definition spi_idle :: "u32 \<Rightarrow> 'h xspi \<Rightarrow> 'd spi_view \<Rightarrow> bool" where
  "spi_idle base x v \<longleftrightarrow>
     IsReady x \<and> IsStarted x \<and> \<not> IsBusy x \<and> BaseAddr x = base \<and> DataWidth x = XSP_DATAWIDTH_BYTE \<and>
     sv_held v \<and> sv_tx v = [] \<and> sv_rx v = [] \<and> sv_cr v AND 0x60 = 0 \<and> \<not> sv_gie v"

definition spi_no_slave :: "'h xspi \<Rightarrow> 'd spi_view \<Rightarrow> bool" where
  "spi_no_slave x v \<longleftrightarrow>
     sv_cr v AND XSP_CR_MASTER_MODE_MASK \<noteq> 0 \<and> sv_cr v AND XSP_CR_LOOPBACK_MASK = 0 \<and>
     SlaveSelectReg x = SlaveSelectMask x"

lemma view_eqI:
  fixes v w :: "'d spi_view"
  shows "sv_tx v = sv_tx w \<Longrightarrow> sv_rx v = sv_rx w \<Longrightarrow> sv_cr v = sv_cr w \<Longrightarrow> sv_ss v = sv_ss w \<Longrightarrow>
    sv_gie v = sv_gie w \<Longrightarrow> sv_dev v = sv_dev w \<Longrightarrow> v = w"
  by (cases v; cases w) simp

context spi_core
begin

lemma transfer_entry:
  assumes "spi_idle base x (vw b)"
  defines "gi \<equiv> XSpi_mIsIntrGlobalEnabled io x b"
  defines "cr \<equiv> XSpi_mGetControlReg io x (XSpi_mIntrGlobalDisable io x (snd gi))"
  shows "\<not> fst gi" "fst cr = sv_cr (vw b)" "vw (snd cr) = vw b"
proof -
  have b: "sv_held (vw b)" "\<not> sv_gie (vw b)" "BaseAddr x = base" using assms(1) by (simp_all add: spi_idle_def)
  obtain r b1 where rd: "io_in32 io (base + XSP_DGIER_OFFSET) b = (r, b1)" by fastforce
  have b1: "r \<noteq> XSP_GINTR_ENABLE_MASK" "vw b1 = vw b" using gie_read [OF b(1) rd] b(2) by simp_all
  then have gi: "gi = (False, b1)"
    using rd b(3) by (simp add: gi_def XSpi_mIsIntrGlobalEnabled_def)
  then show "\<not> fst gi" by simp
  define b2 where "b2 = io_out32 io (base + XSP_DGIER_OFFSET) 0 b1"
  have b2: "vw b2 = vw b"
    using gie_write [of b1 0] b b1 by (auto simp: b2_def spi_regs intro!: view_eqI)
  obtain c b3 where rd2: "io_in16 io (base + XSP_CR_OFFSET) b2 = (c, b3)" by fastforce
  have "c = sv_cr (vw b)" "vw b3 = vw b" using cr_read [OF _ rd2] b b2 by simp_all
  moreover have "cr = (c, b3)"
    using rd2 b(3) gi by (simp add: cr_def XSpi_mGetControlReg_def XSpi_mIntrGlobalDisable_def b2_def)
  ultimately show "fst cr = sv_cr (vw b)" "vw (snd cr) = vw b" by simp_all
qed

lemma transfer:
  fixes x :: "'h xspi" and b :: 'b
  assumes idle: "spi_idle base x (vw b)" "\<not> spi_no_slave x (vw b)"
    and n: "n \<noteq> 0" "unat n \<le> length buf" "\<And>r. recv = Some r \<Longrightarrow> unat n \<le> length r"
  defines "ex \<equiv> exchange slave (SlaveSelectReg x) (take (unat n) buf) (sv_dev (vw b))"
  shows "\<exists>x' b'. XSpi_Transfer io buf recv n (x, b) = Some (XST_SUCCESS, x', b') \<and>
     spi_idle base x' (vw b') \<and> sv_dev (vw b') = snd ex \<and> sv_ss (vw b') = SlaveSelectMask x \<and>
     sv_cr (vw b') = sv_cr (vw b) \<and> SlaveSelectReg x' = SlaveSelectReg x \<and>
     SlaveSelectMask x' = SlaveSelectMask x \<and>
     RecvBuffer x' = map_option (\<lambda>r. fst ex @ drop (unat n) r) recv \<and> NumSlaveBits x' = NumSlaveBits x"
proof -
  have ok: "IsReady x" "IsStarted x" "\<not> IsBusy x" "BaseAddr x = base" "DataWidth x = XSP_DATAWIDTH_BYTE"
      "sv_held (vw b)" "sv_tx (vw b) = []" "sv_rx (vw b) = []" "sv_cr (vw b) AND 0x60 = 0" "\<not> sv_gie (vw b)"
    using idle(1) by (simp_all add: spi_idle_def)
  define gi where "gi = XSpi_mIsIntrGlobalEnabled io x b"
  define cr where "cr = XSpi_mGetControlReg io x (XSpi_mIntrGlobalDisable io x (snd gi))"
  note entry = transfer_entry [OF idle(1), folded gi_def, folded cr_def]
  define b1 where "b1 = XSpi_mSetSlaveSelectReg io x (SlaveSelectReg x) (snd cr)"
  have v1: "vw b1 = (vw b)\<lparr>sv_ss := SlaveSelectReg x\<rparr>"
    using ss_write [of "snd cr"] entry(3) ok by (simp add: b1_def XSpi_mSetSlaveSelectReg_def)
  define x1 where "x1 = x\<lparr>IsBusy := True, SendBuffer := buf, SendOffset := 0, RecvBuffer := recv,
      RecvOffset := 0, RequestedBytes := n, RemainingBytes := n\<rparr>"
  have x1: "BaseAddr x1 = base" "DataWidth x1 = XSP_DATAWIDTH_BYTE" "SendOffset x1 = 0" "SendBuffer x1 = buf"
      "RemainingBytes x1 = n" "recv_room (unat n) x1"
    using ok n(3) by (auto simp: x1_def recv_room_def)
  have npos: "0 < unat n" using n(1) by (simp add: unat_gt_0)
  obtain k b2 where k: "spi_fill io (x1, b1) = Some (spi_sent k x1, b2)" "k \<le> unat n" "0 < k"
      "vw b2 = (vw b1)\<lparr>sv_tx := take k buf\<rparr>"
    using fill [of x1 b1] x1 v1 ok n(2) npos depth_pos by auto
  define b3 where "b3 = spi_release io (spi_sent k x1) b2"
  have v3: "vw b3 = (vw b)\<lparr>sv_ss := SlaveSelectReg x, sv_tx := take k buf,
      sv_cr := sv_cr (vw b) AND NOT XSP_CR_TRANS_INHIBIT_MASK\<rparr>"
    using release [of "spi_sent k x1" b2] x1 k(4) v1 ok by (simp add: b3_def)
  have ksmall: "unat (of_nat k :: u32) = k"
    using k(2) unat_u32_lt [of n] by (intro unat_of_nat_eq_small) simp
  have rem: "unat (RemainingBytes (spi_sent k x1)) = unat n - k"
    using x1(5) k(2) ksmall by (simp add: unat_sub word_le_nat_alt)
  have split: "take k buf @ take (unat n - k) (drop k buf) = take (unat n) buf"
    using k(2) by (metis le_add_diff_inverse take_add)
  obtain b4 where b4: "spi_poll io (spi_sent k x1, b3, n) =
      Some (spi_recvd (fst ex) (spi_sent (unat n - k) (spi_sent k x1)), b4)"
      "vw b4 = (vw b3)\<lparr>sv_tx := [], sv_cr := sv_cr (vw b3) OR XSP_CR_TRANS_INHIBIT_MASK, sv_dev := snd ex\<rparr>"
  proof -
    have "\<not> sv_held (vw b3)" "sv_rx (vw b3) = []" "sv_cr (vw b3) AND 0x60 = 0" "sv_tx (vw b3) \<noteq> []"
        "unat n = length (sv_tx (vw b3)) + unat (RemainingBytes (spi_sent k x1))"
      using v3 ok cr_bits k(2,3) n(2) npos rem by auto
    from poll [OF _ _ this(1-3) _ _ this(5,4)] x1 rem n(2) k(2) v3 that split show ?thesis
      by (auto simp: ex_def)
  qed
  define x2 where "x2 = spi_recvd (fst ex) (spi_sent (unat n) x1)"
  have x2: "spi_recvd (fst ex) (spi_sent (unat n - k) (spi_sent k x1)) = x2"
    using k(2) by (simp add: x2_def spi_sent_add)
  define b5 where "b5 = XSpi_mSetSlaveSelectReg io x2 (SlaveSelectMask x2) (spi_inhibit io x2 b4)"
  have "XSpi_Transfer io buf recv n (x, b) = Some (XST_SUCCESS, x2\<lparr>IsBusy := False\<rparr>, b5)"
    using ok n(1) idle(2) entry k(1) b4(1) x2
    unfolding XSpi_Transfer_def spi_no_slave_def
    by (simp add: case_prod_beta Let_def flip: gi_def cr_def b1_def x1_def b3_def b5_def)
  moreover have "vw b5 = (vw b)\<lparr>sv_ss := SlaveSelectMask x, sv_dev := snd ex\<rparr>"
  proof -
    have crb: "(sv_cr (vw b) AND NOT XSP_CR_TRANS_INHIBIT_MASK) OR XSP_CR_TRANS_INHIBIT_MASK = sv_cr (vw b)"
      using cr_bits(6,7) ok(6) by simp
    then have v4: "vw b4 = (vw b)\<lparr>sv_ss := SlaveSelectReg x, sv_dev := snd ex\<rparr>"
      using b4(2) v3 ok(7) by (intro view_eqI) simp_all
    have base2: "BaseAddr x2 = base" "SlaveSelectMask x2 = SlaveSelectMask x"
      using ok(4) by (simp_all add: x2_def x1_def spi_recvd_def spi_sent_def)
    have "vw (spi_inhibit io x2 b4) = vw b4"
      using inhibit [OF base2(1), of b4] v4 ok cr_bits(7) by (intro view_eqI) simp_all
    then show ?thesis
      using ss_write [of "spi_inhibit io x2 b4"] v4 ok(6) base2
      by (simp add: b5_def XSpi_mSetSlaveSelectReg_def)
  qed
  moreover have "RecvBuffer x2 = map_option (\<lambda>r. fst ex @ drop (unat n) r) recv"
    using n(2) by (simp add: x2_def spi_recvd_def spi_sent_def x1_def ex_def min_def)
  ultimately show ?thesis
    using ok by (auto simp: spi_idle_def x2_def spi_recvd_def spi_sent_def x1_def)
qed

end

section \<open>A core that satisfies the laws\<close>

text \<open>
  A register-level simulation of such a core with FIFOs of any depth, in front of any slave:
  \<open>sc_sched\<close> lists how many bytes have been shifted by each status read, and the transmitter
  has run empty when the list ends. It shows that the laws can be met together, and witnesses
  are evaluated on it.
\<close>

record 'd spi_sim =
  sc_view :: "'d spi_view"
  sc_sched :: "nat list"

definition sim_tick :: "(u32 \<Rightarrow> u8 \<Rightarrow> 'd \<Rightarrow> u8 \<times> 'd) \<Rightarrow> 'd spi_sim \<Rightarrow> 'd spi_sim" where
  "sim_tick slave s =
     (if sv_held (sc_view s) then s
      else case sc_sched s of
             [] \<Rightarrow> s\<lparr>sc_view := sv_adv slave (length (sv_tx (sc_view s))) (sc_view s)\<rparr>
           | k # ks \<Rightarrow> s\<lparr>sc_view := sv_adv slave (min k (length (sv_tx (sc_view s)))) (sc_view s),
                         sc_sched := ks\<rparr>)"

definition sim_status :: "nat \<Rightarrow> 'd spi_view \<Rightarrow> u8" where
  "sim_status depth v =
     (if sv_rx v = [] then XSP_SR_RX_EMPTY_MASK else 0) OR
     (if sv_tx v = [] then XSP_SR_TX_EMPTY_MASK else 0) OR
     (if depth \<le> length (sv_tx v) then XSP_SR_TX_FULL_MASK else 0)"

definition sim_in8 ::
  "u32 \<Rightarrow> nat \<Rightarrow> (u32 \<Rightarrow> u8 \<Rightarrow> 'd \<Rightarrow> u8 \<times> 'd) \<Rightarrow> u32 \<Rightarrow> 'd spi_sim \<Rightarrow> u8 \<times> 'd spi_sim" where
  "sim_in8 base depth slave addr s =
     (if addr = base + XSP_SR_OFFSET then
        (let s = sim_tick slave s in (sim_status depth (sc_view s), s))
      else if addr = base + XSP_DRR_OFFSET then
        (case sv_rx (sc_view s) of
           [] \<Rightarrow> (0, s)
         | c # cs \<Rightarrow> (c, s\<lparr>sc_view := (sc_view s)\<lparr>sv_rx := cs\<rparr>\<rparr>))
      else (0, s))"

definition sim_out8 :: "u32 \<Rightarrow> nat \<Rightarrow> u32 \<Rightarrow> u8 \<Rightarrow> 'd spi_sim \<Rightarrow> 'd spi_sim" where
  "sim_out8 base depth addr d s =
     (if addr = base + XSP_DTR_OFFSET \<and> length (sv_tx (sc_view s)) < depth
      then s\<lparr>sc_view := (sc_view s)\<lparr>sv_tx := sv_tx (sc_view s) @ [d]\<rparr>\<rparr> else s)"

definition sim_in16 :: "u32 \<Rightarrow> u32 \<Rightarrow> 'd spi_sim \<Rightarrow> u16 \<times> 'd spi_sim" where
  "sim_in16 base addr s = (if addr = base + XSP_CR_OFFSET then sv_cr (sc_view s) else 0, s)"

definition sim_out16 :: "u32 \<Rightarrow> u32 \<Rightarrow> u16 \<Rightarrow> 'd spi_sim \<Rightarrow> 'd spi_sim" where
  "sim_out16 base addr c s =
     (if addr = base + XSP_CR_OFFSET then
        (let v = sc_view s
         in s\<lparr>sc_view := v\<lparr>sv_cr := c AND NOT 0x60,
              sv_tx := (if c AND XSP_CR_TXFIFO_RESET_MASK = 0 then sv_tx v else []),
              sv_rx := (if c AND XSP_CR_RXFIFO_RESET_MASK = 0 then sv_rx v else [])\<rparr>\<rparr>)
      else s)"

definition sim_in32 :: "u32 \<Rightarrow> u32 \<Rightarrow> 'd spi_sim \<Rightarrow> u32 \<times> 'd spi_sim" where
  "sim_in32 base addr s =
     (if addr = base + XSP_DGIER_OFFSET then if sv_gie (sc_view s) then XSP_GINTR_ENABLE_MASK else 0
      else if addr = base + XSP_SSR_OFFSET then sv_ss (sc_view s) else 0, s)"

definition sim_out32 :: "u32 \<Rightarrow> u32 \<Rightarrow> u32 \<Rightarrow> 'd spi_sim \<Rightarrow> 'd spi_sim" where
  "sim_out32 base addr r s =
     (if addr = base + XSP_DGIER_OFFSET then
        s\<lparr>sc_view := (sc_view s)\<lparr>sv_gie := (r = XSP_GINTR_ENABLE_MASK)\<rparr>\<rparr>
      else if addr = base + XSP_SSR_OFFSET then s\<lparr>sc_view := (sc_view s)\<lparr>sv_ss := r\<rparr>\<rparr>
      else if addr = base + XSP_SRR_OFFSET \<and> r = XSP_SRR_RESET_MASK then
        s\<lparr>sc_view := (sc_view s)\<lparr>sv_tx := [], sv_rx := [], sv_cr := 0x180, sv_gie := False\<rparr>\<rparr>
      else s)"

definition spi_sim_io :: "u32 \<Rightarrow> nat \<Rightarrow> (u32 \<Rightarrow> u8 \<Rightarrow> 'd \<Rightarrow> u8 \<times> 'd) \<Rightarrow> 'd spi_sim mmio" where
  "spi_sim_io base depth slave =
     \<lparr>io_in8 = sim_in8 base depth slave, io_in16 = sim_in16 base, io_in32 = sim_in32 base,
      io_out8 = sim_out8 base depth, io_out16 = sim_out16 base, io_out32 = sim_out32 base\<rparr>"

lemma sim_status_bits:
  "bit (sim_status depth v) 0 = (sv_rx v = [])"
  "bit (sim_status depth v) 2 = (sv_tx v = [])"
  "bit (sim_status depth v) 3 = (depth \<le> length (sv_tx v))"
  by (simp_all add: sim_status_def spi_regs bit_or_iff bit_0)

lemma cr_keep:
  fixes c :: u16
  assumes "c AND 0x60 = 0"
  shows "c AND NOT 0x60 = c" "c AND 0x20 = 0" "c AND 0x40 = 0"
proof -
  have "c = c AND (0x60 OR NOT 0x60)" by simp
  also have "\<dots> = (c AND 0x60) OR (c AND NOT 0x60)" by (simp only: bit.conj_disj_distrib)
  finally show "c AND NOT 0x60 = c" using assms by simp
  have "c AND 0x20 = (c AND 0x60) AND 0x20" "c AND 0x40 = (c AND 0x60) AND 0x40"
    by (simp_all add: and.assoc)
  then show "c AND 0x20 = 0" "c AND 0x40 = 0" using assms by simp_all
qed

interpretation sim: spi_core "spi_sim_io base (Suc depth) slave" base "Suc depth" slave sc_view
  "\<lambda>s. length (sc_sched s)" for base depth slave
proof unfold_locales
  fix b b' :: "'a spi_sim" and st
  assume "sv_held (sc_view b)"
    "io_in8 (spi_sim_io base (Suc depth) slave) (base + XSP_SR_OFFSET) b = (st, b')"
  then show "sc_view b' = sc_view b \<and> bit st 3 = (Suc depth \<le> length (sv_tx (sc_view b))) \<and>
      bit st 0 = (sv_rx (sc_view b) = [])"
    using sim_status_bits [of "Suc depth" "sc_view b"]
    by (auto simp: spi_sim_io_def sim_in8_def sim_tick_def Let_def)
next
  fix b b' :: "'a spi_sim" and st
  assume a: "\<not> sv_held (sc_view b)"
    "io_in8 (spi_sim_io base (Suc depth) slave) (base + XSP_SR_OFFSET) b = (st, b')"
  have b': "b' = sim_tick slave b" "st = sim_status (Suc depth) (sc_view b')"
    using a(2) by (auto simp: spi_sim_io_def sim_in8_def Let_def)
  have "bit st 2 = (sv_tx (sc_view b') = [])" unfolding b'(2) by (rule sim_status_bits)
  moreover have "\<exists>k \<le> length (sv_tx (sc_view b)). sc_view b' = sv_adv slave k (sc_view b) \<and>
      (sv_tx (sc_view b') \<noteq> [] \<longrightarrow> length (sc_sched b') < length (sc_sched b))"
  proof (cases "sc_sched b")
    case Nil
    with a(1) show ?thesis
      by (auto simp: b'(1) sim_tick_def sv_adv_def case_prod_beta)
  next
    case (Cons k ks)
    with a(1) show ?thesis by (auto simp: b'(1) sim_tick_def intro!: exI [of _ "min k _"])
  qed
  ultimately show "\<exists>k \<le> length (sv_tx (sc_view b)). sc_view b' = sv_adv slave k (sc_view b) \<and>
      bit st 2 = (sv_tx (sc_view b') = []) \<and>
      (sv_tx (sc_view b') \<noteq> [] \<longrightarrow> length (sc_sched b') < length (sc_sched b))" by blast
qed (auto simp: spi_sim_io_def sim_in8_def sim_out8_def sim_in16_def sim_out16_def sim_in32_def
    sim_out32_def spi_regs cr_keep cr_keep(1) [simplified] Let_def intro: view_eqI split: if_splits)

section \<open>Properties\<close>

text \<open>
  Property C8. On any core that follows the register description, whatever its FIFO depth and
  however long it takes, the polled transfer ends: it clocks out exactly the bytes of the send buffer
  in order with the chosen slave select, stores the answers in order at the start of the
  receive buffer and leaves the rest of it alone, deselects the slave and is ready for the
  next transfer.
\<close>

theorem polled_transfer:
  assumes "spi_core io base depth slave vw lag" "spi_idle base x (vw b)" "\<not> spi_no_slave x (vw b)"
    and "n \<noteq> 0" "unat n \<le> length buf" "\<forall>r. recv = Some r \<longrightarrow> unat n \<le> length r"
  shows "\<exists>x' b'. XSpi_Transfer io buf recv n (x, b) = Some (XST_SUCCESS, x', b') \<and>
     spi_idle base x' (vw b') \<and> sv_ss (vw b') = SlaveSelectMask x \<and>
     (RecvBuffer x', sv_dev (vw b')) =
       (let (rs, d) = exchange slave (SlaveSelectReg x) (take (unat n) buf) (sv_dev (vw b))
        in (map_option (\<lambda>r. rs @ drop (unat n) r) recv, d))"
proof -
  have "\<And>r. recv = Some r \<Longrightarrow> unat n \<le> length r" using assms(6) by blast
  from spi_core.transfer [OF assms(1-5) this, where recv = recv] show ?thesis
    by (auto simp: case_prod_beta)
qed

text \<open>An echo slave that answers each byte with the previous one.\<close>

definition echo_slave :: "u32 \<Rightarrow> u8 \<Rightarrow> u8 \<Rightarrow> u8 \<times> u8" where
  "echo_slave ss c d = (d, c)"

definition demo_xspi :: "nat xspi" where
  "demo_xspi =
     \<lparr>Stats = no_stats, BaseAddr = 0x81050000, IsReady = True, IsStarted = True, HasFifos = True,
      SlaveOnly = False, NumSlaveBits = 1, DataWidth = 8, SlaveSelectMask = 1, SlaveSelectReg = - 2,
      SendBuffer = [], SendOffset = 0, RecvBuffer = None, RecvOffset = 0, RequestedBytes = 0,
      RemainingBytes = 0, IsBusy = False, StatusHandler = None\<rparr>"

definition demo_sim :: "'d \<Rightarrow> 'd spi_sim" where
  "demo_sim d =
     \<lparr>sc_view = \<lparr>sv_tx = [], sv_rx = [], sv_cr = 0x19E, sv_ss = 1, sv_gie = False, sv_dev = d\<rparr>,
      sc_sched = [1, 0]\<rparr>"

lemma demo_sim_idle:
  "spi_idle 0x81050000 demo_xspi (sc_view (demo_sim d))" "\<not> spi_no_slave demo_xspi (sc_view (demo_sim d))"
  by (simp_all add: spi_idle_def spi_no_slave_def demo_xspi_def demo_sim_def spi_regs)

theorem polled_transfer_witness:
  "\<exists>x' b'. XSpi_Transfer (spi_sim_io 0x81050000 (Suc 1) echo_slave) [1, 2, 3] (Some [9, 9, 9, 9]) 3
       (demo_xspi, demo_sim 7) = Some (XST_SUCCESS, x', b') \<and> RecvBuffer x' = Some [7, 1, 2, 9]"
proof -
  have u: "unat (3 :: u32) = 3" by simp
  have ex: "exchange echo_slave (SlaveSelectReg demo_xspi) (take (unat (3 :: u32)) [1, 2, 3])
      (sv_dev (sc_view (demo_sim 7))) = ([7, 1, 2], 3)"
    by (simp add: u echo_slave_def demo_sim_def)
  from polled_transfer [OF sim.spi_core_axioms [of "0x81050000" 1 echo_slave] demo_sim_idle,
      of 3 "[1, 2, 3]" "Some [9, 9, 9, 9]" 7, unfolded ex]
  show ?thesis by (auto simp: u)
qed

definition put_bit :: "nat \<Rightarrow> bool \<Rightarrow> u16 \<Rightarrow> u16" where
  "put_bit k v r = (if v then r OR 2 ^ k else r AND NOT (2 ^ k))"

lemma bit_put_bit: "k < 16 \<Longrightarrow> bit (put_bit k v r) n = (if n = k then v else bit r n)"
  by (auto simp: put_bit_def bit_or_iff bit_and_iff bit_not_iff bit_exp_iff dest: bit_imp_le_length)

definition or_bit :: "nat \<Rightarrow> bool \<Rightarrow> u32 \<Rightarrow> u32" where
  "or_bit k v f = (if v then f OR 2 ^ k else f)"

lemma bit_or_bit: "k < 32 \<Longrightarrow> bit (or_bit k v f) n \<longleftrightarrow> n = k \<and> v \<or> bit f n"
  by (auto simp: or_bit_def bit_or_iff bit_exp_iff)

lemma OptionsTable_bits:
  "OptionsTable = [(2 ^ 3, 2 ^ 0), (2 ^ 1, 2 ^ 3), (2 ^ 2, 2 ^ 4), (2 ^ 0, 2 ^ 2), (2 ^ 4, 2 ^ 7)]"
  by (simp add: OptionsTable_def spi_regs)

lemma and_exp_bit: "(w :: 'a::len word) AND 2 ^ n \<noteq> 0 \<longleftrightarrow> bit w n"
  using and_exp_eq_0_iff_not_bit [of w n] by simp

lemma apply_options_bits:
  "apply_options opts c =
     put_bit 7 (bit opts 4) (put_bit 2 (bit opts 0) (put_bit 4 (bit opts 2)
       (put_bit 3 (bit opts 1) (put_bit 0 (bit opts 3) c))))"
  unfolding apply_options_def OptionsTable_bits
  by (simp only: fold.simps id_apply o_apply prod.case and_exp_bit put_bit_def)

lemma read_options_bits:
  "read_options r = or_bit 4 (bit r 7) (or_bit 0 (bit r 2) (or_bit 2 (bit r 4)
     (or_bit 1 (bit r 3) (or_bit 3 (bit r 0) 0))))"
  unfolding read_options_def OptionsTable_bits
  by (simp only: fold.simps id_apply o_apply prod.case and_exp_bit or_bit_def)

text \<open>
  Setting options and reading them back is the identity on the five options, and no
  other bit of the control register changes.
\<close>

theorem options_read_back:
  "read_options (apply_options opts c) = opts AND 0x1F \<and>
   apply_options opts c AND NOT 0x9D = c AND NOT 0x9D"
proof
  define r where "r = apply_options opts c"
  have r: "bit r n = (if n = 7 then bit opts 4 else if n = 2 then bit opts 0 else if n = 4 then bit opts 2
      else if n = 3 then bit opts 1 else if n = 0 then bit opts 3 else bit c n)" for n
    by (simp add: r_def apply_options_bits bit_put_bit)
  have opts: "opts AND 0x1F = take_bit 5 opts"
    by (simp add: take_bit_eq_mask mask_eq_exp_minus_1)
  have five: "n < 5 \<longleftrightarrow> n = 0 \<or> n = 1 \<or> n = 2 \<or> n = 3 \<or> n = 4" for n :: nat by auto
  have "read_options r = opts AND 0x1F"
    unfolding opts
    by (rule bit_word_eqI) (auto simp: read_options_bits bit_or_bit r bit_take_bit_iff five)
  then show "read_options (apply_options opts c) = opts AND 0x1F" by (simp only: r_def)
  define m :: u16 where "m = 0x9D"
  have mask: "m = 2 ^ 0 OR 2 ^ 2 OR 2 ^ 3 OR 2 ^ 4 OR 2 ^ 7" by (simp add: m_def)
  have "bit m n \<longleftrightarrow> n \<in> {0, 2, 3, 4, 7}" for n
    unfolding mask bit_or_iff bit_exp_iff by auto
  then have "r AND NOT m = c AND NOT m"
    by (intro bit_word_eqI) (auto simp: bit_and_iff bit_not_iff r)
  then show "apply_options opts c AND NOT 0x9D = c AND NOT 0x9D" by (simp only: r_def m_def)
qed

end
