(* ===== verification/Sd_Card.thy ===== *)
theory Sd_Card
  imports Spi_Drv
begin

unbundle bit_operations_syntax

text \<open>
  The SD card and display drivers on top of the SPI driver: \<^verbatim>\<open>mmc.c\<close>, \<^verbatim>\<open>diskio.c\<close> and
  \<^verbatim>\<open>osram.c\<close> of \<^verbatim>\<open>src/sdloader/src\<close>. The state is the SPI instance, the scratch buffer and the
  command buffer of \<^verbatim>\<open>mmc.c\<close>, and the bus. Console messages are not modelled. A destination
  buffer is the list of bytes from the pointer on; a function returns it updated.
\<close>

section \<open>mmc.c\<close>

record 'h mmc =
  Spi_SD :: "'h xspi"
  sd_buf :: "u8 list"
  mmc_cmd :: "u8 list"

definition MMC_BLOCK_SIZE :: nat where "MMC_BLOCK_SIZE = 512"
definition MMC_CMD_SIZE :: nat where "MMC_CMD_SIZE = 6"
definition MMC_TIMEOUT :: nat where "MMC_TIMEOUT = 0xFF"

text \<open>
  A call of \<^verbatim>\<open>XSpi_Transfer\<close> whose result is ignored: the receive buffer afterwards. It is
  unchanged when the driver refuses the transfer.
\<close>

definition spi_xfer ::
  "'b mmio \<Rightarrow> u8 list \<Rightarrow> u8 list option \<Rightarrow> nat \<Rightarrow> 'h mmc \<times> 'b \<Rightarrow> (u8 list option \<times> 'h mmc \<times> 'b) option" where
  "spi_xfer io send recv n mb =
     (let (m, b) = mb
      in do { (st, x, b) \<leftarrow> XSpi_Transfer io send recv (of_nat n) (Spi_SD m, b);
              Some (if st = XST_SUCCESS then RecvBuffer x else recv, m\<lparr>Spi_SD := x\<rparr>, b) })"

definition spi_receive_byte :: "'b mmio \<Rightarrow> 'h mmc \<times> 'b \<Rightarrow> (u8 \<times> 'h mmc \<times> 'b) option" where
  "spi_receive_byte io mb =
     (let (m, b) = mb
      in do { buf \<leftarrow> arr_set (sd_buf m) 0 0xFF;
              (recv, m, b) \<leftarrow> spi_xfer io buf (Some buf) 1 (m, b);
              buf \<leftarrow> recv;
              byte \<leftarrow> arr_get buf 0;
              Some (byte, m\<lparr>sd_buf := buf\<rparr>, b) })"

definition spi_send :: "'b mmio \<Rightarrow> u8 list \<Rightarrow> nat \<Rightarrow> 'h mmc \<times> 'b \<Rightarrow> ('h mmc \<times> 'b) option" where
  "spi_send io data n mb = do { (_, m, b) \<leftarrow> spi_xfer io data None n mb; Some (m, b) }"

text \<open>The loop that fills the scratch buffer with 0xFF.\<close>

fun fill_ff :: "nat \<Rightarrow> nat \<Rightarrow> u8 list \<Rightarrow> u8 list option" where
  "fill_ff i 0 buf = Some buf"
| "fill_ff i (Suc n) buf = do { buf \<leftarrow> arr_set buf i 0xFF; fill_ff (Suc i) n buf }"

definition spi_receive ::
  "'b mmio \<Rightarrow> u8 list \<Rightarrow> nat \<Rightarrow> 'h mmc \<times> 'b \<Rightarrow> (u8 list \<times> 'h mmc \<times> 'b) option" where
  "spi_receive io data n mb =
     (let (m, b) = mb
      in do { buf \<leftarrow> fill_ff 0 n (sd_buf m);
              (recv, m, b) \<leftarrow> spi_xfer io buf (Some data) n (m\<lparr>sd_buf := buf\<rparr>, b);
              data \<leftarrow> recv;
              Some (data, m, b) })"

definition set_select :: "u32 \<Rightarrow> 'h mmc \<times> 'b \<Rightarrow> ('h mmc \<times> 'b) option" where
  "set_select SlaveMask mb =
     (let (m, b) = mb
      in do { (_, x) \<leftarrow> XSpi_SetSlaveSelect SlaveMask (Spi_SD m); Some (m\<lparr>Spi_SD := x\<rparr>, b) })"

definition SET_CS :: "'h mmc \<times> 'b \<Rightarrow> ('h mmc \<times> 'b) option" where
  "SET_CS mb = set_select 0 mb"

definition CLEAR_CS :: "'h mmc \<times> 'b \<Rightarrow> ('h mmc \<times> 'b) option" where
  "CLEAR_CS mb = set_select 1 mb"

text \<open>The result is 0 when the byte came within the given number of polls, else 1.\<close>

fun mmc_poll :: "'b mmio \<Rightarrow> u8 \<Rightarrow> nat \<Rightarrow> 'h mmc \<times> 'b \<Rightarrow> (u8 \<times> 'h mmc \<times> 'b) option" where
  "mmc_poll io response 0 mb = Some (1, mb)"
| "mmc_poll io response (Suc count) mb =
     do { (result, mb) \<leftarrow> spi_receive_byte io mb;
          if result = response then Some (0, mb) else mmc_poll io response count mb }"

definition mmc_response :: "'b mmio \<Rightarrow> u8 \<Rightarrow> 'h mmc \<times> 'b \<Rightarrow> (u8 \<times> 'h mmc \<times> 'b) option" where
  "mmc_response io response mb = mmc_poll io response 0xFFF mb"

definition send_cmd :: "'b mmio \<Rightarrow> u8 list \<Rightarrow> 'h mmc \<times> 'b \<Rightarrow> ('h mmc \<times> 'b) option" where
  "send_cmd io cmd mb = (let (m, b) = mb in spi_send io cmd MMC_CMD_SIZE (m\<lparr>mmc_cmd := cmd\<rparr>, b))"

fun dummy_bytes :: "'b mmio \<Rightarrow> nat \<Rightarrow> 'h mmc \<times> 'b \<Rightarrow> ('h mmc \<times> 'b) option" where
  "dummy_bytes io 0 mb = Some mb"
| "dummy_bytes io (Suc n) mb = do { (_, mb) \<leftarrow> spi_receive_byte io mb; dummy_bytes io n mb }"

text \<open>Dummy clocks between commands: one byte, deselect, two bytes, select.\<close>

definition dummy_clocks :: "'b mmio \<Rightarrow> 'h mmc \<times> 'b \<Rightarrow> ('h mmc \<times> 'b) option" where
  "dummy_clocks io mb =
     do { (_, mb) \<leftarrow> spi_receive_byte io mb; mb \<leftarrow> SET_CS mb;
          (_, mb) \<leftarrow> spi_receive_byte io mb; (_, mb) \<leftarrow> spi_receive_byte io mb; CLEAR_CS mb }"

text \<open>The \<^verbatim>\<open>do ... while\<close> loop of CMD1; the number is the value of \<open>i\<close> when it ends.\<close>

fun cmd1_loop :: "'b mmio \<Rightarrow> nat \<Rightarrow> 'h mmc \<times> 'b \<Rightarrow> (nat \<times> 'h mmc \<times> 'b) option" where
  "cmd1_loop io 0 mb = None"
| "cmd1_loop io (Suc i) mb =
     do { mb \<leftarrow> send_cmd io [0x41, 0x00, 0x00, 0x00, 0x00, 0xFF] mb;
          (r, mb) \<leftarrow> mmc_response io 0x00 mb;
          if r \<noteq> 0 \<and> i > 0 then cmd1_loop io i mb else Some (i, mb) }"

definition mmc_init :: "'b mmio \<Rightarrow> 'h mmc \<times> 'b \<Rightarrow> (int \<times> 'h mmc \<times> 'b) option" where
  "mmc_init io mb =
     do { mb \<leftarrow> SET_CS mb; mb \<leftarrow> dummy_bytes io 10 mb; mb \<leftarrow> CLEAR_CS mb;
          mb \<leftarrow> send_cmd io [0x40, 0x00, 0x00, 0x00, 0x00, 0x95] mb;
          (r, mb) \<leftarrow> mmc_response io 0x01 mb;
          if r \<noteq> 0 then Some (- 1, mb)
          else
            do { mb \<leftarrow> dummy_clocks io mb;
                 (i, mb) \<leftarrow> cmd1_loop io MMC_TIMEOUT mb;
                 if i = 0 then Some (- 1, mb)
                 else
                   do { mb \<leftarrow> dummy_clocks io mb;
                        mb \<leftarrow> send_cmd io [0x50, 0x00, 0x00, 0x02, 0x00, 0xFF] mb;
                        (_, mb) \<leftarrow> mmc_response io 0x00 mb;
                        (_, mb) \<leftarrow> spi_receive_byte io mb; mb \<leftarrow> SET_CS mb;
                        (_, mb) \<leftarrow> spi_receive_byte io mb; (_, mb) \<leftarrow> spi_receive_byte io mb;
                        Some (0, mb) } } }"

definition read_cmd :: "u32 \<Rightarrow> u8 list" where
  "read_cmd block_number =
     (let varl = (ucast (push_bit 9 (block_number AND 0x007F)) :: u16);
          varh = (ucast (drop_bit 7 block_number AND 0xFFFF) :: u16)
      in [0x51, ucast (drop_bit 8 varh), ucast (varh AND 0xFF), ucast (drop_bit 8 varl),
          ucast (varl AND 0xFF), 0xFF])"

definition mmc_read_block ::
  "'b mmio \<Rightarrow> u32 \<Rightarrow> u8 list \<Rightarrow> 'h mmc \<times> 'b \<Rightarrow> (int \<times> u8 list \<times> 'h mmc \<times> 'b) option" where
  "mmc_read_block io block_number block_address mb =
     do { mb \<leftarrow> CLEAR_CS mb;
          mb \<leftarrow> send_cmd io (read_cmd block_number) mb;
          (r, mb) \<leftarrow> mmc_response io 0x00 mb;
          if r = 1 then Some (- 1, block_address, mb)
          else
            do { (r, mb) \<leftarrow> mmc_response io 0xFE mb;
                 if r = 1 then Some (- 1, block_address, mb)
                 else
                   do { (data, mb) \<leftarrow> spi_receive io block_address MMC_BLOCK_SIZE mb;
                        (_, mb) \<leftarrow> spi_receive_byte io mb; (_, mb) \<leftarrow> spi_receive_byte io mb;
                        mb \<leftarrow> SET_CS mb;
                        (_, mb) \<leftarrow> spi_receive_byte io mb;
                        Some (0, data, mb) } } }"

text \<open>\<^verbatim>\<open>mmc_if_init\<close> with the board's configuration table and device number.\<close>

definition mmc_if_init ::
  "'b mmio \<Rightarrow> xspi_config list \<Rightarrow> u16 \<Rightarrow> 'h mmc \<times> 'b \<Rightarrow> (int \<times> 'h mmc \<times> 'b) option" where
  "mmc_if_init io table dev mb =
     (let (m, b) = mb
      in do { (s, x, b) \<leftarrow> XSpi_Initialize io table dev (Spi_SD m, b);
              if s \<noteq> XST_SUCCESS then Some (- 1, m\<lparr>Spi_SD := x\<rparr>, b)
              else
                do { (_, x, b) \<leftarrow> XSpi_SetOptions io
                       (XSP_MASTER_OPTION OR XSP_MANUAL_SSELECT_OPTION OR
                        XSP_CLK_ACTIVE_LOW_OPTION OR XSP_CLK_PHASE_1_OPTION) (x, b);
                     (_, x, b) \<leftarrow> XSpi_Start io (x, b);
                     let b = XSpi_mIntrGlobalDisable io x b;
                     (_, x) \<leftarrow> XSpi_SetSlaveSelect 0 x;
                     Some (0, m\<lparr>Spi_SD := x\<rparr>, b) } })"

section \<open>diskio.c\<close>

datatype dresult = RES_OK | RES_ERROR | RES_WRPRT | RES_NOTRDY | RES_PARERR

definition STA_NOINIT :: u8 where "STA_NOINIT = 0x01"

definition disk_initialize :: "'b mmio \<Rightarrow> u8 \<Rightarrow> 'h mmc \<times> 'b \<Rightarrow> (u8 \<times> 'h mmc \<times> 'b) option" where
  "disk_initialize io drv mb =
     (if drv = 0 then do { (result, mb) \<leftarrow> mmc_init io mb; Some (of_int result, mb) }
      else Some (STA_NOINIT, mb))"

definition disk_status :: "u8 \<Rightarrow> u8" where
  "disk_status drv = 0"

fun read_blocks ::
  "'b mmio \<Rightarrow> u32 \<Rightarrow> nat \<Rightarrow> nat \<Rightarrow> u8 list \<Rightarrow> 'h mmc \<times> 'b \<Rightarrow> (dresult \<times> u8 list \<times> 'h mmc \<times> 'b) option" where
  "read_blocks io sector i 0 buff mb = Some (RES_OK, buff, mb)"
| "read_blocks io sector i (Suc n) buff mb =
     do { (result, data, mb) \<leftarrow>
            mmc_read_block io (sector + of_nat i) (drop (MMC_BLOCK_SIZE * i) buff) mb;
          let buff = take (MMC_BLOCK_SIZE * i) buff @ data;
          if result \<noteq> 0 then Some (RES_ERROR, buff, mb)
          else read_blocks io sector (Suc i) n buff mb }"

definition disk_read ::
  "'b mmio \<Rightarrow> u8 \<Rightarrow> u8 list \<Rightarrow> u32 \<Rightarrow> u8 \<Rightarrow> 'h mmc \<times> 'b \<Rightarrow> (dresult \<times> u8 list \<times> 'h mmc \<times> 'b) option" where
  "disk_read io drv buff sector count mb =
     (if drv = 0 then read_blocks io sector 0 (unat count) buff mb
      else Some (RES_PARERR, buff, mb))"

section \<open>osram.c\<close>

record 'h osram =
  Spi_OSRAM :: "'h xspi"
  osram_buf :: "u8 list"

definition osram_send :: "'b mmio \<Rightarrow> u8 \<Rightarrow> 'h osram \<times> 'b \<Rightarrow> ('h osram \<times> 'b) option" where
  "osram_send io c ob =
     (let (m, b) = ob
      in do { (_, x) \<leftarrow> XSpi_SetSlaveSelect 1 (Spi_OSRAM m);
              buf \<leftarrow> arr_set (osram_buf m) 0 c;
              (_, x, b) \<leftarrow> XSpi_Transfer io buf None 1 (x, b);
              (_, x) \<leftarrow> XSpi_SetSlaveSelect 0 x;
              Some (m\<lparr>Spi_OSRAM := x, osram_buf := buf\<rparr>, b) })"

definition osram_init ::
  "'b mmio \<Rightarrow> xspi_config list \<Rightarrow> u16 \<Rightarrow> 'h osram \<times> 'b \<Rightarrow> (int \<times> 'h osram \<times> 'b) option" where
  "osram_init io table dev ob =
     (let (m, b) = ob
      in do { (s, x, b) \<leftarrow> XSpi_Initialize io table dev (Spi_OSRAM m, b);
              if s \<noteq> XST_SUCCESS then Some (- 1, m\<lparr>Spi_OSRAM := x\<rparr>, b)
              else
                do { (_, x, b) \<leftarrow> XSpi_SetOptions io
                       (XSP_MASTER_OPTION OR XSP_MANUAL_SSELECT_OPTION) (x, b);
                     (_, x, b) \<leftarrow> XSpi_Start io (x, b);
                     let b = XSpi_mIntrGlobalDisable io x b;
                     (_, x) \<leftarrow> XSpi_SetSlaveSelect 0 x;
                     Some (0, m\<lparr>Spi_OSRAM := x\<rparr>, b) } })"

section \<open>The card protocol on the wire\<close>

text \<open>
  What the driver does to the card, without registers, FIFOs and buffers: the state is the
  value on the select lines and the state of the card. \<open>- 2\<close> selects the card, \<open>- 1\<close> does not.
\<close>

type_synonym 'd wire = "u32 \<times> 'd"
type_synonym 'd slave = "u32 \<Rightarrow> u8 \<Rightarrow> 'd \<Rightarrow> u8 \<times> 'd"

definition wire_select :: "u32 \<Rightarrow> 'd wire \<Rightarrow> 'd wire" where
  "wire_select ss c = (ss, snd c)"

definition wire_send :: "'d slave \<Rightarrow> u8 list \<Rightarrow> 'd wire \<Rightarrow> 'd wire" where
  "wire_send slave cs c = (fst c, snd (exchange slave (fst c) cs (snd c)))"

definition wire_recv :: "'d slave \<Rightarrow> nat \<Rightarrow> 'd wire \<Rightarrow> u8 list \<times> 'd wire" where
  "wire_recv slave n c =
     (let (rs, d) = exchange slave (fst c) (replicate n 0xFF) (snd c) in (rs, fst c, d))"

definition wire_skip :: "'d slave \<Rightarrow> nat \<Rightarrow> 'd wire \<Rightarrow> 'd wire" where
  "wire_skip slave n c = snd (wire_recv slave n c)"

fun wire_poll :: "'d slave \<Rightarrow> u8 \<Rightarrow> nat \<Rightarrow> 'd wire \<Rightarrow> bool \<times> 'd wire" where
  "wire_poll slave response 0 c = (False, c)"
| "wire_poll slave response (Suc n) c =
     (let (rs, c) = wire_recv slave 1 c
      in if hd rs = response then (True, c) else wire_poll slave response n c)"

definition wire_read :: "'d slave \<Rightarrow> u32 \<Rightarrow> 'd wire \<Rightarrow> u8 list option \<times> 'd wire" where
  "wire_read slave block_number c =
     (let c = wire_send slave (read_cmd block_number) (wire_select (- 2) c);
          (started, c) = wire_poll slave 0x00 4095 c
      in if \<not> started then (None, c)
         else
           (let (token, c) = wire_poll slave 0xFE 4095 c
            in if \<not> token then (None, c)
               else
                 (let (data, c) = wire_recv slave 512 c;
                      c = wire_skip slave 2 c
                  in (Some data, wire_skip slave 1 (wire_select (- 1) c)))))"

definition wire_dummy :: "'d slave \<Rightarrow> 'd wire \<Rightarrow> 'd wire" where
  "wire_dummy slave c =
     wire_select (- 2) (wire_skip slave 2 (wire_select (- 1) (wire_skip slave 1 c)))"

fun wire_cmd1 :: "'d slave \<Rightarrow> nat \<Rightarrow> 'd wire \<Rightarrow> nat \<times> 'd wire" where
  "wire_cmd1 slave 0 c = (0, c)"
| "wire_cmd1 slave (Suc i) c =
     (let (ready, c) = wire_poll slave 0x00 4095 (wire_send slave [0x41, 0, 0, 0, 0, 0xFF] c)
      in if \<not> ready \<and> i > 0 then wire_cmd1 slave i c else (i, c))"

definition wire_init :: "'d slave \<Rightarrow> 'd wire \<Rightarrow> bool \<times> 'd wire" where
  "wire_init slave c =
     (let c = wire_select (- 2) (wire_skip slave 10 (wire_select (- 1) c));
          (idle, c) = wire_poll slave 0x01 4095 (wire_send slave [0x40, 0, 0, 0, 0, 0x95] c)
      in if \<not> idle then (False, c)
         else
           (let (left, c) = wire_cmd1 slave 255 (wire_dummy slave c)
            in if left = 0 then (False, c)
               else
                 (let c = wire_dummy slave c;
                      (_, c) = wire_poll slave 0x00 4095 (wire_send slave [0x50, 0, 0, 2, 0, 0xFF] c)
                  in (True, wire_skip slave 2 (wire_select (- 1) (wire_skip slave 1 c))))))"

section \<open>The driver implements the protocol\<close>

text \<open>
  \<open>sd_ok\<close> is the driver's invariant: the SPI instance is idle and configured for one slave,
  and its scratch buffers have their sizes.
\<close>

definition sd_ok :: "u32 \<Rightarrow> 'h mmc \<Rightarrow> 'd spi_view \<Rightarrow> bool" where
  "sd_ok base m v \<longleftrightarrow>
     spi_idle base (Spi_SD m) v \<and> SlaveSelectMask (Spi_SD m) = 1 \<and> NumSlaveBits (Spi_SD m) = 1 \<and>
     length (sd_buf m) = 512 \<and> SlaveSelectReg (Spi_SD m) \<in> {- 1, - 2}"

definition sd_wire :: "'h mmc \<Rightarrow> 'd spi_view \<Rightarrow> 'd wire" where
  "sd_wire m v = (SlaveSelectReg (Spi_SD m), sv_dev v)"

definition sd_rel :: "u32 \<Rightarrow> ('b \<Rightarrow> 'd spi_view) \<Rightarrow> 'h mmc \<times> 'b \<Rightarrow> 'd wire \<Rightarrow> bool" where
  "sd_rel base vw mb c \<longleftrightarrow> sd_ok base (fst mb) (vw (snd mb)) \<and> c = sd_wire (fst mb) (vw (snd mb))"

lemma fill_ff_replicate:
  "i + n \<le> length buf \<Longrightarrow> fill_ff i n buf = Some (take i buf @ replicate n 0xFF @ drop (i + n) buf)"
proof (induction n arbitrary: i buf)
  case (Suc n)
  then show ?case
    by (simp add: array_simps upd_conv_take_nth_drop take_Suc_conv_app_nth min_def add.commute)
qed simp

lemma spi_select_one:
  assumes "IsReady x" "\<not> IsBusy x" "NumSlaveBits x = 1"
  shows "XSpi_SetSlaveSelect s x = Some (XST_SUCCESS, x\<lparr>SlaveSelectReg := NOT s\<rparr>)"
  using assms by (simp add: XSpi_SetSlaveSelect_def)

context spi_core
begin

lemma select:
  assumes "sd_rel base vw mb c"
  shows "\<exists>mb'. set_select s mb = Some mb' \<and> (s \<in> {0, 1} \<longrightarrow> sd_rel base vw mb' (wire_select (NOT s) c))"
  using assms
  by (cases mb)
    (auto simp: sd_rel_def sd_ok_def sd_wire_def wire_select_def set_select_def spi_idle_def
      spi_select_one)

lemma select_cases:
  assumes "sd_rel base vw mb c"
  shows "\<exists>mb'. SET_CS mb = Some mb' \<and> sd_rel base vw mb' (wire_select (- 1) c)"
    and "\<exists>mb'. CLEAR_CS mb = Some mb' \<and> sd_rel base vw mb' (wire_select (- 2) c)"
  using select [OF assms, of 0] select [OF assms, of 1] by (auto simp: SET_CS_def CLEAR_CS_def)

lemma xfer:
  assumes "sd_rel base vw mb c" "n \<noteq> 0" "n < 2 ^ 32" "n \<le> length buf" "\<And>r. recv = Some r \<Longrightarrow> n \<le> length r"
  defines "ex \<equiv> exchange slave (fst c) (take n buf) (snd c)"
  shows "\<exists>mb'. spi_xfer io buf recv n mb = Some (map_option (\<lambda>r. fst ex @ drop n r) recv, mb') \<and>
     sd_rel base vw mb' (fst c, snd ex) \<and> sd_buf (fst mb') = sd_buf (fst mb)"
proof -
  obtain m b where mb: "mb = (m, b)" by fastforce
  have r: "spi_idle base (Spi_SD m) (vw b)" "\<not> spi_no_slave (Spi_SD m) (vw b)"
    using assms(1) by (auto simp: sd_rel_def sd_ok_def spi_no_slave_def mb)
  have u: "unat (of_nat n :: u32) = n" "(of_nat n :: u32) \<noteq> 0"
    using assms(2,3) unat_of_nat_eq_small [of n, where 'a = 32] by auto
  from transfer [OF r u(2), unfolded u(1), of buf recv] assms(4,5) obtain x' b' where
    t: "XSpi_Transfer io buf recv (of_nat n) (Spi_SD m, b) = Some (XST_SUCCESS, x', b')"
      "spi_idle base x' (vw b')" "SlaveSelectReg x' = SlaveSelectReg (Spi_SD m)"
      "SlaveSelectMask x' = SlaveSelectMask (Spi_SD m)" "NumSlaveBits x' = NumSlaveBits (Spi_SD m)"
      "sv_dev (vw b') = snd (exchange slave (SlaveSelectReg (Spi_SD m)) (take n buf) (sv_dev (vw b)))"
      "RecvBuffer x' = map_option (\<lambda>r. fst (exchange slave (SlaveSelectReg (Spi_SD m)) (take n buf)
          (sv_dev (vw b))) @ drop n r) recv" by blast
  moreover have "c = (SlaveSelectReg (Spi_SD m), sv_dev (vw b))"
    using assms(1) by (simp add: sd_rel_def sd_wire_def mb)
  ultimately show ?thesis
    using assms(1) by (auto simp: mb spi_xfer_def ex_def sd_rel_def sd_ok_def sd_wire_def)
qed

lemma receive_byte:
  assumes "sd_rel base vw mb c"
  shows "\<exists>mb'. spi_receive_byte io mb = Some (hd (fst (wire_recv slave 1 c)), mb') \<and>
     sd_rel base vw mb' (wire_skip slave 1 c)"
proof -
  obtain m b where mb: "mb = (m, b)" by fastforce
  have l: "length (sd_buf m) = 512" using assms by (simp add: sd_rel_def sd_ok_def mb)
  define buf where "buf = (sd_buf m)[0 := (0xFF :: u8)]"
  have buf: "length buf = 512" "take 1 buf = [0xFF]"
    using l by (auto simp: buf_def take_Suc_conv_app_nth)
  obtain r d where ex: "exchange slave (fst c) [0xFF] (snd c) = ([r], d)"
    by (simp add: case_prod_beta)
  from xfer [OF assms, of 1 buf "Some buf"] buf ex obtain m' b' where
    x: "spi_xfer io buf (Some buf) 1 (m, b) = Some (Some (r # drop 1 buf), m', b')" "sd_rel base vw (m', b') (fst c, d)"
    by (auto simp: mb)
  have "sd_rel base vw (m'\<lparr>sd_buf := r # drop 1 buf\<rparr>, b') (fst c, d)"
    using x(2) buf(1) by (simp add: sd_rel_def sd_ok_def sd_wire_def)
  moreover have "spi_receive_byte io mb = Some (r, m'\<lparr>sd_buf := r # drop 1 buf\<rparr>, b')"
    using x(1) l by (simp add: spi_receive_byte_def mb array_simps buf_def [symmetric])
  ultimately show ?thesis
    using ex by (auto simp: wire_recv_def wire_skip_def Let_def case_prod_beta)
qed

lemma skip_Suc: "wire_skip slave (Suc n) c = wire_skip slave n (wire_skip slave 1 c)"
  by (simp add: wire_skip_def wire_recv_def case_prod_beta)

lemma receive_skip:
  assumes "sd_rel base vw mb c"
  shows "\<exists>r mb'. spi_receive_byte io mb = Some (r, mb') \<and> sd_rel base vw mb' (wire_skip slave 1 c)"
  using receive_byte [OF assms] by blast

lemma receive_twice:
  assumes "sd_rel base vw mb c"
  shows "\<exists>r mb'. spi_receive_byte io mb = Some (r, mb') \<and>
     (\<exists>r' mb''. spi_receive_byte io mb' = Some (r', mb'') \<and> sd_rel base vw mb'' (wire_skip slave 2 c))"
proof -
  obtain r mb' where 1: "spi_receive_byte io mb = Some (r, mb')" "sd_rel base vw mb' (wire_skip slave 1 c)"
    using receive_skip [OF assms] by blast
  have "wire_skip slave 2 c = wire_skip slave 1 (wire_skip slave 1 c)"
    using skip_Suc [of 1 c] by (simp add: numeral_2_eq_2)
  then show ?thesis using 1 receive_skip [OF 1(2)] by auto
qed

lemma dummy:
  assumes "sd_rel base vw mb c"
  shows "\<exists>mb'. dummy_bytes io n mb = Some mb' \<and> sd_rel base vw mb' (wire_skip slave n c)"
  using assms
proof (induction n arbitrary: mb c)
  case 0
  then show ?case by (simp add: wire_skip_def wire_recv_def)
next
  case (Suc n)
  then obtain r mb' where "spi_receive_byte io mb = Some (r, mb')" "sd_rel base vw mb' (wire_skip slave 1 c)"
    using receive_skip by blast
  then show ?case using Suc.IH [of mb' "wire_skip slave 1 c"] by (simp add: skip_Suc [of n])
qed

lemma poll_byte:
  assumes "sd_rel base vw mb c"
  shows "\<exists>mb'. mmc_poll io response n mb = Some (if fst (wire_poll slave response n c) then 0 else 1, mb') \<and>
     sd_rel base vw mb' (snd (wire_poll slave response n c))"
  using assms
proof (induction n arbitrary: mb c)
  case (Suc n)
  obtain mb' where r: "spi_receive_byte io mb = Some (hd (fst (wire_recv slave 1 c)), mb')"
      "sd_rel base vw mb' (wire_skip slave 1 c)"
    using receive_byte [OF Suc.prems] by blast
  then show ?case
    using Suc.IH [OF r(2)] by (cases mb') (simp add: wire_skip_def case_prod_beta)
qed simp

lemma response:
  assumes "sd_rel base vw mb c"
  shows "\<exists>r mb'. mmc_response io resp mb = Some (r, mb') \<and>
     r = (if fst (wire_poll slave resp 4095 c) then 0 else 1) \<and>
     sd_rel base vw mb' (snd (wire_poll slave resp 4095 c))"
  using poll_byte [OF assms, of resp 4095] by (auto simp: mmc_response_def)

lemma cmd:
  assumes "sd_rel base vw mb c" "length cs = 6"
  shows "\<exists>mb'. send_cmd io cs mb = Some mb' \<and> sd_rel base vw mb' (wire_send slave cs c)"
proof -
  obtain m b where mb: "mb = (m, b)" by fastforce
  have "sd_rel base vw (m\<lparr>mmc_cmd := cs\<rparr>, b) c"
    using assms(1) by (simp add: sd_rel_def sd_ok_def sd_wire_def mb)
  from xfer [OF this, of 6 cs None] assms(2) show ?thesis
    by (auto simp: mb send_cmd_def spi_send_def MMC_CMD_SIZE_def wire_send_def)
qed

lemma receive:
  assumes "sd_rel base vw mb c" "512 \<le> length data"
  shows "\<exists>mb'. spi_receive io data 512 mb = Some (fst (wire_recv slave 512 c) @ drop 512 data, mb') \<and>
     sd_rel base vw mb' (snd (wire_recv slave 512 c))"
proof -
  obtain m b where mb: "mb = (m, b)" by fastforce
  have l: "length (sd_buf m) = 512" using assms(1) by (simp add: sd_rel_def sd_ok_def mb)
  have f: "fill_ff 0 512 (sd_buf m) = Some (replicate 512 0xFF)"
    using fill_ff_replicate [of 0 512 "sd_buf m"] l by simp
  have "sd_rel base vw (m\<lparr>sd_buf := replicate 512 0xFF\<rparr>, b) c"
    using assms(1) by (simp add: sd_rel_def sd_ok_def sd_wire_def mb)
  from xfer [OF this, of 512 "replicate 512 0xFF" "Some data"] assms(2) f show ?thesis
    by (auto simp: mb spi_receive_def wire_recv_def case_prod_beta)
qed

end

fun wire_reads :: "'d slave \<Rightarrow> u32 \<Rightarrow> nat \<Rightarrow> 'd wire \<Rightarrow> u8 list option \<times> 'd wire" where
  "wire_reads slave sector 0 c = (Some [], c)"
| "wire_reads slave sector (Suc n) c =
     (case wire_read slave sector c of
        (None, c) \<Rightarrow> (None, c)
      | (Some data, c) \<Rightarrow>
          (let (rest, c) = wire_reads slave (sector + 1) n c in (map_option ((@) data) rest, c)))"

lemma wire_recv_length [simp]: "length (fst (wire_recv slave n c)) = n"
  by (simp add: wire_recv_def case_prod_beta)

lemma wire_read_length: "fst (wire_read slave n c) = Some data \<Longrightarrow> length data = 512"
  by (auto simp: wire_read_def Let_def case_prod_beta split: if_splits)

context spi_core
begin

lemma read_cmd_length [simp]: "length (read_cmd n) = 6"
  by (simp add: read_cmd_def Let_def)

lemma read_block:
  fixes n :: u32
  assumes "sd_rel base vw mb c" "512 \<le> length buf"
  defines "w \<equiv> wire_read slave n c"
  shows "\<exists>mb'. mmc_read_block io n buf mb =
       Some (case fst w of None \<Rightarrow> (- 1, buf, mb') | Some data \<Rightarrow> (0, data @ drop 512 buf, mb')) \<and>
     sd_rel base vw mb' (snd w)"
proof -
  define c1 where "c1 = wire_send slave (read_cmd n) (wire_select (- 2) c)"
  define p1 where "p1 = wire_poll slave 0x00 4095 c1"
  define p2 where "p2 = wire_poll slave 0xFE 4095 (snd p1)"
  define rc where "rc = wire_recv slave 512 (snd p2)"
  note defs = c1_def p1_def p2_def rc_def
  obtain m1 where m1: "CLEAR_CS mb = Some m1" "sd_rel base vw m1 (wire_select (- 2) c)"
    using select_cases(2) [OF assms(1)] by blast
  obtain m2 where m2: "send_cmd io (read_cmd n) m1 = Some m2" "sd_rel base vw m2 c1"
    using cmd [OF m1(2) read_cmd_length, of n] by (auto simp: c1_def)
  obtain r1 m3 where m3: "mmc_response io 0x00 m2 = Some (r1, m3)" "r1 = (if fst p1 then 0 else 1)"
      "sd_rel base vw m3 (snd p1)"
    using response [OF m2(2), of 0] by (auto simp: p1_def)
  obtain r2 m4 where m4: "mmc_response io 0xFE m3 = Some (r2, m4)" "r2 = (if fst p2 then 0 else 1)"
      "sd_rel base vw m4 (snd p2)"
    using response [OF m3(3), of "0xFE"] by (auto simp: p2_def)
  obtain m5 where m5: "spi_receive io buf 512 m4 = Some (fst rc @ drop 512 buf, m5)"
      "sd_rel base vw m5 (snd rc)"
    using receive [OF m4(3) assms(2)] by (auto simp: rc_def)
  obtain r6 m6 r7 m7 where m7: "spi_receive_byte io m5 = Some (r6, m6)"
      "spi_receive_byte io m6 = Some (r7, m7)" "sd_rel base vw m7 (wire_skip slave 2 (snd rc))"
    using receive_twice [OF m5(2)] by blast
  obtain m8 where m8: "SET_CS m7 = Some m8"
      "sd_rel base vw m8 (wire_select (- 1) (wire_skip slave 2 (snd rc)))"
    using select_cases(1) [OF m7(3)] by blast
  obtain r9 m9 where m9: "spi_receive_byte io m8 = Some (r9, m9)"
      "sd_rel base vw m9 (wire_skip slave 1 (wire_select (- 1) (wire_skip slave 2 (snd rc))))"
    using receive_skip [OF m8(2)] by blast
  note runs = m1(1) m2(1) m3(1,2) m4(1,2) m5(1) m7(1,2) m8(1) m9(1)
  have w: "w = (if \<not> fst p1 then (None, snd p1) else if \<not> fst p2 then (None, snd p2)
      else (Some (fst rc), wire_skip slave 1 (wire_select (- 1) (wire_skip slave 2 (snd rc)))))"
    by (simp add: w_def wire_read_def defs Let_def case_prod_beta)
  consider "\<not> fst p1" | "fst p1" "\<not> fst p2" | "fst p1" "fst p2" by blast
  then show ?thesis
  proof cases
    case 1
    then show ?thesis using runs m3(3) w by (cases m3) (simp add: mmc_read_block_def)
  next
    case 2
    then show ?thesis using runs m4(3) w by (cases m4) (simp add: mmc_read_block_def)
  next
    case 3
    then show ?thesis
      using runs m9(2) w by (cases m9) (simp add: mmc_read_block_def MMC_BLOCK_SIZE_def)
  qed
qed

lemma read_run:
  assumes "sd_rel base vw mb c" "512 * (i + n) \<le> length buf"
  shows "\<exists>buf' mb'. read_blocks io sector i n buf mb =
       Some (if fst (wire_reads slave (sector + of_nat i) n c) = None then RES_ERROR else RES_OK, buf', mb') \<and>
     sd_rel base vw mb' (snd (wire_reads slave (sector + of_nat i) n c)) \<and> length buf' = length buf \<and>
     (\<forall>ds. fst (wire_reads slave (sector + of_nat i) n c) = Some ds \<longrightarrow>
        buf' = take (512 * i) buf @ ds @ drop (512 * (i + n)) buf)"
  using assms
proof (induction n arbitrary: i buf mb c)
  case 0
  then show ?case by simp
next
  case (Suc n)
  define s where "s = sector + of_nat i"
  have len: "512 \<le> length (drop (512 * i) buf)" using Suc.prems(2) by simp
  obtain mb' where rb: "mmc_read_block io s (drop (512 * i) buf) mb =
       Some (case fst (wire_read slave s c) of None \<Rightarrow> (- 1, drop (512 * i) buf, mb')
             | Some data \<Rightarrow> (0, data @ drop 512 (drop (512 * i) buf), mb'))"
      "sd_rel base vw mb' (snd (wire_read slave s c))"
    using read_block [OF Suc.prems(1) len] by blast
  obtain w c' where Pair: "wire_read slave s c = (w, c')" by (meson surj_pair)
  show ?case
  proof (cases w)
    case None
    then show ?thesis using rb Pair
      by (cases mb') (simp add: MMC_BLOCK_SIZE_def s_def [symmetric])
  next
    case (Some data)
    have ld: "length data = 512" using wire_read_length [of slave s c data] Pair Some by simp
    define buf1 where "buf1 = take (512 * i) buf @ data @ drop (512 * Suc i) buf"
    have l1: "length buf1 = length buf" "512 * (Suc i + n) \<le> length buf1"
      using ld Suc.prems(2) by (simp_all add: buf1_def)
    have s1: "sector + of_nat (Suc i) = s + 1" by (simp add: s_def)
    have step: "read_blocks io sector i (Suc n) buf mb = read_blocks io sector (Suc i) n buf1 mb'"
      using rb Pair Some
      by (simp add: MMC_BLOCK_SIZE_def buf1_def add.commute flip: s_def)
    have t: "take (512 * Suc i) buf1 = take (512 * i) buf @ data"
      using ld Suc.prems(2) by (simp add: buf1_def min_def)
    have d: "drop (512 * (Suc i + n)) buf1 = drop (512 * (i + Suc n)) buf"
      using ld Suc.prems(2) by (simp add: buf1_def min_def ac_simps)
    have "sd_rel base vw mb' c'" using rb(2) Pair by simp
    from Suc.IH [OF this l1(2), unfolded s1 t d] step l1(1) Pair Some show ?thesis
      by (auto simp: s_def [symmetric] case_prod_beta)
  qed
qed

lemma dummy_clocks_wire:
  assumes "sd_rel base vw mb c"
  shows "\<exists>mb'. dummy_clocks io mb = Some mb' \<and> sd_rel base vw mb' (wire_dummy slave c)"
proof -
  obtain r1 m1 where 1: "spi_receive_byte io mb = Some (r1, m1)" "sd_rel base vw m1 (wire_skip slave 1 c)"
    using receive_skip [OF assms] by blast
  obtain m2 where 2: "SET_CS m1 = Some m2" "sd_rel base vw m2 (wire_select (- 1) (wire_skip slave 1 c))"
    using select_cases(1) [OF 1(2)] by blast
  obtain r3 m3 r4 m4 where 3: "spi_receive_byte io m2 = Some (r3, m3)" "spi_receive_byte io m3 = Some (r4, m4)"
      "sd_rel base vw m4 (wire_skip slave 2 (wire_select (- 1) (wire_skip slave 1 c)))"
    using receive_twice [OF 2(2)] by blast
  show ?thesis
    using 1(1) 2(1) 3(1,2) select_cases(2) [OF 3(3)] by (auto simp: dummy_clocks_def wire_dummy_def)
qed

lemma cmd1:
  assumes "sd_rel base vw mb c"
  shows "\<exists>mb'. cmd1_loop io (Suc i) mb = Some (fst (wire_cmd1 slave (Suc i) c), mb') \<and>
     sd_rel base vw mb' (snd (wire_cmd1 slave (Suc i) c))"
  using assms
proof (induction i arbitrary: mb c)
  case 0
  obtain m1 where 1: "send_cmd io [0x41, 0, 0, 0, 0, 0xFF] mb = Some m1"
      "sd_rel base vw m1 (wire_send slave [0x41, 0, 0, 0, 0, 0xFF] c)"
    using cmd [OF 0, of "[0x41, 0, 0, 0, 0, 0xFF]"] by auto
  from response [OF 1(2), of 0] show ?case using 1(1) by (auto simp: case_prod_beta)
next
  case (Suc i)
  obtain m1 where 1: "send_cmd io [0x41, 0, 0, 0, 0, 0xFF] mb = Some m1"
      "sd_rel base vw m1 (wire_send slave [0x41, 0, 0, 0, 0, 0xFF] c)"
    using cmd [OF Suc.prems, of "[0x41, 0, 0, 0, 0, 0xFF]"] by auto
  define p where "p = wire_poll slave 0 4095 (wire_send slave [0x41, 0, 0, 0, 0, 0xFF] c)"
  obtain r m2 where 2: "mmc_response io 0 m1 = Some (r, m2)" "r = (if fst p then 0 else 1)"
      "sd_rel base vw m2 (snd p)"
    using response [OF 1(2), of 0] by (auto simp: p_def)
  have c: "cmd1_loop io (Suc (Suc i)) mb = (if fst p then Some (Suc i, m2) else cmd1_loop io (Suc i) m2)"
    using 1(1) 2(1,2) by (subst cmd1_loop.simps) simp
  have w: "wire_cmd1 slave (Suc (Suc i)) c = (if fst p then (Suc i, snd p) else wire_cmd1 slave (Suc i) (snd p))"
    by (subst wire_cmd1.simps) (simp add: p_def case_prod_beta)
  show ?case using Suc.IH [OF 2(3)] 2(3) by (cases "fst p") (auto simp only: c w if_True if_False fst_conv snd_conv)
qed

lemma init_tail:
  assumes "sd_rel base vw mb c"
  defines "c1 \<equiv> snd (wire_poll slave 0 4095 (wire_send slave [0x50, 0, 0, 2, 0, 0xFF] (wire_dummy slave c)))"
  shows "\<exists>mb'. do { mb \<leftarrow> dummy_clocks io mb;
                 mb \<leftarrow> send_cmd io [0x50, 0, 0, 2, 0, 0xFF] mb;
                 (_, mb) \<leftarrow> mmc_response io 0 mb;
                 (_, mb) \<leftarrow> spi_receive_byte io mb; mb \<leftarrow> SET_CS mb;
                 (_, mb) \<leftarrow> spi_receive_byte io mb; (_, mb) \<leftarrow> spi_receive_byte io mb;
                 Some (0 :: int, mb) } = Some (0, mb') \<and>
     sd_rel base vw mb' (wire_skip slave 2 (wire_select (- 1) (wire_skip slave 1 c1)))"
proof -
  obtain m1 where 1: "dummy_clocks io mb = Some m1" "sd_rel base vw m1 (wire_dummy slave c)"
    using dummy_clocks_wire [OF assms(1)] by blast
  obtain m2 where 2: "send_cmd io [0x50, 0, 0, 2, 0, 0xFF] m1 = Some m2"
      "sd_rel base vw m2 (wire_send slave [0x50, 0, 0, 2, 0, 0xFF] (wire_dummy slave c))"
    using cmd [OF 1(2), of "[0x50, 0, 0, 2, 0, 0xFF]"] by auto
  obtain r m3 where 3: "mmc_response io 0 m2 = Some (r, m3)" "sd_rel base vw m3 c1"
    using response [OF 2(2), of 0] by (auto simp: c1_def)
  obtain r4 m4 where 4: "spi_receive_byte io m3 = Some (r4, m4)" "sd_rel base vw m4 (wire_skip slave 1 c1)"
    using receive_skip [OF 3(2)] by blast
  obtain m5 where 5: "SET_CS m4 = Some m5" "sd_rel base vw m5 (wire_select (- 1) (wire_skip slave 1 c1))"
    using select_cases(1) [OF 4(2)] by blast
  obtain r6 m6 r7 m7 where 6: "spi_receive_byte io m5 = Some (r6, m6)" "spi_receive_byte io m6 = Some (r7, m7)"
      "sd_rel base vw m7 (wire_skip slave 2 (wire_select (- 1) (wire_skip slave 1 c1)))"
    using receive_twice [OF 5(2)] by blast
  show ?thesis using 1(1) 2(1) 3(1) 4(1) 5(1) 6 by (cases m7) simp
qed

lemma init:
  assumes "sd_rel base vw mb c"
  shows "\<exists>mb'. mmc_init io mb = Some (if fst (wire_init slave c) then 0 else - 1, mb') \<and>
     sd_rel base vw mb' (snd (wire_init slave c))"
proof -
  define c1 where "c1 = wire_select (- 2) (wire_skip slave 10 (wire_select (- 1) c))"
  define p where "p = wire_poll slave 1 4095 (wire_send slave [0x40, 0, 0, 0, 0, 0x95] c1)"
  define q where "q = wire_cmd1 slave 255 (wire_dummy slave (snd p))"
  obtain m1 where 1: "SET_CS mb = Some m1" "sd_rel base vw m1 (wire_select (- 1) c)"
    using select_cases(1) [OF assms] by blast
  obtain m2 where 2: "dummy_bytes io 10 m1 = Some m2" "sd_rel base vw m2 (wire_skip slave 10 (wire_select (- 1) c))"
    using dummy [OF 1(2)] by blast
  obtain m3 where 3: "CLEAR_CS m2 = Some m3" "sd_rel base vw m3 c1"
    using select_cases(2) [OF 2(2)] by (auto simp: c1_def)
  obtain m4 where 4: "send_cmd io [0x40, 0, 0, 0, 0, 0x95] m3 = Some m4"
      "sd_rel base vw m4 (wire_send slave [0x40, 0, 0, 0, 0, 0x95] c1)"
    using cmd [OF 3(2), of "[0x40, 0, 0, 0, 0, 0x95]"] by auto
  obtain r m5 where 5: "mmc_response io 1 m4 = Some (r, m5)" "r = (if fst p then 0 else 1)"
      "sd_rel base vw m5 (snd p)"
    using response [OF 4(2), of 1] by (auto simp: p_def)
  obtain m6 where 6: "dummy_clocks io m5 = Some m6" "sd_rel base vw m6 (wire_dummy slave (snd p))"
    using dummy_clocks_wire [OF 5(3)] by blast
  have s: "Suc 254 = 255" by simp
  obtain m7 where 7: "cmd1_loop io MMC_TIMEOUT m6 = Some (fst q, m7)" "sd_rel base vw m7 (snd q)"
    using cmd1 [OF 6(2), of 254, unfolded s] by (auto simp: q_def MMC_TIMEOUT_def)
  note runs = 1(1) 2(1) 3(1) 4(1) 5(1,2) 6(1) 7(1)
  note w = wire_init_def [of slave c, folded c1_def, unfolded Let_def, folded c1_def p_def]
  consider "\<not> fst p" | "fst p" "fst q = 0" | "fst p" "fst q \<noteq> 0" by blast
  then show ?thesis
  proof cases
    case 1
    then show ?thesis using runs 5(3) w
      by (cases m5) (simp add: mmc_init_def case_prod_beta)
  next
    case 2
    then show ?thesis using runs 7(2) w
      by (cases m7) (simp add: mmc_init_def case_prod_beta flip: q_def)
  next
    case 3
    then show ?thesis using runs init_tail [OF 7(2)] w
      by (simp add: mmc_init_def case_prod_beta flip: q_def)
  qed
qed

end

section \<open>What the card promises\<close>

text \<open>
  The documented answer of a card to READ_SINGLE_BLOCK: after the command it sends, within the
  time allowed, a byte 0, then the data token 0xFE, then the 512 data bytes and a checksum.
\<close>

definition card_answers :: "'d slave \<Rightarrow> u8 \<Rightarrow> 'd \<Rightarrow> 'd \<Rightarrow> bool" where
  "card_answers slave r d d' \<longleftrightarrow>
     (\<exists>a. exchange slave (- 2) (replicate (Suc (length a)) 0xFF) d = (a @ [r], d') \<and>
          r \<notin> set a \<and> length a < 4095)"

definition card_serves :: "'d slave \<Rightarrow> u32 \<Rightarrow> 'd \<Rightarrow> u8 list \<Rightarrow> 'd \<Rightarrow> bool" where
  "card_serves slave n d data d' \<longleftrightarrow>
     (\<exists>d1 d2 d3. card_answers slave 0x00 (snd (exchange slave (- 2) (read_cmd n) d)) d1 \<and>
        card_answers slave 0xFE d1 d2 \<and>
        exchange slave (- 2) (replicate 512 0xFF) d2 = (data, d3) \<and>
        d' = snd (exchange slave (- 1) [0xFF] (snd (exchange slave (- 2) [0xFF, 0xFF] d3))))"

lemma wire_poll_finds:
  assumes "exchange slave ss (replicate (Suc (length a)) 0xFF) d = (a @ [r], d')" "r \<notin> set a" "length a < n"
  shows "wire_poll slave r n (ss, d) = (True, ss, d')"
  using assms
proof (induction n arbitrary: a d)
  case (Suc n)
  show ?case
  proof (cases a)
    case Nil
    then show ?thesis using Suc.prems by (simp add: wire_recv_def case_prod_beta)
  next
    case (Cons y ys)
    then obtain d1 where d1: "slave ss 0xFF d = (y, d1)"
      using Suc.prems(1) by (cases "slave ss 0xFF d") (auto simp: case_prod_beta)
    then show ?thesis
      using Suc.IH [of ys d1] Suc.prems Cons by (auto simp: wire_recv_def case_prod_beta)
  qed
qed simp

lemma wire_read_serves:
  assumes "card_serves slave n d data d'"
  shows "wire_read slave n (ss, d) = (Some data, - 1, d')"
proof -
  obtain d1 d2 d3 where
    "card_answers slave 0x00 (snd (exchange slave (- 2) (read_cmd n) d)) d1"
    "card_answers slave 0xFE d1 d2"
    and d3: "exchange slave (- 2) (replicate 512 0xFF) d2 = (data, d3)"
      "d' = snd (exchange slave (- 1) [0xFF] (snd (exchange slave (- 2) [0xFF, 0xFF] d3)))"
    using assms unfolding card_serves_def by blast
  then have "wire_poll slave 0x00 4095 (- 2, snd (exchange slave (- 2) (read_cmd n) d)) = (True, - 2, d1)"
      "wire_poll slave 0xFE 4095 (- 2, d1) = (True, - 2, d2)"
    by (auto simp: card_answers_def intro: wire_poll_finds)
  then show ?thesis
    using d3 by (simp add: wire_read_def wire_send_def wire_select_def wire_skip_def wire_recv_def
        Let_def case_prod_beta numeral_2_eq_2)
qed

text \<open>The address field of a command, most significant byte first.\<close>

definition cmd_address :: "u8 list \<Rightarrow> u32" where
  "cmd_address cs = (case cs of
      [_, a3, a2, a1, a0, _] \<Rightarrow> push_bit 24 (ucast a3) OR push_bit 16 (ucast a2) OR push_bit 8 (ucast a1) OR ucast a0
    | _ \<Rightarrow> 0)"

lemma cmd_address_read_cmd: "cmd_address (read_cmd n) = 512 * n"
proof -
  have "512 * n = push_bit 9 n" by (simp add: push_bit_eq_mult)
  moreover have "cmd_address (read_cmd n) = push_bit 9 n"
  proof (rule bit_word_eqI)
    have m: "(0x7F :: u32) = mask 7" "(0xFFFF :: u32) = mask 16" "(0xFF :: u16) = mask 8"
      by (simp_all add: mask_eq_exp_minus_1)
    note bits = bit_push_bit_iff bit_drop_bit_eq bit_or_iff bit_and_iff bit_mask_iff bit_ucast_iff
    fix k assume k: "k < LENGTH(32)"
    consider "k < 8" | "8 \<le> k" "k < 16" | "16 \<le> k" "k < 24" | "24 \<le> k" "k < 32"
      using k by fastforce
    then show "bit (cmd_address (read_cmd n)) k = bit (push_bit 9 n) k"
      unfolding cmd_address_def read_cmd_def Let_def m
      by cases (auto simp: bits less_diff_conv2)
  qed
  ultimately show ?thesis by simp
qed

lemma wire_reads_serves:
  assumes "\<forall>d. good d \<longrightarrow> (\<forall>k < n. \<exists>d'. card_serves slave (sector + of_nat k) d (img (sector + of_nat k)) d' \<and> good d')"
    and "good d"
  shows "\<exists>ss' d'. wire_reads slave sector n (ss, d) =
    (Some (concat (map (\<lambda>k. img (sector + of_nat k)) [0..<n])), ss', d') \<and> good d'"
  using assms
proof (induction n arbitrary: sector d ss)
  case (Suc n)
  obtain d1 where d1: "card_serves slave sector d (img sector) d1" "good d1"
    using Suc.prems(1) [rule_format, OF Suc.prems(2), of 0] by auto
  have "\<forall>d. good d \<longrightarrow> (\<forall>k < n. \<exists>d'. card_serves slave (sector + 1 + of_nat k) d (img (sector + 1 + of_nat k)) d' \<and> good d')"
  proof (intro allI impI)
    fix d k assume "good d" "k < n"
    then have "\<exists>d'. card_serves slave (sector + of_nat (Suc k)) d (img (sector + of_nat (Suc k))) d' \<and> good d'"
      using Suc.prems(1) by blast
    then show "\<exists>d'. card_serves slave (sector + 1 + of_nat k) d (img (sector + 1 + of_nat k)) d' \<and> good d'"
      by (simp add: add.assoc)
  qed
  from Suc.IH [OF this d1(2), of "- 1"] obtain ss' d' where r: "wire_reads slave (sector + 1) n (- 1, d1) =
      (Some (concat (map (\<lambda>k. img (sector + 1 + of_nat k)) [0..<n])), ss', d')" "good d'" by blast
  have "map (\<lambda>k. img (sector + of_nat k)) [0..<Suc n] = img sector # map (\<lambda>k. img (sector + 1 + of_nat k)) [0..<n]"
    by (simp add: map_upt_Suc add.assoc del: upt_Suc)
  then show ?case using wire_read_serves [OF d1(1), of ss] r by (simp del: upt_Suc)
qed simp

context spi_core
begin

lemma disk_read_sectors:
  assumes "sd_ok base (fst mb) (vw (snd mb))"
    and "512 * unat count \<le> length buff"
    and "good (sv_dev (vw (snd mb)))"
    and "\<forall>d. good d \<longrightarrow> (\<forall>k < unat count. \<exists>d'.
           card_serves slave (sector + of_nat k) d (img (sector + of_nat k)) d' \<and> good d')"
  shows "\<exists>mb'. disk_read io 0 buff sector count mb =
      Some (RES_OK, concat (map (\<lambda>k. img (sector + of_nat k)) [0..<unat count]) @ drop (512 * unat count) buff, mb') \<and>
    sd_ok base (fst mb') (vw (snd mb')) \<and> good (sv_dev (vw (snd mb')))"
proof -
  define c where "c = sd_wire (fst mb) (vw (snd mb))"
  have r: "sd_rel base vw mb c" using assms(1) by (simp add: sd_rel_def c_def)
  obtain ss' d' where w: "wire_reads slave sector (unat count) c =
      (Some (concat (map (\<lambda>k. img (sector + of_nat k)) [0..<unat count])), ss', d')" "good d'"
    using wire_reads_serves [OF assms(4,3), of "SlaveSelectReg (Spi_SD (fst mb))"]
    by (auto simp: c_def sd_wire_def)
  show ?thesis
    using read_run [OF r, of 0 "unat count" buff sector] assms(2) w
    by (auto simp: disk_read_def sd_rel_def sd_wire_def)
qed

end

section \<open>Properties\<close>

text \<open>
  Property C7. Reading sectors. On a card that answers READ_SINGLE_BLOCK as documented (in every
  state that satisfies \<open>good\<close>, with the contents \<open>img\<close>), \<^verbatim>\<open>disk_read\<close> returns \<^verbatim>\<open>RES_OK\<close>
  and stores exactly the \<open>count\<close> sectors from \<open>sector\<close> on, in order, at the start of the
  buffer, leaves the rest of the buffer alone, and driver and card are ready for the next call.
\<close>

theorem disk_read_returns_sectors:
  assumes "spi_core io base depth slave vw lag"
    and "sd_ok base (fst mb) (vw (snd mb))"
    and "512 * unat count \<le> length buff"
    and "good (sv_dev (vw (snd mb)))"
    and "\<forall>d. good d \<longrightarrow> (\<forall>k < unat count. \<exists>d'.
           card_serves slave (sector + of_nat k) d (img (sector + of_nat k)) d' \<and> good d')"
  shows "\<exists>mb'. disk_read io 0 buff sector count mb =
      Some (RES_OK, concat (map (\<lambda>k. img (sector + of_nat k)) [0..<unat count]) @ drop (512 * unat count) buff, mb') \<and>
    sd_ok base (fst mb') (vw (snd mb')) \<and> good (sv_dev (vw (snd mb')))"
  using spi_core.disk_read_sectors [OF assms] .

text \<open>
  Property C25. Errors reach the caller. Whatever the card does, \<^verbatim>\<open>disk_read\<close> ends; it reports
  \<^verbatim>\<open>RES_ERROR\<close> exactly when one of the block reads of the protocol failed (no start byte or no
  data token within 4095 polls), and the driver stays usable.
\<close>

theorem disk_read_reports_errors:
  assumes "spi_core io base depth slave vw lag" "sd_ok base (fst mb) (vw (snd mb))"
    and "512 * unat count \<le> length buff"
  shows "\<exists>res buff' mb'. disk_read io 0 buff sector count mb = Some (res, buff', mb') \<and>
     res = (if fst (wire_reads slave sector (unat count) (sd_wire (fst mb) (vw (snd mb)))) = None
            then RES_ERROR else RES_OK) \<and>
     length buff' = length buff \<and> sd_ok base (fst mb') (vw (snd mb'))"
proof -
  have r: "sd_rel base vw mb (sd_wire (fst mb) (vw (snd mb)))" using assms(2) by (simp add: sd_rel_def)
  show ?thesis
    using spi_core.read_run [OF assms(1) r, of 0 "unat count" buff sector] assms(3)
    by (auto simp: disk_read_def sd_rel_def)
qed

text \<open>
  Property C14. Initialisation. For every card \<^verbatim>\<open>mmc_init\<close> ends, with the result and the bus
  traffic of the start-up protocol \<open>wire_init\<close>: 80 clocks deselected, CMD0 until 0x01, CMD1
  until 0x00, CMD16 for 512-byte blocks.
\<close>

theorem mmc_init_refines_protocol:
  assumes "spi_core io base depth slave vw lag" "sd_ok base (fst mb) (vw (snd mb))"
  shows "\<exists>r mb'. mmc_init io mb = Some (r, mb') \<and> sd_ok base (fst mb') (vw (snd mb')) \<and>
     (r = 0, sd_wire (fst mb') (vw (snd mb'))) = wire_init slave (sd_wire (fst mb) (vw (snd mb))) \<and>
     r \<in> {0, - 1}"
proof -
  have r: "sd_rel base vw mb (sd_wire (fst mb) (vw (snd mb)))" using assms(2) by (simp add: sd_rel_def)
  show ?thesis using spi_core.init [OF assms(1) r] by (auto simp: sd_rel_def prod_eq_iff)
qed

text \<open>
  The read command carries the byte address of the block, 512 times the block number
  modulo 2 to the 32, most significant byte first, between the command code and the dummy
  checksum, for every block number.
\<close>

theorem read_cmd_encodes_address:
  "length (read_cmd n) = 6 \<and> hd (read_cmd n) = 0x51 \<and> cmd_address (read_cmd n) = 512 * n \<and> last (read_cmd n) = 0xFF"
  using cmd_address_read_cmd [of n] by (simp add: read_cmd_def Let_def)

section \<open>A card that keeps the promise\<close>

text \<open>
  A card with byte addressing: while selected it collects six-byte commands, answers the reset
  and initialisation commands and serves READ_SINGLE_BLOCK from its image. Witnesses use it.
\<close>

record sim_card =
  cd_in :: "u8 list"
  cd_out :: "u8 list"

definition card_reply :: "(u32 \<Rightarrow> u8 list) \<Rightarrow> u8 list \<Rightarrow> u8 list" where
  "card_reply img cs =
     (if hd cs = 0x40 then [0xFF, 0x01]
      else if hd cs = 0x51 then [0xFF, 0x00, 0xFF, 0xFE] @ img (drop_bit 9 (cmd_address cs)) @ [0x12, 0x34]
      else [0xFF, 0x00])"

definition sim_card_slave :: "(u32 \<Rightarrow> u8 list) \<Rightarrow> sim_card slave" where
  "sim_card_slave img ss c d =
     (if bit ss 0 then (0xFF, d)
      else case cd_out d of
             r # rs \<Rightarrow> (r, d\<lparr>cd_out := rs\<rparr>)
           | [] \<Rightarrow>
               if cd_in d = [] \<and> c = 0xFF then (0xFF, d)
               else if length (cd_in d) = 5
               then (0xFF, d\<lparr>cd_in := [], cd_out := card_reply img (cd_in d @ [c])\<rparr>)
               else (0xFF, d\<lparr>cd_in := cd_in d @ [c]\<rparr>))"

definition card_idle :: "sim_card \<Rightarrow> bool" where
  "card_idle d \<longleftrightarrow> cd_in d = [] \<and> cd_out d = []"

lemma card_takes_command:
  assumes "hd cs \<noteq> 0xFF" "length cs = 6" "card_idle d"
  shows "snd (exchange (sim_card_slave img) (- 2) cs d) = d\<lparr>cd_out := card_reply img cs\<rparr>"
proof -
  obtain a0 a1 a2 a3 a4 a5 where "cs = [a0, a1, a2, a3, a4, a5]"
    using assms(2) by (auto simp: numeral_eq_Suc length_Suc_conv)
  then show ?thesis
    using assms(1,3) by (cases d) (simp add: sim_card_slave_def card_idle_def bit_minus_2_iff)
qed

lemma card_sends:
  "cd_in d = [] \<Longrightarrow> cd_out d = q @ q' \<Longrightarrow>
   exchange (sim_card_slave img) (- 2) (replicate (length q) c) d = (q, d\<lparr>cd_out := q'\<rparr>)"
proof (induction q arbitrary: d)
  case Nil
  then show ?case by simp
next
  case (Cons r q)
  then show ?case using Cons.IH [of "d\<lparr>cd_out := q @ q'\<rparr>"]
    by (simp add: sim_card_slave_def bit_minus_2_iff)
qed

lemma sim_card_serves:
  assumes "card_idle d" "unat n < 2 ^ 23" "length (img n) = 512"
  shows "card_serves (sim_card_slave img) n d (img n) d"
proof -
  have "unat (512 * n) = 512 * unat n"
    using assms(2) by (simp add: unat_word_ariths)
  then have "drop_bit 9 (512 * n) = n"
    by (simp only: word_unat_eq_iff unat_drop_bit_eq) (simp add: drop_bit_eq_div)
  then have reply: "card_reply img (read_cmd n) = [0xFF, 0x00] @ [0xFF, 0xFE] @ img n @ [0x12, 0x34]"
    using cmd_address_read_cmd [of n] by (simp add: card_reply_def read_cmd_def Let_def)
  define d0 where "d0 = d\<lparr>cd_out := [0xFF, 0x00] @ [0xFF, 0xFE] @ img n @ [0x12, 0x34]\<rparr>"
  define d1 where "d1 = d\<lparr>cd_out := [0xFF, 0xFE] @ img n @ [0x12, 0x34]\<rparr>"
  define d2 where "d2 = d\<lparr>cd_out := img n @ [0x12, 0x34]\<rparr>"
  define d3 where "d3 = d\<lparr>cd_out := [0x12, 0x34] @ []\<rparr>"
  have d: "cd_in d = []" "cd_out d = []" using assms(1) by (simp_all add: card_idle_def)
  have cmd: "snd (exchange (sim_card_slave img) (- 2) (read_cmd n) d) = d0"
    using card_takes_command [of "read_cmd n" d img] assms(1) reply
    by (simp add: d0_def read_cmd_def Let_def)
  have 1: "exchange (sim_card_slave img) (- 2) (replicate (length [0xFF, 0x00 :: u8]) 0xFF) d0 = ([0xFF, 0x00], d1)"
    using card_sends [of d0 "[0xFF, 0x00]" "[0xFF, 0xFE] @ img n @ [0x12, 0x34]" img "0xFF"] d(1)
    by (simp add: d0_def d1_def)
  have 2: "exchange (sim_card_slave img) (- 2) (replicate (length [0xFF, 0xFE :: u8]) 0xFF) d1 = ([0xFF, 0xFE], d2)"
    using card_sends [of d1 "[0xFF, 0xFE]" "img n @ [0x12, 0x34]" img "0xFF"] d(1)
    by (simp add: d1_def d2_def)
  have 3: "exchange (sim_card_slave img) (- 2) (replicate 512 0xFF) d2 = (img n, d3)"
    using card_sends [of d2 "img n" "[0x12, 0x34]" img "0xFF"] d(1) assms(3)
    by (simp add: d2_def d3_def)
  have 4: "exchange (sim_card_slave img) (- 2) [0xFF, 0xFF] d3 = ([0x12, 0x34], d)"
    using card_sends [of d3 "[0x12, 0x34]" "[]" img "0xFF"] d
    by (simp add: d3_def)
  have 5: "exchange (sim_card_slave img) (- 1) [0xFF] d = ([0xFF], d)"
    by (simp add: sim_card_slave_def)
  have "card_answers (sim_card_slave img) 0 d0 d1" unfolding card_answers_def
    using 1 by (intro exI [of _ "[0xFF]"]) simp
  moreover have "card_answers (sim_card_slave img) 0xFE d1 d2" unfolding card_answers_def
    using 2 by (intro exI [of _ "[0xFF]"]) simp
  ultimately show ?thesis unfolding card_serves_def cmd
    using 3 4 5 by (intro exI [of _ d1] exI [of _ d2] exI [of _ d3]) (simp del: exchange.simps)
qed

definition demo_img :: "u32 \<Rightarrow> u8 list" where
  "demo_img n = replicate 512 (ucast n)"

definition demo_mmc :: "nat mmc" where
  "demo_mmc = \<lparr>Spi_SD = demo_xspi, sd_buf = replicate 512 0, mmc_cmd = replicate 6 0\<rparr>"

definition demo_card :: sim_card where
  "demo_card = \<lparr>cd_in = [], cd_out = []\<rparr>"

definition dead_slave :: "unit slave" where
  "dead_slave ss c d = (0xFF, d)"

lemma demo_mmc_ok: "sd_ok 0x81050000 demo_mmc (sc_view (demo_sim d))"
  using demo_sim_idle(1) [of d] by (simp add: sd_ok_def demo_mmc_def) (simp add: demo_xspi_def)

lemma wire_poll_dead: "response \<noteq> 0xFF \<Longrightarrow> wire_poll dead_slave response n c = (False, c)"
  by (cases c, induction n) (simp_all add: wire_recv_def dead_slave_def)

lemma wire_poll_numeral [simp]:
  "wire_poll slave response (numeral k) c =
     (let (rs, c) = wire_recv slave 1 c
      in if hd rs = response then (True, c) else wire_poll slave response (pred_numeral k) c)"
  by (simp add: numeral_eq_Suc)

lemma wire_cmd1_numeral [simp]:
  "wire_cmd1 slave (numeral k) c =
     (let (ready, c) = wire_poll slave 0x00 4095 (wire_send slave [0x41, 0, 0, 0, 0, 0xFF] c)
      in if \<not> ready \<and> pred_numeral k > 0 then wire_cmd1 slave (pred_numeral k) c else (pred_numeral k, c))"
  by (simp add: numeral_eq_Suc)

theorem disk_read_returns_sectors_witness:
  "\<exists>mb'. disk_read (spi_sim_io 0x81050000 (Suc 15) (sim_card_slave demo_img)) 0 (replicate 1030 9) 7 2
       (demo_mmc, demo_sim demo_card) = Some (RES_OK, replicate 512 7 @ replicate 512 8 @ replicate 6 9, mb')"
proof -
  have u: "unat (2 :: u8) = 2" by simp
  have serves: "\<exists>d'. card_serves (sim_card_slave demo_img) (7 + of_nat k) d (demo_img (7 + of_nat k)) d' \<and> card_idle d'"
    if "card_idle d" "k < 2" for d k
  proof -
    have "unat (7 + of_nat k :: u32) < 2 ^ 23" using that(2) by (cases k) auto
    then show ?thesis using sim_card_serves [OF that(1), of "7 + of_nat k" demo_img] that(1)
      by (auto simp: demo_img_def)
  qed
  have ok: "sd_ok 0x81050000 (fst (demo_mmc, demo_sim demo_card)) (sc_view (snd (demo_mmc, demo_sim demo_card)))"
    by (simp add: demo_mmc_ok)
  have idle: "card_idle (sv_dev (sc_view (snd (demo_mmc, demo_sim demo_card))))"
    by (simp add: demo_sim_def demo_card_def card_idle_def)
  have two: "[0..<2] = [0, 1 :: nat]" by (simp add: upt_rec)
  have img: "demo_img 7 = replicate 512 7" "demo_img 8 = replicate 512 8"
    by (simp_all add: demo_img_def)
  from disk_read_returns_sectors [OF sim.spi_core_axioms [of _ 15] ok, of 2 "replicate 1030 9" card_idle "sim_card_slave demo_img" 7 demo_img]
    serves idle
  show ?thesis by (auto simp: u two img)
qed

theorem disk_read_reports_errors_witness:
  "\<exists>buff' mb'. disk_read (spi_sim_io 0x81050000 (Suc 15) dead_slave) 0 (replicate 512 0) 7 1
       (demo_mmc, demo_sim ()) = Some (RES_ERROR, buff', mb')"
proof -
  have ok: "sd_ok 0x81050000 (fst (demo_mmc, demo_sim ())) (sc_view (snd (demo_mmc, demo_sim ())))"
    by (simp add: demo_mmc_ok)
  have "wire_reads dead_slave 7 1 c = (None, wire_send dead_slave (read_cmd 7) (wire_select (- 2) c))" for c
    by (simp add: wire_read_def wire_poll_dead Let_def del: wire_poll_numeral)
  with disk_read_reports_errors [OF sim.spi_core_axioms ok, of 1 "replicate 512 0" 15 dead_slave 7]
  show ?thesis by auto
qed

theorem mmc_init_refines_protocol_witness:
  "\<exists>mb'. mmc_init (spi_sim_io 0x81050000 (Suc 15) (sim_card_slave demo_img)) (demo_mmc, demo_sim demo_card) =
     Some (0, mb')"
proof -
  have ok: "sd_ok 0x81050000 (fst (demo_mmc, demo_sim demo_card)) (sc_view (snd (demo_mmc, demo_sim demo_card)))"
    by (simp add: demo_mmc_ok)
  have "fst (wire_init (sim_card_slave demo_img) (- 2, demo_card))"
    by code_simp
  moreover have "sd_wire demo_mmc (sc_view (demo_sim demo_card)) = (- 2, demo_card)"
    by (simp add: sd_wire_def demo_mmc_def demo_xspi_def demo_sim_def)
  ultimately have w: "fst (wire_init (sim_card_slave demo_img) (sd_wire demo_mmc (sc_view (demo_sim demo_card))))"
    by simp
  obtain r mb' where
    "mmc_init (spi_sim_io 0x81050000 (Suc 15) (sim_card_slave demo_img)) (demo_mmc, demo_sim demo_card) = Some (r, mb')"
    "(r = 0, sd_wire (fst mb') (sc_view (snd mb'))) =
       wire_init (sim_card_slave demo_img) (sd_wire demo_mmc (sc_view (demo_sim demo_card)))"
    using mmc_init_refines_protocol [OF sim.spi_core_axioms ok, of 15 "sim_card_slave demo_img"] by auto
  moreover from this(2) w have "r = 0" by (metis fst_conv)
  ultimately show ?thesis by blast
qed

end
