(* ===== verification/Fat_Fs.thy ===== *)
theory Fat_Fs
  imports Sd_Card
begin

unbundle bit_operations_syntax

text \<open>
  The FAT file system module \<^verbatim>\<open>ff.c\<close> of \<^verbatim>\<open>src/sdloader/src\<close>, in the configuration of its
  \<^verbatim>\<open>ffconf.h\<close>: read only, one volume, sectors of 512 bytes, short names in code page 1251, no
  locking. The disk functions FatFs calls are a record of type \<open>'s disk\<close>; \<open>sd_disk\<close> is the one
  of \<^verbatim>\<open>diskio.c\<close>.

  There is one file system object. A pointer to it (\<^verbatim>\<open>fp->fs\<close>, \<^verbatim>\<open>dj->fs\<close>, \<^verbatim>\<open>FatFs[0]\<close>) is a
  truth value, false for the null pointer. A pointer into the window \<^verbatim>\<open>win\<close> is an offset, a
  path is the list of its characters up to the terminating 0 included. \<open>None\<close> is an access out
  of bounds or a loop that does not end.
\<close>

section \<open>Constants\<close>

named_theorems ff_consts \<open>offsets and flags of ff.c\<close>

definition BPB_BytsPerSec :: nat where [ff_consts]: "BPB_BytsPerSec = 11"
definition BPB_SecPerClus :: nat where [ff_consts]: "BPB_SecPerClus = 13"
definition BPB_RsvdSecCnt :: nat where [ff_consts]: "BPB_RsvdSecCnt = 14"
definition BPB_NumFATs :: nat where [ff_consts]: "BPB_NumFATs = 16"
definition BPB_RootEntCnt :: nat where [ff_consts]: "BPB_RootEntCnt = 17"
definition BPB_TotSec16 :: nat where [ff_consts]: "BPB_TotSec16 = 19"
definition BPB_FATSz16 :: nat where [ff_consts]: "BPB_FATSz16 = 22"
definition BPB_TotSec32 :: nat where [ff_consts]: "BPB_TotSec32 = 32"
definition BPB_FATSz32 :: nat where [ff_consts]: "BPB_FATSz32 = 36"
definition BPB_RootClus :: nat where [ff_consts]: "BPB_RootClus = 44"
definition BS_FilSysType :: nat where [ff_consts]: "BS_FilSysType = 54"
definition BS_FilSysType32 :: nat where [ff_consts]: "BS_FilSysType32 = 82"
definition MBR_Table :: nat where [ff_consts]: "MBR_Table = 446"
definition BS_55AA :: nat where [ff_consts]: "BS_55AA = 510"
definition DIR_Name :: nat where [ff_consts]: "DIR_Name = 0"
definition DIR_Attr :: nat where [ff_consts]: "DIR_Attr = 11"
definition DIR_FstClusHI :: nat where [ff_consts]: "DIR_FstClusHI = 20"
definition DIR_WrtTime :: nat where [ff_consts]: "DIR_WrtTime = 22"
definition DIR_WrtDate :: nat where [ff_consts]: "DIR_WrtDate = 24"
definition DIR_FstClusLO :: nat where [ff_consts]: "DIR_FstClusLO = 26"
definition DIR_FileSize :: nat where [ff_consts]: "DIR_FileSize = 28"
definition SZ_DIR :: nat where [ff_consts]: "SZ_DIR = 32"
definition NS :: nat where [ff_consts]: "NS = 11"
definition NS_LAST :: u8 where [ff_consts]: "NS_LAST = 0x04"
definition NS_BODY :: u8 where [ff_consts]: "NS_BODY = 0x08"
definition NS_EXT :: u8 where [ff_consts]: "NS_EXT = 0x10"
definition DDE :: u8 where [ff_consts]: "DDE = 0xE5"
definition NDDE :: u8 where [ff_consts]: "NDDE = 0x05"
definition AM_VOL :: u8 where [ff_consts]: "AM_VOL = 0x08"
definition AM_DIR :: u8 where [ff_consts]: "AM_DIR = 0x10"
definition FA_READ :: u8 where [ff_consts]: "FA_READ = 0x01"
definition FA__ERROR :: u8 where [ff_consts]: "FA__ERROR = 0x80"
definition FS_FAT12 :: u8 where [ff_consts]: "FS_FAT12 = 1"
definition FS_FAT16 :: u8 where [ff_consts]: "FS_FAT16 = 2"
definition FS_FAT32 :: u8 where [ff_consts]: "FS_FAT32 = 3"
definition MIN_FAT16 :: u32 where [ff_consts]: "MIN_FAT16 = 4086"
definition MIN_FAT32 :: u32 where [ff_consts]: "MIN_FAT32 = 65526"

text \<open>Upper case conversion of the characters from 0x80 on, code page 1251.\<close>

definition excvt :: "u8 list" where
  "excvt =
     [0x80, 0x81, 0x82, 0x82, 0x84, 0x85, 0x86, 0x87, 0x88, 0x89, 0x8A, 0x8B, 0x8C, 0x8D, 0x8E, 0x8F,
      0x80, 0x91, 0x92, 0x93, 0x94, 0x95, 0x96, 0x97, 0x98, 0x99, 0x8A, 0x9B, 0x8C, 0x8D, 0x8E, 0x8F,
      0xA0, 0xA2, 0xA2, 0xA3, 0xA4, 0xA5, 0xA6, 0xA7, 0xA8, 0xA9, 0xAA, 0xAB, 0xAC, 0xAD, 0xAE, 0xAF,
      0xB0, 0xB1, 0xB2, 0xB2, 0xA5, 0xB5, 0xB6, 0xB7, 0xA8, 0xB9, 0xAA, 0xBB, 0xA3, 0xBD, 0xBD, 0xAF,
      0xC0, 0xC1, 0xC2, 0xC3, 0xC4, 0xC5, 0xC6, 0xC7, 0xC8, 0xC9, 0xCA, 0xCB, 0xCC, 0xCD, 0xCE, 0xCF,
      0xD0, 0xD1, 0xD2, 0xD3, 0xD4, 0xD5, 0xD6, 0xD7, 0xD8, 0xD9, 0xDA, 0xDB, 0xDC, 0xDD, 0xDE, 0xDF,
      0xC0, 0xC1, 0xC2, 0xC3, 0xC4, 0xC5, 0xC6, 0xC7, 0xC8, 0xC9, 0xCA, 0xCB, 0xCC, 0xCD, 0xCE, 0xCF,
      0xD0, 0xD1, 0xD2, 0xD3, 0xD4, 0xD5, 0xD6, 0xD7, 0xD8, 0xD9, 0xDA, 0xDB, 0xDC, 0xDD, 0xDE, 0xDF]"

section \<open>Objects\<close>

datatype fresult =
    FR_OK | FR_DISK_ERR | FR_INT_ERR | FR_NOT_READY | FR_NO_FILE | FR_NO_PATH | FR_INVALID_NAME
  | FR_DENIED | FR_EXIST | FR_INVALID_OBJECT | FR_WRITE_PROTECTED | FR_INVALID_DRIVE
  | FR_NOT_ENABLED | FR_NO_FILESYSTEM | FR_MKFS_ABORTED | FR_TIMEOUT | FR_LOCKED
  | FR_NOT_ENOUGH_CORE | FR_TOO_MANY_OPEN_FILES | FR_INVALID_PARAMETER

record fatfs =
  fs_type :: u8
  drv :: u8
  csize :: u8
  n_fats :: u8
  wflag :: u8
  fs_id :: u16
  n_rootdir :: u16
  n_fatent :: u32
  fs_fsize :: u32
  fatbase :: u32
  dirbase :: u32
  database :: u32
  winsect :: u32
  win :: "u8 list"

record fil =
  fil_fs :: bool
  fil_id :: u16
  flag :: u8
  fptr :: u32
  fsize :: u32
  sclust :: u32
  clust :: u32
  dsect :: u32
  fbuf :: "u8 list"

record dir =
  dj_fs :: bool
  dj_id :: u16
  dj_index :: u16
  dj_sclust :: u32
  dj_clust :: u32
  dj_sect :: u32
  dj_dir :: "nat option"
  dj_fn :: "u8 list"

record filinfo =
  fi_fsize :: u32
  fi_fdate :: u16
  fi_ftime :: u16
  fi_fattrib :: u8
  fi_fname :: "u8 list"

text \<open>The file system object, whether it is registered in \<^verbatim>\<open>FatFs[0]\<close>, and \<^verbatim>\<open>Fsid\<close>.\<close>

record volume =
  vol_fs :: fatfs
  FatFs :: bool
  Fsid :: u16

text \<open>The functions of \<^verbatim>\<open>diskio.h\<close>.\<close>

record 's disk =
  dk_initialize :: "u8 \<Rightarrow> 's \<Rightarrow> (u8 \<times> 's) option"
  dk_status :: "u8 \<Rightarrow> u8"
  dk_read :: "u8 \<Rightarrow> u8 list \<Rightarrow> u32 \<Rightarrow> u8 \<Rightarrow> 's \<Rightarrow> (dresult \<times> u8 list \<times> 's) option"

definition sd_disk :: "'b mmio \<Rightarrow> ('h mmc \<times> 'b) disk" where
  "sd_disk io = \<lparr>dk_initialize = disk_initialize io, dk_status = disk_status, dk_read = disk_read io\<rparr>"

section \<open>Memory and string functions\<close>

fun mem_cpy :: "u8 list \<Rightarrow> nat \<Rightarrow> u8 list \<Rightarrow> nat \<Rightarrow> nat \<Rightarrow> u8 list option" where
  "mem_cpy dst d src s 0 = Some dst"
| "mem_cpy dst d src s (Suc cnt) =
     do { c \<leftarrow> arr_get src s; dst \<leftarrow> arr_set dst d c; mem_cpy dst (Suc d) src (Suc s) cnt }"

fun mem_set :: "u8 list \<Rightarrow> nat \<Rightarrow> u8 \<Rightarrow> nat \<Rightarrow> u8 list option" where
  "mem_set dst d val 0 = Some dst"
| "mem_set dst d val (Suc cnt) = do { dst \<leftarrow> arr_set dst d val; mem_set dst (Suc d) val cnt }"

fun mem_cmp :: "u8 list \<Rightarrow> nat \<Rightarrow> u8 list \<Rightarrow> nat \<Rightarrow> nat \<Rightarrow> int option" where
  "mem_cmp dst d src s 0 = Some 0"
| "mem_cmp dst d src s (Suc cnt) =
     do { a \<leftarrow> arr_get dst d; b \<leftarrow> arr_get src s;
          let r = uint a - uint b;
          if r = 0 then mem_cmp dst (Suc d) src (Suc s) cnt else Some r }"

fun chk_chr :: "u8 list \<Rightarrow> u8 \<Rightarrow> u8 option" where
  "chk_chr [] chr = None"
| "chk_chr (c # str) chr = (if c \<noteq> 0 \<and> c \<noteq> chr then chk_chr str chr else Some c)"

definition LD_WORD :: "u8 list \<Rightarrow> nat \<Rightarrow> u16 option" where
  "LD_WORD xs i =
     do { a \<leftarrow> arr_get xs i; b \<leftarrow> arr_get xs (i + 1); Some (push_bit 8 (ucast b) OR ucast a) }"

definition LD_DWORD :: "u8 list \<Rightarrow> nat \<Rightarrow> u32 option" where
  "LD_DWORD xs i =
     do { a \<leftarrow> arr_get xs i; b \<leftarrow> arr_get xs (i + 1); c \<leftarrow> arr_get xs (i + 2); d \<leftarrow> arr_get xs (i + 3);
          Some (push_bit 24 (ucast d) OR push_bit 16 (ucast c) OR push_bit 8 (ucast b) OR ucast a) }"

definition IsUpper :: "u8 \<Rightarrow> bool" where "IsUpper c \<longleftrightarrow> 0x41 \<le> c \<and> c \<le> 0x5A"
definition IsLower :: "u8 \<Rightarrow> bool" where "IsLower c \<longleftrightarrow> 0x61 \<le> c \<and> c \<le> 0x7A"

section \<open>Window and FAT\<close>

definition move_window :: "'s disk \<Rightarrow> u32 \<Rightarrow> fatfs \<times> 's \<Rightarrow> (fresult \<times> fatfs \<times> 's) option" where
  "move_window dk sector fss =
     (let (fs, s) = fss
      in if winsect fs \<noteq> sector \<and> sector \<noteq> 0 then
           do { (r, buf, s) \<leftarrow> dk_read dk (drv fs) (win fs) sector 1 s;
                let fs = fs\<lparr>win := buf\<rparr>;
                Some (if r \<noteq> RES_OK then (FR_DISK_ERR, fs, s) else (FR_OK, fs\<lparr>winsect := sector\<rparr>, s)) }
         else Some (FR_OK, fs, s))"

definition clust2sect :: "fatfs \<Rightarrow> u32 \<Rightarrow> u32" where
  "clust2sect fs clst =
     (let clst = clst - 2
      in if n_fatent fs - 2 \<le> clst then 0 else clst * ucast (csize fs) + database fs)"

definition get_fat12 :: "'s disk \<Rightarrow> u32 \<Rightarrow> fatfs \<times> 's \<Rightarrow> (u32 \<times> fatfs \<times> 's) option" where
  "get_fat12 dk clst fss =
     (let bc = clst + clst div 2
      in do { (r, fs, s) \<leftarrow> move_window dk (fatbase (fst fss) + bc div 512) fss;
              if r \<noteq> FR_OK then Some (0xFFFFFFFF, fs, s)
              else
                do { lo \<leftarrow> arr_get (win fs) (unat (bc mod 512));
                     let bc = bc + 1;
                     (r, fs, s) \<leftarrow> move_window dk (fatbase fs + bc div 512) (fs, s);
                     if r \<noteq> FR_OK then Some (0xFFFFFFFF, fs, s)
                     else
                       do { hi \<leftarrow> arr_get (win fs) (unat (bc mod 512));
                            let wc = (ucast lo :: u32) OR push_bit 8 (ucast hi);
                            Some (if clst AND 1 \<noteq> 0 then drop_bit 4 wc else wc AND 0xFFF, fs, s) } } })"

definition get_fat :: "'s disk \<Rightarrow> u32 \<Rightarrow> fatfs \<times> 's \<Rightarrow> (u32 \<times> fatfs \<times> 's) option" where
  "get_fat dk clst fss =
     (let (fs, s) = fss
      in if clst < 2 \<or> n_fatent fs \<le> clst then Some (1, fs, s)
         else if fs_type fs = FS_FAT12 then get_fat12 dk clst (fs, s)
         else if fs_type fs = FS_FAT16 then
           do { (r, fs, s) \<leftarrow> move_window dk (fatbase fs + clst div 256) (fs, s);
                if r \<noteq> FR_OK then Some (0xFFFFFFFF, fs, s)
                else do { w \<leftarrow> LD_WORD (win fs) (unat (clst * 2 mod 512)); Some (ucast w, fs, s) } }
         else if fs_type fs = FS_FAT32 then
           do { (r, fs, s) \<leftarrow> move_window dk (fatbase fs + clst div 128) (fs, s);
                if r \<noteq> FR_OK then Some (0xFFFFFFFF, fs, s)
                else do { w \<leftarrow> LD_DWORD (win fs) (unat (clst * 4 mod 512));
                          Some (w AND 0x0FFFFFFF, fs, s) } }
         else Some (0xFFFFFFFF, fs, s))"

section \<open>Directories\<close>

text \<open>Follow the cluster chain to the cluster of the entry; \<open>ic\<close> is the entries per cluster.\<close>

partial_function (option) sdi_loop ::
  "'s disk \<Rightarrow> u16 \<Rightarrow> u16 \<times> u32 \<times> fatfs \<times> 's \<Rightarrow> (fresult \<times> u16 \<times> u32 \<times> fatfs \<times> 's) option" where
  "sdi_loop dk ic st =
     (let (idx, clst, fs, s) = st
      in if ic \<le> idx then
           do { (clst, fs, s) \<leftarrow> get_fat dk clst (fs, s);
                if clst = 0xFFFFFFFF then Some (FR_DISK_ERR, idx, clst, fs, s)
                else if clst < 2 \<or> n_fatent fs \<le> clst then Some (FR_INT_ERR, idx, clst, fs, s)
                else sdi_loop dk ic (idx - ic, clst, fs, s) }
         else Some (FR_OK, idx, clst, fs, s))"

definition dir_offset :: "u16 \<Rightarrow> nat" where
  "dir_offset idx = unat (idx mod 16) * SZ_DIR"

definition dir_sdi ::
  "'s disk \<Rightarrow> u16 \<Rightarrow> dir \<times> fatfs \<times> 's \<Rightarrow> (fresult \<times> dir \<times> fatfs \<times> 's) option" where
  "dir_sdi dk idx st =
     (let (dj, fs, s) = st; dj = dj\<lparr>dj_index := idx\<rparr>; clst = dj_sclust dj
      in if clst = 1 \<or> n_fatent fs \<le> clst then Some (FR_INT_ERR, dj, fs, s)
         else
           (let clst = if clst = 0 \<and> fs_type fs = FS_FAT32 then dirbase fs else clst
            in if clst = 0 then
                 (let dj = dj\<lparr>dj_clust := clst\<rparr>
                  in if n_rootdir fs \<le> idx then Some (FR_INT_ERR, dj, fs, s)
                     else Some (FR_OK, dj\<lparr>dj_sect := dirbase fs + ucast (idx div 16),
                                         dj_dir := Some (dir_offset idx)\<rparr>, fs, s))
               else
                 do { (r, idx, clst, fs, s) \<leftarrow>
                        sdi_loop dk (16 * ucast (csize fs)) (idx, clst, fs, s);
                      if r \<noteq> FR_OK then Some (r, dj, fs, s)
                      else Some (FR_OK, dj\<lparr>dj_clust := clst,
                                          dj_sect := clust2sect fs clst + ucast (idx div 16),
                                          dj_dir := Some (dir_offset idx)\<rparr>, fs, s) }))"

definition dir_next :: "'s disk \<Rightarrow> dir \<times> fatfs \<times> 's \<Rightarrow> (fresult \<times> dir \<times> fatfs \<times> 's) option" where
  "dir_next dk st =
     (let (dj, fs, s) = st; i = dj_index dj + 1;
          move = (\<lambda>dj. dj\<lparr>dj_index := i, dj_dir := Some (dir_offset i)\<rparr>)
      in if i = 0 \<or> dj_sect dj = 0 then Some (FR_NO_FILE, dj, fs, s)
         else if i mod 16 = 0 then
           (let dj = dj\<lparr>dj_sect := dj_sect dj + 1\<rparr>
            in if dj_clust dj = 0 then
                 if n_rootdir fs \<le> i then Some (FR_NO_FILE, dj, fs, s) else Some (FR_OK, move dj, fs, s)
               else if (ucast (i div 16) :: u32) AND (ucast (csize fs) - 1) = 0 then
                 do { (clst, fs, s) \<leftarrow> get_fat dk (dj_clust dj) (fs, s);
                      if clst \<le> 1 then Some (FR_INT_ERR, dj, fs, s)
                      else if clst = 0xFFFFFFFF then Some (FR_DISK_ERR, dj, fs, s)
                      else if n_fatent fs \<le> clst then Some (FR_NO_FILE, dj, fs, s)
                      else Some (FR_OK, move (dj\<lparr>dj_clust := clst, dj_sect := clust2sect fs clst\<rparr>), fs, s) }
               else Some (FR_OK, move dj, fs, s))
         else Some (FR_OK, move dj, fs, s))"

definition ld_clust :: "fatfs \<Rightarrow> nat \<Rightarrow> u32 option" where
  "ld_clust fs d =
     do { lo \<leftarrow> LD_WORD (win fs) (d + DIR_FstClusLO);
          if fs_type fs = FS_FAT32 then
            do { hi \<leftarrow> LD_WORD (win fs) (d + DIR_FstClusHI);
                 Some (ucast lo OR push_bit 16 (ucast hi)) }
          else Some (ucast lo) }"

partial_function (option) find_loop ::
  "'s disk \<Rightarrow> dir \<times> fatfs \<times> 's \<Rightarrow> (fresult \<times> dir \<times> fatfs \<times> 's) option" where
  "find_loop dk st =
     (let (dj, fs, s) = st
      in do { (r, fs, s) \<leftarrow> move_window dk (dj_sect dj) (fs, s);
              if r \<noteq> FR_OK then Some (r, dj, fs, s)
              else
                do { d \<leftarrow> dj_dir dj; c \<leftarrow> arr_get (win fs) (d + DIR_Name);
                     if c = 0 then Some (FR_NO_FILE, dj, fs, s)
                     else
                       do { a \<leftarrow> arr_get (win fs) (d + DIR_Attr);
                            differs \<leftarrow> (if a AND AM_VOL = 0 then mem_cmp (win fs) d (dj_fn dj) 0 11 else Some 1);
                            if differs = 0 then Some (FR_OK, dj, fs, s)
                            else
                              do { (r, dj, fs, s) \<leftarrow> dir_next dk (dj, fs, s);
                                   if r = FR_OK then find_loop dk (dj, fs, s)
                                   else Some (r, dj, fs, s) } } } })"

definition dir_find :: "'s disk \<Rightarrow> dir \<times> fatfs \<times> 's \<Rightarrow> (fresult \<times> dir \<times> fatfs \<times> 's) option" where
  "dir_find dk st =
     do { (r, dj, fs, s) \<leftarrow> dir_sdi dk 0 st;
          if r \<noteq> FR_OK then Some (r, dj, fs, s) else find_loop dk (dj, fs, s) }"

text \<open>The loop of \<^verbatim>\<open>dir_read\<close>; its result is the value of \<^verbatim>\<open>res\<close> behind the loop.\<close>

partial_function (option) read_loop ::
  "'s disk \<Rightarrow> fresult \<Rightarrow> dir \<times> fatfs \<times> 's \<Rightarrow> (fresult \<times> dir \<times> fatfs \<times> 's) option" where
  "read_loop dk res st =
     (let (dj, fs, s) = st
      in if dj_sect dj = 0 then Some (res, dj, fs, s)
         else
           do { (r, fs, s) \<leftarrow> move_window dk (dj_sect dj) (fs, s);
                if r \<noteq> FR_OK then Some (r, dj, fs, s)
                else
                  do { d \<leftarrow> dj_dir dj; c \<leftarrow> arr_get (win fs) (d + DIR_Name);
                       if c = 0 then Some (FR_NO_FILE, dj, fs, s)
                       else
                         do { a \<leftarrow> arr_get (win fs) (d + DIR_Attr);
                              if c \<noteq> DDE \<and> c \<noteq> 0x2E \<and> a AND AM_VOL = 0 then Some (FR_OK, dj, fs, s)
                              else
                                do { (r, dj, fs, s) \<leftarrow> dir_next dk (dj, fs, s);
                                     if r \<noteq> FR_OK then Some (r, dj, fs, s)
                                     else read_loop dk r (dj, fs, s) } } } })"

definition dir_read :: "'s disk \<Rightarrow> dir \<times> fatfs \<times> 's \<Rightarrow> (fresult \<times> dir \<times> fatfs \<times> 's) option" where
  "dir_read dk st =
     do { (r, dj, fs, s) \<leftarrow> read_loop dk FR_NO_FILE st;
          Some (r, if r \<noteq> FR_OK then dj\<lparr>dj_sect := 0\<rparr> else dj, fs, s) }"

section \<open>Names and paths\<close>

text \<open>The characters a short name must not contain, as a C string.\<close>

definition illegal_chrs :: "u8 list" where
  "illegal_chrs =
     [0x22, 0x2A, 0x2B, 0x2C, 0x3A, 0x3B, 0x3C, 0x3D, 0x3E, 0x3F, 0x5B, 0x5D, 0x7C, 0x7F, 0]"

definition is_sep :: "u8 \<Rightarrow> bool" where
  "is_sep c \<longleftrightarrow> c = 0x2F \<or> c = 0x5C"

text \<open>
  The character loop of \<^verbatim>\<open>create_name\<close>: \<open>Inl\<close> is a rejected name, \<open>Inr\<close> the last character
  read, the rest of the path, \<open>i\<close>, \<open>ni\<close>, \<open>b\<close> and the name.
\<close>

fun name_loop ::
  "u8 list \<Rightarrow> nat \<Rightarrow> nat \<Rightarrow> u8 \<Rightarrow> u8 list
   \<Rightarrow> (fresult + u8 \<times> u8 list \<times> nat \<times> nat \<times> u8 \<times> u8 list) option" where
  "name_loop [] i ni b sfn = None"
| "name_loop (c # p) i ni b sfn =
     (if c \<le> 0x20 \<or> is_sep c then Some (Inr (c, p, i, ni, b, sfn))
      else if c = 0x2E \<or> ni \<le> i then
        if ni \<noteq> 8 \<or> c \<noteq> 0x2E then Some (Inl FR_INVALID_NAME)
        else name_loop p 8 11 (push_bit 2 b) sfn
      else
        do { (c, b) \<leftarrow> (if 0x80 \<le> c then do { c \<leftarrow> arr_get excvt (unat (c - 0x80)); Some (c, b OR 3) }
                       else Some (c, b));
             bad \<leftarrow> chk_chr illegal_chrs c;
             if bad \<noteq> 0 then Some (Inl FR_INVALID_NAME)
             else
               (let (c, b) = (if IsUpper c then (c, b OR 2)
                              else if IsLower c then (c - 0x20, b OR 1) else (c, b))
                in do { sfn \<leftarrow> arr_set sfn i c; name_loop p (i + 1) ni b sfn }) })"

text \<open>A rejected name leaves only the local name buffer changed, which no caller reads.\<close>

definition create_name :: "u8 list \<Rightarrow> dir \<Rightarrow> (fresult \<times> dir \<times> u8 list) option" where
  "create_name path dj =
     (let p = dropWhile is_sep path
      in do { sfn \<leftarrow> mem_set (dj_fn dj) 0 0x20 11;
              r \<leftarrow> name_loop p 0 8 0 sfn;
              case r of
                Inl e \<Rightarrow> Some (e, dj, path)
              | Inr (c, path, i, ni, b, sfn) \<Rightarrow>
                  (let c = (if c \<le> 0x20 then NS_LAST else 0)
                   in if i = 0 then Some (FR_INVALID_NAME, dj\<lparr>dj_fn := sfn\<rparr>, path)
                      else
                        do { first \<leftarrow> arr_get sfn 0;
                             sfn \<leftarrow> (if first = DDE then arr_set sfn 0 NDDE else Some sfn);
                             let b = (if ni = 8 then push_bit 2 b else b);
                             let c = (if b AND 0x03 = 0x01 then c OR NS_EXT else c);
                             let c = (if b AND 0x0C = 0x04 then c OR NS_BODY else c);
                             sfn \<leftarrow> arr_set sfn NS c;
                             Some (FR_OK, dj\<lparr>dj_fn := sfn\<rparr>, path) }) })"

text \<open>
  The copy loops of \<^verbatim>\<open>get_fileinfo\<close>: at most \<open>n\<close> characters from offset \<open>k\<close>, up to a blank;
  \<open>body\<close> says whether the replaced mark 0x05 is undone.
\<close>

fun copy_name :: "bool \<Rightarrow> u8 list \<Rightarrow> nat \<Rightarrow> nat \<Rightarrow> u8 list \<times> nat \<Rightarrow> (u8 list \<times> nat) option" where
  "copy_name body w k 0 fp = Some fp"
| "copy_name body w k (Suc n) (fname, p) =
     do { c \<leftarrow> arr_get w k;
          if c = 0x20 then Some (fname, p)
          else
            do { fname \<leftarrow> arr_set fname p (if body \<and> c = NDDE then DDE else c);
                 copy_name body w (Suc k) n (fname, Suc p) } }"

definition get_fileinfo :: "fatfs \<Rightarrow> dir \<Rightarrow> filinfo \<Rightarrow> filinfo option" where
  "get_fileinfo fs dj fno =
     (if dj_sect dj \<noteq> 0 then
        do { d \<leftarrow> dj_dir dj;
             (fname, p) \<leftarrow> copy_name True (win fs) d 8 (fi_fname fno, 0);
             e \<leftarrow> arr_get (win fs) (d + 8);
             (fname, p) \<leftarrow>
               (if e \<noteq> 0x20 then
                  do { fname \<leftarrow> arr_set fname p 0x2E; copy_name False (win fs) (d + 8) 3 (fname, Suc p) }
                else Some (fname, p));
             attr \<leftarrow> arr_get (win fs) (d + DIR_Attr);
             sz \<leftarrow> LD_DWORD (win fs) (d + DIR_FileSize);
             date \<leftarrow> LD_WORD (win fs) (d + DIR_WrtDate);
             time \<leftarrow> LD_WORD (win fs) (d + DIR_WrtTime);
             fname \<leftarrow> arr_set fname p 0;
             Some (fno\<lparr>fi_fname := fname, fi_fattrib := attr, fi_fsize := sz, fi_fdate := date,
                        fi_ftime := time\<rparr>) }
      else do { fname \<leftarrow> arr_set (fi_fname fno) 0 0; Some (fno\<lparr>fi_fname := fname\<rparr>) })"

partial_function (option) path_loop ::
  "'s disk \<Rightarrow> u8 list \<Rightarrow> dir \<times> fatfs \<times> 's \<Rightarrow> (fresult \<times> dir \<times> fatfs \<times> 's) option" where
  "path_loop dk path st =
     (let (dj, fs, s) = st
      in do { (r, dj, path) \<leftarrow> create_name path dj;
              if r \<noteq> FR_OK then Some (r, dj, fs, s)
              else
                do { (r, dj, fs, s) \<leftarrow> dir_find dk (dj, fs, s);
                     ns \<leftarrow> arr_get (dj_fn dj) NS;
                     if r \<noteq> FR_OK then
                       Some (if r = FR_NO_FILE \<and> ns AND NS_LAST = 0 then FR_NO_PATH else r, dj, fs, s)
                     else if ns AND NS_LAST \<noteq> 0 then Some (FR_OK, dj, fs, s)
                     else
                       do { d \<leftarrow> dj_dir dj; a \<leftarrow> arr_get (win fs) (d + DIR_Attr);
                            if a AND AM_DIR = 0 then Some (FR_NO_PATH, dj, fs, s)
                            else
                              do { cl \<leftarrow> ld_clust fs d;
                                   path_loop dk path (dj\<lparr>dj_sclust := cl\<rparr>, fs, s) } } } })"

definition follow_path ::
  "'s disk \<Rightarrow> u8 list \<Rightarrow> dir \<times> fatfs \<times> 's \<Rightarrow> (fresult \<times> dir \<times> fatfs \<times> 's) option" where
  "follow_path dk path st =
     (let (dj, fs, s) = st
      in do { c \<leftarrow> arr_get path 0;
              let path = (if is_sep c then drop 1 path else path);
              let dj = dj\<lparr>dj_sclust := 0\<rparr>;
              c \<leftarrow> arr_get path 0;
              if c < 0x20 then
                do { (r, dj, fs, s) \<leftarrow> dir_sdi dk 0 (dj, fs, s); Some (r, dj\<lparr>dj_dir := None\<rparr>, fs, s) }
              else path_loop dk path (dj, fs, s) })"

section \<open>Mounting\<close>

definition check_fs :: "'s disk \<Rightarrow> u32 \<Rightarrow> fatfs \<times> 's \<Rightarrow> (nat \<times> fatfs \<times> 's) option" where
  "check_fs dk sect fss =
     (let (fs, s) = fss
      in do { (r, buf, s) \<leftarrow> dk_read dk (drv fs) (win fs) sect 1 s;
              let fs = fs\<lparr>win := buf\<rparr>;
              if r \<noteq> RES_OK then Some (3, fs, s)
              else
                do { sig \<leftarrow> LD_WORD (win fs) BS_55AA;
                     if sig \<noteq> 0xAA55 then Some (2, fs, s)
                     else
                       do { t16 \<leftarrow> LD_DWORD (win fs) BS_FilSysType;
                            t32 \<leftarrow> LD_DWORD (win fs) BS_FilSysType32;
                            Some (if t16 AND 0xFFFFFF = 0x544146 then 0
                                  else if t32 AND 0xFFFFFF = 0x544146 then 0 else 1, fs, s) } } })"

text \<open>Search of the volume: sector 0 or the first partition. The result is \<^verbatim>\<open>fmt\<close> and \<^verbatim>\<open>bsect\<close>.\<close>

definition find_volume :: "'s disk \<Rightarrow> fatfs \<times> 's \<Rightarrow> (nat \<times> u32 \<times> fatfs \<times> 's) option" where
  "find_volume dk fss =
     do { (fmt, fs, s) \<leftarrow> check_fs dk 0 fss;
          if fmt = 1 then
            do { typ \<leftarrow> arr_get (win fs) (MBR_Table + 4);
                 if typ \<noteq> 0 then
                   do { bsect \<leftarrow> LD_DWORD (win fs) (MBR_Table + 8);
                        (fmt, fs, s) \<leftarrow> check_fs dk bsect (fs, s);
                        Some (fmt, bsect, fs, s) }
                 else Some (fmt, 0, fs, s) }
          else Some (fmt, 0, fs, s) }"

text \<open>
  The boundaries and limits: the last part of the analysis, from the number of reserved
  sectors, the size of all FATs, and the numbers of system sectors and clusters.
\<close>

definition set_limits ::
  "u32 \<Rightarrow> u16 \<Rightarrow> u32 \<Rightarrow> u32 \<Rightarrow> u32 \<Rightarrow> fatfs \<Rightarrow> (fresult \<times> u8 \<times> fatfs) option" where
  "set_limits bsect nrsv fasize sysect nclst fs =
     (let fmt = (if MIN_FAT32 \<le> nclst then FS_FAT32 else if MIN_FAT16 \<le> nclst then FS_FAT16 else FS_FAT12);
          fs = fs\<lparr>n_fatent := nclst + 2, database := bsect + sysect, fatbase := bsect + ucast nrsv\<rparr>;
          check = (\<lambda>fs szbfat. if fs_fsize fs < (szbfat + 511) div 512 then (FR_NO_FILESYSTEM, fmt, fs)
                                else (FR_OK, fmt, fs))
      in if fmt = FS_FAT32 then
           if n_rootdir fs \<noteq> 0 then Some (FR_NO_FILESYSTEM, fmt, fs)
           else do { root \<leftarrow> LD_DWORD (win fs) BPB_RootClus;
                     Some (check (fs\<lparr>dirbase := root\<rparr>) (n_fatent fs * 4)) }
         else if n_rootdir fs = 0 then Some (FR_NO_FILESYSTEM, fmt, fs)
         else Some (check (fs\<lparr>dirbase := fatbase fs + fasize\<rparr>)
                      (if fmt = FS_FAT16 then n_fatent fs * 2
                       else n_fatent fs * 3 div 2 + (n_fatent fs AND 1))))"

text \<open>The analysis of the boot record in the window; the result has the FAT type.\<close>

definition read_bpb :: "u32 \<Rightarrow> fatfs \<Rightarrow> (fresult \<times> u8 \<times> fatfs) option" where
  "read_bpb bsect fs =
     do { bps \<leftarrow> LD_WORD (win fs) BPB_BytsPerSec;
          if bps \<noteq> 512 then Some (FR_NO_FILESYSTEM, 0, fs)
          else
            do { sz16 \<leftarrow> LD_WORD (win fs) BPB_FATSz16;
                 sz32 \<leftarrow> LD_DWORD (win fs) BPB_FATSz32;
                 let fasize = (if sz16 = 0 then sz32 else ucast sz16);
                 b \<leftarrow> arr_get (win fs) BPB_NumFATs;
                 let fs = fs\<lparr>fs_fsize := fasize, n_fats := b\<rparr>;
                 if b \<noteq> 1 \<and> b \<noteq> 2 then Some (FR_NO_FILESYSTEM, 0, fs)
                 else
                   do { let fasize = fasize * ucast b;
                        b \<leftarrow> arr_get (win fs) BPB_SecPerClus;
                        let fs = fs\<lparr>csize := b\<rparr>;
                        if b = 0 \<or> b AND (b - 1) \<noteq> 0 then Some (FR_NO_FILESYSTEM, 0, fs)
                        else
                          do { root \<leftarrow> LD_WORD (win fs) BPB_RootEntCnt;
                               let fs = fs\<lparr>n_rootdir := root\<rparr>;
                               if root mod 16 \<noteq> 0 then Some (FR_NO_FILESYSTEM, 0, fs)
                               else
                                 do { t16 \<leftarrow> LD_WORD (win fs) BPB_TotSec16;
                                      t32 \<leftarrow> LD_DWORD (win fs) BPB_TotSec32;
                                      let tsect = (if t16 = 0 then t32 else ucast t16);
                                      nrsv \<leftarrow> LD_WORD (win fs) BPB_RsvdSecCnt;
                                      let sysect = ucast nrsv + fasize + ucast (root div 16);
                                      let nclst = (tsect - sysect) div ucast (csize fs);
                                      if nrsv = 0 \<or> tsect < sysect \<or> nclst = 0
                                      then Some (FR_NO_FILESYSTEM, 0, fs)
                                      else set_limits bsect nrsv fasize sysect nclst fs } } } } }"

text \<open>Mounting: the part of \<^verbatim>\<open>chk_mounted\<close> behind the test for a mounted volume.\<close>

definition mount_volume :: "'s disk \<Rightarrow> volume \<times> 's \<Rightarrow> (fresult \<times> volume \<times> 's) option" where
  "mount_volume dk vs =
     (let (v, s) = vs; fs = (vol_fs v)\<lparr>fs_type := 0, drv := 0\<rparr>;
          back = (\<lambda>r fs s. Some (r, v\<lparr>vol_fs := fs\<rparr>, s))
      in do { (stat, s) \<leftarrow> dk_initialize dk (drv fs) s;
              if stat AND STA_NOINIT \<noteq> 0 then back FR_NOT_READY fs s
              else
                do { (fmt, bsect, fs, s) \<leftarrow> find_volume dk (fs, s);
                     if fmt = 3 then back FR_DISK_ERR fs s
                     else if fmt \<noteq> 0 then back FR_NO_FILESYSTEM fs s
                     else
                       do { (r, typ, fs) \<leftarrow> read_bpb bsect fs;
                            if r \<noteq> FR_OK then back r fs s
                            else Some (FR_OK, v\<lparr>vol_fs := fs\<lparr>fs_type := typ, fs_id := Fsid v + 1,
                                                         winsect := 0, wflag := 0\<rparr>,
                                               Fsid := Fsid v + 1\<rparr>, s) } } })"

text \<open>The flag of the result is the pointer returned in \<^verbatim>\<open>rfs\<close>; the path is without drive number.\<close>

definition chk_mounted ::
  "'s disk \<Rightarrow> u8 list \<Rightarrow> volume \<times> 's \<Rightarrow> (fresult \<times> u8 list \<times> bool \<times> volume \<times> 's) option" where
  "chk_mounted dk path vs =
     (let (v, s) = vs
      in do { p0 \<leftarrow> arr_get path 0;
              let n = (ucast p0 :: u32) - 0x30;
              drive \<leftarrow> (if n \<le> 9 then do { p1 \<leftarrow> arr_get path 1; Some (p1 = 0x3A) } else Some False);
              let (n, path) = (if drive then (n, drop 2 path) else (0, path));
              if 1 \<le> n then Some (FR_INVALID_DRIVE, path, False, v, s)
              else if \<not> FatFs v then Some (FR_NOT_ENABLED, path, False, v, s)
              else if fs_type (vol_fs v) \<noteq> 0 \<and> dk_status dk (drv (vol_fs v)) AND STA_NOINIT = 0
              then Some (FR_OK, path, True, v, s)
              else
                do { (r, v, s) \<leftarrow> mount_volume dk (v, s); Some (r, path, True, v, s) } })"

definition validate :: "'s disk \<Rightarrow> bool \<Rightarrow> u16 \<Rightarrow> fatfs \<Rightarrow> fresult" where
  "validate dk has_fs obj_id fs =
     (if \<not> has_fs \<or> fs_type fs = 0 \<or> fs_id fs \<noteq> obj_id then FR_INVALID_OBJECT
      else if dk_status dk (drv fs) AND STA_NOINIT \<noteq> 0 then FR_NOT_READY
      else FR_OK)"

section \<open>Application interface\<close>

text \<open>\<open>has_fs\<close> is false for the null pointer, which unregisters the object.\<close>

definition f_mount :: "u8 \<Rightarrow> bool \<Rightarrow> volume \<Rightarrow> fresult \<times> volume" where
  "f_mount vol has_fs v =
     (if 1 \<le> vol then (FR_INVALID_DRIVE, v)
      else
        (let v = (if FatFs v \<or> has_fs then v\<lparr>vol_fs := (vol_fs v)\<lparr>fs_type := 0\<rparr>\<rparr> else v)
         in (FR_OK, v\<lparr>FatFs := has_fs\<rparr>)))"

text \<open>A directory object on the stack with its name buffer; its other fields are set before use.\<close>

definition new_dir :: "bool \<Rightarrow> dir" where
  "new_dir has_fs =
     \<lparr>dj_fs = has_fs, dj_id = 0, dj_index = 0, dj_sclust = 0, dj_clust = 0, dj_sect = 0,
      dj_dir = None, dj_fn = replicate 12 0\<rparr>"

definition f_open ::
  "'s disk \<Rightarrow> u8 list \<Rightarrow> u8 \<Rightarrow> fil \<times> volume \<times> 's \<Rightarrow> (fresult \<times> fil \<times> volume \<times> 's) option" where
  "f_open dk path mode st =
     (let (fp, v, s) = st; fp = fp\<lparr>fil_fs := False\<rparr>; mode = mode AND FA_READ
      in do { (r, path, rfs, v, s) \<leftarrow> chk_mounted dk path (v, s);
              if r \<noteq> FR_OK then Some (r, fp, v, s)
              else
                do { (r, dj, fs, s) \<leftarrow> follow_path dk path (new_dir rfs, vol_fs v, s);
                     let v = v\<lparr>vol_fs := fs\<rparr>;
                     if r \<noteq> FR_OK then Some (r, fp, v, s)
                     else
                       (case dj_dir dj of
                          None \<Rightarrow> Some (FR_INVALID_NAME, fp, v, s)
                        | Some d \<Rightarrow>
                            do { a \<leftarrow> arr_get (win fs) (d + DIR_Attr);
                                 if a AND AM_DIR \<noteq> 0 then Some (FR_NO_FILE, fp, v, s)
                                 else
                                   do { cl \<leftarrow> ld_clust fs d;
                                        sz \<leftarrow> LD_DWORD (win fs) (d + DIR_FileSize);
                                        Some (FR_OK, fp\<lparr>flag := mode, sclust := cl, fsize := sz, fptr := 0,
                                                        dsect := 0, fil_fs := True, fil_id := fs_id fs\<rparr>,
                                              v, s) } }) } })"

definition f_abort :: "fresult \<Rightarrow> fil \<Rightarrow> fresult \<times> fil" where
  "f_abort r fp = (r, fp\<lparr>flag := flag fp OR FA__ERROR\<rparr>)"

text \<open>
  One round of the loop of \<^verbatim>\<open>f_read\<close>, without the counter updates: the number of bytes \<^verbatim>\<open>rcnt\<close> it
  has put into the buffer from offset \<open>rb\<close> on. An error is returned in the first component.
\<close>

definition read_cluster :: "'s disk \<Rightarrow> fil \<times> fatfs \<times> 's \<Rightarrow> (fresult \<times> fil \<times> fatfs \<times> 's) option" where
  "read_cluster dk st =
     (let (fp, fs, s) = st
      in do { (clst, fs, s) \<leftarrow> (if fptr fp = 0 then Some (sclust fp, fs, s) else get_fat dk (clust fp) (fs, s));
              if clst < 2 then Some (FR_INT_ERR, fp, fs, s)
              else if clst = 0xFFFFFFFF then Some (FR_DISK_ERR, fp, fs, s)
              else Some (FR_OK, fp\<lparr>clust := clst\<rparr>, fs, s) })"

definition read_partial ::
  "u8 list \<Rightarrow> nat \<Rightarrow> u32 \<Rightarrow> fil \<Rightarrow> (u32 \<times> u8 list) option" where
  "read_partial buff rb btr fp =
     (let rcnt = 512 - fptr fp mod 512; rcnt = (if btr < rcnt then btr else rcnt)
      in do { buff \<leftarrow> mem_cpy buff rb (fbuf fp) (unat (fptr fp mod 512)) (unat rcnt); Some (rcnt, buff) })"

definition read_round ::
  "'s disk \<Rightarrow> u8 list \<Rightarrow> nat \<Rightarrow> u32 \<Rightarrow> fil \<times> fatfs \<times> 's
   \<Rightarrow> (fresult \<times> u32 \<times> u8 list \<times> fil \<times> fatfs \<times> 's) option" where
  "read_round dk buff rb btr st =
     (let (fp, fs, s) = st
      in if fptr fp mod 512 = 0 then
           (let csect = (ucast (fptr fp div 512 AND (ucast (csize fs) - 1)) :: u8)
            in do { (r, fp, fs, s) \<leftarrow> (if csect = 0 then read_cluster dk (fp, fs, s) else Some (FR_OK, fp, fs, s));
                    let sect = clust2sect fs (clust fp);
                    if r \<noteq> FR_OK then Some (r, 0, buff, fp, fs, s)
                    else if sect = 0 then Some (FR_INT_ERR, 0, buff, fp, fs, s)
                    else
                      (let sect = sect + ucast csect; cc = btr div 512
                       in if cc \<noteq> 0 then
                            (let cc = (if ucast (csize fs) < ucast csect + cc
                                       then ucast (csize fs) - ucast csect else cc)
                             in do { (dr, data, s) \<leftarrow> dk_read dk (drv fs) (drop rb buff) sect (ucast cc) s;
                                     let buff = take rb buff @ data;
                                     Some (if dr \<noteq> RES_OK then FR_DISK_ERR else FR_OK, 512 * cc, buff,
                                           fp, fs, s) })
                          else
                            do { (dr, fp, s) \<leftarrow>
                                   (if dsect fp \<noteq> sect then
                                      do { (dr, data, s) \<leftarrow> dk_read dk (drv fs) (fbuf fp) sect 1 s;
                                           Some (dr, fp\<lparr>fbuf := data\<rparr>, s) }
                                    else Some (RES_OK, fp, s));
                                 if dr \<noteq> RES_OK then Some (FR_DISK_ERR, 0, buff, fp, fs, s)
                                 else
                                   do { let fp = fp\<lparr>dsect := sect\<rparr>;
                                        (rcnt, buff) \<leftarrow> read_partial buff rb btr fp;
                                        Some (FR_OK, rcnt, buff, fp, fs, s) } }) })
         else do { (rcnt, buff) \<leftarrow> read_partial buff rb btr fp; Some (FR_OK, rcnt, buff, fp, fs, s) })"

partial_function (option) f_read_loop ::
  "'s disk \<Rightarrow> u8 list \<times> nat \<times> u32 \<times> u32 \<times> fil \<times> fatfs \<times> 's
   \<Rightarrow> (fresult \<times> u8 list \<times> u32 \<times> fil \<times> fatfs \<times> 's) option" where
  "f_read_loop dk st =
     (let (buff, rb, br, btr, fp, fs, s) = st
      in if btr = 0 then Some (FR_OK, buff, br, fp, fs, s)
         else
           do { (r, rcnt, buff, fp, fs, s) \<leftarrow> read_round dk buff rb btr (fp, fs, s);
                if r \<noteq> FR_OK then
                  (let (r, fp) = f_abort r fp in Some (r, buff, br, fp, fs, s))
                else
                  f_read_loop dk (buff, rb + unat rcnt, br + rcnt, btr - rcnt,
                                  fp\<lparr>fptr := fptr fp + rcnt\<rparr>, fs, s) })"

text \<open>The result has the buffer and the number of bytes read.\<close>

definition f_read ::
  "'s disk \<Rightarrow> u8 list \<Rightarrow> u32 \<Rightarrow> fil \<times> volume \<times> 's
   \<Rightarrow> (fresult \<times> u8 list \<times> u32 \<times> fil \<times> volume \<times> 's) option" where
  "f_read dk buff btr st =
     (let (fp, v, s) = st; r = validate dk (fil_fs fp) (fil_id fp) (vol_fs v)
      in if r \<noteq> FR_OK then Some (r, buff, 0, fp, v, s)
         else if flag fp AND FA__ERROR \<noteq> 0 then Some (FR_INT_ERR, buff, 0, fp, v, s)
         else if flag fp AND FA_READ = 0 then Some (FR_DENIED, buff, 0, fp, v, s)
         else
           (let remain = fsize fp - fptr fp; btr = (if remain < btr then remain else btr)
            in do { (r, buff, br, fp, fs, s) \<leftarrow> f_read_loop dk (buff, 0, 0, btr, fp, vol_fs v, s);
                    Some (r, buff, br, fp, v\<lparr>vol_fs := fs\<rparr>, s) }))"

definition f_close :: "'s disk \<Rightarrow> fil \<times> volume \<Rightarrow> fresult \<times> fil" where
  "f_close dk st =
     (let (fp, v) = st; r = validate dk (fil_fs fp) (fil_id fp) (vol_fs v)
      in (r, if r = FR_OK then fp\<lparr>fil_fs := False\<rparr> else fp))"

text \<open>The cluster following loop of \<^verbatim>\<open>f_lseek\<close>.\<close>

partial_function (option) seek_loop ::
  "'s disk \<Rightarrow> u32 \<Rightarrow> u32 \<times> u32 \<times> fil \<times> fatfs \<times> 's
   \<Rightarrow> (fresult \<times> u32 \<times> u32 \<times> fil \<times> fatfs \<times> 's) option" where
  "seek_loop dk bcs st =
     (let (clst, ofs, fp, fs, s) = st
      in if bcs < ofs then
           do { (clst, fs, s) \<leftarrow> get_fat dk clst (fs, s);
                if clst = 0xFFFFFFFF then Some (FR_DISK_ERR, clst, ofs, fp, fs, s)
                else if clst \<le> 1 \<or> n_fatent fs \<le> clst then Some (FR_INT_ERR, clst, ofs, fp, fs, s)
                else seek_loop dk bcs
                       (clst, ofs - bcs, fp\<lparr>clust := clst, fptr := fptr fp + bcs\<rparr>, fs, s) }
         else Some (FR_OK, clst, ofs, fp, fs, s))"

text \<open>
  The cluster search of \<^verbatim>\<open>f_lseek\<close> for \<open>ofs > 0\<close>; the result has \<^verbatim>\<open>nsect\<close>. The division by a cluster
  size of 0 is undefined.
\<close>

definition seek_cluster ::
  "'s disk \<Rightarrow> u32 \<Rightarrow> u32 \<Rightarrow> fil \<times> fatfs \<times> 's \<Rightarrow> (fresult \<times> u32 \<times> fil \<times> fatfs \<times> 's) option" where
  "seek_cluster dk ifptr ofs st =
     (let (fp, fs, s) = st; bcs = (ucast (csize fs) :: u32) * 512
      in if bcs = 0 \<and> 0 < ifptr then None
         else
           (let (clst, ofs, fp) =
                  (if 0 < ifptr \<and> (ifptr - 1) div bcs \<le> (ofs - 1) div bcs then
                     (let fp = fp\<lparr>fptr := (ifptr - 1) AND NOT (bcs - 1)\<rparr>
                      in (clust fp, ofs - fptr fp, fp))
                   else (sclust fp, ofs, fp\<lparr>clust := sclust fp\<rparr>))
            in if clst = 0 then Some (FR_OK, 0, fp, fs, s)
               else
                 do { (r, clst, ofs, fp, fs, s) \<leftarrow> seek_loop dk bcs (clst, ofs, fp, fs, s);
                      if r \<noteq> FR_OK then Some (r, 0, fp, fs, s)
                      else
                        (let fp = fp\<lparr>fptr := fptr fp + ofs\<rparr>
                         in if ofs mod 512 \<noteq> 0 then
                              (let nsect = clust2sect fs clst
                               in if nsect = 0 then Some (FR_INT_ERR, 0, fp, fs, s)
                                  else Some (FR_OK, nsect + ofs div 512, fp, fs, s))
                            else Some (FR_OK, 0, fp, fs, s)) }))"

definition f_lseek ::
  "'s disk \<Rightarrow> u32 \<Rightarrow> fil \<times> volume \<times> 's \<Rightarrow> (fresult \<times> fil \<times> volume \<times> 's) option" where
  "f_lseek dk ofs st =
     (let (fp, v, s) = st; r = validate dk (fil_fs fp) (fil_id fp) (vol_fs v)
      in if r \<noteq> FR_OK then Some (r, fp, v, s)
         else if flag fp AND FA__ERROR \<noteq> 0 then Some (FR_INT_ERR, fp, v, s)
         else
           (let ofs = (if fsize fp < ofs then fsize fp else ofs);
                ifptr = fptr fp; fp = fp\<lparr>fptr := 0\<rparr>
            in do { (r, nsect, fp, fs, s) \<leftarrow>
                      (if ofs \<noteq> 0 then seek_cluster dk ifptr ofs (fp, vol_fs v, s)
                       else Some (FR_OK, 0, fp, vol_fs v, s));
                    let v = v\<lparr>vol_fs := fs\<rparr>;
                    if r \<noteq> FR_OK then (let (r, fp) = f_abort r fp in Some (r, fp, v, s))
                    else if fptr fp mod 512 \<noteq> 0 \<and> nsect \<noteq> dsect fp then
                      do { (dr, data, s) \<leftarrow> dk_read dk (drv fs) (fbuf fp) nsect 1 s;
                           let fp = fp\<lparr>fbuf := data\<rparr>;
                           if dr \<noteq> RES_OK then (let (r, fp) = f_abort FR_DISK_ERR fp in Some (r, fp, v, s))
                           else Some (FR_OK, fp\<lparr>dsect := nsect\<rparr>, v, s) }
                    else Some (FR_OK, fp, v, s) }))"

definition f_opendir ::
  "'s disk \<Rightarrow> u8 list \<Rightarrow> dir \<times> volume \<times> 's \<Rightarrow> (fresult \<times> dir \<times> volume \<times> 's) option" where
  "f_opendir dk path st =
     (let (dj, v, s) = st
      in do { (r, path, rfs, v, s) \<leftarrow> chk_mounted dk path (v, s);
              if r \<noteq> FR_OK then Some (r, dj\<lparr>dj_fs := False\<rparr>, v, s)
              else
                do { (r, dj, fs, s) \<leftarrow>
                       follow_path dk path (dj\<lparr>dj_fs := rfs, dj_fn := replicate 12 0\<rparr>, vol_fs v, s);
                     (r, dj) \<leftarrow>
                       (case dj_dir dj of
                          Some d \<Rightarrow>
                            if r \<noteq> FR_OK then Some (r, dj)
                            else do { a \<leftarrow> arr_get (win fs) (d + DIR_Attr);
                                      if a AND AM_DIR \<noteq> 0
                                      then do { cl \<leftarrow> ld_clust fs d; Some (FR_OK, dj\<lparr>dj_sclust := cl\<rparr>) }
                                      else Some (FR_NO_PATH, dj) }
                        | None \<Rightarrow> Some (r, dj));
                     (r, dj, fs, s) \<leftarrow>
                       (if r = FR_OK then dir_sdi dk 0 (dj\<lparr>dj_id := fs_id fs\<rparr>, fs, s)
                        else Some (r, dj, fs, s));
                     let r = (if r = FR_NO_FILE then FR_NO_PATH else r);
                     let dj = (if r \<noteq> FR_OK then dj\<lparr>dj_fs := False\<rparr> else dj);
                     Some (r, dj, v\<lparr>vol_fs := fs\<rparr>, s) } })"

text \<open>\<open>fno\<close> is \<open>None\<close> for the null pointer, which rewinds the directory.\<close>

definition f_readdir ::
  "'s disk \<Rightarrow> filinfo option \<Rightarrow> dir \<times> volume \<times> 's
   \<Rightarrow> (fresult \<times> filinfo option \<times> dir \<times> volume \<times> 's) option" where
  "f_readdir dk fno st =
     (let (dj, v, s) = st; r = validate dk (dj_fs dj) (dj_id dj) (vol_fs v)
      in if r \<noteq> FR_OK then Some (r, fno, dj, v, s)
         else
           (case fno of
              None \<Rightarrow> do { (r, dj, fs, s) \<leftarrow> dir_sdi dk 0 (dj, vol_fs v, s);
                           Some (r, None, dj, v\<lparr>vol_fs := fs\<rparr>, s) }
            | Some info \<Rightarrow>
                do { (r, dj, fs, s) \<leftarrow> dir_read dk (dj\<lparr>dj_fn := replicate 12 0\<rparr>, vol_fs v, s);
                     let (r, dj) = (if r = FR_NO_FILE then (FR_OK, dj\<lparr>dj_sect := 0\<rparr>) else (r, dj));
                     if r \<noteq> FR_OK then Some (r, fno, dj, v\<lparr>vol_fs := fs\<rparr>, s)
                     else
                       do { info \<leftarrow> get_fileinfo fs dj info;
                            (r, dj, fs, s) \<leftarrow> dir_next dk (dj, fs, s);
                            let (r, dj) = (if r = FR_NO_FILE then (FR_OK, dj\<lparr>dj_sect := 0\<rparr>) else (r, dj));
                            Some (r, Some info, dj, v\<lparr>vol_fs := fs\<rparr>, s) } }))"

definition f_stat ::
  "'s disk \<Rightarrow> u8 list \<Rightarrow> filinfo \<Rightarrow> volume \<times> 's \<Rightarrow> (fresult \<times> filinfo \<times> volume \<times> 's) option" where
  "f_stat dk path fno vs =
     do { (r, path, rfs, v, s) \<leftarrow> chk_mounted dk path vs;
          if r \<noteq> FR_OK then Some (r, fno, v, s)
          else
            do { (r, dj, fs, s) \<leftarrow> follow_path dk path (new_dir rfs, vol_fs v, s);
                 let v = v\<lparr>vol_fs := fs\<rparr>;
                 if r \<noteq> FR_OK then Some (r, fno, v, s)
                 else if dj_dir dj = None then Some (FR_INVALID_NAME, fno, v, s)
                 else do { fno \<leftarrow> get_fileinfo fs dj fno; Some (FR_OK, fno, v, s) } } }"

end
