(* ===== verification/Fat_Table.thy ===== *)
theory Fat_Table
  imports Fat_Fs
begin

unbundle bit_operations_syntax

text \<open>
  Reading the file allocation table. The locale \<open>disk_image\<close> states what FatFs needs of the
  disk functions; inside it the window and \<^verbatim>\<open>get_fat\<close> are shown to read the image of the
  disk, for all three FAT types.
\<close>

section \<open>Memory functions\<close>

lemma mem_cpy_copies:
  "d + n \<le> length dst \<Longrightarrow> s + n \<le> length src \<Longrightarrow>
   mem_cpy dst d src s n = Some (take d dst @ take n (drop s src) @ drop (d + n) dst)"
proof (induction n arbitrary: dst d s)
  case (Suc n)
  have "mem_cpy dst d src s (Suc n) = mem_cpy (dst[d := src ! s]) (Suc d) src (Suc s) n"
    using Suc.prems by (simp add: array_simps)
  also have "\<dots> = Some (take (Suc d) (dst[d := src ! s]) @ take n (drop (Suc s) src) @ drop (Suc d + n) dst)"
    using Suc.prems by (subst Suc.IH) simp_all
  also have "\<dots> = Some (take d dst @ take (Suc n) (drop s src) @ drop (d + Suc n) dst)"
    using Suc.prems by (simp add: take_update_shift take_Suc_conv_app_nth flip: Cons_nth_drop_Suc [of s src])
  finally show ?case .
qed simp

section \<open>What FatFs needs of the disk\<close>

text \<open>
  Reading sectors that exist returns the contents \<open>img\<close> of the disk and keeps the state usable.
\<close>

locale disk_image =
  fixes dk :: "'s disk"
    and img :: "u32 \<Rightarrow> u8 list"
    and exists :: "u32 \<Rightarrow> bool"
    and inv :: "'s \<Rightarrow> bool"
  assumes read: "inv s \<Longrightarrow> 512 * unat n \<le> length buf \<Longrightarrow> (\<And>k. k < unat n \<Longrightarrow> exists (sect + of_nat k)) \<Longrightarrow>
      \<exists>s'. dk_read dk 0 buf sect n s =
        Some (RES_OK, concat (map (\<lambda>k. img (sect + of_nat k)) [0..<unat n]) @ drop (512 * unat n) buf, s') \<and> inv s'"
    and img_length: "exists sect \<Longrightarrow> length (img sect) = 512"
    and status: "dk_status dk 0 AND STA_NOINIT = 0"

section \<open>The file allocation table\<close>

text \<open>
  \<open>fat_bytes\<close> is the first FAT of the volume as one sequence of bytes; \<open>fat_entry\<close> is the entry
  of a cluster as the FAT specification lays it out in there: 16 or 32 bits, least significant
  byte first, or 12 bits, two entries in three bytes.
\<close>

definition fat_byte :: "(u32 \<Rightarrow> u8 list) \<Rightarrow> fatfs \<Rightarrow> nat \<Rightarrow> nat" where
  "fat_byte img fs i = unat (img (fatbase fs + of_nat (i div 512)) ! (i mod 512))"

definition fat_entry :: "(u32 \<Rightarrow> u8 list) \<Rightarrow> fatfs \<Rightarrow> nat \<Rightarrow> nat" where
  "fat_entry img fs c =
     (if fs_type fs = FS_FAT12 then
        (let i = c + c div 2; w = fat_byte img fs i + 256 * fat_byte img fs (i + 1)
         in if even c then w mod 4096 else w div 16)
      else if fs_type fs = FS_FAT16 then fat_byte img fs (2 * c) + 256 * fat_byte img fs (2 * c + 1)
      else (fat_byte img fs (4 * c) + 256 * fat_byte img fs (4 * c + 1) +
            65536 * fat_byte img fs (4 * c + 2) + 16777216 * fat_byte img fs (4 * c + 3)) mod 2 ^ 28)"

text \<open>The window holds the sector \<^verbatim>\<open>winsect\<close>; sector 0 is never in it.\<close>

definition win_ok :: "(u32 \<Rightarrow> u8 list) \<Rightarrow> fatfs \<Rightarrow> bool" where
  "win_ok img fs \<longleftrightarrow>
     drv fs = 0 \<and> length (win fs) = 512 \<and> (winsect fs \<noteq> 0 \<longrightarrow> win fs = img (winsect fs))"

text \<open>Two states of the object that differ in the window only.\<close>

definition same_vol :: "fatfs \<Rightarrow> fatfs \<Rightarrow> bool" where
  "same_vol fs fs' \<longleftrightarrow> fs'\<lparr>win := win fs, winsect := winsect fs\<rparr> = fs"

lemma same_vol_sel:
  "same_vol fs fs' \<Longrightarrow> fs_type fs' = fs_type fs \<and> csize fs' = csize fs \<and> fs_id fs' = fs_id fs \<and>
     n_rootdir fs' = n_rootdir fs \<and> n_fatent fs' = n_fatent fs \<and> fatbase fs' = fatbase fs \<and>
     dirbase fs' = dirbase fs \<and> database fs' = database fs \<and> drv fs' = drv fs"
  by (cases fs; cases fs') (simp add: same_vol_def)

lemma same_vol_refl [simp]: "same_vol fs fs"
  by (cases fs) (simp add: same_vol_def)

lemma same_vol_trans: "same_vol fs fs' \<Longrightarrow> same_vol fs' fs'' \<Longrightarrow> same_vol fs fs''"
  by (cases fs; cases fs'; cases fs'') (auto simp: same_vol_def)

lemma same_vol_window [simp]: "same_vol fs (fs\<lparr>win := w, winsect := n\<rparr>)"
  by (cases fs) (simp add: same_vol_def)

lemma same_vol_fat:
  "same_vol fs fs' \<Longrightarrow> fat_entry img fs' c = fat_entry img fs c"
  using same_vol_sel [of fs fs'] by (simp add: fat_entry_def fat_byte_def)

context disk_image
begin

lemma read_one:
  assumes "inv s" "length buf = 512" "exists sect"
  shows "\<exists>s'. dk_read dk 0 buf sect 1 s = Some (RES_OK, img sect, s') \<and> inv s'"
  using read [OF assms(1), of 1 buf sect] assms by simp

lemma window:
  assumes "win_ok img fs" "inv s" "exists sect" "sect \<noteq> 0"
  shows "\<exists>fs' s'. move_window dk sect (fs, s) = Some (FR_OK, fs', s') \<and> inv s' \<and> win_ok img fs' \<and>
     win fs' = img sect \<and> winsect fs' = sect \<and> same_vol fs fs'"
proof (cases "winsect fs = sect")
  case True
  then show ?thesis using assms by (auto simp: move_window_def win_ok_def)
next
  case False
  from assms(1) have w: "drv fs = 0" "length (win fs) = 512" by (simp_all add: win_ok_def)
  from read_one [OF assms(2) w(2) assms(3)] obtain s' where
    "dk_read dk 0 (win fs) sect 1 s = Some (RES_OK, img sect, s')" "inv s'" by blast
  then show ?thesis
    using False assms(4) w img_length [OF assms(3)]
    by (auto simp: move_window_def win_ok_def)
qed

end

lemma unat_u8_lt: "unat (a :: u8) < 256"
  using unsigned_less [of a, where 'a = nat] by simp

lemma unat_ucast_16_32: "unat (ucast (v :: u16) :: u32) = unat v"
  using unsigned_less [of v, where 'a = nat] by (simp add: unsigned_ucast_eq take_bit_nat_eq_self)

text \<open>Little-endian words are sums of their bytes.\<close>

lemma word_bytes:
  fixes a b :: u8
  shows "unat (push_bit 8 (ucast b) OR ucast a :: u16) = unat a + 256 * unat b"
proof -
  have "push_bit 8 (ucast b) AND ucast a = (0 :: u16)"
    by (rule bit_word_eqI) (auto simp: bit_simps dest: bit_imp_le_length)
  then have "push_bit 8 (ucast b) OR ucast a = (push_bit 8 (ucast b) + ucast a :: u16)"
    by (rule disjunctive_add_eq_or [symmetric])
  also have "\<dots> = of_nat (unat a + 256 * unat b)"
    by (simp add: push_bit_eq_mult mult.commute)
  finally show ?thesis
    using unat_u8_lt [of a] unat_u8_lt [of b] by (simp add: unat_of_nat_eq_small del: of_nat_add of_nat_mult)
qed

lemma dword_bytes:
  fixes a b c d :: u8
  shows "unat (push_bit 24 (ucast d) OR push_bit 16 (ucast c) OR push_bit 8 (ucast b) OR ucast a :: u32) =
    unat a + 256 * unat b + 65536 * unat c + 16777216 * unat d"
proof -
  have "push_bit 24 (ucast d) AND (push_bit 16 (ucast c) OR (push_bit 8 (ucast b) OR ucast a)) = (0 :: u32)"
    "push_bit 16 (ucast c) AND (push_bit 8 (ucast b) OR ucast a) = (0 :: u32)"
    "push_bit 8 (ucast b) AND ucast a = (0 :: u32)"
    by (rule bit_word_eqI; auto simp: bit_simps dest: bit_imp_le_length)+
  then have "push_bit 24 (ucast d) OR push_bit 16 (ucast c) OR push_bit 8 (ucast b) OR ucast a =
      (push_bit 24 (ucast d) + (push_bit 16 (ucast c) + (push_bit 8 (ucast b) + ucast a)) :: u32)"
    by (simp add: disjunctive_add_eq_or or.assoc)
  also have "\<dots> = of_nat (unat a + 256 * unat b + 65536 * unat c + 16777216 * unat d)"
    by (simp add: push_bit_eq_mult mult.commute)
  finally show ?thesis
    using unat_u8_lt [of a] unat_u8_lt [of b] unat_u8_lt [of c] unat_u8_lt [of d]
    by (simp add: unat_of_nat_eq_small del: of_nat_add of_nat_mult)
qed

lemma LD_WORD_in:
  assumes "i + 1 < length xs"
  shows "\<exists>w. LD_WORD xs i = Some w \<and> unat w = unat (xs ! i) + 256 * unat (xs ! (i + 1))"
  using assms by (simp add: LD_WORD_def array_simps word_bytes)

lemma LD_DWORD_in:
  assumes "i + 3 < length xs"
  shows "\<exists>w. LD_DWORD xs i = Some w \<and> unat w = unat (xs ! i) + 256 * unat (xs ! (i + 1)) +
     65536 * unat (xs ! (i + 2)) + 16777216 * unat (xs ! (i + 3))"
  using assms by (simp add: LD_DWORD_def array_simps dword_bytes)

text \<open>The FAT is large enough for all entries and its sectors exist.\<close>

definition fat_last :: "fatfs \<Rightarrow> nat \<Rightarrow> nat" where
  "fat_last fs c =
     (if fs_type fs = FS_FAT12 then c + c div 2 + 1 else if fs_type fs = FS_FAT16 then 2 * c + 1 else 4 * c + 3)"

definition fat_ok :: "(u32 \<Rightarrow> bool) \<Rightarrow> fatfs \<Rightarrow> bool" where
  "fat_ok exists fs \<longleftrightarrow>
     fs_type fs \<in> {FS_FAT12, FS_FAT16, FS_FAT32} \<and>
     (fs_type fs = FS_FAT12 \<longrightarrow> unat (n_fatent fs) \<le> 4087) \<and>
     (\<forall>c < unat (n_fatent fs). fat_last fs c < 512 * unat (fs_fsize fs)) \<and>
     (\<forall>k < unat (fs_fsize fs). exists (fatbase fs + of_nat k) \<and> fatbase fs + of_nat k \<noteq> 0)"

lemma sector_index:
  fixes w :: u32
  shows "w div 256 = of_nat (2 * unat w div 512)" "w div 128 = of_nat (4 * unat w div 512)"
    "unat (w * 2 mod 512) = 2 * unat w mod 512" "unat (w * 4 mod 512) = 4 * unat w mod 512"
proof -
  have "2 * unat w div 512 = unat (w div 256)" "4 * unat w div 512 = unat (w div 128)"
    by (simp_all add: unat_div)
  then show "w div 256 = of_nat (2 * unat w div 512)" "w div 128 = of_nat (4 * unat w div 512)"
    by simp_all
  have "(unat w * 2 mod 2 ^ 32) mod 512 = unat w * 2 mod 512" "(unat w * 4 mod 2 ^ 32) mod 512 = unat w * 4 mod 512"
    by (rule mod_mod_cancel; simp)+
  then show "unat (w * 2 mod 512) = 2 * unat w mod 512" "unat (w * 4 mod 512) = 4 * unat w mod 512"
    by (simp_all add: unat_mod unat_word_ariths mult.commute)
qed

lemma split512:
  fixes n :: nat
  assumes "n = 512 * q + r" "r + k < 512"
  shows "(n + k) div 512 = q" "(n + k) mod 512 = r + k"
proof -
  have e: "n + k = r + k + q * 512" using assms(1) by simp
  show "(n + k) div 512 = q" "(n + k) mod 512 = r + k"
    unfolding e using assms(2) by simp_all
qed

lemma same_vol_fat_ok:
  "same_vol fs fs' \<Longrightarrow> fat_ok exists fs' = fat_ok exists fs \<and> fs_fsize fs' = fs_fsize fs"
  by (cases fs; cases fs') (simp add: same_vol_def fat_ok_def fat_last_def)

lemma get_fat_range: "2 \<le> clst \<Longrightarrow> clst < n_fatent fs \<Longrightarrow> \<not> (clst < 2 \<or> n_fatent fs \<le> clst)"
  by auto

context disk_image
begin

lemma fat_sector:
  assumes "win_ok img fs" "fat_ok exists fs" "inv s" "k < unat (fs_fsize fs)"
  shows "\<exists>fs' s'. move_window dk (fatbase fs + of_nat k) (fs, s) = Some (FR_OK, fs', s') \<and> inv s' \<and>
     win_ok img fs' \<and> win fs' = img (fatbase fs + of_nat k) \<and> same_vol fs fs' \<and> length (win fs') = 512"
proof -
  have e: "exists (fatbase fs + of_nat k)" "fatbase fs + of_nat k \<noteq> 0"
    using assms(2,4) by (auto simp: fat_ok_def)
  show ?thesis using window [OF assms(1,3) e] img_length [OF e(1)] by auto
qed

lemma get_fat16:
  assumes "win_ok img fs" "fat_ok exists fs" "inv s" "2 \<le> clst" "clst < n_fatent fs" "fs_type fs = FS_FAT16"
  shows "\<exists>r fs' s'. get_fat dk clst (fs, s) = Some (r, fs', s') \<and> unat r = fat_entry img fs (unat clst) \<and>
     inv s' \<and> win_ok img fs' \<and> same_vol fs fs'"
proof -
  define c where "c = unat clst"
  define q where "q = c div 256"
  define r where "r = 2 * (c mod 256)"
  have c: "2 * c = 512 * q + r" "r + 1 < 512"
    unfolding q_def r_def using mult_div_mod_eq [of 256 c] mod_less_divisor [of 256 c] by linarith+
  note at = split512 [OF c(1), of 0] split512 [OF c]
  have "fat_last fs c < 512 * unat (fs_fsize fs)"
    using assms(2,5) by (simp add: fat_ok_def c_def word_less_nat_alt)
  then have k: "q < unat (fs_fsize fs)"
    using assms(6) c by (simp add: fat_last_def ff_consts)
  obtain fs' s' where w: "move_window dk (fatbase fs + of_nat q) (fs, s) = Some (FR_OK, fs', s')"
      "inv s'" "win_ok img fs'" "win fs' = img (fatbase fs + of_nat q)" "same_vol fs fs'"
      "length (win fs') = 512"
    using fat_sector [OF assms(1-3) k] by blast
  obtain v where v: "LD_WORD (win fs') r = Some v"
      "unat v = unat (win fs' ! r) + 256 * unat (win fs' ! (r + 1))"
    using LD_WORD_in [of r "win fs'"] c(2) w(6) by auto
  have "unat (ucast v :: u32) = fat_entry img fs c"
    using v(2) w(4) at c(2) assms(6) by (simp add: fat_entry_def fat_byte_def ff_consts unat_ucast_16_32)
  moreover have "clst div 256 = of_nat q" "unat (clst * 2 mod 512) = r"
    using sector_index(1,3) [of clst] at c(2) by (simp_all add: c_def)
  then have "get_fat dk clst (fs, s) = Some (ucast v, fs', s')"
    using get_fat_range [OF assms(4,5)] assms(6) w(1) v(1) by (simp add: get_fat_def ff_consts)
  ultimately show ?thesis using w c_def by blast
qed

lemma get_fat32:
  assumes "win_ok img fs" "fat_ok exists fs" "inv s" "2 \<le> clst" "clst < n_fatent fs" "fs_type fs = FS_FAT32"
  shows "\<exists>r fs' s'. get_fat dk clst (fs, s) = Some (r, fs', s') \<and> unat r = fat_entry img fs (unat clst) \<and>
     inv s' \<and> win_ok img fs' \<and> same_vol fs fs'"
proof -
  define c where "c = unat clst"
  define q where "q = c div 128"
  define r where "r = 4 * (c mod 128)"
  have c: "4 * c = 512 * q + r" "r + 3 < 512"
    unfolding q_def r_def using mult_div_mod_eq [of 128 c] mod_less_divisor [of 128 c] by linarith+
  note at = split512 [OF c(1), of 0] split512 [OF c(1), of 1] split512 [OF c(1), of 2] split512 [OF c]
  have "fat_last fs c < 512 * unat (fs_fsize fs)"
    using assms(2,5) by (simp add: fat_ok_def c_def word_less_nat_alt)
  then have k: "q < unat (fs_fsize fs)"
    using assms(6) c by (simp add: fat_last_def ff_consts)
  obtain fs' s' where w: "move_window dk (fatbase fs + of_nat q) (fs, s) = Some (FR_OK, fs', s')"
      "inv s'" "win_ok img fs'" "win fs' = img (fatbase fs + of_nat q)" "same_vol fs fs'"
      "length (win fs') = 512"
    using fat_sector [OF assms(1-3) k] by blast
  obtain v where v: "LD_DWORD (win fs') r = Some v"
      "unat v = unat (win fs' ! r) + 256 * unat (win fs' ! (r + 1)) +
        65536 * unat (win fs' ! (r + 2)) + 16777216 * unat (win fs' ! (r + 3))"
    using LD_DWORD_in [of r "win fs'"] c(2) w(6) by auto
  have "v AND 0x0FFFFFFF = take_bit 28 v" by (simp add: take_bit_eq_mask mask_eq_exp_minus_1)
  then have "unat (v AND 0x0FFFFFFF) = unat v mod 2 ^ 28"
    by (simp add: take_bit_eq_mod unat_mod)
  then have "unat (v AND 0x0FFFFFFF) = fat_entry img fs c"
    using v(2) w(4) at c(2) assms(6) by (simp add: fat_entry_def fat_byte_def ff_consts)
  moreover have "clst div 128 = of_nat q" "unat (clst * 4 mod 512) = r"
    using sector_index(2,4) [of clst] at c(2) by (simp_all add: c_def)
  then have "get_fat dk clst (fs, s) = Some (v AND 0x0FFFFFFF, fs', s')"
    using get_fat_range [OF assms(4,5)] assms(6) w(1) v(1) by (simp add: get_fat_def ff_consts)
  ultimately show ?thesis using w c_def by blast
qed

lemma get_fat_12:
  assumes "win_ok img fs" "fat_ok exists fs" "inv s" "2 \<le> clst" "clst < n_fatent fs" "fs_type fs = FS_FAT12"
  shows "\<exists>r fs' s'. get_fat dk clst (fs, s) = Some (r, fs', s') \<and> unat r = fat_entry img fs (unat clst) \<and>
     inv s' \<and> win_ok img fs' \<and> same_vol fs fs'"
proof -
  define c where "c = unat clst"
  define i where "i = c + c div 2"
  define bc where "bc = clst + clst div 2"
  have c: "c < 4087" using assms(2,5,6) by (simp add: fat_ok_def c_def word_less_nat_alt)
  then have bc: "unat bc = i" "unat (bc + 1) = i + 1"
    by (simp_all add: bc_def i_def c_def unat_word_ariths unat_div)
  have "i div 512 = unat (bc div 512)" "(i + 1) div 512 = unat ((bc + 1) div 512)"
    using bc by (simp_all add: unat_div)
  then have sect: "bc div 512 = of_nat (i div 512)" "(bc + 1) div 512 = of_nat ((i + 1) div 512)"
    by simp_all
  have idx: "unat (bc mod 512) = i mod 512" "unat ((bc + 1) mod 512) = (i + 1) mod 512"
    using bc by (simp_all add: unat_mod)
  have "fat_last fs c < 512 * unat (fs_fsize fs)"
    using assms(2,5) by (simp add: fat_ok_def c_def word_less_nat_alt)
  then have "i + 1 < unat (fs_fsize fs) * 512" using assms(6) by (simp add: fat_last_def ff_consts i_def)
  then have k: "i div 512 < unat (fs_fsize fs)" "(i + 1) div 512 < unat (fs_fsize fs)"
    by (simp_all add: less_mult_imp_div_less)
  obtain fs1 s1 where w: "move_window dk (fatbase fs + bc div 512) (fs, s) = Some (FR_OK, fs1, s1)"
      "inv s1" "win_ok img fs1" "win fs1 = img (fatbase fs + of_nat (i div 512))" "same_vol fs fs1"
      "length (win fs1) = 512"
    using fat_sector [OF assms(1-3) k(1)] sect by auto
  have f1: "fat_ok exists fs1" "fatbase fs1 = fatbase fs" "fs_fsize fs1 = fs_fsize fs"
    using same_vol_fat_ok [OF w(5)] assms(2) same_vol_sel [OF w(5)] by simp_all
  obtain fs2 s2 where w2: "move_window dk (fatbase fs1 + (bc + 1) div 512) (fs1, s1) = Some (FR_OK, fs2, s2)"
      "inv s2" "win_ok img fs2" "win fs2 = img (fatbase fs + of_nat ((i + 1) div 512))" "same_vol fs1 fs2"
      "length (win fs2) = 512"
    using fat_sector [OF w(3) f1(1) w(2), of "(i + 1) div 512"] k(2) f1 sect by auto
  define wc where "wc = (ucast (win fs1 ! (i mod 512)) :: u32) OR push_bit 8 (ucast (win fs2 ! ((i + 1) mod 512)))"
  have wc: "unat wc = fat_byte img fs i + 256 * fat_byte img fs (i + 1)"
    using dword_bytes [of 0 0 "win fs2 ! ((i + 1) mod 512)" "win fs1 ! (i mod 512)"] w(4) w2(4)
    by (simp add: wc_def fat_byte_def or.commute)
  have "get_fat dk clst (fs, s) = Some (if clst AND 1 \<noteq> 0 then drop_bit 4 wc else wc AND 0xFFF, fs2, s2)"
    using get_fat_range [OF assms(4,5)] assms(6) w(1,6) w2(1,6) idx
    by (simp add: get_fat_def get_fat12_def ff_consts array_simps wc_def Let_def flip: bc_def)
  moreover have "unat (if clst AND 1 \<noteq> 0 then drop_bit 4 wc else wc AND 0xFFF) = fat_entry img fs c"
  proof -
    have "wc AND 0xFFF = take_bit 12 wc" by (simp add: take_bit_eq_mask mask_eq_exp_minus_1)
    then have "unat (wc AND 0xFFF) = unat wc mod 4096" by (simp add: take_bit_eq_mod unat_mod)
    moreover have "unat (drop_bit 4 wc) = unat wc div 16" by (simp add: drop_bit_eq_div unat_div)
    moreover have "unat (clst AND 1) = c mod 2" by (simp add: c_def and_one_eq unat_mod)
    then have "clst AND 1 \<noteq> 0 \<longleftrightarrow> odd c"
      by (metis odd_iff_mod_2_eq_one even_iff_mod_2_eq_zero unat_0 unat_1 unat_eq_zero zero_neq_one)
    ultimately show ?thesis
      using wc assms(6) by (auto simp: fat_entry_def ff_consts i_def Let_def)
  qed
  ultimately show ?thesis using w2 same_vol_trans [OF w(5) w2(5)] c_def by blast
qed

text \<open>\<^verbatim>\<open>get_fat\<close> returns the entry of the FAT, for every FAT type.\<close>

lemma get_fat_entry:
  assumes "win_ok img fs" "fat_ok exists fs" "inv s" "2 \<le> clst" "clst < n_fatent fs"
  shows "\<exists>r fs' s'. get_fat dk clst (fs, s) = Some (r, fs', s') \<and> unat r = fat_entry img fs (unat clst) \<and>
     inv s' \<and> win_ok img fs' \<and> same_vol fs fs'"
proof -
  have "fs_type fs \<in> {FS_FAT12, FS_FAT16, FS_FAT32}" using assms(2) by (simp add: fat_ok_def)
  then show ?thesis using get_fat_12 [OF assms] get_fat16 [OF assms] get_fat32 [OF assms] by blast
qed

end

end
