(* ===== verification/Fat_File.thy ===== *)
theory Fat_File
  imports Fat_Table
begin

unbundle bit_operations_syntax

text \<open>
  Files. A file is a chain of clusters; \<^verbatim>\<open>f_read\<close> and \<^verbatim>\<open>f_lseek\<close> are shown to work on the
  sequence of bytes in that chain, whatever the cluster size, the position and the length.
\<close>

section \<open>Files as cluster chains\<close>

lemma concat_chunks:
  assumes "\<forall>x \<in> set xss. length x = n"
  shows "length (concat xss) = n * length xss" "drop (n * j) (concat xss) = concat (drop j xss)"
    "take (n * j) (concat xss) = concat (take j xss)"
proof -
  show "length (concat xss) = n * length xss"
    using assms by (induction xss) auto
  show "drop (n * j) (concat xss) = concat (drop j xss)"
    using assms
  proof (induction xss arbitrary: j)
    case (Cons x xss)
    then show ?case by (cases j) auto
  qed simp
  show "take (n * j) (concat xss) = concat (take j xss)"
    using assms
  proof (induction xss arbitrary: j)
    case (Cons x xss)
    then show ?case by (cases j) auto
  qed simp
qed

lemma concat_nth:
  assumes "\<forall>x \<in> set xss. length x = n" "j < n * length xss"
  shows "concat xss ! j = xss ! (j div n) ! (j mod n)"
  using assms
proof (induction xss arbitrary: j)
  case (Cons x xss)
  have n: "0 < n" using Cons.prems(2) by (cases n) auto
  show ?case
  proof (cases "j < n")
    case False
    then have "j div n = Suc ((j - n) div n)" "j mod n = (j - n) mod n"
      using n by (simp_all add: le_div_geq le_mod_geq)
    then show ?thesis using False Cons.IH [of "j - n"] Cons.prems by (simp add: nth_append)
  qed (use Cons.prems in \<open>simp add: nth_append\<close>)
qed simp

text \<open>The sectors of a cluster, of a chain of clusters, and the bytes in them.\<close>

definition cluster_sectors :: "fatfs \<Rightarrow> u32 \<Rightarrow> u32 list" where
  "cluster_sectors fs c = map (\<lambda>k. clust2sect fs c + of_nat k) [0..<unat (csize fs)]"

definition chain_sectors :: "fatfs \<Rightarrow> u32 list \<Rightarrow> u32 list" where
  "chain_sectors fs chain = concat (map (cluster_sectors fs) chain)"

definition chain_data :: "(u32 \<Rightarrow> u8 list) \<Rightarrow> fatfs \<Rightarrow> u32 list \<Rightarrow> u8 list" where
  "chain_data img fs chain = concat (map img (chain_sectors fs chain))"

definition cluster_bytes :: "fatfs \<Rightarrow> nat" where
  "cluster_bytes fs = 512 * unat (csize fs)"

text \<open>A mounted volume whose FAT and data sectors exist.\<close>

definition vol_ok :: "(u32 \<Rightarrow> bool) \<Rightarrow> fatfs \<Rightarrow> bool" where
  "vol_ok exists fs \<longleftrightarrow>
     fat_ok exists fs \<and> (\<exists>k < 8. csize fs = 2 ^ k) \<and>
     (\<forall>c. 2 \<le> c \<and> c < n_fatent fs \<longrightarrow> clust2sect fs c \<noteq> 0 \<and>
        (\<forall>sect \<in> set (cluster_sectors fs c). exists sect \<and> sect \<noteq> 0))"

text \<open>A chain: the FAT entry of each cluster is the number of the next.\<close>

definition chain_ok :: "(u32 \<Rightarrow> u8 list) \<Rightarrow> fatfs \<Rightarrow> u32 list \<Rightarrow> bool" where
  "chain_ok img fs chain \<longleftrightarrow>
     (\<forall>c \<in> set chain. 2 \<le> c \<and> c < n_fatent fs) \<and>
     (\<forall>k. Suc k < length chain \<longrightarrow> fat_entry img fs (unat (chain ! k)) = unat (chain ! Suc k))"

text \<open>
  An open file: its data is in the chain, the buffer holds the sector \<^verbatim>\<open>dsect\<close>, the current
  cluster is the one of the last byte before the file pointer, and \<^verbatim>\<open>dsect\<close> is the current
  sector whenever the file pointer is inside a sector.
\<close>

definition fil_base :: "(u32 \<Rightarrow> u8 list) \<Rightarrow> fatfs \<Rightarrow> u32 list \<Rightarrow> fil \<Rightarrow> bool" where
  "fil_base img fs chain fp \<longleftrightarrow>
     fil_fs fp \<and> fil_id fp = fs_id fs \<and> flag fp AND FA__ERROR = 0 \<and> flag fp AND FA_READ \<noteq> 0 \<and>
     fptr fp \<le> fsize fp \<and> unat (fsize fp) \<le> cluster_bytes fs * length chain \<and>
     (chain \<noteq> [] \<longrightarrow> sclust fp = hd chain) \<and>
     length (fbuf fp) = 512 \<and> (dsect fp \<noteq> 0 \<longrightarrow> fbuf fp = img (dsect fp))"

definition fil_ok :: "(u32 \<Rightarrow> u8 list) \<Rightarrow> fatfs \<Rightarrow> u32 list \<Rightarrow> fil \<Rightarrow> bool" where
  "fil_ok img fs chain fp \<longleftrightarrow>
     fil_base img fs chain fp \<and>
     (fptr fp \<noteq> 0 \<longrightarrow> clust fp = chain ! ((unat (fptr fp) - 1) div cluster_bytes fs)) \<and>
     (unat (fptr fp) mod 512 \<noteq> 0 \<longrightarrow> dsect fp = chain_sectors fs chain ! (unat (fptr fp) div 512))"

lemma csize_pos: "vol_ok exists fs \<Longrightarrow> 0 < unat (csize fs) \<and> unat (csize fs) \<le> 128"
proof -
  assume "vol_ok exists fs"
  then obtain k where k: "k < 8" "csize fs = 2 ^ k" by (auto simp: vol_ok_def)
  then have "k \<in> {0, 1, 2, 3, 4, 5, 6, 7}" by auto
  then show ?thesis using k(2) by auto
qed

lemma sector_offset:
  assumes "vol_ok exists fs"
  shows "unat (ucast (p div 512 AND (ucast (csize fs) - 1)) :: u8) = unat (p :: u32) div 512 mod unat (csize fs)"
proof -
  obtain k where k: "k < 8" "csize fs = 2 ^ k" using assms by (auto simp: vol_ok_def)
  then have "k \<in> {0, 1, 2, 3, 4, 5, 6, 7}" by auto
  then have "unat (2 ^ k :: u8) = 2 ^ k" "(ucast (2 ^ k :: u8) :: u32) = 2 ^ k" by auto
  moreover have "p div 512 AND (2 ^ k - 1) = take_bit k (p div 512)"
    by (simp add: take_bit_eq_mask mask_eq_exp_minus_1)
  moreover have "unat (ucast (take_bit k (p div 512)) :: u8) = take_bit k (unat p div 512)"
    using k(1) by (simp add: unsigned_ucast_eq unsigned_take_bit_eq unat_div min_def)
  ultimately show ?thesis using k(2) by (simp add: take_bit_eq_mod)
qed

lemma cluster_sectors_length [simp]: "length (cluster_sectors fs c) = unat (csize fs)"
  by (simp add: cluster_sectors_def)

lemma chain_sectors_length: "length (chain_sectors fs chain) = unat (csize fs) * length chain"
  using concat_chunks(1) [of "map (cluster_sectors fs) chain" "unat (csize fs)"] by (simp add: chain_sectors_def)

lemma chain_sectors_nth:
  assumes "j < unat (csize fs) * length chain"
  shows "chain_sectors fs chain ! j = clust2sect fs (chain ! (j div unat (csize fs))) + of_nat (j mod unat (csize fs))"
proof -
  have "j div unat (csize fs) < length chain" "j mod unat (csize fs) < unat (csize fs)"
    using assms by (cases "unat (csize fs)"; simp add: less_mult_imp_div_less mult.commute)+
  then show ?thesis
    using concat_nth [of "map (cluster_sectors fs) chain" "unat (csize fs)" j] assms
    by (simp add: chain_sectors_def cluster_sectors_def)
qed

lemma pred_div:
  fixes p b :: nat
  assumes "0 < p" "0 < b"
  shows "(p - 1) div b = (if p mod b = 0 then p div b - 1 else p div b)"
  using assms by (cases p) (auto simp: div_Suc)

lemma div_sector: "p div 512 div unat (csize fs) = p div cluster_bytes fs"
  by (simp add: cluster_bytes_def div_mult2_eq)

context disk_image
begin

lemma sectors_exist:
  assumes "vol_ok exists fs" "chain_ok img fs chain" "sect \<in> set (chain_sectors fs chain)"
  shows "exists sect" "sect \<noteq> 0" "length (img sect) = 512"
  using assms img_length by (auto simp: vol_ok_def chain_ok_def chain_sectors_def)

lemma chain_slice:
  assumes "vol_ok exists fs" "chain_ok img fs chain"
  shows "take (512 * n) (drop (512 * j) (chain_data img fs chain)) =
      concat (map img (take n (drop j (chain_sectors fs chain))))"
    and "length (chain_data img fs chain) = cluster_bytes fs * length chain"
proof -
  have l: "\<forall>x \<in> set (map img (chain_sectors fs chain)). length x = 512"
    using sectors_exist [OF assms] by auto
  then have l2: "\<forall>x \<in> set (drop j (map img (chain_sectors fs chain))). length x = 512"
    by (meson in_set_dropD)
  show "take (512 * n) (drop (512 * j) (chain_data img fs chain)) =
      concat (map img (take n (drop j (chain_sectors fs chain))))"
    using concat_chunks(2) [OF l, of j] concat_chunks(3) [OF l2, of n]
    by (simp add: chain_data_def drop_map take_map)
  show "length (chain_data img fs chain) = cluster_bytes fs * length chain"
    using concat_chunks(1) [OF l] by (simp add: chain_data_def chain_sectors_length cluster_bytes_def)
qed

lemma sector_data:
  assumes "vol_ok exists fs" "chain_ok img fs chain" "p < cluster_bytes fs * length chain" "n \<le> 512 - p mod 512"
  shows "take n (drop (p mod 512) (img (chain_sectors fs chain ! (p div 512)))) = take n (drop p (chain_data img fs chain))"
proof -
  have "p div 512 < length (chain_sectors fs chain)"
    using assms(3) by (simp add: chain_sectors_length cluster_bytes_def less_mult_imp_div_less mult.commute mult.left_commute)
  then have "take 1 (drop (p div 512) (chain_sectors fs chain)) = [chain_sectors fs chain ! (p div 512)]"
    by (simp add: take_Suc_conv_app_nth)
  then have "img (chain_sectors fs chain ! (p div 512)) = take 512 (drop (512 * (p div 512)) (chain_data img fs chain))"
    using chain_slice(1) [OF assms(1,2), of 1 "p div 512"] by simp
  then show ?thesis
    using assms(4) by (simp add: drop_take min_def)
qed

text \<open>The copy of the rest of the sector in the buffer.\<close>

lemma partial:
  assumes vol: "vol_ok exists fs" "chain_ok img fs chain"
    and fp: "fil_base img fs chain fp" "dsect fp = chain_sectors fs chain ! (unat (fptr fp) div 512)"
      "clust fp = chain ! (unat (fptr fp) div cluster_bytes fs)"
    and n: "btr \<noteq> 0" "unat (fptr fp) + unat btr \<le> unat (fsize fp)" "rb + unat btr \<le> length buff"
  shows "\<exists>rcnt. read_partial buff rb btr fp = Some (rcnt, take rb buff @
      take (unat rcnt) (drop (unat (fptr fp)) (chain_data img fs chain)) @ drop (rb + unat rcnt) buff) \<and>
     rcnt \<noteq> 0 \<and> rcnt \<le> btr \<and> fil_ok img fs chain (fp\<lparr>fptr := fptr fp + rcnt\<rparr>)"
proof -
  define p where "p = unat (fptr fp)"
  define B where "B = cluster_bytes fs"
  have pos: "0 < unat btr" using n(1) by (simp add: unat_gt_0)
  have p: "p < B * length chain" using fp(1) n(2) pos by (simp add: fil_base_def p_def B_def)
  have r512: "unat (512 - fptr fp mod 512) = 512 - p mod 512"
    by (simp add: p_def unat_sub_if_size unat_mod word_le_nat_alt)
  define rcnt where "rcnt = (if btr < 512 - fptr fp mod 512 then btr else 512 - fptr fp mod 512)"
  have rcnt: "unat rcnt = min (unat btr) (512 - p mod 512)"
    using r512 by (auto simp: rcnt_def word_less_nat_alt min_def)
  then have bound: "0 < unat rcnt" "unat rcnt \<le> unat btr" "unat rcnt \<le> 512 - p mod 512"
    using pos mod_less_divisor [of 512 p] by auto
  have "dsect fp \<in> set (chain_sectors fs chain)"
    using p fp(2) by (auto simp: p_def B_def chain_sectors_length cluster_bytes_def less_mult_imp_div_less
        mult.commute mult.left_commute)
  then have "dsect fp \<noteq> 0" using sectors_exist(2) [OF vol] by blast
  then have buf: "fbuf fp = img (chain_sectors fs chain ! (p div 512))" "length (fbuf fp) = 512"
    using fp(1,2) by (auto simp: fil_base_def p_def)
  have cp: "read_partial buff rb btr fp = Some (rcnt, take rb buff @
      take (unat rcnt) (drop p (chain_data img fs chain)) @ drop (rb + unat rcnt) buff)"
    using mem_cpy_copies [of rb "unat rcnt" buff "p mod 512" "fbuf fp"] bound n(3) buf
      sector_data [OF vol _ bound(3)] p
    by (simp add: read_partial_def unat_mod p_def B_def flip: rcnt_def)
  have sum: "unat (fptr fp + rcnt) = p + unat rcnt"
    using n(2) bound unat_u32_lt [of "fsize fp"] by (simp add: p_def unat_word_ariths)
  have B: "0 < B" using csize_pos [OF vol(1)] by (simp add: B_def cluster_bytes_def)
  have same: "(p + unat rcnt - 1) div 512 = p div 512"
  proof (rule div_nat_eqI)
    have "unat rcnt + p mod 512 \<le> 512" using bound(3) mod_less_divisor [of 512 p] by linarith
    then show "p + unat rcnt - 1 < 512 * Suc (p div 512)"
      unfolding mult_Suc_right using mult_div_mod_eq [of 512 p] bound(1) by linarith
    show "512 * (p div 512) \<le> p + unat rcnt - 1"
      using mult_div_mod_eq [of 512 p] bound(1) by linarith
  qed
  then have sameB: "(p + unat rcnt - 1) div B = p div B"
    unfolding B_def div_sector [symmetric] by simp
  have "(p + unat rcnt) mod 512 \<noteq> 0 \<Longrightarrow> (p + unat rcnt) div 512 = p div 512"
    using same pred_div [of "p + unat rcnt" 512] bound by auto
  then have "fil_ok img fs chain (fp\<lparr>fptr := fptr fp + rcnt\<rparr>)"
    using fp n(2) bound sum sameB by (auto simp: fil_ok_def fil_base_def word_le_nat_alt p_def B_def)
  then show ?thesis using cp bound by (auto simp: p_def word_le_nat_alt unat_gt_0)
qed

end

text \<open>Sectors within a cluster are contiguous.\<close>

lemma contiguous:
  assumes "j mod unat (csize fs) + n \<le> unat (csize fs)" "j < unat (csize fs) * length chain"
  shows "take n (drop j (chain_sectors fs chain)) = map (\<lambda>k. chain_sectors fs chain ! j + of_nat k) [0..<n]"
    and "j + n \<le> unat (csize fs) * length chain"
proof -
  define cs where "cs = unat (csize fs)"
  have cs: "0 < cs" using assms(2) by (cases cs) (simp_all add: cs_def)
  have q: "j div cs < length chain" using assms(2) by (simp add: cs_def less_mult_imp_div_less mult.commute)
  then have "cs * (j div cs) + cs \<le> cs * length chain"
    by (metis Suc_leI add.commute mult_Suc_right mult_le_mono2)
  then show le: "j + n \<le> unat (csize fs) * length chain"
    using assms(1) mult_div_mod_eq [of cs j] unfolding cs_def [symmetric] by linarith
  have "chain_sectors fs chain ! (j + k) = chain_sectors fs chain ! j + of_nat k" if "k < n" for k
  proof -
    have "(j + k) div cs = j div cs \<and> (j + k) mod cs = j mod cs + k"
    proof -
      have "j + k = j mod cs + k + j div cs * cs" using div_mult_mod_eq [of j cs] by linarith
      moreover have "j mod cs + k < cs" using assms(1) that by (simp add: cs_def)
      ultimately show ?thesis by (metis add.commute add_0 div_less div_mult_self1 cs mod_less mod_mult_self1 not_gr0)
    qed
    then show ?thesis
      using chain_sectors_nth [of "j + k" fs chain] chain_sectors_nth [OF assms(2)] le that
      by (simp add: cs_def)
  qed
  then show "take n (drop j (chain_sectors fs chain)) = map (\<lambda>k. chain_sectors fs chain ! j + of_nat k) [0..<n]"
    using le by (intro nth_equalityI) (simp_all add: chain_sectors_length)
qed

lemma same_vol_file:
  assumes "same_vol fs fs'"
  shows "vol_ok exists fs' = vol_ok exists fs" "chain_ok img fs' chain = chain_ok img fs chain"
    "fil_ok img fs' chain fp = fil_ok img fs chain fp" "chain_data img fs' chain = chain_data img fs chain"
    "chain_sectors fs' chain = chain_sectors fs chain" "clust2sect fs' c = clust2sect fs c"
    "cluster_bytes fs' = cluster_bytes fs"
proof -
  note sel = same_vol_sel [OF assms] same_vol_fat_ok [OF assms] same_vol_fat [OF assms]
  have c: "clust2sect fs' = clust2sect fs" using sel by (simp add: fun_eq_iff clust2sect_def Let_def)
  then have cl: "cluster_sectors fs' = cluster_sectors fs" using sel by (simp add: fun_eq_iff cluster_sectors_def)
  then have ch: "chain_sectors fs' = chain_sectors fs" by (intro ext) (simp add: chain_sectors_def)
  show "clust2sect fs' c = clust2sect fs c" "chain_sectors fs' chain = chain_sectors fs chain"
    using c ch by simp_all
  show "chain_data img fs' chain = chain_data img fs chain" using ch by (simp add: chain_data_def)
  show cb: "cluster_bytes fs' = cluster_bytes fs" using sel by (simp add: cluster_bytes_def)
  show "vol_ok exists fs' = vol_ok exists fs" using sel c cl by (simp add: vol_ok_def)
  show "chain_ok img fs' chain = chain_ok img fs chain" using sel by (simp add: chain_ok_def)
  show "fil_ok img fs' chain fp = fil_ok img fs chain fp" using sel ch cb by (simp add: fil_ok_def fil_base_def)
qed

lemma less_not_max: "(c :: u32) < n \<Longrightarrow> c \<noteq> 0xFFFFFFFF"
  using unat_u32_lt [of n] by (auto simp: word_less_nat_alt)

text \<open>The number of sectors read directly: at least one, none behind the cluster.\<close>

lemma clip:
  fixes csect :: u8 and btr :: u32
  assumes "vol_ok exists fs" "unat csect = j mod unat (csize fs)" "btr div 512 \<noteq> 0"
  defines "n1 \<equiv> (if (ucast (csize fs) :: u32) < ucast csect + btr div 512
        then ucast (csize fs) - ucast csect else btr div 512)"
  shows "0 < unat n1" "unat n1 \<le> unat (btr div 512)" "j mod unat (csize fs) + unat n1 \<le> unat (csize fs)"
    "unat (ucast n1 :: u8) = unat n1"
proof -
  have cs: "0 < unat (csize fs)" "unat (csize fs) \<le> 128" using csize_pos [OF assms(1)] by auto
  have lt: "unat csect < unat (csize fs)" using assms(2) cs(1) by simp
  have u: "unat (ucast (csize fs) :: u32) = unat (csize fs)" "unat (ucast csect :: u32) = unat csect"
    using unat_u8_lt [of "csize fs"] unat_u8_lt [of csect]
    by (simp_all add: unsigned_ucast_eq take_bit_nat_eq_self)
  have b: "unat (btr div 512) < 2 ^ 23" "0 < unat (btr div 512)"
    using unat_u32_lt [of btr] assms(3) by (simp_all add: unat_gt_0) (simp add: unat_div less_mult_imp_div_less)
  have sum: "unat (ucast csect + btr div 512 :: u32) = unat csect + unat (btr div 512)"
    using b unat_u8_lt [of csect] u(2) by (simp add: unat_word_ariths)
  have diff: "unat (ucast (csize fs) - ucast csect :: u32) = unat (csize fs) - unat csect"
    using lt u by (simp add: unat_sub word_le_nat_alt)
  have n1: "unat n1 = min (unat (btr div 512)) (unat (csize fs) - unat csect)"
    using lt by (auto simp: n1_def word_less_nat_alt sum diff u)
  then show "0 < unat n1" "unat n1 \<le> unat (btr div 512)" "j mod unat (csize fs) + unat n1 \<le> unat (csize fs)"
    using lt b(2) assms(2) by auto
  have "unat n1 < 256" using n1 cs(2) by linarith
  then show "unat (ucast n1 :: u8) = unat n1"
    by (simp add: unsigned_ucast_eq take_bit_nat_eq_self)
qed

lemma advance:
  assumes "vol_ok exists fs" "fil_base img fs chain fp" "clust fp = chain ! (unat (fptr fp) div cluster_bytes fs)"
    and "unat (fptr fp) mod cluster_bytes fs + unat r \<le> cluster_bytes fs" "0 < unat r"
    and "unat (fptr fp) + unat r \<le> unat (fsize fp)" "(unat (fptr fp) + unat r) mod 512 = 0"
  shows "fil_ok img fs chain (fp\<lparr>fptr := fptr fp + r\<rparr>)"
proof -
  define p where "p = unat (fptr fp)"
  define B where "B = cluster_bytes fs"
  have sum: "unat (fptr fp + r) = p + unat r"
    using assms(6) unat_u32_lt [of "fsize fp"] by (simp add: p_def unat_word_ariths)
  have "(p + unat r - 1) div B = p div B"
  proof (rule div_nat_eqI)
    show "p + unat r - 1 < B * Suc (p div B)" "B * (p div B) \<le> p + unat r - 1"
      unfolding mult_Suc_right using assms(4,5) mult_div_mod_eq [of B p] unfolding p_def B_def by linarith+
  qed
  then show ?thesis
    using assms sum by (auto simp: fil_ok_def fil_base_def word_le_nat_alt p_def B_def)
qed

context disk_image
begin

lemma next_cluster:
  assumes vol: "win_ok img fs" "vol_ok exists fs" "chain_ok img fs chain" "inv s"
    and fp: "fil_ok img fs chain fp"
    and p: "unat (fptr fp) < cluster_bytes fs * length chain" "unat (fptr fp) mod cluster_bytes fs = 0"
  shows "\<exists>fs' s'. read_cluster dk (fp, fs, s) =
       Some (FR_OK, fp\<lparr>clust := chain ! (unat (fptr fp) div cluster_bytes fs)\<rparr>, fs', s') \<and>
     inv s' \<and> win_ok img fs' \<and> same_vol fs fs'"
proof -
  define q where "q = unat (fptr fp) div cluster_bytes fs"
  have q: "q < length chain" using p(1) by (simp add: q_def less_mult_imp_div_less mult.commute)
  have range: "2 \<le> chain ! k \<and> chain ! k < n_fatent fs" if "k < length chain" for k
    using vol(3) that by (simp add: chain_ok_def)
  show ?thesis
  proof (cases "fptr fp = 0")
    case True
    then have "q = 0" by (simp add: q_def)
    then have "sclust fp = chain ! 0" using fp q by (auto simp: fil_ok_def fil_base_def hd_conv_nth)
    then show ?thesis
      using True \<open>q = 0\<close> range [OF q] less_not_max [of "chain ! q"] vol
      by (auto simp: read_cluster_def not_less)
  next
    case False
    then have pos: "0 < unat (fptr fp)" by (simp add: unat_gt_0)
    have B: "0 < cluster_bytes fs" using csize_pos [OF vol(2)] by (simp add: cluster_bytes_def)
    have q1: "0 < q" using pos p(2) B by (auto simp: q_def div_greater_zero_iff intro: dvd_imp_le)
    have cl: "clust fp = chain ! (q - 1)"
      using fp False pred_div [OF pos B] p(2) by (simp add: fil_ok_def q_def)
    have "fat_ok exists fs" using vol(2) by (simp add: vol_ok_def)
    with get_fat_entry [OF vol(1) _ vol(4), of "clust fp"] range [of "q - 1"] q cl obtain r fs' s' where
      r: "get_fat dk (clust fp) (fs, s) = Some (r, fs', s')" "unat r = fat_entry img fs (unat (chain ! (q - 1)))"
        "inv s'" "win_ok img fs'" "same_vol fs fs'" by auto
    have "fat_entry img fs (unat (chain ! (q - 1))) = unat (chain ! q)"
      using vol(3) q q1 by (simp add: chain_ok_def)
    then have "r = chain ! q" using r(2) by (simp add: word_unat_eq_iff)
    then show ?thesis
      using False r range [OF q] less_not_max [of "chain ! q"]
      by (auto simp: read_cluster_def q_def [symmetric] not_less)
  qed
qed


lemma locate:
  assumes vol: "win_ok img fs" "vol_ok exists fs" "chain_ok img fs chain" "inv s"
    and fp: "fil_ok img fs chain fp"
    and p: "unat (fptr fp) < cluster_bytes fs * length chain" "unat (fptr fp) mod 512 = 0"
  shows "\<exists>fs' s'. (if (ucast (fptr fp div 512 AND (ucast (csize fs) - 1)) :: u8) = 0
       then read_cluster dk (fp, fs, s) else Some (FR_OK, fp, fs, s)) =
       Some (FR_OK, fp\<lparr>clust := chain ! (unat (fptr fp) div cluster_bytes fs)\<rparr>, fs', s') \<and>
     inv s' \<and> win_ok img fs' \<and> same_vol fs fs'"
proof -
  define p' where "p' = unat (fptr fp)"
  define csect where "csect = (ucast (fptr fp div 512 AND (ucast (csize fs) - 1)) :: u8)"
  have "p' mod cluster_bytes fs = 512 * (p' div 512 mod unat (csize fs)) + p' mod 512"
    by (simp add: cluster_bytes_def mod_mult2_eq)
  then have m: "p' mod cluster_bytes fs = 512 * unat csect"
    using sector_offset [OF vol(2), of "fptr fp"] p(2) by (simp add: p'_def csect_def)
  show ?thesis
  proof (cases "csect = 0")
    case True
    then have "unat (fptr fp) mod cluster_bytes fs = 0" using m by (simp add: p'_def)
    then show ?thesis using True next_cluster [OF vol fp p(1)] by (simp add: csect_def)
  next
    case False
    then have "p' mod cluster_bytes fs \<noteq> 0" using m by (simp add: unat_eq_zero)
    moreover from this have "0 < p'" by (cases p') auto
    moreover have "0 < cluster_bytes fs" using csize_pos [OF vol(2)] by (simp add: cluster_bytes_def)
    ultimately have "clust fp = chain ! (p' div cluster_bytes fs)"
      using fp pred_div [of p' "cluster_bytes fs"] by (auto simp: fil_ok_def p'_def unat_gt_0)
    then have "fp\<lparr>clust := chain ! (p' div cluster_bytes fs)\<rparr> = fp" by (cases fp) simp
    then show ?thesis using False vol by (simp add: csect_def p'_def)
  qed
qed

text \<open>A read of whole sectors into the caller's buffer.\<close>

lemma direct:
  assumes vol: "vol_ok exists fs" "chain_ok img fs chain" "inv s" "drv fs = 0"
    and p: "p mod 512 = 0" "p < cluster_bytes fs * length chain"
    and n: "p div 512 mod unat (csize fs) + unat n \<le> unat (csize fs)" "rb + 512 * unat n \<le> length buff"
  shows "\<exists>s'. dk_read dk (drv fs) (drop rb buff) (chain_sectors fs chain ! (p div 512)) n s =
       Some (RES_OK, take (512 * unat n) (drop p (chain_data img fs chain)) @ drop (rb + 512 * unat n) buff, s') \<and> inv s'"
proof -
  define j where "j = p div 512"
  have j: "j < unat (csize fs) * length chain" "512 * j = p"
    using p by (auto simp: j_def cluster_bytes_def less_mult_imp_div_less mult.commute mult.left_commute)
  note c = contiguous [of j fs "unat n" chain, OF _ j(1)]
  have seg: "take (unat n) (drop j (chain_sectors fs chain)) =
      map (\<lambda>k. chain_sectors fs chain ! j + of_nat k) [0..<unat n]"
    using c(1) n(1) by (simp add: j_def)
  have ex: "exists (chain_sectors fs chain ! j + of_nat k)" if "k < unat n" for k
  proof -
    have "chain_sectors fs chain ! j + of_nat k \<in> set (take (unat n) (drop j (chain_sectors fs chain)))"
      using that by (auto simp: seg)
    then show ?thesis using sectors_exist(1) [OF vol(1,2)] by (meson in_set_dropD in_set_takeD)
  qed
  have "take (512 * unat n) (drop p (chain_data img fs chain)) =
      concat (map (\<lambda>k. img (chain_sectors fs chain ! j + of_nat k)) [0..<unat n])"
    using chain_slice(1) [OF vol(1,2), of "unat n" j] seg j(2) by (simp add: comp_def)
  then show ?thesis
    using read [OF vol(3), of n "drop rb buff" "chain_sectors fs chain ! j"] ex n(2) vol(4)
    by (auto simp: j_def add.commute)
qed


lemma current_sector:
  assumes "vol_ok exists fs" "chain_ok img fs chain" "p < cluster_bytes fs * length chain"
  shows "clust2sect fs (chain ! (p div cluster_bytes fs)) \<noteq> 0"
    and "unat k = p div 512 mod unat (csize fs) \<Longrightarrow>
      clust2sect fs (chain ! (p div cluster_bytes fs)) + ucast (k :: u8) = chain_sectors fs chain ! (p div 512)"
proof -
  have "p div cluster_bytes fs < length chain"
    using assms(3) by (simp add: less_mult_imp_div_less mult.commute)
  then show "clust2sect fs (chain ! (p div cluster_bytes fs)) \<noteq> 0"
    using assms(1,2) by (simp add: vol_ok_def chain_ok_def)
  have "p div 512 < unat (csize fs) * length chain"
    using assms(3) by (simp add: cluster_bytes_def less_mult_imp_div_less mult.commute mult.left_commute)
  then show "clust2sect fs (chain ! (p div cluster_bytes fs)) + ucast k = chain_sectors fs chain ! (p div 512)"
    if "unat k = p div 512 mod unat (csize fs)"
    using that chain_sectors_nth [of "p div 512" fs chain] by (simp add: div_sector flip: that)
qed

lemma load:
  assumes vol: "vol_ok exists fs" "chain_ok img fs chain" "inv s"
    and fp: "fil_base img fs chain fp" "p < cluster_bytes fs * length chain" "d = 0"
  defines "sect \<equiv> chain_sectors fs chain ! (p div 512)"
  shows "\<exists>fp' s'. (if dsect fp \<noteq> sect then
       do { (dr, data, s) \<leftarrow> dk_read dk d (fbuf fp) sect 1 s; Some (dr, fp\<lparr>fbuf := data\<rparr>, s) }
       else Some (RES_OK, fp, s)) = Some (RES_OK, fp', s') \<and> inv s' \<and>
     fil_base img fs chain (fp'\<lparr>dsect := sect\<rparr>) \<and> clust fp' = clust fp \<and> fptr fp' = fptr fp \<and> fsize fp' = fsize fp"
proof -
  have "sect \<in> set (chain_sectors fs chain)"
    using fp(2) by (auto simp: sect_def chain_sectors_length cluster_bytes_def less_mult_imp_div_less
        mult.commute mult.left_commute)
  then have e: "exists sect" "sect \<noteq> 0" "length (img sect) = 512" using sectors_exist [OF vol(1,2)] by blast+
  show ?thesis
  proof (cases "dsect fp = sect")
    case True
    then show ?thesis using fp vol(3) by (auto simp: fil_base_def)
  next
    case False
    have "length (fbuf fp) = 512" using fp(1) by (simp add: fil_base_def)
    then obtain s' where "dk_read dk 0 (fbuf fp) sect 1 s = Some (RES_OK, img sect, s')" "inv s'"
      using read_one [OF vol(3) _ e(1)] by blast
    then show ?thesis using False fp e by (auto simp: fil_base_def)
  qed
qed

text \<open>One round of the read loop.\<close>

text \<open>
  A round that starts on a sector boundary, once the cluster is known: less than a sector goes
  through the file's own buffer, whole sectors go straight into the caller's.
\<close>

lemma round_buffered:
  fixes buff :: "u8 list" and csect :: u8
  assumes vol: "win_ok img fs" "vol_ok exists fs" "chain_ok img fs chain"
    and n: "btr \<noteq> 0" "unat (fptr fp) + unat btr \<le> unat (fsize fp)" "rb + unat btr \<le> length buff"
    and csect: "csect = ucast (fptr fp div 512 AND (ucast (csize fs) - 1))"
    and m512: "fptr fp mod 512 = 0"
    and p: "p = unat (fptr fp)" "p < cluster_bytes fs * length chain"
    and loc: "(if csect = 0 then read_cluster dk (fp, fs, s) else Some (FR_OK, fp, fs, s)) =
      Some (FR_OK, fp1, fs1, s1)" "inv s1" "win_ok img fs1" "same_vol fs fs1"
    and base: "fil_base img fs chain fp1" "clust fp1 = chain ! (p div cluster_bytes fs)" "fptr fp1 = fptr fp"
      "fsize fp1 = fsize fp"
    and cl: "clust2sect fs1 (clust fp1) \<noteq> 0" "clust2sect fs1 (clust fp1) + ucast csect = chain_sectors fs chain ! (p div 512)"
    and cs: "csize fs1 = csize fs" "drv fs1 = 0"
    and cc: "btr div 512 = 0"
  shows "\<exists>rcnt fp' fs' s'. read_round dk buff rb btr (fp, fs, s) = Some (FR_OK, rcnt, take rb buff @
       take (unat rcnt) (drop (unat (fptr fp)) (chain_data img fs chain)) @ drop (rb + unat rcnt) buff, fp', fs', s') \<and>
     rcnt \<noteq> 0 \<and> rcnt \<le> btr \<and> fil_ok img fs chain (fp'\<lparr>fptr := fptr fp + rcnt\<rparr>) \<and> fptr fp' = fptr fp \<and>
     fsize fp' = fsize fp \<and> inv s' \<and> win_ok img fs' \<and> same_vol fs fs'"
proof -
  obtain fp2 s2 where ld: "(if dsect fp1 \<noteq> chain_sectors fs chain ! (p div 512) then
        do { (dr, data, s) \<leftarrow> dk_read dk (drv fs1) (fbuf fp1) (chain_sectors fs chain ! (p div 512)) 1 s1;
             Some (dr, fp1\<lparr>fbuf := data\<rparr>, s) } else Some (RES_OK, fp1, s1)) = Some (RES_OK, fp2, s2)"
      "inv s2" "fil_base img fs chain (fp2\<lparr>dsect := chain_sectors fs chain ! (p div 512)\<rparr>)"
      "clust fp2 = clust fp1" "fptr fp2 = fptr fp" "fsize fp2 = fsize fp"
    using load [OF vol(2,3) loc(2) base(1) p(2) cs(2)] base by auto
  obtain rcnt where pt: "read_partial buff rb btr (fp2\<lparr>dsect := chain_sectors fs chain ! (p div 512)\<rparr>) =
        Some (rcnt, take rb buff @ take (unat rcnt) (drop p (chain_data img fs chain)) @ drop (rb + unat rcnt) buff)"
      "rcnt \<noteq> 0" "rcnt \<le> btr"
      "fil_ok img fs chain (fp2\<lparr>dsect := chain_sectors fs chain ! (p div 512), fptr := fptr fp + rcnt\<rparr>)"
    using partial [OF vol(2,3) ld(3), of btr rb buff] ld(4-6) base(2) n by (auto simp: p(1))
  have "read_round dk buff rb btr (fp, fs, s) = Some (FR_OK, rcnt, take rb buff @
      take (unat rcnt) (drop p (chain_data img fs chain)) @ drop (rb + unat rcnt) buff,
      fp2\<lparr>dsect := chain_sectors fs chain ! (p div 512)\<rparr>, fs1, s2)"
    using m512 loc(1) cl cc ld(1) pt(1)
    by (simp add: read_round_def Let_def flip: csect)
  then show ?thesis using pt ld loc(3,4) by (auto simp: p(1))
qed

lemma round_direct:
  fixes buff :: "u8 list" and csect :: u8
  assumes vol: "win_ok img fs" "vol_ok exists fs" "chain_ok img fs chain"
    and n: "btr \<noteq> 0" "unat (fptr fp) + unat btr \<le> unat (fsize fp)" "rb + unat btr \<le> length buff"
    and csect: "csect = ucast (fptr fp div 512 AND (ucast (csize fs) - 1))"
    and m512: "fptr fp mod 512 = 0"
    and p: "p = unat (fptr fp)" "p < cluster_bytes fs * length chain"
    and loc: "(if csect = 0 then read_cluster dk (fp, fs, s) else Some (FR_OK, fp, fs, s)) =
      Some (FR_OK, fp1, fs1, s1)" "inv s1" "win_ok img fs1" "same_vol fs fs1"
    and base: "fil_base img fs chain fp1" "clust fp1 = chain ! (p div cluster_bytes fs)" "fptr fp1 = fptr fp"
      "fsize fp1 = fsize fp"
    and cl: "clust2sect fs1 (clust fp1) \<noteq> 0" "clust2sect fs1 (clust fp1) + ucast csect = chain_sectors fs chain ! (p div 512)"
    and cs: "csize fs1 = csize fs" "drv fs1 = 0"
    and cc: "btr div 512 \<noteq> 0"
  shows "\<exists>rcnt fp' fs' s'. read_round dk buff rb btr (fp, fs, s) = Some (FR_OK, rcnt, take rb buff @
       take (unat rcnt) (drop (unat (fptr fp)) (chain_data img fs chain)) @ drop (rb + unat rcnt) buff, fp', fs', s') \<and>
     rcnt \<noteq> 0 \<and> rcnt \<le> btr \<and> fil_ok img fs chain (fp'\<lparr>fptr := fptr fp + rcnt\<rparr>) \<and> fptr fp' = fptr fp \<and>
     fsize fp' = fsize fp \<and> inv s' \<and> win_ok img fs' \<and> same_vol fs fs'"
proof -
  have True: "unat (fptr fp) mod 512 = 0" using m512 by (simp add: word_unat_eq_iff unat_mod)
  define n1 where "n1 = (if (ucast (csize fs) :: u32) < ucast csect + btr div 512
      then ucast (csize fs) - ucast csect else btr div 512)"
  have co: "unat csect = p div 512 mod unat (csize fs)"
    using sector_offset [OF vol(2), of "fptr fp"] by (simp add: csect p(1))
  note n1 = clip [OF vol(2) co cc, folded n1_def]
  have fits: "512 * unat n1 \<le> unat btr" using n1(2) by (simp add: unat_div)
  have u512: "unat (512 * n1) = 512 * unat n1"
    using fits unat_u32_lt [of btr] by (simp add: unat_word_ariths)
  obtain s2 where rd: "dk_read dk (drv fs1) (drop rb buff) (chain_sectors fs chain ! (p div 512)) (ucast n1) s1 =
        Some (RES_OK, take (512 * unat n1) (drop p (chain_data img fs chain)) @ drop (rb + 512 * unat n1) buff, s2)"
      "inv s2"
    using direct [OF vol(2,3) loc(2) _ True [folded p(1)] p(2), of "ucast n1" rb buff] n1 fits n(3) cs vol(1)
    by (auto simp: win_ok_def)
  have adv: "fil_ok img fs chain (fp1\<lparr>fptr := fptr fp + 512 * n1\<rparr>)"
  proof -
    have "p mod cluster_bytes fs + 512 * unat n1 \<le> cluster_bytes fs"
      using n1(3) True by (simp add: cluster_bytes_def mod_mult2_eq p(1))
    moreover have "p + 512 * unat n1 \<le> unat (fsize fp)" "(p + 512 * unat n1) mod 512 = 0"
      using fits n(2) True by (simp_all add: p(1))
    ultimately show ?thesis
      using advance [OF vol(2) base(1), of "512 * n1"] base(2-4) n1(1) by (simp add: u512 p(1))
  qed
  have "read_round dk buff rb btr (fp, fs, s) = Some (FR_OK, 512 * n1, take rb buff @
      take (512 * unat n1) (drop p (chain_data img fs chain)) @ drop (rb + 512 * unat n1) buff, fp1, fs1, s2)"
    using m512 loc(1) cl cc rd(1) cs n(3)
    by (simp add: read_round_def Let_def split del: if_split cong del: if_weak_cong
        flip: csect n1_def)
  moreover have "unat (512 * n1) \<noteq> 0" using u512 n1(1) by linarith
  then have "512 * n1 \<noteq> 0" by (metis unat_0)
  moreover have "512 * n1 \<le> btr" unfolding word_le_nat_alt u512 by (rule fits)
  ultimately show ?thesis using adv u512 rd(2) loc(3,4) base(3,4) by (auto simp: p(1))
qed

lemma round:
  fixes buff :: "u8 list"
  assumes vol: "win_ok img fs" "vol_ok exists fs" "chain_ok img fs chain" "inv s"
    and fp: "fil_ok img fs chain fp"
    and n: "btr \<noteq> 0" "unat (fptr fp) + unat btr \<le> unat (fsize fp)" "rb + unat btr \<le> length buff"
  shows "\<exists>rcnt fp' fs' s'. read_round dk buff rb btr (fp, fs, s) = Some (FR_OK, rcnt, take rb buff @
       take (unat rcnt) (drop (unat (fptr fp)) (chain_data img fs chain)) @ drop (rb + unat rcnt) buff, fp', fs', s') \<and>
     rcnt \<noteq> 0 \<and> rcnt \<le> btr \<and> fil_ok img fs chain (fp'\<lparr>fptr := fptr fp + rcnt\<rparr>) \<and> fptr fp' = fptr fp \<and>
     fsize fp' = fsize fp \<and> inv s' \<and> win_ok img fs' \<and> same_vol fs fs'"
proof (cases "unat (fptr fp) mod 512 = 0")
  case False
  have pos: "0 < unat (fptr fp)" using False by (cases "unat (fptr fp)") auto
  have B: "0 < cluster_bytes fs" using csize_pos [OF vol(2)] by (simp add: cluster_bytes_def)
  have "unat (fptr fp) mod cluster_bytes fs \<noteq> 0"
    using False by (auto simp: cluster_bytes_def mod_mult2_eq)
  then have "clust fp = chain ! (unat (fptr fp) div cluster_bytes fs)"
    using fp pos pred_div [OF pos B] by (auto simp: fil_ok_def unat_gt_0)
  moreover have "fptr fp mod 512 \<noteq> 0" using False by (auto simp: word_unat_eq_iff unat_mod)
  ultimately show ?thesis
    using partial [OF vol(2,3), of fp btr rb buff] fp False n vol
    by (fastforce simp: fil_ok_def read_round_def)
next
  case True
  define p where "p = unat (fptr fp)"
  define csect where "csect = (ucast (fptr fp div 512 AND (ucast (csize fs) - 1)) :: u8)"
  define fp1 where "fp1 = fp\<lparr>clust := chain ! (p div cluster_bytes fs)\<rparr>"
  have p: "p < cluster_bytes fs * length chain"
  proof -
    have "0 < unat btr" using n(1) by (simp add: unat_gt_0)
    moreover have "unat (fsize fp) \<le> cluster_bytes fs * length chain"
      using fp by (simp add: fil_ok_def fil_base_def)
    ultimately show ?thesis using n(2) unfolding p_def by linarith
  qed
  have m512: "fptr fp mod 512 = 0" using True by (simp add: word_unat_eq_iff unat_mod)
  obtain fs1 s1 where loc: "(if csect = 0 then read_cluster dk (fp, fs, s) else Some (FR_OK, fp, fs, s)) =
      Some (FR_OK, fp1, fs1, s1)" "inv s1" "win_ok img fs1" "same_vol fs fs1"
    using locate [OF vol fp p [unfolded p_def] True] by (auto simp: csect_def fp1_def p_def)
  have base: "fil_base img fs chain fp1" "clust fp1 = chain ! (p div cluster_bytes fs)" "fptr fp1 = fptr fp"
      "fsize fp1 = fsize fp"
    using fp by (simp_all add: fil_ok_def fil_base_def fp1_def)
  have cl: "clust2sect fs1 (clust fp1) \<noteq> 0" "clust2sect fs1 (clust fp1) + ucast csect = chain_sectors fs chain ! (p div 512)"
    using current_sector [OF vol(2,3) p] sector_offset [OF vol(2), of "fptr fp"] same_vol_file(6) [OF loc(4)] base(2)
    by (simp_all add: csect_def p_def)
  have cs: "csize fs1 = csize fs" "drv fs1 = 0" using same_vol_sel [OF loc(4)] vol(1) by (simp_all add: win_ok_def)
  show ?thesis
  proof (cases "btr div 512 = 0")
    case cc: True
    show ?thesis by (rule round_buffered [OF vol(1-3) n csect_def m512 p_def p loc base cl cs cc])
  next
    case cc: False
    show ?thesis by (rule round_direct [OF vol(1-3) n csect_def m512 p_def p loc base cl cs cc])
  qed
qed


lemma read_loop_data:
  fixes buff :: "u8 list"
  assumes "win_ok img fs" "vol_ok exists fs" "chain_ok img fs chain" "inv s" "fil_ok img fs chain fp"
    and "unat (fptr fp) + unat btr \<le> unat (fsize fp)" "rb + unat btr \<le> length buff"
  shows "\<exists>fp' fs' s'. f_read_loop dk (buff, rb, br, btr, fp, fs, s) = Some (FR_OK, take rb buff @
       take (unat btr) (drop (unat (fptr fp)) (chain_data img fs chain)) @ drop (rb + unat btr) buff,
       br + btr, fp', fs', s') \<and>
     fil_ok img fs chain fp' \<and> fptr fp' = fptr fp + btr \<and> fsize fp' = fsize fp \<and> inv s' \<and>
     win_ok img fs' \<and> same_vol fs fs'"
  using assms
proof (induction "unat btr" arbitrary: buff rb br btr fp fs s rule: less_induct)
  case less
  note vol = less.prems(1-4)
  show ?case
  proof (cases "btr = 0")
    case True
    then show ?thesis using less.prems by (subst f_read_loop.simps) simp
  next
    case False
    obtain rcnt fp1 fs1 s1 where r: "read_round dk buff rb btr (fp, fs, s) = Some (FR_OK, rcnt, take rb buff @
         take (unat rcnt) (drop (unat (fptr fp)) (chain_data img fs chain)) @ drop (rb + unat rcnt) buff, fp1, fs1, s1)"
        "rcnt \<noteq> 0" "rcnt \<le> btr" "fil_ok img fs chain (fp1\<lparr>fptr := fptr fp + rcnt\<rparr>)" "fptr fp1 = fptr fp"
        "fsize fp1 = fsize fp" "inv s1" "win_ok img fs1" "same_vol fs fs1"
      using round [OF vol less.prems(5) False less.prems(6,7)] by blast
    define buff1 where "buff1 = take rb buff @
         take (unat rcnt) (drop (unat (fptr fp)) (chain_data img fs chain)) @ drop (rb + unat rcnt) buff"
    define fp2 where "fp2 = fp1\<lparr>fptr := fptr fp1 + rcnt\<rparr>"
    have rem: "unat (btr - rcnt) = unat btr - unat rcnt" "unat rcnt \<le> unat btr" "0 < unat rcnt"
      using r(2,3) by (simp_all add: unat_sub word_le_nat_alt unat_gt_0)
    have adv: "unat (fptr fp2) = unat (fptr fp) + unat rcnt"
      using r(5) rem(2) less.prems(6) unat_u32_lt [of "fsize fp"] by (simp add: fp2_def unat_word_ariths)
    have len: "length (chain_data img fs chain) = cluster_bytes fs * length chain"
      using chain_slice(2) [OF vol(2,3)] .
    have got: "length (take (unat rcnt) (drop (unat (fptr fp)) (chain_data img fs chain))) = unat rcnt"
    proof -
      have "unat (fsize fp) \<le> cluster_bytes fs * length chain"
        using less.prems(5) by (simp add: fil_ok_def fil_base_def)
      then show ?thesis using less.prems(6) rem(2) by (simp add: len)
    qed
    have l1: "length buff1 = length buff" "take (rb + unat rcnt) buff1 = take rb buff @
         take (unat rcnt) (drop (unat (fptr fp)) (chain_data img fs chain))"
        "drop (rb + unat btr) buff1 = drop (rb + unat btr) buff"
      using got less.prems(7) rem(2) by (simp_all add: buff1_def add.commute)
    have step: "f_read_loop dk (buff, rb, br, btr, fp, fs, s) =
        f_read_loop dk (buff1, rb + unat rcnt, br + rcnt, btr - rcnt, fp2, fs1, s1)"
      using False r(1) by (subst f_read_loop.simps) (simp add: buff1_def fp2_def)
    note sv = same_vol_file [OF r(9)]
    have "\<exists>fp' fs' s'. f_read_loop dk (buff1, rb + unat rcnt, br + rcnt, btr - rcnt, fp2, fs1, s1) = Some (FR_OK,
         take (rb + unat rcnt) buff1 @ take (unat (btr - rcnt)) (drop (unat (fptr fp2)) (chain_data img fs1 chain)) @
         drop (rb + unat rcnt + unat (btr - rcnt)) buff1, br + rcnt + (btr - rcnt), fp', fs', s') \<and>
       fil_ok img fs1 chain fp' \<and> fptr fp' = fptr fp2 + (btr - rcnt) \<and> fsize fp' = fsize fp2 \<and> inv s' \<and>
       win_ok img fs' \<and> same_vol fs1 fs'"
      using less.hyps [of "btr - rcnt" fs1 s1 fp2 "rb + unat rcnt" buff1 "br + rcnt"]
        rem vol r(4-8) less.prems(6,7) adv l1(1) by (simp add: sv fp2_def)
    then obtain fp' fs' s' where "f_read_loop dk (buff, rb, br, btr, fp, fs, s) = Some (FR_OK,
         take (rb + unat rcnt) buff1 @ take (unat (btr - rcnt)) (drop (unat (fptr fp2)) (chain_data img fs chain)) @
         drop (rb + unat rcnt + unat (btr - rcnt)) buff1, br + btr, fp', fs', s')"
       "fil_ok img fs chain fp'" "fptr fp' = fptr fp + btr" "fsize fp' = fsize fp" "inv s'"
       "win_ok img fs'" "same_vol fs fs'"
      using step r(5,6) same_vol_trans [OF r(9)] by (auto simp: sv fp2_def)
    moreover have "take (unat rcnt) (drop (unat (fptr fp)) (chain_data img fs chain)) @
        take (unat btr - unat rcnt) (drop (unat (fptr fp) + unat rcnt) (chain_data img fs chain)) =
        take (unat btr) (drop (unat (fptr fp)) (chain_data img fs chain))" (is "?A @ ?B = ?C")
      using take_add [of "unat rcnt" "unat btr - unat rcnt" "drop (unat (fptr fp)) (chain_data img fs chain)"] rem(2)
      by (simp add: add.commute)
    then have "?A @ ?B @ zs = ?C @ zs" for zs by (simp flip: append_assoc)
    ultimately show ?thesis using l1 rem adv by simp
  qed
qed

end

section \<open>Seeking\<close>

lemma cluster_size_word:
  assumes "vol_ok exists fs"
  shows "unat ((ucast (csize fs) :: u32) * 512) = cluster_bytes fs"
    and "unat (w AND NOT ((ucast (csize fs) :: u32) * 512 - 1)) = unat w div cluster_bytes fs * cluster_bytes fs"
proof -
  obtain k where k: "k < 8" "csize fs = 2 ^ k" using assms by (auto simp: vol_ok_def)
  then have "k \<in> {0, 1, 2, 3, 4, 5, 6, 7}" by auto
  then have c: "(ucast (csize fs) :: u32) * 512 = 2 ^ (k + 9)" "unat (2 ^ (k + 9) :: u32) = 2 ^ (k + 9)"
      "cluster_bytes fs = 2 ^ (k + 9)"
    using k(2) by (auto simp: cluster_bytes_def)
  then show "unat ((ucast (csize fs) :: u32) * 512) = cluster_bytes fs" by simp
  have "w AND NOT (2 ^ (k + 9) - 1) = push_bit (k + 9) (drop_bit (k + 9) w)"
    by (rule bit_word_eqI) (auto simp: bit_simps simp flip: mask_eq_exp_minus_1)
  also have "\<dots> = w div 2 ^ (k + 9) * 2 ^ (k + 9)"
    by (simp add: push_bit_eq_mult drop_bit_eq_div)
  also have "unat \<dots> = unat w div 2 ^ (k + 9) * 2 ^ (k + 9)"
  proof -
    have "unat w div 2 ^ (k + 9) * 2 ^ (k + 9) \<le> unat w" by (rule div_times_less_eq_dividend)
    then have "unat w div 2 ^ (k + 9) * 2 ^ (k + 9) < 2 ^ 32" using unat_u32_lt [of w] by linarith
    moreover have "unat (w div 2 ^ (k + 9)) = unat w div 2 ^ (k + 9)" using c(2) by (simp only: unat_div)
    ultimately show ?thesis using c(2) by (simp only: unat_word_ariths(2) word_size) simp
  qed
  finally show "unat (w AND NOT ((ucast (csize fs) :: u32) * 512 - 1)) = unat w div cluster_bytes fs * cluster_bytes fs"
    using c by simp
qed

context disk_image
begin

lemma seek_sector:
  assumes "vol_ok exists fs" "chain_ok img fs chain" "T = q * cluster_bytes fs + unat ofs"
    and "unat ofs \<le> cluster_bytes fs" "T \<le> cluster_bytes fs * length chain" "T mod 512 \<noteq> 0"
  shows "clust2sect fs (chain ! q) \<noteq> 0 \<and> clust2sect fs (chain ! q) + ofs div 512 = chain_sectors fs chain ! (T div 512)"
proof -
  define cs where "cs = unat (csize fs)"
  have cs: "0 < cs" using csize_pos [OF assms(1)] by (simp add: cs_def)
  have T: "T < cluster_bytes fs * length chain"
    using assms(5,6) by (cases "T = cluster_bytes fs * length chain") (auto simp: cluster_bytes_def)
  have "unat ofs \<noteq> cluster_bytes fs" using assms(3,6) by (auto simp: cluster_bytes_def)
  then have o: "unat ofs div 512 < cs"
    using assms(4) by (simp add: cluster_bytes_def cs_def less_mult_imp_div_less mult.commute)
  have j: "T div 512 = q * cs + unat ofs div 512"
  proof -
    have "T = unat ofs + (q * cs) * 512" using assms(3) by (simp add: cluster_bytes_def cs_def)
    then show ?thesis by simp
  qed
  have "T div 512 < cs * length chain"
    using T by (simp add: cluster_bytes_def cs_def less_mult_imp_div_less mult.commute mult.left_commute)
  moreover have "T div 512 div cs = q" "T div 512 mod cs = unat ofs div 512" using j o by simp_all
  moreover have "q < length chain"
    using calculation(1,2) by (metis less_mult_imp_div_less mult.commute)
  moreover have "unat ofs div 512 = unat (ofs div 512)" by (simp add: unat_div)
  then have "of_nat (unat ofs div 512) = ofs div 512" by simp
  ultimately show ?thesis
    using chain_sectors_nth [of "T div 512" fs chain] assms(1,2)
    by (simp add: cs_def vol_ok_def chain_ok_def)
qed

text \<open>
  The cluster following loop: from cluster \<open>q\<close> of the chain, with the file pointer at its start, to
  the cluster of the byte before the target \<open>q * B + ofs\<close>.
\<close>

lemma seek_chain:
  assumes "win_ok img fs" "vol_ok exists fs" "chain_ok img fs chain" "inv s"
    and "unat bcs = cluster_bytes fs" "unat (fptr fp) = q * cluster_bytes fs" "clust fp = chain ! q" "ofs \<noteq> 0"
    and "q * cluster_bytes fs + unat ofs \<le> cluster_bytes fs * length chain"
    and "q * cluster_bytes fs + unat ofs < 2 ^ 32"
  shows "\<exists>q' ofs' p fs' s'. seek_loop dk bcs (chain ! q, ofs, fp, fs, s) =
       Some (FR_OK, chain ! q', ofs', fp\<lparr>clust := chain ! q', fptr := p\<rparr>, fs', s') \<and>
     unat p = q' * cluster_bytes fs \<and> unat p + unat ofs' = q * cluster_bytes fs + unat ofs \<and> ofs' \<noteq> 0 \<and>
     unat ofs' \<le> cluster_bytes fs \<and> inv s' \<and> win_ok img fs' \<and> same_vol fs fs'"
  using assms
proof (induction "unat ofs" arbitrary: ofs q fp fs s rule: less_induct)
  case less
  define B where "B = cluster_bytes fs"
  show ?case
  proof (cases "bcs < ofs")
    case False
    then have "unat ofs \<le> B" using less.prems(5) by (simp add: B_def word_less_nat_alt)
    moreover have "fp\<lparr>clust := chain ! q, fptr := fptr fp\<rparr> = fp" using less.prems(7) by (cases fp) simp
    ultimately show ?thesis
      using False less.prems
      by (subst seek_loop.simps) (auto simp: B_def intro!: exI [of _ q] exI [of _ "fptr fp"])
  next
    case True
    have B: "0 < B" using csize_pos [OF less.prems(2)] by (simp add: B_def cluster_bytes_def)
    have gt: "B < unat ofs" using True less.prems(5) by (simp add: B_def word_less_nat_alt)
    then have q: "Suc q < length chain"
    proof -
      have "B * Suc q < B * length chain" using gt less.prems(9) by (simp add: B_def mult.commute)
      then show ?thesis using nat_mult_less_cancel_disj by blast
    qed
    have range: "2 \<le> chain ! k \<and> chain ! k < n_fatent fs" if "k < length chain" for k
      using less.prems(3) that by (simp add: chain_ok_def)
    have "fat_ok exists fs" using less.prems(2) by (simp add: vol_ok_def)
    with get_fat_entry [OF less.prems(1) _ less.prems(4), of "chain ! q"] range [of q] q obtain r fs1 s1 where
      g: "get_fat dk (chain ! q) (fs, s) = Some (r, fs1, s1)" "unat r = fat_entry img fs (unat (chain ! q))"
        "inv s1" "win_ok img fs1" "same_vol fs fs1" by auto
    have "fat_entry img fs (unat (chain ! q)) = unat (chain ! Suc q)"
      using less.prems(3) q by (simp add: chain_ok_def)
    then have r: "r = chain ! Suc q" using g(2) by (simp add: word_unat_eq_iff)
    have nr: "n_fatent fs1 = n_fatent fs" using same_vol_sel [OF g(5)] by simp
    define fp1 where "fp1 = fp\<lparr>clust := chain ! Suc q, fptr := fptr fp + bcs\<rparr>"
    have le1: "\<not> (chain ! Suc q \<le> 1 \<or> n_fatent fs \<le> chain ! Suc q)"
      using range [OF q] by (simp add: word_le_nat_alt word_less_nat_alt)
    have step: "seek_loop dk bcs (chain ! q, ofs, fp, fs, s) =
        seek_loop dk bcs (chain ! Suc q, ofs - bcs, fp1, fs1, s1)"
      using True g(1) r range [OF q] less_not_max [of "chain ! Suc q" "n_fatent fs"] nr le1
      by (subst seek_loop.simps) (simp add: fp1_def)
    note sv = same_vol_file [OF g(5)]
    have sub: "unat (ofs - bcs) = unat ofs - B" using True less.prems(5) by (simp add: unat_sub B_def)
    have pos1: "unat (fptr fp1) = Suc q * B"
      using less.prems(5,6,10) gt by (simp add: fp1_def unat_word_ariths B_def)
    have "ofs - bcs \<noteq> 0" using True by auto
    then have "\<exists>q' ofs' p fs' s'. seek_loop dk bcs (chain ! Suc q, ofs - bcs, fp1, fs1, s1) =
         Some (FR_OK, chain ! q', ofs', fp1\<lparr>clust := chain ! q', fptr := p\<rparr>, fs', s') \<and>
       unat p = q' * B \<and> unat p + unat ofs' = Suc q * B + unat (ofs - bcs) \<and> ofs' \<noteq> 0 \<and>
       unat ofs' \<le> B \<and> inv s' \<and> win_ok img fs' \<and> same_vol fs1 fs'"
      using less.hyps [of "ofs - bcs" fs1 s1 fp1 "Suc q"] sub gt B g(3,4) less.prems(2,3,5,9,10) pos1
      by (simp add: sv B_def fp1_def)
    then show ?thesis
      using step sub gt same_vol_trans [OF g(5)] by (fastforce simp: fp1_def B_def)
  qed
qed


lemma seek_start:
  assumes vol: "win_ok img fs" "vol_ok exists fs" "chain_ok img fs chain" "inv s"
    and fp: "fil_ok img fs chain fp" "ofs \<noteq> 0" "ofs \<le> fsize fp"
  shows "\<exists>fs' s'. seek_cluster dk (fptr fp) ofs (fp\<lparr>fptr := 0\<rparr>, fs, s) =
       Some (FR_OK, if unat ofs mod 512 \<noteq> 0 then chain_sectors fs chain ! (unat ofs div 512) else 0,
             fp\<lparr>clust := chain ! ((unat ofs - 1) div cluster_bytes fs), fptr := ofs\<rparr>, fs', s') \<and>
     inv s' \<and> win_ok img fs' \<and> same_vol fs fs'"
proof -
  define B where "B = cluster_bytes fs"
  define bcs where "bcs = (ucast (csize fs) :: u32) * 512"
  define T where "T = unat ofs"
  have B: "0 < B" using csize_pos [OF vol(2)] by (simp add: B_def cluster_bytes_def)
  have bcs: "unat bcs = B" "bcs \<noteq> 0" using cluster_size_word(1) [OF vol(2)] B by (auto simp: bcs_def B_def)
  have T: "0 < T" "T \<le> B * length chain" "T < 2 ^ 32"
    using fp unat_u32_lt [of ofs] by (auto simp: T_def B_def fil_ok_def fil_base_def word_le_nat_alt unat_gt_0)
  then have ne: "chain \<noteq> []" by auto
  define ahead where "ahead \<longleftrightarrow> 0 < fptr fp \<and> (fptr fp - 1) div bcs \<le> (ofs - 1) div bcs"
  define q where "q = (if ahead then (unat (fptr fp) - 1) div B else 0)"
  define p where "p = (if ahead then (fptr fp - 1) AND NOT (bcs - 1) else 0)"
  have p: "unat p = q * B"
    using cluster_size_word(2) [OF vol(2), of "fptr fp - 1"]
    by (auto simp: p_def q_def ahead_def bcs_def B_def unat_pred_pos unat_gt_0)
  have qT: "q * B < T"
  proof (cases ahead)
    case True
    then have "q \<le> (T - 1) div B"
      using bcs T(1) by (auto simp: ahead_def q_def word_le_nat_alt unat_div unat_pred_pos unat_gt_0 T_def)
    then have "q * B \<le> (T - 1) div B * B" by simp
    also have "\<dots> \<le> T - 1" by (rule div_times_less_eq_dividend)
    finally show ?thesis using T(1) by linarith
  qed (use T(1) in \<open>simp add: q_def\<close>)
  define fp1 where "fp1 = fp\<lparr>clust := chain ! q, fptr := p\<rparr>"
  have "clust fp = chain ! q" if ahead
    using that fp(1) by (auto simp: ahead_def q_def fil_ok_def B_def)
  moreover have "sclust fp = chain ! 0" using fp(1) ne by (simp add: fil_ok_def fil_base_def hd_conv_nth)
  ultimately have start: "ahead \<Longrightarrow> clust fp = chain ! q \<and> fp\<lparr>fptr := p\<rparr> = fp1"
      "\<not> ahead \<Longrightarrow> sclust fp = chain ! q \<and> p = 0 \<and> fp\<lparr>fptr := 0, clust := chain ! q\<rparr> = fp1"
    by (cases fp; auto simp: fp1_def p_def q_def)+
  have "p \<le> ofs" using p qT by (simp add: word_le_nat_alt T_def)
  then have sub: "unat (ofs - p) = T - q * B" using p by (simp add: unat_sub T_def)
  then have "ofs - p \<noteq> 0" using qT by auto
  with seek_chain [OF vol, of bcs fp1 q "ofs - p"] bcs(1) p qT sub T
  obtain q' ofs' p' fs' s' where lp: "seek_loop dk bcs (chain ! q, ofs - p, fp1, fs, s) =
       Some (FR_OK, chain ! q', ofs', fp1\<lparr>clust := chain ! q', fptr := p'\<rparr>, fs', s')"
     "unat p' = q' * B" "unat p' + unat ofs' = T" "ofs' \<noteq> 0" "unat ofs' \<le> B" "inv s'" "win_ok img fs'" "same_vol fs fs'"
    by (auto simp: fp1_def B_def)
  have ofs': "0 < unat ofs'" using lp(4) by (simp add: unat_gt_0)
  have q': "q' = (T - 1) div B"
  proof -
    have "T - 1 = q' * B + (unat ofs' - 1)" using lp(2,3) ofs' by linarith
    moreover have "unat ofs' - 1 < B" using lp(5) ofs' by linarith
    ultimately show ?thesis by simp
  qed
  have fin: "p' + ofs' = ofs"
    using lp(3) T(3) by (simp add: word_unat_eq_iff unat_word_ariths T_def)
  have "T = unat ofs' + (q' * unat (csize fs)) * 512" using lp(2,3) by (simp add: B_def cluster_bytes_def)
  then have m: "unat ofs' mod 512 = T mod 512" by simp
  have mw: "ofs' mod 512 \<noteq> 0 \<longleftrightarrow> T mod 512 \<noteq> 0"
    using m by (auto simp: word_unat_eq_iff unat_mod)
  have sect: "clust2sect fs (chain ! q') \<noteq> 0 \<and> clust2sect fs (chain ! q') + ofs' div 512 = chain_sectors fs chain ! (T div 512)"
    if "T mod 512 \<noteq> 0"
    using that seek_sector [OF vol(2,3), of T q' ofs'] lp(2,3,5) T(2) m by (simp add: B_def)
  have fields: "fp1\<lparr>clust := chain ! q', fptr := p' + ofs'\<rparr> = fp\<lparr>clust := chain ! ((T - 1) div B), fptr := ofs\<rparr>"
    by (cases fp) (simp add: fp1_def q' fin)
  have "chain ! q \<noteq> 0"
  proof -
    have "q < length chain" using qT T(2) B by (metis mult.commute mult_less_cancel2 order_less_le_trans)
    then have "2 \<le> chain ! q" using vol(3) by (simp add: chain_ok_def)
    then show ?thesis by (auto simp: word_le_nat_alt)
  qed
  moreover have "clust fp1 = chain ! q" "fptr fp1 = p" by (simp_all add: fp1_def)
  ultimately have "seek_cluster dk (fptr fp) ofs (fp\<lparr>fptr := 0\<rparr>, fs, s) =
      do { (r, clst, ofs, fp, fs, s) \<leftarrow> seek_loop dk bcs (chain ! q, ofs - p, fp1, fs, s);
           if r \<noteq> FR_OK then Some (r, 0, fp, fs, s)
           else
             (let fp = fp\<lparr>fptr := fptr fp + ofs\<rparr>
              in if ofs mod 512 \<noteq> 0 then
                   (let nsect = clust2sect fs clst
                    in if nsect = 0 then Some (FR_INT_ERR, 0, fp, fs, s)
                       else Some (FR_OK, nsect + ofs div 512, fp, fs, s))
                 else Some (FR_OK, 0, fp, fs, s)) }"
    using bcs(2) start p_def unfolding seek_cluster_def Let_def prod.case fst_conv snd_conv bcs_def [symmetric]
    by (cases ahead) (simp_all add: ahead_def)
  then have "seek_cluster dk (fptr fp) ofs (fp\<lparr>fptr := 0\<rparr>, fs, s) =
      Some (FR_OK, if T mod 512 \<noteq> 0 then chain_sectors fs chain ! (T div 512) else 0,
            fp\<lparr>clust := chain ! ((T - 1) div B), fptr := ofs\<rparr>, fs', s')"
    using lp(1) sect mw fields same_vol_file(6) [OF lp(8)] by (cases "T mod 512 = 0") simp_all
  then show ?thesis using lp(6-8) by (simp add: T_def B_def)
qed

end

text \<open>The whole state of an open file, and its contents.\<close>

definition file_ok :: "(u32 \<Rightarrow> bool) \<Rightarrow> ('s \<Rightarrow> bool) \<Rightarrow> (u32 \<Rightarrow> u8 list) \<Rightarrow> u32 list \<Rightarrow> fil \<times> volume \<times> 's \<Rightarrow> bool" where
  "file_ok exists good img chain st \<longleftrightarrow>
     (let (fp, v, s) = st
      in win_ok img (vol_fs v) \<and> vol_ok exists (vol_fs v) \<and> chain_ok img (vol_fs v) chain \<and> good s \<and>
         fil_ok img (vol_fs v) chain fp)"

definition file_data :: "(u32 \<Rightarrow> u8 list) \<Rightarrow> u32 list \<Rightarrow> fil \<times> volume \<times> 's \<Rightarrow> u8 list" where
  "file_data img chain st =
     (let (fp, v, s) = st in take (unat (fsize fp)) (chain_data img (vol_fs v) chain))"

lemma file_ok_valid:
  assumes "disk_image dk img exists good" "file_ok exists good img chain (fp, v, s)"
  shows "validate dk (fil_fs fp) (fil_id fp) (vol_fs v) = FR_OK"
    "flag fp AND FA__ERROR = 0" "flag fp AND FA_READ \<noteq> 0" "fptr fp \<le> fsize fp"
proof -
  have "fs_type (vol_fs v) \<noteq> 0" "drv (vol_fs v) = 0" "fil_fs fp" "fil_id fp = fs_id (vol_fs v)"
    using assms(2) by (auto simp: file_ok_def vol_ok_def fat_ok_def win_ok_def fil_ok_def fil_base_def ff_consts)
  then show "validate dk (fil_fs fp) (fil_id fp) (vol_fs v) = FR_OK"
    using disk_image.status [OF assms(1)] by (simp add: validate_def)
  show "flag fp AND FA__ERROR = 0" "flag fp AND FA_READ \<noteq> 0" "fptr fp \<le> fsize fp"
    using assms(2) by (auto simp: file_ok_def fil_ok_def fil_base_def)
qed

lemma file_ok_step:
  assumes "file_ok exists good img chain (fp, v, s)" "same_vol (vol_fs v) fs'" "win_ok img fs'" "good s'"
    "fil_ok img (vol_fs v) chain fp'" "fsize fp' = fsize fp"
  shows "file_ok exists good img chain (fp', v\<lparr>vol_fs := fs'\<rparr>, s')"
    and "file_data img chain (fp', v\<lparr>vol_fs := fs'\<rparr>, s') = file_data img chain (fp, v, s)"
  using assms same_vol_file [OF assms(2)] by (simp_all add: file_ok_def file_data_def)

context disk_image
begin

lemma read_file:
  assumes ok: "file_ok exists inv img chain (fp, v, s)" and len: "unat btr \<le> length buff"
  defines "n \<equiv> min (unat btr) (unat (fsize fp) - unat (fptr fp))"
  shows "\<exists>fp' v' s'. f_read dk buff btr (fp, v, s) = Some (FR_OK,
       take n (drop (unat (fptr fp)) (file_data img chain (fp, v, s))) @ drop n buff, of_nat n, fp', v', s') \<and>
     file_ok exists inv img chain (fp', v', s') \<and> unat (fptr fp') = unat (fptr fp) + n \<and>
     fsize fp' = fsize fp \<and> file_data img chain (fp', v', s') = file_data img chain (fp, v, s) \<and>
     FatFs v' = FatFs v \<and> Fsid v' = Fsid v"
proof -
  note va = file_ok_valid [OF disk_image_axioms ok]
  define m where "m = (if fsize fp - fptr fp < btr then fsize fp - fptr fp else btr)"
  have rem: "unat (fsize fp - fptr fp) = unat (fsize fp) - unat (fptr fp)" using va(4) by (simp add: unat_sub)
  then have m: "unat m = n" by (auto simp: m_def n_def word_less_nat_alt min_def)
  have le: "unat (fptr fp) + unat m \<le> unat (fsize fp)" "0 + unat m \<le> length buff"
    using m va(4) len by (auto simp: n_def word_le_nat_alt)
  have vol: "win_ok img (vol_fs v)" "vol_ok exists (vol_fs v)" "chain_ok img (vol_fs v) chain" "inv s"
      "fil_ok img (vol_fs v) chain fp"
    using ok by (auto simp: file_ok_def)
  obtain fp' fs' s' where lp: "f_read_loop dk (buff, 0, 0, m, fp, vol_fs v, s) = Some (FR_OK,
       take n (drop (unat (fptr fp)) (chain_data img (vol_fs v) chain)) @ drop n buff, m, fp', fs', s')"
     "fil_ok img (vol_fs v) chain fp'" "fptr fp' = fptr fp + m" "fsize fp' = fsize fp" "inv s'"
     "win_ok img fs'" "same_vol (vol_fs v) fs'"
    using read_loop_data [OF vol le, of 0] m by auto
  have "f_read dk buff btr (fp, v, s) = Some (FR_OK,
       take n (drop (unat (fptr fp)) (file_data img chain (fp, v, s))) @ drop n buff, of_nat n, fp',
       v\<lparr>vol_fs := fs'\<rparr>, s')"
  proof -
    have "take n (drop (unat (fptr fp)) (file_data img chain (fp, v, s))) =
        take n (drop (unat (fptr fp)) (chain_data img (vol_fs v) chain))"
      using le(1) m by (simp add: file_data_def drop_take min_def)
    moreover have "of_nat n = m" using m by (simp flip: m)
    ultimately show ?thesis using va(1-3) lp(1) by (simp add: f_read_def Let_def flip: m_def)
  qed
  moreover have "unat (fptr fp') = unat (fptr fp) + n"
    using lp(3) m le(1) unat_u32_lt [of "fsize fp"] by (simp add: unat_word_ariths)
  ultimately show ?thesis
    using lp(4) file_ok_step [OF ok lp(7,6,5,2,4)] by simp
qed


lemma seek_file:
  assumes ok: "file_ok exists inv img chain (fp, v, s)"
  shows "\<exists>fp' v' s'. f_lseek dk ofs (fp, v, s) = Some (FR_OK, fp', v', s') \<and>
     file_ok exists inv img chain (fp', v', s') \<and> fptr fp' = (if fsize fp < ofs then fsize fp else ofs) \<and>
     fsize fp' = fsize fp \<and> file_data img chain (fp', v', s') = file_data img chain (fp, v, s) \<and>
     FatFs v' = FatFs v \<and> Fsid v' = Fsid v"
proof -
  define fs where "fs = vol_fs v"
  define t where "t = (if fsize fp < ofs then fsize fp else ofs)"
  note va = file_ok_valid [OF disk_image_axioms ok]
  have vol: "win_ok img fs" "vol_ok exists fs" "chain_ok img fs chain" "inv s" "fil_ok img fs chain fp"
    using ok by (auto simp: file_ok_def fs_def)
  have t: "t \<le> fsize fp" by (auto simp: t_def not_less)
  define fp1 where "fp1 = (if t = 0 then fp\<lparr>fptr := 0\<rparr> else fp\<lparr>clust := chain ! ((unat t - 1) div cluster_bytes fs), fptr := t\<rparr>)"
  define nsect where "nsect = (if unat t mod 512 \<noteq> 0 then chain_sectors fs chain ! (unat t div 512) else 0)"
  obtain fs' s' where sk: "(if t \<noteq> 0 then seek_cluster dk (fptr fp) t (fp\<lparr>fptr := 0\<rparr>, fs, s)
       else Some (FR_OK, 0, fp\<lparr>fptr := 0\<rparr>, fs, s)) = Some (FR_OK, nsect, fp1, fs', s')"
      "inv s'" "win_ok img fs'" "same_vol fs fs'"
  proof (cases "t = 0")
    case True
    then show ?thesis using that [of fs s] vol by (simp add: fp1_def nsect_def)
  next
    case False
    then show ?thesis using that seek_start [OF vol False t] by (auto simp: fp1_def nsect_def)
  qed
  have base: "fil_base img fs chain fp1" "fptr fp1 = t" "fsize fp1 = fsize fp"
      "t \<noteq> 0 \<Longrightarrow> clust fp1 = chain ! ((unat t - 1) div cluster_bytes fs)"
    using vol(5) t by (auto simp: fp1_def fil_ok_def fil_base_def)
  have head: "f_lseek dk ofs (fp, v, s) =
      (if t mod 512 \<noteq> 0 \<and> nsect \<noteq> dsect fp1 then
         do { (dr, data, s) \<leftarrow> dk_read dk (drv fs') (fbuf fp1) nsect 1 s';
              if dr \<noteq> RES_OK then (let (r, fp) = f_abort FR_DISK_ERR (fp1\<lparr>fbuf := data\<rparr>) in Some (r, fp, v\<lparr>vol_fs := fs'\<rparr>, s))
              else Some (FR_OK, fp1\<lparr>fbuf := data, dsect := nsect\<rparr>, v\<lparr>vol_fs := fs'\<rparr>, s) }
       else Some (FR_OK, fp1, v\<lparr>vol_fs := fs'\<rparr>, s'))"
    using va(1,2) sk(1) base(2)
    by (simp add: f_lseek_def Let_def case_prod_beta flip: t_def fs_def cong: if_cong)
  have m: "t mod 512 \<noteq> 0 \<longleftrightarrow> unat t mod 512 \<noteq> 0" by (auto simp: word_unat_eq_iff unat_mod)
  have "\<exists>fp' s''. f_lseek dk ofs (fp, v, s) = Some (FR_OK, fp', v\<lparr>vol_fs := fs'\<rparr>, s'') \<and> inv s'' \<and>
      fil_ok img fs chain fp' \<and> fptr fp' = t \<and> fsize fp' = fsize fp"
  proof (cases "t mod 512 \<noteq> 0 \<and> nsect \<noteq> dsect fp1")
    case True
    have ns: "nsect = chain_sectors fs chain ! (unat t div 512)" using True m by (simp add: nsect_def)
    have "unat t < cluster_bytes fs * length chain"
    proof -
      have "unat t \<le> cluster_bytes fs * length chain"
        using vol(5) t by (auto simp: fil_ok_def fil_base_def word_le_nat_alt)
      moreover have "unat t \<noteq> cluster_bytes fs * length chain" using True m by (auto simp: cluster_bytes_def)
      ultimately show ?thesis by simp
    qed
    then have "nsect \<in> set (chain_sectors fs chain)"
      by (auto simp: ns chain_sectors_length cluster_bytes_def less_mult_imp_div_less mult.commute mult.left_commute)
    then have e: "exists nsect" "length (img nsect) = 512" using sectors_exist [OF vol(2,3)] by blast+
    have "length (fbuf fp1) = 512" using base(1) by (simp add: fil_base_def)
    then obtain s'' where "dk_read dk 0 (fbuf fp1) nsect 1 s' = Some (RES_OK, img nsect, s'')" "inv s''"
      using read_one [OF sk(2) _ e(1)] by blast
    moreover have "drv fs' = 0" using sk(3) by (simp add: win_ok_def)
    moreover have "fil_ok img fs chain (fp1\<lparr>fbuf := img nsect, dsect := nsect\<rparr>)"
      using base e(2) ns by (auto simp: fil_ok_def fil_base_def)
    ultimately show ?thesis using True head base by simp
  next
    case False
    then have "fil_ok img fs chain fp1" using base m by (auto simp: fil_ok_def nsect_def)
    then show ?thesis using False head sk(2) base by auto
  qed
  then show ?thesis
    using file_ok_step [OF ok sk(4) [unfolded fs_def] sk(3)] by (fastforce simp: fs_def t_def)
qed

end

end
