(* ===== verification/Fat_Sd.thy ===== *)
theory Fat_Sd
  imports Fat_File
begin

unbundle bit_operations_syntax

text \<open>
  The file system on the SD card: the disk functions of \<^verbatim>\<open>diskio.c\<close> on a card that answers as
  documented satisfy what FatFs needs of a disk, and the properties of file access.
\<close>

section \<open>The card as a disk\<close>

locale sd_system = spi_core io base depth slave vw lag
  for io :: "'b mmio" and base :: u32 and depth :: nat and slave :: "'d slave"
    and vw :: "'b \<Rightarrow> 'd spi_view" and lag :: "'b \<Rightarrow> nat" +
  fixes img :: "u32 \<Rightarrow> u8 list"
    and exists :: "u32 \<Rightarrow> bool"
    and good :: "'d \<Rightarrow> bool"
  assumes serves: "good d \<Longrightarrow> exists n \<Longrightarrow> \<exists>d'. card_serves slave n d (img n) d' \<and> good d'"
    and img_512: "exists n \<Longrightarrow> length (img n) = 512"

text \<open>Driver and card between two calls.\<close>

definition sd_ready :: "u32 \<Rightarrow> ('b \<Rightarrow> 'd spi_view) \<Rightarrow> ('d \<Rightarrow> bool) \<Rightarrow> 'h mmc \<times> 'b \<Rightarrow> bool" where
  "sd_ready base vw good mb \<longleftrightarrow> sd_ok base (fst mb) (vw (snd mb)) \<and> good (sv_dev (vw (snd mb)))"

sublocale sd_system \<subseteq> disk: disk_image "sd_disk io" img exists "sd_ready base vw good"
proof unfold_locales
  fix mb :: "'e mmc \<times> 'b" and n :: u8 and buf :: "u8 list" and sect :: u32
  assume a: "sd_ready base vw good mb" "512 * unat n \<le> length buf" "\<And>k. k < unat n \<Longrightarrow> exists (sect + of_nat k)"
  have "\<forall>d. good d \<longrightarrow> (\<forall>k < unat n. \<exists>d'. card_serves slave (sect + of_nat k) d (img (sect + of_nat k)) d' \<and> good d')"
    using a(3) serves by blast
  from disk_read_sectors [of mb, OF _ a(2) _ this] a(1)
  show "\<exists>mb'. dk_read (sd_disk io) 0 buf sect n mb =
      Some (RES_OK, concat (map (\<lambda>k. img (sect + of_nat k)) [0..<unat n]) @ drop (512 * unat n) buf, mb') \<and>
    sd_ready base vw good mb'"
    unfolding sd_ready_def sd_disk_def disk.simps by blast
next
  fix sect assume "exists sect"
  then show "length (img sect) = 512" by (rule img_512)
next
  show "dk_status (sd_disk io) 0 AND STA_NOINIT = 0" by (simp add: sd_disk_def disk_status_def)
qed

text \<open>The simulated card with the sectors of an image, up to the reach of its byte addresses.\<close>

definition card_sectors :: "u32 \<Rightarrow> bool" where
  "card_sectors n \<longleftrightarrow> n < 0x800000"

definition pad_sector :: "u8 list \<Rightarrow> u8 list" where
  "pad_sector xs = take 512 (xs @ replicate 512 0)"

lemma pad_sector_length [simp]: "length (pad_sector xs) = 512"
  by (simp add: pad_sector_def)

interpretation simcard: sd_system "spi_sim_io base (Suc depth) (sim_card_slave (\<lambda>n. pad_sector (cells n)))"
  base "Suc depth" "sim_card_slave (\<lambda>n. pad_sector (cells n))" sc_view "\<lambda>s. length (sc_sched s)"
  "\<lambda>n. pad_sector (cells n)" card_sectors card_idle
  for base depth cells
proof unfold_locales
  fix d n assume a: "card_idle d" "card_sectors n"
  have "unat n < 2 ^ 23" using a(2) by (simp add: card_sectors_def word_less_nat_alt)
  from sim_card_serves [OF a(1) this, of "\<lambda>n. pad_sector (cells n)"] a(1)
  show "\<exists>d'. card_serves (sim_card_slave (\<lambda>n. pad_sector (cells n))) n d (pad_sector (cells n)) d' \<and> card_idle d'"
    by auto
qed simp

section \<open>A small volume\<close>

text \<open>
  A FAT12 volume of 20 sectors with clusters of one sector: boot record, one FAT, a root
  directory of one sector, and a file of 600 bytes in the clusters 2 and 3.
\<close>

definition demo_boot :: "u8 list" where
  "demo_boot =
     replicate 11 0 @ [0x00, 0x02, 1, 1, 0, 1, 16, 0, 20, 0, 0xF8, 1, 0] @ replicate 30 0 @
     [0x46, 0x41, 0x54] @ replicate 453 0 @ [0x55, 0xAA]"

definition demo_entry :: "u8 list" where
  "demo_entry =
     [0x48, 0x45, 0x4C, 0x4C, 0x4F, 0x20, 0x20, 0x20, 0x54, 0x58, 0x54, 0x20] @ replicate 14 0 @
     [2, 0, 0x58, 0x02, 0, 0]"

definition demo_cells :: "u32 \<Rightarrow> u8 list" where
  "demo_cells n =
     (if n = 0 then demo_boot
      else if n = 1 then [0xF8, 0xFF, 0xFF, 0x03, 0xF0, 0xFF]
      else if n = 2 then demo_entry
      else replicate 512 (ucast n))"

definition demo_fatfs :: fatfs where
  "demo_fatfs =
     \<lparr>fs_type = FS_FAT12, drv = 0, csize = 1, n_fats = 1, wflag = 0, fs_id = 1, n_rootdir = 16,
      n_fatent = 19, fs_fsize = 1, fatbase = 1, dirbase = 2, database = 3, winsect = 0,
      win = demo_boot\<rparr>"

definition demo_volume :: volume where
  "demo_volume = \<lparr>vol_fs = demo_fatfs, FatFs = True, Fsid = 1\<rparr>"

definition demo_fil :: fil where
  "demo_fil =
     \<lparr>fil_fs = True, fil_id = 1, flag = FA_READ, fptr = 0, fsize = 600, sclust = 2, clust = 0, dsect = 0,
      fbuf = replicate 512 0\<rparr>"

abbreviation demo_img_fat :: "u32 \<Rightarrow> u8 list" where
  "demo_img_fat n \<equiv> pad_sector (demo_cells n)"

abbreviation demo_sd :: "(nat mmc \<times> sim_card spi_sim) disk" where
  "demo_sd \<equiv> sd_disk (spi_sim_io 0x81050000 (Suc 15) (sim_card_slave demo_img_fat))"

abbreviation demo_good :: "nat mmc \<times> sim_card spi_sim \<Rightarrow> bool" where
  "demo_good \<equiv> sd_ready 0x81050000 sc_view card_idle"

lemma demo_disk: "disk_image demo_sd demo_img_fat card_sectors demo_good"
  by (rule simcard.disk.disk_image_axioms)

lemma demo_ready: "demo_good (demo_mmc, demo_sim demo_card)"
  using demo_mmc_ok by (simp add: sd_ready_def) (simp add: demo_sim_def demo_card_def card_idle_def)

lemma demo_clust2sect: "2 \<le> c \<Longrightarrow> c < 19 \<Longrightarrow> clust2sect demo_fatfs c = c + 1"
  by (simp add: clust2sect_def demo_fatfs_def) (auto simp: word_le_nat_alt word_less_nat_alt unat_sub)

lemma demo_vol_ok: "vol_ok card_sectors demo_fatfs"
proof -
  have "clust2sect demo_fatfs c \<noteq> 0 \<and> (\<forall>sect \<in> set (cluster_sectors demo_fatfs c). card_sectors sect \<and> sect \<noteq> 0)"
    if "2 \<le> c" "c < 19" for c
  proof -
    have "unat (c + 1) = unat c + 1" using that by (intro unat_Suc_small) (simp add: word_less_nat_alt)
    then have "c + 1 < 0x800000" "c + 1 \<noteq> 0" using that by (auto simp: word_less_nat_alt word_le_nat_alt word_unat_eq_iff)
    then show ?thesis
      using demo_clust2sect [OF that] by (simp add: cluster_sectors_def card_sectors_def) (simp add: demo_fatfs_def)
  qed
  moreover have "fat_ok card_sectors demo_fatfs"
    by (auto simp: fat_ok_def demo_fatfs_def card_sectors_def fat_last_def ff_consts)
  moreover have "\<exists>k < 8. csize demo_fatfs = 2 ^ k" by (intro exI [of _ 0]) (simp add: demo_fatfs_def)
  ultimately show ?thesis by (auto simp: vol_ok_def demo_fatfs_def)
qed

lemma demo_chain: "chain_ok demo_img_fat demo_fatfs [2, 3]"
  by (simp add: chain_ok_def less_Suc_eq) (simp add: demo_fatfs_def fat_entry_def fat_byte_def demo_cells_def pad_sector_def ff_consts)

lemma demo_file_ok: "file_ok card_sectors demo_good demo_img_fat [2, 3] (demo_fil, demo_volume, demo_mmc, demo_sim demo_card)"
  using demo_vol_ok demo_chain demo_ready
  by (simp add: file_ok_def demo_volume_def win_ok_def fil_ok_def fil_base_def demo_fil_def cluster_bytes_def ff_consts)
    (simp add: demo_fatfs_def demo_boot_def)

lemma demo_file_data: "file_data demo_img_fat [2, 3] (demo_fil, demo_volume, s) = replicate 512 3 @ replicate 88 4"
proof -
  have "chain_sectors demo_fatfs [2, 3] = [3, 4]"
    by (simp add: chain_sectors_def cluster_sectors_def demo_clust2sect) (simp add: demo_fatfs_def)
  then show ?thesis
    by (simp add: file_data_def chain_data_def demo_volume_def demo_cells_def pad_sector_def) (simp add: demo_fil_def)
qed

section \<open>Properties\<close>

text \<open>
  Property C2. Reading a file. On any disk that returns its sectors, \<^verbatim>\<open>f_read\<close> of an open file
  ends with \<^verbatim>\<open>FR_OK\<close>, puts the bytes of the file from the file pointer on into the buffer (as
  many as asked for, or up to the end of the file), reports their number, leaves the rest of
  the buffer alone, advances the file pointer and keeps the file readable. This holds for every
  FAT type, cluster size, position and length, across sector and cluster boundaries.
\<close>

theorem f_read_returns_data:
  assumes "disk_image dk img exists good" "file_ok exists good img chain (fp, v, s)" "unat btr \<le> length buff"
  shows "\<exists>fp' v' s'. f_read dk buff btr (fp, v, s) = Some (FR_OK,
       take (min (unat btr) (unat (fsize fp) - unat (fptr fp))) (drop (unat (fptr fp)) (file_data img chain (fp, v, s))) @
         drop (min (unat btr) (unat (fsize fp) - unat (fptr fp))) buff,
       of_nat (min (unat btr) (unat (fsize fp) - unat (fptr fp))), fp', v', s') \<and>
     file_ok exists good img chain (fp', v', s') \<and>
     unat (fptr fp') = unat (fptr fp) + min (unat btr) (unat (fsize fp) - unat (fptr fp)) \<and>
     fsize fp' = fsize fp \<and> file_data img chain (fp', v', s') = file_data img chain (fp, v, s)"
  using disk_image.read_file [OF assms] by blast

text \<open>
  Property C21. Seeking. \<^verbatim>\<open>f_lseek\<close> on an open file ends with \<^verbatim>\<open>FR_OK\<close>, moves the file pointer to
  the offset or to the end of the file, whichever comes first, and keeps the file readable:
  the current cluster and the sector buffer are those of the new position, whether the search
  starts at the current cluster or at the first.
\<close>

theorem f_lseek_positions:
  assumes "disk_image dk img exists good" "file_ok exists good img chain (fp, v, s)"
  shows "\<exists>fp' v' s'. f_lseek dk ofs (fp, v, s) = Some (FR_OK, fp', v', s') \<and>
     file_ok exists good img chain (fp', v', s') \<and> fptr fp' = min ofs (fsize fp) \<and>
     fsize fp' = fsize fp \<and> file_data img chain (fp', v', s') = file_data img chain (fp, v, s)"
proof -
  have "min ofs (fsize fp) = (if fsize fp < ofs then fsize fp else ofs)" by (auto simp: min_def)
  then show ?thesis using disk_image.seek_file [OF assms, of ofs] by auto
qed

text \<open>
  Property C26. The FAT access routine is equivalent to the layout of the FAT specification:
  for every cluster of the volume \<^verbatim>\<open>get_fat\<close> returns the entry that \<open>fat_entry\<close> reads from the
  bytes of the FAT, also for the 12-bit entries that straddle two sectors, whatever sector is
  in the window before.
\<close>

theorem get_fat_equals_layout:
  assumes "disk_image dk img exists good" "win_ok img fs" "fat_ok exists fs" "good s" "2 \<le> clst" "clst < n_fatent fs"
  shows "\<exists>r fs' s'. get_fat dk clst (fs, s) = Some (r, fs', s') \<and> unat r = fat_entry img fs (unat clst) \<and>
     good s' \<and> win_ok img fs' \<and> fs'\<lparr>win := win fs, winsect := winsect fs\<rparr> = fs"
  using disk_image.get_fat_entry [OF assms] unfolding same_vol_def .

section \<open>Witnesses\<close>

theorem f_read_returns_data_witness:
  "\<exists>fp' v' s'. f_read demo_sd (replicate 560 9) 550 (demo_fil, demo_volume, demo_mmc, demo_sim demo_card) =
     Some (FR_OK, replicate 512 3 @ replicate 38 4 @ replicate 10 9, 550, fp', v', s')"
proof -
  have u: "unat (550 :: u32) = 550" "unat (fsize demo_fil) = 600" "unat (fptr demo_fil) = 0"
    by (simp_all add: demo_fil_def)
  have d: "take 550 (replicate 512 3 @ replicate 88 4) @ drop 550 (replicate 560 (9 :: u8)) =
      replicate 512 3 @ replicate 38 4 @ replicate 10 9"
    by (simp add: take_replicate)
  from f_read_returns_data [OF demo_disk demo_file_ok, of 550 "replicate 560 9"]
  show ?thesis unfolding u demo_file_data by (auto simp: d)
qed

theorem f_lseek_positions_witness:
  "\<exists>fp' v' s'. f_lseek demo_sd 520 (demo_fil, demo_volume, demo_mmc, demo_sim demo_card) = Some (FR_OK, fp', v', s') \<and>
     fptr fp' = 520"
proof -
  have "min 520 (fsize demo_fil) = 520" by (simp add: demo_fil_def)
  with f_lseek_positions [OF demo_disk demo_file_ok, of 520] show ?thesis by auto
qed

theorem get_fat_equals_layout_witness:
  "\<exists>fs' s'. get_fat demo_sd 2 (demo_fatfs, demo_mmc, demo_sim demo_card) = Some (3, fs', s')"
proof -
  have w: "win_ok demo_img_fat demo_fatfs" by (simp add: win_ok_def demo_fatfs_def demo_boot_def)
  have f: "fat_ok card_sectors demo_fatfs" using demo_vol_ok by (simp add: vol_ok_def)
  have "fat_entry demo_img_fat demo_fatfs (unat (2 :: u32)) = unat (3 :: u32)"
    using demo_chain by (auto simp: chain_ok_def)
  moreover have "2 < n_fatent demo_fatfs" by (simp add: demo_fatfs_def)
  ultimately show ?thesis
    using get_fat_equals_layout [OF demo_disk w f demo_ready, of 2] by (auto simp: word_unat_eq_iff)
qed

end
