(* ===== verification/Fat_Dir.thy ===== *)
theory Fat_Dir
  imports Fat_Sd
begin
unbundle bit_operations_syntax

text \<open>
  Directories. A directory is a table of 32-byte entries in the static root area or in a chain
  of clusters; \<^verbatim>\<open>dir_find\<close> is shown to be a search in that table, \<^verbatim>\<open>follow_path\<close> a walk from
  table to table, and \<^verbatim>\<open>f_open\<close> to give a readable file.
\<close>

section \<open>Directory tables\<close>

text \<open>
  The sectors of a directory: the static root of FAT12 and FAT16 (no chain), or a chain of
  clusters. \<open>dir_table\<close> says that the directory of start cluster \<open>start\<close> is in the chain.
\<close>

definition dir_sectors :: "fatfs \<Rightarrow> u32 list \<Rightarrow> u32 list" where
  "dir_sectors fs chain =
     (if chain = [] then map (\<lambda>k. dirbase fs + of_nat k) [0..<unat (n_rootdir fs) div 16]
      else chain_sectors fs chain)"

definition dir_table :: "(u32 \<Rightarrow> bool) \<Rightarrow> (u32 \<Rightarrow> u8 list) \<Rightarrow> fatfs \<Rightarrow> u32 \<Rightarrow> u32 list \<Rightarrow> bool" where
  "dir_table exists img fs start chain \<longleftrightarrow>
     start \<noteq> 1 \<and> start < n_fatent fs \<and>
     (if start = 0 \<and> fs_type fs \<noteq> FS_FAT32 then
        chain = [] \<and> 0 < n_rootdir fs \<and> unat (n_rootdir fs) mod 16 = 0 \<and>
        (\<forall>sect \<in> set (dir_sectors fs []). exists sect \<and> sect \<noteq> 0)
      else
        chain \<noteq> [] \<and> hd chain = (if start = 0 then dirbase fs else start) \<and> chain_ok img fs chain \<and>
        unat (n_fatent fs) \<le> fat_entry img fs (unat (last chain)))"

text \<open>The number of entries an index can reach, and the entries.\<close>

definition dir_size :: "fatfs \<Rightarrow> u32 list \<Rightarrow> nat" where
  "dir_size fs chain = min 65536 (16 * length (dir_sectors fs chain))"

definition dir_entry :: "(u32 \<Rightarrow> u8 list) \<Rightarrow> fatfs \<Rightarrow> u32 list \<Rightarrow> nat \<Rightarrow> u8 list" where
  "dir_entry img fs chain i = take 32 (drop (32 * (i mod 16)) (img (dir_sectors fs chain ! (i div 16))))"

definition dir_entries :: "(u32 \<Rightarrow> u8 list) \<Rightarrow> fatfs \<Rightarrow> u32 list \<Rightarrow> u8 list list" where
  "dir_entries img fs chain = map (dir_entry img fs chain) [0..<dir_size fs chain]"

text \<open>The directory object stands on entry \<open>i\<close>.\<close>

definition dir_at :: "fatfs \<Rightarrow> u32 list \<Rightarrow> nat \<Rightarrow> dir \<Rightarrow> bool" where
  "dir_at fs chain i dj \<longleftrightarrow>
     i < dir_size fs chain \<and> unat (dj_index dj) = i \<and> dj_dir dj = Some (32 * (i mod 16)) \<and>
     dj_sect dj = dir_sectors fs chain ! (i div 16) \<and>
     dj_clust dj = (if chain = [] then 0 else chain ! (i div 16 div unat (csize fs)))"

text \<open>Two directory objects that differ in their position only.\<close>

definition same_dir :: "dir \<Rightarrow> dir \<Rightarrow> bool" where
  "same_dir dj dj' \<longleftrightarrow>
     dj_fs dj' = dj_fs dj \<and> dj_id dj' = dj_id dj \<and> dj_sclust dj' = dj_sclust dj \<and> dj_fn dj' = dj_fn dj"

lemma same_dir_refl [simp]: "same_dir dj dj"
  by (simp add: same_dir_def)

lemma same_dir_trans: "same_dir a b \<Longrightarrow> same_dir b c \<Longrightarrow> same_dir a c"
  by (simp add: same_dir_def)

lemma same_vol_dir:
  assumes "same_vol fs fs'"
  shows "dir_sectors fs' chain = dir_sectors fs chain" "dir_table exists img fs' start chain = dir_table exists img fs start chain"
    "dir_size fs' chain = dir_size fs chain" "dir_entry img fs' chain = dir_entry img fs chain"
    "dir_entries img fs' chain = dir_entries img fs chain" "dir_at fs' chain i dj = dir_at fs chain i dj"
proof -
  note sel = same_vol_sel [OF assms] and fl = same_vol_file [OF assms]
  show sec: "dir_sectors fs' chain = dir_sectors fs chain" for chain
    using sel fl by (simp add: dir_sectors_def)
  show "dir_table exists img fs' start chain = dir_table exists img fs start chain"
    using sel fl sec [of "[]"] same_vol_fat [OF assms] by (simp add: dir_table_def)
  show size: "dir_size fs' chain = dir_size fs chain" by (simp add: dir_size_def sec)
  show "dir_entry img fs' chain = dir_entry img fs chain" by (auto simp: dir_entry_def sec)
  then show "dir_entries img fs' chain = dir_entries img fs chain" by (simp add: dir_entries_def size)
  show "dir_at fs' chain i dj = dir_at fs chain i dj" using sel by (simp add: dir_at_def size sec)
qed

lemma fat_entry_less: "fat_entry img fs c < 2 ^ 28"
proof -
  have b: "fat_byte img fs i < 256" for i by (simp add: fat_byte_def unat_u8_lt)
  have w: "fat_byte img fs i + 256 * fat_byte img fs j < 2 ^ 28" for i j using b [of i] b [of j] by simp
  have d: "n < 2 ^ 28 \<Longrightarrow> n div 16 < 2 ^ 28" "n mod 4096 < 2 ^ 28" for n :: nat
    using div_le_dividend [of n 16] by linarith (rule less_trans [OF mod_less_divisor], simp_all)
  have "(if P then if Q then x else y else if R then z else u mod 2 ^ 28) < 2 ^ 28"
    if "x < 2 ^ 28" "y < 2 ^ 28" "z < 2 ^ 28" for P Q R and x y z u :: nat using that by simp
  from this [OF d(2) d(1) [OF w] w] show ?thesis unfolding fat_entry_def Let_def by blast
qed

lemma dir_table_static:
  assumes "dir_table exists img fs start chain" "start = 0 \<and> fs_type fs \<noteq> FS_FAT32"
  shows "chain = []" "0 < n_rootdir fs" "unat (n_rootdir fs) mod 16 = 0"
    "\<forall>sect \<in> set (dir_sectors fs []). exists sect \<and> sect \<noteq> 0"
  using assms(1) unfolding dir_table_def if_P [OF assms(2)] by blast+

lemma dir_table_chain:
  assumes "dir_table exists img fs start chain" "\<not> (start = 0 \<and> fs_type fs \<noteq> FS_FAT32)"
  shows "chain \<noteq> []" "hd chain = (if start = 0 then dirbase fs else start)" "chain_ok img fs chain"
    "unat (n_fatent fs) \<le> fat_entry img fs (unat (last chain))"
  using assms(1) unfolding dir_table_def if_not_P [OF assms(2)] by blast+

context disk_image
begin

lemma dir_sector:
  assumes "vol_ok exists fs" "dir_table exists img fs start chain" "i < dir_size fs chain"
  shows "exists (dir_sectors fs chain ! (i div 16))" "dir_sectors fs chain ! (i div 16) \<noteq> 0"
    "length (img (dir_sectors fs chain ! (i div 16))) = 512" "i div 16 < length (dir_sectors fs chain)"
proof -
  show n: "i div 16 < length (dir_sectors fs chain)" using assms(3) by (intro less_mult_imp_div_less) (simp add: dir_size_def mult.commute)
  have "\<forall>sect \<in> set (dir_sectors fs chain). exists sect \<and> sect \<noteq> 0"
  proof (cases "start = 0 \<and> fs_type fs \<noteq> FS_FAT32")
    case True
    from dir_table_static [OF assms(2) True] show ?thesis by blast
  next
    case False
    note c = dir_table_chain [OF assms(2) False]
    have "dir_sectors fs chain = chain_sectors fs chain" using c(1) by (simp only: dir_sectors_def if_False)
    then show ?thesis using sectors_exist(1,2) [OF assms(1) c(3)] by simp
  qed
  then show "exists (dir_sectors fs chain ! (i div 16))" "dir_sectors fs chain ! (i div 16) \<noteq> 0"
    using n nth_mem by blast+
  then show "length (img (dir_sectors fs chain ! (i div 16))) = 512" by (intro img_length)
qed

end

lemma index_succ: "unat (dj_index dj) = i \<Longrightarrow> Suc i < 65536 \<Longrightarrow> unat (dj_index dj + 1) = Suc i"
  using unat_Suc_small [of "dj_index dj"] by simp

lemma index_mod16: "unat (w :: u16) mod 16 = 0 \<longleftrightarrow> w mod 16 = 0"
  by (simp add: word_unat_eq_iff unat_mod)

lemma dir_offset_index: "dir_offset w = 32 * (unat w mod 16)"
  by (simp add: dir_offset_def unat_mod ff_consts)

lemma cluster_offset:
  assumes "vol_ok exists fs"
  shows "(ucast (w div 16) :: u32) AND (ucast (csize fs) - 1) = 0 \<longleftrightarrow> unat (w :: u16) div 16 mod unat (csize fs) = 0"
proof -
  obtain k where k: "k < 8" "csize fs = 2 ^ k" using assms by (auto simp: vol_ok_def)
  then have "k \<in> {0, 1, 2, 3, 4, 5, 6, 7}" by auto
  then have e: "unat (csize fs) = 2 ^ k" "(ucast (csize fs) :: u32) = 2 ^ k" using k(2) by auto
  have "unat ((ucast (w div 16) :: u32) AND (2 ^ k - 1)) = take_bit k (unat w div 16)"
    using k(1) by (simp add: take_bit_eq_mask [symmetric] mask_eq_exp_minus_1 [symmetric] unsigned_ucast_eq unsigned_take_bit_eq unat_div min_def)
  then show ?thesis unfolding e by (simp add: word_unat_eq_iff take_bit_eq_mod)
qed

text \<open>A result of a directory operation that leaves everything but the position and the window alone.\<close>

definition dir_kept ::
  "('s \<Rightarrow> bool) \<Rightarrow> (u32 \<Rightarrow> u8 list) \<Rightarrow> dir \<times> fatfs \<times> 's \<Rightarrow> dir \<times> fatfs \<times> 's \<Rightarrow> bool" where
  "dir_kept good img st st' \<longleftrightarrow>
     (let (dj, fs, s) = st; (dj', fs', s') = st'
      in same_dir dj dj' \<and> same_vol fs fs' \<and> win_ok img fs' \<and> good s')"

lemma dir_kept_trans:
  "dir_kept good img st st' \<Longrightarrow> dir_kept good img st' st'' \<Longrightarrow> dir_kept good img st st''"
  by (auto simp: dir_kept_def intro: same_dir_trans same_vol_trans)

text \<open>The index moves on within a sector, to the next sector, to the next cluster, or past the end.\<close>

lemma same_sector:
  assumes "Suc i mod 16 \<noteq> 0"
  shows "Suc i div 16 = i div 16" "Suc i mod 16 = Suc (i mod 16)"
  using assms by (auto simp: div_Suc mod_Suc split: if_splits)

lemma next_sector:
  assumes "Suc i mod 16 = 0"
  shows "Suc i div 16 = Suc (i div 16)"
  using assms by (auto simp: div_Suc)

lemma not_past_end:
  assumes "i < dir_size fs chain" "Suc i mod 16 \<noteq> 0"
  shows "Suc i < dir_size fs chain"
proof -
  have "Suc i \<noteq> 16 * k" for k using assms(2) by auto
  from this [of 4096] this [of "length (dir_sectors fs chain)"] assms(1) show ?thesis
    by (simp add: dir_size_def)
qed

lemma dir_at_same_sector:
  assumes "dir_at fs chain i dj" "Suc i mod 16 \<noteq> 0"
  shows "dir_at fs chain (Suc i) (dj\<lparr>dj_index := dj_index dj + 1, dj_dir := Some (dir_offset (dj_index dj + 1))\<rparr>)"
proof -
  have i: "i < dir_size fs chain" "unat (dj_index dj) = i" using assms(1) by (simp_all add: dir_at_def)
  have n: "Suc i < dir_size fs chain" by (rule not_past_end [OF i(1) assms(2)])
  then have "unat (dj_index dj + 1) = Suc i" using index_succ [OF i(2)] by (simp add: dir_size_def)
  then show ?thesis
    using assms(1) n same_sector [OF assms(2)] by (simp add: dir_at_def dir_offset_index)
qed

context disk_image
begin

lemma next_static:
  assumes "dir_table exists img fs start []" "dir_at fs [] i dj" "Suc i mod 16 = 0" "Suc i < 65536"
    "start = 0 \<and> fs_type fs \<noteq> FS_FAT32"
  shows "n_rootdir fs \<le> dj_index dj + 1 \<longleftrightarrow> \<not> Suc i < dir_size fs []"
    "Suc i < dir_size fs [] \<Longrightarrow> dir_at fs [] (Suc i)
       (dj\<lparr>dj_sect := dj_sect dj + 1, dj_index := dj_index dj + 1, dj_dir := Some (dir_offset (dj_index dj + 1))\<rparr>)"
proof -
  note st = dir_table_static [OF assms(1,5)]
  have i: "i < dir_size fs []" "unat (dj_index dj) = i" using assms(2) by (simp_all add: dir_at_def)
  note ix = index_succ [OF i(2) assms(4)]
  obtain q where q: "unat (n_rootdir fs) = 16 * q" using st(3) by (metis mod_0_imp_dvd dvdE)
  have len: "length (dir_sectors fs []) = q" using q by (simp add: dir_sectors_def)
  show "n_rootdir fs \<le> dj_index dj + 1 \<longleftrightarrow> \<not> Suc i < dir_size fs []"
    using ix q assms(4) by (auto simp: word_le_nat_alt dir_size_def len)
  assume n: "Suc i < dir_size fs []"
  then have "Suc i div 16 < q" by (intro less_mult_imp_div_less) (simp add: dir_size_def len)
  then have "Suc (i div 16) < q" unfolding next_sector [OF assms(3)] .
  then have "dir_sectors fs [] ! Suc (i div 16) = dir_sectors fs [] ! (i div 16) + 1"
    using q by (simp add: dir_sectors_def)
  then show "dir_at fs [] (Suc i)
       (dj\<lparr>dj_sect := dj_sect dj + 1, dj_index := dj_index dj + 1, dj_dir := Some (dir_offset (dj_index dj + 1))\<rparr>)"
    using assms(2) n ix next_sector [OF assms(3)] by (simp add: dir_at_def dir_offset_index)
qed

text \<open>Position \<open>i\<close> at the end of sector \<open>j\<close> of a chain, clusters of \<open>n\<close> sectors.\<close>

lemma chain_position:
  assumes "vol_ok exists fs" "dir_table exists img fs start chain"
    and at: "dir_at fs chain i dj" and i: "Suc i mod 16 = 0" "Suc i < 65536"
    and c: "\<not> (start = 0 \<and> fs_type fs \<noteq> FS_FAT32)"
  defines "n \<equiv> unat (csize fs)" and "j \<equiv> i div 16"
  shows "0 < n" "dj_sect dj = chain_sectors fs chain ! j" "dj_clust dj = chain ! (j div n)" "j < n * length chain"
    "Suc i < dir_size fs chain \<longleftrightarrow> Suc j < n * length chain"
    "unat (dj_index dj + 1) = Suc i" "dj_index dj + 1 \<noteq> 0" "(dj_index dj + 1) mod 16 = 0"
    "dj_sect dj \<noteq> 0" "2 \<le> chain ! (j div n)" "chain ! (j div n) < n_fatent fs" "Suc i div 16 = Suc j"
    "(ucast ((dj_index dj + 1) div 16) :: u32) AND (ucast (csize fs) - 1) = 0 \<longleftrightarrow> Suc j mod n = 0"
proof -
  note ch = dir_table_chain [OF assms(2) c]
  show n: "0 < n" using csize_pos [OF assms(1)] by (simp add: n_def)
  have d: "i < dir_size fs chain" "unat (dj_index dj) = i" using at by (simp_all add: dir_at_def)
  show "dj_sect dj = chain_sectors fs chain ! j" "dj_clust dj = chain ! (j div n)"
    using at ch(1) by (simp_all add: dir_at_def dir_sectors_def j_def n_def)
  show sj: "Suc i div 16 = Suc j" using next_sector [OF i(1)] by (simp add: j_def)
  have sz: "dir_size fs chain = min 65536 (16 * (n * length chain))"
    using ch(1) by (simp add: dir_size_def dir_sectors_def chain_sectors_length n_def)
  show jl: "j < n * length chain" unfolding j_def by (rule less_mult_imp_div_less) (use d(1) sz in \<open>simp add: mult.commute\<close>)
  have e: "Suc i = 16 * Suc j" using i(1) sj by (metis add.right_neutral mult_div_mod_eq)
  have "Suc i < 16 * (n * length chain) \<longleftrightarrow> Suc j < n * length chain"
    by (simp only: e nat_mult_less_cancel1 zero_less_numeral)
  then show "Suc i < dir_size fs chain \<longleftrightarrow> Suc j < n * length chain" using i(2) unfolding sz by simp
  show ix: "unat (dj_index dj + 1) = Suc i" by (rule index_succ [OF d(2) i(2)])
  then show "dj_index dj + 1 \<noteq> 0" "(dj_index dj + 1) mod 16 = 0" using i(1) index_mod16 [of "dj_index dj + 1"] by auto
  show "dj_sect dj \<noteq> 0" using dir_sector(2) [OF assms(1,2) d(1)] at by (simp add: dir_at_def)
  have "chain ! (j div n) \<in> set chain" using jl n by (simp add: less_mult_imp_div_less mult.commute)
  then show "2 \<le> chain ! (j div n)" "chain ! (j div n) < n_fatent fs" using ch(3) by (auto simp: chain_ok_def)
  show "(ucast ((dj_index dj + 1) div 16) :: u32) AND (ucast (csize fs) - 1) = 0 \<longleftrightarrow> Suc j mod n = 0"
    using cluster_offset [OF assms(1), of "dj_index dj + 1"] ix sj by (simp add: n_def)
qed

lemma next_chain:
  assumes "vol_ok exists fs" "dir_table exists img fs start chain" "win_ok img fs" "inv s"
    and at: "dir_at fs chain i dj" and i: "Suc i mod 16 = 0" "Suc i < 65536"
    and c: "\<not> (start = 0 \<and> fs_type fs \<noteq> FS_FAT32)"
  shows "\<exists>dj' fs' s'. dir_next dk (dj, fs, s) =
       Some (if Suc i < dir_size fs chain then FR_OK else FR_NO_FILE, dj', fs', s') \<and>
     dir_kept inv img (dj, fs, s) (dj', fs', s') \<and> (Suc i < dir_size fs chain \<longrightarrow> dir_at fs chain (Suc i) dj')"
proof -
  define n where "n = unat (csize fs)"
  define j where "j = i div 16"
  note ch = dir_table_chain [OF assms(2) c]
  note p = chain_position [OF assms(1,2) at i c, folded n_def j_def]
  have cn: "dj_clust dj \<noteq> 0" using p(3,10) by auto
  show ?thesis
  proof (cases "Suc j mod n = 0")
    case False
    have "Suc j \<noteq> n * length chain" using False by auto
    then have l: "Suc j < n * length chain" using p(4) by simp
    have "Suc j div n = j div n" "Suc j mod n = Suc (j mod n)" using False by (auto simp: div_Suc mod_Suc split: if_splits)
    then have "chain_sectors fs chain ! Suc j = chain_sectors fs chain ! j + 1"
      using chain_sectors_nth [OF l [unfolded n_def]] chain_sectors_nth [OF p(4) [unfolded n_def]] by (simp flip: n_def)
    moreover have "Suc j div n = j div n" by fact
    ultimately have "dir_at fs chain (Suc i) (dj\<lparr>dj_sect := dj_sect dj + 1, dj_index := dj_index dj + 1, dj_dir := Some (dir_offset (dj_index dj + 1))\<rparr>)"
      using l p(5,6,12,2) at ch(1) by (simp add: dir_at_def dir_sectors_def dir_offset_index j_def flip: n_def)
    then show ?thesis
      using p(5,7,8,9,13) cn False l assms(3,4)
      by (simp add: dir_next_def Let_def dir_kept_def same_dir_def)
  next
    case True
    obtain r fs' s' where g: "get_fat dk (dj_clust dj) (fs, s) = Some (r, fs', s')"
        "unat r = fat_entry img fs (unat (chain ! (j div n)))" "inv s'" "win_ok img fs'" "same_vol fs fs'"
      using get_fat_entry [OF assms(3) _ assms(4) p(10,11)] assms(1) p(3) by (auto simp: vol_ok_def)
    have jd: "Suc j div n = Suc (j div n)" using True by (simp add: div_Suc)
    have nf: "n_fatent fs' = n_fatent fs" using same_vol_sel [OF g(5)] by simp
    have r2: "r \<noteq> 0xFFFFFFFF"
      using fat_entry_less [of img fs "unat (chain ! (j div n))"] g(2) by (auto simp: word_unat_eq_iff)
    show ?thesis
    proof (cases "Suc j < n * length chain")
      case l: True
      then have k: "Suc (j div n) < length chain"
        using less_mult_imp_div_less [of "Suc j" "length chain" n] by (simp add: jd mult.commute)
      then have "r = chain ! Suc (j div n)" using g(2) ch(3) by (simp add: chain_ok_def word_unat_eq_iff)
      moreover have "chain ! Suc (j div n) \<in> set chain" using k by simp
      ultimately have r: "r = chain ! Suc (j div n)" "2 \<le> r" "r < n_fatent fs" using ch(3) by (auto simp: chain_ok_def)
      have "chain_sectors fs chain ! Suc j = clust2sect fs r"
        using chain_sectors_nth [OF l [unfolded n_def]] True r(1) jd by (simp flip: n_def)
      then have "dir_at fs chain (Suc i) (dj\<lparr>dj_clust := r, dj_sect := clust2sect fs r, dj_index := dj_index dj + 1,
          dj_dir := Some (dir_offset (dj_index dj + 1))\<rparr>)"
        using l p(5,6,12) at ch(1) r(1) jd by (simp add: dir_at_def dir_sectors_def dir_offset_index flip: n_def)
      moreover have "\<not> r \<le> 1" using r(2) by (auto simp: word_le_nat_alt)
      ultimately show ?thesis
        using p(5,7,8,9,13) cn True l g r r2 nf same_vol_file(6) [OF g(5)]
        by (simp add: dir_next_def Let_def dir_kept_def same_dir_def not_le)
    next
      case l: False
      then have e: "Suc j = n * length chain" using p(4) by simp
      then have "Suc (j div n) = length chain" using jd p(1) by (metis nonzero_mult_div_cancel_left not_gr0)
      then have "chain ! (j div n) = last chain" using ch(1) by (metis diff_Suc_1 last_conv_nth)
      then have "n_fatent fs \<le> r" using g(2) ch(4) by (simp add: word_le_nat_alt)
      moreover have "\<not> r \<le> 1" using calculation p(10,11) by (auto simp: word_le_nat_alt word_less_nat_alt)
      ultimately show ?thesis
        using p(5,7,8,9,13) cn True l g r2 nf
        by (simp add: dir_next_def Let_def dir_kept_def same_dir_def)
    qed
  qed
qed

lemma next_entry:
  assumes "vol_ok exists fs" "dir_table exists img fs start chain" "win_ok img fs" "inv s"
    and at: "dir_at fs chain i dj"
  shows "\<exists>dj' fs' s'. dir_next dk (dj, fs, s) =
       Some (if Suc i < dir_size fs chain then FR_OK else FR_NO_FILE, dj', fs', s') \<and>
     dir_kept inv img (dj, fs, s) (dj', fs', s') \<and> (Suc i < dir_size fs chain \<longrightarrow> dir_at fs chain (Suc i) dj')"
proof -
  have d: "i < dir_size fs chain" "unat (dj_index dj) = i" "i < 65536" using at by (simp_all add: dir_at_def dir_size_def)
  have nz: "dj_sect dj \<noteq> 0" using dir_sector(2) [OF assms(1,2) d(1)] at by (simp add: dir_at_def)
  consider "Suc i = 65536" | "Suc i < 65536" "Suc i mod 16 \<noteq> 0" | "Suc i < 65536" "Suc i mod 16 = 0"
    using d(3) by linarith
  then show ?thesis
  proof cases
    case 1
    then have "dj_index dj = 65535" using d(2) by (simp add: word_unat_eq_iff)
    then have "dj_index dj + 1 = 0" by simp
    moreover have "\<not> Suc i < dir_size fs chain" using 1 by (simp add: dir_size_def)
    ultimately show ?thesis using assms(3,4) by (simp add: dir_next_def dir_kept_def)
  next
    case 2
    have ix: "unat (dj_index dj + 1) = Suc i" by (rule index_succ [OF d(2) 2(1)])
    then have "dj_index dj + 1 \<noteq> 0" "(dj_index dj + 1) mod 16 \<noteq> 0"
      using 2(2) index_mod16 [of "dj_index dj + 1"] by auto
    then show ?thesis
      using nz not_past_end [OF d(1) 2(2)] dir_at_same_sector [OF at 2(2)] assms(3,4)
      by (simp add: dir_next_def Let_def dir_kept_def same_dir_def)
  next
    case 3
    show ?thesis
    proof (cases "start = 0 \<and> fs_type fs \<noteq> FS_FAT32")
      case True
      have c: "chain = []" using dir_table_static(1) [OF assms(2) True] .
      have "unat (dj_index dj + 1) = Suc i" by (rule index_succ [OF d(2) 3(1)])
      then have "dj_index dj + 1 \<noteq> 0" "(dj_index dj + 1) mod 16 = 0"
        using 3(2) index_mod16 [of "dj_index dj + 1"] by auto
      moreover have "dj_clust dj = 0" using at c by (simp add: dir_at_def)
      ultimately show ?thesis
        using nz next_static [OF assms(2) [unfolded c] at [unfolded c] 3(2,1) True] assms(3,4)
        by (simp add: dir_next_def Let_def dir_kept_def same_dir_def c)
    qed (rule next_chain [OF assms(1-4) at 3(2,1)])
  qed
qed

end

section \<open>Search\<close>

text \<open>
  The reference search: the first entry in front of the end mark that is no volume label and
  has the name.
\<close>

definition entry_matches :: "u8 list \<Rightarrow> u8 list \<Rightarrow> bool" where
  "entry_matches fn e \<longleftrightarrow> e ! 11 AND AM_VOL = 0 \<and> take 11 e = take 11 fn"

fun find_name :: "u8 list \<Rightarrow> u8 list list \<Rightarrow> nat option" where
  "find_name fn [] = None"
| "find_name fn (e # es) =
     (if e ! 0 = 0 then None else if entry_matches fn e then Some 0 else map_option Suc (find_name fn es))"

lemma find_name_bound: "find_name fn es = Some i \<Longrightarrow> i < length es"
  by (induction es arbitrary: i) (auto split: if_splits)

lemma find_name_first:
  "find_name fn es = Some i \<longleftrightarrow>
     i < length es \<and> entry_matches fn (es ! i) \<and> (\<forall>k < Suc i. es ! k ! 0 \<noteq> 0) \<and> (\<forall>k < i. \<not> entry_matches fn (es ! k))"
proof (induction es arbitrary: i)
  case (Cons e es)
  show ?case
  proof (cases i)
    case (Suc j)
    then show ?thesis using Cons.IH [of j] by (auto simp: All_less_Suc2)
  qed auto
qed simp

lemma mem_cmp_spec:
  "d + n \<le> length xs \<Longrightarrow> k + n \<le> length ys \<Longrightarrow>
     \<exists>r. mem_cmp xs d ys k n = Some r \<and> (r = 0 \<longleftrightarrow> take n (drop d xs) = take n (drop k ys))"
proof (induction n arbitrary: d k)
  case (Suc n)
  have e: "take (Suc n) (drop d xs) = xs ! d # take n (drop (Suc d) xs)"
    "take (Suc n) (drop k ys) = ys ! k # take n (drop (Suc k) ys)"
    using Suc.prems by (simp_all flip: Cons_nth_drop_Suc)
  show ?case unfolding e
    using Suc.IH [of "Suc d" "Suc k"] Suc.prems by (auto simp: array_simps Let_def word_uint_eq_iff)
qed simp

context disk_image
begin

lemma rewind:
  assumes "vol_ok exists fs" "dir_table exists img fs (dj_sclust dj) chain" "win_ok img fs" "inv s"
  shows "\<exists>dj'. dir_sdi dk 0 (dj, fs, s) = Some (FR_OK, dj', fs, s) \<and> dir_at fs chain 0 dj' \<and> same_dir dj dj'"
proof (cases "dj_sclust dj = 0 \<and> fs_type fs \<noteq> FS_FAT32")
  case True
  note st = dir_table_static [OF assms(2) True]
  have "0 < unat (n_rootdir fs)" using st(2) by (simp add: word_less_nat_alt)
  then obtain q where q: "unat (n_rootdir fs) = 16 * q" "0 < q" using st(3) by auto
  then have l: "dir_sectors fs chain ! 0 = dirbase fs" "0 < dir_size fs chain"
    using st(1) by (simp_all add: dir_sectors_def dir_size_def)
  have "\<not> n_rootdir fs \<le> 0" "\<not> n_fatent fs \<le> 0" using st(2) assms(2) by (auto simp: dir_table_def)
  then show ?thesis using True st(1) l
    by (simp add: dir_sdi_def Let_def dir_at_def same_dir_def dir_offset_index)
next
  case False
  note ch = dir_table_chain [OF assms(2) False]
  have h: "hd chain \<in> set chain" using ch(1) by simp
  then have hd: "2 \<le> hd chain" "hd chain < n_fatent fs" using ch(3) by (auto simp: chain_ok_def)
  have n: "0 < unat (csize fs)" "unat (csize fs) \<le> 128" using csize_pos [OF assms(1)] by auto
  have ic: "\<not> 16 * ucast (csize fs) \<le> (0 :: u16)"
    using n by (auto simp: word_le_nat_alt unat_word_ariths unsigned_ucast_eq take_bit_nat_eq_self)
  have ct: "dj_sclust dj \<noteq> 1" "\<not> n_fatent fs \<le> dj_sclust dj" using assms(2) by (auto simp: dir_table_def)
  have "dir_sectors fs chain ! 0 = clust2sect fs (hd chain)" "0 < dir_size fs chain"
    using ch(1) n chain_sectors_nth [of 0 fs chain]
    by (auto simp: dir_sectors_def dir_size_def chain_sectors_length hd_conv_nth)
  then show ?thesis using False ch(1,2) ct hd ic
    by (auto simp: dir_sdi_def Let_def dir_at_def same_dir_def dir_offset_index sdi_loop.simps hd_conv_nth)
qed

text \<open>The entry at the position is loaded into the window.\<close>

lemma load_entry:
  assumes "vol_ok exists fs" "dir_table exists img fs start chain" "win_ok img fs" "inv s" "dir_at fs chain i dj"
  defines "e \<equiv> dir_entry img fs chain i" and "off \<equiv> 32 * (i mod 16)"
  shows "\<exists>fs1 s1. move_window dk (dj_sect dj) (fs, s) = Some (FR_OK, fs1, s1) \<and>
     dir_kept inv img (dj, fs, s) (dj, fs1, s1) \<and> win fs1 = img (dj_sect dj) \<and> length (win fs1) = 512 \<and>
     e = take 32 (drop off (win fs1)) \<and>
     arr_get (win fs1) (off + DIR_Name) = Some (e ! 0) \<and> arr_get (win fs1) (off + DIR_Attr) = Some (e ! 11)"
proof -
  have d: "i < dir_size fs chain" "dj_sect dj = dir_sectors fs chain ! (i div 16)"
    using assms(5) by (simp_all add: dir_at_def)
  note sec = dir_sector [OF assms(1,2) d(1), folded d(2)]
  obtain fs1 s1 where w: "move_window dk (dj_sect dj) (fs, s) = Some (FR_OK, fs1, s1)" "inv s1" "win_ok img fs1"
      "win fs1 = img (dj_sect dj)" "same_vol fs fs1"
    using window [OF assms(3,4) sec(1,2)] by blast
  have len: "length (win fs1) = 512" "off + 32 \<le> 512" using sec(3) w(4) by (auto simp: off_def)
  have e: "e = take 32 (drop off (win fs1))" using d(2) w(4) by (simp add: e_def dir_entry_def off_def)
  have "arr_get (win fs1) (off + DIR_Name) = Some (e ! 0)" "arr_get (win fs1) (off + DIR_Attr) = Some (e ! 11)"
    using len by (simp_all add: e array_simps ff_consts)
  then show ?thesis using w len(1) e by (auto simp: dir_kept_def)
qed

lemma drop_entries:
  "i < dir_size fs chain \<Longrightarrow>
     drop i (dir_entries img fs chain) = dir_entry img fs chain i # drop (Suc i) (dir_entries img fs chain)"
  by (simp add: dir_entries_def flip: Cons_nth_drop_Suc)

lemma dir_kept_sel:
  assumes "dir_kept inv img (dj, fs, s) (dj', fs', s')"
  shows "same_vol fs fs'" "same_dir dj dj'" "win_ok img fs'" "inv s'" "dj_fn dj' = dj_fn dj"
  using assms by (simp_all add: dir_kept_def same_dir_def)

lemma next_entry_kept:
  assumes "vol_ok exists fs" "dir_table exists img fs start chain" "dir_kept inv img (dj, fs, s) (dj, fs1, s1)"
    and "dir_at fs chain i dj"
  shows "\<exists>dj' fs' s'. dir_next dk (dj, fs1, s1) =
       Some (if Suc i < dir_size fs chain then FR_OK else FR_NO_FILE, dj', fs', s') \<and>
     dir_kept inv img (dj, fs, s) (dj', fs', s') \<and> (Suc i < dir_size fs chain \<longrightarrow> dir_at fs chain (Suc i) dj')"
proof -
  note k = dir_kept_sel [OF assms(3)]
  note sv = same_vol_dir [OF k(1)] same_vol_file(1) [OF k(1)]
  show ?thesis
    using next_entry [of fs1 start chain s1 i dj, unfolded sv, OF assms(1,2) k(3,4) assms(4)] dir_kept_trans [OF assms(3)] by blast
qed

lemma find_entries:
  assumes "vol_ok exists fs" "dir_table exists img fs start chain" "win_ok img fs" "inv s"
    and "dir_at fs chain i dj" "11 \<le> length (dj_fn dj)"
  shows "\<exists>dj' fs' s'. dir_kept inv img (dj, fs, s) (dj', fs', s') \<and>
     (case find_name (dj_fn dj) (drop i (dir_entries img fs chain)) of
        None \<Rightarrow> find_loop dk (dj, fs, s) = Some (FR_NO_FILE, dj', fs', s')
      | Some k \<Rightarrow> find_loop dk (dj, fs, s) = Some (FR_OK, dj', fs', s') \<and> dir_at fs chain (i + k) dj' \<and>
          win fs' = img (dj_sect dj'))"
  using assms
proof (induction "dir_size fs chain - i" arbitrary: i dj fs s rule: less_induct)
  case less
  note ok = less.prems
  define e where "e = dir_entry img fs chain i"
  define off where "off = 32 * (i mod 16)"
  have d: "i < dir_size fs chain" "dj_dir dj = Some off" using ok(5) by (simp_all add: dir_at_def off_def)
  obtain fs1 s1 where w: "move_window dk (dj_sect dj) (fs, s) = Some (FR_OK, fs1, s1)"
      "dir_kept inv img (dj, fs, s) (dj, fs1, s1)" "win fs1 = img (dj_sect dj)" "length (win fs1) = 512"
      "e = take 32 (drop off (win fs1))"
      "arr_get (win fs1) (off + DIR_Name) = Some (e ! 0)" "arr_get (win fs1) (off + DIR_Attr) = Some (e ! 11)"
    using load_entry [OF ok(1-5)] by (auto simp: e_def off_def)
  have off: "off + 11 \<le> 512" by (simp add: off_def)
  obtain r where r: "mem_cmp (win fs1) off (dj_fn dj) 0 11 = Some r" "r = 0 \<longleftrightarrow> take 11 e = take 11 (dj_fn dj)"
    using mem_cmp_spec [of off 11 "win fs1" 0 "dj_fn dj"] w(4,5) ok(6) off by (auto simp: take_drop)
  note es = drop_entries [OF d(1), folded e_def]
  note step = find_loop.simps [of dk "(dj, fs, s)"]
  consider "e ! 0 = 0" | "e ! 0 \<noteq> 0" "entry_matches (dj_fn dj) e" | "e ! 0 \<noteq> 0" "\<not> entry_matches (dj_fn dj) e" by blast
  then show ?case
  proof cases
    case 1
    then show ?thesis using w d(2) by (intro exI [of _ dj] exI [of _ fs1] exI [of _ s1]) (simp add: es step)
  next
    case 2
    then show ?thesis using w d(2) r ok(5)
      by (intro exI [of _ dj] exI [of _ fs1] exI [of _ s1]) (simp add: es step entry_matches_def)
  next
    case 3
    obtain dj2 fs2 s2 where n: "dir_next dk (dj, fs1, s1) = Some (if Suc i < dir_size fs chain then FR_OK else FR_NO_FILE, dj2, fs2, s2)"
        "dir_kept inv img (dj, fs, s) (dj2, fs2, s2)" "Suc i < dir_size fs chain \<longrightarrow> dir_at fs chain (Suc i) dj2"
      using next_entry_kept [OF ok(1,2) w(2) ok(5)] by blast
    have nx: "find_loop dk (dj, fs, s) = (if Suc i < dir_size fs chain then find_loop dk (dj2, fs2, s2) else Some (FR_NO_FILE, dj2, fs2, s2))"
      using 3 w d(2) r n(1) by (auto simp: step entry_matches_def)
    show ?thesis
    proof (cases "Suc i < dir_size fs chain")
      case False
      then have "drop (Suc i) (dir_entries img fs chain) = []" by (simp add: dir_entries_def)
      then show ?thesis using n(2) nx False 3 by (intro exI [of _ dj2] exI [of _ fs2] exI [of _ s2]) (simp add: es)
    next
      case True
      note kp = dir_kept_sel [OF n(2)]
      note sv = same_vol_dir [OF kp(1)] same_vol_file(1) [OF kp(1)]
      have "dir_size fs2 chain - Suc i < dir_size fs chain - i" using d(1) sv(3) by simp
      from less.hyps [OF this _ _ kp(3,4), of dj2, unfolded sv kp(5)] ok n(3) True
      obtain dj' fs' s' where h: "dir_kept inv img (dj2, fs2, s2) (dj', fs', s')"
         "case find_name (dj_fn dj) (drop (Suc i) (dir_entries img fs chain)) of
            None \<Rightarrow> find_loop dk (dj2, fs2, s2) = Some (FR_NO_FILE, dj', fs', s')
          | Some k \<Rightarrow> find_loop dk (dj2, fs2, s2) = Some (FR_OK, dj', fs', s') \<and> dir_at fs chain (Suc i + k) dj' \<and>
              win fs' = img (dj_sect dj')"
        by auto
      show ?thesis
        using dir_kept_trans [OF n(2) h(1)] h(2) nx True 3
        by (intro exI [of _ dj'] exI [of _ fs'] exI [of _ s']) (auto simp: es split: option.splits)
    qed
  qed
qed

lemma find_in_table:
  assumes "vol_ok exists fs" "dir_table exists img fs (dj_sclust dj) chain" "win_ok img fs" "inv s" "11 \<le> length (dj_fn dj)"
  shows "\<exists>dj' fs' s'. dir_kept inv img (dj, fs, s) (dj', fs', s') \<and>
     (case find_name (dj_fn dj) (dir_entries img fs chain) of
        None \<Rightarrow> dir_find dk (dj, fs, s) = Some (FR_NO_FILE, dj', fs', s')
      | Some k \<Rightarrow> dir_find dk (dj, fs, s) = Some (FR_OK, dj', fs', s') \<and> dir_at fs chain k dj' \<and>
          win fs' = img (dj_sect dj'))"
proof -
  obtain dj1 where r: "dir_sdi dk 0 (dj, fs, s) = Some (FR_OK, dj1, fs, s)" "dir_at fs chain 0 dj1" "same_dir dj dj1"
    using rewind [OF assms(1-4)] by blast
  have k: "dir_kept inv img (dj, fs, s) (dj1, fs, s)" using r(3) assms(3,4) by (simp add: dir_kept_def)
  have fn: "dj_fn dj1 = dj_fn dj" using r(3) by (simp add: same_dir_def)
  have e: "dir_find dk (dj, fs, s) = find_loop dk (dj1, fs, s)" using r(1) by (simp add: dir_find_def)
  from find_entries [OF assms(1,2,3,4) r(2)] assms(5) fn dir_kept_trans [OF k]
  show ?thesis unfolding e by (fastforce split: option.splits)
qed

end

end
