(* ===== verification/Fat_Name.thy ===== *)
theory Fat_Name
  imports Fat_Table
begin

unbundle bit_operations_syntax

text \<open>
  File names: \<^verbatim>\<open>create_name\<close> turns a path segment into the eleven bytes of a directory entry
  and \<^verbatim>\<open>get_fileinfo\<close> turns them back into text.
\<close>

section \<open>Names\<close>

text \<open>
  A segment of a path is a name of at most eight characters and possibly a dot with an
  extension of at most three. \<open>sfn_char\<close> is the form a character has in a directory entry.
\<close>

definition oem_upper :: "u8 \<Rightarrow> u8" where
  "oem_upper c = (if 0x80 \<le> c then excvt ! unat (c - 0x80) else c)"

definition sfn_char :: "u8 \<Rightarrow> u8" where
  "sfn_char c = (let c = oem_upper c in if IsLower c then c - 0x20 else c)"

definition name_char :: "u8 \<Rightarrow> bool" where
  "name_char c \<longleftrightarrow> 0x20 < c \<and> \<not> is_sep c \<and> c \<noteq> 0x2E \<and> oem_upper c \<notin> set illegal_chrs"

type_synonym segment = "u8 list \<times> u8 list option"

definition seg_text :: "segment \<Rightarrow> u8 list" where
  "seg_text seg = fst seg @ (case snd seg of None \<Rightarrow> [] | Some ext \<Rightarrow> 0x2E # ext)"

definition seg_ok :: "segment \<Rightarrow> bool" where
  "seg_ok seg \<longleftrightarrow>
     length (fst seg) \<le> 8 \<and> (\<forall>c \<in> set (fst seg). name_char c) \<and>
     (case snd seg of None \<Rightarrow> fst seg \<noteq> [] | Some ext \<Rightarrow> length ext \<le> 3 \<and> (\<forall>c \<in> set ext. name_char c))"

definition seg_ext :: "segment \<Rightarrow> u8 list" where
  "seg_ext seg = (case snd seg of None \<Rightarrow> [] | Some ext \<Rightarrow> ext)"

definition padded :: "nat \<Rightarrow> u8 list \<Rightarrow> u8 list" where
  "padded n xs = xs @ replicate (n - length xs) 0x20"

definition short_name :: "segment \<Rightarrow> u8 list" where
  "short_name seg = padded 8 (map sfn_char (fst seg)) @ padded 3 (map sfn_char (seg_ext seg))"

lemma chk_chr_illegal: "chk_chr illegal_chrs c = Some (if c \<in> set illegal_chrs then c else 0)"
  by (simp add: illegal_chrs_def)

lemma excvt_length: "length excvt = 128"
  by (simp add: excvt_def)

lemma excvt_high: "\<forall>c \<in> set excvt. 0x80 \<le> c \<and> c \<noteq> DDE"
  by (simp add: excvt_def ff_consts)

lemma high_index: "0x80 \<le> (c :: u8) \<Longrightarrow> unat (c - 0x80) < 128"
  using unat_u8_lt [of c] by (simp add: word_le_nat_alt unat_sub)

lemma oem_upper_get: "0x80 \<le> c \<Longrightarrow> arr_get excvt (unat (c - 0x80)) = Some (oem_upper c)"
  using high_index [of c] by (simp add: oem_upper_def array_simps excvt_length)

lemma sfn_char_plain: "0x20 < c \<Longrightarrow> 0x20 < sfn_char c \<and> sfn_char c \<noteq> DDE"
proof (cases "0x80 \<le> c")
  case True
  then have "excvt ! unat (c - 0x80) \<in> set excvt" using high_index excvt_length by simp
  then have "0x80 \<le> oem_upper c" "oem_upper c \<noteq> DDE" using True excvt_high by (auto simp: oem_upper_def)
  moreover from this(1) have "\<not> IsLower (oem_upper c)" "0x20 < oem_upper c" by (auto simp: IsLower_def word_le_nat_alt word_less_nat_alt)
  ultimately show ?thesis by (simp add: sfn_char_def Let_def)
next
  case False
  assume "0x20 < c"
  then show ?thesis using False
    by (auto simp: sfn_char_def oem_upper_def Let_def IsLower_def ff_consts word_le_nat_alt word_less_nat_alt unat_sub)
qed

lemma name_loop_char:
  assumes "name_char c" "i < ni" "ni \<le> length sfn"
  shows "\<exists>b'. name_loop (c # p) i ni b sfn = name_loop p (Suc i) ni b' (sfn[i := sfn_char c])"
proof -
  have n: "\<not> c \<le> 0x20" "\<not> is_sep c" "c \<noteq> 0x2E" "oem_upper c \<notin> set illegal_chrs"
    using assms(1) by (auto simp: name_char_def)
  obtain b1 where b1: "(if 0x80 \<le> c then do { c \<leftarrow> arr_get excvt (unat (c - 0x80)); Some (c, b OR 3) } else Some (c, b)) = Some (oem_upper c, b1)"
    using oem_upper_get [of c] by (cases "0x80 \<le> c") (simp_all add: oem_upper_def)
  have up: "IsUpper x \<Longrightarrow> \<not> IsLower x" for x by (auto simp: IsUpper_def IsLower_def word_le_nat_alt)
  have s: "arr_set sfn i v = Some (sfn[i := v])" for v using assms(2,3) by (simp add: array_simps)
  consider "IsUpper (oem_upper c)" | "\<not> IsUpper (oem_upper c)" "IsLower (oem_upper c)"
    | "\<not> IsUpper (oem_upper c)" "\<not> IsLower (oem_upper c)" by blast
  then show ?thesis
    using n assms(2) b1 s up by cases (auto simp: chk_chr_illegal sfn_char_def Let_def)
qed

lemma name_loop_chars:
  assumes "\<forall>c \<in> set cs. name_char c" "i + length cs \<le> ni" "ni \<le> length sfn"
  shows "\<exists>b'. name_loop (cs @ p) i ni b sfn =
     name_loop p (i + length cs) ni b' (take i sfn @ map sfn_char cs @ drop (i + length cs) sfn)"
  using assms
proof (induction cs arbitrary: i b sfn)
  case (Cons c cs)
  have i: "i < ni" "Suc i + length cs \<le> ni" "i < length sfn" using Cons.prems by simp_all
  obtain b1 where "name_loop (c # (cs @ p)) i ni b sfn = name_loop (cs @ p) (Suc i) ni b1 (sfn[i := sfn_char c])"
    using name_loop_char [of c i ni sfn] Cons.prems i by fastforce
  moreover obtain b2 where "name_loop (cs @ p) (Suc i) ni b1 (sfn[i := sfn_char c]) = name_loop p (Suc i + length cs) ni b2
      (take (Suc i) (sfn[i := sfn_char c]) @ map sfn_char cs @ drop (Suc i + length cs) (sfn[i := sfn_char c]))"
    using Cons.IH [of "Suc i" "sfn[i := sfn_char c]"] Cons.prems i by fastforce
  ultimately show ?case using i(3) by (auto simp: take_update_shift)
qed auto

lemma name_loop_end:
  "t \<le> 0x20 \<or> is_sep t \<Longrightarrow> name_loop (t # p) i ni b sfn = Some (Inr (t, p, i, ni, b, sfn))"
  by auto

lemma mem_set_fill:
  "d + n \<le> length xs \<Longrightarrow> mem_set xs d v n = Some (take d xs @ replicate n v @ drop (d + n) xs)"
proof (induction n arbitrary: d xs)
  case (Suc n)
  then have "take (Suc d) (xs[d := v]) = take d xs @ [v]" by (simp add: take_update_shift)
  then show ?case using Suc by (simp add: array_simps)
qed simp

lemma name_loop_seg:
  assumes "seg_ok seg" "t \<le> 0x20 \<or> is_sep t"
  shows "\<exists>i ni b'. name_loop (seg_text seg @ t # rest) 0 8 b (replicate 11 0x20 @ [x]) =
     Some (Inr (t, rest, i, ni, b', short_name seg @ [x])) \<and> i \<noteq> 0"
proof -
  obtain body ext where seg: "seg = (body, ext)" by (cases seg)
  have ok: "\<forall>c \<in> set body. name_char c" "length body \<le> 8" using assms(1) by (auto simp: seg_ok_def seg)
  define sfn where "sfn = map sfn_char body @ replicate (8 - length body) 0x20 @ replicate 3 0x20 @ [x]"
  have init: "replicate (11 - length body) 0x20 @ [x] = replicate (8 - length body) 0x20 @ replicate 3 0x20 @ [x]"
    using ok(2) replicate_add [of "8 - length body" 3 "0x20 :: u8"] by simp
  have b1: "\<exists>b1. name_loop (body @ p) 0 8 b (replicate 11 0x20 @ [x]) = name_loop p (length body) 8 b1 sfn" for p
    using name_loop_chars [OF ok(1), of 0 8 "replicate 11 0x20 @ [x]" p b] ok(2) by (simp add: sfn_def init)
  note fin = name_loop_end [OF assms(2)]
  show ?thesis
  proof (cases ext)
    case None
    then show ?thesis
      using b1 [of "t # rest"] assms(1)
      by (auto simp: fin seg seg_text_def short_name_def padded_def seg_ext_def sfn_def seg_ok_def simp del: name_loop.simps)
  next
    case (Some e)
    have e: "\<forall>c \<in> set e. name_char c" "length e \<le> 3" using assms(1) Some by (auto simp: seg_ok_def seg)
    have tk: "take 8 sfn = map sfn_char body @ replicate (8 - length body) 0x20"
      "drop (8 + length e) sfn = replicate (3 - length e) 0x20 @ [x]" using ok(2) e(2) by (simp_all add: sfn_def)
    obtain b1 where "name_loop (body @ 0x2E # e @ t # rest) 0 8 b (replicate 11 0x20 @ [x]) =
        name_loop (0x2E # e @ t # rest) (length body) 8 b1 sfn"
      using b1 [of "0x2E # e @ t # rest"] by blast
    moreover have "name_loop (0x2E # e @ t # rest) (length body) 8 b1 sfn = name_loop (e @ t # rest) 8 11 (push_bit 2 b1) sfn"
      by (simp add: is_sep_def)
    moreover obtain b2 where "name_loop (e @ t # rest) 8 11 (push_bit 2 b1) sfn =
        name_loop (t # rest) (8 + length e) 11 b2 (take 8 sfn @ map sfn_char e @ drop (8 + length e) sfn)"
      using name_loop_chars [OF e(1), of 8 11 sfn] e(2) ok(2) by (auto simp: sfn_def simp del: name_loop.simps)
    ultimately show ?thesis
      by (simp add: fin seg seg_text_def short_name_def padded_def seg_ext_def Some tk del: name_loop.simps)
  qed
qed

lemma short_name_length [simp]: "seg_ok seg \<Longrightarrow> length (short_name seg) = 11"
  by (auto simp: short_name_def padded_def seg_ok_def seg_ext_def split: option.splits)

lemma seg_ok_ext: "seg_ok seg \<Longrightarrow> length (seg_ext seg) \<le> 3 \<and> (\<forall>c \<in> set (seg_ext seg). name_char c)"
  by (auto simp: seg_ok_def seg_ext_def split: option.splits)

lemma seg_text_first: "seg_ok seg \<Longrightarrow> \<exists>c cs. seg_text seg = c # cs \<and> \<not> is_sep c"
  by (cases "fst seg") (auto simp: seg_ok_def seg_text_def name_char_def is_sep_def split: option.splits)

lemma short_name_not_deleted:
  assumes "seg_ok seg"
  shows "short_name seg ! 0 \<noteq> DDE"
proof (cases "fst seg")
  case Nil
  then show ?thesis by (simp add: short_name_def padded_def ff_consts nth_append)
next
  case (Cons c cs)
  then have "0x20 < c" using assms by (simp add: seg_ok_def name_char_def)
  then show ?thesis using Cons sfn_char_plain [of c] by (simp add: short_name_def padded_def)
qed

text \<open>\<^verbatim>\<open>create_name\<close> gives the name a directory entry has; the last segment is marked.\<close>

lemma create_name_seg:
  assumes "seg_ok seg" "t \<le> 0x20 \<or> is_sep t" "\<forall>c \<in> set seps. is_sep c" "length (dj_fn dj) = 12"
  shows "\<exists>ns. create_name (seps @ seg_text seg @ t # rest) dj = Some (FR_OK, dj\<lparr>dj_fn := short_name seg @ [ns]\<rparr>, rest) \<and>
     (ns AND NS_LAST \<noteq> 0 \<longleftrightarrow> t \<le> 0x20)"
proof -
  have dw: "dropWhile is_sep (seps @ seg_text seg @ t # rest) = seg_text seg @ t # rest"
    using seg_text_first [OF assms(1)] assms(3) by (auto simp: dropWhile_append2)
  define x where "x = dj_fn dj ! 11"
  have ms: "mem_set (dj_fn dj) 0 0x20 11 = Some (replicate 11 0x20 @ [x])"
    using mem_set_fill [of 0 11 "dj_fn dj"] assms(4) by (simp add: x_def) (simp add: flip: Cons_nth_drop_Suc)
  obtain i ni b where lp: "name_loop (seg_text seg @ t # rest) 0 8 0 (replicate 11 0x20 @ [x]) =
      Some (Inr (t, rest, i, ni, b, short_name seg @ [x]))" "i \<noteq> 0"
    using name_loop_seg [OF assms(1,2)] by blast
  define c where "c = (if t \<le> 0x20 then NS_LAST else 0)"
  define b' where "b' = (if ni = 8 then push_bit 2 b else b)"
  define c' where "c' = (if b' AND 0x03 = 0x01 then c OR NS_EXT else c)"
  define ns where "ns = (if b' AND 0x0C = 0x04 then c' OR NS_BODY else c')"
  have l: "length (short_name seg @ [x]) = 12" "(short_name seg @ [x]) ! 0 \<noteq> DDE"
    using short_name_length [OF assms(1)] short_name_not_deleted [OF assms(1)] by (simp_all add: nth_append)
  have "ns AND NS_LAST \<noteq> 0 \<longleftrightarrow> t \<le> 0x20"
    by (auto simp: ns_def c'_def c_def ff_consts)
  moreover have "create_name (seps @ seg_text seg @ t # rest) dj = Some (FR_OK, dj\<lparr>dj_fn := short_name seg @ [ns]\<rparr>, rest)"
    using lp ms l short_name_length [OF assms(1)]
    by (simp add: create_name_def dw array_simps Let_def ff_consts list_update_append ns_def c'_def b'_def c_def)
  ultimately show ?thesis by blast
qed

section \<open>Reading an entry back\<close>

lemma copy_name_spec:
  assumes "take n (drop k w) = padded n cs" "length cs \<le> n" "\<forall>c \<in> set cs. c \<noteq> 0x20 \<and> c \<noteq> NDDE" "k + n \<le> length w"
    and "p + length cs \<le> length fname"
  shows "copy_name body w k n (fname, p) = Some (take p fname @ cs @ drop (p + length cs) fname, p + length cs)"
  using assms
proof (induction n arbitrary: k cs p fname)
  case (Suc n)
  have w: "take (Suc n) (drop k w) = w ! k # take n (drop (Suc k) w)"
    using Suc.prems(4) by (simp flip: Cons_nth_drop_Suc)
  have k: "k < length w" using Suc.prems(4) by simp
  show ?case
  proof (cases cs)
    case Nil
    then have "w ! k = 0x20" using Suc.prems(1) w by (simp add: padded_def)
    then show ?thesis using Nil k by (simp add: array_simps)
  next
    case (Cons c cs')
    then have c: "w ! k = c" "take n (drop (Suc k) w) = padded n cs'" using Suc.prems(1) w by (simp_all add: padded_def)
    have p: "p < length fname" using Suc.prems(5) Cons by simp
    have "copy_name body w (Suc k) n (fname[p := c], Suc p) =
        Some (take (Suc p) (fname[p := c]) @ cs' @ drop (Suc p + length cs') (fname[p := c]), Suc p + length cs')"
      using Suc.prems Cons by (intro Suc.IH [OF c(2)]) auto
    then show ?thesis using Cons c(1) k p Suc.prems(3) by (simp add: array_simps take_update_shift)
  qed
qed (simp add: padded_def)

text \<open>The text of an entry: upper case, with a dot only in front of an extension.\<close>

definition shown_name :: "segment \<Rightarrow> u8 list" where
  "shown_name seg =
     map sfn_char (fst seg) @ (if seg_ext seg = [] then [] else 0x2E # map sfn_char (seg_ext seg))"

lemma shown_name_length: "seg_ok seg \<Longrightarrow> length (shown_name seg) \<le> 12"
  using seg_ok_ext [of seg] by (auto simp: shown_name_def seg_ok_def)

lemma sfn_chars: "\<forall>c \<in> set cs. name_char c \<Longrightarrow> \<forall>c \<in> set (map sfn_char cs). c \<noteq> 0x20 \<and> c \<noteq> NDDE \<and> c \<noteq> 0"
  using sfn_char_plain by (fastforce simp: name_char_def ff_consts)

lemma shown_name_no_nul: "seg_ok seg \<Longrightarrow> 0 \<notin> set (shown_name seg)"
proof -
  assume ok: "seg_ok seg"
  then have "0 \<notin> set (map sfn_char (fst seg))" "0 \<notin> set (map sfn_char (seg_ext seg))"
    using seg_ok_ext [OF ok] sfn_chars by (auto simp only: seg_ok_def)
  then show ?thesis by (simp add: shown_name_def)
qed

lemma cstr_terminated:
  assumes "0 \<notin> set xs" "take (length xs) ys = xs" "length xs < length ys"
  shows "cstr (ys[length xs := 0]) = xs"
proof -
  have "ys[length xs := 0] = xs @ 0 # drop (Suc (length xs)) ys"
    using upd_conv_take_nth_drop [OF assms(3), of 0] assms(2) by simp
  then show ?thesis using cstr_append [OF assms(1)] by simp
qed

lemma seg_fields:
  assumes "seg_ok seg"
  defines "body \<equiv> map sfn_char (fst seg)" and "ext \<equiv> map sfn_char (seg_ext seg)"
  shows "length body \<le> 8" "length ext \<le> 3" "\<forall>c \<in> set body. c \<noteq> 0x20 \<and> c \<noteq> NDDE" "\<forall>c \<in> set ext. c \<noteq> 0x20 \<and> c \<noteq> NDDE"
    "shown_name seg = body @ (if ext = [] then [] else 0x2E # ext)" "short_name seg = padded 8 body @ padded 3 ext"
  using seg_ok_ext [OF assms(1)] sfn_chars [of "fst seg"] sfn_chars [of "seg_ext seg"] assms(1)
  by (simp_all add: body_def ext_def seg_ok_def shown_name_def short_name_def)

lemma name_fields:
  assumes "take 11 (drop d w) = padded 8 body @ padded 3 ext" "length body \<le> 8" "length ext \<le> 3"
    and "\<forall>c \<in> set ext. c \<noteq> 0x20 \<and> c \<noteq> NDDE" "d + 11 \<le> length w"
  shows "take 8 (drop d w) = padded 8 body" "take 3 (drop (d + 8) w) = padded 3 ext" "w ! (d + 8) = 0x20 \<longleftrightarrow> ext = []"
proof -
  have "length (padded 8 body) = 8" using assms(2) by (simp add: padded_def)
  then have "take 8 (take 11 (drop d w)) = padded 8 body" "drop 8 (take 11 (drop d w)) = padded 3 ext"
    by (simp_all add: assms(1))
  then show b: "take 8 (drop d w) = padded 8 body" "take 3 (drop (d + 8) w) = padded 3 ext"
    by (simp_all add: drop_take add.commute)
  have "w ! (d + 8) = padded 3 ext ! 0" using assms(5) by (simp flip: b(2))
  then show "w ! (d + 8) = 0x20 \<longleftrightarrow> ext = []" using assms(4) by (cases ext) (auto simp: padded_def)
qed

lemma get_fileinfo_name:
  assumes "seg_ok seg" "dj_sect dj \<noteq> 0" "dj_dir dj = Some d" "d + 32 \<le> length (win fs)" "length (fi_fname fno) = 13"
    and nm: "take 11 (drop d (win fs)) = short_name seg"
  shows "\<exists>fno'. get_fileinfo fs dj fno = Some fno' \<and> cstr (fi_fname fno') = shown_name seg \<and>
     fi_fattrib fno' = win fs ! (d + DIR_Attr) \<and> LD_DWORD (win fs) (d + DIR_FileSize) = Some (fi_fsize fno')"
proof -
  define body where "body = map sfn_char (fst seg)"
  define ext where "ext = map sfn_char (seg_ext seg)"
  note ok = seg_fields [OF assms(1), folded body_def ext_def]
  note b = name_fields [OF nm [unfolded ok(6)] ok(1,2,4)]
  define f1 where "f1 = body @ drop (length body) (fi_fname fno)"
  have c1: "copy_name True (win fs) d 8 (fi_fname fno, 0) = Some (f1, length body)"
    using copy_name_spec [OF b(1) ok(1), of 0 "fi_fname fno" True] ok assms(4,5) by (simp add: f1_def)
  have l1: "length f1 = 13" using ok(1) assms(5) by (simp add: f1_def)
  define f2 where "f2 = (if ext = [] then f1 else body @ 0x2E # ext @ drop (Suc (length body + length ext)) f1)"
  have c2: "(if win fs ! (d + 8) \<noteq> 0x20 then
       do { fname \<leftarrow> arr_set f1 (length body) 0x2E; copy_name False (win fs) (d + 8) 3 (fname, Suc (length body)) }
     else Some (f1, length body)) = Some (f2, length (shown_name seg))"
  proof (cases "ext = []")
    case False
    have "take (Suc (length body)) (f1[length body := 0x2E]) = body @ [0x2E]"
      using ok(1) l1 by (simp add: take_update_shift f1_def)
    then show ?thesis
      using False b(3) copy_name_spec [OF b(2) ok(2), of "Suc (length body)" "f1[length body := 0x2E]" False] ok l1 assms(4)
      by (simp add: array_simps f2_def)
  qed (use b(3) assms(4) in \<open>simp add: f2_def ok(5)\<close>)
  have l2: "length f2 = 13" "take (length (shown_name seg)) f2 = shown_name seg"
    using ok(1,2) l1 by (auto simp: f2_def f1_def ok(5))
  note nul = cstr_terminated [OF shown_name_no_nul [OF assms(1)] l2(2)]
  have g: "arr_get (win fs) (d + 8) = Some (win fs ! (d + 8))" "arr_get (win fs) (d + DIR_Attr) = Some (win fs ! (d + DIR_Attr))"
    using assms(4) by (simp_all add: array_simps ff_consts)
  obtain sz dt tm where ld: "LD_DWORD (win fs) (d + DIR_FileSize) = Some sz" "LD_WORD (win fs) (d + DIR_WrtDate) = Some dt"
      "LD_WORD (win fs) (d + DIR_WrtTime) = Some tm"
    using assms(4) by (auto simp: LD_DWORD_def LD_WORD_def array_simps ff_consts)
  show ?thesis
    using assms(2,3) c1 c2 g ld shown_name_length [OF assms(1)] l2(1) nul
    by (simp add: get_fileinfo_def array_simps)
qed

section \<open>Properties\<close>

text \<open>
  Property C27. File names survive the round trip. A legal 8.3 path segment, upper or lower case
  and possibly behind extra separators, becomes the name field of a directory entry, marked as
  the last one exactly at the end of the path; \<^verbatim>\<open>get_fileinfo\<close> on an entry with that name gives
  the upper-case text of the segment back, with its attributes and size.
\<close>

theorem file_name_roundtrip:
  assumes "seg_ok seg" "t \<le> 0x20 \<or> is_sep t" "\<forall>c \<in> set seps. is_sep c" "length (dj_fn dj) = 12"
    and "dj_sect dj \<noteq> 0" "dj_dir dj = Some d" "d + 32 \<le> length (win fs)" "length (fi_fname fno) = 13"
  shows "\<exists>dj'. create_name (seps @ seg_text seg @ t # rest) dj = Some (FR_OK, dj', rest) \<and>
     take 11 (dj_fn dj') = short_name seg \<and> (dj_fn dj' ! NS AND NS_LAST \<noteq> 0 \<longleftrightarrow> t \<le> 0x20) \<and>
     (take 11 (drop d (win fs)) = take 11 (dj_fn dj') \<longrightarrow>
        (\<exists>fno'. get_fileinfo fs dj' fno = Some fno' \<and> cstr (fi_fname fno') = shown_name seg \<and>
          fi_fattrib fno' = win fs ! (d + DIR_Attr) \<and> LD_DWORD (win fs) (d + DIR_FileSize) = Some (fi_fsize fno')))"
proof -
  obtain ns where "create_name (seps @ seg_text seg @ t # rest) dj = Some (FR_OK, dj\<lparr>dj_fn := short_name seg @ [ns]\<rparr>, rest)"
      "ns AND NS_LAST \<noteq> 0 \<longleftrightarrow> t \<le> 0x20"
    using create_name_seg [OF assms(1-4)] by blast
  then show ?thesis
    using get_fileinfo_name [OF assms(1), of "dj\<lparr>dj_fn := short_name seg @ [ns]\<rparr>" d fs fno] assms(5-)
      short_name_length [OF assms(1)]
    by (simp add: nth_append ff_consts)
qed

definition demo_name_fs :: fatfs where
  "demo_name_fs =
     \<lparr>fs_type = FS_FAT16, drv = 0, csize = 1, n_fats = 1, wflag = 0, fs_id = 1, n_rootdir = 16, n_fatent = 6,
      fs_fsize = 1, fatbase = 1, dirbase = 2, database = 3, winsect = 2,
      win = replicate 32 0 @ [0x42, 0x4F, 0x4F, 0x54, 0x20, 0x20, 0x20, 0x20, 0x45, 0x4C, 0x46] @ replicate 469 0\<rparr>"

theorem file_name_roundtrip_witness:
  "\<exists>dj' fno'. create_name [0x2F, 0x62, 0x6F, 0x6F, 0x74, 0x2E, 0x45, 0x6C, 0x66, 0] (new_dir True\<lparr>dj_sect := 2, dj_dir := Some 32\<rparr>) =
       Some (FR_OK, dj', []) \<and>
     get_fileinfo demo_name_fs dj'
       \<lparr>fi_fsize = 0, fi_fdate = 0, fi_ftime = 0, fi_fattrib = 0, fi_fname = replicate 13 0\<rparr> = Some fno' \<and>
     cstr (fi_fname fno') = [0x42, 0x4F, 0x4F, 0x54, 0x2E, 0x45, 0x4C, 0x46]"
proof -
  define seg :: segment where "seg = ([0x62, 0x6F, 0x6F, 0x74], Some [0x45, 0x6C, 0x66])"
  have ok: "seg_ok seg"
    by (simp add: seg_def seg_ok_def name_char_def is_sep_def oem_upper_def illegal_chrs_def)
  have four: "replicate 4 x = [x, x, x, x]" for x :: u8 by (simp add: numeral_eq_Suc)
  have sn: "short_name seg = [0x42, 0x4F, 0x4F, 0x54, 0x20, 0x20, 0x20, 0x20, 0x45, 0x4C, 0x46]"
    "shown_name seg = [0x42, 0x4F, 0x4F, 0x54, 0x2E, 0x45, 0x4C, 0x46]"
    "[0x2F] @ seg_text seg @ 0 # [] = [0x2F, 0x62, 0x6F, 0x6F, 0x74, 0x2E, 0x45, 0x6C, 0x66, 0]"
    by (simp_all add: seg_def short_name_def shown_name_def seg_ext_def seg_text_def padded_def sfn_char_def
        oem_upper_def IsLower_def Let_def four)
  have w: "take 11 (drop 32 (win demo_name_fs)) = short_name seg" "length (win demo_name_fs) = 512"
    by (simp_all add: demo_name_fs_def sn)
  have h: "\<forall>c \<in> set [0x2F]. is_sep c" "length (dj_fn (new_dir True\<lparr>dj_sect := 2, dj_dir := Some 32\<rparr>)) = 12"
    by (simp_all add: is_sep_def new_dir_def)
  from file_name_roundtrip [OF ok _ h, of 0 32 demo_name_fs
      "\<lparr>fi_fsize = 0, fi_fdate = 0, fi_ftime = 0, fi_fattrib = 0, fi_fname = replicate 13 0\<rparr>" "[]", unfolded sn(3)]
  show ?thesis by (auto simp: w sn(2))
qed

end
