(* ===== verification/Fat_Path.thy ===== *)
theory Fat_Path
  imports Fat_Dir Fat_Name
begin

unbundle bit_operations_syntax

text \<open>
  Paths and opening. A path is a list of segments; what it leads to is defined by rules over
  the directory tables, and \<^verbatim>\<open>follow_path\<close>, \<^verbatim>\<open>f_open\<close> and \<^verbatim>\<open>f_stat\<close> are shown to find exactly that.
\<close>

section \<open>Where a path leads\<close>

text \<open>First cluster and size in a directory entry, least significant byte first.\<close>

definition entry_cluster :: "fatfs \<Rightarrow> u8 list \<Rightarrow> u32" where
  "entry_cluster fs e =
     of_nat (unat (e ! 26) + 256 * unat (e ! 27) +
       (if fs_type fs = FS_FAT32 then 65536 * (unat (e ! 20) + 256 * unat (e ! 21)) else 0))"

definition entry_size :: "u8 list \<Rightarrow> u32" where
  "entry_size e =
     of_nat (unat (e ! 28) + 256 * unat (e ! 29) + 65536 * unat (e ! 30) + 16777216 * unat (e ! 31))"

definition is_dir :: "u8 list \<Rightarrow> bool" where
  "is_dir e \<longleftrightarrow> e ! 11 AND AM_DIR \<noteq> 0"

text \<open>
  The outcome of a path from the directory of cluster \<open>start\<close> on: an error, or the chain of
  the last directory and the index of the entry in it.
\<close>

inductive path_leads ::
  "(u32 \<Rightarrow> bool) \<Rightarrow> (u32 \<Rightarrow> u8 list) \<Rightarrow> fatfs \<Rightarrow> u32 \<Rightarrow> segment list \<Rightarrow> fresult + u32 list \<times> nat \<Rightarrow> bool"
  for exists img fs where
  missing_file:
    "path_leads exists img fs start [seg] (Inl FR_NO_FILE)"
    if "dir_table exists img fs start chain" "find_name (short_name seg) (dir_entries img fs chain) = None"
| missing_dir:
    "path_leads exists img fs start (seg # segs) (Inl FR_NO_PATH)"
    if "segs \<noteq> []" "dir_table exists img fs start chain"
      "find_name (short_name seg) (dir_entries img fs chain) = None"
| not_a_dir:
    "path_leads exists img fs start (seg # segs) (Inl FR_NO_PATH)"
    if "segs \<noteq> []" "dir_table exists img fs start chain"
      "find_name (short_name seg) (dir_entries img fs chain) = Some i" "\<not> is_dir (dir_entry img fs chain i)"
| found:
    "path_leads exists img fs start [seg] (Inr (chain, i))"
    if "dir_table exists img fs start chain" "find_name (short_name seg) (dir_entries img fs chain) = Some i"
| enter:
    "path_leads exists img fs start (seg # segs) r"
    if "segs \<noteq> []" "dir_table exists img fs start chain"
      "find_name (short_name seg) (dir_entries img fs chain) = Some i" "is_dir (dir_entry img fs chain i)"
      "path_leads exists img fs (entry_cluster fs (dir_entry img fs chain i)) segs r"

text \<open>The text of a path.\<close>

fun path_text :: "segment list \<Rightarrow> u8 list" where
  "path_text [] = [0]"
| "path_text [seg] = seg_text seg @ [0]"
| "path_text (seg # segs) = seg_text seg @ 0x2F # path_text segs"

lemma find_name_take: "find_name (take 11 fn) es = find_name fn es"
  by (induction es) (simp_all add: entry_matches_def)

lemma same_vol_entry: "same_vol fs fs' \<Longrightarrow> entry_cluster fs' e = entry_cluster fs e"
  using same_vol_sel [of fs fs'] by (simp add: entry_cluster_def)

lemma same_vol_path:
  assumes "same_vol fs fs'" "path_leads exists img fs start segs r"
  shows "path_leads exists img fs' start segs r"
  using assms(2)
proof (induction rule: path_leads.induct)
  note sv = same_vol_dir [OF assms(1)] same_vol_entry [OF assms(1)]
  case (enter segs start chain seg i r)
  then show ?case by (intro path_leads.enter [where chain = chain and i = i]) (simp_all add: sv)
qed (auto simp: same_vol_dir [OF assms(1)] intro: path_leads.intros)

text \<open>The end of a walk: the outcome, the object found in the window, nothing else changed.\<close>

definition walk_ends ::
  "(u32 \<Rightarrow> bool) \<Rightarrow> ('s \<Rightarrow> bool) \<Rightarrow> (u32 \<Rightarrow> u8 list) \<Rightarrow> fatfs \<Rightarrow> dir \<Rightarrow> fresult + u32 list \<times> nat
   \<Rightarrow> fresult \<times> dir \<times> fatfs \<times> 's \<Rightarrow> bool" where
  "walk_ends exists good img fs dj res out \<longleftrightarrow>
     (let (r, dj', fs', s') = out
      in same_vol fs fs' \<and> win_ok img fs' \<and> good s' \<and> dj_fs dj' = dj_fs dj \<and>
         (case res of
            Inl e \<Rightarrow> r = e
          | Inr (chain, i) \<Rightarrow> r = FR_OK \<and> dir_at fs chain i dj' \<and> win fs' = img (dj_sect dj') \<and>
              (\<exists>start. dir_table exists img fs start chain)))"

lemma path_text_Cons: "segs \<noteq> [] \<Longrightarrow> path_text (seg # segs) = seg_text seg @ 0x2F # path_text segs"
  by (cases segs) simp_all

section \<open>Reading an entry\<close>

lemma entry_loads:
  assumes "e = take 32 (drop d (win fs))" "d + 32 \<le> length (win fs)"
  shows "ld_clust fs d = Some (entry_cluster fs e)" "LD_DWORD (win fs) (d + DIR_FileSize) = Some (entry_size e)"
    "arr_get (win fs) (d + DIR_Attr) = Some (e ! 11)"
proof -
  have b: "e ! k = win fs ! (d + k)" if "k < 32" for k using that assms by simp
  obtain lo hi sz where ld: "LD_WORD (win fs) (d + DIR_FstClusLO) = Some lo" "unat lo = unat (e ! 26) + 256 * unat (e ! 27)"
      "LD_WORD (win fs) (d + DIR_FstClusHI) = Some hi" "unat hi = unat (e ! 20) + 256 * unat (e ! 21)"
      "LD_DWORD (win fs) (d + DIR_FileSize) = Some sz"
      "unat sz = unat (e ! 28) + 256 * unat (e ! 29) + 65536 * unat (e ! 30) + 16777216 * unat (e ! 31)"
    using LD_WORD_in [of "d + 26" "win fs"] LD_WORD_in [of "d + 20" "win fs"] LD_DWORD_in [of "d + 28" "win fs"] assms(2)
    by (auto simp: b ff_consts ac_simps)
  have "(ucast lo :: u32) = of_nat (unat lo)" "push_bit 16 (ucast hi :: u32) = of_nat (65536 * unat hi)"
    by (simp_all add: push_bit_eq_mult mult.commute)
  moreover have "(ucast lo :: u32) OR push_bit 16 (ucast hi) = ucast lo + push_bit 16 (ucast hi)"
    by (intro disjunctive_add_eq_or [symmetric] bit_word_eqI) (auto simp: bit_simps dest: bit_imp_le_length)
  ultimately show "ld_clust fs d = Some (entry_cluster fs e)"
    using ld(1-4) by (simp add: ld_clust_def entry_cluster_def)
  have "sz = of_nat (unat sz)" by simp
  then show "LD_DWORD (win fs) (d + DIR_FileSize) = Some (entry_size e)"
    unfolding ld(6) using ld(5) by (simp only: entry_size_def)
  show "arr_get (win fs) (d + DIR_Attr) = Some (e ! 11)"
    using assms(2) by (simp add: array_simps b ff_consts)
qed

context disk_image
begin

text \<open>The object found is in the window.\<close>

lemma entry_in_window:
  assumes "vol_ok exists fs" "dir_table exists img fs start chain" "dir_at fs chain i dj" "win fs' = img (dj_sect dj)"
  defines "d \<equiv> 32 * (i mod 16)"
  shows "dj_dir dj = Some d" "dir_entry img fs chain i = take 32 (drop d (win fs'))" "d + 32 \<le> length (win fs')"
    "dj_sect dj \<noteq> 0"
proof -
  have i: "i < dir_size fs chain" and s: "dj_sect dj = dir_sectors fs chain ! (i div 16)"
    using assms(3) by (simp_all add: dir_at_def)
  show "dj_dir dj = Some d" using assms(3) by (simp add: dir_at_def d_def)
  show "dir_entry img fs chain i = take 32 (drop d (win fs'))" using assms(4) s by (simp add: dir_entry_def d_def)
  have "d \<le> 32 * 15" unfolding d_def by (intro mult_le_mono2) simp
  then show "d + 32 \<le> length (win fs')" using dir_sector(3) [OF assms(1,2) i] assms(4) s by simp
  show "dj_sect dj \<noteq> 0" using dir_sector(2) [OF assms(1,2) i] s by simp
qed

text \<open>One segment: name, search, and what the search says.\<close>

lemma find_segment:
  assumes "vol_ok exists fs" "dir_table exists img fs (dj_sclust dj) chain" "win_ok img fs" "inv s"
    and "seg_ok seg" "t \<le> 0x20 \<or> is_sep t" "length (dj_fn dj) = 12"
  shows "\<exists>ns dj1 dj' fs' s'. create_name (seg_text seg @ t # rest) dj = Some (FR_OK, dj1, rest) \<and>
     dj_fn dj' = short_name seg @ [ns] \<and> (ns AND NS_LAST \<noteq> 0 \<longleftrightarrow> t \<le> 0x20) \<and>
     same_vol fs fs' \<and> win_ok img fs' \<and> inv s' \<and> dj_fs dj' = dj_fs dj \<and>
     (case find_name (short_name seg) (dir_entries img fs chain) of
        None \<Rightarrow> dir_find dk (dj1, fs, s) = Some (FR_NO_FILE, dj', fs', s')
      | Some i \<Rightarrow> dir_find dk (dj1, fs, s) = Some (FR_OK, dj', fs', s') \<and> dir_at fs chain i dj' \<and> win fs' = img (dj_sect dj'))"
proof -
  obtain ns where c: "create_name (seg_text seg @ t # rest) dj = Some (FR_OK, dj\<lparr>dj_fn := short_name seg @ [ns]\<rparr>, rest)"
      "ns AND NS_LAST \<noteq> 0 \<longleftrightarrow> t \<le> 0x20"
    using create_name_seg [OF assms(5,6) _ assms(7), of "[]" rest] by auto
  define dj1 where "dj1 = dj\<lparr>dj_fn := short_name seg @ [ns]\<rparr>"
  have dt: "dir_table exists img fs (dj_sclust dj1) chain" "11 \<le> length (dj_fn dj1)"
    using assms(2) short_name_length [OF assms(5)] by (simp_all add: dj1_def)
  have fn: "find_name (dj_fn dj1) es = find_name (short_name seg) es" for es
    using find_name_take [of "dj_fn dj1" es] short_name_length [OF assms(5)] by (simp add: dj1_def)
  obtain dj' fs' s' where f: "dir_kept inv img (dj1, fs, s) (dj', fs', s')"
     "case find_name (short_name seg) (dir_entries img fs chain) of
        None \<Rightarrow> dir_find dk (dj1, fs, s) = Some (FR_NO_FILE, dj', fs', s')
      | Some i \<Rightarrow> dir_find dk (dj1, fs, s) = Some (FR_OK, dj', fs', s') \<and> dir_at fs chain i dj' \<and> win fs' = img (dj_sect dj')"
    using find_in_table [OF assms(1) dt(1) assms(3,4) dt(2), unfolded fn] by blast
  then show ?thesis
    using c by (intro exI [of _ ns] exI [of _ dj1] exI [of _ dj'] exI [of _ fs'] exI [of _ s'])
      (simp add: dj1_def dir_kept_def same_dir_def)
qed

text \<open>The rounds of the loop, from what the search says.\<close>

lemma segment_step:
  assumes "vol_ok exists fs" "dir_table exists img fs (dj_sclust dj) chain" "win_ok img fs" "inv s"
    and "seg_ok seg" "t \<le> 0x20 \<or> is_sep t" "length (dj_fn dj) = 12"
  shows "\<exists>dj' fs' s'. same_vol fs fs' \<and> win_ok img fs' \<and> inv s' \<and> dj_fs dj' = dj_fs dj \<and> length (dj_fn dj') = 12 \<and>
     (case find_name (short_name seg) (dir_entries img fs chain) of
        None \<Rightarrow> path_loop dk (seg_text seg @ t # rest) (dj, fs, s) =
          Some (if t \<le> 0x20 then FR_NO_FILE else FR_NO_PATH, dj', fs', s')
      | Some i \<Rightarrow> dir_at fs chain i dj' \<and> win fs' = img (dj_sect dj') \<and>
          path_loop dk (seg_text seg @ t # rest) (dj, fs, s) =
            (if t \<le> 0x20 then Some (FR_OK, dj', fs', s')
             else if \<not> is_dir (dir_entry img fs chain i) then Some (FR_NO_PATH, dj', fs', s')
             else path_loop dk rest (dj'\<lparr>dj_sclust := entry_cluster fs (dir_entry img fs chain i)\<rparr>, fs', s')))"
proof -
  obtain ns dj1 dj' fs' s' where f: "create_name (seg_text seg @ t # rest) dj = Some (FR_OK, dj1, rest)"
      "dj_fn dj' = short_name seg @ [ns]" "ns AND NS_LAST \<noteq> 0 \<longleftrightarrow> t \<le> 0x20"
      "same_vol fs fs'" "win_ok img fs'" "inv s'" "dj_fs dj' = dj_fs dj"
     "case find_name (short_name seg) (dir_entries img fs chain) of
        None \<Rightarrow> dir_find dk (dj1, fs, s) = Some (FR_NO_FILE, dj', fs', s')
      | Some i \<Rightarrow> dir_find dk (dj1, fs, s) = Some (FR_OK, dj', fs', s') \<and> dir_at fs chain i dj' \<and> win fs' = img (dj_sect dj')"
    using find_segment [OF assms] by blast
  have ns: "arr_get (dj_fn dj') NS = Some ns" "length (dj_fn dj') = 12"
    using f(2) short_name_length [OF assms(5)] by (simp_all add: array_simps ff_consts nth_append)
  have last: "ns AND NS_LAST = 0 \<longleftrightarrow> \<not> t \<le> 0x20" using f(3) by blast
  note step = path_loop.simps [of dk "seg_text seg @ t # rest" "(dj, fs, s)"]
  show ?thesis
  proof (cases "find_name (short_name seg) (dir_entries img fs chain)")
    case None
    then show ?thesis using f ns last by (intro exI [of _ dj'] exI [of _ fs'] exI [of _ s']) (simp add: step)
  next
    case (Some i)
    then have at: "dir_at fs chain i dj'" "win fs' = img (dj_sect dj')" "dir_find dk (dj1, fs, s) = Some (FR_OK, dj', fs', s')"
      using f(8) by simp_all
    note e = entry_in_window [OF assms(1,2) at(1,2)]
    note ld = entry_loads [OF e(2,3)]
    show ?thesis using Some f(1,2,4-7) ns last at e(1) ld same_vol_entry [OF f(4)]
      by (intro exI [of _ dj'] exI [of _ fs'] exI [of _ s']) (simp add: step is_dir_def)
  qed
qed

lemma walk:
  assumes "path_leads exists img fs start segs res" "vol_ok exists fs" "same_vol fs fs1" "win_ok img fs1" "inv s"
    and "\<forall>seg \<in> set segs. seg_ok seg" "length (dj_fn dj) = 12" "dj_sclust dj = start"
  shows "\<exists>out. path_loop dk (path_text segs) (dj, fs1, s) = Some out \<and> walk_ends exists inv img fs dj res out"
  using assms
proof (induction arbitrary: fs1 s dj rule: path_leads.induct)
  case (missing_file start chain seg)
  note sv = same_vol_dir [OF missing_file(4)] same_vol_file(1) [OF missing_file(4)]
  show ?case
    using segment_step [of fs1 dj chain s seg 0 "[]", unfolded sv] missing_file same_vol_trans [OF missing_file(4)]
    by (fastforce simp: walk_ends_def)
next
  case (missing_dir segs start chain seg)
  note sv = same_vol_dir [OF missing_dir(5)] same_vol_file(1) [OF missing_dir(5)]
  show ?case
    using segment_step [of fs1 dj chain s seg "0x2F" "path_text segs", unfolded sv] missing_dir same_vol_trans [OF missing_dir(5)]
    by (fastforce simp: walk_ends_def path_text_Cons is_sep_def)
next
  case (not_a_dir segs start chain seg i)
  note sv = same_vol_dir [OF not_a_dir(6)] same_vol_file(1) [OF not_a_dir(6)]
  show ?case
    using segment_step [of fs1 dj chain s seg "0x2F" "path_text segs", unfolded sv] not_a_dir same_vol_trans [OF not_a_dir(6)]
    by (fastforce simp: walk_ends_def path_text_Cons is_sep_def)
next
  case (found start chain seg i)
  note sv = same_vol_dir [OF found(4)] same_vol_file(1) [OF found(4)]
  show ?case
    using segment_step [of fs1 dj chain s seg 0 "[]", unfolded sv] found same_vol_trans [OF found(4)]
    by (fastforce simp: walk_ends_def)
next
  case (enter segs start chain seg i res)
  note sv = same_vol_dir [OF enter(8)] same_vol_file(1) [OF enter(8)] same_vol_entry [OF enter(8)]
  obtain dj' fs' s' where st: "same_vol fs1 fs'" "win_ok img fs'" "inv s'" "dj_fs dj' = dj_fs dj" "length (dj_fn dj') = 12"
     "path_loop dk (path_text (seg # segs)) (dj, fs1, s) =
        path_loop dk (path_text segs) (dj'\<lparr>dj_sclust := entry_cluster fs (dir_entry img fs chain i)\<rparr>, fs', s')"
    using segment_step [of fs1 dj chain s seg "0x2F" "path_text segs", unfolded sv] enter
    by (auto simp: path_text_Cons is_sep_def)
  show ?case
    using enter.IH [OF enter.prems(1) same_vol_trans [OF enter(8) st(1)] st(2,3), of "dj'\<lparr>dj_sclust := entry_cluster fs (dir_entry img fs chain i)\<rparr>"]
      st(4-) enter.prems
    by (fastforce simp: walk_ends_def)
qed

end

section \<open>Opening\<close>

lemma path_text_chars:
  assumes "\<forall>seg \<in> set segs. seg_ok seg"
  shows "0x3A \<notin> set (path_text segs)"
proof -
  have n: "name_char c \<Longrightarrow> c \<noteq> 0x3A" for c by (auto simp: name_char_def oem_upper_def illegal_chrs_def)
  have "seg_ok seg \<Longrightarrow> 0x3A \<notin> set (seg_text seg)" for seg
    using n by (fastforce simp: seg_ok_def seg_text_def split: option.splits)
  then show ?thesis using assms by (induction segs rule: path_text.induct) auto
qed

lemma path_text_first:
  assumes "\<forall>seg \<in> set segs. seg_ok seg" "segs \<noteq> []"
  shows "\<exists>c c' cs. path_text segs = c # c' # cs \<and> \<not> is_sep c \<and> 0x20 < c \<and> c' \<noteq> 0x3A"
proof -
  obtain seg segs' where segs: "segs = seg # segs'" using assms(2) by (cases segs) auto
  then have ok: "seg_ok seg" using assms(1) by simp
  have "\<exists>c cs. seg_text seg = c # cs \<and> \<not> is_sep c \<and> 0x20 < c"
    using ok by (cases "fst seg") (auto simp: seg_ok_def seg_text_def name_char_def is_sep_def split: option.splits)
  then obtain c cs where c: "seg_text seg = c # cs" "\<not> is_sep c" "0x20 < c" by blast
  have "\<exists>x xs. path_text segs = seg_text seg @ x # xs" by (cases segs') (auto simp: segs)
  then obtain c' cs' where p: "path_text segs = c # c' # cs'" using c(1) by (cases cs) auto
  then have "c' \<in> set (path_text segs)" by simp
  then have "c' \<noteq> 0x3A" using path_text_chars [OF assms(1)] by auto
  then show ?thesis using p c by blast
qed

definition path_lead :: "u8 list \<Rightarrow> bool" where
  "path_lead lead \<longleftrightarrow> length lead \<le> 1 \<and> (\<forall>c \<in> set lead. is_sep c)"

lemma path_lead_cases: "path_lead lead \<Longrightarrow> (lead = [] \<Longrightarrow> P) \<Longrightarrow> (\<And>c. lead = [c] \<Longrightarrow> is_sep c \<Longrightarrow> P) \<Longrightarrow> P"
  by (cases lead) (auto simp: path_lead_def)

text \<open>A path without drive number.\<close>

lemma chk_mounted_path:
  assumes "\<forall>seg \<in> set segs. seg_ok seg" "segs \<noteq> []" "path_lead lead"
  shows "chk_mounted dk (lead @ path_text segs) (v, s) =
     (if \<not> FatFs v then Some (FR_NOT_ENABLED, lead @ path_text segs, False, v, s)
      else if fs_type (vol_fs v) \<noteq> 0 \<and> dk_status dk (drv (vol_fs v)) AND STA_NOINIT = 0
      then Some (FR_OK, lead @ path_text segs, True, v, s)
      else do { (r, v, s) \<leftarrow> mount_volume dk (v, s); Some (r, lead @ path_text segs, True, v, s) })"
proof -
  obtain c c' cs where p: "path_text segs = c # c' # cs" "c' \<noteq> 0x3A" using path_text_first [OF assms(1,2)] by blast
  have "lead = [] \<or> (\<exists>x. lead = [x] \<and> \<not> (ucast x - 0x30 :: u32) \<le> 9)"
    using assms(3) by (rule path_lead_cases) (auto simp: is_sep_def word_le_nat_alt unsigned_minus_1_eq_mask mask_eq_exp_minus_1)
  then show ?thesis using p by (auto simp: chk_mounted_def array_simps Let_def)
qed

context disk_image
begin

lemma follow:
  assumes "path_leads exists img fs 0 segs res" "vol_ok exists fs" "win_ok img fs" "inv s"
    and "\<forall>seg \<in> set segs. seg_ok seg" "segs \<noteq> []" "path_lead lead" "length (dj_fn dj) = 12"
  shows "\<exists>out. follow_path dk (lead @ path_text segs) (dj, fs, s) = Some out \<and> walk_ends exists inv img fs dj res out"
proof -
  obtain c cs where p: "path_text segs = c # cs" "\<not> is_sep c" "0x20 < c" using path_text_first [OF assms(5,6)] by blast
  obtain out where w: "path_loop dk (path_text segs) (dj\<lparr>dj_sclust := 0\<rparr>, fs, s) = Some out"
      "walk_ends exists inv img fs (dj\<lparr>dj_sclust := 0\<rparr>) res out"
    using walk [OF assms(1,2) same_vol_refl assms(3,4,5), of "dj\<lparr>dj_sclust := 0\<rparr>"] assms(8) by auto
  have nlt: "\<not> c < 0x20" using p(3) by simp
  have "follow_path dk (lead @ path_text segs) (dj, fs, s) = path_loop dk (path_text segs) (dj\<lparr>dj_sclust := 0\<rparr>, fs, s)"
    using assms(7) by (rule path_lead_cases) (use p nlt in \<open>simp_all add: follow_path_def array_simps Let_def\<close>)
  then show ?thesis using w by (simp add: walk_ends_def)
qed

lemma mounted:
  assumes "FatFs v" "vol_ok exists (vol_fs v)" "win_ok img (vol_fs v)" "\<forall>seg \<in> set segs. seg_ok seg" "segs \<noteq> []" "path_lead lead"
  shows "chk_mounted dk (lead @ path_text segs) (v, s) = Some (FR_OK, lead @ path_text segs, True, v, s)"
proof -
  have "fs_type (vol_fs v) \<noteq> 0" "drv (vol_fs v) = 0"
    using assms(2,3) by (auto simp: vol_ok_def fat_ok_def ff_consts win_ok_def)
  then show ?thesis using assms(1) status by (simp add: chk_mounted_path [OF assms(4-6)])
qed

text \<open>Opening, with the state \<^verbatim>\<open>chk_mounted\<close> ends in.\<close>

lemma open_file:
  assumes vol: "chk_mounted dk (lead @ path_text segs) (v0, s0) = Some (FR_OK, lead @ path_text segs, True, v, s)"
      "vol_ok exists (vol_fs v)" "win_ok img (vol_fs v)" "inv s"
    and path: "\<forall>seg \<in> set segs. seg_ok seg" "segs \<noteq> []" "path_lead lead" "path_leads exists img (vol_fs v) 0 segs res"
  shows "\<exists>fp' fs' s'. same_vol (vol_fs v) fs' \<and> win_ok img fs' \<and> inv s' \<and>
     f_open dk (lead @ path_text segs) mode (fp, v0, s0) =
       Some (case res of Inl e \<Rightarrow> e
             | Inr (chain, i) \<Rightarrow> if is_dir (dir_entry img (vol_fs v) chain i) then FR_NO_FILE else FR_OK,
             fp', v\<lparr>vol_fs := fs'\<rparr>, s') \<and>
     (case res of
        Inl e \<Rightarrow> \<not> fil_fs fp'
      | Inr (chain, i) \<Rightarrow>
          (let e = dir_entry img (vol_fs v) chain i
           in fp' = (if is_dir e then fp\<lparr>fil_fs := False\<rparr>
                     else fp\<lparr>fil_fs := True, fil_id := fs_id (vol_fs v), flag := mode AND FA_READ, fptr := 0,
                             fsize := entry_size e, sclust := entry_cluster (vol_fs v) e, dsect := 0\<rparr>)))"
proof -
  define fs where "fs = vol_fs v"
  note m = vol(1)
  obtain r dj fs' s' where f: "follow_path dk (lead @ path_text segs) (new_dir True, fs, s) = Some (r, dj, fs', s')"
      "walk_ends exists inv img fs (new_dir True) res (r, dj, fs', s')"
    using follow [OF path(4) vol(2-4) path(1-3), of "new_dir True"] by (auto simp: fs_def new_dir_def)
  have k: "same_vol fs fs'" "win_ok img fs'" "inv s'" using f(2) by (simp_all add: walk_ends_def)
  note sv = same_vol_entry [OF k(1)] same_vol_sel [OF k(1)]
  show ?thesis
  proof (cases res)
    case (Inl e)
    have "e \<noteq> FR_OK" using path(4) [unfolded Inl] by (induction segs "Inl e :: fresult + u32 list \<times> nat" rule: path_leads.induct) auto
    then show ?thesis
      using f(2) m f(1) k Inl by (intro exI [of _ "fp\<lparr>fil_fs := False\<rparr>"] exI [of _ fs'] exI [of _ s'])
        (simp add: walk_ends_def f_open_def fs_def)
  next
    case (Inr ci)
    obtain chain i where ci: "ci = (chain, i)" by (cases ci)
    have w: "r = FR_OK" "dir_at fs chain i dj" "win fs' = img (dj_sect dj)" "\<exists>start. dir_table exists img fs start chain"
      using f(2) Inr ci by (simp_all add: walk_ends_def)
    then obtain start where dt: "dir_table exists img fs start chain" by blast
    note e = entry_in_window [OF vol(2) [folded fs_def] dt w(2,3)]
    note ld = entry_loads [OF e(2,3)]
    show ?thesis
      using m f(1) k Inr ci w(1) e(1) ld sv
      by (intro exI [of _ "if is_dir (dir_entry img fs chain i) then fp\<lparr>fil_fs := False\<rparr>
             else fp\<lparr>fil_fs := True, fil_id := fs_id fs, flag := mode AND FA_READ, fptr := 0,
                     fsize := entry_size (dir_entry img fs chain i),
                     sclust := entry_cluster fs (dir_entry img fs chain i), dsect := 0\<rparr>"] exI [of _ fs'] exI [of _ s'])
        (simp add: f_open_def Let_def is_dir_def flip: fs_def)
  qed
qed

lemma open_readable:
  assumes vol: "chk_mounted dk (lead @ path_text segs) (v0, s0) = Some (FR_OK, lead @ path_text segs, True, v, s)"
      "vol_ok exists (vol_fs v)" "win_ok img (vol_fs v)" "inv s"
    and path: "\<forall>seg \<in> set segs. seg_ok seg" "segs \<noteq> []" "path_lead lead"
      "path_leads exists img (vol_fs v) 0 segs (Inr (chain, i))"
    and entry: "e = dir_entry img (vol_fs v) chain i" "\<not> is_dir e"
    and data: "chain_ok img (vol_fs v) fchain" "fchain \<noteq> [] \<longrightarrow> hd fchain = entry_cluster (vol_fs v) e"
      "unat (entry_size e) \<le> cluster_bytes (vol_fs v) * length fchain"
    and fp: "mode AND FA_READ \<noteq> 0" "length (fbuf fp) = 512"
  shows "\<exists>fp' v' s'. f_open dk (lead @ path_text segs) mode (fp, v0, s0) = Some (FR_OK, fp', v', s') \<and>
     file_ok exists inv img fchain (fp', v', s') \<and> fptr fp' = 0 \<and> fsize fp' = entry_size e \<and>
     file_data img fchain (fp', v', s') = take (unat (entry_size e)) (chain_data img (vol_fs v) fchain) \<and>
     FatFs v' = FatFs v \<and> Fsid v' = Fsid v"
proof -
  obtain fp' fs' s' where o: "same_vol (vol_fs v) fs'" "win_ok img fs'" "inv s'"
     "f_open dk (lead @ path_text segs) mode (fp, v0, s0) = Some (FR_OK, fp', v\<lparr>vol_fs := fs'\<rparr>, s')"
     "fp' = fp\<lparr>fil_fs := True, fil_id := fs_id (vol_fs v), flag := mode AND FA_READ, fptr := 0,
               fsize := entry_size e, sclust := entry_cluster (vol_fs v) e, dsect := 0\<rparr>"
    using open_file [OF vol path, of mode fp] entry by (auto simp: Let_def)
  have "(mode AND FA_READ) AND FA__ERROR = 0" by (simp add: ff_consts and.assoc)
  then have "fil_ok img (vol_fs v) fchain fp'"
    using data fp o(5) by (simp add: fil_ok_def fil_base_def and.assoc)
  then show ?thesis
    using o vol(2) data(1) same_vol_file [OF o(1)] by (simp add: file_ok_def file_data_def)
qed

end

section \<open>Properties\<close>

text \<open>
  Property C9. Opening implements path resolution. On a mounted volume \<^verbatim>\<open>f_open\<close> with an absolute
  path of legal names ends with the outcome the directory tables define, through any number of
  subdirectories: \<^verbatim>\<open>FR_NO_PATH\<close> or \<^verbatim>\<open>FR_NO_FILE\<close> when a directory or the object is missing or a
  segment is no directory, \<^verbatim>\<open>FR_NO_FILE\<close> for a directory, and otherwise \<^verbatim>\<open>FR_OK\<close> with the first
  cluster and the size of the entry; a failed call leaves an invalid file object.
\<close>

theorem f_open_resolves_path:
  assumes "disk_image dk img exists good" "FatFs v" "vol_ok exists (vol_fs v)" "win_ok img (vol_fs v)" "good s"
    and "\<forall>seg \<in> set segs. seg_ok seg" "segs \<noteq> []" "path_lead lead" "path_leads exists img (vol_fs v) 0 segs res"
  shows "\<exists>fp' fs' s'. fs'\<lparr>win := win (vol_fs v), winsect := winsect (vol_fs v)\<rparr> = vol_fs v \<and> win_ok img fs' \<and> good s' \<and>
     f_open dk (lead @ path_text segs) mode (fp, v, s) =
       Some (case res of Inl e \<Rightarrow> e
             | Inr (chain, i) \<Rightarrow> if is_dir (dir_entry img (vol_fs v) chain i) then FR_NO_FILE else FR_OK,
             fp', v\<lparr>vol_fs := fs'\<rparr>, s') \<and>
     (case res of
        Inl e \<Rightarrow> \<not> fil_fs fp'
      | Inr (chain, i) \<Rightarrow>
          (let e = dir_entry img (vol_fs v) chain i
           in fp' = (if is_dir e then fp\<lparr>fil_fs := False\<rparr>
                     else fp\<lparr>fil_fs := True, fil_id := fs_id (vol_fs v), flag := mode AND FA_READ, fptr := 0,
                             fsize := entry_size e, sclust := entry_cluster (vol_fs v) e, dsect := 0\<rparr>)))"
  using disk_image.open_file [OF assms(1) disk_image.mounted [OF assms(1-4,6-8)] assms(3-)] unfolding same_vol_def .

text \<open>
  Property C13. Directory search is equivalent to the reference search in the table of entries:
  \<^verbatim>\<open>dir_find\<close> stops on the first entry in front of the end mark that is no volume label and has the
  name, with that entry in the window, and reports \<^verbatim>\<open>FR_NO_FILE\<close> when there is none, for the
  static root directory and for directories in cluster chains alike.
\<close>

theorem dir_find_equals_search:
  assumes "disk_image dk img exists good" "vol_ok exists fs" "dir_table exists img fs (dj_sclust dj) chain" "win_ok img fs"
    and "good s" "11 \<le> length (dj_fn dj)"
  shows "\<exists>dj' fs' s'. win_ok img fs' \<and> good s' \<and> fs'\<lparr>win := win fs, winsect := winsect fs\<rparr> = fs \<and>
     (case find_name (dj_fn dj) (dir_entries img fs chain) of
        None \<Rightarrow> dir_find dk (dj, fs, s) = Some (FR_NO_FILE, dj', fs', s')
      | Some i \<Rightarrow> dir_find dk (dj, fs, s) = Some (FR_OK, dj', fs', s') \<and> unat (dj_index dj') = i \<and>
          dj_dir dj' = Some (32 * (i mod 16)) \<and> take 32 (drop (32 * (i mod 16)) (win fs')) = dir_entry img fs chain i)"
proof -
  obtain dj' fs' s' where f: "dir_kept good img (dj, fs, s) (dj', fs', s')"
     "case find_name (dj_fn dj) (dir_entries img fs chain) of
        None \<Rightarrow> dir_find dk (dj, fs, s) = Some (FR_NO_FILE, dj', fs', s')
      | Some i \<Rightarrow> dir_find dk (dj, fs, s) = Some (FR_OK, dj', fs', s') \<and> dir_at fs chain i dj' \<and> win fs' = img (dj_sect dj')"
    using disk_image.find_in_table [OF assms] by blast
  then show ?thesis
    by (intro exI [of _ dj'] exI [of _ fs'] exI [of _ s'])
      (auto simp: dir_kept_def same_vol_def dir_at_def dir_entry_def split: option.splits)
qed

text \<open>
  Property C40. Open and read. Opening a file by its path and reading from it gives the bytes of
  the clusters its directory entry leads to, up to the size in the entry: path resolution, FAT
  and data access work on the same volume and leave each other's view of it intact.
\<close>

theorem open_then_read:
  assumes "disk_image dk img exists good" "FatFs v" "vol_ok exists (vol_fs v)" "win_ok img (vol_fs v)" "good s"
    and "\<forall>seg \<in> set segs. seg_ok seg" "segs \<noteq> []" "path_lead lead"
    and "path_leads exists img (vol_fs v) 0 segs (Inr (chain, i))" "e = dir_entry img (vol_fs v) chain i" "\<not> is_dir e"
    and "chain_ok img (vol_fs v) fchain" "fchain \<noteq> [] \<longrightarrow> hd fchain = entry_cluster (vol_fs v) e"
    and "unat (entry_size e) \<le> cluster_bytes (vol_fs v) * length fchain"
    and "mode AND FA_READ \<noteq> 0" "length (fbuf fp) = 512" "unat btr \<le> length buff"
  shows "\<exists>fp1 v1 s1 fp2 v2 s2. f_open dk (lead @ path_text segs) mode (fp, v, s) = Some (FR_OK, fp1, v1, s1) \<and>
     f_read dk buff btr (fp1, v1, s1) = Some (FR_OK,
       take (min (unat btr) (unat (entry_size e))) (chain_data img (vol_fs v) fchain) @
         drop (min (unat btr) (unat (entry_size e))) buff,
       of_nat (min (unat btr) (unat (entry_size e))), fp2, v2, s2)"
proof -
  obtain fp1 v1 s1 where o: "f_open dk (lead @ path_text segs) mode (fp, v, s) = Some (FR_OK, fp1, v1, s1)"
     "file_ok exists good img fchain (fp1, v1, s1)" "fptr fp1 = 0" "fsize fp1 = entry_size e"
     "file_data img fchain (fp1, v1, s1) = take (unat (entry_size e)) (chain_data img (vol_fs v) fchain)"
    using disk_image.open_readable [OF assms(1) disk_image.mounted [OF assms(1-4,6-8)] assms(3-16)] by blast
  show ?thesis
    using disk_image.read_file [OF assms(1) o(2) assms(17)] o by (auto simp: min.absorb1 take_all_iff)
qed

section \<open>Witnesses\<close>

definition demo_seg :: segment where
  "demo_seg = ([0x68, 0x65, 0x6C, 0x6C, 0x6F], Some [0x74, 0x78, 0x74])"

definition demo_path :: "u8 list" where
  "demo_path = [0x2F, 0x68, 0x65, 0x6C, 0x6C, 0x6F, 0x2E, 0x74, 0x78, 0x74, 0]"

lemma demo_seg_ok: "seg_ok demo_seg"
  by (simp add: demo_seg_def seg_ok_def name_char_def is_sep_def oem_upper_def illegal_chrs_def)

lemma demo_path_text: "[0x2F] @ path_text [demo_seg] = demo_path" "path_lead [0x2F]"
  by (simp_all add: demo_path_def demo_seg_def seg_text_def path_lead_def is_sep_def)

lemma demo_short_name: "short_name demo_seg = [0x48, 0x45, 0x4C, 0x4C, 0x4F, 0x20, 0x20, 0x20, 0x54, 0x58, 0x54]"
proof -
  have "replicate 3 x = [x, x, x]" for x :: u8 by (simp add: numeral_eq_Suc)
  then show ?thesis
    by (simp add: demo_seg_def short_name_def seg_ext_def padded_def sfn_char_def oem_upper_def IsLower_def Let_def)
qed

lemma demo_dir: "dir_table card_sectors demo_img_fat demo_fatfs 0 []" "dir_sectors demo_fatfs [] = [2]"
proof -
  show s: "dir_sectors demo_fatfs [] = [2]" by (simp add: dir_sectors_def demo_fatfs_def)
  show "dir_table card_sectors demo_img_fat demo_fatfs 0 []"
    by (simp add: dir_table_def s) (simp add: demo_fatfs_def ff_consts card_sectors_def)
qed

lemma demo_dir_entry: "dir_entry demo_img_fat demo_fatfs [] 0 = demo_entry"
  by (simp add: dir_entry_def demo_dir(2) pad_sector_def demo_cells_def demo_entry_def)

lemma demo_found: "find_name (short_name demo_seg) (dir_entries demo_img_fat demo_fatfs []) = Some 0"
proof -
  have "dir_entries demo_img_fat demo_fatfs [] = demo_entry # map (dir_entry demo_img_fat demo_fatfs []) [1..<16]"
    by (simp add: dir_entries_def dir_size_def demo_dir(2) demo_dir_entry upt_conv_Cons)
  then show ?thesis by (simp add: demo_short_name entry_matches_def demo_entry_def ff_consts)
qed

lemma demo_leads: "path_leads card_sectors demo_img_fat demo_fatfs 0 [demo_seg] (Inr ([], 0))"
  by (rule path_leads.found [OF demo_dir(1) demo_found])

lemma demo_entry_fields: "\<not> is_dir demo_entry" "entry_size demo_entry = 600" "entry_cluster demo_fatfs demo_entry = 2"
  by (simp_all add: demo_entry_def is_dir_def entry_size_def entry_cluster_def demo_fatfs_def ff_consts nth_append)

lemma demo_volume_ok:
  "FatFs demo_volume" "vol_fs demo_volume = demo_fatfs" "win_ok demo_img_fat demo_fatfs"
  by (simp_all add: demo_volume_def) (simp add: win_ok_def demo_fatfs_def demo_boot_def)

lemmas demo_open_hyps =
  demo_disk demo_volume_ok(1) demo_vol_ok [folded demo_volume_ok(2)] demo_volume_ok(3) [folded demo_volume_ok(2)] demo_ready

theorem f_open_resolves_path_witness:
  "\<exists>fp' v' s'. f_open demo_sd demo_path 1 (demo_fil, demo_volume, demo_mmc, demo_sim demo_card) =
     Some (FR_OK, fp', v', s') \<and> sclust fp' = 2 \<and> fsize fp' = 600"
proof -
  have leads: "path_leads card_sectors demo_img_fat (vol_fs demo_volume) 0 [demo_seg] (Inr ([], 0))"
    using demo_leads by (simp add: demo_volume_ok)
  have segs: "\<forall>seg \<in> set [demo_seg]. seg_ok seg" "[demo_seg] \<noteq> []" using demo_seg_ok by simp_all
  show ?thesis
    using f_open_resolves_path [OF demo_open_hyps segs demo_path_text(2) leads, of 1 demo_fil]
    unfolding demo_path_text(1) demo_volume_ok(2)
    by (auto simp: demo_dir_entry demo_entry_fields Let_def)
qed

theorem dir_find_equals_search_witness:
  "\<exists>dj' fs' s'. dir_find demo_sd (new_dir True\<lparr>dj_fn := short_name demo_seg @ [4]\<rparr>, demo_fatfs, demo_mmc, demo_sim demo_card) =
     Some (FR_OK, dj', fs', s') \<and> dj_dir dj' = Some 0"
proof -
  define dj where "dj = new_dir True\<lparr>dj_fn := short_name demo_seg @ [4]\<rparr>"
  have dj: "dir_table card_sectors demo_img_fat demo_fatfs (dj_sclust dj) []" "11 \<le> length (dj_fn dj)"
    using demo_dir(1) by (simp_all add: dj_def) (simp_all add: new_dir_def demo_short_name)
  have "find_name (dj_fn dj) (dir_entries demo_img_fat demo_fatfs []) = Some 0"
    using demo_found find_name_take [of "dj_fn dj"] by (simp add: dj_def demo_seg_ok)
  then show ?thesis
    using dir_find_equals_search [OF demo_disk demo_vol_ok dj(1) demo_volume_ok(3) demo_ready dj(2)]
    by (auto simp flip: dj_def)
qed

theorem open_then_read_witness:
  "\<exists>fp1 v1 s1 fp2 v2 s2. f_open demo_sd demo_path 1 (demo_fil, demo_volume, demo_mmc, demo_sim demo_card) =
       Some (FR_OK, fp1, v1, s1) \<and>
     f_read demo_sd (replicate 1024 0) 1024 (fp1, v1, s1) =
       Some (FR_OK, replicate 512 3 @ replicate 88 4 @ replicate 424 0, 600, fp2, v2, s2)"
proof -
  have leads: "path_leads card_sectors demo_img_fat (vol_fs demo_volume) 0 [demo_seg] (Inr ([], 0))"
    using demo_leads by (simp add: demo_volume_ok)
  have segs: "\<forall>seg \<in> set [demo_seg]. seg_ok seg" "[demo_seg] \<noteq> []" using demo_seg_ok by simp_all
  have e: "demo_entry = dir_entry demo_img_fat (vol_fs demo_volume) [] 0" by (simp add: demo_volume_ok demo_dir_entry)
  have c: "chain_ok demo_img_fat (vol_fs demo_volume) [2, 3]" using demo_chain by (simp add: demo_volume_ok)
  have sz: "unat (entry_size demo_entry) \<le> cluster_bytes (vol_fs demo_volume) * length [2 :: u32, 3]"
    by (simp add: demo_entry_fields cluster_bytes_def demo_volume_ok) (simp add: demo_fatfs_def)
  have "(1 :: u8) AND FA_READ \<noteq> 0" "length (fbuf demo_fil) = 512" "unat (1024 :: u32) \<le> length (replicate 1024 (0 :: u8))"
    by (simp_all add: ff_consts demo_fil_def)
  moreover have "[2, 3] \<noteq> [] \<longrightarrow> hd [2, 3] = entry_cluster (vol_fs demo_volume) demo_entry"
    by (simp add: demo_entry_fields demo_volume_ok)
  moreover have "take 600 (chain_data demo_img_fat demo_fatfs [2, 3]) = replicate 512 3 @ replicate 88 4"
    using demo_file_data [of undefined] by (simp add: file_data_def demo_volume_ok) (simp add: demo_fil_def)
  moreover have "min (unat (1024 :: u32)) (unat (entry_size demo_entry)) = 600" by (simp add: demo_entry_fields)
  ultimately show ?thesis
    using open_then_read [OF demo_open_hyps segs demo_path_text(2) leads e demo_entry_fields(1) c _ sz, of 1 demo_fil 1024 "replicate 1024 0"]
    unfolding demo_path_text(1) demo_volume_ok(2) by (auto simp: drop_replicate)
qed

end
