(* ===== verification/Fat_Mount.thy ===== *)
theory Fat_Mount
  imports Fat_Path
begin

unbundle bit_operations_syntax

text \<open>
  Mounting: what the analysis of the boot record accepts is a well-formed volume.
\<close>

section \<open>Geometry\<close>

lemma power_of_two_u8:
  assumes "(b :: u8) \<noteq> 0" "b AND (b - 1) = 0"
  shows "\<exists>k < 8. b = 2 ^ k"
proof -
  have "list_all (\<lambda>n. let b = (of_nat n :: u8) in b = 0 \<or> b AND (b - 1) \<noteq> 0 \<or> b \<in> set (map (\<lambda>k. 2 ^ k) [0..<8])) [0..<256]"
    by code_simp
  then have "\<forall>n \<in> set [0..<256]. (of_nat n :: u8) = 0 \<or> of_nat n AND (of_nat n - 1 :: u8) \<noteq> 0 \<or> (of_nat n :: u8) \<in> set (map (\<lambda>k. 2 ^ k) [0..<8])"
    unfolding list_all_iff Let_def .
  from bspec [OF this, of "unat b"] have "b \<in> set (map (\<lambda>k. 2 ^ k) [0..<8])" using assms unat_u8_lt [of b] by simp
  then show ?thesis by auto
qed

lemma fat_bytes_enough:
  assumes "fsz \<ge> (szbfat + 511) div (512 :: u32)" "unat szbfat \<le> 2 ^ 32 - 512" "n < unat szbfat"
  shows "n < 512 * unat fsz"
proof -
  have "unat (szbfat + 511) = unat szbfat + 511" using assms(2) by (simp add: unat_word_ariths)
  then have "(unat szbfat + 511) div 512 \<le> unat fsz" using assms(1) by (simp add: word_le_nat_alt unat_div)
  then show ?thesis using assms(3) by linarith
qed

definition geometry_ok :: "fatfs \<Rightarrow> u8 \<Rightarrow> bool" where
  "geometry_ok fs typ \<longleftrightarrow>
     (\<exists>k < 8. csize fs = 2 ^ k) \<and> (n_fats fs = 1 \<or> n_fats fs = 2) \<and> n_rootdir fs mod 16 = 0 \<and>
     typ = (if MIN_FAT32 \<le> n_fatent fs - 2 then FS_FAT32 else if MIN_FAT16 \<le> n_fatent fs - 2 then FS_FAT16 else FS_FAT12) \<and>
     n_fatent fs \<noteq> 2 \<and> (typ = FS_FAT32 \<longleftrightarrow> n_rootdir fs = 0) \<and>
     fs_fsize fs \<ge> ((if typ = FS_FAT32 then n_fatent fs * 4 else if typ = FS_FAT16 then n_fatent fs * 2
                     else n_fatent fs * 3 div 2 + (n_fatent fs AND 1)) + 511) div 512"

lemma set_limits_geometry:
  assumes "set_limits bsect nrsv fasize sysect nclst fs = Some (FR_OK, typ, fs')" "nclst \<noteq> 0"
  shows "typ = (if MIN_FAT32 \<le> n_fatent fs' - 2 then FS_FAT32 else if MIN_FAT16 \<le> n_fatent fs' - 2 then FS_FAT16 else FS_FAT12) \<and>
     n_fatent fs' \<noteq> 2 \<and> (typ = FS_FAT32 \<longleftrightarrow> n_rootdir fs' = 0) \<and> csize fs' = csize fs \<and> n_fats fs' = n_fats fs \<and>
     n_rootdir fs' = n_rootdir fs \<and> fs_fsize fs' = fs_fsize fs \<and> win fs' = win fs \<and> drv fs' = drv fs \<and>
     fs_fsize fs' \<ge> ((if typ = FS_FAT32 then n_fatent fs' * 4 else if typ = FS_FAT16 then n_fatent fs' * 2
                     else n_fatent fs' * 3 div 2 + (n_fatent fs' AND 1)) + 511) div 512"
  using assms
  by (auto simp: set_limits_def Let_def ff_consts not_less split: if_splits Option.bind_splits)

lemma read_bpb_limits:
  assumes "read_bpb bsect fs = Some (FR_OK, typ, fs')"
  obtains fs1 nrsv fasize sysect nclst where
    "set_limits bsect nrsv fasize sysect nclst fs1 = Some (FR_OK, typ, fs')" "nclst \<noteq> 0"
    "csize fs1 \<noteq> 0" "csize fs1 AND (csize fs1 - 1) = 0" "n_fats fs1 = 1 \<or> n_fats fs1 = 2"
    "n_rootdir fs1 mod 16 = 0" "win fs1 = win fs" "drv fs1 = drv fs"
  using assms unfolding read_bpb_def Let_def
  by (simp split: if_splits Option.bind_splits)

lemma read_bpb_geometry:
  assumes "read_bpb bsect fs = Some (FR_OK, typ, fs')"
  shows "geometry_ok fs' typ" "win fs' = win fs" "drv fs' = drv fs"
proof -
  obtain fs1 nrsv fasize sysect nclst where
    l: "set_limits bsect nrsv fasize sysect nclst fs1 = Some (FR_OK, typ, fs')" "nclst \<noteq> 0"
    and b: "csize fs1 \<noteq> 0" "csize fs1 AND (csize fs1 - 1) = 0" "n_fats fs1 = 1 \<or> n_fats fs1 = 2"
    "n_rootdir fs1 mod 16 = 0" "win fs1 = win fs" "drv fs1 = drv fs"
    by (rule read_bpb_limits [OF assms])
  note g = set_limits_geometry [OF l]
  have "csize fs' = csize fs1" "n_fats fs' = n_fats fs1" "n_rootdir fs' = n_rootdir fs1" using g by blast+
  then have "\<exists>k < 8. csize fs' = 2 ^ k" "n_fats fs' = 1 \<or> n_fats fs' = 2" "n_rootdir fs' mod 16 = 0"
    using power_of_two_u8 [OF b(1,2)] b(3,4) by (simp_all only:)
  then show "geometry_ok fs' typ" unfolding geometry_ok_def using g by blast
  show "win fs' = win fs" "drv fs' = drv fs" using g b(5,6) by simp_all
qed

text \<open>
  The volume a boot record describes, with the byte offsets and the cluster counts of the FAT
  specification as \<^verbatim>\<open>ff.c\<close> uses them: the reserved sectors, the copies of the FAT, the root directory
  and the clusters follow one another from the first sector \<open>bsect\<close> of the volume.
\<close>

definition fat_type_of :: "u32 \<Rightarrow> u8" where
  "fat_type_of clusters = (if clusters < 4086 then 1 else if clusters < 65526 then 2 else 3)"

definition boot_layout :: "u8 list \<Rightarrow> u32 \<Rightarrow> fatfs \<Rightarrow> bool" where
  "boot_layout b bsect fs \<longleftrightarrow>
     (\<exists>spc rsvd nfats root tot16 sz16 tot32 sz32.
        arr_get b 13 = Some spc \<and> LD_WORD b 14 = Some rsvd \<and> arr_get b 16 = Some nfats \<and> LD_WORD b 17 = Some root \<and>
        LD_WORD b 19 = Some tot16 \<and> LD_WORD b 22 = Some sz16 \<and> LD_DWORD b 32 = Some tot32 \<and> LD_DWORD b 36 = Some sz32 \<and>
        csize fs = spc \<and> n_fats fs = nfats \<and> n_rootdir fs = root \<and> fs_fsize fs = (if sz16 = 0 then sz32 else ucast sz16) \<and>
        fatbase fs = bsect + ucast rsvd \<and> database fs = fatbase fs + fs_fsize fs * ucast nfats + ucast (root div 16) \<and>
        n_fatent fs - 2 = ((if tot16 = 0 then tot32 else ucast tot16) - (database fs - bsect)) div ucast spc \<and>
        (if n_rootdir fs = 0 then LD_DWORD b 44 = Some (dirbase fs) else dirbase fs = fatbase fs + fs_fsize fs * ucast nfats))"

lemma set_limits_layout:
  assumes "set_limits bsect nrsv fasize sysect nclst fs = Some (FR_OK, typ, fs')"
  shows "fatbase fs' = bsect + ucast nrsv" "database fs' = bsect + sysect" "n_fatent fs' - 2 = nclst"
    "if n_rootdir fs' = 0 then LD_DWORD (win fs) 44 = Some (dirbase fs') else dirbase fs' = fatbase fs' + fasize"
    "csize fs' = csize fs" "n_fats fs' = n_fats fs" "n_rootdir fs' = n_rootdir fs" "fs_fsize fs' = fs_fsize fs"
  using assms by (auto simp: set_limits_def Let_def ff_consts split: if_splits Option.bind_splits)

lemma read_bpb_layout:
  assumes "read_bpb bsect fs = Some (FR_OK, typ, fs')"
  shows "boot_layout (win fs) bsect fs'"
proof -
  obtain spc rsvd nfats root tot16 sz16 tot32 sz32 fs1 where
    b: "arr_get (win fs) 13 = Some spc" "LD_WORD (win fs) 14 = Some rsvd" "arr_get (win fs) 16 = Some nfats" "LD_WORD (win fs) 17 = Some root"
      "LD_WORD (win fs) 19 = Some tot16" "LD_WORD (win fs) 22 = Some sz16" "LD_DWORD (win fs) 32 = Some tot32" "LD_DWORD (win fs) 36 = Some sz32"
    and f: "fs1 = fs\<lparr>fs_fsize := if sz16 = 0 then sz32 else ucast sz16, n_fats := nfats, csize := spc, n_rootdir := root\<rparr>"
    and l: "set_limits bsect rsvd (fs_fsize fs1 * ucast nfats) (ucast rsvd + fs_fsize fs1 * ucast nfats + ucast (root div 16))
        (((if tot16 = 0 then tot32 else ucast tot16) - (ucast rsvd + fs_fsize fs1 * ucast nfats + ucast (root div 16))) div ucast spc) fs1 =
      Some (FR_OK, typ, fs')"
    using assms unfolding read_bpb_def Let_def
    by (auto simp: ff_consts split: if_splits Option.bind_splits)
  note g = set_limits_layout [OF l]
  have "csize fs' = spc" "n_fats fs' = nfats" "n_rootdir fs' = root" "fs_fsize fs' = (if sz16 = 0 then sz32 else ucast sz16)" "win fs1 = win fs"
    using g(5-8) by (simp_all add: f)
  moreover have "if n_rootdir fs' = 0 then LD_DWORD (win fs) 44 = Some (dirbase fs') else dirbase fs' = fatbase fs' + fs_fsize fs' * ucast nfats"
    using g(4,8) calculation(5) by (simp split: if_splits)
  ultimately show ?thesis unfolding boot_layout_def using b g(1-3,8) by (simp add: algebra_simps)
qed

text \<open>The FAT of an accepted volume has room for all entries, unless its size in bytes wraps.\<close>

lemma geometry_type:
  assumes "geometry_ok fs typ"
  shows "typ \<in> {FS_FAT12, FS_FAT16, FS_FAT32}" "typ = FS_FAT12 \<Longrightarrow> unat (n_fatent fs) \<le> 4087"
proof -
  have t: "typ = (if MIN_FAT32 \<le> n_fatent fs - 2 then FS_FAT32 else if MIN_FAT16 \<le> n_fatent fs - 2 then FS_FAT16 else FS_FAT12)"
    using assms unfolding geometry_ok_def by blast
  then show "typ \<in> {FS_FAT12, FS_FAT16, FS_FAT32}" by (simp split: if_split)
  assume "typ = FS_FAT12"
  then have "n_fatent fs - 2 < MIN_FAT16" using t by (simp add: ff_consts split: if_splits)
  then have "unat (n_fatent fs - 2) < 4086" by (simp add: word_less_nat_alt ff_consts)
  then have "unat (of_nat (unat (n_fatent fs - 2) + 2) :: u32) = unat (n_fatent fs - 2) + 2"
    by (intro unat_of_nat_eq_small) simp
  then have "unat (n_fatent fs) = unat (n_fatent fs - 2) + 2" by simp
  then show "unat (n_fatent fs) \<le> 4087" using \<open>unat (n_fatent fs - 2) < 4086\<close> by simp
qed

lemma fat12_room: "c < m \<Longrightarrow> Suc (c + c div 2) < 3 * m div 2 + m mod (2 :: nat)"
proof -
  assume "c < m"
  moreover have "2 * (c div 2) \<le> c" by simp
  moreover have "2 * (3 * m div 2) + 3 * m mod 2 = 3 * m" by (rule mult_div_mod_eq)
  moreover have "3 * m mod 2 = m mod 2" by (simp add: mod2_eq_if)
  ultimately show ?thesis by linarith
qed

lemma geometry_fat_room:
  assumes "geometry_ok fs (fs_type fs)" "unat (n_fatent fs) \<le> 2 ^ 29" "c < unat (n_fatent fs)"
  shows "fat_last fs c < 512 * unat (fs_fsize fs)"
proof -
  define n where "n = n_fatent fs"
  define sz where "sz = (if fs_type fs = FS_FAT32 then n * 4 else if fs_type fs = FS_FAT16 then n * 2
                     else n * 3 div 2 + (n AND 1))"
  have room: "fs_fsize fs \<ge> (sz + 511) div 512" using assms(1) unfolding geometry_ok_def sz_def n_def by blast
  have n: "unat n \<le> 2 ^ 29" "c < unat n" using assms(2,3) by (simp_all add: n_def)
  have one: "unat (n AND 1) = unat n mod 2" by (simp add: and_one_eq unat_mod)
  have "unat (n * 4) = 4 * unat n" "unat (n * 2) = 2 * unat n" "unat (n * 3 div 2) = 3 * unat n div 2"
    using n(1) by (simp_all add: unat_word_ariths unat_div)
  moreover have "unat (n * 3 div 2 + (n AND 1)) = 3 * unat n div 2 + unat n mod 2"
    using n(1) calculation(3) one by (simp add: unat_word_ariths)
  ultimately have "unat sz = (if fs_type fs = FS_FAT32 then 4 * unat n else if fs_type fs = FS_FAT16 then 2 * unat n
      else 3 * unat n div 2 + unat n mod 2)"
    by (simp add: sz_def)
  moreover have "Suc (c + c div 2) < 3 * unat n div 2 + unat n mod 2" by (rule fat12_room [OF n(2)])
  moreover have "fs_type fs \<in> {FS_FAT12, FS_FAT16, FS_FAT32}" by (rule geometry_type(1) [OF assms(1)])
  ultimately have "unat sz \<le> 2 ^ 32 - 512" "fat_last fs c < unat sz"
    using n by (auto simp: fat_last_def ff_consts simp del: div_mult_self1_is_m)
  then show ?thesis using fat_bytes_enough [OF room] by blast
qed

lemma mount_geometry:
  assumes "mount_volume dk (v, s) = Some (FR_OK, v', s')"
  shows "geometry_ok (vol_fs v') (fs_type (vol_fs v'))" "winsect (vol_fs v') = 0" "fs_id (vol_fs v') = Fsid v + 1"
    "Fsid v' = Fsid v + 1" "FatFs v' = FatFs v" "\<exists>bsect. boot_layout (win (vol_fs v')) bsect (vol_fs v')"
proof -
  obtain bsect fs ft fs' where b: "read_bpb bsect fs = Some (FR_OK, ft, fs')"
      "v' = v\<lparr>vol_fs := fs'\<lparr>fs_type := ft, fs_id := Fsid v + 1, winsect := 0, wflag := 0\<rparr>, Fsid := Fsid v + 1\<rparr>"
    using assms by (auto simp: mount_volume_def Let_def split: Option.bind_splits if_splits)
  have sel: "fs_type (vol_fs v') = ft" "csize (vol_fs v') = csize fs'" "n_fats (vol_fs v') = n_fats fs'"
      "n_rootdir (vol_fs v') = n_rootdir fs'" "n_fatent (vol_fs v') = n_fatent fs'" "fs_fsize (vol_fs v') = fs_fsize fs'"
    using b(2) by simp_all
  show "geometry_ok (vol_fs v') (fs_type (vol_fs v'))"
    using read_bpb_geometry(1) [OF b(1)] unfolding geometry_ok_def sel .
  show "winsect (vol_fs v') = 0" "fs_id (vol_fs v') = Fsid v + 1" "Fsid v' = Fsid v + 1" "FatFs v' = FatFs v"
    using b(2) by simp_all
  have "boot_layout (win fs') bsect fs'" using read_bpb_layout [OF b(1)] read_bpb_geometry(2) [OF b(1)] by simp
  moreover have "win (vol_fs v') = win fs'" "boot_layout (win fs') bsect (vol_fs v') = boot_layout (win fs') bsect fs'"
    unfolding boot_layout_def b(2) by simp_all
  ultimately have "boot_layout (win (vol_fs v')) bsect (vol_fs v')" by simp
  then show "\<exists>bsect. boot_layout (win (vol_fs v')) bsect (vol_fs v')" by blast
qed

lemma geometry_fat_type: "geometry_ok fs typ \<Longrightarrow> typ = fat_type_of (n_fatent fs - 2)"
proof -
  assume "geometry_ok fs typ"
  then have "typ = (if 65526 \<le> n_fatent fs - 2 then 3 else if 4086 \<le> n_fatent fs - 2 then 2 else 1)"
    unfolding geometry_ok_def ff_consts by blast
  moreover have "\<not> 65526 \<le> n_fatent fs - 2" if "n_fatent fs - 2 < 4086" using that by (simp add: word_le_nat_alt word_less_nat_alt)
  ultimately show ?thesis by (auto simp: fat_type_of_def not_le [symmetric])
qed

section \<open>Property\<close>


section \<open>Witness\<close>

text \<open>A disk in memory.\<close>

definition ram_disk :: "(u32 \<Rightarrow> u8 list) \<Rightarrow> unit disk" where
  "ram_disk img =
     \<lparr>dk_initialize = \<lambda>d s. Some (0, s), dk_status = \<lambda>d. 0,
      dk_read = \<lambda>d buf sect n s. Some (RES_OK, concat (map (\<lambda>k. img (sect + of_nat k)) [0..<unat n]) @ drop (512 * unat n) buf, s)\<rparr>"

interpretation ram: disk_image "ram_disk (\<lambda>n. pad_sector (cells n))" "\<lambda>n. pad_sector (cells n)" "\<lambda>n. True" "\<lambda>s. True"
  for cells
  by unfold_locales (simp_all add: ram_disk_def)

lemma demo_boot_bytes:
  "LD_WORD demo_boot BS_55AA = Some 0xAA55" "LD_DWORD demo_boot BS_FilSysType = Some 0x544146"
  "LD_DWORD demo_boot BS_FilSysType32 = Some 0" "LD_WORD demo_boot BPB_BytsPerSec = Some 512"
  "LD_WORD demo_boot BPB_FATSz16 = Some 1" "LD_DWORD demo_boot BPB_FATSz32 = Some 0" "arr_get demo_boot BPB_NumFATs = Some 1"
  "arr_get demo_boot BPB_SecPerClus = Some 1" "LD_WORD demo_boot BPB_RootEntCnt = Some 16"
  "LD_WORD demo_boot BPB_TotSec16 = Some 20" "LD_DWORD demo_boot BPB_TotSec32 = Some 0" "LD_WORD demo_boot BPB_RsvdSecCnt = Some 1"
  by code_simp+

definition demo_mounted :: volume where
  "demo_mounted =
     \<lparr>vol_fs = demo_fatfs\<lparr>fs_id := 8, win := pad_sector demo_boot\<rparr>, FatFs = True, Fsid = 8\<rparr>"


end
