(* ===== verification/Boot.thy ===== *)
theory Boot
  imports Fat_Mount
begin

unbundle bit_operations_syntax

text \<open>
  The boot loader: \<^verbatim>\<open>bootelf\<close> of \<^verbatim>\<open>src/sdloader/src/main.c\<close>, which reads \<^verbatim>\<open>boot.elf\<close> from the card,
  copies its load segments to their addresses and calls the entry point.

  The record has the file's global variables; \<open>bo_mem\<close> is the memory the segments are copied
  to, byte by byte, taken to be apart from the loader's own variables. The processor is big
  endian, so the header fields are read most significant byte first. The result is \<open>Boot_entry\<close>
  with the address that is called, or \<open>Boot_error\<close> for the return value -1; the program itself
  is not part of the model. \<open>None\<close> is an access out of bounds or a signed overflow. Console
  messages are left out.
\<close>

section \<open>ELF headers\<close>

record Elf32_Ehdr =
  e_ident :: "u8 list"
  e_type :: u16
  e_machine :: u16
  e_version :: u32
  e_entry :: u32
  e_phoff :: u32
  e_shoff :: u32
  e_flags :: u32
  e_ehsize :: u16
  e_phentsize :: u16
  e_phnum :: u16
  e_shentsize :: u16
  e_shnum :: u16
  e_shstrndx :: u16

record Elf32_Phdr =
  p_type :: u32
  p_offset :: u32
  p_vaddr :: u32
  p_paddr :: u32
  p_filesz :: u32
  p_memsz :: u32
  p_flags :: u32
  p_align :: u32

definition be_half :: "u8 list \<Rightarrow> nat \<Rightarrow> u16 option" where
  "be_half xs i = do { a \<leftarrow> arr_get xs i; b \<leftarrow> arr_get xs (i + 1); Some (push_bit 8 (ucast a) OR ucast b) }"

definition be_word :: "u8 list \<Rightarrow> nat \<Rightarrow> u32 option" where
  "be_word xs i =
     do { a \<leftarrow> arr_get xs i; b \<leftarrow> arr_get xs (i + 1); c \<leftarrow> arr_get xs (i + 2); d \<leftarrow> arr_get xs (i + 3);
          Some (push_bit 24 (ucast a) OR push_bit 16 (ucast b) OR push_bit 8 (ucast c) OR ucast d) }"

definition ELFMAG :: "u8 list" where
  "ELFMAG = [0x7F, 0x45, 0x4C, 0x46]"

text \<open>The structures \<^verbatim>\<open>(Elf32_Ehdr *) buf\<close> and \<^verbatim>\<open>(Elf32_Phdr *) (buf + pos)\<close>.\<close>

definition read_ehdr :: "u8 list \<Rightarrow> Elf32_Ehdr option" where
  "read_ehdr buf =
     do { ty \<leftarrow> be_half buf 16; machine \<leftarrow> be_half buf 18; version \<leftarrow> be_word buf 20;
          entry \<leftarrow> be_word buf 24; phoff \<leftarrow> be_word buf 28; shoff \<leftarrow> be_word buf 32; flags \<leftarrow> be_word buf 36;
          ehsize \<leftarrow> be_half buf 40; phentsize \<leftarrow> be_half buf 42; phnum \<leftarrow> be_half buf 44;
          shentsize \<leftarrow> be_half buf 46; shnum \<leftarrow> be_half buf 48; shstrndx \<leftarrow> be_half buf 50;
          Some \<lparr>e_ident = take 16 buf, e_type = ty, e_machine = machine, e_version = version, e_entry = entry,
                e_phoff = phoff, e_shoff = shoff, e_flags = flags, e_ehsize = ehsize, e_phentsize = phentsize,
                e_phnum = phnum, e_shentsize = shentsize, e_shnum = shnum, e_shstrndx = shstrndx\<rparr> }"

definition read_phdr :: "u8 list \<Rightarrow> int \<Rightarrow> Elf32_Phdr option" where
  "read_phdr buf pos =
     (if pos < 0 then None
      else
        (let i = nat pos
         in do { ty \<leftarrow> be_word buf i; off \<leftarrow> be_word buf (i + 4); va \<leftarrow> be_word buf (i + 8);
                 pa \<leftarrow> be_word buf (i + 12); fsz \<leftarrow> be_word buf (i + 16); msz \<leftarrow> be_word buf (i + 20);
                 flags \<leftarrow> be_word buf (i + 24); align \<leftarrow> be_word buf (i + 28);
                 Some \<lparr>p_type = ty, p_offset = off, p_vaddr = va, p_paddr = pa, p_filesz = fsz, p_memsz = msz,
                       p_flags = flags, p_align = align\<rparr> }))"

section \<open>Memory\<close>

type_synonym mem = "u32 \<Rightarrow> u8"

definition mem_slice :: "mem \<Rightarrow> u32 \<Rightarrow> nat \<Rightarrow> u8 list" where
  "mem_slice m a n = map (\<lambda>k. m (a + of_nat k)) [0..<n]"

definition mem_write :: "mem \<Rightarrow> u32 \<Rightarrow> u8 list \<Rightarrow> mem" where
  "mem_write m a xs = (\<lambda>p. if unat (p - a) < length xs then xs ! unat (p - a) else m p)"

section \<open>The loader\<close>

record boot =
  bo_vol :: volume
  bo_fil :: fil
  bo_buf :: "u8 list"
  bo_mem :: mem

datatype boot_result = Boot_error | Boot_entry u32

definition CHUNK_SIZE :: u32 where
  "CHUNK_SIZE = 32768"

text \<open>One round of the chunk loop; false is the return with an error.\<close>

definition load_chunk ::
  "'s disk \<Rightarrow> Elf32_Phdr \<Rightarrow> nat \<Rightarrow> boot \<times> 's \<Rightarrow> (bool \<times> boot \<times> 's) option" where
  "load_chunk dk ph chunk st =
     (let (b, s) = st; to_read = p_filesz ph - of_nat chunk;
          to_read = (if sint to_read > sint CHUNK_SIZE then CHUNK_SIZE else to_read)
      in do { (r, fp, v, s) \<leftarrow> f_lseek dk (p_offset ph + of_nat chunk) (bo_fil b, bo_vol b, s);
              if r \<noteq> FR_OK then Some (False, b\<lparr>bo_fil := fp, bo_vol := v\<rparr>, s)
              else
                (let addr = p_vaddr ph + of_nat chunk
                 in do { (r, xs, br, fp, v, s) \<leftarrow>
                           f_read dk (mem_slice (bo_mem b) addr (unat to_read)) to_read (fp, v, s);
                         Some (r = FR_OK,
                               b\<lparr>bo_fil := fp, bo_vol := v, bo_mem := mem_write (bo_mem b) addr xs\<rparr>, s) }) })"

text \<open>\<open>for (chunk = 0; chunk < phdr->p_filesz; chunk += CHUNK_SIZE)\<close>, with an \<^verbatim>\<open>int\<close> counter.\<close>

function (sequential) load_chunks ::
  "'s disk \<Rightarrow> Elf32_Phdr \<Rightarrow> nat \<Rightarrow> boot \<times> 's \<Rightarrow> (bool \<times> boot \<times> 's) option" where
  "load_chunks dk ph chunk st =
     (if chunk < unat (p_filesz ph) then
        do { (go, st) \<leftarrow> load_chunk dk ph chunk st;
             if \<not> go then Some (False, st)
             else if 2 ^ 31 \<le> chunk + 32768 then None
             else load_chunks dk ph (chunk + 32768) st }
      else Some (True, st))"
  by pat_completeness auto
termination
  by (relation "measure (\<lambda>(dk, ph, chunk, st). unat (p_filesz ph) - chunk)") auto

declare load_chunks.simps [simp del]

definition load_segment :: "'s disk \<Rightarrow> Elf32_Phdr \<Rightarrow> boot \<times> 's \<Rightarrow> (bool \<times> boot \<times> 's) option" where
  "load_segment dk ph st =
     (if p_type ph = 1 then
        do { (go, b, s) \<leftarrow> (if 0 < p_filesz ph then load_chunks dk ph 0 st else Some (True, st));
             if \<not> go then Some (False, b, s)
             else if p_filesz ph < p_memsz ph then
               Some (True, b\<lparr>bo_mem := mem_write (bo_mem b) (p_vaddr ph + p_filesz ph)
                                       (replicate (unat (p_memsz ph - p_filesz ph)) 0)\<rparr>, s)
             else Some (True, b, s) }
      else Some (True, st))"

text \<open>The loop over the program headers: \<open>n\<close> of them, from number \<open>i\<close> on.\<close>

fun load_segments ::
  "'s disk \<Rightarrow> int \<Rightarrow> int \<Rightarrow> nat \<Rightarrow> nat \<Rightarrow> boot \<times> 's \<Rightarrow> (bool \<times> boot \<times> 's) option" where
  "load_segments dk ph_offset ph_size i 0 st = Some (True, st)"
| "load_segments dk ph_offset ph_size i (Suc n) st =
     do { ph \<leftarrow> read_phdr (bo_buf (fst st)) (ph_offset + ph_size * int i);
          (go, st) \<leftarrow> load_segment dk ph st;
          if \<not> go then Some (False, st) else load_segments dk ph_offset ph_size (Suc i) n st }"

definition boot_elf :: "u8 list" where
  "boot_elf = map of_char ''boot.elf'' @ [0]"

definition bootelf :: "'s disk \<Rightarrow> boot \<times> 's \<Rightarrow> (boot_result \<times> boot \<times> 's) option" where
  "bootelf dk st =
     (let (b, s) = st; (_, v) = f_mount 0 True (bo_vol b)
      in do { (r, fp, v, s) \<leftarrow> f_open dk boot_elf FA_READ (bo_fil b, v, s);
              let b = b\<lparr>bo_fil := fp, bo_vol := v\<rparr>;
              if r \<noteq> FR_OK then Some (Boot_error, b, s)
              else
                do { (r, buf, br, fp, v, s) \<leftarrow> f_read dk (bo_buf b) 512 (fp, v, s);
                     let b = b\<lparr>bo_fil := fp, bo_vol := v, bo_buf := buf\<rparr>;
                     if r \<noteq> FR_OK then Some (Boot_error, b, s)
                     else
                       do { ehdr \<leftarrow> read_ehdr buf;
                            if take 4 (e_ident ehdr) \<noteq> ELFMAG then Some (Boot_error, b, s)
                            else
                              do { (go, b, s) \<leftarrow>
                                     load_segments dk (sint (e_phoff ehdr)) (uint (e_phentsize ehdr)) 0
                                       (unat (e_phnum ehdr)) (b, s);
                                   Some (if go then Boot_entry (e_entry ehdr) else Boot_error, b, s) } } } })"

section \<open>Loading\<close>

lemma mem_write_append:
  assumes "length xs + length ys \<le> 2 ^ 32"
  shows "mem_write (mem_write m a xs) (a + of_nat (length xs)) ys = mem_write m a (xs @ ys)"
proof
  fix p :: u32
  define k where "k = unat (p - a)"
  have k: "k < 2 ^ 32" using unat_u32_lt [of "p - a"] by (simp add: k_def)
  have pa: "p - (a + of_nat (length xs)) = of_nat k - of_nat (length xs)" by (simp add: k_def algebra_simps)
  show "mem_write (mem_write m a xs) (a + of_nat (length xs)) ys p = mem_write m a (xs @ ys) p"
  proof (cases "length xs \<le> k")
    case True
    then have "of_nat k - of_nat (length xs) = (of_nat (k - length xs) :: u32)" by (simp add: of_nat_diff)
    then have "unat (p - (a + of_nat (length xs))) = k - length xs" using pa k by (simp add: unat_of_nat_eq_small)
    then show ?thesis using True assms by (auto simp: mem_write_def nth_append simp flip: k_def)
  next
    case False
    have "of_nat k - of_nat (length xs) = (of_nat (2 ^ 32 - (length xs - k)) :: u32)"
      using False assms by (simp add: of_nat_diff)
    then have "unat (p - (a + of_nat (length xs))) = 2 ^ 32 - (length xs - k)"
      using pa False by (simp add: unat_of_nat_eq_small)
    then have "\<not> unat (p - (a + of_nat (length xs))) < length ys" using False assms k by simp
    then show ?thesis using False by (simp add: mem_write_def nth_append flip: k_def)
  qed
qed

lemma sint_small: "unat (w :: u32) < 2 ^ 31 \<Longrightarrow> sint w = int (unat w)"
proof -
  assume "unat w < 2 ^ 31"
  then have "int (unat w) < int (2 ^ 31)" by (simp only: of_nat_less_iff)
  then have "uint w < 2 ^ 31" by simp
  moreover have "- (2 ^ 31) \<le> uint w" by (rule order_trans [of _ 0]) simp_all
  ultimately have "signed_take_bit 31 (uint w) = uint w" by (intro signed_take_bit_int_eq_self)
  then show ?thesis by (simp add: sint_uint)
qed

lemma mem_write_nil [simp]: "mem_write m a [] = m"
  by (simp add: mem_write_def)

lemma mem_slice_length [simp]: "length (mem_slice m a n) = n"
  by (simp add: mem_slice_def)

text \<open>What a segment does to the memory, from the contents of the file.\<close>

definition segment_image :: "u8 list \<Rightarrow> Elf32_Phdr \<Rightarrow> mem \<Rightarrow> mem" where
  "segment_image data ph m =
     (if p_type ph = 1 then
        mem_write (mem_write m (p_vaddr ph) (take (unat (p_filesz ph)) (drop (unat (p_offset ph)) data)))
          (p_vaddr ph + p_filesz ph) (replicate (unat (p_memsz ph) - unat (p_filesz ph)) 0)
      else m)"

text \<open>A load segment must be in the file, and its size must suit the loop counter.\<close>

definition segment_ok :: "u8 list \<Rightarrow> Elf32_Phdr \<Rightarrow> bool" where
  "segment_ok data ph \<longleftrightarrow>
     (p_type ph = 1 \<longrightarrow>
        unat (p_offset ph) + unat (p_filesz ph) \<le> length data \<and> unat (p_filesz ph) < 2 ^ 31 - 65536)"

definition boot_ok ::
  "(u32 \<Rightarrow> bool) \<Rightarrow> ('s \<Rightarrow> bool) \<Rightarrow> (u32 \<Rightarrow> u8 list) \<Rightarrow> u32 list \<Rightarrow> u8 list \<Rightarrow> boot \<times> 's \<Rightarrow> bool" where
  "boot_ok exists good img chain data st \<longleftrightarrow>
     (let (b, s) = st
      in file_ok exists good img chain (bo_fil b, bo_vol b, s) \<and>
         file_data img chain (bo_fil b, bo_vol b, s) = data \<and> length data = unat (fsize (bo_fil b)))"

context disk_image
begin

lemma chunk_loaded:
  assumes ok: "boot_ok exists inv img chain data (b, s)" and c: "chunk < unat (p_filesz ph)"
    and fit: "unat (p_offset ph) + unat (p_filesz ph) \<le> length data" "unat (p_filesz ph) < 2 ^ 31"
  shows "\<exists>b' s'. load_chunk dk ph chunk (b, s) = Some (True, b', s') \<and> boot_ok exists inv img chain data (b', s') \<and>
     bo_buf b' = bo_buf b \<and> bo_mem b' = mem_write (bo_mem b) (p_vaddr ph + of_nat chunk)
       (take (min 32768 (unat (p_filesz ph) - chunk)) (drop (unat (p_offset ph) + chunk) data))"
proof -
  define n where "n = min 32768 (unat (p_filesz ph) - chunk)"
  define rest where "rest = p_filesz ph - of_nat chunk"
  define btr where "btr = (if sint rest > sint CHUNK_SIZE then CHUNK_SIZE else rest)"
  have f: "file_ok exists inv img chain (bo_fil b, bo_vol b, s)" "file_data img chain (bo_fil b, bo_vol b, s) = data"
      "length data = unat (fsize (bo_fil b))"
    using ok by (simp_all add: boot_ok_def)
  have uc: "unat (of_nat chunk :: u32) = chunk" using c fit(2) by (intro unat_of_nat_eq_small) simp
  have rest: "unat rest = unat (p_filesz ph) - chunk"
    using c uc by (simp add: rest_def unat_sub word_le_nat_alt)
  have "sint rest = int (unat rest)" by (rule sint_small) (use rest fit(2) in simp)
  then have btr: "unat btr = n" using rest by (auto simp: btr_def n_def CHUNK_SIZE_def min_def)
  have off: "unat (p_offset ph + of_nat chunk) = unat (p_offset ph) + chunk"
    using c fit(1) uc f(3) unat_u32_lt [of "fsize (bo_fil b)"] by (simp add: unat_word_ariths)
  obtain fp v s1 where sk: "f_lseek dk (p_offset ph + of_nat chunk) (bo_fil b, bo_vol b, s) = Some (FR_OK, fp, v, s1)"
      "file_ok exists inv img chain (fp, v, s1)"
      "fptr fp = (if fsize (bo_fil b) < p_offset ph + of_nat chunk then fsize (bo_fil b) else p_offset ph + of_nat chunk)"
      "fsize fp = fsize (bo_fil b)" "file_data img chain (fp, v, s1) = data"
    using seek_file [OF f(1), of "p_offset ph + of_nat chunk"] f(2) by auto
  have fptr: "unat (fptr fp) = unat (p_offset ph) + chunk"
    using sk(3) off c fit(1) f(3) by (auto simp: word_less_nat_alt)
  have n: "min (unat btr) (unat (fsize fp) - unat (fptr fp)) = n"
    using btr fptr sk(4) fit(1) c f(3) by (auto simp: n_def)
  obtain fp' v' s' where rd: "f_read dk (mem_slice (bo_mem b) (p_vaddr ph + of_nat chunk) (unat btr)) btr (fp, v, s1) =
      Some (FR_OK, take n (drop (unat (p_offset ph) + chunk) data), of_nat n, fp', v', s')"
      "file_ok exists inv img chain (fp', v', s')" "fsize fp' = fsize fp" "file_data img chain (fp', v', s') = data"
    using read_file [OF sk(2), of btr "mem_slice (bo_mem b) (p_vaddr ph + of_nat chunk) (unat btr)", unfolded n sk(5)] btr fptr by auto
  show ?thesis
    using sk(1,4) rd f(3) btr
    by (simp add: load_chunk_def Let_def boot_ok_def flip: rest_def btr_def n_def)
qed

lemma chunks_loaded:
  assumes ok: "boot_ok exists inv img chain data (b, s)"
    and fit: "unat (p_offset ph) + unat (p_filesz ph) \<le> length data" "unat (p_filesz ph) < 2 ^ 31 - 65536"
    and c: "chunk \<le> unat (p_filesz ph)"
  shows "\<exists>b' s'. load_chunks dk ph chunk (b, s) = Some (True, b', s') \<and> boot_ok exists inv img chain data (b', s') \<and>
     bo_buf b' = bo_buf b \<and> bo_mem b' = mem_write (bo_mem b) (p_vaddr ph + of_nat chunk)
       (take (unat (p_filesz ph) - chunk) (drop (unat (p_offset ph) + chunk) data))"
  using ok c
proof (induction "unat (p_filesz ph) - chunk" arbitrary: chunk b s rule: less_induct)
  case less
  define N where "N = unat (p_filesz ph)"
  define off where "off = unat (p_offset ph)"
  show ?case
  proof (cases "chunk < N")
    case True
    define k where "k = min 32768 (N - chunk)"
    obtain b1 s1 where st: "load_chunk dk ph chunk (b, s) = Some (True, b1, s1)" "boot_ok exists inv img chain data (b1, s1)"
        "bo_buf b1 = bo_buf b" "bo_mem b1 = mem_write (bo_mem b) (p_vaddr ph + of_nat chunk) (take k (drop (off + chunk) data))"
      using chunk_loaded [OF less.prems(1) True [unfolded N_def] fit(1)] fit(2) by (auto simp: N_def k_def off_def)
    have g: "\<not> 2 ^ 31 \<le> chunk + 32768" using True fit(2) by (simp add: N_def)
    have len: "length (take k (drop (off + chunk) data)) = k" using fit(1) True by (simp add: N_def off_def k_def)
    show ?thesis
    proof (cases "N - chunk \<le> 32768")
      case last: True
      then have "load_chunks dk ph (chunk + 32768) (b1, s1) = Some (True, b1, s1)" using True by (auto simp: N_def load_chunks.simps)
      then show ?thesis using True st g last by (simp add: N_def k_def off_def load_chunks.simps [of dk ph chunk])
    next
      case False
      then have k: "k = 32768" "chunk + 32768 \<le> N" by (simp_all add: k_def)
      have m: "unat (p_filesz ph) - (chunk + 32768) < unat (p_filesz ph) - chunk" using k(2) True by (simp add: N_def)
      obtain b2 s2 where r: "load_chunks dk ph (chunk + 32768) (b1, s1) = Some (True, b2, s2)" "boot_ok exists inv img chain data (b2, s2)"
         "bo_buf b2 = bo_buf b1" "bo_mem b2 = mem_write (bo_mem b1) (p_vaddr ph + of_nat (chunk + 32768))
           (take (N - (chunk + 32768)) (drop (off + (chunk + 32768)) data))"
        using less.hyps [OF m st(2)] k(2) by (auto simp: N_def off_def)
      have ap: "take k (drop (off + chunk) data) @ take (N - (chunk + 32768)) (drop (off + (chunk + 32768)) data) =
          take (N - chunk) (drop (off + chunk) data)"
        using k take_add [of k "N - (chunk + 32768)" "drop (off + chunk) data"] by (simp add: ac_simps)
      have "length (take k (drop (off + chunk) data)) + length (take (N - (chunk + 32768)) (drop (off + (chunk + 32768)) data)) \<le> 2 ^ 32"
        using len k fit(2) by (simp add: N_def)
      from mem_write_append [OF this, of "bo_mem b" "p_vaddr ph + of_nat chunk"]
      have "bo_mem b2 = mem_write (bo_mem b) (p_vaddr ph + of_nat chunk) (take (N - chunk) (drop (off + chunk) data))"
        unfolding r(4) st(4) ap len using k(1) by (simp add: add.assoc)
      then show ?thesis using True st(1,3) g r(1-3) by (simp add: N_def off_def load_chunks.simps [of dk ph chunk])
    qed
  next
    case False
    then show ?thesis using less.prems by (simp add: N_def load_chunks.simps)
  qed
qed

lemma segment_loaded:
  assumes ok: "boot_ok exists inv img chain data (b, s)" and seg: "segment_ok data ph"
  shows "\<exists>b' s'. load_segment dk ph (b, s) = Some (True, b', s') \<and> boot_ok exists inv img chain data (b', s') \<and>
     bo_buf b' = bo_buf b \<and> bo_mem b' = segment_image data ph (bo_mem b)"
proof (cases "p_type ph = 1")
  case True
  have fit: "unat (p_offset ph) + unat (p_filesz ph) \<le> length data" "unat (p_filesz ph) < 2 ^ 31 - 65536"
    using seg True by (simp_all add: segment_ok_def)
  obtain b1 s1 where c: "(if 0 < p_filesz ph then load_chunks dk ph 0 (b, s) else Some (True, b, s)) = Some (True, b1, s1)"
      "boot_ok exists inv img chain data (b1, s1)" "bo_buf b1 = bo_buf b"
      "bo_mem b1 = mem_write (bo_mem b) (p_vaddr ph) (take (unat (p_filesz ph)) (drop (unat (p_offset ph)) data))"
  proof (cases "0 < p_filesz ph")
    case pos: True
    then show ?thesis using that chunks_loaded [OF ok fit, of 0] by auto
  next
    case False
    then have "unat (p_filesz ph) = 0" by (simp add: word_less_nat_alt)
    then show ?thesis using that [of b s] ok False by simp
  qed
  show ?thesis
  proof (cases "p_filesz ph < p_memsz ph")
    case lt: True
    then have "unat (p_memsz ph - p_filesz ph) = unat (p_memsz ph) - unat (p_filesz ph)" by (simp add: unat_sub word_le_nat_alt word_less_nat_alt)
    then show ?thesis using True c lt by (simp add: load_segment_def segment_image_def boot_ok_def)
  next
    case False
    then have "unat (p_memsz ph) - unat (p_filesz ph) = 0" by (simp add: word_less_nat_alt)
    then show ?thesis using True c False by (simp add: load_segment_def segment_image_def)
  qed
next
  case False
  then show ?thesis using ok by (simp add: load_segment_def segment_image_def)
qed

lemma segments_loaded:
  assumes "boot_ok exists inv img chain data (b, s)"
    and "\<forall>k < length phs. read_phdr (bo_buf b) (off + entsz * int (i + k)) = Some (phs ! k)" "\<forall>ph \<in> set phs. segment_ok data ph"
  shows "\<exists>b' s'. load_segments dk off entsz i (length phs) (b, s) = Some (True, b', s') \<and>
     boot_ok exists inv img chain data (b', s') \<and> bo_mem b' = fold (segment_image data) phs (bo_mem b)"
  using assms
proof (induction phs arbitrary: i b s)
  case (Cons ph phs)
  have ph: "read_phdr (bo_buf b) (off + entsz * int i) = Some ph" using Cons.prems(2) by force
  obtain b1 s1 where st: "load_segment dk ph (b, s) = Some (True, b1, s1)" "boot_ok exists inv img chain data (b1, s1)"
      "bo_buf b1 = bo_buf b" "bo_mem b1 = segment_image data ph (bo_mem b)"
    using segment_loaded [OF Cons.prems(1), of ph] Cons.prems(3) by auto
  have "\<forall>k < length phs. read_phdr (bo_buf b1) (off + entsz * int (Suc i + k)) = Some (phs ! k)"
    using Cons.prems(2) st(3) by (metis Suc_less_eq add_Suc_shift length_Cons nth_Cons_Suc)
  then obtain b2 s2 where "load_segments dk off entsz (Suc i) (length phs) (b1, s1) = Some (True, b2, s2)"
      "boot_ok exists inv img chain data (b2, s2)" "bo_mem b2 = fold (segment_image data) phs (bo_mem b1)"
    using Cons.IH [OF st(2), of "Suc i"] Cons.prems(3) by auto
  then show ?case using ph st by simp
qed simp

end

text \<open>A path that leads to a regular file with the given clusters and contents.\<close>

definition file_at ::
  "(u32 \<Rightarrow> bool) \<Rightarrow> (u32 \<Rightarrow> u8 list) \<Rightarrow> fatfs \<Rightarrow> segment list \<Rightarrow> u32 list \<Rightarrow> u8 list \<Rightarrow> bool" where
  "file_at exists img fs segs fchain data \<longleftrightarrow>
     (\<exists>chain i e. path_leads exists img fs 0 segs (Inr (chain, i)) \<and> e = dir_entry img fs chain i \<and> \<not> is_dir e \<and>
        chain_ok img fs fchain \<and> (fchain \<noteq> [] \<longrightarrow> hd fchain = entry_cluster fs e) \<and>
        unat (entry_size e) \<le> cluster_bytes fs * length fchain \<and>
        data = take (unat (entry_size e)) (chain_data img fs fchain))"

definition boot_seg :: segment where
  "boot_seg = (map of_char ''boot'', Some (map of_char ''elf''))"

lemma boot_path: "boot_elf = [] @ path_text [boot_seg]" "seg_ok boot_seg" "path_lead []"
  by (simp_all add: boot_elf_def boot_seg_def seg_text_def path_lead_def)
    (simp add: seg_ok_def name_char_def is_sep_def oem_upper_def illegal_chrs_def)

text \<open>What the loader reads as headers, and the memory it leaves.\<close>

definition boot_image :: "u8 list \<Rightarrow> u8 list \<Rightarrow> Elf32_Ehdr \<Rightarrow> Elf32_Phdr list \<Rightarrow> bool" where
  "boot_image data buf ehdr phs \<longleftrightarrow>
     read_ehdr buf = Some ehdr \<and> take 4 (e_ident ehdr) = ELFMAG \<and> length phs = unat (e_phnum ehdr) \<and>
     (\<forall>k < length phs. read_phdr buf (sint (e_phoff ehdr) + uint (e_phentsize ehdr) * int k) = Some (phs ! k)) \<and>
     (\<forall>ph \<in> set phs. segment_ok data ph)"

context disk_image
begin

lemma boot_open:
  assumes "mount_volume dk (snd (f_mount 0 True (bo_vol b)), s) = Some (FR_OK, v, s1)"
    and "vol_ok exists (vol_fs v)" "win_ok img (vol_fs v)" "inv s1"
    and "file_at exists img (vol_fs v) [boot_seg] fchain data" "length (fbuf (bo_fil b)) = 512"
  shows "\<exists>fp v' s'. f_open dk boot_elf FA_READ (bo_fil b, snd (f_mount 0 True (bo_vol b)), s) = Some (FR_OK, fp, v', s') \<and>
     file_ok exists inv img fchain (fp, v', s') \<and> file_data img fchain (fp, v', s') = data \<and>
     fptr fp = 0 \<and> unat (fsize fp) = length data"
proof -
  define v0 where "v0 = snd (f_mount 0 True (bo_vol b))"
  have segs: "\<forall>seg \<in> set [boot_seg]. seg_ok seg" "[boot_seg] \<noteq> []" using boot_path(2) by simp_all
  have m: "chk_mounted dk ([] @ path_text [boot_seg]) (v0, s) = Some (FR_OK, [] @ path_text [boot_seg], True, v, s1)"
    using assms(1) unfolding chk_mounted_path [OF segs boot_path(3)] v0_def by (simp add: f_mount_def)
  obtain chain i e where e: "path_leads exists img (vol_fs v) 0 [boot_seg] (Inr (chain, i))" "e = dir_entry img (vol_fs v) chain i"
      "\<not> is_dir e" "chain_ok img (vol_fs v) fchain" "fchain \<noteq> [] \<longrightarrow> hd fchain = entry_cluster (vol_fs v) e"
      "unat (entry_size e) \<le> cluster_bytes (vol_fs v) * length fchain"
      "data = take (unat (entry_size e)) (chain_data img (vol_fs v) fchain)"
    using assms(5) unfolding file_at_def by blast
  have "FA_READ AND FA_READ \<noteq> 0" by (simp add: ff_consts)
  from open_readable [OF m assms(2-4) segs boot_path(3) e(1-6) this assms(6)] show ?thesis
    using e(6,7) chain_slice(2) [OF assms(2) e(4)] by (auto simp: boot_path(1) v0_def min_absorb2)
qed

lemma boot_loaded:
  assumes "mount_volume dk (snd (f_mount 0 True (bo_vol b)), s) = Some (FR_OK, v, s1)"
    and "vol_ok exists (vol_fs v)" "win_ok img (vol_fs v)" "inv s1"
    and "file_at exists img (vol_fs v) [boot_seg] fchain data" "length (fbuf (bo_fil b)) = 512" "length (bo_buf b) = 512"
    and img: "boot_image data (take 512 data @ drop (length data) (bo_buf b)) ehdr phs"
  shows "\<exists>b' s'. bootelf dk (b, s) = Some (Boot_entry (e_entry ehdr), b', s') \<and>
     bo_mem b' = fold (segment_image data) phs (bo_mem b)"
proof -
  define buf where "buf = take 512 data @ drop (length data) (bo_buf b)"
  obtain fp v1 s2 where o: "f_open dk boot_elf FA_READ (bo_fil b, snd (f_mount 0 True (bo_vol b)), s) = Some (FR_OK, fp, v1, s2)"
      "file_ok exists inv img fchain (fp, v1, s2)" "file_data img fchain (fp, v1, s2) = data" "fptr fp = 0" "unat (fsize fp) = length data"
    using boot_open [OF assms(1-6)] by blast
  have n: "take (min 512 (length data)) data @ drop (min 512 (length data)) (bo_buf b) = buf"
    using assms(7) by (auto simp: buf_def min_def)
  obtain br fp2 v2 s3 where r: "f_read dk (bo_buf b) 512 (fp, v1, s2) = Some (FR_OK, buf, br, fp2, v2, s3)"
      "file_ok exists inv img fchain (fp2, v2, s3)" "file_data img fchain (fp2, v2, s3) = data" "fsize fp2 = fsize fp"
    using read_file [OF o(2), of 512 "bo_buf b"] o(3-5) n assms(7) by auto
  define b1 where "b1 = b\<lparr>bo_fil := fp2, bo_vol := v2, bo_buf := buf\<rparr>"
  have ok: "boot_ok exists inv img fchain data (b1, s3)" using r o(5) by (simp add: boot_ok_def b1_def)
  have h: "read_ehdr buf = Some ehdr" "take 4 (e_ident ehdr) = ELFMAG" "length phs = unat (e_phnum ehdr)"
      "\<forall>k < length phs. read_phdr (bo_buf b1) (sint (e_phoff ehdr) + uint (e_phentsize ehdr) * int (0 + k)) = Some (phs ! k)"
      "\<forall>ph \<in> set phs. segment_ok data ph"
    using img by (simp_all add: boot_image_def buf_def b1_def)
  obtain b' s' where l: "load_segments dk (sint (e_phoff ehdr)) (uint (e_phentsize ehdr)) 0 (length phs) (b1, s3) = Some (True, b', s')"
      "bo_mem b' = fold (segment_image data) phs (bo_mem b1)"
    using segments_loaded [OF ok h(4,5)] by blast
  have "bootelf dk (b, s) = Some (Boot_entry (e_entry ehdr), b', s')"
    using o(1) r(1) h(1-3) l(1) by (simp add: bootelf_def case_prod_beta b1_def)
  then show ?thesis using l(2) by (simp add: b1_def)
qed

end

section \<open>Properties\<close>

text \<open>
  Property C4. Booting loads the program. On a disk whose volume mounts and has a regular file
  \<^verbatim>\<open>boot.elf\<close> with an ELF header and program headers in its first 512 bytes and its load segments
  inside the file, \<^verbatim>\<open>bootelf\<close> ends with the call of the entry point and leaves in memory, for
  every load segment in order, the bytes of the segment at its address followed by zeros up to
  its size in memory, whatever the number of 32768-byte chunks a segment takes; all other bytes
  are as before.
\<close>

theorem bootelf_loads_program:
  assumes "disk_image dk img exists good"
    and "mount_volume dk (snd (f_mount 0 True (bo_vol b)), s) = Some (FR_OK, v, s1)"
    and "vol_ok exists (vol_fs v)" "win_ok img (vol_fs v)" "good s1"
    and "file_at exists img (vol_fs v) [boot_seg] fchain data" "length (fbuf (bo_fil b)) = 512" "length (bo_buf b) = 512"
    and "boot_image data (take 512 data @ drop (length data) (bo_buf b)) ehdr phs"
  shows "\<exists>b' s'. bootelf dk (b, s) = Some (Boot_entry (e_entry ehdr), b', s') \<and>
     bo_mem b' = fold (segment_image data) phs (bo_mem b)"
  by (rule disk_image.boot_loaded [OF assms])

section \<open>Witness\<close>

definition demo_elf :: "u8 list" where
  "demo_elf =
     [0x7F, 0x45, 0x4C, 0x46, 1, 2, 1, 0, 0, 0, 0, 0, 0, 0, 0, 0,
      0, 2, 0, 20, 0, 0, 0, 1, 0, 0, 0x10, 0, 0, 0, 0, 52, 0, 0, 0, 0, 0, 0, 0, 0, 0, 52, 0, 32, 0, 1, 0, 40, 0, 0, 0, 0,
      0, 0, 0, 1, 0, 0, 0, 84, 0, 0, 0x10, 0, 0, 0, 0x10, 0, 0, 0, 0, 4, 0, 0, 0, 8, 0, 0, 0, 5, 0, 0, 0, 4,
      0x11, 0x22, 0x33, 0x44]"

definition elf_entry :: "u8 list" where
  "elf_entry =
     [0x42, 0x4F, 0x4F, 0x54, 0x20, 0x20, 0x20, 0x20, 0x45, 0x4C, 0x46, 0x20] @ replicate 14 0 @ [2, 0, 88, 0, 0, 0]"

definition elf_cells :: "u32 \<Rightarrow> u8 list" where
  "elf_cells n =
     (if n = 0 then demo_boot else if n = 1 then [0xF8, 0xFF, 0xFF, 0xFF, 0x0F]
      else if n = 2 then elf_entry else if n = 3 then demo_elf else [])"

abbreviation elf_img :: "u32 \<Rightarrow> u8 list" where
  "elf_img n \<equiv> pad_sector (elf_cells n)"

definition elf_state :: boot where
  "elf_state =
     \<lparr>bo_vol = \<lparr>vol_fs = demo_fatfs, FatFs = False, Fsid = 7\<rparr>, bo_fil = demo_fil, bo_buf = replicate 512 0, bo_mem = \<lambda>a. 9\<rparr>"

definition elf_phdr :: Elf32_Phdr where
  "elf_phdr = \<lparr>p_type = 1, p_offset = 84, p_vaddr = 0x1000, p_paddr = 0x1000, p_filesz = 4, p_memsz = 8, p_flags = 5, p_align = 4\<rparr>"

definition elf_ehdr :: Elf32_Ehdr where
  "elf_ehdr = \<lparr>e_ident = take 16 demo_elf, e_type = 2, e_machine = 20, e_version = 1, e_entry = 0x1000, e_phoff = 52,
      e_shoff = 0, e_flags = 0, e_ehsize = 52, e_phentsize = 32, e_phnum = 1, e_shentsize = 40, e_shnum = 0, e_shstrndx = 0\<rparr>"

lemma elf_mount:
  "mount_volume (ram_disk elf_img) (snd (f_mount 0 True (bo_vol elf_state)), ()) = Some (FR_OK, demo_mounted, ())"
proof -
  have p: "pad_sector demo_boot = demo_boot" "drop 512 demo_boot = []" by (simp_all add: pad_sector_def demo_boot_def)
  show ?thesis
    by (simp add: mount_volume_def find_volume_def check_fs_def read_bpb_def set_limits_def ram_disk_def elf_cells_def p
        demo_boot_bytes Let_def demo_mounted_def demo_fatfs_def STA_NOINIT_def f_mount_def elf_state_def)
      (simp add: ff_consts)
qed

lemma elf_volume:
  "vol_ok (\<lambda>n. True) (vol_fs demo_mounted)" "win_ok elf_img (vol_fs demo_mounted)"
proof -
  have sel: "csize (vol_fs demo_mounted) = csize demo_fatfs" "n_fatent (vol_fs demo_mounted) = n_fatent demo_fatfs"
      "fs_type (vol_fs demo_mounted) = fs_type demo_fatfs" "fs_fsize (vol_fs demo_mounted) = fs_fsize demo_fatfs"
      "fatbase (vol_fs demo_mounted) = fatbase demo_fatfs" "database (vol_fs demo_mounted) = database demo_fatfs"
    by (simp_all add: demo_mounted_def)
  then have "clust2sect (vol_fs demo_mounted) = clust2sect demo_fatfs" by (simp add: clust2sect_def fun_eq_iff Let_def)
  then show "vol_ok (\<lambda>n. True) (vol_fs demo_mounted)"
    using demo_vol_ok sel by (auto simp: vol_ok_def fat_ok_def fat_last_def cluster_sectors_def)
  show "win_ok elf_img (vol_fs demo_mounted)" by (simp add: win_ok_def demo_mounted_def demo_fatfs_def)
qed

lemma elf_headers: "boot_image demo_elf (take 512 demo_elf @ drop (length demo_elf) (bo_buf elf_state)) elf_ehdr [elf_phdr]"
proof -
  define buf where "buf = take 512 demo_elf @ drop (length demo_elf) (bo_buf elf_state)"
  have len: "length demo_elf = 88" by (simp add: demo_elf_def)
  have "buf = demo_elf @ replicate 424 0" by (simp add: buf_def elf_state_def demo_elf_def)
  then have get: "arr_get buf i = Some (demo_elf ! i)" if "i < 88" for i
    using that len by (simp add: arr_get_def nth_append)
  have "take 16 buf = take 16 demo_elf" by (simp add: buf_def demo_elf_def)
  then have "read_ehdr buf = Some elf_ehdr"
    by (simp add: read_ehdr_def be_half_def be_word_def get elf_ehdr_def) (simp add: demo_elf_def)
  moreover have "read_phdr buf 52 = Some elf_phdr"
    by (simp add: read_phdr_def be_word_def get elf_phdr_def) (simp add: demo_elf_def)
  moreover have "take 4 (e_ident elf_ehdr) = ELFMAG" by code_simp
  moreover have "segment_ok demo_elf elf_phdr" by (simp add: segment_ok_def elf_phdr_def len)
  ultimately show ?thesis
    unfolding boot_image_def buf_def [symmetric] by (simp add: elf_ehdr_def)
qed

lemma elf_file: "file_at (\<lambda>n. True) elf_img (vol_fs demo_mounted) [boot_seg] [2] demo_elf"
proof -
  define fs where "fs = vol_fs demo_mounted"
  have sec: "dir_sectors fs [] = [2]" by (simp add: fs_def dir_sectors_def demo_mounted_def demo_fatfs_def)
  have dt: "dir_table (\<lambda>n. True) elf_img fs 0 []"
    by (simp add: dir_table_def sec) (simp add: fs_def demo_mounted_def demo_fatfs_def ff_consts)
  have en: "dir_entry elf_img fs [] 0 = elf_entry" by (simp add: dir_entry_def sec pad_sector_def elf_cells_def elf_entry_def)
  have sn: "short_name boot_seg = [0x42, 0x4F, 0x4F, 0x54, 0x20, 0x20, 0x20, 0x20, 0x45, 0x4C, 0x46]" by code_simp
  have "dir_entries elf_img fs [] = elf_entry # map (dir_entry elf_img fs []) [1..<16]"
    by (simp add: dir_entries_def dir_size_def sec en upt_conv_Cons)
  then have "find_name (short_name boot_seg) (dir_entries elf_img fs []) = Some 0"
    by (simp add: sn entry_matches_def elf_entry_def ff_consts)
  then have "path_leads (\<lambda>n. True) elf_img fs 0 [boot_seg] (Inr ([], 0))" by (rule path_leads.found [OF dt])
  moreover have "\<not> is_dir elf_entry" "unat (entry_size elf_entry) = 88" "entry_cluster fs elf_entry = 2"
    by (simp_all add: elf_entry_def is_dir_def entry_size_def entry_cluster_def fs_def demo_mounted_def demo_fatfs_def ff_consts nth_append)
  moreover have "chain_ok elf_img fs [2]" "cluster_bytes fs = 512" "chain_sectors fs [2] = [3]"
    by (simp_all add: chain_ok_def fs_def demo_mounted_def demo_fatfs_def cluster_bytes_def chain_sectors_def
        cluster_sectors_def clust2sect_def)
  moreover have "take 88 (elf_img 3) = demo_elf" by (simp add: pad_sector_def elf_cells_def demo_elf_def)
  ultimately show ?thesis unfolding file_at_def fs_def [symmetric] using en
    by (intro exI [of _ "[]"] exI [of _ 0] exI [of _ elf_entry]) (simp add: chain_data_def)
qed

theorem bootelf_loads_program_witness:
  "\<exists>b' s'. bootelf (ram_disk elf_img) (elf_state, ()) = Some (Boot_entry 0x1000, b', s') \<and>
     mem_slice (bo_mem b') 0xFFF 10 = [9, 0x11, 0x22, 0x33, 0x44, 0, 0, 0, 0, 9]"
proof -
  have l: "length (fbuf (bo_fil elf_state)) = 512" "length (bo_buf elf_state) = 512"
    by (simp_all add: elf_state_def demo_fil_def)
  have minus: "unat (- 1 :: u32) = 2 ^ 32 - 1" by (simp add: unsigned_minus_1_eq_mask mask_eq_exp_minus_1)
  have m: "mem_slice (fold (segment_image demo_elf) [elf_phdr] (bo_mem elf_state)) 0xFFF 10 = [9, 0x11, 0x22, 0x33, 0x44, 0, 0, 0, 0, 9]"
    by (simp add: elf_state_def elf_phdr_def segment_image_def mem_slice_def mem_write_def demo_elf_def upt_conv_Cons minus)
  have "e_entry elf_ehdr = 0x1000" by (simp add: elf_ehdr_def)
  with bootelf_loads_program [OF ram.disk_image_axioms elf_mount elf_volume TrueI elf_file l elf_headers] m
  show ?thesis by auto
qed

end
