(* ===== verification/Motion_HW.thy ===== *)
theory Motion_HW
  imports Prelude
begin

unbundle bit_operations_syntax

text \<open>
  The stepper axis controller of the FPGA, \<^verbatim>\<open>src/pcores/motion_v1_00_a/hdl/verilog\<close>: the
  register file and glue of \<^verbatim>\<open>user_logic.v\<close> and its three submodules. Every module is
  synchronous, so a module is a record of its registers and a function that maps the values
  before a rising edge of \<^verbatim>\<open>clk\<close> to the values after it; combinational outputs are functions
  of the registers. The lemmas give the closed form of the motion one loaded segment
  produces, how long it takes, what a back-to-back load does, and when a step is emitted.
\<close>

section \<open>acc_step_gen: segment timing\<close>

record acc_step_gen =
  asg_dt_limit :: u32
  asg_steps_limit :: u32
  asg_steps :: u32
  asg_dt :: u32
  asg_stopped :: bool

definition asg_step_stb :: "bool \<Rightarrow> acc_step_gen \<Rightarrow> bool" where
  "asg_step_stb reset s \<longleftrightarrow>
     \<not> reset \<and> \<not> asg_stopped s \<and> asg_dt_limit s - 1 \<le> asg_dt s"

definition asg_done :: "bool \<Rightarrow> acc_step_gen \<Rightarrow> bool" where
  "asg_done reset s \<longleftrightarrow> asg_step_stb reset s \<and> asg_steps_limit s - 1 \<le> asg_steps s"

definition asg_clk :: "bool \<Rightarrow> bool \<Rightarrow> u32 \<Rightarrow> u32 \<Rightarrow> acc_step_gen \<Rightarrow> acc_step_gen" where
  "asg_clk reset load dt_val steps_val s =
     (if reset then
        \<lparr>asg_dt_limit = 0, asg_steps_limit = 0, asg_steps = 0, asg_dt = 0, asg_stopped = True\<rparr>
      else if load then
        \<lparr>asg_dt_limit = dt_val, asg_steps_limit = steps_val, asg_steps = 0, asg_dt = 0,
         asg_stopped = False\<rparr>
      else if asg_stopped s then s\<lparr>asg_steps := 0, asg_dt := 0\<rparr>
      else if asg_dt_limit s - 1 \<le> asg_dt s then
        s\<lparr>asg_steps := asg_steps s + 1, asg_dt := 0,
          asg_stopped := asg_steps_limit s - 1 \<le> asg_steps s\<rparr>
      else s\<lparr>asg_dt := asg_dt s + 1\<rparr>)"

section \<open>acc_profile_gen: position, velocity, acceleration\<close>

record acc_profile_gen =
  pg_x :: u64
  pg_v :: u32
  pg_a :: u32
  pg_j :: u32
  pg_step :: bool
  pg_dir :: bool

text \<open>The wire \<^verbatim>\<open>x_acc\<close>: 64-bit signed addition, so \<open>v\<close> is sign-extended.\<close>

definition pg_x_acc :: "acc_profile_gen \<Rightarrow> u64" where
  "pg_x_acc s = pg_x s + scast (pg_v s)"

definition pg_next_vaj ::
  "bool \<Rightarrow> bool \<Rightarrow> bool \<Rightarrow> bool \<Rightarrow> bool \<Rightarrow> bool \<Rightarrow> u32 \<Rightarrow> u32 \<Rightarrow> u32 \<Rightarrow> acc_profile_gen
   \<Rightarrow> u32 \<times> u32 \<times> u32" where
  "pg_next_vaj reset acc_step load set_v set_a set_j v_val a_val j_val s =
     (if reset then (0, 0, 0)
      else if load then
        (if set_v then v_val else pg_v s, if set_a then a_val else pg_a s,
         if set_j then j_val else pg_j s)
      else if acc_step then (pg_v s + pg_a s, pg_a s + pg_j s, pg_j s)
      else (pg_v s, pg_a s, pg_j s))"

definition pg_next_xds ::
  "bool \<Rightarrow> bool \<Rightarrow> bool \<Rightarrow> u64 \<Rightarrow> nat \<Rightarrow> acc_profile_gen \<Rightarrow> u64 \<times> bool \<times> bool" where
  "pg_next_xds reset load set_x x_val step_bit s =
     (if reset then (0, False, False)
      else if load \<and> set_x then (x_val, False, False)
      else if bit (pg_x s) step_bit \<noteq> bit (pg_x_acc s) step_bit
        then (pg_x_acc s, 0 <s pg_v s, True)
        else (pg_x_acc s, pg_dir s, False))"

definition pg_clk ::
  "bool \<Rightarrow> bool \<Rightarrow> bool \<Rightarrow> bool \<Rightarrow> bool \<Rightarrow> bool \<Rightarrow> bool \<Rightarrow> u64 \<Rightarrow> u32 \<Rightarrow> u32 \<Rightarrow> u32 \<Rightarrow> nat
   \<Rightarrow> acc_profile_gen \<Rightarrow> acc_profile_gen" where
  "pg_clk reset acc_step load set_x set_v set_a set_j x_val v_val a_val j_val step_bit s =
     (let (v', a', j') = pg_next_vaj reset acc_step load set_v set_a set_j v_val a_val j_val s;
          (x', dir', step') = pg_next_xds reset load set_x x_val step_bit s
      in \<lparr>pg_x = x', pg_v = v', pg_a = a', pg_j = j', pg_step = step', pg_dir = dir'\<rparr>)"

section \<open>motor_step_gen: step pulses\<close>

record motor_step_gen =
  ms_cnt :: u32
  ms_step :: bool
  ms_dir :: bool
  ms_missed :: bool

definition ms_clk ::
  "bool \<Rightarrow> u32 \<Rightarrow> u32 \<Rightarrow> u32 \<Rightarrow> bool \<Rightarrow> bool \<Rightarrow> motor_step_gen \<Rightarrow> motor_step_gen" where
  "ms_clk reset pre_n pulse_n post_n step_stb step_dir s =
     (if reset then \<lparr>ms_cnt = 0, ms_step = False, ms_dir = False, ms_missed = False\<rparr>
      else if ms_cnt s = 0 then
        (if step_stb
         then \<lparr>ms_cnt = 1, ms_step = False, ms_dir = step_dir, ms_missed = False\<rparr>
         else \<lparr>ms_cnt = 0, ms_step = False, ms_dir = ms_dir s, ms_missed = False\<rparr>)
      else
        (let busy = \<lparr>ms_cnt = ms_cnt s + 1, ms_step = False, ms_dir = ms_dir s,
                     ms_missed = step_stb\<rparr>
         in if ms_cnt s < pre_n then busy
            else if ms_cnt s < pulse_n then busy\<lparr>ms_step := True\<rparr>
            else if ms_cnt s < post_n then busy
            else busy\<lparr>ms_cnt := 0\<rparr>))"

section \<open>user_logic: registers and glue\<close>

text \<open>
  \<open>stat_undriven\<close> stands for the status registers the Verilog declares and never assigns
  (the end-stop and bounce registers 20--25 and 29--31): no clock edge changes them.
\<close>

record motion_hw =
  reg_cmd :: u32
  reg_next_xl :: u32
  reg_next_xh :: u32
  reg_next_v :: u32
  reg_next_a :: u32
  reg_next_j :: u32
  reg_next_dt :: u32
  reg_next_steps :: u32
  reg_pre_n :: u32
  reg_pulse_n :: u32
  reg_post_n :: u32
  reg_step_bit :: u32
  reg_stop_delay :: u32
  reg_probe_delay :: u32
  stat_missed_steps :: u32
  stat_undriven :: "nat \<Rightarrow> u32"
  acc :: acc_step_gen
  prof :: acc_profile_gen
  motor :: motor_step_gen

definition ul_load :: "bool \<Rightarrow> motion_hw \<Rightarrow> bool" where
  "ul_load reset h \<longleftrightarrow>
     bit (reg_cmd h) 0 \<and> (asg_done reset (acc h) \<or> asg_stopped (acc h))"

definition ul_step_bit :: "motion_hw \<Rightarrow> nat" where
  "ul_step_bit h = unat (take_bit 6 (reg_step_bit h))"

definition ul_x_val :: "motion_hw \<Rightarrow> u64" where
  "ul_x_val h = push_bit 32 (ucast (reg_next_xh h)) OR ucast (reg_next_xl h)"

text \<open>
  The write half of \<^verbatim>\<open>SLAVE_REG_WRITE_PROC\<close> for a full-word write (all byte enables set) to
  the register number \<open>sel\<close>; the status registers ignore it.
\<close>

definition ul_write :: "nat \<Rightarrow> u32 \<Rightarrow> motion_hw \<Rightarrow> motion_hw" where
  "ul_write sel d h =
     (if sel = 0 then h\<lparr>reg_cmd := d\<rparr>
      else if sel = 1 then h\<lparr>reg_next_xl := d\<rparr>
      else if sel = 2 then h\<lparr>reg_next_xh := d\<rparr>
      else if sel = 3 then h\<lparr>reg_next_v := d\<rparr>
      else if sel = 4 then h\<lparr>reg_next_a := d\<rparr>
      else if sel = 5 then h\<lparr>reg_next_j := d\<rparr>
      else if sel = 6 then h\<lparr>reg_next_dt := d\<rparr>
      else if sel = 7 then h\<lparr>reg_next_steps := d\<rparr>
      else if sel = 8 then h\<lparr>reg_pre_n := d\<rparr>
      else if sel = 9 then h\<lparr>reg_pulse_n := d\<rparr>
      else if sel = 10 then h\<lparr>reg_post_n := d\<rparr>
      else if sel = 11 then h\<lparr>reg_step_bit := d\<rparr>
      else if sel = 27 then h\<lparr>reg_stop_delay := d\<rparr>
      else if sel = 28 then h\<lparr>reg_probe_delay := d\<rparr>
      else h)"

text \<open>The reset branch of the same process; the submodules reset themselves.\<close>

definition ul_reset_regs :: "motion_hw \<Rightarrow> motion_hw" where
  "ul_reset_regs h =
     h\<lparr>reg_cmd := 0, reg_next_xl := 0, reg_next_xh := 0, reg_next_v := 0, reg_next_a := 0,
       reg_next_j := 0, reg_next_dt := 0, reg_next_steps := 0, reg_pre_n := 0,
       reg_pulse_n := 0, reg_post_n := 0, reg_step_bit := 0, reg_stop_delay := 0,
       reg_probe_delay := 0\<rparr>"

definition ul_clk_regs :: "bool \<Rightarrow> (nat \<times> u32) option \<Rightarrow> motion_hw \<Rightarrow> motion_hw" where
  "ul_clk_regs reset wr h =
     (if reset then ul_reset_regs h
      else
        (let h' = (case wr of None \<Rightarrow> h | Some (sel, d) \<Rightarrow> ul_write sel d h)
         in if map_option fst wr \<noteq> Some 0 \<and> ul_load reset h then h'\<lparr>reg_cmd := 0\<rparr> else h'))"

definition ul_clk_missed :: "bool \<Rightarrow> (nat \<times> u32) option \<Rightarrow> motion_hw \<Rightarrow> u32" where
  "ul_clk_missed reset wr h =
     (if reset then 0
      else if map_option fst wr = Some 26 then 0
      else if ms_missed (motor h) then stat_missed_steps h + 1
      else stat_missed_steps h)"

text \<open>One rising edge, with an optional register write: every register from the old values.\<close>

definition ul_clk :: "bool \<Rightarrow> (nat \<times> u32) option \<Rightarrow> motion_hw \<Rightarrow> motion_hw" where
  "ul_clk reset wr h =
     (ul_clk_regs reset wr h)
       \<lparr>stat_missed_steps := ul_clk_missed reset wr h,
        acc := asg_clk reset (ul_load reset h) (reg_next_dt h) (reg_next_steps h) (acc h),
        prof := pg_clk reset (asg_step_stb reset (acc h)) (ul_load reset h)
                  (bit (reg_cmd h) 1) (bit (reg_cmd h) 2) (bit (reg_cmd h) 3)
                  (bit (reg_cmd h) 4) (ul_x_val h) (reg_next_v h) (reg_next_a h)
                  (reg_next_j h) (ul_step_bit h) (prof h),
        motor := ms_clk reset (reg_pre_n h) (reg_pulse_n h) (reg_post_n h)
                  (pg_step (prof h)) (pg_dir (prof h)) (motor h)\<rparr>"

text \<open>The read multiplexer \<^verbatim>\<open>SLAVE_REG_READ_PROC\<close>; \<open>stat_status\<close> has \<open>stopped\<close> in bit 0.\<close>

definition ul_read :: "nat \<Rightarrow> motion_hw \<Rightarrow> u32" where
  "ul_read sel h =
     (if sel = 0 then reg_cmd h
      else if sel = 1 then reg_next_xl h
      else if sel = 2 then reg_next_xh h
      else if sel = 3 then reg_next_v h
      else if sel = 4 then reg_next_a h
      else if sel = 5 then reg_next_j h
      else if sel = 6 then reg_next_dt h
      else if sel = 7 then reg_next_steps h
      else if sel = 8 then reg_pre_n h
      else if sel = 9 then reg_pulse_n h
      else if sel = 10 then reg_post_n h
      else if sel = 11 then reg_step_bit h
      else if sel = 12 then ucast (pg_x (prof h))
      else if sel = 13 then ucast (drop_bit 32 (pg_x (prof h)))
      else if sel = 14 then pg_v (prof h)
      else if sel = 15 then pg_a (prof h)
      else if sel = 16 then pg_j (prof h)
      else if sel = 17 then asg_dt (acc h)
      else if sel = 18 then asg_steps (acc h)
      else if sel = 19 then (if asg_stopped (acc h) then 1 else 0)
      else if sel \<in> {20, 21, 22, 23, 24, 25, 29, 30, 31} then stat_undriven h sel
      else if sel = 26 then stat_missed_steps h
      else if sel = 27 then reg_stop_delay h
      else if sel = 28 then reg_probe_delay h
      else 0)"

text \<open>\<open>n\<close> clock cycles without a bus access.\<close>

definition ul_idle :: "nat \<Rightarrow> motion_hw \<Rightarrow> motion_hw" where
  "ul_idle n h = (ul_clk False None ^^ n) h"

section \<open>Frame: what a clock cycle without START leaves alone\<close>

named_theorems hw_simps \<open>one clock edge of the axis controller, field by field\<close>

lemma ul_idle_0 [simp]: "ul_idle 0 h = h"
  by (simp add: ul_idle_def)

lemma ul_idle_Suc: "ul_idle (Suc n) h = ul_clk False None (ul_idle n h)"
  by (simp add: ul_idle_def)

lemma ul_idle_add: "ul_idle (m + n) h = ul_idle m (ul_idle n h)"
  by (simp add: ul_idle_def funpow_add)

lemma ul_load_needs_start: "ul_load r h \<Longrightarrow> bit (reg_cmd h) 0"
  by (simp add: ul_load_def)

lemma ul_clk_acc [hw_simps]:
  "acc (ul_clk r wr h) = asg_clk r (ul_load r h) (reg_next_dt h) (reg_next_steps h) (acc h)"
  by (simp add: ul_clk_def)

lemma ul_clk_prof [hw_simps]:
  "prof (ul_clk r wr h) =
     pg_clk r (asg_step_stb r (acc h)) (ul_load r h) (bit (reg_cmd h) 1) (bit (reg_cmd h) 2)
       (bit (reg_cmd h) 3) (bit (reg_cmd h) 4) (ul_x_val h) (reg_next_v h) (reg_next_a h)
       (reg_next_j h) (ul_step_bit h) (prof h)"
  by (simp add: ul_clk_def)

lemma ul_clk_motor [hw_simps]:
  "motor (ul_clk r wr h) =
     ms_clk r (reg_pre_n h) (reg_pulse_n h) (reg_post_n h) (pg_step (prof h)) (pg_dir (prof h))
       (motor h)"
  by (simp add: ul_clk_def)

text \<open>The software-visible control registers, as a function of the register number.\<close>

definition ctrl_sel :: "nat \<Rightarrow> bool" where
  "ctrl_sel sel \<longleftrightarrow> sel \<le> 11 \<or> sel = 27 \<or> sel = 28"

lemma ctrl_sel_cases:
  "ctrl_sel sel \<Longrightarrow>
     sel \<in> {0, 1, 2, 3, 4, 5, 6, 7, 8, 9, 10, 11, 27, 28}"
  by (simp add: ctrl_sel_def) arith

lemma ul_read_write:
  assumes "ctrl_sel sel" "ctrl_sel sel'"
  shows "ul_read sel' (ul_write sel d h) = (if sel' = sel then d else ul_read sel' h)"
  using ctrl_sel_cases [OF assms(1)] ctrl_sel_cases [OF assms(2)]
  by (elim insertE emptyE) (simp_all add: ul_read_def ul_write_def)

lemma ul_read_sub [simp]:
  "ctrl_sel sel \<Longrightarrow>
     ul_read sel (h\<lparr>stat_missed_steps := m, acc := a, prof := p, motor := mo\<rparr>) = ul_read sel h"
  by (auto simp: ul_read_def ctrl_sel_def)

lemma ul_clk_ctrl:
  assumes "ctrl_sel sel" "\<not> ul_load False h"
  shows "ul_read sel (ul_clk False wr h) =
     ul_read sel (case wr of None \<Rightarrow> h | Some (s, d) \<Rightarrow> ul_write s d h)"
  using assms by (simp add: ul_clk_def ul_clk_regs_def Let_def)

lemma ul_read_0: "ul_read 0 h = reg_cmd h"
  by (simp add: ul_read_def)

lemma ul_idle_ctrl:
  assumes "\<not> bit (reg_cmd h) 0"
  shows "ctrl_sel sel \<Longrightarrow> ul_read sel (ul_idle n h) = ul_read sel h"
proof (induction n arbitrary: sel)
  case 0
  then show ?case by simp
next
  case (Suc n)
  have "reg_cmd (ul_idle n h) = reg_cmd h"
    using Suc.IH [of 0] by (simp add: ul_read_0 ctrl_sel_def)
  then have "\<not> ul_load False (ul_idle n h)"
    using assms by (auto dest: ul_load_needs_start)
  then show ?case
    using Suc by (simp add: ul_idle_Suc ul_clk_ctrl)
qed

section \<open>The motion of one segment\<close>

text \<open>
  Velocity and acceleration after \<open>k\<close> acceleration steps, in the controller's own wrap-around
  arithmetic: the discrete second and first order profile of a constant jerk.
\<close>

definition seg_a :: "u32 \<Rightarrow> u32 \<Rightarrow> nat \<Rightarrow> u32" where
  "seg_a a j k = a + of_nat k * j"

definition seg_v :: "u32 \<Rightarrow> u32 \<Rightarrow> u32 \<Rightarrow> nat \<Rightarrow> u32" where
  "seg_v v a j k = v + of_nat k * a + of_nat (k choose 2) * j"

lemma seg_a_Suc: "seg_a a j (Suc k) = seg_a a j k + j"
  by (simp add: seg_a_def algebra_simps)

lemma seg_v_Suc: "seg_v v a j (Suc k) = seg_v v a j k + seg_a a j k"
  by (simp add: seg_v_def seg_a_def numeral_2_eq_2 algebra_simps)

definition seg_loaded :: "motion_hw \<Rightarrow> bool" where
  "seg_loaded h \<longleftrightarrow>
     \<not> asg_stopped (acc h) \<and> asg_dt (acc h) = 0 \<and> asg_steps (acc h) = 0 \<and>
     0 < asg_dt_limit (acc h) \<and> 0 < asg_steps_limit (acc h)"

definition seg_len :: "motion_hw \<Rightarrow> nat" where
  "seg_len h = unat (asg_dt_limit (acc h)) * unat (asg_steps_limit (acc h))"

text \<open>The state the invariant of a running segment prescribes after \<open>t\<close> cycles.\<close>

definition seg_at :: "motion_hw \<Rightarrow> nat \<Rightarrow> motion_hw \<Rightarrow> bool" where
  "seg_at h t g \<longleftrightarrow>
     (let D = unat (asg_dt_limit (acc h)); p = prof h in
       acc g = (acc h)\<lparr>asg_steps := of_nat (t div D), asg_dt := of_nat (t mod D)\<rparr> \<and>
       pg_v (prof g) = seg_v (pg_v p) (pg_a p) (pg_j p) (t div D) \<and>
       pg_a (prof g) = seg_a (pg_a p) (pg_j p) (t div D) \<and>
       pg_j (prof g) = pg_j p \<and>
       pg_x (prof g) = pg_x p + (\<Sum>i<t. scast (seg_v (pg_v p) (pg_a p) (pg_j p) (i div D))))"

lemma word_pred_le_of_nat:
  fixes L :: "'a::len word"
  assumes "0 < L" "n < unat L"
  shows "L - 1 \<le> of_nat n \<longleftrightarrow> unat L - 1 \<le> n"
proof -
  have "n < 2 ^ LENGTH('a)"
    using assms(2) unsigned_less by (rule order_less_trans)
  then show ?thesis
    using assms by (simp add: word_le_nat_alt unat_of_nat_eq_small unat_pred_pos unat_gt_0)
qed

lemma seg_at_stb:
  assumes "seg_loaded h" "seg_at h t g" "t < seg_len h"
  shows "asg_step_stb False (acc g) \<longleftrightarrow> Suc t mod unat (asg_dt_limit (acc h)) = 0"
    and "asg_done False (acc g) \<longleftrightarrow> Suc t = seg_len h"
proof -
  define D where "D = unat (asg_dt_limit (acc h))"
  define N where "N = unat (asg_steps_limit (acc h))"
  have pos: "0 < D" "0 < N"
    using assms(1) by (auto simp: seg_loaded_def D_def N_def unat_gt_0)
  have lt: "t mod D < D" "t div D < N"
    using pos assms(3) by (auto simp: seg_len_def D_def N_def less_mult_imp_div_less mult.commute)
  have stb: "asg_step_stb False (acc g) \<longleftrightarrow> D - 1 \<le> t mod D"
    using assms(1,2) lt(1) word_pred_le_of_nat [of "asg_dt_limit (acc h)" "t mod D"]
    by (auto simp: asg_step_stb_def seg_at_def seg_loaded_def Let_def D_def)
  also have "\<dots> \<longleftrightarrow> Suc t mod D = 0"
    using pos lt(1) by (auto simp: mod_Suc)
  finally show "asg_step_stb False (acc g) \<longleftrightarrow> Suc t mod D = 0" .
  have "asg_steps_limit (acc g) - 1 \<le> asg_steps (acc g) \<longleftrightarrow> N - 1 \<le> t div D"
    using assms(1,2) lt(2) word_pred_le_of_nat [of "asg_steps_limit (acc h)" "t div D"]
    by (auto simp: seg_at_def seg_loaded_def Let_def D_def N_def)
  then have "asg_done False (acc g) \<longleftrightarrow> D - 1 \<le> t mod D \<and> N - 1 \<le> t div D"
    by (auto simp: asg_done_def stb)
  also have "\<dots> \<longleftrightarrow> Suc t = D * N"
  proof
    assume "D - 1 \<le> t mod D \<and> N - 1 \<le> t div D"
    with lt have "t mod D = D - 1" "t div D = N - 1" by linarith+
    with div_mult_mod_eq [of t D] pos show "Suc t = D * N"
      by (cases N) (auto simp: algebra_simps)
  next
    assume eq: "Suc t = D * N"
    with pos obtain n d where "N = Suc n" "D = Suc d" by (metis gr0_conv_Suc)
    with eq have t: "t = n * D + d" by (simp add: algebra_simps)
    show "D - 1 \<le> t mod D \<and> N - 1 \<le> t div D"
      by (simp add: t \<open>N = Suc n\<close> \<open>D = Suc d\<close> del: mult_Suc_right)
  qed
  finally show "asg_done False (acc g) \<longleftrightarrow> Suc t = seg_len h"
    by (simp add: seg_len_def D_def N_def)
qed

lemma seg_at_Suc:
  assumes h: "seg_loaded h" and g: "seg_at h t g" and t: "Suc t < seg_len h"
  shows "seg_at h (Suc t) (ul_clk False None g)"
proof -
  define D where "D = unat (asg_dt_limit (acc h))"
  have pos: "0 < D"
    using h by (auto simp: seg_loaded_def D_def unat_gt_0)
  have run: "\<not> asg_stopped (acc g)"
    using h g by (simp add: seg_at_def seg_loaded_def Let_def)
  note stb = seg_at_stb [OF h g Suc_lessD [OF t], folded D_def]
  have no_load: "\<not> ul_load False g" "\<not> asg_done False (acc g)"
    using run stb(2) t by (auto simp: ul_load_def)
  show ?thesis
  proof (cases "Suc t mod D = 0")
    case True
    then have "Suc t div D = Suc (t div D)"
      by (simp add: div_Suc)
    with True stb(1) run no_load g show ?thesis
      by (auto simp: seg_at_def Let_def hw_simps asg_clk_def pg_clk_def pg_next_vaj_def
          pg_next_xds_def pg_x_acc_def asg_step_stb_def asg_done_def seg_v_Suc seg_a_Suc
          D_def [symmetric] algebra_simps)
  next
    case False
    then have "Suc t div D = t div D" "Suc t mod D = Suc (t mod D)"
      by (simp_all add: div_Suc mod_Suc split: if_splits)
    with False stb(1) run no_load g show ?thesis
      by (auto simp: seg_at_def Let_def hw_simps asg_clk_def pg_clk_def pg_next_vaj_def
          pg_next_xds_def pg_x_acc_def asg_step_stb_def D_def [symmetric] algebra_simps)
  qed
qed

lemma seg_at_0: "seg_loaded h \<Longrightarrow> seg_at h 0 h"
  by (simp add: seg_at_def seg_loaded_def Let_def seg_v_def seg_a_def choose_two)

lemma seg_len_pos: "seg_loaded h \<Longrightarrow> 0 < seg_len h"
  by (auto simp: seg_loaded_def seg_len_def unat_gt_0)

lemma seg_running: "seg_loaded h \<Longrightarrow> t < seg_len h \<Longrightarrow> seg_at h t (ul_idle t h)"
  by (induction t) (simp_all add: seg_at_0 ul_idle_Suc seg_at_Suc)

text \<open>The cycle after the last one of a segment, with and without a pending START.\<close>

lemma seg_last:
  assumes h: "seg_loaded h"
  defines "g \<equiv> ul_idle (seg_len h - 1) h"
  shows "seg_at h (seg_len h - 1) g" "asg_step_stb False (acc g)" "asg_done False (acc g)"
    and "ul_load False g \<longleftrightarrow> bit (reg_cmd g) 0"
proof -
  note pos = seg_len_pos [OF h]
  show g: "seg_at h (seg_len h - 1) g"
    using seg_running [OF h, of "seg_len h - 1"] pos by (simp add: g_def)
  show d: "asg_done False (acc g)"
    using seg_at_stb(2) [OF h g] pos by simp
  then show "asg_step_stb False (acc g)"
    by (simp add: asg_done_def)
  from d show "ul_load False g \<longleftrightarrow> bit (reg_cmd g) 0"
    by (simp add: ul_load_def)
qed

lemma seg_len_split:
  assumes "seg_loaded h"
  defines "D \<equiv> unat (asg_dt_limit (acc h))" and "N \<equiv> unat (asg_steps_limit (acc h))"
  shows "(seg_len h - 1) div D = N - 1" "Suc (N - 1) = N"
proof -
  have pos: "0 < D" "0 < N"
    using assms by (auto simp: seg_loaded_def unat_gt_0)
  then obtain n d where N: "N = Suc n" and D: "D = Suc d" by (metis gr0_conv_Suc)
  have "seg_len h - 1 = n * D + d"
    by (simp add: seg_len_def D_def [symmetric] N_def [symmetric] N D algebra_simps)
  then show "(seg_len h - 1) div D = N - 1" by (simp add: N D del: mult_Suc_right)
  show "Suc (N - 1) = N" by (simp add: N)
qed

text \<open>Position after the last cycle, whichever way the segment ends.\<close>

lemma seg_end_x:
  assumes h: "seg_loaded h" and no_set_x: "\<not> bit (reg_cmd (ul_idle (seg_len h - 1) h)) 1"
  defines "p \<equiv> prof h"
  shows "pg_x (prof (ul_idle (seg_len h) h)) =
     pg_x p + (\<Sum>i < seg_len h.
       scast (seg_v (pg_v p) (pg_a p) (pg_j p) (i div unat (asg_dt_limit (acc h)))))"
proof -
  define g where "g = ul_idle (seg_len h - 1) h"
  obtain m where m: "seg_len h = Suc m"
    using seg_len_pos [OF h] gr0_conv_Suc by auto
  have "pg_x (prof (ul_idle (seg_len h) h)) = pg_x (prof g) + scast (pg_v (prof g))"
    using no_set_x
    by (simp add: m ul_idle_Suc g_def hw_simps pg_clk_def pg_next_vaj_def pg_next_xds_def
        pg_x_acc_def)
  then show ?thesis
    using seg_last(1) [OF h] by (simp add: g_def m seg_at_def Let_def p_def add.assoc)
qed

lemma seg_end_stops:
  assumes h: "seg_loaded h" and no_start: "\<not> bit (reg_cmd (ul_idle (seg_len h - 1) h)) 0"
  defines "p \<equiv> prof h"
  shows "asg_stopped (acc (ul_idle (seg_len h) h))"
    and "pg_v (prof (ul_idle (seg_len h) h)) =
      seg_v (pg_v p) (pg_a p) (pg_j p) (unat (asg_steps_limit (acc h)))"
proof -
  define g where "g = ul_idle (seg_len h - 1) h"
  obtain m where m: "seg_len h = Suc m"
    using seg_len_pos [OF h] gr0_conv_Suc by auto
  note last = seg_last [OF h, folded g_def] and split = seg_len_split [OF h]
  have no_load: "\<not> ul_load False g"
    using last(4) no_start by (simp add: g_def)
  have step: "ul_idle (seg_len h) h = ul_clk False None g"
    by (simp add: m ul_idle_Suc g_def)
  have run: "\<not> asg_stopped (acc g)"
    using last(2) by (simp add: asg_step_stb_def)
  show "asg_stopped (acc (ul_idle (seg_len h) h))"
    using last(2,3) run no_load
    by (simp add: step hw_simps asg_clk_def asg_done_def asg_step_stb_def)
  have "pg_v (prof (ul_idle (seg_len h) h)) = pg_v (prof g) + pg_a (prof g)"
    using last(2) no_load by (simp add: step hw_simps pg_clk_def pg_next_vaj_def pg_next_xds_def)
  then show "pg_v (prof (ul_idle (seg_len h) h)) =
      seg_v (pg_v p) (pg_a p) (pg_j p) (unat (asg_steps_limit (acc h)))"
    using last(1) split by (simp add: seg_at_def Let_def p_def flip: seg_v_Suc)
qed

text \<open>A running segment does not touch the control registers, whatever they hold.\<close>

lemma seg_running_ctrl:
  assumes "seg_loaded h"
  shows "ctrl_sel sel \<Longrightarrow> t < seg_len h \<Longrightarrow> ul_read sel (ul_idle t h) = ul_read sel h"
proof (induction t)
  case 0
  then show ?case by simp
next
  case (Suc t)
  have at: "seg_at h t (ul_idle t h)"
    using seg_running [OF assms] Suc.prems by simp
  have "\<not> asg_stopped (acc (ul_idle t h))"
    using at assms by (simp add: seg_at_def seg_loaded_def Let_def)
  moreover have "\<not> asg_done False (acc (ul_idle t h))"
    using seg_at_stb(2) [OF assms at] Suc.prems by simp
  ultimately show ?case
    using Suc by (simp add: ul_idle_Suc ul_clk_ctrl ul_load_def)
qed

lemma seg_running_cmd:
  "seg_loaded h \<Longrightarrow> t < seg_len h \<Longrightarrow> reg_cmd (ul_idle t h) = reg_cmd h"
  using seg_running_ctrl [of h 0 t] by (simp add: ul_read_0 ctrl_sel_def)

lemma stopped_stays:
  assumes "\<not> bit (reg_cmd g) 0" "asg_stopped (acc g)"
  shows "asg_stopped (acc (ul_idle n g)) \<and> pg_v (prof (ul_idle n g)) = pg_v (prof g)"
proof (induction n)
  case 0
  then show ?case using assms by simp
next
  case (Suc n)
  have "\<not> ul_load False (ul_idle n g)"
    using ul_idle_ctrl [OF assms(1), of 0 n] assms(1)
    by (auto simp: ul_read_0 ctrl_sel_def dest: ul_load_needs_start)
  with Suc show ?case
    by (simp add: ul_idle_Suc hw_simps asg_clk_def asg_step_stb_def pg_clk_def pg_next_vaj_def
        pg_next_xds_def)
qed

text \<open>
  Property C6. From the cycle after a load, as long as the segment runs, the controller's
  step counter, velocity, acceleration and position are the closed form of a constant-jerk
  move: after \<open>t\<close> clock cycles the velocity is \<open>v + k a + (k choose 2) j\<close> with \<open>k\<close> the number
  of completed acceleration periods, and the position has accumulated that velocity once per
  clock cycle.
\<close>

theorem segment_motion:
  assumes "seg_loaded h" "t < seg_len h"
  defines "D \<equiv> unat (asg_dt_limit (acc h))" and "p \<equiv> prof h" and "g \<equiv> ul_idle t h"
  shows "\<not> asg_stopped (acc g) \<and> asg_steps (acc g) = of_nat (t div D) \<and>
     pg_v (prof g) = seg_v (pg_v p) (pg_a p) (pg_j p) (t div D) \<and>
     pg_a (prof g) = seg_a (pg_a p) (pg_j p) (t div D) \<and>
     pg_x (prof g) = pg_x p + (\<Sum>i<t. scast (seg_v (pg_v p) (pg_a p) (pg_j p) (i div D)))"
  using seg_running [OF assms(1,2)] assms(1)
  by (simp add: seg_at_def seg_loaded_def Let_def D_def p_def g_def)

text \<open>
  Property C16. With no START pending a segment of \<open>dt\<close> cycles times \<open>steps\<close> acceleration
  periods ends after exactly \<open>dt * steps\<close> cycles: the \<open>stopped\<close> status is off before and on
  from then on, and the axis keeps the velocity reached after all \<open>steps\<close> increments.
\<close>

theorem segment_stops_exactly:
  assumes "seg_loaded h" "\<not> bit (reg_cmd h) 0"
  defines "p \<equiv> prof h"
  shows "(asg_stopped (acc (ul_idle t h)) \<longleftrightarrow> seg_len h \<le> t) \<and>
     pg_v (prof (ul_idle (seg_len h + t) h)) =
       seg_v (pg_v p) (pg_a p) (pg_j p) (unat (asg_steps_limit (acc h)))"
proof -
  define g where "g = ul_idle (seg_len h) h"
  have no_start: "\<not> bit (reg_cmd (ul_idle n h)) 0" for n
    using ul_idle_ctrl [OF assms(2), of 0 n] assms(2) by (simp add: ul_read_0 ctrl_sel_def)
  note fin = seg_end_stops [OF assms(1) no_start, folded g_def]
  have later: "asg_stopped (acc (ul_idle (n + seg_len h) h)) \<and>
      pg_v (prof (ul_idle (n + seg_len h) h)) = pg_v (prof g)" for n
    unfolding ul_idle_add using fin(1) no_start stopped_stays [of g n] by (simp add: g_def)
  have "asg_stopped (acc (ul_idle t h))" if "seg_len h \<le> t"
    using later [of "t - seg_len h"] that by simp
  moreover have "\<not> asg_stopped (acc (ul_idle t h))" if "t < seg_len h"
    using seg_running [OF assms(1) that] assms(1)
    by (simp add: seg_at_def seg_loaded_def Let_def)
  ultimately have "asg_stopped (acc (ul_idle t h)) \<longleftrightarrow> seg_len h \<le> t"
    by (metis not_less)
  then show ?thesis
    using later [of t] fin(2) by (simp add: p_def add.commute)
qed

text \<open>Witness: a controller that has just loaded two periods of three cycles, then stops.\<close>

definition demo_regs :: motion_hw where
  "demo_regs =
     \<lparr>reg_cmd = 0, reg_next_xl = 0, reg_next_xh = 0, reg_next_v = 0, reg_next_a = 0,
      reg_next_j = 0, reg_next_dt = 0, reg_next_steps = 0, reg_pre_n = 0, reg_pulse_n = 0,
      reg_post_n = 0, reg_step_bit = 0, reg_stop_delay = 0, reg_probe_delay = 0,
      stat_missed_steps = 0, stat_undriven = (\<lambda>_. 0),
      acc = \<lparr>asg_dt_limit = 3, asg_steps_limit = 2, asg_steps = 0, asg_dt = 0,
             asg_stopped = False\<rparr>,
      prof = \<lparr>pg_x = 0, pg_v = 5, pg_a = 4, pg_j = 1, pg_step = False, pg_dir = False\<rparr>,
      motor = \<lparr>ms_cnt = 0, ms_step = False, ms_dir = False, ms_missed = False\<rparr>\<rparr>"

lemma demo_loaded [simp]:
  "seg_loaded (demo_regs\<lparr>reg_cmd := c\<rparr>)" "seg_len (demo_regs\<lparr>reg_cmd := c\<rparr>) = 6"
  "asg_dt_limit (acc demo_regs) = 3" "asg_steps_limit (acc demo_regs) = 2"
  "pg_v (prof demo_regs) = 5" "pg_a (prof demo_regs) = 4" "pg_j (prof demo_regs) = 1"
  "reg_cmd demo_regs = 0" "seg_loaded demo_regs" "seg_len demo_regs = 6"
  by (simp_all add: demo_regs_def seg_loaded_def seg_len_def)

theorem segment_motion_witness:
  "pg_v (prof (ul_idle 4 demo_regs)) = 9 \<and> pg_a (prof (ul_idle 4 demo_regs)) = 5"
  using segment_motion [of demo_regs 4] by (simp add: seg_v_def seg_a_def choose_two)

theorem segment_stops_exactly_witness:
  "asg_stopped (acc (ul_idle 6 demo_regs)) \<and> \<not> asg_stopped (acc (ul_idle 5 demo_regs))"
  using segment_stops_exactly [of demo_regs 6] segment_stops_exactly [of demo_regs 5]
  by simp

text \<open>
  Property C17. When the next segment is already pending (START set, no new velocity and no new
  position requested), the controller loads it on the very cycle the running one ends, keeps
  the position, clears the command register, and starts from the velocity after
  \<open>steps - 1\<close> increments: a load takes priority over the acceleration step of that cycle, so
  the last increment of a chained segment is not applied, whereas a segment that stops
  applies all of them (\<open>segment_stops_exactly\<close>).
\<close>

theorem segment_chain_skips_last_increment:
  assumes "seg_loaded h" "bit (reg_cmd h) 0" "\<not> bit (reg_cmd h) 1" "\<not> bit (reg_cmd h) 2"
  defines "p \<equiv> prof h" and "g \<equiv> ul_idle (seg_len h) h"
  shows "acc g = \<lparr>asg_dt_limit = reg_next_dt h, asg_steps_limit = reg_next_steps h,
           asg_steps = 0, asg_dt = 0, asg_stopped = False\<rparr> \<and> reg_cmd g = 0 \<and>
     pg_v (prof g) =
       seg_v (pg_v p) (pg_a p) (pg_j p) (unat (asg_steps_limit (acc h)) - 1) \<and>
     pg_x (prof g) = pg_x p + (\<Sum>i < seg_len h.
       scast (seg_v (pg_v p) (pg_a p) (pg_j p) (i div unat (asg_dt_limit (acc h)))))"
proof -
  define e where "e = ul_idle (seg_len h - 1) h"
  obtain m where m: "seg_len h = Suc m"
    using seg_len_pos [OF assms(1)] gr0_conv_Suc by auto
  have ctrl: "ul_read sel e = ul_read sel h" if "ctrl_sel sel" for sel
    using seg_running_ctrl [OF assms(1) that, of "seg_len h - 1"] by (simp add: e_def m)
  have regs: "reg_cmd e = reg_cmd h" "reg_next_dt e = reg_next_dt h"
      "reg_next_steps e = reg_next_steps h"
    using ctrl [of 0] ctrl [of 6] ctrl [of 7] by (simp_all add: ul_read_def ctrl_sel_def)
  note last = seg_last [OF assms(1), folded e_def] and split = seg_len_split [OF assms(1)]
  have load: "ul_load False e"
    using last(4) regs assms(2) by simp
  have step: "g = ul_clk False None e"
    by (simp add: g_def m ul_idle_Suc e_def)
  have "acc g = \<lparr>asg_dt_limit = reg_next_dt h, asg_steps_limit = reg_next_steps h,
      asg_steps = 0, asg_dt = 0, asg_stopped = False\<rparr>"
    using load regs by (simp add: step hw_simps asg_clk_def)
  moreover have "reg_cmd g = 0"
    using load by (simp add: step ul_clk_def ul_clk_regs_def Let_def)
  moreover have "pg_v (prof g) = pg_v (prof e)"
    using load regs assms(4) by (simp add: step hw_simps pg_clk_def pg_next_vaj_def pg_next_xds_def)
  ultimately show ?thesis
    using last(1) split seg_end_x [OF assms(1)] regs assms(3)
    by (simp add: seg_at_def Let_def p_def g_def e_def)
qed

theorem segment_chain_skips_last_increment_witness:
  "pg_v (prof (ul_idle 6 (demo_regs\<lparr>reg_cmd := 1\<rparr>))) = 9"
  using segment_chain_skips_last_increment [of "demo_regs\<lparr>reg_cmd := 1\<rparr>"]
  by (simp add: bit_1_iff seg_v_def choose_two)

section \<open>Steps and pulses\<close>

text \<open>The motor position a 64-bit accumulator stands for: its value in units of \<open>2 ^ sb\<close>.\<close>

definition pg_pos :: "nat \<Rightarrow> u64 \<Rightarrow> int" where
  "pg_pos sb w = sint w div 2 ^ sb"

lemma div_shift_parity:
  fixes a b m :: int
  assumes "0 < m" "\<bar>b\<bar> < m"
  shows "(a + b) div m - a div m =
     (if odd (a div m) \<noteq> odd ((a + b) div m) then if 0 < b then 1 else - 1 else 0)"
proof -
  define q where "q = a div m"
  define r where "r = a mod m"
  have r: "0 \<le> r" "r < m" and a: "a = m * q + r"
    using assms(1) by (simp_all add: q_def r_def)
  have eq: "(a + b) div m = q + (r + b) div m"
    using assms(1) by (simp add: a add.assoc)
  consider "r + b < 0" | "0 \<le> r + b" "r + b < m" | "m \<le> r + b" by linarith
  then have "((r + b) div m = - 1 \<and> b < 0) \<or> (r + b) div m = 0 \<or> ((r + b) div m = 1 \<and> 0 < b)"
  proof cases
    case 1
    then have "(r + b) div m = - 1"
      using r assms by (intro int_div_pos_eq [of _ _ "- 1" "r + b + m"]) auto
    with 1 r show ?thesis by simp
  next
    case 2
    then show ?thesis by simp
  next
    case 3
    then have "(r + b) div m = 1"
      using r assms by (intro int_div_pos_eq [of _ _ 1 "r + b - m"]) auto
    with 3 r show ?thesis by simp
  qed
  then show ?thesis
    by (auto simp: eq q_def [symmetric])
qed

lemma sint_add_no_overflow:
  fixes w u :: "64 word"
  assumes "- (2 ^ 63) \<le> sint w + sint u" "sint w + sint u < 2 ^ 63"
  shows "sint (w + u) = sint w + sint u"
  using assms by (simp add: sint_word_ariths signed_take_bit_int_eq_self)

lemma sint_scast_32_64: "sint (scast (v :: u32) :: u64) = sint v"
proof -
  have "- (2 ^ 31) \<le> sint v" "sint v < 2 ^ 31"
    using sint_greater_eq [of v] sint_less [of v] by simp_all
  then have "signed_take_bit 63 (sint v) = sint v"
    by (intro signed_take_bit_int_eq_self) simp_all
  then show ?thesis by (simp add: signed_scast_eq)
qed

lemma bit_odd_sint:
  fixes w :: u64
  assumes "n < 64"
  shows "bit w n \<longleftrightarrow> odd (sint w div 2 ^ n)"
proof -
  have "bit w n \<longleftrightarrow> bit (sint w) n"
    using assms by (simp add: bit_sint_iff)
  then show ?thesis by (simp add: bit_iff_odd)
qed

lemma pg_clk_position:
  assumes "sb < 64" "\<bar>sint (pg_v p)\<bar> < 2 ^ sb" "\<not> (load \<and> set_x)"
    and "- (2 ^ 63) \<le> sint (pg_x p) + sint (pg_v p)" "sint (pg_x p) + sint (pg_v p) < 2 ^ 63"
    and p'_def: "p' = pg_clk False stb load set_x set_v set_a set_j x_val v_val a_val j_val sb p"
  shows "pg_pos sb (pg_x p') - pg_pos sb (pg_x p) =
     (if pg_step p' then if pg_dir p' then 1 else - 1 else 0)"
proof -
  have x': "pg_x p' = pg_x_acc p"
    and step: "pg_step p' \<longleftrightarrow> bit (pg_x p) sb \<noteq> bit (pg_x_acc p) sb"
    and dir: "pg_step p' \<Longrightarrow> pg_dir p' \<longleftrightarrow> 0 < sint (pg_v p)"
    using assms(3)
    by (auto simp: p'_def pg_clk_def pg_next_xds_def word_sless_alt split: prod.splits if_splits)
  have sum: "sint (pg_x_acc p) = sint (pg_x p) + sint (pg_v p)"
    unfolding pg_x_acc_def using assms(4,5)
    by (subst sint_add_no_overflow) (simp_all add: sint_scast_32_64)
  show ?thesis
    using div_shift_parity [of "2 ^ sb" "sint (pg_v p)" "sint (pg_x p)"] assms(2) dir
    by (auto simp: pg_pos_def x' step sum bit_odd_sint [OF assms(1)])
qed

text \<open>
  The pulses of \<open>n\<close> cycles, counted with their direction, and the condition that the
  accumulator behaves as an integer over them: no position is loaded, the velocity stays
  below one motor step per cycle and the accumulator does not overflow.
\<close>

definition signed_step :: "motion_hw \<Rightarrow> int" where
  "signed_step h = (if pg_step (prof h) then if pg_dir (prof h) then 1 else - 1 else 0)"

definition smooth :: "motion_hw \<Rightarrow> bool" where
  "smooth h \<longleftrightarrow>
     \<not> (ul_load False h \<and> bit (reg_cmd h) 1) \<and>
     \<bar>sint (pg_v (prof h))\<bar> < 2 ^ ul_step_bit h \<and>
     - (2 ^ 63) \<le> sint (pg_x (prof h)) + sint (pg_v (prof h)) \<and>
     sint (pg_x (prof h)) + sint (pg_v (prof h)) < 2 ^ 63"

lemma ul_step_bit_less: "ul_step_bit h < 64"
proof -
  have "take_bit 6 (unat (reg_step_bit h)) < 2 ^ 6"
    by (rule take_bit_nat_less_exp)
  then show ?thesis by (simp add: ul_step_bit_def unsigned_take_bit_eq)
qed

lemma ul_clk_step_bit: "ul_step_bit (ul_clk False None h) = ul_step_bit h"
  by (simp add: ul_step_bit_def ul_clk_def ul_clk_regs_def Let_def)

lemma ul_idle_step_bit: "ul_step_bit (ul_idle n h) = ul_step_bit h"
  by (induction n) (simp_all add: ul_idle_Suc ul_clk_step_bit)

lemma smooth_clk:
  assumes "smooth h"
  shows "pg_pos (ul_step_bit h) (pg_x (prof (ul_clk False None h))) -
     pg_pos (ul_step_bit h) (pg_x (prof h)) = signed_step (ul_clk False None h)"
  using assms unfolding smooth_def signed_step_def
  by (intro pg_clk_position [OF ul_step_bit_less _ _ _ _ ul_clk_prof]) simp_all

text \<open>
  Property C18. No motor step is lost or invented: over any number of cycles in which the
  velocity stays below one step per clock cycle, the step strobes counted with their
  direction are exactly the change of the motor position the accumulator stands for.
\<close>

theorem steps_follow_position:
  assumes "\<And>i. i < n \<Longrightarrow> smooth (ul_idle i h)"
  shows "(\<Sum>i<n. signed_step (ul_idle (Suc i) h)) =
     pg_pos (ul_step_bit h) (pg_x (prof (ul_idle n h))) -
     pg_pos (ul_step_bit h) (pg_x (prof h))"
  using assms
proof (induction n)
  case 0
  then show ?case by simp
next
  case (Suc n)
  have "smooth (ul_idle n h)" using Suc.prems by simp
  from smooth_clk [OF this] Suc show ?case
    by (simp add: ul_idle_Suc ul_idle_step_bit)
qed

theorem steps_follow_position_witness:
  "(\<Sum>i<2. signed_step (ul_idle (Suc i) (demo_regs\<lparr>reg_step_bit := 3\<rparr>))) = 1"
proof -
  define h where "h = demo_regs\<lparr>reg_step_bit := 3\<rparr>"
  have sb: "ul_step_bit h = 3"
    by (simp add: ul_step_bit_def h_def)
  have run: "reg_cmd (ul_idle (Suc 0) h) = 0" "pg_x (prof (ul_idle (Suc 0) h)) = 5"
      "pg_v (prof (ul_idle (Suc 0) h)) = 5" "pg_x (prof (ul_idle 2 h)) = 10" "pg_x (prof h) = 0"
      "reg_cmd h = 0" "pg_v (prof h) = 5"
    by (simp_all add: h_def ul_idle_def numeral_2_eq_2 ul_clk_def ul_clk_regs_def pg_clk_def
        pg_next_vaj_def pg_next_xds_def pg_x_acc_def demo_regs_def ul_load_def asg_step_stb_def)
  have "smooth h" "smooth (ul_idle (Suc 0) h)"
    by (simp_all add: smooth_def sb ul_idle_step_bit run ul_load_def)
  then have "smooth (ul_idle i h)" if "i < 2" for i
    using that by (auto simp: less_2_cases_iff)
  from steps_follow_position [OF this, of 2] show ?thesis
    unfolding h_def [symmetric] by (simp add: sb run pg_pos_def)
qed

section \<open>The shape of a step pulse\<close>

text \<open>\<open>n\<close> cycles of the pulse generator without a further strobe.\<close>

definition ms_idle :: "u32 \<Rightarrow> u32 \<Rightarrow> u32 \<Rightarrow> nat \<Rightarrow> motor_step_gen \<Rightarrow> motor_step_gen" where
  "ms_idle pre_n pulse_n post_n n s =
     (ms_clk False pre_n pulse_n post_n False False ^^ n) s"

lemma ms_idle_Suc:
  "ms_idle pre pulse post (Suc n) s =
     ms_clk False pre pulse post False False (ms_idle pre pulse post n s)"
  by (simp add: ms_idle_def)

lemma ms_idle_cnt:
  assumes "post \<le> pulse" "ms_cnt s = 0"
    and "s0 = ms_clk False pre pulse post True d s"
  shows "k < unat pulse \<Longrightarrow> ms_idle pre pulse post k s0 =
     \<lparr>ms_cnt = of_nat (Suc k), ms_step = (0 < k \<and> unat pre \<le> k), ms_dir = d,
      ms_missed = False\<rparr>"
proof (induction k)
  case 0
  then show ?case using assms by (simp add: ms_idle_def ms_clk_def)
next
  case (Suc k)
  have lt: "Suc k < 2 ^ 32"
    using Suc.prems unsigned_less [of pulse, where ?'a = nat] by simp
  then have u: "unat (of_nat (Suc k) :: u32) = Suc k"
    by (intro unat_of_nat_eq_small) simp
  then have "(of_nat (Suc k) :: u32) \<noteq> 0" by (metis nat.distinct(1) unat_0)
  with u Suc show ?case
    by (auto simp: ms_idle_Suc ms_clk_def Let_def word_less_nat_alt)
qed

text \<open>
  A strobe that finds the generator idle raises the step output for
  \<open>pulse_n - pre_n\<close> cycles, \<open>pre_n\<close> cycles after the strobe, holds the direction all that
  time, and leaves the generator idle one cycle after the pulse when \<open>post_n\<close> does not exceed
  \<open>pulse_n\<close>: the three registers are absolute counts, so such a \<open>post_n\<close> adds no hold time.
\<close>

theorem step_pulse_shape:
  assumes "0 < pre" "pre \<le> pulse" "post \<le> pulse" "ms_cnt s = 0"
    and "s0 = ms_clk False pre pulse post True d s"
  shows "(\<forall>k < unat pulse. ms_step (ms_idle pre pulse post k s0) = (unat pre \<le> k) \<and>
            ms_dir (ms_idle pre pulse post k s0) = d) \<and>
     ms_cnt (ms_idle pre pulse post (unat pulse) s0) = 0 \<and>
     \<not> ms_step (ms_idle pre pulse post (unat pulse) s0)"
proof -
  have pos: "0 < unat pre" "unat pre \<le> unat pulse"
    using assms(1,2) by (simp_all add: unat_gt_0 word_le_nat_alt word_gt_0)
  then obtain m where m: "unat pulse = Suc m" by (cases "unat pulse") auto
  note at = ms_idle_cnt [OF assms(3,4,5)]
  have "of_nat (Suc m) = pulse" by (metis m unat_of_nat_eq_small word_nat_cases)
  then have "ms_cnt (ms_idle pre pulse post (Suc m) s0) = 0 \<and>
      \<not> ms_step (ms_idle pre pulse post (Suc m) s0)"
    using at [of m] assms(2,3) m pos
    by (auto simp: ms_idle_Suc ms_clk_def Let_def word_less_nat_alt word_le_nat_alt)
  then show ?thesis
    using at pos by (auto simp: m)
qed

theorem step_pulse_shape_witness:
  "\<not> ms_step (ms_idle 2 4 2 1 (ms_clk False 2 4 2 True True
       \<lparr>ms_cnt = 0, ms_step = False, ms_dir = False, ms_missed = False\<rparr>)) \<and>
   ms_step (ms_idle 2 4 2 3 (ms_clk False 2 4 2 True True
       \<lparr>ms_cnt = 0, ms_step = False, ms_dir = False, ms_missed = False\<rparr>))"
  using step_pulse_shape [of 2 4 2
      "\<lparr>ms_cnt = 0, ms_step = False, ms_dir = False, ms_missed = False\<rparr>", OF _ _ _ _ refl, of True]
  by simp

section \<open>A pending START is eventually loaded\<close>

text \<open>While a START is pending and no load has happened, the control registers are stable.\<close>

lemma ul_idle_until_load:
  assumes "\<forall>i<k. \<not> ul_load False (ul_idle i h)" "ctrl_sel sel"
  shows "ul_read sel (ul_idle k h) = ul_read sel h"
  using assms(1)
proof (induction k)
  case 0
  then show ?case by simp
next
  case (Suc k)
  then show ?case using assms(2) by (simp add: ul_idle_Suc ul_clk_ctrl)
qed

lemma ul_read_regs:
  "ul_read 0 h = reg_cmd h" "ul_read 3 h = reg_next_v h" "ul_read 4 h = reg_next_a h"
  "ul_read 5 h = reg_next_j h" "ul_read 6 h = reg_next_dt h" "ul_read 7 h = reg_next_steps h"
  by (simp_all add: ul_read_def)

definition asg_left :: "acc_step_gen \<Rightarrow> nat" where
  "asg_left s = (2 ^ 32 - unat (asg_steps s)) * 2 ^ 32 + (2 ^ 32 - unat (asg_dt s))"

lemma word_less_pred_Suc:
  fixes x l :: u32
  assumes "\<not> l - 1 \<le> x"
  shows "unat (x + 1) = unat x + 1" "unat x + 1 < 2 ^ 32"
proof -
  have "unat x < unat (l - 1)" using assms by (simp add: word_le_nat_alt)
  also have "unat (l - 1) < 2 ^ 32" using unsigned_less [of "l - 1"] by simp
  finally show "unat x + 1 < 2 ^ 32"
    using \<open>unat x < unat (l - 1)\<close> \<open>unat (l - 1) < 2 ^ 32\<close> by linarith
  then show "unat (x + 1) = unat x + 1"
    by (simp add: unat_Suc_small)
qed

lemma asg_left_decreases:
  assumes "\<not> asg_stopped s" "\<not> asg_done False s"
  shows "asg_left (asg_clk False False d n s) < asg_left s"
proof (cases "asg_dt_limit s - 1 \<le> asg_dt s")
  case True
  with assms have lt: "\<not> asg_steps_limit s - 1 \<le> asg_steps s"
    by (auto simp: asg_done_def asg_step_stb_def)
  have "unat (asg_dt s) < 2 ^ 32" using unsigned_less [of "asg_dt s"] by simp
  then show ?thesis
    using True assms(1) word_less_pred_Suc [OF lt] by (simp add: asg_clk_def asg_left_def)
next
  case False
  then show ?thesis
    using assms(1) word_less_pred_Suc [OF False] by (simp add: asg_clk_def asg_left_def)
qed

lemma pending_start_eventually:
  "bit (reg_cmd h) 0 \<Longrightarrow> \<exists>k. ul_load False (ul_idle k h)"
proof (induction "asg_left (acc h)" arbitrary: h rule: less_induct)
  case less
  show ?case
  proof (cases "ul_load False h")
    case True
    then show ?thesis by (intro exI [of _ 0]) simp
  next
    case False
    then have "\<not> asg_stopped (acc h)" "\<not> asg_done False (acc h)"
      using less.prems by (auto simp: ul_load_def)
    then have "asg_left (acc (ul_clk False None h)) < asg_left (acc h)"
      using False asg_left_decreases by (simp add: hw_simps)
    moreover have "bit (reg_cmd (ul_clk False None h)) 0"
      using less.prems False by (simp add: ul_clk_def ul_clk_regs_def Let_def)
    ultimately obtain k where "ul_load False (ul_idle k (ul_clk False None h))"
      using less.hyps by blast
    then show ?thesis
      using ul_idle_add [of k 1 h] by (intro exI [of _ "k + 1"]) (simp add: ul_idle_Suc)
  qed
qed

lemma load_takes_registers:
  assumes "ul_load False g"
  defines "g' \<equiv> ul_clk False None g"
  shows "reg_cmd g' = 0" "\<not> asg_stopped (acc g')" "asg_dt_limit (acc g') = reg_next_dt g"
    and "asg_steps_limit (acc g') = reg_next_steps g" "asg_steps (acc g') = 0" "asg_dt (acc g') = 0"
    and "bit (reg_cmd g) 3 \<Longrightarrow> pg_a (prof g') = reg_next_a g"
    and "bit (reg_cmd g) 4 \<Longrightarrow> pg_j (prof g') = reg_next_j g"
    and "pg_v (prof g') = (if bit (reg_cmd g) 2 then reg_next_v g else pg_v (prof g))"
  using assms(1)
  by (simp_all add: g'_def ul_clk_def ul_clk_regs_def Let_def asg_clk_def pg_clk_def pg_next_vaj_def
      case_prod_beta)

text \<open>
  Property C19. A segment programmed with START, SET_A and SET_J is always loaded after finitely
  many cycles, whatever the axis is doing: for some number of cycles nothing is loaded and the
  next one starts exactly the programmed step count and period with the programmed
  acceleration and jerk, from the velocity the axis has then (or the programmed one, if
  flagged), and clears the command register.
\<close>

theorem pending_start_loads:
  assumes "bit (reg_cmd h) 0" "bit (reg_cmd h) 3" "bit (reg_cmd h) 4"
  shows "\<exists>k. (\<forall>i<k. \<not> ul_load False (ul_idle i h)) \<and>
     (let g = ul_idle k h; g' = ul_idle (Suc k) h in
        reg_cmd g' = 0 \<and> \<not> asg_stopped (acc g') \<and> asg_steps (acc g') = 0 \<and> asg_dt (acc g') = 0 \<and>
        asg_dt_limit (acc g') = reg_next_dt h \<and> asg_steps_limit (acc g') = reg_next_steps h \<and>
        pg_a (prof g') = reg_next_a h \<and> pg_j (prof g') = reg_next_j h \<and>
        pg_v (prof g') = (if bit (reg_cmd h) 2 then reg_next_v h else pg_v (prof g)))"
proof -
  define k where "k = (LEAST k. ul_load False (ul_idle k h))"
  have k: "ul_load False (ul_idle k h)" "\<forall>i<k. \<not> ul_load False (ul_idle i h)"
    using LeastI_ex [OF pending_start_eventually [OF assms(1)]] not_less_Least
    by (auto simp: k_def)
  have regs: "ul_read sel (ul_idle k h) = ul_read sel h" if "ctrl_sel sel" for sel
    using ul_idle_until_load [OF k(2) that] .
  have "reg_cmd (ul_idle k h) = reg_cmd h" "reg_next_v (ul_idle k h) = reg_next_v h"
    "reg_next_a (ul_idle k h) = reg_next_a h" "reg_next_j (ul_idle k h) = reg_next_j h"
    "reg_next_dt (ul_idle k h) = reg_next_dt h" "reg_next_steps (ul_idle k h) = reg_next_steps h"
    using regs [of 0] regs [of 3] regs [of 4] regs [of 5] regs [of 6] regs [of 7]
    by (simp_all add: ul_read_regs ctrl_sel_def)
  then show ?thesis
    using load_takes_registers [OF k(1)] k(2) assms
    by (intro exI [of _ k]) (simp add: Let_def ul_idle_Suc)
qed

theorem pending_start_loads_witness:
  "\<exists>k. pg_a (prof (ul_idle (Suc k) (demo_regs\<lparr>reg_cmd := 0x19, reg_next_a := 7\<rparr>))) = 7"
proof -
  have "bit (25::u32) 0" "bit (25::u32) 3" "bit (25::u32) 4"
    by simp_all
  with pending_start_loads [of "demo_regs\<lparr>reg_cmd := 0x19, reg_next_a := 7\<rparr>"]
  show ?thesis by (auto simp: Let_def)
qed

end
