(* ===== verification/Motion_Drv.thy ===== *)
theory Motion_Drv
  imports Mmio Motion_HW
begin

unbundle bit_operations_syntax

text \<open>
  The driver of the axis controller: the register map and accessors of
  \<^verbatim>\<open>src/sdloader/src/motion.h\<close>, the functions of \<^verbatim>\<open>src/sdloader/src/motion.c\<close> and the
  wizard's self test \<^verbatim>\<open>src/drivers/motion_v1_00_a/src/motion_selftest.c\<close>. What the driver
  needs of the hardware is the locale \<open>motion_port\<close>; it is interpreted on the controller of
  \<open>Motion_HW\<close> behind a bus on which any number of clock cycles passes before each access.
\<close>

section \<open>Register map\<close>

named_theorems motion_regs \<open>register offsets and masks of the axis controller\<close>

definition MOTION_CMD_OFFSET :: u32 where [motion_regs]: "MOTION_CMD_OFFSET = 0x00"
definition MOTION_NEXT_XL_OFFSET :: u32 where [motion_regs]: "MOTION_NEXT_XL_OFFSET = 0x04"
definition MOTION_NEXT_XH_OFFSET :: u32 where [motion_regs]: "MOTION_NEXT_XH_OFFSET = 0x08"
definition MOTION_NEXT_V_OFFSET :: u32 where [motion_regs]: "MOTION_NEXT_V_OFFSET = 0x0C"
definition MOTION_NEXT_A_OFFSET :: u32 where [motion_regs]: "MOTION_NEXT_A_OFFSET = 0x10"
definition MOTION_NEXT_J_OFFSET :: u32 where [motion_regs]: "MOTION_NEXT_J_OFFSET = 0x14"
definition MOTION_NEXT_DT_OFFSET :: u32 where [motion_regs]: "MOTION_NEXT_DT_OFFSET = 0x18"
definition MOTION_NEXT_STEPS_OFFSET :: u32 where [motion_regs]: "MOTION_NEXT_STEPS_OFFSET = 0x1C"
definition MOTION_PRE_N_OFFSET :: u32 where [motion_regs]: "MOTION_PRE_N_OFFSET = 0x20"
definition MOTION_PULSE_N_OFFSET :: u32 where [motion_regs]: "MOTION_PULSE_N_OFFSET = 0x24"
definition MOTION_POST_N_OFFSET :: u32 where [motion_regs]: "MOTION_POST_N_OFFSET = 0x28"
definition MOTION_STEP_BIT_OFFSET :: u32 where [motion_regs]: "MOTION_STEP_BIT_OFFSET = 0x2C"
definition MOTION_STAT_XL_OFFSET :: u32 where [motion_regs]: "MOTION_STAT_XL_OFFSET = 0x30"
definition MOTION_STAT_XH_OFFSET :: u32 where [motion_regs]: "MOTION_STAT_XH_OFFSET = 0x34"
definition MOTION_STAT_V_OFFSET :: u32 where [motion_regs]: "MOTION_STAT_V_OFFSET = 0x38"
definition MOTION_STAT_A_OFFSET :: u32 where [motion_regs]: "MOTION_STAT_A_OFFSET = 0x3C"
definition MOTION_STAT_J_OFFSET :: u32 where [motion_regs]: "MOTION_STAT_J_OFFSET = 0x40"
definition MOTION_STAT_DT_OFFSET :: u32 where [motion_regs]: "MOTION_STAT_DT_OFFSET = 0x44"
definition MOTION_STAT_STEPS_OFFSET :: u32 where [motion_regs]: "MOTION_STAT_STEPS_OFFSET = 0x48"
definition MOTION_STAT_STATUS_OFFSET :: u32 where
  [motion_regs]: "MOTION_STAT_STATUS_OFFSET = 0x4C"

definition MOTION_CMD_START_MASK :: u32 where [motion_regs]: "MOTION_CMD_START_MASK = 0x1"
definition MOTION_CMD_SET_X_MASK :: u32 where [motion_regs]: "MOTION_CMD_SET_X_MASK = 0x2"
definition MOTION_CMD_SET_V_MASK :: u32 where [motion_regs]: "MOTION_CMD_SET_V_MASK = 0x4"
definition MOTION_CMD_SET_A_MASK :: u32 where [motion_regs]: "MOTION_CMD_SET_A_MASK = 0x8"
definition MOTION_CMD_SET_J_MASK :: u32 where [motion_regs]: "MOTION_CMD_SET_J_MASK = 0x10"

definition MOTION_RST_REG_OFFSET :: u32 where [motion_regs]: "MOTION_RST_REG_OFFSET = 0x100"
definition SOFT_RESET :: u32 where [motion_regs]: "SOFT_RESET = 0xA"

definition MOTION_INTR_DISR_OFFSET :: u32 where [motion_regs]: "MOTION_INTR_DISR_OFFSET = 0x200"
definition MOTION_INTR_DIER_OFFSET :: u32 where [motion_regs]: "MOTION_INTR_DIER_OFFSET = 0x208"
definition MOTION_INTR_DGIER_OFFSET :: u32 where
  [motion_regs]: "MOTION_INTR_DGIER_OFFSET = 0x21C"
definition MOTION_INTR_IPISR_OFFSET :: u32 where
  [motion_regs]: "MOTION_INTR_IPISR_OFFSET = 0x220"
definition MOTION_INTR_IPIER_OFFSET :: u32 where
  [motion_regs]: "MOTION_INTR_IPIER_OFFSET = 0x228"

definition INTR_TERR_MASK :: u32 where "INTR_TERR_MASK = 0x1"
definition INTR_DPTO_MASK :: u32 where "INTR_DPTO_MASK = 0x2"
definition INTR_IPIR_MASK :: u32 where "INTR_IPIR_MASK = 0x4"
definition INTR_GIE_MASK :: u32 where "INTR_GIE_MASK = 0x80000000"

section \<open>Driver functions\<close>

definition MOTION_mWriteReg :: "'b mmio \<Rightarrow> u32 \<Rightarrow> u32 \<Rightarrow> u32 \<Rightarrow> 'b \<Rightarrow> 'b" where
  "MOTION_mWriteReg io base off d b = io_out32 io (base + off) d b"

definition MOTION_mReadReg :: "'b mmio \<Rightarrow> u32 \<Rightarrow> u32 \<Rightarrow> 'b \<Rightarrow> u32 \<times> 'b" where
  "MOTION_mReadReg io base off b = io_in32 io (base + off) b"

definition MOTION_mReset :: "'b mmio \<Rightarrow> u32 \<Rightarrow> 'b \<Rightarrow> 'b" where
  "MOTION_mReset io base b = io_out32 io (base + MOTION_RST_REG_OFFSET) SOFT_RESET b"

definition MOTION_EnableInterrupt :: "'b mmio \<Rightarrow> u32 \<Rightarrow> 'b \<Rightarrow> 'b" where
  "MOTION_EnableInterrupt io base b =
     (let b = MOTION_mWriteReg io base MOTION_INTR_IPIER_OFFSET 0xF b;
          b = MOTION_mWriteReg io base MOTION_INTR_DIER_OFFSET
                (INTR_TERR_MASK OR INTR_DPTO_MASK OR INTR_IPIR_MASK) b
      in MOTION_mWriteReg io base MOTION_INTR_DGIER_OFFSET INTR_GIE_MASK b)"

definition MOTION_Intr_DefaultHandler :: "'b mmio \<Rightarrow> u32 \<Rightarrow> 'b \<Rightarrow> 'b" where
  "MOTION_Intr_DefaultHandler io base b =
     (let (IntrStatus, b) = MOTION_mReadReg io base MOTION_INTR_DISR_OFFSET b
      in if IntrStatus AND INTR_IPIR_MASK = INTR_IPIR_MASK then
           (let (IpStatus, b) = MOTION_mReadReg io base MOTION_INTR_IPISR_OFFSET b
            in MOTION_mWriteReg io base MOTION_INTR_IPISR_OFFSET IpStatus b)
         else b)"

definition MOTION_Start :: "'b mmio \<Rightarrow> u32 \<Rightarrow> 'b \<Rightarrow> 'b" where
  "MOTION_Start io base b =
     (let (tmp, b) = MOTION_mReadReg io base MOTION_CMD_OFFSET b
      in MOTION_mWriteReg io base MOTION_CMD_OFFSET (tmp OR MOTION_CMD_START_MASK) b)"

definition MOTION_SetDT :: "'b mmio \<Rightarrow> u32 \<Rightarrow> u32 \<Rightarrow> 'b \<Rightarrow> 'b" where
  "MOTION_SetDT io base val b = MOTION_mWriteReg io base MOTION_NEXT_DT_OFFSET val b"

definition MOTION_SetSteps :: "'b mmio \<Rightarrow> u32 \<Rightarrow> u32 \<Rightarrow> 'b \<Rightarrow> 'b" where
  "MOTION_SetSteps io base val b = MOTION_mWriteReg io base MOTION_NEXT_STEPS_OFFSET val b"

definition MOTION_SetX :: "'b mmio \<Rightarrow> u32 \<Rightarrow> u64 \<Rightarrow> 'b \<Rightarrow> 'b" where
  "MOTION_SetX io base val b =
     (let b = MOTION_mWriteReg io base MOTION_NEXT_XL_OFFSET (ucast (val AND 0xFFFFFFFF)) b;
          b = MOTION_mWriteReg io base MOTION_NEXT_XH_OFFSET
                (ucast (signed_drop_bit 32 val AND 0xFFFFFFFF)) b;
          (tmp, b) = MOTION_mReadReg io base MOTION_CMD_OFFSET b
      in MOTION_mWriteReg io base MOTION_CMD_OFFSET (tmp OR MOTION_CMD_SET_X_MASK) b)"

definition MOTION_SetV :: "'b mmio \<Rightarrow> u32 \<Rightarrow> u32 \<Rightarrow> 'b \<Rightarrow> 'b" where
  "MOTION_SetV io base val b =
     (let b = MOTION_mWriteReg io base MOTION_NEXT_V_OFFSET val b;
          (tmp, b) = MOTION_mReadReg io base MOTION_CMD_OFFSET b
      in MOTION_mWriteReg io base MOTION_CMD_OFFSET (tmp OR MOTION_CMD_SET_V_MASK) b)"

definition MOTION_SetA :: "'b mmio \<Rightarrow> u32 \<Rightarrow> u32 \<Rightarrow> 'b \<Rightarrow> 'b" where
  "MOTION_SetA io base val b =
     (let b = MOTION_mWriteReg io base MOTION_NEXT_A_OFFSET val b;
          (tmp, b) = MOTION_mReadReg io base MOTION_CMD_OFFSET b
      in MOTION_mWriteReg io base MOTION_CMD_OFFSET (tmp OR MOTION_CMD_SET_A_MASK) b)"

definition MOTION_SetJ :: "'b mmio \<Rightarrow> u32 \<Rightarrow> u32 \<Rightarrow> 'b \<Rightarrow> 'b" where
  "MOTION_SetJ io base val b =
     (let b = MOTION_mWriteReg io base MOTION_NEXT_J_OFFSET val b;
          (tmp, b) = MOTION_mReadReg io base MOTION_CMD_OFFSET b
      in MOTION_mWriteReg io base MOTION_CMD_OFFSET (tmp OR MOTION_CMD_SET_J_MASK) b)"

section \<open>Self test\<close>

text \<open>
  The unrolled register test of \<^verbatim>\<open>MOTION_SelfTest\<close>: the value \<open>i + 1\<close> is written to slave
  register \<open>i\<close> and read back, for the 32 registers in order, and the first mismatch is a
  failure. The BRAM loop runs over 256 words from \<open>bram\<close>, the value of the
  variable \<^verbatim>\<open>LocalBRAM\<close>.
\<close>

fun selftest_regs :: "'b mmio \<Rightarrow> u32 \<Rightarrow> nat list \<Rightarrow> 'b \<Rightarrow> xstatus \<times> 'b" where
  "selftest_regs io base [] b = (XST_SUCCESS, b)"
| "selftest_regs io base (i # is) b =
     (let off = 4 * of_nat i;
          b = MOTION_mWriteReg io base off (of_nat (i + 1)) b;
          (Reg32Value, b) = MOTION_mReadReg io base off b
      in if Reg32Value \<noteq> of_nat (i + 1) then (XST_FAILURE, b) else selftest_regs io base is b)"

fun selftest_bram :: "'b mmio \<Rightarrow> u32 \<Rightarrow> nat list \<Rightarrow> 'b \<Rightarrow> xstatus \<times> 'b" where
  "selftest_bram io bram [] b = (XST_SUCCESS, b)"
| "selftest_bram io bram (i # is) b =
     (let b = io_out32 io (bram + 4 * of_nat i) 0xDEADBEEF b;
          (Mem32Value, b) = io_in32 io (bram + 4 * of_nat i) b
      in if Mem32Value \<noteq> 0xDEADBEEF then (XST_FAILURE, b) else selftest_bram io bram is b)"

definition selftest_intr :: "'b mmio \<Rightarrow> u32 \<Rightarrow> 'b \<Rightarrow> 'b" where
  "selftest_intr io base b =
     (let (Reg32Value, b) = MOTION_mReadReg io base MOTION_INTR_IPISR_OFFSET b;
          b = MOTION_mWriteReg io base MOTION_INTR_IPISR_OFFSET Reg32Value b;
          (Reg32Value, b) = MOTION_mReadReg io base MOTION_INTR_DISR_OFFSET b;
          b = MOTION_mWriteReg io base MOTION_INTR_DISR_OFFSET Reg32Value b
      in MOTION_EnableInterrupt io base b)"

definition MOTION_SelfTest :: "'b mmio \<Rightarrow> u32 \<Rightarrow> u32 \<Rightarrow> 'b \<Rightarrow> xstatus \<times> 'b" where
  "MOTION_SelfTest io base bram b =
     (let b = MOTION_mReset io base b;
          (st, b) = selftest_regs io base [0..<32] b
      in if st \<noteq> XST_SUCCESS then (st, b)
         else
           (let (st, b) = selftest_bram io bram [0..<256] b
            in if st \<noteq> XST_SUCCESS then (st, b)
               else (XST_SUCCESS, selftest_intr io base b)))"

section \<open>What the driver needs of the hardware\<close>

text \<open>
  \<open>ctrl b off\<close> is the content of the control register at offset \<open>off\<close>. While no START is
  pending the hardware leaves the control registers to the software: a read returns the
  content and changes nothing, a write changes exactly the register written. A START that a
  poll of the command register finds cleared stays cleared, and a read never disturbs the
  parameter registers, pending START or not.
\<close>

definition ctrl_off :: "u32 \<Rightarrow> bool" where
  "ctrl_off off \<longleftrightarrow> off AND 3 = 0 \<and> ctrl_sel (unat (drop_bit 2 off))"

definition stat_off :: "u32 \<Rightarrow> bool" where
  "stat_off off \<longleftrightarrow> off \<in> {0x30, 0x34, 0x38, 0x3C, 0x40, 0x44, 0x48, 0x4C}"

locale motion_port =
  fixes io :: "'b mmio"
    and base :: u32
    and ctrl :: "'b \<Rightarrow> u32 \<Rightarrow> u32"
  assumes read_value:
      "ctrl_off off \<Longrightarrow> \<not> bit (ctrl b 0) 0 \<Longrightarrow> fst (io_in32 io (base + off) b) = ctrl b off"
    and read_keeps:
      "ctrl_off off \<or> stat_off off \<Longrightarrow> ctrl_off r \<Longrightarrow> \<not> bit (ctrl b 0) 0 \<Longrightarrow>
         ctrl (snd (io_in32 io (base + off) b)) r = ctrl b r"
    and write_sets:
      "ctrl_off off \<Longrightarrow> ctrl_off r \<Longrightarrow> \<not> bit (ctrl b 0) 0 \<Longrightarrow>
         ctrl (io_out32 io (base + off) d b) r = (if r = off then d else ctrl b r)"
    and poll_clear:
      "\<not> bit (fst (io_in32 io base b)) 0 \<Longrightarrow> \<not> bit (ctrl (snd (io_in32 io base b)) 0) 0"
    and read_keeps_params:
      "ctrl_off r \<Longrightarrow> r \<noteq> 0 \<Longrightarrow> ctrl (snd (io_in32 io addr b)) r = ctrl b r"
begin

lemma ctrl_off_regs [simp]:
  "ctrl_off 0" "ctrl_off 4" "ctrl_off 8" "ctrl_off 12" "ctrl_off 16" "ctrl_off 20"
  "ctrl_off 24" "ctrl_off 28" "ctrl_off 32" "ctrl_off 36" "ctrl_off 40" "ctrl_off 44"
  by (simp_all add: ctrl_off_def ctrl_sel_def)

lemma or_cmd:
  assumes "\<not> bit (ctrl b 0) 0" "ctrl_off r"
  shows "ctrl (case io_in32 io base b of (tmp, b) \<Rightarrow> io_out32 io base (tmp OR m) b) r =
     (if r = 0 then ctrl b 0 OR m else ctrl b r)"
proof -
  obtain tmp b' where rd: "io_in32 io base b = (tmp, b')" by fastforce
  have "tmp = ctrl b 0" and keep: "\<And>r. ctrl_off r \<Longrightarrow> ctrl b' r = ctrl b r"
    using read_value [of 0 b] read_keeps [of 0 _ b] assms(1) rd by auto
  then show ?thesis
    using write_sets [of 0 r b'] assms by (simp add: rd)
qed

lemma SetSteps:
  "\<not> bit (ctrl b 0) 0 \<Longrightarrow> ctrl_off r \<Longrightarrow>
     ctrl (MOTION_SetSteps io base val b) r = (if r = 0x1C then val else ctrl b r)"
  by (simp add: MOTION_SetSteps_def MOTION_mWriteReg_def motion_regs write_sets)

lemma SetDT:
  "\<not> bit (ctrl b 0) 0 \<Longrightarrow> ctrl_off r \<Longrightarrow>
     ctrl (MOTION_SetDT io base val b) r = (if r = 0x18 then val else ctrl b r)"
  by (simp add: MOTION_SetDT_def MOTION_mWriteReg_def motion_regs write_sets)

text \<open>The setters that also flag their register in the command register.\<close>

lemma set_and_flag:
  assumes "\<not> bit (ctrl b 0) 0" "ctrl_off r" "ctrl_off off" "off \<noteq> 0"
  shows "ctrl (case io_in32 io base (io_out32 io (base + off) val b) of
                 (tmp, b) \<Rightarrow> io_out32 io base (tmp OR m) b) r =
     (if r = 0 then ctrl b 0 OR m else if r = off then val else ctrl b r)"
  using assms by (simp add: or_cmd write_sets)

lemma SetV:
  "\<not> bit (ctrl b 0) 0 \<Longrightarrow> ctrl_off r \<Longrightarrow> ctrl (MOTION_SetV io base val b) r =
     (if r = 0 then ctrl b 0 OR 4 else if r = 0xC then val else ctrl b r)"
  using set_and_flag [of b r 12 4 val]
  by (simp add: MOTION_SetV_def MOTION_mWriteReg_def MOTION_mReadReg_def motion_regs)

lemma SetA:
  "\<not> bit (ctrl b 0) 0 \<Longrightarrow> ctrl_off r \<Longrightarrow> ctrl (MOTION_SetA io base val b) r =
     (if r = 0 then ctrl b 0 OR 8 else if r = 0x10 then val else ctrl b r)"
  using set_and_flag [of b r 16 8 val]
  by (simp add: MOTION_SetA_def MOTION_mWriteReg_def MOTION_mReadReg_def motion_regs)

lemma SetJ:
  "\<not> bit (ctrl b 0) 0 \<Longrightarrow> ctrl_off r \<Longrightarrow> ctrl (MOTION_SetJ io base val b) r =
     (if r = 0 then ctrl b 0 OR 0x10 else if r = 0x14 then val else ctrl b r)"
  using set_and_flag [of b r 20 16 val]
  by (simp add: MOTION_SetJ_def MOTION_mWriteReg_def MOTION_mReadReg_def motion_regs)

lemma Start:
  "\<not> bit (ctrl b 0) 0 \<Longrightarrow> ctrl_off r \<Longrightarrow> ctrl (MOTION_Start io base b) r =
     (if r = 0 then ctrl b 0 OR 1 else ctrl b r)"
  using or_cmd [of b r 1]
  by (simp add: MOTION_Start_def MOTION_mWriteReg_def MOTION_mReadReg_def motion_regs)

lemma SetX:
  "\<not> bit (ctrl b 0) 0 \<Longrightarrow> ctrl_off r \<Longrightarrow> ctrl (MOTION_SetX io base val b) r =
     (if r = 0 then ctrl b 0 OR 2
      else if r = 4 then ucast (val AND 0xFFFFFFFF)
      else if r = 8 then ucast (signed_drop_bit 32 val AND 0xFFFFFFFF) else ctrl b r)"
  by (simp add: MOTION_SetX_def MOTION_mWriteReg_def MOTION_mReadReg_def motion_regs or_cmd
      write_sets)

text \<open>
  The two programming sequences of the stepper code: everything they write is in place, with
  exactly the flags they ask for, when START is raised.
\<close>

lemmas setters = SetSteps SetDT SetV SetA SetJ SetX

lemma program_move:
  assumes "\<not> bit (ctrl b 0) 0" "ctrl_off r"
  shows "ctrl (MOTION_Start io base (MOTION_SetJ io base j (MOTION_SetA io base a
           (MOTION_SetSteps io base n b)))) r =
     (if r = 0 then ctrl b 0 OR 0x19 else if r = 0x1C then n else if r = 0x10 then a
      else if r = 0x14 then j else ctrl b r)"
  using assms by (simp add: Start setters bit_or_iff or.assoc)

lemma program_stop:
  assumes "\<not> bit (ctrl b 0) 0" "ctrl_off r"
  shows "ctrl (MOTION_Start io base (MOTION_SetJ io base 0 (MOTION_SetA io base 0
           (MOTION_SetV io base 0 (MOTION_SetSteps io base n b))))) r =
     (if r = 0 then ctrl b 0 OR 0x1D else if r = 0x1C then n
      else if r \<in> {0xC, 0x10, 0x14} then 0 else ctrl b r)"
  using assms by (simp add: Start setters bit_or_iff or.assoc)

end

section \<open>The controller behind the bus\<close>

text \<open>
  \<open>sys_sched\<close> lists how many clock cycles pass before each access (none when it runs out); an
  access itself takes one cycle. Writing \<open>SOFT_RESET\<close> to the reset register resets the user
  logic; the interrupt space belongs to the bus interface and its contents are \<open>sys_other\<close>.
\<close>

record motion_sys =
  sys_hw :: motion_hw
  sys_sched :: "nat list"
  sys_other :: "u32 \<Rightarrow> u32"

definition sys_wait :: "motion_sys \<Rightarrow> motion_sys" where
  "sys_wait s =
     (case sys_sched s of [] \<Rightarrow> s
      | n # ns \<Rightarrow> s\<lparr>sys_hw := ul_idle n (sys_hw s), sys_sched := ns\<rparr>)"

definition sys_sel :: "u32 \<Rightarrow> nat option" where
  "sys_sel off = (if off < 0x80 then Some (unat (drop_bit 2 off)) else None)"

definition sys_in32 :: "u32 \<Rightarrow> u32 \<Rightarrow> motion_sys \<Rightarrow> u32 \<times> motion_sys" where
  "sys_in32 base addr s =
     (let s = sys_wait s; off = addr - base
      in (case sys_sel off of Some sel \<Rightarrow> ul_read sel (sys_hw s) | None \<Rightarrow> sys_other s off,
          s\<lparr>sys_hw := ul_clk False None (sys_hw s)\<rparr>))"

definition sys_out32 :: "u32 \<Rightarrow> u32 \<Rightarrow> u32 \<Rightarrow> motion_sys \<Rightarrow> motion_sys" where
  "sys_out32 base addr d s =
     (let s = sys_wait s; off = addr - base
      in s\<lparr>sys_hw :=
            (if off = MOTION_RST_REG_OFFSET \<and> d = SOFT_RESET then ul_clk True None (sys_hw s)
             else ul_clk False (map_option (\<lambda>sel. (sel, d)) (sys_sel off)) (sys_hw s))\<rparr>)"

text \<open>The drivers modelled here use 32-bit accesses only.\<close>

definition motion_io :: "u32 \<Rightarrow> motion_sys mmio" where
  "motion_io base =
     \<lparr>io_in8 = (\<lambda>a s. (0, s)), io_in16 = (\<lambda>a s. (0, s)), io_in32 = sys_in32 base,
      io_out8 = (\<lambda>a d s. s), io_out16 = (\<lambda>a d s. s), io_out32 = sys_out32 base\<rparr>"

definition sys_ctrl :: "motion_sys \<Rightarrow> u32 \<Rightarrow> u32" where
  "sys_ctrl s off = ul_read (unat (drop_bit 2 off)) (sys_hw s)"

lemma ctrl_offD:
  assumes "ctrl_off off"
  shows "sys_sel off = Some (unat (drop_bit 2 off))" "ctrl_sel (unat (drop_bit 2 off))"
    and "off \<noteq> 0x100"
proof -
  show sel: "ctrl_sel (unat (drop_bit 2 off))"
    using assms by (simp add: ctrl_off_def)
  then have "unat off div 4 \<le> 28"
    by (auto simp: ctrl_sel_def drop_bit_eq_div unat_div_distrib)
  then have "unat off < 0x80" by simp
  then show "sys_sel off = Some (unat (drop_bit 2 off))" "off \<noteq> 0x100"
    by (auto simp: sys_sel_def word_less_nat_alt)
qed

lemma stat_offD:
  assumes "stat_off off"
  shows "sys_sel off = Some (unat (drop_bit 2 off))"
  using assms by (auto simp: stat_off_def sys_sel_def)

lemma ctrl_off_inj:
  assumes "ctrl_off a" "ctrl_off b" "unat (drop_bit 2 a) = unat (drop_bit 2 b)"
  shows "a = b"
proof -
  have split: "w = push_bit 2 (drop_bit 2 w)" if "w AND 3 = 0" for w :: u32
  proof -
    have "w = push_bit 2 (drop_bit 2 w) + take_bit 2 w"
      by (simp add: bits_ident)
    moreover have "take_bit 2 w = 0"
      using that by (simp add: take_bit_eq_mask mask_eq_exp_minus_1)
    ultimately show ?thesis by simp
  qed
  have "drop_bit 2 a = drop_bit 2 b"
    using assms(3) by (simp add: word_unat_eq_iff)
  then show ?thesis
    using split [of a] split [of b] assms(1,2) by (simp add: ctrl_off_def)
qed

lemma sys_wait_ctrl:
  assumes "ctrl_off r" "\<not> bit (sys_ctrl s 0) 0"
  shows "sys_ctrl (sys_wait s) r = sys_ctrl s r"
  using ul_idle_ctrl [of "sys_hw s" "unat (drop_bit 2 r)"] ctrl_offD [OF assms(1)] assms(2)
  by (simp add: sys_wait_def sys_ctrl_def ul_read_0 split: list.split)

lemma sys_wait_no_load:
  assumes "\<not> bit (sys_ctrl s 0) 0"
  shows "\<not> ul_load False (sys_hw (sys_wait s))"
  using sys_wait_ctrl [of 0 s] assms
  by (auto simp: sys_ctrl_def ul_read_0 ctrl_off_def ctrl_sel_def dest: ul_load_needs_start)

lemma ul_clk_params:
  assumes "ctrl_sel sel" "sel \<noteq> 0"
  shows "ul_read sel (ul_clk False None h) = ul_read sel h"
  using ctrl_sel_cases [OF assms(1)] assms(2)
  by (elim insertE emptyE) (simp_all add: ul_clk_def ul_clk_regs_def Let_def ul_read_def)

lemma ul_idle_params: "ctrl_sel sel \<Longrightarrow> sel \<noteq> 0 \<Longrightarrow> ul_read sel (ul_idle n h) = ul_read sel h"
  by (induction n) (simp_all add: ul_idle_Suc ul_clk_params)

lemma ctrl_off_0 [simp]: "ctrl_off 0"
  by (simp add: ctrl_off_def ctrl_sel_def)

interpretation mp: motion_port "motion_io base" base sys_ctrl for base
proof unfold_locales
  fix off b
  assume "ctrl_off off" "\<not> bit (sys_ctrl b 0) 0"
  then show "fst (io_in32 (motion_io base) (base + off) b) = sys_ctrl b off"
    using sys_wait_ctrl [of off b] ctrl_offD [of off]
    by (simp add: motion_io_def sys_in32_def Let_def sys_ctrl_def)
next
  fix off r b
  assume "ctrl_off off \<or> stat_off off" "ctrl_off r" "\<not> bit (sys_ctrl b 0) 0"
  then show "sys_ctrl (snd (io_in32 (motion_io base) (base + off) b)) r = sys_ctrl b r"
    using sys_wait_ctrl [of r b] sys_wait_no_load [of b] ctrl_offD [of r]
    by (simp add: motion_io_def sys_in32_def Let_def sys_ctrl_def ul_clk_ctrl)
next
  fix off r b d
  assume *: "ctrl_off off" "ctrl_off r" "\<not> bit (sys_ctrl b 0) 0"
  have "r = off \<longleftrightarrow> unat (drop_bit 2 r) = unat (drop_bit 2 off)"
    using ctrl_off_inj [OF *(2,1)] by auto
  with * show "sys_ctrl (io_out32 (motion_io base) (base + off) d b) r =
      (if r = off then d else sys_ctrl b r)"
    using sys_wait_ctrl [of r b] sys_wait_no_load [of b] ctrl_offD [of r] ctrl_offD [of off]
    by (simp add: motion_io_def sys_out32_def Let_def sys_ctrl_def ul_clk_ctrl ul_read_write
        motion_regs)
next
  fix b
  assume clear: "\<not> bit (fst (io_in32 (motion_io base) base b)) 0"
  then have "\<not> ul_load False (sys_hw (sys_wait b))"
    by (auto simp: motion_io_def sys_in32_def Let_def sys_sel_def ul_read_0
        dest: ul_load_needs_start)
  with clear show "\<not> bit (sys_ctrl (snd (io_in32 (motion_io base) base b)) 0) 0"
    by (simp add: motion_io_def sys_in32_def Let_def sys_sel_def sys_ctrl_def ul_clk_ctrl
        ctrl_sel_def)
next
  fix r addr b
  assume r: "ctrl_off r" "r \<noteq> 0"
  then have "unat (drop_bit 2 r) \<noteq> 0"
    using ctrl_off_inj [of r 0] by auto
  then show "sys_ctrl (snd (io_in32 (motion_io base) addr b)) r = sys_ctrl b r"
    using ctrl_offD(2) [OF r(1)]
    by (simp add: motion_io_def sys_in32_def Let_def sys_ctrl_def ul_clk_params sys_wait_def
        ul_idle_params split: list.split)
qed

text \<open>
  Property C11. However many clock cycles pass between the register accesses, programming a
  move on a controller with no START pending leaves in the registers exactly the step count,
  acceleration and jerk asked for, with START, SET_A and SET_J (and no other new flag) raised
  and every other control register untouched.
\<close>

theorem program_move_registers:
  assumes "\<not> bit (sys_ctrl s 0) 0" "ctrl_off r"
  shows "sys_ctrl (MOTION_Start (motion_io base) base
           (MOTION_SetJ (motion_io base) base j
             (MOTION_SetA (motion_io base) base a
               (MOTION_SetSteps (motion_io base) base n s)))) r =
     (if r = MOTION_CMD_OFFSET then sys_ctrl s MOTION_CMD_OFFSET OR 0x19
      else if r = MOTION_NEXT_STEPS_OFFSET then n
      else if r = MOTION_NEXT_A_OFFSET then a
      else if r = MOTION_NEXT_J_OFFSET then j else sys_ctrl s r)"
  using mp.program_move [OF assms] by (simp add: motion_regs)

definition demo_sys :: motion_sys where
  "demo_sys = \<lparr>sys_hw = demo_regs, sys_sched = [7, 0, 3], sys_other = (\<lambda>_. 0)\<rparr>"

theorem program_move_registers_witness:
  "sys_ctrl (MOTION_Start (motion_io 0x82000000) 0x82000000
     (MOTION_SetJ (motion_io 0x82000000) 0x82000000 3
       (MOTION_SetA (motion_io 0x82000000) 0x82000000 2
         (MOTION_SetSteps (motion_io 0x82000000) 0x82000000 25 demo_sys)))) 0 = 0x19"
proof -
  have "\<not> bit (sys_ctrl demo_sys 0) 0" "sys_ctrl demo_sys 0 = 0"
    by (simp_all add: demo_sys_def sys_ctrl_def ul_read_0)
  with program_move_registers [of demo_sys 0 "0x82000000" 3 2 25] show ?thesis
    by (simp add: motion_regs ctrl_off_def ctrl_sel_def)
qed

section \<open>The self test on this hardware\<close>

text \<open>
  The self test expects 32 read/write registers. The user logic has 14 of them; the rest are
  status registers, and register 0 is the command register. The state the test can reach
  before it looks at register 12: nothing moves, since it never sets a velocity,
  acceleration or jerk flag together with START.
\<close>

definition at_rest :: "motion_hw \<Rightarrow> bool" where
  "at_rest h \<longleftrightarrow> reg_cmd h \<in> {0, 1} \<and> pg_x (prof h) = 0 \<and> pg_v (prof h) = 0 \<and>
     pg_a (prof h) = 0 \<and> pg_j (prof h) = 0"

lemma at_rest_cmd: "at_rest h \<Longrightarrow> \<not> bit (reg_cmd h) (Suc n)"
  by (auto simp: at_rest_def bit_1_iff)

lemma at_rest_clk:
  assumes "at_rest h" "\<And>d. wr = Some (0, d) \<Longrightarrow> d \<in> {0, 1}"
  shows "at_rest (ul_clk False wr h)"
proof -
  have bits: "\<not> bit (reg_cmd h) 1" "\<not> bit (reg_cmd h) 2" "\<not> bit (reg_cmd h) 3"
      "\<not> bit (reg_cmd h) 4"
    using at_rest_cmd [OF assms(1)] by (simp_all add: numeral_eq_Suc)
  have "reg_cmd (ul_clk False wr h) \<in> {0, 1}"
    using assms
    by (auto simp: at_rest_def ul_clk_def ul_clk_regs_def Let_def ul_write_def
        split: option.splits prod.splits)
  with assms(1) bits show ?thesis
    by (simp add: at_rest_def hw_simps pg_clk_def pg_next_vaj_def pg_next_xds_def pg_x_acc_def
        split: prod.splits)
qed

lemma at_rest_idle: "at_rest h \<Longrightarrow> at_rest (ul_idle n h)"
  by (induction n) (auto simp: ul_idle_Suc intro!: at_rest_clk)

lemma at_rest_wait: "at_rest (sys_hw s) \<Longrightarrow> at_rest (sys_hw (sys_wait s))"
  by (simp add: sys_wait_def at_rest_idle split: list.split)

lemma reset_at_rest: "at_rest (ul_clk True None h)"
  by (simp add: at_rest_def ul_clk_def ul_clk_regs_def ul_reset_regs_def pg_clk_def
      pg_next_vaj_def pg_next_xds_def)

text \<open>One write/read-back of the test, at register \<open>i\<close>.\<close>

lemma sys_sel_reg:
  assumes "i < 32"
  shows "sys_sel (4 * of_nat i) = Some i" "(4 * of_nat i :: u32) \<noteq> 0x100"
proof -
  have u: "unat (4 * of_nat i :: u32) = 4 * i"
    using assms by (simp add: unat_word_ariths unat_of_nat take_bit_nat_eq_self)
  show "sys_sel (4 * of_nat i) = Some i" "(4 * of_nat i :: u32) \<noteq> 0x100"
    using assms u
    by (auto simp: sys_sel_def word_less_nat_alt drop_bit_eq_div unat_div_distrib
        dest: arg_cong [where f = unat])
qed

lemma selftest_reg_step:
  fixes base :: u32
  assumes "i < 32" "at_rest (sys_hw s)"
  defines "s1 \<equiv> MOTION_mWriteReg (motion_io base) base (4 * of_nat i) (of_nat (i + 1)) s"
  defines "rd \<equiv> MOTION_mReadReg (motion_io base) base (4 * of_nat i) s1"
  shows "at_rest (sys_hw (snd rd))" "i = 12 \<Longrightarrow> fst rd = 0"
proof -
  have s1: "at_rest (sys_hw s1)"
    using sys_sel_reg [OF assms(1)]
    by (auto simp: s1_def MOTION_mWriteReg_def motion_io_def sys_out32_def Let_def motion_regs
        intro!: at_rest_clk at_rest_wait assms(2))
  then show "at_rest (sys_hw (snd rd))"
    by (auto simp: rd_def MOTION_mReadReg_def motion_io_def sys_in32_def Let_def
        intro!: at_rest_clk at_rest_wait)
  show "fst rd = 0" if "i = 12"
    using at_rest_wait [OF s1] sys_sel_reg [of 12] that
    by (simp add: rd_def MOTION_mReadReg_def motion_io_def sys_in32_def Let_def ul_read_def
        at_rest_def)
qed

lemma selftest_regs_fails:
  assumes "at_rest (sys_hw s)" "12 \<in> set is" "set is \<subseteq> {..<32}"
  shows "fst (selftest_regs (motion_io base) base is s) = XST_FAILURE"
  using assms
proof (induction "is" arbitrary: s)
  case Nil
  then show ?case by simp
next
  case (Cons i "is")
  have "i < 32" using Cons.prems(3) by simp
  note step = selftest_reg_step [OF this Cons.prems(1), of base]
  show ?case
  proof (cases "i = 12")
    case True
    with step(2) show ?thesis by (simp add: Let_def case_prod_beta)
  next
    case False
    with Cons.IH [OF step(1)] Cons.prems show ?thesis
      by (simp add: Let_def case_prod_beta)
  qed
qed

text \<open>
  On the controller of this repository the self test never succeeds, whatever the
  bus timing and the state it starts from: by the time it compares register 12, a position
  register software cannot write, it has found a mismatch and returns \<open>XST_FAILURE\<close>.
\<close>

theorem selftest_always_fails:
  "fst (MOTION_SelfTest (motion_io base) base bram s) = XST_FAILURE"
proof -
  have "at_rest (sys_hw (MOTION_mReset (motion_io base) base s))"
    by (simp add: MOTION_mReset_def motion_io_def sys_out32_def Let_def reset_at_rest)
  then have "fst (selftest_regs (motion_io base) base [0..<32]
      (MOTION_mReset (motion_io base) base s)) = XST_FAILURE"
    by (rule selftest_regs_fails) auto
  then show ?thesis
    by (simp add: MOTION_SelfTest_def Let_def case_prod_beta)
qed

end
