(* ===== verification/Binary64.thy ===== *)
theory Binary64
  imports Complex_Main "HOL-Library.Log_Nat" Prelude
begin

text \<open>
  The C type \<^verbatim>\<open>double\<close> as IEEE 754 binary64 with rounding to nearest, ties to even: a finite
  value is the rational number it denotes, the result of an operation is the exact result
  rounded to 53 significant bits (fewer below the normal range), and overflow, division by
  zero and invalid operations give infinities and NaN. The sign of a zero is not represented;
  nothing modelled here divides by a zero that could be negative or looks at a zero's sign.
\<close>

section \<open>Rounding\<close>

datatype double = Fin rat | Inf bool \<comment> \<open>negative?\<close> | NaN

definition ilog2 :: "rat \<Rightarrow> int" where
  "ilog2 q =
     (let (n, d) = quotient_of q; k = bitlen n - bitlen d
      in if 2 powi k \<le> q then k else k - 1)"

definition round_even :: "rat \<Rightarrow> int" where
  "round_even r =
     (let f = \<lfloor>r\<rfloor>; d = r - of_int f
      in if d < 1 / 2 then f else if 1 / 2 < d then f + 1 else if even f then f else f + 1)"

definition ulp_exp :: "rat \<Rightarrow> int" where
  "ulp_exp q = max (ilog2 \<bar>q\<bar> - 52) (- 1074)"

definition rnd64 :: "rat \<Rightarrow> double" where
  "rnd64 q =
     (if q = 0 then Fin 0
      else
        (let u = 2 powi ulp_exp q; v = of_int (round_even (\<bar>q\<bar> / u)) * u
         in if 2 ^ 1024 \<le> v then Inf (q < 0) else Fin (if q < 0 then - v else v)))"

section \<open>Arithmetic and conversions\<close>

fun d_neg :: "double \<Rightarrow> double" where
  "d_neg (Fin a) = Fin (- a)"
| "d_neg (Inf s) = Inf (\<not> s)"
| "d_neg NaN = NaN"

fun d_add :: "double \<Rightarrow> double \<Rightarrow> double" where
  "d_add (Fin a) (Fin b) = rnd64 (a + b)"
| "d_add (Inf s) (Inf t) = (if s = t then Inf s else NaN)"
| "d_add (Inf s) (Fin b) = Inf s"
| "d_add (Fin a) (Inf t) = Inf t"
| "d_add _ _ = NaN"

definition d_sub :: "double \<Rightarrow> double \<Rightarrow> double" where
  "d_sub x y = d_add x (d_neg y)"

fun d_mul :: "double \<Rightarrow> double \<Rightarrow> double" where
  "d_mul (Fin a) (Fin b) = rnd64 (a * b)"
| "d_mul (Inf s) (Inf t) = Inf (s \<noteq> t)"
| "d_mul (Inf s) (Fin b) = (if b = 0 then NaN else Inf (s \<noteq> (b < 0)))"
| "d_mul (Fin a) (Inf t) = (if a = 0 then NaN else Inf ((a < 0) \<noteq> t))"
| "d_mul _ _ = NaN"

fun d_div :: "double \<Rightarrow> double \<Rightarrow> double" where
  "d_div (Fin a) (Fin b) =
     (if b = 0 then if a = 0 then NaN else Inf (a < 0) else rnd64 (a / b))"
| "d_div (Inf s) (Inf t) = NaN"
| "d_div (Inf s) (Fin b) = Inf (s \<noteq> (b < 0))"
| "d_div (Fin a) (Inf t) = Fin 0"
| "d_div _ _ = NaN"

definition d_of_int :: "int \<Rightarrow> double" where
  "d_of_int n = rnd64 (of_int n)"

text \<open>
  Conversion to an integer type truncates; a value the type cannot hold makes it undefined.
\<close>

definition trunc_rat :: "rat \<Rightarrow> int" where
  "trunc_rat q = (if q < 0 then \<lceil>q\<rceil> else \<lfloor>q\<rfloor>)"

fun d_to_u32 :: "double \<Rightarrow> u32 option" where
  "d_to_u32 (Fin q) = (if - 1 < q \<and> q < 2 ^ 32 then Some (of_int (trunc_rat q)) else None)"
| "d_to_u32 _ = None"

fun d_to_i32 :: "double \<Rightarrow> u32 option" where
  "d_to_i32 (Fin q) =
     (if - (2 ^ 31) - 1 < q \<and> q < 2 ^ 31 then Some (of_int (trunc_rat q)) else None)"
| "d_to_i32 _ = None"

section \<open>The exponent and the rounding error\<close>

lemma bitlen_powi:
  assumes "0 < n"
  shows "2 powi (bitlen n - 1) \<le> (of_int n :: rat)" "(of_int n :: rat) < 2 powi bitlen n"
proof -
  have b: "2 ^ nat (bitlen n - 1) \<le> n" "n < 2 ^ nat (bitlen n)"
    using bitlen_bounds [OF assms] by auto
  have pos: "0 < bitlen n" using assms
    by (simp add: bitlen_def zero_less_iff_neq_zero floorlog_eq_zero_iff)
  have e: "(2 :: rat) powi k = of_int (2 ^ nat k)" if "0 \<le> k" for k
    using that by (simp add: power_int_def)
  show "2 powi (bitlen n - 1) \<le> (of_int n :: rat)"
    using b(1) pos by (simp only: e of_int_le_iff)
  show "(of_int n :: rat) < 2 powi bitlen n"
    using b(2) pos by (simp only: e of_int_less_iff)
qed

lemma ilog2_bounds:
  assumes "0 < q"
  shows "2 powi ilog2 q \<le> q" "q < 2 powi (ilog2 q + 1)"
proof -
  obtain n d where nd: "quotient_of q = (n, d)" by fastforce
  have d: "0 < d" and q: "q = of_int n / of_int d"
    using quotient_of_denom_pos [OF nd] quotient_of_div [OF nd] by auto
  then have n: "0 < n" using assms by (simp add: zero_less_divide_iff)
  note bn = bitlen_powi [OF n] and bd = bitlen_powi [OF d]
  define k where "k = bitlen n - bitlen d"
  have dpos: "(0 :: rat) < of_int d" using d by simp
  have up: "q < 2 powi (k + 1)"
  proof -
    have "q < 2 powi bitlen n / of_int d"
      unfolding q using bn(2) dpos by (rule divide_strict_right_mono)
    also have "\<dots> \<le> 2 powi bitlen n / 2 powi (bitlen d - 1)"
      using bd(1) dpos by (intro divide_left_mono) auto
    also have "\<dots> = 2 powi (k + 1)"
      by (simp add: k_def power_int_diff power_int_add field_simps)
    finally show ?thesis .
  qed
  have lo: "2 powi (k - 1) \<le> q"
  proof -
    have "2 powi (k - 1) = (2 powi (bitlen n - 1) / 2 powi bitlen d :: rat)"
      by (simp add: k_def power_int_diff power_int_add field_simps)
    also have "\<dots> \<le> of_int n / 2 powi bitlen d"
      using bn(1) by (intro divide_right_mono) auto
    also have "\<dots> \<le> q"
      unfolding q using bd(2) dpos n by (intro divide_left_mono) auto
    finally show ?thesis .
  qed
  show "2 powi ilog2 q \<le> q" "q < 2 powi (ilog2 q + 1)"
    using up lo by (auto simp: ilog2_def nd k_def [symmetric] Let_def not_le)
qed

lemma ilog2_less:
  assumes "0 < q" "q < 2 powi k"
  shows "ilog2 q < k"
proof (rule ccontr)
  assume "\<not> ilog2 q < k"
  then have "2 powi k \<le> (2 :: rat) powi ilog2 q"
    by (intro power_int_increasing) auto
  with ilog2_bounds(1) [OF assms(1)] assms(2) show False by simp
qed

lemma round_even_of_int [simp]: "round_even (of_int n) = n"
  by (simp add: round_even_def Let_def)

lemma round_even_error: "\<bar>of_int (round_even r) - r\<bar> \<le> 1 / 2"
proof -
  define d where "d = r - of_int \<lfloor>r\<rfloor>"
  have "0 \<le> d" "d < 1" "r = of_int \<lfloor>r\<rfloor> + d"
    unfolding d_def by linarith+
  then show ?thesis
    by (auto simp: round_even_def Let_def d_def [symmetric] abs_if)
qed

text \<open>A number with at most 53 significant bits in range is not changed by rounding.\<close>

lemma rnd64_exact_pos:
  assumes q: "q = of_int m * 2 powi e" and m: "0 < m" "m < 2 ^ 53" and e: "- 1074 \<le> e" "e \<le> 971"
  shows "of_int (round_even (\<bar>q\<bar> / 2 powi ulp_exp q)) * 2 powi ulp_exp q = q" "0 < q" "q < 2 ^ 1024"
proof -
  show pos: "0 < q" using q m by simp
  have m': "(of_int m :: rat) < 2 ^ 53"
    using m(2) by (metis of_int_less_iff of_int_numeral of_int_power)
  then have lt: "q < 2 powi (e + 53)"
    by (simp add: q power_int_add)
  with pos have "ilog2 q < e + 53" by (rule ilog2_less)
  then have le: "ulp_exp q \<le> e" using e pos by (simp add: ulp_exp_def)
  define k where "k = nat (e - ulp_exp q)"
  have "e = ulp_exp q + int k" using le by (simp add: k_def)
  then have "2 powi e = (2 :: rat) powi ulp_exp q * 2 ^ k"
    by (metis power_int_add power_int_of_nat zero_neq_numeral)
  then have "q = of_int (m * 2 ^ k) * 2 powi ulp_exp q"
    using q by (simp add: mult_ac)
  then have "\<bar>q\<bar> / 2 powi ulp_exp q = of_int (m * 2 ^ k)"
    using pos by (simp add: divide_eq_eq)
  then show "of_int (round_even (\<bar>q\<bar> / 2 powi ulp_exp q)) * 2 powi ulp_exp q = q"
    using pos by (metis abs_of_pos nonzero_eq_divide_eq power_int_not_zero round_even_of_int zero_neq_numeral)
  have "2 powi (e + 53) \<le> (2 :: rat) powi 1024"
    using e by (intro power_int_increasing) auto
  with lt show "q < 2 ^ 1024" by simp
qed

lemma ulp_exp_minus [simp]: "ulp_exp (- q) = ulp_exp q"
  by (simp add: ulp_exp_def)

lemma rnd64_exact:
  assumes "q = of_int m * 2 powi e" "\<bar>m\<bar> < 2 ^ 53" "- 1074 \<le> e" "e \<le> 971"
  shows "rnd64 q = Fin q"
proof (cases "m = 0")
  case True
  then show ?thesis using assms by (simp add: rnd64_def)
next
  case False
  show ?thesis
  proof (cases "0 < m")
    case True
    then show ?thesis
      using rnd64_exact_pos [OF assms(1) True _ assms(3,4)] assms(2)
      by (simp add: rnd64_def Let_def)
  next
    case neg: False
    have "- q = of_int (- m) * 2 powi e" using assms(1) by simp
    from rnd64_exact_pos [OF this _ _ assms(3,4)] neg False assms(2) show ?thesis
      by (simp add: rnd64_def Let_def)
  qed
qed

lemma d_of_int_exact: "\<bar>n\<bar> < 2 ^ 53 \<Longrightarrow> d_of_int n = Fin (of_int n)"
  unfolding d_of_int_def by (rule rnd64_exact [of _ n 0]) auto

end
