(* ===== verification/Fifo.thy ===== *)
theory Fifo
  imports Main
begin

text \<open>
  The contract of a bounded first-in first-out queue, as the move queue of the stepper code
  and the kernel's message and process queues promise it: \<open>items\<close> reads the contents in order,
  \<open>invar\<close> is the provider's well-formedness. The lemma proved once for all providers is that
  every element taken out is the oldest one put in and none is lost or repeated.
\<close>

datatype 'a fifo_op = Enq 'a | Deq

fun fifo_run ::
  "('a \<Rightarrow> 'q \<Rightarrow> 'q option) \<Rightarrow> ('q \<Rightarrow> ('a \<times> 'q) option) \<Rightarrow> 'a fifo_op list \<Rightarrow> 'q
   \<Rightarrow> 'a list \<times> 'a list \<times> 'q" where
  "fifo_run enq deq [] q = ([], [], q)"
| "fifo_run enq deq (Enq x # ops) q =
     (case enq x q of
        None \<Rightarrow> fifo_run enq deq ops q
      | Some q' \<Rightarrow> (let (ins, outs, r) = fifo_run enq deq ops q' in (x # ins, outs, r)))"
| "fifo_run enq deq (Deq # ops) q =
     (case deq q of
        None \<Rightarrow> fifo_run enq deq ops q
      | Some (y, q') \<Rightarrow> (let (ins, outs, r) = fifo_run enq deq ops q' in (ins, y # outs, r)))"

locale bounded_fifo =
  fixes enq :: "'a \<Rightarrow> 'q \<Rightarrow> 'q option"
    and deq :: "'q \<Rightarrow> ('a \<times> 'q) option"
    and items :: "'q \<Rightarrow> 'a list"
    and invar :: "'q \<Rightarrow> bool"
    and cap :: nat
  assumes within_cap: "invar q \<Longrightarrow> length (items q) \<le> cap"
    and enq_full: "invar q \<Longrightarrow> length (items q) = cap \<Longrightarrow> enq x q = None"
    and enq_room: "invar q \<Longrightarrow> length (items q) < cap \<Longrightarrow>
      \<exists>q'. enq x q = Some q' \<and> invar q' \<and> items q' = items q @ [x]"
    and deq_empty: "invar q \<Longrightarrow> items q = [] \<Longrightarrow> deq q = None"
    and deq_head: "invar q \<Longrightarrow> items q = y # ys \<Longrightarrow>
      \<exists>q'. deq q = Some (y, q') \<and> invar q' \<and> items q' = ys"
begin

lemma enq_cases:
  assumes "invar q"
  shows "enq x q = None \<or> (\<exists>q'. enq x q = Some q' \<and> invar q' \<and> items q' = items q @ [x])"
  using within_cap [OF assms] enq_full [OF assms] enq_room [OF assms]
  by (cases "length (items q) = cap") auto

lemma deq_cases:
  assumes "invar q"
  shows "deq q = None \<or>
     (\<exists>y q'. deq q = Some (y, q') \<and> invar q' \<and> items q = y # items q')"
  using deq_empty [OF assms] deq_head [OF assms] by (cases "items q") auto

lemma fifo_order:
  assumes "invar q" "fifo_run enq deq ops q = (ins, outs, r)"
  shows "invar r \<and> items q @ ins = outs @ items r"
  using assms
proof (induction ops arbitrary: q ins outs r)
  case Nil
  then show ?case by simp
next
  case (Cons op ops)
  show ?case
  proof (cases op)
    case (Enq x)
    with Cons enq_cases [OF Cons.prems(1), of x] show ?thesis
      by (fastforce split: prod.splits)
  next
    case Deq
    with Cons deq_cases [OF Cons.prems(1)] show ?thesis
      by (fastforce split: prod.splits)
  qed
qed

end

end
