(* ===== verification/Steppers.thy ===== *)
theory Steppers
  imports Motion_Drv Binary64 Fifo
begin

unbundle bit_operations_syntax

text \<open>
  The move planner \<^verbatim>\<open>src/sdloader/src/steppers.c\<close>: a queue of targets, the state machine
  \<open>steppersMainLoop\<close> that turns the next target into one cubic segment for the axis
  controller, and the arithmetic in between. Register access goes through the bus parameter
  \<open>io\<close> and the base address \<open>base\<close> of the X controller (\<^verbatim>\<open>XPAR_MOTION_X_BASEADDR\<close>). The
  result is \<open>None\<close> where the C is undefined: an access outside the queue array, a
  conversion of a \<^verbatim>\<open>double\<close> the integer type cannot hold, or a debug text longer than the
  buffer \<^verbatim>\<open>sprintf\<close> prints it to. Console output itself is not modelled.
\<close>

section \<open>Data\<close>

datatype st_state = STATE_OFF | STATE_IDLE | STATE_ACTIVE | STATE_DELAY | STATE_STOPPING

record steppers_target =
  tgt_mode :: "int list"
  tgt_dt :: double
  tgt_x :: "double list"
  tgt_v :: "double list"

record steppers =
  st_state :: st_state
  current_position :: steppers_target
  queue :: "steppers_target list"
  queue_len :: int

definition STEPPERS_NUM_AXES :: nat where "STEPPERS_NUM_AXES = 5"
definition STEP_FREQ :: int where "STEP_FREQ = 100000000"
definition STEP_BIT :: nat where "STEP_BIT = 40"
definition ACC_FREQ :: int where "ACC_FREQ = 250"
definition QUEUE_LEN :: nat where "QUEUE_LEN = 10"

section \<open>The segment coefficients\<close>

text \<open>
  The four formulas of \<^verbatim>\<open>unqueue_move\<close>, over any arithmetic: the program evaluates them in
  \<^verbatim>\<open>double\<close>, the correctness of the formulas themselves is a statement about exact numbers.
\<close>

record 'd arith =
  ar_int :: "int \<Rightarrow> 'd"
  ar_add :: "'d \<Rightarrow> 'd \<Rightarrow> 'd"
  ar_sub :: "'d \<Rightarrow> 'd \<Rightarrow> 'd"
  ar_mul :: "'d \<Rightarrow> 'd \<Rightarrow> 'd"
  ar_div :: "'d \<Rightarrow> 'd \<Rightarrow> 'd"

definition double_arith :: "double arith" where
  "double_arith =
     \<lparr>ar_int = d_of_int, ar_add = d_add, ar_sub = d_sub, ar_mul = d_mul, ar_div = d_div\<rparr>"

definition exact_arith :: "rat arith" where
  "exact_arith =
     \<lparr>ar_int = of_int, ar_add = (+), ar_sub = (-), ar_mul = (*), ar_div = (/)\<rparr>"

definition move_kb :: "'d arith \<Rightarrow> 'd \<Rightarrow> 'd \<Rightarrow> 'd \<Rightarrow> 'd \<Rightarrow> 'd" where
  "move_kb A dx v0 vn dt =
     ar_sub A (ar_div A (ar_mul A (ar_int A 3) dx) (ar_mul A dt dt))
       (ar_div A (ar_add A (ar_mul A (ar_int A 2) v0) vn) dt)"

definition move_ka :: "'d arith \<Rightarrow> 'd \<Rightarrow> 'd \<Rightarrow> 'd \<Rightarrow> 'd \<Rightarrow> 'd" where
  "move_ka A kb v0 vn dt =
     ar_sub A (ar_div A (ar_sub A vn v0) (ar_mul A (ar_int A 3) (ar_mul A dt dt)))
       (ar_div A (ar_mul A (ar_int A 2) kb) (ar_mul A (ar_int A 3) dt))"

definition move_a :: "'d arith \<Rightarrow> 'd \<Rightarrow> 'd" where
  "move_a A kb =
     ar_div A (ar_div A (ar_mul A (ar_mul A (ar_int A 2) kb) (ar_int A (2 ^ STEP_BIT)))
       (ar_int A STEP_FREQ)) (ar_int A ACC_FREQ)"

definition move_j :: "'d arith \<Rightarrow> 'd \<Rightarrow> 'd" where
  "move_j A ka =
     ar_div A (ar_div A (ar_div A (ar_mul A (ar_mul A (ar_int A 6) ka)
       (ar_int A (2 ^ STEP_BIT))) (ar_int A STEP_FREQ)) (ar_int A ACC_FREQ)) (ar_int A ACC_FREQ)"

definition move_steps :: "'d arith \<Rightarrow> 'd \<Rightarrow> 'd" where
  "move_steps A dt = ar_mul A dt (ar_int A ACC_FREQ)"

text \<open>
  The debug text of \<^verbatim>\<open>unqueue_move\<close>: six numbers printed with \<^verbatim>\<open>%f\<close> into \<^verbatim>\<open>char buf[500]\<close>, where
  only the number of characters matters. \<^verbatim>\<open>%f\<close> prints all digits of the integer part of the
  value rounded to six decimals, the point and the six decimals. The model has one zero, so a
  zero is counted with the sign a negative zero prints; a NaN is counted with a sign, too.
\<close>

fun dec_len :: "nat \<Rightarrow> nat" where
  "dec_len n = (if n < 10 then 1 else Suc (dec_len (n div 10)))"

declare dec_len.simps [simp del]

fun f_len :: "double \<Rightarrow> nat" where
  "f_len (Fin q) =
     (if q \<le> 0 then 1 else 0) + dec_len (nat (round_even (\<bar>q\<bar> * 10 ^ 6)) div 10 ^ 6) + 7"
| "f_len (Inf neg) = (if neg then 4 else 3)"
| "f_len NaN = 4"

definition BUF_SIZE :: nat where "BUF_SIZE = 500"

text \<open>The labels and the line end take 31 characters, the terminating zero one more.\<close>

definition debug_len :: "double list \<Rightarrow> nat" where
  "debug_len ds = 31 + sum_list (map f_len ds)"

definition debug_sprintf :: "double list \<Rightarrow> unit option" where
  "debug_sprintf ds = (if debug_len ds + 1 \<le> BUF_SIZE then Some () else None)"

text \<open>What the program hands to the controller: step count, acceleration and jerk.\<close>

definition move_regs :: "double \<Rightarrow> double \<Rightarrow> double \<Rightarrow> double \<Rightarrow> (u32 \<times> u32 \<times> u32) option" where
  "move_regs dx v0 vn dt =
     (let A = double_arith; kb = move_kb A dx v0 vn dt; ka = move_ka A kb v0 vn dt
      in do { debug_sprintf [dx, v0, vn, dt, ka, kb];
              n \<leftarrow> d_to_u32 (move_steps A dt);
              a \<leftarrow> d_to_i32 (move_a A kb);
              j \<leftarrow> d_to_i32 (move_j A ka);
              Some (n, a, j) })"

section \<open>The queue and the planner\<close>

text \<open>The shift loop of \<^verbatim>\<open>unqueue_move\<close>: \<open>for (i = 0; i < queue_len - 1; i++)\<close>.\<close>

fun shift_queue :: "'a list \<Rightarrow> nat \<Rightarrow> nat \<Rightarrow> 'a list option" where
  "shift_queue q i 0 = Some q"
| "shift_queue q i (Suc n) =
     do { x \<leftarrow> arr_get q (Suc i); q' \<leftarrow> arr_set q i x; shift_queue q' (Suc i) n }"

definition unqueue :: "steppers \<Rightarrow> (steppers_target \<times> steppers) option" where
  "unqueue s =
     do { next_position \<leftarrow> arr_get (queue s) 0;
          q \<leftarrow> shift_queue (queue s) 0 (nat (queue_len s - 1));
          Some (next_position, s\<lparr>queue := q, queue_len := queue_len s - 1\<rparr>) }"

definition unqueue_move :: "'b mmio \<Rightarrow> u32 \<Rightarrow> steppers \<times> 'b \<Rightarrow> (steppers \<times> 'b) option" where
  "unqueue_move io base sb =
     (let (s, b) = sb
      in do { (next_position, s) \<leftarrow> unqueue s;
              nx \<leftarrow> arr_get (tgt_x next_position) 0;
              cx \<leftarrow> arr_get (tgt_x (current_position s)) 0;
              v0 \<leftarrow> arr_get (tgt_v (current_position s)) 0;
              vn \<leftarrow> arr_get (tgt_v next_position) 0;
              (n, a, j) \<leftarrow> move_regs (d_sub nx cx) v0 vn (tgt_dt next_position);
              Some (s\<lparr>current_position := next_position\<rparr>,
                    MOTION_Start io base (MOTION_SetJ io base j
                      (MOTION_SetA io base a (MOTION_SetSteps io base n b)))) })"

definition set_first :: "'a list \<Rightarrow> 'a \<Rightarrow> 'a list option" where
  "set_first xs x = arr_set xs 0 x"

definition unqueue_stop :: "'b mmio \<Rightarrow> u32 \<Rightarrow> steppers \<times> 'b \<Rightarrow> (steppers \<times> 'b) option" where
  "unqueue_stop io base sb =
     (let (s, b) = sb;
          b = MOTION_Start io base (MOTION_SetJ io base 0 (MOTION_SetA io base 0
                (MOTION_SetV io base 0 (MOTION_SetSteps io base (of_int (ACC_FREQ div 10)) b))))
      in do { v \<leftarrow> set_first (tgt_v (current_position s)) (Fin 0);
              Some (s\<lparr>current_position := (current_position s)\<lparr>tgt_v := v\<rparr>\<rparr>, b) })"

definition zero_position :: "steppers_target \<Rightarrow> steppers_target option" where
  "zero_position p =
     do { x \<leftarrow> set_first (tgt_x p) (Fin 0); v \<leftarrow> set_first (tgt_v p) (Fin 0);
          Some (p\<lparr>tgt_x := x, tgt_v := v\<rparr>) }"

definition init_regs :: "'b mmio \<Rightarrow> u32 \<Rightarrow> 'b \<Rightarrow> 'b" where
  "init_regs io base b =
     (let b = MOTION_mWriteReg io base MOTION_PRE_N_OFFSET 100 b;
          b = MOTION_mWriteReg io base MOTION_PULSE_N_OFFSET 300 b;
          b = MOTION_mWriteReg io base MOTION_POST_N_OFFSET 100 b;
          b = MOTION_mWriteReg io base MOTION_STEP_BIT_OFFSET (push_bit 31 1 OR of_nat STEP_BIT) b
      in MOTION_SetDT io base (of_int (STEP_FREQ div ACC_FREQ)) b)"

definition steppersMainLoop :: "'b mmio \<Rightarrow> u32 \<Rightarrow> steppers \<times> 'b \<Rightarrow> (steppers \<times> 'b) option" where
  "steppersMainLoop io base sb =
     (let (s, b) = sb
      in case st_state s of
           STATE_OFF \<Rightarrow>
             if queue_len s > 0 then
               do { p \<leftarrow> zero_position (current_position s);
                    Some (s\<lparr>current_position := p, st_state := STATE_IDLE\<rparr>, init_regs io base b) }
             else Some (s, b)
         | STATE_IDLE \<Rightarrow>
             if queue_len s > 0 then
               do { (s, b) \<leftarrow> unqueue_move io base (s, b); Some (s\<lparr>st_state := STATE_ACTIVE\<rparr>, b) }
             else Some (s, b)
         | STATE_ACTIVE \<Rightarrow>
             (let (tmp, b) = MOTION_mReadReg io base MOTION_CMD_OFFSET b
              in if tmp AND 1 = 0 then
                   if queue_len s > 0 then unqueue_move io base (s, b)
                   else
                     (let (tmp, b) = MOTION_mReadReg io base MOTION_STAT_STATUS_OFFSET b
                      in if tmp AND 1 = 1 then
                           do { (s, b) \<leftarrow> unqueue_stop io base (s, b);
                                Some (s\<lparr>st_state := STATE_STOPPING\<rparr>, b) }
                         else Some (s, b))
                 else Some (s, b))
         | STATE_STOPPING \<Rightarrow>
             (let (tmp, b) = MOTION_mReadReg io base MOTION_CMD_OFFSET b
              in if tmp AND 1 = 0 then
                   (let (tmp, b) = MOTION_mReadReg io base MOTION_STAT_STATUS_OFFSET b
                    in if tmp AND 1 = 1 then Some (s\<lparr>st_state := STATE_IDLE\<rparr>, b) else Some (s, b))
                 else Some (s, b))
         | STATE_DELAY \<Rightarrow> Some (s, b))"

text \<open>
  \<^verbatim>\<open>steppersQueue\<close> returns -1 when the queue is full; on success it ends without a return
  statement, so the returned value is unspecified (\<open>None\<close>).
\<close>

definition steppersQueue :: "steppers_target \<Rightarrow> steppers \<Rightarrow> (int option \<times> steppers) option" where
  "steppersQueue target s =
     (if queue_len s \<ge> int QUEUE_LEN then Some (Some (- 1), s)
      else
        do { q \<leftarrow> arr_set (queue s) (nat (queue_len s)) target;
             Some (None, s\<lparr>queue := q, queue_len := queue_len s + 1\<rparr>) })"

definition steppersReset :: "'b mmio \<Rightarrow> u32 \<Rightarrow> steppers \<times> 'b \<Rightarrow> (steppers \<times> 'b) option" where
  "steppersReset io base sb =
     (let (s, b) = sb
      in do { p \<leftarrow> zero_position (current_position s);
              Some (s\<lparr>queue_len := 0, st_state := STATE_OFF, current_position := p\<rparr>,
                    MOTION_mReset io base b) })"

text \<open>The values \<^verbatim>\<open>steppersStatus\<close> prints, in order; the position is in motor steps.\<close>

definition steppersStatus :: "'b mmio \<Rightarrow> u32 \<Rightarrow> 'b \<Rightarrow> int list \<times> 'b" where
  "steppersStatus io base b =
     (let (cmd, b) = MOTION_mReadReg io base MOTION_CMD_OFFSET b;
          (status, b) = MOTION_mReadReg io base MOTION_STAT_STATUS_OFFSET b;
          (dt, b) = MOTION_mReadReg io base MOTION_STAT_DT_OFFSET b;
          (steps, b) = MOTION_mReadReg io base MOTION_STAT_STEPS_OFFSET b;
          (xl, b) = MOTION_mReadReg io base MOTION_STAT_XL_OFFSET b;
          (xh, b) = MOTION_mReadReg io base MOTION_STAT_XH_OFFSET b;
          (v, b) = MOTION_mReadReg io base MOTION_STAT_V_OFFSET b;
          (a, b) = MOTION_mReadReg io base MOTION_STAT_A_OFFSET b;
          (j, b) = MOTION_mReadReg io base MOTION_STAT_J_OFFSET b
      in ([uint cmd, uint status, sint dt, sint steps, uint xl,
           sint (signed_drop_bit (STEP_BIT - 32) xh), sint v, sint a, sint j], b))"

section \<open>The move queue is a bounded FIFO\<close>

lemma shift_queue_eq:
  "i + n < length q \<Longrightarrow>
     shift_queue q i n = Some (take i q @ take n (drop (Suc i) q) @ drop (i + n) q)"
proof (induction n arbitrary: i q)
  case 0
  then show ?case by simp
next
  case (Suc n)
  define q' where "q' = q[i := q ! Suc i]"
  have len: "Suc i < length q" "length q' = length q"
    using Suc.prems by (simp_all add: q'_def)
  have "take (Suc i) q' = take i q @ [q ! Suc i]"
    using len by (simp add: q'_def take_update_shift)
  moreover have "drop (Suc (Suc i)) q' = drop (Suc (Suc i)) q" "drop (Suc i + n) q' = drop (i + Suc n) q"
    by (simp_all add: q'_def)
  moreover have "take (Suc n) (drop (Suc i) q) = q ! Suc i # take n (drop (Suc (Suc i)) q)"
    using len by (metis Cons_nth_drop_Suc take_Suc_Cons)
  ultimately show ?case
    using Suc.IH [of "Suc i" q'] Suc.prems len by (simp add: array_simps q'_def)
qed

definition stq_invar :: "steppers \<Rightarrow> bool" where
  "stq_invar s \<longleftrightarrow>
     length (queue s) = QUEUE_LEN \<and> 0 \<le> queue_len s \<and> queue_len s \<le> int QUEUE_LEN"

definition stq_items :: "steppers \<Rightarrow> steppers_target list" where
  "stq_items s = take (nat (queue_len s)) (queue s)"

definition stq_enq :: "steppers_target \<Rightarrow> steppers \<Rightarrow> steppers option" where
  "stq_enq x s = (case steppersQueue x s of Some (None, s') \<Rightarrow> Some s' | _ \<Rightarrow> None)"

definition stq_deq :: "steppers \<Rightarrow> (steppers_target \<times> steppers) option" where
  "stq_deq s = (if queue_len s > 0 then unqueue s else None)"

lemma stq_length: "stq_invar s \<Longrightarrow> length (stq_items s) = nat (queue_len s)"
  by (auto simp: stq_invar_def stq_items_def)

lemma unqueue_items:
  assumes "stq_invar s" "0 < queue_len s"
  obtains t s' where "unqueue s = Some (t, s')" "stq_invar s'" "stq_items s = t # stq_items s'"
    "st_state s' = st_state s" "current_position s' = current_position s"
    "queue_len s' = queue_len s - 1"
proof -
  obtain n where n: "nat (queue_len s) = Suc n" using assms(2) by (cases "nat (queue_len s)") auto
  then have n': "nat (queue_len s - 1) = n" "n < length (queue s)"
    using assms by (auto simp: stq_invar_def nat_diff_distrib QUEUE_LEN_def)
  define q where "q = take n (drop 1 (queue s)) @ drop n (queue s)"
  have len: "length q = length (queue s)" using n' by (auto simp: q_def)
  have "0 < length (queue s)" using n'(2) by linarith
  then have eq: "unqueue s = Some (queue s ! 0, s\<lparr>queue := q, queue_len := queue_len s - 1\<rparr>)"
    using n' shift_queue_eq [of 0 n "queue s"] arr_get_in [of 0 "queue s"]
    by (simp add: unqueue_def q_def)
  have "take n q = take n (tl (queue s))"
    using n' by (simp add: q_def drop_Suc)
  then have "stq_items s = queue s ! 0 # stq_items (s\<lparr>queue := q, queue_len := queue_len s - 1\<rparr>)"
    using n n' by (cases "queue s") (auto simp: stq_items_def)
  with eq len assms that show ?thesis by (auto simp: stq_invar_def)
qed

interpretation stq: bounded_fifo stq_enq stq_deq stq_items stq_invar QUEUE_LEN
proof unfold_locales
  fix s
  assume "stq_invar s"
  then show "length (stq_items s) \<le> QUEUE_LEN"
    by (auto simp: stq_length stq_invar_def nat_le_iff)
next
  fix s x
  assume s: "stq_invar s" "length (stq_items s) = QUEUE_LEN"
  then have "queue_len s = int QUEUE_LEN"
    by (auto simp: stq_length stq_invar_def)
  then show "stq_enq x s = None"
    by (simp add: stq_enq_def steppersQueue_def)
next
  fix s x
  assume s: "stq_invar s" "length (stq_items s) < QUEUE_LEN"
  then have n: "nat (queue_len s) < length (queue s)" "queue_len s < int QUEUE_LEN" "0 \<le> queue_len s"
    by (auto simp: stq_length stq_invar_def)
  define s' where "s' = s\<lparr>queue := (queue s)[nat (queue_len s) := x], queue_len := queue_len s + 1\<rparr>"
  have "stq_enq x s = Some s'"
    using n by (simp add: stq_enq_def steppersQueue_def array_simps s'_def)
  moreover have "stq_invar s'"
    using s n by (simp add: stq_invar_def s'_def)
  moreover have "stq_items s' = stq_items s @ [x]"
    using n take_update_shift [OF n(1), of x] by (simp add: stq_items_def s'_def nat_add_distrib)
  ultimately show "\<exists>q'. stq_enq x s = Some q' \<and> stq_invar q' \<and> stq_items q' = stq_items s @ [x]"
    by blast
next
  fix s
  assume "stq_invar s" "stq_items s = []"
  then show "stq_deq s = None"
    using stq_length [of s] by (simp add: stq_deq_def)
next
  fix s y ys
  assume s: "stq_invar s" "stq_items s = y # ys"
  then have "0 < queue_len s" using stq_length [of s] by simp
  with s show "\<exists>q'. stq_deq s = Some (y, q') \<and> stq_invar q' \<and> stq_items q' = ys"
    by (auto simp: stq_deq_def elim: unqueue_items [OF s(1)])
qed

lemma queue_result:
  assumes "stq_invar s"
  shows "if length (stq_items s) = QUEUE_LEN then steppersQueue x s = Some (Some (- 1), s)
     else \<exists>s'. steppersQueue x s = Some (None, s') \<and> stq_invar s' \<and> stq_items s' = stq_items s @ [x]"
proof (cases "length (stq_items s) = QUEUE_LEN")
  case True
  then show ?thesis using assms by (auto simp: steppersQueue_def stq_length stq_invar_def)
next
  case False
  then have "\<exists>s'. stq_enq x s = Some s' \<and> stq_invar s' \<and> stq_items s' = stq_items s @ [x]"
    using stq.enq_room [OF assms] stq.within_cap [OF assms] by (simp add: nat_less_le)
  then show ?thesis using False by (auto simp: stq_enq_def split: option.splits)
qed

text \<open>
  Property C12. The move queue is first-in first-out for any interleaving of
  \<open>steppersQueue\<close> calls and dequeues: the targets accepted, appended to those already queued,
  are those taken out followed by those still queued. A call on a queue that holds ten targets
  returns -1 and changes nothing; a call on any other appends its target and never writes
  outside the array.
\<close>

theorem move_queue_fifo:
  assumes "stq_invar s" "fifo_run stq_enq stq_deq ops s = (ins, outs, s')"
  shows "stq_items s @ ins = outs @ stq_items s' \<and> length (stq_items s') \<le> 10 \<and>
     (if length (stq_items s') = 10 then steppersQueue x s' = Some (Some (- 1), s')
      else \<exists>s''. steppersQueue x s' = Some (None, s'') \<and> stq_items s'' = stq_items s' @ [x])"
proof -
  have s': "stq_items s @ ins = outs @ stq_items s'" "stq_invar s'"
    using stq.fifo_order [OF assms] by blast+
  have "length (stq_items s') \<le> 10" using stq.within_cap [OF s'(2)] by (simp add: QUEUE_LEN_def)
  then show ?thesis
    using s' queue_result [OF s'(2), of x] by (auto simp: QUEUE_LEN_def split: if_splits)
qed

definition demo_target :: "rat \<Rightarrow> steppers_target" where
  "demo_target q =
     \<lparr>tgt_mode = [0, 0, 0, 0, 0], tgt_dt = Fin 1, tgt_x = [Fin q, Fin 0, Fin 0, Fin 0, Fin 0],
      tgt_v = replicate 5 (Fin 0)\<rparr>"

definition demo_steppers :: steppers where
  "demo_steppers =
     \<lparr>st_state = STATE_OFF, current_position = demo_target 0,
      queue = replicate 10 (demo_target 0), queue_len = 0\<rparr>"

theorem move_queue_fifo_witness:
  "fst (snd (fifo_run stq_enq stq_deq
     [Enq (demo_target 1), Enq (demo_target 2), Deq, Deq] demo_steppers)) =
   [demo_target 1, demo_target 2]"
proof -
  define r where "r = fifo_run stq_enq stq_deq
     [Enq (demo_target 1), Enq (demo_target 2), Deq, Deq] demo_steppers"
  have inv: "stq_invar demo_steppers" "stq_items demo_steppers = []"
    by (simp_all add: stq_invar_def stq_items_def demo_steppers_def QUEUE_LEN_def)
  have "fst r = [demo_target 1, demo_target 2]" "stq_items (snd (snd r)) = []"
    by (simp_all add: r_def stq_enq_def stq_deq_def steppersQueue_def unqueue_def demo_steppers_def
        QUEUE_LEN_def arr_set_def arr_get_def stq_items_def numeral_eq_Suc)
  moreover have "fifo_run stq_enq stq_deq
     [Enq (demo_target 1), Enq (demo_target 2), Deq, Deq] demo_steppers =
      (fst r, fst (snd r), snd (snd r))"
    by (simp only: r_def prod.collapse)
  from move_queue_fifo [OF inv(1) this] have "stq_items demo_steppers @ fst r =
      fst (snd r) @ stq_items (snd (snd r))" by (rule conjunct1)
  ultimately show ?thesis unfolding r_def [symmetric] using inv(2) by simp
qed

section \<open>The coefficients are those of the cubic through the target\<close>

lemmas exact_simps = exact_arith_def move_kb_def move_ka_def move_a_def move_j_def move_steps_def

text \<open>
  In exact arithmetic the coefficients of \<open>unqueue_move\<close> are those of the cubic
  \<open>ka t^3 + kb t^2 + v0 t\<close> that starts with velocity \<open>v0\<close>, covers the distance \<open>dx\<close> in the
  time \<open>dt\<close> and ends with velocity \<open>vn\<close>.
\<close>

theorem move_coefficients_exact:
  fixes dx v0 vn dt :: rat
  assumes "dt \<noteq> 0"
  defines "kb \<equiv> move_kb exact_arith dx v0 vn dt"
  defines "ka \<equiv> move_ka exact_arith kb v0 vn dt"
  shows "ka * dt ^ 3 + kb * dt ^ 2 + v0 * dt = dx \<and> 3 * ka * dt ^ 2 + 2 * kb * dt + v0 = vn"
  using assms(1)
  by (simp add: ka_def kb_def exact_simps field_simps power2_eq_square power3_eq_cube)

theorem move_coefficients_exact_witness:
  "(let kb = move_kb exact_arith 100 0 20 5; ka = move_ka exact_arith kb 0 20 5
    in ka * 5 ^ 3 + kb * 5 ^ 2 + 0 * 5 = 100 \<and> 3 * ka * 5 ^ 2 + 2 * kb * 5 + 0 = 20)"
  using move_coefficients_exact [of 5 100 0 20] by (simp add: Let_def)

text \<open>
  The controller integrates in steps, \<open>N = dt * ACC_FREQ\<close> of them: \<open>v0 + N a + (N choose 2) j\<close>
  in units of \<open>2 ^ STEP_BIT\<close> per step and clock cycle. The velocity it ends with differs from
  the one asked for by half of the accumulated jerk.
\<close>

definition vel_units :: "rat \<Rightarrow> rat" where
  "vel_units v = v * 2 ^ STEP_BIT / of_int STEP_FREQ"

text \<open>
  The velocity after all \<open>N\<close> acceleration periods of a move planned in exact
  arithmetic is \<open>vn\<close> in controller units less \<open>N / 2\<close> times the jerk: the planner uses the
  continuous cubic for what the hardware integrates with a first-order step.
\<close>

theorem planned_velocity_drift:
  fixes dx v0 vn dt :: rat
  assumes "dt = of_nat N / of_int ACC_FREQ" "0 < N"
  defines "kb \<equiv> move_kb exact_arith dx v0 vn dt"
  defines "ka \<equiv> move_ka exact_arith kb v0 vn dt"
  defines "a \<equiv> move_a exact_arith kb" and "j \<equiv> move_j exact_arith ka"
  shows "vel_units v0 + of_nat N * a + of_nat (N choose 2) * j = vel_units vn - of_nat N / 2 * j"
proof -
  have dt: "dt \<noteq> 0" using assms(1,2) by (simp add: ACC_FREQ_def)
  have vn: "3 * ka * dt ^ 2 + 2 * kb * dt + v0 = vn"
    using dt by (simp add: ka_def kb_def exact_simps field_simps power2_eq_square power3_eq_cube)
  have N: "of_nat N = 250 * dt" using assms(1) by (simp add: ACC_FREQ_def)
  have ch: "of_nat (N choose 2) = (of_nat N * (of_nat N - 1) / 2 :: rat)"
  proof -
    have "even (N * (N - 1))" by (cases N) auto
    then have "2 * (N choose 2) = N * (N - 1)" by (simp add: choose_two)
    then have "2 * of_nat (N choose 2) = (of_nat (N * (N - 1)) :: rat)"
      by (metis of_nat_mult of_nat_numeral)
    then show ?thesis using assms(2) by (simp add: of_nat_diff field_simps)
  qed
  show ?thesis
    unfolding ch N vn [symmetric]
    by (simp add: a_def j_def exact_simps vel_units_def STEP_BIT_def STEP_FREQ_def ACC_FREQ_def
        field_simps power2_eq_square)
qed

theorem planned_velocity_drift_witness:
  "(let kb = move_kb exact_arith 100 0 20 5; ka = move_ka exact_arith kb 0 20 5;
        a = move_a exact_arith kb; j = move_j exact_arith ka
    in vel_units 0 + 1250 * a + of_nat (1250 choose 2) * j = vel_units 20 - 1250 / 2 * j)"
  using planned_velocity_drift [of 5 1250 0 100 20] by (simp add: Let_def ACC_FREQ_def)

section \<open>A move with no duration\<close>

lemma rnd64_0: "rnd64 0 = Fin 0"
  by (simp add: rnd64_def)

lemma d_mul_not_fin: "(\<And>q. x \<noteq> Fin q) \<Longrightarrow> d_mul c x \<noteq> Fin q"
  by (cases x; cases c) auto

lemma d_mul_not_fin': "(\<And>q. x \<noteq> Fin q) \<Longrightarrow> d_mul x c \<noteq> Fin q"
  by (cases x; cases c) auto

lemma d_div_not_fin: "(\<And>q. x \<noteq> Fin q) \<Longrightarrow> d_div x c \<noteq> Fin q"
  by (cases x; cases c) auto

lemma d_add_not_fin:
  "(\<And>q. x \<noteq> Fin q) \<Longrightarrow> d_add x y \<noteq> Fin q" "(\<And>q. y \<noteq> Fin q) \<Longrightarrow> d_add x y \<noteq> Fin q"
  by (cases x; cases y; auto)+

lemma d_div_zero: "d_div x (Fin 0) \<noteq> Fin q"
  by (cases x) auto

lemma d_to_i32_not_fin: "(\<And>q. x \<noteq> Fin q) \<Longrightarrow> d_to_i32 x = None"
  by (cases x) auto

text \<open>
  A target with duration zero makes the program convert an infinity or NaN to an
  integer: whatever the positions and velocities, \<open>unqueue_move\<close> is undefined on it.
\<close>

theorem zero_duration_undefined: "move_regs dx v0 vn (Fin 0) = None"
proof -
  have "move_kb double_arith dx v0 vn (Fin 0) \<noteq> Fin q" for q
    by (simp add: move_kb_def double_arith_def d_sub_def rnd64_0 d_add_not_fin(1) d_div_zero)
  then have "move_a double_arith (move_kb double_arith dx v0 vn (Fin 0)) \<noteq> Fin q" for q
    unfolding move_a_def
    by (simp add: double_arith_def) (intro d_div_not_fin d_mul_not_fin d_mul_not_fin', simp)
  then have "d_to_i32 (move_a double_arith (move_kb double_arith dx v0 vn (Fin 0))) = None"
    by (rule d_to_i32_not_fin)
  then show ?thesis
    by (simp add: move_regs_def Let_def split: bind_splits)
qed

section \<open>The main loop\<close>

definition tgt_ok :: "steppers_target \<Rightarrow> bool" where
  "tgt_ok t \<longleftrightarrow> length (tgt_x t) = STEPPERS_NUM_AXES \<and> length (tgt_v t) = STEPPERS_NUM_AXES"

definition st_ok :: "steppers \<Rightarrow> bool" where
  "st_ok s \<longleftrightarrow> stq_invar s \<and> tgt_ok (current_position s) \<and> (\<forall>t \<in> set (stq_items s). tgt_ok t)"

text \<open>The registers the planner computes for the move from \<open>p\<close> to \<open>t\<close>.\<close>

definition plan :: "steppers_target \<Rightarrow> steppers_target \<Rightarrow> (u32 \<times> u32 \<times> u32) option" where
  "plan p t =
     move_regs (d_sub (tgt_x t ! 0) (tgt_x p ! 0)) (tgt_v p ! 0) (tgt_v t ! 0) (tgt_dt t)"

lemma tgt_ok_get [simp]:
  "tgt_ok t \<Longrightarrow> arr_get (tgt_x t) 0 = Some (tgt_x t ! 0)"
  "tgt_ok t \<Longrightarrow> arr_get (tgt_v t) 0 = Some (tgt_v t ! 0)"
  "tgt_ok t \<Longrightarrow> set_first (tgt_x t) d = Some ((tgt_x t)[0 := d])"
  "tgt_ok t \<Longrightarrow> set_first (tgt_v t) d = Some ((tgt_v t)[0 := d])"
  by (simp_all add: tgt_ok_def STEPPERS_NUM_AXES_def set_first_def array_simps)

lemma tgt_ok_upd [simp]:
  "tgt_ok (t\<lparr>tgt_v := (tgt_v t)[i := d]\<rparr>) = tgt_ok t"
  "tgt_ok (t\<lparr>tgt_x := (tgt_x t)[i := e], tgt_v := (tgt_v t)[i := d]\<rparr>) = tgt_ok t"
  by (simp_all add: tgt_ok_def)

lemma zero_position_ok [simp]:
  "tgt_ok p \<Longrightarrow> zero_position p =
     Some (p\<lparr>tgt_x := (tgt_x p)[0 := Fin 0], tgt_v := (tgt_v p)[0 := Fin 0]\<rparr>)"
  by (simp add: zero_position_def)

lemma st_ok_frame:
  "st_ok s \<Longrightarrow> tgt_ok p \<Longrightarrow> st_ok (s\<lparr>current_position := p\<rparr>)"
  "st_ok (s\<lparr>st_state := x\<rparr>) = st_ok s"
  by (simp_all add: st_ok_def stq_invar_def stq_items_def)

text \<open>The dequeued move: it is the oldest target, and only its conversion or its debug text can fail.\<close>

lemma unqueue_move_cases:
  assumes "st_ok s" "0 < queue_len s"
  defines "t \<equiv> hd (stq_items s)"
  obtains (undef) "plan (current_position s) t = None" "unqueue_move io base (s, b) = None"
  | (prog) n a j s' where "plan (current_position s) t = Some (n, a, j)"
      "unqueue_move io base (s, b) = Some (s', MOTION_Start io base (MOTION_SetJ io base j
          (MOTION_SetA io base a (MOTION_SetSteps io base n b))))"
      "st_ok s'" "stq_items s = t # stq_items s'" "current_position s' = t" "st_state s' = st_state s"
proof -
  have inv: "stq_invar s" using assms(1) by (simp add: st_ok_def)
  obtain u s1 where u: "unqueue s = Some (u, s1)" "stq_invar s1" "stq_items s = u # stq_items s1"
      "st_state s1 = st_state s" "current_position s1 = current_position s"
    using unqueue_items [OF inv assms(2)] by metis
  have t: "t = u" and ok: "tgt_ok u" "tgt_ok (current_position s)" "st_ok s1"
    using assms(1) u by (auto simp: t_def st_ok_def)
  show ?thesis
  proof (cases "plan (current_position s) t")
    case None
    then show ?thesis
      using undef ok u t by (simp add: unqueue_move_def plan_def)
  next
    case (Some naj)
    obtain n a j where naj: "naj = (n, a, j)" by (cases naj)
    show ?thesis
    proof (rule prog [of n a j "s1\<lparr>current_position := u\<rparr>"])
      show "stq_items s = t # stq_items (s1\<lparr>current_position := u\<rparr>)"
        using u t by (simp add: stq_items_def)
    qed (use Some naj ok u t in \<open>simp_all add: unqueue_move_def plan_def st_ok_frame\<close>)
  qed
qed

lemma unqueue_stop_ok:
  assumes "st_ok s" "unqueue_stop io base (s, b) = r"
  obtains s' b' where "r = Some (s', b')" "st_ok s'" "stq_items s' = stq_items s"
    "b' = MOTION_Start io base (MOTION_SetJ io base 0 (MOTION_SetA io base 0
            (MOTION_SetV io base 0 (MOTION_SetSteps io base 25 b))))"
  using assms
  by (auto simp: unqueue_stop_def st_ok_def ACC_FREQ_def stq_invar_def stq_items_def)

lemma mainloop_cases:
  assumes "st_ok s"
  shows "case steppersMainLoop io base (s, b) of
      Some (s', b') \<Rightarrow> st_ok s'
    | None \<Rightarrow> st_state s \<in> {STATE_IDLE, STATE_ACTIVE} \<and> 0 < queue_len s \<and>
        plan (current_position s) (hd (stq_items s)) = None"
proof -
  note um = unqueue_move_cases [OF assms(1), of io base]
  note us = unqueue_stop_ok [OF assms(1) refl, of io base]
  show ?thesis
  proof (cases "st_state s")
    case STATE_OFF
    then show ?thesis
      using assms by (simp add: steppersMainLoop_def st_ok_def stq_invar_def stq_items_def)
  next
    case STATE_IDLE
    show ?thesis
    proof (cases "0 < queue_len s")
      case True
      then show ?thesis
        using STATE_IDLE by (cases rule: um [of b]) (simp_all add: steppersMainLoop_def st_ok_frame)
    qed (use assms STATE_IDLE in \<open>simp add: steppersMainLoop_def\<close>)
  next
    case STATE_ACTIVE
    obtain t1 b1 where rd1: "MOTION_mReadReg io base MOTION_CMD_OFFSET b = (t1, b1)" by fastforce
    obtain t2 b2 where rd2: "MOTION_mReadReg io base MOTION_STAT_STATUS_OFFSET b1 = (t2, b2)"
      by fastforce
    obtain s' b' where stop: "unqueue_stop io base (s, b2) = Some (s', b')" "st_ok s'"
      using us [of b2] by blast
    show ?thesis
    proof (cases "0 < queue_len s")
      case True
      then show ?thesis
        using assms STATE_ACTIVE
        by (cases rule: um [of b1]) (simp_all add: steppersMainLoop_def rd1)
    qed (use assms stop STATE_ACTIVE in \<open>simp add: steppersMainLoop_def rd1 rd2 st_ok_frame\<close>)
  next
    case STATE_DELAY
    then show ?thesis using assms by (simp add: steppersMainLoop_def)
  next
    case STATE_STOPPING
    then show ?thesis
      using assms by (simp add: steppersMainLoop_def st_ok_frame Let_def case_prod_beta)
  qed
qed

text \<open>
  Property C20. The main loop is memory safe and keeps the queue and the targets well formed
  for any hardware behaviour. It can be undefined only when a target is dequeued for which there
  is no plan: its step count, acceleration or jerk does not fit the integer register, or the
  debug text with the distance, velocities, duration and coefficients does not fit the 500
  bytes of its buffer.
\<close>

theorem mainloop_safe:
  assumes "st_ok s"
  shows "case steppersMainLoop io base (s, b) of
      Some (s', b') \<Rightarrow> st_ok s'
    | None \<Rightarrow> st_state s \<in> {STATE_IDLE, STATE_ACTIVE} \<and> 0 < queue_len s \<and>
        plan (current_position s) (hd (stq_items s)) = None"
  by (rule mainloop_cases [OF assms])

definition demo_queued :: steppers where
  "demo_queued = demo_steppers
     \<lparr>st_state := STATE_ACTIVE, queue := demo_target 8 # replicate 9 (demo_target 0), queue_len := 1\<rparr>"

lemma demo_queued_ok: "st_ok demo_queued" "stq_items demo_queued = [demo_target 8]"
  by (simp_all add: demo_queued_def demo_steppers_def st_ok_def stq_invar_def stq_items_def
      tgt_ok_def demo_target_def QUEUE_LEN_def STEPPERS_NUM_AXES_def)

theorem mainloop_safe_witness:
  "case steppersMainLoop (motion_io 0) 0 (demo_queued\<lparr>st_state := STATE_OFF\<rparr>, demo_sys) of
     Some (s', b') \<Rightarrow> st_ok s' | None \<Rightarrow> False"
  using mainloop_safe [of "demo_queued\<lparr>st_state := STATE_OFF\<rparr>" "motion_io 0" 0 demo_sys]
  by (cases "steppersMainLoop (motion_io 0) 0 (demo_queued\<lparr>st_state := STATE_OFF\<rparr>, demo_sys)")
    (simp_all add: demo_queued_ok st_ok_frame)

text \<open>What a poll of the command register tells: the software may program the next move.\<close>

lemma and_1_bit0: "(w :: u32) AND 1 = 0 \<longleftrightarrow> \<not> bit w 0"
  by (simp add: and_one_eq bit_0 even_iff_mod_2_eq_zero odd_iff_mod_2_eq_one)

text \<open>
  Property C1. The hand-over protocol, on the real controller and for any bus timing: with a
  move queued, the main loop in \<open>STATE_ACTIVE\<close> polls the command register; while it reads a
  pending START it changes neither the queue nor a parameter register, otherwise it takes the
  oldest target, makes it the current position, and leaves exactly the planned step count,
  acceleration and jerk with START, SET_A and SET_J in the registers.
\<close>

theorem active_handover:
  fixes b :: motion_sys and base :: u32
  assumes "st_ok s" "st_state s = STATE_ACTIVE" "stq_items s = t # ts"
    and "plan (current_position s) t = Some (n, a, j)" "ctrl_off r" "r \<noteq> 0"
  defines "poll \<equiv> MOTION_mReadReg (motion_io base) base MOTION_CMD_OFFSET b"
  shows "\<exists>s' b'. steppersMainLoop (motion_io base) base (s, b) = Some (s', b') \<and>
     (if bit (fst poll) 0 then s' = s \<and> sys_ctrl b' r = sys_ctrl b r
      else stq_items s' = ts \<and> current_position s' = t \<and> st_state s' = STATE_ACTIVE \<and>
        sys_ctrl b' 0 = sys_ctrl (snd poll) 0 OR 0x19 \<and>
        sys_ctrl b' r =
          (if r = MOTION_NEXT_STEPS_OFFSET then n else if r = MOTION_NEXT_A_OFFSET then a
           else if r = MOTION_NEXT_J_OFFSET then j else sys_ctrl b r))"
proof -
  have q: "0 < queue_len s"
    using assms(1,3) stq_length [of s] by (simp add: st_ok_def)
  have io: "poll = io_in32 (motion_io base) base b"
    by (simp add: poll_def MOTION_mReadReg_def motion_regs)
  have rd: "MOTION_mReadReg (motion_io base) base 0 b = poll"
    by (simp add: poll_def motion_regs)
  have keep: "sys_ctrl (snd poll) r = sys_ctrl b r"
    using mp.read_keeps_params [OF assms(5,6)] by (simp add: io)
  show ?thesis
  proof (cases "bit (fst poll) 0")
    case True
    then show ?thesis
      using assms(2) keep
      by (simp add: steppersMainLoop_def case_prod_beta and_1_bit0 motion_regs rd)
  next
    case False
    then have clear: "\<not> bit (sys_ctrl (snd poll) 0) 0"
      using mp.poll_clear by (simp add: io)
    note regs = mp.program_move [OF clear, of _ base j a n]
    show ?thesis
    proof (cases rule: unqueue_move_cases [OF assms(1) q, of "motion_io base" base "snd poll"])
      case 1
      then show ?thesis using assms(3,4) by simp
    next
      case (2 n' a' j' s')
      then show ?thesis
        using assms(2-6) False keep regs [of r] regs [of 0]
        by (simp add: steppersMainLoop_def case_prod_beta and_1_bit0 q motion_regs rd)
    qed
  qed
qed

text \<open>A bound on the printed length, for numbers of moderate size.\<close>

lemma dec_len_bound: "n < 10 ^ Suc k \<Longrightarrow> dec_len n \<le> Suc k"
proof (induction k arbitrary: n)
  case 0
  then show ?case by (simp add: dec_len.simps)
next
  case (Suc k)
  then have "n div 10 < 10 ^ Suc k" by (simp add: less_mult_imp_div_less mult.commute)
  from Suc.IH [OF this] show ?case by (subst dec_len.simps) simp
qed

lemma f_len_bound:
  assumes "\<bar>q\<bar> < 10 ^ Suc k - 1"
  shows "f_len (Fin q) \<le> k + 9"
proof -
  have "of_int (round_even (\<bar>q\<bar> * 10 ^ 6)) \<le> \<bar>q\<bar> * 10 ^ 6 + 1"
    using round_even_error [of "\<bar>q\<bar> * 10 ^ 6"] by linarith
  also have "\<dots> < of_int (10 ^ Suc k * 10 ^ 6)" using assms by simp
  finally have "round_even (\<bar>q\<bar> * 10 ^ 6) < 10 ^ Suc k * 10 ^ 6" by (simp only: of_int_less_iff)
  then have "nat (round_even (\<bar>q\<bar> * 10 ^ 6)) < nat (10 ^ Suc k * 10 ^ 6)"
    by (subst nat_mono_iff) simp_all
  then have "nat (round_even (\<bar>q\<bar> * 10 ^ 6)) < 10 ^ Suc k * 10 ^ 6"
    by (simp add: nat_mult_distrib nat_power_eq)
  then have "nat (round_even (\<bar>q\<bar> * 10 ^ 6)) div 10 ^ 6 < 10 ^ Suc k"
    by (rule less_mult_imp_div_less)
  from dec_len_bound [OF this] show ?thesis 
    unfolding f_len.simps by (simp only: split: if_split) linarith
qed

lemma debug_fits:
  assumes "list_all (\<lambda>d. case d of Fin q \<Rightarrow> \<bar>q\<bar> < 10 ^ 17 | _ \<Rightarrow> False) ds" "length ds = 6"
  shows "debug_sprintf ds = Some ()"
proof -
  have "f_len d \<le> 26" if "d \<in> set ds" for d
    using assms(1) that f_len_bound [of _ 17] by (cases d) (fastforce simp: list_all_iff simp del: f_len.simps)+
  then have "sum_list (map f_len ds) \<le> sum_list (map (\<lambda>d. 26) ds)"
    by (rule sum_list_mono)
  then show ?thesis using assms(2) by (simp add: debug_sprintf_def debug_len_def BUF_SIZE_def sum_list_triv)
qed

lemma rnd64_dyadic:
  "\<bar>m\<bar> < 2 ^ 53 \<Longrightarrow> k \<le> 1074 \<Longrightarrow> rnd64 (of_int m / 2 ^ k) = Fin (of_int m / 2 ^ k)"
  by (rule rnd64_exact [of _ m "- int k"]) (auto simp: power_int_minus_divide)

text \<open>
  The buffer can be too small for a move all of whose coefficients fit their registers: at the
  constant speed \<open>2 ^ 1000\<close> the acceleration and the jerk are zero, but three of the six numbers
  have more than 300 digits.
\<close>

lemma dec_len_lower: "10 ^ k \<le> n \<Longrightarrow> k < dec_len n"
proof (induction k arbitrary: n)
  case 0
  then show ?case by (simp add: dec_len.simps)
next
  case (Suc k)
  then have "10 ^ k \<le> n div 10" by (simp add: less_eq_div_iff_mult_less_eq mult.commute)
  moreover have "\<not> n < 10"
    using Suc.prems
    by (simp add: not_less) (metis le_trans mult_le_mono2 mult.right_neutral one_le_power one_le_numeral)
  ultimately show ?case using Suc.IH [of "n div 10"] by (subst dec_len.simps) simp
qed

lemma f_len_int: "0 < n \<Longrightarrow> f_len (Fin (of_int n)) = dec_len (nat n) + 7"
proof -
  assume "0 < n"
  have "round_even (of_int n * 10 ^ 6) = n * 10 ^ 6"
    using round_even_of_int [of "n * 10 ^ 6"] by simp
  with \<open>0 < n\<close> show ?thesis by (simp add: nat_mult_distrib)
qed

theorem debug_text_overflows:
  defines "big \<equiv> Fin (2 ^ 1000)"
  defines "kb \<equiv> move_kb double_arith big big big (Fin 1)"
  defines "ka \<equiv> move_ka double_arith kb big big (Fin 1)"
  shows "d_to_u32 (move_steps double_arith (Fin 1)) = Some 250"
    "d_to_i32 (move_a double_arith kb) = Some 0" "d_to_i32 (move_j double_arith ka) = Some 0"
    "move_regs big big big (Fin 1) = None"
proof -
  have r: "rnd64 (of_int m * 2 ^ 1000) = Fin (of_int m * 2 ^ 1000)" if "\<bar>m\<bar> < 2 ^ 24" for m
    by (rule rnd64_exact [of _ "m * 2 ^ 29" 971]) (use that in \<open>auto simp: power_int_def\<close>)
  define P :: rat where "P = 2 ^ 1000"
  have big: "big = Fin P" by (simp only: big_def P_def)
  note r' = r [of 2, folded P_def, simplified] r [of 3, folded P_def, simplified] rnd64_dyadic [of 1 0, simplified] rnd64_0
    rnd64_dyadic [of 250 0, simplified] rnd64_dyadic [of 3 0, simplified]
  have kb: "kb = Fin 0"
    by (simp add: kb_def big move_kb_def double_arith_def d_of_int_exact d_sub_def r')
  then have ka: "ka = Fin 0"
    by (simp add: ka_def big move_ka_def double_arith_def d_of_int_exact d_sub_def r')
  show "d_to_u32 (move_steps double_arith (Fin 1)) = Some 250"
    by (simp add: move_steps_def double_arith_def d_of_int_exact ACC_FREQ_def r' trunc_rat_def)
  show "d_to_i32 (move_a double_arith kb) = Some 0" "d_to_i32 (move_j double_arith ka) = Some 0"
    by (simp_all add: ka kb move_a_def move_j_def double_arith_def d_of_int_exact ACC_FREQ_def STEP_FREQ_def
        STEP_BIT_def r' trunc_rat_def)
  have "10 ^ 300 \<le> (2 :: nat) ^ 1000" by simp
  from dec_len_lower [OF this] have "307 < f_len big"
    using f_len_int [of "2 ^ 1000"] by (simp add: big_def nat_power_eq)
  then have "debug_sprintf [big, big, big, Fin 1, ka, kb] = None"
    by (simp add: debug_sprintf_def debug_len_def BUF_SIZE_def)
  then show "move_regs big big big (Fin 1) = None"
    by (simp add: move_regs_def Let_def ka_def kb_def)
qed

text \<open>A move whose coefficients are exact in \<^verbatim>\<open>double\<close>: about 364 steps in one second.\<close>

definition demo_x :: rat where "demo_x = 6103515625 / 16777216"

lemma demo_plan: "plan (demo_target 0) (demo_target demo_x) = Some (250, 96000, - 768)"
proof -
  note r = rnd64_dyadic [of 1 0, simplified] rnd64_dyadic [of 2 0, simplified]
    rnd64_dyadic [of 3 0, simplified] rnd64_dyadic [of 6 0, simplified]
    rnd64_dyadic [of 250 0, simplified]
    rnd64_dyadic [of 6103515625 24, simplified] rnd64_dyadic [of 18310546875 24, simplified]
    rnd64_dyadic [of 18310546875 23, simplified] rnd64_dyadic [of "- 6103515625" 23, simplified]
    rnd64_dyadic [of "6103515625" 23, simplified] rnd64_dyadic [of "- 18310546875" 22, simplified]
    rnd64_dyadic [of "18310546875 * 2^17" 0, simplified]
    rnd64_dyadic [of "- 18310546875 * 2^18" 0, simplified]
    rnd64_dyadic [of "24000000" 0, simplified]
    rnd64_dyadic [of "96000" 0, simplified]
    rnd64_dyadic [of "- 48000000" 0, simplified]
    rnd64_dyadic [of "-192000" 0, simplified]
    rnd64_dyadic [of "-768" 0, simplified]
  have "debug_sprintf [Fin (6103515625 / 16777216), Fin 0, Fin 0, Fin 1,
      Fin (- (6103515625 / 8388608)), Fin (18310546875 / 16777216)] = Some ()"
    by (rule debug_fits) simp_all
  then show ?thesis
    by (simp add: plan_def demo_target_def demo_x_def move_regs_def Let_def double_arith_def
      move_kb_def move_ka_def move_a_def move_j_def move_steps_def d_of_int_exact d_sub_def rnd64_0
      STEP_BIT_def STEP_FREQ_def ACC_FREQ_def r trunc_rat_def)
qed

theorem active_handover_witness:
  "\<exists>s' b'. steppersMainLoop (motion_io 0x82000000) 0x82000000
       (demo_queued\<lparr>queue := (queue demo_queued)[0 := demo_target demo_x]\<rparr>, demo_sys) = Some (s', b') \<and>
     sys_ctrl b' 0 = 0x19 \<and> sys_ctrl b' 0x10 = 96000"
proof -
  define s where "s = demo_queued\<lparr>queue := (queue demo_queued)[0 := demo_target demo_x]\<rparr>"
  have "st_ok s" "st_state s = STATE_ACTIVE" "stq_items s = [demo_target demo_x]"
    "current_position s = demo_target 0"
    by (simp_all add: s_def demo_queued_def demo_steppers_def st_ok_def stq_invar_def
        stq_items_def tgt_ok_def demo_target_def QUEUE_LEN_def STEPPERS_NUM_AXES_def)
  moreover have "ctrl_off 0x10" by (simp add: ctrl_off_def ctrl_sel_def)
  moreover define poll where
    "poll = MOTION_mReadReg (motion_io 0x82000000) 0x82000000 MOTION_CMD_OFFSET demo_sys"
  have "fst poll = sys_ctrl demo_sys 0" "sys_ctrl (snd poll) 0 = sys_ctrl demo_sys 0"
      "sys_ctrl demo_sys 0 = 0"
    using mp.read_value [of 0 demo_sys "0x82000000"] mp.read_keeps [of 0 0 demo_sys "0x82000000"]
    by (simp_all add: poll_def MOTION_mReadReg_def motion_regs demo_sys_def sys_ctrl_def ul_read_0)
  ultimately show ?thesis
    using active_handover [of s "demo_target demo_x" "[]" 250 96000 "- 768" "0x10" "0x82000000"
        demo_sys] demo_plan
    by (simp add: poll_def motion_regs flip: s_def) blast
qed

end
