(* ===== verification/Cmdline.thy ===== *)
theory Cmdline
  imports Prelude
begin

unbundle bit_operations_syntax

text \<open>
  The command line of the console, \<^verbatim>\<open>src/sdloader/src/cmdline.c\<close>: a line editor with
  cursor keys and a history of ten lines, the registration and lookup of commands, and the
  retrieval of arguments. The record has the file's global variables under their names, and
  \<open>cmdline_out\<close> logs the bytes sent with \<^verbatim>\<open>cmdlineOutputFunc\<close>. A function is \<open>None\<close> where
  the C code would leave an array. Commands are values of any type \<open>'f\<close>; the null function
  pointer is \<open>None\<close>.
\<close>

section \<open>State and constants\<close>

record 'f cmdline =
  CmdlineCommandList :: "u8 list list"
  CmdlineFunctionList :: "'f option list"
  CmdlineNumCommands :: u8
  CmdlineBuffer :: "u8 list"
  CmdlineBufferLength :: u8
  CmdlineBufferEditPos :: u8
  CmdlineInputVT100State :: u8
  CmdlineHistory :: "u8 list list"
  CmdlineHistoryIdx :: u8
  CmdlineHistoryCnt :: u8
  CmdlineHistoryCopy :: u8
  CmdlineExecFunction :: "'f option"
  cmdline_out :: "u8 list"

text \<open>\<open>CmdlineHistoryIdx\<close> is an \<^verbatim>\<open>int8_t\<close>: its value is \<open>sint\<close> of the byte.\<close>

named_theorems ascii \<open>character codes and sizes of the command line\<close>

definition ASCII_BEL :: u8 where [ascii]: "ASCII_BEL = 0x07"
definition ASCII_BS :: u8 where [ascii]: "ASCII_BS = 0x08"
definition ASCII_CR :: u8 where [ascii]: "ASCII_CR = 0x0D"
definition ASCII_LF :: u8 where [ascii]: "ASCII_LF = 0x0A"
definition ASCII_ESC :: u8 where [ascii]: "ASCII_ESC = 0x1B"
definition ASCII_DEL :: u8 where [ascii]: "ASCII_DEL = 0x7F"
definition ASCII_SPACE :: u8 where [ascii]: "ASCII_SPACE = 0x20"
definition ASCII_LBRACKET :: u8 where [ascii]: "ASCII_LBRACKET = 0x5B"

definition VT100_ARROWUP :: u8 where [ascii]: "VT100_ARROWUP = 0x41"
definition VT100_ARROWDOWN :: u8 where [ascii]: "VT100_ARROWDOWN = 0x42"
definition VT100_ARROWRIGHT :: u8 where [ascii]: "VT100_ARROWRIGHT = 0x43"
definition VT100_ARROWLEFT :: u8 where [ascii]: "VT100_ARROWLEFT = 0x44"

definition CMDLINE_MAX_COMMANDS :: nat where [ascii]: "CMDLINE_MAX_COMMANDS = 30"
definition CMDLINE_MAX_CMD_LENGTH :: nat where [ascii]: "CMDLINE_MAX_CMD_LENGTH = 50"
definition CMDLINE_BUFFERSIZE :: nat where [ascii]: "CMDLINE_BUFFERSIZE = 50"
definition CMDLINE_HISTORYSIZE :: nat where [ascii]: "CMDLINE_HISTORYSIZE = 10"

text \<open>\<open>cmd> \<close>, \<open>cmdline: \<close> and \<open>command not found\<close>.\<close>

definition CmdlinePrompt :: "u8 list" where "CmdlinePrompt = map of_char ''cmd> ''"
definition CmdlineNotice :: "u8 list" where "CmdlineNotice = map of_char ''cmdline: ''"
definition CmdlineCmdNotFound :: "u8 list" where
  "CmdlineCmdNotFound = map of_char ''command not found''"

definition cmdlineOutputFunc :: "u8 list \<Rightarrow> 'f cmdline \<Rightarrow> 'f cmdline" where
  "cmdlineOutputFunc cs s = s\<lparr>cmdline_out := cmdline_out s @ cs\<rparr>"

text \<open>The static variables before \<open>cmdlineInit\<close>: C zeroes them.\<close>

definition cmdline_bss :: "'f cmdline" where
  "cmdline_bss =
     \<lparr>CmdlineCommandList = replicate CMDLINE_MAX_COMMANDS (replicate CMDLINE_MAX_CMD_LENGTH 0),
      CmdlineFunctionList = replicate CMDLINE_MAX_COMMANDS None,
      CmdlineNumCommands = 0, CmdlineBuffer = replicate CMDLINE_BUFFERSIZE 0,
      CmdlineBufferLength = 0, CmdlineBufferEditPos = 0, CmdlineInputVT100State = 0,
      CmdlineHistory = replicate CMDLINE_HISTORYSIZE (replicate CMDLINE_BUFFERSIZE 0),
      CmdlineHistoryIdx = 0, CmdlineHistoryCnt = 0, CmdlineHistoryCopy = 0,
      CmdlineExecFunction = None, cmdline_out = []\<rparr>"

section \<open>Operations\<close>

definition cmdlineInit :: "'f cmdline \<Rightarrow> 'f cmdline" where
  "cmdlineInit s =
     s\<lparr>CmdlineInputVT100State := 0, CmdlineBufferLength := 0, CmdlineBufferEditPos := 0,
       CmdlineExecFunction := None, CmdlineNumCommands := 0, CmdlineHistoryIdx := - 1,
       CmdlineHistoryCnt := 0, CmdlineHistoryCopy := 0\<rparr>"

definition cmdlineAddCommand :: "u8 list \<Rightarrow> 'f option \<Rightarrow> 'f cmdline \<Rightarrow> 'f cmdline option" where
  "cmdlineAddCommand newCmdString newCmdFuncPtr s =
     (let n = unat (CmdlineNumCommands s)
      in do { row \<leftarrow> arr_get (CmdlineCommandList s) n;
              row \<leftarrow> c_strcpy row newCmdString;
              cmds \<leftarrow> arr_set (CmdlineCommandList s) n row;
              funs \<leftarrow> arr_set (CmdlineFunctionList s) n newCmdFuncPtr;
              Some (s\<lparr>CmdlineCommandList := cmds, CmdlineFunctionList := funs,
                      CmdlineNumCommands := CmdlineNumCommands s + 1\<rparr>) })"

definition cmdlinePrintPrompt :: "'f cmdline \<Rightarrow> 'f cmdline" where
  "cmdlinePrintPrompt s = cmdlineOutputFunc CmdlinePrompt s"

text \<open>The first \<open>n\<close> bytes of an array, read one after the other.\<close>

definition read_bytes :: "u8 list \<Rightarrow> nat \<Rightarrow> u8 list option" where
  "read_bytes buf n = (if n \<le> length buf then Some (take n buf) else None)"

definition cmdlineRepaint :: "'f cmdline \<Rightarrow> 'f cmdline option" where
  "cmdlineRepaint s =
     (let s = cmdlineOutputFunc [ASCII_CR] s;
          s = cmdlinePrintPrompt s;
          s = cmdlineOutputFunc [ASCII_ESC, ASCII_LBRACKET, 0x4B] s
      in do { cs \<leftarrow> read_bytes (CmdlineBuffer s) (unat (CmdlineBufferLength s));
              Some (cmdlineOutputFunc cs s) })"

text \<open>The row loop of \<^verbatim>\<open>CMDLINE_HISTORY_SAVE\<close>: row \<open>i - 1\<close> to row \<open>i\<close>, downwards.\<close>

fun hist_shift :: "nat \<Rightarrow> u8 list list \<Rightarrow> u8 list list option" where
  "hist_shift 0 h = Some h"
| "hist_shift (Suc i) h =
     do { src \<leftarrow> arr_get h i; dst \<leftarrow> arr_get h (Suc i); row \<leftarrow> c_strcpy dst src;
          h \<leftarrow> arr_set h (Suc i) row; hist_shift i h }"

definition cmdlineHistorySave :: "'f cmdline \<Rightarrow> 'f cmdline option" where
  "cmdlineHistorySave s =
     do { n \<leftarrow> c_strlen (CmdlineBuffer s);
          if n = 0 then Some s
          else
            (let cnt = (if CmdlineHistoryCnt s \<ge> of_nat CMDLINE_HISTORYSIZE
                        then of_nat (CMDLINE_HISTORYSIZE - 1) else CmdlineHistoryCnt s);
                 (i, s) = (if CmdlineHistoryCopy s \<noteq> 0
                           then (uint cnt, s\<lparr>CmdlineHistoryCnt := cnt + 1\<rparr>)
                           else (sint (CmdlineHistoryIdx s), s))
             in do { h \<leftarrow> hist_shift (nat i) (CmdlineHistory s);
                     row \<leftarrow> arr_get h 0;
                     row \<leftarrow> c_strcpy row (CmdlineBuffer s);
                     h \<leftarrow> arr_set h 0 row;
                     Some (s\<lparr>CmdlineHistory := h\<rparr>) }) }"

definition cmdlineHistoryRecall :: "bool \<Rightarrow> 'f cmdline \<Rightarrow> 'f cmdline option" where
  "cmdlineHistoryRecall nxt s =
     (let idx = (if nxt then CmdlineHistoryIdx s - 2 else CmdlineHistoryIdx s);
          idx = idx + 1;
          idx = (if sint idx \<ge> uint (CmdlineHistoryCnt s) - 1
                 then of_int (uint (CmdlineHistoryCnt s) - 1) else idx);
          idx = (if sint idx < 0 then 0 else idx)
      in do { src \<leftarrow> arr_get (CmdlineHistory s) (nat (sint idx));
              buf \<leftarrow> c_strcpy (CmdlineBuffer s) src;
              n \<leftarrow> c_strlen buf;
              s \<leftarrow> cmdlineRepaint
                    (s\<lparr>CmdlineHistoryIdx := idx, CmdlineBuffer := buf,
                       CmdlineBufferLength := of_nat n, CmdlineBufferEditPos := of_nat n\<rparr>);
              Some (s\<lparr>CmdlineHistoryCopy := 0\<rparr>) })"

definition CMDLINE_HISTORY_SAVE :: nat where [ascii]: "CMDLINE_HISTORY_SAVE = 0"
definition CMDLINE_HISTORY_PREV :: nat where [ascii]: "CMDLINE_HISTORY_PREV = 1"
definition CMDLINE_HISTORY_NEXT :: nat where [ascii]: "CMDLINE_HISTORY_NEXT = 2"

definition cmdlineDoHistory :: "nat \<Rightarrow> 'f cmdline \<Rightarrow> 'f cmdline option" where
  "cmdlineDoHistory action s =
     (if action = CMDLINE_HISTORY_SAVE then cmdlineHistorySave s
      else if action = CMDLINE_HISTORY_NEXT then cmdlineHistoryRecall True s
      else if action = CMDLINE_HISTORY_PREV then cmdlineHistoryRecall False s
      else Some s)"

text \<open>
  The scanning loops: the first index from \<open>i\<close> on whose byte satisfies \<open>p\<close>, and \<open>None\<close> when
  the scan leaves the array.
\<close>

function (sequential) scan_to :: "(u8 \<Rightarrow> bool) \<Rightarrow> u8 list \<Rightarrow> nat \<Rightarrow> nat option" where
  "scan_to p buf i =
     (case arr_get buf i of
        None \<Rightarrow> None
      | Some c \<Rightarrow> if p c then Some i else scan_to p buf (Suc i))"
  by pat_completeness auto
termination
  by (relation "measure (\<lambda>(p, buf, i). length buf - i)")
    (auto simp: arr_get_def split: if_splits)

definition is_word_end :: "u8 \<Rightarrow> bool" where
  "is_word_end c \<longleftrightarrow> c = ASCII_SPACE \<or> c = 0"

definition cmdlinePrintError :: "'f cmdline \<Rightarrow> 'f cmdline option" where
  "cmdlinePrintError s =
     do { i \<leftarrow> scan_to is_word_end (CmdlineBuffer s) 0;
          Some (cmdlineOutputFunc (CmdlineNotice @ take i (CmdlineBuffer s) @ [0x3A, ASCII_SPACE] @
                  CmdlineCmdNotFound @ [ASCII_CR, ASCII_LF]) s) }"

text \<open>
  The search loop over the command list: \<open>Some (Some k)\<close> is the first matching index,
  \<open>Some None\<close> no match.
\<close>

fun find_cmd :: "u8 list list \<Rightarrow> u8 list \<Rightarrow> nat \<Rightarrow> nat \<Rightarrow> nat \<Rightarrow> nat option option" where
  "find_cmd cmds buf i k 0 = Some None"
| "find_cmd cmds buf i k (Suc n) =
     do { row \<leftarrow> arr_get cmds k; r \<leftarrow> c_strncmp row buf i;
          if r = 0 then Some (Some k) else find_cmd cmds buf i (Suc k) n }"

definition cmdlineProcessInputString :: "'f cmdline \<Rightarrow> 'f cmdline option" where
  "cmdlineProcessInputString s =
     do { s \<leftarrow> cmdlineDoHistory CMDLINE_HISTORY_SAVE s;
          i \<leftarrow> scan_to is_word_end (CmdlineBuffer s) 0;
          if i = 0 then Some (cmdlinePrintPrompt s)
          else
            do { m \<leftarrow> find_cmd (CmdlineCommandList s) (CmdlineBuffer s) i 0
                        (unat (CmdlineNumCommands s));
                 case m of
                   Some k \<Rightarrow> do { f \<leftarrow> arr_get (CmdlineFunctionList s) k;
                                 Some (s\<lparr>CmdlineExecFunction := f\<rparr>) }
                 | None \<Rightarrow> do { s \<leftarrow> cmdlinePrintError s; Some (cmdlinePrintPrompt s) } } }"

text \<open>The character handler, in the order of its branches: the VT100 code after \<open>ESC [\<close>,\<close>

definition cmdlineVT100 :: "u8 \<Rightarrow> 'f cmdline \<Rightarrow> 'f cmdline option" where
  "cmdlineVT100 c s =
     do { s \<leftarrow>
            (if c = VT100_ARROWUP then cmdlineDoHistory CMDLINE_HISTORY_PREV s
             else if c = VT100_ARROWDOWN then cmdlineDoHistory CMDLINE_HISTORY_NEXT s
             else if c = VT100_ARROWRIGHT then
               Some (if CmdlineBufferEditPos s < CmdlineBufferLength s
                     then cmdlineOutputFunc [ASCII_ESC, ASCII_LBRACKET, VT100_ARROWRIGHT]
                            (s\<lparr>CmdlineBufferEditPos := CmdlineBufferEditPos s + 1\<rparr>)
                     else cmdlineOutputFunc [ASCII_BEL] s)
             else if c = VT100_ARROWLEFT then
               Some (if CmdlineBufferEditPos s \<noteq> 0
                     then cmdlineOutputFunc [ASCII_BS]
                            (s\<lparr>CmdlineBufferEditPos := CmdlineBufferEditPos s - 1\<rparr>)
                     else cmdlineOutputFunc [ASCII_BEL] s)
             else Some s);
          Some (s\<lparr>CmdlineInputVT100State := 0\<rparr>) }"

text \<open>printable characters, with the loop that makes room at the cursor,\<close>

fun ins_shift :: "nat \<Rightarrow> nat \<Rightarrow> u8 list \<Rightarrow> u8 list option" where
  "ins_shift 0 pos buf = Some buf"
| "ins_shift (Suc i) pos buf =
     (if pos < Suc i then do { x \<leftarrow> arr_get buf i; buf \<leftarrow> arr_set buf (Suc i) x; ins_shift i pos buf }
      else Some buf)"

definition cmdlinePrintable :: "u8 \<Rightarrow> 'f cmdline \<Rightarrow> 'f cmdline option" where
  "cmdlinePrintable c s =
     (let len = CmdlineBufferLength s; pos = CmdlineBufferEditPos s
      in if pos = len then
           if unat len < CMDLINE_BUFFERSIZE - 2 then
             do { buf \<leftarrow> arr_set (CmdlineBuffer s) (unat pos) c;
                  Some ((cmdlineOutputFunc [c] s)
                    \<lparr>CmdlineBuffer := buf, CmdlineBufferEditPos := pos + 1,
                     CmdlineBufferLength := len + 1, CmdlineHistoryCopy := 1\<rparr>) }
           else Some (cmdlineOutputFunc [ASCII_BEL] s)
         else
           if unat len < CMDLINE_BUFFERSIZE - 2 then
             do { buf \<leftarrow> ins_shift (unat (len + 1)) (unat pos) (CmdlineBuffer s);
                  buf \<leftarrow> arr_set buf (unat pos) c;
                  s \<leftarrow> cmdlineRepaint (s\<lparr>CmdlineBuffer := buf, CmdlineBufferEditPos := pos + 1,
                                          CmdlineBufferLength := len + 1\<rparr>);
                  Some ((cmdlineOutputFunc (replicate (unat (len + 1) - unat (pos + 1)) ASCII_BS) s)
                    \<lparr>CmdlineHistoryCopy := 1\<rparr>) }
           else Some (cmdlineOutputFunc [ASCII_BEL] s))"

text \<open>the ENTER key,\<close>

definition cmdlineEnter :: "'f cmdline \<Rightarrow> 'f cmdline option" where
  "cmdlineEnter s =
     do { buf \<leftarrow> arr_set (CmdlineBuffer s) (unat (CmdlineBufferLength s)) 0;
          s \<leftarrow> cmdlineProcessInputString
                ((cmdlineOutputFunc [ASCII_CR, ASCII_LF] s)
                   \<lparr>CmdlineBuffer := buf, CmdlineBufferLength := CmdlineBufferLength s + 1,
                    CmdlineBufferEditPos := CmdlineBufferEditPos s + 1\<rparr>);
          Some (s\<lparr>CmdlineBufferLength := 0, CmdlineBufferEditPos := 0, CmdlineHistoryCopy := 0,
                  CmdlineHistoryIdx := - 1\<rparr>) }"

text \<open>the DEL key, with its closing loop,\<close>

function (sequential) del_shift :: "nat \<Rightarrow> nat \<Rightarrow> u8 list \<Rightarrow> u8 list option" where
  "del_shift i len buf =
     (if i < len then do { x \<leftarrow> arr_get buf (Suc i); buf \<leftarrow> arr_set buf i x; del_shift (Suc i) len buf }
      else Some buf)"
  by pat_completeness auto
termination
  by (relation "measure (\<lambda>(i, len, buf). len - i)") auto

definition cmdlineDelete :: "'f cmdline \<Rightarrow> 'f cmdline option" where
  "cmdlineDelete s =
     (let len = CmdlineBufferLength s; pos = CmdlineBufferEditPos s
      in if pos \<noteq> 0 then
           if pos = len then
             Some ((cmdlineOutputFunc [ASCII_BS, ASCII_SPACE, ASCII_BS] s)
               \<lparr>CmdlineBufferLength := len - 1, CmdlineBufferEditPos := pos - 1\<rparr>)
           else
             do { buf \<leftarrow> del_shift (unat (pos - 1)) (unat (len - 1)) (CmdlineBuffer s);
                  s \<leftarrow> cmdlineRepaint (s\<lparr>CmdlineBuffer := buf, CmdlineBufferLength := len - 1,
                                          CmdlineBufferEditPos := pos - 1\<rparr>);
                  Some (cmdlineOutputFunc
                    (ASCII_SPACE # replicate (unat (len - 1) + 1 - unat (pos - 1)) ASCII_BS) s) }
         else Some (cmdlineOutputFunc [ASCII_BEL] s))"

text \<open>and the handler that dispatches to them.\<close>

definition cmdlineRegular :: "u8 \<Rightarrow> 'f cmdline \<Rightarrow> 'f cmdline option" where
  "cmdlineRegular c s =
     (if 0x20 \<le> c \<and> c < 0x7F then cmdlinePrintable c s
      else if c = ASCII_CR then cmdlineEnter s
      else if c = ASCII_DEL then cmdlineDelete s
      else if c = ASCII_ESC then Some (s\<lparr>CmdlineInputVT100State := 1\<rparr>)
      else Some s)"

definition cmdlineInputFunc :: "u8 \<Rightarrow> 'f cmdline \<Rightarrow> 'f cmdline option" where
  "cmdlineInputFunc c s =
     (if CmdlineInputVT100State s = 2 then cmdlineVT100 c s
      else if CmdlineInputVT100State s = 1 \<and> c = ASCII_LBRACKET
        then Some (s\<lparr>CmdlineInputVT100State := 2\<rparr>)
      else cmdlineRegular c (s\<lparr>CmdlineInputVT100State := 0\<rparr>))"

text \<open>
  \<^verbatim>\<open>cmdlineMainLoop\<close> runs the pending command; \<open>run\<close> is the call through the function pointer,
  which may change the rest of the world \<open>'w\<close> and the command line.
\<close>

definition cmdlineMainLoop ::
  "('f \<Rightarrow> 'f cmdline \<times> 'w \<Rightarrow> ('f cmdline \<times> 'w) option) \<Rightarrow> 'f cmdline \<times> 'w
   \<Rightarrow> ('f cmdline \<times> 'w) option" where
  "cmdlineMainLoop run sw =
     (case CmdlineExecFunction (fst sw) of
        None \<Rightarrow> Some sw
      | Some f \<Rightarrow>
          do { (s, w) \<leftarrow> run f sw;
               Some (cmdlinePrintPrompt (s\<lparr>CmdlineExecFunction := None\<rparr>), w) })"

section \<open>Arguments\<close>

definition not_space :: "u8 \<Rightarrow> bool" where
  "not_space c \<longleftrightarrow> \<not> (c \<noteq> 0 \<and> c = ASCII_SPACE)"

fun skip_args :: "u8 list \<Rightarrow> nat \<Rightarrow> nat \<Rightarrow> nat option" where
  "skip_args buf 0 idx = Some idx"
| "skip_args buf (Suc n) idx =
     do { idx \<leftarrow> scan_to is_word_end buf idx; idx \<leftarrow> scan_to not_space buf idx;
          skip_args buf n idx }"

text \<open>The offset in \<open>CmdlineBuffer\<close> that the returned pointer points at.\<close>

definition cmdlineGetArgStr :: "u8 \<Rightarrow> 'f cmdline \<Rightarrow> nat option" where
  "cmdlineGetArgStr argnum s =
     do { idx \<leftarrow> scan_to not_space (CmdlineBuffer s) 0;
          skip_args (CmdlineBuffer s) (unat argnum) idx }"

text \<open>
  \<^verbatim>\<open>strtol\<close> and \<^verbatim>\<open>strtoul\<close> of the C library on a NUL-terminated string, for the bases the
  sources use, with the 32-bit \<^verbatim>\<open>long\<close> of the target: leading white space, a sign, an
  optional \<open>0x\<close> in base 16, digits up to the first other character, and saturation.
\<close>

definition is_cspace :: "u8 \<Rightarrow> bool" where
  "is_cspace c \<longleftrightarrow> c = 0x20 \<or> (0x09 \<le> c \<and> c \<le> 0x0D)"

definition digit_val :: "u8 \<Rightarrow> int option" where
  "digit_val c =
     (if 0x30 \<le> c \<and> c \<le> 0x39 then Some (uint c - 0x30)
      else if 0x61 \<le> c \<and> c \<le> 0x7A then Some (uint c - 0x61 + 10)
      else if 0x41 \<le> c \<and> c \<le> 0x5A then Some (uint c - 0x41 + 10)
      else None)"

fun digits_val :: "int \<Rightarrow> int \<Rightarrow> u8 list \<Rightarrow> int" where
  "digits_val base acc [] = acc"
| "digits_val base acc (c # cs) =
     (case digit_val c of
        Some d \<Rightarrow> if d < base then digits_val base (acc * base + d) cs else acc
      | None \<Rightarrow> acc)"

fun strip_0x :: "u8 list \<Rightarrow> u8 list" where
  "strip_0x (c # x # cs) = (if c = 0x30 \<and> (x = 0x78 \<or> x = 0x58) then cs else c # x # cs)"
| "strip_0x cs = cs"

definition parse_int :: "int \<Rightarrow> u8 list \<Rightarrow> bool \<times> int" where
  "parse_int base buf =
     (let cs = dropWhile is_cspace (cstr buf);
          (neg, cs) = (case cs of
              c # ds \<Rightarrow> if c = 0x2D then (True, ds) else if c = 0x2B then (False, ds) else (False, cs)
            | [] \<Rightarrow> (False, []))
      in (neg, digits_val base 0 (if base = 16 then strip_0x cs else cs)))"

definition c_strtol :: "int \<Rightarrow> u8 list \<Rightarrow> u32" where
  "c_strtol base buf =
     (let (neg, n) = parse_int base buf; v = (if neg then - n else n)
      in of_int (if v < - (2 ^ 31) then - (2 ^ 31) else if v > 2 ^ 31 - 1 then 2 ^ 31 - 1 else v))"

definition c_strtoul :: "int \<Rightarrow> u8 list \<Rightarrow> u32" where
  "c_strtoul base buf =
     (let (neg, n) = parse_int base buf
      in of_int (if n > 2 ^ 32 - 1 then 2 ^ 32 - 1 else if neg then - n else n))"

definition cmdlineGetArgInt :: "u8 \<Rightarrow> 'f cmdline \<Rightarrow> u32 option" where
  "cmdlineGetArgInt argnum s =
     do { i \<leftarrow> cmdlineGetArgStr argnum s; Some (c_strtol 10 (drop i (CmdlineBuffer s))) }"

definition cmdlineGetArgHex :: "u8 \<Rightarrow> 'f cmdline \<Rightarrow> u32 option" where
  "cmdlineGetArgHex argnum s =
     do { i \<leftarrow> cmdlineGetArgStr argnum s; Some (c_strtoul 16 (drop i (CmdlineBuffer s))) }"

section \<open>The loops\<close>

declare scan_to.simps [simp del] del_shift.simps [simp del]

lemma ins_shift_eq:
  assumes "pos \<le> n" "n < length buf"
  shows "ins_shift n pos buf =
     Some (map (\<lambda>k. if pos < k \<and> k \<le> n then buf ! (k - 1) else buf ! k) [0..<length buf])"
  using assms
proof (induction n pos buf rule: ins_shift.induct)
  case (1 pos buf)
  then show ?case by (auto intro!: nth_equalityI)
next
  case (2 i pos buf)
  show ?case
  proof (cases "pos < Suc i")
    case True
    have eq: "map (\<lambda>k. if pos < k \<and> k \<le> i then buf[Suc i := buf ! i] ! (k - 1)
          else buf[Suc i := buf ! i] ! k) [0..<length buf] =
        map (\<lambda>k. if pos < k \<and> k \<le> Suc i then buf ! (k - 1) else buf ! k) [0..<length buf]"
      using True "2.prems" by (intro map_cong) (auto simp: nth_list_update)
    have "ins_shift i pos (buf[Suc i := buf ! i]) = Some (map (\<lambda>k. if pos < k \<and> k \<le> i
        then buf[Suc i := buf ! i] ! (k - 1) else buf[Suc i := buf ! i] ! k) [0..<length buf])"
      using "2.IH" [OF True, of "buf ! i" "buf[Suc i := buf ! i]"] True "2.prems"
      by (simp add: array_simps)
    then show ?thesis
      using True "2.prems" by (simp add: array_simps eq)
  next
    case False
    with "2.prems" show ?thesis by (auto intro!: nth_equalityI)
  qed
qed

lemma ins_shift_insert:
  assumes "pos \<le> n" "n < length buf"
  obtains buf' where "ins_shift n pos buf = Some buf'" "length buf' = length buf"
    "take (Suc n) (buf'[pos := c]) = take pos buf @ c # drop pos (take n buf)"
proof (rule that [OF ins_shift_eq [OF assms]])
  show "take (Suc n) ((map (\<lambda>k. if pos < k \<and> k \<le> n then buf ! (k - 1) else buf ! k)
      [0..<length buf])[pos := c]) = take pos buf @ c # drop pos (take n buf)"
    using assms by (intro nth_equalityI) (auto simp: nth_list_update nth_append nth_Cons' min_def
        split: if_splits)
qed simp

lemma del_shift_eq:
  assumes "pos \<le> n" "n < length buf"
  shows "del_shift pos n buf =
     Some (map (\<lambda>k. if pos \<le> k \<and> k < n then buf ! Suc k else buf ! k) [0..<length buf])"
  using assms
proof (induction pos n buf rule: del_shift.induct)
  case (1 i n buf)
  show ?case
  proof (cases "i < n")
    case True
    have eq: "map (\<lambda>k. if Suc i \<le> k \<and> k < n then buf[i := buf ! Suc i] ! Suc k
          else buf[i := buf ! Suc i] ! k) [0..<length buf] =
        map (\<lambda>k. if i \<le> k \<and> k < n then buf ! Suc k else buf ! k) [0..<length buf]"
      using True "1.prems" by (intro map_cong) (auto simp: nth_list_update)
    have "del_shift (Suc i) n (buf[i := buf ! Suc i]) = Some (map (\<lambda>k. if Suc i \<le> k \<and> k < n
        then buf[i := buf ! Suc i] ! Suc k else buf[i := buf ! Suc i] ! k) [0..<length buf])"
      using "1.IH" [OF True, of "buf ! Suc i" "buf[i := buf ! Suc i]"] True "1.prems"
      by (simp add: array_simps)
    then show ?thesis
      using True "1.prems" by (subst del_shift.simps) (simp add: array_simps eq)
  next
    case False
    with "1.prems" show ?thesis by (subst del_shift.simps) (auto intro!: nth_equalityI)
  qed
qed

lemma del_shift_delete:
  assumes "pos \<le> n" "n < length buf"
  obtains buf' where "del_shift pos n buf = Some buf'" "length buf' = length buf"
    "take n buf' = take pos buf @ drop (Suc pos) (take (Suc n) buf)"
proof (rule that [OF del_shift_eq [OF assms]])
  show "take n (map (\<lambda>k. if pos \<le> k \<and> k < n then buf ! Suc k else buf ! k) [0..<length buf]) =
      take pos buf @ drop (Suc pos) (take (Suc n) buf)"
    using assms by (intro nth_equalityI) (auto simp: nth_append min_def)
qed simp

text \<open>A scan stops at the first hit; there is one when the line is terminated.\<close>

lemma scan_to_append:
  assumes "\<And>c. c \<in> set xs \<Longrightarrow> \<not> p c" "p y"
  shows "scan_to p (zs @ xs @ y # ys) (length zs) = Some (length zs + length xs)"
  using assms(1)
proof (induction xs arbitrary: zs)
  case Nil
  with assms(2) show ?case by (subst scan_to.simps) (simp add: arr_get_def nth_append)
next
  case (Cons x xs)
  have "scan_to p ((zs @ [x]) @ xs @ y # ys) (length (zs @ [x])) = Some (length (zs @ [x]) + length xs)"
    by (rule Cons.IH) (use Cons.prems in auto)
  with Cons.prems show ?case by (subst scan_to.simps) (simp add: arr_get_def nth_append)
qed

text \<open>Rows of the history.\<close>

definition printable :: "u8 \<Rightarrow> bool" where
  "printable c \<longleftrightarrow> 0x20 \<le> c \<and> c < 0x7F"

definition row_ok :: "u8 list \<Rightarrow> bool" where
  "row_ok r \<longleftrightarrow> length r = CMDLINE_BUFFERSIZE \<and> 0 \<in> set r \<and>
     length (cstr r) \<le> CMDLINE_BUFFERSIZE - 2 \<and> (\<forall>c \<in> set (cstr r). printable c)"

lemma printable_not_nul: "printable c \<Longrightarrow> c \<noteq> 0"
  by (auto simp: printable_def)

lemma row_copy:
  assumes "length dst = CMDLINE_BUFFERSIZE" "row_ok src"
  obtains r where "c_strcpy dst src = Some r" "row_ok r" "cstr r = cstr src"
proof
  let ?r = "cstr src @ 0 # drop (Suc (length (cstr src))) dst"
  show "c_strcpy dst src = Some ?r"
    using assms by (simp add: row_ok_def cstring_simps ascii)
  show "cstr ?r = cstr src" by (simp add: cstring_simps)
  then show "row_ok ?r" using assms by (auto simp: row_ok_def ascii)
qed

lemma hist_shift_rows:
  assumes "i < length h" "\<forall>r \<in> set h. row_ok r"
  obtains h' where "hist_shift i h = Some h'" "length h' = length h" "\<forall>r \<in> set h'. row_ok r"
    "\<And>k. k < length h \<Longrightarrow> cstr (h' ! k) = (if 0 < k \<and> k \<le> i then cstr (h ! (k - 1)) else cstr (h ! k))"
proof -
  have "\<exists>h'. hist_shift i h = Some h' \<and> length h' = length h \<and> (\<forall>r \<in> set h'. row_ok r) \<and>
      (\<forall>k < length h. cstr (h' ! k) = (if 0 < k \<and> k \<le> i then cstr (h ! (k - 1)) else cstr (h ! k)))"
    using assms
  proof (induction i arbitrary: h)
    case 0
    then show ?case by simp
  next
    case (Suc i)
    have ok: "row_ok (h ! i)" "length (h ! Suc i) = CMDLINE_BUFFERSIZE"
      using Suc.prems(2) nth_mem [of i h] nth_mem [of "Suc i" h] Suc.prems(1)
      by (auto simp: row_ok_def)
    then obtain r where r: "c_strcpy (h ! Suc i) (h ! i) = Some r" "row_ok r" "cstr r = cstr (h ! i)"
      using row_copy by metis
    have "\<forall>r' \<in> set (h[Suc i := r]). row_ok r'"
      using Suc.prems(2) r(2) by (auto dest!: set_update_subset_insert [THEN subsetD])
    then obtain h' where h': "hist_shift i (h[Suc i := r]) = Some h'"
        "length h' = length h" "\<forall>r \<in> set h'. row_ok r"
        "\<forall>k < length h. cstr (h' ! k) =
           (if 0 < k \<and> k \<le> i then cstr (h[Suc i := r] ! (k - 1)) else cstr (h[Suc i := r] ! k))"
      using Suc.IH [of "h[Suc i := r]"] Suc.prems(1) by auto
    have "cstr (h' ! k) = (if 0 < k \<and> k \<le> Suc i then cstr (h ! (k - 1)) else cstr (h ! k))"
      if "k < length h" for k
      using h'(4) that r(3) Suc.prems(1) by (auto simp: nth_list_update le_Suc_eq)
    with h' r(1) Suc.prems(1) show ?case
      by (simp add: array_simps)
  qed
  with that show ?thesis by blast
qed

lemma hist_shift_strings:
  assumes "i < length h" "\<forall>r \<in> set h. row_ok r" "row_ok r0"
  obtains h' r where "hist_shift i h = Some h'" "h' \<noteq> []" "c_strcpy (h' ! 0) r0 = Some r"
    "length h' = length h" "\<forall>r \<in> set (h'[0 := r]). row_ok r"
    "map cstr (h'[0 := r]) = cstr r0 # take i (map cstr h) @ drop (Suc i) (map cstr h)"
proof -
  obtain h' where h': "hist_shift i h = Some h'" "length h' = length h" "\<forall>r \<in> set h'. row_ok r"
      "\<And>k. k < length h \<Longrightarrow> cstr (h' ! k) = (if 0 < k \<and> k \<le> i then cstr (h ! (k - 1)) else cstr (h ! k))"
    using hist_shift_rows [OF assms(1,2)] by metis
  have "h' \<noteq> []" using h'(2) assms(1) by auto
  moreover obtain r where r: "c_strcpy (h' ! 0) r0 = Some r" "row_ok r" "cstr r = cstr r0"
    using row_copy [of "h' ! 0", OF _ assms(3)] h'(3) \<open>h' \<noteq> []\<close> by (auto simp: row_ok_def)
  moreover have "\<forall>r \<in> set (h'[0 := r]). row_ok r"
    using h'(3) r(2) by (auto dest!: set_update_subset_insert [THEN subsetD])
  moreover have "map cstr (h'[0 := r]) = cstr r0 # take i (map cstr h) @ drop (Suc i) (map cstr h)"
    using h'(2,4) assms(1) r(3)
    by (intro nth_equalityI) (auto simp: nth_list_update nth_Cons' nth_append min_def)
  ultimately show ?thesis using that h' by metis
qed

section \<open>Specification: an editor on lists\<close>

text \<open>
  What the command line promises, without arrays, lengths or machine integers: the line being
  edited and the cursor in it, the list of remembered lines (most recent first), which of
  them is shown and whether it has been edited since, the registered commands in order and
  the command chosen for execution. A step yields the bytes sent to the terminal.
\<close>

record 'f editor =
  ed_line :: "u8 list"
  ed_pos :: nat
  ed_vt :: nat
  ed_hist :: "u8 list list"
  ed_idx :: int
  ed_edited :: bool
  ed_cmds :: "(u8 list \<times> 'f option) list"
  ed_exec :: "'f option"

definition ed_repaint :: "u8 list \<Rightarrow> u8 list" where
  "ed_repaint l = [ASCII_CR] @ CmdlinePrompt @ [ASCII_ESC, ASCII_LBRACKET, 0x4B] @ l"

definition ed_insert :: "u8 \<Rightarrow> 'f editor \<Rightarrow> 'f editor \<times> u8 list" where
  "ed_insert c e =
     (let l = take (ed_pos e) (ed_line e) @ c # drop (ed_pos e) (ed_line e)
      in if length (ed_line e) < CMDLINE_BUFFERSIZE - 2 then
           (e\<lparr>ed_line := l, ed_pos := ed_pos e + 1, ed_edited := True\<rparr>,
            if ed_pos e = length (ed_line e) then [c]
            else ed_repaint l @ replicate (length (ed_line e) - ed_pos e) ASCII_BS)
         else (e, [ASCII_BEL]))"

definition ed_delete :: "'f editor \<Rightarrow> 'f editor \<times> u8 list" where
  "ed_delete e =
     (let l = take (ed_pos e - 1) (ed_line e) @ drop (ed_pos e) (ed_line e)
      in if ed_pos e = 0 then (e, [ASCII_BEL])
         else
           (e\<lparr>ed_line := l, ed_pos := ed_pos e - 1\<rparr>,
            if ed_pos e = length (ed_line e) then [ASCII_BS, ASCII_SPACE, ASCII_BS]
            else ed_repaint l @ ASCII_SPACE # replicate (length (ed_line e) + 1 - ed_pos e) ASCII_BS))"

definition ed_recall :: "int \<Rightarrow> 'f editor \<Rightarrow> 'f editor \<times> u8 list" where
  "ed_recall d e =
     (let i = max 0 (min (ed_idx e + d) (int (length (ed_hist e)) - 1));
          l = (if ed_hist e = [] then [] else ed_hist e ! nat i)
      in (e\<lparr>ed_line := l, ed_pos := length l, ed_idx := i, ed_edited := False\<rparr>, ed_repaint l))"

definition ed_save :: "'f editor \<Rightarrow> u8 list list" where
  "ed_save e =
     (if ed_line e = [] then ed_hist e
      else if ed_edited e then ed_line e # take (CMDLINE_HISTORYSIZE - 1) (ed_hist e)
      else ed_line e # take (nat (ed_idx e)) (ed_hist e) @ drop (nat (ed_idx e) + 1) (ed_hist e))"

definition ed_word :: "u8 list \<Rightarrow> u8 list" where
  "ed_word l = takeWhile (\<lambda>c. c \<noteq> ASCII_SPACE) l"

definition ed_lookup :: "u8 list \<Rightarrow> (u8 list \<times> 'f option) list \<Rightarrow> (u8 list \<times> 'f option) option" where
  "ed_lookup w cmds = find (\<lambda>(name, f). take (length w) name = w) cmds"

definition ed_enter :: "'f editor \<Rightarrow> 'f editor \<times> u8 list" where
  "ed_enter e =
     (let w = ed_word (ed_line e);
          e' = e\<lparr>ed_line := [], ed_pos := 0, ed_hist := ed_save e, ed_idx := - 1, ed_edited := False\<rparr>;
          nl = [ASCII_CR, ASCII_LF]
      in if w = [] then (e', nl @ CmdlinePrompt)
         else case ed_lookup w (ed_cmds e) of
                Some (name, f) \<Rightarrow> (e'\<lparr>ed_exec := f\<rparr>, nl)
              | None \<Rightarrow> (e', nl @ (CmdlineNotice @ w @ [0x3A, ASCII_SPACE] @ CmdlineCmdNotFound @ nl) @
                            CmdlinePrompt))"

definition ed_arrow :: "u8 \<Rightarrow> 'f editor \<Rightarrow> 'f editor \<times> u8 list" where
  "ed_arrow c e =
     (if c = VT100_ARROWUP then ed_recall 1 e
      else if c = VT100_ARROWDOWN then ed_recall (- 1) e
      else if c = VT100_ARROWRIGHT then
        if ed_pos e < length (ed_line e)
        then (e\<lparr>ed_pos := ed_pos e + 1\<rparr>, [ASCII_ESC, ASCII_LBRACKET, VT100_ARROWRIGHT])
        else (e, [ASCII_BEL])
      else if c = VT100_ARROWLEFT then
        if ed_pos e \<noteq> 0 then (e\<lparr>ed_pos := ed_pos e - 1\<rparr>, [ASCII_BS]) else (e, [ASCII_BEL])
      else (e, []))"

definition ed_step :: "u8 \<Rightarrow> 'f editor \<Rightarrow> 'f editor \<times> u8 list" where
  "ed_step c e =
     (let e0 = e\<lparr>ed_vt := 0\<rparr>
      in if ed_vt e = 2 then ed_arrow c e0
         else if ed_vt e = 1 \<and> c = ASCII_LBRACKET then (e\<lparr>ed_vt := 2\<rparr>, [])
         else if printable c then ed_insert c e0
         else if c = ASCII_CR then ed_enter e0
         else if c = ASCII_DEL then ed_delete e0
         else if c = ASCII_ESC then (e\<lparr>ed_vt := 1\<rparr>, [])
         else (e0, []))"

section \<open>Invariant and abstraction\<close>

definition cl_line :: "'f cmdline \<Rightarrow> u8 list" where
  "cl_line s = take (unat (CmdlineBufferLength s)) (CmdlineBuffer s)"

definition cl_line_ok :: "'f cmdline \<Rightarrow> bool" where
  "cl_line_ok s \<longleftrightarrow>
     length (CmdlineBuffer s) = CMDLINE_BUFFERSIZE \<and>
     unat (CmdlineBufferLength s) \<le> CMDLINE_BUFFERSIZE - 2 \<and>
     CmdlineBufferEditPos s \<le> CmdlineBufferLength s \<and> (\<forall>c \<in> set (cl_line s). printable c)"

definition cl_hist_ok :: "'f cmdline \<Rightarrow> bool" where
  "cl_hist_ok s \<longleftrightarrow>
     length (CmdlineHistory s) = CMDLINE_HISTORYSIZE \<and> (\<forall>r \<in> set (CmdlineHistory s). row_ok r) \<and>
     unat (CmdlineHistoryCnt s) \<le> CMDLINE_HISTORYSIZE \<and>
     (CmdlineHistoryCnt s = 0 \<longrightarrow> cstr (CmdlineHistory s ! 0) = [])"

definition cl_idx_ok :: "'f cmdline \<Rightarrow> bool" where
  "cl_idx_ok s \<longleftrightarrow>
     - 1 \<le> sint (CmdlineHistoryIdx s) \<and>
     sint (CmdlineHistoryIdx s) < max 1 (uint (CmdlineHistoryCnt s)) \<and>
     (CmdlineHistoryCopy s = 0 \<and> cl_line s \<noteq> [] \<longrightarrow>
        0 \<le> sint (CmdlineHistoryIdx s) \<and> 0 < CmdlineHistoryCnt s)"

definition cl_cmds_ok :: "'f cmdline \<Rightarrow> bool" where
  "cl_cmds_ok s \<longleftrightarrow>
     length (CmdlineCommandList s) = CMDLINE_MAX_COMMANDS \<and>
     length (CmdlineFunctionList s) = CMDLINE_MAX_COMMANDS \<and>
     unat (CmdlineNumCommands s) \<le> CMDLINE_MAX_COMMANDS \<and>
     (\<forall>r \<in> set (CmdlineCommandList s). length r = CMDLINE_MAX_CMD_LENGTH \<and> 0 \<in> set r)"

definition cl_ok :: "'f cmdline \<Rightarrow> bool" where
  "cl_ok s \<longleftrightarrow> cl_line_ok s \<and> cl_hist_ok s \<and> cl_idx_ok s \<and> cl_cmds_ok s \<and>
     unat (CmdlineInputVT100State s) \<le> 2"

definition cl_abs :: "'f cmdline \<Rightarrow> 'f editor" where
  "cl_abs s =
     \<lparr>ed_line = cl_line s, ed_pos = unat (CmdlineBufferEditPos s),
      ed_vt = unat (CmdlineInputVT100State s),
      ed_hist = take (unat (CmdlineHistoryCnt s)) (map cstr (CmdlineHistory s)),
      ed_idx = sint (CmdlineHistoryIdx s), ed_edited = (CmdlineHistoryCopy s \<noteq> 0),
      ed_cmds = take (unat (CmdlineNumCommands s))
                  (zip (map cstr (CmdlineCommandList s)) (CmdlineFunctionList s)),
      ed_exec = CmdlineExecFunction s\<rparr>"

text \<open>The simulation relation of one step: safe, invariant kept, output as specified.\<close>

definition cl_sim :: "'f cmdline \<Rightarrow> 'f cmdline option \<Rightarrow> 'f editor \<times> u8 list \<Rightarrow> bool" where
  "cl_sim s r eo \<longleftrightarrow>
     (case r of None \<Rightarrow> False
      | Some s' \<Rightarrow> cl_ok s' \<and> cl_abs s' = fst eo \<and> cmdline_out s' = cmdline_out s @ snd eo)"

lemmas cl_defs = cl_ok_def cl_line_ok_def cl_hist_ok_def cl_idx_ok_def cl_cmds_ok_def

lemma cl_lengths:
  assumes "cl_ok s"
  shows "length (cl_line s) = unat (CmdlineBufferLength s)"
    and "unat (CmdlineBufferLength s) \<le> 48" "length (CmdlineBuffer s) = 50"
    and "unat (CmdlineBufferEditPos s) \<le> unat (CmdlineBufferLength s)"
  using assms by (auto simp: cl_defs cl_line_def ascii word_le_nat_alt)

lemma u8_Suc: "unat (w :: u8) \<le> 254 \<Longrightarrow> unat (w + 1) = unat w + 1"
  by (rule unat_Suc_small) simp

lemma cmdlineRepaint_eq:
  assumes "unat (CmdlineBufferLength s) \<le> length (CmdlineBuffer s)"
  shows "cmdlineRepaint s = Some (cmdlineOutputFunc (ed_repaint (cl_line s)) s)"
  using assms
  by (simp add: cmdlineRepaint_def Let_def cmdlineOutputFunc_def cmdlinePrintPrompt_def
      read_bytes_def ed_repaint_def cl_line_def)

text \<open>A step that only moves the cursor, edits the line or talks keeps the rest.\<close>

definition cl_frame :: "'f cmdline \<Rightarrow> 'f cmdline \<Rightarrow> bool" where
  "cl_frame s s' \<longleftrightarrow>
     CmdlineCommandList s' = CmdlineCommandList s \<and> CmdlineFunctionList s' = CmdlineFunctionList s \<and>
     CmdlineNumCommands s' = CmdlineNumCommands s \<and>
     CmdlineInputVT100State s' = CmdlineInputVT100State s \<and> CmdlineHistory s' = CmdlineHistory s \<and>
     CmdlineHistoryIdx s' = CmdlineHistoryIdx s \<and> CmdlineHistoryCnt s' = CmdlineHistoryCnt s \<and>
     CmdlineExecFunction s' = CmdlineExecFunction s"

lemma sim_line:
  assumes "cl_ok s" "cl_frame s s'" "length (CmdlineBuffer s') = 50"
    and "unat (CmdlineBufferLength s') \<le> 48" "CmdlineBufferEditPos s' \<le> CmdlineBufferLength s'"
    and "\<forall>c \<in> set (cl_line s'). printable c"
    and "CmdlineHistoryCopy s' = 0 \<Longrightarrow>
           CmdlineHistoryCopy s = 0 \<and> (cl_line s' \<noteq> [] \<longrightarrow> cl_line s \<noteq> [])"
    and "fst eo = cl_abs s\<lparr>ed_line := cl_line s', ed_pos := unat (CmdlineBufferEditPos s'),
                          ed_edited := (CmdlineHistoryCopy s' \<noteq> 0)\<rparr>"
    and "cmdline_out s' = cmdline_out s @ snd eo"
  shows "cl_sim s (Some s') eo"
  using assms
  by (auto simp: cl_sim_def cl_abs_def cl_defs ascii cl_frame_def)

lemma sim_same:
  assumes "cl_ok s"
  shows "cl_sim s (Some (cmdlineOutputFunc out s)) (cl_abs s, out)"
  using assms by (auto simp: cl_sim_def cl_abs_def cl_defs cl_line_def cmdlineOutputFunc_def)

section \<open>Each key refines the editor\<close>

lemma cl_abs_sel [simp]:
  "ed_line (cl_abs s) = cl_line s" "ed_pos (cl_abs s) = unat (CmdlineBufferEditPos s)"
  "ed_vt (cl_abs s) = unat (CmdlineInputVT100State s)" "ed_idx (cl_abs s) = sint (CmdlineHistoryIdx s)"
  "ed_edited (cl_abs s) = (CmdlineHistoryCopy s \<noteq> 0)" "ed_exec (cl_abs s) = CmdlineExecFunction s"
  by (simp_all add: cl_abs_def)

lemma cl_abs_line [simp]:
  "cl_line s' = cl_line s \<Longrightarrow> cl_abs s\<lparr>ed_line := cl_line s', ed_pos := unat (CmdlineBufferEditPos s),
     ed_edited := (CmdlineHistoryCopy s \<noteq> 0)\<rparr> = cl_abs s"
  by (simp add: cl_abs_def)

lemma sim_insert:
  assumes "cl_ok s" "printable c"
  shows "cl_sim s (cmdlinePrintable c s) (ed_insert c (cl_abs s))"
proof -
  note len = cl_lengths [OF assms(1)]
  define n where "n = unat (CmdlineBufferLength s)"
  define p where "p = unat (CmdlineBufferEditPos s)"
  define l where "l = take p (cl_line s) @ c # drop p (cl_line s)"
  have pr: "\<forall>c \<in> set l. printable c"
    using assms by (auto simp: cl_defs l_def dest: in_set_takeD in_set_dropD)
  have le: "CmdlineBufferEditPos s + 1 \<le> CmdlineBufferLength s + 1"
    using len by (simp add: word_le_nat_alt u8_Suc)
  have u: "unat (CmdlineBufferLength s + 1) = n + 1" "unat (CmdlineBufferEditPos s + 1) = p + 1"
    using len by (simp_all add: u8_Suc n_def p_def)
  show ?thesis
  proof (cases "n < 48")
    case False
    then show ?thesis
      using sim_same [OF assms(1)] len
      by (simp add: cmdlinePrintable_def ed_insert_def Let_def n_def ascii)
  next
    case room: True
    have goal: "cl_sim s (Some s') (ed_insert c (cl_abs s))"
      if "length (CmdlineBuffer s') = 50" "take (Suc n) (CmdlineBuffer s') = l" "cl_frame s s'"
        "CmdlineBufferLength s' = CmdlineBufferLength s + 1" "CmdlineHistoryCopy s' = 1"
        "CmdlineBufferEditPos s' = CmdlineBufferEditPos s + 1"
        "cmdline_out s' = cmdline_out s @ snd (ed_insert c (cl_abs s))" for s'
      using that pr room u len le
      by (intro sim_line [OF assms(1)])
        (simp_all add: ed_insert_def Let_def ascii l_def n_def p_def cl_line_def [of s'])
    show ?thesis
    proof (cases "CmdlineBufferEditPos s = CmdlineBufferLength s")
      case True
      have "take (Suc n) ((CmdlineBuffer s)[n := c]) = l"
        using len True take_update_shift [of n "CmdlineBuffer s" c]
        by (simp add: l_def n_def p_def cl_line_def)
      then show ?thesis
        using len True room
        by (simp add: cmdlinePrintable_def Let_def array_simps n_def p_def ascii)
          (rule goal; simp add: n_def ascii cmdlineOutputFunc_def ed_insert_def cl_frame_def)
    next
      case False
      then have pn: "p < n" using len by (auto simp: n_def p_def word_unat_eq_iff)
      obtain buf where buf: "ins_shift (Suc n) p (CmdlineBuffer s) = Some buf" "length buf = 50"
          "take (Suc (Suc n)) (buf[p := c]) = take p (CmdlineBuffer s) @ c # drop p (take (Suc n) (CmdlineBuffer s))"
        using ins_shift_insert [of p "Suc n" "CmdlineBuffer s" c] pn room len by auto
      have "take (Suc n) (buf[p := c]) = take (Suc n) (take (Suc (Suc n)) (buf[p := c]))" by simp
      also have "\<dots> = l"
        using pn len room unfolding buf(3)
        by (simp add: l_def n_def p_def cl_line_def min_def take_Cons' drop_take)
      finally have "take (Suc n) (buf[p := c]) = l" .
      then show ?thesis
        using len False room buf u pn
        by (simp add: cmdlinePrintable_def Let_def array_simps n_def p_def ascii cmdlineRepaint_eq)
          (rule goal; simp add: n_def ascii cmdlineOutputFunc_def ed_insert_def cl_frame_def
            cl_line_def l_def p_def Let_def)
    qed
  qed
qed

lemma sim_delete:
  assumes "cl_ok s"
  shows "cl_sim s (cmdlineDelete s) (ed_delete (cl_abs s))"
proof (cases "CmdlineBufferEditPos s = 0")
  case True
  then show ?thesis
    using sim_same [OF assms] by (simp add: cmdlineDelete_def ed_delete_def Let_def)
next
  case pos: False
  note len = cl_lengths [OF assms]
  define n where "n = unat (CmdlineBufferLength s)"
  define p where "p = unat (CmdlineBufferEditPos s)"
  have p: "0 < p" "p \<le> n" using pos len by (auto simp: n_def p_def unat_gt_0)
  have u: "unat (CmdlineBufferLength s - 1) = n - 1" "unat (CmdlineBufferEditPos s - 1) = p - 1"
    using p by (simp_all add: unat_pred_pos n_def p_def)
  have goal: "cl_sim s (Some s') (ed_delete (cl_abs s))"
    if "length (CmdlineBuffer s') = 50" "cl_frame s s'"
      "take (n - 1) (CmdlineBuffer s') = take (p - 1) (cl_line s) @ drop p (cl_line s)"
      "CmdlineBufferLength s' = CmdlineBufferLength s - 1"
      "CmdlineHistoryCopy s' = CmdlineHistoryCopy s"
      "CmdlineBufferEditPos s' = CmdlineBufferEditPos s - 1"
      "cmdline_out s' = cmdline_out s @ snd (ed_delete (cl_abs s))" for s'
    using that u len assms pos p
    by (intro sim_line [OF assms])
      (auto simp: ed_delete_def Let_def n_def p_def cl_line_def [of s'] word_le_nat_alt cl_defs
        dest: in_set_takeD in_set_dropD)
  show ?thesis
  proof (cases "CmdlineBufferEditPos s = CmdlineBufferLength s")
    case True
    have "take (n - 1) (CmdlineBuffer s) = take (p - 1) (cl_line s) @ drop p (cl_line s)"
      using True len p by (simp add: n_def p_def cl_line_def min_def)
    with pos True len show ?thesis
      by (simp add: cmdlineDelete_def Let_def)
        (rule goal; simp add: cmdlineOutputFunc_def cl_frame_def ed_delete_def Let_def unat_gt_0)
  next
    case False
    then have pn: "p < n" using len by (auto simp: n_def p_def word_unat_eq_iff)
    obtain buf where buf: "del_shift (p - 1) (n - 1) (CmdlineBuffer s) = Some buf" "length buf = 50"
        "take (n - 1) buf = take (p - 1) (CmdlineBuffer s) @ drop p (take n (CmdlineBuffer s))"
    proof (rule del_shift_delete [of "p - 1" "n - 1" "CmdlineBuffer s"])
      show "n - 1 < length (CmdlineBuffer s)" using len by (simp add: n_def)
    qed (use p pn len in auto)
    have "take (n - 1) buf = take (p - 1) (cl_line s) @ drop p (cl_line s)"
      using buf(3) pn min.absorb1 [of "p - 1" n] by (simp add: cl_line_def n_def)
    with pos False len buf u p pn show ?thesis
      by (simp add: cmdlineDelete_def Let_def cmdlineRepaint_eq n_def)
        (rule goal; simp add: cmdlineOutputFunc_def cl_frame_def ed_delete_def Let_def
          cl_line_def n_def p_def)
  qed
qed

lemma take_cstr [simp]: "take (length (cstr xs)) xs = cstr xs"
  by (simp add: cstr_def takeWhile_eq_take [symmetric])

lemma sint_u8_of_int: "- 128 \<le> k \<Longrightarrow> k < 128 \<Longrightarrow> sint (of_int k :: u8) = k"
  by (simp add: signed_of_int signed_take_bit_int_eq_self)

lemma sint_u8_add:
  fixes w :: u8
  assumes "- 128 \<le> sint w + k" "sint w + k < 128"
  shows "sint (w + of_int k) = sint w + k"
  using sint_u8_of_int [OF assms] by simp

text \<open>The 8-bit index arithmetic of a recall does not wrap: it is the clamped step.\<close>

lemma recall_index:
  fixes w cnt :: u8 and nxt :: bool
  assumes "- 1 \<le> sint w" "sint w < 10" "uint cnt \<le> 10"
  defines "w1 \<equiv> (if nxt then w - 2 else w) + 1"
  defines "w2 \<equiv> (if uint cnt - 1 \<le> sint w1 then of_int (uint cnt - 1) else w1)"
  defines "i \<equiv> max 0 (min (sint w + (if nxt then - 1 else 1)) (uint cnt - 1))"
  shows "(if sint w2 < 0 then 0 else w2) = of_int i"
    and "sint (of_int i :: u8) = i" "0 \<le> i" "i < 10" "i < max 1 (uint cnt)"
proof -
  have cnt: "0 \<le> uint cnt" by simp
  show i: "0 \<le> i" "i < 10" "i < max 1 (uint cnt)" unfolding i_def max_def min_def
    using assms(1-3) cnt by (simp_all split: if_split)
  have "sint w1 = sint w + (if nxt then - 1 else 1)"
    using sint_u8_add [of w "- 1"] sint_u8_add [of w 1] assms(1,2) by (simp add: w1_def)
  moreover have "sint (of_int (uint cnt - 1) :: u8) = uint cnt - 1"
    using assms(3) cnt by (intro sint_u8_of_int) linarith+
  ultimately have w2: "sint w2 = min (sint w + (if nxt then - 1 else 1)) (uint cnt - 1)"
    unfolding w2_def by (simp only: min_def split: if_split) linarith
  show eq: "(if sint w2 < 0 then 0 else w2) = of_int i"
  proof (cases "sint w2 < 0")
    case False
    then have "i = sint w2" using w2 by (simp only: i_def)
    with False show ?thesis by simp
  next
    case True
    then have "i = 0" using w2 by (simp only: i_def)
    with True show ?thesis by simp
  qed
  show "sint (of_int i :: u8) = i"
    using i by (intro sint_u8_of_int) linarith+
qed

lemma cnt_bounds:
  assumes "cl_ok s"
  shows "0 \<le> uint (CmdlineHistoryCnt s)" "uint (CmdlineHistoryCnt s) \<le> 10"
    "unat (CmdlineHistoryCnt s) \<le> length (CmdlineHistory s)" "length (CmdlineHistory s) = 10"
    "- 1 \<le> sint (CmdlineHistoryIdx s)" "sint (CmdlineHistoryIdx s) < 10"
proof -
  have n: "unat (CmdlineHistoryCnt s) \<le> 10" "length (CmdlineHistory s) = 10"
    using assms by (simp_all add: cl_ok_def cl_hist_ok_def ascii)
  moreover have "int (unat (CmdlineHistoryCnt s)) = uint (CmdlineHistoryCnt s)" by simp
  ultimately show cnt: "0 \<le> uint (CmdlineHistoryCnt s)" "uint (CmdlineHistoryCnt s) \<le> 10" by linarith+
  show "unat (CmdlineHistoryCnt s) \<le> length (CmdlineHistory s)" "length (CmdlineHistory s) = 10"
    using n by simp_all
  show "- 1 \<le> sint (CmdlineHistoryIdx s)" "sint (CmdlineHistoryIdx s) < 10"
    using assms cnt by (auto simp add: cl_ok_def cl_idx_ok_def)
qed

text \<open>Copying the saved line at an index the recall may reach: the first one when nothing is saved.\<close>

lemma recalled_row:
  assumes "cl_ok s" "0 \<le> i" "i < max 1 (uint (CmdlineHistoryCnt s))"
  obtains buf where "c_strcpy (CmdlineBuffer s) (CmdlineHistory s ! nat i) = Some buf" "row_ok buf"
    "nat i < length (CmdlineHistory s)"
    "cstr buf = (if CmdlineHistoryCnt s = 0 then [] else ed_hist (cl_abs s) ! nat i)"
proof -
  note cnt = cnt_bounds [OF assms(1)]
  have i: "nat i < length (CmdlineHistory s)" using assms(2,3) cnt by linarith
  then have "row_ok (CmdlineHistory s ! nat i)" "length (CmdlineBuffer s) = CMDLINE_BUFFERSIZE"
    using assms(1) by (simp_all add: cl_ok_def cl_hist_ok_def cl_line_ok_def)
  then obtain buf where buf: "c_strcpy (CmdlineBuffer s) (CmdlineHistory s ! nat i) = Some buf"
      "row_ok buf" "cstr buf = cstr (CmdlineHistory s ! nat i)"
    using row_copy by metis
  have "cstr buf = (if CmdlineHistoryCnt s = 0 then [] else ed_hist (cl_abs s) ! nat i)"
  proof (cases "CmdlineHistoryCnt s = 0")
    case True
    then have "i = 0" using assms(2,3) by simp
    then show ?thesis using True assms(1) buf(3) by (simp add: cl_ok_def cl_hist_ok_def)
  next
    case False
    moreover have "int (unat (CmdlineHistoryCnt s)) = uint (CmdlineHistoryCnt s)" by simp
    moreover have "uint (CmdlineHistoryCnt s) \<noteq> 0" using False by (simp add: word_uint_eq_iff)
    ultimately have "nat i < unat (CmdlineHistoryCnt s)" using assms(2,3) cnt(1) by linarith
    then show ?thesis using False buf(3) i by (simp add: cl_abs_def)
  qed
  with buf(1,2) i show ?thesis by (rule that)
qed

lemma sim_recall:
  assumes "cl_ok s"
  shows "cl_sim s (cmdlineHistoryRecall nxt s) (ed_recall (if nxt then - 1 else 1) (cl_abs s))"
proof -
  define cnt where "cnt = uint (CmdlineHistoryCnt s)"
  define i where "i = max 0 (min (sint (CmdlineHistoryIdx s) + (if nxt then - 1 else 1)) (cnt - 1))"
  note cnt = cnt_bounds [OF assms, folded cnt_def]
  note ix = recall_index [OF cnt(5,6), of "CmdlineHistoryCnt s" nxt, folded cnt_def, folded i_def, OF cnt(2)]
  have i: "0 \<le> i" "i < max 1 cnt" using cnt(1) by (auto simp: i_def)
  obtain buf where buf: "c_strcpy (CmdlineBuffer s) (CmdlineHistory s ! nat i) = Some buf" "row_ok buf"
      "nat i < length (CmdlineHistory s)"
      "cstr buf = (if CmdlineHistoryCnt s = 0 then [] else ed_hist (cl_abs s) ! nat i)"
    using recalled_row [OF assms i [unfolded cnt_def]] by metis
  define n where "n = length (cstr buf)"
  have n: "c_strlen buf = Some n" "n \<le> 48" "take n buf = cstr buf" "length buf = 50"
      "unat (of_nat n :: u8) = n" "\<forall>c \<in> set (cstr buf). printable c"
    using buf(2) by (simp_all add: row_ok_def ascii cstring_simps n_def unat_of_nat_eq_small)
  define s' where "s' = (cmdlineOutputFunc (ed_repaint (cstr buf)) (s\<lparr>CmdlineHistoryIdx := of_int i,
      CmdlineBuffer := buf, CmdlineBufferLength := of_nat n, CmdlineBufferEditPos := of_nat n\<rparr>))
      \<lparr>CmdlineHistoryCopy := 0\<rparr>"
  have s': "cmdlineHistoryRecall nxt s = Some s'"
    unfolding cmdlineHistoryRecall_def Let_def cnt_def [symmetric] ix(1) ix(2)
    using n buf(1,3) by (simp add: array_simps cmdlineRepaint_eq s'_def cl_line_def)
  have out: "cmdline_out s' = cmdline_out s @ ed_repaint (cstr buf)" "cl_line s' = cstr buf"
      "sint (CmdlineHistoryIdx s') = i" "CmdlineHistoryCnt s' = CmdlineHistoryCnt s"
    using n ix(2) by (simp_all add: s'_def cmdlineOutputFunc_def cl_line_def)
  have "cl_idx_ok s'"
    using i buf(4) out by (auto simp: cl_idx_ok_def cnt_def word_neq_0_conv split: if_splits)
  then have "cl_ok s'"
    using assms n out by (simp add: cl_ok_def cl_line_ok_def cl_hist_ok_def cl_cmds_ok_def s'_def
        cmdlineOutputFunc_def ascii)
  moreover have "ed_recall (if nxt then - 1 else 1) (cl_abs s) =
      (cl_abs s\<lparr>ed_line := cstr buf, ed_pos := n, ed_idx := i, ed_edited := False\<rparr>, ed_repaint (cstr buf))"
  proof -
    have "int (length (ed_hist (cl_abs s))) = cnt" "ed_hist (cl_abs s) = [] \<longleftrightarrow> CmdlineHistoryCnt s = 0"
      using cnt(3,4) by (auto simp: cl_abs_def min_def cnt_def word_unat_eq_iff)
    then show ?thesis using buf(4) by (simp add: ed_recall_def Let_def i_def n_def)
  qed
  moreover have "cl_abs s' = cl_abs s\<lparr>ed_line := cstr buf, ed_pos := n, ed_idx := i, ed_edited := False\<rparr>"
    using out n(5) by (simp add: cl_abs_def s'_def cmdlineOutputFunc_def)
  ultimately show ?thesis using out(1) by (simp add: s' cl_sim_def)
qed

text \<open>Saving a line: the abstract history is the specified one.\<close>

lemma take_rotate:
  assumes "i < n" "n \<le> length xs"
  shows "take n (x # take i xs @ drop (Suc i) xs) = x # take i (take n xs) @ drop (Suc i) (take n xs)"
proof -
  obtain m where m: "n = Suc m" "i \<le> m" using assms(1) by (cases n) auto
  then show ?thesis
    using assms(2) by (cases "i = m") (auto simp: drop_take min_def)
qed

lemma cnt_clamp:
  fixes c :: u8
  assumes "unat c \<le> 10"
  defines "d \<equiv> (if c \<ge> of_nat CMDLINE_HISTORYSIZE then of_nat (CMDLINE_HISTORYSIZE - 1) else c)"
  shows "unat d = min 9 (unat c)" "unat (d + 1) = unat d + 1" "uint d = int (unat d)"
proof -
  show "unat d = min 9 (unat c)"
    using assms by (auto simp: ascii word_le_nat_alt)
  then show "unat (d + 1) = unat d + 1" by (intro u8_Suc) simp
  show "uint d = int (unat d)" by simp
qed

lemma save_history:
  assumes h: "cl_hist_ok s" and buf: "row_ok (CmdlineBuffer s)"
    and idx: "CmdlineHistoryCopy s = 0 \<Longrightarrow> cstr (CmdlineBuffer s) \<noteq> [] \<Longrightarrow>
       0 \<le> sint (CmdlineHistoryIdx s) \<and> nat (sint (CmdlineHistoryIdx s)) < unat (CmdlineHistoryCnt s)"
    and e: "ed_line e = cstr (CmdlineBuffer s)" "ed_idx e = sint (CmdlineHistoryIdx s)"
      "ed_hist e = take (unat (CmdlineHistoryCnt s)) (map cstr (CmdlineHistory s))"
      "ed_edited e = (CmdlineHistoryCopy s \<noteq> 0)"
  obtains H c where
    "cmdlineHistorySave s = Some (s\<lparr>CmdlineHistoryCnt := c, CmdlineHistory := H\<rparr>)"
    "cl_hist_ok (s\<lparr>CmdlineHistoryCnt := c, CmdlineHistory := H\<rparr>)"
    "take (unat c) (map cstr H) = ed_save e"
proof -
  have len: "c_strlen (CmdlineBuffer s) = Some (length (ed_line e))"
    using buf e by (simp add: row_ok_def cstring_simps)
  have hs: "length (CmdlineHistory s) = 10" "\<forall>r \<in> set (CmdlineHistory s). row_ok r"
      "unat (CmdlineHistoryCnt s) \<le> 10"
    using h by (simp_all add: cl_hist_ok_def ascii)
  show ?thesis
  proof (cases "ed_line e = []")
    case True
    then show ?thesis
      using that [of "CmdlineHistory s" "CmdlineHistoryCnt s"] h e len
      by (simp add: cmdlineHistorySave_def ed_save_def)
  next
    case line: False
    define d where "d = (if CmdlineHistoryCnt s \<ge> of_nat CMDLINE_HISTORYSIZE
        then of_nat (CMDLINE_HISTORYSIZE - 1) else CmdlineHistoryCnt s)"
    note d = cnt_clamp [OF hs(3), folded d_def]
    define i where "i = (if CmdlineHistoryCopy s \<noteq> 0 then unat d else nat (sint (CmdlineHistoryIdx s)))"
    define c where "c = (if CmdlineHistoryCopy s \<noteq> 0 then d + 1 else CmdlineHistoryCnt s)"
    have i: "i < length (CmdlineHistory s)" "unat c \<le> 10" "i < unat c"
      using d idx line e hs by (auto simp: i_def c_def)
    obtain H r where H: "hist_shift i (CmdlineHistory s) = Some H" "H \<noteq> []"
        "c_strcpy (H ! 0) (CmdlineBuffer s) = Some r" "length H = length (CmdlineHistory s)"
        "\<forall>r \<in> set (H[0 := r]). row_ok r"
        "map cstr (H[0 := r]) = cstr (CmdlineBuffer s) # take i (map cstr (CmdlineHistory s)) @
           drop (Suc i) (map cstr (CmdlineHistory s))"
      using hist_shift_strings [OF i(1) hs(2) buf] by metis
    show ?thesis
    proof (rule that [of "H[0 := r]" c])
      show "cmdlineHistorySave s = Some (s\<lparr>CmdlineHistoryCnt := c, CmdlineHistory := H[0 := r]\<rparr>)"
        using len line H(1-3) d(3)
        by (cases "CmdlineHistoryCopy s = 0")
          (simp_all add: cmdlineHistorySave_def array_simps i_def c_def flip: d_def)
      show "cl_hist_ok (s\<lparr>CmdlineHistoryCnt := c, CmdlineHistory := H[0 := r]\<rparr>)"
        using H(4,5) hs(1) i(2,3) by (auto simp: cl_hist_ok_def ascii)
      have "take (unat c) (cstr (CmdlineBuffer s) # take i (map cstr (CmdlineHistory s)) @
           drop (Suc i) (map cstr (CmdlineHistory s))) = ed_save e"
      proof (cases "CmdlineHistoryCopy s = 0")
        case True
        then show ?thesis
          using take_rotate [of i "unat c" "map cstr (CmdlineHistory s)"] i hs line e
          by (simp add: ed_save_def i_def c_def)
      next
        case False
        then show ?thesis
          using d i hs line e by (simp add: ed_save_def i_def c_def ascii min_def)
      qed
      then show "take (unat c) (map cstr (H[0 := r])) = ed_save e" by (simp only: H(6))
    qed
  qed
qed

text \<open>The lookup loop finds what the list search finds.\<close>

lemma find_cmd_eq:
  assumes "k + n \<le> length cmds" "length funs = length cmds" "\<forall>r \<in> set cmds. 0 \<in> set r"
    and "length w \<le> length buf" "take (length w) buf = w" "0 \<notin> set w"
  shows "\<exists>m. find_cmd cmds buf (length w) k n = Some m \<and>
     map_option (\<lambda>i. (cstr (cmds ! i), funs ! i)) m =
       ed_lookup w (take n (drop k (zip (map cstr cmds) funs))) \<and> (\<forall>i. m = Some i \<longrightarrow> i < length cmds)"
  using assms(1)
proof (induction n arbitrary: k)
  case 0
  then show ?case by (simp add: ed_lookup_def)
next
  case (Suc n)
  have k: "k < length cmds" using Suc.prems by simp
  have "0 \<in> set (cmds ! k)" using assms(3) k by simp
  then obtain r where r: "c_strncmp (cmds ! k) buf (length w) = Some r"
      "r = 0 \<longleftrightarrow> take (length w) (cstr (cmds ! k)) = w"
    using c_strncmp_prefix [of "cmds ! k" "length w" buf] assms(4-6) by auto
  have z: "take (Suc n) (drop k (zip (map cstr cmds) funs)) =
      (cstr (cmds ! k), funs ! k) # take n (drop (Suc k) (zip (map cstr cmds) funs))"
    using k assms(2) by (subst Cons_nth_drop_Suc [symmetric]) auto
  show ?case
  proof (cases "r = 0")
    case True
    then show ?thesis using r k z by (simp add: array_simps ed_lookup_def)
  next
    case False
    then show ?thesis using r k z Suc.IH [of "Suc k"] Suc.prems by (simp add: array_simps ed_lookup_def)
  qed
qed

text \<open>The command word of a terminated line.\<close>

lemma scan_word:
  assumes "0 \<in> set buf"
  shows "scan_to is_word_end buf 0 = Some (length (ed_word (cstr buf)))"
    and "take (length (ed_word (cstr buf))) buf = ed_word (cstr buf)"
proof -
  define w where "w = ed_word (cstr buf)"
  have w: "w = takeWhile (\<lambda>c. \<not> is_word_end c) buf"
    by (simp add: w_def ed_word_def cstr_def is_word_end_def takeWhile_takeWhile conj_commute)
  have "dropWhile (\<lambda>c. \<not> is_word_end c) buf \<noteq> []"
    using assms by (auto simp: dropWhile_eq_Nil_conv is_word_end_def)
  then obtain y ys where y: "dropWhile (\<lambda>c. \<not> is_word_end c) buf = y # ys" "is_word_end y"
    by (metis hd_dropWhile list.collapse list.sel(1))
  have buf: "buf = w @ y # ys"
    using takeWhile_dropWhile_id [of "\<lambda>c. \<not> is_word_end c" buf] y(1) by (simp add: w)
  have "\<not> is_word_end c" if "c \<in> set w" for c
    using that by (auto simp: w dest: set_takeWhileD)
  from scan_to_append [of w is_word_end y "[]" ys, OF this y(2)]
  show "scan_to is_word_end buf 0 = Some (length (ed_word (cstr buf)))"
    unfolding w_def [symmetric] by (simp flip: buf)
  show "take (length (ed_word (cstr buf))) buf = ed_word (cstr buf)"
    unfolding w_def [symmetric] by (simp add: buf)
qed

lemma cl_abs_exec:
  "cl_abs s\<lparr>ed_line := l, ed_pos := p, ed_hist := h, ed_idx := i, ed_edited := b,
     ed_exec := CmdlineExecFunction s\<rparr> =
   cl_abs s\<lparr>ed_line := l, ed_pos := p, ed_hist := h, ed_idx := i, ed_edited := b\<rparr>"
  by (simp add: cl_abs_def)

text \<open>
  Entering the line, in steps: the terminated buffer holds the line as a C string, the history
  index points to a saved line when the line was recalled, the search finds the command the
  specification looks up, and the state after the reset of the line matches the specified one.
\<close>

lemma terminated_buffer:
  assumes "cl_ok s"
  defines "buf \<equiv> (CmdlineBuffer s)[unat (CmdlineBufferLength s) := 0]"
  shows "cstr buf = cl_line s" "0 \<in> set buf" "length buf = 50" "row_ok buf"
proof -
  note len = cl_lengths [OF assms(1)]
  have pr: "\<forall>c \<in> set (cl_line s). printable c"
    using assms(1) by (simp add: cl_ok_def cl_line_ok_def)
  have split: "buf = cl_line s @ 0 # drop (Suc (unat (CmdlineBufferLength s))) (CmdlineBuffer s)"
    using len by (simp add: buf_def cl_line_def upd_conv_take_nth_drop)
  show cbuf: "cstr buf = cl_line s"
    unfolding split by (rule cstr_append) (use pr printable_not_nul in blast)
  show nul: "0 \<in> set buf" "length buf = 50"
    using len by (simp add: split, simp add: buf_def)
  show "row_ok buf" using nul cbuf pr len by (simp add: row_ok_def ascii)
qed

lemma recalled_index:
  assumes "cl_ok s" "CmdlineHistoryCopy s = 0" "cl_line s \<noteq> []"
  shows "0 \<le> sint (CmdlineHistoryIdx s) \<and> nat (sint (CmdlineHistoryIdx s)) < unat (CmdlineHistoryCnt s)"
proof -
  have "0 \<le> sint (CmdlineHistoryIdx s)" "0 < unat (CmdlineHistoryCnt s)"
      "sint (CmdlineHistoryIdx s) < max 1 (uint (CmdlineHistoryCnt s))"
    using assms by (auto simp: cl_ok_def cl_idx_ok_def word_less_nat_alt)
  moreover have "int (unat (CmdlineHistoryCnt s)) = uint (CmdlineHistoryCnt s)" by simp
  ultimately show ?thesis by linarith
qed

lemma enter_word:
  assumes "cl_ok s" "0 \<in> set buf" "cstr buf = cl_line s"
  defines "w \<equiv> ed_word (cl_line s)"
  obtains m where "scan_to is_word_end buf 0 = Some (length w)" "take (length w) buf = w"
    "find_cmd (CmdlineCommandList s) buf (length w) 0 (unat (CmdlineNumCommands s)) = Some m"
    "map_option (\<lambda>i. (cstr (CmdlineCommandList s ! i), CmdlineFunctionList s ! i)) m = ed_lookup w (ed_cmds (cl_abs s))"
    "\<forall>i. m = Some i \<longrightarrow> i < length (CmdlineFunctionList s)"
proof -
  have "\<forall>c \<in> set (cl_line s). printable c" using assms(1) by (simp add: cl_ok_def cl_line_ok_def)
  then have word: "scan_to is_word_end buf 0 = Some (length w)" "take (length w) buf = w" "0 \<notin> set w"
    using scan_word [OF assms(2)]
    by (auto simp: assms(3) w_def ed_word_def dest!: set_takeWhileD printable_not_nul)
  have "length w \<le> length buf"
    using arg_cong [OF word(2), of length] by simp
  then show ?thesis
    using that find_cmd_eq [of 0 "unat (CmdlineNumCommands s)" "CmdlineCommandList s"
        "CmdlineFunctionList s" w buf] assms(1) word
    by (auto simp: cl_ok_def cl_cmds_ok_def cl_abs_def ascii)
qed

lemma enter_done:
  assumes "cl_ok s" "cl_hist_ok s'" "length (CmdlineBuffer s') = 50"
    "take (unat (CmdlineHistoryCnt s')) (map cstr (CmdlineHistory s')) = h"
    "CmdlineCommandList s' = CmdlineCommandList s" "CmdlineFunctionList s' = CmdlineFunctionList s"
    "CmdlineNumCommands s' = CmdlineNumCommands s"
    "CmdlineInputVT100State s' = CmdlineInputVT100State s"
    "CmdlineHistoryCopy s' = 0" "CmdlineHistoryIdx s' = - 1" "CmdlineExecFunction s' = x"
    "CmdlineBufferLength s' = 0" "CmdlineBufferEditPos s' = 0" "cmdline_out s' = cmdline_out s @ out"
  shows "cl_sim s (Some s') (cl_abs s\<lparr>ed_line := [], ed_pos := 0, ed_hist := h,
        ed_idx := - 1, ed_edited := False, ed_exec := x\<rparr>, out)"
  using assms by (simp add: cl_sim_def cl_defs cl_abs_def cl_line_def ascii)

lemma sim_enter:
  assumes "cl_ok s"
  shows "cl_sim s (cmdlineEnter s) (ed_enter (cl_abs s))"
proof -
  define buf where "buf = (CmdlineBuffer s)[unat (CmdlineBufferLength s) := 0]"
  define s1 where "s1 = (cmdlineOutputFunc [ASCII_CR, ASCII_LF] s)
      \<lparr>CmdlineBuffer := buf, CmdlineBufferLength := CmdlineBufferLength s + 1,
       CmdlineBufferEditPos := CmdlineBufferEditPos s + 1\<rparr>"
  note buf = terminated_buffer [OF assms, folded buf_def]
  obtain H c where H: "cmdlineHistorySave s1 = Some (s1\<lparr>CmdlineHistoryCnt := c, CmdlineHistory := H\<rparr>)"
      "cl_hist_ok (s1\<lparr>CmdlineHistoryCnt := c, CmdlineHistory := H\<rparr>)"
      "take (unat c) (map cstr H) = ed_save (cl_abs s)"
    using save_history [of s1 "cl_abs s"] buf(1,4) assms recalled_index [OF assms]
    by (auto simp: s1_def cmdlineOutputFunc_def cl_abs_def cl_ok_def cl_hist_ok_def)
  define w cmds where "w = ed_word (cl_line s)" and "cmds = ed_cmds (cl_abs s)"
  obtain m where m: "scan_to is_word_end buf 0 = Some (length w)" "take (length w) buf = w"
      "find_cmd (CmdlineCommandList s) buf (length w) 0 (unat (CmdlineNumCommands s)) = Some m"
      "map_option (\<lambda>i. (cstr (CmdlineCommandList s ! i), CmdlineFunctionList s ! i)) m = ed_lookup w cmds"
      "\<forall>i. m = Some i \<longrightarrow> i < length (CmdlineFunctionList s)"
    using enter_word [OF assms buf(2,1)] unfolding w_def cmds_def by blast
  have sel: "CmdlineCommandList s1 = CmdlineCommandList s" "CmdlineFunctionList s1 = CmdlineFunctionList s"
      "CmdlineNumCommands s1 = CmdlineNumCommands s" "CmdlineBuffer s1 = buf"
      "CmdlineInputVT100State s1 = CmdlineInputVT100State s"
      "CmdlineExecFunction s1 = CmdlineExecFunction s"
      "cmdline_out s1 = cmdline_out s @ [ASCII_CR, ASCII_LF]"
    by (simp_all add: s1_def cmdlineOutputFunc_def)
  have enter: "cmdlineEnter s = do { s \<leftarrow> (if w = []
      then Some (cmdlinePrintPrompt (s1\<lparr>CmdlineHistoryCnt := c, CmdlineHistory := H\<rparr>))
      else case m of
        Some k \<Rightarrow> do { f \<leftarrow> arr_get (CmdlineFunctionList s) k;
          Some (s1\<lparr>CmdlineHistoryCnt := c, CmdlineHistory := H, CmdlineExecFunction := f\<rparr>) }
      | None \<Rightarrow> do { s \<leftarrow> cmdlinePrintError (s1\<lparr>CmdlineHistoryCnt := c, CmdlineHistory := H\<rparr>);
          Some (cmdlinePrintPrompt s) }); Some (s\<lparr>CmdlineBufferLength := 0,
      CmdlineBufferEditPos := 0, CmdlineHistoryCopy := 0, CmdlineHistoryIdx := - 1\<rparr>) }"
  proof -
    have "cmdlineEnter s = do { s \<leftarrow> cmdlineProcessInputString s1; Some (s\<lparr>CmdlineBufferLength := 0,
        CmdlineBufferEditPos := 0, CmdlineHistoryCopy := 0, CmdlineHistoryIdx := - 1\<rparr>) }"
      using cl_lengths [OF assms] by (simp add: cmdlineEnter_def array_simps s1_def buf_def)
    then show ?thesis
      using H(1) m(1,3)
      by (simp add: cmdlineProcessInputString_def cmdlineDoHistory_def CMDLINE_HISTORY_SAVE_def sel)
  qed
  note goal = enter_done [OF assms, where h = "ed_save (cl_abs s)"]
  note ex = goal [where x = "CmdlineExecFunction s", simplified cl_abs_exec]
  have hist: "cl_hist_ok s'" if "CmdlineHistoryCnt s' = c" "CmdlineHistory s' = H" for s'
    using H(2) that by (simp add: cl_hist_ok_def)
  note fin = sel cmdlineOutputFunc_def cmdlinePrintPrompt_def hist H(3) buf(3)
  consider "w = []" | "w \<noteq> []" "m = None" | k where "w \<noteq> []" "m = Some k" by (cases m) auto
  then show ?thesis
  proof cases
    case 1
    then show ?thesis
      by (simp add: enter ed_enter_def flip: w_def) (rule ex; simp add: fin)
  next
    case 2
    then have "ed_lookup w cmds = None" using m(4) by auto
    then show ?thesis
      using 2 m(1,2)
      by (simp add: enter ed_enter_def cmdlinePrintError_def sel flip: w_def cmds_def) (rule ex; simp add: fin)
  next
    case 3
    then have "ed_lookup w cmds = Some (cstr (CmdlineCommandList s ! k), CmdlineFunctionList s ! k)"
      using m(4) by auto
    then show ?thesis
      using 3 m(5)
      by (simp add: enter ed_enter_def array_simps flip: w_def cmds_def) (rule goal; simp add: fin)
  qed
qed

lemma cl_abs_vt: "cl_abs (s\<lparr>CmdlineInputVT100State := v\<rparr>) = cl_abs s\<lparr>ed_vt := unat v\<rparr>"
  by (simp add: cl_abs_def cl_line_def)

lemma cl_ok_vt: "cl_ok s \<Longrightarrow> unat v \<le> 2 \<Longrightarrow> cl_ok (s\<lparr>CmdlineInputVT100State := v\<rparr>)"
  by (simp add: cl_defs cl_line_def)

lemma sim_vt:
  assumes "cl_sim s (Some s') eo" "unat v \<le> 2"
  shows "cl_sim s (Some (s'\<lparr>CmdlineInputVT100State := v\<rparr>)) ((fst eo)\<lparr>ed_vt := unat v\<rparr>, snd eo)"
  using assms by (simp add: cl_sim_def cl_abs_vt cl_ok_vt)

lemma ed_recall_vt: "ed_recall d (e\<lparr>ed_vt := v\<rparr>) = ((fst (ed_recall d e))\<lparr>ed_vt := v\<rparr>, snd (ed_recall d e))"
  by (simp add: ed_recall_def Let_def)

lemma cl_simD: "cl_sim s r eo \<Longrightarrow> \<exists>s'. r = Some s' \<and> cl_sim s (Some s') eo"
  by (auto simp: cl_sim_def split: option.splits)

lemma sim_arrow:
  assumes "cl_ok s"
  shows "cl_sim s (cmdlineVT100 c s) (ed_arrow c (cl_abs s\<lparr>ed_vt := 0\<rparr>))"
proof -
  note len = cl_lengths [OF assms]
  have recall: "cl_sim s (do { s' \<leftarrow> cmdlineHistoryRecall nxt s; Some (s'\<lparr>CmdlineInputVT100State := 0\<rparr>) })
      (ed_recall (if nxt then - 1 else 1) (cl_abs s\<lparr>ed_vt := 0\<rparr>))" for nxt
    using cl_simD [OF sim_recall [OF assms, of nxt]] sim_vt [of s _ _ 0]
    by (auto simp: ed_recall_vt)
  have same: "cl_sim s (Some ((cmdlineOutputFunc out s)\<lparr>CmdlineInputVT100State := 0\<rparr>))
      (cl_abs s\<lparr>ed_vt := 0\<rparr>, out)" for out
    using sim_vt [OF sim_same [OF assms], of 0] by simp
  have move: "cl_sim s (Some ((cmdlineOutputFunc out (s\<lparr>CmdlineBufferEditPos := p\<rparr>))
      \<lparr>CmdlineInputVT100State := 0\<rparr>)) (cl_abs s\<lparr>ed_vt := 0, ed_pos := unat p\<rparr>, out)"
    if "p \<le> CmdlineBufferLength s" for p out
    using that assms by (simp add: cl_sim_def cl_abs_def cl_defs cl_line_def cmdlineOutputFunc_def)
  have left: "unat (CmdlineBufferEditPos s - 1) = unat (CmdlineBufferEditPos s) - 1"
    if "CmdlineBufferEditPos s \<noteq> 0"
    using that by (simp add: unat_pred_pos unat_gt_0)
  have "CmdlineBufferEditPos s - 1 \<le> CmdlineBufferLength s" if "CmdlineBufferEditPos s \<noteq> 0"
    using that left len by (simp add: word_le_nat_alt)
  note left_move = move [OF this, of "[ASCII_BS]"]
  have lr: "cl_sim s (cmdlineVT100 VT100_ARROWLEFT s) (ed_arrow VT100_ARROWLEFT (cl_abs s\<lparr>ed_vt := 0\<rparr>))"
    using left_move left same [of "[ASCII_BEL]"]
    by (cases "CmdlineBufferEditPos s = 0")
      (simp_all add: cmdlineVT100_def ed_arrow_def ascii unat_eq_0)
  have rr: "cl_sim s (cmdlineVT100 VT100_ARROWRIGHT s) (ed_arrow VT100_ARROWRIGHT (cl_abs s\<lparr>ed_vt := 0\<rparr>))"
    using len same [of "[ASCII_BEL]"]
      move [of "CmdlineBufferEditPos s + 1" "[ASCII_ESC, ASCII_LBRACKET, VT100_ARROWRIGHT]"]
    by (cases "CmdlineBufferEditPos s < CmdlineBufferLength s")
      (simp_all add: cmdlineVT100_def ed_arrow_def ascii word_le_nat_alt word_less_nat_alt u8_Suc)
  show ?thesis
    using recall [of False] recall [of True] same [of "[]"] lr rr
    by (cases "c = VT100_ARROWLEFT"; cases "c = VT100_ARROWRIGHT")
      (auto simp: cmdlineVT100_def ed_arrow_def cmdlineDoHistory_def ascii cmdlineOutputFunc_def)
qed

lemma sim_step:
  assumes "cl_ok s"
  shows "cl_sim s (cmdlineInputFunc c s) (ed_step c (cl_abs s))"
proof -
  define s0 where "s0 = s\<lparr>CmdlineInputVT100State := 0\<rparr>"
  have s0: "cl_ok s0" "cl_abs s0 = cl_abs s\<lparr>ed_vt := 0\<rparr>" "cl_sim s = cl_sim s0"
    using assms by (simp_all add: s0_def cl_ok_vt cl_abs_vt)
      (intro ext, simp add: cl_sim_def split: option.split)
  have vt: "cl_sim s (Some (s\<lparr>CmdlineInputVT100State := v\<rparr>)) (cl_abs s\<lparr>ed_vt := unat v\<rparr>, [])"
    if "unat v \<le> 2" for v
    using that assms by (simp add: cl_sim_def cl_abs_vt cl_ok_vt)
  have st: "unat (CmdlineInputVT100State s) = 2 \<longleftrightarrow> CmdlineInputVT100State s = 2"
      "unat (CmdlineInputVT100State s) = Suc 0 \<longleftrightarrow> CmdlineInputVT100State s = 1"
    by (simp_all add: word_unat_eq_iff)
  have regular: "cl_sim s0 (cmdlineRegular c s0) (if printable c then ed_insert c (cl_abs s0)
      else if c = ASCII_CR then ed_enter (cl_abs s0) else if c = ASCII_DEL then ed_delete (cl_abs s0)
      else if c = ASCII_ESC then (cl_abs s\<lparr>ed_vt := 1\<rparr>, []) else (cl_abs s0, []))"
    using sim_insert [OF s0(1), of c] sim_enter [OF s0(1)] sim_delete [OF s0(1)] vt [of 1]
      sim_same [OF s0(1), of "[]"]
    by (simp add: cmdlineRegular_def printable_def cmdlineOutputFunc_def s0(3)) (simp add: s0_def)
  show ?thesis
  proof (cases "CmdlineInputVT100State s = 2 \<or> CmdlineInputVT100State s = 1 \<and> c = ASCII_LBRACKET")
    case True
    then show ?thesis
      using sim_arrow [OF assms, of c] vt [of 2]
      by (auto simp: cmdlineInputFunc_def ed_step_def Let_def)
  next
    case False
    then have "cmdlineInputFunc c s = cmdlineRegular c s0"
      by (auto simp: cmdlineInputFunc_def s0_def)
    then show ?thesis
      using False regular by (auto simp: ed_step_def Let_def st s0(3) simp flip: s0(2))
  qed
qed

section \<open>Properties\<close>

text \<open>
  Property C5. The character handler refines the list editor: on every well-formed state and for
  every byte it stays inside its arrays, keeps the invariant, makes the specified change and
  sends the specified bytes.
\<close>

theorem cmdline_refines_editor:
  assumes "cl_ok s"
  shows "\<exists>s'. cmdlineInputFunc c s = Some s' \<and> cl_ok s' \<and>
     cl_abs s' = fst (ed_step c (cl_abs s)) \<and>
     cmdline_out s' = cmdline_out s @ snd (ed_step c (cl_abs s))"
  using sim_step [OF assms, of c] by (auto simp: cl_sim_def split: option.splits)

lemma cmdlineInit_ok: "cl_ok (cmdlineInit cmdline_bss)"
  by (simp add: cl_defs cmdlineInit_def cmdline_bss_def cl_line_def ascii row_ok_def cstr_def)

theorem cmdline_refines_editor_witness:
  "\<exists>s'. cmdlineInputFunc 0x68 (cmdlineInit cmdline_bss) = Some (s' :: nat cmdline) \<and>
     ed_line (cl_abs s') = [0x68]"
  using cmdline_refines_editor [OF cmdlineInit_ok, of "0x68"]
  by (auto simp: ed_step_def printable_def ed_insert_def cl_abs_def cmdlineInit_def cmdline_bss_def
      cl_line_def ascii Let_def)

section \<open>The terminal shows the line\<close>

text \<open>
  One row of a VT100 terminal: its cells, the cursor column and the state of the escape
  sequence decoder; the bytes the command line sends are all it has to understand.
\<close>

record vterm =
  vt_row :: "nat \<Rightarrow> u8"
  vt_col :: nat
  vt_esc :: nat

definition vterm_byte :: "u8 \<Rightarrow> vterm \<Rightarrow> vterm" where
  "vterm_byte c t =
     (if vt_esc t = 1 then t\<lparr>vt_esc := (if c = ASCII_LBRACKET then 2 else 0)\<rparr>
      else if vt_esc t = 2 then
        if c = 0x4B then
          t\<lparr>vt_esc := 0, vt_row := (\<lambda>i. if i < vt_col t then vt_row t i else ASCII_SPACE)\<rparr>
        else if c = VT100_ARROWRIGHT then t\<lparr>vt_esc := 0, vt_col := vt_col t + 1\<rparr>
        else t\<lparr>vt_esc := 0\<rparr>
      else if printable c then t\<lparr>vt_row := (vt_row t)(vt_col t := c), vt_col := vt_col t + 1\<rparr>
      else if c = ASCII_CR then t\<lparr>vt_col := 0\<rparr>
      else if c = ASCII_LF then t\<lparr>vt_row := (\<lambda>i. ASCII_SPACE)\<rparr>
      else if c = ASCII_BS then t\<lparr>vt_col := vt_col t - 1\<rparr>
      else if c = ASCII_ESC then t\<lparr>vt_esc := 1\<rparr>
      else t)"

definition vterm_run :: "u8 list \<Rightarrow> vterm \<Rightarrow> vterm" where
  "vterm_run cs t = fold vterm_byte cs t"

definition row_of :: "u8 list \<Rightarrow> nat \<Rightarrow> u8" where
  "row_of l i = (if i < length l then l ! i else ASCII_SPACE)"

definition vt_shows :: "u8 list \<Rightarrow> nat \<Rightarrow> vterm \<Rightarrow> bool" where
  "vt_shows l p t \<longleftrightarrow>
     vt_esc t = 0 \<and> vt_col t = length CmdlinePrompt + p \<and> vt_row t = row_of (CmdlinePrompt @ l)"

lemma vterm_run_simps [simp]:
  "vterm_run [] t = t" "vterm_run (c # cs) t = vterm_run cs (vterm_byte c t)"
  "vterm_run (xs @ ys) t = vterm_run ys (vterm_run xs t)"
  by (simp_all add: vterm_run_def)

lemma printable_codes [simp]:
  "\<not> printable ASCII_CR" "\<not> printable ASCII_LF" "\<not> printable ASCII_BS" "\<not> printable ASCII_ESC"
  "\<not> printable ASCII_BEL" "\<not> printable ASCII_DEL" "printable ASCII_SPACE"
  "printable 0x3A"
  by (simp_all add: printable_def ascii)

lemma prompt_printable: "\<forall>c \<in> set CmdlinePrompt. printable c"
  "\<forall>c \<in> set CmdlineNotice. printable c" "\<forall>c \<in> set CmdlineCmdNotFound. printable c"
  by (simp_all add: CmdlinePrompt_def CmdlineNotice_def CmdlineCmdNotFound_def printable_def)

lemma vterm_print:
  assumes "\<forall>c \<in> set cs. printable c" "vt_esc t = 0"
  shows "vt_esc (vterm_run cs t) = 0 \<and> vt_col (vterm_run cs t) = vt_col t + length cs \<and>
     vt_row (vterm_run cs t) = (\<lambda>i. if vt_col t \<le> i \<and> i < vt_col t + length cs
        then cs ! (i - vt_col t) else vt_row t i)"
  using assms
proof (induction cs arbitrary: t)
  case Nil
  then show ?case by (auto simp: fun_eq_iff)
next
  case (Cons c cs)
  then have "vterm_byte c t = t\<lparr>vt_row := (vt_row t)(vt_col t := c), vt_col := vt_col t + 1\<rparr>"
    by (simp add: vterm_byte_def)
  with Cons show ?case
    by (auto simp: fun_eq_iff nth_Cons')
qed

lemma vterm_back:
  "vt_esc t = 0 \<Longrightarrow> vterm_run (replicate n ASCII_BS) t = t\<lparr>vt_col := vt_col t - n\<rparr>"
  by (induction n arbitrary: t) (simp_all add: vterm_byte_def ascii printable_def)

lemma vterm_clear:
  assumes "vt_esc t = 0"
  defines "t' \<equiv> vterm_run [ASCII_ESC, ASCII_LBRACKET, 0x4B] t"
  shows "vt_esc t' = 0" "vt_col t' = vt_col t"
    and "vt_row t' = (\<lambda>i. if i < vt_col t then vt_row t i else ASCII_SPACE)"
  using assms(1) by (simp_all add: t'_def vterm_byte_def ascii printable_def fun_eq_iff)

lemma vterm_repaint:
  assumes "vt_esc t = 0" "\<forall>c \<in> set l. printable c"
  shows "vt_shows l (length l) (vterm_run (ed_repaint l) t)"
proof -
  define t1 where "t1 = vterm_run CmdlinePrompt (t\<lparr>vt_col := 0\<rparr>)"
  define t2 where "t2 = vterm_run [ASCII_ESC, ASCII_LBRACKET, 0x4B] t1"
  have t1: "vt_esc t1 = 0" "vt_col t1 = length CmdlinePrompt"
      "\<And>i. i < length CmdlinePrompt \<Longrightarrow> vt_row t1 i = CmdlinePrompt ! i"
    using vterm_print [OF prompt_printable(1), of "t\<lparr>vt_col := 0\<rparr>"] assms(1)
    by (simp_all add: t1_def)
  note t2 = vterm_clear [OF t1(1), folded t2_def]
  have "vterm_run (ed_repaint l) t = vterm_run l t2"
    using assms(1) by (simp add: ed_repaint_def t2_def t1_def vterm_byte_def)
  then show ?thesis
    using vterm_print [OF assms(2) t2(1)] t1 t2
    by (auto simp: vt_shows_def fun_eq_iff row_of_def nth_append)
qed

lemma vt_shows_back:
  "vt_shows l p t \<Longrightarrow> n \<le> p \<Longrightarrow> vt_shows l (p - n) (vterm_run (replicate n ASCII_BS) t)"
  by (simp add: vt_shows_def vterm_back)

lemma vt_shows_type:
  assumes "vt_shows l (length l) t" "printable c"
  shows "vt_shows (l @ [c]) (Suc (length l)) (vterm_byte c t)"
  using assms by (auto simp: vt_shows_def vterm_byte_def fun_eq_iff row_of_def nth_append)

text \<open>A blank written after the line does not show.\<close>

lemma vt_shows_blank:
  assumes "vt_shows l (length l) t"
  shows "vt_row (vterm_byte ASCII_SPACE t) = row_of (CmdlinePrompt @ l)"
    and "vt_col (vterm_byte ASCII_SPACE t) = length CmdlinePrompt + length l + 1"
    and "vt_esc (vterm_byte ASCII_SPACE t) = 0"
  using assms by (auto simp: vt_shows_def vterm_byte_def fun_eq_iff row_of_def)

text \<open>A line feed starts an empty row.\<close>

lemma vterm_newline:
  assumes "vt_esc t = 0"
  shows "vt_shows [] 0 (vterm_run ([ASCII_CR, ASCII_LF] @ CmdlinePrompt) t)"
proof -
  define t1 where "t1 = vterm_run [ASCII_CR, ASCII_LF] t"
  have "vt_esc t1 = 0" "vt_col t1 = 0" "vt_row t1 = (\<lambda>i. ASCII_SPACE)"
    using assms by (simp_all add: t1_def vterm_byte_def ascii printable_def)
  moreover have "vterm_run ([ASCII_CR, ASCII_LF] @ CmdlinePrompt) t = vterm_run CmdlinePrompt t1"
    by (simp add: t1_def)
  ultimately show ?thesis
    using vterm_print [OF prompt_printable(1), of t1]
    by (simp add: vt_shows_def fun_eq_iff row_of_def)
qed

lemma shows_insert:
  assumes "vt_shows (ed_line e) (ed_pos e) t" "ed_pos e \<le> length (ed_line e)"
    and "\<forall>c \<in> set (ed_line e). printable c" "printable c"
  shows "vt_shows (ed_line (fst (ed_insert c e))) (ed_pos (fst (ed_insert c e)))
     (vterm_run (snd (ed_insert c e)) t)"
proof -
  define l where "l = take (ed_pos e) (ed_line e) @ c # drop (ed_pos e) (ed_line e)"
  have l: "\<forall>c \<in> set l. printable c" "length l = Suc (length (ed_line e))"
    using assms by (auto simp: l_def dest: in_set_takeD in_set_dropD)
  have esc: "vt_esc t = 0" using assms(1) by (simp add: vt_shows_def)
  have "vt_shows l (Suc (ed_pos e)) (vterm_run (ed_repaint l @
      replicate (length (ed_line e) - ed_pos e) ASCII_BS) t)"
    using vt_shows_back [OF vterm_repaint [OF esc l(1)], of "length (ed_line e) - ed_pos e"] l(2)
      assms(2) by (simp add: Suc_diff_le)
  moreover have "vt_shows (ed_line e) (ed_pos e) (vterm_byte ASCII_BEL t)"
    using assms(1) by (simp add: vt_shows_def vterm_byte_def ascii printable_def)
  ultimately show ?thesis
    using assms vt_shows_type [of "ed_line e" t c] by (auto simp: ed_insert_def l_def Let_def)
qed

lemma shows_delete:
  assumes "vt_shows (ed_line e) (ed_pos e) t" "ed_pos e \<le> length (ed_line e)"
    and "\<forall>c \<in> set (ed_line e). printable c"
  shows "vt_shows (ed_line (fst (ed_delete e))) (ed_pos (fst (ed_delete e)))
     (vterm_run (snd (ed_delete e)) t)"
proof (cases "ed_pos e = 0")
  case True
  then show ?thesis
    using assms by (simp add: ed_delete_def vterm_byte_def ascii printable_def vt_shows_def)
next
  case pos: False
  define l where "l = take (ed_pos e - 1) (ed_line e) @ drop (ed_pos e) (ed_line e)"
  have l: "\<forall>c \<in> set l. printable c" "length l = length (ed_line e) - 1"
    using assms pos by (auto simp: l_def dest: in_set_takeD in_set_dropD)
  have esc: "vt_esc t = 0" using assms(1) by (simp add: vt_shows_def)
  show ?thesis
  proof (cases "ed_pos e = length (ed_line e)")
    case True
    have "vt_shows l (ed_pos e - 1) (vterm_run [ASCII_BS, ASCII_SPACE, ASCII_BS] t)"
      using assms(1) True pos by (cases "ed_line e")
       (auto simp: vt_shows_def vterm_byte_def ascii printable_def l_def fun_eq_iff row_of_def
          nth_append)
    then show ?thesis using True pos by (simp add: ed_delete_def Let_def l_def)
  next
    case False
    note rp = vterm_repaint [OF esc l(1)]
    have "vt_shows l (ed_pos e - 1) (vterm_run (ed_repaint l @ ASCII_SPACE #
        replicate (length (ed_line e) + 1 - ed_pos e) ASCII_BS) t)"
      using vt_shows_blank [OF rp] l(2) False pos assms(2)
      by (simp add: vt_shows_def vterm_back)
    then show ?thesis using False pos by (simp add: ed_delete_def Let_def l_def)
  qed
qed

lemma shows_enter:
  assumes "vt_esc t = 0" "\<forall>c \<in> set (ed_line e). printable c"
    and "ed_word (ed_line e) = [] \<or> ed_lookup (ed_word (ed_line e)) (ed_cmds e) = None"
  shows "vt_shows (ed_line (fst (ed_enter e))) (ed_pos (fst (ed_enter e)))
     (vterm_run (snd (ed_enter e)) t)"
proof -
  define msg where "msg = CmdlineNotice @ ed_word (ed_line e) @ [0x3A, ASCII_SPACE] @ CmdlineCmdNotFound"
  have "\<forall>c \<in> set msg. printable c"
    using assms(2) prompt_printable by (auto simp: msg_def ed_word_def dest: set_takeWhileD)
  moreover have "vt_esc (vterm_run [ASCII_CR, ASCII_LF] t) = 0"
    using assms(1) by (simp add: vterm_byte_def)
  ultimately have "vt_esc (vterm_run ([ASCII_CR, ASCII_LF] @ msg) t) = 0"
    using vterm_print [of msg "vterm_run [ASCII_CR, ASCII_LF] t"] by simp
  from vterm_newline [OF this] vterm_newline [OF assms(1)]
  have "vt_shows [] 0 (vterm_run ([ASCII_CR, ASCII_LF] @ (msg @ [ASCII_CR, ASCII_LF]) @ CmdlinePrompt) t)"
    "vt_shows [] 0 (vterm_run ([ASCII_CR, ASCII_LF] @ CmdlinePrompt) t)"
    by simp_all
  then show ?thesis
    using assms(3) by (auto simp: ed_enter_def Let_def msg_def)
qed

lemma shows_arrow:
  assumes "vt_shows (ed_line e) (ed_pos e) t" "ed_pos e \<le> length (ed_line e)"
    and "\<forall>c \<in> set (ed_line e). printable c" "\<forall>l \<in> set (ed_hist e). \<forall>c \<in> set l. printable c"
  shows "vt_shows (ed_line (fst (ed_arrow c e))) (ed_pos (fst (ed_arrow c e)))
     (vterm_run (snd (ed_arrow c e)) t)"
proof -
  have esc: "vt_esc t = 0" using assms(1) by (simp add: vt_shows_def)
  have recall: "vt_shows (ed_line (fst (ed_recall d e))) (ed_pos (fst (ed_recall d e)))
     (vterm_run (snd (ed_recall d e)) t)" for d
  proof -
    define i where "i = max 0 (min (ed_idx e + d) (int (length (ed_hist e)) - 1))"
    define l where "l = (if ed_hist e = [] then [] else ed_hist e ! nat i)"
    have "nat i < length (ed_hist e)" if "ed_hist e \<noteq> []"
      using that by (cases "ed_hist e") (auto simp: i_def)
    then have "\<forall>c \<in> set l. printable c" using assms(4) by (auto simp: l_def)
    from vterm_repaint [OF esc this] show ?thesis
      unfolding ed_recall_def Let_def i_def [symmetric] l_def [symmetric] by simp
  qed
  show ?thesis
    using recall assms(1,2)
    by (auto simp: ed_arrow_def vt_shows_def vterm_byte_def printable_def ascii)
qed

lemma shows_step:
  assumes "vt_shows (ed_line e) (ed_pos e) t" "ed_pos e \<le> length (ed_line e)"
    and "\<forall>c \<in> set (ed_line e). printable c" "\<forall>l \<in> set (ed_hist e). \<forall>c \<in> set l. printable c"
    and "c = ASCII_CR \<longrightarrow> ed_word (ed_line e) = [] \<or> ed_lookup (ed_word (ed_line e)) (ed_cmds e) = None"
  shows "vt_shows (ed_line (fst (ed_step c e))) (ed_pos (fst (ed_step c e)))
     (vterm_run (snd (ed_step c e)) t)"
proof -
  have esc: "vt_esc t = 0" using assms(1) by (simp add: vt_shows_def)
  define e0 where "e0 = e\<lparr>ed_vt := 0\<rparr>"
  have "ed_line e0 = ed_line e" "ed_pos e0 = ed_pos e" "ed_hist e0 = ed_hist e" "ed_cmds e0 = ed_cmds e"
    by (simp_all add: e0_def)
  then show ?thesis
    using assms shows_insert [of e0 t c] shows_delete [of e0 t] shows_enter [OF esc, of e0]
      shows_arrow [of e0 t c]
    unfolding ed_step_def Let_def e0_def [symmetric] by simp
qed

text \<open>An ENTER whose first word is the prefix of a registered command starts that command.\<close>

definition ed_starts :: "u8 \<Rightarrow> 'f editor \<Rightarrow> bool" where
  "ed_starts c e \<longleftrightarrow>
     c = ASCII_CR \<and> ed_vt e \<noteq> 2 \<and> ed_word (ed_line e) \<noteq> [] \<and>
     ed_lookup (ed_word (ed_line e)) (ed_cmds e) \<noteq> None"

lemma arrow_ignores_CR: "ed_arrow ASCII_CR e = (e, [])"
  by (simp add: ed_arrow_def ascii)

lemma shows_other:
  assumes "vt_shows (ed_line e) (ed_pos e) t" "ed_pos e \<le> length (ed_line e)"
    and "\<forall>c \<in> set (ed_line e). printable c" "\<forall>l \<in> set (ed_hist e). \<forall>c \<in> set l. printable c"
    and "\<not> ed_starts c e"
  shows "vt_shows (ed_line (fst (ed_step c e))) (ed_pos (fst (ed_step c e)))
     (vterm_run (snd (ed_step c e)) t)"
proof (cases "ed_vt e = 2 \<and> c = ASCII_CR")
  case True
  then show ?thesis using assms(1) by (simp add: ed_step_def arrow_ignores_CR)
next
  case False
  then have "c = ASCII_CR \<longrightarrow> ed_word (ed_line e) = [] \<or> ed_lookup (ed_word (ed_line e)) (ed_cmds e) = None"
    using assms(5) by (auto simp: ed_starts_def)
  then show ?thesis by (rule shows_step [OF assms(1-4)])
qed

lemma shows_start:
  assumes "vt_esc t = 0" "ed_starts c e"
  shows "ed_line (fst (ed_step c e)) = []" "ed_pos (fst (ed_step c e)) = 0"
    "Some (ed_exec (fst (ed_step c e))) = map_option snd (ed_lookup (ed_word (ed_line e)) (ed_cmds e))"
    "vterm_run (snd (ed_step c e)) t = \<lparr>vt_row = (\<lambda>i. ASCII_SPACE), vt_col = 0, vt_esc = 0\<rparr>"
    "vt_shows [] 0 (vterm_run CmdlinePrompt (vterm_run (snd (ed_step c e)) t))"
proof -
  obtain name f where f: "ed_lookup (ed_word (ed_line e)) (ed_cmds e) = Some (name, f)"
    using assms(2) by (auto simp: ed_starts_def)
  have e: "ed_step c e = ed_enter (e\<lparr>ed_vt := 0\<rparr>)" "snd (ed_step c e) = [ASCII_CR, ASCII_LF]"
    using assms(2) f by (simp_all add: ed_step_def ed_starts_def ed_enter_def Let_def ascii printable_def)
  show "ed_line (fst (ed_step c e)) = []" "ed_pos (fst (ed_step c e)) = 0"
    "Some (ed_exec (fst (ed_step c e))) = map_option snd (ed_lookup (ed_word (ed_line e)) (ed_cmds e))"
    unfolding e(1) using assms(2) f by (simp_all add: ed_enter_def ed_starts_def Let_def)
  show "vterm_run (snd (ed_step c e)) t = \<lparr>vt_row = (\<lambda>i. ASCII_SPACE), vt_col = 0, vt_esc = 0\<rparr>"
    using assms(1) by (simp add: e(2) vterm_byte_def ascii printable_def)
  show "vt_shows [] 0 (vterm_run CmdlinePrompt (vterm_run (snd (ed_step c e)) t))"
    using vterm_newline [OF assms(1)] by (simp add: e(2))
qed

text \<open>
  Property C22. What the user sees is what is edited. If the terminal shows the prompt, the line
  and the cursor, then after any byte it shows the new line and cursor, with one exception: an
  ENTER that starts a command. Such an ENTER empties the line, schedules the function of the
  matching command and leaves the cursor at the start of a blank row, from where the prompt that
  \<open>cmdlineMainLoop\<close> prints after the command's output shows the empty line. An ENTER on an empty
  line, or on a word no command begins with, is in the first case: its prompt is part of its
  output.
\<close>

theorem terminal_in_sync:
  assumes "cl_ok s" "vt_shows (cl_line s) (unat (CmdlineBufferEditPos s)) (vterm_run (cmdline_out s) t)"
    and "cmdlineInputFunc c s = Some s'"
  shows "if ed_starts c (cl_abs s)
     then cl_line s' = [] \<and> CmdlineBufferEditPos s' = 0 \<and>
       Some (CmdlineExecFunction s') =
         map_option snd (ed_lookup (ed_word (cl_line s)) (ed_cmds (cl_abs s))) \<and>
       vterm_run (cmdline_out s') t = \<lparr>vt_row = (\<lambda>i. ASCII_SPACE), vt_col = 0, vt_esc = 0\<rparr> \<and>
       vt_shows [] 0 (vterm_run (cmdline_out (cmdlinePrintPrompt s')) t)
     else vt_shows (cl_line s') (unat (CmdlineBufferEditPos s')) (vterm_run (cmdline_out s') t)"
proof -
  have s': "cl_abs s' = fst (ed_step c (cl_abs s))"
      "cmdline_out s' = cmdline_out s @ snd (ed_step c (cl_abs s))"
    using sim_step [OF assms(1), of c] assms(3) by (simp_all add: cl_sim_def)
  have sel: "cl_line s' = ed_line (cl_abs s')" "unat (CmdlineBufferEditPos s') = ed_pos (cl_abs s')"
      "CmdlineExecFunction s' = ed_exec (cl_abs s')"
      "CmdlineBufferEditPos s' = 0 \<longleftrightarrow> ed_pos (cl_abs s') = 0"
    by (simp_all add: cl_abs_def unat_eq_zero)
  have "\<forall>l \<in> set (ed_hist (cl_abs s)). \<forall>c \<in> set l. printable c"
    using assms(1) by (auto simp: cl_defs cl_abs_def row_ok_def dest!: in_set_takeD)
  moreover have "\<forall>c \<in> set (cl_line s). printable c"
    using assms(1) by (simp add: cl_ok_def cl_line_ok_def)
  moreover have "vt_esc (vterm_run (cmdline_out s) t) = 0" using assms(2) by (simp add: vt_shows_def)
  ultimately show ?thesis
    using shows_other [of "cl_abs s" "vterm_run (cmdline_out s) t" c] assms(2) cl_lengths [OF assms(1)]
      shows_start [of "vterm_run (cmdline_out s) t" c "cl_abs s"]
    by (simp add: sel s' cmdlinePrintPrompt_def cmdlineOutputFunc_def)
qed

text \<open>Boot: the prompt is printed on an empty row, then the user types.\<close>

definition demo_cmdline :: "nat cmdline" where
  "demo_cmdline = cmdlinePrintPrompt (cmdlineInit cmdline_bss)"

lemma demo_cmdline_shows:
  "cl_ok demo_cmdline" "cl_line demo_cmdline = []" "CmdlineBufferEditPos demo_cmdline = 0"
  "ed_cmds (cl_abs demo_cmdline) = []"
  "vt_shows [] 0 (vterm_run (cmdline_out demo_cmdline) \<lparr>vt_row = (\<lambda>i. ASCII_SPACE), vt_col = 0, vt_esc = 0\<rparr>)"
proof -
  show "cl_ok demo_cmdline" "cl_line demo_cmdline = []" "CmdlineBufferEditPos demo_cmdline = 0"
      "ed_cmds (cl_abs demo_cmdline) = []"
    using cmdlineInit_ok
    by (simp_all add: demo_cmdline_def cmdlinePrintPrompt_def cmdlineOutputFunc_def cl_defs cl_line_def
        cmdlineInit_def cmdline_bss_def cl_abs_def)
  show "vt_shows [] 0 (vterm_run (cmdline_out demo_cmdline)
      \<lparr>vt_row = (\<lambda>i. ASCII_SPACE), vt_col = 0, vt_esc = 0\<rparr>)"
    using vterm_print [OF prompt_printable(1), of "\<lparr>vt_row = (\<lambda>i. ASCII_SPACE), vt_col = 0, vt_esc = 0\<rparr>"]
    by (simp add: demo_cmdline_def cmdlinePrintPrompt_def cmdlineOutputFunc_def cmdlineInit_def
        cmdline_bss_def vt_shows_def fun_eq_iff row_of_def)
qed

theorem terminal_in_sync_witness:
  "\<exists>s'. cmdlineInputFunc 0x68 demo_cmdline = Some s' \<and> vt_shows [0x68] 1
     (vterm_run (cmdline_out s') \<lparr>vt_row = (\<lambda>i. ASCII_SPACE), vt_col = 0, vt_esc = 0\<rparr>)"
proof -
  obtain s' where s': "cmdlineInputFunc 0x68 demo_cmdline = Some s'"
      "cl_abs s' = fst (ed_step 0x68 (cl_abs demo_cmdline))"
    using sim_step [OF demo_cmdline_shows(1), of "0x68"] by (auto simp: cl_sim_def split: option.splits)
  have "ed_step 0x68 (cl_abs demo_cmdline) = ed_insert 0x68 (cl_abs demo_cmdline\<lparr>ed_vt := 0\<rparr>)"
    by (simp add: ed_step_def demo_cmdline_def cl_abs_def cmdlinePrintPrompt_def cmdlineOutputFunc_def
        cmdlineInit_def cmdline_bss_def printable_def Let_def)
  then have "ed_line (cl_abs s') = [0x68]" "ed_pos (cl_abs s') = 1"
    using demo_cmdline_shows by (simp_all add: s'(2) ed_insert_def Let_def ascii)
  then have "cl_line s' = [0x68]" "unat (CmdlineBufferEditPos s') = 1" by simp_all
  then show ?thesis
    using s'(1) terminal_in_sync [OF demo_cmdline_shows(1) _ s'(1)] demo_cmdline_shows
    by (simp add: ed_starts_def ascii)
qed

section \<open>Registration\<close>

lemma add_command:
  assumes "cl_ok s" "0 \<in> set name" "length (cstr name) < CMDLINE_MAX_CMD_LENGTH"
  shows "if unat (CmdlineNumCommands s) < CMDLINE_MAX_COMMANDS
     then \<exists>s'. cmdlineAddCommand name f s = Some s' \<and> cl_ok s' \<and>
            cl_abs s' = cl_abs s\<lparr>ed_cmds := ed_cmds (cl_abs s) @ [(cstr name, f)]\<rparr>
     else cmdlineAddCommand name f s = None"
proof (cases "unat (CmdlineNumCommands s) < CMDLINE_MAX_COMMANDS")
  case True
  define n where "n = unat (CmdlineNumCommands s)"
  have ok: "length (CmdlineCommandList s) = 30" "length (CmdlineFunctionList s) = 30" "n < 30"
      "\<forall>r \<in> set (CmdlineCommandList s). length r = 50 \<and> 0 \<in> set r"
    using assms(1) True by (simp_all add: cl_ok_def cl_cmds_ok_def ascii n_def)
  define row where "row = cstr name @ 0 # drop (Suc (length (cstr name))) (CmdlineCommandList s ! n)"
  have row: "c_strcpy (CmdlineCommandList s ! n) name = Some row" "cstr row = cstr name"
      "length row = 50" "0 \<in> set row"
    using assms(2,3) ok by (simp_all add: row_def cstring_simps ascii)
  have n1: "unat (CmdlineNumCommands s + 1) = Suc n"
    using ok(3) by (simp add: u8_Suc n_def)
  define s' where "s' = s\<lparr>CmdlineCommandList := (CmdlineCommandList s)[n := row],
      CmdlineFunctionList := (CmdlineFunctionList s)[n := f],
      CmdlineNumCommands := CmdlineNumCommands s + 1\<rparr>"
  have "cmdlineAddCommand name f s = Some s'"
    using ok row(1) by (simp add: cmdlineAddCommand_def array_simps s'_def n_def Let_def)
  moreover have "\<forall>r \<in> set ((CmdlineCommandList s)[n := row]). length r = 50 \<and> 0 \<in> set r"
    using ok(4) row(3,4) by (auto dest!: set_update_subset_insert [THEN subsetD])
  then have "cl_ok s'"
    using assms(1) n1 ok by (simp add: cl_defs s'_def cl_line_def ascii)
  moreover have "take (Suc n) (zip (map cstr ((CmdlineCommandList s)[n := row])) ((CmdlineFunctionList s)[n := f])) =
      take n (zip (map cstr (CmdlineCommandList s)) (CmdlineFunctionList s)) @ [(cstr name, f)]"
    using ok row(2) take_update_shift [of n "zip (map cstr (CmdlineCommandList s)) (CmdlineFunctionList s)"
        "(cstr name, f)"]
    by (simp add: map_update update_zip)
  then have "cl_abs s' = cl_abs s\<lparr>ed_cmds := ed_cmds (cl_abs s) @ [(cstr name, f)]\<rparr>"
    using n1 by (simp add: cl_abs_def s'_def cl_line_def n_def)
  ultimately show ?thesis using True by simp
next
  case False
  then show ?thesis
    using assms(1) by (simp add: cmdlineAddCommand_def arr_get_def cl_ok_def cl_cmds_ok_def)
qed

text \<open>
  Property C24. A command registered with a terminated name of less than 50 bytes is appended to
  the list and nothing else changes, as long as fewer than 30 are registered; the thirty-first
  registration writes outside the list.
\<close>

theorem add_command_appends:
  assumes "cl_ok s" "0 \<in> set name" "length (cstr name) < CMDLINE_MAX_CMD_LENGTH"
  shows "if unat (CmdlineNumCommands s) < CMDLINE_MAX_COMMANDS
     then \<exists>s'. cmdlineAddCommand name f s = Some s' \<and> cl_ok s' \<and>
            cl_abs s' = cl_abs s\<lparr>ed_cmds := ed_cmds (cl_abs s) @ [(cstr name, f)]\<rparr>
     else cmdlineAddCommand name f s = None"
  by (rule add_command [OF assms])

theorem add_command_appends_witness:
  "\<exists>s'. cmdlineAddCommand [0x6C, 0x73, 0] (Some 7) demo_cmdline = Some s' \<and>
     ed_cmds (cl_abs s') = [([0x6C, 0x73], Some 7)]"
  using add_command_appends [OF demo_cmdline_shows(1), of "[0x6C, 0x73, 0]" "Some 7"] demo_cmdline_shows
  by (auto simp: ascii cstr_def demo_cmdline_def cmdlinePrintPrompt_def cmdlineOutputFunc_def
      cmdlineInit_def)

section \<open>History\<close>

fun cmdline_keys :: "u8 list \<Rightarrow> 'f cmdline \<Rightarrow> 'f cmdline option" where
  "cmdline_keys [] s = Some s"
| "cmdline_keys (c # cs) s = do { s \<leftarrow> cmdlineInputFunc c s; cmdline_keys cs s }"

definition ed_keys :: "u8 list \<Rightarrow> 'f editor \<Rightarrow> 'f editor" where
  "ed_keys cs e = fold (\<lambda>c e. fst (ed_step c e)) cs e"

lemma keys_refine:
  "cl_ok s \<Longrightarrow> \<exists>s'. cmdline_keys cs s = Some s' \<and> cl_ok s' \<and> cl_abs s' = ed_keys cs (cl_abs s)"
proof (induction cs arbitrary: s)
  case Nil
  then show ?case by (simp add: ed_keys_def)
next
  case (Cons c cs)
  obtain s1 where "cmdlineInputFunc c s = Some s1" "cl_ok s1" "cl_abs s1 = fst (ed_step c (cl_abs s))"
    using sim_step [OF Cons.prems, of c] by (auto simp: cl_sim_def split: option.splits)
  with Cons.IH [of s1] show ?case by (simp add: ed_keys_def)
qed

text \<open>
  Property C23. A line that was typed or changed, submitted and called back with the up arrow is the
  same line again, with the cursor at its end.
\<close>

theorem submitted_line_recalled:
  assumes "cl_ok s" "CmdlineInputVT100State s = 0" "CmdlineHistoryCopy s \<noteq> 0" "cl_line s \<noteq> []"
  shows "\<exists>s'. cmdline_keys [ASCII_CR, ASCII_ESC, ASCII_LBRACKET, VT100_ARROWUP] s = Some s' \<and>
     cl_ok s' \<and> cl_line s' = cl_line s \<and> unat (CmdlineBufferEditPos s') = length (cl_line s)"
proof -
  define e where "e = cl_abs s"
  define e1 where "e1 = fst (ed_step ASCII_CR e)"
  have "ed_vt e = 0" "ed_edited e" "ed_line e \<noteq> []" using assms by (simp_all add: e_def)
  then have e1: "ed_hist e1 = ed_line e # take 9 (ed_hist e)" "ed_idx e1 = - 1" "ed_vt e1 = 0"
    by (auto simp: e1_def ed_step_def Let_def ed_enter_def ed_save_def ascii printable_def split: option.splits)
  have "ed_step ASCII_ESC e1 = (e1\<lparr>ed_vt := 1\<rparr>, [])"
    using e1(3) by (simp add: ed_step_def Let_def ascii printable_def)
  moreover have "ed_step ASCII_LBRACKET (e1\<lparr>ed_vt := 1\<rparr>) = (e1\<lparr>ed_vt := 2\<rparr>, [])"
    by (simp add: ed_step_def)
  moreover have "fst (ed_step VT100_ARROWUP (e1\<lparr>ed_vt := 2\<rparr>)) =
      e1\<lparr>ed_vt := 0, ed_line := ed_line e, ed_pos := length (ed_line e), ed_idx := 0, ed_edited := False\<rparr>"
    using e1 by (simp add: ed_step_def Let_def ed_arrow_def ed_recall_def)
  ultimately have keys: "ed_keys [ASCII_CR, ASCII_ESC, ASCII_LBRACKET, VT100_ARROWUP] e =
      e1\<lparr>ed_vt := 0, ed_line := ed_line e, ed_pos := length (ed_line e), ed_idx := 0, ed_edited := False\<rparr>"
    by (simp add: ed_keys_def flip: e1_def)
  obtain s' where s': "cmdline_keys [ASCII_CR, ASCII_ESC, ASCII_LBRACKET, VT100_ARROWUP] s = Some s'"
      "cl_ok s'" "cl_abs s' = ed_keys [ASCII_CR, ASCII_ESC, ASCII_LBRACKET, VT100_ARROWUP] e"
    using keys_refine [OF assms(1)] by (metis e_def)
  have "ed_line (cl_abs s') = cl_line s" "ed_pos (cl_abs s') = length (cl_line s)"
    unfolding s'(3) keys by (simp_all add: e_def)
  then show ?thesis using s'(1,2) by auto
qed

definition demo_typed :: "nat cmdline" where
  "demo_typed = demo_cmdline\<lparr>CmdlineBuffer := 0x6C # 0x73 # replicate 48 0, CmdlineBufferLength := 2,
     CmdlineBufferEditPos := 2, CmdlineHistoryCopy := 1\<rparr>"

lemma demo_typed_ok:
  "cl_ok demo_typed" "CmdlineInputVT100State demo_typed = 0" "CmdlineHistoryCopy demo_typed \<noteq> 0"
  "cl_line demo_typed = [0x6C, 0x73]"
  using demo_cmdline_shows(1)
  by (simp_all add: demo_typed_def cl_defs cl_line_def ascii printable_def demo_cmdline_def
      cmdlinePrintPrompt_def cmdlineOutputFunc_def cmdlineInit_def)

theorem submitted_line_recalled_witness:
  "\<exists>s'. cmdline_keys [ASCII_CR, ASCII_ESC, ASCII_LBRACKET, VT100_ARROWUP] demo_typed = Some s' \<and>
     cl_line s' = [0x6C, 0x73]"
  using submitted_line_recalled [OF demo_typed_ok(1-3)] demo_typed_ok(4) by auto

section \<open>Arguments\<close>

text \<open>The words of a line, separated by any number of blanks.\<close>

function (sequential) arg_words :: "u8 list \<Rightarrow> u8 list list" where
  "arg_words l =
     (case dropWhile (\<lambda>c. c = ASCII_SPACE) l of
        [] \<Rightarrow> []
      | c # cs \<Rightarrow> ed_word (c # cs) # arg_words (dropWhile (\<lambda>c. c \<noteq> ASCII_SPACE) (c # cs)))"
  by pat_completeness auto
termination
proof (relation "measure length"; simp)
  fix l c cs
  assume eq: "dropWhile (\<lambda>c. c = ASCII_SPACE) l = c # cs"
  then have "c \<noteq> ASCII_SPACE" using hd_dropWhile [of "\<lambda>c. c = ASCII_SPACE" l] by simp
  then have "length (dropWhile (\<lambda>c. c \<noteq> ASCII_SPACE) (c # cs)) \<le> length cs"
    by (simp add: length_dropWhile_le)
  also have "\<dots> < length l"
    using length_dropWhile_le [of "\<lambda>c. c = ASCII_SPACE" l] eq by simp
  finally show "(c \<noteq> ASCII_SPACE \<longrightarrow> length (dropWhile (\<lambda>c. c \<noteq> ASCII_SPACE) cs) < length l) \<and>
      (c = ASCII_SPACE \<longrightarrow> Suc (length cs) < length l)"
    using \<open>c \<noteq> ASCII_SPACE\<close> by simp
qed

declare arg_words.simps [simp del]

lemma scan_to_dropWhile:
  assumes "i + length xs < length buf" "drop i buf = xs @ 0 # ys" "p 0"
  shows "\<exists>j. scan_to p buf i = Some j \<and> j < length buf \<and>
     drop j buf = dropWhile (\<lambda>c. \<not> p c) xs @ 0 # ys \<and> j + length (dropWhile (\<lambda>c. \<not> p c) xs) < length buf"
  using assms(1,2)
proof (induction xs arbitrary: i)
  case Nil
  then have "buf ! i = 0" by (metis add_0_right append_Nil hd_drop_conv_nth list.sel(1) list.size(3))
  with Nil assms(3) show ?case by (subst scan_to.simps) (simp add: arr_get_def)
next
  case (Cons x xs)
  have x: "buf ! i = x" "i < length buf"
    using Cons.prems hd_drop_conv_nth [of i buf] by simp_all
  have "drop (Suc i) buf = xs @ 0 # ys"
    using Cons.prems by (metis append_Cons drop_Suc list.sel(3) tl_drop)
  with Cons.IH [of "Suc i"] Cons.prems x show ?case
    by (subst scan_to.simps) (simp add: arr_get_def)
qed

definition at_text :: "u8 list \<Rightarrow> nat \<Rightarrow> u8 list \<Rightarrow> u8 list \<Rightarrow> bool" where
  "at_text buf i xs ys \<longleftrightarrow> i + length xs < length buf \<and> drop i buf = xs @ 0 # ys \<and> 0 \<notin> set xs"

lemma scan_text:
  assumes "at_text buf i xs ys" "p 0" "\<And>c. c \<noteq> 0 \<Longrightarrow> p c \<longleftrightarrow> q c"
  shows "\<exists>j. scan_to p buf i = Some j \<and> at_text buf j (dropWhile (\<lambda>c. \<not> q c) xs) ys"
proof -
  have "dropWhile (\<lambda>c. \<not> p c) xs = dropWhile (\<lambda>c. \<not> q c) xs"
    using assms(1,3) by (intro dropWhile_cong) (auto simp: at_text_def, metis+)
  then show ?thesis
    using scan_to_dropWhile [of i xs buf ys p] assms(1,2)
    by (auto simp: at_text_def dest: set_dropWhileD)
qed

lemma arg_words_skip: "arg_words (dropWhile (\<lambda>c. c = ASCII_SPACE) l) = arg_words l"
proof -
  have "dropWhile p (dropWhile p l) = dropWhile p l" for p and l :: "u8 list"
    by (induction l) auto
  then show ?thesis by (subst (1 2) arg_words.simps) simp
qed

lemma arg_words_word:
  assumes "xs \<noteq> []" "hd xs \<noteq> ASCII_SPACE"
  shows "arg_words xs = ed_word xs # arg_words (dropWhile (\<lambda>c. c \<noteq> ASCII_SPACE) xs)"
  using assms by (subst arg_words.simps) (cases xs; simp)

lemma skip_args_words:
  assumes "at_text buf i xs ys" "xs = [] \<or> hd xs \<noteq> ASCII_SPACE"
  shows "\<exists>j xs'. skip_args buf n i = Some j \<and> at_text buf j xs' ys \<and>
     ed_word xs' = (if n < length (arg_words xs) then arg_words xs ! n else [])"
  using assms
proof (induction n arbitrary: i xs)
  case 0
  have "ed_word xs = (if 0 < length (arg_words xs) then arg_words xs ! 0 else [])"
    using 0(2) arg_words_word [of xs] by (cases "xs = []") (auto simp: ed_word_def arg_words.simps)
  with 0(1) show ?case by auto
next
  case (Suc n)
  define xs1 where "xs1 = dropWhile (\<lambda>c. c \<noteq> ASCII_SPACE) xs"
  define xs2 where "xs2 = dropWhile (\<lambda>c. c = ASCII_SPACE) xs1"
  obtain j where j: "scan_to is_word_end buf i = Some j" "at_text buf j xs1 ys"
    using scan_text [OF Suc.prems(1), of is_word_end "\<lambda>c. c = ASCII_SPACE"]
    by (auto simp: is_word_end_def xs1_def)
  obtain k where k: "scan_to not_space buf j = Some k" "at_text buf k xs2 ys"
    using scan_text [OF j(2), of not_space "\<lambda>c. c \<noteq> ASCII_SPACE"]
    by (auto simp: not_space_def xs2_def)
  have "xs2 = [] \<or> hd xs2 \<noteq> ASCII_SPACE"
    using hd_dropWhile [of "\<lambda>c. c = ASCII_SPACE" xs1] by (auto simp: xs2_def)
  from Suc.IH [OF k(2) this] obtain l zs where l: "skip_args buf n k = Some l" "at_text buf l zs ys"
      "ed_word zs = (if n < length (arg_words xs2) then arg_words xs2 ! n else [])" by blast
  have "arg_words xs2 = tl (arg_words xs)"
    using Suc.prems(2) arg_words_word [of xs]
    by (cases "xs = []") (auto simp: xs2_def arg_words_skip xs1_def arg_words.simps)
  then have "ed_word zs = (if Suc n < length (arg_words xs) then arg_words xs ! Suc n else [])"
    using l(3) by (auto simp: nth_tl)
  then show ?case using j k l by auto
qed

lemma arg_nth_word:
  assumes "0 \<in> set (CmdlineBuffer s)"
  defines "ws \<equiv> arg_words (cstr (CmdlineBuffer s))"
  shows "\<exists>j. cmdlineGetArgStr n s = Some j \<and> j < length (CmdlineBuffer s) \<and> 0 \<in> set (drop j (CmdlineBuffer s)) \<and>
     ed_word (cstr (drop j (CmdlineBuffer s))) = (if unat n < length ws then ws ! unat n else [])"
proof -
  define l where "l = cstr (CmdlineBuffer s)"
  define ys where "ys = drop (Suc (length l)) (CmdlineBuffer s)"
  have buf: "CmdlineBuffer s = l @ 0 # ys"
    using take_Suc_cstr [OF assms(1)] append_take_drop_id [of "Suc (length l)" "CmdlineBuffer s"]
    by (simp add: l_def ys_def)
  have "at_text (CmdlineBuffer s) 0 l ys"
    unfolding at_text_def by (simp add: buf) (simp add: l_def)
  then obtain j where j: "scan_to not_space (CmdlineBuffer s) 0 = Some j"
      "at_text (CmdlineBuffer s) j (dropWhile (\<lambda>c. c = ASCII_SPACE) l) ys"
    using scan_text [of "CmdlineBuffer s" 0 l ys not_space "\<lambda>c. c \<noteq> ASCII_SPACE"]
    by (auto simp: not_space_def)
  have "dropWhile (\<lambda>c. c = ASCII_SPACE) l = [] \<or> hd (dropWhile (\<lambda>c. c = ASCII_SPACE) l) \<noteq> ASCII_SPACE"
    using hd_dropWhile [of "\<lambda>c. c = ASCII_SPACE" l] by auto
  from skip_args_words [OF j(2) this, of "unat n"]
  obtain k zs where k: "skip_args (CmdlineBuffer s) (unat n) j = Some k" "at_text (CmdlineBuffer s) k zs ys"
      "ed_word zs = (if unat n < length ws then ws ! unat n else [])"
    by (auto simp: arg_words_skip ws_def l_def)
  have "cstr (drop k (CmdlineBuffer s)) = zs" "k < length (CmdlineBuffer s)" "0 \<in> set (drop k (CmdlineBuffer s))"
    using k(2) by (auto simp: at_text_def cstr_append)
  with j(1) k show ?thesis by (simp add: cmdlineGetArgStr_def)
qed

text \<open>
  \<open>cmdlineGetArgStr n\<close> points at the \<open>n\<close>-th word of the submitted line (the command
  itself is word 0), and at an empty string when there are fewer words; it never leaves the
  buffer.
\<close>

theorem get_arg_nth_word:
  assumes "0 \<in> set (CmdlineBuffer s)"
  defines "ws \<equiv> arg_words (cstr (CmdlineBuffer s))"
  shows "\<exists>j. cmdlineGetArgStr n s = Some j \<and> j < length (CmdlineBuffer s) \<and>
     ed_word (cstr (drop j (CmdlineBuffer s))) = (if unat n < length ws then ws ! unat n else [])"
  using arg_nth_word [OF assms(1), of n] unfolding ws_def by blast

definition demo_args :: "nat cmdline" where
  "demo_args = demo_cmdline\<lparr>CmdlineBuffer := map of_char ''start  12 5'' @ replicate 39 0\<rparr>"

theorem get_arg_nth_word_witness:
  "\<exists>j. cmdlineGetArgStr 1 demo_args = Some j \<and>
     ed_word (cstr (drop j (CmdlineBuffer demo_args))) = map of_char ''12''"
proof -
  have "arg_words (cstr (CmdlineBuffer demo_args)) =
      [map of_char ''start'', map of_char ''12'', map of_char ''5'']"
    by (simp add: demo_args_def cstr_def arg_words.simps ed_word_def ascii)
  moreover have "0 \<in> set (CmdlineBuffer demo_args)" by (simp add: demo_args_def)
  ultimately show ?thesis using get_arg_nth_word [of demo_args 1] by auto
qed

section \<open>Numbers\<close>

definition dec_digit :: "nat \<Rightarrow> u8" where
  "dec_digit d = of_nat (0x30 + d)"

function (sequential) dec_bytes :: "nat \<Rightarrow> u8 list" where
  "dec_bytes n = (if n < 10 then [dec_digit n] else dec_bytes (n div 10) @ [dec_digit (n mod 10)])"
  by pat_completeness auto
termination
  by (relation "measure id") auto

declare dec_bytes.simps [simp del]

lemma dec_digit_val:
  assumes "d < 10"
  shows "digit_val (dec_digit d) = Some (int d)" "dec_digit d \<noteq> 0" "\<not> is_cspace (dec_digit d)"
    "dec_digit d \<noteq> 0x2D" "dec_digit d \<noteq> 0x2B"
proof -
  have "d \<in> {0, 1, 2, 3, 4, 5, 6, 7, 8, 9}" using assms by auto
  then show "digit_val (dec_digit d) = Some (int d)" "dec_digit d \<noteq> 0" "\<not> is_cspace (dec_digit d)"
    "dec_digit d \<noteq> 0x2D" "dec_digit d \<noteq> 0x2B"
    by (auto simp: dec_digit_def digit_val_def is_cspace_def)
qed

lemma digits_val_dec:
  "digits_val 10 a (dec_bytes n @ cs) = digits_val 10 (a * 10 ^ length (dec_bytes n) + int n) cs"
proof (induction n arbitrary: cs rule: dec_bytes.induct)
  case (1 n)
  show ?case
  proof (cases "n < 10")
    case True
    then show ?thesis by (subst (1 2) dec_bytes.simps) (simp add: dec_digit_val)
  next
    case False
    have "dec_bytes n = dec_bytes (n div 10) @ [dec_digit (n mod 10)]"
      using False by (simp add: dec_bytes.simps)
    moreover have "int n = int (n div 10) * 10 + int (n mod 10)"
      by (metis div_mult_mod_eq of_nat_add of_nat_mult of_nat_numeral)
    ultimately show ?thesis
      using "1.IH" [OF False, of "dec_digit (n mod 10) # cs"]
      by (simp add: dec_digit_val algebra_simps)
  qed
qed

lemma dec_bytes_head:
  obtains d ds where "dec_bytes n = dec_digit d # ds" "d < 10"
proof -
  have "\<exists>d ds. dec_bytes n = dec_digit d # ds \<and> d < 10"
  proof (induction n rule: dec_bytes.induct)
    case (1 n)
    show ?case
    proof (cases "n < 10")
      case True
      then show ?thesis by (subst dec_bytes.simps) auto
    next
      case False
      with "1.IH" show ?thesis by (subst dec_bytes.simps) auto
    qed
  qed
  with that show ?thesis by blast
qed

lemma dec_bytes_digits: "c \<in> set (dec_bytes n) \<Longrightarrow> \<exists>d<10. c = dec_digit d"
proof (induction n rule: dec_bytes.induct)
  case (1 n)
  show ?case
  proof (cases "n < 10")
    case True
    with "1.prems" show ?thesis by (simp add: dec_bytes.simps) blast
  next
    case False
    with 1 show ?thesis
      by (auto simp: dec_bytes.simps [of n] intro: exI [of _ "n mod 10"])
  qed
qed

lemma strtol_decimal:
  assumes "t = 0 \<or> t = ASCII_SPACE" "0 \<in> set (t # rest)"
  shows "c_strtol 10 (dec_bytes n @ t # rest) = of_int (min (int n) (2 ^ 31 - 1)) \<and>
     c_strtol 10 (0x2D # dec_bytes n @ t # rest) = of_int (max (- int n) (- (2 ^ 31)))"
proof -
  have nz: "0 \<notin> set (dec_bytes n)" using dec_bytes_digits dec_digit_val(2) by metis
  define zs where "zs = cstr (t # rest)"
  have zs: "cstr (dec_bytes n @ t # rest) = dec_bytes n @ zs" "zs = [] \<or> zs = t # tl zs \<and> t = ASCII_SPACE"
    using nz assms(1) by (auto simp: cstr_def zs_def takeWhile_append)
  have stop: "digits_val 10 a zs = a" for a
    using zs(2) by (cases zs) (auto simp: digit_val_def ascii)
  obtain d ds where d: "dec_bytes n = dec_digit d # ds" "d < 10" by (rule dec_bytes_head)
  have "parse_int 10 (dec_bytes n @ t # rest) = (False, int n)"
    using digits_val_dec [of 0 n zs] dec_digit_val [OF d(2)]
    unfolding parse_int_def zs(1) by (simp add: d(1) stop Let_def)
  moreover have "cstr (0x2D # dec_bytes n @ t # rest) = 0x2D # dec_bytes n @ zs"
    using zs(1) by (simp add: cstr_def)
  then have "parse_int 10 (0x2D # dec_bytes n @ t # rest) = (True, int n)"
    using digits_val_dec [of 0 n zs] by (simp add: parse_int_def stop is_cspace_def)
  ultimately show ?thesis
    by (auto simp: c_strtol_def min_def max_def Let_def)
qed

text \<open>
  A decimal number is read back: \<open>strtol\<close> as \<open>cmdlineGetArgInt\<close> calls it returns the
  number printed in the text before a blank or the end of the line, with its sign, and the
  largest or smallest 32-bit value when it does not fit.
\<close>

theorem strtol_reads_decimal:
  assumes "t = 0 \<or> t = ASCII_SPACE" "0 \<in> set (t # rest)"
  shows "c_strtol 10 (dec_bytes n @ t # rest) = of_int (min (int n) (2 ^ 31 - 1)) \<and>
     c_strtol 10 (0x2D # dec_bytes n @ t # rest) = of_int (max (- int n) (- (2 ^ 31)))"
  by (rule strtol_decimal [OF assms])

theorem strtol_reads_decimal_witness:
  "c_strtol 10 (dec_bytes 250 @ [0x20, 0x35, 0]) = 250"
  using strtol_reads_decimal [of "0x20" "[0x35, 0]" 250] by (simp add: ascii)

end
