(* ===== verification/Firmware.thy ===== *)
theory Firmware
  imports Boot Steppers Cmdline
begin

unbundle bit_operations_syntax

text \<open>
  The firmware as a whole: the command handlers, the initialisation and the main loop of
  \<^verbatim>\<open>src/sdloader/src/main.c\<close>, which connect the console, the planner, the SD card and the display.

  The board is a parameter: the bus (\<^verbatim>\<open>xio.h\<close>), the receiver of the console
  (\<^verbatim>\<open>xuartlite_l.h\<close>), the addresses and device table of the generated \<^verbatim>\<open>xparameters.h\<close>, and
  the addresses \<open>bd_ram\<close> at which the linker and the loader put code, data and stack. What is in
  that memory is held by the variables of the model, so a \<^verbatim>\<open>wr\<close> command that stores into it is
  undefined (\<open>None\<close>): which variable it hits depends on the link map. A \<^verbatim>\<open>rd\<close> from there changes
  nothing, the value it prints is left to the bus.
  Further parameters are the program that \<^verbatim>\<open>bootelf\<close> starts, which may return or not (\<open>None\<close>),
  and the values the stack holds where \<^verbatim>\<open>do_start\<close> leaves its target uninitialised. What the
  handlers print is a log of the printed values; text and number format are left out.
\<close>

section \<open>State\<close>

record 'b uart =
  XUartLite_mIsReceiveEmpty :: "'b \<Rightarrow> bool \<times> 'b"
  XUartLite_mReadReg :: "'b \<Rightarrow> u32 \<times> 'b"

record 'b board =
  bd_io :: "'b mmio"
  bd_uart :: "'b uart"
  bd_spi :: "xspi_config list"
  bd_osram_dev :: u16
  bd_sd_dev :: u16
  bd_motion :: u32
  bd_ram :: "u32 \<Rightarrow> bool"

datatype printed = Printed_rd u32 u32 | Printed_wr u32 u32 | Printed_status "int list" | Printed_help

record 'h firmware =
  fw_steppers :: steppers
  fw_boot :: boot
  fw_mmc :: "'h mmc"
  fw_osram :: "'h osram"
  fw_log :: "printed list"

text \<open>The function pointers main registers.\<close>

datatype command = Do_help | Do_bootelf | Do_rd | Do_wr | Do_start | Do_status | Do_reset

type_synonym ('h, 'b) world = "command cmdline \<times> 'h firmware \<times> 'b"

abbreviation fw_print :: "printed \<Rightarrow> 'h firmware \<Rightarrow> 'h firmware" where
  "fw_print p w \<equiv> w\<lparr>fw_log := fw_log w @ [p]\<rparr>"

section \<open>Command handlers\<close>

definition do_rd :: "'b board \<Rightarrow> ('h, 'b) world \<Rightarrow> ('h, 'b) world option" where
  "do_rd bd st =
     (let (c, w, b) = st
      in do { rc \<leftarrow> cmdlineGetArgHex 1 c;
              let (val, b) = io_in32 (bd_io bd) rc b;
              Some (c, fw_print (Printed_rd rc val) w, b) })"

definition do_wr :: "'b board \<Rightarrow> ('h, 'b) world \<Rightarrow> ('h, 'b) world option" where
  "do_wr bd st =
     (let (c, w, b) = st
      in do { rc \<leftarrow> cmdlineGetArgHex 1 c; val \<leftarrow> cmdlineGetArgHex 2 c;
              if bd_ram bd rc then None
              else
                (let b = io_out32 (bd_io bd) rc val b
                 in Some (c, fw_print (Printed_wr rc val) w, b)) })"

definition do_start :: "steppers_target \<Rightarrow> ('h, 'b) world \<Rightarrow> ('h, 'b) world option" where
  "do_start stack st =
     (let (c, w, b) = st; tgt = stack
      in do { x \<leftarrow> cmdlineGetArgInt 1 c; v \<leftarrow> cmdlineGetArgInt 2 c; dt \<leftarrow> cmdlineGetArgInt 3 c;
              xs \<leftarrow> arr_set (tgt_x tgt) 0 (d_of_int (sint x));
              vs \<leftarrow> arr_set (tgt_v tgt) 0 (d_of_int (sint v));
              let tgt = tgt\<lparr>tgt_x := xs, tgt_v := vs, tgt_dt := d_div (d_of_int (sint dt)) (d_of_int 1000)\<rparr>;
              (_, s) \<leftarrow> steppersQueue tgt (fw_steppers w);
              Some (c, w\<lparr>fw_steppers := s\<rparr>, b) })"

definition do_status :: "'b board \<Rightarrow> ('h, 'b) world \<Rightarrow> ('h, 'b) world option" where
  "do_status bd st =
     (let (c, w, b) = st; (vals, b) = steppersStatus (bd_io bd) (bd_motion bd) b
      in Some (c, fw_print (Printed_status vals) w, b))"

definition do_reset :: "'b board \<Rightarrow> ('h, 'b) world \<Rightarrow> ('h, 'b) world option" where
  "do_reset bd st =
     (let (c, w, b) = st
      in do { (s, b) \<leftarrow> steppersReset (bd_io bd) (bd_motion bd) (fw_steppers w, b);
              Some (c, w\<lparr>fw_steppers := s\<rparr>, b) })"

definition do_help :: "('h, 'b) world \<Rightarrow> ('h, 'b) world option" where
  "do_help st = (let (c, w, b) = st in Some (c, fw_print Printed_help w, b))"

definition do_bootelf ::
  "'b board \<Rightarrow> (u32 \<Rightarrow> ('h, 'b) world \<Rightarrow> ('h, 'b) world option) \<Rightarrow> ('h, 'b) world \<Rightarrow> ('h, 'b) world option" where
  "do_bootelf bd prog st =
     (let (c, w, b) = st
      in do { (r, bo, m, b) \<leftarrow> bootelf (sd_disk (bd_io bd)) (fw_boot w, fw_mmc w, b);
              let st = (c, w\<lparr>fw_boot := bo, fw_mmc := m\<rparr>, b);
              case r of Boot_entry a \<Rightarrow> prog a st | Boot_error \<Rightarrow> Some st })"

text \<open>The call through \<^verbatim>\<open>CmdlineExecFunction\<close>.\<close>

definition run_command ::
  "'b board \<Rightarrow> (u32 \<Rightarrow> ('h, 'b) world \<Rightarrow> ('h, 'b) world option) \<Rightarrow> steppers_target \<Rightarrow> command
   \<Rightarrow> ('h, 'b) world \<Rightarrow> ('h, 'b) world option" where
  "run_command bd prog stack f st =
     (case f of
        Do_help \<Rightarrow> do_help st
      | Do_bootelf \<Rightarrow> do_bootelf bd prog st
      | Do_rd \<Rightarrow> do_rd bd st
      | Do_wr \<Rightarrow> do_wr bd st
      | Do_start \<Rightarrow> do_start stack st
      | Do_status \<Rightarrow> do_status bd st
      | Do_reset \<Rightarrow> do_reset bd st)"

section \<open>Initialisation\<close>

definition osram_Boot :: "u8 list" where
  "osram_Boot =
     [0x03, 0x0f, 0xc5, 0xe1, 0x96, 0xf2, 0x8c, 0xf0, 0x45, 0x01, 0x76, 0x8a, 0x8c, 0x70,
      0x85, 0x01, 0x76, 0x8a, 0x8c, 0x70, 0x05, 0x41, 0xe6, 0x42, 0x44, 0x30]"

fun osram_send_all :: "'b mmio \<Rightarrow> u8 list \<Rightarrow> 'h osram \<times> 'b \<Rightarrow> ('h osram \<times> 'b) option" where
  "osram_send_all io [] ob = Some ob"
| "osram_send_all io (x # xs) ob = do { ob \<leftarrow> osram_send io x ob; osram_send_all io xs ob }"

fun add_commands :: "(string \<times> command) list \<Rightarrow> command cmdline \<Rightarrow> command cmdline option" where
  "add_commands [] c = Some c"
| "add_commands ((name, f) # cmds) c =
     do { c \<leftarrow> cmdlineAddCommand (map of_char name @ [0]) (Some f) c; add_commands cmds c }"

definition fw_commands :: "(string \<times> command) list" where
  "fw_commands =
     [(''help'', Do_help), (''?'', Do_help), (''bootelf'', Do_bootelf), (''rd'', Do_rd), (''wr'', Do_wr),
      (''start'', Do_start), (''status'', Do_status), (''reset'', Do_reset)]"

definition main_console :: "command cmdline \<Rightarrow> command cmdline option" where
  "main_console c =
     do { c \<leftarrow> add_commands fw_commands (cmdlineInit c); Some (cmdlinePrintPrompt c) }"

text \<open>\<^verbatim>\<open>main\<close> in front of its loop; the number is the return value of an early return, 0 otherwise.\<close>

definition main_init :: "'b board \<Rightarrow> ('h, 'b) world \<Rightarrow> (int \<times> ('h, 'b) world) option" where
  "main_init bd st =
     (let (c, w, b) = st
      in do { (r, ob) \<leftarrow> osram_init (bd_io bd) (bd_spi bd) (bd_osram_dev bd) (fw_osram w, b);
              if r \<noteq> 0 then Some (- 1, c, w\<lparr>fw_osram := fst ob\<rparr>, snd ob)
              else
                do { (os, b) \<leftarrow> osram_send_all (bd_io bd) osram_Boot ob;
                     let w = w\<lparr>fw_osram := os\<rparr>;
                     (r, m, b) \<leftarrow> mmc_if_init (bd_io bd) (bd_spi bd) (bd_sd_dev bd) (fw_mmc w, b);
                     let w = w\<lparr>fw_mmc := m\<rparr>;
                     if r \<noteq> 0 then Some (- 1, c, w, b)
                     else do { c \<leftarrow> main_console c; Some (0, c, w, b) } } })"

section \<open>The main loop\<close>

definition main_input :: "'b board \<Rightarrow> command cmdline \<times> 'b \<Rightarrow> (command cmdline \<times> 'b) option" where
  "main_input bd cb =
     (let (c, b) = cb; (empty, b) = XUartLite_mIsReceiveEmpty (bd_uart bd) b
      in if \<not> empty then
           (let (val, b) = XUartLite_mReadReg (bd_uart bd) b
            in do { c \<leftarrow> cmdlineInputFunc (ucast val) c; Some (c, b) })
         else Some (c, b))"

definition main_planner :: "'b board \<Rightarrow> ('h, 'b) world \<Rightarrow> ('h, 'b) world option" where
  "main_planner bd st =
     (let (c, w, b) = st
      in do { (s, b) \<leftarrow> steppersMainLoop (bd_io bd) (bd_motion bd) (fw_steppers w, b);
              Some (c, w\<lparr>fw_steppers := s\<rparr>, b) })"

definition main_round ::
  "'b board \<Rightarrow> (u32 \<Rightarrow> ('h, 'b) world \<Rightarrow> ('h, 'b) world option) \<Rightarrow> steppers_target
   \<Rightarrow> ('h, 'b) world \<Rightarrow> ('h, 'b) world option" where
  "main_round bd prog stack st =
     (let (c, w, b) = st
      in do { (c, b) \<leftarrow> main_input bd (c, b);
              st \<leftarrow> cmdlineMainLoop (run_command bd prog stack) (c, w, b);
              main_planner bd st })"

fun main_rounds ::
  "'b board \<Rightarrow> (u32 \<Rightarrow> ('h, 'b) world \<Rightarrow> ('h, 'b) world option) \<Rightarrow> steppers_target \<Rightarrow> nat
   \<Rightarrow> ('h, 'b) world \<Rightarrow> ('h, 'b) world option" where
  "main_rounds bd prog stack 0 st = Some st"
| "main_rounds bd prog stack (Suc n) st =
     do { st \<leftarrow> main_round bd prog stack st; main_rounds bd prog stack n st }"

section \<open>The console after initialisation\<close>

lemma ed_cmds_length: "cl_ok c \<Longrightarrow> length (ed_cmds (cl_abs c)) = unat (CmdlineNumCommands c)"
  by (simp add: cl_ok_def cl_cmds_ok_def cl_abs_def)

abbreviation cmd_entry :: "string \<times> command \<Rightarrow> u8 list \<times> command option" where
  "cmd_entry nf \<equiv> (map of_char (fst nf), Some (snd nf))"

lemma add_commands_ok:
  assumes "cl_ok c" "length (ed_cmds (cl_abs c)) + length cmds \<le> CMDLINE_MAX_COMMANDS"
    and "\<forall>nf \<in> set cmds. length (fst nf) < CMDLINE_MAX_CMD_LENGTH \<and> 0 \<notin> set (map of_char (fst nf) :: u8 list)"
  shows "\<exists>c'. add_commands cmds c = Some c' \<and> cl_ok c' \<and>
     cl_abs c' = cl_abs c\<lparr>ed_cmds := ed_cmds (cl_abs c) @ map cmd_entry cmds\<rparr>"
  using assms
proof (induction cmds arbitrary: c)
  case Nil
  then show ?case by simp
next
  case (Cons nf cmds)
  obtain name f where nf: "nf = (name, f)" by (cases nf)
  have name: "cstr (map of_char name @ [0]) = (map of_char name :: u8 list)" "length name < CMDLINE_MAX_CMD_LENGTH"
    using Cons.prems(3) by (simp_all add: nf cstr_append)
  have "unat (CmdlineNumCommands c) < CMDLINE_MAX_COMMANDS"
    using Cons.prems(2) ed_cmds_length [OF Cons.prems(1)] by simp
  then obtain c1 where c1: "cmdlineAddCommand (map of_char name @ [0]) (Some f) c = Some c1" "cl_ok c1"
      "cl_abs c1 = cl_abs c\<lparr>ed_cmds := ed_cmds (cl_abs c) @ [(map of_char name, Some f)]\<rparr>"
    using add_command [OF Cons.prems(1), of "map of_char name @ [0]" "Some f"] name by auto
  show ?case using Cons.IH [OF c1(2)] Cons.prems(2,3) c1 by (simp add: nf)
qed

definition fw_editor :: "command editor" where
  "fw_editor =
     \<lparr>ed_line = [], ed_pos = 0, ed_vt = 0, ed_hist = [], ed_idx = - 1, ed_edited = False,
      ed_cmds = map cmd_entry fw_commands, ed_exec = None\<rparr>"

lemma main_console_ready:
  obtains c where "main_console cmdline_bss = Some c" "cl_ok c" "cl_abs c = fw_editor"
proof -
  define c0 :: "command cmdline" where "c0 = cmdlineInit cmdline_bss"
  have c0: "cl_ok c0" "cl_abs c0 = fw_editor\<lparr>ed_cmds := []\<rparr>"
    using cmdlineInit_ok
    by (simp_all add: c0_def cl_abs_def cmdlineInit_def cmdline_bss_def fw_editor_def cl_line_def)
  have "\<forall>nf \<in> set fw_commands. length (fst nf) < CMDLINE_MAX_CMD_LENGTH \<and> 0 \<notin> set (map of_char (fst nf) :: u8 list)"
    by (simp add: fw_commands_def ascii)
  from add_commands_ok [OF c0(1) _ this]
  obtain c where "add_commands fw_commands c0 = Some c" "cl_ok c" "cl_abs c = fw_editor"
    by (auto simp: c0(2) fw_commands_def ascii fw_editor_def)
  with that [of "cmdlinePrintPrompt c"] show ?thesis
    by (simp add: main_console_def c0_def cmdlinePrintPrompt_def cmdlineOutputFunc_def cl_defs cl_line_def cl_abs_def)
qed

section \<open>Submitting a line\<close>

lemma process_buffer:
  "cmdlineProcessInputString s = Some s' \<Longrightarrow> CmdlineBuffer s' = CmdlineBuffer s"
  by (auto simp: cmdlineProcessInputString_def cmdlineDoHistory_def cmdlineHistorySave_def cmdlinePrintPrompt_def
      cmdlinePrintError_def cmdlineOutputFunc_def Let_def split: bind_splits if_splits option.splits prod.splits)

lemma enter_buffer:
  assumes "cmdlineEnter s = Some s'"
  shows "unat (CmdlineBufferLength s) < length (CmdlineBuffer s)"
    "CmdlineBuffer s' = (CmdlineBuffer s)[unat (CmdlineBufferLength s) := 0]"
  using assms by (auto simp: cmdlineEnter_def arr_set_def dest!: process_buffer split: bind_splits if_splits)

lemma enter_text:
  assumes "cl_ok s" "cmdlineEnter s = Some s'"
  shows "0 \<in> set (CmdlineBuffer s')" "cstr (CmdlineBuffer s') = cl_line s"
proof -
  note eb = enter_buffer [OF assms(2)]
  then have "CmdlineBuffer s' = cl_line s @ 0 # drop (Suc (unat (CmdlineBufferLength s))) (CmdlineBuffer s)"
    by (simp add: upd_conv_take_nth_drop cl_line_def)
  moreover have "0 \<notin> set (cl_line s)"
    using assms(1) printable_not_nul by (auto simp: cl_ok_def cl_line_ok_def)
  ultimately show "0 \<in> set (CmdlineBuffer s')" "cstr (CmdlineBuffer s') = cl_line s"
    by (simp_all add: cstr_append)
qed

lemma ed_step_exec: "ed_exec (fst (ed_step c e)) \<noteq> ed_exec e \<Longrightarrow> c = ASCII_CR \<and> ed_vt e \<noteq> 2"
  by (auto simp: ed_step_def ed_arrow_def ed_recall_def ed_insert_def ed_delete_def Let_def split: if_splits)

lemma input_cr:
  assumes "CmdlineInputVT100State s \<noteq> 2"
  shows "cmdlineInputFunc ASCII_CR s = cmdlineEnter (s\<lparr>CmdlineInputVT100State := 0\<rparr>)"
  using assms by (simp add: cmdlineInputFunc_def cmdlineRegular_def ascii)

lemma input_safe:
  assumes "cl_ok s" "CmdlineExecFunction s = None"
  obtains s' where "cmdlineInputFunc c s = Some s'" "cl_ok s'"
    "CmdlineExecFunction s' = None \<or> 0 \<in> set (CmdlineBuffer s')"
proof -
  obtain s' where s': "cmdlineInputFunc c s = Some s'" "cl_ok s'" "cl_abs s' = fst (ed_step c (cl_abs s))"
    using sim_step [OF assms(1), of c] by (auto simp: cl_sim_def split: option.splits)
  have "0 \<in> set (CmdlineBuffer s')" if "CmdlineExecFunction s' \<noteq> None"
  proof -
    have "ed_exec (cl_abs s') \<noteq> ed_exec (cl_abs s)" using that assms(2) by (simp add: cl_abs_def)
    then have "c = ASCII_CR \<and> ed_vt (cl_abs s) \<noteq> 2" by (intro ed_step_exec) (simp flip: s'(3))
    then have cr: "c = ASCII_CR" "CmdlineInputVT100State s \<noteq> 2" by (auto simp: cl_abs_def)
    then show ?thesis using enter_text(1) [OF cl_ok_vt [OF assms(1), of 0], of s'] s'(1) input_cr [OF cr(2)] by simp
  qed
  then have "CmdlineExecFunction s' = None \<or> 0 \<in> set (CmdlineBuffer s')" by blast
  with s'(1,2) show ?thesis by (rule that)
qed

section \<open>Every round is safe\<close>

definition fw_ok :: "('h, 'b) world \<Rightarrow> bool" where
  "fw_ok st \<longleftrightarrow> (let (c, w, b) = st in cl_ok c \<and> CmdlineExecFunction c = None \<and> st_ok (fw_steppers w))"

lemma cl_ok_prompt [simp]: "cl_ok (cmdlinePrintPrompt c) \<longleftrightarrow> cl_ok c"
  by (simp add: cmdlinePrintPrompt_def cmdlineOutputFunc_def cl_defs cl_line_def)

lemma cl_ok_exec [simp]: "cl_ok (c\<lparr>CmdlineExecFunction := f\<rparr>) \<longleftrightarrow> cl_ok c"
  by (simp add: cl_defs cl_line_def)

lemma prompt_exec [simp]: "CmdlineExecFunction (cmdlinePrintPrompt c) = CmdlineExecFunction c"
  by (simp add: cmdlinePrintPrompt_def cmdlineOutputFunc_def)

lemma arg_str_total:
  assumes "0 \<in> set (CmdlineBuffer c)"
  shows "\<exists>x. cmdlineGetArgInt n c = Some x" "\<exists>x. cmdlineGetArgHex n c = Some x"
  using arg_nth_word [OF assms, of n] by (auto simp: cmdlineGetArgInt_def cmdlineGetArgHex_def)

lemma queue_target:
  assumes "st_ok s" "tgt_ok t"
  obtains r s' where "steppersQueue t s = Some (r, s')" "st_ok s'" "st_state s' = st_state s"
    "stq_items s' = (if queue_len s < int QUEUE_LEN then stq_items s @ [t] else stq_items s)"
proof (cases "queue_len s < int QUEUE_LEN")
  case True
  have "length (stq_items s) < QUEUE_LEN"
    using True assms(1) by (auto simp: st_ok_def stq_invar_def stq_length)
  then obtain s' where s': "stq_enq t s = Some s'" "stq_invar s'" "stq_items s' = stq_items s @ [t]"
    using stq.enq_room [of s t] assms(1) by (auto simp: st_ok_def)
  then have eq: "steppersQueue t s = Some (None, s')"
    by (auto simp: stq_enq_def split: option.splits)
  then have "st_state s' = st_state s" "current_position s' = current_position s"
    using True by (auto simp: steppersQueue_def arr_set_def split: if_splits)
  with that [OF eq] s' assms True show ?thesis by (auto simp: st_ok_def)
next
  case False
  with that [of "Some (- 1)" s] assms(1) show ?thesis by (simp add: steppersQueue_def)
qed

text \<open>The target \<^verbatim>\<open>do_start\<close> builds from its arguments, with the time in milliseconds.\<close>

definition start_target :: "steppers_target \<Rightarrow> int \<Rightarrow> int \<Rightarrow> int \<Rightarrow> steppers_target" where
  "start_target stack x v dt =
     stack\<lparr>tgt_x := (tgt_x stack)[0 := d_of_int x], tgt_v := (tgt_v stack)[0 := d_of_int v],
           tgt_dt := d_div (d_of_int dt) (d_of_int 1000)\<rparr>"

lemma start_target_ok: "tgt_ok t \<Longrightarrow> tgt_ok (start_target t x v d)"
  by (simp add: tgt_ok_def start_target_def)

lemma do_start_eq:
  assumes "tgt_ok stack"
    and "cmdlineGetArgInt 1 c = Some x" "cmdlineGetArgInt 2 c = Some v" "cmdlineGetArgInt 3 c = Some d"
    and "steppersQueue (start_target stack (sint x) (sint v) (sint d)) (fw_steppers w) = Some (r, s)"
  shows "do_start stack (c, w, b) = Some (c, w\<lparr>fw_steppers := s\<rparr>, b)"
proof -
  have "0 < length (tgt_x stack)" "0 < length (tgt_v stack)"
    using assms(1) by (simp_all add: tgt_ok_def STEPPERS_NUM_AXES_def)
  then show ?thesis using assms(2-5) by (simp add: do_start_def array_simps start_target_def)
qed

text \<open>A \<^verbatim>\<open>wr\<close> whose address argument is one of the firmware's own memory.\<close>

definition wr_hits_ram :: "'b board \<Rightarrow> command cmdline \<Rightarrow> bool" where
  "wr_hits_ram bd c \<longleftrightarrow> (case cmdlineGetArgHex 1 c of Some a \<Rightarrow> bd_ram bd a | None \<Rightarrow> False)"

lemma command_safe:
  assumes "st_ok (fw_steppers w)" "0 \<in> set (CmdlineBuffer c)" "tgt_ok stack" "f \<noteq> Do_bootelf"
    and "f = Do_wr \<longrightarrow> \<not> wr_hits_ram bd c"
  obtains w' b' where "run_command bd prog stack f (c, w, b) = Some (c, w', b')" "st_ok (fw_steppers w')"
proof (cases f)
  case Do_help
  with that assms(1) show ?thesis by (simp add: run_command_def do_help_def)
next
  case Do_bootelf
  with assms(4) show ?thesis by simp
next
  case Do_rd
  obtain x where "cmdlineGetArgHex 1 c = Some x" using arg_str_total [OF assms(2)] by blast
  with Do_rd that assms(1) show ?thesis
    by (cases "io_in32 (bd_io bd) x b") (simp add: run_command_def do_rd_def)
next
  case Do_wr
  obtain x y where "cmdlineGetArgHex 1 c = Some x" "cmdlineGetArgHex 2 c = Some y"
    using arg_str_total [OF assms(2)] by blast
  with Do_wr that assms(1,5) show ?thesis by (simp add: run_command_def do_wr_def wr_hits_ram_def)
next
  case Do_start
  obtain x v d where "cmdlineGetArgInt 1 c = Some x" "cmdlineGetArgInt 2 c = Some v" "cmdlineGetArgInt 3 c = Some d"
    using arg_str_total [OF assms(2)] by blast
  moreover obtain r s where "steppersQueue (start_target stack (sint x) (sint v) (sint d)) (fw_steppers w) = Some (r, s)"
      "st_ok s"
    by (rule queue_target [OF assms(1) start_target_ok [OF assms(3)]])
  ultimately show ?thesis
    using Do_start that [of "w\<lparr>fw_steppers := s\<rparr>" b] do_start_eq [OF assms(3), of c x v d w r s b]
    by (simp add: run_command_def)
next
  case Do_status
  with that assms(1) show ?thesis
    by (cases "steppersStatus (bd_io bd) (bd_motion bd) b") (simp add: run_command_def do_status_def)
next
  case Do_reset
  with that assms(1) show ?thesis
    by (auto simp: run_command_def do_reset_def steppersReset_def st_ok_def stq_invar_def stq_items_def tgt_ok_def)
qed

lemma commands_safe:
  assumes "cl_ok c" "CmdlineExecFunction c = None \<or> 0 \<in> set (CmdlineBuffer c)" "st_ok (fw_steppers w)"
    "tgt_ok stack" "CmdlineExecFunction c \<noteq> Some Do_bootelf"
  shows "case cmdlineMainLoop (run_command bd prog stack) (c, w, b) of
      None \<Rightarrow> CmdlineExecFunction c = Some Do_wr \<and> wr_hits_ram bd c
    | Some st \<Rightarrow> fw_ok st"
proof (cases "CmdlineExecFunction c")
  case None
  then show ?thesis using assms(1,3) by (simp add: cmdlineMainLoop_def fw_ok_def)
next
  case (Some f)
  then have f: "0 \<in> set (CmdlineBuffer c)" "f \<noteq> Do_bootelf" using assms(2,5) by auto
  show ?thesis
  proof (cases "f = Do_wr \<and> wr_hits_ram bd c")
    case True
    then have "run_command bd prog stack f (c, w, b) = None"
      by (auto simp: run_command_def do_wr_def wr_hits_ram_def split: option.splits bind_splits)
    then show ?thesis using Some True by (simp add: cmdlineMainLoop_def)
  next
    case False
    then obtain w' b' where "run_command bd prog stack f (c, w, b) = Some (c, w', b')" "st_ok (fw_steppers w')"
      using command_safe [OF assms(3) f(1) assms(4) f(2)] by metis
    then show ?thesis using Some assms(1) by (simp add: cmdlineMainLoop_def fw_ok_def)
  qed
qed

lemma main_input_safe:
  assumes "cl_ok c" "CmdlineExecFunction c = None"
  obtains c' b' where "main_input bd (c, b) = Some (c', b')" "cl_ok c'"
    "CmdlineExecFunction c' = None \<or> 0 \<in> set (CmdlineBuffer c')"
proof -
  obtain e b1 where p: "XUartLite_mIsReceiveEmpty (bd_uart bd) b = (e, b1)" by fastforce
  obtain x b2 where x: "XUartLite_mReadReg (bd_uart bd) b1 = (x, b2)" by fastforce
  obtain c' where c': "cmdlineInputFunc (ucast x) c = Some c'" "cl_ok c'"
      "CmdlineExecFunction c' = None \<or> 0 \<in> set (CmdlineBuffer c')"
    by (rule input_safe [OF assms])
  show ?thesis
    using that [of c' b2] that [of c b1] c' assms by (cases e) (simp_all add: main_input_def p x)
qed

text \<open>
  Property C10. Console input cannot break console or planner, with three exceptions. From a state
  in which both are well formed and no command is pending, the next byte is always accepted, and
  one round of the main loop leads to such a state again, for every byte received, every command
  line and every behaviour of the hardware, out-of-range and missing arguments included, unless
  (1) the byte starts \<^verbatim>\<open>bootelf\<close>, which loads and runs foreign code and of which nothing is said
  here; (2) it starts a \<^verbatim>\<open>wr\<close> to an address in the firmware's own memory; (3) the planner dequeues
  a move whose coefficients do not fit their registers or whose debug text does not fit its
  buffer. In the cases (2) and (3) the round is undefined.
\<close>

theorem main_round_safe:
  assumes "fw_ok (c, w, b)" "tgt_ok stack"
  shows "\<exists>c1 b1. main_input bd (c, b) = Some (c1, b1) \<and>
     (CmdlineExecFunction c1 = Some Do_bootelf \<or>
      (case main_round bd prog stack (c, w, b) of
         Some st \<Rightarrow> fw_ok st
       | None \<Rightarrow> CmdlineExecFunction c1 = Some Do_wr \<and> wr_hits_ram bd c1 \<or>
           (\<exists>c2 w2 b2. cmdlineMainLoop (run_command bd prog stack) (c1, w, b1) = Some (c2, w2, b2) \<and>
              st_state (fw_steppers w2) \<in> {STATE_IDLE, STATE_ACTIVE} \<and> 0 < queue_len (fw_steppers w2) \<and>
              plan (current_position (fw_steppers w2)) (hd (stq_items (fw_steppers w2))) = None)))"
proof -
  have ok: "cl_ok c" "CmdlineExecFunction c = None" "st_ok (fw_steppers w)" using assms(1) by (simp_all add: fw_ok_def)
  obtain c1 b1 where c1: "main_input bd (c, b) = Some (c1, b1)" "cl_ok c1"
      "CmdlineExecFunction c1 = None \<or> 0 \<in> set (CmdlineBuffer c1)"
    by (rule main_input_safe [OF ok(1,2)])
  note cs = commands_safe [OF c1(2,3) ok(3) assms(2), of bd prog b1]
  show ?thesis
  proof (cases "CmdlineExecFunction c1 = Some Do_bootelf")
    case False
    note cs = cs [OF this]
    show ?thesis
    proof (cases "cmdlineMainLoop (run_command bd prog stack) (c1, w, b1)")
      case None
      then show ?thesis using c1(1) cs by (simp add: main_round_def)
    next
      case (Some st)
      obtain c2 w2 b2 where st: "st = (c2, w2, b2)" by (cases st)
      have ok2: "cl_ok c2" "CmdlineExecFunction c2 = None" "st_ok (fw_steppers w2)"
        using cs Some by (simp_all add: st fw_ok_def)
      from mainloop_cases [OF ok2(3), of "bd_io bd" "bd_motion bd" b2] show ?thesis
        using Some c1(1) ok2 by (auto simp: main_round_def main_planner_def st fw_ok_def split: option.splits)
    qed
  qed (use c1(1) in simp)
qed

section \<open>Typing a command\<close>

text \<open>
  The receiver of the console as its data sheet describes it: \<open>rxq\<close> are the bytes still to be
  read in the order they were sent, the status register says empty when there is none or when
  the next has not arrived yet (\<open>delay\<close> bounds how often), and reading the FIFO register when
  the status says not empty takes the next one.
\<close>

locale uart_rx =
  fixes u :: "'b uart"
    and avail :: "'b \<Rightarrow> bool"
    and rxq :: "'b \<Rightarrow> u8 list"
    and delay :: "'b \<Rightarrow> nat"
  assumes poll_keeps: "XUartLite_mIsReceiveEmpty u b = (e, b') \<Longrightarrow> rxq b' = rxq b"
    and poll_empty: "XUartLite_mIsReceiveEmpty u b = (True, b') \<Longrightarrow> rxq b = [] \<or> delay b' < delay b"
    and poll_avail: "XUartLite_mIsReceiveEmpty u b = (False, b') \<Longrightarrow> avail b'"
    and read_next: "avail b \<Longrightarrow> XUartLite_mReadReg u b = (x, b') \<Longrightarrow> rxq b = ucast x # rxq b'"

definition at_prompt :: "u8 list \<Rightarrow> command cmdline \<Rightarrow> bool" where
  "at_prompt l c \<longleftrightarrow>
     cl_ok c \<and> cl_line c = l \<and> unat (CmdlineBufferEditPos c) = length l \<and> CmdlineInputVT100State c = 0 \<and>
     CmdlineExecFunction c = None \<and> ed_cmds (cl_abs c) = map cmd_entry fw_commands"

lemma at_prompt_editor:
  "at_prompt l c \<longleftrightarrow>
     cl_ok c \<and> ed_line (cl_abs c) = l \<and> ed_pos (cl_abs c) = length l \<and> ed_vt (cl_abs c) = 0 \<and>
     ed_exec (cl_abs c) = None \<and> ed_cmds (cl_abs c) = map cmd_entry fw_commands"
  by (auto simp: at_prompt_def cl_abs_def unat_eq_0)

lemma prompt_type:
  assumes "at_prompt l c" "printable x" "length l < 48"
  obtains c' where "cmdlineInputFunc x c = Some c'" "at_prompt (l @ [x]) c'"
proof -
  obtain c' where c': "cmdlineInputFunc x c = Some c'" "cl_ok c'" "cl_abs c' = fst (ed_step x (cl_abs c))"
    using sim_step [of c x] assms(1) by (auto simp: cl_sim_def at_prompt_def split: option.splits)
  have "at_prompt (l @ [x]) c'"
    using assms c'(2) unfolding at_prompt_editor c'(3) by (auto simp: ed_step_def ed_insert_def Let_def ascii)
  with that c'(1) show ?thesis .
qed

definition submitted :: "u8 list \<Rightarrow> command \<Rightarrow> command cmdline \<Rightarrow> bool" where
  "submitted l f c \<longleftrightarrow>
     at_prompt [] (c\<lparr>CmdlineExecFunction := None\<rparr>) \<and> CmdlineExecFunction c = Some f \<and>
     0 \<in> set (CmdlineBuffer c) \<and> cstr (CmdlineBuffer c) = l"

lemma prompt_submit:
  assumes "at_prompt l c" "ed_word l \<noteq> []" "ed_lookup (ed_word l) (map cmd_entry fw_commands) = Some (name, Some f)"
  obtains c' where "cmdlineInputFunc ASCII_CR c = Some c'" "submitted l f c'"
proof -
  have c: "cl_ok c" "CmdlineInputVT100State c = 0" using assms(1) by (simp_all add: at_prompt_def)
  obtain c' where c': "cmdlineInputFunc ASCII_CR c = Some c'" "cl_ok c'" "cl_abs c' = fst (ed_step ASCII_CR (cl_abs c))"
    using sim_step [OF c(1), of ASCII_CR] by (auto simp: cl_sim_def split: option.splits)
  have "cmdlineInputFunc ASCII_CR c = cmdlineEnter (c\<lparr>CmdlineInputVT100State := 0\<rparr>)"
    by (rule input_cr) (simp add: c(2))
  then have "cmdlineEnter (c\<lparr>CmdlineInputVT100State := 0\<rparr>) = Some c'" using c'(1) by simp
  moreover have "c\<lparr>CmdlineInputVT100State := 0\<rparr> = c" using c(2) by simp
  ultimately have enter: "cmdlineEnter c = Some c'" by simp
  have vt: "cl_abs c\<lparr>ed_vt := 0\<rparr> = cl_abs c" using cl_abs_vt [of 0 c] c(2) by simp
  have "ed_step ASCII_CR (cl_abs c) = ed_enter (cl_abs c)"
    using assms(1) by (simp add: at_prompt_editor ed_step_def ascii printable_def) (simp only: vt)
  then have "cl_abs c' = cl_abs c\<lparr>ed_line := [], ed_pos := 0, ed_hist := ed_save (cl_abs c), ed_idx := - 1,
      ed_edited := False, ed_exec := Some f\<rparr>"
    using assms c'(3) by (simp add: at_prompt_editor ed_enter_def Let_def)
  moreover have "cl_abs (c'\<lparr>CmdlineExecFunction := None\<rparr>) = cl_abs c'\<lparr>ed_exec := None\<rparr>"
    by (simp add: cl_abs_def cl_line_def)
  ultimately have "submitted l f c'"
    using assms(1) c'(2) enter_text [OF c(1) enter] unfolding submitted_def at_prompt_editor
    by (auto simp: cl_abs_def)
  with that c'(1) show ?thesis .
qed

lemma main_rounds_add:
  "main_rounds bd prog stack (n + m) st = main_rounds bd prog stack n st \<bind> main_rounds bd prog stack m"
  by (induction n arbitrary: st) (simp_all split: bind_splits)

definition planner_off :: "'h firmware \<Rightarrow> bool" where
  "planner_off w \<longleftrightarrow> st_state (fw_steppers w) = STATE_OFF \<and> queue_len (fw_steppers w) = 0"

lemma round_no_command:
  assumes "main_input bd (c, b) = Some (c', b')" "CmdlineExecFunction c' = None" "planner_off w"
  shows "main_round bd prog stack (c, w, b) = Some (c', w, b')"
  using assms
  by (simp add: main_round_def cmdlineMainLoop_def main_planner_def steppersMainLoop_def planner_off_def)

context uart_rx
begin

lemma poll_cases:
  assumes "bd_uart bd = u" "rxq b = x # q"
  obtains (wait) b' where "main_input bd (c, b) = Some (c, b')" "rxq b' = x # q" "delay b' < delay b"
  | (take) b' where "\<And>c'. cmdlineInputFunc x c = Some c' \<Longrightarrow> main_input bd (c, b) = Some (c', b')" "rxq b' = q"
proof -
  obtain e b1 where p: "XUartLite_mIsReceiveEmpty u b = (e, b1)" by fastforce
  note keeps = poll_keeps [OF p]
  show ?thesis
  proof (cases e)
    case True
    then show ?thesis using wait [of b1] p poll_empty [of b b1] keeps assms by (simp add: main_input_def)
  next
    case False
    obtain y b2 where y: "XUartLite_mReadReg u b1 = (y, b2)" by fastforce
    have "rxq b1 = ucast y # rxq b2" using False p poll_avail read_next [OF _ y] by simp
    then show ?thesis using take [of b2] False p y keeps assms by (simp add: main_input_def)
  qed
qed

text \<open>While a byte has not arrived the rounds change nothing.\<close>

lemma wait_for_byte:
  assumes "bd_uart bd = u" "rxq b = x # q" "CmdlineExecFunction c = None" "planner_off w"
  shows "\<exists>n b1 b'. main_rounds bd prog stack n (c, w, b) = Some (c, w, b1) \<and> rxq b' = q \<and>
     (\<forall>c'. cmdlineInputFunc x c = Some c' \<longrightarrow> main_input bd (c, b1) = Some (c', b'))"
  using assms(2)
proof (induction b rule: measure_induct_rule [of delay])
  case (less b)
  show ?case
  proof (rule poll_cases [OF assms(1) less.prems, of c])
    fix b'
    assume wait: "main_input bd (c, b) = Some (c, b')" "rxq b' = x # q" "delay b' < delay b"
    have "main_round bd prog stack (c, w, b) = Some (c, w, b')"
      by (rule round_no_command [OF wait(1) assms(3,4)])
    moreover obtain n b1 b'' where "main_rounds bd prog stack n (c, w, b') = Some (c, w, b1)" "rxq b'' = q"
        "\<forall>c'. cmdlineInputFunc x c = Some c' \<longrightarrow> main_input bd (c, b1) = Some (c', b'')"
      using less.IH [OF wait(3,2)] by blast
    ultimately have "main_rounds bd prog stack (Suc n) (c, w, b) = Some (c, w, b1)" by simp
    then show ?thesis using \<open>rxq b'' = q\<close> \<open>\<forall>c'. _\<close> by blast
  next
    fix b'
    assume "\<And>c'. cmdlineInputFunc x c = Some c' \<Longrightarrow> main_input bd (c, b) = Some (c', b')" "rxq b' = q"
    then have "main_rounds bd prog stack 0 (c, w, b) = Some (c, w, b) \<and> rxq b' = q \<and>
        (\<forall>c'. cmdlineInputFunc x c = Some c' \<longrightarrow> main_input bd (c, b) = Some (c', b'))" by simp
    then show ?thesis by blast
  qed
qed

lemma type_byte:
  assumes "bd_uart bd = u" "rxq b = x # q" "planner_off w" "at_prompt l c" "printable x" "length l < 48"
  obtains n c' b' where "main_rounds bd prog stack n (c, w, b) = Some (c', w, b')" "rxq b' = q"
    "at_prompt (l @ [x]) c'"
proof -
  obtain c' where c': "cmdlineInputFunc x c = Some c'" "at_prompt (l @ [x]) c'"
    by (rule prompt_type [OF assms(4-6)])
  have ex: "CmdlineExecFunction c = None" "CmdlineExecFunction c' = None"
    using assms(4) c'(2) by (simp_all add: at_prompt_def)
  obtain n b1 b' where n: "main_rounds bd prog stack n (c, w, b) = Some (c, w, b1)" "rxq b' = q"
      "main_input bd (c, b1) = Some (c', b')"
    using wait_for_byte [OF assms(1,2) ex(1) assms(3)] c'(1) by blast
  have "main_rounds bd prog stack (n + 1) (c, w, b) = Some (c', w, b')"
    unfolding main_rounds_add using n(1) round_no_command [OF n(3) ex(2) assms(3)] by simp
  then show ?thesis using n(2) c'(2) by (rule that)
qed

lemma type_line:
  assumes "bd_uart bd = u" "planner_off w"
  shows "rxq b = xs @ q \<Longrightarrow> at_prompt l c \<Longrightarrow> \<forall>x \<in> set xs. printable x \<Longrightarrow> length l + length xs \<le> 48 \<Longrightarrow>
     \<exists>n c' b'. main_rounds bd prog stack n (c, w, b) = Some (c', w, b') \<and> rxq b' = q \<and> at_prompt (l @ xs) c'"
proof (induction xs arbitrary: b l c)
  case Nil
  have "main_rounds bd prog stack 0 (c, w, b) = Some (c, w, b)" by simp
  with Nil show ?case by (metis append_Nil append_Nil2)
next
  case (Cons x xs)
  obtain n c1 b1 where n: "main_rounds bd prog stack n (c, w, b) = Some (c1, w, b1)" "rxq b1 = xs @ q"
      "at_prompt (l @ [x]) c1"
    by (rule type_byte [OF assms(1) _ assms(2) Cons.prems(2)]) (use Cons.prems in auto)
  obtain m c' b' where m: "main_rounds bd prog stack m (c1, w, b1) = Some (c', w, b')" "rxq b' = q"
      "at_prompt (l @ x # xs) c'"
    using Cons.IH [OF n(2,3)] Cons.prems(3,4) by auto
  have "main_rounds bd prog stack (n + m) (c, w, b) = Some (c', w, b')"
    using n(1) m(1) by (simp add: main_rounds_add)
  with m(2,3) show ?case by blast
qed

text \<open>A line and ENTER run the command: after some rounds the handler is called on the line.\<close>

lemma type_command:
  assumes "bd_uart bd = u" "planner_off w" "at_prompt [] c" "rxq b = l @ ASCII_CR # q"
    and "\<forall>x \<in> set l. printable x" "length l \<le> 48" "ed_word l \<noteq> []"
    and "ed_lookup (ed_word l) (map cmd_entry fw_commands) = Some (name, Some f)"
  obtains n c' b' where "submitted l f c'" "rxq b' = q"
    "main_rounds bd prog stack n (c, w, b) =
       cmdlineMainLoop (run_command bd prog stack) (c', w, b') \<bind> main_planner bd"
proof -
  obtain n c1 b1 where n: "main_rounds bd prog stack n (c, w, b) = Some (c1, w, b1)" "rxq b1 = ASCII_CR # q"
      "at_prompt l c1"
    using type_line [OF assms(1,2,4,3,5)] assms(6) by force
  obtain c' where c': "cmdlineInputFunc ASCII_CR c1 = Some c'" "submitted l f c'"
    by (rule prompt_submit [OF n(3) assms(7,8)])
  have "CmdlineExecFunction c1 = None" using n(3) by (simp add: at_prompt_def)
  from wait_for_byte [OF assms(1) n(2) this assms(2)] c'(1)
  obtain m b2 b' where m: "main_rounds bd prog stack m (c1, w, b1) = Some (c1, w, b2)" "rxq b' = q"
      "main_input bd (c1, b2) = Some (c', b')" by blast
  have "main_rounds bd prog stack (n + (m + 1)) (c, w, b) =
      cmdlineMainLoop (run_command bd prog stack) (c', w, b') \<bind> main_planner bd"
    unfolding main_rounds_add using n(1) m(1,3) by (simp add: main_round_def split: bind_splits)
  then show ?thesis using that c'(2) m(2) by blast
qed

end

section \<open>The start command, from the keyboard to the planner\<close>

definition int_text :: "int \<Rightarrow> u8 list" where
  "int_text i = (if i < 0 then 0x2D # dec_bytes (nat (- i)) else dec_bytes (nat i))"

definition start_text :: "int \<Rightarrow> int \<Rightarrow> int \<Rightarrow> u8 list" where
  "start_text x v dt =
     map of_char ''start'' @ ASCII_SPACE # int_text x @ ASCII_SPACE # int_text v @ ASCII_SPACE # int_text dt"

lemma dec_digit_text: "d < 10 \<Longrightarrow> printable (dec_digit d) \<and> dec_digit d \<noteq> ASCII_SPACE"
proof -
  assume "d < 10"
  then have "d \<in> {0, 1, 2, 3, 4, 5, 6, 7, 8, 9}" by auto
  then show ?thesis by (auto simp: dec_digit_def printable_def ascii)
qed

lemma int_text_bytes: "c \<in> set (int_text i) \<Longrightarrow> printable c \<and> c \<noteq> ASCII_SPACE"
proof -
  assume c: "c \<in> set (int_text i)"
  have "c \<in> set (dec_bytes n) \<Longrightarrow> printable c \<and> c \<noteq> ASCII_SPACE" for n
    by (drule dec_bytes_digits) (auto simp: dec_digit_text)
  moreover have "printable 0x2D \<and> 0x2D \<noteq> ASCII_SPACE" by (simp add: printable_def ascii)
  ultimately show ?thesis using c unfolding int_text_def by (auto split: if_splits)
qed

lemma int_text_not_empty [simp]: "int_text i \<noteq> []"
proof -
  have "dec_bytes n \<noteq> []" for n by (rule dec_bytes_head [of n]) simp
  then show ?thesis by (simp add: int_text_def)
qed

lemma arg_words_single: "w \<noteq> [] \<Longrightarrow> \<forall>c \<in> set w. c \<noteq> ASCII_SPACE \<Longrightarrow> arg_words w = [w]"
proof -
  assume w: "w \<noteq> []" "\<forall>c \<in> set w. c \<noteq> ASCII_SPACE"
  have "ed_word w = w" "dropWhile (\<lambda>c. c \<noteq> ASCII_SPACE) w = []" "hd w \<noteq> ASCII_SPACE"
    using w by (simp_all add: ed_word_def)
  moreover have "arg_words [] = []" by (subst arg_words.simps) simp
  ultimately show ?thesis using arg_words_word [OF w(1)] by (simp only: not_False_eq_True)
qed

lemma arg_words_cons:
  assumes "w \<noteq> []" "\<forall>c \<in> set w. c \<noteq> ASCII_SPACE"
  shows "arg_words (w @ ASCII_SPACE # l) = w # arg_words l"
proof -
  have "ed_word (w @ ASCII_SPACE # l) = w" "dropWhile (\<lambda>c. c \<noteq> ASCII_SPACE) (w @ ASCII_SPACE # l) = ASCII_SPACE # l"
    using assms(2) by (simp_all add: ed_word_def takeWhile_append2 dropWhile_append2)
  moreover have "hd (w @ ASCII_SPACE # l) \<noteq> ASCII_SPACE" using assms by simp
  moreover have "arg_words (ASCII_SPACE # l) = arg_words l"
    using arg_words_skip [of "ASCII_SPACE # l"] arg_words_skip [of l] by simp
  ultimately show ?thesis using arg_words_word [of "w @ ASCII_SPACE # l"] by simp
qed

lemma start_text_words: "arg_words (start_text x v dt) = [map of_char ''start'', int_text x, int_text v, int_text dt]"
proof -
  have "\<forall>c \<in> set (map of_char ''start''). c \<noteq> ASCII_SPACE" by (simp add: ascii)
  then show ?thesis
    using int_text_bytes unfolding start_text_def by (simp add: arg_words_cons arg_words_single del: list.map)
qed

text \<open>A number argument is read by its value.\<close>

lemma first_word_split:
  "0 \<in> set xs \<Longrightarrow> ed_word (cstr xs) = w \<Longrightarrow>
     \<exists>t rest. xs = w @ t # rest \<and> (t = 0 \<or> t = ASCII_SPACE) \<and> 0 \<in> set (t # rest)"
proof (induction xs arbitrary: w)
  case Nil
  then show ?case by simp
next
  case (Cons x xs)
  show ?case
  proof (cases "x = 0 \<or> x = ASCII_SPACE")
    case True
    then have "w = []" using Cons.prems(2) by (auto simp: cstr_def ed_word_def)
    then show ?thesis using True Cons.prems(1) by auto
  next
    case False
    then have w: "w = x # ed_word (cstr xs)" using Cons.prems(2) by (auto simp: cstr_def ed_word_def)
    have "0 \<in> set xs" using False Cons.prems(1) by auto
    from Cons.IH [OF this refl] show ?thesis unfolding w by fastforce
  qed
qed

lemma int_argument:
  assumes "0 \<in> set (CmdlineBuffer c)" "unat n < length (arg_words (cstr (CmdlineBuffer c)))"
    and "arg_words (cstr (CmdlineBuffer c)) ! unat n = int_text i" "- (2 ^ 31) \<le> i" "i < 2 ^ 31"
  shows "cmdlineGetArgInt n c = Some (of_int i)"
proof -
  obtain j where j: "cmdlineGetArgStr n c = Some j" "0 \<in> set (drop j (CmdlineBuffer c))"
      "ed_word (cstr (drop j (CmdlineBuffer c))) = int_text i"
    using arg_nth_word [OF assms(1), of n] assms(2,3) by auto
  obtain t rest where t: "drop j (CmdlineBuffer c) = int_text i @ t # rest" "t = 0 \<or> t = ASCII_SPACE"
      "0 \<in> set (t # rest)"
    using first_word_split [OF j(2,3)] by blast
  have "c_strtol 10 (int_text i @ t # rest) = of_int i"
    using strtol_decimal [OF t(2,3), of "nat \<bar>i\<bar>"] assms(4,5) by (auto simp: int_text_def split: if_splits)
  then show ?thesis using j(1) t(1) by (simp add: cmdlineGetArgInt_def)
qed

lemma sint_of_int32: "- (2 ^ 31) \<le> i \<Longrightarrow> i < 2 ^ 31 \<Longrightarrow> sint (of_int i :: u32) = i"
  by (simp add: signed_of_int signed_take_bit_int_eq_self)

lemma start_arguments:
  assumes "0 \<in> set (CmdlineBuffer c)" "cstr (CmdlineBuffer c) = start_text x v dt"
    and "\<forall>i \<in> {x, v, dt}. - (2 ^ 31) \<le> i \<and> i < 2 ^ 31"
  shows "cmdlineGetArgInt 1 c = Some (of_int x)" "cmdlineGetArgInt 2 c = Some (of_int v)"
    "cmdlineGetArgInt 3 c = Some (of_int dt)"
  using int_argument [OF assms(1), of _ x] int_argument [OF assms(1), of _ v] int_argument [OF assms(1), of _ dt] assms(3)
  by (simp_all add: assms(2) start_text_words)

lemma start_text_ok:
  "\<forall>c \<in> set (start_text x v dt). printable c" "ed_word (start_text x v dt) = map of_char ''start''"
proof -
  show "\<forall>c \<in> set (start_text x v dt). printable c"
    using int_text_bytes by (auto simp: start_text_def) (simp_all add: printable_def ascii)
  have "\<forall>c \<in> set (map of_char ''start''). c \<noteq> ASCII_SPACE" by (simp add: ascii)
  then show "ed_word (start_text x v dt) = map of_char ''start''"
    unfolding start_text_def ed_word_def by (subst takeWhile_append2) (auto simp: ascii)
qed

lemma at_prompt_print [simp]: "at_prompt l (cmdlinePrintPrompt c) \<longleftrightarrow> at_prompt l c"
  by (simp add: at_prompt_def) (simp add: cmdlinePrintPrompt_def cmdlineOutputFunc_def cl_line_def cl_abs_def)

text \<open>The submitted command and the planner in its off state.\<close>

lemma start_runs:
  assumes "submitted (start_text x v dt) Do_start c" "st_ok (fw_steppers w)" "planner_off w" "tgt_ok stack"
    and "\<forall>i \<in> {x, v, dt}. - (2 ^ 31) \<le> i \<and> i < 2 ^ 31"
  obtains c' w' where "cmdlineMainLoop (run_command bd prog stack) (c, w, b) \<bind> main_planner bd =
      Some (c', w', init_regs (bd_io bd) (bd_motion bd) b)" "at_prompt [] c'"
    "st_state (fw_steppers w') = STATE_IDLE" "stq_items (fw_steppers w') = [start_target stack x v dt]"
proof -
  have c: "0 \<in> set (CmdlineBuffer c)" "cstr (CmdlineBuffer c) = start_text x v dt" "CmdlineExecFunction c = Some Do_start"
      "at_prompt [] (c\<lparr>CmdlineExecFunction := None\<rparr>)"
    using assms(1) by (simp_all add: submitted_def)
  have off: "queue_len (fw_steppers w) = 0" "stq_items (fw_steppers w) = []"
    using assms(3) by (simp_all add: planner_off_def stq_items_def)
  obtain r s where s: "steppersQueue (start_target stack x v dt) (fw_steppers w) = Some (r, s)" "st_ok s"
      "st_state s = STATE_OFF" "stq_items s = [start_target stack x v dt]"
    by (rule queue_target [OF assms(2) start_target_ok [OF assms(4)]])
      (use assms(3) off in \<open>simp add: planner_off_def QUEUE_LEN_def\<close>)
  have "0 < queue_len s" using s(2,4) stq_length [of s] by (simp add: st_ok_def)
  moreover have "do_start stack (c, w, b) = Some (c, w\<lparr>fw_steppers := s\<rparr>, b)"
    using do_start_eq [OF assms(4) start_arguments [OF c(1,2) assms(5)]] s(1) assms(5) by (simp add: sint_of_int32)
  moreover have "tgt_ok (current_position s)" using s(2) by (simp add: st_ok_def)
  ultimately show ?thesis
    using that c(3,4) s(3,4)
    by (simp add: cmdlineMainLoop_def run_command_def main_planner_def steppersMainLoop_def stq_items_def)
qed

text \<open>
  Property C3. From the keyboard to the planner: after the initialisation of \<^verbatim>\<open>main\<close>, typing
  \<^verbatim>\<open>start x v dt\<close> with any three 32-bit integers that fit the line, and ENTER, makes the main loop
  queue exactly one target, with position \<open>x\<close>, velocity \<open>v\<close> and duration \<open>dt\<close>/1000 s on the X
  axis, initialise the controller and return to the prompt, however slowly the bytes arrive;
  the bytes after the line are not consumed.
\<close>

theorem typed_start_queues_move:
  assumes "uart_rx (bd_uart bd) avail rxq delay" "rxq b = start_text x v dt @ ASCII_CR # q"
    and "\<forall>i \<in> {x, v, dt}. - (2 ^ 31) \<le> i \<and> i < 2 ^ 31" "length (start_text x v dt) \<le> 48"
    and "st_ok (fw_steppers w)" "planner_off w" "tgt_ok stack"
  shows "\<exists>c n c' w' b'. main_console cmdline_bss = Some c \<and>
     main_rounds bd prog stack n (c, w, b) = Some (c', w', init_regs (bd_io bd) (bd_motion bd) b') \<and>
     rxq b' = q \<and> at_prompt [] c' \<and> st_state (fw_steppers w') = STATE_IDLE \<and>
     stq_items (fw_steppers w') = [start_target stack x v dt]"
proof -
  obtain c where c: "main_console cmdline_bss = Some c" "cl_ok c" "cl_abs c = fw_editor"
    by (rule main_console_ready)
  have p: "at_prompt [] c" unfolding at_prompt_editor using c(2,3) by (simp add: fw_editor_def)
  have lk: "ed_word (start_text x v dt) \<noteq> []"
      "ed_lookup (ed_word (start_text x v dt)) (map cmd_entry fw_commands) = Some (map of_char ''start'', Some Do_start)"
    unfolding start_text_ok(2) by (simp_all add: ed_lookup_def fw_commands_def)
  obtain n c1 b1 where n: "submitted (start_text x v dt) Do_start c1" "rxq b1 = q"
      "main_rounds bd prog stack n (c, w, b) =
         cmdlineMainLoop (run_command bd prog stack) (c1, w, b1) \<bind> main_planner bd"
    by (rule uart_rx.type_command [OF assms(1) refl assms(6) p assms(2) start_text_ok(1) assms(4) lk])
  obtain c' w' where "cmdlineMainLoop (run_command bd prog stack) (c1, w, b1) \<bind> main_planner bd =
      Some (c', w', init_regs (bd_io bd) (bd_motion bd) b1)" "at_prompt [] c'"
    "st_state (fw_steppers w') = STATE_IDLE" "stq_items (fw_steppers w') = [start_target stack x v dt]"
    by (rule start_runs [OF n(1) assms(5-7,3)])
  with c(1) n(2,3) show ?thesis by auto
qed

section \<open>Witnesses\<close>

text \<open>A console whose bytes arrive after given numbers of polls, beside a register file.\<close>

type_synonym sim_bus = "(nat \<times> u8) list \<times> (u32 \<Rightarrow> u32)"

fun sim_poll :: "sim_bus \<Rightarrow> bool \<times> sim_bus" where
  "sim_poll ([], r) = (True, [], r)"
| "sim_poll ((0, x) # xs, r) = (False, (0, x) # xs, r)"
| "sim_poll ((Suc k, x) # xs, r) = (True, (k, x) # xs, r)"

fun sim_read :: "sim_bus \<Rightarrow> u32 \<times> sim_bus" where
  "sim_read ((0, x) # xs, r) = (ucast x, xs, r)"
| "sim_read st = (0, st)"

definition sim_uart :: "sim_bus uart" where
  "sim_uart = \<lparr>XUartLite_mIsReceiveEmpty = sim_poll, XUartLite_mReadReg = sim_read\<rparr>"

fun sim_avail :: "sim_bus \<Rightarrow> bool" where
  "sim_avail ((0, x) # xs, r) = True"
| "sim_avail st = False"

definition sim_rxq :: "sim_bus \<Rightarrow> u8 list" where
  "sim_rxq b = map snd (fst b)"

definition sim_delay :: "sim_bus \<Rightarrow> nat" where
  "sim_delay b = sum_list (map fst (fst b))"

interpretation sim_rx: uart_rx sim_uart sim_avail sim_rxq sim_delay
proof unfold_locales
  fix b b' e
  assume "XUartLite_mIsReceiveEmpty sim_uart b = (e, b')"
  then show "sim_rxq b' = sim_rxq b" by (cases b rule: sim_poll.cases) (auto simp: sim_uart_def sim_rxq_def)
next
  fix b b'
  assume "XUartLite_mIsReceiveEmpty sim_uart b = (True, b')"
  then show "sim_rxq b = [] \<or> sim_delay b' < sim_delay b"
    by (cases b rule: sim_poll.cases) (auto simp: sim_uart_def sim_rxq_def sim_delay_def)
next
  fix b b'
  assume "XUartLite_mIsReceiveEmpty sim_uart b = (False, b')"
  then show "sim_avail b'" by (cases b rule: sim_poll.cases) (auto simp: sim_uart_def)
next
  fix b x b'
  assume "sim_avail b" "XUartLite_mReadReg sim_uart b = (x, b')"
  moreover have "ucast (ucast (y :: u8) :: u32) = y" for y by (rule bit_word_eqI) (simp add: bit_simps)
  ultimately show "sim_rxq b = ucast x # sim_rxq b'" by (cases b rule: sim_avail.cases) (auto simp: sim_uart_def sim_rxq_def)
qed

definition sim_io :: "sim_bus mmio" where
  "sim_io =
     \<lparr>io_in8 = (\<lambda>a b. (ucast (snd b a), b)), io_in16 = (\<lambda>a b. (ucast (snd b a), b)), io_in32 = (\<lambda>a b. (snd b a, b)),
      io_out8 = (\<lambda>a v b. (fst b, (snd b)(a := ucast v))), io_out16 = (\<lambda>a v b. (fst b, (snd b)(a := ucast v))),
      io_out32 = (\<lambda>a v b. (fst b, (snd b)(a := v)))\<rparr>"

definition sim_board :: "sim_bus board" where
  "sim_board = \<lparr>bd_io = sim_io, bd_uart = sim_uart, bd_spi = [], bd_osram_dev = 1, bd_sd_dev = 0, bd_motion = 0x80000000,
     bd_ram = (\<lambda>a. a < 0x10000)\<rparr>"

definition demo_firmware :: "nat firmware" where
  "demo_firmware =
     \<lparr>fw_steppers = demo_steppers, fw_boot = elf_state, fw_mmc = demo_mmc,
      fw_osram = \<lparr>Spi_OSRAM = demo_xspi, osram_buf = [0]\<rparr>, fw_log = []\<rparr>"

lemma demo_firmware_ok: "st_ok (fw_steppers demo_firmware)" "planner_off demo_firmware" "tgt_ok (demo_target 0)"
  by (simp_all add: demo_firmware_def demo_steppers_def st_ok_def stq_invar_def stq_items_def planner_off_def
      demo_target_def tgt_ok_def QUEUE_LEN_def STEPPERS_NUM_AXES_def)

abbreviation no_return :: "u32 \<Rightarrow> ('h, 'b) world \<Rightarrow> ('h, 'b) world option" where
  "no_return a st \<equiv> None"

theorem main_round_safe_witness:
  "\<exists>c st. main_console cmdline_bss = Some c \<and>
     main_round sim_board no_return (demo_target 0) (c, demo_firmware, [(0, 0x73)], \<lambda>a. 0) = Some st \<and> fw_ok st"
proof -
  obtain c where c: "main_console cmdline_bss = Some c" "cl_ok c" "cl_abs c = fw_editor" by (rule main_console_ready)
  have p: "at_prompt [] c" unfolding at_prompt_editor using c(2,3) by (simp add: fw_editor_def)
  obtain c1 where c1: "cmdlineInputFunc 0x73 c = Some c1" "at_prompt [0x73] c1"
    using prompt_type [OF p, of "0x73"] by (auto simp: printable_def)
  define b :: sim_bus where "b = ([(0, 0x73)], \<lambda>a. 0)"
  have "main_input sim_board (c, b) = Some (c1, ([], \<lambda>a. 0))"
    using c1(1) by (simp add: main_input_def sim_board_def sim_uart_def b_def)
  moreover have ex: "CmdlineExecFunction c1 = None" using c1(2) by (simp add: at_prompt_def)
  moreover have "fw_ok (c, demo_firmware, b)"
    using c(2) p demo_firmware_ok by (simp add: fw_ok_def at_prompt_def)
  ultimately obtain st where "main_round sim_board no_return (demo_target 0) (c, demo_firmware, b) = Some st" "fw_ok st"
    using main_round_safe [of c demo_firmware b "demo_target 0" sim_board no_return] demo_firmware_ok
      round_no_command [OF _ ex demo_firmware_ok(2), of sim_board c b "([], \<lambda>a. 0)" no_return "demo_target 0"]
    by auto
  then show ?thesis using c(1) unfolding b_def by blast
qed

theorem typed_start_queues_move_witness:
  "\<exists>c n c' w' b'. main_console cmdline_bss = Some c \<and>
     main_rounds sim_board no_return (demo_target 0) n
       (c, demo_firmware, map (Pair 2) (start_text 100 (- 5) 1000 @ [ASCII_CR]), \<lambda>a. 0) = Some (c', w', b') \<and>
     stq_items (fw_steppers w') = [start_target (demo_target 0) 100 (- 5) 1000]"
proof -
  have "dec_bytes 100 = [0x31, 0x30, 0x30]" "dec_bytes 5 = [0x35]" "dec_bytes 1000 = [0x31, 0x30, 0x30, 0x30]"
    by (simp_all add: dec_bytes.simps dec_digit_def)
  then have "length (start_text 100 (- 5) 1000) \<le> 48" by (simp add: start_text_def int_text_def)
  moreover have "sim_rxq (map (Pair 2) (start_text 100 (- 5) 1000 @ [ASCII_CR]), \<lambda>a. 0) =
      start_text 100 (- 5) 1000 @ ASCII_CR # []"
    by (simp add: sim_rxq_def comp_def)
  moreover have "uart_rx (bd_uart sim_board) sim_avail sim_rxq sim_delay"
    using sim_rx.uart_rx_axioms by (simp add: sim_board_def)
  ultimately show ?thesis
    using typed_start_queues_move [of sim_board sim_avail sim_rxq sim_delay
        "(map (Pair 2) (start_text 100 (- 5) 1000 @ [ASCII_CR]), \<lambda>a. 0)" 100 "- 5" 1000 "[]"
        demo_firmware "demo_target 0" no_return] demo_firmware_ok
    by fastforce
qed

end
