(* ===== verification/Kern_Queue.thy ===== *)
theory Kern_Queue
  imports Prelude Fifo "HOL-Library.Multiset"
begin

text \<open>
  The queues of the kernel, \<^verbatim>\<open>src/bsp/xilkernel_v4_00_a/src/src/sys/queue.c\<close>: circular FIFO queues of
  processes and of messages, deletion from the middle, and the wait queues, which are binary
  heaps ordered by the priority in the process table. A process identifier is a \<^verbatim>\<open>signed char\<close>,
  here the byte; 255 is -1. The memory behind \<^verbatim>\<open>items\<close> is the list of its cells. \<open>None\<close> is an
  access outside that memory or the process table, or a division by zero.
\<close>

section \<open>Data\<close>

record 'a kqueue =
  item_size :: u16
  max_items :: u8
  item_count :: u8
  qfront :: u8
  qend :: u8
  q_items :: "'a list"

type_synonym pid = u8

datatype proc_state = PROC_NEW | PROC_RUN | PROC_READY | PROC_WAIT | PROC_TIMED_WAIT | PROC_DELAY | PROC_DEAD

text \<open>The error codes the kernel leaves in \<^verbatim>\<open>errno\<close>.\<close>

datatype errno = EINVAL | EAGAIN | ENOSPC | EEXIST | ENOTSUP | ENOENT | EIDRM | ETIMEDOUT | EBUSY | EPERM | ESRCH | E2BIG

text \<open>The queues a process can be blocked on, for the pointer \<^verbatim>\<open>blockq\<close>.\<close>

datatype qref = Sem_q nat | Mutex_q nat | Join_q nat

record process_struct =
  pr_state :: proc_state
  pr_pid :: pid
  priority :: int
  is_allocated :: bool
  blockq :: "qref option"
  timeout :: bool
  remain :: u32
  isrflag :: bool
  pr_thread :: "nat option"
  pr_errno :: "errno option"

section \<open>FIFO queues\<close>

definition alloc_q :: "'a list \<Rightarrow> u8 \<Rightarrow> u16 \<Rightarrow> 'a kqueue" where
  "alloc_q mem max_i sz =
     \<lparr>item_size = sz, max_items = max_i, item_count = 0, qfront = 0, qend = 0, q_items = mem\<rparr>"

definition qinit :: "'a kqueue \<Rightarrow> 'a kqueue" where
  "qinit q = q\<lparr>item_count := 0, qfront := 0, qend := 0\<rparr>"

text \<open>\<open>(i + 1) % max_items\<close>, computed as an \<^verbatim>\<open>int\<close>.\<close>

definition q_next :: "u8 \<Rightarrow> u8 \<Rightarrow> u8 option" where
  "q_next max_i i = (if max_i = 0 then None else Some (of_nat ((unat i + 1) mod unat max_i)))"

definition enq :: "'a kqueue \<Rightarrow> 'a \<Rightarrow> 'a kqueue option" where
  "enq q item =
     (if item_count q = max_items q then Some q
      else
        do { xs \<leftarrow> arr_set (q_items q) (unat (qend q)) item;
             e \<leftarrow> q_next (max_items q) (qend q);
             Some (q\<lparr>q_items := xs, qend := e, item_count := item_count q + 1\<rparr>) })"

text \<open>\<^verbatim>\<open>deq\<close> leaves the destination alone when the queue is empty: the item is \<open>None\<close>.\<close>

definition deq :: "'a kqueue \<Rightarrow> ('a option \<times> 'a kqueue) option" where
  "deq q =
     (if item_count q = 0 then Some (None, q)
      else
        do { x \<leftarrow> arr_get (q_items q) (unat (qfront q));
             f \<leftarrow> q_next (max_items q) (qfront q);
             Some (Some x, q\<lparr>qfront := f, item_count := item_count q - 1\<rparr>) })"

definition penq :: "pid kqueue \<Rightarrow> pid \<Rightarrow> pid kqueue option" where
  "penq q item =
     (if item_count q = max_items q then Some q
      else
        do { xs \<leftarrow> arr_set (q_items q) (unat (qend q)) item;
             e \<leftarrow> q_next (max_items q) (qend q);
             Some (q\<lparr>q_items := xs, qend := e, item_count := item_count q + 1\<rparr>) })"

definition pdeq :: "pid kqueue \<Rightarrow> (pid \<times> pid kqueue) option" where
  "pdeq q =
     (if item_count q = 0 then Some (255, q)
      else
        do { x \<leftarrow> arr_get (q_items q) (unat (qfront q));
             f \<leftarrow> q_next (max_items q) (qfront q);
             Some (x, q\<lparr>qfront := f, item_count := item_count q - 1\<rparr>) })"

text \<open>The two loops of \<^verbatim>\<open>pdelq\<close>: the search, and the shift of the entries behind the hole.\<close>

fun pdelq_find :: "u8 \<Rightarrow> pid list \<Rightarrow> pid \<Rightarrow> nat \<Rightarrow> u8 \<Rightarrow> (nat \<times> u8) option" where
  "pdelq_find max_i xs item 0 f = Some (0, f)"
| "pdelq_find max_i xs item (Suc n) f =
     do { x \<leftarrow> arr_get xs (unat f);
          if item \<noteq> x then do { f' \<leftarrow> q_next max_i f; pdelq_find max_i xs item n f' }
          else Some (Suc n, f) }"

partial_function (option) pdelq_shift :: "u8 \<Rightarrow> u8 \<Rightarrow> u8 \<Rightarrow> pid list \<Rightarrow> pid list option" where
  "pdelq_shift max_i e f xs =
     (if f \<noteq> e then
        do { f' \<leftarrow> q_next max_i f; x \<leftarrow> arr_get xs (unat f'); xs \<leftarrow> arr_set xs (unat f) x;
             pdelq_shift max_i e f' xs }
      else Some xs)"

definition pdelq :: "pid kqueue \<Rightarrow> pid \<Rightarrow> (int \<times> pid kqueue) option" where
  "pdelq q item =
     (if item_count q = 0 then Some (- 1, q)
      else
        do { (n, f) \<leftarrow> pdelq_find (max_items q) (q_items q) item (unat (item_count q)) (qfront q);
             if n = 0 then Some (- 1, q)
             else
               do { q \<leftarrow>
                      (if f = qfront q then do { f' \<leftarrow> q_next (max_items q) f; Some (q\<lparr>qfront := f'\<rparr>) }
                       else
                         do { xs \<leftarrow> pdelq_shift (max_items q) (qend q) f (q_items q);
                              Some (q\<lparr>q_items := xs,
                                     qend := of_nat ((unat (qend q) + unat (max_items q) - 1) mod unat (max_items q))\<rparr>) });
                    Some (0, q\<lparr>item_count := item_count q - 1\<rparr>) } })"

section \<open>Wait queues\<close>

definition pid_index :: "pid \<Rightarrow> nat option" where
  "pid_index p = (if sint p < 0 then None else Some (nat (sint p)))"

definition get_proc :: "process_struct list \<Rightarrow> pid \<Rightarrow> process_struct option" where
  "get_proc ptable p = do { i \<leftarrow> pid_index p; arr_get ptable i }"

definition set_proc :: "process_struct list \<Rightarrow> pid \<Rightarrow> process_struct \<Rightarrow> process_struct list option" where
  "set_proc ptable p pr = do { i \<leftarrow> pid_index p; arr_set ptable i pr }"

definition PROC_PRIO :: "process_struct list \<Rightarrow> pid \<Rightarrow> int option" where
  "PROC_PRIO ptable p = do { pr \<leftarrow> get_proc ptable p; Some (priority pr) }"

definition LEFT_CHILD :: "nat \<Rightarrow> nat" where "LEFT_CHILD i = 2 * i + 1"
definition RIGHT_CHILD :: "nat \<Rightarrow> nat" where "RIGHT_CHILD i = 2 * i + 2"
definition PARENT :: "nat \<Rightarrow> nat" where "PARENT i = (i - 1) div 2"

definition swap :: "'a list \<Rightarrow> nat \<Rightarrow> nat \<Rightarrow> 'a list option" where
  "swap xs i j =
     do { x \<leftarrow> arr_get xs i; y \<leftarrow> arr_get xs j; xs \<leftarrow> arr_set xs i y; arr_set xs j x }"

function (sequential) sift_up :: "(pid \<Rightarrow> int option) \<Rightarrow> nat \<Rightarrow> pid list \<Rightarrow> pid list option" where
  "sift_up prio cur xs =
     (if cur \<noteq> 0 then
        do { x \<leftarrow> arr_get xs cur; y \<leftarrow> arr_get xs (PARENT cur); px \<leftarrow> prio x; py \<leftarrow> prio y;
             if px < py then do { xs \<leftarrow> swap xs cur (PARENT cur); sift_up prio (PARENT cur) xs }
             else Some xs }
      else Some xs)"
  by pat_completeness auto
termination
  by (relation "measure (\<lambda>(prio, cur, xs). cur)") (auto simp: PARENT_def)

definition prio_penq :: "process_struct list \<Rightarrow> pid kqueue \<Rightarrow> pid \<Rightarrow> pid kqueue option" where
  "prio_penq ptable q item =
     (if item_count q = max_items q then Some q
      else
        do { xs \<leftarrow> arr_set (q_items q) (unat (qend q)) item;
             xs \<leftarrow> sift_up (PROC_PRIO ptable) (unat (qend q)) xs;
             Some (q\<lparr>q_items := xs, qend := qend q + 1, item_count := item_count q + 1\<rparr>) })"

text \<open>
  The loop of \<^verbatim>\<open>prio_pdeq\<close> over a heap whose last index is \<open>e\<close>; the selected child is kept in a
  \<^verbatim>\<open>signed char\<close>, so an index above 127 would be negative.
\<close>

definition pick_child :: "(pid \<Rightarrow> int option) \<Rightarrow> nat \<Rightarrow> nat \<Rightarrow> pid list \<Rightarrow> nat option" where
  "pick_child prio e cur xs =
     do { l \<leftarrow>
            (if RIGHT_CHILD cur > e then Some True
             else
               do { x \<leftarrow> arr_get xs (LEFT_CHILD cur); y \<leftarrow> arr_get xs (RIGHT_CHILD cur);
                    px \<leftarrow> prio x; py \<leftarrow> prio y; Some (px \<le> py) });
          let slct = (if l then LEFT_CHILD cur else RIGHT_CHILD cur);
          if slct < 128 then Some slct else None }"

lemma pick_child_greater: "pick_child prio e cur xs = Some s \<Longrightarrow> cur < s"
  by (auto simp: pick_child_def Let_def LEFT_CHILD_def RIGHT_CHILD_def split: bind_splits if_splits)

function (sequential) sift_down :: "(pid \<Rightarrow> int option) \<Rightarrow> nat \<Rightarrow> nat \<Rightarrow> pid list \<Rightarrow> pid list option" where
  "sift_down prio e cur xs =
     (if LEFT_CHILD cur \<le> e then
        (case pick_child prio e cur xs of
           None \<Rightarrow> None
         | Some slct \<Rightarrow>
             do { x \<leftarrow> arr_get xs slct; y \<leftarrow> arr_get xs cur; px \<leftarrow> prio x; py \<leftarrow> prio y;
                  if px \<le> py then do { xs \<leftarrow> swap xs cur slct; sift_down prio e slct xs }
                  else Some xs })
      else Some xs)"
  by pat_completeness auto
termination
  by (relation "measure (\<lambda>(prio, e, cur, xs). e - cur)") (auto simp: LEFT_CHILD_def dest!: pick_child_greater)

definition prio_pdeq :: "process_struct list \<Rightarrow> pid kqueue \<Rightarrow> (pid \<times> pid kqueue) option" where
  "prio_pdeq ptable q =
     (if item_count q = 0 then Some (255, q)
      else if qend q = 0 then None
      else
        do { ret \<leftarrow> arr_get (q_items q) 0;
             x \<leftarrow> arr_get (q_items q) (unat (qend q) - 1);
             xs \<leftarrow> arr_set (q_items q) 0 x;
             xs \<leftarrow> sift_down (PROC_PRIO ptable) (unat (qend q) - 1) 0 xs;
             Some (ret, q\<lparr>q_items := xs, qend := qend q - 1, item_count := item_count q - 1\<rparr>) })"

text \<open>The search and the way up of \<^verbatim>\<open>prio_pdelq\<close>.\<close>

fun find_pid :: "pid list \<Rightarrow> pid \<Rightarrow> nat \<Rightarrow> nat \<Rightarrow> nat option" where
  "find_pid xs item i 0 = Some i"
| "find_pid xs item i (Suc n) =
     do { x \<leftarrow> arr_get xs i; if x = item then Some i else find_pid xs item (Suc i) n }"

function (sequential) move_up :: "nat \<Rightarrow> pid list \<Rightarrow> pid list option" where
  "move_up i xs = (if i \<noteq> 0 then do { xs \<leftarrow> swap xs i (PARENT i); move_up (PARENT i) xs } else Some xs)"
  by pat_completeness auto
termination
  by (relation "measure fst") (auto simp: PARENT_def)

definition set_prio :: "process_struct list \<Rightarrow> pid \<Rightarrow> int \<Rightarrow> process_struct list option" where
  "set_prio ptable p v = do { pr \<leftarrow> get_proc ptable p; set_proc ptable p (pr\<lparr>priority := v\<rparr>) }"

definition prio_pdelq ::
  "process_struct list \<Rightarrow> pid kqueue \<Rightarrow> pid \<Rightarrow> (int \<times> process_struct list \<times> pid kqueue) option" where
  "prio_pdelq ptable q item =
     (if item_count q = 0 then Some (- 1, ptable, q)
      else
        do { i \<leftarrow> find_pid (q_items q) item 0 (unat (item_count q));
             if i = unat (item_count q) then Some (- 1, ptable, q)
             else
               do { x \<leftarrow> arr_get (q_items q) i; priosave \<leftarrow> PROC_PRIO ptable x;
                    ptable \<leftarrow> set_prio ptable x (- 1);
                    xs \<leftarrow> move_up i (q_items q);
                    (tmp, q) \<leftarrow> prio_pdeq ptable (q\<lparr>q_items := xs\<rparr>);
                    ptable \<leftarrow> set_prio ptable tmp priosave;
                    Some (0, ptable, q) } })"

declare sift_up.simps [simp del] sift_down.simps [simp del] move_up.simps [simp del]

section \<open>The circular queue as a list\<close>

definition q_ok :: "'a kqueue \<Rightarrow> bool" where
  "q_ok q \<longleftrightarrow>
     0 < unat (max_items q) \<and> unat (max_items q) \<le> length (q_items q) \<and> unat (qfront q) < unat (max_items q) \<and>
     unat (item_count q) \<le> unat (max_items q) \<and>
     unat (qend q) = (unat (qfront q) + unat (item_count q)) mod unat (max_items q)"

definition q_list :: "'a kqueue \<Rightarrow> 'a list" where
  "q_list q = map (\<lambda>k. q_items q ! ((unat (qfront q) + k) mod unat (max_items q))) [0..<unat (item_count q)]"

lemma length_q_list [simp]: "length (q_list q) = unat (item_count q)"
  by (simp add: q_list_def)

lemma unat_u8: "unat (w :: u8) < 256"
  using unsigned_less [of w] by simp

lemma q_next_eq: "0 < unat m \<Longrightarrow> q_next m i = Some (of_nat ((unat i + 1) mod unat m))"
  by (auto simp: q_next_def unat_eq_0)

lemma unat_mod_max: "0 < unat (m :: u8) \<Longrightarrow> unat (of_nat (k mod unat m) :: u8) = k mod unat m"
  using order_less_trans [OF mod_less_divisor unat_u8 [of m]] by (intro unat_of_nat_eq_small) simp

text \<open>Two positions less than one turn apart are different cells.\<close>

lemma mod_cells_differ:
  fixes f a b m :: nat
  assumes "b < a" "a < b + m"
  shows "(f + a) mod m \<noteq> (f + b) mod m"
proof
  assume "(f + a) mod m = (f + b) mod m"
  then have "m dvd (f + a) - (f + b)" using assms(1) by (simp add: mod_eq_dvd_iff_nat)
  then have "m dvd a - b" by simp
  then have "m \<le> a - b" using assms(1) by (intro dvd_imp_le) simp_all
  then show False using assms by simp
qed

lemma q_count_Suc: "unat (item_count q) < unat (max_items q) \<Longrightarrow> unat (item_count q + 1) = unat (item_count q) + 1"
  using unat_u8 [of "max_items q"] unat_Suc_small [of "item_count q"] by simp

lemma enq_list:
  assumes "q_ok q"
  shows "\<exists>q'. enq q x = Some q' \<and> q_ok q' \<and> max_items q' = max_items q \<and>
     q_list q' = (if unat (item_count q) < unat (max_items q) then q_list q @ [x] else q_list q)"
proof (cases "unat (item_count q) < unat (max_items q)")
  case False
  then have "item_count q = max_items q" using assms by (simp add: q_ok_def word_unat_eq_iff)
  then show ?thesis using assms by (simp add: enq_def)
next
  case True
  define m f n where "m = unat (max_items q)" and "f = unat (qfront q)" and "n = unat (item_count q)"
  have ok: "0 < m" "m \<le> length (q_items q)" "f < m" "n < m" "unat (qend q) = (f + n) mod m"
    using assms True by (simp_all add: q_ok_def m_def f_def n_def)
  define q' where "q' = q\<lparr>q_items := (q_items q)[(f + n) mod m := x],
      qend := of_nat (((f + n) mod m + 1) mod m), item_count := item_count q + 1\<rparr>"
  have lt: "(f + n) mod m < length (q_items q)" using mod_less_divisor [of m "f + n"] ok(1,2) by linarith
  have "item_count q \<noteq> max_items q" using True by auto
  then have "enq q x = Some q'"
    using ok lt by (simp add: enq_def q_next_eq m_def array_simps q'_def)
  moreover have "q_ok q'"
    using assms True ok by (simp add: q_ok_def q'_def q_count_Suc m_def n_def f_def unat_mod_max mod_Suc_eq)
  moreover have "q_list q' = q_list q @ [x]"
  proof (rule nth_equalityI)
    show "length (q_list q') = length (q_list q @ [x])" using True by (simp add: q'_def q_count_Suc)
    fix k
    assume "k < length (q_list q')"
    then have k: "k \<le> n" using True by (simp add: q'_def q_count_Suc n_def)
    have "(f + k) mod m \<noteq> (f + n) mod m" if "k < n"
      using mod_cells_differ [of k n m f] that ok(4) by simp
    then show "q_list q' ! k = (q_list q @ [x]) ! k"
      using k lt True by (auto simp: q_list_def q'_def q_count_Suc nth_append simp flip: f_def n_def m_def)
  qed
  ultimately show ?thesis using True by (intro exI [of _ q']) (simp add: q'_def)
qed

lemma deq_list:
  assumes "q_ok q"
  shows "\<exists>q'. deq q = Some (if q_list q = [] then None else Some (hd (q_list q)), q') \<and> q_ok q' \<and>
     max_items q' = max_items q \<and> q_list q' = tl (q_list q)"
proof (cases "unat (item_count q)")
  case 0
  then have "item_count q = 0" by (simp add: unat_eq_0)
  then show ?thesis using assms by (simp add: deq_def q_list_def)
next
  case (Suc n)
  define m f where "m = unat (max_items q)" and "f = unat (qfront q)"
  have ok: "0 < m" "m \<le> length (q_items q)" "f < m" "n < m" "unat (qend q) = (f + Suc n) mod m"
    using assms Suc by (simp_all add: q_ok_def m_def f_def)
  define q' where "q' = q\<lparr>qfront := of_nat ((f + 1) mod m), item_count := item_count q - 1\<rparr>"
  have nz: "item_count q \<noteq> 0" using Suc by auto
  have cnt: "unat (item_count q - 1) = n" using Suc by (simp add: unat_pred_pos)
  have eq: "deq q = Some (Some (q_items q ! f), q')"
    using ok nz by (simp add: deq_def q_next_eq m_def f_def array_simps q'_def)
  have "q_ok q'"
    using assms ok by (simp add: q_ok_def q'_def cnt m_def f_def unat_mod_max mod_add_left_eq)
  moreover have "q_list q' = map (\<lambda>k. q_items q ! ((f + Suc k) mod m)) [0..<n]"
    using ok(1) by (auto simp: q_list_def q'_def cnt m_def f_def unat_mod_max mod_add_left_eq)
  then have "q_items q ! f # q_list q' = q_list q"
    unfolding q_list_def [of q] Suc using ok(3)
    by (simp add: upt_conv_Cons map_Suc_upt [symmetric] comp_def del: upt_Suc flip: m_def f_def)
  then have "q_list q = q_items q ! f # q_list q'" by simp
  ultimately show ?thesis using eq by (intro exI [of _ q']) (simp add: q'_def)
qed

lemma penq_enq: "penq q x = enq q x"
  by (simp add: penq_def enq_def)

lemma pdeq_deq: "pdeq q = map_option (\<lambda>(x, q). (case x of None \<Rightarrow> 255 | Some x \<Rightarrow> x, q)) (deq q)"
  by (auto simp: pdeq_def deq_def split: bind_splits)

text \<open>The FIFO contract.\<close>

definition kq_put :: "'a \<Rightarrow> 'a kqueue \<Rightarrow> 'a kqueue option" where
  "kq_put x q = (if item_count q = max_items q then None else enq q x)"

definition kq_take :: "'a kqueue \<Rightarrow> ('a \<times> 'a kqueue) option" where
  "kq_take q = (case deq q of Some (Some x, q') \<Rightarrow> Some (x, q') | _ \<Rightarrow> None)"

interpretation kq: bounded_fifo kq_put kq_take q_list "\<lambda>q. q_ok q \<and> unat (max_items q) = m" m for m
proof unfold_locales
  fix q :: "'a kqueue"
  assume "q_ok q \<and> unat (max_items q) = m"
  then show "length (q_list q) \<le> m" by (auto simp: q_ok_def)
next
  fix q :: "'a kqueue" and x
  assume "q_ok q \<and> unat (max_items q) = m" "length (q_list q) = m"
  then show "kq_put x q = None" by (auto simp: kq_put_def word_unat_eq_iff)
next
  fix q :: "'a kqueue" and x
  assume "q_ok q \<and> unat (max_items q) = m" "length (q_list q) < m"
  then show "\<exists>q'. kq_put x q = Some q' \<and> (q_ok q' \<and> unat (max_items q') = m) \<and> q_list q' = q_list q @ [x]"
    using enq_list [of q x] by (auto simp: kq_put_def)
next
  fix q :: "'a kqueue"
  assume "q_ok q \<and> unat (max_items q) = m" "q_list q = []"
  then show "kq_take q = None" using deq_list [of q] by (auto simp: kq_take_def)
next
  fix q :: "'a kqueue" and y ys
  assume "q_ok q \<and> unat (max_items q) = m" "q_list q = y # ys"
  then show "\<exists>q'. kq_take q = Some (y, q') \<and> (q_ok q' \<and> unat (max_items q') = m) \<and> q_list q' = ys"
    using deq_list [of q] by (auto simp: kq_take_def)
qed

section \<open>Deletion from the middle\<close>

lemma pdelq_find_eq:
  assumes "0 < unat m" "unat m \<le> length xs"
  shows "k \<le> n \<Longrightarrow> unat f = (f0 + k) mod unat m \<Longrightarrow>
     pdelq_find m xs item (n - k) f =
       (case find (\<lambda>i. xs ! ((f0 + i) mod unat m) = item) [k..<n] of
          None \<Rightarrow> Some (0, of_nat ((f0 + n) mod unat m))
        | Some i \<Rightarrow> Some (n - i, of_nat ((f0 + i) mod unat m)))"
proof (induction "n - k" arbitrary: k f)
  case 0
  then have "k = n" by simp
  moreover have "f = of_nat ((f0 + k) mod unat m)" unfolding "0.prems"(2) [symmetric] by simp
  ultimately show ?case by simp
next
  case (Suc d)
  have lt: "(f0 + k) mod unat m < length xs" using mod_less_divisor [OF assms(1), of "f0 + k"] assms(2) by linarith
  have nk: "n - k = Suc d" "d = n - Suc k" "k < n" "Suc k \<le> n" using Suc.hyps(2) by simp_all
  have f: "f = of_nat ((f0 + k) mod unat m)" unfolding Suc.prems(2) [symmetric] by simp
  show ?case
  proof (cases "xs ! ((f0 + k) mod unat m) = item")
    case True
    then show ?thesis
      using lt nk Suc.prems(2) f by (simp add: array_simps upt_conv_Cons)
  next
    case False
    define f' :: u8 where "f' = of_nat ((unat f + 1) mod unat m)"
    have "unat f' = (f0 + Suc k) mod unat m"
      using Suc.prems(2) assms(1) by (simp add: f'_def unat_mod_max mod_Suc_eq)
    moreover have "q_next m f = Some f'" using q_next_eq [OF assms(1), of f] by (simp add: f'_def)
    ultimately show ?thesis
      using Suc.hyps(1) [OF nk(2,4), of f'] lt nk Suc.prems(2) False by (simp add: array_simps upt_conv_Cons)
  qed
qed

lemma pdelq_shift_eq:
  assumes "0 < unat m" "unat m \<le> length xs" "0 < k" "k \<le> n" "n \<le> unat m"
    and "unat f = (f0 + k) mod unat m" "unat e = (f0 + n) mod unat m" "f0 < unat m"
  shows "\<exists>ys. pdelq_shift m e f xs = Some ys \<and> length ys = length xs \<and>
     (\<forall>j < unat m. ys ! ((f0 + j) mod unat m) =
        (if k \<le> j \<and> j < n then xs ! ((f0 + j + 1) mod unat m) else xs ! ((f0 + j) mod unat m)))"
  using assms(2-4,6)
proof (induction "n - k" arbitrary: k f xs)
  case 0
  then have "f = e" using assms(7) by (simp add: word_unat_eq_iff)
  then show ?case using 0 by (subst pdelq_shift.simps) auto
next
  case (Suc d)
  define c where "c = (\<lambda>j. (f0 + j) mod unat m)"
  have nk: "d = n - Suc k" "k < n" using Suc.hyps(2) by simp_all
  have lt: "c j < length xs" for j
    using mod_less_divisor [OF assms(1), of "f0 + j"] Suc.prems(1) unfolding c_def by linarith
  have ne: "f \<noteq> e"
    using mod_cells_differ [of k n "unat m" f0] nk Suc.prems(2,4) assms(5,7) by auto
  define f' :: u8 where "f' = of_nat ((unat f + 1) mod unat m)"
  have f': "unat f' = c (Suc k)" "unat f = c k"
    using Suc.prems(4) assms(1) by (simp_all add: f'_def unat_mod_max mod_Suc_eq c_def)
  have nx: "q_next m f = Some f'" using q_next_eq [OF assms(1), of f] by (simp add: f'_def)
  define zs where "zs = xs[c k := xs ! c (Suc k)]"
  have "pdelq_shift m e f xs = pdelq_shift m e f' zs"
    using ne lt f' nx by (subst pdelq_shift.simps) (simp add: array_simps zs_def)
  moreover obtain ys where ys: "pdelq_shift m e f' zs = Some ys" "length ys = length xs"
      "\<forall>j < unat m. ys ! c j = (if Suc k \<le> j \<and> j < n then zs ! c (j + 1) else zs ! c j)"
    using Suc.hyps(1) [OF nk(1), of zs f'] Suc.prems nk f'(1) unfolding c_def zs_def by (auto simp: add.assoc)
  moreover have "ys ! c j = (if k \<le> j \<and> j < n then xs ! c (j + 1) else xs ! c j)" if "j < unat m" for j
  proof -
    consider "j = k" | "j < k" | "k < j" by linarith
    moreover have "c (j + 1) \<noteq> c k" if "k < j" "j < n"
      using mod_cells_differ [of k "j + 1" "unat m" f0] that Suc.prems(2) assms(5) by (simp add: c_def)
    moreover have "c j \<noteq> c k" if "j \<noteq> k"
      using mod_cells_differ [of k j "unat m" f0] mod_cells_differ [of j k "unat m" f0] that \<open>j < unat m\<close> nk assms(5)
      by (cases "j < k") (auto simp: c_def)
    ultimately show ?thesis
      using ys(3) that lt [of k] nk(2) by cases (auto simp: zs_def nth_list_update)
  qed
  ultimately show ?case by (simp add: c_def add.assoc)
qed

lemma find_upt_first:
  assumes "find P [0..<n] = Some i"
  shows "i < n" "P i" "\<forall>j < i. \<not> P j"
  using assms by (auto simp: find_Some_iff)

lemma remove1_nth:
  assumes "i < length xs" "xs ! i = x" "\<forall>j < i. xs ! j \<noteq> x"
  shows "remove1 x xs = take i xs @ drop (Suc i) xs"
proof -
  have "x \<notin> set (take i xs)" using assms(1,3) by (auto simp: in_set_conv_nth)
  then have "remove1 x (take i xs @ x # drop (Suc i) xs) = take i xs @ drop (Suc i) xs" by (simp add: remove1_append)
  then show ?thesis using id_take_nth_drop [OF assms(1)] assms(2) by simp
qed

lemma mod_cell_before:
  fixes m n f :: nat
  assumes "0 < n" "0 < m"
  shows "((f + n) mod m + m - 1) mod m = (f + (n - 1)) mod m"
proof -
  have "((f + n) mod m + m - 1) mod m = ((f + n) mod m + (m - 1)) mod m" using assms(2) by simp
  also have "\<dots> = (f + n + (m - 1)) mod m" by (simp add: mod_add_left_eq)
  also have "f + n + (m - 1) = f + (n - 1) + m" using assms by simp
  finally show ?thesis by simp
qed

lemma shifted_cells:
  assumes "i < n" "\<forall>j < n - 1. ys ! c j = (if i \<le> j then xs ! c (j + 1) else xs ! c j)"
  shows "map (\<lambda>k. ys ! c k) [0..<n - 1] =
    take i (map (\<lambda>k. xs ! c k) [0..<n]) @ drop (Suc i) (map (\<lambda>k. xs ! c k) [0..<n])"
  by (rule nth_equalityI) (use assms in \<open>auto simp: nth_append min_def\<close>)

lemma pdelq_list:
  assumes "q_ok q"
  shows "\<exists>r q'. pdelq q x = Some (r, q') \<and> q_ok q' \<and> max_items q' = max_items q \<and>
     r = (if x \<in> set (q_list q) then 0 else - 1) \<and> q_list q' = remove1 x (q_list q)"
proof -
  define m f n where "m = unat (max_items q)" and "f = unat (qfront q)" and "n = unat (item_count q)"
  define c where "c = (\<lambda>j. (f + j) mod m)"
  have ok: "0 < m" "m \<le> length (q_items q)" "f < m" "n \<le> m" "unat (qend q) = c n"
    using assms by (simp_all add: q_ok_def m_def f_def n_def c_def)
  have ql: "q_list q = map (\<lambda>k. q_items q ! c k) [0..<n]" by (simp add: q_list_def c_def m_def f_def n_def)
  have c0: "c 0 = f" using ok(3) by (simp add: c_def)
  have find: "pdelq_find (max_items q) (q_items q) x n (qfront q) =
      (case find (\<lambda>i. q_items q ! c i = x) [0..<n] of
         None \<Rightarrow> Some (0, of_nat (c n)) | Some i \<Rightarrow> Some (n - i, of_nat (c i)))"
    using pdelq_find_eq [of "max_items q" "q_items q" 0 n "qfront q" "unat (qfront q)" x] ok
    unfolding c_def m_def f_def by simp
  show ?thesis
  proof (cases "find (\<lambda>i. q_items q ! c i = x) [0..<n]")
    case None
    then have "x \<notin> set (q_list q)" by (auto simp: ql find_None_iff)
    moreover have "pdelq q x = Some (- 1, q)" using None find by (simp add: pdelq_def flip: n_def)
    ultimately show ?thesis using assms by (simp add: remove1_idem)
  next
    case (Some i)
    note i = find_upt_first [OF Some]
    have mem: "x \<in> set (q_list q)" using i by (auto simp: ql)
    have rm: "remove1 x (q_list q) = take i (q_list q) @ drop (Suc i) (q_list q)"
      using i by (intro remove1_nth) (auto simp: ql)
    have cnt: "item_count q \<noteq> 0" "unat (item_count q - 1) = n - 1"
      using i(1) by (auto simp: n_def unat_pred_pos)
    have ci: "unat (of_nat (c i) :: u8) = c i" using ok(1) unat_mod_max [of "max_items q"] by (simp add: c_def m_def)
    have fd: "pdelq_find (max_items q) (q_items q) x n (qfront q) = Some (n - i, of_nat (c i))" "n - i \<noteq> 0"
      using Some find i(1) by simp_all
    show ?thesis
    proof (cases "i = 0")
      case True
      have "of_nat (c i) = qfront q" using True c0 ci by (simp add: word_unat_eq_iff f_def)
      then have "pdelq q x = Some (0, q\<lparr>qfront := of_nat ((f + 1) mod m), item_count := item_count q - 1\<rparr>)"
        using cnt fd ok(1) by (simp add: pdelq_def q_next_eq f_def m_def flip: n_def)
      moreover have "deq q = Some (Some (q_items q ! f), q\<lparr>qfront := of_nat ((f + 1) mod m), item_count := item_count q - 1\<rparr>)"
        using cnt ok by (simp add: deq_def q_next_eq array_simps f_def m_def)
      moreover have "remove1 x (q_list q) = tl (q_list q)" using rm True by (simp add: drop_Suc)
      ultimately show ?thesis using deq_list [OF assms] mem by auto
    next
      case False
      have ne: "of_nat (c i) \<noteq> qfront q"
        using mod_cells_differ [of 0 i m f] False i(1) ok(4) c0 ci by (auto simp: c_def f_def)
      obtain ys where ys: "pdelq_shift (max_items q) (qend q) (of_nat (c i)) (q_items q) = Some ys"
          "length ys = length (q_items q)"
          "\<forall>j < m. ys ! c j = (if i \<le> j \<and> j < n then q_items q ! c (j + 1) else q_items q ! c j)"
        using pdelq_shift_eq [of "max_items q" "q_items q" i n "of_nat (c i)" f "qend q"] ok ci False i(1)
        by (auto simp: c_def m_def add.assoc)
      define q' where "q' = q\<lparr>q_items := ys, qend := of_nat ((c n + m - 1) mod m), item_count := item_count q - 1\<rparr>"
      have "pdelq q x = Some (0, q')"
        using fd cnt ne ys(1) ok(5) by (simp add: pdelq_def q'_def m_def flip: n_def)
      moreover have "(c n + m - 1) mod m = c (n - 1)" using mod_cell_before [of n m f] i(1) ok(1) by (simp add: c_def)
      then have "q_ok q'"
        using assms ok ys(2) cnt(2) i(1) unat_mod_max [of "max_items q" "f + (n - 1)"]
        by (auto simp: q_ok_def q'_def m_def f_def n_def c_def)
      moreover have "q_list q' = remove1 x (q_list q)"
      proof -
        have "map (\<lambda>k. ys ! c k) [0..<n - 1] = take i (q_list q) @ drop (Suc i) (q_list q)"
          unfolding ql by (rule shifted_cells) (use ys(3) i(1) ok(4) in auto)
        then show ?thesis using rm cnt(2) by (simp add: q_list_def q'_def c_def m_def f_def)
      qed
      ultimately show ?thesis using mem by (simp add: q'_def)
    qed
  qed
qed

section \<open>The wait queue as a heap\<close>

text \<open>
  \<open>heap P xs n\<close>: no entry among the first \<open>n\<close> is smaller than its parent. During the loops
  the order may fail at one index: above it (\<open>heap_up\<close>) or below it (\<open>heap_down\<close>).
\<close>

definition heap :: "('a \<Rightarrow> int) \<Rightarrow> 'a list \<Rightarrow> nat \<Rightarrow> bool" where
  "heap P xs n \<longleftrightarrow> (\<forall>i. 0 < i \<and> i < n \<longrightarrow> P (xs ! PARENT i) \<le> P (xs ! i))"

definition heap_up :: "('a \<Rightarrow> int) \<Rightarrow> 'a list \<Rightarrow> nat \<Rightarrow> nat \<Rightarrow> bool" where
  "heap_up P xs n c \<longleftrightarrow>
     (\<forall>i. 0 < i \<and> i < n \<and> i \<noteq> c \<longrightarrow> P (xs ! PARENT i) \<le> P (xs ! i)) \<and>
     (\<forall>i. 0 < i \<and> i < n \<and> PARENT i = c \<and> 0 < c \<longrightarrow> P (xs ! PARENT c) \<le> P (xs ! i))"

definition heap_down :: "('a \<Rightarrow> int) \<Rightarrow> 'a list \<Rightarrow> nat \<Rightarrow> nat \<Rightarrow> bool" where
  "heap_down P xs n c \<longleftrightarrow>
     (\<forall>i. 0 < i \<and> i < n \<and> PARENT i \<noteq> c \<longrightarrow> P (xs ! PARENT i) \<le> P (xs ! i)) \<and>
     (\<forall>i. 0 < i \<and> i < n \<and> PARENT i = c \<and> 0 < c \<longrightarrow> P (xs ! PARENT c) \<le> P (xs ! i))"

lemma PARENT_less: "0 < i \<Longrightarrow> PARENT i < i"
  by (simp add: PARENT_def)

lemma PARENT_children: "0 < i \<Longrightarrow> PARENT i = c \<longleftrightarrow> i = LEFT_CHILD c \<or> i = RIGHT_CHILD c"
  by (auto simp: PARENT_def LEFT_CHILD_def RIGHT_CHILD_def)

lemma swap_eq: "i < length xs \<Longrightarrow> j < length xs \<Longrightarrow> swap xs i j = Some (xs[i := xs ! j, j := xs ! i])"
  by (simp add: swap_def array_simps)

lemma swap_mset:
  assumes "i < n" "j < n" "n \<le> length xs"
  shows "mset (take n (xs[i := xs ! j, j := xs ! i])) = mset (take n xs)"
proof -
  have "take n (xs[i := xs ! j, j := xs ! i]) = (take n xs)[i := take n xs ! j, j := take n xs ! i]"
    using assms by (simp add: take_update_swap)
  then show ?thesis using assms mset_swap [of j "take n xs" i] by simp
qed

definition prio_is :: "(pid \<Rightarrow> int option) \<Rightarrow> (pid \<Rightarrow> int) \<Rightarrow> pid list \<Rightarrow> nat \<Rightarrow> bool" where
  "prio_is prio P xs n \<longleftrightarrow> (\<forall>x \<in> set (take n xs). prio x = Some (P x))"

lemma prio_is_nth: "prio_is prio P xs n \<Longrightarrow> i < n \<Longrightarrow> n \<le> length xs \<Longrightarrow> prio (xs ! i) = Some (P (xs ! i))"
  using nth_mem [of i "take n xs"] by (simp add: prio_is_def)

lemma prio_is_mset: "mset (take n ys) = mset (take n xs) \<Longrightarrow> prio_is prio P ys n = prio_is prio P xs n"
  unfolding prio_is_def by (metis set_mset_mset)

text \<open>One round of the upward loop: the entry out of order moves to its parent's place.\<close>

lemma heap_up_swap:
  assumes "c < n" "n \<le> length xs" "heap_up P xs n c" "c \<noteq> 0" "P (xs ! c) < P (xs ! PARENT c)"
  shows "heap_up P (xs[c := xs ! PARENT c, PARENT c := xs ! c]) n (PARENT c)"
proof -
  define p where "p = PARENT c"
  define zs where "zs = xs[c := xs ! p, p := xs ! c]"
  have p: "p < c" "p < n" using assms(1,4) PARENT_less [of c] by (simp_all add: p_def)
  have z: "zs ! c = xs ! p" "zs ! p = xs ! c" "\<And>i. i \<noteq> c \<Longrightarrow> i \<noteq> p \<Longrightarrow> zs ! i = xs ! i"
    using p assms(1,2) by (auto simp: zs_def nth_list_update)
  have order: "P (xs ! PARENT i) \<le> P (xs ! i)" if "0 < i" "i < n" "i \<noteq> c" for i
    using assms(3) that unfolding heap_up_def by blast
  have "P (zs ! PARENT i) \<le> P (zs ! i)" if i: "0 < i" "i < n" "i \<noteq> p" for i
  proof -
    have lt: "PARENT i < i" using i(1) by (rule PARENT_less)
    consider "i = c" | "PARENT i = c" | "i \<noteq> c" "PARENT i = p" | "i \<noteq> c" "PARENT i \<noteq> c" "PARENT i \<noteq> p" by blast
    then show ?thesis
    proof cases
      case 1
      then show ?thesis using assms(5) z by (simp flip: p_def)
    next
      case 2
      then have "P (xs ! p) \<le> P (xs ! i)" using assms(3,4) i unfolding heap_up_def p_def by blast
      then show ?thesis using 2 z lt i by auto
    next
      case 3
      then show ?thesis using order [of i] z i assms(5) by (auto simp flip: p_def)
    next
      case 4
      then show ?thesis using order z i by auto
    qed
  qed
  moreover have "P (zs ! PARENT p) \<le> P (zs ! i)" if i: "0 < i" "i < n" "PARENT i = p" "0 < p" for i
  proof -
    have pp: "PARENT p \<noteq> p" "PARENT p \<noteq> c" "i \<noteq> p" using PARENT_less [of p] PARENT_less [of i] i p by auto
    have "P (xs ! PARENT p) \<le> P (xs ! p)" using order [of p] i p by simp
    moreover have "P (xs ! p) \<le> P (xs ! i)" if "i \<noteq> c" using order [of i] i that by simp
    ultimately show ?thesis using z pp by (cases "i = c") auto
  qed
  ultimately show ?thesis unfolding heap_up_def zs_def p_def by blast
qed

lemma sift_up_heap:
  assumes "c < n" "n \<le> length xs" "prio_is prio P xs n" "heap_up P xs n c"
  shows "\<exists>ys. sift_up prio c xs = Some ys \<and> length ys = length xs \<and> heap P ys n \<and>
     mset (take n ys) = mset (take n xs) \<and> drop n ys = drop n xs"
  using assms
proof (induction prio c xs rule: sift_up.induct)
  case (1 prio c xs)
  show ?case
  proof (cases "c = 0")
    case True
    then have "heap P xs n" using "1.prems"(4) by (auto simp: heap_up_def heap_def)
    then show ?thesis using True by (simp add: sift_up.simps)
  next
    case False
    define p where "p = PARENT c"
    have p: "p < c" "p < n" using False "1.prems"(1) PARENT_less [of c] by (simp_all add: p_def)
    note pr = prio_is_nth [OF "1.prems"(3) _ "1.prems"(2)]
    have get: "arr_get xs c = Some (xs ! c)" "arr_get xs p = Some (xs ! p)" "prio (xs ! c) = Some (P (xs ! c))"
        "prio (xs ! p) = Some (P (xs ! p))"
      using p "1.prems"(1,2) pr by (simp_all add: array_simps)
    show ?thesis
    proof (cases "P (xs ! c) < P (xs ! p)")
      case False
      then have "sift_up prio c xs = Some xs" using get \<open>c \<noteq> 0\<close> by (simp add: sift_up.simps flip: p_def)
      moreover have "heap P xs n"
        using "1.prems"(4) False p by (auto simp: heap_up_def heap_def p_def)
      ultimately show ?thesis by simp
    next
      case True
      define zs where "zs = xs[c := xs ! p, p := xs ! c]"
      have sw: "swap xs c p = Some zs" using p "1.prems"(1,2) by (simp add: swap_eq zs_def)
      have ms: "mset (take n zs) = mset (take n xs)"
        using swap_mset [of c n p xs] p "1.prems"(1,2) by (simp add: zs_def)
      have up: "heap_up P zs n p"
        unfolding zs_def p_def by (rule heap_up_swap) (use "1.prems"(1,2,4) \<open>c \<noteq> 0\<close> True in \<open>simp_all add: p_def\<close>)
      have "\<exists>ys. sift_up prio p zs = Some ys \<and> length ys = length zs \<and> heap P ys n \<and>
          mset (take n ys) = mset (take n zs) \<and> drop n ys = drop n zs"
        using "1.IH" [OF \<open>c \<noteq> 0\<close> get(1) get(2) [unfolded p_def] get(3) get(4) [unfolded p_def] _ sw [unfolded p_def]] True p
          "1.prems"(2,3) up prio_is_mset [OF ms, of prio P]
        by (simp add: zs_def flip: p_def)
      moreover have "sift_up prio c xs = sift_up prio p zs"
        using get \<open>c \<noteq> 0\<close> True sw by (simp add: sift_up.simps [of prio c] flip: p_def)
      moreover have "drop n zs = drop n xs" "length zs = length xs" using p "1.prems"(1) by (simp_all add: zs_def)
      ultimately show ?thesis using ms by simp
    qed
  qed
qed

lemma pick_child_min:
  assumes "LEFT_CHILD c \<le> e" "e < length xs" "e < 128" "prio_is prio P xs (Suc e)"
  obtains s where "pick_child prio e c xs = Some s" "c < s" "s \<le> e" "PARENT s = c"
    "\<forall>i. 0 < i \<and> i \<le> e \<and> PARENT i = c \<longrightarrow> P (xs ! s) \<le> P (xs ! i)"
proof -
  note pr = prio_is_nth [OF assms(4)]
  have par: "PARENT (LEFT_CHILD c) = c" "PARENT (RIGHT_CHILD c) = c" by (simp_all add: PARENT_def LEFT_CHILD_def RIGHT_CHILD_def)
  have lr: "c < LEFT_CHILD c" "c < RIGHT_CHILD c" by (simp_all add: LEFT_CHILD_def RIGHT_CHILD_def)
  show ?thesis
  proof (cases "RIGHT_CHILD c \<le> e")
    case False
    then have "pick_child prio e c xs = Some (LEFT_CHILD c)" using assms(1,3) by (simp add: pick_child_def)
    moreover have "\<forall>i. 0 < i \<and> i \<le> e \<and> PARENT i = c \<longrightarrow> P (xs ! LEFT_CHILD c) \<le> P (xs ! i)"
      using False by (metis PARENT_children order_refl)
    ultimately show ?thesis using that lr par assms(1) by blast
  next
    case True
    define s where "s = (if P (xs ! LEFT_CHILD c) \<le> P (xs ! RIGHT_CHILD c) then LEFT_CHILD c else RIGHT_CHILD c)"
    have "pick_child prio e c xs = Some s"
      using True assms(1-3) pr [of "LEFT_CHILD c"] pr [of "RIGHT_CHILD c"] by (simp add: pick_child_def array_simps s_def)
    moreover have "P (xs ! s) \<le> P (xs ! LEFT_CHILD c)" "P (xs ! s) \<le> P (xs ! RIGHT_CHILD c)" by (simp_all add: s_def)
    then have "\<forall>i. 0 < i \<and> i \<le> e \<and> PARENT i = c \<longrightarrow> P (xs ! s) \<le> P (xs ! i)" by (metis PARENT_children)
    moreover have "c < s" "s \<le> e" "PARENT s = c" using lr par True assms(1) by (simp_all add: s_def)
    ultimately show ?thesis using that by blast
  qed
qed

lemma heap_down_swap:
  assumes "heap_down P xs n c" "c < s" "s < n" "n \<le> length xs" "PARENT s = c"
    and "\<forall>i. 0 < i \<and> i < n \<and> PARENT i = c \<longrightarrow> P (xs ! s) \<le> P (xs ! i)" "P (xs ! s) \<le> P (xs ! c)"
  shows "heap_down P (xs[c := xs ! s, s := xs ! c]) n s"
proof -
  define zs where "zs = xs[c := xs ! s, s := xs ! c]"
  have z: "zs ! c = xs ! s" "zs ! s = xs ! c" "\<And>i. i \<noteq> c \<Longrightarrow> i \<noteq> s \<Longrightarrow> zs ! i = xs ! i"
    using assms(2-4) by (auto simp: zs_def nth_list_update)
  note hd = assms(1) [unfolded heap_down_def]
  have "P (zs ! PARENT i) \<le> P (zs ! i)" if i: "0 < i" "i < n" "PARENT i \<noteq> s" for i
  proof -
    have lt: "PARENT i < i" using i(1) by (rule PARENT_less)
    consider "i = s" | "i \<noteq> s" "PARENT i = c" | "i = c" | "i \<noteq> s" "i \<noteq> c" "PARENT i \<noteq> c" by blast
    then show ?thesis
    proof cases
      case 1
      then show ?thesis using z assms(5,7) by simp
    next
      case 2
      then show ?thesis using z lt i assms(6) by auto
    next
      case 3
      then have "P (xs ! PARENT c) \<le> P (xs ! s)" using hd assms(2,3,5) i by auto
      then show ?thesis using 3 z lt i(3) by auto
    next
      case 4
      then show ?thesis using z i hd by auto
    qed
  qed
  moreover have "P (zs ! PARENT s) \<le> P (zs ! i)" if "0 < i" "i < n" "PARENT i = s" for i
    using that hd assms(2,5) z PARENT_less [of i] by auto
  ultimately show ?thesis unfolding heap_down_def zs_def by blast
qed

lemma sift_down_heap:
  assumes "c \<le> e" "e < length xs" "e < 128" "prio_is prio P xs (Suc e)" "heap_down P xs (Suc e) c" "xs ! c = x" "xs ! e = x"
  shows "\<exists>ys. sift_down prio e c xs = Some ys \<and> length ys = length xs \<and> heap P ys (Suc e) \<and>
     mset (take (Suc e) ys) = mset (take (Suc e) xs) \<and> ys ! e = x \<and> drop (Suc e) ys = drop (Suc e) xs"
  using assms
proof (induction prio e c xs rule: sift_down.induct)
  case (1 prio e c xs)
  note hd = "1.prems"(5) [unfolded heap_down_def]
  show ?case
  proof (cases "LEFT_CHILD c \<le> e")
    case False
    then have "PARENT i \<noteq> c" if "0 < i" "i < Suc e" for i
      using that PARENT_children [of i c] by (auto simp: LEFT_CHILD_def RIGHT_CHILD_def)
    then have "heap P xs (Suc e)" using hd by (simp add: heap_def)
    then show ?thesis using False "1.prems" by (simp add: sift_down.simps)
  next
    case True
    obtain s where s: "pick_child prio e c xs = Some s" "c < s" "s \<le> e" "PARENT s = c"
        "\<forall>i. 0 < i \<and> i \<le> e \<and> PARENT i = c \<longrightarrow> P (xs ! s) \<le> P (xs ! i)"
      by (rule pick_child_min [OF True "1.prems"(2-4)])
    have get: "arr_get xs s = Some (xs ! s)" "arr_get xs c = Some (xs ! c)" "prio (xs ! s) = Some (P (xs ! s))"
        "prio (xs ! c) = Some (P (xs ! c))"
      using s(2,3) "1.prems"(2) prio_is_nth [OF "1.prems"(4)] by (simp_all add: array_simps)
    show ?thesis
    proof (cases "P (xs ! s) \<le> P (xs ! c)")
      case False
      then have "sift_down prio e c xs = Some xs" using True s(1) get by (simp add: sift_down.simps)
      moreover have "P (xs ! PARENT i) \<le> P (xs ! i)" if "0 < i" "i < Suc e" for i
      proof (cases "PARENT i = c")
        case True
        then have "P (xs ! s) \<le> P (xs ! i)" using s(5) that by simp
        then show ?thesis using True False by simp
      qed (use that hd in blast)
      then have "heap P xs (Suc e)" by (simp add: heap_def)
      ultimately show ?thesis using "1.prems"(7) by simp
    next
      case le: True
      define zs where "zs = xs[c := xs ! s, s := xs ! c]"
      have sw: "swap xs c s = Some zs" using s(2,3) "1.prems"(2) by (simp add: swap_eq zs_def)
      have ms: "mset (take (Suc e) zs) = mset (take (Suc e) xs)"
        using swap_mset [of c "Suc e" s xs] s(2,3) "1.prems"(2) by (simp add: zs_def)
      have z: "length zs = length xs" "zs ! s = x" "zs ! e = x" "drop (Suc e) zs = drop (Suc e) xs"
        using s(2,3) "1.prems"(2,6,7) by (auto simp: zs_def nth_list_update)
      have "heap_down P zs (Suc e) s"
        using heap_down_swap [OF "1.prems"(5) s(2) _ _ s(4)] s(3,5) "1.prems"(2) le by (simp add: zs_def less_Suc_eq_le)
      then have "\<exists>ys. sift_down prio e s zs = Some ys \<and> length ys = length zs \<and> heap P ys (Suc e) \<and>
          mset (take (Suc e) ys) = mset (take (Suc e) zs) \<and> ys ! e = x \<and> drop (Suc e) ys = drop (Suc e) zs"
        using "1.IH" [OF True s(1) get(1-4) le sw] s(3) z "1.prems"(2,3,4) prio_is_mset [OF ms, of prio P] by simp
      moreover have "sift_down prio e c xs = sift_down prio e s zs"
        using True s(1) get le sw by (simp add: sift_down.simps [of prio e c])
      ultimately show ?thesis using ms z by simp
    qed
  qed
qed

section \<open>The wait queue as a priority queue\<close>

text \<open>The contract: the elements as a set, the smallest key first.\<close>

locale prio_queue =
  fixes ins :: "'a \<Rightarrow> 'q \<Rightarrow> 'q option"
    and del_min :: "'q \<Rightarrow> ('a \<times> 'q) option"
    and elems :: "'q \<Rightarrow> 'a set"
    and key :: "'a \<Rightarrow> int"
    and valid :: "'a \<Rightarrow> bool"
    and invar :: "'q \<Rightarrow> bool"
    and cap :: nat
  assumes fin: "invar q \<Longrightarrow> finite (elems q)"
    and ins_room: "invar q \<Longrightarrow> valid x \<Longrightarrow> x \<notin> elems q \<Longrightarrow> card (elems q) < cap \<Longrightarrow>
      \<exists>q'. ins x q = Some q' \<and> invar q' \<and> elems q' = insert x (elems q)"
    and del_min: "invar q \<Longrightarrow> elems q \<noteq> {} \<Longrightarrow>
      \<exists>x q'. del_min q = Some (x, q') \<and> invar q' \<and> x \<in> elems q \<and> elems q' = elems q - {x} \<and>
        (\<forall>y \<in> elems q. key x \<le> key y)"

fun drain :: "('q \<Rightarrow> ('a \<times> 'q) option) \<Rightarrow> nat \<Rightarrow> 'q \<Rightarrow> 'a list option" where
  "drain del 0 q = Some []"
| "drain del (Suc n) q = do { (x, q) \<leftarrow> del q; xs \<leftarrow> drain del n q; Some (x # xs) }"

context prio_queue
begin

lemma drain_sorted:
  assumes "invar q"
  shows "\<exists>xs. drain del_min (card (elems q)) q = Some xs \<and> set xs = elems q \<and> distinct xs \<and> sorted (map key xs)"
  using assms
proof (induction "card (elems q)" arbitrary: q)
  case 0
  then have "elems q = {}" using fin [of q] by simp
  then show ?case by simp
next
  case (Suc n)
  then have ne: "elems q \<noteq> {}" by auto
  obtain x q' where x: "del_min q = Some (x, q')" "invar q'" "x \<in> elems q" "elems q' = elems q - {x}"
      "\<forall>y \<in> elems q. key x \<le> key y"
    using del_min [OF Suc.prems ne] by blast
  have n: "n = card (elems q')" using Suc.hyps(2) x(3,4) fin [OF Suc.prems] by simp
  obtain xs where "drain del_min n q' = Some xs" "set xs = elems q'" "distinct xs" "sorted (map key xs)"
    using Suc.hyps(1) [OF n x(2)] n by auto
  then show ?case using x unfolding Suc.hyps(2) [symmetric] by auto
qed

end

definition valid_pid :: "process_struct list \<Rightarrow> pid \<Rightarrow> bool" where
  "valid_pid ptable x \<longleftrightarrow> PROC_PRIO ptable x \<noteq> None"

definition prio_of :: "process_struct list \<Rightarrow> pid \<Rightarrow> int" where
  "prio_of ptable x = (case PROC_PRIO ptable x of None \<Rightarrow> 0 | Some v \<Rightarrow> v)"

definition pq_pids :: "pid kqueue \<Rightarrow> pid list" where
  "pq_pids q = take (unat (item_count q)) (q_items q)"

definition pq_ok :: "process_struct list \<Rightarrow> pid kqueue \<Rightarrow> bool" where
  "pq_ok ptable q \<longleftrightarrow>
     unat (max_items q) \<le> 127 \<and> unat (max_items q) \<le> length (q_items q) \<and> item_count q = qend q \<and>
     unat (item_count q) \<le> unat (max_items q) \<and> distinct (pq_pids q) \<and> (\<forall>x \<in> set (pq_pids q). valid_pid ptable x) \<and>
     heap (prio_of ptable) (q_items q) (unat (item_count q))"

lemma valid_prio: "valid_pid ptable x \<Longrightarrow> PROC_PRIO ptable x = Some (prio_of ptable x)"
  by (auto simp: valid_pid_def prio_of_def)

lemma length_pq_pids: "pq_ok ptable q \<Longrightarrow> length (pq_pids q) = unat (item_count q)"
  by (auto simp: pq_ok_def pq_pids_def)

lemma mset_distinct: "mset xs = mset ys \<Longrightarrow> set xs = set ys \<and> distinct xs = distinct ys"
  by (metis set_mset_mset mset_eq_imp_distinct_iff)

lemma heap_root:
  assumes "heap P xs n" "i < n"
  shows "P (xs ! 0) \<le> P (xs ! i)"
  using assms(2)
proof (induction i rule: less_induct)
  case (less i)
  show ?case
  proof (cases "i = 0")
    case False
    then have lt: "PARENT i < i" by (simp add: PARENT_less)
    then have "P (xs ! 0) \<le> P (xs ! PARENT i)" using less by simp
    moreover have "P (xs ! PARENT i) \<le> P (xs ! i)" using assms(1) False less.prems by (simp add: heap_def)
    ultimately show ?thesis by (rule order_trans)
  qed simp
qed

lemma prio_penq_ok:
  assumes "pq_ok ptable q" "valid_pid ptable x" "x \<notin> set (pq_pids q)" "unat (item_count q) < unat (max_items q)"
  shows "\<exists>q'. prio_penq ptable q x = Some q' \<and> pq_ok ptable q' \<and> max_items q' = max_items q \<and>
     set (pq_pids q') = insert x (set (pq_pids q))"
proof -
  define n where "n = unat (item_count q)"
  note ok = assms(1) [unfolded pq_ok_def]
  have n: "n < length (q_items q)" "unat (qend q) = n" "unat (item_count q + 1) = Suc n" "item_count q \<noteq> max_items q"
    using ok assms(4) q_count_Suc [OF assms(4)] by (auto simp: n_def)
  define xs where "xs = (q_items q)[n := x]"
  have tk: "take (Suc n) xs = pq_pids q @ [x]" using n(1) by (simp add: xs_def pq_pids_def take_update_shift flip: n_def)
  have pr: "prio_is (PROC_PRIO ptable) (prio_of ptable) xs (Suc n)"
    unfolding prio_is_def tk using ok assms(2) valid_prio by auto
  have "heap_up (prio_of ptable) xs (Suc n) n"
  proof -
    have "xs ! PARENT i = q_items q ! PARENT i" "xs ! i = q_items q ! i" if "0 < i" "i < n" for i
      using that PARENT_less [of i] by (simp_all add: xs_def)
    moreover have "PARENT i \<noteq> n" if "0 < i" "i < Suc n" for i using PARENT_less [of i] that by simp
    ultimately show ?thesis using ok unfolding heap_up_def heap_def n_def [symmetric] by (auto simp: less_Suc_eq)
  qed
  then obtain ys where ys: "sift_up (PROC_PRIO ptable) n xs = Some ys" "length ys = length xs" "heap (prio_of ptable) ys (Suc n)"
      "mset (take (Suc n) ys) = mset (pq_pids q @ [x])"
    using sift_up_heap [of n "Suc n" xs, OF _ _ pr] n(1) tk by (auto simp: xs_def)
  define q' where "q' = q\<lparr>q_items := ys, qend := qend q + 1, item_count := item_count q + 1\<rparr>"
  have eq: "prio_penq ptable q x = Some q'"
    using n ys(1) by (simp add: prio_penq_def array_simps q'_def flip: xs_def)
  have pids: "pq_pids q' = take (Suc n) ys" using n(3) by (simp add: pq_pids_def q'_def)
  have md: "set (pq_pids q') = insert x (set (pq_pids q))" "distinct (pq_pids q')"
    using mset_distinct [OF ys(4)] ok assms(3) unfolding pids by simp_all
  have sel: "max_items q' = max_items q" "q_items q' = ys" "item_count q' = qend q'" "unat (item_count q') = Suc n"
    using ok n(3) by (simp_all add: q'_def)
  have "\<forall>y \<in> set (pq_pids q'). valid_pid ptable y" unfolding md(1) using ok assms(2) by blast
  moreover have room: "Suc n \<le> unat (max_items q)" using assms(4) by (simp add: n_def)
  ultimately have "pq_ok ptable q'"
    unfolding pq_ok_def sel(1,2,4) using ok sel(3) md(2) ys(2,3) room by (simp add: xs_def)
  then show ?thesis using eq md sel by blast
qed

lemma prio_pdeq_ok:
  assumes "pq_ok ptable q" "pq_pids q \<noteq> []"
  shows "\<exists>q'. prio_pdeq ptable q = Some (q_items q ! 0, q') \<and> pq_ok ptable q' \<and> max_items q' = max_items q \<and>
     q_items q ! 0 \<in> set (pq_pids q) \<and> set (pq_pids q') = set (pq_pids q) - {q_items q ! 0} \<and>
     (\<forall>y \<in> set (pq_pids q). prio_of ptable (q_items q ! 0) \<le> prio_of ptable y)"
proof -
  note ok = assms(1) [unfolded pq_ok_def]
  obtain e where e: "unat (item_count q) = Suc e"
    using assms(2) length_pq_pids [OF assms(1)] by (cases "unat (item_count q)") auto
  have n: "e < length (q_items q)" "e < 127" "unat (qend q) = Suc e" "item_count q \<noteq> 0" "qend q \<noteq> 0"
      "unat (item_count q - 1) = e"
    using ok e by (auto simp: unat_pred_pos)
  have l0: "0 < length (q_items q)" using n(1) by linarith
  define x0 x where "x0 = q_items q ! 0" and "x = q_items q ! e"
  define xs where "xs = (q_items q)[0 := x]"
  have pids: "pq_pids q = take (Suc e) (q_items q)" by (simp add: pq_pids_def e)
  have cut: "take (Suc e) (q_items q) = x0 # take e (tl (q_items q))" "take (Suc e) xs = x # take e (tl (q_items q))"
    using n(1) by (cases "q_items q"; simp add: x0_def xs_def)+
  have xin: "x \<in> set (take (Suc e) (q_items q))" using n(1) by (auto simp: x_def in_set_conv_nth)
  have pr: "prio_is (PROC_PRIO ptable) (prio_of ptable) xs (Suc e)"
    unfolding prio_is_def cut(2) using ok pids xin cut(1) valid_prio by auto
  have "heap_down (prio_of ptable) xs (Suc e) 0"
    using ok by (auto simp: heap_down_def heap_def xs_def e PARENT_def)
  moreover have "xs ! 0 = x" "xs ! e = x"
    using n(1) l0 by (simp_all add: xs_def x_def nth_list_update)
  ultimately obtain ys where ys: "sift_down (PROC_PRIO ptable) e 0 xs = Some ys" "length ys = length xs"
      "heap (prio_of ptable) ys (Suc e)" "mset (take (Suc e) ys) = mset (take (Suc e) xs)" "ys ! e = x"
    using sift_down_heap [OF _ _ _ pr, of 0 x] n by (auto simp: xs_def)
  define q' where "q' = q\<lparr>q_items := ys, qend := qend q - 1, item_count := item_count q - 1\<rparr>"
  have deq: "prio_pdeq ptable q = Some (x0, q')"
    using n l0 ys(1) by (simp add: prio_pdeq_def array_simps x0_def q'_def x_def xs_def)
  have "take (Suc e) ys = take e ys @ [x]" using ys(2,5) n(1) by (simp add: take_Suc_conv_app_nth xs_def)
  then have ms: "mset (take e ys) = mset (take e (tl (q_items q)))" using ys(4) cut(2) by simp
  have pids': "pq_pids q' = take e ys" using n(6) by (simp add: pq_pids_def q'_def)
  have dist: "x0 \<notin> set (take e (tl (q_items q)))" "distinct (take e (tl (q_items q)))" using ok pids cut(1) by simp_all
  have "heap (prio_of ptable) ys e" using ys(3) by (simp add: heap_def)
  then have "pq_ok ptable q'"
    unfolding pq_ok_def pids' using ok mset_distinct [OF ms] dist(2) pids cut(1) ys(2) n e by (auto simp: q'_def xs_def)
  moreover have "set (pq_pids q') = set (pq_pids q) - {x0}"
    using mset_distinct [OF ms] dist(1) unfolding pids' pids cut(1) by auto
  moreover have "prio_of ptable x0 \<le> prio_of ptable y" if "y \<in> set (pq_pids q)" for y
    using that heap_root [of "prio_of ptable" "q_items q"] ok n(1) unfolding pids x0_def e
    by (auto simp: in_set_conv_nth)
  ultimately show ?thesis
    using deq unfolding x0_def [symmetric] by (intro exI [of _ q']) (simp add: q'_def pids cut(1))
qed

text \<open>Changing one priority in the table.\<close>

lemma pid_index_inj: "pid_index x = Some i \<Longrightarrow> pid_index y = Some i \<Longrightarrow> x = y"
  by (auto simp: pid_index_def eq_nat_nat_iff intro: signed_word_eqI [OF sym] split: if_splits)

lemma set_prio_eq:
  assumes "valid_pid ptable x"
  obtains ptable' where "set_prio ptable x v = Some ptable'" "\<forall>y. PROC_PRIO ptable' y = (if y = x then Some v else PROC_PRIO ptable y)"
    "set_prio ptable' x (prio_of ptable x) = Some ptable"
proof -
  obtain i where i: "pid_index x = Some i" "i < length ptable"
    using assms by (auto simp: valid_pid_def PROC_PRIO_def get_proc_def arr_get_def split: bind_splits if_splits)
  define ptable' where "ptable' = ptable[i := (ptable ! i)\<lparr>priority := v\<rparr>]"
  have "set_prio ptable x v = Some ptable'"
    using i by (simp add: set_prio_def get_proc_def set_proc_def array_simps ptable'_def)
  moreover have "PROC_PRIO ptable' y = (if y = x then Some v else PROC_PRIO ptable y)" for y
  proof (cases "pid_index y")
    case (Some j)
    then show ?thesis
      using i pid_index_inj [of y i x] by (auto simp: PROC_PRIO_def get_proc_def arr_get_def ptable'_def nth_list_update)
  qed (use i in \<open>auto simp: PROC_PRIO_def get_proc_def\<close>)
  moreover have "prio_of ptable x = priority (ptable ! i)"
    using i by (simp add: prio_of_def PROC_PRIO_def get_proc_def array_simps)
  then have "set_prio ptable' x (prio_of ptable x) = Some ptable"
    using i by (simp add: set_prio_def get_proc_def set_proc_def array_simps ptable'_def)
  ultimately show ?thesis using that by blast
qed

lemma find_pid_eq:
  "k + n \<le> length xs \<Longrightarrow> find_pid xs x k n = Some (case find (\<lambda>i. xs ! i = x) [k..<k + n] of None \<Rightarrow> k + n | Some i \<Rightarrow> i)"
proof (induction n arbitrary: k)
  case (Suc n)
  then have "find_pid xs x (Suc k) n = Some (case find (\<lambda>i. xs ! i = x) [Suc k..<Suc k + n] of None \<Rightarrow> Suc k + n | Some i \<Rightarrow> i)"
    by simp
  then show ?case using Suc.prems by (simp add: array_simps upt_conv_Cons del: upt_Suc split: option.splits)
qed simp

text \<open>With the smallest priority of all, the way up needs no comparison.\<close>

lemma move_up_sift:
  assumes "i < n" "n \<le> length xs" "prio_is prio P xs n" "distinct (take n xs)"
    and "\<forall>y \<in> set (take n xs). y \<noteq> xs ! i \<longrightarrow> P (xs ! i) < P y"
  shows "move_up i xs = sift_up prio i xs"
  using assms
proof (induction i xs rule: move_up.induct)
  case (1 i xs)
  show ?case
  proof (cases "i = 0")
    case False
    define p where "p = PARENT i"
    have p: "p < i" "p < n" using False "1.prems"(1) PARENT_less [of i] by (simp_all add: p_def)
    have "take n xs ! p \<noteq> take n xs ! i" using p "1.prems"(1,2,4) by (subst nth_eq_iff_index_eq) simp_all
    then have "P (xs ! i) < P (xs ! p)" using "1.prems"(1,2,5) p nth_mem [of p "take n xs"] by simp
    define zs where "zs = xs[i := xs ! p, p := xs ! i]"
    have sw: "swap xs i p = Some zs" using p "1.prems"(1,2) by (simp add: swap_eq zs_def)
    have ms: "mset (take n zs) = mset (take n xs)" using swap_mset [of i n p xs] p "1.prems"(1,2) by (simp add: zs_def)
    have "zs ! p = xs ! i" using p "1.prems"(1,2) by (simp add: zs_def)
    then have "move_up p zs = sift_up prio p zs"
      using "1.IH" [OF False sw [unfolded p_def]] "1.prems" p mset_distinct [OF ms] prio_is_mset [OF ms, of prio P]
      by (simp add: zs_def flip: p_def)
    moreover have "prio (xs ! i) = Some (P (xs ! i))" "prio (xs ! p) = Some (P (xs ! p))"
      using p "1.prems"(1) prio_is_nth [OF "1.prems"(3) _ "1.prems"(2)] by simp_all
    ultimately show ?thesis
      using False \<open>P (xs ! i) < P (xs ! p)\<close> sw p "1.prems"(1,2)
      by (simp add: move_up.simps [of i] sift_up.simps [of prio i] array_simps flip: p_def)
  qed (simp add: move_up.simps sift_up.simps)
qed

text \<open>
  Lowering the priority of one entry below all others breaks the order only above it; and the
  order depends on the priorities of the entries alone.
\<close>

lemma heap_up_lowered:
  assumes "heap P xs n" "i < n" and only: "\<And>j. j < n \<Longrightarrow> j \<noteq> i \<Longrightarrow> xs ! j \<noteq> x"
    and low: "\<forall>j < n. l \<le> P (xs ! j)"
  shows "heap_up (P(x := l)) xs n i"
proof -
  have order: "P (xs ! PARENT j) \<le> P (xs ! j)" if "0 < j" "j < n" for j
    using assms(1) that by (simp add: heap_def)
  have "(P(x := l)) (xs ! PARENT j) \<le> (P(x := l)) (xs ! j)" if "0 < j" "j < n" "j \<noteq> i" for j
    using order that only low by simp
  moreover have "(P(x := l)) (xs ! PARENT i) \<le> (P(x := l)) (xs ! j)"
    if "0 < j" "j < n" "PARENT j = i" "0 < i" for j
  proof -
    have "P (xs ! PARENT i) \<le> P (xs ! j)" using order [of i] order [of j] that assms(2) by simp
    then show ?thesis
      using only [of j] only [of "PARENT i"] that PARENT_less [of j] PARENT_less [of i] by simp
  qed
  ultimately show ?thesis by (simp add: heap_up_def)
qed

lemma heap_cong:
  assumes "n \<le> length xs" "heap P xs n" "\<forall>y \<in> set (take n xs). P y = P' y"
  shows "heap P' xs n"
  unfolding heap_def
proof (intro allI impI)
  fix j
  assume j: "0 < j \<and> j < n"
  then have "xs ! j \<in> set (take n xs)" "xs ! PARENT j \<in> set (take n xs)"
    using nth_mem [of j "take n xs"] nth_mem [of "PARENT j" "take n xs"] PARENT_less [of j] assms(1) by simp_all
  moreover have "P (xs ! PARENT j) \<le> P (xs ! j)" using assms(2) j unfolding heap_def by blast
  ultimately show "P' (xs ! PARENT j) \<le> P' (xs ! j)" using assms(3) by simp
qed

lemma prio_pdelq_ok:
  assumes "pq_ok ptable q" "\<forall>y \<in> set (pq_pids q). 0 \<le> prio_of ptable y"
  shows "\<exists>q'. prio_pdelq ptable q x = Some (if x \<in> set (pq_pids q) then 0 else - 1, ptable, q') \<and> pq_ok ptable q' \<and>
     max_items q' = max_items q \<and> set (pq_pids q') = set (pq_pids q) - {x}"
proof -
  define n where "n = unat (item_count q)"
  note ok = assms(1) [unfolded pq_ok_def, folded n_def]
  have pids: "pq_pids q = take n (q_items q)" "n \<le> length (q_items q)" using ok by (auto simp: pq_pids_def n_def)
  have find: "find_pid (q_items q) x 0 n = Some (case find (\<lambda>i. q_items q ! i = x) [0..<n] of None \<Rightarrow> n | Some i \<Rightarrow> i)"
    using find_pid_eq [of 0 n "q_items q" x, unfolded add_0] pids(2) by simp
  show ?thesis
  proof (cases "find (\<lambda>i. q_items q ! i = x) [0..<n]")
    case None
    then have "x \<notin> set (pq_pids q)" using pids(2) by (auto simp: pids(1) find_None_iff in_set_conv_nth)
    then show ?thesis using None find assms(1) by (simp add: prio_pdelq_def flip: n_def)
  next
    case (Some i)
    note i = find_upt_first [OF Some]
    have xin: "x \<in> set (pq_pids q)" using i(1,2) pids nth_mem [of i "take n (q_items q)"] by simp
    then have vx: "valid_pid ptable x" using ok by blast
    define P where "P = (prio_of ptable)(x := - 1)"
    obtain ptable' where pt': "set_prio ptable x (- 1) = Some ptable'"
        "\<forall>y. PROC_PRIO ptable' y = (if y = x then Some (- 1) else PROC_PRIO ptable y)"
        "set_prio ptable' x (prio_of ptable x) = Some ptable"
      by (rule set_prio_eq [OF vx, of "- 1"])
    have P: "prio_of ptable' = P" by (auto simp: prio_of_def pt'(2) P_def fun_eq_iff)
    have pr: "prio_is (PROC_PRIO ptable') P (q_items q) n"
      unfolding prio_is_def pids(1) [symmetric] using ok valid_prio by (auto simp: pt'(2) P_def)
    have only: "q_items q ! j \<noteq> x" if "j < n" "j \<noteq> i" for j
      using nth_eq_iff_index_eq [of "take n (q_items q)" i j] that i(1,2) pids ok by auto
    have "heap_up P (q_items q) n i" unfolding P_def
      by (rule heap_up_lowered [OF _ i(1) only]) (use ok assms(2) pids in \<open>auto simp: all_set_conv_all_nth\<close>)
    then obtain ys where ys: "sift_up (PROC_PRIO ptable') i (q_items q) = Some ys" "length ys = length (q_items q)"
        "heap P ys n" "mset (take n ys) = mset (take n (q_items q))"
      using sift_up_heap [OF i(1) pids(2) pr] by blast
    have "\<forall>y \<in> set (take n (q_items q)). y \<noteq> q_items q ! i \<longrightarrow> P (q_items q ! i) < P y"
      using assms(2) i(2) unfolding pids(1) by (force simp: P_def)
    then have "move_up i (q_items q) = Some ys"
      using move_up_sift [OF i(1) pids(2) pr] ok ys(1) unfolding pids(1) by simp
    moreover define q1 where "q1 = q\<lparr>q_items := ys\<rparr>"
    have p1: "pq_pids q1 = take n ys" by (simp add: pq_pids_def q1_def n_def)
    note md = mset_distinct [OF ys(4), folded pids(1) p1]
    have ok1: "pq_ok ptable' q1"
      unfolding pq_ok_def P using ok ys(2,3) md by (auto simp: q1_def n_def valid_pid_def pt'(2))
    have ne: "pq_pids q1 \<noteq> []" using md xin by auto
    obtain q2 where q2: "prio_pdeq ptable' q1 = Some (ys ! 0, q2)" "pq_ok ptable' q2" "max_items q2 = max_items q1"
        "ys ! 0 \<in> set (pq_pids q1)" "set (pq_pids q2) = set (pq_pids q1) - {ys ! 0}"
        "\<forall>y \<in> set (pq_pids q1). P (ys ! 0) \<le> P y"
      using prio_pdeq_ok [OF ok1 ne] unfolding P by (auto simp: q1_def)
    have "ys ! 0 = x"
    proof (rule ccontr)
      assume "ys ! 0 \<noteq> x"
      then have "0 \<le> P (ys ! 0)" using assms(2) q2(4) md by (simp add: P_def)
      moreover have "P (ys ! 0) \<le> P x" using q2(6) md xin by blast
      ultimately show False by (simp add: P_def)
    qed
    moreover have "pq_ok ptable q2"
    proof -
      have "unat (item_count q2) \<le> length (q_items q2)" "heap P (q_items q2) (unat (item_count q2))"
        using q2(2) by (auto simp: pq_ok_def P)
      moreover have "\<forall>y \<in> set (take (unat (item_count q2)) (q_items q2)). P y = prio_of ptable y"
        using q2(5) \<open>ys ! 0 = x\<close> by (auto simp: P_def pq_pids_def)
      ultimately have "heap (prio_of ptable) (q_items q2) (unat (item_count q2))" by (rule heap_cong)
      then show ?thesis using q2(2) q2(5) md ok by (auto simp: pq_ok_def)
    qed
    moreover have "item_count q \<noteq> 0" "i \<noteq> n" "i < length (q_items q)" using i(1) pids(2) by (auto simp: n_def)
    ultimately show ?thesis
      using find Some i(2) xin pt'(1,3) q2(1,3,5) md valid_prio [OF vx]
      by (intro exI [of _ q2]) (simp add: prio_pdelq_def array_simps q1_def flip: n_def)
  qed
qed

lemma card_pq_pids: "pq_ok ptable q \<Longrightarrow> card (set (pq_pids q)) = unat (item_count q)"
proof -
  assume ok: "pq_ok ptable q"
  then have "distinct (pq_pids q)" by (simp add: pq_ok_def)
  then show ?thesis using length_pq_pids [OF ok] by (simp add: distinct_card)
qed

interpretation wq: prio_queue "\<lambda>x q. prio_penq ptable q x" "prio_pdeq ptable" "\<lambda>q. set (pq_pids q)" "prio_of ptable"
  "valid_pid ptable" "\<lambda>q. pq_ok ptable q \<and> unat (max_items q) = m" m for ptable m
proof unfold_locales
  fix q x
  assume q: "pq_ok ptable q \<and> unat (max_items q) = m" "valid_pid ptable x" "x \<notin> set (pq_pids q)" "card (set (pq_pids q)) < m"
  then have "unat (item_count q) < unat (max_items q)" using card_pq_pids [of ptable q] by simp
  then show "\<exists>q'. prio_penq ptable q x = Some q' \<and> (pq_ok ptable q' \<and> unat (max_items q') = m) \<and>
      set (pq_pids q') = insert x (set (pq_pids q))"
    using prio_penq_ok [of ptable q x] q by auto
next
  fix q
  assume q: "pq_ok ptable q \<and> unat (max_items q) = m" "set (pq_pids q) \<noteq> {}"
  then obtain q' where "prio_pdeq ptable q = Some (q_items q ! 0, q')" "pq_ok ptable q'" "max_items q' = max_items q"
      "q_items q ! 0 \<in> set (pq_pids q)" "set (pq_pids q') = set (pq_pids q) - {q_items q ! 0}"
      "\<forall>y \<in> set (pq_pids q). prio_of ptable (q_items q ! 0) \<le> prio_of ptable y"
    using prio_pdeq_ok [of ptable q] by auto
  then show "\<exists>x q'. prio_pdeq ptable q = Some (x, q') \<and> (pq_ok ptable q' \<and> unat (max_items q') = m) \<and>
      x \<in> set (pq_pids q) \<and> set (pq_pids q') = set (pq_pids q) - {x} \<and>
      (\<forall>y \<in> set (pq_pids q). prio_of ptable x \<le> prio_of ptable y)"
    using q(1) by auto
qed simp

section \<open>Properties\<close>

text \<open>
  Property C28. The process queues are lists: on a well-formed circular queue \<^verbatim>\<open>penq\<close> appends (and does
  nothing when the queue is full), \<^verbatim>\<open>pdeq\<close> takes the first entry (255 when there is none) and
  \<^verbatim>\<open>pdelq\<close> deletes the first occurrence of a process wherever the ring wraps; they stay inside
  the array, terminate and keep the queue well formed.
\<close>

theorem pid_queue_refines_list:
  assumes "q_ok q"
  shows "(\<exists>q'. penq q x = Some q' \<and> q_ok q' \<and>
        q_list q' = (if unat (item_count q) < unat (max_items q) then q_list q @ [x] else q_list q)) \<and>
     (\<exists>q'. pdeq q = Some (if q_list q = [] then 255 else hd (q_list q), q') \<and> q_ok q' \<and> q_list q' = tl (q_list q)) \<and>
     (\<exists>q'. pdelq q x = Some (if x \<in> set (q_list q) then 0 else - 1, q') \<and> q_ok q' \<and>
        q_list q' = remove1 x (q_list q))"
proof (intro conjI)
  show "\<exists>q'. penq q x = Some q' \<and> q_ok q' \<and>
      q_list q' = (if unat (item_count q) < unat (max_items q) then q_list q @ [x] else q_list q)"
    using enq_list [OF assms, of x] by (auto simp: penq_enq)
  show "\<exists>q'. pdeq q = Some (if q_list q = [] then 255 else hd (q_list q), q') \<and> q_ok q' \<and> q_list q' = tl (q_list q)"
    using deq_list [OF assms] by (auto simp: pdeq_deq)
  show "\<exists>q'. pdelq q x = Some (if x \<in> set (q_list q) then 0 else - 1, q') \<and> q_ok q' \<and> q_list q' = remove1 x (q_list q)"
    using pdelq_list [OF assms, of x] by auto
qed

text \<open>A full ring of four that starts at its last cell.\<close>

definition demo_ring :: "pid kqueue" where
  "demo_ring = \<lparr>item_size = 1, max_items = 4, item_count = 4, qfront = 3, qend = 3, q_items = [6, 7, 8, 5]\<rparr>"

theorem pid_queue_refines_list_witness:
  "\<exists>q'. pdelq demo_ring 7 = Some (0, q') \<and> q_list q' = [5, 6, 8]"
proof -
  have "q_ok demo_ring" "q_list demo_ring = [5, 6, 7, 8]" by (simp_all add: q_ok_def q_list_def demo_ring_def upt_conv_Cons)
  then show ?thesis using pid_queue_refines_list [of demo_ring 7] by auto
qed

text \<open>
  Property C29. The wait queues are priority queues: on a well-formed heap \<^verbatim>\<open>prio_penq\<close> adds a process,
  \<^verbatim>\<open>prio_pdeq\<close> takes out one of the most urgent (smallest priority number) and \<^verbatim>\<open>prio_pdelq\<close>
  removes the given process wherever it is and leaves every priority in the process table as it
  was; the heap stays well formed, and taking out all processes yields them by priority.
\<close>

theorem wait_queue_by_priority:
  assumes "pq_ok ptable q"
  shows "(valid_pid ptable x \<and> x \<notin> set (pq_pids q) \<and> unat (item_count q) < unat (max_items q) \<longrightarrow>
        (\<exists>q'. prio_penq ptable q x = Some q' \<and> pq_ok ptable q' \<and> set (pq_pids q') = insert x (set (pq_pids q)))) \<and>
     (pq_pids q \<noteq> [] \<longrightarrow>
        (\<exists>y q'. prio_pdeq ptable q = Some (y, q') \<and> pq_ok ptable q' \<and> y \<in> set (pq_pids q) \<and>
           set (pq_pids q') = set (pq_pids q) - {y} \<and> (\<forall>z \<in> set (pq_pids q). prio_of ptable y \<le> prio_of ptable z))) \<and>
     ((\<forall>y \<in> set (pq_pids q). 0 \<le> prio_of ptable y) \<longrightarrow>
        (\<exists>q'. prio_pdelq ptable q x = Some (if x \<in> set (pq_pids q) then 0 else - 1, ptable, q') \<and> pq_ok ptable q' \<and>
           set (pq_pids q') = set (pq_pids q) - {x})) \<and>
     (\<exists>xs. drain (prio_pdeq ptable) (unat (item_count q)) q = Some xs \<and> set xs = set (pq_pids q) \<and> distinct xs \<and>
        sorted (map (prio_of ptable) xs))"
proof (intro conjI impI)
  assume "valid_pid ptable x \<and> x \<notin> set (pq_pids q) \<and> unat (item_count q) < unat (max_items q)"
  then show "\<exists>q'. prio_penq ptable q x = Some q' \<and> pq_ok ptable q' \<and> set (pq_pids q') = insert x (set (pq_pids q))"
    using prio_penq_ok [OF assms, of x] by blast
next
  assume "pq_pids q \<noteq> []"
  then show "\<exists>y q'. prio_pdeq ptable q = Some (y, q') \<and> pq_ok ptable q' \<and> y \<in> set (pq_pids q) \<and>
      set (pq_pids q') = set (pq_pids q) - {y} \<and> (\<forall>z \<in> set (pq_pids q). prio_of ptable y \<le> prio_of ptable z)"
    using prio_pdeq_ok [OF assms] by blast
next
  assume "\<forall>y \<in> set (pq_pids q). 0 \<le> prio_of ptable y"
  then show "\<exists>q'. prio_pdelq ptable q x = Some (if x \<in> set (pq_pids q) then 0 else - 1, ptable, q') \<and> pq_ok ptable q' \<and>
      set (pq_pids q') = set (pq_pids q) - {x}"
    using prio_pdelq_ok [OF assms, of x] by blast
next
  show "\<exists>xs. drain (prio_pdeq ptable) (unat (item_count q)) q = Some xs \<and> set xs = set (pq_pids q) \<and> distinct xs \<and>
      sorted (map (prio_of ptable) xs)"
    using wq.drain_sorted [of ptable q "unat (max_items q)"] assms card_pq_pids [OF assms] by simp
qed

definition demo_proc :: "nat \<Rightarrow> int \<Rightarrow> process_struct" where
  "demo_proc i p =
     \<lparr>pr_state = PROC_WAIT, pr_pid = of_nat i, priority = p, is_allocated = True, blockq = None, timeout = False,
      remain = 0, isrflag = False, pr_thread = None, pr_errno = None\<rparr>"

definition demo_ptable :: "process_struct list" where
  "demo_ptable = [demo_proc 0 31, demo_proc 1 5, demo_proc 2 3, demo_proc 3 7]"

definition demo_waitq :: "pid kqueue" where
  "demo_waitq = \<lparr>item_size = 1, max_items = 4, item_count = 3, qfront = 0, qend = 3, q_items = [2, 1, 3, 0]\<rparr>"

lemma demo_prios:
  "PROC_PRIO demo_ptable 0 = Some 31" "PROC_PRIO demo_ptable 1 = Some 5" "PROC_PRIO demo_ptable 2 = Some 3"
  "PROC_PRIO demo_ptable 3 = Some 7"
  by (simp_all add: PROC_PRIO_def get_proc_def pid_index_def demo_ptable_def arr_get_def demo_proc_def)

lemma demo_waitq_ok: "pq_ok demo_ptable demo_waitq" "pq_pids demo_waitq = [2, 1, 3]"
proof -
  show p: "pq_pids demo_waitq = [2, 1, 3]" by (simp add: pq_pids_def demo_waitq_def)
  have "heap (prio_of demo_ptable) (q_items demo_waitq) 3"
    by (auto simp: heap_def demo_waitq_def PARENT_def prio_of_def demo_prios less_Suc_eq numeral_3_eq_3)
  then show "pq_ok demo_ptable demo_waitq"
    using demo_prios p by (simp add: pq_ok_def valid_pid_def) (simp add: demo_waitq_def)
qed

theorem wait_queue_by_priority_witness:
  "\<exists>q' y q''. prio_pdelq demo_ptable demo_waitq 1 = Some (0, demo_ptable, q') \<and> set (pq_pids q') = {2, 3} \<and>
     prio_pdeq demo_ptable demo_waitq = Some (y, q'') \<and> prio_of demo_ptable y \<le> 3"
proof -
  have d: "{2, 1, 3} - {1} = {2, 3 :: pid}" by auto
  note wq = wait_queue_by_priority [OF demo_waitq_ok(1), of 1, unfolded demo_waitq_ok(2)]
  have p: "prio_of demo_ptable 2 = 3" "\<forall>y \<in> set [2, 1, 3]. 0 \<le> prio_of demo_ptable y"
    by (simp_all add: prio_of_def demo_prios)
  obtain q' where "prio_pdelq demo_ptable demo_waitq 1 = Some (0, demo_ptable, q')" "set (pq_pids q') = {2, 3}"
    using wq p(2) d by auto
  moreover obtain y q'' where "prio_pdeq demo_ptable demo_waitq = Some (y, q'')" "prio_of demo_ptable y \<le> prio_of demo_ptable 2"
    using wq by auto
  ultimately show ?thesis using p(1) by auto
qed

end
