(* ===== verification/Kern_Proc.thy ===== *)
theory Kern_Proc
  imports Kern_Queue
begin

text \<open>
  Scheduling, process states and software timers of the kernel:
  \<^verbatim>\<open>sched.c\<close>, \<^verbatim>\<open>process.c\<close>, \<^verbatim>\<open>timer.c\<close> and the timer interrupt in \<^verbatim>\<open>timer_intr_handler.c\<close> under
  \<^verbatim>\<open>src/bsp/xilkernel_v4_00_a/src/src\<close>, for the priority scheduler the system is configured with.

  The state has the tables of the kernel. The sizes that are configured (\<^verbatim>\<open>N_PRIO\<close>, \<^verbatim>\<open>MAX_TMRS\<close>,
  \<^verbatim>\<open>MAX_SEM\<close> and so on) are the lengths of the tables. \<^verbatim>\<open>current_process\<close> is the table entry of
  \<^verbatim>\<open>current_pid\<close>, 255 standing for -1. A system call that blocks leaves the kernel in the middle of
  a C function; where it goes on when the process runs again is the continuation kept for the
  process, which stands for the saved context. \<open>None\<close> is an access outside a table, a null
  pointer or a halt of the kernel in an endless loop.
\<close>

section \<open>Data\<close>

record soft_tmr =
  tmr_timeout :: u32
  tmr_pid :: pid

record sem_info =
  sem_id :: u8
  sem_value :: u8
  sem_wait_q :: "pid kqueue"
  sem_owner :: pid
  sem_unlinked :: bool

record sem_map_entry =
  sm_name :: "u8 list"
  sm_sem :: u32

datatype mutex_type = PTHREAD_MUTEX_DEFAULT | PTHREAD_MUTEX_RECURSIVE | Other_mutex_type

record mutex_info =
  mx_allocated :: bool
  mx_locked :: u32
  mx_type :: mutex_type
  mutex_wait_q :: "pid kqueue"
  mx_owner :: pid

text \<open>
  Where a blocked system call goes on: behind \<^verbatim>\<open>suspend\<close> in \<^verbatim>\<open>sys_sleep\<close>, or behind
  \<^verbatim>\<open>process_block\<close> in the semaphore calls and in the loop of the mutex call.
\<close>

datatype kcont = K_sleep | K_sem_wait nat | K_sem_timedwait nat | K_mutex_lock nat

record kernel =
  ready_q :: "pid kqueue list"
  ptable :: "process_struct list"
  current_pid :: pid
  prev_pid :: pid
  ctx_save_process :: "pid option"
  idle_task_pid :: pid
  resched :: bool
  did_resched :: bool
  soft_tmrs :: "soft_tmr list"
  active_tmrs :: "int list"
  shadow_tmrs :: "int list"
  nactive :: nat
  kernel_ticks :: u32
  sched_partial_tick :: bool
  timer_need_refresh :: bool
  systmr_khz :: u32
  systmr_interval :: u32
  sem_heap :: "sem_info list"
  sem_map :: "sem_map_entry list"
  mutex_heap :: "mutex_info list"
  conts :: "pid \<Rightarrow> kcont option"

text \<open>The result of a system call: its value, or that the calling process was suspended.\<close>

datatype kres = Ret int | Blocked

section \<open>Process table and queues\<close>

definition upd_proc :: "pid \<Rightarrow> (process_struct \<Rightarrow> process_struct) \<Rightarrow> kernel \<Rightarrow> kernel option" where
  "upd_proc p f s =
     do { pr \<leftarrow> get_proc (ptable s) p; pt \<leftarrow> set_proc (ptable s) p (f pr); Some (s\<lparr>ptable := pt\<rparr>) }"

definition kerrno :: "errno \<Rightarrow> kernel \<Rightarrow> kernel option" where
  "kerrno e s = upd_proc (current_pid s) (\<lambda>pr. pr\<lparr>pr_errno := Some e\<rparr>) s"

definition get_queue :: "qref \<Rightarrow> kernel \<Rightarrow> pid kqueue option" where
  "get_queue r s =
     (case r of
        Sem_q i \<Rightarrow> map_option sem_wait_q (arr_get (sem_heap s) i)
      | Mutex_q i \<Rightarrow> map_option mutex_wait_q (arr_get (mutex_heap s) i)
      | Join_q i \<Rightarrow> None)"

definition put_queue :: "qref \<Rightarrow> pid kqueue \<Rightarrow> kernel \<Rightarrow> kernel option" where
  "put_queue r q s =
     (case r of
        Sem_q i \<Rightarrow>
          do { x \<leftarrow> arr_get (sem_heap s) i; xs \<leftarrow> arr_set (sem_heap s) i (x\<lparr>sem_wait_q := q\<rparr>); Some (s\<lparr>sem_heap := xs\<rparr>) }
      | Mutex_q i \<Rightarrow>
          do { x \<leftarrow> arr_get (mutex_heap s) i; xs \<leftarrow> arr_set (mutex_heap s) i (x\<lparr>mutex_wait_q := q\<rparr>);
               Some (s\<lparr>mutex_heap := xs\<rparr>) }
      | Join_q i \<Rightarrow> None)"

text \<open>\<^verbatim>\<open>penq (&ready_q[ptable[pid].priority], pid, 0)\<close>.\<close>

definition enq_ready :: "pid \<Rightarrow> kernel \<Rightarrow> kernel option" where
  "enq_ready p s =
     do { pr \<leftarrow> get_proc (ptable s) p;
          i \<leftarrow> (if priority pr < 0 then None else Some (nat (priority pr)));
          q \<leftarrow> arr_get (ready_q s) i; q \<leftarrow> penq q p; qs \<leftarrow> arr_set (ready_q s) i q;
          Some (s\<lparr>ready_q := qs\<rparr>) }"

section \<open>Scheduler\<close>

definition readyq_init :: "u8 \<Rightarrow> pid list list \<Rightarrow> pid kqueue list" where
  "readyq_init max_readyq mems = map (\<lambda>mem. alloc_q mem max_readyq 1) mems"

lemma pdeq_decreases: "item_count q \<noteq> 0 \<Longrightarrow> pdeq q = Some (p, q') \<Longrightarrow> unat (item_count q') < unat (item_count q)"
  by (auto simp: pdeq_def unat_pred_pos unat_gt_0 split: bind_splits)

text \<open>The inner loop of \<^verbatim>\<open>sched_prio\<close>: dead processes are flushed out of a ready queue.\<close>

function (sequential) flush_dead :: "process_struct list \<Rightarrow> pid kqueue \<Rightarrow> (pid \<times> pid kqueue) option" where
  "flush_dead pt q =
     (if item_count q \<noteq> 0 then
        (case pdeq q of
           None \<Rightarrow> None
         | Some (ready, q') \<Rightarrow>
             (case get_proc pt ready of
                None \<Rightarrow> None
              | Some pr \<Rightarrow> if pr_state pr = PROC_DEAD then flush_dead pt q' else Some (ready, q')))
      else Some (255, q))"
  by pat_completeness auto
termination
  by (relation "measure (\<lambda>(pt, q). unat (item_count q))") (auto dest: pdeq_decreases)

declare flush_dead.simps [simp del]

fun pick_ready :: "process_struct list \<Rightarrow> pid kqueue list \<Rightarrow> (pid \<times> pid kqueue list) option" where
  "pick_ready pt [] = Some (255, [])"
| "pick_ready pt (q # qs) =
     do { (ready, q') \<leftarrow> flush_dead pt q;
          if ready \<noteq> 255 then Some (ready, q' # qs)
          else do { (ready, qs') \<leftarrow> pick_ready pt qs; Some (ready, q' # qs') } }"

definition sched_prio :: "kernel \<Rightarrow> kernel option" where
  "sched_prio s =
     do { cur \<leftarrow> get_proc (ptable s) (current_pid s);
          s \<leftarrow> (if pr_state cur = PROC_RUN then
                 do { s \<leftarrow> upd_proc (current_pid s) (\<lambda>pr. pr\<lparr>pr_state := PROC_READY\<rparr>) s;
                      if current_pid s \<noteq> idle_task_pid s then enq_ready (current_pid s) s else Some s }
               else Some s);
          let s = s\<lparr>current_pid := 255\<rparr>;
          (ready, qs) \<leftarrow> pick_ready (ptable s) (ready_q s);
          let s = s\<lparr>ready_q := qs\<rparr>;
          let ready = (if ready = 255 then idle_task_pid s else ready);
          s \<leftarrow> upd_proc ready (\<lambda>pr. pr\<lparr>pr_state := PROC_RUN\<rparr>) s;
          Some (s\<lparr>current_pid := ready\<rparr>) }"

text \<open>\<^verbatim>\<open>scheduler\<close>; the result is that the same process goes on.\<close>

definition scheduler :: "kernel \<Rightarrow> (bool \<times> kernel) option" where
  "scheduler s =
     do { cur \<leftarrow> get_proc (ptable s) (current_pid s);
          let s = (if pr_state cur = PROC_DEAD then s\<lparr>ctx_save_process := None, prev_pid := 255\<rparr>
                   else if isrflag cur then s\<lparr>ctx_save_process := None, prev_pid := current_pid s\<rparr>
                   else s\<lparr>ctx_save_process := Some (current_pid s), prev_pid := current_pid s\<rparr>);
          s \<leftarrow> sched_prio s;
          if current_pid s = 255 then None
          else (let s = s\<lparr>did_resched := True, resched := False\<rparr> in Some (prev_pid s = current_pid s, s)) }"

text \<open>
  \<^verbatim>\<open>restore_context\<close> of \<^verbatim>\<open>entry405.S\<close> starts a time slice with \<^verbatim>\<open>pit_reset\<close>, continues the current
  process and clears its interrupt flag.
  \<^verbatim>\<open>suspend\<close> inside a system call that goes on with \<open>k\<close> saves the context unless the scheduler
  found it saved or not needed. To find the same process again is a halt.
\<close>

definition pit_reset :: "kernel \<Rightarrow> kernel" where
  "pit_reset s =
     (if timer_need_refresh s then s\<lparr>did_resched := False, timer_need_refresh := False, sched_partial_tick := False\<rparr>
      else if did_resched s then s\<lparr>did_resched := False, sched_partial_tick := True\<rparr>
      else s)"

definition restore_context :: "kernel \<Rightarrow> kernel option" where
  "restore_context s = upd_proc (current_pid s) (\<lambda>pr. pr\<lparr>isrflag := False\<rparr>) (pit_reset s)"

definition suspend :: "kcont \<Rightarrow> kernel \<Rightarrow> kernel option" where
  "suspend k s =
     do { (same, s) \<leftarrow> scheduler s;
          if same then None
          else
            restore_context
              (case ctx_save_process s of
                 None \<Rightarrow> s
               | Some p \<Rightarrow> s\<lparr>conts := (conts s)(p := Some k)\<rparr>) }"

text \<open>
  The end of a system call and the timer interrupt, as \<^verbatim>\<open>entry405.S\<close> has them: if a rescheduling is
  wanted, the scheduler is called and the chosen process is continued. An interrupt comes while a
  process runs outside the kernel, whose context has been saved.
\<close>

definition sys_exit :: "kernel \<Rightarrow> kernel option" where
  "sys_exit s =
     (if resched s then
        do { (same, s) \<leftarrow> scheduler s;
             if same then Some s else restore_context (s\<lparr>ctx_save_process := None\<rparr>) }
      else Some s)"

section \<open>Timers\<close>

definition ms_to_ticks :: "kernel \<Rightarrow> u32 \<Rightarrow> u32" where
  "ms_to_ticks s ms = (ms * systmr_khz s) div systmr_interval s"

definition ticks_to_ms :: "kernel \<Rightarrow> u32 \<Rightarrow> u32" where
  "ticks_to_ms s ticks = ticks * (systmr_interval s div systmr_khz s)"

definition tmr_get :: "soft_tmr list \<Rightarrow> int \<Rightarrow> soft_tmr option" where
  "tmr_get ts i = (if i < 0 then None else arr_get ts (nat i))"

definition tmr_set :: "soft_tmr list \<Rightarrow> int \<Rightarrow> soft_tmr \<Rightarrow> soft_tmr list option" where
  "tmr_set ts i t = (if i < 0 then None else arr_set ts (nat i) t)"

definition soft_tmr_init :: "kernel \<Rightarrow> kernel" where
  "soft_tmr_init s =
     s\<lparr>soft_tmrs := map (\<lambda>_. \<lparr>tmr_timeout = 0, tmr_pid = 255\<rparr>) (soft_tmrs s),
       active_tmrs := map (\<lambda>_. - 1) (active_tmrs s), shadow_tmrs := map (\<lambda>_. - 1) (shadow_tmrs s),
       nactive := 0, kernel_ticks := 0\<rparr>"

text \<open>The loop of \<^verbatim>\<open>update_active_tmrs_list\<close> over the active identifiers, filling the shadow list.\<close>

fun drop_tmrs :: "pid \<Rightarrow> int list \<Rightarrow> nat \<Rightarrow> kernel \<Rightarrow> (nat \<times> kernel) option" where
  "drop_tmrs p [] n s = Some (n, s)"
| "drop_tmrs p (i # is) n s =
     do { t \<leftarrow> tmr_get (soft_tmrs s) i;
          if tmr_pid t = p then
            do { ts \<leftarrow> tmr_set (soft_tmrs s) i (t\<lparr>tmr_pid := 255\<rparr>); drop_tmrs p is n (s\<lparr>soft_tmrs := ts\<rparr>) }
          else do { sh \<leftarrow> arr_set (shadow_tmrs s) n i; drop_tmrs p is (Suc n) (s\<lparr>shadow_tmrs := sh\<rparr>) } }"

definition active_ids :: "kernel \<Rightarrow> int list option" where
  "active_ids s = (if nactive s \<le> length (active_tmrs s) then Some (take (nactive s) (active_tmrs s)) else None)"

definition swap_tmrs :: "nat \<times> kernel \<Rightarrow> kernel" where
  "swap_tmrs = (\<lambda>(n, s). s\<lparr>active_tmrs := shadow_tmrs s, shadow_tmrs := active_tmrs s, nactive := n\<rparr>)"

definition update_active_tmrs_list :: "pid \<Rightarrow> kernel \<Rightarrow> kernel option" where
  "update_active_tmrs_list p s = do { is \<leftarrow> active_ids s; ns \<leftarrow> drop_tmrs p is 0 s; Some (swap_tmrs ns) }"

definition get_free_tmr :: "kernel \<Rightarrow> int" where
  "get_free_tmr s =
     (if nactive s = length (soft_tmrs s) then - 1 else int (scan_table (\<lambda>t. tmr_pid t = 255) 0 (soft_tmrs s)))"

definition add_tmr :: "pid \<Rightarrow> u32 \<Rightarrow> kernel \<Rightarrow> (int \<times> kernel) option" where
  "add_tmr p ms s =
     (let tmr = get_free_tmr s
      in if tmr < 0 then Some (- 1, s)
         else
           (let ticks = ms_to_ticks s ms; ticks = (if ticks = 0 then 1 else ticks)
            in do { ts \<leftarrow> tmr_set (soft_tmrs s) tmr \<lparr>tmr_timeout = ticks, tmr_pid = p\<rparr>;
                    act \<leftarrow> arr_set (active_tmrs s) (nactive s) tmr;
                    Some (0, s\<lparr>soft_tmrs := ts, active_tmrs := act, nactive := nactive s + 1\<rparr>) }))"

definition remove_tmr :: "pid \<Rightarrow> kernel \<Rightarrow> (u32 \<times> kernel) option" where
  "remove_tmr p s =
     (let i = scan_table (\<lambda>t. tmr_pid t = p) 0 (soft_tmrs s)
      in if i < length (soft_tmrs s) then
           do { s' \<leftarrow> update_active_tmrs_list p s; Some (ticks_to_ms s (tmr_timeout (soft_tmrs s ! i)), s') }
         else Some (0, s))"

definition handle_timeout :: "pid \<Rightarrow> kernel \<Rightarrow> kernel option" where
  "handle_timeout p s =
     do { pr \<leftarrow> get_proc (ptable s) p;
          s \<leftarrow> (case blockq pr of
                 None \<Rightarrow> Some s
               | Some r \<Rightarrow>
                   do { q \<leftarrow> get_queue r s; (_, pt, q) \<leftarrow> prio_pdelq (ptable s) q p;
                        s \<leftarrow> put_queue r q (s\<lparr>ptable := pt\<rparr>);
                        upd_proc p (\<lambda>pr. pr\<lparr>timeout := True, blockq := None\<rparr>) s });
          s \<leftarrow> upd_proc p (\<lambda>pr. pr\<lparr>pr_state := PROC_READY\<rparr>) s;
          s \<leftarrow> enq_ready p s;
          Some (s\<lparr>resched := True\<rparr>) }"

text \<open>The loop of \<^verbatim>\<open>soft_tmr_handler\<close> over the active identifiers.\<close>

fun tick_tmrs :: "int list \<Rightarrow> nat \<Rightarrow> kernel \<Rightarrow> (nat \<times> kernel) option" where
  "tick_tmrs [] n s = Some (n, s)"
| "tick_tmrs (i # is) n s =
     do { t \<leftarrow> tmr_get (soft_tmrs s) i;
          ts \<leftarrow> tmr_set (soft_tmrs s) i (t\<lparr>tmr_timeout := tmr_timeout t - 1\<rparr>);
          let s = s\<lparr>soft_tmrs := ts\<rparr>;
          if tmr_timeout t - 1 = 0 then
            do { s \<leftarrow> handle_timeout (tmr_pid t) s;
                 ts \<leftarrow> tmr_set (soft_tmrs s) i (t\<lparr>tmr_timeout := 0, tmr_pid := 255\<rparr>);
                 tick_tmrs is n (s\<lparr>soft_tmrs := ts\<rparr>) }
          else do { sh \<leftarrow> arr_set (shadow_tmrs s) n i; tick_tmrs is (Suc n) (s\<lparr>shadow_tmrs := sh\<rparr>) } }"

definition soft_tmr_handler :: "kernel \<Rightarrow> kernel option" where
  "soft_tmr_handler s = do { is \<leftarrow> active_ids s; ns \<leftarrow> tick_tmrs is 0 s; Some (swap_tmrs ns) }"

definition timer_int_handler :: "kernel \<Rightarrow> kernel option" where
  "timer_int_handler s =
     do { s \<leftarrow> soft_tmr_handler (s\<lparr>kernel_ticks := kernel_ticks s + 1\<rparr>);
          let s = (if sched_partial_tick s then s\<lparr>sched_partial_tick := False\<rparr> else s\<lparr>resched := True\<rparr>);
          Some (s\<lparr>timer_need_refresh := True\<rparr>) }"

definition timer_irq :: "kernel \<Rightarrow> kernel option" where
  "timer_irq s =
     do { s \<leftarrow> upd_proc (current_pid s) (\<lambda>pr. pr\<lparr>isrflag := True\<rparr>) s;
          s \<leftarrow> timer_int_handler s;
          s \<leftarrow> (if resched s then do { (_, s) \<leftarrow> scheduler s; Some (s\<lparr>ctx_save_process := None\<rparr>) } else Some s);
          restore_context s }"

definition sys_xget_clock_ticks :: "kernel \<Rightarrow> u32" where
  "sys_xget_clock_ticks s = kernel_ticks s"

definition sys_time :: "u32 \<Rightarrow> kernel \<Rightarrow> u32" where
  "sys_time systmr_clk_freq s = (kernel_ticks s * systmr_interval s) div systmr_clk_freq"

definition sys_sleep :: "u32 \<Rightarrow> kernel \<Rightarrow> (kres \<times> kernel) option" where
  "sys_sleep ms s =
     do { (r, s) \<leftarrow> add_tmr (current_pid s) ms s;
          if r = - 1 then Some (Ret (uint ms), s)
          else
            do { s \<leftarrow> upd_proc (current_pid s) (\<lambda>pr. pr\<lparr>pr_state := PROC_DELAY\<rparr>) s;
                 s \<leftarrow> suspend K_sleep s;
                 Some (Blocked, s) } }"

section \<open>Processes\<close>

definition proc_create :: "u32 \<Rightarrow> kernel \<Rightarrow> (pid \<times> kernel) option" where
  "proc_create prio s =
     (let i = scan_table (\<lambda>pr. \<not> is_allocated pr) 0 (ptable s)
      in if i = length (ptable s) then Some (255, s)
         else
           (let p = of_nat i;
                pcb = (ptable s ! i)\<lparr>is_allocated := True, pr_pid := p, pr_state := PROC_NEW,
                        priority := sint (ucast prio :: u8), blockq := None, isrflag := False, pr_thread := None\<rparr>;
                s = s\<lparr>ptable := (ptable s)[i := pcb]\<rparr>
            in do { s \<leftarrow> (if p \<noteq> 0 then
                            do { q \<leftarrow> arr_get (ready_q s) (unat prio); q \<leftarrow> penq q p;
                                 qs \<leftarrow> arr_set (ready_q s) (unat prio) q; Some (s\<lparr>ready_q := qs\<rparr>) }
                          else Some s);
                    Some (p, s\<lparr>resched := True\<rparr>) }))"

definition process_invalidate :: "pid \<Rightarrow> kernel \<Rightarrow> kernel option" where
  "process_invalidate p s = upd_proc p (\<lambda>pr. pr\<lparr>is_allocated := False, pr_state := PROC_DEAD\<rparr>) s"

definition sys_process_status :: "pid \<Rightarrow> kernel \<Rightarrow> (int \<times> pid \<times> proc_state option) option" where
  "sys_process_status p s =
     do { pr \<leftarrow> get_proc (ptable s) p;
          if is_allocated pr then Some (0, p, Some (pr_state pr)) else Some (- 1, 255, None) }"

definition sys_yield :: "kernel \<Rightarrow> int \<times> kernel" where
  "sys_yield s = (0, s\<lparr>resched := True\<rparr>)"

definition sys_get_currentPID :: "kernel \<Rightarrow> pid" where
  "sys_get_currentPID s = current_pid s"

text \<open>
  A process of its own program: the new context starts at its beginning, not inside a call. Its end
  does not return.
\<close>

definition sys_elf_process_create :: "u32 \<Rightarrow> kernel \<Rightarrow> (kres \<times> kernel) option" where
  "sys_elf_process_create prio s =
     do { (p, s) \<leftarrow> proc_create prio s;
          if p = 255 then Some (Ret (- 1), s) else Some (Ret (sint p), s\<lparr>conts := (conts s)(p := None)\<rparr>) }"

definition sys_elf_exit :: "kernel \<Rightarrow> (kres \<times> kernel) option" where
  "sys_elf_exit s =
     do { s \<leftarrow> process_invalidate (current_pid s) s; s \<leftarrow> suspend K_sleep s; Some (Blocked, s) }"

definition process_block :: "qref \<Rightarrow> proc_state \<Rightarrow> kcont \<Rightarrow> kernel \<Rightarrow> kernel option" where
  "process_block r st k s =
     do { q \<leftarrow> get_queue r s; q \<leftarrow> prio_penq (ptable s) q (current_pid s); s \<leftarrow> put_queue r q s;
          s \<leftarrow> upd_proc (current_pid s) (\<lambda>pr. pr\<lparr>blockq := Some r, pr_state := st\<rparr>) s;
          suspend k s }"

definition process_unblock :: "qref \<Rightarrow> kernel \<Rightarrow> kernel option" where
  "process_unblock r s =
     do { q \<leftarrow> get_queue r s; (p, q) \<leftarrow> prio_pdeq (ptable s) q; s \<leftarrow> put_queue r q s;
          if p = 255 then Some s
          else
            do { pr \<leftarrow> get_proc (ptable s) p;
                 s \<leftarrow> (if pr_state pr = PROC_TIMED_WAIT then
                        do { (ms, s) \<leftarrow> remove_tmr p s; upd_proc p (\<lambda>pr. pr\<lparr>remain := ms\<rparr>) s }
                      else Some s);
                 s \<leftarrow> upd_proc p (\<lambda>pr. pr\<lparr>pr_state := PROC_READY, blockq := None\<rparr>) s;
                 s \<leftarrow> enq_ready p s;
                 Some (s\<lparr>resched := True\<rparr>) } }"

end
