(* ===== verification/Kern_Sched.thy ===== *)
theory Kern_Sched
  imports Kern_Proc
begin

text \<open>
  What the scheduler chooses, the invariant of the kernel tables, and that scheduling keeps it.
\<close>

section \<open>Views of the state\<close>

lemma get_set_proc:
  assumes "get_proc pt p = Some pr"
  shows "\<exists>pt'. set_proc pt p x = Some pt' \<and> length pt' = length pt \<and> get_proc pt' = (get_proc pt)(p \<mapsto> x)"
proof -
  obtain i where i: "pid_index p = Some i" "i < length pt"
    using assms by (auto simp: get_proc_def arr_get_def split: bind_splits if_splits)
  have "get_proc (pt[i := x]) y = ((get_proc pt)(p \<mapsto> x)) y" for y
    using i pid_index_inj [of y i p] by (cases "pid_index y") (auto simp: get_proc_def arr_get_def nth_list_update)
  then show ?thesis using i by (auto simp: set_proc_def array_simps)
qed

lemma upd_proc_eq:
  assumes "get_proc (ptable s) p = Some pr"
  shows "\<exists>pt. upd_proc p f s = Some (s\<lparr>ptable := pt\<rparr>) \<and> length pt = length (ptable s) \<and>
     get_proc pt = (get_proc (ptable s))(p \<mapsto> f pr)"
  using assms get_set_proc [OF assms, of "f pr"] by (auto simp: upd_proc_def)

lemma PROC_PRIO_get: "PROC_PRIO pt p = map_option priority (get_proc pt p)"
  by (cases "get_proc pt p") (auto simp: PROC_PRIO_def)

lemma valid_pid_get: "valid_pid pt p \<longleftrightarrow> get_proc pt p \<noteq> None"
  by (simp add: valid_pid_def PROC_PRIO_get)

lemma prio_of_get: "get_proc pt p = Some pr \<Longrightarrow> prio_of pt p = priority pr"
  by (simp add: prio_of_def PROC_PRIO_get)

text \<open>A wait queue stays a heap when the priorities of its processes do not change.\<close>

lemma pq_ok_cong:
  assumes "\<And>p. map_option priority (get_proc pt' p) = map_option priority (get_proc pt p)"
  shows "pq_ok pt' q = pq_ok pt q"
proof -
  have "PROC_PRIO pt' = PROC_PRIO pt" using assms by (simp add: fun_eq_iff PROC_PRIO_get)
  then show ?thesis by (simp add: pq_ok_def valid_pid_def prio_of_def [abs_def])
qed

text \<open>There are at most as many different processes as table entries.\<close>

lemma valid_pids_length:
  assumes "distinct xs" "\<forall>x \<in> set xs. get_proc pt x \<noteq> None"
  shows "length xs \<le> length pt"
proof -
  define f where "f x = the (pid_index x)" for x :: pid
  have ix: "\<exists>i. pid_index x = Some i \<and> i < length pt" if "x \<in> set xs" for x
    using assms(2) that by (auto simp: get_proc_def arr_get_def split: bind_splits if_splits)
  have "inj_on f (set xs)"
  proof (rule inj_onI)
    fix x y
    assume "x \<in> set xs" "y \<in> set xs" "f x = f y"
    then show "x = y" using ix [of x] ix [of y] pid_index_inj [of x _ y] by (auto simp: f_def)
  qed
  moreover have "f ` set xs \<subseteq> {..<length pt}" using ix by (force simp: f_def)
  ultimately have "card (set xs) \<le> card {..<length pt}" by (metis card_inj_on_le finite_lessThan)
  then show ?thesis using assms(1) by (simp add: distinct_card)
qed

section \<open>The choice of the scheduler\<close>

lemma pdeq_list:
  assumes "q_ok q"
  shows "\<exists>q'. pdeq q = Some (if q_list q = [] then 255 else hd (q_list q), q') \<and> q_ok q' \<and> max_items q' = max_items q \<and>
     q_list q' = tl (q_list q)"
  using deq_list [OF assms] by (auto simp: pdeq_deq)

lemma penq_list:
  assumes "q_ok q"
  shows "\<exists>q'. penq q x = Some q' \<and> q_ok q' \<and> max_items q' = max_items q \<and>
     q_list q' = (if length (q_list q) < unat (max_items q) then q_list q @ [x] else q_list q)"
  using enq_list [OF assms, of x] by (auto simp: penq_enq)

definition is_dead :: "process_struct list \<Rightarrow> pid \<Rightarrow> bool" where
  "is_dead pt p \<longleftrightarrow> (case get_proc pt p of None \<Rightarrow> False | Some pr \<Rightarrow> pr_state pr = PROC_DEAD)"

lemma q_list_empty: "q_list q = [] \<longleftrightarrow> item_count q = 0"
  using length_q_list [of q] by (metis length_0_conv unat_0 unat_eq_0)

lemma flush_dead_list:
  assumes "q_ok q" "\<forall>x \<in> set (q_list q). get_proc pt x \<noteq> None"
  shows "\<exists>q'. flush_dead pt q =
       Some (case dropWhile (is_dead pt) (q_list q) of [] \<Rightarrow> 255 | x # xs \<Rightarrow> x, q') \<and> q_ok q' \<and> max_items q' = max_items q \<and>
     q_list q' = tl (dropWhile (is_dead pt) (q_list q))"
  using assms
proof (induction "q_list q" arbitrary: q)
  case Nil
  then have "q_list q = []" by simp
  moreover from this have "flush_dead pt q = Some (255, q)" using q_list_empty [of q] by (simp add: flush_dead.simps [of pt q])
  ultimately show ?case using Nil.prems(1) by simp
next
  case (Cons x xs)
  have nz: "item_count q \<noteq> 0" using q_list_empty [of q] unfolding Cons.hyps(2) [symmetric] by simp
  obtain q' where q': "pdeq q = Some (x, q')" "q_ok q'" "max_items q' = max_items q" "q_list q' = xs"
    using pdeq_list [OF Cons.prems(1)] unfolding Cons.hyps(2) [symmetric] by auto
  obtain pr where pr: "get_proc pt x = Some pr" using Cons.prems(2) unfolding Cons.hyps(2) [symmetric] by auto
  have flush: "flush_dead pt q = (if is_dead pt x then flush_dead pt q' else Some (x, q'))"
    using nz q'(1) pr by (simp add: flush_dead.simps [of pt q] is_dead_def)
  show ?case
  proof (cases "is_dead pt x")
    case True
    have "\<forall>y \<in> set (q_list q'). get_proc pt y \<noteq> None" using Cons.prems(2) unfolding q'(4) Cons.hyps(2) [symmetric] by simp
    then have "\<exists>q''. flush_dead pt q' = Some (case dropWhile (is_dead pt) (q_list q') of [] \<Rightarrow> 255 | x # xs \<Rightarrow> x, q'') \<and>
        q_ok q'' \<and> max_items q'' = max_items q' \<and> q_list q'' = tl (dropWhile (is_dead pt) (q_list q'))"
      by (rule Cons.hyps(1) [OF q'(4) [symmetric] q'(2)])
    moreover have "dropWhile (is_dead pt) (q_list q) = dropWhile (is_dead pt) (q_list q')"
      unfolding Cons.hyps(2) [symmetric] q'(4) using True by simp
    ultimately show ?thesis unfolding flush if_P [OF True] q'(3) by simp
  next
    case False
    then show ?thesis using flush q' unfolding Cons.hyps(2) [symmetric] by simp
  qed
qed

text \<open>The process of the first queue that has a live one.\<close>

fun first_ready :: "process_struct list \<Rightarrow> pid list list \<Rightarrow> pid option \<times> pid list list" where
  "first_ready pt [] = (None, [])"
| "first_ready pt (xs # xss) =
     (case dropWhile (is_dead pt) xs of
        x # ys \<Rightarrow> (Some x, ys # xss)
      | [] \<Rightarrow> (let (r, yss) = first_ready pt xss in (r, [] # yss)))"

lemma valid_not_255: "get_proc pt p \<noteq> None \<Longrightarrow> p \<noteq> 255"
  by (auto simp: get_proc_def pid_index_def)

lemma pick_ready_list:
  assumes "\<forall>q \<in> set qs. q_ok q \<and> (\<forall>x \<in> set (q_list q). get_proc pt x \<noteq> None)"
  shows "\<exists>qs'. pick_ready pt qs = Some (case fst (first_ready pt (map q_list qs)) of None \<Rightarrow> 255 | Some p \<Rightarrow> p, qs') \<and>
     map q_list qs' = snd (first_ready pt (map q_list qs)) \<and> map max_items qs' = map max_items qs \<and> (\<forall>q \<in> set qs'. q_ok q)"
  using assms
proof (induction qs)
  case (Cons q qs)
  obtain q' where q': "flush_dead pt q = Some (case dropWhile (is_dead pt) (q_list q) of [] \<Rightarrow> 255 | x # xs \<Rightarrow> x, q')"
      "q_ok q'" "max_items q' = max_items q" "q_list q' = tl (dropWhile (is_dead pt) (q_list q))"
    using flush_dead_list [of q pt] Cons.prems by auto
  show ?case
  proof (cases "dropWhile (is_dead pt) (q_list q)")
    case Nil
    obtain qs' where qs': "pick_ready pt qs = Some (case fst (first_ready pt (map q_list qs)) of None \<Rightarrow> 255 | Some p \<Rightarrow> p, qs')"
        "map q_list qs' = snd (first_ready pt (map q_list qs))" "map max_items qs' = map max_items qs" "\<forall>q \<in> set qs'. q_ok q"
      using Cons.IH Cons.prems by auto
    have "pick_ready pt (q # qs) = Some (case fst (first_ready pt (map q_list qs)) of None \<Rightarrow> 255 | Some p \<Rightarrow> p, q' # qs')"
      using q'(1) qs'(1) unfolding Nil by simp
    moreover have "first_ready pt (map q_list (q # qs)) = (fst (first_ready pt (map q_list qs)), [] # snd (first_ready pt (map q_list qs)))"
      unfolding list.map first_ready.simps Nil by (simp add: split_def Let_def)
    ultimately show ?thesis using q' [unfolded Nil] qs' by (intro exI [of _ "q' # qs'"]) simp
  next
    case dw: (Cons x xs)
    have "x \<in> set (q_list q)" using set_dropWhileD [of x "is_dead pt" "q_list q"] dw by simp
    then have "x \<noteq> 255" using Cons.prems valid_not_255 [of pt x] by simp
    then show ?thesis using q' [unfolded dw] Cons.prems dw by (intro exI [of _ "q' # qs"]) simp
  qed
qed simp

lemma first_ready_spec:
  "case first_ready pt xss of
     (None, yss) \<Rightarrow> (\<forall>xs \<in> set xss. \<forall>x \<in> set xs. is_dead pt x) \<and> yss = map (\<lambda>_. []) xss
   | (Some p, yss) \<Rightarrow> \<exists>i < length xss. \<exists>ds ys. (\<forall>j < i. \<forall>x \<in> set (xss ! j). is_dead pt x) \<and>
        xss ! i = ds @ p # ys \<and> (\<forall>x \<in> set ds. is_dead pt x) \<and> \<not> is_dead pt p \<and>
        yss = replicate i [] @ ys # drop (Suc i) xss"
proof (induction xss)
  case (Cons xs xss)
  show ?case
  proof (cases "dropWhile (is_dead pt) xs")
    case dw: (Cons x ys)
    have "xs = takeWhile (is_dead pt) xs @ x # ys" using takeWhile_dropWhile_id [of "is_dead pt" xs] dw by simp
    moreover have "\<not> is_dead pt x" using hd_dropWhile [of "is_dead pt" xs] dw by simp
    ultimately show ?thesis
      unfolding first_ready.simps dw list.case prod.case option.case
      by (intro exI [of _ 0] conjI exI [of _ "takeWhile (is_dead pt) xs"] exI [of _ ys])
        (auto dest: set_takeWhileD simp del: takeWhile_append)
  next
    case Nil
    then have dead: "\<forall>x \<in> set xs. is_dead pt x" by simp
    obtain r yss where ry: "first_ready pt xss = (r, yss)" by (cases "first_ready pt xss")
    have eq: "first_ready pt (xs # xss) = (r, [] # yss)" unfolding first_ready.simps Nil ry by simp
    show ?thesis
    proof (cases r)
      case None
      then show ?thesis using Cons.IH dead unfolding eq ry by simp
    next
      case (Some p)
      obtain i ds ys where i: "i < length xss" "\<forall>j < i. \<forall>x \<in> set (xss ! j). is_dead pt x"
          "xss ! i = ds @ p # ys" "\<forall>x \<in> set ds. is_dead pt x" "\<not> is_dead pt p" "yss = replicate i [] @ ys # drop (Suc i) xss"
        using Cons.IH unfolding ry Some by auto
      have "\<forall>j < Suc i. \<forall>x \<in> set ((xs # xss) ! j). is_dead pt x" using i(2) dead by (auto simp: less_Suc_eq_0_disj)
      moreover have "\<exists>ds ys. (xs # xss) ! Suc i = ds @ p # ys \<and> (\<forall>x \<in> set ds. is_dead pt x) \<and> \<not> is_dead pt p \<and>
          [] # yss = replicate (Suc i) [] @ ys # drop (Suc (Suc i)) (xs # xss)"
        using i by auto
      ultimately show ?thesis using i(1) unfolding eq Some prod.case option.case by (intro exI [of _ "Suc i"]) auto
    qed
  qed
qed simp

text \<open>The queues the scheduler chooses from: the running process goes to the end of its queue.\<close>

definition requeued :: "kernel \<Rightarrow> process_struct \<Rightarrow> pid list list" where
  "requeued s cur =
     (let xss = map q_list (ready_q s); i = nat (priority cur)
      in if pr_state cur = PROC_RUN \<and> current_pid s \<noteq> idle_task_pid s then xss[i := xss ! i @ [current_pid s]] else xss)"

definition unrun :: "process_struct \<Rightarrow> process_struct" where
  "unrun pr = (if pr_state pr = PROC_RUN then pr\<lparr>pr_state := PROC_READY\<rparr> else pr)"

lemma enq_ready_eq:
  assumes "get_proc (ptable s) p = Some pr" "0 \<le> priority pr" "nat (priority pr) < length (ready_q s)"
    and "q_ok (ready_q s ! nat (priority pr))"
    and "length (q_list (ready_q s ! nat (priority pr))) < unat (max_items (ready_q s ! nat (priority pr)))"
  shows "\<exists>qs. enq_ready p s = Some (s\<lparr>ready_q := qs\<rparr>) \<and> length qs = length (ready_q s) \<and>
     map q_list qs = (map q_list (ready_q s))[nat (priority pr) := q_list (ready_q s ! nat (priority pr)) @ [p]] \<and>
     map max_items qs = map max_items (ready_q s) \<and> ((\<forall>q \<in> set (ready_q s). q_ok q) \<longrightarrow> (\<forall>q \<in> set qs. q_ok q))"
proof -
  define i where "i = nat (priority pr)"
  obtain q' where q': "penq (ready_q s ! i) p = Some q'" "q_ok q'" "max_items q' = max_items (ready_q s ! i)"
      "q_list q' = q_list (ready_q s ! i) @ [p]"
    using penq_list [OF assms(4), of p] assms(5) by (auto simp: i_def)
  have i: "i < length (ready_q s)" using assms(3) by (simp add: i_def)
  have "enq_ready p s = Some (s\<lparr>ready_q := (ready_q s)[i := q']\<rparr>)"
    using assms(1,2) i q'(1) by (simp add: enq_ready_def array_simps flip: i_def)
  moreover have "map max_items ((ready_q s)[i := q']) = map max_items (ready_q s)"
    using q'(3) i by (simp add: map_update) (metis list_update_id nth_map)
  moreover have "\<forall>q \<in> set ((ready_q s)[i := q']). q_ok q" if "\<forall>q \<in> set (ready_q s). q_ok q"
    using that q'(2) set_update_subset_insert [of "ready_q s" i q'] by blast
  ultimately show ?thesis using q'(4) unfolding i_def [symmetric]
    by (intro exI [of _ "(ready_q s)[i := q']"]) (simp add: map_update)
qed

lemma set_requeued:
  assumes "xs \<in> set (requeued s cur)" "x \<in> set xs"
  shows "x = current_pid s \<or> (\<exists>q \<in> set (ready_q s). x \<in> set (q_list q))"
proof -
  let ?xss = "map q_list (ready_q s)" and ?i = "nat (priority cur)"
  have "xs \<in> set ?xss \<or> ?i < length ?xss \<and> xs = ?xss ! ?i @ [current_pid s]"
    using assms(1) set_update_subset_insert [of ?xss ?i "?xss ! ?i @ [current_pid s]"]
    by (cases "?i < length ?xss") (auto simp: requeued_def Let_def list_update_beyond not_less split: if_splits)
  then show ?thesis using assms(2) nth_mem [of ?i "ready_q s"] by auto
qed

lemma requeue_eq:
  assumes cur: "get_proc (ptable s) (current_pid s) = Some cur"
    and qs: "\<forall>q \<in> set (ready_q s). q_ok q"
    and room: "pr_state cur = PROC_RUN \<and> current_pid s \<noteq> idle_task_pid s \<Longrightarrow>
      0 \<le> priority cur \<and> nat (priority cur) < length (ready_q s) \<and>
      length (q_list (ready_q s ! nat (priority cur))) < unat (max_items (ready_q s ! nat (priority cur)))"
  shows "\<exists>pt1 qs1. (if pr_state cur = PROC_RUN then
        do { s \<leftarrow> upd_proc (current_pid s) (\<lambda>pr. pr\<lparr>pr_state := PROC_READY\<rparr>) s;
             if current_pid s \<noteq> idle_task_pid s then enq_ready (current_pid s) s else Some s }
      else Some s) = Some (s\<lparr>ptable := pt1, ready_q := qs1\<rparr>) \<and>
    get_proc pt1 = (get_proc (ptable s))(current_pid s \<mapsto> unrun cur) \<and> length pt1 = length (ptable s) \<and>
    map q_list qs1 = requeued s cur \<and> map max_items qs1 = map max_items (ready_q s) \<and> (\<forall>q \<in> set qs1. q_ok q)"
    (is "\<exists>pt1 qs1. ?m = _ \<and> _")
proof (cases "pr_state cur = PROC_RUN")
  case False
  then show ?thesis
    using fun_upd_idem [of "get_proc (ptable s)" "current_pid s", OF cur] qs
    by (intro exI [of _ "ptable s"] exI [of _ "ready_q s"]) (simp add: unrun_def requeued_def)
next
  case True
  let ?c = "current_pid s"
  obtain pt where pt: "upd_proc ?c (\<lambda>pr. pr\<lparr>pr_state := PROC_READY\<rparr>) s = Some (s\<lparr>ptable := pt\<rparr>)"
      "length pt = length (ptable s)" "get_proc pt = (get_proc (ptable s))(?c \<mapsto> cur\<lparr>pr_state := PROC_READY\<rparr>)"
    using upd_proc_eq [OF cur, of "\<lambda>pr. pr\<lparr>pr_state := PROC_READY\<rparr>"] by auto
  show ?thesis
  proof (cases "?c = idle_task_pid s")
    case eq: True
    then show ?thesis
      using True pt qs by (intro exI [of _ pt] exI [of _ "ready_q s"]) (simp add: unrun_def requeued_def)
  next
    case False
    let ?i = "nat (priority cur)"
    have rm: "0 \<le> priority cur" "?i < length (ready_q s)" "length (q_list (ready_q s ! ?i)) < unat (max_items (ready_q s ! ?i))"
      using room True False by auto
    have "\<exists>qs'. enq_ready ?c (s\<lparr>ptable := pt\<rparr>) = Some (s\<lparr>ptable := pt, ready_q := qs'\<rparr>) \<and>
        map q_list qs' = (map q_list (ready_q s))[?i := q_list (ready_q s ! ?i) @ [?c]] \<and>
        map max_items qs' = map max_items (ready_q s) \<and> (\<forall>q \<in> set qs'. q_ok q)"
      using enq_ready_eq [of "s\<lparr>ptable := pt\<rparr>" ?c "cur\<lparr>pr_state := PROC_READY\<rparr>"] pt(3) rm qs by auto
    then obtain qs' where qs': "enq_ready ?c (s\<lparr>ptable := pt\<rparr>) = Some (s\<lparr>ptable := pt, ready_q := qs'\<rparr>)"
        "map q_list qs' = (map q_list (ready_q s))[?i := q_list (ready_q s ! ?i) @ [?c]]"
        "map max_items qs' = map max_items (ready_q s)" "\<forall>q \<in> set qs'. q_ok q" by blast
    then show ?thesis
      using True False pt rm(2)
      by (intro exI [of _ pt] exI [of _ qs']) (simp add: unrun_def requeued_def Let_def)
  qed
qed

lemma sched_prio_eq:
  assumes cur: "get_proc (ptable s) (current_pid s) = Some cur"
    and qs: "\<forall>q \<in> set (ready_q s). q_ok q \<and> (\<forall>x \<in> set (q_list q). get_proc (ptable s) x \<noteq> None)"
    and idle: "get_proc (ptable s) (idle_task_pid s) \<noteq> None"
    and room: "pr_state cur = PROC_RUN \<and> current_pid s \<noteq> idle_task_pid s \<Longrightarrow>
      0 \<le> priority cur \<and> nat (priority cur) < length (ready_q s) \<and>
      length (q_list (ready_q s ! nat (priority cur))) < unat (max_items (ready_q s ! nat (priority cur)))"
    and pick: "first_ready (ptable s) (requeued s cur) = (r, yss)"
    and nxt: "nx = (case r of None \<Rightarrow> idle_task_pid s | Some p \<Rightarrow> p)"
  shows "\<exists>qs pt prn. sched_prio s = Some (s\<lparr>ready_q := qs, ptable := pt, current_pid := nx\<rparr>) \<and>
     map q_list qs = yss \<and> map max_items qs = map max_items (ready_q s) \<and> (\<forall>q \<in> set qs. q_ok q) \<and>
     ((get_proc (ptable s))(current_pid s \<mapsto> unrun cur)) nx = Some prn \<and> length pt = length (ptable s) \<and>
     get_proc pt = (get_proc (ptable s))(current_pid s \<mapsto> unrun cur, nx \<mapsto> prn\<lparr>pr_state := PROC_RUN\<rparr>)"
proof -
  let ?c = "current_pid s"
  have "\<forall>q \<in> set (ready_q s). q_ok q" using qs by blast
  from requeue_eq [OF cur this room] obtain pt1 qs1 where s1: "(if pr_state cur = PROC_RUN then
        do { s \<leftarrow> upd_proc ?c (\<lambda>pr. pr\<lparr>pr_state := PROC_READY\<rparr>) s;
             if current_pid s \<noteq> idle_task_pid s then enq_ready (current_pid s) s else Some s }
      else Some s) = Some (s\<lparr>ptable := pt1, ready_q := qs1\<rparr>)"
    and pt1: "get_proc pt1 = (get_proc (ptable s))(?c \<mapsto> unrun cur)" "length pt1 = length (ptable s)"
    and qs1: "map q_list qs1 = requeued s cur" "map max_items qs1 = map max_items (ready_q s)" "\<forall>q \<in> set qs1. q_ok q"
    by blast
  have dead: "is_dead pt1 = is_dead (ptable s)"
    using cur pt1(1) by (auto simp: is_dead_def fun_eq_iff unrun_def)
  have fr: "first_ready pt1 xss = first_ready (ptable s) xss" for xss
    by (induction xss) (simp_all only: first_ready.simps dead)
  have valid: "get_proc pt1 x \<noteq> None" if "xs \<in> set (requeued s cur)" "x \<in> set xs" for x xs
    using set_requeued [OF that] qs pt1(1) by auto
  have "\<forall>q \<in> set qs1. q_ok q \<and> (\<forall>x \<in> set (q_list q). get_proc pt1 x \<noteq> None)"
  proof (intro ballI conjI)
    fix q x
    assume q: "q \<in> set qs1" "x \<in> set (q_list q)"
    then have "q_list q \<in> set (requeued s cur)" unfolding qs1(1) [symmetric] by simp
    then show "get_proc pt1 x \<noteq> None" using valid q(2) by blast
  qed (use qs1(3) in blast)
  from pick_ready_list [OF this, unfolded qs1(1,2) fr pick fst_conv snd_conv]
  obtain qs2 where qs2: "pick_ready pt1 qs1 = Some (case r of None \<Rightarrow> 255 | Some p \<Rightarrow> p, qs2)" "map q_list qs2 = yss"
      "map max_items qs2 = map max_items (ready_q s)" "\<forall>q \<in> set qs2. q_ok q"
    by blast
  have "get_proc pt1 nx \<noteq> None"
  proof (cases r)
    case None
    then show ?thesis using idle pt1(1) nxt by simp
  next
    case (Some p)
    have "\<exists>xs \<in> set (requeued s cur). p \<in> set xs"
      using first_ready_spec [of "requeued s cur" "ptable s"] unfolding pick Some by (auto intro!: bexI [OF _ nth_mem])
    then show ?thesis using valid nxt Some by auto
  qed
  then obtain prn where prn: "get_proc pt1 nx = Some prn" by auto
  have nx: "r = None \<and> nx = idle_task_pid s \<or> r = Some nx \<and> nx \<noteq> 255"
    using nxt valid_not_255 [of pt1 nx] prn by (cases r) auto
  define s2 where "s2 = s\<lparr>ptable := pt1, current_pid := 255, ready_q := qs2\<rparr>"
  have "get_proc (ptable s2) nx = Some prn" using prn by (simp add: s2_def)
  from upd_proc_eq [OF this, of "\<lambda>pr. pr\<lparr>pr_state := PROC_RUN\<rparr>"]
  obtain pt2 where pt2: "upd_proc nx (\<lambda>pr. pr\<lparr>pr_state := PROC_RUN\<rparr>) s2 = Some (s2\<lparr>ptable := pt2\<rparr>)"
      "length pt2 = length (ptable s)" "get_proc pt2 = (get_proc pt1)(nx \<mapsto> prn\<lparr>pr_state := PROC_RUN\<rparr>)"
    by (auto simp: s2_def pt1(2))
  have "sched_prio s = Some (s2\<lparr>ptable := pt2, current_pid := nx\<rparr>)"
    using nx pt2(1) by (elim disjE conjE) (simp_all add: sched_prio_def s2_def cur s1 qs2(1))
  then have "sched_prio s = Some (s\<lparr>ready_q := qs2, ptable := pt2, current_pid := nx\<rparr>)" by (simp add: s2_def)
  then show ?thesis
    using qs2(2-4) pt2(2,3) prn unfolding pt1(1) by (intro exI [of _ qs2] exI [of _ pt2] exI [of _ prn] conjI)
qed

section \<open>The invariant of the kernel\<close>

text \<open>
  Every process is where its state says. The ready queue of priority \<open>i\<close> holds exactly once each
  allocated process that is new or ready with that priority, except the idle task; a wait queue
  holds exactly the processes waiting with that queue in their table entry; the active timers are
  those of the processes that sleep or wait with a timeout.
\<close>

definition ready_count :: "(pid \<Rightarrow> process_struct option) \<Rightarrow> pid \<Rightarrow> nat \<Rightarrow> pid \<Rightarrow> nat" where
  "ready_count gp idle i p =
     (case gp p of
        None \<Rightarrow> 0
      | Some pr \<Rightarrow>
          if is_allocated pr \<and> (pr_state pr = PROC_READY \<or> pr_state pr = PROC_NEW) \<and> p \<noteq> idle \<and> priority pr = int i then 1
          else 0)"

definition ready_ok :: "kernel \<Rightarrow> bool" where
  "ready_ok s \<longleftrightarrow>
     (\<forall>q \<in> set (ready_q s). q_ok q \<and> length (ptable s) \<le> unat (max_items q)) \<and>
     (\<forall>i < length (ready_q s). \<forall>p. count_list (q_list (ready_q s ! i)) p = ready_count (get_proc (ptable s)) (idle_task_pid s) i p)"

definition waiting :: "process_struct \<Rightarrow> bool" where
  "waiting pr \<longleftrightarrow> is_allocated pr \<and> (pr_state pr = PROC_WAIT \<or> pr_state pr = PROC_TIMED_WAIT)"

definition timed :: "process_struct \<Rightarrow> bool" where
  "timed pr \<longleftrightarrow> is_allocated pr \<and> (pr_state pr = PROC_DELAY \<or> pr_state pr = PROC_TIMED_WAIT)"

definition wait_ok :: "kernel \<Rightarrow> bool" where
  "wait_ok s \<longleftrightarrow>
     (\<forall>r q. get_queue r s = Some q \<longrightarrow> pq_ok (ptable s) q \<and> length (ptable s) \<le> unat (max_items q) \<and>
        (\<forall>p. p \<in> set (pq_pids q) \<longleftrightarrow> (\<exists>pr. get_proc (ptable s) p = Some pr \<and> waiting pr \<and> blockq pr = Some r)))"

definition proc_ok :: "kernel \<Rightarrow> pid \<Rightarrow> process_struct \<Rightarrow> bool" where
  "proc_ok s p pr \<longleftrightarrow>
     (is_allocated pr \<longrightarrow> 0 \<le> priority pr \<and> priority pr < int (length (ready_q s)) \<and> pr_state pr \<noteq> PROC_DEAD) \<and>
     (waiting pr \<longrightarrow> p \<noteq> idle_task_pid s \<and> (\<exists>r. blockq pr = Some r \<and> get_queue r s \<noteq> None)) \<and>
     (timed pr \<longrightarrow> p \<noteq> idle_task_pid s) \<and>
     (is_allocated pr \<and> blockq pr \<noteq> None \<longrightarrow> waiting pr) \<and>
     (pr_state pr = PROC_RUN \<longrightarrow> is_allocated pr \<and> p = current_pid s)"

definition procs_ok :: "kernel \<Rightarrow> bool" where
  "procs_ok s \<longleftrightarrow>
     length (ptable s) \<le> 127 \<and> (\<forall>p pr. get_proc (ptable s) p = Some pr \<longrightarrow> proc_ok s p pr) \<and>
     (\<exists>pr. get_proc (ptable s) (idle_task_pid s) = Some pr \<and> is_allocated pr)"

definition tmr_ids :: "kernel \<Rightarrow> int list" where
  "tmr_ids s = take (nactive s) (active_tmrs s)"

definition tmr_view :: "kernel \<Rightarrow> (pid \<times> u32) list" where
  "tmr_view s = map (\<lambda>i. (tmr_pid (soft_tmrs s ! nat i), tmr_timeout (soft_tmrs s ! nat i))) (tmr_ids s)"

definition tmr_core :: "kernel \<Rightarrow> bool" where
  "tmr_core s \<longleftrightarrow>
     length (active_tmrs s) = length (soft_tmrs s) \<and> length (shadow_tmrs s) = length (soft_tmrs s) \<and>
     nactive s \<le> length (soft_tmrs s) \<and> (\<forall>i \<in> set (tmr_ids s). 0 \<le> i \<and> nat i < length (soft_tmrs s)) \<and>
     (\<forall>i < length (soft_tmrs s). int i \<notin> set (tmr_ids s) \<longrightarrow> tmr_pid (soft_tmrs s ! i) = 255) \<and>
     distinct (map fst (tmr_view s)) \<and> (\<forall>(p, n) \<in> set (tmr_view s). p \<noteq> 255 \<and> n \<noteq> 0)"

definition tmr_ok :: "kernel \<Rightarrow> bool" where
  "tmr_ok s \<longleftrightarrow>
     tmr_core s \<and> length (ptable s) \<le> length (soft_tmrs s) \<and>
     (\<forall>p. p \<in> fst ` set (tmr_view s) \<longleftrightarrow> (\<exists>pr. get_proc (ptable s) p = Some pr \<and> timed pr))"

definition k_wf :: "kernel \<Rightarrow> bool" where
  "k_wf s \<longleftrightarrow> procs_ok s \<and> ready_ok s \<and> wait_ok s \<and> tmr_ok s"

text \<open>What the wait queues and the timers depend on.\<close>

type_synonym wait_info = "pid \<times> int \<times> bool \<times> qref option \<times> bool \<times> bool"

definition wait_key :: "process_struct \<Rightarrow> wait_info" where
  "wait_key pr = (pr_pid pr, priority pr, is_allocated pr, blockq pr, waiting pr, timed pr)"

lemma wait_key_transfer:
  assumes "\<And>p. map_option wait_key (gp' p) = map_option wait_key (gp p)" "gp p = Some pr"
  shows "\<exists>pr'. gp' p = Some pr' \<and> priority pr' = priority pr \<and> is_allocated pr' = is_allocated pr \<and> blockq pr' = blockq pr \<and>
    waiting pr' = waiting pr \<and> timed pr' = timed pr"
  using assms(1) [of p] assms(2) by (auto simp: wait_key_def)

lemma wait_ok_cong:
  assumes "\<And>p. map_option wait_key (get_proc (ptable s') p) = map_option wait_key (get_proc (ptable s) p)"
    and "length (ptable s') = length (ptable s)" "\<And>r. get_queue r s' = get_queue r s" "wait_ok s"
  shows "wait_ok s'"
proof -
  have "map_option priority (get_proc (ptable s') p) = map_option priority (get_proc (ptable s) p)" for p
    using assms(1) [of p] by (cases "get_proc (ptable s) p"; cases "get_proc (ptable s') p") (auto simp: wait_key_def)
  then have pq: "pq_ok (ptable s') q = pq_ok (ptable s) q" for q by (rule pq_ok_cong)
  have "(\<exists>pr. get_proc (ptable s') p = Some pr \<and> waiting pr \<and> blockq pr = Some r) \<longleftrightarrow>
      (\<exists>pr. get_proc (ptable s) p = Some pr \<and> waiting pr \<and> blockq pr = Some r)" for p r
    using assms(1) [of p] by (cases "get_proc (ptable s) p"; cases "get_proc (ptable s') p") (auto simp: wait_key_def)
  then show ?thesis using assms(4) unfolding wait_ok_def assms(2,3) pq by simp
qed

lemma tmr_ok_cong:
  assumes "\<And>p. map_option wait_key (get_proc (ptable s') p) = map_option wait_key (get_proc (ptable s) p)"
    and "length (ptable s') = length (ptable s)" "soft_tmrs s' = soft_tmrs s" "active_tmrs s' = active_tmrs s"
      "shadow_tmrs s' = shadow_tmrs s" "nactive s' = nactive s" "tmr_ok s"
  shows "tmr_ok s'"
proof -
  have "(\<exists>pr. get_proc (ptable s') p = Some pr \<and> timed pr) \<longleftrightarrow> (\<exists>pr. get_proc (ptable s) p = Some pr \<and> timed pr)" for p
    using assms(1) [of p] by (cases "get_proc (ptable s) p"; cases "get_proc (ptable s') p") (auto simp: wait_key_def)
  moreover have "tmr_view s' = tmr_view s" "tmr_core s' = tmr_core s"
    using assms(3-6) by (simp_all add: tmr_view_def tmr_ids_def tmr_core_def)
  ultimately show ?thesis using assms(7) unfolding tmr_ok_def assms(2,3) by simp
qed

lemma get_queue_frame: "sem_heap s' = sem_heap s \<Longrightarrow> mutex_heap s' = mutex_heap s \<Longrightarrow> get_queue r s' = get_queue r s"
  by (simp add: get_queue_def split: qref.splits)

lemma ready_pid:
  assumes "ready_ok s" "q \<in> set (ready_q s)" "p \<in> set (q_list q)"
  obtains i pr where "i < length (ready_q s)" "q = ready_q s ! i" "get_proc (ptable s) p = Some pr" "is_allocated pr"
    "pr_state pr = PROC_READY \<or> pr_state pr = PROC_NEW" "p \<noteq> idle_task_pid s" "priority pr = int i"
proof -
  obtain i where i: "i < length (ready_q s)" "q = ready_q s ! i" using assms(2) by (metis in_set_conv_nth)
  have "count_list (q_list q) p \<noteq> 0" using assms(3) by (simp add: count_list_0_iff)
  then have "ready_count (get_proc (ptable s)) (idle_task_pid s) i p \<noteq> 0" using assms(1) i by (simp add: ready_ok_def)
  then show thesis using that [of i] i by (auto simp: ready_count_def split: option.splits if_splits)
qed

lemma distinct_count: "(\<And>x. count_list xs x \<le> 1) \<Longrightarrow> distinct xs"
proof (induction xs)
  case (Cons y xs)
  have "count_list xs x \<le> 1" for x using Cons.prems [of x] by (simp split: if_splits)
  moreover have "y \<notin> set xs" using Cons.prems [of y] by (simp add: count_list_0_iff)
  ultimately show ?case using Cons.IH by simp
qed simp

lemma ready_distinct:
  assumes "ready_ok s" "i < length (ready_q s)"
  shows "distinct (q_list (ready_q s ! i))"
  using assms by (intro distinct_count) (auto simp: ready_ok_def ready_count_def split: option.splits)

text \<open>A process that is not in a ready queue still has room there.\<close>

lemma ready_room:
  assumes "ready_ok s" "i < length (ready_q s)" "get_proc (ptable s) p \<noteq> None" "p \<notin> set (q_list (ready_q s ! i))"
  shows "length (q_list (ready_q s ! i)) < unat (max_items (ready_q s ! i))"
proof -
  have "distinct (p # q_list (ready_q s ! i))" using ready_distinct [OF assms(1,2)] assms(4) by simp
  moreover have "\<forall>x \<in> set (p # q_list (ready_q s ! i)). get_proc (ptable s) x \<noteq> None"
    using assms(3) ready_pid [OF assms(1) nth_mem [OF assms(2)]] by auto
  ultimately have "length (p # q_list (ready_q s ! i)) \<le> length (ptable s)" by (rule valid_pids_length)
  moreover have "length (ptable s) \<le> unat (max_items (ready_q s ! i))" using assms(1,2) by (simp add: ready_ok_def)
  ultimately show ?thesis by simp
qed

section \<open>Scheduling keeps the invariant\<close>

lemma procs_okD: "procs_ok s \<Longrightarrow> get_proc (ptable s) p = Some pr \<Longrightarrow> proc_ok s p pr"
  by (simp add: procs_ok_def)

lemma procs_ok_prio:
  assumes "procs_ok s" "get_proc (ptable s) p = Some pr" "is_allocated pr"
  shows "0 \<le> priority pr" "nat (priority pr) < length (ready_q s)" "pr_state pr \<noteq> PROC_DEAD"
  using procs_okD [OF assms(1,2)] assms(3) by (auto simp: proc_ok_def)

lemma first_ready_live:
  assumes "\<forall>xs \<in> set xss. \<forall>x \<in> set xs. \<not> is_dead pt x" "first_ready pt xss = (r, yss)"
  shows "case r of
      None \<Rightarrow> (\<forall>xs \<in> set xss. xs = []) \<and> yss = xss
    | Some p \<Rightarrow> \<exists>i < length xss. \<exists>ys. (\<forall>j < i. xss ! j = []) \<and> xss ! i = p # ys \<and> yss = xss[i := ys]"
proof (cases r)
  case None
  then have "\<forall>xs \<in> set xss. \<forall>x \<in> set xs. is_dead pt x" "yss = map (\<lambda>_. []) xss"
    using first_ready_spec [of xss pt] assms(2) by auto
  moreover from this(1) assms(1) have "\<forall>xs \<in> set xss. xs = []" by (metis list.set_intros(1) neq_Nil_conv)
  moreover from this have "map (\<lambda>_. []) xss = xss" by (intro map_idI) auto
  ultimately show ?thesis using None by simp
next
  case (Some p)
  then obtain i ds ys where i: "i < length xss" "\<forall>j < i. \<forall>x \<in> set (xss ! j). is_dead pt x"
      "xss ! i = ds @ p # ys" "\<forall>x \<in> set ds. is_dead pt x" "yss = replicate i [] @ ys # drop (Suc i) xss"
    using first_ready_spec [of xss pt] assms(2) by auto
  have live: "xs = []" if "xs \<in> set xss" "\<forall>x \<in> set xs. is_dead pt x" for xs
    using assms(1) that by (metis list.set_intros(1) neq_Nil_conv)
  have emp: "\<forall>j < i. xss ! j = []" using i(1,2) live by (metis nth_mem order.strict_trans)
  have "set ds \<subseteq> set (xss ! i)" using i(3) by auto
  then have "ds = []" using assms(1) i(1,4) nth_mem [of i xss] by (metis list.set_intros(1) neq_Nil_conv subsetD)
  moreover have "take i xss = replicate i []" using emp i(1) by (intro nth_equalityI) simp_all
  then have "yss = xss[i := ys]" using i(1,5) by (simp add: upd_conv_take_nth_drop)
  ultimately show ?thesis using Some i(1,3) emp by auto
qed

lemma requeued_count:
  assumes "ready_ok s" "procs_ok s" "get_proc (ptable s) (current_pid s) = Some cur" "i < length (ready_q s)"
  shows "count_list (requeued s cur ! i) p = ready_count ((get_proc (ptable s))(current_pid s \<mapsto> unrun cur)) (idle_task_pid s) i p"
proof -
  have base: "count_list (q_list (ready_q s ! i)) p = ready_count (get_proc (ptable s)) (idle_task_pid s) i p"
    using assms(1,4) by (simp add: ready_ok_def)
  have ok: "pr_state cur = PROC_RUN \<Longrightarrow> is_allocated cur" "is_allocated cur \<Longrightarrow> 0 \<le> priority cur"
      "is_allocated cur \<Longrightarrow> nat (priority cur) < length (ready_q s)"
    using procs_okD [OF assms(2,3)] procs_ok_prio [OF assms(2,3)] by (auto simp: proc_ok_def)
  show ?thesis
  proof (cases "pr_state cur = PROC_RUN")
    case False
    then show ?thesis using base assms(3,4) by (auto simp: requeued_def unrun_def ready_count_def Let_def)
  next
    case True
    then show ?thesis
      using base assms(3,4) ok by (auto simp: requeued_def unrun_def ready_count_def Let_def nth_list_update)
  qed
qed

lemma ready_ok_count:
  "ready_ok s \<Longrightarrow> i < length (ready_q s) \<Longrightarrow>
     count_list (q_list (ready_q s ! i)) p = ready_count (get_proc (ptable s)) (idle_task_pid s) i p"
  by (simp add: ready_ok_def)

lemma ready_valid:
  assumes "ready_ok s"
  shows "\<forall>q \<in> set (ready_q s). q_ok q \<and> (\<forall>x \<in> set (q_list q). get_proc (ptable s) x \<noteq> None)"
proof (intro ballI conjI)
  fix q x
  assume "q \<in> set (ready_q s)" "x \<in> set (q_list q)"
  then show "get_proc (ptable s) x \<noteq> None" by (rule ready_pid [OF assms]) simp
qed (use assms in \<open>simp add: ready_ok_def\<close>)

lemma requeued_member:
  assumes "ready_ok s" "procs_ok s" "get_proc (ptable s) (current_pid s) = Some cur" "i < length (ready_q s)"
    and "x \<in> set (requeued s cur ! i)"
  obtains pr where "((get_proc (ptable s))(current_pid s \<mapsto> unrun cur)) x = Some pr" "is_allocated pr"
    "pr_state pr = PROC_READY \<or> pr_state pr = PROC_NEW" "x \<noteq> idle_task_pid s" "priority pr = int i"
proof -
  have "ready_count ((get_proc (ptable s))(current_pid s \<mapsto> unrun cur)) (idle_task_pid s) i x \<noteq> 0"
    using requeued_count [OF assms(1-4), of x] assms(5) by (metis count_list_0_iff)
  then show thesis
    using that by (auto simp: ready_count_def simp del: fun_upd_apply split: option.splits if_splits)
qed

lemma sched_room:
  assumes "ready_ok s" "procs_ok s" "get_proc (ptable s) (current_pid s) = Some cur"
    and "pr_state cur = PROC_RUN \<and> current_pid s \<noteq> idle_task_pid s"
  shows "0 \<le> priority cur \<and> nat (priority cur) < length (ready_q s) \<and>
      length (q_list (ready_q s ! nat (priority cur))) < unat (max_items (ready_q s ! nat (priority cur)))"
proof -
  have al: "is_allocated cur" using procs_okD [OF assms(2,3)] assms(4) by (simp add: proc_ok_def)
  note pr = procs_ok_prio [OF assms(2,3) al]
  have "current_pid s \<notin> set (q_list (ready_q s ! nat (priority cur)))"
    using ready_ok_count [OF assms(1) pr(2), of "current_pid s"] assms(3,4) by (simp add: ready_count_def count_list_0_iff)
  then show ?thesis using pr ready_room [OF assms(1) pr(2), of "current_pid s"] assms(3) by simp
qed

lemma sched_choice:
  assumes "ready_ok s" "procs_ok s" "get_proc (ptable s) (current_pid s) = Some cur"
    and "gp1 = (get_proc (ptable s))(current_pid s \<mapsto> unrun cur)"
  obtains nx qs pt prn where "sched_prio s = Some (s\<lparr>ready_q := qs, ptable := pt, current_pid := nx\<rparr>)"
    "map max_items qs = map max_items (ready_q s)" "\<forall>q \<in> set qs. q_ok q" "gp1 nx = Some prn" "length pt = length (ptable s)"
    "get_proc pt = gp1(nx \<mapsto> prn\<lparr>pr_state := PROC_RUN\<rparr>)"
    "(\<forall>xs \<in> set (requeued s cur). xs = []) \<and> map q_list qs = requeued s cur \<and> nx = idle_task_pid s \<or>
      (\<exists>i < length (ready_q s). \<exists>ys. requeued s cur ! i = nx # ys \<and> map q_list qs = (requeued s cur)[i := ys] \<and>
        (\<forall>j < i. requeued s cur ! j = []))"
proof -
  have len: "length (requeued s cur) = length (ready_q s)" by (simp add: requeued_def Let_def)
  have live: "\<not> is_dead (ptable s) x" if xs: "xs \<in> set (requeued s cur)" "x \<in> set xs" for xs x
  proof -
    obtain i where i: "i < length (ready_q s)" "xs = requeued s cur ! i" using xs(1) len by (metis in_set_conv_nth)
    from requeued_member [OF assms(1-3) i(1), of x] xs(2) i(2) obtain pr where
      "((get_proc (ptable s))(current_pid s \<mapsto> unrun cur)) x = Some pr" "pr_state pr = PROC_READY \<or> pr_state pr = PROC_NEW" by blast
    then show ?thesis using assms(3) by (auto simp: is_dead_def unrun_def split: if_splits)
  qed
  obtain r yss where pick: "first_ready (ptable s) (requeued s cur) = (r, yss)"
    by (cases "first_ready (ptable s) (requeued s cur)")
  define nx where "nx = (case r of None \<Rightarrow> idle_task_pid s | Some p \<Rightarrow> p)"
  have idle: "get_proc (ptable s) (idle_task_pid s) \<noteq> None" using assms(2) by (auto simp: procs_ok_def)
  from sched_prio_eq [OF assms(3) ready_valid [OF assms(1)] idle sched_room [OF assms(1-3)] pick nx_def, folded assms(4)]
  obtain qs pt prn where res: "sched_prio s = Some (s\<lparr>ready_q := qs, ptable := pt, current_pid := nx\<rparr>)" "map q_list qs = yss"
      "map max_items qs = map max_items (ready_q s)" "\<forall>q \<in> set qs. q_ok q" "gp1 nx = Some prn" "length pt = length (ptable s)"
      "get_proc pt = gp1(nx \<mapsto> prn\<lparr>pr_state := PROC_RUN\<rparr>)"
    by blast
  have "\<forall>xs \<in> set (requeued s cur). \<forall>x \<in> set xs. \<not> is_dead (ptable s) x" using live by blast
  from first_ready_live [OF this pick]
  have "(\<forall>xs \<in> set (requeued s cur). xs = []) \<and> yss = requeued s cur \<and> nx = idle_task_pid s \<or>
      (\<exists>i < length (ready_q s). \<exists>ys. requeued s cur ! i = nx # ys \<and> yss = (requeued s cur)[i := ys] \<and>
        (\<forall>j < i. requeued s cur ! j = []))"
    unfolding len by (cases r) (auto simp: nx_def)
  then show thesis using that [OF res(1,3-7)] unfolding res(2) by blast
qed

text \<open>What the scheduler chose: nobody was ready, or the head of the first queue that is not empty.\<close>

definition picked :: "kernel \<Rightarrow> process_struct \<Rightarrow> pid list list \<Rightarrow> pid \<Rightarrow> bool" where
  "picked s cur yss nx \<longleftrightarrow>
     (\<forall>xs \<in> set (requeued s cur). xs = []) \<and> yss = requeued s cur \<and> nx = idle_task_pid s \<or>
     (\<exists>i < length (ready_q s). \<exists>ys. requeued s cur ! i = nx # ys \<and> yss = (requeued s cur)[i := ys] \<and> (\<forall>j < i. requeued s cur ! j = []))"

lemma unrun_keeps:
  "wait_key (unrun cur) = wait_key cur" "pr_state (unrun cur) \<noteq> PROC_RUN" "pr_state (unrun cur) = PROC_DEAD \<longleftrightarrow> pr_state cur = PROC_DEAD"
  by (auto simp: wait_key_def unrun_def waiting_def timed_def)

lemma picked_proc:
  assumes "k_wf s" "get_proc (ptable s) (current_pid s) = Some cur" "gp1 = (get_proc (ptable s))(current_pid s \<mapsto> unrun cur)"
    "picked s cur yss nx" "gp1 nx = Some prn"
  shows "is_allocated prn \<and> \<not> waiting prn \<and> \<not> timed prn"
proof -
  have ok: "procs_ok s" "ready_ok s" using assms(1) by (simp_all add: k_wf_def)
  show ?thesis
  proof (cases "nx = idle_task_pid s")
    case True
    obtain ipr where ipr: "get_proc (ptable s) (idle_task_pid s) = Some ipr" "is_allocated ipr" using ok(1) by (auto simp: procs_ok_def)
    have "wait_key prn = wait_key ipr"
      using assms(2,5) ipr(1) unrun_keeps(1) unfolding True assms(3) by (cases "idle_task_pid s = current_pid s") auto
    then show ?thesis using ipr(2) procs_okD [OF ok(1) ipr(1)] by (simp add: wait_key_def proc_ok_def)
  next
    case False
    then obtain i where i: "i < length (ready_q s)" "nx \<in> set (requeued s cur ! i)" using assms(4) by (auto simp: picked_def)
    obtain pr where "gp1 nx = Some pr" "is_allocated pr" "pr_state pr = PROC_READY \<or> pr_state pr = PROC_NEW"
      unfolding assms(3) by (rule requeued_member [OF ok(2,1) assms(2) i])
    then show ?thesis using assms(5) by (auto simp: waiting_def timed_def)
  qed
qed

text \<open>Each process is queued as often as its new state says.\<close>

lemma picked_count:
  assumes "k_wf s" "get_proc (ptable s) (current_pid s) = Some cur" "gp1 = (get_proc (ptable s))(current_pid s \<mapsto> unrun cur)"
    "picked s cur yss nx" "i < length (ready_q s)"
  shows "count_list (yss ! i) p = ready_count (gp1(nx \<mapsto> pr\<lparr>pr_state := PROC_RUN\<rparr>)) (idle_task_pid s) i p"
proof -
  have ok: "procs_ok s" "ready_ok s" using assms(1) by (simp_all add: k_wf_def)
  let ?idle = "idle_task_pid s" and ?gp2 = "gp1(nx \<mapsto> pr\<lparr>pr_state := PROC_RUN\<rparr>)"
  have rc: "count_list (requeued s cur ! i) p = ready_count gp1 ?idle i p"
    using requeued_count [OF ok(2,1) assms(2)] assms(5) by (simp add: assms(3))
  have other: "p \<noteq> nx \<Longrightarrow> ready_count ?gp2 ?idle i p = ready_count gp1 ?idle i p" "ready_count ?gp2 ?idle i nx = 0"
    by (simp_all add: ready_count_def)
  have lr: "length (requeued s cur) = length (ready_q s)" by (simp add: requeued_def Let_def)
  consider "yss = requeued s cur" "nx = ?idle"
    | k ys where "k < length (ready_q s)" "requeued s cur ! k = nx # ys" "yss = (requeued s cur)[k := ys]"
    using assms(4) unfolding picked_def by blast
  then show ?thesis
  proof cases
    case 1
    have "ready_count gp1 ?idle i ?idle = 0" by (simp add: ready_count_def split: option.splits)
    then show ?thesis using other rc unfolding 1 by (cases "p = ?idle") simp_all
  next
    case 2
    obtain pk where pk: "gp1 nx = Some pk" "priority pk = int k"
      unfolding assms(3) using 2(2) by (auto intro: requeued_member [OF ok(2,1) assms(2) 2(1), of nx])
    show ?thesis
    proof (cases "i = k")
      case True
      have "ready_count gp1 ?idle k nx \<le> 1" by (simp add: ready_count_def split: option.splits)
      then show ?thesis using True rc other 2(1,2) lr unfolding 2(3) by (cases "p = nx") auto
    next
      case False
      have "ready_count gp1 ?idle i nx = 0" using pk False by (simp add: ready_count_def)
      then show ?thesis using rc other False unfolding 2(3) by (cases "p = nx") auto
    qed
  qed
qed

lemma picked_not_cur:
  assumes "k_wf s" "get_proc (ptable s) (current_pid s) = Some cur" "picked s cur yss nx"
    "pr_state cur \<noteq> PROC_RUN" "pr_state cur \<noteq> PROC_READY" "pr_state cur \<noteq> PROC_NEW" "current_pid s \<noteq> idle_task_pid s"
  shows "nx \<noteq> current_pid s"
proof
  have ok: "procs_ok s" "ready_ok s" using assms(1) by (simp_all add: k_wf_def)
  assume "nx = current_pid s"
  then obtain i where i: "i < length (ready_q s)" "current_pid s \<in> set (requeued s cur ! i)" using assms(3,7) by (auto simp: picked_def)
  obtain pr where "((get_proc (ptable s))(current_pid s \<mapsto> unrun cur)) (current_pid s) = Some pr" "pr_state pr = PROC_READY \<or> pr_state pr = PROC_NEW"
    by (rule requeued_member [OF ok(2,1) assms(2) i])
  then show False using assms(4-6) by (auto simp: unrun_def)
qed

text \<open>The entries of the processes stay right when only \<open>nx\<close> is set to run and the one that ran is ready.\<close>

lemma rerun_procs_ok:
  assumes "procs_ok s" "get_proc (ptable s) (current_pid s) = Some cur" "length pt = length (ptable s)" "length qs = length (ready_q s)"
    and gp: "get_proc pt = (get_proc (ptable s))(current_pid s \<mapsto> unrun cur, nx \<mapsto> prn\<lparr>pr_state := PROC_RUN\<rparr>)" "is_allocated prn"
    and key: "\<And>p. map_option wait_key (get_proc pt p) = map_option wait_key (get_proc (ptable s) p)"
  shows "procs_ok (s\<lparr>ready_q := qs, ptable := pt, current_pid := nx\<rparr>)"
proof -
  let ?s = "s\<lparr>ready_q := qs, ptable := pt, current_pid := nx\<rparr>"
  have "proc_ok ?s p pr" if pr: "get_proc pt p = Some pr" for p pr
  proof -
    obtain pr0 where pr0: "get_proc (ptable s) p = Some pr0" "wait_key pr = wait_key pr0" using key [of p] pr by (cases "get_proc (ptable s) p") auto
    have st: "pr_state pr = PROC_RUN \<longrightarrow> p = nx" "pr_state pr = PROC_DEAD \<longrightarrow> pr_state pr0 = PROC_DEAD"
      using pr pr0(1) procs_okD [OF assms(1) pr0(1)] unrun_keeps(2,3) assms(2) unfolding gp(1) proc_ok_def by (auto split: if_splits)
    have "is_allocated pr" if "pr_state pr = PROC_RUN" using st(1) that pr gp(2) unfolding gp(1) by auto
    then show ?thesis
      using st procs_okD [OF assms(1) pr0(1)] pr0(2) assms(4) get_queue_frame [of ?s s] unfolding proc_ok_def wait_key_def by auto
  qed
  moreover have "\<exists>pr. get_proc pt (idle_task_pid s) = Some pr \<and> is_allocated pr"
    using assms(1) key [of "idle_task_pid s"] unfolding procs_ok_def by (auto simp: wait_key_def)
  ultimately show ?thesis using assms(1,3) by (simp add: procs_ok_def)
qed

text \<open>
  The state after scheduling: the chosen process runs, the one that ran is ready, everything else
  is as before.
\<close>

lemma sched_prio_wf:
  assumes "k_wf s" "get_proc (ptable s) (current_pid s) = Some cur"
  obtains nx qs pt prn where "sched_prio s = Some (s\<lparr>ready_q := qs, ptable := pt, current_pid := nx\<rparr>)"
    "k_wf (s\<lparr>ready_q := qs, ptable := pt, current_pid := nx\<rparr>)"
    "pr_state cur \<noteq> PROC_RUN \<and> pr_state cur \<noteq> PROC_READY \<and> pr_state cur \<noteq> PROC_NEW \<and> current_pid s \<noteq> idle_task_pid s \<longrightarrow>
        nx \<noteq> current_pid s"
    "((get_proc (ptable s))(current_pid s \<mapsto> unrun cur)) nx = Some prn" "is_allocated prn"
    "get_proc pt = (get_proc (ptable s))(current_pid s \<mapsto> unrun cur, nx \<mapsto> prn\<lparr>pr_state := PROC_RUN\<rparr>)"
    "\<forall>p. map_option wait_key (get_proc pt p) = map_option wait_key (get_proc (ptable s) p)"
proof -
  have ok: "procs_ok s" "ready_ok s" "wait_ok s" "tmr_ok s" using assms(1) by (simp_all add: k_wf_def)
  define gp1 where "gp1 = (get_proc (ptable s))(current_pid s \<mapsto> unrun cur)"
  obtain nx qs pt prn where
    res: "sched_prio s = Some (s\<lparr>ready_q := qs, ptable := pt, current_pid := nx\<rparr>)"
      "map max_items qs = map max_items (ready_q s)" "\<forall>q \<in> set qs. q_ok q" "gp1 nx = Some prn" "length pt = length (ptable s)"
      "get_proc pt = gp1(nx \<mapsto> prn\<lparr>pr_state := PROC_RUN\<rparr>)"
    and choice: "picked s cur (map q_list qs) nx"
    unfolding picked_def by (rule sched_choice [OF ok(2,1) assms(2) gp1_def])
  let ?s = "s\<lparr>ready_q := qs, ptable := pt, current_pid := nx\<rparr>"
  have len: "length qs = length (ready_q s)" using res(2) by (metis length_map)
  have prn: "is_allocated prn \<and> \<not> waiting prn \<and> \<not> timed prn" by (rule picked_proc [OF assms gp1_def choice res(4)])
  have key: "map_option wait_key (get_proc pt p) = map_option wait_key (get_proc (ptable s) p)" for p
  proof -
    have "wait_key (prn\<lparr>pr_state := PROC_RUN\<rparr>) = wait_key prn" using prn by (simp add: wait_key_def waiting_def timed_def)
    then have "map_option wait_key (get_proc pt p) = map_option wait_key (gp1 p)" using res(4,6) by simp
    also have "\<dots> = map_option wait_key (get_proc (ptable s) p)" using unrun_keeps(1) assms(2) by (simp add: gp1_def)
    finally show ?thesis .
  qed
  have w: "wait_ok ?s" by (rule wait_ok_cong [OF _ _ get_queue_frame ok(3)]) (use key res(5) in simp_all)
  have tm: "tmr_ok ?s" by (rule tmr_ok_cong [OF _ _ _ _ _ _ ok(4)]) (use key res(5) in simp_all)
  have pk: "procs_ok ?s" using rerun_procs_ok [OF ok(1) assms(2) res(5) len res(6) [unfolded gp1_def] _ key] prn by blast
  have "count_list (q_list (qs ! i)) p = ready_count (get_proc pt) (idle_task_pid s) i p" if "i < length qs" for i p
    using picked_count [OF assms gp1_def choice, of i p prn] that len by (simp add: res(6))
  moreover have "length (ptable s) \<le> unat (max_items q)" if "q \<in> set qs" for q
  proof -
    have "max_items q \<in> set (map max_items (ready_q s))" using that res(2) by (metis image_eqI set_map)
    then show ?thesis using ok(2) by (auto simp: ready_ok_def)
  qed
  ultimately have rk: "ready_ok ?s" using res(3,5) by (simp add: ready_ok_def)
  show thesis
    using that [OF res(1)] w tm pk rk res(4,6) prn key picked_not_cur [OF assms choice] unfolding gp1_def k_wf_def by simp
qed

end
