(* ===== verification/Kern_Time.thy ===== *)
theory Kern_Time
  imports Kern_Sched
begin

text \<open>
  The software timers as a list of processes and ticks left, the movement of processes between ready
  and wait queues, and the clock tick.
\<close>

section \<open>The timer list\<close>

text \<open>
  The active timers as a list of processes and ticks left. The two identifier arrays, the table and
  its free entries implement it.
\<close>

lemma tmr_ids_distinct: "tmr_core s \<Longrightarrow> distinct (tmr_ids s)"
  unfolding tmr_core_def tmr_view_def by (simp add: distinct_map)

lemma drop_tmrs_eq:
  assumes "distinct is" "\<forall>i \<in> set is. 0 \<le> i \<and> nat i < length (soft_tmrs s)" "n + length is \<le> length (shadow_tmrs s)"
  shows "\<exists>ts sh. drop_tmrs p is n s =
       Some (n + length (filter (\<lambda>i. tmr_pid (soft_tmrs s ! nat i) \<noteq> p) is), s\<lparr>soft_tmrs := ts, shadow_tmrs := sh\<rparr>) \<and>
     length ts = length (soft_tmrs s) \<and> length sh = length (shadow_tmrs s) \<and>
     take (n + length (filter (\<lambda>i. tmr_pid (soft_tmrs s ! nat i) \<noteq> p) is)) sh =
       take n (shadow_tmrs s) @ filter (\<lambda>i. tmr_pid (soft_tmrs s ! nat i) \<noteq> p) is \<and>
     (\<forall>j < length ts. ts ! j = (if int j \<in> set is \<and> tmr_pid (soft_tmrs s ! j) = p then (soft_tmrs s ! j)\<lparr>tmr_pid := 255\<rparr>
        else soft_tmrs s ! j))"
  using assms
proof (induction "is" arbitrary: n s)
  case Nil
  then show ?case by (intro exI [of _ "soft_tmrs s"] exI [of _ "shadow_tmrs s"]) simp
next
  case (Cons i "is")
  define t where "t = soft_tmrs s ! nat i"
  have i: "0 \<le> i" "nat i < length (soft_tmrs s)" "i \<notin> set is" using Cons.prems by auto
  have ii: "int j = i \<longleftrightarrow> j = nat i" for j using i(1) by auto
  show ?case
  proof (cases "tmr_pid t = p")
    case True
    define s1 where "s1 = s\<lparr>soft_tmrs := (soft_tmrs s)[nat i := t\<lparr>tmr_pid := 255\<rparr>]\<rparr>"
    have same: "soft_tmrs s1 ! nat j = soft_tmrs s ! nat j" if "j \<in> set is" for j
      using that i Cons.prems(2) by (auto simp: s1_def nth_list_update eq_nat_nat_iff)
    then have flt: "filter (\<lambda>j. tmr_pid (soft_tmrs s1 ! nat j) \<noteq> p) is = filter (\<lambda>j. tmr_pid (soft_tmrs s ! nat j) \<noteq> p) is"
      by (intro filter_cong) simp_all
    have step: "drop_tmrs p (i # is) n s = drop_tmrs p is n s1"
      using i True by (simp add: tmr_get_def tmr_set_def array_simps t_def s1_def)
    have pre: "distinct is" "\<forall>i \<in> set is. 0 \<le> i \<and> nat i < length (soft_tmrs s1)" "n + length is \<le> length (shadow_tmrs s1)"
      using Cons.prems by (auto simp: s1_def)
    obtain ts sh where r: "drop_tmrs p is n s1 =
         Some (n + length (filter (\<lambda>i. tmr_pid (soft_tmrs s ! nat i) \<noteq> p) is), s1\<lparr>soft_tmrs := ts, shadow_tmrs := sh\<rparr>)"
       "length ts = length (soft_tmrs s1)" "length sh = length (shadow_tmrs s1)"
       "take (n + length (filter (\<lambda>i. tmr_pid (soft_tmrs s ! nat i) \<noteq> p) is)) sh =
         take n (shadow_tmrs s1) @ filter (\<lambda>i. tmr_pid (soft_tmrs s ! nat i) \<noteq> p) is"
       "\<forall>j < length ts. ts ! j = (if int j \<in> set is \<and> tmr_pid (soft_tmrs s1 ! j) = p then (soft_tmrs s1 ! j)\<lparr>tmr_pid := 255\<rparr>
          else soft_tmrs s1 ! j)"
      using Cons.IH [OF pre] unfolding flt by blast
    have "ts ! j = (if int j \<in> set (i # is) \<and> tmr_pid (soft_tmrs s ! j) = p then (soft_tmrs s ! j)\<lparr>tmr_pid := 255\<rparr>
        else soft_tmrs s ! j)" if "j < length ts" for j
      using r(5) that i True by (cases "j = nat i") (auto simp: s1_def t_def ii)
    then show ?thesis
      using r(1-4) step True by (intro exI [of _ ts] exI [of _ sh]) (simp add: s1_def t_def)
  next
    case False
    define s1 where "s1 = s\<lparr>shadow_tmrs := (shadow_tmrs s)[n := i]\<rparr>"
    have n: "n < length (shadow_tmrs s)" using Cons.prems(3) by simp
    have step: "drop_tmrs p (i # is) n s = drop_tmrs p is (Suc n) s1"
      using i n False by (simp add: tmr_get_def array_simps t_def s1_def)
    have pre: "distinct is" "\<forall>i \<in> set is. 0 \<le> i \<and> nat i < length (soft_tmrs s1)" "Suc n + length is \<le> length (shadow_tmrs s1)"
      using Cons.prems by (auto simp: s1_def)
    have st: "soft_tmrs s1 = soft_tmrs s" by (simp add: s1_def)
    obtain ts sh where r: "drop_tmrs p is (Suc n) s1 =
         Some (Suc n + length (filter (\<lambda>i. tmr_pid (soft_tmrs s ! nat i) \<noteq> p) is), s1\<lparr>soft_tmrs := ts, shadow_tmrs := sh\<rparr>)"
       "length ts = length (soft_tmrs s)" "length sh = length (shadow_tmrs s1)"
       "take (Suc n + length (filter (\<lambda>i. tmr_pid (soft_tmrs s ! nat i) \<noteq> p) is)) sh =
         take (Suc n) (shadow_tmrs s1) @ filter (\<lambda>i. tmr_pid (soft_tmrs s ! nat i) \<noteq> p) is"
       "\<forall>j < length ts. ts ! j = (if int j \<in> set is \<and> tmr_pid (soft_tmrs s ! j) = p then (soft_tmrs s ! j)\<lparr>tmr_pid := 255\<rparr>
          else soft_tmrs s ! j)"
      using Cons.IH [OF pre] unfolding st by blast
    have "take (Suc n) (shadow_tmrs s1) = take n (shadow_tmrs s) @ [i]" using n by (simp add: s1_def take_update_shift)
    then show ?thesis
      using r step False by (intro exI [of _ ts] exI [of _ sh]) (auto simp: s1_def t_def ii)
  qed
qed

lemma update_active_tmrs_eq:
  assumes "tmr_core s"
  shows "\<exists>ts act sh n. update_active_tmrs_list p s =
       Some (s\<lparr>soft_tmrs := ts, active_tmrs := act, shadow_tmrs := sh, nactive := n\<rparr>) \<and> length ts = length (soft_tmrs s) \<and>
     tmr_core (s\<lparr>soft_tmrs := ts, active_tmrs := act, shadow_tmrs := sh, nactive := n\<rparr>) \<and>
     tmr_view (s\<lparr>soft_tmrs := ts, active_tmrs := act, shadow_tmrs := sh, nactive := n\<rparr>) = filter (\<lambda>(q, _). q \<noteq> p) (tmr_view s)"
proof -
  note core = assms [unfolded tmr_core_def]
  let ?is = "tmr_ids s" and ?keep = "filter (\<lambda>i. tmr_pid (soft_tmrs s ! nat i) \<noteq> p) (tmr_ids s)"
  have len: "length ?is = nactive s" using core by (simp add: tmr_ids_def)
  have rng: "\<forall>i \<in> set ?is. 0 \<le> i \<and> nat i < length (soft_tmrs s)" using core by blast
  have "0 + length ?is \<le> length (shadow_tmrs s)" using core len by simp
  from drop_tmrs_eq [OF tmr_ids_distinct [OF assms] rng this, of p]
  obtain ts sh where r: "drop_tmrs p ?is 0 s = Some (length ?keep, s\<lparr>soft_tmrs := ts, shadow_tmrs := sh\<rparr>)"
      "length ts = length (soft_tmrs s)" "length sh = length (shadow_tmrs s)" "take (length ?keep) sh = ?keep"
      "\<forall>j < length ts. ts ! j = (if int j \<in> set ?is \<and> tmr_pid (soft_tmrs s ! j) = p then (soft_tmrs s ! j)\<lparr>tmr_pid := 255\<rparr>
        else soft_tmrs s ! j)"
    by auto
  define s' where "s' = s\<lparr>soft_tmrs := ts, active_tmrs := sh, shadow_tmrs := active_tmrs s, nactive := length ?keep\<rparr>"
  have "active_ids s = Some ?is" using core by (simp add: active_ids_def tmr_ids_def)
  then have eq: "update_active_tmrs_list p s = Some s'"
    using r(1) by (simp add: update_active_tmrs_list_def swap_tmrs_def s'_def)
  have ids: "tmr_ids s' = ?keep" using r(4) by (simp add: tmr_ids_def s'_def)
  have kept: "ts ! nat i = soft_tmrs s ! nat i" if "i \<in> set ?keep" for i
    using that r(2,5) rng by auto
  have view: "tmr_view s' = filter (\<lambda>(q, _). q \<noteq> p) (tmr_view s)"
    unfolding tmr_view_def ids using kept by (simp add: s'_def filter_map comp_def)
  have "tmr_pid (ts ! i) = 255" if "i < length ts" "int i \<notin> set ?keep" for i
    using that r(2,5) core by auto
  moreover have "length ?keep \<le> length (soft_tmrs s)" using length_filter_le [of _ ?is] len core by (metis order_trans)
  moreover have "distinct (map fst (tmr_view s'))" using core unfolding view by (auto simp: distinct_map intro: inj_on_subset)
  ultimately have "tmr_core s'"
    unfolding tmr_core_def ids using core rng r(2,3) view by (auto simp: s'_def)
  then show ?thesis using eq view r(2) unfolding s'_def by blast
qed

section \<open>A process on its way between queues\<close>

text \<open>
  The invariant without the timers, and the same for a state in which the process \<open>p\<close> is in no
  queue at all, whatever its table entry says.
\<close>

definition q_wf :: "kernel \<Rightarrow> bool" where
  "q_wf s \<longleftrightarrow> procs_ok s \<and> ready_ok s \<and> wait_ok s"

definition q_wf_out :: "pid \<Rightarrow> kernel \<Rightarrow> bool" where
  "q_wf_out p s \<longleftrightarrow>
     length (ptable s) \<le> 127 \<and> p \<noteq> idle_task_pid s \<and>
     (\<exists>pr. get_proc (ptable s) p = Some pr \<and> is_allocated pr \<and> 0 \<le> priority pr \<and> priority pr < int (length (ready_q s))) \<and>
     (\<forall>x pr. get_proc (ptable s) x = Some pr \<and> x \<noteq> p \<longrightarrow> proc_ok s x pr) \<and>
     (\<exists>pr. get_proc (ptable s) (idle_task_pid s) = Some pr \<and> is_allocated pr) \<and>
     (\<forall>q \<in> set (ready_q s). q_ok q \<and> length (ptable s) \<le> unat (max_items q)) \<and>
     (\<forall>i < length (ready_q s). \<forall>x. count_list (q_list (ready_q s ! i)) x =
        (if x = p then 0 else ready_count (get_proc (ptable s)) (idle_task_pid s) i x)) \<and>
     (\<forall>r q. get_queue r s = Some q \<longrightarrow> pq_ok (ptable s) q \<and> length (ptable s) \<le> unat (max_items q) \<and>
        (\<forall>x. x \<in> set (pq_pids q) \<longleftrightarrow> x \<noteq> p \<and> (\<exists>pr. get_proc (ptable s) x = Some pr \<and> waiting pr \<and> blockq pr = Some r)))"

lemma q_wf_outD:
  assumes "q_wf_out p s"
  shows "length (ptable s) \<le> 127" "p \<noteq> idle_task_pid s"
    "\<And>x pr. get_proc (ptable s) x = Some pr \<Longrightarrow> x \<noteq> p \<Longrightarrow> proc_ok s x pr"
    "\<And>q. q \<in> set (ready_q s) \<Longrightarrow> q_ok q" "\<And>q. q \<in> set (ready_q s) \<Longrightarrow> length (ptable s) \<le> unat (max_items q)"
    "\<And>i x. i < length (ready_q s) \<Longrightarrow>
       count_list (q_list (ready_q s ! i)) x = (if x = p then 0 else ready_count (get_proc (ptable s)) (idle_task_pid s) i x)"
    "\<And>r q. get_queue r s = Some q \<Longrightarrow> pq_ok (ptable s) q" "\<And>r q. get_queue r s = Some q \<Longrightarrow> length (ptable s) \<le> unat (max_items q)"
    "\<And>r q x. get_queue r s = Some q \<Longrightarrow>
       x \<in> set (pq_pids q) \<longleftrightarrow> x \<noteq> p \<and> (\<exists>pr. get_proc (ptable s) x = Some pr \<and> waiting pr \<and> blockq pr = Some r)"
  using assms unfolding q_wf_out_def by blast+

text \<open>A process that neither waits nor is ready is in no queue.\<close>

lemma q_wf_out_start:
  assumes "q_wf s" "get_proc (ptable s) p = Some pr" "is_allocated pr" "p \<noteq> idle_task_pid s"
    and "pr_state pr = PROC_RUN \<or> pr_state pr = PROC_DELAY"
  shows "q_wf_out p s"
proof -
  have ok: "procs_ok s" "ready_ok s" "wait_ok s" using assms(1) by (simp_all add: q_wf_def)
  have "ready_count (get_proc (ptable s)) (idle_task_pid s) i p = 0" for i using assms(2,5) by (auto simp: ready_count_def)
  then have "count_list (q_list (ready_q s ! i)) x = (if x = p then 0 else ready_count (get_proc (ptable s)) (idle_task_pid s) i x)"
    if "i < length (ready_q s)" for i x using ready_ok_count [OF ok(2) that, of x] by simp
  moreover have "\<not> waiting pr" using assms(5) by (auto simp: waiting_def)
  then have "x \<in> set (pq_pids q) \<longleftrightarrow> x \<noteq> p \<and> (\<exists>pr. get_proc (ptable s) x = Some pr \<and> waiting pr \<and> blockq pr = Some r)"
    if "get_queue r s = Some q" for r q x using ok(3) that assms(2) unfolding wait_ok_def by (cases "x = p") simp_all
  moreover have "0 \<le> priority pr" "priority pr < int (length (ready_q s))"
    using procs_okD [OF ok(1) assms(2)] assms(3) by (simp_all add: proc_ok_def)
  ultimately show ?thesis
    using ok assms(2-4) unfolding q_wf_out_def procs_ok_def ready_ok_def wait_ok_def by simp
qed

text \<open>Its entry may change except for the priority.\<close>

lemma q_wf_out_upd:
  assumes "q_wf_out p s" "get_proc (ptable s) p = Some pr" "priority (f pr) = priority pr" "is_allocated (f pr)"
  shows "\<exists>pt. upd_proc p f s = Some (s\<lparr>ptable := pt\<rparr>) \<and> length pt = length (ptable s) \<and>
     get_proc pt = (get_proc (ptable s))(p \<mapsto> f pr) \<and> q_wf_out p (s\<lparr>ptable := pt\<rparr>)"
proof -
  obtain pt where pt: "upd_proc p f s = Some (s\<lparr>ptable := pt\<rparr>)" "length pt = length (ptable s)"
      "get_proc pt = (get_proc (ptable s))(p \<mapsto> f pr)"
    using upd_proc_eq [OF assms(2), of f] by blast
  have gq: "get_queue r (s\<lparr>ptable := pt\<rparr>) = get_queue r s" for r by (rule get_queue_frame) simp_all
  have pq: "pq_ok pt q = pq_ok (ptable s) q" for q
    by (rule pq_ok_cong) (use assms(2,3) in \<open>simp add: pt(3)\<close>)
  have po: "proc_ok (s\<lparr>ptable := pt\<rparr>) x = proc_ok s x" for x by (simp add: fun_eq_iff proc_ok_def gq)
  have rc: "x \<noteq> p \<Longrightarrow> ready_count (get_proc pt) (idle_task_pid s) i x = ready_count (get_proc (ptable s)) (idle_task_pid s) i x" for i x
    by (simp add: ready_count_def pt(3))
  note out = assms(1) [unfolded q_wf_out_def]
  have "\<exists>pr. get_proc pt p = Some pr \<and> is_allocated pr \<and> 0 \<le> priority pr \<and> priority pr < int (length (ready_q s))"
    using out assms(2-4) by (auto simp: pt(3))
  moreover have "\<exists>pr. get_proc pt (idle_task_pid s) = Some pr \<and> is_allocated pr" using out by (auto simp: pt(3))
  moreover have "\<forall>x pr. get_proc pt x = Some pr \<and> x \<noteq> p \<longrightarrow> proc_ok s x pr" using out by (simp add: pt(3))
  moreover have "\<forall>i < length (ready_q s). \<forall>x. count_list (q_list (ready_q s ! i)) x =
      (if x = p then 0 else ready_count (get_proc pt) (idle_task_pid s) i x)" using out rc by simp
  moreover have "\<forall>r q. get_queue r s = Some q \<longrightarrow> pq_ok (ptable s) q \<and> length (ptable s) \<le> unat (max_items q) \<and>
      (\<forall>x. x \<in> set (pq_pids q) \<longleftrightarrow> x \<noteq> p \<and> (\<exists>pr. get_proc pt x = Some pr \<and> waiting pr \<and> blockq pr = Some r))"
    using out by (simp add: pt(3) cong: conj_cong)
  ultimately have "q_wf_out p (s\<lparr>ptable := pt\<rparr>)"
    using q_wf_outD(1,2,4,5) [OF assms(1)] unfolding q_wf_out_def by (simp add: gq po pq pt(2))
  then show ?thesis using pt by blast
qed

text \<open>A process whose entry says that it sleeps belongs to no queue.\<close>

lemma q_wf_out_delay:
  assumes "q_wf_out p s" "get_proc (ptable s) p = Some pr" "pr_state pr = PROC_DELAY" "blockq pr = None"
  shows "q_wf s"
proof -
  note out = q_wf_outD [OF assms(1)]
  have al: "is_allocated pr" "0 \<le> priority pr" "priority pr < int (length (ready_q s))"
    using assms(1,2) unfolding q_wf_out_def by auto
  have "proc_ok s p pr" using al assms(3,4) out(2) by (simp add: proc_ok_def waiting_def)
  then have "proc_ok s x pr'" if "get_proc (ptable s) x = Some pr'" for x pr'
    using that out(3) [of x pr'] assms(2) by (cases "x = p") simp_all
  then have "procs_ok s" using assms(1) unfolding q_wf_out_def procs_ok_def by blast
  moreover have "ready_count (get_proc (ptable s)) (idle_task_pid s) i p = 0" for i using assms(2,3) by (simp add: ready_count_def)
  then have "ready_ok s" using out(4-6) unfolding ready_ok_def by simp
  moreover have "wait_ok s" using out(7-9) assms(2,3) unfolding wait_ok_def by (auto simp: waiting_def)
  ultimately show ?thesis by (simp add: q_wf_def)
qed

text \<open>A ready process goes into the queue of its priority.\<close>

lemma q_wf_out_ready:
  assumes "q_wf_out p s" "get_proc (ptable s) p = Some pr" "pr_state pr = PROC_READY \<or> pr_state pr = PROC_NEW" "blockq pr = None"
  shows "\<exists>qs. enq_ready p s = Some (s\<lparr>ready_q := qs\<rparr>) \<and> length qs = length (ready_q s) \<and> q_wf (s\<lparr>ready_q := qs\<rparr>)"
proof -
  note out = q_wf_outD [OF assms(1)]
  let ?i = "nat (priority pr)"
  have al: "is_allocated pr" "0 \<le> priority pr" "?i < length (ready_q s)" "int ?i = priority pr"
      "priority pr < int (length (ready_q s))"
    using assms(1,2) unfolding q_wf_out_def by auto
  have rq: "ready_q s ! ?i \<in> set (ready_q s)" using al(3) by simp
  have cnt: "count_list (q_list (ready_q s ! ?i)) x \<le> 1" for x
    using out(6) [OF al(3), of x] by (simp add: ready_count_def split: option.splits)
  have nin: "p \<notin> set (q_list (ready_q s ! ?i))" using out(6) [OF al(3), of p] by (simp add: count_list_0_iff)
  have "get_proc (ptable s) x \<noteq> None" if "x \<in> set (q_list (ready_q s ! ?i))" for x
  proof -
    have "count_list (q_list (ready_q s ! ?i)) x \<noteq> 0" using that by (simp add: count_list_0_iff)
    then show ?thesis using out(6) [OF al(3), of x] by (auto simp: ready_count_def split: option.splits if_splits)
  qed
  then have "length (p # q_list (ready_q s ! ?i)) \<le> length (ptable s)"
    using distinct_count [OF cnt] nin assms(2) by (intro valid_pids_length) auto
  then have room: "length (q_list (ready_q s ! ?i)) < unat (max_items (ready_q s ! ?i))" using out(5) [OF rq] by simp
  obtain qs where qs: "enq_ready p s = Some (s\<lparr>ready_q := qs\<rparr>)" "length qs = length (ready_q s)"
      "map q_list qs = (map q_list (ready_q s))[?i := q_list (ready_q s ! ?i) @ [p]]"
      "map max_items qs = map max_items (ready_q s)" "\<forall>q \<in> set qs. q_ok q"
    using enq_ready_eq [OF assms(2) al(2,3) out(4) [OF rq] room] out(4) by blast
  have gq: "get_queue r (s\<lparr>ready_q := qs\<rparr>) = get_queue r s" for r by (rule get_queue_frame) simp_all
  have po: "proc_ok (s\<lparr>ready_q := qs\<rparr>) x = proc_ok s x" for x by (simp add: fun_eq_iff proc_ok_def gq qs(2))
  have "proc_ok s p pr" using al(1,2,5) assms(3,4) out(2) by (auto simp: proc_ok_def waiting_def timed_def)
  then have "proc_ok s x pr'" if "get_proc (ptable s) x = Some pr'" for x pr'
    using that out(3) [of x pr'] assms(2) by (cases "x = p") simp_all
  then have "procs_ok (s\<lparr>ready_q := qs\<rparr>)" using assms(1) unfolding q_wf_out_def by (simp add: procs_ok_def po)
  moreover have "wait_ok (s\<lparr>ready_q := qs\<rparr>)"
    using out(7-9) assms(2,3) unfolding wait_ok_def gq by (auto simp: waiting_def)
  moreover have "ready_ok (s\<lparr>ready_q := qs\<rparr>)"
  proof -
    have "length (ptable s) \<le> unat (max_items q)" if "q \<in> set qs" for q
    proof -
      have "max_items q \<in> set (map max_items (ready_q s))" using that qs(4) by (metis image_eqI set_map)
      then show ?thesis using out(5) by auto
    qed
    moreover have "count_list (q_list (qs ! i)) x = ready_count (get_proc (ptable s)) (idle_task_pid s) i x"
      if i: "i < length qs" for i x
    proof -
      have "q_list (qs ! i) = (map q_list (ready_q s))[?i := q_list (ready_q s ! ?i) @ [p]] ! i"
        using i qs(2,3) by (metis nth_map)
      moreover have "ready_count (get_proc (ptable s)) (idle_task_pid s) i p = (if i = ?i then 1 else 0)"
        using assms(2,3) al out(2) by (auto simp: ready_count_def)
      ultimately show ?thesis
        using i qs(2) out(6) [of i x] al(3) by (cases "i = ?i"; cases "x = p") simp_all
    qed
    ultimately show ?thesis using qs(5) by (simp add: ready_ok_def)
  qed
  ultimately show ?thesis using qs(1,2) by (auto simp: q_wf_def)
qed

section \<open>Wait queues\<close>

text \<open>What a change of a wait queue leaves alone in the tables.\<close>

definition sem_rest :: "sem_info \<Rightarrow> u8 \<times> u8 \<times> pid \<times> bool" where
  "sem_rest x = (sem_id x, sem_value x, sem_owner x, sem_unlinked x)"

definition mutex_rest :: "mutex_info \<Rightarrow> bool \<times> u32 \<times> mutex_type \<times> pid" where
  "mutex_rest x = (mx_allocated x, mx_locked x, mx_type x, mx_owner x)"

lemma put_queue_eq:
  assumes "get_queue r s = Some q"
  shows "\<exists>sh mh. put_queue r q' s = Some (s\<lparr>sem_heap := sh, mutex_heap := mh\<rparr>) \<and>
     (\<forall>r'. get_queue r' (s\<lparr>sem_heap := sh, mutex_heap := mh\<rparr>) = (if r' = r then Some q' else get_queue r' s)) \<and>
     map sem_rest sh = map sem_rest (sem_heap s) \<and> map mutex_rest mh = map mutex_rest (mutex_heap s)"
proof (cases r)
  case (Sem_q i)
  then have i: "i < length (sem_heap s)" using assms by (auto simp: get_queue_def arr_get_def split: if_splits)
  define sh where "sh = (sem_heap s)[i := (sem_heap s ! i)\<lparr>sem_wait_q := q'\<rparr>]"
  have "map sem_rest sh = map sem_rest (sem_heap s)"
    using i by (intro nth_equalityI) (simp_all add: sh_def sem_rest_def nth_list_update)
  then show ?thesis
    using Sem_q i by (intro exI [of _ sh] exI [of _ "mutex_heap s"])
      (auto simp: put_queue_def get_queue_def array_simps sh_def arr_get_def nth_list_update split: qref.splits)
next
  case (Mutex_q i)
  then have i: "i < length (mutex_heap s)" using assms by (auto simp: get_queue_def arr_get_def split: if_splits)
  define mh where "mh = (mutex_heap s)[i := (mutex_heap s ! i)\<lparr>mutex_wait_q := q'\<rparr>]"
  have "map mutex_rest mh = map mutex_rest (mutex_heap s)"
    using i by (intro nth_equalityI) (simp_all add: mh_def mutex_rest_def nth_list_update)
  then show ?thesis
    using Mutex_q i by (intro exI [of _ "sem_heap s"] exI [of _ mh])
      (auto simp: put_queue_def get_queue_def array_simps mh_def arr_get_def nth_list_update split: qref.splits)
qed (use assms in \<open>simp add: get_queue_def\<close>)

lemma q_wf_leave:
  assumes "q_wf s" "get_queue r s = Some q" "get_proc (ptable s) p = Some pr" "waiting pr" "blockq pr = Some r"
    and "pq_ok (ptable s) q'" "max_items q' = max_items q" "set (pq_pids q') = set (pq_pids q) - {p}"
  shows "\<exists>sh mh. put_queue r q' s = Some (s\<lparr>sem_heap := sh, mutex_heap := mh\<rparr>) \<and> q_wf_out p (s\<lparr>sem_heap := sh, mutex_heap := mh\<rparr>) \<and>
     map sem_rest sh = map sem_rest (sem_heap s) \<and> map mutex_rest mh = map mutex_rest (mutex_heap s)"
proof -
  have ok: "procs_ok s" "ready_ok s" "wait_ok s" using assms(1) by (simp_all add: q_wf_def)
  obtain sh mh where put: "put_queue r q' s = Some (s\<lparr>sem_heap := sh, mutex_heap := mh\<rparr>)"
      "\<forall>r'. get_queue r' (s\<lparr>sem_heap := sh, mutex_heap := mh\<rparr>) = (if r' = r then Some q' else get_queue r' s)"
      "map sem_rest sh = map sem_rest (sem_heap s)" "map mutex_rest mh = map mutex_rest (mutex_heap s)"
    using put_queue_eq [OF assms(2), of q'] by blast
  define s' where "s' = s\<lparr>sem_heap := sh, mutex_heap := mh\<rparr>"
  have sel: "ptable s' = ptable s" "ready_q s' = ready_q s" "idle_task_pid s' = idle_task_pid s" by (simp_all add: s'_def)
  have gq: "get_queue r' s' = (if r' = r then Some q' else get_queue r' s)" for r' using put(2) by (simp add: s'_def)
  have "get_queue r' s' \<noteq> None \<longleftrightarrow> get_queue r' s \<noteq> None" for r' using gq assms(2) by simp
  then have po: "proc_ok s' x = proc_ok s x" for x by (simp add: fun_eq_iff proc_ok_def s'_def)
  note pok = procs_okD [OF ok(1) assms(3)]
  have p: "p \<noteq> idle_task_pid s" "is_allocated pr" "0 \<le> priority pr" "priority pr < int (length (ready_q s))"
    using pok assms(4) by (auto simp: proc_ok_def waiting_def)
  have rc: "ready_count (get_proc (ptable s)) (idle_task_pid s) i p = 0" for i
    using assms(3,4) by (auto simp: ready_count_def waiting_def)
  have wt: "pq_ok (ptable s) qq \<and> length (ptable s) \<le> unat (max_items qq) \<and>
      (\<forall>x. x \<in> set (pq_pids qq) \<longleftrightarrow> x \<noteq> p \<and> (\<exists>pr. get_proc (ptable s) x = Some pr \<and> waiting pr \<and> blockq pr = Some r'))"
    if "get_queue r' s' = Some qq" for r' qq
  proof (cases "r' = r")
    case True
    then have "qq = q'" using that gq by simp
    then show ?thesis using ok(3) assms(2,6,7,8) True unfolding wait_ok_def by auto
  next
    case False
    then have "get_queue r' s = Some qq" using that gq by simp
    moreover have "\<not> (\<exists>pr. get_proc (ptable s) p = Some pr \<and> waiting pr \<and> blockq pr = Some r')" using assms(3,5) False by simp
    ultimately show ?thesis using ok(3) unfolding wait_ok_def by (metis (no_types, lifting))
  qed
  have "q_wf_out p s'"
    unfolding q_wf_out_def sel po using ok(1,2) assms(3) p rc wt unfolding procs_ok_def ready_ok_def by auto
  then show ?thesis using put unfolding s'_def by blast
qed

lemma q_wf_enter:
  assumes "q_wf_out p s" "get_queue r s = Some q" "get_proc (ptable s) p = Some pr"
    and "pr_state (f pr) = PROC_WAIT \<or> pr_state (f pr) = PROC_TIMED_WAIT" "blockq (f pr) = Some r"
    and "priority (f pr) = priority pr" "is_allocated (f pr)"
  shows "\<exists>q' sh mh pt. prio_penq (ptable s) q p = Some q' \<and> put_queue r q' s = Some (s\<lparr>sem_heap := sh, mutex_heap := mh\<rparr>) \<and>
     upd_proc p f (s\<lparr>sem_heap := sh, mutex_heap := mh\<rparr>) = Some (s\<lparr>sem_heap := sh, mutex_heap := mh, ptable := pt\<rparr>) \<and>
     get_proc pt = (get_proc (ptable s))(p \<mapsto> f pr) \<and> length pt = length (ptable s) \<and>
     q_wf (s\<lparr>sem_heap := sh, mutex_heap := mh, ptable := pt\<rparr>) \<and>
     map sem_rest sh = map sem_rest (sem_heap s) \<and> map mutex_rest mh = map mutex_rest (mutex_heap s)"
proof -
  note out = q_wf_outD [OF assms(1)]
  have nin: "p \<notin> set (pq_pids q)" using out(9) [OF assms(2)] by simp
  have "distinct (p # pq_pids q)" "\<forall>x \<in> set (p # pq_pids q). get_proc (ptable s) x \<noteq> None"
    using nin out(7) [OF assms(2)] assms(3) by (auto simp: pq_ok_def valid_pid_get)
  from valid_pids_length [OF this] have room: "unat (item_count q) < unat (max_items q)"
    using out(8) [OF assms(2)] length_pq_pids [OF out(7) [OF assms(2)]] by simp
  have "valid_pid (ptable s) p" using assms(3) by (simp add: valid_pid_get)
  then obtain q' where q': "prio_penq (ptable s) q p = Some q'" "pq_ok (ptable s) q'" "max_items q' = max_items q"
      "set (pq_pids q') = insert p (set (pq_pids q))"
    using prio_penq_ok [OF out(7) [OF assms(2)] _ nin room] by blast
  obtain sh mh where put: "put_queue r q' s = Some (s\<lparr>sem_heap := sh, mutex_heap := mh\<rparr>)"
      "\<forall>r'. get_queue r' (s\<lparr>sem_heap := sh, mutex_heap := mh\<rparr>) = (if r' = r then Some q' else get_queue r' s)"
      "map sem_rest sh = map sem_rest (sem_heap s)" "map mutex_rest mh = map mutex_rest (mutex_heap s)"
    using put_queue_eq [OF assms(2), of q'] by blast
  define s1 where "s1 = s\<lparr>sem_heap := sh, mutex_heap := mh\<rparr>"
  have "get_proc (ptable s1) p = Some pr" using assms(3) by (simp add: s1_def)
  from upd_proc_eq [OF this, of f] obtain pt where pt: "upd_proc p f s1 = Some (s1\<lparr>ptable := pt\<rparr>)" "length pt = length (ptable s)"
      "get_proc pt = (get_proc (ptable s))(p \<mapsto> f pr)"
    by (auto simp: s1_def)
  define s' where "s' = s\<lparr>sem_heap := sh, mutex_heap := mh, ptable := pt\<rparr>"
  have "get_queue r' s' = get_queue r' s1" for r' by (rule get_queue_frame) (simp_all add: s'_def s1_def)
  then have gq: "get_queue r' s' = (if r' = r then Some q' else get_queue r' s)" for r' using put(2) by (simp add: s1_def)
  have pq: "pq_ok pt qq = pq_ok (ptable s) qq" for qq
    by (rule pq_ok_cong) (use assms(3,6) in \<open>simp add: pt(3)\<close>)
  have w: "waiting (f pr)" using assms(4,7) by (auto simp: waiting_def)
  have "get_queue r' s' \<noteq> None \<longleftrightarrow> get_queue r' s \<noteq> None" for r' using gq assms(2) by simp
  then have po: "proc_ok s' x = proc_ok s x" for x by (simp add: fun_eq_iff proc_ok_def s'_def)
  have pprio: "0 \<le> priority pr" "priority pr < int (length (ready_q s))" using assms(1,3) unfolding q_wf_out_def by auto
  have "proc_ok s p (f pr)" unfolding proc_ok_def using assms(2,4-7) w pprio out(2) by auto
  then have procs: "procs_ok s'"
    using assms(1) out(1,3) unfolding q_wf_out_def procs_ok_def po by (auto simp: s'_def pt(2,3))
  have "ready_count (get_proc pt) (idle_task_pid s) i x = (if x = p then 0 else ready_count (get_proc (ptable s)) (idle_task_pid s) i x)" for i x
    using assms(4) by (auto simp: ready_count_def pt(3))
  then have ready: "ready_ok s'" using out(4-6) unfolding ready_ok_def by (simp add: s'_def pt(2))
  have "pq_ok (ptable s) qq \<and> length (ptable s) \<le> unat (max_items qq) \<and>
      (\<forall>x. x \<in> set (pq_pids qq) \<longleftrightarrow> (\<exists>pr. get_proc pt x = Some pr \<and> waiting pr \<and> blockq pr = Some r'))"
    if "get_queue r' s' = Some qq" for r' qq
    using that gq q' out(7-9) assms(2,5) w by (cases "r' = r") (auto simp: pt(3))
  then have "wait_ok s'" unfolding wait_ok_def by (simp add: s'_def pq pt(2))
  then have "q_wf s'" using procs ready by (simp add: q_wf_def)
  then show ?thesis using q'(1) put pt unfolding s'_def s1_def by (metis kernel.surjective)
qed

text \<open>Fields the invariant does not look at.\<close>

lemma get_queue_upd [simp]:
  "get_queue r (s\<lparr>resched := b\<rparr>) = get_queue r s" "get_queue r (s\<lparr>did_resched := b\<rparr>) = get_queue r s"
  "get_queue r (s\<lparr>prev_pid := p\<rparr>) = get_queue r s" "get_queue r (s\<lparr>ctx_save_process := c\<rparr>) = get_queue r s"
  "get_queue r (s\<lparr>conts := k\<rparr>) = get_queue r s" "get_queue r (s\<lparr>kernel_ticks := n\<rparr>) = get_queue r s"
  "get_queue r (s\<lparr>sched_partial_tick := b\<rparr>) = get_queue r s" "get_queue r (s\<lparr>soft_tmrs := ts\<rparr>) = get_queue r s"
  "get_queue r (s\<lparr>active_tmrs := is\<rparr>) = get_queue r s" "get_queue r (s\<lparr>shadow_tmrs := is\<rparr>) = get_queue r s"
  "get_queue r (s\<lparr>nactive := m\<rparr>) = get_queue r s"
  by (rule get_queue_frame; simp)+

lemma q_wf_upd [simp]:
  "q_wf (s\<lparr>resched := b\<rparr>) = q_wf s" "q_wf (s\<lparr>did_resched := b\<rparr>) = q_wf s" "q_wf (s\<lparr>prev_pid := p\<rparr>) = q_wf s"
  "q_wf (s\<lparr>ctx_save_process := c\<rparr>) = q_wf s" "q_wf (s\<lparr>conts := k\<rparr>) = q_wf s" "q_wf (s\<lparr>kernel_ticks := n\<rparr>) = q_wf s"
  "q_wf (s\<lparr>sched_partial_tick := b\<rparr>) = q_wf s" "q_wf (s\<lparr>soft_tmrs := ts\<rparr>) = q_wf s"
  "q_wf (s\<lparr>active_tmrs := is\<rparr>) = q_wf s" "q_wf (s\<lparr>shadow_tmrs := is\<rparr>) = q_wf s" "q_wf (s\<lparr>nactive := m\<rparr>) = q_wf s"
  by (simp_all add: q_wf_def procs_ok_def proc_ok_def ready_ok_def wait_ok_def)

section \<open>Timers and processes\<close>

lemma add_tmr_eq:
  assumes "tmr_core s" "p \<noteq> 255" "p \<notin> fst ` set (tmr_view s)" "nactive s < length (soft_tmrs s)"
    and "ticks = (if ms_to_ticks s ms = 0 then 1 else ms_to_ticks s ms)"
  shows "\<exists>ts act. add_tmr p ms s = Some (0, s\<lparr>soft_tmrs := ts, active_tmrs := act, nactive := nactive s + 1\<rparr>) \<and>
     length ts = length (soft_tmrs s) \<and>
     tmr_core (s\<lparr>soft_tmrs := ts, active_tmrs := act, nactive := nactive s + 1\<rparr>) \<and>
     tmr_view (s\<lparr>soft_tmrs := ts, active_tmrs := act, nactive := nactive s + 1\<rparr>) = tmr_view s @ [(p, ticks)]"
proof -
  note core = assms(1) [unfolded tmr_core_def]
  let ?n = "length (soft_tmrs s)"
  have len: "length (tmr_ids s) = nactive s" using core by (simp add: tmr_ids_def)
  have "\<exists>j < ?n. int j \<notin> set (tmr_ids s)"
  proof (rule ccontr)
    assume "\<not> ?thesis"
    then have "int ` {..<?n} \<subseteq> set (tmr_ids s)" by auto
    then have "card (int ` {..<?n}) \<le> card (set (tmr_ids s))" by (intro card_mono) simp_all
    moreover have "card (int ` {..<?n}) = ?n" by (simp add: card_image)
    ultimately show False using card_length [of "tmr_ids s"] len assms(4) by simp
  qed
  then have "\<exists>j < ?n. tmr_pid (soft_tmrs s ! j) = 255" using core by blast
  then obtain i where i: "scan_table (\<lambda>t. tmr_pid t = 255) 0 (soft_tmrs s) = i" "i < ?n" "tmr_pid (soft_tmrs s ! i) = 255"
    using scan_table_less [of "\<lambda>t. tmr_pid t = 255" "soft_tmrs s"] scan_table_sat [of "\<lambda>t. tmr_pid t = 255" "soft_tmrs s"] by blast
  have ini: "int i \<notin> set (tmr_ids s)" using i(3) core by (auto simp: tmr_view_def)
  define ts act where "ts = (soft_tmrs s)[i := \<lparr>tmr_timeout = ticks, tmr_pid = p\<rparr>]" and "act = (active_tmrs s)[nactive s := int i]"
  define s' where "s' = s\<lparr>soft_tmrs := ts, active_tmrs := act, nactive := nactive s + 1\<rparr>"
  have na: "nactive s < length (active_tmrs s)" using core assms(4) by simp
  have eq: "add_tmr p ms s = Some (0, s')"
    using assms(4,5) i na by (simp add: add_tmr_def get_free_tmr_def Let_def tmr_set_def array_simps ts_def act_def s'_def)
  have ids: "tmr_ids s' = tmr_ids s @ [int i]" using na by (simp add: tmr_ids_def s'_def act_def take_update_shift)
  have old: "ts ! nat k = soft_tmrs s ! nat k" if "k \<in> set (tmr_ids s)" for k
  proof -
    have "0 \<le> k" using that core by blast
    then have "nat k \<noteq> i" using that ini by auto
    then show ?thesis by (simp add: ts_def)
  qed
  have view: "tmr_view s' = tmr_view s @ [(p, ticks)]"
    unfolding tmr_view_def ids using old i(2) by (simp add: s'_def) (simp add: ts_def)
  have "ticks \<noteq> 0" using assms(5) by simp
  moreover have "tmr_pid (ts ! k) = 255" if "k < ?n" "int k \<notin> set (tmr_ids s')" for k
    using that core unfolding ids by (auto simp: ts_def nth_list_update)
  ultimately have "tmr_core s'"
    unfolding tmr_core_def view using core assms(2-4) ids i(2) by (auto simp: s'_def ts_def act_def)
  then show ?thesis using eq view unfolding s'_def ts_def by (metis length_list_update)
qed

lemma remove_tmr_eq:
  assumes "tmr_core s" "p \<noteq> 255"
  shows "\<exists>ms ts act sh n. remove_tmr p s = Some (ms, s\<lparr>soft_tmrs := ts, active_tmrs := act, shadow_tmrs := sh, nactive := n\<rparr>) \<and>
     length ts = length (soft_tmrs s) \<and>
     tmr_core (s\<lparr>soft_tmrs := ts, active_tmrs := act, shadow_tmrs := sh, nactive := n\<rparr>) \<and>
     tmr_view (s\<lparr>soft_tmrs := ts, active_tmrs := act, shadow_tmrs := sh, nactive := n\<rparr>) = filter (\<lambda>(q, _). q \<noteq> p) (tmr_view s)"
proof (cases "scan_table (\<lambda>t. tmr_pid t = p) 0 (soft_tmrs s) < length (soft_tmrs s)")
  case True
  then show ?thesis using update_active_tmrs_eq [OF assms(1), of p] by (fastforce simp: remove_tmr_def Let_def)
next
  case False
  then have "\<forall>i < length (soft_tmrs s). tmr_pid (soft_tmrs s ! i) \<noteq> p"
    using scan_table_less [of "\<lambda>t. tmr_pid t = p" "soft_tmrs s"] by blast
  then have "\<forall>(q, n) \<in> set (tmr_view s). q \<noteq> p"
    using assms(1) by (auto simp: tmr_view_def tmr_core_def)
  then have "filter (\<lambda>(q, _). q \<noteq> p) (tmr_view s) = tmr_view s" by (auto simp: filter_id_conv)
  then show ?thesis
    using False assms(1)
    by (intro exI [of _ 0] exI [of _ "soft_tmrs s"] exI [of _ "active_tmrs s"] exI [of _ "shadow_tmrs s"] exI [of _ "nactive s"])
      (simp add: remove_tmr_def Let_def)
qed

text \<open>A timeout makes its process ready, out of whatever queue it waited in.\<close>

lemma timeout_unqueue:
  assumes "q_wf s" "get_proc (ptable s) p = Some pr" "timed pr"
  shows "\<exists>pt sh mh. (case blockq pr of
        None \<Rightarrow> Some s
      | Some r \<Rightarrow>
          do { q \<leftarrow> get_queue r s; (_, pt, q) \<leftarrow> prio_pdelq (ptable s) q p; s \<leftarrow> put_queue r q (s\<lparr>ptable := pt\<rparr>);
               upd_proc p (\<lambda>pr. pr\<lparr>timeout := True, blockq := None\<rparr>) s }) =
        Some (s\<lparr>sem_heap := sh, mutex_heap := mh, ptable := pt\<rparr>) \<and> length pt = length (ptable s) \<and>
      get_proc pt = (get_proc (ptable s))(p \<mapsto> pr\<lparr>timeout := timeout pr \<or> blockq pr \<noteq> None, blockq := None\<rparr>) \<and>
      q_wf_out p (s\<lparr>sem_heap := sh, mutex_heap := mh, ptable := pt\<rparr>) \<and>
      map sem_rest sh = map sem_rest (sem_heap s) \<and> map mutex_rest mh = map mutex_rest (mutex_heap s)"
proof -
  have ok: "procs_ok s" "ready_ok s" "wait_ok s" using assms(1) by (simp_all add: q_wf_def)
  note pok = procs_okD [OF ok(1) assms(2), unfolded proc_ok_def]
  have al: "is_allocated pr" "p \<noteq> idle_task_pid s" using assms(3) pok by (auto simp: timed_def)
  show ?thesis
  proof (cases "blockq pr")
    case None
    then have "pr_state pr = PROC_DELAY" using assms(3) pok by (auto simp: timed_def waiting_def)
    then have "q_wf_out p s" by (intro q_wf_out_start [OF assms(1,2) al]) simp
    moreover have "pr\<lparr>blockq := None\<rparr> = pr" using None by simp
    ultimately show ?thesis
      using None assms(2)
      by (intro exI [of _ "ptable s"] exI [of _ "sem_heap s"] exI [of _ "mutex_heap s"]) (simp add: fun_upd_idem)
  next
    case (Some r)
    then have w: "waiting pr" using pok al(1) by simp
    obtain q where q: "get_queue r s = Some q" using pok w Some by auto
    have pq: "pq_ok (ptable s) q" "p \<in> set (pq_pids q)" using ok(3) q assms(2) w Some unfolding wait_ok_def by auto
    have "0 \<le> prio_of (ptable s) y" if yq: "y \<in> set (pq_pids q)" for y
    proof -
      obtain pry where y: "get_proc (ptable s) y = Some pry" "waiting pry" using yq ok(3) q unfolding wait_ok_def by blast
      then show ?thesis using procs_ok_prio(1) [OF ok(1) y(1)] by (simp add: prio_of_get waiting_def)
    qed
    then obtain q' where q': "prio_pdelq (ptable s) q p = Some (0, ptable s, q')"
        "pq_ok (ptable s) q'" "max_items q' = max_items q" "set (pq_pids q') = set (pq_pids q) - {p}"
      using prio_pdelq_ok [OF pq(1), of p] pq(2) by auto
    obtain sh mh where l: "put_queue r q' s = Some (s\<lparr>sem_heap := sh, mutex_heap := mh\<rparr>)"
        "q_wf_out p (s\<lparr>sem_heap := sh, mutex_heap := mh\<rparr>)"
        "map sem_rest sh = map sem_rest (sem_heap s)" "map mutex_rest mh = map mutex_rest (mutex_heap s)"
      using q_wf_leave [OF assms(1) q assms(2) w Some q'(2-4)] by blast
    have gp: "get_proc (ptable (s\<lparr>sem_heap := sh, mutex_heap := mh\<rparr>)) p = Some pr" using assms(2) by simp
    from q_wf_out_upd [OF l(2) gp, of "\<lambda>pr. pr\<lparr>timeout := True, blockq := None\<rparr>"] al(1)
    obtain pt where "upd_proc p (\<lambda>pr. pr\<lparr>timeout := True, blockq := None\<rparr>) (s\<lparr>sem_heap := sh, mutex_heap := mh\<rparr>) =
        Some (s\<lparr>sem_heap := sh, mutex_heap := mh, ptable := pt\<rparr>)" "length pt = length (ptable s)"
        "get_proc pt = (get_proc (ptable s))(p \<mapsto> pr\<lparr>timeout := True, blockq := None\<rparr>)"
        "q_wf_out p (s\<lparr>sem_heap := sh, mutex_heap := mh, ptable := pt\<rparr>)"
      by auto
    then show ?thesis
      using Some q q'(1) l by (intro exI [of _ pt] exI [of _ sh] exI [of _ mh]) simp
  qed
qed

lemma handle_timeout_eq:
  assumes "q_wf s" "get_proc (ptable s) p = Some pr" "timed pr"
  shows "\<exists>pt qs sh mh. handle_timeout p s =
       Some (s\<lparr>sem_heap := sh, mutex_heap := mh, ptable := pt, ready_q := qs, resched := True\<rparr>) \<and>
     q_wf (s\<lparr>sem_heap := sh, mutex_heap := mh, ptable := pt, ready_q := qs, resched := True\<rparr>) \<and> length pt = length (ptable s) \<and>
     length qs = length (ready_q s) \<and>
     get_proc pt = (get_proc (ptable s))(p \<mapsto> pr\<lparr>timeout := timeout pr \<or> blockq pr \<noteq> None, blockq := None, pr_state := PROC_READY\<rparr>) \<and>
     map sem_rest sh = map sem_rest (sem_heap s) \<and> map mutex_rest mh = map mutex_rest (mutex_heap s)"
proof -
  define pr1 where "pr1 = pr\<lparr>timeout := timeout pr \<or> blockq pr \<noteq> None, blockq := None\<rparr>"
  have al: "is_allocated pr1" "blockq pr1 = None" using assms(3) by (simp_all add: pr1_def timed_def)
  obtain pt1 sh mh where s1: "(case blockq pr of
        None \<Rightarrow> Some s
      | Some r \<Rightarrow>
          do { q \<leftarrow> get_queue r s; (_, pt, q) \<leftarrow> prio_pdelq (ptable s) q p; s \<leftarrow> put_queue r q (s\<lparr>ptable := pt\<rparr>);
               upd_proc p (\<lambda>pr. pr\<lparr>timeout := True, blockq := None\<rparr>) s }) =
        Some (s\<lparr>sem_heap := sh, mutex_heap := mh, ptable := pt1\<rparr>)" "length pt1 = length (ptable s)"
      "get_proc pt1 = (get_proc (ptable s))(p \<mapsto> pr1)" "q_wf_out p (s\<lparr>sem_heap := sh, mutex_heap := mh, ptable := pt1\<rparr>)"
      "map sem_rest sh = map sem_rest (sem_heap s)" "map mutex_rest mh = map mutex_rest (mutex_heap s)"
    using timeout_unqueue [OF assms] unfolding pr1_def by blast
  define s1 where "s1 = s\<lparr>sem_heap := sh, mutex_heap := mh, ptable := pt1\<rparr>"
  have gp1: "get_proc (ptable s1) p = Some pr1" using s1(3) by (simp add: s1_def)
  have out1: "q_wf_out p s1" using s1(4) by (simp add: s1_def)
  from q_wf_out_upd [OF out1 gp1, of "\<lambda>pr. pr\<lparr>pr_state := PROC_READY\<rparr>"] al(1)
  obtain pt2 where pt2: "upd_proc p (\<lambda>pr. pr\<lparr>pr_state := PROC_READY\<rparr>) s1 = Some (s1\<lparr>ptable := pt2\<rparr>)"
      "length pt2 = length (ptable s)" "get_proc pt2 = (get_proc (ptable s))(p \<mapsto> pr1\<lparr>pr_state := PROC_READY\<rparr>)"
      "q_wf_out p (s1\<lparr>ptable := pt2\<rparr>)"
    using s1(2,3) by (auto simp: s1_def)
  have gp2: "get_proc (ptable (s1\<lparr>ptable := pt2\<rparr>)) p = Some (pr1\<lparr>pr_state := PROC_READY\<rparr>)" using pt2(3) by simp
  obtain qs where qs: "enq_ready p (s1\<lparr>ptable := pt2\<rparr>) = Some (s1\<lparr>ptable := pt2, ready_q := qs\<rparr>)"
      "q_wf (s1\<lparr>ptable := pt2, ready_q := qs\<rparr>)" "length qs = length (ready_q s)"
    using q_wf_out_ready [OF pt2(4) gp2] al(2) by (auto simp: s1_def)
  define s2 where "s2 = s1\<lparr>ptable := pt2, ready_q := qs, resched := True\<rparr>"
  have "handle_timeout p s = Some s2"
    using assms(2) s1(1) pt2(1) qs(1) by (simp add: handle_timeout_def s2_def s1_def)
  moreover have "q_wf s2" using qs(2) by (simp add: s2_def)
  ultimately show ?thesis using pt2(2,3) s1(5,6) qs(3) unfolding s2_def s1_def pr1_def by auto
qed

lemma q_wf_cong:
  assumes "ptable s' = ptable s" "ready_q s' = ready_q s" "idle_task_pid s' = idle_task_pid s" "current_pid s' = current_pid s"
    and "sem_heap s' = sem_heap s" "mutex_heap s' = mutex_heap s"
  shows "q_wf s' = q_wf s"
proof -
  have "get_queue r s' = get_queue r s" for r using assms(5,6) by (rule get_queue_frame)
  then show ?thesis using assms(1-4) by (simp add: q_wf_def procs_ok_def proc_ok_def ready_ok_def wait_ok_def)
qed

section \<open>The clock tick\<close>

definition wake :: "process_struct \<Rightarrow> process_struct" where
  "wake pr = pr\<lparr>timeout := timeout pr \<or> blockq pr \<noteq> None, blockq := None, pr_state := PROC_READY\<rparr>"

lemma wake_wake [simp]: "wake (wake pr) = wake pr"
  by (simp add: wake_def)

definition wake_all :: "pid set \<Rightarrow> (pid \<Rightarrow> process_struct option) \<Rightarrow> pid \<Rightarrow> process_struct option" where
  "wake_all P gp p = (if p \<in> P then map_option wake (gp p) else gp p)"

text \<open>What the loop over the timers leaves alone.\<close>

definition tick_frame :: "kernel \<Rightarrow> kernel \<Rightarrow> bool" where
  "tick_frame s s' \<longleftrightarrow>
     current_pid s' = current_pid s \<and> prev_pid s' = prev_pid s \<and> ctx_save_process s' = ctx_save_process s \<and>
     idle_task_pid s' = idle_task_pid s \<and> active_tmrs s' = active_tmrs s \<and> nactive s' = nactive s \<and>
     kernel_ticks s' = kernel_ticks s \<and> sched_partial_tick s' = sched_partial_tick s \<and> systmr_khz s' = systmr_khz s \<and>
     systmr_interval s' = systmr_interval s \<and> sem_map s' = sem_map s \<and> conts s' = conts s \<and>
     length (ptable s') = length (ptable s) \<and> length (ready_q s') = length (ready_q s) \<and>
     length (soft_tmrs s') = length (soft_tmrs s) \<and> length (shadow_tmrs s') = length (shadow_tmrs s) \<and>
     map sem_rest (sem_heap s') = map sem_rest (sem_heap s) \<and> map mutex_rest (mutex_heap s') = map mutex_rest (mutex_heap s)"

lemma tick_frame_trans: "tick_frame s s1 \<Longrightarrow> tick_frame s1 s2 \<Longrightarrow> tick_frame s s2"
  by (simp add: tick_frame_def)

definition tick_tmr :: "soft_tmr \<Rightarrow> soft_tmr" where
  "tick_tmr t = (if tmr_timeout t = 1 then \<lparr>tmr_timeout = 0, tmr_pid = 255\<rparr> else t\<lparr>tmr_timeout := tmr_timeout t - 1\<rparr>)"

definition expired :: "kernel \<Rightarrow> int list \<Rightarrow> pid set" where
  "expired s is = (\<lambda>i. tmr_pid (soft_tmrs s ! nat i)) ` {i \<in> set is. tmr_timeout (soft_tmrs s ! nat i) = 1}"

definition lives :: "kernel \<Rightarrow> int \<Rightarrow> bool" where
  "lives s i \<longleftrightarrow> tmr_timeout (soft_tmrs s ! nat i) \<noteq> 1"

definition tick_pre :: "int list \<Rightarrow> nat \<Rightarrow> kernel \<Rightarrow> bool" where
  "tick_pre is n s \<longleftrightarrow>
     q_wf s \<and> distinct (map (\<lambda>i. tmr_pid (soft_tmrs s ! nat i)) is) \<and> n + length is \<le> length (shadow_tmrs s) \<and>
     (\<forall>i \<in> set is. 0 \<le> i \<and> nat i < length (soft_tmrs s) \<and> tmr_timeout (soft_tmrs s ! nat i) \<noteq> 0 \<and>
        (\<exists>pr. get_proc (ptable s) (tmr_pid (soft_tmrs s ! nat i)) = Some pr \<and> timed pr))"

definition tick_post :: "int list \<Rightarrow> nat \<Rightarrow> kernel \<Rightarrow> kernel \<Rightarrow> bool" where
  "tick_post is n s s' \<longleftrightarrow>
     q_wf s' \<and> tick_frame s s' \<and>
     take (n + length (filter (lives s) is)) (shadow_tmrs s') = take n (shadow_tmrs s) @ filter (lives s) is \<and>
     (\<forall>j < length (soft_tmrs s). soft_tmrs s' ! j = (if int j \<in> set is then tick_tmr (soft_tmrs s ! j) else soft_tmrs s ! j)) \<and>
     get_proc (ptable s') = wake_all (expired s is) (get_proc (ptable s))"

lemma tick_one:
  assumes "tick_pre (i # is) n s" "tmr_timeout (soft_tmrs s ! nat i) = 1"
  shows "\<exists>s1. tick_tmrs (i # is) n s = tick_tmrs is n s1 \<and> tick_frame s s1 \<and> tick_pre is n s1 \<and> shadow_tmrs s1 = shadow_tmrs s \<and>
     soft_tmrs s1 = (soft_tmrs s)[nat i := \<lparr>tmr_timeout = 0, tmr_pid = 255\<rparr>] \<and>
     get_proc (ptable s1) = wake_all {tmr_pid (soft_tmrs s ! nat i)} (get_proc (ptable s))"
proof -
  note pre = assms(1) [unfolded tick_pre_def]
  define t p where "t = soft_tmrs s ! nat i" and "p = tmr_pid t"
  have i: "0 \<le> i" "nat i < length (soft_tmrs s)" "i \<notin> set is" using pre by (auto simp: distinct_map)
  obtain pr where pr: "get_proc (ptable s) p = Some pr" "timed pr" using pre by (auto simp: t_def p_def)
  define s0 where "s0 = s\<lparr>soft_tmrs := (soft_tmrs s)[nat i := t\<lparr>tmr_timeout := 0\<rparr>]\<rparr>"
  have "q_wf s0" using pre by (simp add: s0_def)
  moreover have "get_proc (ptable s0) p = Some pr" using pr(1) by (simp add: s0_def)
  ultimately obtain pt qs sh mh where h: "handle_timeout p s0 =
       Some (s0\<lparr>sem_heap := sh, mutex_heap := mh, ptable := pt, ready_q := qs, resched := True\<rparr>)"
     "q_wf (s0\<lparr>sem_heap := sh, mutex_heap := mh, ptable := pt, ready_q := qs, resched := True\<rparr>)" "length pt = length (ptable s0)"
     "length qs = length (ready_q s0)" "get_proc pt = (get_proc (ptable s0))(p \<mapsto> wake pr)"
     "map sem_rest sh = map sem_rest (sem_heap s0)" "map mutex_rest mh = map mutex_rest (mutex_heap s0)"
    using handle_timeout_eq [OF _ _ pr(2), of s0 p] unfolding wake_def by blast
  define s1 where "s1 = s\<lparr>sem_heap := sh, mutex_heap := mh, ptable := pt, ready_q := qs, resched := True,
      soft_tmrs := (soft_tmrs s)[nat i := \<lparr>tmr_timeout = 0, tmr_pid = 255\<rparr>]\<rparr>"
  have tt: "t\<lparr>tmr_timeout := 0, tmr_pid := 255\<rparr> = \<lparr>tmr_timeout = 0, tmr_pid = 255\<rparr>" by (cases t) simp
  have eq: "tick_tmrs (i # is) n s = tick_tmrs is n s1"
    using i assms(2) h(1)
    by (simp add: tmr_get_def tmr_set_def array_simps s0_def s1_def tt flip: t_def p_def)
  have same: "soft_tmrs s1 ! nat j = soft_tmrs s ! nat j" if "j \<in> set is" for j
  proof -
    have "0 \<le> j" using that pre by auto
    then have "nat j \<noteq> nat i" using that i by (auto simp: eq_nat_nat_iff)
    then show ?thesis by (simp add: s1_def)
  qed
  have gp: "get_proc (ptable s1) = (get_proc (ptable s))(p \<mapsto> wake pr)" using h(5) by (simp add: s1_def s0_def)
  have "tick_frame s s1" using h(3,4,6,7) by (simp add: tick_frame_def s1_def s0_def)
  moreover have "tick_pre is n s1"
  proof -
    have "q_wf s1" by (rule iffD2 [OF q_wf_cong h(2)]) (simp_all add: s1_def s0_def)
    moreover have pids: "map (\<lambda>i. tmr_pid (soft_tmrs s1 ! nat i)) is = map (\<lambda>i. tmr_pid (soft_tmrs s ! nat i)) is"
      using same by simp
    moreover have "get_proc (ptable s1) (tmr_pid (soft_tmrs s ! nat j)) = get_proc (ptable s) (tmr_pid (soft_tmrs s ! nat j))"
      if "j \<in> set is" for j
    proof -
      have "tmr_pid (soft_tmrs s ! nat j) \<in> (\<lambda>i. tmr_pid (soft_tmrs s ! nat i)) ` set is" using that by (rule imageI)
      then have "tmr_pid (soft_tmrs s ! nat j) \<noteq> p" using pre by (auto simp: p_def t_def)
      then show ?thesis using gp by simp
    qed
    ultimately show ?thesis using pre same unfolding tick_pre_def pids by (auto simp: s1_def)
  qed
  moreover have "get_proc (ptable s1) = wake_all {p} (get_proc (ptable s))"
    using gp pr(1) by (auto simp: wake_all_def fun_eq_iff)
  ultimately show ?thesis using eq by (intro exI [of _ s1]) (simp add: s1_def p_def t_def)
qed

lemma tick_keep:
  assumes "tick_pre (i # is) n s" "tmr_timeout (soft_tmrs s ! nat i) \<noteq> 1"
  shows "\<exists>s1. tick_tmrs (i # is) n s = tick_tmrs is (Suc n) s1 \<and> tick_frame s s1 \<and> tick_pre is (Suc n) s1 \<and>
     shadow_tmrs s1 = (shadow_tmrs s)[n := i] \<and> n < length (shadow_tmrs s) \<and>
     soft_tmrs s1 = (soft_tmrs s)[nat i := tick_tmr (soft_tmrs s ! nat i)] \<and> get_proc (ptable s1) = get_proc (ptable s)"
proof -
  note pre = assms(1) [unfolded tick_pre_def]
  have i: "0 \<le> i" "nat i < length (soft_tmrs s)" "i \<notin> set is" "n < length (shadow_tmrs s)" using pre by (auto simp: distinct_map)
  define s1 where "s1 = s\<lparr>soft_tmrs := (soft_tmrs s)[nat i := tick_tmr (soft_tmrs s ! nat i)], shadow_tmrs := (shadow_tmrs s)[n := i]\<rparr>"
  have eq: "tick_tmrs (i # is) n s = tick_tmrs is (Suc n) s1"
    using i assms(2) by (simp add: tmr_get_def tmr_set_def array_simps s1_def tick_tmr_def)
  have same: "soft_tmrs s1 ! nat j = soft_tmrs s ! nat j" if "j \<in> set is" for j
  proof -
    have "0 \<le> j" using that pre by auto
    then have "nat j \<noteq> nat i" using that i by (auto simp: eq_nat_nat_iff)
    then show ?thesis by (simp add: s1_def)
  qed
  have "tick_pre is (Suc n) s1" using pre same unfolding tick_pre_def by (auto simp: s1_def cong: map_cong)
  moreover have "tick_frame s s1" by (simp add: tick_frame_def s1_def)
  ultimately show ?thesis using eq i(4) by (intro exI [of _ s1]) (simp add: s1_def)
qed

lemma tick_tmrs_eq:
  assumes "tick_pre is n s"
  shows "\<exists>s'. tick_tmrs is n s = Some (n + length (filter (lives s) is), s') \<and> tick_post is n s s'"
  using assms
proof (induction "is" arbitrary: n s)
  case Nil
  then show ?case by (auto simp: tick_post_def tick_pre_def tick_frame_def wake_all_def expired_def fun_eq_iff)
next
  case (Cons i "is")
  note pre = Cons.prems [unfolded tick_pre_def]
  have i: "0 \<le> i" "nat i < length (soft_tmrs s)" "i \<notin> set is" using pre by (auto simp: distinct_map)
  have ii: "int j = i \<longleftrightarrow> j = nat i" for j using i(1) by auto
  have ne: "nat j \<noteq> nat i" if "j \<in> set is" for j
  proof -
    have "0 \<le> j" using that pre by auto
    then show ?thesis using that i by (auto simp: eq_nat_nat_iff)
  qed
  show ?case
  proof (cases "tmr_timeout (soft_tmrs s ! nat i) = 1")
    case True
    from tick_one [OF Cons.prems True] obtain s1 where s1: "tick_tmrs (i # is) n s = tick_tmrs is n s1" "tick_frame s s1"
        "tick_pre is n s1" "shadow_tmrs s1 = shadow_tmrs s" "soft_tmrs s1 = (soft_tmrs s)[nat i := \<lparr>tmr_timeout = 0, tmr_pid = 255\<rparr>]"
        "get_proc (ptable s1) = wake_all {tmr_pid (soft_tmrs s ! nat i)} (get_proc (ptable s))" by blast
    have same: "soft_tmrs s1 ! nat j = soft_tmrs s ! nat j" if "j \<in> set is" for j using ne [OF that] by (simp add: s1(5))
    have lv: "filter (lives s1) is = filter (lives s) is" using same by (auto simp: lives_def intro: filter_cong)
    have ex: "expired s (i # is) = insert (tmr_pid (soft_tmrs s ! nat i)) (expired s1 is)"
      using same True by (auto simp: expired_def)
    have fl: "filter (lives s) (i # is) = filter (lives s) is" using True by (simp add: lives_def)
    obtain s' where s': "tick_tmrs is n s1 = Some (n + length (filter (lives s) is), s')" "tick_post is n s1 s'"
      using Cons.IH [OF s1(3)] lv by auto
    have "tick_post (i # is) n s s'"
      unfolding tick_post_def fl ex
    proof (intro conjI allI impI)
      fix j
      assume "j < length (soft_tmrs s)"
      then show "soft_tmrs s' ! j = (if int j \<in> set (i # is) then tick_tmr (soft_tmrs s ! j) else soft_tmrs s ! j)"
        using s'(2) s1(5) i True unfolding tick_post_def by (cases "j = nat i") (auto simp: ii tick_tmr_def)
    next
      show "get_proc (ptable s') = wake_all (insert (tmr_pid (soft_tmrs s ! nat i)) (expired s1 is)) (get_proc (ptable s))"
        using s'(2) s1(6) wake_wake unfolding tick_post_def by (auto simp: wake_all_def fun_eq_iff option.map_comp comp_def)
    qed (use s'(2) s1(2,4) lv tick_frame_trans in \<open>auto simp: tick_post_def\<close>)
    then show ?thesis using s1(1) s'(1) fl by auto
  next
    case False
    from tick_keep [OF Cons.prems False] obtain s1 where s1: "tick_tmrs (i # is) n s = tick_tmrs is (Suc n) s1" "tick_frame s s1"
        "tick_pre is (Suc n) s1" "shadow_tmrs s1 = (shadow_tmrs s)[n := i]" "n < length (shadow_tmrs s)"
        "soft_tmrs s1 = (soft_tmrs s)[nat i := tick_tmr (soft_tmrs s ! nat i)]" "get_proc (ptable s1) = get_proc (ptable s)" by blast
    have same: "soft_tmrs s1 ! nat j = soft_tmrs s ! nat j" if "j \<in> set is" for j using ne [OF that] by (simp add: s1(6))
    have lv: "filter (lives s1) is = filter (lives s) is" using same by (auto simp: lives_def intro: filter_cong)
    have ex: "expired s (i # is) = expired s1 is" using same False by (auto simp: expired_def)
    have fl: "filter (lives s) (i # is) = i # filter (lives s) is" using False by (simp add: lives_def)
    obtain s' where s': "tick_tmrs is (Suc n) s1 = Some (Suc n + length (filter (lives s) is), s')" "tick_post is (Suc n) s1 s'"
      using Cons.IH [OF s1(3)] lv by auto
    have "take (Suc n) (shadow_tmrs s1) = take n (shadow_tmrs s) @ [i]" using s1(4,5) by (simp add: take_update_shift)
    moreover have "soft_tmrs s' ! j = (if int j \<in> set (i # is) then tick_tmr (soft_tmrs s ! j) else soft_tmrs s ! j)"
      if "j < length (soft_tmrs s)" for j
      using that s'(2) s1(6) i unfolding tick_post_def by (cases "j = nat i") (auto simp: ii)
    ultimately have "tick_post (i # is) n s s'"
      unfolding tick_post_def fl ex using s'(2) s1(2,7) lv tick_frame_trans by (auto simp: tick_post_def)
    then show ?thesis using s1(1) s'(1) fl by auto
  qed
qed

lemma k_wf_q: "k_wf s \<longleftrightarrow> q_wf s \<and> tmr_ok s"
  by (auto simp: k_wf_def q_wf_def)

definition due :: "kernel \<Rightarrow> pid set" where
  "due s = {p. (p, 1) \<in> set (tmr_view s)}"

definition tick_view :: "(pid \<times> u32) list \<Rightarrow> (pid \<times> u32) list" where
  "tick_view v = map (\<lambda>(p, n). (p, n - 1)) (filter (\<lambda>(p, n). n \<noteq> 1) v)"

lemma tick_view_distinct:
  assumes "distinct (map fst v)"
  shows "distinct (map fst (tick_view v))"
proof -
  have "map fst (tick_view v) = map fst (filter (\<lambda>(p, n). n \<noteq> 1) v)" by (simp add: tick_view_def comp_def split_def)
  then show ?thesis using assms by (simp add: distinct_map_filter)
qed

lemma tick_view_keys:
  assumes "distinct (map fst v)"
  shows "p \<in> fst ` set (tick_view v) \<longleftrightarrow> p \<in> fst ` set v \<and> (p, 1) \<notin> set v"
proof
  assume "p \<in> fst ` set (tick_view v)"
  then obtain n where n: "(p, n) \<in> set v" "n \<noteq> 1" by (auto simp: tick_view_def)
  then have "p \<in> fst ` set v" by (metis fst_conv imageI)
  moreover have "(p, 1) \<notin> set v" using n eq_key_imp_eq_value [OF assms n(1)] by blast
  ultimately show "p \<in> fst ` set v \<and> (p, 1) \<notin> set v" by blast
next
  assume a: "p \<in> fst ` set v \<and> (p, 1) \<notin> set v"
  then obtain n where n: "(p, n) \<in> set v" by auto
  then have "n \<noteq> 1" using a by blast
  then have "(p, n - 1) \<in> set (tick_view v)" using n by (force simp: tick_view_def)
  then show "p \<in> fst ` set (tick_view v)" by (metis fst_conv imageI)
qed

lemma soft_tmr_handler_eq:
  assumes "k_wf s"
  shows "\<exists>s'. soft_tmr_handler s = Some s' \<and> k_wf s' \<and> tmr_view s' = tick_view (tmr_view s) \<and>
     get_proc (ptable s') = wake_all (due s) (get_proc (ptable s)) \<and> current_pid s' = current_pid s \<and>
     idle_task_pid s' = idle_task_pid s \<and> conts s' = conts s \<and> length (ready_q s') = length (ready_q s) \<and>
     map sem_rest (sem_heap s') = map sem_rest (sem_heap s) \<and> map mutex_rest (mutex_heap s') = map mutex_rest (mutex_heap s)"
proof -
  have q: "q_wf s" and tok: "tmr_ok s" using assms by (simp_all add: k_wf_q)
  have core: "tmr_core s" and timed: "p \<in> fst ` set (tmr_view s) \<longleftrightarrow> (\<exists>pr. get_proc (ptable s) p = Some pr \<and> timed pr)" for p
    using tok by (simp_all add: tmr_ok_def)
  note c = core [unfolded tmr_core_def]
  let ?is = "tmr_ids s" and ?T = "soft_tmrs s"
  have pids: "map fst (tmr_view s) = map (\<lambda>i. tmr_pid (?T ! nat i)) ?is" by (simp add: tmr_view_def)
  have len: "length ?is = nactive s" using c by (simp add: tmr_ids_def)
  have pre: "tick_pre ?is 0 s"
    unfolding tick_pre_def
  proof (intro conjI ballI)
    fix i
    assume i: "i \<in> set ?is"
    show "0 \<le> i" "nat i < length ?T" using i c by blast+
    have "(tmr_pid (?T ! nat i), tmr_timeout (?T ! nat i)) \<in> set (tmr_view s)" using i by (simp add: tmr_view_def)
    moreover from imageI [OF this, of fst] have "tmr_pid (?T ! nat i) \<in> fst ` set (tmr_view s)" by simp
    ultimately show "tmr_timeout (?T ! nat i) \<noteq> 0" "\<exists>pr. get_proc (ptable s) (tmr_pid (?T ! nat i)) = Some pr \<and> timed pr"
      using c timed by auto
  qed (use q c pids len in simp_all)
  obtain s1 where s1: "tick_tmrs ?is 0 s = Some (length (filter (lives s) ?is), s1)" "tick_post ?is 0 s s1"
    using tick_tmrs_eq [OF pre] by auto
  note post = s1(2) [unfolded tick_post_def] and fr = s1(2) [unfolded tick_post_def tick_frame_def]
  define s' where "s' = s1\<lparr>active_tmrs := shadow_tmrs s1, shadow_tmrs := active_tmrs s1, nactive := length (filter (lives s) ?is)\<rparr>"
  have eq: "soft_tmr_handler s = Some s'"
    using s1(1) c by (simp add: soft_tmr_handler_def active_ids_def swap_tmrs_def s'_def tmr_ids_def)
  have ids: "tmr_ids s' = filter (lives s) ?is" using post by (simp add: tmr_ids_def s'_def)
  have tmrs: "soft_tmrs s' ! nat i = tick_tmr (?T ! nat i)" if "i \<in> set ?is" for i
    using that post c by (auto simp: s'_def)
  have view: "tmr_view s' = tick_view (tmr_view s)"
  proof -
    have "tmr_view s' = map (\<lambda>i. (tmr_pid (?T ! nat i), tmr_timeout (?T ! nat i) - 1)) (filter (lives s) ?is)"
      unfolding tmr_view_def ids using tmrs by (auto simp: lives_def tick_tmr_def)
    then show ?thesis by (simp add: tick_view_def tmr_view_def filter_map comp_def lives_def [abs_def])
  qed
  have due: "due s = expired s ?is" by (auto simp: due_def expired_def tmr_view_def image_iff)
  have gp: "get_proc (ptable s') = wake_all (due s) (get_proc (ptable s))" using post by (simp add: s'_def due)
  have "q_wf s'" using post q_wf_cong [of s' s1] by (simp add: s'_def)
  moreover have "tmr_core s'"
  proof -
    have "tmr_pid (soft_tmrs s' ! i) = 255" if i: "i < length ?T" "int i \<notin> set (filter (lives s) ?is)" for i
    proof (cases "int i \<in> set ?is")
      case True
      then show ?thesis using i(2) tmrs [OF True] by (simp add: lives_def tick_tmr_def)
    next
      case False
      then show ?thesis using i(1) post c by (simp add: s'_def)
    qed
    moreover have "distinct (map fst (tmr_view s'))"
      using c tick_view_distinct unfolding view by blast
    moreover have "p \<noteq> 255 \<and> n \<noteq> 0" if "(p, n) \<in> set (tmr_view s')" for p n
      using that c unfolding view tick_view_def by auto
    moreover have "length (filter (lives s) ?is) \<le> length ?T" using length_filter_le [of "lives s" ?is] len c by linarith
    ultimately show ?thesis unfolding tmr_core_def ids using c fr by (auto simp: s'_def)
  qed
  moreover have "p \<in> fst ` set (tmr_view s') \<longleftrightarrow> (\<exists>pr. get_proc (ptable s') p = Some pr \<and> timed pr)" for p
  proof -
    have "p \<in> fst ` set (tmr_view s') \<longleftrightarrow> p \<in> fst ` set (tmr_view s) \<and> p \<notin> due s"
      using c tick_view_keys [of "tmr_view s" p] unfolding view due_def by simp
    moreover have "\<not> timed (wake pr)" for pr by (simp add: timed_def wake_def)
    ultimately show ?thesis unfolding gp timed by (auto simp: wake_all_def)
  qed
  ultimately have "k_wf s'" using tok fr by (simp add: k_wf_q tmr_ok_def s'_def)
  then show ?thesis using eq view gp fr by (intro exI [of _ s']) (simp add: s'_def)
qed

end
