(* ===== verification/Kern_Ops.thy ===== *)
theory Kern_Ops
  imports Kern_Time
begin

text \<open>
  Blocking, unblocking, sleeping, the end of a system call and the timer interrupt keep the invariant
  of the kernel tables and never get stuck.
\<close>

section \<open>The operations keep the invariant\<close>

text \<open>
  Between system calls: the current process runs, and not in an interrupt.
\<close>

definition k_inv :: "kernel \<Rightarrow> bool" where
  "k_inv s \<longleftrightarrow> k_wf s \<and> (\<exists>pr. get_proc (ptable s) (current_pid s) = Some pr \<and> pr_state pr = PROC_RUN \<and> \<not> isrflag pr)"

lemma k_wf_cong:
  assumes "ptable s' = ptable s" "ready_q s' = ready_q s" "idle_task_pid s' = idle_task_pid s" "current_pid s' = current_pid s"
    and "sem_heap s' = sem_heap s" "mutex_heap s' = mutex_heap s" "soft_tmrs s' = soft_tmrs s" "active_tmrs s' = active_tmrs s"
    and "shadow_tmrs s' = shadow_tmrs s" "nactive s' = nactive s"
  shows "k_wf s' = k_wf s"
  using q_wf_cong [OF assms(1-6)] assms
  by (simp add: k_wf_q tmr_ok_def tmr_core_def tmr_view_def tmr_ids_def)

text \<open>A change of a table entry that neither state nor queues depend on.\<close>

lemma k_wf_entry:
  assumes "k_wf s" "get_proc (ptable s) p = Some pr" "wait_key (f pr) = wait_key pr" "pr_state (f pr) = pr_state pr"
  shows "\<exists>pt. upd_proc p f s = Some (s\<lparr>ptable := pt\<rparr>) \<and> k_wf (s\<lparr>ptable := pt\<rparr>) \<and> length pt = length (ptable s) \<and>
     get_proc pt = (get_proc (ptable s))(p \<mapsto> f pr)"
proof -
  have ok: "procs_ok s" "ready_ok s" "wait_ok s" "tmr_ok s" using assms(1) by (simp_all add: k_wf_def)
  obtain pt where pt: "upd_proc p f s = Some (s\<lparr>ptable := pt\<rparr>)" "length pt = length (ptable s)"
      "get_proc pt = (get_proc (ptable s))(p \<mapsto> f pr)"
    using upd_proc_eq [OF assms(2), of f] by blast
  let ?s = "s\<lparr>ptable := pt\<rparr>"
  have key: "map_option wait_key (get_proc pt x) = map_option wait_key (get_proc (ptable s) x)" for x
    using assms(2,3) by (simp add: pt(3))
  have gq: "get_queue r ?s = get_queue r s" for r by (rule get_queue_frame) simp_all
  have "wait_ok ?s" by (rule wait_ok_cong [OF _ _ gq ok(3)]) (use key pt(2) in simp_all)
  moreover have "tmr_ok ?s" by (rule tmr_ok_cong [OF _ _ _ _ _ _ ok(4)]) (use key pt(2) in simp_all)
  moreover have "proc_ok s p (f pr) = proc_ok s p pr"
    using assms(3,4) by (simp add: proc_ok_def wait_key_def)
  then have "procs_ok ?s"
    using ok(1) assms(2,3) pt(2) unfolding procs_ok_def by (auto simp: pt(3) proc_ok_def gq wait_key_def)
  moreover have "ready_count (get_proc pt) i j x = ready_count (get_proc (ptable s)) i j x" for i j x
    using assms(2-4) by (auto simp: ready_count_def pt(3) wait_key_def)
  then have "ready_ok ?s" using ok(2) pt(2) by (simp add: ready_ok_def)
  ultimately show ?thesis using pt by (auto simp: k_wf_def)
qed

text \<open>
  What rescheduling leaves alone: everything but states, ready queues and the current process. A process
  that is ready or runs still is one of the two.
\<close>

definition can_run :: "process_struct option \<Rightarrow> bool" where
  "can_run x \<longleftrightarrow> (case x of None \<Rightarrow> False | Some pr \<Rightarrow> pr_state pr = PROC_READY \<or> pr_state pr = PROC_RUN)"

lemma can_run_isr [simp]: "can_run (Some (pr\<lparr>isrflag := b\<rparr>)) = can_run (Some pr)"
  by (simp add: can_run_def)

definition sched_frame :: "kernel \<Rightarrow> kernel \<Rightarrow> bool" where
  "sched_frame s s' \<longleftrightarrow>
     idle_task_pid s' = idle_task_pid s \<and> soft_tmrs s' = soft_tmrs s \<and> active_tmrs s' = active_tmrs s \<and>
     shadow_tmrs s' = shadow_tmrs s \<and> nactive s' = nactive s \<and> kernel_ticks s' = kernel_ticks s \<and>
     systmr_khz s' = systmr_khz s \<and> systmr_interval s' = systmr_interval s \<and>
     sem_heap s' = sem_heap s \<and> sem_map s' = sem_map s \<and> mutex_heap s' = mutex_heap s \<and>
     (\<forall>p. map_option (\<lambda>pr. pr\<lparr>pr_state := PROC_NEW, isrflag := False\<rparr>) (get_proc (ptable s') p) =
        map_option (\<lambda>pr. pr\<lparr>pr_state := PROC_NEW, isrflag := False\<rparr>) (get_proc (ptable s) p)) \<and>
     (\<forall>p. map_option wait_key (get_proc (ptable s') p) = map_option wait_key (get_proc (ptable s) p)) \<and>
     (\<forall>p. can_run (get_proc (ptable s) p) \<longrightarrow> can_run (get_proc (ptable s') p))"

lemma scheduler_eq:
  assumes "k_wf s" "get_proc (ptable s) (current_pid s) = Some cur"
  shows "\<exists>same s' pr. scheduler s = Some (same, s') \<and> k_wf s' \<and> sched_frame s s' \<and> conts s' = conts s \<and>
     get_proc (ptable s') (current_pid s') = Some pr \<and> pr_state pr = PROC_RUN \<and>
     ctx_save_process s' = (if pr_state cur = PROC_DEAD \<or> isrflag cur then None else Some (current_pid s)) \<and>
     (current_pid s' = current_pid s \<longrightarrow> isrflag pr = isrflag cur) \<and>
     (same \<longrightarrow> current_pid s' = current_pid s) \<and> (waiting cur \<or> timed cur \<longrightarrow> \<not> same)"
proof -
  define s0 where "s0 = (if pr_state cur = PROC_DEAD then s\<lparr>ctx_save_process := None, prev_pid := 255\<rparr>
                   else if isrflag cur then s\<lparr>ctx_save_process := None, prev_pid := current_pid s\<rparr>
                   else s\<lparr>ctx_save_process := Some (current_pid s), prev_pid := current_pid s\<rparr>)"
  have sel: "ptable s0 = ptable s" "current_pid s0 = current_pid s" "idle_task_pid s0 = idle_task_pid s" by (simp_all add: s0_def)
  have wf0: "k_wf s0" using assms(1) k_wf_cong [of s0 s] by (simp add: s0_def)
  have cur0: "get_proc (ptable s0) (current_pid s0) = Some cur" using assms(2) sel by simp
  obtain nx qs pt prn where sp: "sched_prio s0 = Some (s0\<lparr>ready_q := qs, ptable := pt, current_pid := nx\<rparr>)"
    "k_wf (s0\<lparr>ready_q := qs, ptable := pt, current_pid := nx\<rparr>)"
    "pr_state cur \<noteq> PROC_RUN \<and> pr_state cur \<noteq> PROC_READY \<and> pr_state cur \<noteq> PROC_NEW \<and> current_pid s0 \<noteq> idle_task_pid s0 \<longrightarrow>
        nx \<noteq> current_pid s0"
    "((get_proc (ptable s0))(current_pid s0 \<mapsto> unrun cur)) nx = Some prn" "is_allocated prn"
    "get_proc pt = (get_proc (ptable s0))(current_pid s0 \<mapsto> unrun cur, nx \<mapsto> prn\<lparr>pr_state := PROC_RUN\<rparr>)"
    "\<forall>p. map_option wait_key (get_proc pt p) = map_option wait_key (get_proc (ptable s0) p)"
    by (rule sched_prio_wf [OF wf0 cur0])
  define s' where "s' = s0\<lparr>ready_q := qs, ptable := pt, current_pid := nx, did_resched := True, resched := False\<rparr>"
  have gn: "get_proc pt nx = Some (prn\<lparr>pr_state := PROC_RUN\<rparr>)" using sp(6) by simp
  have nx: "nx \<noteq> 255" using gn valid_not_255 [of pt nx] by simp
  have eq: "scheduler s = Some (prev_pid s0 = nx, s')"
    using assms(2) sp(1) nx unfolding scheduler_def Let_def s0_def [symmetric] by (simp add: s'_def flip: s0_def)
  have wf: "k_wf s'" using sp(2) k_wf_cong [of s' "s0\<lparr>ready_q := qs, ptable := pt, current_pid := nx\<rparr>"] by (simp add: s'_def)
  have "(\<lambda>pr. pr\<lparr>pr_state := PROC_NEW, isrflag := False\<rparr>) (unrun cur) = cur\<lparr>pr_state := PROC_NEW, isrflag := False\<rparr>"
    by (simp add: unrun_def)
  then have "map_option (\<lambda>pr. pr\<lparr>pr_state := PROC_NEW, isrflag := False\<rparr>) (get_proc pt p) =
      map_option (\<lambda>pr. pr\<lparr>pr_state := PROC_NEW, isrflag := False\<rparr>) (get_proc (ptable s) p)" for p
    using sp(4) assms(2) unfolding sp(6) sel by (auto split: if_splits)
  moreover have "can_run (get_proc (ptable s) p) \<longrightarrow> can_run (get_proc pt p)" for p
    using assms(2) unfolding sp(6) sel by (simp add: can_run_def unrun_def)
  ultimately have fr: "sched_frame s s'" using sp(7) unfolding sched_frame_def sel by (simp add: s'_def) (simp add: s0_def)
  have ctx: "ctx_save_process s' = (if pr_state cur = PROC_DEAD \<or> isrflag cur then None else Some (current_pid s))"
    "prev_pid s0 = (if pr_state cur = PROC_DEAD then 255 else current_pid s)" "conts s' = conts s" "current_pid s' = nx"
    by (simp_all add: s'_def s0_def)
  have "current_pid s \<noteq> idle_task_pid s" if "waiting cur \<or> timed cur"
    using that assms procs_okD [of s "current_pid s" cur] by (auto simp: k_wf_def proc_ok_def)
  then have "prev_pid s0 \<noteq> nx" if "waiting cur \<or> timed cur"
    using that sp(3) ctx(2) unfolding sel by (auto simp: waiting_def timed_def)
  moreover have "prev_pid s0 = nx \<longrightarrow> nx = current_pid s" using ctx(2) nx by auto
  moreover have "nx = current_pid s \<longrightarrow> isrflag prn = isrflag cur" using sp(4) sel by (auto simp: unrun_def split: if_splits)
  ultimately show ?thesis
    using eq wf fr ctx gn by (intro exI [of _ "prev_pid s0 = nx"] exI [of _ s'] exI [of _ "prn\<lparr>pr_state := PROC_RUN\<rparr>"])
      (simp add: s'_def)
qed

lemma pit_reset_sel [simp]:
  "ready_q (pit_reset s) = ready_q s" "ptable (pit_reset s) = ptable s" "current_pid (pit_reset s) = current_pid s"
  "idle_task_pid (pit_reset s) = idle_task_pid s" "resched (pit_reset s) = resched s" "soft_tmrs (pit_reset s) = soft_tmrs s"
  "active_tmrs (pit_reset s) = active_tmrs s" "shadow_tmrs (pit_reset s) = shadow_tmrs s" "nactive (pit_reset s) = nactive s"
  "kernel_ticks (pit_reset s) = kernel_ticks s" "systmr_khz (pit_reset s) = systmr_khz s" "systmr_interval (pit_reset s) = systmr_interval s"
  "sem_heap (pit_reset s) = sem_heap s" "sem_map (pit_reset s) = sem_map s" "mutex_heap (pit_reset s) = mutex_heap s"
  "conts (pit_reset s) = conts s" "ctx_save_process (pit_reset s) = ctx_save_process s" "prev_pid (pit_reset s) = prev_pid s"
  by (simp_all add: pit_reset_def)

lemma restore_context_eq:
  assumes "k_wf s" "get_proc (ptable s) (current_pid s) = Some pr" "pr_state pr = PROC_RUN"
  shows "\<exists>pt. restore_context s = Some ((pit_reset s)\<lparr>ptable := pt\<rparr>) \<and> k_inv ((pit_reset s)\<lparr>ptable := pt\<rparr>) \<and>
     get_proc pt = (get_proc (ptable s))(current_pid s \<mapsto> pr\<lparr>isrflag := False\<rparr>)"
proof -
  have "wait_key (pr\<lparr>isrflag := False\<rparr>) = wait_key pr" by (simp add: wait_key_def waiting_def timed_def)
  moreover have "k_wf (pit_reset s)" using assms(1) k_wf_cong [of "pit_reset s" s] by simp
  ultimately show ?thesis
    using k_wf_entry [of "pit_reset s" "current_pid s" pr "\<lambda>pr. pr\<lparr>isrflag := False\<rparr>"] assms(2,3)
    by (auto simp: restore_context_def k_inv_def)
qed

lemma suspend_eq:
  assumes "k_wf s" "get_proc (ptable s) (current_pid s) = Some cur" "waiting cur \<or> timed cur" "\<not> isrflag cur"
  shows "\<exists>s'. suspend k s = Some s' \<and> k_inv s' \<and> sched_frame s s' \<and> conts s' = (conts s)(current_pid s := Some k)"
proof -
  obtain same s1 pr where s1: "scheduler s = Some (same, s1)" "k_wf s1" "sched_frame s s1" "conts s1 = conts s"
      "get_proc (ptable s1) (current_pid s1) = Some pr" "pr_state pr = PROC_RUN"
      "ctx_save_process s1 = (if pr_state cur = PROC_DEAD \<or> isrflag cur then None else Some (current_pid s))"
      "waiting cur \<or> timed cur \<longrightarrow> \<not> same"
    using scheduler_eq [OF assms(1,2)] by blast
  have ctx: "ctx_save_process s1 = Some (current_pid s)" using s1(7) assms(3,4) by (auto simp: waiting_def timed_def)
  define s2 where "s2 = s1\<lparr>conts := (conts s1)(current_pid s := Some k)\<rparr>"
  have "k_wf s2" using s1(2) k_wf_cong [of s2 s1] by (simp add: s2_def)
  moreover have "get_proc (ptable s2) (current_pid s2) = Some pr" using s1(5) by (simp add: s2_def)
  ultimately obtain pt where pt: "restore_context s2 = Some ((pit_reset s2)\<lparr>ptable := pt\<rparr>)" "k_inv ((pit_reset s2)\<lparr>ptable := pt\<rparr>)"
      "get_proc pt = (get_proc (ptable s2))(current_pid s2 \<mapsto> pr\<lparr>isrflag := False\<rparr>)"
    using restore_context_eq [OF _ _ s1(6), of s2] by blast
  have "suspend k s = Some ((pit_reset s2)\<lparr>ptable := pt\<rparr>)" using s1(1,8) assms(3) ctx pt(1) by (simp add: suspend_def s2_def)
  moreover have "map_option (\<lambda>pr. pr\<lparr>pr_state := PROC_NEW, isrflag := False\<rparr>) (get_proc pt p) =
      map_option (\<lambda>pr. pr\<lparr>pr_state := PROC_NEW, isrflag := False\<rparr>) (get_proc (ptable s1) p)"
    "map_option wait_key (get_proc pt p) = map_option wait_key (get_proc (ptable s1) p)"
    "can_run (get_proc pt p) = can_run (get_proc (ptable s1) p)" for p
    using s1(5) by (simp_all add: pt(3) s2_def wait_key_def waiting_def timed_def)
  then have "sched_frame s ((pit_reset s2)\<lparr>ptable := pt\<rparr>)" using s1(3) unfolding sched_frame_def by (simp add: s2_def)
  ultimately show ?thesis using pt(2) s1(4) by (intro exI [of _ "(pit_reset s2)\<lparr>ptable := pt\<rparr>"]) (simp add: s2_def)
qed

text \<open>How the operations change what the table says of the waiting processes.\<close>

definition wview :: "kernel \<Rightarrow> pid \<Rightarrow> wait_info option" where
  "wview s p = map_option wait_key (get_proc (ptable s) p)"

definition moved :: "qref option \<Rightarrow> bool \<Rightarrow> wait_info \<Rightarrow> wait_info" where
  "moved b t = (\<lambda>(i, pri, al, _). (i, pri, al, b, b \<noteq> None, t))"

lemma sched_frame_wview: "sched_frame s s' \<Longrightarrow> wview s' = wview s"
  by (simp add: sched_frame_def wview_def fun_eq_iff)

text \<open>Blocking the current process.\<close>

lemma k_inv_cur:
  assumes "k_inv s"
  obtains cur where "k_wf s" "get_proc (ptable s) (current_pid s) = Some cur" "pr_state cur = PROC_RUN" "\<not> isrflag cur"
    "is_allocated cur" "blockq cur = None"
proof -
  obtain cur where c: "k_wf s" "get_proc (ptable s) (current_pid s) = Some cur" "pr_state cur = PROC_RUN" "\<not> isrflag cur"
    using assms by (auto simp: k_inv_def)
  have "is_allocated cur \<and> blockq cur = None"
    using c procs_okD [of s "current_pid s" cur] by (auto simp: k_wf_def proc_ok_def waiting_def)
  then show thesis using that c by blast
qed

definition block_frame :: "kernel \<Rightarrow> kernel \<Rightarrow> bool" where
  "block_frame s s' \<longleftrightarrow>
     idle_task_pid s' = idle_task_pid s \<and> soft_tmrs s' = soft_tmrs s \<and> active_tmrs s' = active_tmrs s \<and>
     shadow_tmrs s' = shadow_tmrs s \<and> nactive s' = nactive s \<and> systmr_khz s' = systmr_khz s \<and>
     systmr_interval s' = systmr_interval s \<and> sem_map s' = sem_map s \<and>
     map sem_rest (sem_heap s') = map sem_rest (sem_heap s) \<and> map mutex_rest (mutex_heap s') = map mutex_rest (mutex_heap s)"

lemma process_block_eq:
  assumes "q_wf s" "get_proc (ptable s) (current_pid s) = Some cur" "pr_state cur = PROC_RUN" "\<not> isrflag cur"
    and "current_pid s \<noteq> idle_task_pid s" "get_queue r s = Some q" "st = PROC_WAIT \<or> st = PROC_TIMED_WAIT"
    and "tmr_core s" "length (ptable s) \<le> length (soft_tmrs s)"
    and "\<And>p. p \<in> fst ` set (tmr_view s) \<longleftrightarrow>
      (\<exists>pr. get_proc (ptable s) p = Some pr \<and> timed pr) \<or> p = current_pid s \<and> st = PROC_TIMED_WAIT"
  shows "\<exists>s'. process_block r st k s = Some s' \<and> k_inv s' \<and> block_frame s s' \<and> conts s' = (conts s)(current_pid s := Some k) \<and>
     wview s' = (wview s)(current_pid s \<mapsto> moved (Some r) (st = PROC_TIMED_WAIT) (wait_key cur))"
proof -
  let ?c = "current_pid s"
  have al: "is_allocated cur"
    using assms(1-3) procs_okD [of s ?c cur] by (auto simp: q_wf_def proc_ok_def)
  have out: "q_wf_out ?c s" by (rule q_wf_out_start [OF assms(1,2) al assms(5)]) (simp add: assms(3))
  define f where "f = (\<lambda>pr :: process_struct. pr\<lparr>blockq := Some r, pr_state := st\<rparr>)"
  have f: "pr_state (f cur) = PROC_WAIT \<or> pr_state (f cur) = PROC_TIMED_WAIT" "blockq (f cur) = Some r"
      "priority (f cur) = priority cur" "is_allocated (f cur)" using assms(7) al by (simp_all add: f_def)
  obtain q' sh mh pt where e: "prio_penq (ptable s) q ?c = Some q'" "put_queue r q' s = Some (s\<lparr>sem_heap := sh, mutex_heap := mh\<rparr>)"
     "upd_proc ?c f (s\<lparr>sem_heap := sh, mutex_heap := mh\<rparr>) = Some (s\<lparr>sem_heap := sh, mutex_heap := mh, ptable := pt\<rparr>)"
     "get_proc pt = (get_proc (ptable s))(?c \<mapsto> f cur)" "length pt = length (ptable s)"
     "q_wf (s\<lparr>sem_heap := sh, mutex_heap := mh, ptable := pt\<rparr>)"
     "map sem_rest sh = map sem_rest (sem_heap s)" "map mutex_rest mh = map mutex_rest (mutex_heap s)"
    using q_wf_enter [where f = f, OF out assms(6,2) f] by blast
  define s1 where "s1 = s\<lparr>sem_heap := sh, mutex_heap := mh, ptable := pt\<rparr>"
  have tv: "tmr_view s1 = tmr_view s" "tmr_core s1 = tmr_core s" by (simp_all add: s1_def tmr_view_def tmr_ids_def tmr_core_def)
  have "\<not> timed cur" using assms(3) by (simp add: timed_def)
  moreover have "timed (f cur) \<longleftrightarrow> st = PROC_TIMED_WAIT" using al assms(7) by (auto simp: timed_def f_def)
  ultimately have "p \<in> fst ` set (tmr_view s) \<longleftrightarrow> (\<exists>pr. get_proc pt p = Some pr \<and> timed pr)" for p
    using assms(2,10) by (cases "p = ?c") (simp_all add: e(4))
  then have "tmr_ok s1" unfolding tmr_ok_def tv using assms(8,9) e(5) by (simp add: s1_def)
  then have wf: "k_wf s1" using e(6) by (simp add: k_wf_q s1_def)
  have cur1: "get_proc (ptable s1) (current_pid s1) = Some (f cur)" by (simp add: s1_def e(4))
  have "waiting (f cur)" "\<not> isrflag (f cur)" using f(1,4) assms(4) by (auto simp: waiting_def f_def)
  then obtain s' where s': "suspend k s1 = Some s'" "k_inv s'" "sched_frame s1 s'" "conts s' = (conts s1)(current_pid s1 := Some k)"
    using suspend_eq [OF wf cur1] by blast
  have "process_block r st k s = Some s'"
    using assms(6) e(1-3) s'(1) by (simp add: process_block_def f_def s1_def)
  moreover have "block_frame s s'" using s'(3) e(7,8) by (simp add: block_frame_def sched_frame_def s1_def)
  moreover have "wait_key (f cur) = moved (Some r) (st = PROC_TIMED_WAIT) (wait_key cur)"
    using al assms(7) by (auto simp: wait_key_def moved_def f_def waiting_def timed_def)
  then have "wview s1 = (wview s)(?c \<mapsto> moved (Some r) (st = PROC_TIMED_WAIT) (wait_key cur))"
    by (auto simp: wview_def fun_eq_iff s1_def e(4))
  ultimately show ?thesis
    using s'(2,4) sched_frame_wview [OF s'(3)] by (intro exI [of _ s']) (simp add: s1_def)
qed

text \<open>Unblocking the most urgent process of a wait queue.\<close>

lemma tmr_frame:
  assumes "soft_tmrs s' = soft_tmrs s" "active_tmrs s' = active_tmrs s" "shadow_tmrs s' = shadow_tmrs s" "nactive s' = nactive s"
  shows "tmr_view s' = tmr_view s" "tmr_core s' = tmr_core s"
  using assms by (simp_all add: tmr_view_def tmr_ids_def tmr_core_def)

lemma q_wf_out_cong:
  assumes "ptable s' = ptable s" "ready_q s' = ready_q s" "idle_task_pid s' = idle_task_pid s" "current_pid s' = current_pid s"
    and "sem_heap s' = sem_heap s" "mutex_heap s' = mutex_heap s"
  shows "q_wf_out p s' = q_wf_out p s"
proof -
  have "get_queue r s' = get_queue r s" for r using assms(5,6) by (rule get_queue_frame)
  then show ?thesis using assms(1-4) by (simp add: q_wf_out_def proc_ok_def)
qed

lemma unblock_timer:
  assumes "q_wf_out p s" "get_proc (ptable s) p = Some pr" "is_allocated pr" "tmr_core s"
    and "pr_state pr \<noteq> PROC_TIMED_WAIT \<Longrightarrow> p \<notin> fst ` set (tmr_view s)"
  shows "\<exists>pt ts act sh n ms. (if pr_state pr = PROC_TIMED_WAIT then
        do { (ms, s) \<leftarrow> remove_tmr p s; upd_proc p (\<lambda>pr. pr\<lparr>remain := ms\<rparr>) s }
      else Some s) = Some (s\<lparr>soft_tmrs := ts, active_tmrs := act, shadow_tmrs := sh, nactive := n, ptable := pt\<rparr>) \<and>
     q_wf_out p (s\<lparr>soft_tmrs := ts, active_tmrs := act, shadow_tmrs := sh, nactive := n, ptable := pt\<rparr>) \<and>
     length pt = length (ptable s) \<and> length ts = length (soft_tmrs s) \<and>
     get_proc pt = (get_proc (ptable s))(p \<mapsto> pr\<lparr>remain := ms\<rparr>) \<and>
     tmr_core (s\<lparr>soft_tmrs := ts, active_tmrs := act, shadow_tmrs := sh, nactive := n, ptable := pt\<rparr>) \<and>
     tmr_view (s\<lparr>soft_tmrs := ts, active_tmrs := act, shadow_tmrs := sh, nactive := n, ptable := pt\<rparr>) =
       filter (\<lambda>(q, _). q \<noteq> p) (tmr_view s)"
proof (cases "pr_state pr = PROC_TIMED_WAIT")
  case False
  then have "filter (\<lambda>(q, _). q \<noteq> p) (tmr_view s) = tmr_view s" using assms(5) by (force simp: filter_id_conv)
  then show ?thesis
    using False assms(1,2,4)
    by (intro exI [of _ "ptable s"] exI [of _ "soft_tmrs s"] exI [of _ "active_tmrs s"] exI [of _ "shadow_tmrs s"]
        exI [of _ "nactive s"] exI [of _ "remain pr"]) (simp add: fun_upd_idem)
next
  case True
  have "p \<noteq> 255" using assms(2) valid_not_255 [of "ptable s" p] by simp
  from remove_tmr_eq [OF assms(4) this] obtain ms ts act sh n where
    r: "remove_tmr p s = Some (ms, s\<lparr>soft_tmrs := ts, active_tmrs := act, shadow_tmrs := sh, nactive := n\<rparr>)"
      "length ts = length (soft_tmrs s)"
      "tmr_core (s\<lparr>soft_tmrs := ts, active_tmrs := act, shadow_tmrs := sh, nactive := n\<rparr>)"
      "tmr_view (s\<lparr>soft_tmrs := ts, active_tmrs := act, shadow_tmrs := sh, nactive := n\<rparr>) = filter (\<lambda>(q, _). q \<noteq> p) (tmr_view s)"
    by blast
  define s1 where "s1 = s\<lparr>soft_tmrs := ts, active_tmrs := act, shadow_tmrs := sh, nactive := n\<rparr>"
  have "q_wf_out p s1" using assms(1) q_wf_out_cong [of s1 s p] by (simp add: s1_def)
  moreover have "get_proc (ptable s1) p = Some pr" using assms(2) by (simp add: s1_def)
  ultimately obtain pt where pt: "upd_proc p (\<lambda>pr. pr\<lparr>remain := ms\<rparr>) s1 = Some (s1\<lparr>ptable := pt\<rparr>)" "length pt = length (ptable s1)"
      "get_proc pt = (get_proc (ptable s1))(p \<mapsto> pr\<lparr>remain := ms\<rparr>)" "q_wf_out p (s1\<lparr>ptable := pt\<rparr>)"
    using q_wf_out_upd [of p s1 pr "\<lambda>pr. pr\<lparr>remain := ms\<rparr>"] assms(3) by auto
  have "tmr_view (s1\<lparr>ptable := pt\<rparr>) = tmr_view s1" "tmr_core (s1\<lparr>ptable := pt\<rparr>) = tmr_core s1" by (rule tmr_frame; simp)+
  then show ?thesis
    using True r pt unfolding s1_def
    by (intro exI [of _ pt] exI [of _ ts] exI [of _ act] exI [of _ sh] exI [of _ n] exI [of _ ms]) simp
qed

lemma tmr_ok_removed:
  assumes "tmr_ok s" "tmr_core s'" "get_proc (ptable s') = (get_proc (ptable s))(p \<mapsto> pr')" "\<not> timed pr'"
    "tmr_view s' = filter (\<lambda>(q, _). q \<noteq> p) (tmr_view s)"
    "length (ptable s') = length (ptable s)" "length (soft_tmrs s') = length (soft_tmrs s)"
  shows "tmr_ok s'"
proof -
  have "x \<in> fst ` set (tmr_view s') \<longleftrightarrow> (\<exists>pr. get_proc (ptable s') x = Some pr \<and> timed pr)" for x
  proof -
    have "x \<in> fst ` set (tmr_view s') \<longleftrightarrow> x \<noteq> p \<and> x \<in> fst ` set (tmr_view s)" unfolding assms(5) by force
    then show ?thesis using assms(1,4) unfolding assms(3) tmr_ok_def by auto
  qed
  then show ?thesis using assms(1,2,6,7) by (simp add: tmr_ok_def)
qed

text \<open>
  Taking a process out of its wait queue: the queue's own part of \<open>process_unblock\<close>, which leaves
  the process in no queue.
\<close>

lemma unblock_take:
  assumes "q_wf s" "get_queue r s = Some q" "pq_pids q \<noteq> []"
  obtains p q' pr sh mh where "prio_pdeq (ptable s) q = Some (p, q')" "p \<in> set (pq_pids q)"
    "\<forall>y \<in> set (pq_pids q). prio_of (ptable s) p \<le> prio_of (ptable s) y"
    "get_proc (ptable s) p = Some pr" "waiting pr" "is_allocated pr" "p \<noteq> 255"
    "put_queue r q' s = Some (s\<lparr>sem_heap := sh, mutex_heap := mh\<rparr>)"
    "q_wf_out p (s\<lparr>sem_heap := sh, mutex_heap := mh\<rparr>)"
    "map sem_rest sh = map sem_rest (sem_heap s)" "map mutex_rest mh = map mutex_rest (mutex_heap s)"
proof -
  have pq: "pq_ok (ptable s) q" using assms(1,2) by (simp add: q_wf_def wait_ok_def)
  define p where "p = q_items q ! 0"
  obtain q' where q': "prio_pdeq (ptable s) q = Some (p, q')" "pq_ok (ptable s) q'" "max_items q' = max_items q"
      "p \<in> set (pq_pids q)" "set (pq_pids q') = set (pq_pids q) - {p}"
      "\<forall>y \<in> set (pq_pids q). prio_of (ptable s) p \<le> prio_of (ptable s) y"
    using prio_pdeq_ok [OF pq assms(3)] unfolding p_def by blast
  obtain pr where pr: "get_proc (ptable s) p = Some pr" "waiting pr" "blockq pr = Some r"
    using assms(1,2) q'(4) unfolding q_wf_def wait_ok_def by blast
  moreover have "is_allocated pr" "p \<noteq> 255"
    using pr valid_not_255 [of "ptable s" p] by (auto simp: waiting_def)
  ultimately show ?thesis
    using that q'(1,4,6) q_wf_leave [OF assms(1,2) pr q'(2,3,5)] by blast
qed

lemma process_unblock_eq:
  assumes "k_inv s" "get_queue r s = Some q" "pq_pids q \<noteq> []"
  shows "\<exists>p s'. process_unblock r s = Some s' \<and> k_inv s' \<and> p \<in> set (pq_pids q) \<and>
     (\<forall>x \<in> set (pq_pids q). prio_of (ptable s) p \<le> prio_of (ptable s) x) \<and> resched s' \<and> current_pid s' = current_pid s \<and>
     idle_task_pid s' = idle_task_pid s \<and> conts s' = conts s \<and> sem_map s' = sem_map s \<and>
     length (ptable s') = length (ptable s) \<and>
     (\<exists>pr pr'. get_proc (ptable s) p = Some pr \<and> get_proc (ptable s') = (get_proc (ptable s))(p \<mapsto> pr') \<and>
        pr_state pr' = PROC_READY \<and> is_allocated pr' \<and> timeout pr' = timeout pr \<and>
        wview s' = (wview s)(p \<mapsto> moved None False (wait_key pr))) \<and>
     map sem_rest (sem_heap s') = map sem_rest (sem_heap s) \<and> map mutex_rest (mutex_heap s') = map mutex_rest (mutex_heap s) \<and>
     tmr_view s' = filter (\<lambda>(q, _). q \<noteq> p) (tmr_view s)"
proof -
  obtain cur where cur: "k_wf s" "get_proc (ptable s) (current_pid s) = Some cur" "pr_state cur = PROC_RUN" "\<not> isrflag cur"
      "is_allocated cur" "blockq cur = None"
    by (rule k_inv_cur [OF assms(1)])
  have wf: "q_wf s" "tmr_ok s" using cur(1) by (simp_all add: k_wf_q)
  obtain p q' pr sh mh where q': "prio_pdeq (ptable s) q = Some (p, q')" "p \<in> set (pq_pids q)"
      "\<forall>y \<in> set (pq_pids q). prio_of (ptable s) p \<le> prio_of (ptable s) y"
    and pr: "get_proc (ptable s) p = Some pr" "waiting pr" "is_allocated pr" "p \<noteq> 255"
    and l: "put_queue r q' s = Some (s\<lparr>sem_heap := sh, mutex_heap := mh\<rparr>)"
      "q_wf_out p (s\<lparr>sem_heap := sh, mutex_heap := mh\<rparr>)"
      "map sem_rest sh = map sem_rest (sem_heap s)" "map mutex_rest mh = map mutex_rest (mutex_heap s)"
    by (rule unblock_take [OF wf(1) assms(2,3)])
  have p: "p \<noteq> 255" "p \<noteq> current_pid s" "is_allocated pr" using pr cur(2,3) by (auto simp: waiting_def)
  define s1 where "s1 = s\<lparr>sem_heap := sh, mutex_heap := mh\<rparr>"
  have s1: "ptable s1 = ptable s" "tmr_view s1 = tmr_view s" "tmr_core s1 = tmr_core s"
    using tmr_frame [of s1 s] by (simp_all add: s1_def)
  have core: "tmr_core s" "length (ptable s) \<le> length (soft_tmrs s)"
      "p \<in> fst ` set (tmr_view s) \<longleftrightarrow> (\<exists>pr. get_proc (ptable s) p = Some pr \<and> timed pr)" for p
    using wf(2) by (simp_all add: tmr_ok_def)
  have nt: "p \<notin> fst ` set (tmr_view s1)" if "pr_state pr \<noteq> PROC_TIMED_WAIT"
    using that core(3) [of p] pr(1,2) s1(2) by (auto simp: waiting_def timed_def)
  have out1: "q_wf_out p s1" "get_proc (ptable s1) p = Some pr" "tmr_core s1" using l(2) pr(1) core(1) s1 by (simp_all add: s1_def)
  obtain pt2 ts act shd n ms where u: "(if pr_state pr = PROC_TIMED_WAIT then
        do { (ms, s) \<leftarrow> remove_tmr p s1; upd_proc p (\<lambda>pr. pr\<lparr>remain := ms\<rparr>) s }
      else Some s1) = Some (s1\<lparr>soft_tmrs := ts, active_tmrs := act, shadow_tmrs := shd, nactive := n, ptable := pt2\<rparr>)"
     "q_wf_out p (s1\<lparr>soft_tmrs := ts, active_tmrs := act, shadow_tmrs := shd, nactive := n, ptable := pt2\<rparr>)"
     "length pt2 = length (ptable s1)" "length ts = length (soft_tmrs s1)"
     "get_proc pt2 = (get_proc (ptable s1))(p \<mapsto> pr\<lparr>remain := ms\<rparr>)"
     "tmr_core (s1\<lparr>soft_tmrs := ts, active_tmrs := act, shadow_tmrs := shd, nactive := n, ptable := pt2\<rparr>)"
     "tmr_view (s1\<lparr>soft_tmrs := ts, active_tmrs := act, shadow_tmrs := shd, nactive := n, ptable := pt2\<rparr>) =
       filter (\<lambda>(q, _). q \<noteq> p) (tmr_view s1)"
    using unblock_timer [OF out1(1,2) p(3) out1(3) nt] by blast
  define s2 where "s2 = s1\<lparr>soft_tmrs := ts, active_tmrs := act, shadow_tmrs := shd, nactive := n, ptable := pt2\<rparr>"
  have gp2: "get_proc (ptable s2) p = Some (pr\<lparr>remain := ms\<rparr>)" using u(5) by (simp add: s2_def)
  have out2: "q_wf_out p s2" using u(2) by (simp add: s2_def)
  define f where "f = (\<lambda>pr :: process_struct. pr\<lparr>pr_state := PROC_READY, blockq := None\<rparr>)"
  define pr3 where "pr3 = f (pr\<lparr>remain := ms\<rparr>)"
  from q_wf_out_upd [where f = f, OF out2 gp2] p(3)
  obtain pt3 where pt3: "upd_proc p f s2 = Some (s2\<lparr>ptable := pt3\<rparr>)" "length pt3 = length (ptable s2)"
      "get_proc pt3 = (get_proc (ptable s2))(p \<mapsto> pr3)" "q_wf_out p (s2\<lparr>ptable := pt3\<rparr>)"
    by (auto simp: f_def pr3_def)
  have gp3: "get_proc (ptable (s2\<lparr>ptable := pt3\<rparr>)) p = Some pr3" using pt3(3) by simp
  obtain qs where qs: "enq_ready p (s2\<lparr>ptable := pt3\<rparr>) = Some (s2\<lparr>ptable := pt3, ready_q := qs\<rparr>)"
      "q_wf (s2\<lparr>ptable := pt3, ready_q := qs\<rparr>)"
    using q_wf_out_ready [OF pt3(4) gp3] by (auto simp: pr3_def f_def)
  define s' where "s' = s2\<lparr>ptable := pt3, ready_q := qs, resched := True\<rparr>"
  have eq: "process_unblock r s = Some s'"
  proof -
    have s12: "get_proc (ptable s1) p = Some pr" by (rule out1(2))
    show ?thesis
      unfolding process_unblock_def assms(2) Option.bind.bind_lunit q'(1) case_prod_conv l(1) [folded s1_def] s12 u(1) [folded s2_def]
        if_not_P [OF p(1)] pt3(1) [unfolded f_def] qs(1) s'_def by simp
  qed
  have gp: "get_proc (ptable s') = (get_proc (ptable s))(p \<mapsto> pr3)" using pt3(3) u(5) by (simp add: s'_def s2_def s1(1))
  have tv: "tmr_view s' = filter (\<lambda>(q, _). q \<noteq> p) (tmr_view s)" "tmr_core s'"
    using tmr_frame [of s' s2] u(6,7) s1(2) by (simp_all add: s'_def s2_def)
  have nt3: "\<not> timed pr3" by (simp add: pr3_def f_def timed_def)
  have "length (ptable s') = length (ptable s)" "length (soft_tmrs s') = length (soft_tmrs s)"
    using u(3,4) pt3(2) by (simp_all add: s'_def s2_def s1_def)
  then have "tmr_ok s'" using tmr_ok_removed [OF wf(2) tv(2) gp nt3 tv(1)] by simp
  moreover have "q_wf s'" using qs(2) by (simp add: s'_def)
  ultimately have "k_inv s'" using cur(2-4) p(2) by (simp add: k_inv_def k_wf_q gp) (simp add: s'_def s2_def s1_def)
  moreover have "wait_key pr3 = moved None False (wait_key pr)"
    by (simp add: wait_key_def moved_def pr3_def f_def waiting_def timed_def)
  then have "wview s' = (wview s)(p \<mapsto> moved None False (wait_key pr))" by (auto simp: wview_def fun_eq_iff gp)
  then have "\<exists>pr pr'. get_proc (ptable s) p = Some pr \<and> get_proc (ptable s') = (get_proc (ptable s))(p \<mapsto> pr') \<and>
        pr_state pr' = PROC_READY \<and> is_allocated pr' \<and> timeout pr' = timeout pr \<and>
        wview s' = (wview s)(p \<mapsto> moved None False (wait_key pr))"
    using pr(1) gp p(3) by (intro exI [of _ pr] exI [of _ pr3]) (simp add: pr3_def f_def)
  moreover have "resched s' \<and> current_pid s' = current_pid s \<and>
     idle_task_pid s' = idle_task_pid s \<and> conts s' = conts s \<and> sem_map s' = sem_map s \<and> length (ptable s') = length (ptable s) \<and>
     map sem_rest (sem_heap s') = map sem_rest (sem_heap s) \<and> map mutex_rest (mutex_heap s') = map mutex_rest (mutex_heap s)"
    using l(3,4) u(3) pt3(2) by (simp add: s'_def s2_def s1_def)
  ultimately show ?thesis using eq q'(2,3) tv(1) by (intro exI [of _ p] exI [of _ s']) simp
qed

text \<open>Sleeping, the end of a system call, the timer interrupt.\<close>

lemma tmr_room:
  assumes "tmr_ok s" "get_proc (ptable s) p = Some pr" "\<not> timed pr"
  shows "nactive s < length (soft_tmrs s)" "p \<notin> fst ` set (tmr_view s)" "p \<noteq> 255"
proof -
  have core: "tmr_core s" "length (ptable s) \<le> length (soft_tmrs s)"
      "x \<in> fst ` set (tmr_view s) \<longleftrightarrow> (\<exists>pr. get_proc (ptable s) x = Some pr \<and> timed pr)" for x
    using assms(1) by (simp_all add: tmr_ok_def)
  show nin: "p \<notin> fst ` set (tmr_view s)" using core(3) assms(2,3) by auto
  have "distinct (p # map fst (tmr_view s))" using core(1) nin by (simp add: tmr_core_def)
  moreover have "\<forall>x \<in> set (p # map fst (tmr_view s)). get_proc (ptable s) x \<noteq> None"
    using assms(2) core(3) by (auto simp del: image_iff)
  ultimately have "length (p # map fst (tmr_view s)) \<le> length (ptable s)" by (rule valid_pids_length)
  moreover have "length (tmr_view s) = nactive s" using core(1) by (simp add: tmr_view_def tmr_ids_def tmr_core_def)
  ultimately show "nactive s < length (soft_tmrs s)" using core(2) by simp
  show "p \<noteq> 255" using valid_not_255 [of "ptable s" p] assms(2) by simp
qed

lemma sys_sleep_eq:
  assumes "k_inv s" "current_pid s \<noteq> idle_task_pid s"
  shows "\<exists>s'. sys_sleep ms s = Some (Blocked, s') \<and> k_inv s' \<and> conts s' = (conts s)(current_pid s := Some K_sleep) \<and>
     idle_task_pid s' = idle_task_pid s \<and> sem_heap s' = sem_heap s \<and> mutex_heap s' = mutex_heap s \<and>
     tmr_view s' = tmr_view s @ [(current_pid s, if ms_to_ticks s ms = 0 then 1 else ms_to_ticks s ms)] \<and>
     (\<exists>cur. get_proc (ptable s) (current_pid s) = Some cur \<and>
        wview s' = (wview s)(current_pid s \<mapsto> moved None True (wait_key cur)))"
proof -
  let ?c = "current_pid s"
  obtain cur where cur: "k_wf s" "get_proc (ptable s) ?c = Some cur" "pr_state cur = PROC_RUN" "\<not> isrflag cur"
      "is_allocated cur" "blockq cur = None"
    by (rule k_inv_cur [OF assms(1)])
  have wf: "q_wf s" "tmr_ok s" using cur(1) by (simp_all add: k_wf_q)
  have core: "tmr_core s" "length (ptable s) \<le> length (soft_tmrs s)"
      "x \<in> fst ` set (tmr_view s) \<longleftrightarrow> (\<exists>pr. get_proc (ptable s) x = Some pr \<and> timed pr)" for x
    using wf(2) by (simp_all add: tmr_ok_def)
  have "\<not> timed cur" using cur(3) by (simp add: timed_def)
  note room = tmr_room [OF wf(2) cur(2) this]
  define ticks where "ticks = (if ms_to_ticks s ms = 0 then 1 else ms_to_ticks s ms)"
  obtain ts act where a: "add_tmr ?c ms s = Some (0, s\<lparr>soft_tmrs := ts, active_tmrs := act, nactive := nactive s + 1\<rparr>)"
     "length ts = length (soft_tmrs s)"
     "tmr_core (s\<lparr>soft_tmrs := ts, active_tmrs := act, nactive := nactive s + 1\<rparr>)"
     "tmr_view (s\<lparr>soft_tmrs := ts, active_tmrs := act, nactive := nactive s + 1\<rparr>) = tmr_view s @ [(?c, ticks)]"
    using add_tmr_eq [OF core(1) room(3,2,1) ticks_def] by blast
  define s1 where "s1 = s\<lparr>soft_tmrs := ts, active_tmrs := act, nactive := nactive s + 1\<rparr>"
  have s1: "q_wf s1" "get_proc (ptable s1) ?c = Some cur" "?c \<noteq> idle_task_pid s1"
    using wf(1) q_wf_cong [of s1 s] cur(2) assms(2) by (simp_all add: s1_def)
  have out: "q_wf_out ?c s1" by (rule q_wf_out_start [OF s1(1,2) cur(5) s1(3)]) (simp add: cur(3))
  from q_wf_out_upd [OF out s1(2), of "\<lambda>pr. pr\<lparr>pr_state := PROC_DELAY\<rparr>"] cur(5)
  obtain pt where pt: "upd_proc ?c (\<lambda>pr. pr\<lparr>pr_state := PROC_DELAY\<rparr>) s1 = Some (s1\<lparr>ptable := pt\<rparr>)" "length pt = length (ptable s)"
      "get_proc pt = (get_proc (ptable s))(?c \<mapsto> cur\<lparr>pr_state := PROC_DELAY\<rparr>)" "q_wf_out ?c (s1\<lparr>ptable := pt\<rparr>)"
    by (auto simp: s1_def)
  define s2 where "s2 = s1\<lparr>ptable := pt\<rparr>"
  have cur2: "get_proc (ptable s2) ?c = Some (cur\<lparr>pr_state := PROC_DELAY\<rparr>)" by (simp add: s2_def pt(3))
  have q2: "q_wf s2" using q_wf_out_delay [of ?c s2] pt(4) cur2 cur(6) by (simp add: s2_def)
  have tv: "tmr_view s2 = tmr_view s @ [(?c, ticks)]" "tmr_core s2"
    using tmr_frame [of s2 s1] a(3,4) by (simp_all add: s2_def s1_def)
  have "timed (cur\<lparr>pr_state := PROC_DELAY\<rparr>)" using cur(5) by (simp add: timed_def)
  then have "x \<in> fst ` set (tmr_view s2) \<longleftrightarrow> (\<exists>pr. get_proc (ptable s2) x = Some pr \<and> timed pr)" for x
    using core(3) [of x] unfolding tv by (simp add: s2_def pt(3))
  then have "tmr_ok s2" using tv(2) core(2) pt(2) a(2) by (simp add: tmr_ok_def s2_def s1_def)
  then have wf2: "k_wf s2" using q2 by (simp add: k_wf_q)
  have c2: "get_proc (ptable s2) (current_pid s2) = Some (cur\<lparr>pr_state := PROC_DELAY\<rparr>)"
      "waiting (cur\<lparr>pr_state := PROC_DELAY\<rparr>) \<or> timed (cur\<lparr>pr_state := PROC_DELAY\<rparr>)" "\<not> isrflag (cur\<lparr>pr_state := PROC_DELAY\<rparr>)"
    using cur2 cur(4,5) by (simp_all add: s2_def s1_def timed_def)
  obtain s' where s': "suspend K_sleep s2 = Some s'" "k_inv s'" "sched_frame s2 s'" "conts s' = (conts s2)(current_pid s2 := Some K_sleep)"
    using suspend_eq [OF wf2 c2] by blast
  have "sys_sleep ms s = Some (Blocked, s')"
    using a(1) pt(1) s'(1) by (simp add: sys_sleep_def s2_def s1_def)
  moreover have "tmr_view s' = tmr_view s2" using tmr_frame [of s' s2] s'(3) by (simp add: sched_frame_def)
  moreover have "wait_key (cur\<lparr>pr_state := PROC_DELAY\<rparr>) = moved None True (wait_key cur)"
    using cur(5,6) by (simp add: wait_key_def moved_def waiting_def timed_def)
  then have "wview s2 = (wview s)(?c \<mapsto> moved None True (wait_key cur))"
    by (auto simp: wview_def fun_eq_iff s2_def pt(3))
  ultimately show ?thesis
    using s' tv(1) cur(2) sched_frame_wview [OF s'(3)]
    by (intro exI [of _ s']) (simp add: sched_frame_def s2_def s1_def flip: ticks_def)
qed

lemma sys_exit_eq:
  assumes "k_inv s"
  shows "\<exists>s'. sys_exit s = Some s' \<and> k_inv s' \<and> sched_frame s s' \<and> conts s' = conts s"
proof (cases "resched s")
  case False
  then show ?thesis using assms by (simp add: sys_exit_def sched_frame_def)
next
  case True
  obtain cur where cur: "k_wf s" "get_proc (ptable s) (current_pid s) = Some cur" "\<not> isrflag cur"
    by (rule k_inv_cur [OF assms])
  obtain same s1 pr where s1: "scheduler s = Some (same, s1)" "k_wf s1" "sched_frame s s1" "conts s1 = conts s"
      "get_proc (ptable s1) (current_pid s1) = Some pr" "pr_state pr = PROC_RUN"
      "current_pid s1 = current_pid s \<longrightarrow> isrflag pr = isrflag cur" "same \<longrightarrow> current_pid s1 = current_pid s"
    using scheduler_eq [OF cur(1,2)] by blast
  show ?thesis
  proof (cases same)
    case same: True
    then have "k_inv s1" using s1 cur(3) by (simp add: k_inv_def)
    then show ?thesis using True same s1(1,3,4) by (simp add: sys_exit_def)
  next
    case False
    define s2 where "s2 = s1\<lparr>ctx_save_process := None\<rparr>"
    have "k_wf s2" "get_proc (ptable s2) (current_pid s2) = Some pr"
      using s1(2,5) k_wf_cong [of s2 s1] by (simp_all add: s2_def)
    from restore_context_eq [OF this s1(6)]
    obtain pt where pt: "restore_context s2 = Some ((pit_reset s2)\<lparr>ptable := pt\<rparr>)" "k_inv ((pit_reset s2)\<lparr>ptable := pt\<rparr>)"
        "get_proc pt = (get_proc (ptable s2))(current_pid s2 \<mapsto> pr\<lparr>isrflag := False\<rparr>)" by blast
    have "map_option (\<lambda>pr. pr\<lparr>pr_state := PROC_NEW, isrflag := False\<rparr>) (get_proc pt p) =
        map_option (\<lambda>pr. pr\<lparr>pr_state := PROC_NEW, isrflag := False\<rparr>) (get_proc (ptable s1) p)"
      "map_option wait_key (get_proc pt p) = map_option wait_key (get_proc (ptable s1) p)"
      "can_run (get_proc pt p) = can_run (get_proc (ptable s1) p)" for p
      using s1(5) by (simp_all add: pt(3) s2_def wait_key_def waiting_def timed_def)
    then have "sched_frame s ((pit_reset s2)\<lparr>ptable := pt\<rparr>)" using s1(3) unfolding sched_frame_def by (simp add: s2_def)
    then show ?thesis
      using True False s1(1,4) pt(1,2) by (intro exI [of _ "(pit_reset s2)\<lparr>ptable := pt\<rparr>"]) (simp add: sys_exit_def s2_def)
  qed
qed

text \<open>The fields that are the same after a timer interrupt, whichever process it continues.\<close>

lemma timer_int_handler_eq:
  assumes "k_wf s"
  shows "\<exists>s'. timer_int_handler s = Some s' \<and> k_wf s' \<and> tmr_view s' = tick_view (tmr_view s) \<and>
     get_proc (ptable s') = wake_all (due s) (get_proc (ptable s)) \<and> current_pid s' = current_pid s \<and>
     idle_task_pid s' = idle_task_pid s \<and> conts s' = conts s \<and> length (ready_q s') = length (ready_q s) \<and>
     map sem_rest (sem_heap s') = map sem_rest (sem_heap s) \<and> map mutex_rest (mutex_heap s') = map mutex_rest (mutex_heap s)"
proof -
  define s0 where "s0 = s\<lparr>kernel_ticks := kernel_ticks s + 1\<rparr>"
  have "k_wf s0" using assms k_wf_cong [of s0 s] by (simp add: s0_def)
  moreover have tv: "tmr_view s0 = tmr_view s" "due s0 = due s" using tmr_frame(1) [of s0 s] by (simp_all add: s0_def due_def)
  ultimately obtain s1 where s1: "soft_tmr_handler s0 = Some s1" "k_wf s1" "tmr_view s1 = tick_view (tmr_view s)"
      "get_proc (ptable s1) = wake_all (due s) (get_proc (ptable s0))" "current_pid s1 = current_pid s0"
      "idle_task_pid s1 = idle_task_pid s0" "conts s1 = conts s0" "length (ready_q s1) = length (ready_q s0)"
      "map sem_rest (sem_heap s1) = map sem_rest (sem_heap s0)" "map mutex_rest (mutex_heap s1) = map mutex_rest (mutex_heap s0)"
    using soft_tmr_handler_eq [of s0] by auto
  define s' where
    "s' = (if sched_partial_tick s1 then s1\<lparr>sched_partial_tick := False\<rparr> else s1\<lparr>resched := True\<rparr>)\<lparr>timer_need_refresh := True\<rparr>"
  have "timer_int_handler s = Some s'" using s1(1) by (simp add: timer_int_handler_def s'_def s0_def)
  moreover have "k_wf s'" using s1(2) k_wf_cong [of s' s1] by (simp add: s'_def)
  moreover have "tmr_view s' = tmr_view s1" using tmr_frame(1) [of s' s1] by (simp add: s'_def)
  ultimately show ?thesis using s1 by (intro exI [of _ s']) (simp add: s'_def s0_def)
qed

lemma wake_key: "wait_key (wake pr) = moved None False (wait_key pr)"
  by (simp add: wake_def wait_key_def moved_def waiting_def timed_def)

lemma timer_irq_eq:
  assumes "k_inv s"
  shows "\<exists>s'. timer_irq s = Some s' \<and> k_inv s' \<and> tmr_view s' = tick_view (tmr_view s) \<and>
     wview s' = (\<lambda>p. map_option (if p \<in> due s then moved None False else id) (wview s p)) \<and>
     (\<forall>p \<in> due s. get_proc (ptable s) p \<noteq> None \<longrightarrow> can_run (get_proc (ptable s') p)) \<and>
     idle_task_pid s' = idle_task_pid s \<and> conts s' = conts s \<and>
     map sem_rest (sem_heap s') = map sem_rest (sem_heap s) \<and> map mutex_rest (mutex_heap s') = map mutex_rest (mutex_heap s)"
proof -
  let ?c = "current_pid s"
  obtain cur where cur: "k_wf s" "get_proc (ptable s) ?c = Some cur" "pr_state cur = PROC_RUN"
    by (rule k_inv_cur [OF assms])
  define f where "f = (\<lambda>pr :: process_struct. pr\<lparr>isrflag := True\<rparr>)"
  have f: "wait_key (f pr) = wait_key pr" "pr_state (f pr) = pr_state pr" for pr by (simp_all add: f_def wait_key_def waiting_def timed_def)
  obtain pt where pt: "upd_proc ?c f s = Some (s\<lparr>ptable := pt\<rparr>)" "k_wf (s\<lparr>ptable := pt\<rparr>)"
      "get_proc pt = (get_proc (ptable s))(?c \<mapsto> f cur)"
    using k_wf_entry [where f = f, OF cur(1,2) f] by blast
  define s1 where "s1 = s\<lparr>ptable := pt\<rparr>"
  have tv: "tmr_view s1 = tmr_view s" "due s1 = due s" using tmr_frame(1) [of s1 s] by (simp_all add: s1_def due_def)
  have "k_wf s1" using pt(2) by (simp add: s1_def)
  from timer_int_handler_eq [OF this] obtain s2 where s2: "timer_int_handler s1 = Some s2" "k_wf s2"
      "tmr_view s2 = tick_view (tmr_view s)" "get_proc (ptable s2) = wake_all (due s) (get_proc (ptable s1))"
      "current_pid s2 = current_pid s1" "idle_task_pid s2 = idle_task_pid s1" "conts s2 = conts s1"
      "map sem_rest (sem_heap s2) = map sem_rest (sem_heap s1)" "map mutex_rest (mutex_heap s2) = map mutex_rest (mutex_heap s1)"
    unfolding tv by blast
  have "?c \<notin> due s"
  proof
    assume "?c \<in> due s"
    then have "?c \<in> fst ` set (tmr_view s)" unfolding due_def by force
    then show False using cur by (auto simp: k_wf_def tmr_ok_def timed_def)
  qed
  then have cur2: "get_proc (ptable s2) (current_pid s2) = Some (f cur)"
    using s2(4,5) pt(3) by (simp add: s1_def wake_all_def)
  have key2: "map_option wait_key (get_proc (ptable s2) p) = map_option wait_key (wake_all (due s) (get_proc (ptable s)) p)" for p
    using s2(4) pt(3) cur(2) f(1) \<open>?c \<notin> due s\<close> by (simp add: s1_def wake_all_def)
  obtain s3 pr where s3: "(if resched s2 then do { (_, s) \<leftarrow> scheduler s2; Some (s\<lparr>ctx_save_process := None\<rparr>) } else Some s2) = Some s3"
      "k_wf s3" "sched_frame s2 s3" "conts s3 = conts s2" "get_proc (ptable s3) (current_pid s3) = Some pr" "pr_state pr = PROC_RUN"
  proof (cases "resched s2")
    case True
    obtain same s1 pr where s1: "scheduler s2 = Some (same, s1)" "k_wf s1" "sched_frame s2 s1" "conts s1 = conts s2"
        "get_proc (ptable s1) (current_pid s1) = Some pr" "pr_state pr = PROC_RUN"
      using scheduler_eq [OF s2(2) cur2] by blast
    show thesis
      by (rule that [of "s1\<lparr>ctx_save_process := None\<rparr>" pr])
        (use True s1 k_wf_cong [of "s1\<lparr>ctx_save_process := None\<rparr>" s1] in \<open>simp_all add: sched_frame_def\<close>)
  next
    case False
    show thesis by (rule that [of s2 "f cur"]) (use False s2(2) cur2 cur(3) f(2) in \<open>simp_all add: sched_frame_def\<close>)
  qed
  obtain pt4 where pt4: "restore_context s3 = Some ((pit_reset s3)\<lparr>ptable := pt4\<rparr>)" "k_inv ((pit_reset s3)\<lparr>ptable := pt4\<rparr>)"
      "get_proc pt4 = (get_proc (ptable s3))(current_pid s3 \<mapsto> pr\<lparr>isrflag := False\<rparr>)"
    using restore_context_eq [OF s3(2,5,6)] by blast
  define s' where "s' = (pit_reset s3)\<lparr>ptable := pt4\<rparr>"
  have "timer_irq s = Some s'"
    using pt(1) s2(1) s3(1) pt4(1) by (simp add: timer_irq_def f_def s1_def s'_def)
  moreover have "tmr_view s' = tick_view (tmr_view s)"
    using tmr_frame(1) [of s' s2] s3(3) s2(3) by (simp add: s'_def sched_frame_def)
  moreover have "wview s' p = map_option (if p \<in> due s then moved None False else id) (wview s p)" for p
  proof -
    have "wview s' p = map_option wait_key (get_proc (ptable s3) p)"
      using s3(5) by (simp add: wview_def s'_def pt4(3) wait_key_def waiting_def timed_def)
    then have "wview s' p = map_option wait_key (wake_all (due s) (get_proc (ptable s)) p)"
      using s3(3) key2 [of p] by (simp add: sched_frame_def)
    then show ?thesis
      by (cases "get_proc (ptable s) p") (simp_all add: wake_all_def wview_def wake_key)
  qed
  moreover have "can_run (get_proc (ptable s') p)" if p: "p \<in> due s" "get_proc (ptable s) p \<noteq> None" for p
  proof -
    have "p \<noteq> ?c" using p(1) \<open>?c \<notin> due s\<close> by blast
    then have "can_run (get_proc (ptable s2) p)" using p s2(4) pt(3) by (auto simp: can_run_def wake_all_def wake_def s1_def)
    then have "can_run (get_proc (ptable s3) p)" using s3(3) by (simp add: sched_frame_def)
    then show ?thesis using s3(5) by (cases "p = current_pid s3") (simp_all add: s'_def pt4(3))
  qed
  moreover have "idle_task_pid s' = idle_task_pid s \<and> conts s' = conts s \<and> map sem_rest (sem_heap s') = map sem_rest (sem_heap s) \<and>
      map mutex_rest (mutex_heap s') = map mutex_rest (mutex_heap s)"
    using s2(6-9) s3(3,4) by (simp add: s'_def sched_frame_def s1_def)
  ultimately show ?thesis using pt4(2) by (intro exI [of _ s']) (simp add: s'_def fun_eq_iff)
qed

text \<open>A new process takes the first free table entry and is ready to run.\<close>

lemma pq_ok_members:
  assumes "\<And>p. p \<in> set (pq_pids q) \<Longrightarrow> map_option priority (get_proc pt' p) = map_option priority (get_proc pt p)" "pq_ok pt q"
  shows "pq_ok pt' q"
proof -
  note ok = assms(2) [unfolded pq_ok_def]
  have pp: "PROC_PRIO pt' p = PROC_PRIO pt p" if "p \<in> set (pq_pids q)" for p using assms(1) [OF that] by (simp add: PROC_PRIO_get)
  have mem: "q_items q ! i \<in> set (pq_pids q)" if "i < unat (item_count q)" for i
    using that ok by (auto simp: pq_pids_def in_set_conv_nth intro!: exI [of _ i])
  have "heap (prio_of pt') (q_items q) (unat (item_count q))"
    unfolding heap_def
  proof (intro allI impI)
    fix i
    assume i: "0 < i \<and> i < unat (item_count q)"
    then have "PARENT i < unat (item_count q)" using PARENT_less [of i] by simp
    then show "prio_of pt' (q_items q ! PARENT i) \<le> prio_of pt' (q_items q ! i)"
      using i ok pp [OF mem] pp [OF mem [of i]] by (simp add: heap_def prio_of_def)
  qed
  then show ?thesis using ok pp unfolding pq_ok_def valid_pid_def by auto
qed

lemma pid_of_nat: "i < 128 \<Longrightarrow> pid_index (of_nat i) = Some i"
proof -
  assume "i < 128"
  then have "sint (of_nat i :: u8) = int i" by (simp add: signed_of_nat signed_take_bit_int_eq_self)
  then show ?thesis by (simp add: pid_index_def)
qed

lemma new_out:
  assumes "k_wf s" "get_proc (ptable s) p = Some pr" "\<not> is_allocated pr" "p \<noteq> idle_task_pid s"
    and "s' = s\<lparr>ptable := pt\<rparr>" "length pt = length (ptable s) \<and> get_proc pt = (get_proc (ptable s))(p \<mapsto> pr')"
    and "is_allocated pr'" "0 \<le> priority pr'" "priority pr' < int (length (ready_q s))"
  shows "q_wf_out p s'"
proof -
  have ok: "procs_ok s" "ready_ok s" "wait_ok s" using assms(1) by (simp_all add: k_wf_def)
  have gp: "get_proc pt = (get_proc (ptable s))(p \<mapsto> pr')" and len: "length pt = length (ptable s)" using assms(6) by simp_all
  have gq: "get_queue r s' = get_queue r s" for r by (rule get_queue_frame) (simp_all add: assms(5))
  have po: "proc_ok s' x = proc_ok s x" for x by (simp add: fun_eq_iff proc_ok_def gq) (simp add: assms(5))
  have cnt: "count_list (q_list (ready_q s ! i)) x = (if x = p then 0 else ready_count (get_proc pt) (idle_task_pid s) i x)"
    if "i < length (ready_q s)" for i x
    using ready_ok_count [OF ok(2) that, of x] assms(2,3) by (simp add: ready_count_def gp)
  have wt: "pq_ok pt q \<and> length pt \<le> unat (max_items q) \<and>
      (\<forall>x. x \<in> set (pq_pids q) \<longleftrightarrow> x \<noteq> p \<and> (\<exists>pr. get_proc pt x = Some pr \<and> waiting pr \<and> blockq pr = Some r))"
    if "get_queue r s = Some q" for r q
  proof -
    have w: "pq_ok (ptable s) q" "length (ptable s) \<le> unat (max_items q)"
        "\<And>x. x \<in> set (pq_pids q) \<longleftrightarrow> (\<exists>pr. get_proc (ptable s) x = Some pr \<and> waiting pr \<and> blockq pr = Some r)"
      using ok(3) that by (simp_all add: wait_ok_def)
    have "p \<notin> set (pq_pids q)" using w(3) assms(2,3) by (auto simp: waiting_def)
    moreover from this have "pq_ok pt q" by (intro pq_ok_members [OF _ w(1)]) (auto simp: gp)
    ultimately show ?thesis using w(2,3) len by (auto simp: gp)
  qed
  have "\<exists>pr. get_proc pt (idle_task_pid s) = Some pr \<and> is_allocated pr" using ok(1) assms(4) by (auto simp: procs_ok_def gp)
  moreover have "proc_ok s x pr" if "get_proc pt x = Some pr" "x \<noteq> p" for x pr
    using that procs_okD [OF ok(1)] by (simp add: gp)
  moreover have "\<forall>q \<in> set (ready_q s). q_ok q \<and> length pt \<le> unat (max_items q)" "length pt \<le> 127"
    using ok(1,2) len by (simp_all add: procs_ok_def ready_ok_def)
  moreover have "\<exists>pr. get_proc pt p = Some pr \<and> is_allocated pr \<and> 0 \<le> priority pr \<and> priority pr < int (length (ready_q s))"
    using assms(7-9) by (simp add: gp)
  moreover have "ptable s' = pt" "ready_q s' = ready_q s" "idle_task_pid s' = idle_task_pid s" by (simp_all add: assms(5))
  ultimately show ?thesis using cnt wt assms(4) unfolding q_wf_out_def gq po by simp
qed

lemma sint_u8_small: "n < 128 \<Longrightarrow> sint (of_nat n :: u8) = int n"
  by (simp add: signed_of_nat signed_take_bit_int_eq_self)

lemma get_proc_put:
  assumes "pid_index p = Some i" "i < length pt"
  shows "get_proc (pt[i := pr]) = (get_proc pt)(p \<mapsto> pr)"
proof
  fix x
  show "get_proc (pt[i := pr]) x = ((get_proc pt)(p \<mapsto> pr)) x"
    using assms pid_index_inj [of x i p]
    by (cases "pid_index x") (auto simp: get_proc_def arr_get_def nth_list_update)
qed

lemma enq_ready_queues:
  assumes "enq_ready p s = Some (s\<lparr>ready_q := qs\<rparr>)" "get_proc (ptable s) p = Some pr"
  shows "do { q \<leftarrow> arr_get (ready_q s) (nat (priority pr)); q \<leftarrow> penq q p; arr_set (ready_q s) (nat (priority pr)) q } = Some qs"
proof -
  obtain q1 q2 qs2 where q: "arr_get (ready_q s) (nat (priority pr)) = Some q1" "penq q1 p = Some q2"
      "arr_set (ready_q s) (nat (priority pr)) q2 = Some qs2" "s\<lparr>ready_q := qs2\<rparr> = s\<lparr>ready_q := qs\<rparr>"
    using assms by (auto simp: enq_ready_def split: bind_splits if_splits)
  have "qs2 = qs" using arg_cong [OF q(4), of ready_q] by simp
  then show ?thesis using q by simp
qed

text \<open>No entry of the table is free: no process is made.\<close>

lemma proc_create_full:
  assumes "\<not> scan_table (\<lambda>pr. \<not> is_allocated pr) 0 (ptable s) < length (ptable s)"
  shows "proc_create prio s = Some (255, s) \<and> (\<forall>x pr. get_proc (ptable s) x = Some pr \<longrightarrow> is_allocated pr)"
proof -
  define i where "i = scan_table (\<lambda>pr. \<not> is_allocated pr) 0 (ptable s)"
  have "i \<le> length (ptable s)" unfolding i_def scan_table_eq
    by (auto split: option.splits simp: find_Some_iff)
  then have "proc_create prio s = Some (255, s)"
    using assms by (simp add: proc_create_def Let_def flip: i_def)
  moreover have "is_allocated pr" if g: "get_proc (ptable s) x = Some pr" for x pr
  proof -
    obtain j where "j < length (ptable s)" "pr = ptable s ! j"
      using g by (auto simp: get_proc_def arr_get_def split: bind_splits if_splits)
    then show ?thesis using assms scan_table_less [of "\<lambda>pr. \<not> is_allocated pr" "ptable s"] by auto
  qed
  ultimately show ?thesis by blast
qed

lemma proc_create_eq:
  assumes "k_inv s" "idle_task_pid s = 0" "unat prio < length (ready_q s)" "length (ready_q s) \<le> 128"
  shows "\<exists>p s'. proc_create prio s = Some (p, s') \<and> k_inv s' \<and> current_pid s' = current_pid s \<and> conts s' = conts s \<and>
     idle_task_pid s' = idle_task_pid s \<and> sem_heap s' = sem_heap s \<and> mutex_heap s' = mutex_heap s \<and> tmr_view s' = tmr_view s \<and>
     (if p = 255 then s' = s \<and> (\<forall>x pr. get_proc (ptable s) x = Some pr \<longrightarrow> is_allocated pr)
      else (\<exists>pr pr'. get_proc (ptable s) p = Some pr \<and> \<not> is_allocated pr \<and> get_proc (ptable s') = (get_proc (ptable s))(p \<mapsto> pr') \<and>
        is_allocated pr' \<and> pr_state pr' = PROC_NEW \<and> priority pr' = uint prio \<and> resched s' \<and>
        wview s' = (wview s)(p \<mapsto> (p, uint prio, True, None, False, False))))"
proof -
  obtain cur where cur: "k_wf s" "get_proc (ptable s) (current_pid s) = Some cur" "pr_state cur = PROC_RUN" "\<not> isrflag cur"
      "is_allocated cur" "blockq cur = None"
    by (rule k_inv_cur [OF assms(1)])
  have ok: "procs_ok s" "ready_ok s" "wait_ok s" "tmr_ok s" using cur(1) by (simp_all add: k_wf_def)
  have len: "length (ptable s) \<le> 127" using ok(1) by (simp add: procs_ok_def)
  define i where "i = scan_table (\<lambda>pr. \<not> is_allocated pr) 0 (ptable s)"
  show ?thesis
  proof (cases "i < length (ptable s)")
    case False
    then show ?thesis
      using proc_create_full [of s prio] assms(1) unfolding i_def by (intro exI [of _ 255] exI [of _ s]) simp
  next
    case True
    define p :: pid where "p = of_nat i"
    have pi: "pid_index p = Some i" using True len by (simp add: p_def pid_of_nat)
    define pr where "pr = ptable s ! i"
    have na: "\<not> is_allocated pr" using scan_table_sat [of "\<lambda>pr. \<not> is_allocated pr" "ptable s"] True by (simp add: i_def pr_def)
    have gp: "get_proc (ptable s) p = Some pr" using pi True by (simp add: get_proc_def array_simps pr_def)
    have p0: "p \<noteq> idle_task_pid s" using gp na ok(1) by (auto simp: procs_ok_def)
    define pr' where "pr' = pr\<lparr>is_allocated := True, pr_pid := p, pr_state := PROC_NEW,
        priority := sint (ucast prio :: u8), blockq := None, isrflag := False, pr_thread := None\<rparr>"
    have prio: "sint (ucast prio :: u8) = int (unat prio)"
      using sint_u8_small [of "unat prio"] assms(3,4) by simp
    define pt where "pt = (ptable s)[i := pr']"
    define s1 where "s1 = s\<lparr>ptable := pt\<rparr>"
    have gp1: "get_proc pt = (get_proc (ptable s))(p \<mapsto> pr')" unfolding pt_def by (rule get_proc_put [OF pi True])
    have pr': "is_allocated pr'" "pr_state pr' = PROC_NEW" "priority pr' = int (unat prio)" "blockq pr' = None"
      by (simp_all add: pr'_def prio)
    have sel: "ptable s1 = pt" "length pt = length (ptable s)" "ready_q s1 = ready_q s" "idle_task_pid s1 = idle_task_pid s"
      by (simp_all add: s1_def pt_def)
    have gp1': "get_proc (ptable s1) p = Some pr'" by (simp add: sel gp1)
    have "int (unat prio) < int (length (ready_q s))" using assms(3) by (simp only: of_nat_less_iff)
    then have out: "q_wf_out p s1"
      by (intro new_out [OF cur(1) gp na _ _ _ pr'(1)]) (use p0 sel gp1 pr' in \<open>simp_all add: s1_def\<close>)
    obtain qs where qs: "enq_ready p s1 = Some (s1\<lparr>ready_q := qs\<rparr>)" "q_wf (s1\<lparr>ready_q := qs\<rparr>)"
      using q_wf_out_ready [OF out gp1'] pr' by auto
    define s' where "s' = s1\<lparr>ready_q := qs, resched := True\<rparr>"
    have "do { q \<leftarrow> arr_get (ready_q s1) (unat prio); q \<leftarrow> penq q p; arr_set (ready_q s1) (unat prio) q } = Some qs"
      using enq_ready_queues [OF qs(1) gp1'] pr'(3) by simp
    then have eq: "proc_create prio s = Some (p, s')"
      using True p0 assms(2)
      by (auto simp: proc_create_def Let_def s'_def split: bind_splits simp flip: i_def p_def pr_def pr'_def pt_def s1_def)
    have tv: "tmr_view s' = tmr_view s" "tmr_core s' = tmr_core s" using tmr_frame [of s' s] by (simp_all add: s'_def s1_def)
    have gp': "get_proc (ptable s') = (get_proc (ptable s))(p \<mapsto> pr')" by (simp add: s'_def sel gp1)
    have "\<not> timed pr" "\<not> timed pr'" using na pr'(2) by (simp_all add: timed_def)
    then have "(\<exists>pr. get_proc (ptable s') x = Some pr \<and> timed pr) \<longleftrightarrow> (\<exists>pr. get_proc (ptable s) x = Some pr \<and> timed pr)" for x
      using gp by (simp add: gp')
    then have "tmr_ok s'" using ok(4) unfolding tmr_ok_def tv by (simp add: s'_def s1_def pt_def)
    then have "k_wf s'" using qs(2) by (simp add: k_wf_q s'_def)
    moreover have "p \<noteq> current_pid s" using gp na cur(2,5) by auto
    ultimately have "k_inv s'" using cur by (simp add: k_inv_def gp') (simp add: s'_def s1_def)
    moreover have "p \<noteq> 255" using valid_not_255 [of "ptable s" p] gp by simp
    moreover have "wait_key pr' = (p, uint prio, True, None, False, False)"
      by (simp add: wait_key_def pr' waiting_def timed_def) (simp add: pr'_def)
    then have "wview s' = (wview s)(p \<mapsto> (p, uint prio, True, None, False, False))" by (auto simp: wview_def fun_eq_iff gp')
    ultimately show ?thesis
      using eq gp na pr' gp' tv(1) by (intro exI [of _ p] exI [of _ s']) (auto simp: s'_def s1_def)
  qed
qed

end
