(* ===== verification/Kern_Sync.thy ===== *)
theory Kern_Sync
  imports Kern_Ops
begin

text \<open>
  Semaphores and mutexes of the kernel: \<^verbatim>\<open>semaphore.c\<close> and \<^verbatim>\<open>mutex.c\<close> under
  \<^verbatim>\<open>src/bsp/xilkernel_v4_00_a/src/src/ipc\<close>, and the system calls as steps of the whole kernel.

  A parameter \<^verbatim>\<open>sem_t *\<close> is the value it points to, \<open>None\<close> for the null pointer; the pointer
  \<^verbatim>\<open>sys_sem_open\<close> returns is the index in \<^verbatim>\<open>sem_map\<close>. The value of a semaphore is a
  \<^verbatim>\<open>signed char\<close>, here the byte read with \<open>sint\<close>. The numbers of the error codes and of the
  open flags are those of the C library.
\<close>

section \<open>Semaphores\<close>

definition SEM_NAME_MAX :: nat where "SEM_NAME_MAX = 25"
definition O_CREAT :: u32 where "O_CREAT = 512"
definition O_EXCL :: u32 where "O_EXCL = 2048"

definition upd_sem :: "nat \<Rightarrow> (sem_info \<Rightarrow> sem_info) \<Rightarrow> kernel \<Rightarrow> kernel option" where
  "upd_sem i f s =
     do { x \<leftarrow> arr_get (sem_heap s) i; xs \<leftarrow> arr_set (sem_heap s) i (f x); Some (s\<lparr>sem_heap := xs\<rparr>) }"

definition fail :: "errno \<Rightarrow> kernel \<Rightarrow> (kres \<times> kernel) option" where
  "fail e s = do { s \<leftarrow> kerrno e s; Some (Ret (- 1), s) }"

definition sem_heap_init :: "u8 \<Rightarrow> pid list list \<Rightarrow> kernel \<Rightarrow> kernel" where
  "sem_heap_init maxq mems s =
     s\<lparr>sem_heap := map2 (\<lambda>x mem. x\<lparr>sem_id := 255, sem_owner := 255, sem_unlinked := False, sem_wait_q := alloc_q mem maxq 1\<rparr>)
                     (sem_heap s) mems,
       sem_map := map (\<lambda>_. \<lparr>sm_name = replicate SEM_NAME_MAX 0, sm_sem = 0\<rparr>) (sem_map s)\<rparr>"

definition get_sem_by_semt :: "u32 option \<Rightarrow> kernel \<Rightarrow> nat option" where
  "get_sem_by_semt sem s =
     (case sem of
        None \<Rightarrow> None
      | Some v \<Rightarrow> if unat v < length (sem_heap s) \<and> sem_id (sem_heap s ! unat v) \<noteq> 255 then Some (unat v) else None)"

definition get_sem_by_name :: "u8 list \<Rightarrow> kernel \<Rightarrow> nat option" where
  "get_sem_by_name name s =
     find (\<lambda>i. cstr (sm_name (sem_map s ! i)) = cstr name \<and> sem_id (sem_heap s ! i) \<noteq> 255) [0..<length (sem_heap s)]"

definition sys_sem_init :: "int \<Rightarrow> u32 \<Rightarrow> kernel \<Rightarrow> (kres \<times> u32 option \<times> kernel) option" where
  "sys_sem_init pshared val s =
     (let i = scan_table (\<lambda>x. sem_id x = 255) 0 (sem_heap s)
      in if i < length (sem_heap s) then
           do { s \<leftarrow> upd_sem i (\<lambda>x. x\<lparr>sem_id := of_nat i, sem_value := ucast val, sem_unlinked := False,
                        sem_wait_q := qinit (sem_wait_q x), sem_owner := (if pshared = 0 then current_pid s else 255)\<rparr>) s;
                Some (Ret 0, Some (of_nat i), s) }
         else do { (r, s) \<leftarrow> fail ENOSPC s; Some (r, None, s) })"

definition sys_sem_open :: "u8 list option \<Rightarrow> u32 \<Rightarrow> u32 \<Rightarrow> kernel \<Rightarrow> (nat option \<times> kernel) option" where
  "sys_sem_open name oflag val s =
     (case name of
        None \<Rightarrow> do { s \<leftarrow> kerrno EINVAL s; Some (None, s) }
      | Some name \<Rightarrow>
          if oflag \<noteq> O_CREAT then do { s \<leftarrow> kerrno EINVAL s; Some (None, s) }
          else
            (case get_sem_by_name name s of
               Some i \<Rightarrow>
                 if oflag AND O_EXCL \<noteq> 0 then do { s \<leftarrow> kerrno EEXIST s; Some (None, s) } else Some (Some i, s)
             | None \<Rightarrow>
                 (let i = scan_table (\<lambda>x. sem_id x = 255) 0 (sem_heap s)
                  in if i < length (sem_heap s) then
                       do { s \<leftarrow> upd_sem i (\<lambda>x. x\<lparr>sem_id := of_nat i, sem_value := ucast val, sem_unlinked := False,
                                    sem_wait_q := qinit (sem_wait_q x), sem_owner := 255\<rparr>) s;
                            m \<leftarrow> arr_get (sem_map s) i; nm \<leftarrow> c_strcpy (sm_name m) name;
                            ms \<leftarrow> arr_set (sem_map s) i \<lparr>sm_name = nm, sm_sem = of_nat i\<rparr>;
                            Some (Some i, s\<lparr>sem_map := ms\<rparr>) }
                     else do { s \<leftarrow> kerrno ENOSPC s; Some (None, s) })))"

text \<open>The end of a semaphore, with and without its name.\<close>

definition sem_clear :: "nat \<Rightarrow> kernel \<Rightarrow> kernel option" where
  "sem_clear i s = upd_sem i (\<lambda>x. x\<lparr>sem_id := 255, sem_value := 0, sem_owner := 255, sem_unlinked := False\<rparr>) s"

definition sem_unname :: "nat \<Rightarrow> kernel \<Rightarrow> kernel option" where
  "sem_unname i s =
     do { x \<leftarrow> arr_get (sem_heap s) i; j \<leftarrow> pid_index (sem_id x);
          ms \<leftarrow> arr_set (sem_map s) j \<lparr>sm_name = replicate SEM_NAME_MAX 0, sm_sem = 0\<rparr>;
          Some (s\<lparr>sem_map := ms\<rparr>) }"

definition sys_sem_close :: "u32 option \<Rightarrow> kernel \<Rightarrow> (kres \<times> kernel) option" where
  "sys_sem_close sem s =
     (case get_sem_by_semt sem s of
        None \<Rightarrow> fail EINVAL s
      | Some i \<Rightarrow>
          do { x \<leftarrow> arr_get (sem_heap s) i;
               if sint (sem_value x) \<le> 0 \<and> item_count (sem_wait_q x) > 0 then fail ENOTSUP s
               else do { s \<leftarrow> sem_unname i s; s \<leftarrow> sem_clear i s; Some (Ret 0, s) } })"

definition sys_sem_unlink :: "u8 list \<Rightarrow> kernel \<Rightarrow> (kres \<times> kernel) option" where
  "sys_sem_unlink name s =
     (case get_sem_by_name name s of
        None \<Rightarrow> fail ENOENT s
      | Some i \<Rightarrow>
          do { x \<leftarrow> arr_get (sem_heap s) i;
               if sint (sem_value x) \<le> 0 then
                 do { s \<leftarrow> upd_sem i (\<lambda>x. x\<lparr>sem_unlinked := True\<rparr>) s; Some (Ret 0, s) }
               else do { s \<leftarrow> sem_unname i s; s \<leftarrow> sem_clear i s; Some (Ret 0, s) } })"

definition sys_sem_getvalue :: "u32 option \<Rightarrow> kernel \<Rightarrow> (kres \<times> int option \<times> kernel) option" where
  "sys_sem_getvalue sem s =
     (case get_sem_by_semt sem s of
        None \<Rightarrow> do { (r, s) \<leftarrow> fail EINVAL s; Some (r, None, s) }
      | Some i \<Rightarrow> do { x \<leftarrow> arr_get (sem_heap s) i; Some (Ret 0, Some (sint (sem_value x)), s) })"

text \<open>The waiting calls, and where they go on when the process runs again.\<close>

definition sem_wait_end :: "nat \<Rightarrow> kernel \<Rightarrow> (kres \<times> kernel) option" where
  "sem_wait_end i s =
     do { x \<leftarrow> arr_get (sem_heap s) i; if sem_id x = 255 then fail EIDRM s else Some (Ret 0, s) }"

definition sys_sem_wait_x :: "u32 option \<Rightarrow> kernel \<Rightarrow> (kres \<times> kernel) option" where
  "sys_sem_wait_x sem s =
     (case get_sem_by_semt sem s of
        None \<Rightarrow> fail EINVAL s
      | Some i \<Rightarrow>
          do { s \<leftarrow> upd_sem i (\<lambda>x. x\<lparr>sem_value := sem_value x - 1\<rparr>) s;
               x \<leftarrow> arr_get (sem_heap s) i;
               if sint (sem_value x) < 0 then
                 do { s \<leftarrow> process_block (Sem_q i) PROC_WAIT (K_sem_wait i) s; Some (Blocked, s) }
               else sem_wait_end i s })"

definition sem_timedwait_end :: "nat \<Rightarrow> kernel \<Rightarrow> (kres \<times> kernel) option" where
  "sem_timedwait_end i s =
     do { self \<leftarrow> get_proc (ptable s) (current_pid s);
          if timeout self then
            do { s \<leftarrow> upd_sem i (\<lambda>x. x\<lparr>sem_value := sem_value x + 1\<rparr>) s;
                 s \<leftarrow> upd_proc (current_pid s) (\<lambda>pr. pr\<lparr>timeout := False\<rparr>) s;
                 fail ETIMEDOUT s }
          else do { (_, s) \<leftarrow> remove_tmr (pr_pid self) s; sem_wait_end i s } }"

definition sys_sem_timedwait :: "u32 option \<Rightarrow> u32 \<Rightarrow> kernel \<Rightarrow> (kres \<times> kernel) option" where
  "sys_sem_timedwait sem ms s =
     (case get_sem_by_semt sem s of
        None \<Rightarrow> fail EINVAL s
      | Some i \<Rightarrow>
          do { s \<leftarrow> upd_sem i (\<lambda>x. x\<lparr>sem_value := sem_value x - 1\<rparr>) s;
               x \<leftarrow> arr_get (sem_heap s) i;
               if sint (sem_value x) < 0 then
                 do { self \<leftarrow> get_proc (ptable s) (current_pid s);
                      (_, s) \<leftarrow> add_tmr (pr_pid self) ms s;
                      s \<leftarrow> process_block (Sem_q i) PROC_TIMED_WAIT (K_sem_timedwait i) s; Some (Blocked, s) }
               else sem_wait_end i s })"

definition sys_sem_trywait :: "u32 option \<Rightarrow> kernel \<Rightarrow> (kres \<times> kernel) option" where
  "sys_sem_trywait sem s =
     (case get_sem_by_semt sem s of
        None \<Rightarrow> fail EINVAL s
      | Some i \<Rightarrow>
          do { x \<leftarrow> arr_get (sem_heap s) i;
               if sint (sem_value x) > 0 then
                 do { s \<leftarrow> upd_sem i (\<lambda>x. x\<lparr>sem_value := sem_value x - 1\<rparr>) s; Some (Ret 0, s) }
               else fail EAGAIN s })"

definition sys_sem_destroy :: "u32 option \<Rightarrow> kernel \<Rightarrow> (kres \<times> kernel) option" where
  "sys_sem_destroy sem s =
     (case get_sem_by_semt sem s of
        None \<Rightarrow> fail EINVAL s
      | Some i \<Rightarrow>
          do { x \<leftarrow> arr_get (sem_heap s) i;
               if sint (sem_value x) \<le> 0 \<and> item_count (sem_wait_q x) > 0 then fail EBUSY s
               else do { s \<leftarrow> sem_clear i s; Some (Ret 0, s) } })"

definition sys_sem_post :: "u32 option \<Rightarrow> kernel \<Rightarrow> (kres \<times> kernel) option" where
  "sys_sem_post sem s =
     (case get_sem_by_semt sem s of
        None \<Rightarrow> fail EINVAL s
      | Some i \<Rightarrow>
          do { s \<leftarrow> upd_sem i (\<lambda>x. x\<lparr>sem_value := sem_value x + 1\<rparr>) s;
               x \<leftarrow> arr_get (sem_heap s) i;
               s \<leftarrow> (if sint (sem_value x) \<le> 0 \<and> item_count (sem_wait_q x) > 0 then process_unblock (Sem_q i) s
                    else if sint (sem_value x) > 0 \<and> sem_unlinked x then map_option snd (sys_sem_destroy sem s)
                    else Some s);
               Some (Ret 0, s) })"

partial_function (option) force_loop :: "nat \<Rightarrow> kernel \<Rightarrow> kernel option" where
  "force_loop i s =
     do { x \<leftarrow> arr_get (sem_heap s) i;
          if sint (sem_value x) \<le> 0 \<and> item_count (sem_wait_q x) > 0 then
            do { s \<leftarrow> process_unblock (Sem_q i) s;
                 s \<leftarrow> upd_sem i (\<lambda>x. x\<lparr>sem_value := sem_value x + 1\<rparr>) s;
                 force_loop i s }
          else Some s }"

definition sem_force_destroy :: "u32 option \<Rightarrow> kernel \<Rightarrow> (kres \<times> kernel) option" where
  "sem_force_destroy sem s =
     (case get_sem_by_semt sem s of
        None \<Rightarrow> Some (Ret (- 1), s)
      | Some i \<Rightarrow> do { s \<leftarrow> force_loop i s; s \<leftarrow> sem_clear i s; Some (Ret 0, s) })"

section \<open>Mutexes\<close>

fun errno_val :: "errno \<Rightarrow> int" where
  "errno_val EPERM = 1" | "errno_val ENOENT = 2" | "errno_val ESRCH = 3" | "errno_val E2BIG = 7" | "errno_val EAGAIN = 11"
| "errno_val EBUSY = 16" | "errno_val EEXIST = 17" | "errno_val EINVAL = 22" | "errno_val ENOSPC = 28" | "errno_val EIDRM = 36"
| "errno_val ETIMEDOUT = 116" | "errno_val ENOTSUP = 134"

text \<open>A variable of type \<^verbatim>\<open>pthread_mutex_t\<close>: the static initializer or an index.\<close>

datatype mutex_val = MUTEX_INITIALIZER | MUTEX int

definition PTHREAD_MUTEX_INVALID :: mutex_val where "PTHREAD_MUTEX_INVALID = MUTEX 65535"

definition upd_mutex :: "nat \<Rightarrow> (mutex_info \<Rightarrow> mutex_info) \<Rightarrow> kernel \<Rightarrow> kernel option" where
  "upd_mutex i f s =
     do { x \<leftarrow> arr_get (mutex_heap s) i; xs \<leftarrow> arr_set (mutex_heap s) i (f x); Some (s\<lparr>mutex_heap := xs\<rparr>) }"

definition pthread_mutex_heap_init :: "u8 \<Rightarrow> pid list list \<Rightarrow> kernel \<Rightarrow> kernel" where
  "pthread_mutex_heap_init maxq mems s =
     s\<lparr>mutex_heap := map2 (\<lambda>x mem. x\<lparr>mx_allocated := False, mutex_wait_q := alloc_q mem maxq 1\<rparr>) (mutex_heap s) mems\<rparr>"

text \<open>The result is the value returned and the new value of the variable, if it is written.\<close>

definition sys_pthread_mutex_init :: "bool \<Rightarrow> mutex_type option \<Rightarrow> kernel \<Rightarrow> (int \<times> mutex_val option \<times> kernel) option" where
  "sys_pthread_mutex_init mutex_null attr s =
     (if mutex_null then Some (- 1, None, s)
      else
        (let ty = (case attr of None \<Rightarrow> PTHREAD_MUTEX_DEFAULT | Some t \<Rightarrow> t)
         in if ty \<noteq> PTHREAD_MUTEX_DEFAULT \<and> ty \<noteq> PTHREAD_MUTEX_RECURSIVE then
              do { s \<leftarrow> kerrno EINVAL s; Some (- 1, None, s) }
            else
              (let i = scan_table (\<lambda>x. \<not> mx_allocated x) 0 (mutex_heap s)
               in if i = length (mutex_heap s) then Some (errno_val EAGAIN, None, s)
                  else
                    do { s \<leftarrow> upd_mutex i (\<lambda>x. x\<lparr>mx_allocated := True, mx_locked := 0, mx_owner := 255, mx_type := ty,
                                 mutex_wait_q := qinit (mutex_wait_q x)\<rparr>) s;
                         Some (0, Some (MUTEX (int i)), s) })))"

definition sys_pthread_mutex_destroy :: "mutex_val option \<Rightarrow> kernel \<Rightarrow> (int \<times> mutex_val option \<times> kernel) option" where
  "sys_pthread_mutex_destroy mutex s =
     (case mutex of
        None \<Rightarrow> Some (errno_val EINVAL, None, s)
      | Some MUTEX_INITIALIZER \<Rightarrow> Some (0, Some PTHREAD_MUTEX_INVALID, s)
      | Some (MUTEX v) \<Rightarrow>
          if v < 0 \<or> v \<ge> int (length (mutex_heap s)) then Some (errno_val EINVAL, None, s)
          else
            do { x \<leftarrow> arr_get (mutex_heap s) (nat v);
                 if \<not> mx_allocated x then Some (errno_val EINVAL, None, s)
                 else if mx_locked x \<noteq> 0 then Some (errno_val EBUSY, None, s)
                 else
                   do { s \<leftarrow> upd_mutex (nat v) (\<lambda>x. x\<lparr>mx_allocated := False\<rparr>) s;
                        Some (0, Some PTHREAD_MUTEX_INVALID, s) } })"

text \<open>The check of the argument and the initialisation of a static mutex, shared by lock and unlock.\<close>

definition mutex_index :: "mutex_val option \<Rightarrow> kernel \<Rightarrow> (int + nat \<times> mutex_val option \<times> kernel) option" where
  "mutex_index mutex s =
     (case mutex of
        None \<Rightarrow> Some (Inl (errno_val EINVAL))
      | Some MUTEX_INITIALIZER \<Rightarrow>
          do { (r, m, s) \<leftarrow> sys_pthread_mutex_init False (Some PTHREAD_MUTEX_DEFAULT) s;
               case m of
                 Some (MUTEX v) \<Rightarrow> if r \<noteq> 0 then Some (Inl (- 1)) else Some (Inr (nat v, m, s))
               | _ \<Rightarrow> Some (Inl (- 1)) }
      | Some (MUTEX v) \<Rightarrow>
          if v < 0 \<or> v \<ge> int (length (mutex_heap s)) then Some (Inl (errno_val EINVAL)) else Some (Inr (nat v, None, s)))"

definition mutex_loop :: "nat \<Rightarrow> bool \<Rightarrow> kernel \<Rightarrow> (kres \<times> kernel) option" where
  "mutex_loop i trylock s =
     do { x \<leftarrow> arr_get (mutex_heap s) i;
          if mx_locked x \<noteq> 0 \<and> (mx_type x \<noteq> PTHREAD_MUTEX_RECURSIVE \<or> mx_owner x \<noteq> current_pid s) then
            if trylock then Some (Ret (errno_val EBUSY), s)
            else do { s \<leftarrow> process_block (Mutex_q i) PROC_WAIT (K_mutex_lock i) s; Some (Blocked, s) }
          else
            do { s \<leftarrow> upd_mutex i (\<lambda>x. x\<lparr>mx_locked := (if mx_type x = PTHREAD_MUTEX_RECURSIVE then mx_locked x + 1 else 1),
                         mx_owner := current_pid s\<rparr>) s;
                 Some (Ret 0, s) } }"

definition pthread_mutex_lock_basic :: "mutex_val option \<Rightarrow> bool \<Rightarrow> kernel \<Rightarrow> (kres \<times> mutex_val option \<times> kernel) option" where
  "pthread_mutex_lock_basic mutex trylock s =
     do { r \<leftarrow> mutex_index mutex s;
          case r of
            Inl e \<Rightarrow> Some (Ret e, None, s)
          | Inr (i, m, s) \<Rightarrow>
              do { x \<leftarrow> arr_get (mutex_heap s) i;
                   if \<not> mx_allocated x then Some (Ret (errno_val EINVAL), m, s)
                   else do { (r, s) \<leftarrow> mutex_loop i trylock s; Some (r, m, s) } } }"

definition sys_pthread_mutex_lock :: "mutex_val option \<Rightarrow> kernel \<Rightarrow> (kres \<times> mutex_val option \<times> kernel) option" where
  "sys_pthread_mutex_lock mutex s = pthread_mutex_lock_basic mutex False s"

definition sys_pthread_mutex_trylock :: "mutex_val option \<Rightarrow> kernel \<Rightarrow> (kres \<times> mutex_val option \<times> kernel) option" where
  "sys_pthread_mutex_trylock mutex s = pthread_mutex_lock_basic mutex True s"

definition mutex_release :: "nat \<Rightarrow> kernel \<Rightarrow> (kres \<times> kernel) option" where
  "mutex_release i s =
     do { x \<leftarrow> arr_get (mutex_heap s) i;
          if mx_locked x = 0 then
            do { s \<leftarrow> upd_mutex i (\<lambda>x. x\<lparr>mx_owner := 255\<rparr>) s;
                 s \<leftarrow> (if item_count (mutex_wait_q x) > 0 then process_unblock (Mutex_q i) s else Some s);
                 Some (Ret 0, s) }
          else Some (Ret 0, s) }"

definition sys_pthread_mutex_unlock :: "mutex_val option \<Rightarrow> kernel \<Rightarrow> (kres \<times> mutex_val option \<times> kernel) option" where
  "sys_pthread_mutex_unlock mutex s =
     do { r \<leftarrow> mutex_index mutex s;
          case r of
            Inl e \<Rightarrow> Some (Ret e, None, s)
          | Inr (i, m, s) \<Rightarrow>
              do { x \<leftarrow> arr_get (mutex_heap s) i;
                   if \<not> mx_allocated x then Some (Ret (errno_val EINVAL), m, s)
                   else if mx_type x = PTHREAD_MUTEX_RECURSIVE \<and> mx_owner x \<noteq> current_pid s then
                     Some (Ret (errno_val EPERM), m, s)
                   else
                     do { s \<leftarrow> upd_mutex i (\<lambda>x. x\<lparr>mx_locked := (if mx_type x = PTHREAD_MUTEX_RECURSIVE then mx_locked x - 1 else 0)\<rparr>) s;
                          (r, s) \<leftarrow> mutex_release i s;
                          Some (r, m, s) } } }"

section \<open>System calls as steps of the kernel\<close>

text \<open>A process that was suspended in a system call goes on there.\<close>

definition resume :: "kernel \<Rightarrow> (kres \<times> kernel) option" where
  "resume s =
     (let c = current_pid s; s' = s\<lparr>conts := (conts s)(c := None)\<rparr>
      in case conts s c of
           None \<Rightarrow> None
         | Some K_sleep \<Rightarrow> Some (Ret 0, s')
         | Some (K_sem_wait i) \<Rightarrow> sem_wait_end i s'
         | Some (K_sem_timedwait i) \<Rightarrow> sem_timedwait_end i s'
         | Some (K_mutex_lock i) \<Rightarrow> mutex_loop i False s')"

end
