(* ===== verification/Kern_Steps.thy ===== *)
theory Kern_Steps
  imports Kern_Sync
begin

text \<open>
  The steps the system calls are made of, each with what it changes: the invariant of the kernel with its continuations,
  and the view of the processes that wait, the semaphores and the mutexes, through which the calls are then described.
\<close>

text \<open>Changes the invariant does not depend on.\<close>

lemma get_queue_vals:
  assumes "map sem_wait_q (sem_heap s') = map sem_wait_q (sem_heap s)" "map mutex_wait_q (mutex_heap s') = map mutex_wait_q (mutex_heap s)"
  shows "get_queue r s' = get_queue r s"
proof -
  have "map_option sem_wait_q (arr_get (sem_heap s') i) = map_option sem_wait_q (arr_get (sem_heap s) i)" for i
    using assms(1) map_eq_imp_length_eq [OF assms(1)] nth_map [of i "sem_heap s" sem_wait_q] nth_map [of i "sem_heap s'" sem_wait_q]
    by (simp add: arr_get_def)
  moreover have "map_option mutex_wait_q (arr_get (mutex_heap s') i) = map_option mutex_wait_q (arr_get (mutex_heap s) i)" for i
    using assms(2) map_eq_imp_length_eq [OF assms(2)] nth_map [of i "mutex_heap s" mutex_wait_q] nth_map [of i "mutex_heap s'" mutex_wait_q]
    by (simp add: arr_get_def)
  ultimately show ?thesis by (simp add: get_queue_def split: qref.split)
qed

lemma k_inv_vals:
  assumes "ptable s' = ptable s" "ready_q s' = ready_q s" "idle_task_pid s' = idle_task_pid s" "current_pid s' = current_pid s"
    and "soft_tmrs s' = soft_tmrs s" "active_tmrs s' = active_tmrs s" "shadow_tmrs s' = shadow_tmrs s" "nactive s' = nactive s"
    and "\<And>r. get_queue r s' = get_queue r s"
  shows "k_inv s' = k_inv s"
proof -
  have "proc_ok s' = proc_ok s" using assms(1-4,9) by (simp add: fun_eq_iff proc_ok_def)
  then have "k_wf s' = k_wf s"
    using assms by (simp add: k_wf_def procs_ok_def ready_ok_def wait_ok_def tmr_ok_def tmr_core_def tmr_view_def tmr_ids_def)
  then show ?thesis using assms(1,4) by (simp add: k_inv_def)
qed

text \<open>An empty queue may be made afresh.\<close>

lemma k_inv_fresh:
  assumes "k_inv s" "ptable s' = ptable s" "ready_q s' = ready_q s" "idle_task_pid s' = idle_task_pid s" "current_pid s' = current_pid s"
    and "soft_tmrs s' = soft_tmrs s" "active_tmrs s' = active_tmrs s" "shadow_tmrs s' = shadow_tmrs s" "nactive s' = nactive s"
    and "\<And>r. get_queue r s' = (if r = r0 then map_option qinit (get_queue r s) else get_queue r s)"
    and "get_queue r0 s = Some q" "pq_pids q = []"
  shows "k_inv s'"
proof -
  have ok: "procs_ok s" "ready_ok s" "wait_ok s" "tmr_ok s" using assms(1) by (simp_all add: k_inv_def k_wf_def)
  have "(get_queue r s' = None) = (get_queue r s = None)" for r using assms(10) by simp
  then have "proc_ok s' = proc_ok s" using assms(2-5) by (simp add: fun_eq_iff proc_ok_def)
  then have "procs_ok s'" using ok(1) assms(2,4) by (simp add: procs_ok_def)
  moreover have "ready_ok s'" using ok(2) assms(2-4) by (simp add: ready_ok_def)
  moreover have "tmr_ok s'" using ok(4) assms(2,6-9) by (simp add: tmr_ok_def tmr_core_def tmr_view_def tmr_ids_def)
  moreover have "wait_ok s'"
    unfolding wait_ok_def
  proof (intro allI impI)
    fix r x
    assume x: "get_queue r s' = Some x"
    show "pq_ok (ptable s') x \<and> length (ptable s') \<le> unat (max_items x) \<and>
        (\<forall>p. (p \<in> set (pq_pids x)) = (\<exists>pr. get_proc (ptable s') p = Some pr \<and> waiting pr \<and> blockq pr = Some r))"
    proof (cases "r = r0")
      case False
      then show ?thesis using x assms(2,10) ok(3) by (simp add: wait_ok_def)
    next
      case True
      then have xq: "x = qinit q" using x assms(10,11) by simp
      note w = ok(3) [unfolded wait_ok_def, rule_format, OF assms(11)]
      have "pq_ok (ptable s) (qinit q)" using w by (simp add: pq_ok_def qinit_def pq_pids_def heap_def)
      moreover have "pq_pids (qinit q) = []" by (simp add: pq_pids_def qinit_def)
      ultimately show ?thesis using w assms(12) True by (simp add: xq assms(2)) (simp add: qinit_def)
    qed
  qed
  ultimately show ?thesis using assms(1,2,5) by (simp add: k_inv_def k_wf_def)
qed

text \<open>The processes blocked on a queue, as the table has them, are those in the queue.\<close>

definition waiters :: "qref \<Rightarrow> kernel \<Rightarrow> pid set" where
  "waiters r s = {p. \<exists>i pri al t. wview s p = Some (i, pri, al, Some r, True, t)}"

lemma waiters_eq: "waiters r s = {p. \<exists>pr. get_proc (ptable s) p = Some pr \<and> waiting pr \<and> blockq pr = Some r}"
  by (auto simp: waiters_def wview_def wait_key_def)

lemma waiters_queue:
  assumes "k_inv s" "get_queue r s = Some q"
  shows "set (pq_pids q) = waiters r s" "card (waiters r s) = unat (item_count q)"
    "(pq_pids q = []) = (waiters r s = {})" "(item_count q > 0) = (waiters r s \<noteq> {})"
proof -
  have w: "pq_ok (ptable s) q" "set (pq_pids q) = waiters r s"
    using assms by (auto simp: k_inv_def k_wf_def wait_ok_def waiters_eq)
  then show "set (pq_pids q) = waiters r s" by simp
  have d: "distinct (pq_pids q)" "length (pq_pids q) = unat (item_count q)" using w(1) by (auto simp: pq_ok_def pq_pids_def)
  then show c: "card (waiters r s) = unat (item_count q)" using w(2) distinct_card by metis
  show e: "(pq_pids q = []) = (waiters r s = {})" using w(2) by (metis set_empty)
  show "(item_count q > 0) = (waiters r s \<noteq> {})" using e d(2) by (metis length_0_conv unat_eq_0 word_gt_0)
qed

lemma waiters_moved:
  assumes "wview s' = (wview s)(p \<mapsto> moved b t k)" "fst (snd (snd k))"
  shows "waiters r s' = (if b = Some r then insert p (waiters r s) else waiters r s - {p})"
  using assms by (cases k) (auto simp: waiters_def moved_def)

lemma waiters_finite: "finite (waiters r s)"
  by simp

section \<open>The state between kernel entries\<close>

text \<open>
  A suspended call continues at an existing semaphore or an allocated mutex, the idle task never
  blocks, and the entry of an allocated process has its own number. The flag says whether timed
  waits are used at all.
\<close>

fun cont_ok :: "bool \<Rightarrow> kcont \<Rightarrow> kernel \<Rightarrow> bool" where
  "cont_ok tw K_sleep s = True"
| "cont_ok tw (K_sem_wait i) s = (i < length (sem_heap s))"
| "cont_ok tw (K_sem_timedwait i) s = (tw \<and> i < length (sem_heap s))"
| "cont_ok tw (K_mutex_lock i) s = (i < length (mutex_heap s) \<and> mx_allocated (mutex_heap s ! i))"

definition conts_ok :: "bool \<Rightarrow> kernel \<Rightarrow> bool" where
  "conts_ok tw s \<longleftrightarrow> conts s (idle_task_pid s) = None \<and> (\<forall>p k. conts s p = Some k \<longrightarrow> cont_ok tw k s)"

definition pids_ok :: "(pid \<Rightarrow> wait_info option) \<Rightarrow> bool" where
  "pids_ok w \<longleftrightarrow> (\<forall>p i pri r. w p = Some (i, pri, True, r) \<longrightarrow> i = p)"

definition kern_ok :: "bool \<Rightarrow> kernel \<Rightarrow> bool" where
  "kern_ok tw s \<longleftrightarrow> k_inv s \<and> conts_ok tw s \<and> pids_ok (wview s)"

type_synonym sem_val = "u8 \<times> u8 \<times> pid \<times> bool"
type_synonym mutex_vals = "bool \<times> u32 \<times> mutex_type \<times> pid"

abbreviation sems :: "kernel \<Rightarrow> sem_val list" where
  "sems s \<equiv> map sem_rest (sem_heap s)"

abbreviation mutexes :: "kernel \<Rightarrow> mutex_vals list" where
  "mutexes s \<equiv> map mutex_rest (mutex_heap s)"

text \<open>A good state with these waiting processes, semaphores and mutexes.\<close>

definition arrives :: "bool \<Rightarrow> kernel \<Rightarrow> (pid \<Rightarrow> wait_info option) \<Rightarrow> sem_val list \<Rightarrow> mutex_vals list \<Rightarrow> kernel \<Rightarrow> bool" where
  "arrives tw s w sv mv s' \<longleftrightarrow> kern_ok tw s' \<and> idle_task_pid s' = idle_task_pid s \<and> wview s' = w \<and> sems s' = sv \<and> mutexes s' = mv"

text \<open>
  The processes that sleep, with the ticks their timers have left. Only the timer interrupt wakes them:
  every other step leaves them and their timers alone.
\<close>

definition asleep :: "wait_info option \<Rightarrow> bool" where
  "asleep w \<longleftrightarrow> (\<exists>i pri al b. w = Some (i, pri, al, b, False, True))"

definition sleepers :: "kernel \<Rightarrow> (pid \<times> u32) set" where
  "sleepers s = {(p, n). (p, n) \<in> set (tmr_view s) \<and> asleep (wview s p)}"

lemma sleepers_same: "tmr_view s' = tmr_view s \<Longrightarrow> wview s' = wview s \<Longrightarrow> sleepers s' = sleepers s"
  by (simp add: sleepers_def)

lemma sleepers_keep:
  assumes "\<not> asleep (wview s p)" "\<And>q. q \<noteq> p \<Longrightarrow> wview s' q = wview s q"
    and "\<And>q n. q \<noteq> p \<Longrightarrow> (q, n) \<in> set (tmr_view s) \<Longrightarrow> (q, n) \<in> set (tmr_view s')"
  shows "sleepers s \<subseteq> sleepers s'"
proof
  fix x
  assume "x \<in> sleepers s"
  then obtain q n where x: "x = (q, n)" "(q, n) \<in> set (tmr_view s)" "asleep (wview s q)" by (auto simp: sleepers_def)
  then have "q \<noteq> p" using assms(1) by blast
  then show "x \<in> sleepers s'" using x assms(2,3) by (simp add: sleepers_def)
qed

definition becomes :: "bool \<Rightarrow> kernel \<Rightarrow> (pid \<Rightarrow> wait_info option) \<Rightarrow> sem_val list \<Rightarrow> mutex_vals list \<Rightarrow> kernel \<Rightarrow> bool" where
  "becomes tw s w sv mv s' \<longleftrightarrow> arrives tw s w sv mv s' \<and> sleepers s \<subseteq> sleepers s'"

lemmas becomes_defs = becomes_def arrives_def

definition move :: "pid \<Rightarrow> qref option \<Rightarrow> bool \<Rightarrow> kernel \<Rightarrow> pid \<Rightarrow> wait_info option" where
  "move p b t s = (wview s)(p := map_option (moved b t) (wview s p))"

lemma becomes_trans:
  "becomes tw s w sv mv s1 \<Longrightarrow> becomes tw s1 w' sv' mv' s2 \<Longrightarrow> becomes tw s w' sv' mv' s2"
  by (auto simp: becomes_defs)

lemma becomes_refl: "kern_ok tw s \<Longrightarrow> becomes tw s (wview s) (sems s) (mutexes s) s"
  by (simp add: becomes_defs)

lemma cur_awake: "k_inv s \<Longrightarrow> \<not> asleep (wview s (current_pid s))"
  using k_inv_cur [of s] by (fastforce simp: asleep_def wview_def wait_key_def timed_def)

lemma waiting_awake: "p \<in> waiters r s \<Longrightarrow> \<not> asleep (wview s p)"
  by (auto simp: waiters_def asleep_def)

lemma pids_ok_moved:
  assumes "pids_ok (wview s)" "\<And>p. \<exists>b t. w p = map_option (moved b t) (wview s p) \<or> w p = wview s p"
  shows "pids_ok w"
  unfolding pids_ok_def
proof (intro allI impI)
  fix p i pri r
  assume w: "w p = Some (i, pri, True, r)"
  obtain b t where "w p = map_option (moved b t) (wview s p) \<or> w p = wview s p" using assms(2) by blast
  then have "\<exists>pri r. wview s p = Some (i, pri, True, r)" using w by (cases "wview s p") (auto simp: moved_def)
  then show "i = p" using assms(1) by (auto simp: pids_ok_def)
qed

lemma pids_ok_move: "pids_ok (wview s) \<Longrightarrow> pids_ok (move p b t s)"
  by (rule pids_ok_moved) (auto simp: move_def)

lemma map_lengths:
  assumes "sems s' = sems s" "mutexes s' = mutexes s"
  shows "length (sem_heap s') = length (sem_heap s)" "length (mutex_heap s') = length (mutex_heap s)"
  using assms by (metis length_map)+

lemma cont_ok_same:
  assumes "sems s' = sems s" "mutexes s' = mutexes s"
  shows "cont_ok tw k s' = cont_ok tw k s"
proof -
  have "mutex_rest (mutex_heap s' ! i) = mutex_rest (mutex_heap s ! i)" if "i < length (mutex_heap s)" for i
    using that arg_cong [OF assms(2), of "\<lambda>xs. xs ! i"] map_lengths [OF assms] by simp
  then have "mx_allocated (mutex_heap s' ! i) = mx_allocated (mutex_heap s ! i)" if "i < length (mutex_heap s)" for i
    using that by (simp add: mutex_rest_def)
  then show ?thesis using map_lengths [OF assms] by (cases k) auto
qed

lemma conts_ok_cong:
  assumes "conts_ok tw s" "idle_task_pid s' = idle_task_pid s" "\<And>k. cont_ok tw k s \<Longrightarrow> cont_ok tw k s'" "conts s' = conts s"
  shows "conts_ok tw s'"
  using assms by (simp add: conts_ok_def)

lemma conts_ok_upd:
  assumes "conts_ok tw s" "idle_task_pid s' = idle_task_pid s" "sems s' = sems s" "mutexes s' = mutexes s"
    and "conts s' = (conts s)(c := Some k)" "cont_ok tw k s" "c \<noteq> idle_task_pid s"
  shows "conts_ok tw s'"
  using assms cont_ok_same [OF assms(3,4)] by (simp add: conts_ok_def)

lemma kern_okD:
  assumes "kern_ok tw s"
  shows "k_inv s" "conts_ok tw s" "pids_ok (wview s)"
  using assms by (simp_all add: kern_ok_def)

lemma wview_cur:
  assumes "k_inv s"
  obtains cur where "get_proc (ptable s) (current_pid s) = Some cur" "wview s (current_pid s) = Some (wait_key cur)"
    "is_allocated cur" "\<not> waiting cur" "\<not> timed cur" "blockq cur = None"
  using k_inv_cur [OF assms] by (metis (no_types, lifting) option.simps(9) proc_state.distinct proc_state.simps timed_def waiting_def wview_def)

section \<open>What the kernel entries do\<close>

lemma kerrno_ok:
  assumes "kern_ok tw s"
  shows "\<exists>s'. kerrno e s = Some s' \<and> becomes tw s (wview s) (sems s) (mutexes s) s' \<and> current_pid s' = current_pid s \<and> conts s' = conts s \<and>
     resched s' = resched s"
proof -
  obtain cur where cur: "k_wf s" "get_proc (ptable s) (current_pid s) = Some cur" "pr_state cur = PROC_RUN" "\<not> isrflag cur"
    by (rule k_inv_cur [OF kern_okD(1) [OF assms]])
  define f where "f = (\<lambda>pr :: process_struct. pr\<lparr>pr_errno := Some e\<rparr>)"
  have f: "wait_key (f cur) = wait_key cur" "pr_state (f cur) = pr_state cur" by (simp_all add: f_def wait_key_def waiting_def timed_def)
  obtain pt where pt: "upd_proc (current_pid s) f s = Some (s\<lparr>ptable := pt\<rparr>)" "k_wf (s\<lparr>ptable := pt\<rparr>)"
      "get_proc pt = (get_proc (ptable s))(current_pid s \<mapsto> f cur)"
    using k_wf_entry [where f = f, OF cur(1,2) f] by blast
  have w: "wview (s\<lparr>ptable := pt\<rparr>) = wview s" using cur(2) f(1) by (auto simp: wview_def fun_eq_iff pt(3))
  have sl: "sleepers (s\<lparr>ptable := pt\<rparr>) = sleepers s" by (rule sleepers_same [OF tmr_frame(1) w]) simp_all
  moreover have "k_inv (s\<lparr>ptable := pt\<rparr>)" using pt(2,3) cur by (simp add: k_inv_def f_def)
  moreover have "conts_ok tw (s\<lparr>ptable := pt\<rparr>)" by (rule conts_ok_cong [OF kern_okD(2) [OF assms]]) (simp_all add: cont_ok_same [of "s\<lparr>ptable := pt\<rparr>" s])
  ultimately show ?thesis
    using pt(1) kern_okD(3) [OF assms] by (intro exI [of _ "s\<lparr>ptable := pt\<rparr>"]) (simp add: kerrno_def becomes_defs kern_ok_def sl w flip: f_def)
qed

lemma fail_ok:
  assumes "kern_ok tw s"
  shows "\<exists>s'. fail e s = Some (Ret (- 1), s') \<and> becomes tw s (wview s) (sems s) (mutexes s) s' \<and> resched s' = resched s \<and> conts s' = conts s"
  using kerrno_ok [OF assms, of e] by (auto simp: fail_def)

lemma upd_sem_ok:
  assumes "kern_ok tw s" "i < length (sem_heap s)" "sem_wait_q (f (sem_heap s ! i)) = sem_wait_q (sem_heap s ! i)"
  shows "\<exists>s'. upd_sem i f s = Some s' \<and> becomes tw s (wview s) ((sems s)[i := sem_rest (f (sem_heap s ! i))]) (mutexes s) s' \<and>
     sem_heap s' = (sem_heap s)[i := f (sem_heap s ! i)] \<and> current_pid s' = current_pid s \<and> conts s' = conts s \<and> resched s' = resched s"
proof -
  define s' where "s' = s\<lparr>sem_heap := (sem_heap s)[i := f (sem_heap s ! i)]\<rparr>"
  have "upd_sem i f s = Some s'" using assms(2) by (simp add: upd_sem_def array_simps s'_def)
  moreover have "map sem_wait_q (sem_heap s') = map sem_wait_q (sem_heap s)"
    using assms(2,3) by (simp add: s'_def map_update) (metis list_update_id nth_map)
  then have "get_queue r s' = get_queue r s" for r by (rule get_queue_vals) (simp add: s'_def)
  then have "k_inv s'" using k_inv_vals [of s' s] kern_okD(1) [OF assms(1)] by (simp add: s'_def)
  moreover have "cont_ok tw k s' = cont_ok tw k s" for k by (cases k) (simp_all add: s'_def)
  then have "conts_ok tw s'" using kern_okD(2) [OF assms(1)] by (simp add: conts_ok_def) (simp add: s'_def)
  ultimately show ?thesis
    using kern_okD(3) [OF assms(1)]
    by (intro exI [of _ s']) (simp add: becomes_defs kern_ok_def s'_def wview_def [abs_def] map_update
        sleepers_def tmr_view_def tmr_ids_def)
qed

lemma upd_mutex_ok:
  assumes "kern_ok tw s" "i < length (mutex_heap s)" "mutex_wait_q (f (mutex_heap s ! i)) = mutex_wait_q (mutex_heap s ! i)"
    and "mx_allocated (mutex_heap s ! i) \<Longrightarrow> mx_allocated (f (mutex_heap s ! i)) \<or> (\<forall>p. conts s p \<noteq> Some (K_mutex_lock i))"
  shows "\<exists>s'. upd_mutex i f s = Some s' \<and> becomes tw s (wview s) (sems s) ((mutexes s)[i := mutex_rest (f (mutex_heap s ! i))]) s' \<and>
     mutex_heap s' = (mutex_heap s)[i := f (mutex_heap s ! i)] \<and> current_pid s' = current_pid s \<and> conts s' = conts s \<and> resched s' = resched s"
proof -
  define s' where "s' = s\<lparr>mutex_heap := (mutex_heap s)[i := f (mutex_heap s ! i)]\<rparr>"
  have "upd_mutex i f s = Some s'" using assms(2) by (simp add: upd_mutex_def array_simps s'_def)
  moreover have "map mutex_wait_q (mutex_heap s') = map mutex_wait_q (mutex_heap s)"
    using assms(2,3) by (simp add: s'_def map_update) (metis list_update_id nth_map)
  then have "get_queue r s' = get_queue r s" for r by (intro get_queue_vals) (simp_all add: s'_def)
  then have "k_inv s'" using k_inv_vals [of s' s] kern_okD(1) [OF assms(1)] by (simp add: s'_def)
  moreover have "cont_ok tw k s'" if "cont_ok tw k s" "conts s p = Some k" for k p
  proof (cases k)
    case (K_mutex_lock j)
    then show ?thesis using that assms(4) by (cases "j = i") (auto simp: s'_def)
  qed (use that in \<open>simp_all add: s'_def\<close>)
  then have "conts_ok tw s'" using kern_okD(2) [OF assms(1)] by (simp add: conts_ok_def) (simp add: s'_def)
  ultimately show ?thesis
    using kern_okD(3) [OF assms(1)]
    by (intro exI [of _ s']) (simp add: becomes_defs kern_ok_def s'_def wview_def [abs_def] map_update
        sleepers_def tmr_view_def tmr_ids_def)
qed

lemma block_ok:
  assumes "kern_ok tw s" "current_pid s \<noteq> idle_task_pid s" "get_queue r s = Some q" "cont_ok tw k s"
  shows "\<exists>s'. process_block r PROC_WAIT k s = Some s' \<and>
     becomes tw s (move (current_pid s) (Some r) False s) (sems s) (mutexes s) s' \<and> conts s' = (conts s)(current_pid s := Some k)"
proof -
  obtain cur where cur: "k_wf s" "get_proc (ptable s) (current_pid s) = Some cur" "pr_state cur = PROC_RUN" "\<not> isrflag cur"
    by (rule k_inv_cur [OF kern_okD(1) [OF assms(1)]])
  have wf: "q_wf s" "tmr_core s" "length (ptable s) \<le> length (soft_tmrs s)"
      "p \<in> fst ` set (tmr_view s) \<longleftrightarrow> (\<exists>pr. get_proc (ptable s) p = Some pr \<and> timed pr)" for p
    using cur(1) by (simp_all add: k_wf_q tmr_ok_def)
  have "\<exists>s'. process_block r PROC_WAIT k s = Some s' \<and> k_inv s' \<and> block_frame s s' \<and> conts s' = (conts s)(current_pid s := Some k) \<and>
     wview s' = (wview s)(current_pid s \<mapsto> moved (Some r) (PROC_WAIT = PROC_TIMED_WAIT) (wait_key cur))"
    by (rule process_block_eq [OF wf(1) cur(2-4) assms(2,3) _ wf(2,3)]) (use wf(4) in simp_all)
  then obtain s' where s': "process_block r PROC_WAIT k s = Some s'" "k_inv s'" "block_frame s s'"
      "conts s' = (conts s)(current_pid s := Some k)" "wview s' = (wview s)(current_pid s \<mapsto> moved (Some r) False (wait_key cur))"
    by auto
  have w: "wview s' = move (current_pid s) (Some r) False s" using s'(5) cur(2) by (simp add: move_def wview_def [abs_def])
  have fr: "sems s' = sems s" "mutexes s' = mutexes s" "idle_task_pid s' = idle_task_pid s" using s'(3) by (simp_all add: block_frame_def)
  have "conts_ok tw s'" by (rule conts_ok_upd [OF kern_okD(2) [OF assms(1)] fr(3,1,2) s'(4) assms(4,2)])
  moreover have "tmr_view s' = tmr_view s" using tmr_frame(1) [of s' s] s'(3) by (simp add: block_frame_def)
  then have "sleepers s \<subseteq> sleepers s'"
    by (intro sleepers_keep [OF cur_awake [OF kern_okD(1) [OF assms(1)]]]) (simp_all add: w move_def)
  ultimately show ?thesis
    using s'(1,2,4) w fr pids_ok_move [OF kern_okD(3) [OF assms(1)]] by (intro exI [of _ s']) (simp add: becomes_defs kern_ok_def)
qed

lemma unblock_ok:
  assumes "kern_ok tw s" "get_queue r s = Some q" "waiters r s \<noteq> {}"
  shows "\<exists>p s'. process_unblock r s = Some s' \<and> p \<in> waiters r s \<and>
     (\<forall>x \<in> waiters r s. prio_of (ptable s) p \<le> prio_of (ptable s) x) \<and>
     becomes tw s (move p None False s) (sems s) (mutexes s) s' \<and> resched s' \<and> current_pid s' = current_pid s \<and> conts s' = conts s"
proof -
  have wq: "set (pq_pids q) = waiters r s" "pq_pids q \<noteq> []" using waiters_queue [OF kern_okD(1) [OF assms(1)] assms(2)] assms(3) by auto
  obtain p s' pr pr' where u: "process_unblock r s = Some s'" "k_inv s'" "p \<in> set (pq_pids q)"
      "\<forall>x \<in> set (pq_pids q). prio_of (ptable s) p \<le> prio_of (ptable s) x" "resched s'" "current_pid s' = current_pid s"
      "idle_task_pid s' = idle_task_pid s" "conts s' = conts s" "get_proc (ptable s) p = Some pr"
      "wview s' = (wview s)(p \<mapsto> moved None False (wait_key pr))" "sems s' = sems s" "mutexes s' = mutexes s"
      "tmr_view s' = filter (\<lambda>(q, _). q \<noteq> p) (tmr_view s)"
    using process_unblock_eq [OF kern_okD(1) [OF assms(1)] assms(2) wq(2)] by blast
  have w: "wview s' = move p None False s" using u(9,10) by (simp add: move_def wview_def [abs_def])
  have "conts_ok tw s'" by (rule conts_ok_cong [OF kern_okD(2) [OF assms(1)] u(7) iffD2 [OF cont_ok_same [OF u(11,12)]] u(8)])
  moreover have "\<not> asleep (wview s p)" using waiting_awake u(3) wq(1) by blast
  then have "sleepers s \<subseteq> sleepers s'" by (rule sleepers_keep) (use u(13) in \<open>auto simp: w move_def\<close>)
  ultimately show ?thesis
    using u(1-8,11,12) w wq(1) pids_ok_move [OF kern_okD(3) [OF assms(1)]]
    by (intro exI [of _ p] exI [of _ s']) (simp add: becomes_defs kern_ok_def)
qed

lemma exit_ok:
  assumes "kern_ok tw s"
  shows "\<exists>s'. sys_exit s = Some s' \<and> becomes tw s (wview s) (sems s) (mutexes s) s' \<and> conts s' = conts s"
proof -
  obtain s' where s': "sys_exit s = Some s'" "k_inv s'" "sched_frame s s'" "conts s' = conts s"
    using sys_exit_eq [OF kern_okD(1) [OF assms]] by blast
  have fr: "sem_heap s' = sem_heap s" "mutex_heap s' = mutex_heap s" "idle_task_pid s' = idle_task_pid s" "wview s' = wview s"
    using s'(3) sched_frame_wview [OF s'(3)] by (simp_all add: sched_frame_def)
  have "conts_ok tw s'" by (rule conts_ok_cong [OF kern_okD(2) [OF assms] fr(3) _ s'(4)]) (use fr cont_ok_same [of s' s] in simp)
  moreover have "sleepers s' = sleepers s"
    using sleepers_same [OF tmr_frame(1) fr(4)] s'(3) by (simp add: sched_frame_def)
  ultimately show ?thesis using s' fr kern_okD(3) [OF assms] by (simp add: becomes_defs kern_ok_def)
qed

lemma irq_ok:
  assumes "kern_ok tw s"
  shows "\<exists>s'. timer_irq s = Some s' \<and>
     arrives tw s (\<lambda>p. map_option (if p \<in> due s then moved None False else id) (wview s p)) (sems s) (mutexes s) s' \<and>
     conts s' = conts s \<and> tmr_view s' = tick_view (tmr_view s)"
proof -
  obtain s' where s': "timer_irq s = Some s'" "k_inv s'" "tmr_view s' = tick_view (tmr_view s)"
      "wview s' = (\<lambda>p. map_option (if p \<in> due s then moved None False else id) (wview s p))"
      "idle_task_pid s' = idle_task_pid s" "conts s' = conts s" "sems s' = sems s" "mutexes s' = mutexes s"
    using timer_irq_eq [OF kern_okD(1) [OF assms]] by blast
  have "conts_ok tw s'" by (rule conts_ok_cong [OF kern_okD(2) [OF assms] s'(5) iffD2 [OF cont_ok_same [OF s'(7,8)]] s'(6)])
  moreover have "pids_ok (wview s')"
    by (rule pids_ok_moved [OF kern_okD(3) [OF assms]]) (auto simp: s'(4) option.map_id)
  ultimately show ?thesis using s' by (intro exI [of _ s']) (simp add: arrives_def kern_ok_def)
qed

lemma sleep_ok:
  assumes "kern_ok tw s" "current_pid s \<noteq> idle_task_pid s"
  shows "\<exists>s'. sys_sleep ms s = Some (Blocked, s') \<and> becomes tw s (move (current_pid s) None True s) (sems s) (mutexes s) s' \<and>
     conts s' = (conts s)(current_pid s := Some K_sleep) \<and>
     tmr_view s' = tmr_view s @ [(current_pid s, if ms_to_ticks s ms = 0 then 1 else ms_to_ticks s ms)]"
proof -
  obtain s' cur where s': "sys_sleep ms s = Some (Blocked, s')" "k_inv s'" "conts s' = (conts s)(current_pid s := Some K_sleep)"
      "idle_task_pid s' = idle_task_pid s" "sem_heap s' = sem_heap s" "mutex_heap s' = mutex_heap s"
      "tmr_view s' = tmr_view s @ [(current_pid s, if ms_to_ticks s ms = 0 then 1 else ms_to_ticks s ms)]"
      "get_proc (ptable s) (current_pid s) = Some cur" "wview s' = (wview s)(current_pid s \<mapsto> moved None True (wait_key cur))"
    using sys_sleep_eq [OF kern_okD(1) [OF assms(1)] assms(2)] by blast
  have w: "wview s' = move (current_pid s) None True s" using s'(8,9) by (simp add: move_def wview_def [abs_def])
  have "conts_ok tw s'" by (rule conts_ok_upd [OF kern_okD(2) [OF assms(1)] s'(4) _ _ s'(3) _ assms(2)]) (use s' in simp_all)
  moreover have "sleepers s \<subseteq> sleepers s'"
    by (rule sleepers_keep [OF cur_awake [OF kern_okD(1) [OF assms(1)]]]) (simp_all add: w move_def s'(7))
  ultimately show ?thesis
    using s'(1-7) w pids_ok_move [OF kern_okD(3) [OF assms(1)]] by (intro exI [of _ s']) (simp add: becomes_defs kern_ok_def)
qed

text \<open>The current process has no timer, so there is room for one and nothing to remove.\<close>

lemma cur_no_timer:
  assumes "k_inv s"
  shows "current_pid s \<notin> fst ` set (tmr_view s)" "current_pid s \<noteq> 255" "nactive s < length (soft_tmrs s)"
proof -
  obtain cur where cur: "k_wf s" "get_proc (ptable s) (current_pid s) = Some cur" "pr_state cur = PROC_RUN"
    by (rule k_inv_cur [OF assms])
  have "tmr_ok s" "\<not> timed cur" using cur(1,3) by (simp_all add: k_wf_def timed_def)
  from tmr_room [OF this(1) cur(2) this(2)]
  show "current_pid s \<notin> fst ` set (tmr_view s)" "current_pid s \<noteq> 255" "nactive s < length (soft_tmrs s)" by auto
qed

lemma remove_tmr_none:
  assumes "tmr_core s" "p \<notin> fst ` set (tmr_view s)" "p \<noteq> 255"
  shows "remove_tmr p s = Some (0, s)"
proof -
  have "tmr_pid (soft_tmrs s ! i) \<noteq> p" if "i < length (soft_tmrs s)" for i
  proof (cases "int i \<in> set (tmr_ids s)")
    case True
    then have "tmr_pid (soft_tmrs s ! i) \<in> fst ` set (tmr_view s)" by (force simp: tmr_view_def)
    then show ?thesis using assms(2) by blast
  next
    case False
    then show ?thesis using that assms(1,3) by (simp add: tmr_core_def)
  qed
  then have "\<not> scan_table (\<lambda>t. tmr_pid t = p) 0 (soft_tmrs s) < length (soft_tmrs s)" unfolding scan_table_less by blast
  then show ?thesis by (simp add: remove_tmr_def Let_def)
qed

lemma self_pid:
  assumes "kern_ok tw s"
  obtains self where "get_proc (ptable s) (current_pid s) = Some self" "pr_pid self = current_pid s"
proof -
  obtain cur where cur: "get_proc (ptable s) (current_pid s) = Some cur" "is_allocated cur"
    by (rule k_inv_cur [OF kern_okD(1) [OF assms]])
  have "wview s (current_pid s) = Some (pr_pid cur, priority cur, True, blockq cur, waiting cur, timed cur)"
    using cur by (simp add: wview_def wait_key_def)
  then have "pr_pid cur = current_pid s" using kern_okD(3) [OF assms] by (auto simp: pids_ok_def)
  then show thesis using that cur(1) by blast
qed

lemma timed_block_ok:
  assumes "kern_ok tw s" "current_pid s \<noteq> idle_task_pid s" "get_queue r s = Some q" "cont_ok tw k s"
  shows "\<exists>s1 s'. add_tmr (current_pid s) ms s = Some (0, s1) \<and> process_block r PROC_TIMED_WAIT k s1 = Some s' \<and>
     becomes tw s (move (current_pid s) (Some r) True s) (sems s) (mutexes s) s' \<and>
     tmr_view s' = tmr_view s @ [(current_pid s, if ms_to_ticks s ms = 0 then 1 else ms_to_ticks s ms)]"
proof -
  let ?c = "current_pid s"
  note inv = kern_okD(1) [OF assms(1)]
  obtain cur where cur: "k_wf s" "get_proc (ptable s) ?c = Some cur" "pr_state cur = PROC_RUN" "\<not> isrflag cur" "is_allocated cur"
    by (rule k_inv_cur [OF inv])
  have wf: "q_wf s" "tmr_core s" "length (ptable s) \<le> length (soft_tmrs s)"
      "p \<in> fst ` set (tmr_view s) \<longleftrightarrow> (\<exists>pr. get_proc (ptable s) p = Some pr \<and> timed pr)" for p
    using cur(1) by (simp_all add: k_wf_q tmr_ok_def)
  define ticks where "ticks = (if ms_to_ticks s ms = 0 then 1 else ms_to_ticks s ms)"
  obtain ts act where a: "add_tmr ?c ms s = Some (0, s\<lparr>soft_tmrs := ts, active_tmrs := act, nactive := nactive s + 1\<rparr>)"
     "length ts = length (soft_tmrs s)"
     "tmr_core (s\<lparr>soft_tmrs := ts, active_tmrs := act, nactive := nactive s + 1\<rparr>)"
     "tmr_view (s\<lparr>soft_tmrs := ts, active_tmrs := act, nactive := nactive s + 1\<rparr>) = tmr_view s @ [(?c, ticks)]"
    using add_tmr_eq [OF wf(2) cur_no_timer(2,1,3) [OF inv] ticks_def] by blast
  define s1 where "s1 = s\<lparr>soft_tmrs := ts, active_tmrs := act, nactive := nactive s + 1\<rparr>"
  have s1: "q_wf s1" "get_proc (ptable s1) (current_pid s1) = Some cur" "current_pid s1 \<noteq> idle_task_pid s1" "get_queue r s1 = Some q"
      "tmr_core s1" "tmr_view s1 = tmr_view s @ [(?c, ticks)]" "length (ptable s1) \<le> length (soft_tmrs s1)"
    using wf(1,3) q_wf_cong [of s1 s] cur(2) assms(2,3) get_queue_frame [of s1 s r] a by (simp_all add: s1_def)
  have "\<exists>s'. process_block r PROC_TIMED_WAIT k s1 = Some s' \<and> k_inv s' \<and> block_frame s1 s' \<and>
     conts s' = (conts s1)(current_pid s1 := Some k) \<and>
     wview s' = (wview s1)(current_pid s1 \<mapsto> moved (Some r) (PROC_TIMED_WAIT = PROC_TIMED_WAIT) (wait_key cur))"
    by (rule process_block_eq [OF s1(1,2) cur(3,4) s1(3,4) _ s1(5,7)]) (use wf(4) s1(6) in \<open>auto simp: s1_def\<close>)
  then obtain s' where s': "process_block r PROC_TIMED_WAIT k s1 = Some s'" "k_inv s'" "block_frame s1 s'"
      "conts s' = (conts s)(?c := Some k)" "wview s' = (wview s)(?c \<mapsto> moved (Some r) True (wait_key cur))"
    by (auto simp: s1_def wview_def [abs_def])
  have w: "wview s' = move ?c (Some r) True s" using s'(5) cur(2) by (simp add: move_def wview_def [abs_def])
  have fr: "sems s' = sems s" "mutexes s' = mutexes s" "idle_task_pid s' = idle_task_pid s"
    using s'(3) by (simp_all add: block_frame_def s1_def)
  have "conts_ok tw s'" by (rule conts_ok_upd [OF kern_okD(2) [OF assms(1)] fr(3,1,2) s'(4) assms(4,2)])
  moreover have tv: "tmr_view s' = tmr_view s1" using tmr_frame(1) [of s' s1] s'(3) by (simp add: block_frame_def)
  moreover have "sleepers s \<subseteq> sleepers s'" by (rule sleepers_keep [OF cur_awake [OF inv]]) (simp_all add: w move_def tv s1(6))
  ultimately show ?thesis
    using s'(1,2) w fr a(1) s1(6) pids_ok_move [OF kern_okD(3) [OF assms(1)]]
    by (intro exI [of _ s1] exI [of _ s']) (simp add: becomes_defs kern_ok_def s1_def ticks_def)
qed

lemma resumed_ok:
  assumes "kern_ok tw s" "s' = s\<lparr>conts := (conts s)(current_pid s := None)\<rparr>"
  shows "becomes tw s (wview s) (sems s) (mutexes s) s'" "current_pid s' = current_pid s" "sem_heap s' = sem_heap s" "mutex_heap s' = mutex_heap s"
proof -
  have "get_queue r s' = get_queue r s" for r by (rule get_queue_frame) (simp_all add: assms(2))
  then have "k_inv s'" using k_inv_vals [of s' s] kern_okD(1) [OF assms(1)] by (simp add: assms(2))
  moreover have "cont_ok tw k s' = cont_ok tw k s" for k by (cases k) (simp_all add: assms(2))
  then have "conts_ok tw s'" using kern_okD(2) [OF assms(1)] by (simp add: conts_ok_def assms(2))
  ultimately show "becomes tw s (wview s) (sems s) (mutexes s) s'"
    using kern_okD(3) [OF assms(1)] 
    by (simp add: becomes_defs kern_ok_def) (simp add: assms(2) wview_def [abs_def] sleepers_def tmr_view_def tmr_ids_def)
qed (simp_all add: assms(2))

lemma create_ok:
  assumes "kern_ok tw s" "idle_task_pid s = 0" "unat prio < length (ready_q s)" "length (ready_q s) \<le> 128"
  shows "\<exists>v w s'. sys_elf_process_create prio s = Some (Ret v, s') \<and> becomes tw s w (sems s) (mutexes s) s' \<and>
     (w = wview s \<or> (\<exists>p pr. get_proc (ptable s) p = Some pr \<and> \<not> is_allocated pr \<and>
        w = (wview s)(p \<mapsto> (p, uint prio, True, None, False, False))))"
proof -
  obtain p s1 where c: "proc_create prio s = Some (p, s1)" "k_inv s1" "current_pid s1 = current_pid s" "conts s1 = conts s"
     "idle_task_pid s1 = idle_task_pid s" "sem_heap s1 = sem_heap s" "mutex_heap s1 = mutex_heap s"
     and tv: "tmr_view s1 = tmr_view s" and new: "if p = 255 then s1 = s \<and> (\<forall>x pr. get_proc (ptable s) x = Some pr \<longrightarrow> is_allocated pr)
      else (\<exists>pr pr'. get_proc (ptable s) p = Some pr \<and> \<not> is_allocated pr \<and> get_proc (ptable s1) = (get_proc (ptable s))(p \<mapsto> pr') \<and>
        is_allocated pr' \<and> pr_state pr' = PROC_NEW \<and> priority pr' = uint prio \<and> resched s1 \<and>
        wview s1 = (wview s)(p \<mapsto> (p, uint prio, True, None, False, False)))"
    using proc_create_eq [OF kern_okD(1) [OF assms(1)] assms(2-4)] by blast
  show ?thesis
  proof (cases "p = 255")
    case True
    then have "sys_elf_process_create prio s = Some (Ret (- 1), s)" using c(1) new by (simp add: sys_elf_process_create_def)
    then show ?thesis using becomes_refl [OF assms(1)] by blast
  next
    case False
    define s' where "s' = s1\<lparr>conts := (conts s1)(p := None)\<rparr>"
    obtain pr where pr: "get_proc (ptable s) p = Some pr" "\<not> is_allocated pr"
        "wview s1 = (wview s)(p \<mapsto> (p, uint prio, True, None, False, False))"
      using new False by auto
    have "get_queue r s' = get_queue r s1" for r by (rule get_queue_frame) (simp_all add: s'_def)
    then have k: "k_inv s'" using k_inv_vals [of s' s1] c(2) by (simp add: s'_def)
    have "cont_ok tw k s' = cont_ok tw k s" for k by (cases k) (simp_all add: s'_def c)
    then have c_ok: "conts_ok tw s'" using kern_okD(2) [OF assms(1)] by (simp add: conts_ok_def s'_def c)
    have w: "wview s' = wview s1" by (simp add: s'_def wview_def [abs_def])
    have p_ok: "pids_ok (wview s1)" using kern_okD(3) [OF assms(1)] by (simp add: pr(3) pids_ok_def)
    have "\<not> asleep (wview s p)" using pr(1,2) by (simp add: asleep_def wview_def wait_key_def timed_def)
    moreover have "tmr_view s' = tmr_view s" using tv tmr_frame(1) [of s' s1] by (simp add: s'_def)
    ultimately have "sleepers s \<subseteq> sleepers s'" by (intro sleepers_keep [of s p s']) (simp_all add: w pr(3))
    moreover note k c_ok w p_ok
    ultimately have "becomes tw s (wview s1) (sems s) (mutexes s) s'"
      by (simp add: becomes_defs kern_ok_def) (simp add: s'_def c)
    moreover have "sys_elf_process_create prio s = Some (Ret (sint p), s')"
      using c(1) False by (simp add: sys_elf_process_create_def s'_def)
    ultimately show ?thesis using pr by blast
  qed
qed

text \<open>The end of the current process.\<close>

definition ended :: "pid \<Rightarrow> kernel \<Rightarrow> pid \<Rightarrow> wait_info option" where
  "ended p s = (wview s)(p := map_option (\<lambda>(i, pri, _). (i, pri, False, None, False, False)) (wview s p))"

lemma invalidate_wf:
  assumes "k_inv s" "current_pid s \<noteq> idle_task_pid s"
  shows "\<exists>pt cur. process_invalidate (current_pid s) s = Some (s\<lparr>ptable := pt\<rparr>) \<and> k_wf (s\<lparr>ptable := pt\<rparr>) \<and>
     get_proc pt (current_pid s) = Some cur \<and> pr_state cur = PROC_DEAD \<and> \<not> is_allocated cur \<and> wview (s\<lparr>ptable := pt\<rparr>) = ended (current_pid s) s"
proof -
  let ?c = "current_pid s"
  obtain cur where cur: "k_wf s" "get_proc (ptable s) ?c = Some cur" "pr_state cur = PROC_RUN" "is_allocated cur" "blockq cur = None"
    by (rule k_inv_cur [OF assms(1)])
  have ok: "procs_ok s" "ready_ok s" "wait_ok s" "tmr_ok s" using cur(1) by (simp_all add: k_wf_def)
  define f where "f = (\<lambda>pr :: process_struct. pr\<lparr>is_allocated := False, pr_state := PROC_DEAD\<rparr>)"
  obtain pt where pt: "upd_proc ?c f s = Some (s\<lparr>ptable := pt\<rparr>)" "length pt = length (ptable s)"
      "get_proc pt = (get_proc (ptable s))(?c \<mapsto> f cur)"
    using upd_proc_eq [OF cur(2), of f] by blast
  let ?s = "s\<lparr>ptable := pt\<rparr>"
  have gq: "get_queue r ?s = get_queue r s" for r by (rule get_queue_frame) simp_all
  have pq: "pq_ok pt q = pq_ok (ptable s) q" for q by (rule pq_ok_cong) (use cur(2) in \<open>simp add: pt(3) f_def\<close>)
  have nw: "\<not> waiting cur" "\<not> timed cur" "\<not> waiting (f cur)" "\<not> timed (f cur)" using cur(3) by (simp_all add: waiting_def timed_def f_def)
  have po: "proc_ok ?s = proc_ok s" by (simp add: fun_eq_iff proc_ok_def gq)
  have "proc_ok s ?c (f cur)" using nw by (simp add: proc_ok_def) (simp add: f_def)
  then have "procs_ok ?s" using ok(1) assms(2) pt(2) unfolding procs_ok_def po by (auto simp: pt(3))
  moreover have "ready_count (get_proc pt) i j x = ready_count (get_proc (ptable s)) i j x" for i j x
    using cur(2,3) by (simp add: ready_count_def pt(3) f_def)
  then have "ready_ok ?s" using ok(2) pt(2) by (simp add: ready_ok_def)
  moreover have "wait_ok ?s" using ok(3) pt(2) cur(2) nw unfolding wait_ok_def gq by (simp add: pq pt(3))
  moreover have "tmr_ok ?s" using ok(4) pt(2) cur(2) nw unfolding tmr_ok_def by (simp add: pt(3) tmr_core_def tmr_view_def tmr_ids_def)
  moreover have "wview ?s = ended ?c s"
    using cur(2,5) nw by (auto simp: wview_def ended_def fun_eq_iff pt(3) wait_key_def) (simp_all add: f_def)
  ultimately show ?thesis
    using pt(1,3) by (intro exI [of _ pt] exI [of _ "f cur"]) (simp add: process_invalidate_def k_wf_def f_def)
qed

lemma elf_exit_ok:
  assumes "kern_ok tw s" "current_pid s \<noteq> idle_task_pid s"
  shows "\<exists>s'. sys_elf_exit s = Some (Blocked, s') \<and> becomes tw s (ended (current_pid s) s) (sems s) (mutexes s) s'"
proof -
  let ?c = "current_pid s"
  obtain pt cur where pt: "process_invalidate ?c s = Some (s\<lparr>ptable := pt\<rparr>)" "k_wf (s\<lparr>ptable := pt\<rparr>)"
     "get_proc pt ?c = Some cur" "pr_state cur = PROC_DEAD" "\<not> is_allocated cur" "wview (s\<lparr>ptable := pt\<rparr>) = ended ?c s"
    using invalidate_wf [OF kern_okD(1) [OF assms(1)] assms(2)] by blast
  define s0 where "s0 = s\<lparr>ptable := pt\<rparr>"
  have s0: "k_wf s0" "get_proc (ptable s0) (current_pid s0) = Some cur" "wview s0 = ended ?c s" using pt by (simp_all add: s0_def)
  obtain same s1 pr where s1: "scheduler s0 = Some (same, s1)" "k_wf s1" "sched_frame s0 s1" "conts s1 = conts s0"
      "get_proc (ptable s1) (current_pid s1) = Some pr" "pr_state pr = PROC_RUN" "ctx_save_process s1 = None"
      "same \<longrightarrow> current_pid s1 = current_pid s0"
    using scheduler_eq [OF s0(1,2)] pt(4) by auto
  have "is_allocated pr" using s1(2,5,6) procs_okD [of s1 "current_pid s1" pr] by (simp add: k_wf_def proc_ok_def)
  then have "current_pid s1 \<noteq> current_pid s0"
    using fun_cong [OF sched_frame_wview [OF s1(3)], of "current_pid s1"] s1(5) s0(2) pt(5)
    by (auto simp: wview_def wait_key_def)
  then have "\<not> same" using s1(8) by blast
  obtain pt1 where pt1: "restore_context s1 = Some ((pit_reset s1)\<lparr>ptable := pt1\<rparr>)" "k_inv ((pit_reset s1)\<lparr>ptable := pt1\<rparr>)"
      "get_proc pt1 = (get_proc (ptable s1))(current_pid s1 \<mapsto> pr\<lparr>isrflag := False\<rparr>)"
    using restore_context_eq [OF s1(2,5,6)] by blast
  define s' where "s' = (pit_reset s1)\<lparr>ptable := pt1\<rparr>"
  have "sys_elf_exit s = Some (Blocked, s')"
    using pt(1) s1(1,7) pt1(1) \<open>\<not> same\<close> by (simp add: sys_elf_exit_def suspend_def s'_def flip: s0_def)
  moreover have "wview s' = wview s1"
    using s1(5) by (auto simp: s'_def wview_def fun_eq_iff pt1(3) wait_key_def waiting_def timed_def)
  then have w: "wview s' = ended ?c s" using sched_frame_wview [OF s1(3)] s0(3) by simp
  moreover have fr: "sems s' = sems s" "mutexes s' = mutexes s" "idle_task_pid s' = idle_task_pid s" "conts s' = conts s"
    using s1(3,4) by (simp_all add: s'_def sched_frame_def s0_def)
  moreover have "conts_ok tw s'" by (rule conts_ok_cong [OF kern_okD(2) [OF assms(1)] fr(3) iffD2 [OF cont_ok_same [OF fr(1,2)]] fr(4)])
  moreover have "pids_ok (ended ?c s)"
    using kern_okD(3) [OF assms(1)] by (cases "wview s ?c") (auto simp: pids_ok_def ended_def split: if_splits)
  moreover have "tmr_view s' = tmr_view s" using s1(3) tmr_frame(1) [of s' s] by (simp add: s'_def sched_frame_def s0_def)
  then have "sleepers s \<subseteq> sleepers s'"
    by (intro sleepers_keep [OF cur_awake [OF kern_okD(1) [OF assms(1)]]]) (simp_all add: w ended_def)
  ultimately show ?thesis using pt1(2) by (intro exI [of _ s']) (simp add: becomes_defs kern_ok_def flip: s'_def)
qed

end
