(* ===== verification/Kern_Calls.thy ===== *)
theory Kern_Calls
  imports Kern_Steps
begin

text \<open>
  The semaphore and mutex calls in terms of what can be observed: the values of the semaphores and
  mutexes and the processes that wait for them.
\<close>

section \<open>Semaphore calls\<close>

definition sem_with :: "nat \<Rightarrow> u8 \<Rightarrow> kernel \<Rightarrow> sem_val list" where
  "sem_with i v s = (let x = sem_heap s ! i in (sems s)[i := (sem_id x, v, sem_owner x, sem_unlinked x)])"

lemma get_semD:
  assumes "get_sem_by_semt sem s = Some i"
  shows "i < length (sem_heap s)" "sem_id (sem_heap s ! i) \<noteq> 255"
  using assms by (auto simp: get_sem_by_semt_def split: option.splits if_splits)

lemma get_sem_cong:
  assumes "length (sem_heap s') = length (sem_heap s)" "\<And>i. i < length (sem_heap s) \<Longrightarrow> sem_id (sem_heap s' ! i) = sem_id (sem_heap s ! i)"
  shows "get_sem_by_semt sem s' = get_sem_by_semt sem s"
  using assms by (auto simp: get_sem_by_semt_def split: option.splits)

lemma sem_queue: "i < length (sem_heap s) \<Longrightarrow> get_queue (Sem_q i) s = Some (sem_wait_q (sem_heap s ! i))"
  by (simp add: get_queue_def array_simps)

lemma mutex_queue: "i < length (mutex_heap s) \<Longrightarrow> get_queue (Mutex_q i) s = Some (mutex_wait_q (mutex_heap s ! i))"
  by (simp add: get_queue_def array_simps)

lemma sem_wait_end_ok:
  assumes "kern_ok tw s" "i < length (sem_heap s)"
  shows "\<exists>s'. sem_wait_end i s = Some (Ret (if sem_id (sem_heap s ! i) = 255 then - 1 else 0), s') \<and>
     becomes tw s (wview s) (sems s) (mutexes s) s' \<and> conts s' = conts s"
  using fail_ok [OF assms(1), of EIDRM] becomes_refl [OF assms(1)] assms(2)
  by (cases "sem_id (sem_heap s ! i) = 255") (auto simp: sem_wait_end_def array_simps)

text \<open>The value changes by one.\<close>

lemma sem_step_ok:
  assumes "kern_ok tw s" "i < length (sem_heap s)" "f = (\<lambda>x. x\<lparr>sem_value := g (sem_value x)\<rparr>)"
  shows "\<exists>s'. upd_sem i f s = Some s' \<and> becomes tw s (wview s) (sem_with i (g (sem_value (sem_heap s ! i))) s) (mutexes s) s' \<and>
     arr_get (sem_heap s') i = Some (f (sem_heap s ! i)) \<and> get_sem_by_semt sem s' = get_sem_by_semt sem s \<and>
     length (sem_heap s') = length (sem_heap s) \<and> current_pid s' = current_pid s \<and> resched s' = resched s \<and> conts s' = conts s"
proof -
  obtain s' where s': "upd_sem i f s = Some s'" "becomes tw s (wview s) ((sems s)[i := sem_rest (f (sem_heap s ! i))]) (mutexes s) s'"
      "sem_heap s' = (sem_heap s)[i := f (sem_heap s ! i)]" "current_pid s' = current_pid s" "conts s' = conts s" "resched s' = resched s"
    using upd_sem_ok [OF assms(1,2), of f] by (auto simp: assms(3))
  have "get_sem_by_semt sem s' = get_sem_by_semt sem s"
    using assms(2,3) s'(3) by (intro get_sem_cong) (auto simp: nth_list_update)
  then show ?thesis
    using s' assms(2) by (intro exI [of _ s']) (simp add: array_simps sem_with_def sem_rest_def Let_def assms(3))
qed

lemma becomes_len:
  assumes "becomes tw s w (sem_with i v s) mv s'"
  shows "length (sem_heap s') = length (sem_heap s)"
proof -
  have "length (sems s') = length (sem_with i v s)" using assms by (simp add: becomes_defs)
  then show ?thesis by (simp add: sem_with_def Let_def)
qed

lemma becomes_eqD:
  assumes "becomes tw s w sv mv s'"
  shows "kern_ok tw s'" "idle_task_pid s' = idle_task_pid s" "wview s' = w" "sems s' = sv" "mutexes s' = mv"
  using assms by (simp_all add: becomes_defs)

lemma becomes_sleepers: "becomes tw s w sv mv s' \<Longrightarrow> sleepers s \<subseteq> sleepers s'"
  by (simp add: becomes_def)

lemma sem_wait_ok:
  assumes "kern_ok tw s" "current_pid s \<noteq> idle_task_pid s" "get_sem_by_semt sem s = Some i" "v = sem_value (sem_heap s ! i) - 1"
  shows "\<exists>s'. sys_sem_wait_x sem s = Some (if sint v < 0 then Blocked else Ret 0, s') \<and>
     becomes tw s (if sint v < 0 then move (current_pid s) (Some (Sem_q i)) False s else wview s) (sem_with i v s) (mutexes s) s' \<and>
     conts s' = (if sint v < 0 then (conts s)(current_pid s := Some (K_sem_wait i)) else conts s)"
proof -
  note i = get_semD [OF assms(3)]
  obtain s1 where s1: "upd_sem i (\<lambda>x. x\<lparr>sem_value := sem_value x - 1\<rparr>) s = Some s1"
      "becomes tw s (wview s) (sem_with i v s) (mutexes s) s1"
      "arr_get (sem_heap s1) i = Some ((sem_heap s ! i)\<lparr>sem_value := v\<rparr>)"
      "length (sem_heap s1) = length (sem_heap s)" "current_pid s1 = current_pid s" "conts s1 = conts s"
    using sem_step_ok [OF assms(1) i(1) refl, of "\<lambda>v. v - 1" sem] assms(4) by auto
  note b = becomes_eqD [OF s1(2)]
  show ?thesis
  proof (cases "sint v < 0")
    case True
    have "get_queue (Sem_q i) s1 = Some (sem_wait_q (sem_heap s1 ! i))" by (rule sem_queue) (use i s1(4) in simp)
    from block_ok [OF b(1) _ this, of "K_sem_wait i"] obtain s' where s': "process_block (Sem_q i) PROC_WAIT (K_sem_wait i) s1 = Some s'"
        "becomes tw s1 (move (current_pid s) (Some (Sem_q i)) False s1) (sems s1) (mutexes s1) s'"
        "conts s' = (conts s)(current_pid s := Some (K_sem_wait i))"
      using assms(2) b(2) s1(4-6) i(1) by auto
    have "move p q t s1 = move p q t s" for p q t by (simp add: move_def b(3))
    then show ?thesis
      using assms(3) s1(1,3) s' True becomes_trans [OF s1(2) s'(2)] b by (simp add: sys_sem_wait_x_def)
  next
    case False
    obtain s' where s': "sem_wait_end i s1 = Some (Ret (if sem_id (sem_heap s1 ! i) = 255 then - 1 else 0), s')"
        "becomes tw s1 (wview s1) (sems s1) (mutexes s1) s'" "conts s' = conts s"
      using sem_wait_end_ok [OF b(1), of i] i(1) s1(4,6) by auto
    have "sem_id (sem_heap s1 ! i) \<noteq> 255" using s1(3,4) i by (auto simp: arr_get_def split: if_splits)
    then show ?thesis
      using assms(3) s1(1,3) s' False becomes_trans [OF s1(2) s'(2)] b by (simp add: sys_sem_wait_x_def)
  qed
qed

lemma sem_timedwait_ok:
  assumes "kern_ok tw s" "current_pid s \<noteq> idle_task_pid s" "get_sem_by_semt sem s = Some i" "v = sem_value (sem_heap s ! i) - 1" tw
  shows "\<exists>s'. sys_sem_timedwait sem ms s = Some (if sint v < 0 then Blocked else Ret 0, s') \<and>
     becomes tw s (if sint v < 0 then move (current_pid s) (Some (Sem_q i)) True s else wview s) (sem_with i v s) (mutexes s) s'"
proof -
  note i = get_semD [OF assms(3)]
  obtain s1 where s1: "upd_sem i (\<lambda>x. x\<lparr>sem_value := sem_value x - 1\<rparr>) s = Some s1"
      "becomes tw s (wview s) (sem_with i v s) (mutexes s) s1"
      "arr_get (sem_heap s1) i = Some ((sem_heap s ! i)\<lparr>sem_value := v\<rparr>)"
      "length (sem_heap s1) = length (sem_heap s)" "current_pid s1 = current_pid s"
    using sem_step_ok [OF assms(1) i(1) refl, of "\<lambda>v. v - 1" sem] assms(4) by auto
  note b = becomes_eqD [OF s1(2)]
  show ?thesis
  proof (cases "sint v < 0")
    case True
    obtain self where self: "get_proc (ptable s1) (current_pid s1) = Some self" "pr_pid self = current_pid s1"
      by (rule self_pid [OF b(1)])
    have "get_queue (Sem_q i) s1 = Some (sem_wait_q (sem_heap s1 ! i))" by (rule sem_queue) (use i s1(4) in simp)
    from timed_block_ok [OF b(1) _ this, of "K_sem_timedwait i" ms] obtain s2 s' where s': "add_tmr (current_pid s1) ms s1 = Some (0, s2)"
        "process_block (Sem_q i) PROC_TIMED_WAIT (K_sem_timedwait i) s2 = Some s'"
        "becomes tw s1 (move (current_pid s) (Some (Sem_q i)) True s1) (sems s1) (mutexes s1) s'"
      using assms(2,5) b(2) s1(4,5) i(1) by auto
    have "move p q t s1 = move p q t s" for p q t by (simp add: move_def b(3))
    then show ?thesis
      using assms(3) s1(1,3) self s' True becomes_trans [OF s1(2) s'(3)] b by (simp add: sys_sem_timedwait_def)
  next
    case False
    obtain s' where s': "sem_wait_end i s1 = Some (Ret (if sem_id (sem_heap s1 ! i) = 255 then - 1 else 0), s')"
        "becomes tw s1 (wview s1) (sems s1) (mutexes s1) s'"
      using sem_wait_end_ok [OF b(1), of i] i(1) s1(4) by auto
    have "sem_id (sem_heap s1 ! i) \<noteq> 255" using s1(3,4) i by (auto simp: arr_get_def split: if_splits)
    then show ?thesis
      using assms(3) s1(1,3) s' False becomes_trans [OF s1(2) s'(2)] b by (simp add: sys_sem_timedwait_def)
  qed
qed

lemma sem_trywait_ok:
  assumes "kern_ok tw s" "get_sem_by_semt sem s = Some i" "v = sem_value (sem_heap s ! i)"
  shows "\<exists>s'. sys_sem_trywait sem s = Some (Ret (if sint v > 0 then 0 else - 1), s') \<and>
     becomes tw s (wview s) (if sint v > 0 then sem_with i (v - 1) s else sems s) (mutexes s) s' \<and> conts s' = conts s"
proof -
  note i = get_semD [OF assms(2)]
  show ?thesis
  proof (cases "sint v > 0")
    case True
    obtain s1 where "upd_sem i (\<lambda>x. x\<lparr>sem_value := sem_value x - 1\<rparr>) s = Some s1" "becomes tw s (wview s) (sem_with i (v - 1) s) (mutexes s) s1"
        "conts s1 = conts s"
      using sem_step_ok [OF assms(1) i(1) refl, of "\<lambda>v. v - 1" sem] assms(3) by auto
    then show ?thesis using True assms(2,3) i by (simp add: sys_sem_trywait_def array_simps)
  next
    case False
    then show ?thesis using fail_ok [OF assms(1), of EAGAIN] assms(2,3) i by (auto simp: sys_sem_trywait_def array_simps)
  qed
qed

lemma sem_getvalue_ok:
  assumes "kern_ok tw s" "get_sem_by_semt sem s = Some i"
  shows "sys_sem_getvalue sem s = Some (Ret 0, Some (sint (sem_value (sem_heap s ! i))), s)"
  using get_semD [OF assms(2)] assms(2) by (simp add: sys_sem_getvalue_def array_simps)

lemma sem_clear_ok:
  assumes "kern_ok tw s" "i < length (sem_heap s)"
  shows "\<exists>s'. sem_clear i s = Some s' \<and> becomes tw s (wview s) ((sems s)[i := (255, 0, 255, False)]) (mutexes s) s' \<and>
     current_pid s' = current_pid s \<and> resched s' = resched s \<and> conts s' = conts s"
  using upd_sem_ok [OF assms, of "\<lambda>x. x\<lparr>sem_id := 255, sem_value := 0, sem_owner := 255, sem_unlinked := False\<rparr>"]
  by (auto simp: sem_clear_def sem_rest_def)

lemma sem_destroy_ok:
  assumes "kern_ok tw s" "get_sem_by_semt sem s = Some i"
    and "busy = (sint (sem_value (sem_heap s ! i)) \<le> 0 \<and> waiters (Sem_q i) s \<noteq> {})"
  shows "\<exists>s'. sys_sem_destroy sem s = Some (Ret (if busy then - 1 else 0), s') \<and>
     becomes tw s (wview s) (if busy then sems s else (sems s)[i := (255, 0, 255, False)]) (mutexes s) s' \<and> resched s' = resched s \<and> conts s' = conts s"
proof -
  note i = get_semD [OF assms(2)]
  have "(item_count (sem_wait_q (sem_heap s ! i)) > 0) = (waiters (Sem_q i) s \<noteq> {})"
    by (rule waiters_queue(4) [OF kern_okD(1) [OF assms(1)] sem_queue [OF i(1)]])
  then show ?thesis
    using fail_ok [OF assms(1), of EBUSY] sem_clear_ok [OF assms(1) i(1)] assms(2,3) i
    by (cases busy) (auto simp: sys_sem_destroy_def array_simps)
qed

lemma waiters_cong: "wview s' = wview s \<Longrightarrow> waiters r s' = waiters r s"
  by (simp add: waiters_def)

text \<open>
  A post either wakes the most urgent of the waiting processes or raises the value, and ends a
  semaphore that was unlinked when the value becomes positive.
\<close>

lemma sem_post_ok:
  assumes "kern_ok tw s" "get_sem_by_semt sem s = Some i" "v = sem_value (sem_heap s ! i) + 1"
  shows "\<exists>w sv s'. sys_sem_post sem s = Some (Ret 0, s') \<and> becomes tw s w sv (mutexes s) s' \<and> conts s' = conts s \<and>
     (if sint v \<le> 0 \<and> waiters (Sem_q i) s \<noteq> {} then
        resched s' \<and> sv = sem_with i v s \<and>
        (\<exists>p \<in> waiters (Sem_q i) s. (\<forall>x \<in> waiters (Sem_q i) s. prio_of (ptable s) p \<le> prio_of (ptable s) x) \<and> w = move p None False s)
      else
        w = wview s \<and> sv = (if sint v > 0 \<and> sem_unlinked (sem_heap s ! i) then (sems s)[i := (255, 0, 255, False)] else sem_with i v s))"
proof -
  note i = get_semD [OF assms(2)]
  obtain s1 where s1: "upd_sem i (\<lambda>x. x\<lparr>sem_value := sem_value x + 1\<rparr>) s = Some s1"
      "becomes tw s (wview s) (sem_with i v s) (mutexes s) s1"
      "arr_get (sem_heap s1) i = Some ((sem_heap s ! i)\<lparr>sem_value := v\<rparr>)" "get_sem_by_semt sem s1 = Some i"
      "length (sem_heap s1) = length (sem_heap s)" "current_pid s1 = current_pid s" "conts s1 = conts s"
    using sem_step_ok [OF assms(1) i(1) refl, of "\<lambda>v. v + 1" sem] assms(2,3) by auto
  have pt: "ptable s1 = ptable s" using s1(1) by (auto simp: upd_sem_def split: bind_splits)
  note b = becomes_eqD [OF s1(2)]
  have h: "sem_heap s1 ! i = (sem_heap s ! i)\<lparr>sem_value := v\<rparr>" using s1(3) by (simp add: arr_get_def split: if_splits)
  have wt: "waiters (Sem_q i) s1 = waiters (Sem_q i) s" by (rule waiters_cong [OF b(3)])
  have q: "get_queue (Sem_q i) s1 = Some (sem_wait_q (sem_heap s1 ! i))" by (rule sem_queue) (use i s1(5) in simp)
  have cnt: "(item_count (sem_wait_q (sem_heap s ! i)) > 0) = (waiters (Sem_q i) s \<noteq> {})"
    using waiters_queue(4) [OF kern_okD(1) [OF b(1)] q] wt h by simp
  show ?thesis
  proof (cases "sint v \<le> 0 \<and> waiters (Sem_q i) s \<noteq> {}")
    case True
    obtain p s' where s': "process_unblock (Sem_q i) s1 = Some s'" "p \<in> waiters (Sem_q i) s"
        "\<forall>x \<in> waiters (Sem_q i) s. prio_of (ptable s) p \<le> prio_of (ptable s) x"
        "becomes tw s1 (move p None False s1) (sems s1) (mutexes s1) s'" "resched s'" "conts s' = conts s"
      using unblock_ok [OF b(1) q] True wt pt s1(7) by auto
    have "becomes tw s (move p None False s) (sem_with i v s) (mutexes s) s'"
      using becomes_trans [OF s1(2) s'(4)] b(3-5) by (simp add: move_def)
    then show ?thesis using assms(2) s1(1,3) s' True cnt by (simp add: sys_sem_post_def) blast
  next
    case False
    then have nu: "\<not> (sint v \<le> 0 \<and> item_count (sem_wait_q (sem_heap s ! i)) > 0)" using cnt by blast
    show ?thesis
    proof (cases "sint v > 0 \<and> sem_unlinked (sem_heap s ! i)")
      case True
      obtain s' where s': "sys_sem_destroy sem s1 = Some (Ret 0, s')" "becomes tw s1 (wview s1) ((sems s1)[i := (255, 0, 255, False)]) (mutexes s1) s'"
          "conts s' = conts s"
        using sem_destroy_ok [OF b(1) s1(4) refl] True h s1(7) by auto
      have "(sem_with i v s)[i := x] = (sems s)[i := x]" for x by (simp add: sem_with_def Let_def)
      then have "becomes tw s (wview s) ((sems s)[i := (255, 0, 255, False)]) (mutexes s) s'"
        using becomes_trans [OF s1(2) s'(2)] b(3-5) by simp
      then show ?thesis using assms(2) s1(1,3) s'(1,3) True False nu by (simp add: sys_sem_post_def)
    next
      case nd: False
      then show ?thesis using assms(2) s1(1-3,7) False nu by (auto simp: sys_sem_post_def)
    qed
  qed
qed

lemma sem_timedwait_end_ok:
  assumes "kern_ok tw s" "i < length (sem_heap s)"
  shows "\<exists>r sv s'. sem_timedwait_end i s = Some (Ret r, s') \<and> becomes tw s (wview s) sv (mutexes s) s' \<and>
     (sv = sems s \<or> sv = sem_with i (sem_value (sem_heap s ! i) + 1) s)"
proof -
  obtain self where self: "get_proc (ptable s) (current_pid s) = Some self" "pr_pid self = current_pid s" by (rule self_pid [OF assms(1)])
  show ?thesis
  proof (cases "timeout self")
    case False
    have "tmr_core s" using kern_okD(1) [OF assms(1)] by (simp add: k_inv_def k_wf_def tmr_ok_def)
    then have "remove_tmr (current_pid s) s = Some (0, s)"
      using cur_no_timer [OF kern_okD(1) [OF assms(1)]] by (intro remove_tmr_none)
    then show ?thesis using False self sem_wait_end_ok [OF assms] by (auto simp: sem_timedwait_end_def)
  next
    case True
    obtain s1 where s1: "upd_sem i (\<lambda>x. x\<lparr>sem_value := sem_value x + 1\<rparr>) s = Some s1"
        "becomes tw s (wview s) (sem_with i (sem_value (sem_heap s ! i) + 1) s) (mutexes s) s1" "current_pid s1 = current_pid s"
      using sem_step_ok [OF assms refl, of "\<lambda>v. v + 1" None] by auto
    have pt1: "ptable s1 = ptable s" using s1(1) by (auto simp: upd_sem_def split: bind_splits)
    note b = becomes_eqD [OF s1(2)]
    define f where "f = (\<lambda>pr :: process_struct. pr\<lparr>timeout := False\<rparr>)"
    have wf: "k_wf s1" "pr_state self = PROC_RUN" "\<not> isrflag self"
      using kern_okD(1) [OF b(1)] self(1) pt1 s1(3) by (auto simp: k_inv_def)
    have g1: "get_proc (ptable s1) (current_pid s1) = Some self" using self(1) pt1 s1(3) by simp
    have f: "wait_key (f self) = wait_key self" "pr_state (f self) = pr_state self" by (simp_all add: f_def wait_key_def waiting_def timed_def)
    obtain pt where pt: "upd_proc (current_pid s1) f s1 = Some (s1\<lparr>ptable := pt\<rparr>)" "k_wf (s1\<lparr>ptable := pt\<rparr>)"
        "get_proc pt = (get_proc (ptable s1))(current_pid s1 \<mapsto> f self)"
      using k_wf_entry [where f = f, OF wf(1) g1 f] by blast
    define s2 where "s2 = s1\<lparr>ptable := pt\<rparr>"
    have w: "wview s2 = wview s1" using g1 f(1) by (auto simp: wview_def fun_eq_iff pt(3) s2_def)
    have "k_inv s2" using pt(2,3) wf(2,3) by (simp add: k_inv_def s2_def f_def)
    moreover have "conts_ok tw s2"
      by (rule conts_ok_cong [OF kern_okD(2) [OF b(1)]]) (simp_all add: s2_def cont_ok_same [of "s1\<lparr>ptable := pt\<rparr>" s1])
    ultimately have "kern_ok tw s2" using kern_okD(3) [OF b(1)] w by (simp add: kern_ok_def)
    moreover from fail_ok [OF this, of ETIMEDOUT] obtain s' where s': "fail ETIMEDOUT s2 = Some (Ret (- 1), s')"
        "becomes tw s2 (wview s2) (sems s2) (mutexes s2) s'" by blast
    moreover have "sleepers s2 = sleepers s1" by (rule sleepers_same [OF tmr_frame(1) w]) (simp_all add: s2_def)
    ultimately have "becomes tw s (wview s) (sem_with i (sem_value (sem_heap s ! i) + 1) s) (mutexes s) s'"
      using b w s1(2) by (auto simp: becomes_defs s2_def)
    then show ?thesis
      using True self s1(1) pt(1) s'(1) by (auto simp: sem_timedwait_end_def s2_def f_def)
  qed
qed

text \<open>A new semaphore, in the first free place of the table, whose queue has nobody.\<close>

lemma sem_init_ok:
  assumes "kern_ok tw s" "\<And>i. i < length (sem_heap s) \<Longrightarrow> sem_id (sem_heap s ! i) = 255 \<Longrightarrow> waiters (Sem_q i) s = {}"
  shows "\<exists>r m sv s'. sys_sem_init pshared val s = Some (Ret r, m, s') \<and> becomes tw s (wview s) sv (mutexes s) s' \<and> conts s' = conts s \<and>
     (r = - 1 \<and> m = None \<and> sv = sems s \<and> (\<forall>x \<in> set (sem_heap s). sem_id x \<noteq> 255) \<or>
      r = 0 \<and> (\<exists>i < length (sem_heap s). sem_id (sem_heap s ! i) = 255 \<and> m = Some (of_nat i) \<and>
        sv = (sems s)[i := (of_nat i, ucast val, if pshared = 0 then current_pid s else 255, False)]))"
proof -
  define i where "i = scan_table (\<lambda>x. sem_id x = 255) 0 (sem_heap s)"
  show ?thesis
  proof (cases "i < length (sem_heap s)")
    case False
    obtain s' where s': "fail ENOSPC s = Some (Ret (- 1), s')" "becomes tw s (wview s) (sems s) (mutexes s) s'" "conts s' = conts s"
      using fail_ok [OF assms(1), of ENOSPC] by blast
    have "\<forall>x \<in> set (sem_heap s). sem_id x \<noteq> 255"
      using False scan_table_less [of "\<lambda>x. sem_id x = 255" "sem_heap s"] by (auto simp: in_set_conv_nth i_def)
    then show ?thesis using s' False by (simp add: sys_sem_init_def Let_def flip: i_def)
  next
    case True
    have id: "sem_id (sem_heap s ! i) = 255" using scan_table_sat [of "\<lambda>x. sem_id x = 255" "sem_heap s"] True by (simp add: i_def)
    note wq = waiters_queue(3) [OF kern_okD(1) [OF assms(1)] sem_queue [OF True]]
    have empty: "pq_pids (sem_wait_q (sem_heap s ! i)) = []" using assms(2) [OF True id] wq by blast
    define f where "f = (\<lambda>x :: sem_info. x\<lparr>sem_id := of_nat i, sem_value := ucast val, sem_unlinked := False,
        sem_wait_q := qinit (sem_wait_q x), sem_owner := (if pshared = 0 then current_pid s else 255)\<rparr>)"
    define s' where "s' = s\<lparr>sem_heap := (sem_heap s)[i := f (sem_heap s ! i)]\<rparr>"
    have "get_queue r s' = (if r = Sem_q i then map_option qinit (get_queue r s) else get_queue r s)" for r
      using True by (cases r) (simp_all add: get_queue_def s'_def arr_get_def f_def nth_list_update)
    then have "k_inv s'"
      using True empty by (intro k_inv_fresh [OF kern_okD(1) [OF assms(1)] _ _ _ _ _ _ _ _ _ sem_queue [of i s]]) (simp_all add: s'_def)
    moreover have "cont_ok tw k s' = cont_ok tw k s" for k by (cases k) (simp_all add: s'_def)
    then have "conts_ok tw s'" using kern_okD(2) [OF assms(1)] by (simp add: conts_ok_def) (simp add: s'_def)
    ultimately have "becomes tw s (wview s) ((sems s)[i := sem_rest (f (sem_heap s ! i))]) (mutexes s) s'"
      using kern_okD(3) [OF assms(1)] 
      by (simp add: becomes_defs kern_ok_def s'_def wview_def [abs_def] map_update sleepers_def tmr_view_def tmr_ids_def)
    moreover have "sys_sem_init pshared val s = Some (Ret 0, Some (of_nat i), s')"
      using True by (simp add: sys_sem_init_def Let_def upd_sem_def array_simps s'_def f_def flip: i_def)
    ultimately show ?thesis using True id
      by (intro exI [of _ 0] exI [of _ "Some (of_nat i)"] exI [of _ "(sems s)[i := sem_rest (f (sem_heap s ! i))]"] exI [of _ s'])
        (auto simp: f_def sem_rest_def s'_def)
  qed
qed

section \<open>Mutex calls\<close>

definition mutex_with :: "nat \<Rightarrow> u32 \<Rightarrow> pid \<Rightarrow> kernel \<Rightarrow> mutex_vals list" where
  "mutex_with i n p s = (let x = mutex_heap s ! i in (mutexes s)[i := (mx_allocated x, n, mx_type x, p)])"

lemma mutex_init_ok:
  assumes "kern_ok tw s" "\<And>i. i < length (mutex_heap s) \<Longrightarrow> \<not> mx_allocated (mutex_heap s ! i) \<Longrightarrow> waiters (Mutex_q i) s = {}"
  shows "\<exists>r m mv s'. sys_pthread_mutex_init False attr s = Some (r, m, s') \<and> becomes tw s (wview s) (sems s) mv s' \<and>
     current_pid s' = current_pid s \<and> conts s' = conts s \<and>
     (r \<noteq> 0 \<and> m = None \<and> mv = mutexes s \<or>
      (\<exists>i ty. i < length (mutex_heap s) \<and> \<not> mx_allocated (mutex_heap s ! i) \<and> r = 0 \<and> m = Some (MUTEX (int i)) \<and>
        mv = (mutexes s)[i := (True, 0, ty, 255)]))"
proof -
  define ty where "ty = (case attr of None \<Rightarrow> PTHREAD_MUTEX_DEFAULT | Some t \<Rightarrow> t)"
  define i where "i = scan_table (\<lambda>x. \<not> mx_allocated x) 0 (mutex_heap s)"
  consider "ty \<noteq> PTHREAD_MUTEX_DEFAULT \<and> ty \<noteq> PTHREAD_MUTEX_RECURSIVE"
    | "\<not> (ty \<noteq> PTHREAD_MUTEX_DEFAULT \<and> ty \<noteq> PTHREAD_MUTEX_RECURSIVE)" "i = length (mutex_heap s)"
    | "\<not> (ty \<noteq> PTHREAD_MUTEX_DEFAULT \<and> ty \<noteq> PTHREAD_MUTEX_RECURSIVE)" "i \<noteq> length (mutex_heap s)" by blast
  then show ?thesis
  proof cases
    case 1
    then show ?thesis using kerrno_ok [OF assms(1), of EINVAL] by (auto simp: sys_pthread_mutex_init_def Let_def simp flip: ty_def)
  next
    case 2
    then have "sys_pthread_mutex_init False attr s = Some (errno_val EAGAIN, None, s)"
      by (auto simp: sys_pthread_mutex_init_def Let_def simp flip: ty_def i_def)
    then show ?thesis using becomes_refl [OF assms(1)] by fastforce
  next
    case 3
    have "i \<le> length (mutex_heap s)" unfolding i_def scan_table_eq by (auto split: option.splits simp: find_Some_iff)
    then have len: "i < length (mutex_heap s)" using 3(2) by simp
    have free: "\<not> mx_allocated (mutex_heap s ! i)"
      using scan_table_sat [of "\<lambda>x. \<not> mx_allocated x" "mutex_heap s"] len by (simp add: i_def)
    note wq = waiters_queue(3) [OF kern_okD(1) [OF assms(1)] mutex_queue [OF len]]
    have empty: "pq_pids (mutex_wait_q (mutex_heap s ! i)) = []" using assms(2) [OF len free] wq by blast
    define f where "f = (\<lambda>x :: mutex_info. x\<lparr>mx_allocated := True, mx_locked := 0, mx_owner := 255, mx_type := ty,
        mutex_wait_q := qinit (mutex_wait_q x)\<rparr>)"
    define s' where "s' = s\<lparr>mutex_heap := (mutex_heap s)[i := f (mutex_heap s ! i)]\<rparr>"
    have "get_queue r s' = (if r = Mutex_q i then map_option qinit (get_queue r s) else get_queue r s)" for r
      using len by (cases r) (simp_all add: get_queue_def s'_def arr_get_def f_def nth_list_update)
    then have "k_inv s'"
      using len empty by (intro k_inv_fresh [OF kern_okD(1) [OF assms(1)] _ _ _ _ _ _ _ _ _ mutex_queue [of i s]]) (simp_all add: s'_def)
    moreover have "cont_ok tw k s \<Longrightarrow> cont_ok tw k s'" for k using len by (cases k) (auto simp: s'_def nth_list_update f_def)
    then have "conts_ok tw s'" using kern_okD(2) [OF assms(1)] by (simp add: conts_ok_def) (simp add: s'_def)
    ultimately have "becomes tw s (wview s) (sems s) ((mutexes s)[i := mutex_rest (f (mutex_heap s ! i))]) s'"
      using kern_okD(3) [OF assms(1)] 
      by (simp add: becomes_defs kern_ok_def s'_def wview_def [abs_def] map_update sleepers_def tmr_view_def tmr_ids_def)
    moreover have "sys_pthread_mutex_init False attr s = Some (0, Some (MUTEX (int i)), s')"
      using 3 len by (auto simp: sys_pthread_mutex_init_def Let_def upd_mutex_def array_simps s'_def f_def simp flip: i_def ty_def)
    moreover have "mutex_rest (f (mutex_heap s ! i)) = (True, 0, ty, 255)" by (simp add: mutex_rest_def f_def)
    moreover have "current_pid s' = current_pid s" "conts s' = conts s" by (simp_all add: s'_def)
    ultimately show ?thesis using len free
      by (intro exI [of _ 0] exI [of _ "Some (MUTEX (int i))"] exI [of _ "(mutexes s)[i := (True, 0, ty, 255)]"] exI [of _ s']) auto
  qed
qed

lemma mutex_loop_ok:
  assumes "kern_ok tw s" "current_pid s \<noteq> idle_task_pid s" "i < length (mutex_heap s)" "mx_allocated (mutex_heap s ! i)"
    and "x = mutex_heap s ! i"
    and "held = (mx_locked x \<noteq> 0 \<and> (mx_type x \<noteq> PTHREAD_MUTEX_RECURSIVE \<or> mx_owner x \<noteq> current_pid s))"
  shows "\<exists>s'. mutex_loop i trylock s = Some (if held then if trylock then Ret (errno_val EBUSY) else Blocked else Ret 0, s') \<and>
     becomes tw s (if held \<and> \<not> trylock then move (current_pid s) (Some (Mutex_q i)) False s else wview s) (sems s)
       (if held then mutexes s
        else mutex_with i (if mx_type x = PTHREAD_MUTEX_RECURSIVE then mx_locked x + 1 else 1) (current_pid s) s) s'"
proof (cases held)
  case True
  then show ?thesis
    using block_ok [OF assms(1,2) mutex_queue [OF assms(3)], of "K_mutex_lock i"] becomes_refl [OF assms(1)] assms(3-6)
    by (auto simp: mutex_loop_def array_simps)
next
  case False
  define f where "f = (\<lambda>x :: mutex_info. x\<lparr>mx_locked := (if mx_type x = PTHREAD_MUTEX_RECURSIVE then mx_locked x + 1 else 1),
      mx_owner := current_pid s\<rparr>)"
  obtain s' where s': "upd_mutex i f s = Some s'" "becomes tw s (wview s) (sems s) ((mutexes s)[i := mutex_rest (f (mutex_heap s ! i))]) s'"
    using upd_mutex_ok [OF assms(1,3), of f] assms(4) by (auto simp: f_def)
  have "mutex_loop i trylock s = Some (Ret 0, s')"
    using False assms(3,5,6) s'(1) by (auto simp: mutex_loop_def array_simps f_def)
  then show ?thesis using False s'(2) assms(5) by (auto simp: mutex_with_def mutex_rest_def f_def Let_def)
qed

lemma mutex_release_ok:
  assumes "kern_ok tw s" "i < length (mutex_heap s)" "x = mutex_heap s ! i" "wk = (mx_locked x = 0 \<and> waiters (Mutex_q i) s \<noteq> {})"
  shows "\<exists>w s'. mutex_release i s = Some (Ret 0, s') \<and>
     becomes tw s w (sems s) (if mx_locked x = 0 then mutex_with i 0 255 s else mutexes s) s' \<and>
     (if wk then resched s' \<and> (\<exists>p \<in> waiters (Mutex_q i) s.
          (\<forall>y \<in> waiters (Mutex_q i) s. prio_of (ptable s) p \<le> prio_of (ptable s) y) \<and> w = move p None False s)
      else w = wview s)"
proof (cases "mx_locked x = 0")
  case False
  then show ?thesis using becomes_refl [OF assms(1)] assms(2-4) by (auto simp: mutex_release_def array_simps)
next
  case True
  define f where "f = (\<lambda>x :: mutex_info. x\<lparr>mx_owner := 255\<rparr>)"
  obtain s1 where s1: "upd_mutex i f s = Some s1" "becomes tw s (wview s) (sems s) ((mutexes s)[i := mutex_rest (f (mutex_heap s ! i))]) s1"
      "mutex_heap s1 = (mutex_heap s)[i := f (mutex_heap s ! i)]"
    using upd_mutex_ok [OF assms(1,2), of f] by (auto simp: f_def)
  have mv: "(mutexes s)[i := mutex_rest (f (mutex_heap s ! i))] = mutex_with i 0 255 s"
    using True assms(3) by (simp add: mutex_with_def mutex_rest_def f_def Let_def)
  note b = becomes_eqD [OF s1(2) [unfolded mv]]
  have pt: "ptable s1 = ptable s" using s1(1) by (auto simp: upd_mutex_def split: bind_splits)
  have wt: "waiters (Mutex_q i) s1 = waiters (Mutex_q i) s" by (rule waiters_cong [OF b(3)])
  have q: "get_queue (Mutex_q i) s1 = Some (mutex_wait_q x)"
    using assms(2,3) s1(3) mutex_queue [of i s1] by (simp add: f_def)
  have cnt: "(item_count (mutex_wait_q x) > 0) = (waiters (Mutex_q i) s \<noteq> {})"
    using waiters_queue(4) [OF kern_okD(1) [OF b(1)] q] wt by simp
  show ?thesis
  proof (cases "waiters (Mutex_q i) s = {}")
    case e: True
    then show ?thesis
      using True assms(2-4) s1(1,2) cnt mv by (auto simp: mutex_release_def array_simps f_def)
  next
    case False
    obtain p s' where s': "process_unblock (Mutex_q i) s1 = Some s'" "p \<in> waiters (Mutex_q i) s"
        "\<forall>y \<in> waiters (Mutex_q i) s. prio_of (ptable s) p \<le> prio_of (ptable s) y"
        "becomes tw s1 (move p None False s1) (sems s1) (mutexes s1) s'" "resched s'"
      using unblock_ok [OF b(1) q] False wt pt by auto
    have "becomes tw s (move p None False s) (sems s) (mutex_with i 0 255 s) s'"
      using becomes_trans [OF s1(2) s'(4)] b(3-5) by (simp add: move_def)
    moreover have "mutex_release i s = Some (Ret 0, s')"
      using True False assms(2-4) s1(1) s'(1) cnt by (simp add: mutex_release_def array_simps f_def)
    ultimately show ?thesis using True False s'(2,3,5) assms(4) by auto
  qed
qed

end
