(* ===== verification/Kern_System.thy ===== *)
theory Kern_System
  imports Kern_Calls
begin

text \<open>
  The kernel as a whole: the system calls of the processes, blocked calls that go on, and timer
  interrupts, interleaved in any way in which the calls meet \<open>call_ok\<close>, which says what the kernel
  relies on without checking it. What a call stores in memory of the caller (the value of a semaphore, the
  number of a new mutex) is left out here, since the kernel does not read it again.
\<close>

section \<open>System calls and interrupts as steps\<close>

datatype syscall =
    Sleep u32
  | Yield
  | Elf_process_create u32
  | Elf_exit
  | Sem_init int u32
  | Sem_destroy "u32 option"
  | Sem_wait "u32 option"
  | Sem_timedwait "u32 option" u32
  | Sem_trywait "u32 option"
  | Sem_post "u32 option"
  | Sem_getvalue "u32 option"
  | Mutex_init "mutex_type option"
  | Mutex_destroy "mutex_val option"
  | Mutex_lock "mutex_val option"
  | Mutex_trylock "mutex_val option"
  | Mutex_unlock "mutex_val option"

definition drop_out :: "('r \<times> 'o \<times> kernel) option \<Rightarrow> ('r \<times> kernel) option" where
  "drop_out r = map_option (\<lambda>(r, _, s). (r, s)) r"

definition int_result :: "(int \<times> kernel) option \<Rightarrow> (kres \<times> kernel) option" where
  "int_result r = map_option (\<lambda>(v, s). (Ret v, s)) r"

fun run_call :: "syscall \<Rightarrow> kernel \<Rightarrow> (kres \<times> kernel) option" where
  "run_call (Sleep ms) s = sys_sleep ms s"
| "run_call Yield s = int_result (Some (sys_yield s))"
| "run_call (Elf_process_create prio) s = sys_elf_process_create prio s"
| "run_call Elf_exit s = sys_elf_exit s"
| "run_call (Sem_init pshared val) s = drop_out (sys_sem_init pshared val s)"
| "run_call (Sem_destroy sem) s = sys_sem_destroy sem s"
| "run_call (Sem_wait sem) s = sys_sem_wait_x sem s"
| "run_call (Sem_timedwait sem ms) s = sys_sem_timedwait sem ms s"
| "run_call (Sem_trywait sem) s = sys_sem_trywait sem s"
| "run_call (Sem_post sem) s = sys_sem_post sem s"
| "run_call (Sem_getvalue sem) s = drop_out (sys_sem_getvalue sem s)"
| "run_call (Mutex_init attr) s = int_result (drop_out (sys_pthread_mutex_init False attr s))"
| "run_call (Mutex_destroy m) s = int_result (drop_out (sys_pthread_mutex_destroy m s))"
| "run_call (Mutex_lock m) s = drop_out (sys_pthread_mutex_lock m s)"
| "run_call (Mutex_trylock m) s = drop_out (sys_pthread_mutex_trylock m s)"
| "run_call (Mutex_unlock m) s = drop_out (sys_pthread_mutex_unlock m s)"

text \<open>
  A call that returns leaves the kernel through \<^verbatim>\<open>sys_exit\<close>; one that blocked has already continued
  another process.
\<close>

definition leave :: "(kres \<times> kernel) option \<Rightarrow> kernel option" where
  "leave r = do { (v, s) \<leftarrow> r; case v of Blocked \<Rightarrow> Some s | Ret _ \<Rightarrow> sys_exit s }"

datatype kevent = Call syscall | Resume | Tick

fun kstep :: "kevent \<Rightarrow> kernel \<Rightarrow> kernel option" where
  "kstep (Call c) s = leave (run_call c s)"
| "kstep Resume s = leave (resume s)"
| "kstep Tick s = timer_irq s"

text \<open>
  What can happen next: a process that was suspended inside a call goes on there before anything
  else, since the kernel runs with interrupts disabled; the idle task makes no calls.
\<close>

fun enabled :: "kevent \<Rightarrow> kernel \<Rightarrow> bool" where
  "enabled (Call c) s = (current_pid s \<noteq> idle_task_pid s \<and> conts s (current_pid s) = None)"
| "enabled Resume s = (conts s (current_pid s) \<noteq> None)"
| "enabled Tick s = (conts s (current_pid s) = None)"

section \<open>The invariant of the synchronisation objects\<close>

definition wset :: "qref \<Rightarrow> (pid \<Rightarrow> wait_info option) \<Rightarrow> pid set" where
  "wset r w = {p. \<exists>i pri al t. w p = Some (i, pri, al, Some r, True, t)}"

lemma waiters_wset: "waiters r s = wset r (wview s)"
  by (simp add: waiters_def wset_def)

lemma finite_wset [simp]: "finite (wset r w)"
  by simp

definition no_timed :: "(pid \<Rightarrow> wait_info option) \<Rightarrow> bool" where
  "no_timed w \<longleftrightarrow> (\<forall>p i pri al r. w p \<noteq> Some (i, pri, al, Some r, True, True))"

text \<open>Nobody waits for a mutex that does not exist.\<close>

definition mutexes_ok :: "(pid \<Rightarrow> wait_info option) \<Rightarrow> mutex_vals list \<Rightarrow> bool" where
  "mutexes_ok w mv \<longleftrightarrow> (\<forall>i < length mv. \<not> fst (mv ! i) \<longrightarrow> wset (Mutex_q i) w = {})"

text \<open>A negative value of a semaphore is the number of the processes that wait for it.\<close>

definition sem_ok :: "(pid \<Rightarrow> wait_info option) \<Rightarrow> nat \<Rightarrow> sem_val \<Rightarrow> bool" where
  "sem_ok w i = (\<lambda>(id, v, _). if id = 255 then wset (Sem_q i) w = {} else int (card (wset (Sem_q i) w)) = max 0 (- sint v))"

definition sems_ok :: "(pid \<Rightarrow> wait_info option) \<Rightarrow> sem_val list \<Rightarrow> bool" where
  "sems_ok w sv \<longleftrightarrow> (\<forall>i < length sv. sem_ok w i (sv ! i))"

definition views_ok :: "bool \<Rightarrow> (pid \<Rightarrow> wait_info option) \<Rightarrow> sem_val list \<Rightarrow> mutex_vals list \<Rightarrow> bool" where
  "views_ok tw w sv mv \<longleftrightarrow> mutexes_ok w mv \<and> (tw \<or> no_timed w \<and> sems_ok w sv)"

definition sync_inv :: "bool \<Rightarrow> kernel \<Rightarrow> bool" where
  "sync_inv tw s \<longleftrightarrow> kern_ok tw s \<and> views_ok tw (wview s) (sems s) (mutexes s)"

lemma sync_becomes: "becomes tw s w sv mv s' \<Longrightarrow> views_ok tw w sv mv \<Longrightarrow> sync_inv tw s'"
  by (simp add: becomes_defs sync_inv_def)

lemma sync_arrives: "arrives tw s w sv mv s' \<Longrightarrow> views_ok tw w sv mv \<Longrightarrow> sync_inv tw s'"
  by (simp add: arrives_def sync_inv_def)

lemma sync_invD:
  assumes "sync_inv tw s"
  shows "kern_ok tw s" "views_ok tw (wview s) (sems s) (mutexes s)" "mutexes_ok (wview s) (mutexes s)"
    "\<not> tw \<Longrightarrow> no_timed (wview s)" "\<not> tw \<Longrightarrow> sems_ok (wview s) (sems s)"
  using assms by (auto simp: sync_inv_def views_ok_def)

lemma wset_move:
  assumes "wview s p \<noteq> None"
  shows "wset r (move p b t s) = (if b = Some r then insert p (wset r (wview s)) else wset r (wview s) - {p})"
  using assms by (auto simp: wset_def move_def moved_def)

lemma no_timed_move: "no_timed (wview s) \<Longrightarrow> b = None \<or> \<not> t \<Longrightarrow> no_timed (move p b t s)"
  by (cases "wview s p") (auto simp: no_timed_def move_def moved_def)

lemma cur_not_waiting:
  assumes "k_inv s"
  shows "current_pid s \<notin> wset r (wview s)" "wview s (current_pid s) \<noteq> None"
proof -
  obtain cur where "get_proc (ptable s) (current_pid s) = Some cur" "pr_state cur = PROC_RUN" by (rule k_inv_cur [OF assms])
  then show "current_pid s \<notin> wset r (wview s)" "wview s (current_pid s) \<noteq> None"
    by (simp_all add: wset_def wview_def wait_key_def waiting_def)
qed

lemma sem_ok_cong: "wset (Sem_q i) w' = wset (Sem_q i) w \<Longrightarrow> sem_ok w' i x = sem_ok w i x"
  by (simp add: sem_ok_def split_def)

lemma sems_ok_cong: "(\<And>i. wset (Sem_q i) w' = wset (Sem_q i) w) \<Longrightarrow> sems_ok w' sv = sems_ok w sv"
  using sem_ok_cong [of _ w' w] by (simp add: sems_ok_def)

lemma wset_waiting: "p \<in> wset r w \<Longrightarrow> w p \<noteq> None" "p \<in> wset r w \<Longrightarrow> r \<noteq> r' \<Longrightarrow> p \<notin> wset r' w"
  by (auto simp: wset_def)

text \<open>The current process goes into a queue; it is not counted for a semaphore unless it waits for that one.\<close>

lemma views_block_mutex:
  assumes "sync_inv tw s" "i < length (mutex_heap s)" "mx_allocated (mutex_heap s ! i)"
  shows "views_ok tw (move (current_pid s) (Some (Mutex_q i)) False s) (sems s) (mutexes s)"
proof -
  let ?w = "move (current_pid s) (Some (Mutex_q i)) False s"
  note cur = cur_not_waiting [OF kern_okD(1) [OF sync_invD(1) [OF assms(1)]]]
  have ws: "wset r ?w = (if r = Mutex_q i then insert (current_pid s) (wset r (wview s)) else wset r (wview s))" for r
    using wset_move [OF cur(2), of r "Some (Mutex_q i)" False] cur(1) [of r] by (cases "Mutex_q i = r") simp_all
  have "mutexes_ok ?w (mutexes s)"
    using sync_invD(3) [OF assms(1)] assms(2,3) by (auto simp: mutexes_ok_def ws mutex_rest_def)
  moreover have "sems_ok ?w (sems s)" if "\<not> tw"
    using sync_invD(5) [OF assms(1) that] sems_ok_cong [of ?w "wview s"] by (simp add: ws)
  ultimately show ?thesis using sync_invD(4) [OF assms(1)] no_timed_move [of s "Some (Mutex_q i)" False "current_pid s"]
    by (auto simp: views_ok_def)
qed

lemma wset_small:
  assumes "k_inv s" "get_queue r s = Some q"
  shows "card (wset r (wview s)) < 127"
proof -
  have pq: "distinct (pq_pids q)" "set (pq_pids q) = wset r (wview s)"
    using waiters_queue [OF assms] assms by (auto simp: k_inv_def k_wf_def wait_ok_def pq_ok_def waiters_wset)
  have "distinct (current_pid s # pq_pids q)" using pq cur_not_waiting(1) [OF assms(1), of r] by simp
  moreover have "\<forall>x \<in> set (current_pid s # pq_pids q). get_proc (ptable s) x \<noteq> None"
    using pq(2) wset_waiting(1) [of _ r "wview s"] cur_not_waiting(2) [OF assms(1)] by (auto simp: wview_def)
  ultimately have "length (current_pid s # pq_pids q) \<le> length (ptable s)" by (rule valid_pids_length)
  moreover have "length (ptable s) \<le> 127" using assms(1) by (simp add: k_inv_def k_wf_def procs_ok_def)
  moreover have "length (pq_pids q) = card (wset r (wview s))" using pq distinct_card by metis
  ultimately show ?thesis by simp
qed

text \<open>A semaphore whose value changes from \<open>v\<close> while the others stay as they are.\<close>

lemma sems_ok_with:
  assumes "sems_ok (wview s) (sems s)" "i < length (sem_heap s)"
    and "\<And>j. j \<noteq> i \<Longrightarrow> wset (Sem_q j) w = wset (Sem_q j) (wview s)" "sem_ok w i x"
  shows "sems_ok w ((sems s)[i := x])"
  unfolding sems_ok_def
proof (intro allI impI)
  fix j
  assume "j < length ((sems s)[i := x])"
  then show "sem_ok w j ((sems s)[i := x] ! j)"
    using assms sem_ok_cong [of j w "wview s"] by (cases "j = i") (auto simp: sems_ok_def)
qed

lemma sint_u8_range: "- 128 \<le> sint (v :: u8)" "sint (v :: u8) \<le> 127"
  using sint_ge [of v] sint_lt [of v] by simp_all

lemma sint_u8_dec: "- 128 < sint (v :: u8) \<Longrightarrow> sint (v - 1) = sint v - 1"
  using sint_u8_range [of v] by (simp add: sint_word_ariths signed_take_bit_int_eq_self)

lemma sint_u8_inc: "sint (v :: u8) < 127 \<Longrightarrow> sint (v + 1) = sint v + 1"
  using sint_u8_range [of v] by (simp add: sint_word_ariths signed_take_bit_int_eq_self)

lemma mutexes_ok_mono:
  assumes "mutexes_ok w mv" "\<And>i. wset (Mutex_q i) w' \<subseteq> wset (Mutex_q i) w"
  shows "mutexes_ok w' mv"
  using assms unfolding mutexes_ok_def by blast

lemma sem_of_view:
  assumes "sync_inv tw s" "\<not> tw" "i < length (sem_heap s)" "sem_id (sem_heap s ! i) \<noteq> 255"
  shows "int (card (wset (Sem_q i) (wview s))) = max 0 (- sint (sem_value (sem_heap s ! i)))"
proof -
  have "sem_ok (wview s) i (sems s ! i)" using sync_invD(5) [OF assms(1,2)] assms(3) by (simp only: sems_ok_def length_map)
  then show ?thesis using assms(3,4) by (simp add: sem_ok_def sem_rest_def)
qed

lemma views_sem_wait:
  assumes "sync_inv tw s" "get_sem_by_semt sem s = Some i" "v = sem_value (sem_heap s ! i) - 1" "t \<Longrightarrow> tw"
    and "w = (if sint v < 0 then move (current_pid s) (Some (Sem_q i)) t s else wview s)"
  shows "views_ok tw w (sem_with i v s) (mutexes s)"
proof -
  note k = sync_invD(1) [OF assms(1)] and i = get_semD [OF assms(2)]
  note cur = cur_not_waiting [OF kern_okD(1) [OF k]]
  have ws: "wset r w = (if sint v < 0 \<and> r = Sem_q i then insert (current_pid s) (wset r (wview s)) else wset r (wview s))" for r
    using wset_move [OF cur(2), of r "Some (Sem_q i)" t] cur(1) [of r] by (cases "Sem_q i = r") (simp_all add: assms(5))
  have "mutexes_ok w (mutexes s)" by (rule mutexes_ok_mono [OF sync_invD(3) [OF assms(1)]]) (simp add: ws)
  moreover have "sems_ok w (sem_with i v s)" if tw: "\<not> tw"
  proof -
    let ?x = "sem_heap s ! i"
    have acc: "int (card (wset (Sem_q i) (wview s))) = max 0 (- sint (sem_value ?x))" by (rule sem_of_view [OF assms(1) tw i])
    have "card (wset (Sem_q i) (wview s)) < 127" by (rule wset_small [OF kern_okD(1) [OF k] sem_queue [OF i(1)]])
    then have "- 128 < sint (sem_value ?x)" using acc by linarith
    then have v: "sint v = sint (sem_value ?x) - 1" unfolding assms(3) by (rule sint_u8_dec)
    have "int (card (wset (Sem_q i) w)) = max 0 (- sint v)"
    proof (cases "sint v < 0")
      case True
      then have "card (wset (Sem_q i) w) = Suc (card (wset (Sem_q i) (wview s)))" using ws [of "Sem_q i"] cur(1) [of "Sem_q i"] by simp
      then show ?thesis using acc v True by linarith
    next
      case False
      then show ?thesis using acc v ws [of "Sem_q i"] by simp
    qed
    then have "sem_ok w i (sem_id ?x, v, sem_owner ?x, sem_unlinked ?x)" using i(2) by (simp add: sem_ok_def)
    then show ?thesis
      unfolding sem_with_def Let_def by (intro sems_ok_with [OF sync_invD(5) [OF assms(1) tw] i(1)]) (simp add: ws)
  qed
  moreover have "no_timed w" if "\<not> tw"
  proof -
    have "\<not> t" using assms(4) that by blast
    then show ?thesis
      using sync_invD(4) [OF assms(1) that] no_timed_move [of s "Some (Sem_q i)" t "current_pid s"] by (simp add: assms(5))
  qed
  ultimately show ?thesis by (auto simp: views_ok_def)
qed

lemma views_sem_trywait:
  assumes "sync_inv tw s" "get_sem_by_semt sem s = Some i" "v = sem_value (sem_heap s ! i)" "sint v > 0"
  shows "views_ok tw (wview s) (sem_with i (v - 1) s) (mutexes s)"
proof -
  have "\<not> sint (v - 1) < 0" using assms(4) sint_u8_dec [of v] by simp
  then show ?thesis using views_sem_wait [OF assms(1,2), of "v - 1" False "wview s"] assms(3) by simp
qed

lemma views_sem_clear:
  assumes "sync_inv tw s" "i < length (sem_heap s)" "\<not> tw \<Longrightarrow> waiters (Sem_q i) s = {}"
  shows "views_ok tw (wview s) ((sems s)[i := (255, 0, 255, False)]) (mutexes s)"
proof -
  have "sems_ok (wview s) ((sems s)[i := (255, 0, 255, False)])" if "\<not> tw"
    by (rule sems_ok_with [OF sync_invD(5) [OF assms(1) that] assms(2)]) (use assms(3) [OF that] in \<open>simp_all add: sem_ok_def waiters_wset\<close>)
  then show ?thesis using sync_invD(2) [OF assms(1)] by (auto simp: views_ok_def)
qed

lemma views_unblock:
  assumes "sync_inv tw s" "p \<in> wset r (wview s)" "\<And>i. r \<noteq> Sem_q i"
  shows "views_ok tw (move p None False s) (sems s) (mutexes s)"
proof -
  have ws: "wset r' (move p None False s) = (if r' = r then wset r (wview s) - {p} else wset r' (wview s))" for r'
    using wset_move [OF wset_waiting(1) [OF assms(2)], of r' None False] wset_waiting(2) [OF assms(2), of r'] by auto
  have "mutexes_ok (move p None False s) (mutexes s)" by (rule mutexes_ok_mono [OF sync_invD(3) [OF assms(1)]]) (simp add: ws)
  moreover have "sems_ok (move p None False s) (sems s) = sems_ok (wview s) (sems s)"
    by (rule sems_ok_cong) (use assms(3) in \<open>auto simp: ws\<close>)
  ultimately show ?thesis using sync_invD(4,5) [OF assms(1)] no_timed_move [of s None False p] by (auto simp: views_ok_def)
qed

lemma views_sem_post:
  assumes "sync_inv tw s" "get_sem_by_semt sem s = Some i" "v = sem_value (sem_heap s ! i) + 1"
    and "\<not> tw \<Longrightarrow> sint (sem_value (sem_heap s ! i)) < 127"
  shows "p \<in> wset (Sem_q i) (wview s) \<Longrightarrow> sint v \<le> 0 \<Longrightarrow> views_ok tw (move p None False s) (sem_with i v s) (mutexes s)"
    and "\<not> (sint v \<le> 0 \<and> wset (Sem_q i) (wview s) \<noteq> {}) \<Longrightarrow> views_ok tw (wview s) (sem_with i v s) (mutexes s)"
    and "sint v > 0 \<Longrightarrow> \<not> tw \<Longrightarrow> waiters (Sem_q i) s = {}"
proof -
  let ?x = "sem_heap s ! i" and ?W = "wset (Sem_q i) (wview s)"
  note i = get_semD [OF assms(2)]
  have acc: "int (card ?W) = max 0 (- sint (sem_value ?x))" "sint v = sint (sem_value ?x) + 1" if "\<not> tw"
    using sem_of_view [OF assms(1) that i] sint_u8_inc assms(3,4) that by auto
  show "waiters (Sem_q i) s = {}" if "sint v > 0" "\<not> tw"
  proof -
    have "card ?W = 0" using acc [OF that(2)] that(1) by linarith
    then show ?thesis by (simp add: waiters_wset)
  qed
  show "views_ok tw (wview s) (sem_with i v s) (mutexes s)" if n: "\<not> (sint v \<le> 0 \<and> ?W \<noteq> {})"
  proof -
    have "sems_ok (wview s) (sem_with i v s)" if tw: "\<not> tw"
      unfolding sem_with_def Let_def
    proof (rule sems_ok_with [OF sync_invD(5) [OF assms(1) tw] i(1)])
      have "int (card ?W) = max 0 (- sint v)"
      proof (cases "?W = {}")
        case True
        then show ?thesis using acc [OF tw] by simp
      next
        case False
        then show ?thesis using n acc [OF tw] by simp
      qed
      then show "sem_ok (wview s) i (sem_id ?x, v, sem_owner ?x, sem_unlinked ?x)" using i(2) by (simp add: sem_ok_def)
    qed simp
    then show ?thesis using sync_invD(3,4) [OF assms(1)] by (auto simp: views_ok_def)
  qed
  show "views_ok tw (move p None False s) (sem_with i v s) (mutexes s)" if p: "p \<in> ?W" and v: "sint v \<le> 0"
  proof -
    have ws: "wset r (move p None False s) = (if r = Sem_q i then ?W - {p} else wset r (wview s))" for r
      using wset_move [OF wset_waiting(1) [OF p], of r None False] wset_waiting(2) [OF p, of r] by auto
    have "mutexes_ok (move p None False s) (mutexes s)" by (rule mutexes_ok_mono [OF sync_invD(3) [OF assms(1)]]) (simp add: ws)
    moreover have "sems_ok (move p None False s) (sem_with i v s)" if tw: "\<not> tw"
      unfolding sem_with_def Let_def
    proof (rule sems_ok_with [OF sync_invD(5) [OF assms(1) tw] i(1)])
      have "card (?W - {p}) = card ?W - 1" "card ?W > 0" using p by (auto simp: card_gt_0_iff)
      then have "int (card (?W - {p})) = max 0 (- sint v)" using acc [OF tw] v by linarith
      then show "sem_ok (move p None False s) i (sem_id ?x, v, sem_owner ?x, sem_unlinked ?x)"
        using i(2) by (simp add: sem_ok_def ws)
    qed (simp add: ws)
    ultimately show ?thesis using sync_invD(4) [OF assms(1)] no_timed_move [of s None False p] by (auto simp: views_ok_def)
  qed
qed

lemma views_same_waiters:
  assumes "sync_inv tw s" "\<And>r. wset r w = wset r (wview s)" "\<not> tw \<Longrightarrow> no_timed w"
  shows "views_ok tw w (sems s) (mutexes s)"
  using sync_invD(3) [OF assms(1)] sync_invD(5) [OF assms(1)] assms(2,3) sems_ok_cong [of w "wview s" "sems s"]
  by (auto simp: views_ok_def mutexes_ok_def)

lemma views_sleep:
  assumes "sync_inv tw s"
  shows "views_ok tw (move (current_pid s) None True s) (sems s) (mutexes s)"
proof (rule views_same_waiters [OF assms])
  note cur = cur_not_waiting [OF kern_okD(1) [OF sync_invD(1) [OF assms]]]
  show "wset r (move (current_pid s) None True s) = wset r (wview s)" for r
    using wset_move [OF cur(2), of r None True] cur(1) [of r] by simp
  show "no_timed (move (current_pid s) None True s)" if "\<not> tw"
    by (rule no_timed_move [OF sync_invD(4) [OF assms that]]) simp
qed

lemma views_ended:
  assumes "sync_inv tw s"
  shows "views_ok tw (ended (current_pid s) s) (sems s) (mutexes s)"
proof (rule views_same_waiters [OF assms])
  note cur = cur_not_waiting [OF kern_okD(1) [OF sync_invD(1) [OF assms]]]
  show "wset r (ended (current_pid s) s) = wset r (wview s)" for r
    using cur(2) cur(1) [of r] by (auto simp: wset_def ended_def)
  show "no_timed (ended (current_pid s) s)" if "\<not> tw"
    using sync_invD(4) [OF assms that] by (auto simp: no_timed_def ended_def)
qed

lemma views_created:
  assumes "sync_inv tw s" "get_proc (ptable s) p = Some pr" "\<not> is_allocated pr"
  shows "views_ok tw ((wview s)(p \<mapsto> (p, pri, True, None, False, False))) (sems s) (mutexes s)"
proof (rule views_same_waiters [OF assms(1)])
  show "wset r ((wview s)(p \<mapsto> (p, pri, True, None, False, False))) = wset r (wview s)" for r
  proof (rule set_eqI)
    fix x
    have "p \<notin> wset r (wview s)" using assms(2,3) by (simp add: wset_def wview_def wait_key_def waiting_def)
    then show "x \<in> wset r ((wview s)(p \<mapsto> (p, pri, True, None, False, False))) \<longleftrightarrow> x \<in> wset r (wview s)"
      by (cases "x = p") (simp_all add: wset_def)
  qed
  show "no_timed ((wview s)(p \<mapsto> (p, pri, True, None, False, False)))" if "\<not> tw"
    using sync_invD(4) [OF assms(1) that] by (auto simp: no_timed_def)
qed

text \<open>A process whose time is over sleeps or, where timed waits are used, waits with a timeout.\<close>

lemma views_irq:
  assumes "sync_inv tw s"
  shows "views_ok tw (\<lambda>p. map_option (if p \<in> due s then moved None False else id) (wview s p)) (sems s) (mutexes s)"
    (is "views_ok tw ?w _ _")
proof -
  have ws: "wset r ?w = wset r (wview s) - due s" for r by (auto simp: wset_def moved_def)
  have m: "mutexes_ok ?w (mutexes s)" by (rule mutexes_ok_mono [OF sync_invD(3) [OF assms]]) (auto simp: ws)
  have "no_timed ?w \<and> sems_ok ?w (sems s)" if tw: "\<not> tw"
  proof -
    note nt = sync_invD(4) [OF assms tw]
    have "p \<notin> wset r (wview s)" if "p \<in> due s" for p r
    proof -
      have "p \<in> fst ` set (tmr_view s)" using that unfolding due_def by force
      then obtain pr where "get_proc (ptable s) p = Some pr" "timed pr"
        using kern_okD(1) [OF sync_invD(1) [OF assms]] by (auto simp: k_inv_def k_wf_def tmr_ok_def)
      then show ?thesis using nt by (auto simp: wset_def wview_def wait_key_def no_timed_def)
    qed
    then have "wset r ?w = wset r (wview s)" for r by (auto simp: ws)
    then have "sems_ok ?w (sems s)" using sync_invD(5) [OF assms tw] sems_ok_cong [of ?w "wview s"] by simp
    moreover have "no_timed ?w" using nt by (auto simp: no_timed_def moved_def)
    ultimately show ?thesis by blast
  qed
  then show ?thesis using m by (auto simp: views_ok_def)
qed

section \<open>Every call keeps the invariant\<close>

text \<open>
  What the callers have to respect. A process is created with an existing priority. A mutex is only
  destroyed when no process waits for it or is about to take it, which \<^verbatim>\<open>sys_pthread_mutex_destroy\<close>
  does not check. The flag says whether timed waits are used at all. Where they are, the counts of the
  semaphores can go wrong, and a semaphore may be destroyed under a waiting process; its place must then
  not be used again, which \<^verbatim>\<open>sys_sem_init\<close> does not check. Without timed waits the value of a
  semaphore has to stay within a signed byte.
\<close>

fun call_ok :: "bool \<Rightarrow> syscall \<Rightarrow> kernel \<Rightarrow> bool" where
  "call_ok tw (Elf_process_create prio) s = (idle_task_pid s = 0 \<and> unat prio < length (ready_q s) \<and> length (ready_q s) \<le> 128)"
| "call_ok tw (Sem_init pshared val) s =
     (if tw then \<forall>x \<in> set (sem_heap s). sem_id x = 255 \<longrightarrow> item_count (sem_wait_q x) = 0 else val \<le> 127)"
| "call_ok tw (Sem_timedwait sem ms) s = tw"
| "call_ok tw (Sem_post sem) s =
     (tw \<or> (case get_sem_by_semt sem s of None \<Rightarrow> True | Some i \<Rightarrow> sint (sem_value (sem_heap s ! i)) < 127))"
| "call_ok tw (Mutex_destroy m) s =
     (case m of
        Some (MUTEX v) \<Rightarrow>
          (nat v < length (mutex_heap s) \<longrightarrow> item_count (mutex_wait_q (mutex_heap s ! nat v)) = 0) \<and>
          list_all (\<lambda>p. conts s (of_nat p) \<noteq> Some (K_mutex_lock (nat v))) [0..<256]
      | _ \<Rightarrow> True)"
| "call_ok tw c s = True"

text \<open>A held mutex is left alone, unless it is recursive, in \<open>T\<close>, and its owner takes it again.\<close>

definition kept :: "nat set \<Rightarrow> pid \<Rightarrow> nat \<Rightarrow> mutex_vals list \<Rightarrow> mutex_vals list \<Rightarrow> bool" where
  "kept T p j mv mv' \<longleftrightarrow>
     (\<forall>n ty q. j < length mv \<and> mv ! j = (True, n, ty, q) \<and> n \<noteq> 0 \<longrightarrow>
        j < length mv' \<and> (mv' ! j = mv ! j \<or> j \<in> T \<and> ty = PTHREAD_MUTEX_RECURSIVE \<and> q = p \<and> mv' ! j = (True, n + 1, ty, q)))"

lemma kept_refl [simp]: "kept T p j mv mv"
  by (simp add: kept_def)

definition result_ok :: "bool \<Rightarrow> kernel \<Rightarrow> (kres \<times> kernel) option \<Rightarrow> nat set \<Rightarrow> nat set \<Rightarrow> bool" where
  "result_ok tw s r T U \<longleftrightarrow>
     (\<exists>v s'. r = Some (v, s') \<and> sync_inv tw s' \<and> idle_task_pid s' = idle_task_pid s \<and> sleepers s \<subseteq> sleepers s' \<and>
        (\<forall>j. j \<notin> U \<longrightarrow> kept T (current_pid s) j (mutexes s) (mutexes s')))"

lemma result_okI:
  assumes "r = Some (v, s')" "becomes tw s w sv mv s'" "views_ok tw w sv mv" "\<And>j. j \<notin> U \<Longrightarrow> kept T (current_pid s) j (mutexes s) mv"
  shows "result_ok tw s r T U"
  using assms sync_becomes [OF assms(2,3)] by (auto simp: result_ok_def becomes_defs)

lemma result_ok_same:
  assumes "sync_inv tw s" "r = Some (v, s')" "becomes tw s (wview s) (sems s) (mutexes s) s'"
  shows "result_ok tw s r T U"
  by (rule result_okI [OF assms(2,3) sync_invD(2) [OF assms(1)]]) simp

lemma result_fail: "sync_inv tw s \<Longrightarrow> result_ok tw s (fail e s) T U"
  using fail_ok [OF sync_invD(1), of tw s e] result_ok_same [of tw s] by blast

lemma result_drop: "result_ok tw s (drop_out (Some (v, m, s'))) T U = result_ok tw s (Some (v, s')) T U"
  by (simp add: drop_out_def)

subsection \<open>Semaphores\<close>

lemma result_sem_init:
  assumes "sync_inv tw s" "call_ok tw (Sem_init pshared val) s"
  shows "result_ok tw s (drop_out (sys_sem_init pshared val s)) T U"
proof -
  have empty: "waiters (Sem_q i) s = {}" if "i < length (sem_heap s)" "sem_id (sem_heap s ! i) = 255" for i
  proof (cases tw)
    case True
    then have "item_count (sem_wait_q (sem_heap s ! i)) = 0" using assms(2) that by simp
    then show ?thesis using waiters_queue(4) [OF kern_okD(1) [OF sync_invD(1) [OF assms(1)]] sem_queue [OF that(1)]] by simp
  next
    case False
    have "sem_ok (wview s) i (sems s ! i)" using sync_invD(5) [OF assms(1) False] that(1) by (simp only: sems_ok_def length_map)
    then show ?thesis using that by (simp add: sem_ok_def sem_rest_def waiters_wset)
  qed
  obtain r m sv s' where i: "sys_sem_init pshared val s = Some (Ret r, m, s')" "becomes tw s (wview s) sv (mutexes s) s'"
      "sv = sems s \<or> (\<exists>i < length (sem_heap s). sem_id (sem_heap s ! i) = 255 \<and>
        sv = (sems s)[i := (of_nat i, ucast val, if pshared = 0 then current_pid s else 255, False)])"
    using sem_init_ok [OF sync_invD(1) [OF assms(1)] empty, of pshared val] by blast
  have v: "sint (ucast val :: u8) \<ge> 0" if "\<not> tw"
  proof -
    have "sint (of_nat n :: u8) = int n" if "n < 128" for n using that by (simp add: signed_of_nat signed_take_bit_int_eq_self)
    from this [of "unat val"] show ?thesis using assms(2) that by (simp add: word_le_nat_alt)
  qed
  have "views_ok tw (wview s) ((sems s)[i := (of_nat i, ucast val, p, False)]) (mutexes s)"
    if i: "i < length (sem_heap s)" "sem_id (sem_heap s ! i) = 255" for i p
  proof -
    have "sems_ok (wview s) ((sems s)[i := (of_nat i, ucast val, p, False)])" if tw: "\<not> tw"
      by (rule sems_ok_with [OF sync_invD(5) [OF assms(1) tw] i(1)])
        (use empty [OF i] v [OF tw] in \<open>simp_all add: sem_ok_def waiters_wset\<close>)
    then show ?thesis using sync_invD(2) [OF assms(1)] by (auto simp: views_ok_def)
  qed
  then have "views_ok tw (wview s) sv (mutexes s)" using i(3) sync_invD(2) [OF assms(1)] by blast
  then show ?thesis unfolding i(1) result_drop by (intro result_okI [OF refl i(2)]) simp_all
qed

lemma result_sem_destroy:
  assumes "sync_inv tw s"
  shows "result_ok tw s (sys_sem_destroy sem s) T U"
proof (cases "get_sem_by_semt sem s")
  case None
  then show ?thesis using result_fail [OF assms] by (simp add: sys_sem_destroy_def)
next
  case (Some i)
  define busy where "busy = (sint (sem_value (sem_heap s ! i)) \<le> 0 \<and> waiters (Sem_q i) s \<noteq> {})"
  obtain s' where d: "sys_sem_destroy sem s = Some (Ret (if busy then - 1 else 0), s')"
     "becomes tw s (wview s) (if busy then sems s else (sems s)[i := (255, 0, 255, False)]) (mutexes s) s'"
    using sem_destroy_ok [OF sync_invD(1) [OF assms] Some busy_def] by blast
  have "waiters (Sem_q i) s = {}" if "\<not> busy" "\<not> tw"
  proof (rule ccontr)
    assume ne: "waiters (Sem_q i) s \<noteq> {}"
    then have "card (wset (Sem_q i) (wview s)) \<noteq> 0" by (simp add: waiters_wset)
    then have "sint (sem_value (sem_heap s ! i)) < 0" using sem_of_view [OF assms that(2) get_semD [OF Some]] by linarith
    then show False using that(1) ne by (simp add: busy_def)
  qed
  then have "views_ok tw (wview s) (if busy then sems s else (sems s)[i := (255, 0, 255, False)]) (mutexes s)"
    using views_sem_clear [OF assms get_semD(1) [OF Some]] sync_invD(2) [OF assms] by auto
  then show ?thesis by (intro result_okI [OF d]) simp_all
qed

lemma result_sem_wait:
  assumes "sync_inv tw s" "current_pid s \<noteq> idle_task_pid s"
  shows "result_ok tw s (sys_sem_wait_x sem s) T U"
proof (cases "get_sem_by_semt sem s")
  case None
  then show ?thesis using result_fail [OF assms(1)] by (simp add: sys_sem_wait_x_def)
next
  case (Some i)
  from sem_wait_ok [OF sync_invD(1) [OF assms(1)] assms(2) Some refl]
  show ?thesis using views_sem_wait [OF assms(1) Some refl, of False] by (auto intro: result_okI)
qed

lemma result_sem_timedwait:
  assumes "sync_inv tw s" "current_pid s \<noteq> idle_task_pid s" tw
  shows "result_ok tw s (sys_sem_timedwait sem ms s) T U"
proof (cases "get_sem_by_semt sem s")
  case None
  then show ?thesis using result_fail [OF assms(1)] by (simp add: sys_sem_timedwait_def)
next
  case (Some i)
  from sem_timedwait_ok [OF sync_invD(1) [OF assms(1)] assms(2) Some refl assms(3), of ms]
  show ?thesis using views_sem_wait [OF assms(1) Some refl, of True] assms(3) by (auto intro: result_okI)
qed

lemma result_sem_trywait:
  assumes "sync_inv tw s"
  shows "result_ok tw s (sys_sem_trywait sem s) T U"
proof (cases "get_sem_by_semt sem s")
  case None
  then show ?thesis using result_fail [OF assms(1)] by (simp add: sys_sem_trywait_def)
next
  case (Some i)
  define v where "v = sem_value (sem_heap s ! i)"
  obtain s' where t: "sys_sem_trywait sem s = Some (Ret (if sint v > 0 then 0 else - 1), s')"
     "becomes tw s (wview s) (if sint v > 0 then sem_with i (v - 1) s else sems s) (mutexes s) s'"
    using sem_trywait_ok [OF sync_invD(1) [OF assms] Some v_def] by blast
  have "views_ok tw (wview s) (if sint v > 0 then sem_with i (v - 1) s else sems s) (mutexes s)"
    using views_sem_trywait [OF assms Some v_def] sync_invD(2) [OF assms] by simp
  then show ?thesis by (intro result_okI [OF t]) simp_all
qed

lemma result_sem_post:
  assumes "sync_inv tw s" "call_ok tw (Sem_post sem) s"
  shows "result_ok tw s (sys_sem_post sem s) T U"
proof (cases "get_sem_by_semt sem s")
  case None
  then show ?thesis using result_fail [OF assms(1)] by (simp add: sys_sem_post_def)
next
  case (Some i)
  define v where "v = sem_value (sem_heap s ! i) + 1"
  have lim: "\<not> tw \<Longrightarrow> sint (sem_value (sem_heap s ! i)) < 127" using assms(2) Some by simp
  note post = views_sem_post [OF assms(1) Some v_def lim]
  obtain w sv s' where p: "sys_sem_post sem s = Some (Ret 0, s')" "becomes tw s w sv (mutexes s) s'"
     "if sint v \<le> 0 \<and> waiters (Sem_q i) s \<noteq> {} then
        resched s' \<and> sv = sem_with i v s \<and>
        (\<exists>p \<in> waiters (Sem_q i) s. (\<forall>x \<in> waiters (Sem_q i) s. prio_of (ptable s) p \<le> prio_of (ptable s) x) \<and> w = move p None False s)
      else
        w = wview s \<and> sv = (if sint v > 0 \<and> sem_unlinked (sem_heap s ! i) then (sems s)[i := (255, 0, 255, False)] else sem_with i v s)"
    using sem_post_ok [OF sync_invD(1) [OF assms(1)] Some v_def] by blast
  have "views_ok tw w sv (mutexes s)"
  proof (cases "sint v \<le> 0 \<and> waiters (Sem_q i) s \<noteq> {}")
    case True
    then show ?thesis using p(3) post(1) unfolding waiters_wset by auto
  next
    case False
    then show ?thesis
      using p(3) post(2,3) views_sem_clear [OF assms(1) get_semD(1) [OF Some]] unfolding waiters_wset by auto
  qed
  then show ?thesis by (intro result_okI [OF p(1,2)]) simp_all
qed

lemma result_sem_getvalue:
  assumes "sync_inv tw s"
  shows "result_ok tw s (drop_out (sys_sem_getvalue sem s)) T U"
proof (cases "get_sem_by_semt sem s")
  case None
  then have "drop_out (sys_sem_getvalue sem s) = fail EINVAL s"
    by (cases "fail EINVAL s") (auto simp: sys_sem_getvalue_def drop_out_def)
  then show ?thesis using result_fail [OF assms] by simp
next
  case (Some i)
  then show ?thesis
    using sem_getvalue_ok [OF sync_invD(1) [OF assms] Some] result_ok_same [OF assms refl becomes_refl [OF sync_invD(1) [OF assms]]]
    by (simp add: drop_out_def)
qed

subsection \<open>Mutexes\<close>

lemma mutex_nth: "j < length (mutex_heap s) \<Longrightarrow>
  mutexes s ! j = (mx_allocated (mutex_heap s ! j), mx_locked (mutex_heap s ! j), mx_type (mutex_heap s ! j), mx_owner (mutex_heap s ! j))"
  by (simp add: mutex_rest_def)

lemma no_mutex_waiters:
  assumes "sync_inv tw s" "i < length (mutex_heap s)" "\<not> mx_allocated (mutex_heap s ! i)"
  shows "waiters (Mutex_q i) s = {}"
  using sync_invD(3) [OF assms(1)] assms(2,3) mutex_nth [OF assms(2)] by (auto simp: mutexes_ok_def waiters_wset)

lemma mutexes_ok_set:
  assumes "mutexes_ok w mv" "\<not> fst x \<Longrightarrow> wset (Mutex_q i) w = {}"
  shows "mutexes_ok w (mv[i := x])"
  unfolding mutexes_ok_def
proof (intro allI impI)
  fix j
  assume j: "j < length (mv[i := x])" "\<not> fst (mv[i := x] ! j)"
  then show "wset (Mutex_q j) w = {}" using assms by (cases "i = j") (auto simp: mutexes_ok_def)
qed

lemma views_mutex_set:
  assumes "sync_inv tw s" "\<not> fst x \<Longrightarrow> waiters (Mutex_q i) s = {}"
  shows "views_ok tw (wview s) (sems s) ((mutexes s)[i := x])"
  using mutexes_ok_set [OF sync_invD(3) [OF assms(1)], of x i] sync_invD(2) [OF assms(1)] assms(2) by (simp add: views_ok_def waiters_wset)

lemma views_mutex_alloc:
  assumes "sync_inv tw s"
  shows "views_ok tw (wview s) (sems s) ((mutexes s)[i := (True, n, ty, p)])"
  by (rule views_mutex_set [OF assms]) simp

lemma kept_set:
  assumes "i = j \<Longrightarrow> j < length (mutex_heap s) \<Longrightarrow> mx_allocated (mutex_heap s ! j) \<Longrightarrow> mx_locked (mutex_heap s ! j) \<noteq> 0 \<Longrightarrow>
      j \<in> T \<and> mx_type (mutex_heap s ! j) = PTHREAD_MUTEX_RECURSIVE \<and> mx_owner (mutex_heap s ! j) = p \<and>
      x = (True, mx_locked (mutex_heap s ! j) + 1, PTHREAD_MUTEX_RECURSIVE, p)"
  shows "kept T p j (mutexes s) ((mutexes s)[i := x])"
proof (cases "i = j \<and> j < length (mutex_heap s)")
  case True
  then show ?thesis using assms mutex_nth [of j s] by (auto simp: kept_def)
next
  case False
  then show ?thesis by (auto simp: kept_def)
qed

lemma kept_fresh:
  "\<not> mx_allocated (mutex_heap s ! i) \<or> mx_locked (mutex_heap s ! i) = 0 \<Longrightarrow> kept T p j (mutexes s) ((mutexes s)[i := x])"
  by (rule kept_set) auto

lemma result_mutex_init:
  assumes "sync_inv tw s"
  shows "result_ok tw s (int_result (drop_out (sys_pthread_mutex_init False attr s))) T U"
proof -
  obtain r m mv s' where i: "sys_pthread_mutex_init False attr s = Some (r, m, s')" "becomes tw s (wview s) (sems s) mv s'"
     "mv = mutexes s \<or> (\<exists>i ty. i < length (mutex_heap s) \<and> \<not> mx_allocated (mutex_heap s ! i) \<and> mv = (mutexes s)[i := (True, 0, ty, 255)])"
    using mutex_init_ok [OF sync_invD(1) [OF assms] no_mutex_waiters [OF assms], of attr] by blast
  have "views_ok tw (wview s) (sems s) mv" using i(3) views_mutex_alloc [OF assms] sync_invD(2) [OF assms] by auto
  moreover have "kept T (current_pid s) j (mutexes s) mv" for j using i(3) kept_fresh [of s] by auto
  ultimately show ?thesis
    unfolding i(1) drop_out_def int_result_def by (intro result_okI [OF _ i(2)]) auto
qed

lemma result_mutex_destroy:
  assumes "sync_inv tw s" "call_ok tw (Mutex_destroy m) s"
  shows "result_ok tw s (int_result (drop_out (sys_pthread_mutex_destroy m s))) T U"
proof -
  note same = result_ok_same [OF assms(1) refl becomes_refl [OF sync_invD(1) [OF assms(1)]]]
  consider "\<exists>r m'. sys_pthread_mutex_destroy m s = Some (r, m', s)"
    | v where "m = Some (MUTEX v)" "0 \<le> v" "nat v < length (mutex_heap s)" "mx_allocated (mutex_heap s ! nat v)"
        "mx_locked (mutex_heap s ! nat v) = 0"
  proof (cases "\<exists>v. m = Some (MUTEX v) \<and> 0 \<le> v \<and> nat v < length (mutex_heap s) \<and> mx_allocated (mutex_heap s ! nat v) \<and>
      mx_locked (mutex_heap s ! nat v) = 0")
    case True
    then show thesis using that(2) by blast
  next
    case False
    then have "\<exists>r m'. sys_pthread_mutex_destroy m s = Some (r, m', s)"
      by (auto simp: sys_pthread_mutex_destroy_def array_simps not_less nat_less_iff split: option.split mutex_val.split)
    then show thesis by (rule that(1))
  qed
  then show ?thesis
  proof cases
    case 1
    then show ?thesis using same by (auto simp: drop_out_def int_result_def)
  next
    case 2
    define i where "i = nat v"
    have "item_count (mutex_wait_q (mutex_heap s ! i)) = 0" using assms(2) 2(1,3) by (simp add: i_def)
    then have free: "waiters (Mutex_q i) s = {}"
      using waiters_queue(4) [OF kern_okD(1) [OF sync_invD(1) [OF assms(1)]] mutex_queue, of i] 2(3) by (simp add: i_def)
    have nc: "conts s p \<noteq> Some (K_mutex_lock i)" for p
    proof -
      have "list_all (\<lambda>p. conts s (of_nat p) \<noteq> Some (K_mutex_lock i)) [0..<256]" using assms(2) 2(1) by (simp add: i_def)
      moreover have "unat p \<in> set [0..<256]" using unat_u8 [of p] by simp
      ultimately have "conts s (of_nat (unat p)) \<noteq> Some (K_mutex_lock i)" unfolding list_all_iff by blast
      then show ?thesis by simp
    qed
    define f where "f = (\<lambda>x :: mutex_info. x\<lparr>mx_allocated := False\<rparr>)"
    obtain s' where s': "upd_mutex i f s = Some s'" "becomes tw s (wview s) (sems s) ((mutexes s)[i := mutex_rest (f (mutex_heap s ! i))]) s'"
      using upd_mutex_ok [OF sync_invD(1) [OF assms(1)], of i f] 2(3) nc by (auto simp: f_def i_def)
    have "sys_pthread_mutex_destroy m s = Some (0, Some PTHREAD_MUTEX_INVALID, s')"
      using 2 s'(1) by (auto simp: sys_pthread_mutex_destroy_def array_simps i_def f_def)
    moreover have "kept T (current_pid s) j (mutexes s) ((mutexes s)[i := mutex_rest (f (mutex_heap s ! i))])" for j
      by (rule kept_fresh) (use 2(5) in \<open>simp add: i_def\<close>)
    moreover have "views_ok tw (wview s) (sems s) ((mutexes s)[i := mutex_rest (f (mutex_heap s ! i))])"
      by (rule views_mutex_set [OF assms(1) free])
    ultimately show ?thesis by (intro result_okI [OF _ s'(2)]) (auto simp: drop_out_def int_result_def)
  qed
qed

lemma mutex_index_ok:
  assumes "sync_inv tw s"
  shows "(\<exists>e. mutex_index m s = Some (Inl e)) \<or>
     (\<exists>i m' mv s1. mutex_index m s = Some (Inr (i, m', s1)) \<and> becomes tw s (wview s) (sems s) mv s1 \<and> sync_inv tw s1 \<and>
        i < length (mutex_heap s1) \<and> current_pid s1 = current_pid s \<and> conts s1 = conts s \<and>
        (\<forall>j n ty q. j < length (mutexes s) \<and> mutexes s ! j = (True, n, ty, q) \<and> n \<noteq> 0 \<longrightarrow> mv ! j = mutexes s ! j) \<and>
        length mv = length (mutexes s) \<and>
        (s1 = s \<and> m = Some (MUTEX (int i)) \<or> i < length (mutex_heap s) \<and> \<not> mx_allocated (mutex_heap s ! i)))"
proof (cases m)
  case None
  then show ?thesis by (simp add: mutex_index_def)
next
  case (Some v)
  show ?thesis
  proof (cases v)
    case (MUTEX k)
    then show ?thesis
      using Some becomes_refl [OF sync_invD(1) [OF assms]] assms
      by (cases "k < 0 \<or> k \<ge> int (length (mutex_heap s))") (auto simp: mutex_index_def not_less nat_less_iff)
  next
    case MUTEX_INITIALIZER
    obtain r m' mv s' where i: "sys_pthread_mutex_init False (Some PTHREAD_MUTEX_DEFAULT) s = Some (r, m', s')"
       "becomes tw s (wview s) (sems s) mv s'" "current_pid s' = current_pid s" "conts s' = conts s"
       "r \<noteq> 0 \<and> m' = None \<and> mv = mutexes s \<or>
         (\<exists>i ty. i < length (mutex_heap s) \<and> \<not> mx_allocated (mutex_heap s ! i) \<and> r = 0 \<and> m' = Some (MUTEX (int i)) \<and>
           mv = (mutexes s)[i := (True, 0, ty, 255)])"
      using mutex_init_ok [OF sync_invD(1) [OF assms] no_mutex_waiters [OF assms], of "Some PTHREAD_MUTEX_DEFAULT"] by blast
    from i(5) show ?thesis
    proof (elim disjE exE conjE)
      assume "r \<noteq> 0" "m' = None"
      then show ?thesis using Some MUTEX_INITIALIZER i(1) by (simp add: mutex_index_def)
    next
      fix j ty
      assume j: "j < length (mutex_heap s)" "\<not> mx_allocated (mutex_heap s ! j)" "r = 0" "m' = Some (MUTEX (int j))"
        "mv = (mutexes s)[j := (True, 0, ty, 255)]"
      have eq: "mutex_index m s = Some (Inr (j, m', s'))" using Some MUTEX_INITIALIZER i(1) j(3,4) by (simp add: mutex_index_def)
      have inv: "sync_inv tw s'" by (rule sync_becomes [OF i(2)]) (use j(5) views_mutex_alloc [OF assms] in simp)
      have len: "length mv = length (mutexes s)" "length (mutex_heap s') = length (mutex_heap s)"
        using j(5) becomes_eqD(5) [OF i(2)] by (simp, metis length_list_update length_map)
      have "mv ! k = mutexes s ! k" if "k < length (mutexes s)" "mutexes s ! k = (True, n, ty, q)" for k n ty q
        using that j(2,5) mutex_nth [of k s] by (cases "k = j") simp_all
      then show ?thesis using eq inv len i(2-4) j(1,2) by auto
    qed
  qed
qed

lemma result_mutex_loop:
  assumes "sync_inv tw s" "current_pid s \<noteq> idle_task_pid s" "i < length (mutex_heap s)" "mx_allocated (mutex_heap s ! i)"
    and "mx_locked (mutex_heap s ! i) \<noteq> 0 \<Longrightarrow> i \<in> T"
  shows "result_ok tw s (mutex_loop i trylock s) T U"
proof -
  let ?x = "mutex_heap s ! i" and ?c = "current_pid s"
  define held where "held = (mx_locked ?x \<noteq> 0 \<and> (mx_type ?x \<noteq> PTHREAD_MUTEX_RECURSIVE \<or> mx_owner ?x \<noteq> ?c))"
  define n where "n = (if mx_type ?x = PTHREAD_MUTEX_RECURSIVE then mx_locked ?x + 1 else 1)"
  obtain v s' where l: "mutex_loop i trylock s = Some (v, s')"
     "becomes tw s (if held \<and> \<not> trylock then move ?c (Some (Mutex_q i)) False s else wview s) (sems s)
       (if held then mutexes s else mutex_with i n ?c s) s'"
    using mutex_loop_ok [OF sync_invD(1) [OF assms(1)] assms(2-4) refl held_def, of trylock] unfolding n_def by blast
  show ?thesis
  proof (cases held)
    case True
    have "views_ok tw (if held \<and> \<not> trylock then move ?c (Some (Mutex_q i)) False s else wview s) (sems s) (mutexes s)"
      using views_block_mutex [OF assms(1,3,4)] sync_invD(2) [OF assms(1)] by simp
    moreover have "becomes tw s (if held \<and> \<not> trylock then move ?c (Some (Mutex_q i)) False s else wview s) (sems s) (mutexes s) s'"
      using l(2) True by simp
    ultimately show ?thesis using kept_refl by (intro result_okI [OF l(1)])
  next
    case False
    have m: "mutex_with i n ?c s = (mutexes s)[i := (True, n, mx_type ?x, ?c)]" using assms(4) by (simp add: mutex_with_def Let_def)
    have "kept T ?c j (mutexes s) (mutex_with i n ?c s)" for j
      unfolding m by (rule kept_set) (use False assms(5) in \<open>auto simp: held_def n_def\<close>)
    moreover have "views_ok tw (wview s) (sems s) (mutex_with i n ?c s)" unfolding m by (rule views_mutex_set [OF assms(1)]) simp
    moreover have "becomes tw s (wview s) (sems s) (mutex_with i n ?c s) s'" using l(2) False by simp
    ultimately show ?thesis by (intro result_okI [OF l(1)])
  qed
qed

text \<open>The result of a call after the argument was found or made.\<close>

lemma result_after:
  assumes "result_ok tw s1 r T U" "idle_task_pid s1 = idle_task_pid s" "current_pid s1 = current_pid s" "length (mutexes s1) = length (mutexes s)"
    and "\<And>j n ty q. j < length (mutexes s) \<and> mutexes s ! j = (True, n, ty, q) \<and> n \<noteq> 0 \<Longrightarrow> mutexes s1 ! j = mutexes s ! j"
    and "sleepers s \<subseteq> sleepers s1"
  shows "result_ok tw s r T U"
proof -
  obtain v s' where r: "r = Some (v, s')" "sync_inv tw s'" "idle_task_pid s' = idle_task_pid s1"
      "sleepers s1 \<subseteq> sleepers s'" "\<And>j. j \<notin> U \<Longrightarrow> kept T (current_pid s1) j (mutexes s1) (mutexes s')"
    using assms(1) by (auto simp: result_ok_def)
  have "kept T (current_pid s) j (mutexes s) (mutexes s')" if "j \<notin> U" for j
    unfolding kept_def
  proof (intro allI impI)
    fix n ty q
    assume a: "j < length (mutexes s) \<and> mutexes s ! j = (True, n, ty, q) \<and> n \<noteq> 0"
    then have "mutexes s1 ! j = mutexes s ! j" by (rule assms(5))
    then show "j < length (mutexes s') \<and> (mutexes s' ! j = mutexes s ! j \<or>
        j \<in> T \<and> ty = PTHREAD_MUTEX_RECURSIVE \<and> q = current_pid s \<and> mutexes s' ! j = (True, n + 1, ty, q))"
      using r(5) [OF that] a assms(3,4) unfolding kept_def by metis
  qed
  then show ?thesis using r(1-4) assms(2,6) unfolding result_ok_def by (intro exI [of _ v] exI [of _ s']) auto
qed

lemma result_mutex_lock:
  assumes "sync_inv tw s" "current_pid s \<noteq> idle_task_pid s" "\<And>i. m = Some (MUTEX (int i)) \<Longrightarrow> i \<in> T"
  shows "result_ok tw s (drop_out (pthread_mutex_lock_basic m trylock s)) T U"
proof -
  note same = result_ok_same [OF _ refl becomes_refl [OF sync_invD(1)]]
  consider (no) e where "mutex_index m s = Some (Inl e)"
    | (found) i m' mv s1 where "mutex_index m s = Some (Inr (i, m', s1))" "becomes tw s (wview s) (sems s) mv s1" "sync_inv tw s1"
      "i < length (mutex_heap s1)" "current_pid s1 = current_pid s"
      "\<forall>j n ty q. j < length (mutexes s) \<and> mutexes s ! j = (True, n, ty, q) \<and> n \<noteq> 0 \<longrightarrow> mv ! j = mutexes s ! j"
      "length mv = length (mutexes s)" "s1 = s \<and> m = Some (MUTEX (int i)) \<or> i < length (mutex_heap s) \<and> \<not> mx_allocated (mutex_heap s ! i)"
    using mutex_index_ok [OF assms(1), of m] by blast
  then show ?thesis
  proof cases
    case no
    then show ?thesis using same [OF assms(1) assms(1)] by (simp add: pthread_mutex_lock_basic_def drop_out_def)
  next
    case found
    note ix = found(1) and b = found(2) and inv = found(3) and i = found(4) and cur = found(5) and eq = found(6) and len = found(7)
      and which = found(8)
    note bd = becomes_eqD [OF b] becomes_sleepers [OF b]
    let ?r = "drop_out (pthread_mutex_lock_basic m trylock s)"
    have "result_ok tw s1 ?r (insert i T) U"
    proof (cases "mx_allocated (mutex_heap s1 ! i)")
      case False
      then show ?thesis using ix i same [OF inv inv] by (simp add: pthread_mutex_lock_basic_def drop_out_def array_simps)
    next
      case True
      have "result_ok tw s1 (mutex_loop i trylock s1) (insert i T) U"
        by (rule result_mutex_loop [OF inv _ i True]) (use cur bd(2) assms(2) in simp_all)
      moreover have "?r = mutex_loop i trylock s1"
        using ix i True by (cases "mutex_loop i trylock s1") (auto simp: pthread_mutex_lock_basic_def drop_out_def array_simps)
      ultimately show ?thesis by simp
    qed
    then have big: "result_ok tw s ?r (insert i T) U" by (rule result_after) (use bd cur len eq in simp_all)
    show ?thesis
    proof (cases "i \<in> T")
      case True
      then show ?thesis using big by (simp add: insert_absorb)
    next
      case False
      then have free: "i < length (mutex_heap s)" "\<not> mx_allocated (mutex_heap s ! i)" using which assms(3) by auto
      have "kept T p j (mutexes s) mv'" if "kept (insert i T) p j (mutexes s) mv'" for p j mv'
        using that free mutex_nth [of i s] unfolding kept_def by (cases "j = i") (simp, blast)
      then show ?thesis using big unfolding result_ok_def by blast
    qed
  qed
qed

lemma kept_other: "i \<noteq> j \<Longrightarrow> kept T p j mv (mv[i := x])"
  by (simp add: kept_def)

lemma result_mutex_release:
  assumes "sync_inv tw s" "i < length (mutex_heap s)" "i \<in> U"
  shows "result_ok tw s (mutex_release i s) T U"
proof -
  define x where "x = mutex_heap s ! i"
  define wk where "wk = (mx_locked x = 0 \<and> waiters (Mutex_q i) s \<noteq> {})"
  obtain w s' where r: "mutex_release i s = Some (Ret 0, s')"
     "becomes tw s w (sems s) (if mx_locked x = 0 then mutex_with i 0 255 s else mutexes s) s'"
     "if wk then resched s' \<and> (\<exists>p \<in> waiters (Mutex_q i) s.
          (\<forall>y \<in> waiters (Mutex_q i) s. prio_of (ptable s) p \<le> prio_of (ptable s) y) \<and> w = move p None False s)
      else w = wview s"
    using mutex_release_ok [OF sync_invD(1) [OF assms(1)] assms(2) x_def wk_def] by blast
  have m: "mutex_with i 0 255 s = (mutexes s)[i := (mx_allocated x, 0, mx_type x, 255)]" by (simp add: mutex_with_def x_def Let_def)
  have v1: "views_ok tw w (sems s) (mutexes s)"
  proof (cases wk)
    case True
    then obtain p where "p \<in> wset (Mutex_q i) (wview s)" "w = move p None False s" using r(3) by (auto simp: waiters_wset)
    then show ?thesis using views_unblock [OF assms(1), of p "Mutex_q i"] by simp
  next
    case False
    then show ?thesis using r(3) sync_invD(2) [OF assms(1)] by simp
  qed
  then have "views_ok tw w (sems s) (if mx_locked x = 0 then mutex_with i 0 255 s else mutexes s)"
    using mutexes_ok_set [of w "mutexes s" "(mx_allocated x, 0, mx_type x, 255)" i] assms(2) mutex_nth [OF assms(2)]
    unfolding m by (auto simp: views_ok_def mutexes_ok_def x_def)
  moreover have "kept T (current_pid s) j (mutexes s) (if mx_locked x = 0 then mutex_with i 0 255 s else mutexes s)" if "j \<notin> U" for j
  proof -
    have "i \<noteq> j" using that assms(3) by blast
    then show ?thesis using kept_other [of i j] unfolding m by simp
  qed
  ultimately show ?thesis by (rule result_okI [OF r(1,2)])
qed

lemma result_mutex_unlock:
  assumes "sync_inv tw s" "\<And>i. m = Some (MUTEX (int i)) \<Longrightarrow> i \<in> U"
  shows "result_ok tw s (drop_out (sys_pthread_mutex_unlock m s)) T U"
proof -
  note same = result_ok_same [OF _ refl becomes_refl [OF sync_invD(1)]]
  consider (no) e where "mutex_index m s = Some (Inl e)"
    | (found) i m' mv s1 where "mutex_index m s = Some (Inr (i, m', s1))" "becomes tw s (wview s) (sems s) mv s1" "sync_inv tw s1"
      "i < length (mutex_heap s1)" "current_pid s1 = current_pid s"
      "\<forall>j n ty q. j < length (mutexes s) \<and> mutexes s ! j = (True, n, ty, q) \<and> n \<noteq> 0 \<longrightarrow> mv ! j = mutexes s ! j"
      "length mv = length (mutexes s)" "s1 = s \<and> m = Some (MUTEX (int i)) \<or> i < length (mutex_heap s) \<and> \<not> mx_allocated (mutex_heap s ! i)"
    using mutex_index_ok [OF assms(1), of m] by blast
  then show ?thesis
  proof cases
    case no
    then show ?thesis using same [OF assms(1) assms(1)] by (simp add: sys_pthread_mutex_unlock_def drop_out_def)
  next
    case found
    note ix = found(1) and b = found(2) and inv = found(3) and i = found(4) and cur = found(5) and eq = found(6) and len = found(7)
      and which = found(8)
    note bd = becomes_eqD [OF b] becomes_sleepers [OF b]
    let ?r = "drop_out (sys_pthread_mutex_unlock m s)" and ?x = "mutex_heap s1 ! i"
    have "result_ok tw s1 ?r T (insert i U)"
    proof (cases "mx_allocated ?x \<and> \<not> (mx_type ?x = PTHREAD_MUTEX_RECURSIVE \<and> mx_owner ?x \<noteq> current_pid s1)")
      case False
      then have "\<exists>e. ?r = Some (Ret e, s1)" using ix i by (auto simp: sys_pthread_mutex_unlock_def drop_out_def array_simps)
      then show ?thesis using same [OF inv inv] by auto
    next
      case True
      define f where "f = (\<lambda>x :: mutex_info. x\<lparr>mx_locked := (if mx_type x = PTHREAD_MUTEX_RECURSIVE then mx_locked x - 1 else 0)\<rparr>)"
      obtain s2 where s2: "upd_mutex i f s1 = Some s2" "becomes tw s1 (wview s1) (sems s1) ((mutexes s1)[i := mutex_rest (f ?x)]) s2"
          "mutex_heap s2 = (mutex_heap s1)[i := f ?x]" "current_pid s2 = current_pid s1"
        using upd_mutex_ok [OF sync_invD(1) [OF inv] i, of f] True by (auto simp: f_def)
      have "mutex_rest (f ?x) = (True, mx_locked (f ?x), mx_type ?x, mx_owner ?x)" using True by (simp add: mutex_rest_def f_def)
      then have inv2: "sync_inv tw s2" using sync_becomes [OF s2(2)] views_mutex_alloc [OF inv] by simp
      have r2: "result_ok tw s2 (mutex_release i s2) T (insert i U)" by (rule result_mutex_release [OF inv2]) (use i s2(3) in simp_all)
      then obtain v s' where r: "mutex_release i s2 = Some (v, s')" "sync_inv tw s'" "idle_task_pid s' = idle_task_pid s2"
          "sleepers s2 \<subseteq> sleepers s'" "\<And>j. j \<notin> insert i U \<Longrightarrow> kept T (current_pid s2) j (mutexes s2) (mutexes s')"
        by (auto simp: result_ok_def)
      have "?r = Some (v, s')"
        using ix i True s2(1) r(1) by (auto simp: sys_pthread_mutex_unlock_def drop_out_def array_simps f_def)
      moreover have "kept T (current_pid s1) j (mutexes s1) (mutexes s')" if "j \<notin> insert i U" for j
        using r(5) [OF that] that becomes_eqD(5) [OF s2(2)] s2(4) by (auto simp: kept_def)
      ultimately show ?thesis
        using r(2-4) becomes_eqD(2) [OF s2(2)] becomes_sleepers [OF s2(2)] unfolding result_ok_def by (intro exI [of _ v] exI [of _ s']) auto
    qed
    then have big: "result_ok tw s ?r T (insert i U)" by (rule result_after) (use bd cur len eq in simp_all)
    show ?thesis
    proof (cases "i \<in> U")
      case True
      then show ?thesis using big by (simp add: insert_absorb)
    next
      case False
      then have "i < length (mutex_heap s)" "\<not> mx_allocated (mutex_heap s ! i)" using which assms(2) by auto
      then have "kept T p i (mutexes s) mv'" for p mv' using mutex_nth [of i s] by (simp add: kept_def)
      then show ?thesis using big unfolding result_ok_def by (metis insert_iff)
    qed
  qed
qed

section \<open>Steps and reachable states\<close>

definition unlocks :: "kevent \<Rightarrow> nat set" where
  "unlocks ev = {i. ev = Call (Mutex_unlock (Some (MUTEX (int i))))}"

text \<open>The mutexes that a step tries to take by their number: the argument of a call, or the one it was waiting for.\<close>

definition takes :: "kevent \<Rightarrow> kernel \<Rightarrow> nat set" where
  "takes ev s = {i. ev = Call (Mutex_lock (Some (MUTEX (int i)))) \<or> ev = Call (Mutex_trylock (Some (MUTEX (int i)))) \<or>
     ev = Resume \<and> conts s (current_pid s) = Some (K_mutex_lock i)}"

lemma result_yield:
  assumes "sync_inv tw s"
  shows "result_ok tw s (int_result (Some (sys_yield s))) T U"
proof -
  define s' where "s' = s\<lparr>resched := True\<rparr>"
  have k: "kern_ok tw s" by (rule sync_invD(1) [OF assms])
  have "get_queue r s' = get_queue r s" for r by (rule get_queue_frame) (simp_all add: s'_def)
  then have "k_inv s'" using k_inv_vals [of s' s] kern_okD(1) [OF k] by (simp add: s'_def)
  moreover have "conts_ok tw s'" by (rule conts_ok_cong [OF kern_okD(2) [OF k] _ iffD2 [OF cont_ok_same]]) (simp_all add: s'_def)
  ultimately have b: "becomes tw s (wview s) (sems s) (mutexes s) s'"
    using kern_okD(3) [OF k] by (simp add: becomes_defs kern_ok_def) (simp add: s'_def wview_def [abs_def] sleepers_def tmr_view_def tmr_ids_def)
  have "int_result (Some (sys_yield s)) = Some (Ret 0, s')" by (simp add: int_result_def sys_yield_def s'_def)
  then show ?thesis by (rule result_ok_same [OF assms _ b])
qed

lemma result_create:
  assumes "sync_inv tw s" "call_ok tw (Elf_process_create prio) s"
  shows "result_ok tw s (sys_elf_process_create prio s) T U"
proof -
  obtain v w s' where c: "sys_elf_process_create prio s = Some (Ret v, s')" "becomes tw s w (sems s) (mutexes s) s'"
     "w = wview s \<or> (\<exists>p pr. get_proc (ptable s) p = Some pr \<and> \<not> is_allocated pr \<and>
        w = (wview s)(p \<mapsto> (p, uint prio, True, None, False, False)))"
    using create_ok [OF sync_invD(1) [OF assms(1)], of prio] assms(2) unfolding call_ok.simps by blast
  have "views_ok tw w (sems s) (mutexes s)" using c(3) views_created [OF assms(1)] sync_invD(2) [OF assms(1)] by blast
  then show ?thesis by (rule result_okI [OF c(1,2)]) simp
qed

lemma call_inv:
  assumes "sync_inv tw s" "enabled (Call c) s" "call_ok tw c s"
  shows "result_ok tw s (run_call c s) (takes (Call c) s) (unlocks (Call c))"
proof -
  have ni: "current_pid s \<noteq> idle_task_pid s" using assms(2) by simp
  show ?thesis
  proof (cases c)
    case (Sleep ms)
    obtain s' where "sys_sleep ms s = Some (Blocked, s')" "becomes tw s (move (current_pid s) None True s) (sems s) (mutexes s) s'"
      using sleep_ok [OF sync_invD(1) [OF assms(1)] ni] by blast
    then show ?thesis unfolding Sleep run_call.simps by (rule result_okI [OF _ _ views_sleep [OF assms(1)]]) simp
  next
    case Elf_exit
    obtain s' where "sys_elf_exit s = Some (Blocked, s')" "becomes tw s (ended (current_pid s) s) (sems s) (mutexes s) s'"
      using elf_exit_ok [OF sync_invD(1) [OF assms(1)] ni] by blast
    then show ?thesis unfolding Elf_exit run_call.simps by (rule result_okI [OF _ _ views_ended [OF assms(1)]]) simp
  next
    case (Mutex_unlock m)
    then show ?thesis unfolding run_call.simps by (simp only: run_call.simps) (rule result_mutex_unlock [OF assms(1)], simp add: unlocks_def)
  next
    case (Mutex_lock m)
    then show ?thesis
      by (simp only: run_call.simps sys_pthread_mutex_lock_def) (rule result_mutex_lock [OF assms(1) ni], simp add: takes_def)
  next
    case (Mutex_trylock m)
    then show ?thesis
      by (simp only: run_call.simps sys_pthread_mutex_trylock_def) (rule result_mutex_lock [OF assms(1) ni], simp add: takes_def)
  qed (use assms ni result_yield result_create result_sem_init result_sem_destroy result_sem_wait result_sem_timedwait
        result_sem_trywait result_sem_post result_sem_getvalue result_mutex_init result_mutex_destroy
      in simp_all)
qed

lemma resume_inv:
  assumes "sync_inv tw s" "enabled Resume s"
  shows "result_ok tw s (resume s) (takes Resume s) {}"
proof -
  note k = sync_invD(1) [OF assms(1)]
  define s1 where "s1 = s\<lparr>conts := (conts s)(current_pid s := None)\<rparr>"
  note r1 = resumed_ok [OF k s1_def]
  have inv1: "sync_inv tw s1" by (rule sync_becomes [OF r1(1) sync_invD(2) [OF assms(1)]])
  obtain kc where kc: "conts s (current_pid s) = Some kc" using assms(2) by auto
  have ok: "cont_ok tw kc s" "current_pid s \<noteq> idle_task_pid s" using kern_okD(2) [OF k] kc by (auto simp: conts_ok_def)
  have ni: "current_pid s1 \<noteq> idle_task_pid s1" using ok(2) by (simp add: s1_def)
  have "result_ok tw s1 (resume s) (takes Resume s) {}"
  proof (cases kc)
    case K_sleep
    then have "resume s = Some (Ret 0, s1)" using kc by (simp add: resume_def Let_def s1_def)
    then show ?thesis by (rule result_ok_same [OF inv1 _ becomes_refl [OF sync_invD(1) [OF inv1]]])
  next
    case (K_sem_wait i)
    then have "resume s = sem_wait_end i s1" using kc by (simp add: resume_def Let_def s1_def)
    moreover have "i < length (sem_heap s1)" using ok(1) K_sem_wait by (simp add: s1_def)
    ultimately show ?thesis using sem_wait_end_ok [OF sync_invD(1) [OF inv1], of i] result_ok_same [OF inv1] by metis
  next
    case (K_sem_timedwait i)
    then have tw: tw using ok(1) by simp
    have eq: "resume s = sem_timedwait_end i s1" using kc K_sem_timedwait by (simp add: resume_def Let_def s1_def)
    have "i < length (sem_heap s1)" using ok(1) K_sem_timedwait by (simp add: s1_def)
    then obtain r sv s' where t: "sem_timedwait_end i s1 = Some (Ret r, s')" "becomes tw s1 (wview s1) sv (mutexes s1) s'"
      using sem_timedwait_end_ok [OF sync_invD(1) [OF inv1], of i] by blast
    have "views_ok tw (wview s1) sv (mutexes s1)" using sync_invD(2) [OF inv1] tw by (simp add: views_ok_def)
    then show ?thesis unfolding eq by (rule result_okI [OF t]) simp
  next
    case (K_mutex_lock i)
    then have "resume s = mutex_loop i False s1" using kc by (simp add: resume_def Let_def s1_def)
    moreover have "i < length (mutex_heap s1)" "mx_allocated (mutex_heap s1 ! i)" using ok(1) K_mutex_lock by (simp_all add: s1_def)
    moreover have "i \<in> takes Resume s" using kc K_mutex_lock by (simp add: takes_def)
    ultimately show ?thesis using result_mutex_loop [OF inv1 ni, of i "takes Resume s" False] by simp
  qed
  then show ?thesis by (rule result_after) (use becomes_sleepers [OF r1(1)] in \<open>simp_all add: s1_def\<close>)
qed

lemma leave_inv:
  assumes "result_ok tw s r T U"
  shows "\<exists>s'. leave r = Some s' \<and> sync_inv tw s' \<and> idle_task_pid s' = idle_task_pid s \<and> sleepers s \<subseteq> sleepers s' \<and>
     (\<forall>j. j \<notin> U \<longrightarrow> kept T (current_pid s) j (mutexes s) (mutexes s'))"
proof -
  obtain v s1 where r: "r = Some (v, s1)" "sync_inv tw s1" "idle_task_pid s1 = idle_task_pid s" "sleepers s \<subseteq> sleepers s1"
      "\<And>j. j \<notin> U \<Longrightarrow> kept T (current_pid s) j (mutexes s) (mutexes s1)"
    using assms by (auto simp: result_ok_def)
  show ?thesis
  proof (cases v)
    case Blocked
    then show ?thesis using r by (simp add: leave_def)
  next
    case (Ret x)
    obtain s' where s': "sys_exit s1 = Some s'" "becomes tw s1 (wview s1) (sems s1) (mutexes s1) s'"
      using exit_ok [OF sync_invD(1) [OF r(2)]] by blast
    have "sync_inv tw s'" by (rule sync_becomes [OF s'(2) sync_invD(2) [OF r(2)]])
    moreover have "sleepers s \<subseteq> sleepers s'" using r(4) becomes_sleepers [OF s'(2)] by blast
    ultimately show ?thesis using Ret r s'(1) becomes_eqD [OF s'(2)] by (simp add: leave_def)
  qed
qed

text \<open>
  The events the callers may cause.
\<close>

fun event_ok :: "bool \<Rightarrow> kevent \<Rightarrow> kernel \<Rightarrow> bool" where
  "event_ok tw (Call c) s = call_ok tw c s"
| "event_ok tw Resume s = True"
| "event_ok tw Tick s = True"

lemma step_inv:
  assumes "sync_inv tw s" "enabled ev s" "event_ok tw ev s"
  shows "\<exists>s'. kstep ev s = Some s' \<and> sync_inv tw s' \<and> idle_task_pid s' = idle_task_pid s \<and>
     (ev \<noteq> Tick \<longrightarrow> sleepers s \<subseteq> sleepers s') \<and>
     (\<forall>j. j \<notin> unlocks ev \<longrightarrow> kept (takes ev s) (current_pid s) j (mutexes s) (mutexes s'))"
proof (cases ev)
  case (Call c)
  then show ?thesis using leave_inv [OF call_inv [OF assms(1), of c]] assms(2,3) by simp
next
  case Resume
  then show ?thesis using leave_inv [OF resume_inv [OF assms(1)]] assms(2) by (simp add: unlocks_def)
next
  case Tick
  obtain s' where s': "timer_irq s = Some s'"
     "arrives tw s (\<lambda>p. map_option (if p \<in> due s then moved None False else id) (wview s p)) (sems s) (mutexes s) s'"
    using irq_ok [OF sync_invD(1) [OF assms(1)]] by blast
  have "sync_inv tw s'" by (rule sync_arrives [OF s'(2) views_irq [OF assms(1)]])
  then show ?thesis using Tick s'(1,2) by (simp add: arrives_def)
qed

end
