(* ===== verification/Kern_Boot.thy ===== *)
theory Kern_Boot
  imports Kern_System
begin

text \<open>
  The start of the kernel, \<^verbatim>\<open>xilkernel_init\<close> in \<^verbatim>\<open>main.c\<close>, and the states that can be reached from
  there. The configuration, which the tools generate, is a parameter: the number of ready queues and the
  memory of all queues, the lowest priority, and the priorities of the processes started first. The
  message queues, shared memory and buffers have tables of their own and are initialised apart.
\<close>

section \<open>Start of the kernel\<close>

record kconfig =
  cfg_max_readyq :: u8
  cfg_readyq_mem :: "pid list list"
  cfg_prio_lowest :: u32
  cfg_max_sem_waitq :: u8
  cfg_sem_mem :: "pid list list"
  cfg_max_mutex_waitq :: u8
  cfg_mutex_mem :: "pid list list"
  cfg_init_prios :: "u32 list"

definition init_idle_task :: "u32 \<Rightarrow> kernel \<Rightarrow> kernel option" where
  "init_idle_task prio_lowest s =
     do { (p, s) \<leftarrow> proc_create prio_lowest s;
          s \<leftarrow> upd_proc p (\<lambda>pr. pr\<lparr>pr_state := PROC_RUN\<rparr>) (s\<lparr>idle_task_pid := p\<rparr>);
          Some (s\<lparr>current_pid := p\<rparr>) }"

fun se_process_init :: "u32 list \<Rightarrow> kernel \<Rightarrow> (int \<times> kernel) option" where
  "se_process_init [] s = Some (0, s)"
| "se_process_init (prio # prios) s =
     do { (r, s) \<leftarrow> sys_elf_process_create prio s;
          case r of
            Ret v \<Rightarrow> if v < 0 then Some (- 1, s) else se_process_init prios s
          | Blocked \<Rightarrow> None }"

definition init_tables :: "kconfig \<Rightarrow> kernel \<Rightarrow> kernel" where
  "init_tables c s =
     sem_heap_init (cfg_max_sem_waitq c) (cfg_sem_mem c)
       (pthread_mutex_heap_init (cfg_max_mutex_waitq c) (cfg_mutex_mem c)
         (s\<lparr>ptable := map (\<lambda>pr. pr\<lparr>is_allocated := False, isrflag := False\<rparr>) (ptable s),
            ready_q := readyq_init (cfg_max_readyq c) (cfg_readyq_mem c)\<rparr>))"

definition xilkernel_init :: "kconfig \<Rightarrow> kernel \<Rightarrow> kernel option" where
  "xilkernel_init c s =
     do { s \<leftarrow> init_idle_task (cfg_prio_lowest c) (init_tables c s);
          (_, s) \<leftarrow> se_process_init (cfg_init_prios c) s;
          Some (soft_tmr_init s) }"

text \<open>
  A configuration in which every queue can hold all processes and every process can have a timer, with
  the memory of the tables cleared as it is at program start.
\<close>

definition queue_mem_ok :: "nat \<Rightarrow> u8 \<Rightarrow> pid list list \<Rightarrow> bool" where
  "queue_mem_ok n max_i mems \<longleftrightarrow> n \<le> unat max_i \<and> unat max_i \<le> 127 \<and> (\<forall>mem \<in> set mems. unat max_i \<le> length mem)"

definition config_ok :: "kconfig \<Rightarrow> kernel \<Rightarrow> bool" where
  "config_ok c s \<longleftrightarrow>
     0 < length (ptable s) \<and> length (cfg_readyq_mem c) \<le> 128 \<and>
     queue_mem_ok (length (ptable s)) (cfg_max_readyq c) (cfg_readyq_mem c) \<and>
     queue_mem_ok (length (ptable s)) (cfg_max_sem_waitq c) (cfg_sem_mem c) \<and>
     queue_mem_ok (length (ptable s)) (cfg_max_mutex_waitq c) (cfg_mutex_mem c) \<and>
     length (cfg_sem_mem c) = length (sem_heap s) \<and> length (cfg_mutex_mem c) = length (mutex_heap s) \<and>
     (\<forall>prio \<in> set (cfg_prio_lowest c # cfg_init_prios c). unat prio < length (cfg_readyq_mem c)) \<and>
     length (ptable s) \<le> length (soft_tmrs s) \<and> length (active_tmrs s) = length (soft_tmrs s) \<and>
     length (shadow_tmrs s) = length (soft_tmrs s) \<and> (\<forall>pr \<in> set (ptable s). pr_state pr = PROC_NEW) \<and>
     conts s = (\<lambda>_. None)"

section \<open>The start establishes the invariant\<close>

text \<open>Creating processes and initialising the timers do not depend on each other.\<close>

lemma soft_tmr_init_sel [simp]:
  "ptable (soft_tmr_init s) = ptable s" "ready_q (soft_tmr_init s) = ready_q s" "conts (soft_tmr_init s) = conts s"
  "idle_task_pid (soft_tmr_init s) = idle_task_pid s" "current_pid (soft_tmr_init s) = current_pid s"
  "soft_tmr_init (s\<lparr>ptable := pt\<rparr>) = (soft_tmr_init s)\<lparr>ptable := pt\<rparr>"
  "soft_tmr_init (s\<lparr>ready_q := qs\<rparr>) = (soft_tmr_init s)\<lparr>ready_q := qs\<rparr>"
  "soft_tmr_init (s\<lparr>resched := r\<rparr>) = (soft_tmr_init s)\<lparr>resched := r\<rparr>"
  "soft_tmr_init (s\<lparr>conts := k\<rparr>) = (soft_tmr_init s)\<lparr>conts := k\<rparr>"
  "soft_tmr_init (s\<lparr>idle_task_pid := p\<rparr>) = (soft_tmr_init s)\<lparr>idle_task_pid := p\<rparr>"
  "soft_tmr_init (s\<lparr>current_pid := p\<rparr>) = (soft_tmr_init s)\<lparr>current_pid := p\<rparr>"
  by (simp_all add: soft_tmr_init_def)

lemma proc_create_tmr: "proc_create prio (soft_tmr_init s) = map_option (map_prod id soft_tmr_init) (proc_create prio s)"
  by (auto simp: proc_create_def Let_def split: bind_splits)

lemma se_process_init_tmr:
  "se_process_init prios (soft_tmr_init s) = map_option (map_prod id soft_tmr_init) (se_process_init prios s)"
proof (induction prios arbitrary: s)
  case (Cons prio prios)
  show ?case
  proof (cases "proc_create prio s")
    case None
    then show ?thesis by (simp add: sys_elf_process_create_def proc_create_tmr)
  next
    case (Some ps)
    obtain p s1 where "ps = (p, s1)" by (cases ps)
    then show ?thesis
      using Some Cons.IH [of "s1\<lparr>conts := (conts s1)(p := None)\<rparr>"] by (simp add: sys_elf_process_create_def proc_create_tmr)
  qed
qed simp

lemma init_idle_tmr: "init_idle_task prio (soft_tmr_init s) = map_option soft_tmr_init (init_idle_task prio s)"
  by (auto simp: init_idle_task_def proc_create_tmr upd_proc_def split: bind_splits option.splits)

lemma xilkernel_init_eq:
  "xilkernel_init c s =
     do { s \<leftarrow> init_idle_task (cfg_prio_lowest c) (soft_tmr_init (init_tables c s));
          (_, s) \<leftarrow> se_process_init (cfg_init_prios c) s; Some s }"
  by (cases "init_idle_task (cfg_prio_lowest c) (init_tables c s)")
    (auto simp: xilkernel_init_def init_idle_tmr se_process_init_tmr split: bind_splits option.splits)

text \<open>The state with only the idle task.\<close>

definition fresh_queue :: "nat \<Rightarrow> pid kqueue \<Rightarrow> bool" where
  "fresh_queue n q \<longleftrightarrow> item_count q = 0 \<and> qend q = 0 \<and> qfront q = 0 \<and> n \<le> unat (max_items q) \<and> unat (max_items q) \<le> 127 \<and>
     unat (max_items q) \<le> length (q_items q)"

lemma fresh_alloc: "queue_mem_ok n m mems \<Longrightarrow> mem \<in> set mems \<Longrightarrow> fresh_queue n (alloc_q mem m 1)"
  by (simp add: queue_mem_ok_def fresh_queue_def alloc_q_def)

lemma fresh_heaps:
  assumes "config_ok c s"
  shows "\<forall>x \<in> set (sem_heap (init_tables c s)). sem_id x = 255 \<and> fresh_queue (length (ptable s)) (sem_wait_q x)"
    "\<forall>x \<in> set (mutex_heap (init_tables c s)). \<not> mx_allocated x \<and> fresh_queue (length (ptable s)) (mutex_wait_q x)"
    "\<forall>q \<in> set (ready_q (init_tables c s)). fresh_queue (length (ptable s)) q"
    "length (ready_q (init_tables c s)) = length (cfg_readyq_mem c)"
  using assms fresh_alloc
  by (auto simp: config_ok_def init_tables_def sem_heap_init_def pthread_mutex_heap_init_def readyq_init_def dest!: set_zip_rightD)

lemma init_tables_sel:
  "ptable (init_tables c s) = map (\<lambda>pr. pr\<lparr>is_allocated := False, isrflag := False\<rparr>) (ptable s)"
  "soft_tmrs (init_tables c s) = soft_tmrs s" "active_tmrs (init_tables c s) = active_tmrs s" "shadow_tmrs (init_tables c s) = shadow_tmrs s"
  "conts (init_tables c s) = conts s"
  by (simp_all add: init_tables_def sem_heap_init_def pthread_mutex_heap_init_def)

lemma init_idle_eq:
  assumes "config_ok c s"
  shows "\<exists>s1 idle. init_idle_task (cfg_prio_lowest c) (soft_tmr_init (init_tables c s)) = Some s1 \<and>
     ptable s1 = (map (\<lambda>pr. pr\<lparr>is_allocated := False, isrflag := False\<rparr>) (ptable s))[0 := idle] \<and>
     is_allocated idle \<and> pr_pid idle = 0 \<and> pr_state idle = PROC_RUN \<and> priority idle = int (unat (cfg_prio_lowest c)) \<and>
     blockq idle = None \<and> \<not> isrflag idle \<and> idle_task_pid s1 = 0 \<and> current_pid s1 = 0 \<and>
     ready_q s1 = ready_q (init_tables c s) \<and> sem_heap s1 = sem_heap (init_tables c s) \<and> mutex_heap s1 = mutex_heap (init_tables c s) \<and>
     soft_tmrs s1 = map (\<lambda>_. \<lparr>tmr_timeout = 0, tmr_pid = 255\<rparr>) (soft_tmrs s) \<and> length (active_tmrs s1) = length (soft_tmrs s) \<and>
     length (shadow_tmrs s1) = length (soft_tmrs s) \<and> nactive s1 = 0 \<and> conts s1 = (\<lambda>_. None)"
proof -
  note cfg = assms [unfolded config_ok_def]
  define t where "t = soft_tmr_init (init_tables c s)"
  obtain pr0 ps where pt0: "ptable s = pr0 # ps" using cfg by (cases "ptable s") auto
  define pcb where "pcb = pr0\<lparr>is_allocated := True, isrflag := False, pr_pid := 0, pr_state := PROC_NEW,
      priority := sint (ucast (cfg_prio_lowest c) :: u8), blockq := None, pr_thread := None\<rparr>"
  let ?pt = "map (\<lambda>pr. pr\<lparr>is_allocated := False, isrflag := False\<rparr>) (ptable s)"
  have pt: "ptable t = ?pt" by (simp add: t_def init_tables_sel)
  have create: "proc_create (cfg_prio_lowest c) t = Some (0, t\<lparr>ptable := ?pt[0 := pcb], resched := True\<rparr>)"
    unfolding proc_create_def pt by (simp add: pt0 pcb_def)
  have g: "get_proc (?pt[0 := x]) 0 = Some x" "set_proc (?pt[0 := x]) 0 y = Some (?pt[0 := y])" for x y
    by (simp_all add: get_proc_def set_proc_def pid_index_def arr_get_def arr_set_def pt0)
  define s1 where "s1 = t\<lparr>ptable := ?pt[0 := pcb\<lparr>pr_state := PROC_RUN\<rparr>], resched := True, idle_task_pid := 0, current_pid := 0\<rparr>"
  have "init_idle_task (cfg_prio_lowest c) t = Some s1"
    using create g by (simp add: init_idle_task_def upd_proc_def s1_def)
  moreover have "sint (ucast (cfg_prio_lowest c) :: u8) = int (unat (cfg_prio_lowest c))"
  proof -
    have "sint (of_nat n :: u8) = int n" if "n < 128" for n using that by (simp add: signed_of_nat signed_take_bit_int_eq_self)
    from this [of "unat (cfg_prio_lowest c)"] show ?thesis using cfg by simp
  qed
  ultimately show ?thesis
    using cfg unfolding t_def [symmetric]
    by (intro exI [of _ s1] exI [of _ "pcb\<lparr>pr_state := PROC_RUN\<rparr>"])
      (simp add: s1_def pcb_def, simp add: t_def soft_tmr_init_def init_tables_sel)
qed

lemma fresh_pq:
  assumes "fresh_queue n q"
  shows "pq_ok pt q" "pq_pids q = []" "n \<le> unat (max_items q)" "q_list q = []" "0 < n \<Longrightarrow> q_ok q"
  using assms by (auto simp: fresh_queue_def pq_ok_def pq_pids_def heap_def q_list_def q_ok_def)

lemma idle_start:
  assumes "config_ok c s"
  shows "\<exists>s1. init_idle_task (cfg_prio_lowest c) (soft_tmr_init (init_tables c s)) = Some s1 \<and> sync_inv tw s1 \<and>
     idle_task_pid s1 = 0 \<and> length (ready_q s1) = length (cfg_readyq_mem c)"
proof -
  note cfg = assms [unfolded config_ok_def] and fh = fresh_heaps [OF assms]
  let ?n = "length (ptable s)" and ?pt = "map (\<lambda>pr. pr\<lparr>is_allocated := False, isrflag := False\<rparr>) (ptable s)"
  obtain s1 idle where s1: "init_idle_task (cfg_prio_lowest c) (soft_tmr_init (init_tables c s)) = Some s1"
     "ptable s1 = ?pt[0 := idle]"
     "is_allocated idle" "pr_pid idle = 0" "pr_state idle = PROC_RUN" "priority idle = int (unat (cfg_prio_lowest c))"
     "blockq idle = None" "\<not> isrflag idle" "idle_task_pid s1 = 0" "current_pid s1 = 0"
     "ready_q s1 = ready_q (init_tables c s)" "sem_heap s1 = sem_heap (init_tables c s)" "mutex_heap s1 = mutex_heap (init_tables c s)"
     "soft_tmrs s1 = map (\<lambda>_. \<lparr>tmr_timeout = 0, tmr_pid = 255\<rparr>) (soft_tmrs s)" "length (active_tmrs s1) = length (soft_tmrs s)"
     "length (shadow_tmrs s1) = length (soft_tmrs s)" "nactive s1 = 0" "conts s1 = (\<lambda>_. None)"
    using init_idle_eq [OF assms] by blast
  have n: "?n \<le> 127" "0 < ?n" using cfg by (auto simp: queue_mem_ok_def)
  have len: "length (ptable s1) = ?n" by (simp add: s1(2))
  have g0: "get_proc (ptable s1) 0 = Some idle" using n(2) by (simp add: s1(2) get_proc_def pid_index_def arr_get_def)
  have gp: "pr = idle \<and> p = 0 \<or> \<not> is_allocated pr \<and> pr_state pr = PROC_NEW" if g: "get_proc (ptable s1) p = Some pr" for p pr
  proof -
    obtain j where j: "pid_index p = Some j" "j < ?n" "pr = (?pt[0 := idle]) ! j"
      using g by (auto simp: s1(2) get_proc_def arr_get_def split: bind_splits if_splits)
    show ?thesis
    proof (cases "j = 0")
      case True
      then show ?thesis using j n(2) pid_index_inj [of p j 0] by (simp add: pid_index_def)
    next
      case False
      then have "pr = (ptable s ! j)\<lparr>is_allocated := False, isrflag := False\<rparr>" using j by simp
      moreover have "pr_state (ptable s ! j) = PROC_NEW" using cfg j(2) by simp
      ultimately show ?thesis by simp
    qed
  qed
  have nw: "\<not> waiting pr" "\<not> timed pr" if "get_proc (ptable s1) p = Some pr" for p pr
    using gp [OF that] s1(5) by (auto simp: waiting_def timed_def)
  have rl: "length (ready_q s1) = length (cfg_readyq_mem c)" using fh(4) s1(11) by simp
  have "procs_ok s1"
    unfolding procs_ok_def
  proof (intro conjI allI impI)
    fix p pr
    assume g: "get_proc (ptable s1) p = Some pr"
    have "unat (cfg_prio_lowest c) < length (cfg_readyq_mem c)" using cfg by simp
    then have "int (unat (cfg_prio_lowest c)) < int (length (cfg_readyq_mem c))" by (simp only: of_nat_less_iff)
    then show "proc_ok s1 p pr" using gp [OF g] nw [OF g] s1(3-7,10) rl by (auto simp: proc_ok_def)
  qed (use g0 s1(3,9) n len in auto)
  moreover have "ready_ok s1"
    unfolding ready_ok_def
  proof (intro conjI allI ballI impI)
    fix q
    assume "q \<in> set (ready_q s1)"
    then have "fresh_queue ?n q" using fh(3) s1(11) by simp
    then show "q_ok q" "length (ptable s1) \<le> unat (max_items q)" using fresh_pq [of ?n q] n(2) len by simp_all
  next
    fix i p
    assume "i < length (ready_q s1)"
    then have "fresh_queue ?n (ready_q s1 ! i)" using fh(3) s1(11) by simp
    moreover have "ready_count (get_proc (ptable s1)) (idle_task_pid s1) i p = 0"
      using gp [of p] s1(9) by (auto simp: ready_count_def split: option.split)
    ultimately show "count_list (q_list (ready_q s1 ! i)) p = ready_count (get_proc (ptable s1)) (idle_task_pid s1) i p"
      using fresh_pq(4) by simp
  qed
  moreover have gq: "fresh_queue ?n q" if "get_queue r s1 = Some q" for r q
    using that fh(1,2) s1(12,13) by (auto simp: get_queue_def arr_get_def split: qref.splits if_splits)
  then have "wait_ok s1" unfolding wait_ok_def using fresh_pq(1-3) nw len by fastforce
  moreover have "tmr_ok s1"
  proof -
    have "tmr_ids s1 = []" "tmr_view s1 = []" using s1(17) by (simp_all add: tmr_ids_def tmr_view_def)
    then show ?thesis unfolding tmr_ok_def tmr_core_def using s1(14-17) cfg nw len by auto
  qed
  ultimately have "k_inv s1" using g0 s1(5,8,10) by (simp add: k_inv_def k_wf_def)
  moreover have "conts_ok tw s1" using s1(18) by (simp add: conts_ok_def)
  moreover have "pids_ok (wview s1)" using gp s1(4) by (fastforce simp: pids_ok_def wview_def wait_key_def)
  moreover have ws: "wset r (wview s1) = {}" for r using nw by (auto simp: wset_def wview_def wait_key_def)
  have "no_timed (wview s1)" using nw by (auto simp: no_timed_def wview_def wait_key_def)
  moreover have "sems_ok (wview s1) (sems s1)"
    using fh(1) s1(12) by (auto simp: sems_ok_def sem_ok_def ws sem_rest_def)
  moreover have "mutexes_ok (wview s1) (mutexes s1)" by (simp add: mutexes_ok_def ws)
  ultimately show ?thesis using s1(1,9) rl by (auto simp: sync_inv_def kern_ok_def views_ok_def)
qed

lemma proc_create_length: "proc_create prio s = Some (p, s') \<Longrightarrow> length (ready_q s') = length (ready_q s)"
  by (auto simp: proc_create_def Let_def arr_set_def split: bind_splits if_splits)

lemma create_length: "sys_elf_process_create prio s = Some (r, s') \<Longrightarrow> length (ready_q s') = length (ready_q s)"
  by (auto simp: sys_elf_process_create_def split: bind_splits if_splits) (drule proc_create_length, assumption)+

lemma se_process_init_inv:
  assumes "sync_inv tw s" "idle_task_pid s = 0" "\<forall>prio \<in> set prios. unat prio < length (ready_q s)" "length (ready_q s) \<le> 128"
  shows "\<exists>r s'. se_process_init prios s = Some (r, s') \<and> sync_inv tw s'"
  using assms
proof (induction prios arbitrary: s)
  case (Cons prio prios)
  have "result_ok tw s (sys_elf_process_create prio s) {} {}" by (rule result_create [OF Cons.prems(1)]) (use Cons.prems in simp)
  then obtain v s1 where c: "sys_elf_process_create prio s = Some (v, s1)" "sync_inv tw s1" "idle_task_pid s1 = idle_task_pid s"
    by (auto simp: result_ok_def)
  have l: "length (ready_q s1) = length (ready_q s)" by (rule create_length [OF c(1)])
  have "\<exists>x. v = Ret x" using c(1) by (auto simp: sys_elf_process_create_def split: bind_splits if_splits)
  then obtain x where x: "v = Ret x" by blast
  have "\<exists>r s'. se_process_init prios s1 = Some (r, s') \<and> sync_inv tw s'" using Cons.IH [OF c(2)] Cons.prems c(3) l by simp
  then show ?case using c(1,2) x by auto
qed simp

lemma xilkernel_init_inv:
  assumes "config_ok c s"
  shows "\<exists>s'. xilkernel_init c s = Some s' \<and> sync_inv tw s'"
proof -
  obtain s1 where s1: "init_idle_task (cfg_prio_lowest c) (soft_tmr_init (init_tables c s)) = Some s1" "sync_inv tw s1"
      "idle_task_pid s1 = 0" "length (ready_q s1) = length (cfg_readyq_mem c)"
    using idle_start [OF assms] by blast
  obtain r s' where "se_process_init (cfg_init_prios c) s1 = Some (r, s')" "sync_inv tw s'"
    using se_process_init_inv [OF s1(2,3), of "cfg_init_prios c"] s1(4) assms by (auto simp: config_ok_def)
  then show ?thesis using s1(1) by (simp add: xilkernel_init_eq)
qed

section \<open>Reachable states\<close>

inductive kreach :: "bool \<Rightarrow> kconfig \<Rightarrow> kernel \<Rightarrow> kernel \<Rightarrow> bool" for tw c s0 where
  start: "xilkernel_init c s0 = Some s \<Longrightarrow> kreach tw c s0 s"
| step: "kreach tw c s0 s \<Longrightarrow> enabled ev s \<Longrightarrow> event_ok tw ev s \<Longrightarrow> kstep ev s = Some s' \<Longrightarrow> kreach tw c s0 s'"

inductive_cases kreach_stepE: "kreach tw c s0 s"

lemma reach_inv:
  assumes "kreach tw c s0 s" "config_ok c s0"
  shows "sync_inv tw s"
  using assms
proof (induction rule: kreach.induct)
  case (start s)
  then show ?case using xilkernel_init_inv [of c s0 tw] by auto
next
  case (step s ev s')
  then show ?case using step_inv [of tw s ev] by auto
qed

end
