(* ===== verification/Kern_Props.thy ===== *)
theory Kern_Props
  imports Kern_Boot
begin

text \<open>
  What the kernel guarantees: the scheduler, sleeping, semaphores, mutexes and the states that can be
  reached from its start, with a small configuration on which the theorems are applied. The plain theorems
  beside the properties run the kernel outside the conditions of \<open>call_ok\<close> and show what then goes wrong.
\<close>

section \<open>A small configuration\<close>

text \<open>Four table entries, three priorities, two semaphores, two mutexes, one millisecond per tick.\<close>

definition no_proc :: process_struct where
  "no_proc = \<lparr>pr_state = PROC_NEW, pr_pid = 0, priority = 0, is_allocated = False, blockq = None, timeout = False, remain = 0,
     isrflag = False, pr_thread = None, pr_errno = None\<rparr>"

definition demo_config :: kconfig where
  "demo_config = \<lparr>cfg_max_readyq = 4, cfg_readyq_mem = replicate 4 (replicate 4 0), cfg_prio_lowest = 3,
     cfg_max_sem_waitq = 4, cfg_sem_mem = replicate 2 (replicate 4 0), cfg_max_mutex_waitq = 4,
     cfg_mutex_mem = replicate 2 (replicate 4 0), cfg_init_prios = [0, 1, 2]\<rparr>"

definition demo_memory :: kernel where
  "demo_memory = \<lparr>ready_q = [], ptable = replicate 4 no_proc, current_pid = 255, prev_pid = 255, ctx_save_process = None,
     idle_task_pid = 0, resched = False, did_resched = False, soft_tmrs = replicate 4 \<lparr>tmr_timeout = 0, tmr_pid = 0\<rparr>,
     active_tmrs = replicate 4 0, shadow_tmrs = replicate 4 0, nactive = 0, kernel_ticks = 0, sched_partial_tick = False,
     timer_need_refresh = False, systmr_khz = 1, systmr_interval = 1,
     sem_heap = replicate 2 \<lparr>sem_id = 0, sem_value = 0, sem_wait_q = alloc_q [] 0 1, sem_owner = 0, sem_unlinked = False\<rparr>,
     sem_map = replicate 2 \<lparr>sm_name = replicate 25 0, sm_sem = 0\<rparr>,
     mutex_heap = replicate 2 \<lparr>mx_allocated = False, mx_locked = 0, mx_type = PTHREAD_MUTEX_DEFAULT, mutex_wait_q = alloc_q [] 0 1,
       mx_owner = 0\<rparr>,
     conts = (\<lambda>_. None)\<rparr>"

lemma demo_ok: "config_ok demo_config demo_memory"
  by (simp add: config_ok_def demo_config_def demo_memory_def queue_mem_ok_def no_proc_def)

text \<open>A run of given events, each of which has to be possible and allowed.\<close>

fun krun :: "bool \<Rightarrow> kevent list \<Rightarrow> kernel \<Rightarrow> kernel option" where
  "krun tw [] s = Some s"
| "krun tw (ev # evs) s = (if enabled ev s \<and> event_ok tw ev s then do { s \<leftarrow> kstep ev s; krun tw evs s } else None)"

definition demo_run :: "bool \<Rightarrow> kevent list \<Rightarrow> kernel option" where
  "demo_run tw evs = do { s \<leftarrow> xilkernel_init demo_config demo_memory; krun tw evs s }"

lemma krun_reach: "krun tw evs s = Some s' \<Longrightarrow> kreach tw c s0 s \<Longrightarrow> kreach tw c s0 s'"
  by (induction evs arbitrary: s) (auto split: bind_splits if_splits intro: kreach.step)

lemma demo_reach: "demo_run tw evs = Some s \<Longrightarrow> kreach tw demo_config demo_memory s"
  by (auto simp: demo_run_def split: bind_splits intro: krun_reach kreach.start)

lemma demo_inv:
  assumes "demo_run tw evs = Some s"
  obtains cur where "k_wf s" "get_proc (ptable s) (current_pid s) = Some cur"
  using k_inv_cur [OF kern_okD(1) [OF sync_invD(1) [OF reach_inv [OF demo_reach [OF assms] demo_ok]]]] by blast

text \<open>
  The same without the conditions on the callers: whatever the processes may call, they call. The runs
  below show what the kernel then does.
\<close>

fun kplay :: "kevent list \<Rightarrow> kernel \<Rightarrow> kernel option" where
  "kplay [] s = Some s"
| "kplay (ev # evs) s = (if enabled ev s then do { s \<leftarrow> kstep ev s; kplay evs s } else None)"

definition demo_play :: "kevent list \<Rightarrow> kernel option" where
  "demo_play evs = do { s \<leftarrow> xilkernel_init demo_config demo_memory; kplay evs s }"

text \<open>
  A mutex that has just been unlocked may be destroyed although processes wait for it. When its place is
  used for a new mutex, the queue is made afresh and the waiting process 3 is in no queue any more.
\<close>

theorem destroyed_mutex_loses_process:
  "case demo_play [Tick, Call (Mutex_init None), Call (Mutex_lock (Some (MUTEX 0))), Call (Sleep 2), Call (Mutex_lock (Some (MUTEX 0))),
        Call (Mutex_lock (Some (MUTEX 0))), Tick, Tick, Resume, Call (Mutex_unlock (Some (MUTEX 0))), Call (Mutex_destroy (Some (MUTEX 0))),
        Call (Mutex_init None)] of
     None \<Rightarrow> False
   | Some s \<Rightarrow> (case get_proc (ptable s) 3 of None \<Rightarrow> False | Some pr \<Rightarrow> pr_state pr = PROC_WAIT \<and> blockq pr = Some (Mutex_q 0)) \<and>
       list_all (\<lambda>q. 3 \<notin> set (q_list q)) (ready_q s) \<and> list_all (\<lambda>x. 3 \<notin> set (pq_pids (mutex_wait_q x))) (mutex_heap s) \<and>
       list_all (\<lambda>x. 3 \<notin> set (pq_pids (sem_wait_q x))) (sem_heap s)"
  by code_simp

text \<open>A process may be created with a priority that does not exist: its ready queue is outside the table.\<close>

theorem unchecked_priority:
  "case demo_play [Tick, Call Elf_exit] of
     None \<Rightarrow> False
   | Some s \<Rightarrow> enabled (Call (Elf_process_create 7)) s \<and> length (ready_q s) = 4 \<and> kstep (Call (Elf_process_create 7)) s = None"
  by code_simp

text \<open>An initial value above 127, which the documented maximum allows, is a negative one in the signed byte that holds it.\<close>

theorem large_semaphore_is_negative:
  "case demo_play [Tick, Call (Sem_init 1 200)] of
     None \<Rightarrow> False
   | Some s \<Rightarrow> sint (sem_value (sem_heap s ! 0)) = - 56 \<and> pq_pids (sem_wait_q (sem_heap s ! 0)) = []"
  by code_simp

section \<open>Priority scheduling\<close>

lemma concat_first:
  assumes "i < length xss" "xss ! i = x # ys" "\<forall>j < i. xss ! j = []"
  shows "concat xss = x # concat (xss[i := ys])"
  using assms
proof (induction xss arbitrary: i)
  case (Cons xs xss)
  show ?case
  proof (cases i)
    case 0
    then show ?thesis using Cons.prems by simp
  next
    case (Suc k)
    have "xs = []" using Cons.prems(3) Suc by (metis nth_Cons_0 zero_less_Suc)
    moreover have "\<forall>j < k. xss ! j = []" using Cons.prems(3) Suc by (metis Suc_less_eq nth_Cons_Suc)
    ultimately show ?thesis using Cons.IH [of k] Cons.prems(1,2) Suc by simp
  qed
qed simp

text \<open>A process that can run is in the ready queue of its priority.\<close>

lemma ready_member:
  assumes "k_wf s" "get_proc (ptable s) p = Some x" "is_allocated x" "pr_state x = PROC_READY \<or> pr_state x = PROC_NEW" "p \<noteq> idle_task_pid s"
  shows "p \<in> set (q_list (ready_q s ! nat (priority x)))" "nat (priority x) < length (ready_q s)" "0 \<le> priority x"
proof -
  have k: "procs_ok s" "ready_ok s" using assms(1) by (simp_all add: k_wf_def)
  show b: "0 \<le> priority x" "nat (priority x) < length (ready_q s)" using procs_ok_prio [OF k(1) assms(2,3)] by simp_all
  have "count_list (q_list (ready_q s ! nat (priority x))) p = 1"
    using ready_ok_count [OF k(2), of "nat (priority x)" p] assms(2-5) b by (simp add: ready_count_def)
  then show "p \<in> set (q_list (ready_q s ! nat (priority x)))" by (metis count_list_0_iff zero_neq_one)
qed

text \<open>The choice of the scheduler: nobody is ready, or the head of the first queue that is not empty.\<close>

definition chosen :: "pid list list \<Rightarrow> pid list list \<Rightarrow> pid \<Rightarrow> pid \<Rightarrow> bool" where
  "chosen xss yss idle nx \<longleftrightarrow>
     (\<forall>xs \<in> set xss. xs = []) \<and> yss = xss \<and> nx = idle \<or>
     (\<exists>i < length xss. \<exists>ys. xss ! i = nx # ys \<and> yss = xss[i := ys] \<and> (\<forall>j < i. xss ! j = []))"

lemma chosen_head:
  assumes "chosen xss yss idle nx"
  shows "nx = (case concat xss of [] \<Rightarrow> idle | p # _ \<Rightarrow> p)" "concat yss = tl (concat xss)"
proof -
  have "concat xss = [] \<and> yss = xss \<and> nx = idle \<or> concat xss = nx # concat yss"
    using assms concat_first [of _ xss nx] unfolding chosen_def concat_eq_Nil_conv by blast
  then show "nx = (case concat xss of [] \<Rightarrow> idle | p # _ \<Rightarrow> p)" "concat yss = tl (concat xss)" by (auto simp del: concat_eq_Nil_conv)
qed

lemma chosen_urgent:
  assumes "k_wf s'" "chosen xss (map q_list (ready_q s')) (idle_task_pid s') nx"
    and "\<And>i. i < length xss \<Longrightarrow> nx \<in> set (xss ! i) \<Longrightarrow> nx \<noteq> idle_task_pid s' \<and> prio = int i"
    and "get_proc (ptable s') p = Some x" "is_allocated x" "pr_state x = PROC_READY \<or> pr_state x = PROC_NEW" "p \<noteq> idle_task_pid s'"
  shows "nx \<noteq> idle_task_pid s' \<and> prio \<le> priority x"
proof -
  note m = ready_member [OF assms(1,4-7)]
  have at: "map q_list (ready_q s') ! nat (priority x) \<noteq> []" using m(1,2) by auto
  consider "\<forall>xs \<in> set xss. xs = []" "map q_list (ready_q s') = xss"
    | i ys where "i < length xss" "xss ! i = nx # ys" "map q_list (ready_q s') = xss[i := ys]" "\<forall>j < i. xss ! j = []"
    using assms(2) unfolding chosen_def by blast
  then show ?thesis
  proof cases
    case 1
    then show ?thesis using at m(2) by (metis length_map nth_mem)
  next
    case 2
    have "\<not> nat (priority x) < i" using at 2(3,4) by auto
    then show ?thesis using assms(3) [OF 2(1)] 2(2) m(3) by auto
  qed
qed

text \<open>
  Property C31: in a well-formed kernel \<open>sched_prio\<close> never fails and continues the process at the head of
  the ready queues read in the order of urgency, after the running process was put at the end of its own
  queue, or the idle task when there is none; only that process leaves the queues. No process that is
  then ready is more urgent than the one that runs, and the idle task runs only when nobody is ready.
\<close>

theorem scheduler_most_urgent:
  assumes "k_wf s" "get_proc (ptable s) (current_pid s) = Some cur"
  shows "\<exists>s' pr. sched_prio s = Some s' \<and> k_wf s' \<and> get_proc (ptable s') (current_pid s') = Some pr \<and> pr_state pr = PROC_RUN \<and>
     current_pid s' = (case concat (requeued s cur) of [] \<Rightarrow> idle_task_pid s | p # _ \<Rightarrow> p) \<and>
     concat (map q_list (ready_q s')) = tl (concat (requeued s cur)) \<and>
     (\<forall>p x. get_proc (ptable s') p = Some x \<and> is_allocated x \<and> (pr_state x = PROC_READY \<or> pr_state x = PROC_NEW) \<and> p \<noteq> idle_task_pid s \<longrightarrow>
        current_pid s' \<noteq> idle_task_pid s \<and> priority pr \<le> priority x)"
proof -
  have ok: "procs_ok s" "ready_ok s" using assms(1) by (simp_all add: k_wf_def)
  define gp1 where "gp1 = (get_proc (ptable s))(current_pid s \<mapsto> unrun cur)"
  obtain nx qs pt prn where res: "sched_prio s = Some (s\<lparr>ready_q := qs, ptable := pt, current_pid := nx\<rparr>)" "gp1 nx = Some prn"
      "get_proc pt = gp1(nx \<mapsto> prn\<lparr>pr_state := PROC_RUN\<rparr>)"
    and picked: "(\<forall>xs \<in> set (requeued s cur). xs = []) \<and> map q_list qs = requeued s cur \<and> nx = idle_task_pid s \<or>
      (\<exists>i < length (ready_q s). \<exists>ys. requeued s cur ! i = nx # ys \<and> map q_list qs = (requeued s cur)[i := ys] \<and>
        (\<forall>j < i. requeued s cur ! j = []))"
    by (rule sched_choice [OF ok(2,1) assms(2) gp1_def])
  define s' where "s' = s\<lparr>ready_q := qs, ptable := pt, current_pid := nx\<rparr>"
  have wf: "k_wf s'" using sched_prio_wf [OF assms] res(1) unfolding s'_def by (metis option.inject)
  have len: "length (requeued s cur) = length (ready_q s)" by (simp add: requeued_def Let_def)
  have sel: "idle_task_pid s' = idle_task_pid s" "current_pid s' = nx" "ready_q s' = qs" "ptable s' = pt" by (simp_all add: s'_def)
  have choice: "chosen (requeued s cur) (map q_list (ready_q s')) (idle_task_pid s') nx" using picked unfolding chosen_def len sel by blast
  have prio: "nx \<noteq> idle_task_pid s' \<and> priority prn = int i" if i: "i < length (requeued s cur)" "nx \<in> set (requeued s cur ! i)" for i
    using requeued_member [OF ok(2,1) assms(2), of i nx] i res(2) unfolding len sel gp1_def by (metis option.inject)
  have run: "get_proc pt nx = Some (prn\<lparr>pr_state := PROC_RUN\<rparr>)" using res(3) by simp
  show ?thesis
  proof (intro exI [of _ s'] exI [of _ "prn\<lparr>pr_state := PROC_RUN\<rparr>"] conjI)
    show "\<forall>p x. get_proc (ptable s') p = Some x \<and> is_allocated x \<and> (pr_state x = PROC_READY \<or> pr_state x = PROC_NEW) \<and> p \<noteq> idle_task_pid s \<longrightarrow>
        current_pid s' \<noteq> idle_task_pid s \<and> priority (prn\<lparr>pr_state := PROC_RUN\<rparr>) \<le> priority x"
      using chosen_urgent [OF wf choice prio] unfolding sel by auto
    show "sched_prio s = Some s'" using res(1) by (simp add: s'_def)
    show "get_proc (ptable s') (current_pid s') = Some (prn\<lparr>pr_state := PROC_RUN\<rparr>)" using run by (simp add: sel)
    show "current_pid s' = (case concat (requeued s cur) of [] \<Rightarrow> idle_task_pid s | p # _ \<Rightarrow> p)"
      using chosen_head(1) [OF choice] unfolding sel .
    show "concat (map q_list (ready_q s')) = tl (concat (requeued s cur))" by (rule chosen_head(2) [OF choice])
  qed (use wf in simp_all)
qed

theorem scheduler_most_urgent_witness:
  "case demo_run False [Tick] of
     None \<Rightarrow> False
   | Some s \<Rightarrow> \<exists>s' pr. sched_prio s = Some s' \<and> current_pid s = 1 \<and> current_pid s' = 1 \<and> get_proc (ptable s') 1 = Some pr \<and>
        (\<forall>p x. get_proc (ptable s') p = Some x \<and> is_allocated x \<and> (pr_state x = PROC_READY \<or> pr_state x = PROC_NEW) \<and> p \<noteq> 0 \<longrightarrow>
           priority pr \<le> priority x)"
proof -
  have val: "case demo_run False [Tick] of None \<Rightarrow> False
     | Some s \<Rightarrow> current_pid s = 1 \<and> idle_task_pid s = 0 \<and>
         (case get_proc (ptable s) 1 of None \<Rightarrow> False | Some cur \<Rightarrow> concat (requeued s cur) = [1, 2, 3])"
    by code_simp
  then obtain s where run: "demo_run False [Tick] = Some s" by (cases "demo_run False [Tick]") auto
  obtain cur where cur: "k_wf s" "get_proc (ptable s) (current_pid s) = Some cur" by (rule demo_inv [OF run])
  have v: "current_pid s = 1" "idle_task_pid s = 0" "concat (requeued s cur) = [1, 2, 3]" using val run cur(2) by auto
  show ?thesis using scheduler_most_urgent [OF cur] unfolding run by (auto simp: v)
qed

section \<open>Reachable states of the kernel\<close>

text \<open>Where a process is, according to its table entry.\<close>

lemma process_place:
  assumes "k_inv s" "get_proc (ptable s) p = Some pr" "is_allocated pr" "p \<noteq> idle_task_pid s"
  shows "p = current_pid s \<and> pr_state pr = PROC_RUN \<or>
     (pr_state pr = PROC_READY \<or> pr_state pr = PROC_NEW) \<and> count_list (q_list (ready_q s ! nat (priority pr))) p = 1 \<or>
     (\<exists>r q. blockq pr = Some r \<and> get_queue r s = Some q \<and> p \<in> set (pq_pids q)) \<or>
     pr_state pr = PROC_DELAY \<and> (\<exists>n. (p, n) \<in> set (tmr_view s))"
proof -
  have ok: "procs_ok s" "ready_ok s" "wait_ok s" "tmr_ok s" using assms(1) by (simp_all add: k_inv_def k_wf_def)
  note po = procs_okD [OF ok(1) assms(2), unfolded proc_ok_def]
  have timer: "timed pr \<Longrightarrow> \<exists>n. (p, n) \<in> set (tmr_view s)"
    using ok(4) assms(2) by (fastforce simp: tmr_ok_def)
  have queued: "waiting pr \<Longrightarrow> \<exists>r q. blockq pr = Some r \<and> get_queue r s = Some q \<and> p \<in> set (pq_pids q)"
    using po ok(3) assms(2) unfolding wait_ok_def by blast
  show ?thesis
  proof (cases "pr_state pr")
    case PROC_RUN
    then show ?thesis using po by blast
  next
    case PROC_DEAD
    then show ?thesis using po assms(3) by blast
  next
    case PROC_DELAY
    then show ?thesis using timer assms(3) by (auto simp: timed_def)
  next
    case PROC_NEW
    then show ?thesis
      using ready_ok_count [OF ok(2), of "nat (priority pr)" p] procs_ok_prio [OF ok(1) assms(2,3)] assms by (simp add: ready_count_def)
  next
    case PROC_READY
    then show ?thesis
      using ready_ok_count [OF ok(2), of "nat (priority pr)" p] procs_ok_prio [OF ok(1) assms(2,3)] assms by (simp add: ready_count_def)
  qed (use queued assms(3) in \<open>simp_all add: waiting_def\<close>)
qed

text \<open>
  Property C32: no process is lost. In every state that the kernel reaches from its start by calls of
  the list \<open>syscall\<close>, continued calls and timer interrupts, interleaved in any way in which every call
  meets \<open>call_ok\<close>, a process other than the idle task either runs, or is in the ready queue of its
  priority exactly once, or is in the wait queue its entry names, or sleeps and has a timer.

  What \<open>call_ok\<close> asks of the callers, since the kernel does not check it: a process is created with an
  existing priority; a mutex is destroyed only while nobody waits for it or is about to take it (else
  \<open>destroyed_mutex_loses_process\<close>); with timed waits (\<open>tw\<close>) no semaphore is created while a destroyed one
  still has waiters; without them the initial value of a semaphore is at most 127 and no post is made
  at 127 (else \<open>large_semaphore_is_negative\<close>). The calls \<^verbatim>\<open>sys_kill\<close>, \<^verbatim>\<open>sem_open\<close>, \<^verbatim>\<open>sem_close\<close>, \<^verbatim>\<open>sem_unlink\<close>
  and the thread calls are not among the steps.
\<close>

theorem no_process_is_lost:
  assumes "config_ok c s0" "kreach tw c s0 s"
  shows "\<forall>p pr. get_proc (ptable s) p = Some pr \<and> is_allocated pr \<and> p \<noteq> idle_task_pid s \<longrightarrow>
     p = current_pid s \<and> pr_state pr = PROC_RUN \<or>
     (pr_state pr = PROC_READY \<or> pr_state pr = PROC_NEW) \<and> count_list (q_list (ready_q s ! nat (priority pr))) p = 1 \<or>
     (\<exists>r q. blockq pr = Some r \<and> get_queue r s = Some q \<and> p \<in> set (pq_pids q)) \<or>
     pr_state pr = PROC_DELAY \<and> (\<exists>n. (p, n) \<in> set (tmr_view s))"
  using process_place [OF kern_okD(1) [OF sync_invD(1) [OF reach_inv [OF assms(2,1)]]]] by blast

theorem no_process_is_lost_witness:
  "case demo_run True [Tick, Call (Sem_init 1 0), Call (Sem_timedwait (Some 0) 5)] of
     None \<Rightarrow> False
   | Some s \<Rightarrow> current_pid s = 2 \<and> (\<forall>pr. get_proc (ptable s) 1 = Some pr \<longrightarrow> (\<exists>r q. blockq pr = Some r \<and> get_queue r s = Some q \<and> 1 \<in> set (pq_pids q)))"
proof -
  have val: "case demo_run True [Tick, Call (Sem_init 1 0), Call (Sem_timedwait (Some 0) 5)] of None \<Rightarrow> False
     | Some s \<Rightarrow> current_pid s = 2 \<and> idle_task_pid s = 0 \<and>
         (case get_proc (ptable s) 1 of None \<Rightarrow> False | Some pr \<Rightarrow> is_allocated pr \<and> pr_state pr = PROC_TIMED_WAIT)"
    by code_simp
  then obtain s where run: "demo_run True [Tick, Call (Sem_init 1 0), Call (Sem_timedwait (Some 0) 5)] = Some s"
    by (cases "demo_run True [Tick, Call (Sem_init 1 0), Call (Sem_timedwait (Some 0) 5)]") auto
  obtain pr where pr: "get_proc (ptable s) 1 = Some pr" "is_allocated pr" "pr_state pr = PROC_TIMED_WAIT" "current_pid s = 2" "idle_task_pid s = 0"
    using val run by (auto split: option.splits)
  then have "\<exists>r q. blockq pr = Some r \<and> get_queue r s = Some q \<and> 1 \<in> set (pq_pids q)"
    using no_process_is_lost [OF demo_ok demo_reach [OF run], rule_format, of 1 pr] by simp
  then show ?thesis using run pr by simp
qed

text \<open>
  Property C33: in every configuration in which each queue can hold all processes, there are at most 128
  priorities, the configured ones exist, and there are at least as many timers as processes
  (\<open>config_ok\<close>), the kernel starts, and it does not get stuck as long as the calls meet \<open>call_ok\<close>: in every
  state reached that way a timer interrupt or a continued call can happen, and every continued call,
  every timer interrupt and every call that meets \<open>call_ok\<close> ends, without an access outside a table and
  without the halts in \<^verbatim>\<open>scheduler\<close> and \<^verbatim>\<open>suspend\<close>. A call that does not meet it may access memory
  outside a table (\<open>unchecked_priority\<close>).
\<close>

theorem kernel_never_stuck:
  assumes "config_ok c s0"
  shows "(\<exists>s. xilkernel_init c s0 = Some s \<and> kreach tw c s0 s) \<and>
     (\<forall>s. kreach tw c s0 s \<longrightarrow>
        (enabled Resume s \<or> enabled Tick s) \<and> (\<forall>ev. enabled ev s \<and> event_ok tw ev s \<longrightarrow> (\<exists>s'. kstep ev s = Some s' \<and> kreach tw c s0 s')))"
proof (intro conjI allI impI)
  show "\<exists>s. xilkernel_init c s0 = Some s \<and> kreach tw c s0 s"
    using xilkernel_init_inv [OF assms] kreach.start by blast
next
  fix s
  show "enabled Resume s \<or> enabled Tick s" by (cases "conts s (current_pid s)") simp_all
  fix ev
  assume r: "kreach tw c s0 s" and e: "enabled ev s \<and> event_ok tw ev s"
  obtain s' where "kstep ev s = Some s'" using step_inv [OF reach_inv [OF r assms], of ev] e by blast
  then show "\<exists>s'. kstep ev s = Some s' \<and> kreach tw c s0 s'" using kreach.step [OF r] e by blast
qed

theorem kernel_never_stuck_witness:
  "(\<exists>s. xilkernel_init demo_config demo_memory = Some s) \<and>
     (\<exists>s s'. demo_run False [Tick] = Some s \<and> enabled (Call (Sleep 3)) s \<and> kstep (Call (Sleep 3)) s = Some s')"
proof -
  have val: "case demo_run False [Tick] of None \<Rightarrow> False | Some s \<Rightarrow> enabled (Call (Sleep 3)) s" by code_simp
  then obtain s where run: "demo_run False [Tick] = Some s" by (cases "demo_run False [Tick]") auto
  have "enabled (Call (Sleep 3)) s \<and> event_ok False (Call (Sleep 3)) s" using val run by simp
  then show ?thesis using kernel_never_stuck [OF demo_ok, of False] demo_reach [OF run] run by blast
qed

section \<open>Sleeping\<close>

lemma tick_view_member:
  assumes "(p, n) \<in> set v" "n \<noteq> 1"
  shows "(p, n - 1) \<in> set (tick_view v)"
  using assms by (force simp: tick_view_def)

lemma irq_not_due:
  assumes "k_inv s" "(p, n) \<in> set (tmr_view s)" "n \<noteq> 1"
  shows "p \<notin> due s"
proof -
  have "distinct (map fst (tmr_view s))" using assms(1) by (simp add: k_inv_def k_wf_def tmr_ok_def tmr_core_def)
  then show ?thesis using assms(2,3) eq_key_imp_eq_value unfolding due_def by fastforce
qed

text \<open>A timer interrupt takes one tick off the timer of a sleeping process and wakes it at the last.\<close>

lemma tick_sleeper:
  assumes "k_inv s" "(p, n) \<in> sleepers s"
  shows "\<exists>s'. timer_irq s = Some s' \<and> (if n = 1 then can_run (get_proc (ptable s') p) else (p, n - 1) \<in> sleepers s')"
proof -
  have p: "(p, n) \<in> set (tmr_view s)" "asleep (wview s p)" using assms(2) by (auto simp: sleepers_def)
  obtain s' where s': "timer_irq s = Some s'" "tmr_view s' = tick_view (tmr_view s)"
      "wview s' = (\<lambda>p. map_option (if p \<in> due s then moved None False else id) (wview s p))"
      "\<forall>p \<in> due s. get_proc (ptable s) p \<noteq> None \<longrightarrow> can_run (get_proc (ptable s') p)"
    using timer_irq_eq [OF assms(1)] by blast
  show ?thesis
  proof (cases "n = 1")
    case True
    have "get_proc (ptable s) p \<noteq> None" using p(2) by (auto simp: asleep_def wview_def)
    then show ?thesis using True s'(1,4) p(1) by (auto simp: due_def)
  next
    case False
    have "wview s' p = wview s p" using irq_not_due [OF assms(1) p(1) False] s'(3) by (simp add: option.map_id)
    then show ?thesis using False s'(1,2) tick_view_member [OF p(1) False] p(2) by (simp add: sleepers_def)
  qed
qed

text \<open>Whatever happens, a sleeping process goes on sleeping until its timer has had all its ticks.\<close>

lemma sleeper_run:
  assumes "krun tw evs s = Some t" "sync_inv tw s" "(p, n) \<in> sleepers s" "count_list evs Tick < unat n"
  shows "(p, n - of_nat (count_list evs Tick)) \<in> sleepers t \<and> sync_inv tw t"
  using assms
proof (induction evs arbitrary: s n)
  case (Cons ev evs)
  obtain s1 where s1: "kstep ev s = Some s1" "sync_inv tw s1" "ev \<noteq> Tick \<longrightarrow> sleepers s \<subseteq> sleepers s1" "krun tw evs s1 = Some t"
    using Cons.prems(1) step_inv [OF Cons.prems(2), of ev] by (auto split: if_splits bind_splits)
  show ?case
  proof (cases "ev = Tick")
    case False
    then show ?thesis using Cons.IH [OF s1(4,2)] Cons.prems(3,4) s1(3) by auto
  next
    case True
    have n: "n \<noteq> 1" "n \<noteq> 0" using Cons.prems(4) True by auto
    have "(p, n - 1) \<in> sleepers s1"
      using tick_sleeper [OF kern_okD(1) [OF sync_invD(1) [OF Cons.prems(2)]] Cons.prems(3)] s1(1) True n(1) by auto
    moreover have "count_list evs Tick < unat (n - 1)" using Cons.prems(4) True unat_minus_one [OF n(2)] by simp
    ultimately show ?thesis using Cons.IH [OF s1(4,2), of "n - 1"] True by (simp add: diff_diff_eq)
  qed
qed simp

lemma krun_append: "krun tw (xs @ ys) s = do { s \<leftarrow> krun tw xs s; krun tw ys s }"
  by (induction xs arbitrary: s) (auto split: bind_splits)

definition proc_state_of :: "pid \<Rightarrow> kernel \<Rightarrow> proc_state option" where
  "proc_state_of p s = map_option pr_state (get_proc (ptable s) p)"

lemma sleeper_state: "(p, n) \<in> sleepers s \<Longrightarrow> proc_state_of p s = Some PROC_DELAY"
  by (auto simp: sleepers_def asleep_def wview_def wait_key_def waiting_def timed_def proc_state_of_def)

lemma ticks_of_time:
  assumes "unat ms * unat (systmr_khz s) < 2 ^ 32"
  shows "unat (ms_to_ticks s ms) = unat ms * unat (systmr_khz s) div unat (systmr_interval s)"
proof -
  have "unat (ms * systmr_khz s) = unat ms * unat (systmr_khz s)" using assms by (simp add: unat_word_ariths)
  then show ?thesis by (simp add: ms_to_ticks_def unat_div)
qed

text \<open>
  Property C34: a process that calls \<open>sleep ms\<close> in a reachable state sleeps for \<open>n\<close> timer interrupts. Whatever
  happens after the call, in any order the conditions of \<open>call_ok\<close> allow, the process is in \<^verbatim>\<open>PROC_DELAY\<close> as
  long as fewer than \<open>n\<close> timer interrupts came, and right after the \<open>n\<close>-th it is ready or runs. Here \<open>n\<close> is the
  number of whole tick intervals in the requested time, at least one: a millisecond has
  \<^verbatim>\<open>SYSTMR_CLK_FREQ_KHZ\<close> timer clocks and a tick \<^verbatim>\<open>SYSTMR_INTERVAL\<close> of them. This holds for times of less
  than \<open>2 ^ 32\<close> timer clocks; longer ones wrap around (\<open>long_sleep_is_short\<close>).
\<close>

theorem sleep_ends_in_time:
  assumes "config_ok c s0" "kreach tw c s0 s" "enabled (Call (Sleep ms)) s"
    and "unat ms * unat (systmr_khz s) < 2 ^ 32" "p = current_pid s"
    and "n = max 1 (unat ms * unat (systmr_khz s) div unat (systmr_interval s))"
  shows "\<exists>s'. kstep (Call (Sleep ms)) s = Some s' \<and>
     (\<forall>evs t. krun tw evs s' = Some t \<and> count_list evs Tick < n \<longrightarrow> proc_state_of p t = Some PROC_DELAY) \<and>
     (\<forall>evs t. krun tw (evs @ [Tick]) s' = Some t \<and> count_list evs Tick = n - 1 \<longrightarrow>
        proc_state_of p t = Some PROC_READY \<or> proc_state_of p t = Some PROC_RUN)"
proof -
  have inv: "sync_inv tw s" by (rule reach_inv [OF assms(2,1)])
  note k = sync_invD(1) [OF inv]
  define m where "m = (if ms_to_ticks s ms = 0 then 1 else ms_to_ticks s ms)"
  have "unat m = max 1 (unat (ms_to_ticks s ms))" by (cases "ms_to_ticks s ms = 0") (auto simp: m_def max_def unat_eq_0 Suc_le_eq unat_gt_0)
  then have m: "unat m = n" using ticks_of_time [OF assms(4)] assms(6) by simp
  have ni: "current_pid s \<noteq> idle_task_pid s" using assms(3) by simp
  obtain s' where s': "sys_sleep ms s = Some (Blocked, s')" "becomes tw s (move p None True s) (sems s) (mutexes s) s'"
      "tmr_view s' = tmr_view s @ [(p, m)]"
    using sleep_ok [OF k ni, of ms] unfolding m_def [symmetric] assms(5) by blast
  have step: "kstep (Call (Sleep ms)) s = Some s'" using s'(1) by (simp add: leave_def)
  have inv': "sync_inv tw s'" using step_inv [OF inv assms(3)] step by auto
  obtain cur where "wview s p = Some (wait_key cur)" using wview_cur [OF kern_okD(1) [OF k]] assms(5) by metis
  then have sl: "(p, m) \<in> sleepers s'"
    using s'(3) becomes_eqD(3) [OF s'(2)] by (simp add: sleepers_def asleep_def move_def moved_def wait_key_def)
  have "proc_state_of p t = Some PROC_DELAY" if "krun tw evs s' = Some t" "count_list evs Tick < n" for evs t
    using sleeper_run [OF that(1) inv' sl] that(2) m sleeper_state by blast
  moreover have "proc_state_of p t = Some PROC_READY \<or> proc_state_of p t = Some PROC_RUN"
    if r: "krun tw (evs @ [Tick]) s' = Some t" "count_list evs Tick = n - 1" for evs t
  proof -
    obtain u where u: "krun tw evs s' = Some u" "timer_irq u = Some t"
      using r(1) by (auto simp: krun_append split: bind_splits if_splits)
    have n: "0 < n" using assms(6) by simp
    have "(p, m - of_nat (n - 1)) \<in> sleepers u" "sync_inv tw u" using sleeper_run [OF u(1) inv' sl] r(2) m n by simp_all
    moreover have "m - of_nat (n - 1) = 1"
    proof -
      have "m = of_nat n" using m by (metis of_nat_unat ucast_id)
      then show ?thesis using n by simp
    qed
    ultimately have "can_run (get_proc (ptable t) p)"
      using tick_sleeper [of u p 1] kern_okD(1) [OF sync_invD(1), of tw u] u(2) by simp
    then show ?thesis by (auto simp: can_run_def proc_state_of_def split: option.splits)
  qed
  ultimately show ?thesis using step by blast
qed

theorem sleep_ends_in_time_witness:
  "case demo_run False [Tick] of
     None \<Rightarrow> False
   | Some s \<Rightarrow> \<exists>s' t u. kstep (Call (Sleep 3)) s = Some s' \<and>
        krun False [Call Yield, Tick, Call (Sem_init 1 0), Tick] s' = Some t \<and> proc_state_of 1 t = Some PROC_DELAY \<and>
        krun False ([Call Yield, Tick, Call (Sem_init 1 0), Tick] @ [Tick]) s' = Some u \<and>
        (proc_state_of 1 u = Some PROC_READY \<or> proc_state_of 1 u = Some PROC_RUN)"
proof -
  define evs where "evs = [Call Yield, Tick, Call (Sem_init 1 0), Tick]"
  have val: "case demo_run False [Tick] of None \<Rightarrow> False
     | Some s \<Rightarrow> enabled (Call (Sleep 3)) s \<and> current_pid s = 1 \<and> systmr_khz s = 1 \<and> systmr_interval s = 1 \<and>
         (case kstep (Call (Sleep 3)) s of None \<Rightarrow> False
          | Some s' \<Rightarrow> krun False [Call Yield, Tick, Call (Sem_init 1 0), Tick] s' \<noteq> None \<and>
              krun False ([Call Yield, Tick, Call (Sem_init 1 0), Tick] @ [Tick]) s' \<noteq> None)"
    by code_simp
  then obtain s where run: "demo_run False [Tick] = Some s" by (cases "demo_run False [Tick]") auto
  have v: "enabled (Call (Sleep 3)) s" "current_pid s = 1" "systmr_khz s = 1" "systmr_interval s = 1" using val run by auto
  obtain s' t u where s': "kstep (Call (Sleep 3)) s = Some s'" "krun False evs s' = Some t" "krun False (evs @ [Tick]) s' = Some u"
    using val run unfolding evs_def [symmetric] by (auto split: option.splits)
  have n: "count_list evs Tick = 2" by (simp add: evs_def)
  have "unat (3 :: u32) * unat (systmr_khz s) < 2 ^ 32" "(3 :: nat) = max 1 (unat (3 :: u32) * unat (systmr_khz s) div unat (systmr_interval s))"
    using v by simp_all
  from sleep_ends_in_time [OF demo_ok demo_reach [OF run] v(1) this(1) v(2) [symmetric] this(2)] s'(1)
  have "krun False evs s' = Some t \<and> count_list evs Tick < 3 \<longrightarrow> proc_state_of 1 t = Some PROC_DELAY"
    and "krun False (evs @ [Tick]) s' = Some u \<and> count_list evs Tick = 3 - 1 \<longrightarrow>
      proc_state_of 1 u = Some PROC_READY \<or> proc_state_of 1 u = Some PROC_RUN"
    by simp_all
  then show ?thesis using run s' n unfolding evs_def [symmetric] by auto
qed

text \<open>
  The product of milliseconds and kilohertz wraps around in 32 bits: with a 100 MHz timer and a tick of 10 ms, a
  sleep of 42950 ms, which has 4295 ticks, ends at the next tick.
\<close>

theorem long_sleep_is_short:
  assumes "systmr_khz s = 100000" "systmr_interval s = 1000000"
  shows "ms_to_ticks s 42950 = 0" "42950 * unat (systmr_khz s) div unat (systmr_interval s) = 4295"
  using assms by (simp_all add: ms_to_ticks_def)

section \<open>Semaphores\<close>

lemma sem_with_value:
  assumes "sems s' = sem_with i v s" "i < length (sem_heap s)"
  shows "sem_value (sem_heap s' ! i) = v"
proof -
  have l: "length (sem_heap s') = length (sem_heap s)" using assms(1) by (metis length_list_update length_map sem_with_def)
  have "sems s' ! i = sem_with i v s ! i" using assms(1) by simp
  then show ?thesis using assms(2) l by (simp add: sem_with_def Let_def sem_rest_def)
qed

lemma u8_inc_below: "(v :: u8) \<noteq> 127 \<Longrightarrow> sint (v + 1) = sint v + 1"
proof -
  assume "v \<noteq> 127"
  moreover have "v = 127" if "sint v = 127" using that by (intro signed_word_eqI) simp
  ultimately show ?thesis using sint_u8_range(2) [of v] by (intro sint_u8_inc) force
qed

text \<open>
  Property C35: the value of a semaphore and the processes that wait for it, in the states reached without
  timed waits (\<open>call_ok False\<close>: no call of \<^verbatim>\<open>sem_timedwait\<close>, initial values of at most 127, no post at 127;
  \<^verbatim>\<open>sys_kill\<close> is not among the steps). The value of every live semaphore is positive or zero with nobody
  waiting, or minus the number of the processes that wait. A post at a value below 127 with waiting processes
  makes a most urgent one of them ready and leaves the others waiting; a post with nobody waiting only raises
  the value. Beyond these limits the count is wrong: \<open>large_semaphore_is_negative\<close>, \<open>timed_wait_loses_post\<close>.
\<close>

theorem semaphores_count_waiters:
  assumes "config_ok c s0" "kreach False c s0 s" "get_sem_by_semt sem s = Some i" "sem_value (sem_heap s ! i) \<noteq> 127"
  shows "int (card (waiters (Sem_q i) s)) = max 0 (- sint (sem_value (sem_heap s ! i))) \<and>
     (\<exists>s'. sys_sem_post sem s = Some (Ret 0, s') \<and>
        (if waiters (Sem_q i) s = {} then
           waiters (Sem_q i) s' = {} \<and> (sem_unlinked (sem_heap s ! i) \<or> sint (sem_value (sem_heap s' ! i)) = sint (sem_value (sem_heap s ! i)) + 1)
         else
           (\<exists>p \<in> waiters (Sem_q i) s. (\<forall>x \<in> waiters (Sem_q i) s. prio_of (ptable s) p \<le> prio_of (ptable s) x) \<and>
              waiters (Sem_q i) s' = waiters (Sem_q i) s - {p} \<and>
              sint (sem_value (sem_heap s' ! i)) = sint (sem_value (sem_heap s ! i)) + 1)))"
proof -
  let ?v = "sem_value (sem_heap s ! i)" and ?W = "waiters (Sem_q i) s"
  have inv: "sync_inv False s" by (rule reach_inv [OF assms(2,1)])
  note k = sync_invD(1) [OF inv] and i = get_semD [OF assms(3)]
  have acc: "int (card ?W) = max 0 (- sint ?v)" using sem_of_view [OF inv _ i] by (simp add: waiters_wset)
  note v1 = u8_inc_below [OF assms(4)]
  have neg: "sint (?v + 1) \<le> 0" if "?W \<noteq> {}"
  proof -
    have "card ?W \<noteq> 0" using that by (simp add: waiters_wset)
    then show ?thesis using acc v1 by linarith
  qed
  obtain w sv s' where p: "sys_sem_post sem s = Some (Ret 0, s')" "becomes False s w sv (mutexes s) s'"
     "if sint (?v + 1) \<le> 0 \<and> ?W \<noteq> {} then
        resched s' \<and> sv = sem_with i (?v + 1) s \<and>
        (\<exists>p \<in> ?W. (\<forall>x \<in> ?W. prio_of (ptable s) p \<le> prio_of (ptable s) x) \<and> w = move p None False s)
      else
        w = wview s \<and> sv = (if sint (?v + 1) > 0 \<and> sem_unlinked (sem_heap s ! i) then (sems s)[i := (255, 0, 255, False)] else sem_with i (?v + 1) s)"
    using sem_post_ok [OF k assms(3) refl] by blast
  note b = becomes_eqD [OF p(2)]
  have val: "sv = sem_with i (?v + 1) s \<Longrightarrow> sem_value (sem_heap s' ! i) = ?v + 1" using sem_with_value [of s' i "?v + 1" s] b(4) i(1) by simp
  show ?thesis
  proof (cases "?W = {}")
    case True
    then show ?thesis using acc p(1,3) b(3) val v1 by (cases "sem_unlinked (sem_heap s ! i)") (auto simp: waiters_wset)
  next
    case False
    then obtain q where q: "q \<in> ?W" "\<forall>x \<in> ?W. prio_of (ptable s) q \<le> prio_of (ptable s) x" "w = move q None False s"
        "sv = sem_with i (?v + 1) s"
      using p(3) neg by auto
    have "wview s q \<noteq> None" using q(1) wset_waiting(1) unfolding waiters_wset by blast
    then have "waiters (Sem_q i) s' = ?W - {q}" unfolding waiters_wset b(3) q(3) by (simp add: wset_move)
    then show ?thesis using acc p(1) False q(1,2) val [OF q(4)] v1 by auto
  qed
qed

theorem semaphores_count_waiters_witness:
  "case demo_run False [Tick, Call (Sem_init 1 0), Call (Sem_wait (Some 0)), Call (Sem_wait (Some 0))] of
     None \<Rightarrow> False
   | Some s \<Rightarrow> card (waiters (Sem_q 0) s) = 2 \<and>
       (\<exists>s'. sys_sem_post (Some 0) s = Some (Ret 0, s') \<and> (\<exists>p. waiters (Sem_q 0) s' = waiters (Sem_q 0) s - {p}) \<and> sint (sem_value (sem_heap s' ! 0)) = - 1)"
proof -
  define evs where "evs = [Tick, Call (Sem_init 1 0), Call (Sem_wait (Some 0)), Call (Sem_wait (Some 0))]"
  have val: "case demo_run False [Tick, Call (Sem_init 1 0), Call (Sem_wait (Some 0)), Call (Sem_wait (Some 0))] of None \<Rightarrow> False
     | Some s \<Rightarrow> get_sem_by_semt (Some 0) s = Some 0 \<and> sint (sem_value (sem_heap s ! 0)) = - 2"
    by code_simp
  then obtain s where run: "demo_run False evs = Some s" unfolding evs_def [symmetric] by (cases "demo_run False evs") auto
  have v: "get_sem_by_semt (Some 0) s = Some 0" "sint (sem_value (sem_heap s ! 0)) = - 2"
    using val unfolding evs_def [symmetric] run by simp_all
  have "sem_value (sem_heap s ! 0) \<noteq> 127" using v(2) by auto
  from semaphores_count_waiters [OF demo_ok demo_reach [OF run] v(1) this]
  have a: "int (card (waiters (Sem_q 0) s)) = 2" and b: "\<exists>s'. sys_sem_post (Some 0) s = Some (Ret 0, s') \<and>
        (if waiters (Sem_q 0) s = {} then
           waiters (Sem_q 0) s' = {} \<and> (sem_unlinked (sem_heap s ! 0) \<or> sint (sem_value (sem_heap s' ! 0)) = - 2 + 1)
         else
           (\<exists>p \<in> waiters (Sem_q 0) s. (\<forall>x \<in> waiters (Sem_q 0) s. prio_of (ptable s) p \<le> prio_of (ptable s) x) \<and>
              waiters (Sem_q 0) s' = waiters (Sem_q 0) s - {p} \<and> sint (sem_value (sem_heap s' ! 0)) = - 2 + 1))"
    unfolding v(2) by simp_all
  have "waiters (Sem_q 0) s \<noteq> {}" using a by auto
  then obtain s' p where "sys_sem_post (Some 0) s = Some (Ret 0, s')" "waiters (Sem_q 0) s' = waiters (Sem_q 0) s - {p}"
      "sint (sem_value (sem_heap s' ! 0)) = - 1"
    using b by auto
  then show ?thesis using a unfolding evs_def [symmetric] run by auto
qed

text \<open>
  With timed waits the count goes wrong. A process whose timed wait has ended but that has
  not run yet still counts in the value; a post in between is taken by nobody, a second process that waits then
  blocks, and when the first one corrects the value no later post wakes the second: in the run below two posts
  were made and one wait succeeded by timeout, the value is 1, and process 2 waits.
\<close>

theorem timed_wait_loses_post:
  "case demo_run True [Tick, Call (Sem_init 1 0), Call (Sleep 1), Call (Sleep 1), Call (Sem_timedwait (Some 0) 1), Tick, Resume,
        Call (Sem_post (Some 0)), Call (Sleep 5), Resume, Call (Sem_wait (Some 0)), Resume, Call (Sem_post (Some 0))] of
     None \<Rightarrow> False
   | Some s \<Rightarrow> sint (sem_value (sem_heap s ! 0)) = 1 \<and> pq_pids (sem_wait_q (sem_heap s ! 0)) = [2] \<and>
       (case get_proc (ptable s) 2 of None \<Rightarrow> False | Some pr \<Rightarrow> pr_state pr = PROC_WAIT \<and> blockq pr = Some (Sem_q 0))"
  by code_simp

section \<open>Mutexes\<close>

text \<open>
  Property C36: a held mutex stays with its owner. Whatever happens next in a reachable state, the call meeting
  \<open>call_ok\<close> and not being one that unlocks this very mutex, the mutex exists afterwards with the same type and
  the same owner. Its count is the same, or the mutex is recursive, its owner is the running process, the
  step takes this very mutex (a lock or trylock of it, or a lock that goes on), and the count is one higher; so it is
  still held unless the count wraps around at \<open>2 ^ 32\<close>. Until then no attempt of another process to take it
  succeeds. In particular a destroy of a held mutex is refused.
\<close>

theorem mutex_stays_with_owner:
  assumes "config_ok c s0" "kreach tw c s0 s" "enabled ev s" "event_ok tw ev s"
    and "i < length (mutex_heap s)" "x = mutex_heap s ! i" "mx_allocated x" "mx_locked x \<noteq> 0"
    and "ev \<noteq> Call (Mutex_unlock (Some (MUTEX (int i))))"
  shows "\<exists>s' y. kstep ev s = Some s' \<and> i < length (mutex_heap s') \<and> y = mutex_heap s' ! i \<and> mx_allocated y \<and>
     mx_owner y = mx_owner x \<and> mx_type y = mx_type x \<and>
     (mx_locked y = mx_locked x \<or>
      mx_type x = PTHREAD_MUTEX_RECURSIVE \<and> mx_owner x = current_pid s \<and> i \<in> takes ev s \<and> mx_locked y = mx_locked x + 1) \<and>
     (mx_locked x \<noteq> - 1 \<longrightarrow> mx_locked y \<noteq> 0) \<and>
     (\<forall>trylock t. current_pid s \<noteq> mx_owner x \<longrightarrow> mutex_loop i trylock s \<noteq> Some (Ret 0, t))"
proof -
  have inv: "sync_inv tw s" by (rule reach_inv [OF assms(2,1)])
  obtain s' where s': "kstep ev s = Some s'" "sync_inv tw s'" "kept (takes ev s) (current_pid s) i (mutexes s) (mutexes s')"
    using step_inv [OF inv assms(3,4)] assms(9) by (auto simp: unlocks_def)
  define y where "y = mutex_heap s' ! i"
  have x: "mutexes s ! i = (True, mx_locked x, mx_type x, mx_owner x)" using mutex_nth [OF assms(5)] assms(6,7) by simp
  have k: "i < length (mutexes s')" "mutexes s' ! i = mutexes s ! i \<or> i \<in> takes ev s \<and> mx_type x = PTHREAD_MUTEX_RECURSIVE \<and>
      mx_owner x = current_pid s \<and> mutexes s' ! i = (True, mx_locked x + 1, mx_type x, mx_owner x)"
    using s'(3) assms(5,8) x unfolding kept_def by (metis length_map)+
  then have len: "i < length (mutex_heap s')" by simp
  then have y: "mutexes s' ! i = (mx_allocated y, mx_locked y, mx_type y, mx_owner y)" using mutex_nth [of i s'] by (simp add: y_def)
  have "mx_allocated y \<and> mx_owner y = mx_owner x \<and> mx_type y = mx_type x \<and> (mx_locked y = mx_locked x \<or>
      mx_type x = PTHREAD_MUTEX_RECURSIVE \<and> mx_owner x = current_pid s \<and> i \<in> takes ev s \<and> mx_locked y = mx_locked x + 1)"
    using k(2) x y by auto
  moreover from this have "mx_locked x \<noteq> - 1 \<longrightarrow> mx_locked y \<noteq> 0" using assms(8) by (auto simp: eq_neg_iff_add_eq_0)
  moreover have "mutex_loop i trylock s \<noteq> Some (Ret 0, t)" if "current_pid s \<noteq> mx_owner x" for trylock t
    using that assms(5,6,8) by (auto simp: mutex_loop_def array_simps split: bind_splits)
  ultimately show ?thesis using s'(1) len y_def by auto
qed

theorem mutex_stays_with_owner_witness:
  "case demo_run False [Tick, Call (Mutex_init None), Call (Mutex_lock (Some (MUTEX 0))), Call (Sleep 2)] of
     None \<Rightarrow> False
   | Some s \<Rightarrow> current_pid s = 2 \<and>
       (\<exists>s'. kstep (Call (Mutex_lock (Some (MUTEX 0)))) s = Some s' \<and> mx_owner (mutex_heap s' ! 0) = 1 \<and> mx_locked (mutex_heap s' ! 0) = 1)"
proof -
  define evs where "evs = [Tick, Call (Mutex_init None), Call (Mutex_lock (Some (MUTEX 0))), Call (Sleep 2)]"
  define ev where "ev = Call (Mutex_lock (Some (MUTEX 0)))"
  have val: "case demo_run False [Tick, Call (Mutex_init None), Call (Mutex_lock (Some (MUTEX 0))), Call (Sleep 2)] of None \<Rightarrow> False
     | Some s \<Rightarrow> enabled (Call (Mutex_lock (Some (MUTEX 0)))) s \<and> current_pid s = 2 \<and> 0 < length (mutex_heap s) \<and>
         mx_allocated (mutex_heap s ! 0) \<and> mx_locked (mutex_heap s ! 0) = 1 \<and> mx_owner (mutex_heap s ! 0) = 1"
    by code_simp
  then obtain s where run: "demo_run False evs = Some s" unfolding evs_def [symmetric] by (cases "demo_run False evs") auto
  have v: "enabled ev s" "current_pid s = 2" "0 < length (mutex_heap s)" "mx_allocated (mutex_heap s ! 0)"
      "mx_locked (mutex_heap s ! 0) = 1" "mx_owner (mutex_heap s ! 0) = 1"
    using val unfolding evs_def [symmetric] unfolding run ev_def [symmetric] by simp_all
  have e: "event_ok False ev s" "ev \<noteq> Call (Mutex_unlock (Some (MUTEX (int 0))))" by (simp_all add: ev_def)
  have "mx_locked (mutex_heap s ! 0) \<noteq> 0" using v(5) by simp
  from mutex_stays_with_owner [OF demo_ok demo_reach [OF run] v(1) e(1) v(3) refl v(4) this e(2)] v
  show ?thesis unfolding evs_def [symmetric] unfolding run ev_def [symmetric] by auto
qed

end
