(* ===== verification/Kern_Shm.thy ===== *)
theory Kern_Shm
  imports Kern_Props
begin

text \<open>
  Shared memory of the kernel: \<^verbatim>\<open>src/bsp/xilkernel_v4_00_a/src/src/ipc/shm.c\<close> and its start-up in
  \<^verbatim>\<open>mem.c\<close>. The segments are laid out one behind the other at start; a process gets one of the right
  size under a key. Their number \<^verbatim>\<open>N_SHM\<close> is the length of the table, the memory a function from
  addresses to bytes.
\<close>

section \<open>Data\<close>

record shm_info =
  shm_segsz :: u32
  shm_lpid :: pid
  shm_cpid :: pid
  shm_nattch :: u32
  shm_addr :: u32
  shm_id :: int
  shm_key :: u32

record shmsys =
  shm_kern :: kernel
  shm_heap :: "shm_info list"
  shm_mem :: "u32 \<Rightarrow> u8"

text \<open>What \<^verbatim>\<open>IPC_STAT\<close> reports.\<close>

record shmid_ds =
  ds_segsz :: u32
  ds_lpid :: pid
  ds_cpid :: pid
  ds_nattch :: u32

definition IPC_CREAT :: u32 where "IPC_CREAT = 1"
definition IPC_EXCL :: u32 where "IPC_EXCL = 2"
definition IPC_NOWAIT :: u32 where "IPC_NOWAIT = 3"
definition IPC_SET :: u32 where "IPC_SET = 1"
definition IPC_STAT :: u32 where "IPC_STAT = 1"
definition IPC_RMID :: u32 where "IPC_RMID = 2"
definition IPC_PRIVATE :: u32 where "IPC_PRIVATE = 0xffffffff"

lemmas ipc_flags = IPC_CREAT_def IPC_EXCL_def IPC_NOWAIT_def IPC_SET_def IPC_STAT_def IPC_RMID_def IPC_PRIVATE_def

section \<open>Operations\<close>

text \<open>The loop of \<^verbatim>\<open>shm_init\<close> over the configured sizes, from the first free address.\<close>

fun shm_init :: "u32 list \<Rightarrow> u32 \<Rightarrow> shm_info list \<Rightarrow> shm_info list" where
  "shm_init (sz # szs) a (x # xs) = x\<lparr>shm_id := - 1, shm_segsz := sz, shm_addr := a\<rparr> # shm_init szs (a + sz) xs"
| "shm_init szs a xs = []"

text \<open>The position of the segment with a key, or the length of the table.\<close>

definition get_shm_by_key :: "u32 \<Rightarrow> shm_info list \<Rightarrow> nat" where
  "get_shm_by_key key xs = scan_table (\<lambda>x. shm_id x \<noteq> - 1 \<and> shm_key x = key) 0 xs"

definition shm_fail :: "errno \<Rightarrow> shmsys \<Rightarrow> shmsys option" where
  "shm_fail e s = do { k \<leftarrow> kerrno e (shm_kern s); Some (s\<lparr>shm_kern := k\<rparr>) }"

text \<open>\<^verbatim>\<open>bzero\<close>.\<close>

definition zero_mem :: "u32 \<Rightarrow> u32 \<Rightarrow> (u32 \<Rightarrow> u8) \<Rightarrow> u32 \<Rightarrow> u8" where
  "zero_mem a n m = (\<lambda>x. if x - a < n then 0 else m x)"

definition sys_shmget :: "u32 \<Rightarrow> u32 \<Rightarrow> u32 \<Rightarrow> shmsys \<Rightarrow> (int \<times> shmsys) option" where
  "sys_shmget key siz shmflg s =
     (let i = get_shm_by_key key (shm_heap s)
      in if i < length (shm_heap s) then
           (if shmflg AND IPC_CREAT \<noteq> 0 \<and> shmflg AND IPC_EXCL \<noteq> 0 then do { s \<leftarrow> shm_fail EEXIST s; Some (- 1, s) }
            else Some (shm_id (shm_heap s ! i), s))
         else if key = IPC_PRIVATE then do { s \<leftarrow> shm_fail ENOTSUP s; Some (- 1, s) }
         else if shmflg AND IPC_CREAT = 0 then do { s \<leftarrow> shm_fail ENOENT s; Some (- 1, s) }
         else
           (let i = scan_table (\<lambda>x. shm_id x = - 1 \<and> shm_segsz x = siz) 0 (shm_heap s)
            in if i = length (shm_heap s) then do { s \<leftarrow> shm_fail ENOSPC s; Some (- 1, s) }
               else
                 (let x = (shm_heap s ! i)\<lparr>shm_id := int i, shm_key := key, shm_nattch := 0, shm_lpid := 255,
                            shm_cpid := current_pid (shm_kern s)\<rparr>
                  in Some (int i, s\<lparr>shm_heap := (shm_heap s)[i := x],
                             shm_mem := zero_mem (shm_addr x) (shm_segsz x) (shm_mem s)\<rparr>))))"

definition shm_bad :: "int \<Rightarrow> shmsys \<Rightarrow> bool" where
  "shm_bad shmid s \<longleftrightarrow> shmid < 0 \<or> shmid \<ge> int (length (shm_heap s)) \<or> shm_id (shm_heap s ! nat shmid) = - 1"

definition upd_shm :: "nat \<Rightarrow> (shm_info \<Rightarrow> shm_info) \<Rightarrow> shmsys \<Rightarrow> shmsys option" where
  "upd_shm i f s = do { x \<leftarrow> arr_get (shm_heap s) i; xs \<leftarrow> arr_set (shm_heap s) i (f x); Some (s\<lparr>shm_heap := xs\<rparr>) }"

text \<open>The result is the value returned and what is stored through \<^verbatim>\<open>buf\<close>.\<close>

definition sys_shmctl :: "int \<Rightarrow> u32 \<Rightarrow> bool \<Rightarrow> shmsys \<Rightarrow> (int \<times> shmid_ds option \<times> shmsys) option" where
  "sys_shmctl shmid cmd buf_null s =
     (if shm_bad shmid s then do { s \<leftarrow> shm_fail EINVAL s; Some (- 1, None, s) }
      else if cmd = IPC_STAT then
        (if buf_null then do { s \<leftarrow> shm_fail EINVAL s; Some (- 1, None, s) }
         else
           do { x \<leftarrow> arr_get (shm_heap s) (nat shmid);
                Some (0, Some \<lparr>ds_segsz = shm_segsz x, ds_lpid = shm_lpid x, ds_cpid = shm_cpid x, ds_nattch = shm_nattch x\<rparr>, s) })
      else if cmd = IPC_SET then Some (0, None, s)
      else if cmd = IPC_RMID then
        do { s \<leftarrow> upd_shm (nat shmid) (\<lambda>x. x\<lparr>shm_id := - 1, shm_nattch := 0\<rparr>) s; Some (0, None, s) }
      else do { s \<leftarrow> shm_fail EINVAL s; Some (- 1, None, s) })"

text \<open>The address returned is 0 for the null pointer.\<close>

definition sys_shmat :: "int \<Rightarrow> shmsys \<Rightarrow> (u32 \<times> shmsys) option" where
  "sys_shmat shmid s =
     (if shm_bad shmid s then do { s \<leftarrow> shm_fail EINVAL s; Some (0, s) }
      else
        do { s \<leftarrow> upd_shm (nat shmid)
                   (\<lambda>x. x\<lparr>shm_nattch := shm_nattch x + 1, shm_lpid := sys_get_currentPID (shm_kern s)\<rparr>) s;
             x \<leftarrow> arr_get (shm_heap s) (nat shmid);
             Some (shm_addr x, s) })"

definition sys_shmdt :: "u32 \<Rightarrow> shmsys \<Rightarrow> (int \<times> shmsys) option" where
  "sys_shmdt shmaddr s =
     (let i = scan_table (\<lambda>x. shm_addr x = shmaddr) 0 (shm_heap s)
      in if i = length (shm_heap s) then do { s \<leftarrow> shm_fail EINVAL s; Some (- 1, s) }
         else do { s \<leftarrow> upd_shm i (\<lambda>x. x\<lparr>shm_nattch := shm_nattch x - 1\<rparr>) s; Some (0, s) })"

section \<open>The table of segments\<close>

text \<open>
  A segment in use has its position as identifier, no two in use have the same key, and no two segments
  overlap. \<open>seg\<close> is the set of the addresses of a segment.
\<close>

definition seg :: "shm_info \<Rightarrow> u32 set" where
  "seg x = {a. a - shm_addr x < shm_segsz x}"

definition shm_ok :: "shm_info list \<Rightarrow> bool" where
  "shm_ok xs \<longleftrightarrow>
     (\<forall>i < length xs. shm_id (xs ! i) = - 1 \<or> shm_id (xs ! i) = int i) \<and>
     (\<forall>i < length xs. \<forall>j < length xs. i \<noteq> j \<longrightarrow> seg (xs ! i) \<inter> seg (xs ! j) = {}) \<and>
     (\<forall>i < length xs. \<forall>j < length xs. shm_id (xs ! i) \<noteq> - 1 \<and> shm_id (xs ! j) \<noteq> - 1 \<and> shm_key (xs ! i) = shm_key (xs ! j) \<longrightarrow> i = j)"

lemma shm_fail_ok:
  assumes "get_proc (ptable (shm_kern s)) (current_pid (shm_kern s)) \<noteq> None"
  shows "\<exists>s'. shm_fail e s = Some s' \<and> shm_heap s' = shm_heap s \<and> shm_mem s' = shm_mem s"
  using assms by (auto simp: shm_fail_def kerrno_def upd_proc_def set_proc_def get_proc_def arr_get_def arr_set_def split: bind_splits)

lemma shm_ok_update:
  assumes "shm_ok xs" "i < length xs" "shm_addr y = shm_addr (xs ! i)" "shm_segsz y = shm_segsz (xs ! i)"
    and "shm_id y = - 1 \<or> shm_id y = int i"
    and "shm_id y \<noteq> - 1 \<Longrightarrow> \<forall>j < length xs. j \<noteq> i \<and> shm_id (xs ! j) \<noteq> - 1 \<longrightarrow> shm_key (xs ! j) \<noteq> shm_key y"
  shows "shm_ok (xs[i := y])"
proof -
  have s: "seg ((xs[i := y]) ! j) = seg (xs ! j)" if "j < length xs" for j
    using that assms(2-4) by (cases "j = i") (simp_all add: seg_def)
  have "shm_id ((xs[i := y]) ! j) = - 1 \<or> shm_id ((xs[i := y]) ! j) = int j" if "j < length xs" for j
    using that assms(1,2,5) by (cases "j = i") (auto simp: shm_ok_def)
  moreover have "seg ((xs[i := y]) ! j) \<inter> seg ((xs[i := y]) ! k) = {}" if "j < length xs" "k < length xs" "j \<noteq> k" for j k
    using that assms(1) by (simp add: s shm_ok_def)
  moreover have "j = k" if "j < length xs" "k < length xs" "shm_id ((xs[i := y]) ! j) \<noteq> - 1" "shm_id ((xs[i := y]) ! k) \<noteq> - 1"
      "shm_key ((xs[i := y]) ! j) = shm_key ((xs[i := y]) ! k)" for j k
    using that assms(1,2,6) by (cases "j = i"; cases "k = i") (auto simp: shm_ok_def)
  ultimately show ?thesis by (simp add: shm_ok_def)
qed

lemma get_shm_unique:
  assumes "shm_ok xs" "i < length xs" "shm_id (xs ! i) \<noteq> - 1"
  shows "get_shm_by_key (shm_key (xs ! i)) xs = i" "shm_id (xs ! i) = int i"
proof -
  define j where "j = get_shm_by_key (shm_key (xs ! i)) xs"
  have lt: "j < length xs" unfolding j_def get_shm_by_key_def scan_table_less using assms(2,3) by blast
  then have "shm_id (xs ! j) \<noteq> - 1 \<and> shm_key (xs ! j) = shm_key (xs ! i)"
    unfolding j_def get_shm_by_key_def by (rule scan_table_sat)
  then show "j = i" using assms lt unfolding shm_ok_def by blast
  show "shm_id (xs ! i) = int i" using assms unfolding shm_ok_def by blast
qed

text \<open>The start lays the segments out without overlap.\<close>

lemma length_shm_init: "length szs = length xs \<Longrightarrow> length (shm_init szs a xs) = length xs"
  by (induction szs a xs rule: shm_init.induct) simp_all

lemma shm_init_nth:
  assumes "length szs = length xs" "unat a + (\<Sum>sz \<leftarrow> szs. unat sz) < 2 ^ 32" "i < length xs"
  shows "shm_id (shm_init szs a xs ! i) = - 1 \<and> unat (shm_addr (shm_init szs a xs ! i)) = unat a + (\<Sum>sz \<leftarrow> take i szs. unat sz) \<and>
    shm_segsz (shm_init szs a xs ! i) = szs ! i"
  using assms
proof (induction szs a xs arbitrary: i rule: shm_init.induct)
  case (1 sz szs a x xs)
  have a: "unat (a + sz) = unat a + unat sz" using "1.prems"(2) by (intro unat_add_lem [THEN iffD1]) simp
  show ?case
  proof (cases i)
    case (Suc j)
    have "length szs = length xs" "unat (a + sz) + (\<Sum>sz \<leftarrow> szs. unat sz) < 2 ^ 32" "j < length xs"
      using "1.prems" Suc a by simp_all
    from "1.IH" [OF this] show ?thesis using Suc a by simp
  qed simp
qed simp_all

lemma seg_range:
  assumes "unat (shm_addr x) + unat (shm_segsz x) < 2 ^ 32" "a \<in> seg x"
  shows "unat (shm_addr x) \<le> unat a" "unat a < unat (shm_addr x) + unat (shm_segsz x)"
proof -
  define d where "d = a - shm_addr x"
  have d: "unat d < unat (shm_segsz x)" using assms(2) by (simp add: seg_def d_def word_less_nat_alt)
  have "a = shm_addr x + d" by (simp add: d_def)
  moreover have "unat (shm_addr x + d) = unat (shm_addr x) + unat d" using assms(1) d by (intro unat_add_lem [THEN iffD1]) simp
  ultimately show "unat (shm_addr x) \<le> unat a" "unat a < unat (shm_addr x) + unat (shm_segsz x)" using d by simp_all
qed

lemma sum_take_step: "i < length xs \<Longrightarrow> (\<Sum>x \<leftarrow> take i xs. f x) + f (xs ! i) = (\<Sum>x \<leftarrow> take (Suc i) xs. f x :: nat)"
  by (simp add: take_Suc_conv_app_nth)

lemma sum_take_mono: "i \<le> j \<Longrightarrow> (\<Sum>x \<leftarrow> take i xs. f x :: nat) \<le> (\<Sum>x \<leftarrow> take j xs. f x)"
  by (metis le_add1 map_append sum_list_append take_add nat_le_iff_add)

lemma shm_init_ok:
  assumes "length szs = length xs" "unat a + (\<Sum>sz \<leftarrow> szs. unat sz) < 2 ^ 32"
  shows "shm_ok (shm_init szs a xs)"
proof -
  let ?xs = "shm_init szs a xs" and ?S = "\<lambda>i. \<Sum>sz \<leftarrow> take i szs. unat sz"
  note len = length_shm_init [OF assms(1)]
  have range: "unat a + ?S i \<le> unat b \<and> unat b < unat a + ?S (Suc i)" if i: "i < length ?xs" and b: "b \<in> seg (?xs ! i)" for i b
  proof -
    note n = shm_init_nth [OF assms i [unfolded len]]
    have e: "unat (shm_addr (?xs ! i)) + unat (shm_segsz (?xs ! i)) = unat a + ?S (Suc i)"
      using n i sum_take_step [of i szs unat] assms(1) len by simp
    have "?S (Suc i) \<le> ?S (length szs)" by (rule sum_take_mono) (use i assms(1) len in simp)
    then have "unat (shm_addr (?xs ! i)) + unat (shm_segsz (?xs ! i)) < 2 ^ 32" unfolding e using assms(2) by simp
    from seg_range [OF this b] show ?thesis using n unfolding e by simp
  qed
  have apart: "seg (?xs ! i) \<inter> seg (?xs ! j) = {}" if "i < j" "j < length ?xs" for i j
  proof (rule equals0I)
    fix b
    assume "b \<in> seg (?xs ! i) \<inter> seg (?xs ! j)"
    then have "unat b < unat a + ?S (Suc i)" "unat a + ?S j \<le> unat b" using range [of i b] range [of j b] that by simp_all
    moreover have "?S (Suc i) \<le> ?S j" by (rule sum_take_mono) (use that in simp)
    ultimately show False by simp
  qed
  have "seg (?xs ! i) \<inter> seg (?xs ! j) = {}" if "i < length ?xs" "j < length ?xs" "i \<noteq> j" for i j
    using apart [of i j] apart [of j i] that by (cases "i < j") auto
  moreover have "shm_id (?xs ! i) = - 1" if "i < length ?xs" for i
    using shm_init_nth [OF assms, of i] that len by simp
  ultimately show ?thesis by (simp add: shm_ok_def)
qed

text \<open>A new segment.\<close>

lemma shmget_new:
  assumes "shm_ok (shm_heap s)" "get_shm_by_key key (shm_heap s) = length (shm_heap s)" "key \<noteq> IPC_PRIVATE" "shmflg AND IPC_CREAT \<noteq> 0"
    and "i = scan_table (\<lambda>x. shm_id x = - 1 \<and> shm_segsz x = siz) 0 (shm_heap s)" "i < length (shm_heap s)"
  shows "\<exists>s'. sys_shmget key siz shmflg s = Some (int i, s') \<and> shm_ok (shm_heap s') \<and> get_shm_by_key key (shm_heap s') = i \<and>
     length (shm_heap s') = length (shm_heap s) \<and> shm_id (shm_heap s' ! i) = int i \<and> shm_segsz (shm_heap s' ! i) = siz \<and>
     (\<forall>a \<in> seg (shm_heap s' ! i). shm_mem s' a = 0) \<and>
     (\<forall>j < length (shm_heap s). j \<noteq> i \<longrightarrow> shm_heap s' ! j = shm_heap s ! j \<and> (\<forall>a \<in> seg (shm_heap s ! j). shm_mem s' a = shm_mem s a))"
proof -
  let ?xs = "shm_heap s"
  have free: "shm_id (?xs ! i) = - 1" "shm_segsz (?xs ! i) = siz"
    using scan_table_sat [of "\<lambda>x. shm_id x = - 1 \<and> shm_segsz x = siz" ?xs] assms(5,6) by simp_all
  define x where "x = (?xs ! i)\<lparr>shm_id := int i, shm_key := key, shm_nattch := 0, shm_lpid := 255, shm_cpid := current_pid (shm_kern s)\<rparr>"
  define s' where "s' = s\<lparr>shm_heap := ?xs[i := x], shm_mem := zero_mem (shm_addr x) (shm_segsz x) (shm_mem s)\<rparr>"
  have no: "shm_id (?xs ! j) = - 1 \<or> shm_key (?xs ! j) \<noteq> key" if "j < length ?xs" for j
    using assms(2) scan_table_less [of "\<lambda>x. shm_id x \<noteq> - 1 \<and> shm_key x = key" ?xs] that unfolding get_shm_by_key_def by auto
  have ok: "shm_ok (?xs[i := x])"
    by (rule shm_ok_update [OF assms(1,6)]) (use no in \<open>auto simp: x_def\<close>)
  have sg: "seg x = seg (?xs ! i)" by (simp add: x_def seg_def)
  have "sys_shmget key siz shmflg s = Some (int i, s')"
    using assms(2-4,6) by (simp add: sys_shmget_def Let_def s'_def x_def flip: assms(5))
  moreover have "get_shm_by_key key (?xs[i := x]) = i"
    using get_shm_unique(1) [OF ok, of i] assms(6) by (simp add: x_def)
  moreover have "\<forall>a \<in> seg x. shm_mem s' a = 0" by (simp add: s'_def zero_mem_def seg_def)
  moreover have "shm_mem s' a = shm_mem s a" if j: "j < length ?xs" "j \<noteq> i" "a \<in> seg (?xs ! j)" for j a
  proof -
    have "seg (?xs ! j) \<inter> seg (?xs ! i) = {}" using assms(1,6) j(1,2) unfolding shm_ok_def by blast
    then have "a \<notin> seg x" using j(3) sg by blast
    then show ?thesis by (simp add: s'_def zero_mem_def seg_def)
  qed
  ultimately show ?thesis
    using ok assms(6) free(2) by (intro exI [of _ s']) (auto simp: s'_def x_def)
qed

section \<open>Later calls\<close>

text \<open>
  The calls on shared memory as steps. Between them the rest of the system runs: it may change the
  kernel and the contents of the memory in any way, but not the table of segments.
\<close>

datatype shm_op = Shmget u32 u32 u32 | Shmctl int u32 bool | Shmat int | Shmdt u32 | Others kernel "u32 \<Rightarrow> u8"

fun shm_step :: "shm_op \<Rightarrow> shmsys \<Rightarrow> shmsys option" where
  "shm_step (Shmget key siz flg) s = map_option snd (sys_shmget key siz flg s)"
| "shm_step (Shmctl shmid cmd buf_null) s = map_option (snd \<circ> snd) (sys_shmctl shmid cmd buf_null s)"
| "shm_step (Shmat shmid) s = map_option snd (sys_shmat shmid s)"
| "shm_step (Shmdt a) s = map_option snd (sys_shmdt a s)"
| "shm_step (Others k m) s = Some (s\<lparr>shm_kern := k, shm_mem := m\<rparr>)"

fun shm_run :: "shm_op list \<Rightarrow> shmsys \<Rightarrow> shmsys option" where
  "shm_run [] s = Some s"
| "shm_run (op # ops) s = do { s \<leftarrow> shm_step op s; shm_run ops s }"

fun removes :: "int \<Rightarrow> shm_op \<Rightarrow> bool" where
  "removes i (Shmctl shmid cmd buf_null) \<longleftrightarrow> shmid = i \<and> cmd = IPC_RMID"
| "removes i op \<longleftrightarrow> False"

text \<open>Segment \<open>i\<close> is in use under a key, at the place and with the size of \<open>x\<close>.\<close>

definition shm_held :: "u32 \<Rightarrow> nat \<Rightarrow> shm_info \<Rightarrow> shmsys \<Rightarrow> bool" where
  "shm_held key i x s \<longleftrightarrow> shm_ok (shm_heap s) \<and> i < length (shm_heap s) \<and>
     (let y = shm_heap s ! i
      in shm_id y = int i \<and> shm_key y = key \<and> shm_addr y = shm_addr x \<and> shm_segsz y = shm_segsz x)"

lemma shm_fail_heap: "shm_fail e s = Some s' \<Longrightarrow> shm_heap s' = shm_heap s \<and> shm_mem s' = shm_mem s"
  by (auto simp: shm_fail_def split: bind_splits)

lemma shm_held_cong: "shm_heap s' = shm_heap s \<Longrightarrow> shm_held key i x s' = shm_held key i x s"
  by (simp add: shm_held_def)

lemma upd_shmD:
  "upd_shm j f s = Some s' \<Longrightarrow> j < length (shm_heap s) \<and> shm_heap s' = (shm_heap s)[j := f (shm_heap s ! j)] \<and> shm_mem s' = shm_mem s"
  by (auto simp: upd_shm_def arr_get_def arr_set_def split: bind_splits if_splits)

lemma shm_held_update:
  assumes "shm_held key i x s" "upd_shm j f s = Some s'" "\<And>y. shm_addr (f y) = shm_addr y \<and> shm_segsz (f y) = shm_segsz y \<and> shm_key (f y) = shm_key y"
    and "\<And>y. shm_id (f y) = shm_id y \<or> shm_id (f y) = - 1 \<and> j \<noteq> i"
  shows "shm_held key i x s' \<and> shm_mem s' = shm_mem s"
proof -
  note u = upd_shmD [OF assms(2)]
  have ok: "shm_ok (shm_heap s)" using assms(1) by (simp add: shm_held_def)
  have "shm_ok (shm_heap s')"
    unfolding u [THEN conjunct2, THEN conjunct1]
  proof (rule shm_ok_update [OF ok])
    show "shm_id (f (shm_heap s ! j)) = - 1 \<or> shm_id (f (shm_heap s ! j)) = int j"
      using assms(4) [of "shm_heap s ! j"] ok u by (auto simp: shm_ok_def)
    show "\<forall>k < length (shm_heap s). k \<noteq> j \<and> shm_id (shm_heap s ! k) \<noteq> - 1 \<longrightarrow> shm_key (shm_heap s ! k) \<noteq> shm_key (f (shm_heap s ! j))"
      if "shm_id (f (shm_heap s ! j)) \<noteq> - 1"
      using that assms(3,4) [of "shm_heap s ! j"] ok u unfolding shm_ok_def by metis
  qed (use u assms(3) in simp_all)
  then show ?thesis
    using assms(1,3) assms(4) [of "shm_heap s ! j"] u by (cases "i = j") (auto simp: shm_held_def Let_def)
qed

lemma shm_held_get:
  assumes "shm_held key i x s" "sys_shmget k n flg s = Some (r, s')"
  shows "shm_held key i x s' \<and> (\<forall>a \<in> seg x. shm_mem s' a = shm_mem s a)"
proof (cases "shm_heap s' = shm_heap s \<and> shm_mem s' = shm_mem s")
  case True
  then show ?thesis using assms(1) shm_held_cong by metis
next
  case False
  let ?i = "scan_table (\<lambda>x. shm_id x = - 1 \<and> shm_segsz x = n) 0 (shm_heap s)"
  have h: "shm_ok (shm_heap s)" "i < length (shm_heap s)" "shm_id (shm_heap s ! i) = int i" "seg x = seg (shm_heap s ! i)"
    using assms(1) by (simp_all add: shm_held_def Let_def seg_def)
  have le: "scan_table P 0 (shm_heap s) \<le> length (shm_heap s)" for P
    unfolding scan_table_eq by (auto split: option.splits simp: find_Some_iff)
  have c: "get_shm_by_key k (shm_heap s) = length (shm_heap s)" "k \<noteq> IPC_PRIVATE" "flg AND IPC_CREAT \<noteq> 0" "?i < length (shm_heap s)"
    using assms(2) False le [of "\<lambda>x. shm_id x \<noteq> - 1 \<and> shm_key x = k"] le [of "\<lambda>x. shm_id x = - 1 \<and> shm_segsz x = n"]
    by (auto simp: sys_shmget_def get_shm_by_key_def Let_def dest!: shm_fail_heap split: if_splits bind_splits)
  have ni: "?i \<noteq> i" using scan_table_sat [OF c(4)] h(3) by auto
  from shmget_new [OF h(1) c(1-3) refl c(4)] assms(2) ni h(2)
  have "shm_ok (shm_heap s')" "length (shm_heap s') = length (shm_heap s)" "shm_heap s' ! i = shm_heap s ! i"
      "\<forall>a \<in> seg (shm_heap s ! i). shm_mem s' a = shm_mem s a"
    by auto
  then show ?thesis using assms(1) h(4) by (simp add: shm_held_def)
qed

lemma shm_held_step:
  assumes "shm_held key i x s" "shm_step op s = Some s'" "\<not> removes (int i) op"
  shows "shm_held key i x s'" "(\<nexists>k m. op = Others k m) \<Longrightarrow> \<forall>a \<in> seg x. shm_mem s' a = shm_mem s a"
proof -
  have "shm_held key i x s' \<and> ((\<nexists>k m. op = Others k m) \<longrightarrow> (\<forall>a \<in> seg x. shm_mem s' a = shm_mem s a))"
  proof (cases op)
    case (Shmget k n flg)
    then show ?thesis using assms(2) shm_held_get [OF assms(1)] by auto
  next
    case (Shmctl j cmd buf_null)
    then obtain r o' where r: "sys_shmctl j cmd buf_null s = Some (r, o', s')" using assms(2) by auto
    then have "shm_heap s' = shm_heap s \<and> shm_mem s' = shm_mem s \<or>
        cmd = IPC_RMID \<and> 0 \<le> j \<and> upd_shm (nat j) (\<lambda>x. x\<lparr>shm_id := - 1, shm_nattch := 0\<rparr>) s = Some s'"
      by (auto simp: sys_shmctl_def shm_bad_def dest!: shm_fail_heap split: if_splits bind_splits)
    then show ?thesis
    proof (elim disjE conjE)
      assume "shm_heap s' = shm_heap s" "shm_mem s' = shm_mem s"
      then show ?thesis using assms(1) shm_held_cong by metis
    next
      assume u: "cmd = IPC_RMID" "0 \<le> j" "upd_shm (nat j) (\<lambda>x. x\<lparr>shm_id := - 1, shm_nattch := 0\<rparr>) s = Some s'"
      then have "nat j \<noteq> i" using assms(3) Shmctl by auto
      then show ?thesis using shm_held_update [OF assms(1) u(3)] by simp
    qed
  next
    case (Shmat j)
    then obtain r where r: "sys_shmat j s = Some (r, s')" using assms(2) by auto
    then have "shm_heap s' = shm_heap s \<and> shm_mem s' = shm_mem s \<or>
        upd_shm (nat j) (\<lambda>x. x\<lparr>shm_nattch := shm_nattch x + 1, shm_lpid := sys_get_currentPID (shm_kern s)\<rparr>) s = Some s'"
      by (auto simp: sys_shmat_def dest!: shm_fail_heap split: if_splits bind_splits)
    then show ?thesis using shm_held_cong [of s' s] assms(1) shm_held_update [OF assms(1), of "nat j" _ s'] by auto
  next
    case (Shmdt a)
    then obtain r where r: "sys_shmdt a s = Some (r, s')" using assms(2) by auto
    then have "shm_heap s' = shm_heap s \<and> shm_mem s' = shm_mem s \<or>
        (\<exists>j. upd_shm j (\<lambda>x. x\<lparr>shm_nattch := shm_nattch x - 1\<rparr>) s = Some s')"
      by (auto simp: sys_shmdt_def Let_def dest!: shm_fail_heap split: if_splits bind_splits)
    then show ?thesis using shm_held_cong [of s' s] assms(1) shm_held_update [OF assms(1), of _ _ s'] by auto
  next
    case (Others k m)
    then show ?thesis using assms(1,2) shm_held_cong [of s' s key i x] by auto
  qed
  then show "shm_held key i x s'" "(\<nexists>k m. op = Others k m) \<Longrightarrow> \<forall>a \<in> seg x. shm_mem s' a = shm_mem s a" by blast+
qed

lemma shm_held_run:
  assumes "shm_run ops s = Some s'" "shm_held key i x s" "\<forall>op \<in> set ops. \<not> removes (int i) op"
  shows "shm_held key i x s'"
  using assms
proof (induction ops arbitrary: s)
  case (Cons op ops)
  then obtain s1 where s1: "shm_step op s = Some s1" "shm_run ops s1 = Some s'" by (auto split: bind_splits)
  have "shm_held key i x s1" by (rule shm_held_step(1) [OF Cons.prems(2) s1(1)]) (use Cons.prems(3) in simp)
  then show ?case using Cons.IH [OF s1(2)] Cons.prems(3) by simp
qed simp

lemma shm_held_found:
  assumes "shm_held key i x s"
  shows "sys_shmget key n flg s =
      (if flg AND IPC_CREAT \<noteq> 0 \<and> flg AND IPC_EXCL \<noteq> 0 then map_option (Pair (- 1)) (shm_fail EEXIST s) else Some (int i, s))"
    and "\<exists>s'. sys_shmat (int i) s = Some (shm_addr x, s') \<and> shm_mem s' = shm_mem s"
proof -
  have h: "i < length (shm_heap s)" "shm_id (shm_heap s ! i) = int i" "shm_addr (shm_heap s ! i) = shm_addr x"
      "get_shm_by_key key (shm_heap s) = i"
    using assms get_shm_unique(1) [of "shm_heap s" i] by (auto simp: shm_held_def Let_def)
  then show "sys_shmget key n flg s =
      (if flg AND IPC_CREAT \<noteq> 0 \<and> flg AND IPC_EXCL \<noteq> 0 then map_option (Pair (- 1)) (shm_fail EEXIST s) else Some (int i, s))"
    by (auto simp: sys_shmget_def map_conv_bind_option comp_def)
  show "\<exists>s'. sys_shmat (int i) s = Some (shm_addr x, s') \<and> shm_mem s' = shm_mem s"
    using h(1-3) by (auto simp: sys_shmat_def shm_bad_def upd_shm_def array_simps)
qed

section \<open>Properties\<close>

text \<open>
  Property C39: shared memory is found again under its key. With segments that do not overlap, a
  request that creates a segment returns a position of the right size, sets exactly its bytes to zero and leaves the
  other segments and their contents alone. After any sequence of further calls on shared memory, without an
  \<^verbatim>\<open>IPC_RMID\<close> of this identifier and with anything happening between them to the kernel and the contents of memory,
  a request with the key returns the same identifier and changes nothing, or returns -1 with \<^verbatim>\<open>EEXIST\<close> if it asks
  for exclusive creation; attaching by that identifier gives the address of the segment; and no call on shared memory but
  its own removal changes the bytes of the segment.
\<close>

theorem shm_found_by_key:
  assumes "shm_ok (shm_heap s)" "get_shm_by_key key (shm_heap s) = length (shm_heap s)" "key \<noteq> IPC_PRIVATE" "shmflg AND IPC_CREAT \<noteq> 0"
    and "\<exists>x \<in> set (shm_heap s). shm_id x = - 1 \<and> shm_segsz x = siz"
  shows "\<exists>i s' x. sys_shmget key siz shmflg s = Some (int i, s') \<and> shm_ok (shm_heap s') \<and> i < length (shm_heap s) \<and> x = shm_heap s' ! i \<and>
     shm_segsz x = siz \<and> (\<forall>a \<in> seg x. shm_mem s' a = 0) \<and>
     (\<forall>j < length (shm_heap s). j \<noteq> i \<longrightarrow> shm_heap s' ! j = shm_heap s ! j \<and> (\<forall>a \<in> seg (shm_heap s ! j). shm_mem s' a = shm_mem s a)) \<and>
     (\<forall>ops t. shm_run ops s' = Some t \<and> (\<forall>op \<in> set ops. \<not> removes (int i) op) \<longrightarrow>
        (\<forall>siz' flg. sys_shmget key siz' flg t =
           (if flg AND IPC_CREAT \<noteq> 0 \<and> flg AND IPC_EXCL \<noteq> 0 then map_option (Pair (- 1)) (shm_fail EEXIST t) else Some (int i, t))) \<and>
        (\<exists>t'. sys_shmat (int i) t = Some (shm_addr x, t') \<and> shm_mem t' = shm_mem t) \<and>
        (\<forall>op t'. shm_step op t = Some t' \<and> \<not> removes (int i) op \<and> (\<nexists>k m. op = Others k m) \<longrightarrow>
           (\<forall>a \<in> seg x. shm_mem t' a = shm_mem t a)))"
proof -
  define i where "i = scan_table (\<lambda>x. shm_id x = - 1 \<and> shm_segsz x = siz) 0 (shm_heap s)"
  have i: "i < length (shm_heap s)" unfolding i_def scan_table_less using assms(5) by (auto simp: in_set_conv_nth)
  obtain s' where s': "sys_shmget key siz shmflg s = Some (int i, s')" "shm_ok (shm_heap s')" "get_shm_by_key key (shm_heap s') = i"
      "length (shm_heap s') = length (shm_heap s)" "shm_id (shm_heap s' ! i) = int i" "shm_segsz (shm_heap s' ! i) = siz"
      "\<forall>a \<in> seg (shm_heap s' ! i). shm_mem s' a = 0"
      "\<forall>j < length (shm_heap s). j \<noteq> i \<longrightarrow> shm_heap s' ! j = shm_heap s ! j \<and> (\<forall>a \<in> seg (shm_heap s ! j). shm_mem s' a = shm_mem s a)"
    using shmget_new [OF assms(1-4) i_def i] by blast
  have "shm_key (shm_heap s' ! i) = key"
    using s'(3,4) i scan_table_sat [of "\<lambda>x. shm_id x \<noteq> - 1 \<and> shm_key x = key" "shm_heap s'"] by (simp add: get_shm_by_key_def)
  then have held: "shm_held key i (shm_heap s' ! i) s'" using s'(2,4,5) i by (simp add: shm_held_def Let_def)
  let ?x = "shm_heap s' ! i"
  have "(\<forall>siz' flg. sys_shmget key siz' flg t =
           (if flg AND IPC_CREAT \<noteq> 0 \<and> flg AND IPC_EXCL \<noteq> 0 then map_option (Pair (- 1)) (shm_fail EEXIST t) else Some (int i, t))) \<and>
        (\<exists>t'. sys_shmat (int i) t = Some (shm_addr ?x, t') \<and> shm_mem t' = shm_mem t) \<and>
        (\<forall>op t'. shm_step op t = Some t' \<and> \<not> removes (int i) op \<and> (\<nexists>k m. op = Others k m) \<longrightarrow>
           (\<forall>a \<in> seg ?x. shm_mem t' a = shm_mem t a))"
    if "shm_run ops s' = Some t \<and> (\<forall>op \<in> set ops. \<not> removes (int i) op)" for ops t
  proof -
    have h: "shm_held key i ?x t" using shm_held_run [OF _ held] that by blast
    show ?thesis
      by (intro conjI allI impI shm_held_found [OF h] shm_held_step(2) [OF h]) (elim conjE; assumption)+
  qed
  then have "\<forall>ops t. shm_run ops s' = Some t \<and> (\<forall>op \<in> set ops. \<not> removes (int i) op) \<longrightarrow>
        (\<forall>siz' flg. sys_shmget key siz' flg t =
           (if flg AND IPC_CREAT \<noteq> 0 \<and> flg AND IPC_EXCL \<noteq> 0 then map_option (Pair (- 1)) (shm_fail EEXIST t) else Some (int i, t))) \<and>
        (\<exists>t'. sys_shmat (int i) t = Some (shm_addr ?x, t') \<and> shm_mem t' = shm_mem t) \<and>
        (\<forall>op t'. shm_step op t = Some t' \<and> \<not> removes (int i) op \<and> (\<nexists>k m. op = Others k m) \<longrightarrow>
           (\<forall>a \<in> seg ?x. shm_mem t' a = shm_mem t a))"
    by (intro allI impI)
  from s'(1,2) i refl [of ?x] s'(6-8) this show ?thesis by (intro exI [of _ i] exI [of _ s'] exI [of _ ?x] conjI)
qed

definition demo_shm :: shmsys where
  "demo_shm = \<lparr>shm_kern = demo_memory,
     shm_heap = shm_init [100, 8] 4096
       (replicate 2 \<lparr>shm_segsz = 0, shm_lpid = 0, shm_cpid = 0, shm_nattch = 0, shm_addr = 0, shm_id = 0, shm_key = 0\<rparr>),
     shm_mem = (\<lambda>_. 7)\<rparr>"

theorem shm_found_by_key_witness:
  "\<exists>s' t. sys_shmget 5 8 IPC_CREAT demo_shm = Some (1, s') \<and> shm_mem s' 4196 = 0 \<and>
     shm_run [Shmat 1, Others demo_memory (\<lambda>a. 9), Shmget 6 100 IPC_CREAT, Shmctl 0 IPC_RMID True] s' = Some t \<and>
     sys_shmget 5 0 0 t = Some (1, t) \<and> shm_mem t 4196 = 9"
proof -
  define ops where "ops = [Shmat 1, Others demo_memory (\<lambda>a. 9), Shmget 6 100 IPC_CREAT, Shmctl 0 IPC_RMID True]"
  have ok: "shm_ok (shm_heap demo_shm)" unfolding demo_shm_def shmsys.select_convs by (rule shm_init_ok) simp_all
  have k: "get_shm_by_key 5 (shm_heap demo_shm) = length (shm_heap demo_shm)" "5 \<noteq> IPC_PRIVATE" "IPC_CREAT AND IPC_CREAT \<noteq> 0"
      "\<exists>x \<in> set (shm_heap demo_shm). shm_id x = - 1 \<and> shm_segsz x = 8"
    by code_simp+
  have val: "case sys_shmget 5 8 IPC_CREAT demo_shm of None \<Rightarrow> False
     | Some (v, s') \<Rightarrow> v = 1 \<and> shm_mem s' 4196 = 0 \<and>
         (case shm_run [Shmat 1, Others demo_memory (\<lambda>a. 9), Shmget 6 100 IPC_CREAT, Shmctl 0 IPC_RMID True] s' of None \<Rightarrow> False
          | Some t \<Rightarrow> shm_mem t 4196 = 9)"
    by code_simp
  obtain i s' where r: "sys_shmget 5 8 IPC_CREAT demo_shm = Some (int i, s')"
      "\<forall>ops t. shm_run ops s' = Some t \<and> (\<forall>op \<in> set ops. \<not> removes (int i) op) \<longrightarrow>
        (\<forall>siz' flg. sys_shmget 5 siz' flg t =
           (if flg AND IPC_CREAT \<noteq> 0 \<and> flg AND IPC_EXCL \<noteq> 0 then map_option (Pair (- 1)) (shm_fail EEXIST t) else Some (int i, t)))"
    using shm_found_by_key [OF ok k] by fast
  obtain t where t: "int i = 1" "shm_mem s' 4196 = 0" "shm_run ops s' = Some t" "shm_mem t 4196 = 9"
    using val r(1) unfolding ops_def [symmetric] by (auto split: option.splits)
  have "\<forall>op \<in> set ops. \<not> removes (int i) op" using t(1) by (simp add: ops_def)
  with r(2) [rule_format, of ops t 0 0] t(1,3) have "sys_shmget 5 0 0 t = Some (1, t)" by simp
  then show ?thesis using r(1) t unfolding ops_def [symmetric] by auto
qed

end
