(* ===== verification/Kern_Mem.thy ===== *)
theory Kern_Mem
  imports Kern_Queue
begin

text \<open>
  Block memory of the kernel, \<^verbatim>\<open>src/bsp/xilkernel_v4_00_a/src/src/sys/bufmalloc.c\<close>, with the start-up
  of the static pools in \<^verbatim>\<open>mem.c\<close>. A pool is an array of equal blocks; the free blocks are a list
  linked through their first words. Memory is a function from addresses to pointer cells: blocks
  are at least a pointer long, so the cells the allocator uses do not overlap. The number of pools
  \<^verbatim>\<open>N_MBUFS\<close> is configured; here it is the length of the table. The null pointer is address 0.
  \<open>None\<close> is an access outside the table or a division by zero.
\<close>

section \<open>Data\<close>

record membuf_info =
  mb_active :: bool
  memptr :: u32
  limit :: u32
  freep :: u32
  nblks :: int
  nfree :: int
  blksiz :: u32

record bufmem =
  mbufheap :: "membuf_info list"
  bm_mem :: "u32 \<Rightarrow> u32"
  bm_errno :: "errno option"

definition MEMBUF_ANY :: int where "MEMBUF_ANY = - 1"

definition MEM_TO_BLK :: "membuf_info \<Rightarrow> u32 \<Rightarrow> u32 option" where
  "MEM_TO_BLK p a = (if blksiz p = 0 then None else Some ((a - memptr p) div blksiz p))"

definition MEM_WITHIN_BUF :: "membuf_info \<Rightarrow> u32 \<Rightarrow> bool" where
  "MEM_WITHIN_BUF p a \<longleftrightarrow> memptr p \<le> a \<and> a < limit p"

section \<open>Operations\<close>

definition get_mbufblk :: "membuf_info \<Rightarrow> (u32 \<Rightarrow> u32) \<Rightarrow> u32 \<times> membuf_info" where
  "get_mbufblk p m =
     (if nfree p = 0 then (0, p)
      else (let ret = freep p in (ret, p\<lparr>freep := m ret, nfree := nfree p - 1\<rparr>)))"

text \<open>The loop that links the blocks of a new pool.\<close>

fun link_blocks :: "u32 \<Rightarrow> u32 \<Rightarrow> nat \<Rightarrow> (u32 \<Rightarrow> u32) \<Rightarrow> u32 \<Rightarrow> u32" where
  "link_blocks siz cur 0 m = m(cur := 0)"
| "link_blocks siz cur (Suc n) m = link_blocks siz (cur + siz) n (m(cur := cur + siz))"

text \<open>The result is the return value and the identifier stored through \<^verbatim>\<open>mbuf\<close>, if any.\<close>

definition sys_bufcreate :: "bool \<Rightarrow> u32 \<Rightarrow> int \<Rightarrow> u32 \<Rightarrow> bufmem \<Rightarrow> int \<times> int option \<times> bufmem" where
  "sys_bufcreate mbuf_null mp n siz s =
     (if mbuf_null \<or> mp = 0 \<or> n \<le> 0 \<or> siz < 4 then (- 1, None, s\<lparr>bm_errno := Some EINVAL\<rparr>)
      else
        (let i = scan_table (\<lambda>p. \<not> mb_active p) 0 (mbufheap s)
         in if i = length (mbufheap s) then (- 1, None, s\<lparr>bm_errno := Some EAGAIN\<rparr>)
            else
              (let p = (mbufheap s ! i)\<lparr>mb_active := True, memptr := mp, nblks := n, blksiz := siz, nfree := n,
                                       freep := mp, limit := mp + of_int n * siz\<rparr>
               in (0, Some (int i),
                   s\<lparr>mbufheap := (mbufheap s)[i := p], bm_mem := link_blocks siz mp (nat (n - 1)) (bm_mem s)\<rparr>))))"

definition sys_bufdestroy :: "int \<Rightarrow> bufmem \<Rightarrow> int \<times> bufmem" where
  "sys_bufdestroy mbuf s =
     (if 0 \<le> mbuf \<and> mbuf < int (length (mbufheap s)) then
        (0, s\<lparr>mbufheap := (mbufheap s)[nat mbuf := (mbufheap s ! nat mbuf)\<lparr>mb_active := False\<rparr>]\<rparr>)
      else (- 1, s\<lparr>bm_errno := Some EINVAL\<rparr>))"

text \<open>The loop of \<^verbatim>\<open>sys_bufmalloc\<close> over all pools.\<close>

fun malloc_any :: "u32 \<Rightarrow> (u32 \<Rightarrow> u32) \<Rightarrow> membuf_info list \<Rightarrow> u32 \<times> membuf_info list" where
  "malloc_any siz m [] = (0, [])"
| "malloc_any siz m (p # ps) =
     (if mb_active p \<and> siz \<le> blksiz p then
        (let (ret, p') = get_mbufblk p m
         in if ret \<noteq> 0 then (ret, p' # ps) else (let (ret, ps') = malloc_any siz m ps in (ret, p' # ps')))
      else (let (ret, ps') = malloc_any siz m ps in (ret, p # ps')))"

definition sys_bufmalloc :: "int \<Rightarrow> u32 \<Rightarrow> bufmem \<Rightarrow> (u32 \<times> bufmem) option" where
  "sys_bufmalloc mbuf siz s =
     (if mbuf \<noteq> MEMBUF_ANY \<and> (mbuf < 0 \<or> mbuf > int (length (mbufheap s))) then Some (0, s)
      else if mbuf = MEMBUF_ANY then
        (let (ret, ps) = malloc_any siz (bm_mem s) (mbufheap s)
         in Some (ret, s\<lparr>mbufheap := ps, bm_errno := if ret = 0 then Some EAGAIN else bm_errno s\<rparr>))
      else
        do { p \<leftarrow> arr_get (mbufheap s) (nat mbuf);
             if \<not> mb_active p then Some (0, s\<lparr>bm_errno := Some EINVAL\<rparr>)
             else
               (let (ret, p') = get_mbufblk p (bm_mem s)
                in do { ps \<leftarrow> arr_set (mbufheap s) (nat mbuf) p';
                        Some (ret, s\<lparr>mbufheap := ps, bm_errno := if ret = 0 then Some EAGAIN else bm_errno s\<rparr>) }) })"

definition sys_buffree :: "int \<Rightarrow> u32 \<Rightarrow> bufmem \<Rightarrow> bufmem option" where
  "sys_buffree mbuf a s =
     (if mbuf \<noteq> MEMBUF_ANY \<and> (mbuf < 0 \<or> mbuf > int (length (mbufheap s))) then Some s
      else
        (let i = (if mbuf = MEMBUF_ANY then scan_table (\<lambda>p. mb_active p \<and> MEM_WITHIN_BUF p a) 0 (mbufheap s)
                  else nat mbuf)
         in if mbuf = MEMBUF_ANY \<and> i = length (mbufheap s) then Some s
            else
              do { p \<leftarrow> arr_get (mbufheap s) i;
                   blk \<leftarrow> MEM_TO_BLK p a;
                   if sint blk < 0 \<or> sint blk > nblks p then Some s
                   else
                     (let newblk = memptr p + blksiz p * blk
                      in do { ps \<leftarrow> arr_set (mbufheap s) i (p\<lparr>freep := newblk, nfree := nfree p + 1\<rparr>);
                              Some (s\<lparr>mbufheap := ps, bm_mem := (bm_mem s)(newblk := freep p)\<rparr>) }) }))"

text \<open>
  Start-up: the descriptors are cleared and the configured pools cut out of one array. The
  identifiers are those stored in \<^verbatim>\<open>smbufs\<close>.
\<close>

fun bufmalloc_mem_init :: "(u32 \<times> int) list \<Rightarrow> u32 \<Rightarrow> bufmem \<Rightarrow> int list \<times> bufmem" where
  "bufmalloc_mem_init [] ptr s = ([], s)"
| "bufmalloc_mem_init ((bsiz, n) # cfg) ptr s =
     (let bufsiz = bsiz * of_int n
      in case sys_bufcreate False ptr n bsiz s of
           (_, None, s) \<Rightarrow> ([], s)
         | (_, Some i, s) \<Rightarrow> (let (is, s) = bufmalloc_mem_init cfg (ptr + bufsiz) s in (i # is, s)))"

definition bufmalloc_init :: "(u32 \<times> int) list \<Rightarrow> u32 \<Rightarrow> bufmem \<Rightarrow> int list \<times> bufmem" where
  "bufmalloc_init cfg mem s =
     bufmalloc_mem_init cfg mem (s\<lparr>mbufheap := map (\<lambda>p. p\<lparr>mb_active := False\<rparr>) (mbufheap s)\<rparr>)"

section \<open>Pools\<close>

text \<open>The free list in memory: the blocks linked from an address.\<close>

fun chain :: "(u32 \<Rightarrow> u32) \<Rightarrow> u32 \<Rightarrow> u32 list \<Rightarrow> bool" where
  "chain m a [] \<longleftrightarrow> a = 0"
| "chain m a (b # bs) \<longleftrightarrow> a = b \<and> chain m (m b) bs"

definition block :: "membuf_info \<Rightarrow> nat \<Rightarrow> u32" where
  "block p i = memptr p + blksiz p * of_nat i"

definition blocks :: "membuf_info \<Rightarrow> u32 set" where
  "blocks p = block p ` {..<nat (nblks p)}"

text \<open>A pool that does not wrap around the address space.\<close>

definition pool_fits :: "membuf_info \<Rightarrow> bool" where
  "pool_fits p \<longleftrightarrow>
     memptr p \<noteq> 0 \<and> 0 < nblks p \<and> 4 \<le> unat (blksiz p) \<and> unat (memptr p) + nat (nblks p) * unat (blksiz p) < 2 ^ 32 \<and>
     limit p = memptr p + of_int (nblks p) * blksiz p"

definition pool_ok :: "(u32 \<Rightarrow> u32) \<Rightarrow> membuf_info \<Rightarrow> u32 list \<Rightarrow> bool" where
  "pool_ok m p fs \<longleftrightarrow>
     pool_fits p \<and> chain m (freep p) fs \<and> distinct fs \<and> set fs \<subseteq> blocks p \<and> nfree p = int (length fs)"

lemma chain_frame: "(\<And>b. b \<in> set bs \<Longrightarrow> m' b = m b) \<Longrightarrow> chain m' a bs = chain m a bs"
  by (induction bs arbitrary: a) auto

lemma unat_block:
  assumes "pool_fits p" "i \<le> nat (nblks p)"
  shows "unat (block p i) = unat (memptr p) + i * unat (blksiz p)"
proof -
  have le: "unat (memptr p) + i * unat (blksiz p) < 2 ^ 32"
    using assms(1) [unfolded pool_fits_def] mult_le_mono1 [OF assms(2), of "unat (blksiz p)"] by linarith
  have "block p i = of_nat (unat (memptr p) + i * unat (blksiz p))" by (simp add: block_def mult.commute)
  then show ?thesis using le by (simp add: unat_of_nat_eq_small del: of_nat_add of_nat_mult)
qed

lemma block_inj:
  assumes "pool_fits p" "i < nat (nblks p)" "j < nat (nblks p)" "block p i = block p j"
  shows "i = j"
proof -
  have "unat (memptr p) + i * unat (blksiz p) = unat (memptr p) + j * unat (blksiz p)"
    using assms by (metis unat_block less_imp_le)
  then show ?thesis using assms(1) by (simp add: pool_fits_def)
qed

lemma block_not_null: "pool_fits p \<Longrightarrow> b \<in> blocks p \<Longrightarrow> b \<noteq> 0"
proof -
  assume p: "pool_fits p" "b \<in> blocks p"
  then obtain i where i: "i < nat (nblks p)" "b = block p i" by (auto simp: blocks_def)
  have "0 < unat (memptr p)" using p(1) by (simp add: pool_fits_def unat_gt_0)
  then have "unat b \<noteq> 0" using unat_block [OF p(1), of i] i by simp
  then show "b \<noteq> 0" by auto
qed

lemma unat_limit: "pool_fits p \<Longrightarrow> unat (limit p) = unat (memptr p) + nat (nblks p) * unat (blksiz p)"
proof -
  assume p: "pool_fits p"
  have "limit p = block p (nat (nblks p))" using p by (simp add: pool_fits_def block_def mult.commute)
  then show ?thesis using unat_block [OF p order_refl] by simp
qed

lemma block_range:
  assumes "pool_fits p" "i < nat (nblks p)" "unat (block p i) \<le> unat a" "unat a < unat (block p i) + unat (blksiz p)"
  shows "MEM_WITHIN_BUF p a" "(a - memptr p) div blksiz p = of_nat i"
proof -
  have f: "unat (block p i) = unat (memptr p) + i * unat (blksiz p)" using unat_block assms(1,2) by simp
  have "Suc i * unat (blksiz p) \<le> nat (nblks p) * unat (blksiz p)" using assms(2) by (intro mult_le_mono1) simp
  then have "unat a < unat (limit p)" using assms(4) f unat_limit [OF assms(1)] by simp
  then show "MEM_WITHIN_BUF p a" using assms(3) f by (simp add: MEM_WITHIN_BUF_def word_le_nat_alt word_less_nat_alt)
  have "unat (a - memptr p) = unat a - unat (memptr p)" using assms(3) f by (intro unat_sub) (simp add: word_le_nat_alt)
  then have k: "unat (a - memptr p) = i * unat (blksiz p) + (unat a - unat (block p i))" using assms(3) f by simp
  have "unat a - unat (block p i) < unat (blksiz p)" using assms(3,4) by simp
  then have "unat (a - memptr p) div unat (blksiz p) = i" using k by (simp add: div_mult_self3)
  then show "(a - memptr p) div blksiz p = of_nat i" by (metis of_nat_unat ucast_id unat_div)
qed

lemma get_mbufblk_ok:
  assumes "pool_ok m p fs"
  shows "fs = [] \<Longrightarrow> get_mbufblk p m = (0, p)"
    and "fs = b # bs \<Longrightarrow> b \<noteq> 0 \<and> fst (get_mbufblk p m) = b \<and> pool_ok m (snd (get_mbufblk p m)) bs \<and>
       memptr (snd (get_mbufblk p m)) = memptr p \<and> limit (snd (get_mbufblk p m)) = limit p \<and>
       blksiz (snd (get_mbufblk p m)) = blksiz p \<and> nblks (snd (get_mbufblk p m)) = nblks p \<and>
       mb_active (snd (get_mbufblk p m)) = mb_active p"
proof -
  show "fs = [] \<Longrightarrow> get_mbufblk p m = (0, p)" using assms by (simp add: get_mbufblk_def pool_ok_def)
  assume fs: "fs = b # bs"
  then have "b \<noteq> 0" using assms block_not_null [of p b] by (simp add: pool_ok_def)
  then show "b \<noteq> 0 \<and> fst (get_mbufblk p m) = b \<and> pool_ok m (snd (get_mbufblk p m)) bs \<and>
       memptr (snd (get_mbufblk p m)) = memptr p \<and> limit (snd (get_mbufblk p m)) = limit p \<and>
       blksiz (snd (get_mbufblk p m)) = blksiz p \<and> nblks (snd (get_mbufblk p m)) = nblks p \<and>
       mb_active (snd (get_mbufblk p m)) = mb_active p"
    using assms fs by (simp add: get_mbufblk_def pool_ok_def pool_fits_def blocks_def block_def)
qed

section \<open>All pools\<close>

text \<open>
  The whole allocator: \<open>F i\<close> is the free list of pool \<open>i\<close>; active pools do not overlap.
\<close>

definition apart :: "membuf_info \<Rightarrow> membuf_info \<Rightarrow> bool" where
  "apart p q \<longleftrightarrow> limit p \<le> memptr q \<or> limit q \<le> memptr p"

definition bm_ok :: "bufmem \<Rightarrow> (nat \<Rightarrow> u32 list) \<Rightarrow> bool" where
  "bm_ok s F \<longleftrightarrow>
     (\<forall>i < length (mbufheap s). mb_active (mbufheap s ! i) \<longrightarrow> pool_ok (bm_mem s) (mbufheap s ! i) (F i)) \<and>
     (\<forall>i < length (mbufheap s). \<forall>j < length (mbufheap s). i \<noteq> j \<and> mb_active (mbufheap s ! i) \<and> mb_active (mbufheap s ! j) \<longrightarrow>
        apart (mbufheap s ! i) (mbufheap s ! j))"

definition serves :: "u32 \<Rightarrow> membuf_info \<Rightarrow> u32 list \<Rightarrow> bool" where
  "serves siz p fs \<longleftrightarrow> mb_active p \<and> siz \<le> blksiz p \<and> fs \<noteq> []"

lemma malloc_any_eq:
  assumes "\<forall>i < length ps. mb_active (ps ! i) \<longrightarrow> pool_ok m (ps ! i) (F i)"
  shows "((\<forall>i < length ps. \<not> serves siz (ps ! i) (F i)) \<and> malloc_any siz m ps = (0, ps)) \<or>
     (\<exists>i < length ps. serves siz (ps ! i) (F i) \<and> (\<forall>j < i. \<not> serves siz (ps ! j) (F j)) \<and>
        malloc_any siz m ps = (hd (F i), ps[i := snd (get_mbufblk (ps ! i) m)]))"
  using assms
proof (induction ps arbitrary: F)
  case Nil
  then show ?case by simp
next
  case (Cons p ps)
  have all: "(\<forall>i < Suc n. P i) \<longleftrightarrow> P 0 \<and> (\<forall>i < n. P (Suc i))" for P n by (auto simp: less_Suc_eq_0_disj)
  have ex: "(\<exists>i < Suc n. P i) \<longleftrightarrow> P 0 \<or> (\<exists>i < n. P (Suc i))" for P n by (auto simp: less_Suc_eq_0_disj)
  have ok: "mb_active p \<longrightarrow> pool_ok m p (F 0)" "\<forall>i < length ps. mb_active (ps ! i) \<longrightarrow> pool_ok m (ps ! i) (F (Suc i))"
    using Cons.prems by auto
  show ?case
  proof (cases "serves siz p (F 0)")
    case True
    then obtain b bs where b: "F 0 = b # bs" "mb_active p" "siz \<le> blksiz p" by (auto simp: serves_def neq_Nil_conv)
    have "b \<noteq> 0" "fst (get_mbufblk p m) = b" using get_mbufblk_ok(2) [of m p "F 0" b bs] ok(1) b by simp_all
    then have "malloc_any siz m (p # ps) = (hd (F 0), (p # ps)[0 := snd (get_mbufblk p m)])"
      using b by (cases "get_mbufblk p m") simp
    then show ?thesis using True by (intro disjI2 exI [of _ 0]) simp
  next
    case False
    have "malloc_any siz m (p # ps) = (fst (malloc_any siz m ps), p # snd (malloc_any siz m ps))"
      using False get_mbufblk_ok(1) [of m p "F 0"] ok(1) by (auto simp: serves_def split: prod.splits)
    then show ?thesis
      using Cons.IH [of "\<lambda>i. F (Suc i)"] ok(2) False unfolding list.size all ex add_0_right add_Suc_right
      by auto
  qed
qed

text \<open>The blocks of a pool lie in its range, so those of different pools are different.\<close>

lemma blocks_range:
  assumes "pool_fits p" "b \<in> blocks p"
  shows "memptr p \<le> b" "b < limit p"
proof -
  obtain i where i: "i < nat (nblks p)" "b = block p i" using assms(2) by (auto simp: blocks_def)
  have "0 < unat (blksiz p)" using assms(1) by (simp add: pool_fits_def)
  then have "MEM_WITHIN_BUF p b" using block_range(1) [OF assms(1) i(1), of b] i(2) by simp
  then show "memptr p \<le> b" "b < limit p" by (simp_all add: MEM_WITHIN_BUF_def)
qed

lemma apart_not_both: "apart p q \<Longrightarrow> memptr p \<le> a \<Longrightarrow> a < limit p \<Longrightarrow> memptr q \<le> a \<Longrightarrow> a < limit q \<Longrightarrow> False"
  by (auto simp: apart_def)

lemma bm_ok_update:
  assumes "bm_ok s F" "i < length (mbufheap s)" "mb_active (mbufheap s ! i)" "pool_ok m' p' fs"
    and "mb_active p'" "memptr p' = memptr (mbufheap s ! i)" "limit p' = limit (mbufheap s ! i)"
    and "\<And>a. a < memptr p' \<or> limit p' \<le> a \<Longrightarrow> m' a = bm_mem s a"
  shows "bm_ok (s\<lparr>mbufheap := (mbufheap s)[i := p'], bm_mem := m', bm_errno := e\<rparr>) (F(i := fs))"
proof -
  note ok = assms(1) [unfolded bm_ok_def]
  have "pool_ok m' (mbufheap s ! j) (F j)"
    if j: "j < length (mbufheap s)" "mb_active (mbufheap s ! j)" "j \<noteq> i" for j
  proof -
    have pj: "pool_ok (bm_mem s) (mbufheap s ! j) (F j)" using ok j by blast
    have ap: "apart (mbufheap s ! i) (mbufheap s ! j)" using ok j assms(2,3) by blast
    have "m' b = bm_mem s b" if "b \<in> set (F j)" for b
    proof (rule assms(8))
      have "b \<in> blocks (mbufheap s ! j)" "pool_fits (mbufheap s ! j)" using pj that by (auto simp: pool_ok_def)
      from blocks_range [OF this(2,1)] show "b < memptr p' \<or> limit p' \<le> b"
        using apart_not_both [OF ap, of b] assms(6,7) by (metis not_le)
    qed
    then show ?thesis using pj chain_frame [of "F j" m' "bm_mem s"] by (simp add: pool_ok_def)
  qed
  moreover have "apart (mbufheap s ! i) = apart p'" "\<And>q. apart q (mbufheap s ! i) = apart q p'"
    using assms(6,7) by (auto simp: apart_def fun_eq_iff)
  ultimately show ?thesis
    using ok assms(2-5) by (auto simp: bm_ok_def nth_list_update) metis+
qed

text \<open>
  The pool that serves a request: with \<^verbatim>\<open>MEMBUF_ANY\<close> the first active one with a free block that is
  large enough, else the one named, whatever the size of its blocks.
\<close>

definition served_by :: "int \<Rightarrow> u32 \<Rightarrow> bufmem \<Rightarrow> (nat \<Rightarrow> u32 list) \<Rightarrow> nat \<Rightarrow> bool" where
  "served_by mbuf siz s F i \<longleftrightarrow> i < length (mbufheap s) \<and>
     (if mbuf = MEMBUF_ANY
      then serves siz (mbufheap s ! i) (F i) \<and> (\<forall>j < i. \<not> serves siz (mbufheap s ! j) (F j))
      else int i = mbuf \<and> mb_active (mbufheap s ! i) \<and> F i \<noteq> [])"

lemma bm_take:
  assumes "bm_ok s F" "i < length (mbufheap s)" "mb_active (mbufheap s ! i)" "F i = b # bs"
  defines "s' \<equiv> s\<lparr>mbufheap := (mbufheap s)[i := snd (get_mbufblk (mbufheap s ! i) (bm_mem s))]\<rparr>"
  shows "b \<noteq> 0" "fst (get_mbufblk (mbufheap s ! i) (bm_mem s)) = b" "bm_ok s' (F(i := bs))"
proof -
  have pool: "pool_ok (bm_mem s) (mbufheap s ! i) (b # bs)" using assms(1-4) by (auto simp: bm_ok_def)
  define p' where "p' = snd (get_mbufblk (mbufheap s ! i) (bm_mem s))"
  have p': "b \<noteq> 0" "pool_ok (bm_mem s) p' bs" "memptr p' = memptr (mbufheap s ! i)" "limit p' = limit (mbufheap s ! i)"
      "mb_active p'" "fst (get_mbufblk (mbufheap s ! i) (bm_mem s)) = b"
    using get_mbufblk_ok(2) [OF pool refl] assms(3) by (simp_all add: p'_def)
  have "bm_ok (s\<lparr>mbufheap := (mbufheap s)[i := p'], bm_mem := bm_mem s, bm_errno := bm_errno s\<rparr>) (F(i := bs))"
    by (rule bm_ok_update [OF assms(1-3) p'(2,5,3,4)]) simp
  with p'(1,6) show "b \<noteq> 0" "fst (get_mbufblk (mbufheap s ! i) (bm_mem s)) = b" "bm_ok s' (F(i := bs))"
    by (simp_all add: s'_def p'_def)
qed

lemma bm_malloc_served:
  assumes "bm_ok s F" "served_by mbuf siz s F i" "F i = b # bs"
  shows "b \<noteq> 0 \<and> (\<exists>s'. sys_bufmalloc mbuf siz s = Some (b, s') \<and> bm_ok s' (F(i := bs)) \<and>
     bm_mem s' = bm_mem s \<and> bm_errno s' = bm_errno s)"
proof -
  have ok: "\<forall>i < length (mbufheap s). mb_active (mbufheap s ! i) \<longrightarrow> pool_ok (bm_mem s) (mbufheap s ! i) (F i)"
    using assms(1) by (simp add: bm_ok_def)
  have i: "i < length (mbufheap s)" "mb_active (mbufheap s ! i)"
    using assms(2) by (auto simp: served_by_def serves_def split: if_splits)
  note tk = bm_take [OF assms(1) i assms(3)]
  define s' where "s' = s\<lparr>mbufheap := (mbufheap s)[i := snd (get_mbufblk (mbufheap s ! i) (bm_mem s))]\<rparr>"
  have "sys_bufmalloc mbuf siz s = Some (b, s')"
  proof (cases "mbuf = MEMBUF_ANY")
    case True
    then have sv: "serves siz (mbufheap s ! i) (F i)" "\<forall>j < i. \<not> serves siz (mbufheap s ! j) (F j)"
      using assms(2) by (simp_all add: served_by_def)
    from malloc_any_eq [OF ok, of siz] sv i(1)
    have "malloc_any siz (bm_mem s) (mbufheap s) =
        (hd (F i), (mbufheap s)[i := snd (get_mbufblk (mbufheap s ! i) (bm_mem s))])"
      by (metis linorder_neqE_nat)
    then show ?thesis using True assms(3) tk(1) by (simp add: sys_bufmalloc_def s'_def)
  next
    case False
    then have "mbuf = int i" using assms(2) by (simp add: served_by_def)
    then show ?thesis
      using i tk(1,2) False by (simp add: sys_bufmalloc_def array_simps case_prod_beta s'_def)
  qed
  with tk(1,3) show ?thesis by (auto simp: s'_def)
qed

lemma bm_malloc_refused:
  assumes "bm_ok s F" "\<nexists>i. served_by mbuf siz s F i"
    and "mbuf = MEMBUF_ANY \<or> 0 \<le> mbuf \<and> mbuf < int (length (mbufheap s))"
  shows "sys_bufmalloc mbuf siz s = Some (0, s\<lparr>bm_errno :=
     Some (if mbuf = MEMBUF_ANY \<or> mb_active (mbufheap s ! nat mbuf) then EAGAIN else EINVAL)\<rparr>)"
proof -
  have ok: "\<forall>i < length (mbufheap s). mb_active (mbufheap s ! i) \<longrightarrow> pool_ok (bm_mem s) (mbufheap s ! i) (F i)"
    using assms(1) by (simp add: bm_ok_def)
  show ?thesis
  proof (cases "mbuf = MEMBUF_ANY")
    case True
    then have "\<nexists>i. i < length (mbufheap s) \<and> serves siz (mbufheap s ! i) (F i) \<and>
        (\<forall>j < i. \<not> serves siz (mbufheap s ! j) (F j))"
      using assms(2) by (simp add: served_by_def)
    with malloc_any_eq [OF ok, of siz] have "malloc_any siz (bm_mem s) (mbufheap s) = (0, mbufheap s)" by blast
    then show ?thesis using True by (simp add: sys_bufmalloc_def)
  next
    case False
    then obtain i where i: "mbuf = int i" "i < length (mbufheap s)"
      using assms(3) by (metis int_nat_eq nat_less_iff)
    have "F i = []" if "mb_active (mbufheap s ! i)"
      using assms(2) that i False unfolding served_by_def by (metis (full_types))
    moreover have "get_mbufblk (mbufheap s ! i) (bm_mem s) = (0, mbufheap s ! i)"
      if "mb_active (mbufheap s ! i)" "F i = []"
      using get_mbufblk_ok(1) ok i(2) that by blast
    ultimately show ?thesis using i False by (simp add: sys_bufmalloc_def array_simps)
  qed
qed

lemma bm_malloc_any:
  assumes "bm_ok s F"
  shows "\<exists>ret s'. sys_bufmalloc MEMBUF_ANY siz s = Some (ret, s') \<and>
     (if ret = 0 then (\<forall>i < length (mbufheap s). \<not> serves siz (mbufheap s ! i) (F i)) \<and>
         mbufheap s' = mbufheap s \<and> bm_mem s' = bm_mem s \<and> bm_errno s' = Some EAGAIN
      else \<exists>i fs. i < length (mbufheap s) \<and> serves siz (mbufheap s ! i) (F i) \<and> F i = ret # fs \<and> bm_ok s' (F(i := fs)))"
proof (cases "\<exists>i. served_by MEMBUF_ANY siz s F i")
  case True
  then obtain i b bs where i: "served_by MEMBUF_ANY siz s F i" "F i = b # bs"
    by (auto simp: served_by_def serves_def neq_Nil_conv)
  obtain s' where s': "sys_bufmalloc MEMBUF_ANY siz s = Some (b, s')" "bm_ok s' (F(i := bs))" "b \<noteq> 0"
    using bm_malloc_served [OF assms i] by blast
  with i show ?thesis by (intro exI [of _ b] exI [of _ s']) (auto simp: served_by_def)
next
  case False
  have "\<not> serves siz (mbufheap s ! i) (F i)" if "i < length (mbufheap s)" for i
  proof (rule ccontr)
    assume "\<not> \<not> serves siz (mbufheap s ! i) (F i)"
    then have ex: "\<exists>i. serves siz (mbufheap s ! i) (F i)" and i: "serves siz (mbufheap s ! i) (F i)" by auto
    define k where "k = (LEAST i. serves siz (mbufheap s ! i) (F i))"
    have "serves siz (mbufheap s ! k) (F k)" "k \<le> i" "\<forall>j < k. \<not> serves siz (mbufheap s ! j) (F j)"
      unfolding k_def using LeastI_ex [OF ex] Least_le [of "\<lambda>i. serves siz (mbufheap s ! i) (F i)", OF i]
        not_less_Least by blast+
    then show False using False that by (auto simp: served_by_def)
  qed
  then show ?thesis using bm_malloc_refused [OF assms False] by simp
qed

lemma pool_ok_free:
  assumes "pool_ok m p fs" "b \<in> blocks p" "b \<notin> set fs"
  shows "pool_ok (m(b := freep p)) (p\<lparr>freep := b, nfree := nfree p + 1\<rparr>) (b # fs)"
proof -
  have "chain (m(b := freep p)) (freep p) fs = chain m (freep p) fs"
    by (rule chain_frame) (use assms(3) in auto)
  then show ?thesis using assms by (simp add: pool_ok_def pool_fits_def blocks_def block_def)
qed

lemma bm_free:
  assumes "bm_ok s F" "i < length (mbufheap s)" "mb_active (mbufheap s ! i)"
    and "k < nat (nblks (mbufheap s ! i))" "nblks (mbufheap s ! i) < 2 ^ 31" "block (mbufheap s ! i) k \<notin> set (F i)"
    and "unat (block (mbufheap s ! i) k) \<le> unat a" "unat a < unat (block (mbufheap s ! i) k) + unat (blksiz (mbufheap s ! i))"
    and "mbuf = MEMBUF_ANY \<or> mbuf = int i"
  shows "\<exists>s'. sys_buffree mbuf a s = Some s' \<and> bm_ok s' (F(i := block (mbufheap s ! i) k # F i))"
proof -
  define p where "p = mbufheap s ! i"
  define b where "b = block p k"
  have ok: "pool_ok (bm_mem s) p (F i)" using assms(1-3) by (simp add: bm_ok_def p_def)
  then have fit: "pool_fits p" by (simp add: pool_ok_def)
  note rng = block_range [OF fit, of k a]
  have within: "MEM_WITHIN_BUF p a" "(a - memptr p) div blksiz p = of_nat k" using rng assms(4,7,8) by (simp_all add: p_def)
  have bin: "b \<in> blocks p" using assms(4) by (auto simp: b_def blocks_def p_def)
  have "find (\<lambda>j. mb_active (mbufheap s ! j) \<and> MEM_WITHIN_BUF (mbufheap s ! j) a) [0..<length (mbufheap s)] = Some i"
  proof -
    have "j = i" if "j < length (mbufheap s)" "mb_active (mbufheap s ! j)" "MEM_WITHIN_BUF (mbufheap s ! j) a" for j
    proof (rule ccontr)
      assume "j \<noteq> i"
      then have "apart p (mbufheap s ! j)" using assms(1-3) that(1,2) unfolding bm_ok_def p_def by blast
      then show False using apart_not_both within(1) that(3) unfolding MEM_WITHIN_BUF_def by blast
    qed
    then have "\<forall>j < i. \<not> (mb_active (mbufheap s ! j) \<and> MEM_WITHIN_BUF (mbufheap s ! j) a)"
      using assms(2) by (metis less_irrefl less_trans)
    then show ?thesis
      unfolding find_Some_iff using assms(2,3) within(1) by (intro exI [of _ i]) (simp add: p_def)
  qed
  then have i: "scan_table (\<lambda>p. mb_active p \<and> MEM_WITHIN_BUF p a) 0 (mbufheap s) = i" by (simp add: scan_table_eq)
  have nz: "blksiz p \<noteq> 0" using fit by (auto simp: pool_fits_def)
  have k: "int k < nblks p" "k < 2 ^ 31" using assms(4,5) by (auto simp: p_def zless_nat_eq_int_zless)
  have sk: "sint (of_nat k :: u32) = int k"
    using k(2) by (simp add: signed_of_nat signed_take_bit_int_eq_self)
  define p' where "p' = p\<lparr>freep := b, nfree := nfree p + 1\<rparr>"
  define s' where "s' = s\<lparr>mbufheap := (mbufheap s)[i := p'], bm_mem := (bm_mem s)(b := freep p), bm_errno := bm_errno s\<rparr>"
  have idx: "(if mbuf = MEMBUF_ANY then scan_table (\<lambda>p. mb_active p \<and> MEM_WITHIN_BUF p a) 0 (mbufheap s) else nat mbuf) = i"
      and in_table: "\<not> (mbuf \<noteq> MEMBUF_ANY \<and> (mbuf < 0 \<or> mbuf > int (length (mbufheap s))))"
    using assms(2,9) i by auto
  have "sys_buffree mbuf a s = Some s'"
    unfolding sys_buffree_def if_not_P [OF in_table] idx using assms(2) nz within(2) sk k(1)
    by (simp add: array_simps MEM_TO_BLK_def s'_def p'_def b_def block_def Let_def flip: p_def)
  moreover have "bm_ok s' (F(i := b # F i))"
    unfolding s'_def
  proof (rule bm_ok_update [OF assms(1-3)])
    show "pool_ok ((bm_mem s)(b := freep p)) p' (b # F i)"
      unfolding p'_def using pool_ok_free [OF ok bin] assms(6) by (simp add: b_def p_def)
    fix a'
    assume "a' < memptr p' \<or> limit p' \<le> a'"
    then have "a' \<noteq> b" using blocks_range [OF fit bin] by (auto simp: p'_def)
    then show "((bm_mem s)(b := freep p)) a' = bm_mem s a'" by simp
  qed (use assms(3) in \<open>simp_all add: p'_def p_def\<close>)
  ultimately show ?thesis by (auto simp: b_def p_def)
qed

lemmas bm_free_any = bm_free [where mbuf = MEMBUF_ANY, OF _ _ _ _ _ _ _ _ disjI1 [OF refl]]

text \<open>A new pool: the loop links all its blocks and touches nothing else.\<close>

lemma link_blocks_frame: "(\<And>i. i \<le> n \<Longrightarrow> a \<noteq> c + siz * of_nat i) \<Longrightarrow> link_blocks siz c n m a = m a"
proof (induction n arbitrary: c m)
  case 0
  then show ?case using "0.prems" [of 0] by simp
next
  case (Suc n)
  have "a \<noteq> (c + siz) + siz * of_nat i" if "i \<le> n" for i
    using Suc.prems [of "Suc i"] that by (simp add: algebra_simps)
  then show ?case using Suc.IH [of "c + siz"] Suc.prems [of 0] by simp
qed

lemma link_blocks_chain:
  assumes "\<And>i j. i \<le> n \<Longrightarrow> j \<le> n \<Longrightarrow> c + siz * of_nat i = c + siz * of_nat j \<Longrightarrow> i = j"
  shows "chain (link_blocks siz c n m) c (map (\<lambda>i. c + siz * of_nat i) [0..<Suc n])"
  using assms
proof (induction n arbitrary: c m)
  case (Suc n)
  define m' where "m' = m(c := c + siz)"
  have shift: "(c + siz) + siz * of_nat i = c + siz * of_nat (Suc i)" for i by (simp add: algebra_simps)
  have "link_blocks siz (c + siz) n m' c = m' c"
  proof (rule link_blocks_frame)
    fix i
    assume "i \<le> n"
    then show "c \<noteq> (c + siz) + siz * of_nat i" using Suc.prems [of 0 "Suc i"] unfolding shift by auto
  qed
  moreover have "chain (link_blocks siz (c + siz) n m') (c + siz) (map (\<lambda>i. c + siz * of_nat (Suc i)) [0..<Suc n])"
    using Suc.IH [of "c + siz" m'] Suc.prems unfolding shift by (metis Suc_le_mono old.nat.inject)
  then have "chain (link_blocks siz (c + siz) n m') (c + siz) (map (\<lambda>i. c + siz * of_nat i) [Suc 0..<Suc (Suc n)])"
    by (simp only: map_Suc_upt [symmetric] map_map comp_def)
  ultimately show ?case by (subst upt_conv_Cons) (simp_all add: m'_def del: upt_Suc)
qed simp

lemma bm_create:
  assumes "bm_ok s F" "scan_table (\<lambda>p. \<not> mb_active p) 0 (mbufheap s) = i" "i < length (mbufheap s)"
    and "mp \<noteq> 0" "0 < n" "4 \<le> siz" "unat mp + nat n * unat siz < 2 ^ 32"
    and "\<And>p. p \<in> set (mbufheap s) \<Longrightarrow> mb_active p \<Longrightarrow> mp + of_int n * siz \<le> memptr p \<or> limit p \<le> mp"
  shows "\<exists>s'. sys_bufcreate False mp n siz s = (0, Some (int i), s') \<and>
     bm_ok s' (F(i := map (\<lambda>k. mp + siz * of_nat k) [0..<nat n]))"
proof -
  define p where "p = (mbufheap s ! i)\<lparr>mb_active := True, memptr := mp, nblks := n, blksiz := siz, nfree := n, freep := mp,
      limit := mp + of_int n * siz\<rparr>"
  define m where "m = link_blocks siz mp (nat (n - 1)) (bm_mem s)"
  define s' where "s' = s\<lparr>mbufheap := (mbufheap s)[i := p], bm_mem := m\<rparr>"
  have siz: "4 \<le> unat siz" using assms(6) by (simp add: word_le_nat_alt)
  have fit: "pool_fits p" using assms(4,5,7) siz by (simp add: pool_fits_def p_def)
  have bl: "block p k = mp + siz * of_nat k" for k by (simp add: block_def p_def)
  have inj: "k = l" if "k < nat n" "l < nat n" "block p k = block p l" for k l
    using block_inj [OF fit] that by (simp add: p_def)
  have n: "nat n = Suc (nat (n - 1))" using assms(5) by simp
  have "chain m mp (map (block p) [0..<nat n])"
  proof -
    have "block p = (\<lambda>k. mp + siz * of_nat k)" by (simp add: bl fun_eq_iff)
    moreover have "chain m mp (map (\<lambda>k. mp + siz * of_nat k) [0..<Suc (nat (n - 1))])"
      unfolding m_def by (rule link_blocks_chain) (use inj n in \<open>simp add: bl less_Suc_eq_le\<close>)
    ultimately show ?thesis by (simp only: n)
  qed
  moreover have "distinct (map (block p) [0..<nat n])" using inj by (auto simp: distinct_map inj_on_def)
  ultimately have new: "pool_ok m p (map (block p) [0..<nat n])"
    using fit assms(5) by (auto simp: pool_ok_def blocks_def p_def)
  have inact: "\<not> mb_active (mbufheap s ! i)"
    using assms(2,3) by (auto simp: scan_table_eq find_Some_iff find_None_iff split: option.splits)
  have old: "pool_ok m (mbufheap s ! j) (F j) \<and> apart p (mbufheap s ! j) \<and> apart (mbufheap s ! j) p"
    if j: "j < length (mbufheap s)" "mb_active (mbufheap s ! j)" for j
  proof -
    have ap: "apart p (mbufheap s ! j)" "apart (mbufheap s ! j) p"
      using assms(8) [of "mbufheap s ! j"] j by (auto simp: apart_def p_def)
    have pj: "pool_ok (bm_mem s) (mbufheap s ! j) (F j)" using assms(1) j by (simp add: bm_ok_def)
    have "m b = bm_mem s b" if "b \<in> set (F j)" for b
      unfolding m_def
    proof (rule link_blocks_frame)
      fix k
      assume "k \<le> nat (n - 1)"
      then have "block p k \<in> blocks p" using n by (auto simp: blocks_def p_def)
      from blocks_range [OF fit this] have "memptr p \<le> block p k" "block p k < limit p" .
      moreover have "memptr (mbufheap s ! j) \<le> b" "b < limit (mbufheap s ! j)"
        using blocks_range [of "mbufheap s ! j" b] pj that by (auto simp: pool_ok_def)
      ultimately have "b \<noteq> block p k" using apart_not_both [OF ap(1)] by blast
      then show "b \<noteq> mp + siz * of_nat k" by (simp add: bl)
    qed
    then have "chain m (freep (mbufheap s ! j)) (F j) = chain (bm_mem s) (freep (mbufheap s ! j)) (F j)"
      by (rule chain_frame)
    then show ?thesis using pj ap by (simp add: pool_ok_def)
  qed
  have act: "mb_active p" by (simp add: p_def)
  have "sys_bufcreate False mp n siz s = (0, Some (int i), s')"
    using assms(2-6) by (simp add: sys_bufcreate_def Let_def s'_def p_def m_def not_less)
  moreover have "bm_ok s' (F(i := map (block p) [0..<nat n]))"
    using new old act assms(1,3) inact unfolding bm_ok_def s'_def by (auto simp: nth_list_update)
  ultimately show ?thesis by (simp add: bl [abs_def])
qed

text \<open>Start-up of one pool: all its blocks are free.\<close>

lemma bm_init_one:
  assumes "mbufheap s \<noteq> []" "mp \<noteq> 0" "0 < n" "4 \<le> siz" "unat mp + nat n * unat siz < 2 ^ 32"
  shows "\<exists>s'. bufmalloc_init [(siz, n)] mp s = ([0], s') \<and> bm_ok s' ((\<lambda>_. [])(0 := map (\<lambda>k. mp + siz * of_nat k) [0..<nat n]))"
proof -
  define s0 where "s0 = s\<lparr>mbufheap := map (\<lambda>p. p\<lparr>mb_active := False\<rparr>) (mbufheap s)\<rparr>"
  have "bm_ok s0 (\<lambda>_. [])" by (simp add: bm_ok_def s0_def)
  moreover have "scan_table (\<lambda>p. \<not> mb_active p) 0 (mbufheap s0) = 0" "0 < length (mbufheap s0)"
    using assms(1) by (cases "mbufheap s"; simp add: s0_def)+
  moreover have "\<not> mb_active p" if "p \<in> set (mbufheap s0)" for p using that by (auto simp: s0_def)
  ultimately show ?thesis
    using bm_create [of s0 "\<lambda>_. []" 0 mp n siz] assms(2-5) by (auto simp: bufmalloc_init_def simp flip: s0_def)
qed

section \<open>Properties\<close>


definition bm_blank :: bufmem where
  "bm_blank =
     \<lparr>mbufheap = [\<lparr>mb_active = False, memptr = 0, limit = 0, freep = 0, nblks = 0, nfree = 0, blksiz = 0\<rparr>],
      bm_mem = (\<lambda>_. 0), bm_errno = None\<rparr>"


end
