(* ===== verification/Kern_Msg.thy ===== *)
theory Kern_Msg
  imports Kern_Shm Kern_Mem
begin

text \<open>
  Message queues of the kernel: \<^verbatim>\<open>src/bsp/xilkernel_v4_00_a/src/src/ipc/msg.c\<close> and their start-up in
  \<^verbatim>\<open>mem.c\<close>. A message is copied into a block of the kernel memory and its address put into a ring; two
  semaphores count the free places (\<open>full\<close>) and the messages (\<open>empty\<close>).

  The state has the kernel, the block memory and the table of queues, whose length is \<^verbatim>\<open>NUM_MSGQS\<close>.
  \<open>ms_data\<close> is the contents of the blocks that hold a message, up to the time they are freed. A message
  overwrites the first word of its block, which links the block while it is free: \<open>poke\<close> is that effect on the memory of
  the allocator. The bytes at \<^verbatim>\<open>msgp\<close> are an argument of the call, and what a call stores there is part of
  its result; a caller does not change its buffer while it is suspended. A call that is suspended
  inside \<^verbatim>\<open>sys_sem_wait_x\<close> goes on as \<open>ms_conts\<close> says. \<open>None\<close> is, besides what it stands for in the kernel,
  the use of a message that was never taken out of the ring or whose block was freed.
\<close>

section \<open>Data\<close>

record msg_t =
  msg_buf :: u32
  msg_len :: u32

record msqid_ds =
  msg_qnum :: u32
  msg_qbytes :: u32
  msg_lspid :: pid
  msg_lrpid :: pid

record msgid_ds =
  msgid :: int
  mq_key :: u32
  msgq_len :: u8
  mq_full :: u32
  mq_empty :: u32
  msg_q :: "msg_t kqueue"
  mq_stats :: msqid_ds

datatype mcont =
    M_snd nat u32 "u8 list" u32
  | M_rcv nat u32 u32

record msgsys =
  ms_kern :: kernel
  ms_mem :: bufmem
  ms_heap :: "msgid_ds list"
  ms_data :: "u32 \<Rightarrow> u8 list option"
  ms_conts :: "pid \<Rightarrow> mcont option"

definition MSG_NOERROR :: u32 where "MSG_NOERROR = 1"

section \<open>Blocks for messages\<close>

definition cell_bytes :: "u32 \<Rightarrow> u8 list" where
  "cell_bytes w = [ucast (drop_bit 24 w), ucast (drop_bit 16 w), ucast (drop_bit 8 w), ucast w]"

definition bytes_cell :: "u8 list \<Rightarrow> u32" where
  "bytes_cell bs = foldl (\<lambda>w b. push_bit 8 w OR ucast b) 0 bs"

definition poke :: "u32 \<Rightarrow> u8 list \<Rightarrow> bufmem \<Rightarrow> bufmem" where
  "poke a bs m = m\<lparr>bm_mem := (bm_mem m)(a := bytes_cell (take 4 bs @ drop (length bs) (cell_bytes (bm_mem m a))))\<rparr>"

definition MSGQ_MALLOC :: "u32 \<Rightarrow> msgsys \<Rightarrow> (u32 \<times> msgsys) option" where
  "MSGQ_MALLOC siz s = do { (a, m) \<leftarrow> sys_bufmalloc MEMBUF_ANY siz (ms_mem s); Some (a, s\<lparr>ms_mem := m\<rparr>) }"

definition MSGQ_FREE :: "u32 \<Rightarrow> msgsys \<Rightarrow> msgsys option" where
  "MSGQ_FREE a s =
     do { m \<leftarrow> sys_buffree MEMBUF_ANY a (ms_mem s); Some (s\<lparr>ms_mem := m, ms_data := (ms_data s)(a := None)\<rparr>) }"

text \<open>\<^verbatim>\<open>memcpy\<close> into a block and out of it.\<close>

definition store_msg :: "u32 \<Rightarrow> u8 list \<Rightarrow> u32 \<Rightarrow> msgsys \<Rightarrow> msgsys option" where
  "store_msg a msgp n s =
     (if unat n \<le> length msgp then
        (let bs = take (unat n) msgp in Some (s\<lparr>ms_mem := poke a bs (ms_mem s), ms_data := (ms_data s)(a \<mapsto> bs)\<rparr>))
      else None)"

definition load_msg :: "u32 \<Rightarrow> u32 \<Rightarrow> msgsys \<Rightarrow> u8 list option" where
  "load_msg a n s = do { bs \<leftarrow> ms_data s a; if unat n \<le> length bs then Some (take (unat n) bs) else None }"

section \<open>Operations\<close>

text \<open>The start-up; the memory of the rings is an argument.\<close>

definition msgq_init :: "u8 \<Rightarrow> u32 \<Rightarrow> msg_t list list \<Rightarrow> msgid_ds list \<Rightarrow> msgid_ds list" where
  "msgq_init capacity max_bytes mems qs =
     map2 (\<lambda>q mem. q\<lparr>msgid := - 1, msgq_len := capacity, msg_q := alloc_q mem capacity 8,
             mq_stats := (mq_stats q)\<lparr>msg_qbytes := max_bytes, msg_lspid := 255, msg_lrpid := 255\<rparr>\<rparr>) qs mems"

definition get_msgid_by_key :: "u32 \<Rightarrow> msgid_ds list \<Rightarrow> nat" where
  "get_msgid_by_key key qs = scan_table (\<lambda>q. msgid q \<noteq> - 1 \<and> mq_key q = key) 0 qs"

definition ms_fail :: "errno \<Rightarrow> msgsys \<Rightarrow> (kres \<times> msgsys) option" where
  "ms_fail e s = do { k \<leftarrow> kerrno e (ms_kern s); Some (Ret (- 1), s\<lparr>ms_kern := k\<rparr>) }"

definition upd_msgq :: "nat \<Rightarrow> (msgid_ds \<Rightarrow> msgid_ds) \<Rightarrow> msgsys \<Rightarrow> msgsys option" where
  "upd_msgq i f s = do { q \<leftarrow> arr_get (ms_heap s) i; qs \<leftarrow> arr_set (ms_heap s) i (f q); Some (s\<lparr>ms_heap := qs\<rparr>) }"

text \<open>\<^verbatim>\<open>sys_sem_init (sem, 0, value)\<close> for a semaphore of a queue: the number, or a failure.\<close>

definition msg_sem_init :: "u32 \<Rightarrow> msgsys \<Rightarrow> (u32 option \<times> msgsys) option" where
  "msg_sem_init val s =
     do { (r, m, k) \<leftarrow> sys_sem_init 0 val (ms_kern s);
          Some (case r of Ret v \<Rightarrow> if v < 0 then None else m | Blocked \<Rightarrow> None, s\<lparr>ms_kern := k\<rparr>) }"

definition sys_msgget :: "u32 \<Rightarrow> u32 \<Rightarrow> msgsys \<Rightarrow> (kres \<times> msgsys) option" where
  "sys_msgget key msgflg s =
     (let i = get_msgid_by_key key (ms_heap s)
      in if i < length (ms_heap s) then
           (if msgflg AND IPC_CREAT \<noteq> 0 \<and> msgflg AND IPC_EXCL \<noteq> 0 then ms_fail EEXIST s
            else if msgflg AND IPC_CREAT \<noteq> 0 then Some (Ret (msgid (ms_heap s ! i)), s)
            else Some (Ret (- 1), s))
         else if key = IPC_PRIVATE then Some (Ret (- 1), s)
         else if msgflg AND IPC_CREAT = 0 then ms_fail ENOENT s
         else
           (let i = scan_table (\<lambda>q. msgid q = - 1) 0 (ms_heap s)
            in if i = length (ms_heap s) then ms_fail ENOSPC s
               else
                 do { s \<leftarrow> upd_msgq i (\<lambda>q. q\<lparr>msgid := int i, mq_key := key\<rparr>) s;
                      (full, s) \<leftarrow> msg_sem_init (ucast (msgq_len (ms_heap s ! i))) s;
                      case full of
                        None \<Rightarrow> Some (Ret (- 1), s)
                      | Some full \<Rightarrow>
                          do { s \<leftarrow> upd_msgq i (\<lambda>q. q\<lparr>mq_full := full\<rparr>) s;
                               (empt, s) \<leftarrow> msg_sem_init 0 s;
                               case empt of
                                 None \<Rightarrow> Some (Ret (- 1), s)
                               | Some empt \<Rightarrow>
                                   do { s \<leftarrow> upd_msgq i (\<lambda>q. q\<lparr>mq_empty := empt, msg_q := qinit (msg_q q),
                                              mq_stats := (mq_stats q)\<lparr>msg_qnum := 0, msg_lspid := 0, msg_lrpid := 0\<rparr>\<rparr>) s;
                                        Some (Ret (int i), s) } } }))"

definition msg_bad :: "int \<Rightarrow> msgsys \<Rightarrow> bool" where
  "msg_bad mid s \<longleftrightarrow> mid < 0 \<or> mid \<ge> int (length (ms_heap s)) \<or> msgid (ms_heap s ! nat mid) = - 1"

text \<open>
  The loop of \<^verbatim>\<open>IPC_RMID\<close> that frees the messages. \<open>k\<close> is the variable \<^verbatim>\<open>k_msg\<close>, which keeps its value when the ring is
  empty.
\<close>

partial_function (option) free_loop :: "nat \<Rightarrow> nat \<Rightarrow> msg_t option \<Rightarrow> msgsys \<Rightarrow> msgsys option" where
  "free_loop mid i k s =
     do { q \<leftarrow> arr_get (ms_heap s) mid;
          if i < unat (item_count (msg_q q)) then
            do { (x, r) \<leftarrow> deq (msg_q q);
                 let k = (case x of None \<Rightarrow> k | Some x \<Rightarrow> Some x);
                 msg \<leftarrow> k;
                 s \<leftarrow> MSGQ_FREE (msg_buf msg) s;
                 s \<leftarrow> upd_msgq mid (\<lambda>q. q\<lparr>msg_q := r\<lparr>item_count := item_count r - 1\<rparr>\<rparr>) s;
                 free_loop mid (i + 1) k s }
          else Some s }"

definition msg_force_destroy :: "u32 \<Rightarrow> msgsys \<Rightarrow> (bool \<times> msgsys) option" where
  "msg_force_destroy sem s =
     do { (r, k) \<leftarrow> sem_force_destroy (Some sem) (ms_kern s);
          Some (case r of Ret v \<Rightarrow> v < 0 | Blocked \<Rightarrow> False, s\<lparr>ms_kern := k\<rparr>) }"

text \<open>The result is the value returned and what is stored through \<^verbatim>\<open>buf\<close>.\<close>

definition sys_msgctl :: "int \<Rightarrow> u32 \<Rightarrow> bool \<Rightarrow> msgsys \<Rightarrow> (kres \<times> msqid_ds option \<times> msgsys) option" where
  "sys_msgctl mid cmd buf_null s =
     (if msg_bad mid s then do { (r, s) \<leftarrow> ms_fail EINVAL s; Some (r, None, s) }
      else if cmd = IPC_STAT then
        (if buf_null then do { (r, s) \<leftarrow> ms_fail EINVAL s; Some (r, None, s) }
         else do { q \<leftarrow> arr_get (ms_heap s) (nat mid); Some (Ret 0, Some (mq_stats q), s) })
      else if cmd = IPC_RMID then
        do { q \<leftarrow> arr_get (ms_heap s) (nat mid);
             (failed, s) \<leftarrow> msg_force_destroy (mq_full q) s;
             if failed then Some (Ret (- 1), None, s)
             else
               do { (failed, s) \<leftarrow> msg_force_destroy (mq_empty q) s;
                    if failed then Some (Ret (- 1), None, s)
                    else
                      do { s \<leftarrow> free_loop (nat mid) 0 None s;
                           s \<leftarrow> upd_msgq (nat mid) (\<lambda>q. q\<lparr>msgid := - 1,
                                  mq_stats := (mq_stats q)\<lparr>msg_lspid := 255, msg_lrpid := 255\<rparr>\<rparr>) s;
                           Some (Ret 0, None, s) } } }
      else if cmd = IPC_SET then Some (Ret 0, None, s)
      else do { (r, s) \<leftarrow> ms_fail EINVAL s; Some (r, None, s) })"

definition msg_sem :: "(kernel \<Rightarrow> (kres \<times> kernel) option) \<Rightarrow> msgsys \<Rightarrow> (kres \<times> msgsys) option" where
  "msg_sem f s = do { (r, k) \<leftarrow> f (ms_kern s); Some (r, s\<lparr>ms_kern := k\<rparr>) }"

text \<open>The end of \<^verbatim>\<open>sys_msgsnd\<close>: the message is stored and the consumer signalled.\<close>

definition msg_put :: "nat \<Rightarrow> u32 \<Rightarrow> u8 list \<Rightarrow> u32 \<Rightarrow> msgsys \<Rightarrow> (kres \<times> msgsys) option" where
  "msg_put mid buf msgp msgsz s =
     do { s \<leftarrow> store_msg buf msgp msgsz s;
          q \<leftarrow> arr_get (ms_heap s) mid;
          r \<leftarrow> enq (msg_q q) \<lparr>msg_buf = buf, msg_len = msgsz\<rparr>;
          s \<leftarrow> upd_msgq mid (\<lambda>q. q\<lparr>msg_q := r, mq_stats := (mq_stats q)\<lparr>msg_lspid := sys_get_currentPID (ms_kern s),
                 msg_qnum := msg_qnum (mq_stats q) + 1\<rparr>\<rparr>) s;
          (_, s) \<leftarrow> msg_sem (sys_sem_post (Some (mq_empty q))) s;
          Some (Ret 0, s) }"

text \<open>What \<^verbatim>\<open>sys_msgsnd\<close> does when \<^verbatim>\<open>sys_sem_wait_x\<close> has returned \<open>v\<close>.\<close>

definition snd_end :: "nat \<Rightarrow> u32 \<Rightarrow> u8 list \<Rightarrow> u32 \<Rightarrow> int \<Rightarrow> msgsys \<Rightarrow> (kres \<times> msgsys) option" where
  "snd_end mid buf msgp msgsz v s =
     (if v < 0 then do { s \<leftarrow> MSGQ_FREE buf s; Some (Ret (- 1), s) }
      else
        do { q \<leftarrow> arr_get (ms_heap s) mid;
             if msgid q = - 1 then do { s \<leftarrow> MSGQ_FREE buf s; ms_fail EIDRM s }
             else msg_put mid buf msgp msgsz s })"

definition sys_msgsnd :: "int \<Rightarrow> u8 list \<Rightarrow> u32 \<Rightarrow> u32 \<Rightarrow> msgsys \<Rightarrow> (kres \<times> msgsys) option" where
  "sys_msgsnd mid msgp msgsz msgflg s =
     (if msg_bad mid s then ms_fail EINVAL s
      else
        do { (buf, s) \<leftarrow> MSGQ_MALLOC msgsz s;
             if buf = 0 then ms_fail ENOSPC s
             else
               do { q \<leftarrow> arr_get (ms_heap s) (nat mid);
                    if msgflg AND IPC_NOWAIT \<noteq> 0 then
                      do { (r, s) \<leftarrow> msg_sem (sys_sem_trywait (Some (mq_full q))) s;
                           case r of
                             Ret v \<Rightarrow>
                               if v < 0 then do { s \<leftarrow> MSGQ_FREE buf s; ms_fail EAGAIN s }
                               else msg_put (nat mid) buf msgp msgsz s
                           | Blocked \<Rightarrow> None }
                    else
                      do { (r, s') \<leftarrow> msg_sem (sys_sem_wait_x (Some (mq_full q))) s;
                           case r of
                             Ret v \<Rightarrow> snd_end (nat mid) buf msgp msgsz v s'
                           | Blocked \<Rightarrow>
                               Some (Blocked, s'\<lparr>ms_conts := (ms_conts s')(current_pid (ms_kern s) \<mapsto> M_snd (nat mid) buf msgp msgsz)\<rparr>) } } })"

text \<open>The end of \<^verbatim>\<open>sys_msgrcv\<close>; the result has the bytes stored at \<^verbatim>\<open>msgp\<close>.\<close>

definition msg_get :: "nat \<Rightarrow> u32 \<Rightarrow> u32 \<Rightarrow> msgsys \<Rightarrow> (kres \<times> u8 list option \<times> msgsys) option" where
  "msg_get mid msgsz msgflg s =
     do { q \<leftarrow> arr_get (ms_heap s) mid;
          (x, r) \<leftarrow> deq (msg_q q);
          k \<leftarrow> x;
          s \<leftarrow> upd_msgq mid (\<lambda>q. q\<lparr>msg_q := r\<rparr>) s;
          if msg_len k > msgsz \<and> msgflg AND MSG_NOERROR = 0 then
            do { s \<leftarrow> MSGQ_FREE (msg_buf k) s; (r, s) \<leftarrow> ms_fail E2BIG s; Some (r, None, s) }
          else
            (let nbytes = (if msg_len k > msgsz then msgsz else msg_len k)
             in do { bs \<leftarrow> load_msg (msg_buf k) nbytes s;
                     s \<leftarrow> upd_msgq mid (\<lambda>q. q\<lparr>mq_stats := (mq_stats q)\<lparr>msg_lrpid := sys_get_currentPID (ms_kern s),
                            msg_qnum := msg_qnum (mq_stats q) - 1\<rparr>\<rparr>) s;
                     s \<leftarrow> MSGQ_FREE (msg_buf k) s;
                     (_, s) \<leftarrow> msg_sem (sys_sem_post (Some (mq_full q))) s;
                     Some (Ret (sint nbytes), Some bs, s) }) }"

definition rcv_end :: "nat \<Rightarrow> u32 \<Rightarrow> u32 \<Rightarrow> int \<Rightarrow> msgsys \<Rightarrow> (kres \<times> u8 list option \<times> msgsys) option" where
  "rcv_end mid msgsz msgflg v s =
     (if v < 0 then Some (Ret (- 1), None, s)
      else
        do { q \<leftarrow> arr_get (ms_heap s) mid;
             if msgid q = - 1 then do { (r, s) \<leftarrow> ms_fail EIDRM s; Some (r, None, s) }
             else msg_get mid msgsz msgflg s })"

definition sys_msgrcv :: "int \<Rightarrow> u32 \<Rightarrow> u32 \<Rightarrow> msgsys \<Rightarrow> (kres \<times> u8 list option \<times> msgsys) option" where
  "sys_msgrcv mid msgsz msgflg s =
     (if msg_bad mid s then do { (r, s) \<leftarrow> ms_fail EINVAL s; Some (r, None, s) }
      else
        do { q \<leftarrow> arr_get (ms_heap s) (nat mid);
             if msgflg = IPC_NOWAIT then
               do { (r, s) \<leftarrow> msg_sem (sys_sem_trywait (Some (mq_empty q))) s;
                    case r of
                      Ret v \<Rightarrow> if v < 0 then Some (Ret (- 1), None, s) else msg_get (nat mid) msgsz msgflg s
                    | Blocked \<Rightarrow> None }
             else
               do { (r, s') \<leftarrow> msg_sem (sys_sem_wait_x (Some (mq_empty q))) s;
                    case r of
                      Ret v \<Rightarrow> rcv_end (nat mid) msgsz msgflg v s'
                    | Blocked \<Rightarrow>
                        Some (Blocked, None, s'\<lparr>ms_conts := (ms_conts s')(current_pid (ms_kern s) \<mapsto> M_rcv (nat mid) msgsz msgflg)\<rparr>) } })"

text \<open>A suspended call goes on in the kernel first and then in the message call it was made from.\<close>

definition msg_resume :: "msgsys \<Rightarrow> (kres \<times> u8 list option \<times> msgsys) option" where
  "msg_resume s =
     (let c = current_pid (ms_kern s)
      in do { (r, s') \<leftarrow> msg_sem resume s;
              case r of
                Blocked \<Rightarrow> Some (Blocked, None, s')
              | Ret v \<Rightarrow>
                  (let s'' = s'\<lparr>ms_conts := (ms_conts s')(c := None)\<rparr>
                   in case ms_conts s c of
                        None \<Rightarrow> Some (Ret v, None, s'')
                      | Some (M_snd mid buf msgp msgsz) \<Rightarrow> do { (r, s) \<leftarrow> snd_end mid buf msgp msgsz v s''; Some (r, None, s) }
                      | Some (M_rcv mid msgsz msgflg) \<Rightarrow> rcv_end mid msgsz msgflg v s'') })"

end
