(* ===== verification/Kern_Blocks.thy ===== *)
theory Kern_Blocks
  imports Kern_Msg
begin

text \<open>
  What the message queues need of the block memory, as a locale: a block that is handed out was not in
  use and is large enough, a block in use can be freed and filled, and nothing else changes.
  \<^verbatim>\<open>bufmalloc.c\<close> keeps this contract, although a message overwrites the word that links a free block.
\<close>

section \<open>The contract\<close>

locale block_pool =
  fixes alloc :: "u32 \<Rightarrow> 'm \<Rightarrow> (u32 \<times> 'm) option"
    and release :: "u32 \<Rightarrow> 'm \<Rightarrow> 'm option"
    and fill :: "u32 \<Rightarrow> u8 list \<Rightarrow> 'm \<Rightarrow> 'm"
    and used :: "'m \<Rightarrow> u32 \<Rightarrow> u32 \<Rightarrow> bool"
    and good :: "'m \<Rightarrow> bool"
  assumes alloc_law: "good m \<Longrightarrow> \<exists>a m'. alloc n m = Some (a, m') \<and> good m' \<and>
      (if a = 0 then used m' = used m
       else (\<forall>z. \<not> used m a z) \<and> (\<exists>z \<ge> n. used m' a z) \<and> (\<forall>b z. b \<noteq> a \<longrightarrow> used m' b z = used m b z))"
    and release_law: "good m \<Longrightarrow> used m a z \<Longrightarrow>
      \<exists>m'. release a m = Some m' \<and> good m' \<and> (\<forall>b z. b \<noteq> a \<longrightarrow> used m' b z = used m b z)"
    and fill_law: "good m \<Longrightarrow> used m a z \<Longrightarrow> good (fill a bs m) \<and> used (fill a bs m) = used m"
begin

text \<open>The blocks of a set of holders, each in use and large enough for what it is to hold.\<close>

definition held :: "'m \<Rightarrow> (u32 \<times> u32) set \<Rightarrow> bool" where
  "held m B \<longleftrightarrow> (\<forall>(a, n) \<in> B. \<exists>z \<ge> n. used m a z)"

lemma held_alloc:
  assumes "good m" "held m B"
  shows "\<exists>a m'. alloc n m = Some (a, m') \<and> good m' \<and> held m' B \<and> (a \<noteq> 0 \<longrightarrow> a \<notin> fst ` B \<and> held m' (insert (a, n) B))"
proof -
  obtain a m' where a: "alloc n m = Some (a, m')" "good m'"
     "if a = 0 then used m' = used m
      else (\<forall>z. \<not> used m a z) \<and> (\<exists>z \<ge> n. used m' a z) \<and> (\<forall>b z. b \<noteq> a \<longrightarrow> used m' b z = used m b z)"
    using alloc_law [OF assms(1), of n] by blast
  show ?thesis
  proof (cases "a = 0")
    case True
    then show ?thesis using a assms(2) by (simp add: held_def)
  next
    case False
    then have u: "\<forall>z. \<not> used m a z" "\<exists>z \<ge> n. used m' a z" "\<forall>b z. b \<noteq> a \<longrightarrow> used m' b z = used m b z" using a(3) by auto
    have "a \<notin> fst ` B" using u(1) assms(2) by (auto simp: held_def)
    have "\<exists>z \<ge> k. used m' b z" if b: "(b, k) \<in> B" for b k
    proof -
      have "b \<noteq> a" using b \<open>a \<notin> fst ` B\<close> by force
      then show ?thesis using u(3) assms(2) b by (auto simp: held_def)
    qed
    then have "held m' B" by (auto simp: held_def)
    then show ?thesis using a(1,2) u(2) \<open>a \<notin> fst ` B\<close> by (auto simp: held_def)
  qed
qed

lemma held_release:
  assumes "good m" "held m (insert (a, n) B)" "a \<notin> fst ` B"
  shows "\<exists>m'. release a m = Some m' \<and> good m' \<and> held m' B"
proof -
  obtain z where z: "used m a z" using assms(2) by (auto simp: held_def)
  obtain m' where m': "release a m = Some m'" "good m'" "\<forall>b z. b \<noteq> a \<longrightarrow> used m' b z = used m b z"
    using release_law [OF assms(1) z] by blast
  have "\<exists>y \<ge> k. used m' b y" if "(b, k) \<in> B" for b k
  proof -
    have "b \<noteq> a" using that assms(3) by force
    moreover have "\<exists>y \<ge> k. used m b y" using assms(2) that by (auto simp: held_def)
    ultimately show ?thesis using m'(3) by blast
  qed
  then show ?thesis using m'(1,2) by (auto simp: held_def)
qed

lemma held_fill:
  assumes "good m" "held m B" "(a, n) \<in> B"
  shows "good (fill a bs m) \<and> held (fill a bs m) B"
proof -
  obtain z where "used m a z" using assms(2,3) by (auto simp: held_def)
  then show ?thesis using fill_law [OF assms(1), of a z bs] assms(2) by (simp add: held_def)
qed

end

section \<open>The block memory keeps it\<close>

text \<open>The free list of a pool is what its links lead to.\<close>

fun walk :: "(u32 \<Rightarrow> u32) \<Rightarrow> u32 \<Rightarrow> nat \<Rightarrow> u32 list" where
  "walk m a 0 = []"
| "walk m a (Suc n) = a # walk m (m a) n"

definition free_of :: "bufmem \<Rightarrow> membuf_info \<Rightarrow> u32 list" where
  "free_of m p = walk (bm_mem m) (freep p) (nat (nfree p))"

definition in_use :: "bufmem \<Rightarrow> u32 \<Rightarrow> u32 \<Rightarrow> bool" where
  "in_use m a z \<longleftrightarrow> (\<exists>p \<in> set (mbufheap m). mb_active p \<and> a \<in> blocks p \<and> a \<notin> set (free_of m p) \<and> z = blksiz p)"

definition bm_good :: "bufmem \<Rightarrow> bool" where
  "bm_good m \<longleftrightarrow> (\<exists>F. bm_ok m F) \<and> (\<forall>p \<in> set (mbufheap m). nblks p < 2 ^ 31)"

lemma chain_walk: "chain m a fs \<Longrightarrow> walk m a (length fs) = fs"
  by (induction fs arbitrary: a) auto

lemma free_of_eq:
  assumes "bm_ok m F" "i < length (mbufheap m)" "mb_active (mbufheap m ! i)"
  shows "free_of m (mbufheap m ! i) = F i"
proof -
  have "pool_ok (bm_mem m) (mbufheap m ! i) (F i)" using assms by (simp add: bm_ok_def)
  then show ?thesis using chain_walk by (simp add: pool_ok_def free_of_def)
qed

lemma in_use_eq:
  assumes "bm_ok m F"
  shows "in_use m a z \<longleftrightarrow> (\<exists>i < length (mbufheap m). mb_active (mbufheap m ! i) \<and> a \<in> blocks (mbufheap m ! i) \<and> a \<notin> set (F i) \<and>
     z = blksiz (mbufheap m ! i))"
  unfolding in_use_def set_conv_nth using free_of_eq [OF assms] by auto

text \<open>Allocating and freeing leave the layout of the pools alone.\<close>

definition layout :: "membuf_info \<Rightarrow> bool \<times> u32 \<times> int \<times> u32" where
  "layout p = (mb_active p, memptr p, nblks p, blksiz p)"

lemma layout_malloc_any: "map layout (snd (malloc_any siz m ps)) = map layout ps"
proof (induction ps)
  case (Cons p ps)
  have "layout (snd (get_mbufblk p m)) = layout p" by (simp add: layout_def get_mbufblk_def Let_def)
  then show ?case using Cons by (auto split: prod.splits)
qed simp

lemma layout_bufmalloc: "sys_bufmalloc MEMBUF_ANY siz s = Some (a, s') \<Longrightarrow> map layout (mbufheap s') = map layout (mbufheap s)"
  using layout_malloc_any [of siz "bm_mem s" "mbufheap s"] by (auto simp: sys_bufmalloc_def split: prod.splits)

lemma layout_buffree: "sys_buffree MEMBUF_ANY a s = Some s' \<Longrightarrow> map layout (mbufheap s') = map layout (mbufheap s)"
  by (auto simp: sys_buffree_def Let_def arr_set_def arr_get_def layout_def map_update list_update_same_conv
      split: if_splits bind_splits)

lemma layoutD:
  assumes "map layout xs = map layout ys"
  shows "length xs = length ys" "i < length ys \<Longrightarrow> mb_active (xs ! i) = mb_active (ys ! i)"
    "i < length ys \<Longrightarrow> blocks (xs ! i) = blocks (ys ! i)" "i < length ys \<Longrightarrow> blksiz (xs ! i) = blksiz (ys ! i)"
    "i < length ys \<Longrightarrow> nblks (xs ! i) = nblks (ys ! i)"
proof -
  show len: "length xs = length ys" using assms by (metis length_map)
  assume i: "i < length ys"
  have "layout (xs ! i) = layout (ys ! i)" using assms i len by (metis nth_map)
  then show "mb_active (xs ! i) = mb_active (ys ! i)" "blocks (xs ! i) = blocks (ys ! i)" "blksiz (xs ! i) = blksiz (ys ! i)"
      "nblks (xs ! i) = nblks (ys ! i)"
    by (simp_all add: layout_def blocks_def block_def)
qed

lemma small_layout:
  assumes "map layout (mbufheap m') = map layout (mbufheap m)" "\<forall>p \<in> set (mbufheap m). nblks p < 2 ^ 31"
  shows "\<forall>p \<in> set (mbufheap m'). nblks p < 2 ^ 31"
  using layoutD(1,5) [OF assms(1)] assms(2) by (auto simp: set_conv_nth)

text \<open>Changing the free list of one pool changes which of its blocks are in use.\<close>

lemma in_use_update:
  assumes "bm_ok m F" "bm_ok m' (F(i := fs))" "map layout (mbufheap m') = map layout (mbufheap m)" "i < length (mbufheap m)"
    and "mb_active (mbufheap m ! i)" "a \<in> blocks (mbufheap m ! i)" "set (F i) - {a} = set fs - {a}" "b \<noteq> a"
  shows "in_use m' b z = in_use m b z"
proof -
  note l = layoutD [OF assms(3)]
  have "(b \<in> set ((F(i := fs)) j)) = (b \<in> set (F j))" for j using assms(7,8) by (cases "j = i") auto
  then show ?thesis unfolding in_use_eq [OF assms(1)] in_use_eq [OF assms(2)] using l by (metis (no_types, lifting))
qed

lemma one_pool:
  assumes "bm_ok m F" "i < length (mbufheap m)" "j < length (mbufheap m)" "mb_active (mbufheap m ! i)" "mb_active (mbufheap m ! j)"
    and "a \<in> blocks (mbufheap m ! i)" "a \<in> blocks (mbufheap m ! j)"
  shows "i = j"
proof (rule ccontr)
  assume "i \<noteq> j"
  then have ap: "apart (mbufheap m ! i) (mbufheap m ! j)" using assms unfolding bm_ok_def by blast
  have "pool_fits (mbufheap m ! i)" "pool_fits (mbufheap m ! j)" using assms by (auto simp: bm_ok_def pool_ok_def)
  then show False using apart_not_both [OF ap] blocks_range assms(6,7) by blast
qed

lemma alloc_keeps:
  assumes "bm_good m"
  shows "\<exists>a m'. sys_bufmalloc MEMBUF_ANY n m = Some (a, m') \<and> bm_good m' \<and>
      (if a = 0 then in_use m' = in_use m
       else (\<forall>z. \<not> in_use m a z) \<and> (\<exists>z \<ge> n. in_use m' a z) \<and> (\<forall>b z. b \<noteq> a \<longrightarrow> in_use m' b z = in_use m b z))"
proof -
  obtain F where ok: "bm_ok m F" using assms by (auto simp: bm_good_def)
  obtain a m' where a: "sys_bufmalloc MEMBUF_ANY n m = Some (a, m')" and
    res: "if a = 0 then (\<forall>i < length (mbufheap m). \<not> serves n (mbufheap m ! i) (F i)) \<and>
         mbufheap m' = mbufheap m \<and> bm_mem m' = bm_mem m \<and> bm_errno m' = Some EAGAIN
      else \<exists>i fs. i < length (mbufheap m) \<and> serves n (mbufheap m ! i) (F i) \<and> F i = a # fs \<and> bm_ok m' (F(i := fs))"
    using bm_malloc_any [OF ok, of n] by blast
  note lay = layout_bufmalloc [OF a]
  have small: "\<forall>p \<in> set (mbufheap m'). nblks p < 2 ^ 31" using small_layout [OF lay] assms by (simp add: bm_good_def)
  show ?thesis
  proof (cases "a = 0")
    case True
    then have eq: "mbufheap m' = mbufheap m" "bm_mem m' = bm_mem m" using res by auto
    have "bm_ok m' F" using ok by (simp add: bm_ok_def eq)
    moreover have "in_use m' = in_use m" by (simp add: in_use_def [abs_def] free_of_def eq)
    ultimately show ?thesis using True a small by (auto simp: bm_good_def)
  next
    case False
    then obtain i fs where i: "i < length (mbufheap m)" "serves n (mbufheap m ! i) (F i)" "F i = a # fs" "bm_ok m' (F(i := fs))"
      using res by auto
    have act: "mb_active (mbufheap m ! i)" "n \<le> blksiz (mbufheap m ! i)" using i(2) by (simp_all add: serves_def)
    have pool: "pool_ok (bm_mem m) (mbufheap m ! i) (a # fs)" using ok i(1,3) act(1) by (auto simp: bm_ok_def)
    then have fresh: "a \<notin> set fs" "a \<in> blocks (mbufheap m ! i)" by (auto simp: pool_ok_def)
    have "\<not> in_use m a z" for z
      using one_pool [OF ok i(1) _ act(1) _ fresh(2)] i(3) unfolding in_use_eq [OF ok] by fastforce
    moreover have "in_use m' a (blksiz (mbufheap m ! i))"
      unfolding in_use_eq [OF i(4)] using layoutD [OF lay] i(1) act(1) fresh by (intro exI [of _ i]) simp
    moreover have "in_use m' b z = in_use m b z" if "b \<noteq> a" for b z
      by (rule in_use_update [OF ok i(4) lay i(1) act(1) fresh(2) _ that]) (auto simp: i(3))
    moreover have "bm_good m'" using i(4) small by (auto simp: bm_good_def)
    ultimately show ?thesis using False a act(2) by auto
  qed
qed

lemma release_keeps:
  assumes "bm_good m" "in_use m a z"
  shows "\<exists>m'. sys_buffree MEMBUF_ANY a m = Some m' \<and> bm_good m' \<and> (\<forall>b z. b \<noteq> a \<longrightarrow> in_use m' b z = in_use m b z)"
proof -
  obtain F where ok: "bm_ok m F" using assms(1) by (auto simp: bm_good_def)
  obtain i where i: "i < length (mbufheap m)" "mb_active (mbufheap m ! i)" "a \<in> blocks (mbufheap m ! i)" "a \<notin> set (F i)"
    using assms(2) unfolding in_use_eq [OF ok] by blast
  obtain k where k: "k < nat (nblks (mbufheap m ! i))" "a = block (mbufheap m ! i) k" using i(3) by (auto simp: blocks_def)
  have "0 < unat (blksiz (mbufheap m ! i))" using ok i(1,2) by (auto simp: bm_ok_def pool_ok_def pool_fits_def)
  moreover have "nblks (mbufheap m ! i) < 2 ^ 31" using assms(1) i(1) by (simp add: bm_good_def)
  ultimately obtain m' where m': "sys_buffree MEMBUF_ANY a m = Some m'" "bm_ok m' (F(i := a # F i))"
    using bm_free_any [OF ok i(1,2) k(1), of a] i(4) k(2) by auto
  note lay = layout_buffree [OF m'(1)]
  have "\<forall>p \<in> set (mbufheap m'). nblks p < 2 ^ 31" using small_layout [OF lay] assms(1) by (simp add: bm_good_def)
  then have "bm_good m'" using m'(2) by (auto simp: bm_good_def)
  moreover have "in_use m' b y = in_use m b y" if "b \<noteq> a" for b y
    by (rule in_use_update [OF ok m'(2) lay i(1,2,3) _ that]) auto
  ultimately show ?thesis using m'(1) by blast
qed

lemma poke_keeps:
  assumes "bm_good m" "in_use m a z"
  shows "bm_good (poke a bs m) \<and> in_use (poke a bs m) = in_use m"
proof -
  obtain F where ok: "bm_ok m F" using assms(1) by (auto simp: bm_good_def)
  obtain i where i: "i < length (mbufheap m)" "mb_active (mbufheap m ! i)" "a \<in> blocks (mbufheap m ! i)" "a \<notin> set (F i)"
    using assms(2) unfolding in_use_eq [OF ok] by blast
  have heap: "mbufheap (poke a bs m) = mbufheap m" by (simp add: poke_def)
  have free: "a \<notin> set (F j)" if "j < length (mbufheap m)" "mb_active (mbufheap m ! j)" for j
  proof
    assume "a \<in> set (F j)"
    then have "a \<in> blocks (mbufheap m ! j)" using ok that by (auto simp: bm_ok_def pool_ok_def)
    then show False using one_pool [OF ok i(1) that(1) i(2) that(2) i(3)] i(4) \<open>a \<in> set (F j)\<close> by blast
  qed
  have "pool_ok (bm_mem (poke a bs m)) (mbufheap m ! j) (F j)" if j: "j < length (mbufheap m)" "mb_active (mbufheap m ! j)" for j
  proof -
    have "chain (bm_mem (poke a bs m)) x (F j) = chain (bm_mem m) x (F j)" for x
      by (rule chain_frame) (use free [OF j] in \<open>auto simp: poke_def\<close>)
    then show ?thesis using ok j by (simp add: bm_ok_def pool_ok_def)
  qed
  then have ok': "bm_ok (poke a bs m) F" using ok by (simp add: bm_ok_def heap)
  then have "in_use (poke a bs m) = in_use m" by (intro ext) (simp only: in_use_eq [OF ok] in_use_eq [OF ok'] heap)
  then show ?thesis using ok' assms(1) heap by (auto simp: bm_good_def)
qed

interpretation bp: block_pool "sys_bufmalloc MEMBUF_ANY" "sys_buffree MEMBUF_ANY" poke in_use bm_good
  by unfold_locales (fact alloc_keeps, fact release_keeps, fact poke_keeps)

end
