(* ===== verification/Kern_Msg_Inv.thy ===== *)
theory Kern_Msg_Inv
  imports Kern_Blocks
begin

text \<open>
  The invariant of the message queues. The first part says what a message call sees of the kernel below it:
  the values of the semaphores, the processes that wait for them and the continuations. The second part says who holds
  which block of the kernel memory. The third part is the invariant: the two semaphores of a queue
  count its free places and its messages, less the calls that are suspended.
\<close>

section \<open>What the message calls need of the kernel\<close>

definition msem :: "kernel \<Rightarrow> nat \<Rightarrow> bool" where
  "msem k i \<longleftrightarrow> i < length (sem_heap k) \<and> sem_id (sem_heap k ! i) \<noteq> 255 \<and> \<not> sem_unlinked (sem_heap k ! i)"

definition mval :: "kernel \<Rightarrow> nat \<Rightarrow> int" where
  "mval k i = sint (sem_value (sem_heap k ! i))"

abbreviation semw :: "kernel \<Rightarrow> nat \<Rightarrow> pid set" where
  "semw k i \<equiv> waiters (Sem_q i) k"

text \<open>The value of semaphore \<open>j\<close> changes by \<open>d\<close>, and \<open>W\<close> and \<open>C\<close> are the waiting processes and the continuations.\<close>

definition kgoes :: "kernel \<Rightarrow> int \<Rightarrow> nat \<Rightarrow> (nat \<Rightarrow> pid set) \<Rightarrow> (pid \<Rightarrow> kcont option) \<Rightarrow> kernel \<Rightarrow> bool" where
  "kgoes k d j W C k' \<longleftrightarrow>
     sync_inv False k' \<and> idle_task_pid k' = idle_task_pid k \<and> (\<forall>i. msem k' i = msem k i) \<and>
     (\<forall>i. msem k i \<longrightarrow> mval k' i = mval k i + (if i = j then d else 0)) \<and> (\<forall>i. semw k' i = W i) \<and> conts k' = C"

lemma sems_msem:
  assumes "sems k' = sems k"
  shows "msem k' i = msem k i" "msem k i \<Longrightarrow> mval k' i = mval k i"
proof -
  have len: "length (sem_heap k') = length (sem_heap k)" using assms by (metis length_map)
  have "sem_rest (sem_heap k' ! i) = sem_rest (sem_heap k ! i)" if "i < length (sem_heap k)"
    using arg_cong [OF assms, of "\<lambda>xs. xs ! i"] that len by simp
  then show "msem k' i = msem k i" "msem k i \<Longrightarrow> mval k' i = mval k i" using len by (auto simp: msem_def mval_def sem_rest_def)
qed

lemma sem_with_msem:
  assumes "sems k' = sem_with j v k" "j < length (sem_heap k)"
  shows "msem k' i = msem k i" "msem k i \<Longrightarrow> mval k' i = (if i = j then sint v else mval k i)"
proof -
  have len: "length (sem_heap k') = length (sem_heap k)" using arg_cong [OF assms(1), of length] by (simp add: sem_with_def Let_def)
  have "sem_rest (sem_heap k' ! i) = (if i = j then (let x = sem_heap k ! i in (sem_id x, v, sem_owner x, sem_unlinked x)) else sem_rest (sem_heap k ! i))"
    if "i < length (sem_heap k)"
    using arg_cong [OF assms(1), of "\<lambda>xs. xs ! i"] that len assms(2) by (auto simp: sem_with_def Let_def nth_list_update)
  then show "msem k' i = msem k i" "msem k i \<Longrightarrow> mval k' i = (if i = j then sint v else mval k i)"
    using len by (auto simp: msem_def mval_def sem_rest_def Let_def split: if_splits)
qed

lemma kgoes_arrives:
  assumes "arrives False k w (sems k) (mutexes k) k'" "views_ok False w (sems k) (mutexes k)"
    "\<And>i. wset (Sem_q i) w = semw k i" "conts k' = C"
  shows "kgoes k 0 j (semw k) C k'"
  using sync_arrives [OF assms(1,2)] assms(1) sems_msem [of k' k] assms(3,4)
  by (simp add: kgoes_def waiters_wset arrives_def)

lemma kgoes_same:
  assumes "becomes False k w (sems k) (mutexes k) k'" "views_ok False w (sems k) (mutexes k)"
    "\<And>i. wset (Sem_q i) w = semw k i" "conts k' = C"
  shows "kgoes k 0 j (semw k) C k'"
  using assms by (intro kgoes_arrives [of k w]) (simp_all add: becomes_def)

lemma kgoes_with:
  assumes "becomes False k w (sem_with j v k) (mutexes k) k'" "views_ok False w (sem_with j v k) (mutexes k)" "j < length (sem_heap k)"
    "\<And>i. wset (Sem_q i) w = W i" "conts k' = C" "sint v = mval k j + d"
  shows "kgoes k d j W C k'"
  using sync_becomes [OF assms(1,2)] becomes_eqD [OF assms(1)] sem_with_msem [of k' j v k] assms(3-6)
  by (simp add: kgoes_def waiters_wset)

lemma kgoes_trans:
  assumes "kgoes k d j W C k1" "kgoes k1 0 j' (semw k1) C' k2"
  shows "kgoes k d j W C' k2"
  using assms by (simp add: kgoes_def)

lemma kgoes_refl: "sync_inv False k \<Longrightarrow> kgoes k 0 j (semw k) (conts k) k"
  by (simp add: kgoes_def)

lemma msem_get: "msem k (unat v) \<Longrightarrow> get_sem_by_semt (Some v) k = Some (unat v)"
  by (simp add: msem_def get_sem_by_semt_def)

text \<open>A value is at most 126 below zero, since fewer processes can wait.\<close>

lemma waiting_value:
  assumes "sync_inv False k" "msem k i"
  shows "int (card (semw k i)) = max 0 (- mval k i)" "- 127 < mval k i"
proof -
  have i: "i < length (sem_heap k)" "sem_id (sem_heap k ! i) \<noteq> 255" using assms(2) by (simp_all add: msem_def)
  show acc: "int (card (semw k i)) = max 0 (- mval k i)"
    using sem_of_view [OF assms(1) _ i] by (simp add: mval_def waiters_wset)
  have "card (wset (Sem_q i) (wview k)) < 127" by (rule wset_small [OF kern_okD(1) [OF sync_invD(1) [OF assms(1)]] sem_queue [OF i(1)]])
  then show "- 127 < mval k i" using acc by (simp add: waiters_wset)
qed

lemma kg_wait:
  assumes "sync_inv False k" "current_pid k \<noteq> idle_task_pid k" "msem k (unat v)"
  shows "\<exists>k'. sys_sem_wait_x (Some v) k = Some (if mval k (unat v) > 0 then Ret 0 else Blocked, k') \<and>
     kgoes k (- 1) (unat v)
       (if mval k (unat v) > 0 then semw k else (semw k)(unat v := insert (current_pid k) (semw k (unat v))))
       (if mval k (unat v) > 0 then conts k else (conts k)(current_pid k := Some (K_sem_wait (unat v)))) k'"
proof -
  let ?i = "unat v" and ?c = "current_pid k"
  define x where "x = sem_value (sem_heap k ! ?i) - 1"
  have i: "?i < length (sem_heap k)" using assms(3) by (simp add: msem_def)
  have sx: "sint x = mval k ?i - 1" using waiting_value(2) [OF assms(1,3)] by (simp add: x_def sint_u8_dec mval_def)
  define w where "w = (if sint x < 0 then move ?c (Some (Sem_q ?i)) False k else wview k)"
  obtain k' where k': "sys_sem_wait_x (Some v) k = Some (if sint x < 0 then Blocked else Ret 0, k')"
      "becomes False k w (sem_with ?i x k) (mutexes k) k'"
      "conts k' = (if sint x < 0 then (conts k)(?c := Some (K_sem_wait ?i)) else conts k)"
    using sem_wait_ok [OF sync_invD(1) [OF assms(1)] assms(2) msem_get [OF assms(3)] x_def] unfolding w_def by blast
  have ok: "views_ok False w (sem_with ?i x k) (mutexes k)"
    by (rule views_sem_wait [OF assms(1) msem_get [OF assms(3)] x_def _ w_def]) simp
  note cur = cur_not_waiting [OF kern_okD(1) [OF sync_invD(1) [OF assms(1)]]]
  have ws: "wset (Sem_q j) w = (if sint x < 0 then (semw k)(?i := insert ?c (semw k ?i)) else semw k) j" for j
    using wset_move [OF cur(2), of "Sem_q j" "Some (Sem_q ?i)" False] cur(1) [of "Sem_q j"] by (auto simp: w_def waiters_wset)
  have "kgoes k (- 1) ?i (if sint x < 0 then (semw k)(?i := insert ?c (semw k ?i)) else semw k)
      (if sint x < 0 then (conts k)(?c := Some (K_sem_wait ?i)) else conts k) k'"
    by (rule kgoes_with [OF k'(2) ok i ws k'(3)]) (simp add: sx)
  moreover have "sint x < 0 \<longleftrightarrow> \<not> mval k ?i > 0" using sx by linarith
  ultimately show ?thesis using k'(1) by (cases "mval k ?i > 0") simp_all
qed

lemma kg_trywait:
  assumes "sync_inv False k" "msem k (unat v)"
  shows "\<exists>k'. sys_sem_trywait (Some v) k = Some (Ret (if mval k (unat v) > 0 then 0 else - 1), k') \<and>
     kgoes k (if mval k (unat v) > 0 then - 1 else 0) (unat v) (semw k) (conts k) k'"
proof -
  let ?i = "unat v"
  define x where "x = sem_value (sem_heap k ! ?i)"
  have i: "?i < length (sem_heap k)" using assms(2) by (simp add: msem_def)
  obtain k' where k': "sys_sem_trywait (Some v) k = Some (Ret (if sint x > 0 then 0 else - 1), k')"
      "becomes False k (wview k) (if sint x > 0 then sem_with ?i (x - 1) k else sems k) (mutexes k) k'" "conts k' = conts k"
    using sem_trywait_ok [OF sync_invD(1) [OF assms(1)] msem_get [OF assms(2)] x_def] by blast
  have "kgoes k (if sint x > 0 then - 1 else 0) ?i (semw k) (conts k) k'"
  proof (cases "sint x > 0")
    case True
    then have b: "becomes False k (wview k) (sem_with ?i (x - 1) k) (mutexes k) k'" using k'(2) by simp
    have "sint (x - 1) = mval k ?i + - 1" using sint_u8_dec [of x] True by (simp add: mval_def x_def)
    from kgoes_with [OF b views_sem_trywait [OF assms(1) msem_get [OF assms(2)] x_def True] i _ k'(3) this, of "semw k"]
    show ?thesis using True by (simp add: waiters_wset)
  next
    case False
    then have b: "becomes False k (wview k) (sems k) (mutexes k) k'" using k'(2) by simp
    from kgoes_same [OF b sync_invD(2) [OF assms(1)] _ k'(3)] show ?thesis using False by (simp add: waiters_wset)
  qed
  then show ?thesis using k'(1) by (auto simp: mval_def x_def)
qed

lemma kg_post:
  assumes "sync_inv False k" "msem k (unat v)" "mval k (unat v) < 127"
  shows "\<exists>k' W. sys_sem_post (Some v) k = Some (Ret 0, k') \<and> kgoes k 1 (unat v) W (conts k) k' \<and> (\<forall>i. W i \<subseteq> semw k i)"
proof -
  let ?i = "unat v"
  define x where "x = sem_value (sem_heap k ! ?i) + 1"
  have i: "?i < length (sem_heap k)" "\<not> sem_unlinked (sem_heap k ! ?i)" using assms(2) by (simp_all add: msem_def)
  have lim: "\<not> False \<Longrightarrow> sint (sem_value (sem_heap k ! ?i)) < 127" using assms(3) by (simp add: mval_def)
  have sx: "sint x = mval k ?i + 1" using sint_u8_inc lim by (simp add: x_def mval_def)
  note post = views_sem_post [OF assms(1) msem_get [OF assms(2)] x_def lim]
  obtain w sv k' where p: "sys_sem_post (Some v) k = Some (Ret 0, k')" "becomes False k w sv (mutexes k) k'" "conts k' = conts k"
     "if sint x \<le> 0 \<and> waiters (Sem_q ?i) k \<noteq> {} then
        resched k' \<and> sv = sem_with ?i x k \<and>
        (\<exists>p \<in> waiters (Sem_q ?i) k. (\<forall>y \<in> waiters (Sem_q ?i) k. prio_of (ptable k) p \<le> prio_of (ptable k) y) \<and> w = move p None False k)
      else
        w = wview k \<and> sv = (if sint x > 0 \<and> sem_unlinked (sem_heap k ! ?i) then (sems k)[?i := (255, 0, 255, False)] else sem_with ?i x k)"
    using sem_post_ok [OF sync_invD(1) [OF assms(1)] msem_get [OF assms(2)] x_def] by blast
  show ?thesis
  proof (cases "sint x \<le> 0 \<and> waiters (Sem_q ?i) k \<noteq> {}")
    case True
    then obtain q where q: "q \<in> semw k ?i" "w = move q None False k" "sv = sem_with ?i x k" using p(4) by auto
    have b: "becomes False k w (sem_with ?i x k) (mutexes k) k'" using p(2) q(3) by simp
    have ok: "views_ok False w (sem_with ?i x k) (mutexes k)" using post(1) q True unfolding waiters_wset by blast
    have "wset (Sem_q j) w \<subseteq> semw k j" for j
      using wset_move [OF wset_waiting(1) [of q "Sem_q ?i" "wview k"], of "Sem_q j" None False] q(1,2) by (auto simp: waiters_wset)
    then show ?thesis using p(1) kgoes_with [OF b ok i(1) refl p(3) sx] by blast
  next
    case False
    then have w: "w = wview k" "sv = sem_with ?i x k" using p(4) i(2) by auto
    have b: "becomes False k w (sem_with ?i x k) (mutexes k) k'" using p(2) w(2) by simp
    have ok: "views_ok False w (sem_with ?i x k) (mutexes k)" using post(2) False w(1) unfolding waiters_wset by blast
    then show ?thesis using p(1) kgoes_with [OF b ok i(1) refl p(3) sx] w(1) by (auto simp: waiters_wset)
  qed
qed

lemma kg_errno:
  assumes "sync_inv False k"
  shows "\<exists>k'. kerrno e k = Some k' \<and> kgoes k 0 j (semw k) (conts k) k'"
proof -
  obtain k' where k': "kerrno e k = Some k'" "becomes False k (wview k) (sems k) (mutexes k) k'" "conts k' = conts k"
    using kerrno_ok [OF sync_invD(1) [OF assms], of e] by blast
  show ?thesis using k'(1) kgoes_same [OF k'(2) sync_invD(2) [OF assms] _ k'(3)] by (simp add: waiters_wset)
qed

lemma kg_exit:
  assumes "sync_inv False k"
  shows "\<exists>k'. sys_exit k = Some k' \<and> kgoes k 0 j (semw k) (conts k) k'"
proof -
  obtain k' where k': "sys_exit k = Some k'" "becomes False k (wview k) (sems k) (mutexes k) k'" "conts k' = conts k"
    using exit_ok [OF sync_invD(1) [OF assms]] by blast
  show ?thesis using k'(1) kgoes_same [OF k'(2) sync_invD(2) [OF assms] _ k'(3)] by (simp add: waiters_wset)
qed

lemma kg_resume:
  assumes "sync_inv False k" "conts k (current_pid k) = Some c" "c = K_sleep \<or> (\<exists>i. c = K_sem_wait i \<and> msem k i)"
  shows "\<exists>k'. resume k = Some (Ret 0, k') \<and> kgoes k 0 j (semw k) ((conts k)(current_pid k := None)) k'"
proof -
  define k1 where "k1 = k\<lparr>conts := (conts k)(current_pid k := None)\<rparr>"
  note r = resumed_ok [OF sync_invD(1) [OF assms(1)] k1_def]
  have g: "kgoes k 0 j (semw k) ((conts k)(current_pid k := None)) k1"
    using kgoes_same [OF r(1) sync_invD(2) [OF assms(1)]] by (simp add: waiters_wset k1_def)
  show ?thesis
  proof (cases c)
    case K_sleep
    then show ?thesis using assms(2) g by (simp add: resume_def Let_def k1_def)
  next
    case (K_sem_wait i)
    then have m: "msem k i" using assms(3) by simp
    have inv1: "sync_inv False k1" using g by (simp add: kgoes_def)
    obtain k' where k': "sem_wait_end i k1 = Some (Ret (if sem_id (sem_heap k1 ! i) = 255 then - 1 else 0), k')"
        "becomes False k1 (wview k1) (sems k1) (mutexes k1) k'" "conts k' = conts k1"
      using sem_wait_end_ok [OF sync_invD(1) [OF inv1], of i] m r(3) by (auto simp: msem_def)
    have "kgoes k1 0 j (semw k1) (conts k1) k'" using kgoes_same [OF k'(2) sync_invD(2) [OF inv1] _ k'(3)] by (simp add: waiters_wset)
    from kgoes_trans [OF g this] have "kgoes k 0 j (semw k) ((conts k)(current_pid k := None)) k'" by (simp add: k1_def)
    moreover have "resume k = Some (Ret 0, k')" using assms(2) K_sem_wait k'(1) m r(3) by (simp add: resume_def Let_def msem_def flip: k1_def)
    ultimately show ?thesis by blast
  qed (use assms(3) in simp_all)
qed

lemma kg_irq:
  assumes "sync_inv False k"
  shows "\<exists>k'. timer_irq k = Some k' \<and> kgoes k 0 j (semw k) (conts k) k'"
proof -
  define w where "w = (\<lambda>p. map_option (if p \<in> due k then moved None False else id) (wview k p))"
  obtain k' where k': "timer_irq k = Some k'" "arrives False k w (sems k) (mutexes k) k'" "conts k' = conts k"
    using irq_ok [OF sync_invD(1) [OF assms]] unfolding w_def by blast
  have ok: "views_ok False w (sems k) (mutexes k)" unfolding w_def by (rule views_irq [OF assms])
  have "wset (Sem_q i) w = semw k i" for i
  proof -
    have sub: "wset (Sem_q i) w \<subseteq> wset (Sem_q i) (wview k)" by (auto simp: w_def wset_def moved_def)
    have "p \<notin> due k" if p: "p \<in> wset (Sem_q i) (wview k)" for p
    proof
      assume "p \<in> due k"
      then have "p \<in> fst ` set (tmr_view k)" unfolding due_def by force
      then obtain pr where "get_proc (ptable k) p = Some pr" "timed pr"
        using kern_okD(1) [OF sync_invD(1) [OF assms]] by (auto simp: k_inv_def k_wf_def tmr_ok_def)
      then show False using p sync_invD(4) [OF assms] by (auto simp: wset_def wview_def wait_key_def no_timed_def)
    qed
    then have "p \<in> wset (Sem_q i) w" if "p \<in> wset (Sem_q i) (wview k)" for p using that by (auto simp: wset_def w_def)
    then show ?thesis using sub by (auto simp: waiters_wset)
  qed
  then show ?thesis using k'(1) kgoes_arrives [OF k'(2) ok _ k'(3)] by blast
qed

lemma kg_sleep:
  assumes "sync_inv False k" "current_pid k \<noteq> idle_task_pid k"
  shows "\<exists>k'. sys_sleep t k = Some (Blocked, k') \<and> kgoes k 0 j (semw k) ((conts k)(current_pid k := Some K_sleep)) k'"
proof -
  obtain k' where k': "sys_sleep t k = Some (Blocked, k')" "becomes False k (move (current_pid k) None True k) (sems k) (mutexes k) k'"
      "conts k' = (conts k)(current_pid k := Some K_sleep)"
    using sleep_ok [OF sync_invD(1) [OF assms(1)] assms(2)] by blast
  note cur = cur_not_waiting [OF kern_okD(1) [OF sync_invD(1) [OF assms(1)]]]
  have "wset (Sem_q i) (move (current_pid k) None True k) = semw k i" for i
    using wset_move [OF cur(2), of "Sem_q i" None True] cur(1) [of "Sem_q i"] by (simp add: waiters_wset)
  then show ?thesis using k'(1) kgoes_same [OF k'(2) views_sleep [OF assms(1)] _ k'(3)] by blast
qed

section \<open>The blocks of the messages\<close>

text \<open>A block belongs to the queue its message is in or to the sender that waits for a place.\<close>

datatype owner = In_queue nat | Sender pid

definition active :: "msgid_ds list \<Rightarrow> nat \<Rightarrow> bool" where
  "active qs i \<longleftrightarrow> i < length qs \<and> msgid (qs ! i) \<noteq> - 1"

abbreviation msgs_of :: "msgid_ds list \<Rightarrow> nat \<Rightarrow> msg_t list" where
  "msgs_of qs i \<equiv> q_list (msg_q (qs ! i))"

definition queue_blocks :: "msgid_ds list \<Rightarrow> (u32 \<times> u32) set" where
  "queue_blocks qs = {(msg_buf x, msg_len x) | i x. active qs i \<and> x \<in> set (msgs_of qs i)}"

definition sender_blocks :: "(pid \<Rightarrow> mcont option) \<Rightarrow> (u32 \<times> u32) set" where
  "sender_blocks C = {(b, z). \<exists>p i d. C p = Some (M_snd i b d z)}"

definition owned ::
  "bufmem \<Rightarrow> (u32 \<Rightarrow> u8 list option) \<Rightarrow> (pid \<Rightarrow> mcont option) \<Rightarrow> msgid_ds list \<Rightarrow> (u32 \<Rightarrow> owner) \<Rightarrow> bool" where
  "owned m D C qs own \<longleftrightarrow>
     bm_good m \<and> bp.held m (queue_blocks qs) \<and> bp.held m (sender_blocks C) \<and>
     (\<forall>i. active qs i \<longrightarrow> distinct (map msg_buf (msgs_of qs i))) \<and>
     (\<forall>i x. active qs i \<and> x \<in> set (msgs_of qs i) \<longrightarrow>
        (\<exists>bs. D (msg_buf x) = Some bs \<and> length bs = unat (msg_len x)) \<and> own (msg_buf x) = In_queue i) \<and>
     (\<forall>p i b d z. C p = Some (M_snd i b d z) \<longrightarrow> own b = Sender p)"

definition mem_ok :: "bufmem \<Rightarrow> (u32 \<Rightarrow> u8 list option) \<Rightarrow> (pid \<Rightarrow> mcont option) \<Rightarrow> msgid_ds list \<Rightarrow> bool" where
  "mem_ok m D C qs \<longleftrightarrow> (\<exists>own. owned m D C qs own)"

text \<open>A block that is in use and not yet or no longer part of this.\<close>

definition extra :: "bufmem \<Rightarrow> (pid \<Rightarrow> mcont option) \<Rightarrow> msgid_ds list \<Rightarrow> u32 \<Rightarrow> u32 \<Rightarrow> bool" where
  "extra m C qs a z \<longleftrightarrow> bp.held m {(a, z)} \<and> a \<notin> fst ` (queue_blocks qs \<union> sender_blocks C)"

lemma held_Un: "bp.held m (A \<union> B) \<longleftrightarrow> bp.held m A \<and> bp.held m B"
  unfolding bp.held_def ball_Un by (rule refl)

lemma held_insert: "bp.held m (insert x B) \<longleftrightarrow> bp.held m {x} \<and> bp.held m B"
  unfolding bp.held_def by simp

lemma held_sub: "bp.held m A \<Longrightarrow> B \<subseteq> A \<Longrightarrow> bp.held m B"
  unfolding bp.held_def by blast

lemma ownedD:
  assumes "owned m D C qs own"
  shows "bm_good m" "bp.held m (queue_blocks qs)" "bp.held m (sender_blocks C)"
    "active qs i \<Longrightarrow> distinct (map msg_buf (msgs_of qs i))"
    "active qs i \<Longrightarrow> x \<in> set (msgs_of qs i) \<Longrightarrow> \<exists>bs. D (msg_buf x) = Some bs \<and> length bs = unat (msg_len x)"
    "active qs i \<Longrightarrow> x \<in> set (msgs_of qs i) \<Longrightarrow> own (msg_buf x) = In_queue i"
    "C p = Some (M_snd i b d z) \<Longrightarrow> own b = Sender p"
  using assms unfolding owned_def by simp_all

lemma mem_okI:
  assumes "bm_good m" "bp.held m (queue_blocks qs)" "bp.held m (sender_blocks C)"
    "\<And>i. active qs i \<Longrightarrow> distinct (map msg_buf (msgs_of qs i))"
    "\<And>i x. active qs i \<Longrightarrow> x \<in> set (msgs_of qs i) \<Longrightarrow> \<exists>bs. D (msg_buf x) = Some bs \<and> length bs = unat (msg_len x)"
    "\<And>i x. active qs i \<Longrightarrow> x \<in> set (msgs_of qs i) \<Longrightarrow> own (msg_buf x) = In_queue i"
    "\<And>p i b d z. C p = Some (M_snd i b d z) \<Longrightarrow> own b = Sender p"
  shows "mem_ok m D C qs"
proof -
  have "(\<exists>bs. D (msg_buf x) = Some bs \<and> length bs = unat (msg_len x)) \<and> own (msg_buf x) = In_queue i"
    if "active qs i \<and> x \<in> set (msgs_of qs i)" for i x
    using assms(5,6) [of i x] that by simp
  moreover have "own b = Sender p" if "C p = Some (M_snd i b d z)" for p i b d z by (rule assms(7) [OF that])
  ultimately have "owned m D C qs own" unfolding owned_def using assms(1-4) by blast
  then show ?thesis unfolding mem_ok_def by blast
qed

lemma mem_alloc:
  assumes "mem_ok m D C qs"
  shows "\<exists>a m'. sys_bufmalloc MEMBUF_ANY z m = Some (a, m') \<and> mem_ok m' D C qs \<and> (a \<noteq> 0 \<longrightarrow> extra m' C qs a z)"
proof -
  obtain own where own: "owned m D C qs own" using assms(1) unfolding mem_ok_def by blast
  note ok = ownedD [OF own]
  let ?B = "queue_blocks qs \<union> sender_blocks C"
  have "bp.held m ?B" using ok(2,3) by (simp add: held_Un)
  from bp.held_alloc [OF ok(1) this, of z] obtain a m' where a: "sys_bufmalloc MEMBUF_ANY z m = Some (a, m')" "bm_good m'" "bp.held m' ?B"
      "a \<noteq> 0 \<longrightarrow> a \<notin> fst ` ?B \<and> bp.held m' (insert (a, z) ?B)" by blast
  have "extra m' C qs a z" if "a \<noteq> 0" using a(4) that held_insert [of m' "(a, z)" ?B] by (simp add: extra_def)
  moreover have "owned m' D C qs own" using own a(2,3) by (simp add: owned_def held_Un)
  ultimately show ?thesis using a(1) unfolding mem_ok_def by blast
qed

lemma queue_block_in: "active qs i \<Longrightarrow> x \<in> set (msgs_of qs i) \<Longrightarrow> (msg_buf x, msg_len x) \<in> queue_blocks qs"
  by (auto simp: queue_blocks_def)

lemma extra_not_queued: "extra m C qs a z \<Longrightarrow> active qs i \<Longrightarrow> x \<in> set (msgs_of qs i) \<Longrightarrow> msg_buf x \<noteq> a"
  using queue_block_in by (force simp: extra_def)

lemma extra_not_sent: "extra m C qs a z \<Longrightarrow> C p = Some (M_snd i b d y) \<Longrightarrow> b \<noteq> a"
  by (force simp: extra_def sender_blocks_def)

lemma mem_free:
  assumes "mem_ok m D C qs" "extra m C qs a z"
  shows "\<exists>m'. sys_buffree MEMBUF_ANY a m = Some m' \<and> mem_ok m' (D(a := None)) C qs"
proof -
  obtain own where own: "owned m D C qs own" using assms(1) unfolding mem_ok_def by blast
  note ok = ownedD [OF own]
  let ?B = "queue_blocks qs \<union> sender_blocks C"
  have h: "bp.held m (insert (a, z) ?B)" "a \<notin> fst ` ?B"
    using assms(2) ok(2,3) held_insert [of m "(a, z)" ?B] by (simp_all add: extra_def held_Un)
  obtain m' where m': "sys_buffree MEMBUF_ANY a m = Some m'" "bm_good m'" "bp.held m' ?B" using bp.held_release [OF ok(1) h] by blast
  have "\<exists>bs. (D(a := None)) (msg_buf x) = Some bs \<and> length bs = unat (msg_len x)" if "active qs i" "x \<in> set (msgs_of qs i)" for i x
    using ok(5) [OF that] extra_not_queued [OF assms(2) that] by simp
  moreover have "bp.held m' (queue_blocks qs)" "bp.held m' (sender_blocks C)" using m'(3) by (simp_all add: held_Un)
  ultimately have "mem_ok m' (D(a := None)) C qs" by (intro mem_okI [where own = own, OF m'(2) _ _ ok(4) _ ok(6,7)])
  then show ?thesis using m'(1) by blast
qed

text \<open>A sender that has to wait keeps its block, and gets it back.\<close>

lemma mem_wait:
  assumes "mem_ok m D C qs" "extra m C qs a z"
  shows "mem_ok m D (C(p := Some (M_snd i a d z))) qs"
proof -
  obtain own where own: "owned m D C qs own" using assms(1) unfolding mem_ok_def by blast
  note ok = ownedD [OF own]
  have "sender_blocks (C(p := Some (M_snd i a d z))) \<subseteq> insert (a, z) (sender_blocks C)"
    unfolding sender_blocks_def by (auto split: if_splits)
  moreover have "bp.held m (insert (a, z) (sender_blocks C))"
    using assms(2) ok(3) held_insert [of m "(a, z)" "sender_blocks C"] by (simp add: extra_def)
  ultimately have "bp.held m (sender_blocks (C(p := Some (M_snd i a d z))))" by (rule held_sub [rotated])
  moreover have "(own(a := Sender p)) (msg_buf x) = In_queue j" if "active qs j" "x \<in> set (msgs_of qs j)" for j x
    using ok(6) [OF that] extra_not_queued [OF assms(2) that] by simp
  moreover have "(own(a := Sender p)) b = Sender q" if "(C(p := Some (M_snd i a d z))) q = Some (M_snd j b e y)" for q j b e y
  proof (cases "q = p")
    case False
    then have "C q = Some (M_snd j b e y)" using that by simp
    from ok(7) [OF this] extra_not_sent [OF assms(2) this] show ?thesis by simp
  qed (use that in simp)
  ultimately show ?thesis by (intro mem_okI [where own = "own(a := Sender p)", OF ok(1,2) _ ok(4,5)])
qed

lemma mem_fewer:
  assumes "mem_ok m D C qs" "\<And>q i b d z. C' q = Some (M_snd i b d z) \<Longrightarrow> C q = Some (M_snd i b d z)"
  shows "mem_ok m D C' qs"
proof -
  obtain own where own: "owned m D C qs own" using assms(1) unfolding mem_ok_def by blast
  note ok = ownedD [OF own]
  have "sender_blocks C' \<subseteq> sender_blocks C" using assms(2) unfolding sender_blocks_def by blast
  then have "bp.held m (sender_blocks C')" by (rule held_sub [OF ok(3)])
  then show ?thesis by (rule mem_okI [where own = own, OF ok(1,2) _ ok(4-6) ok(7) [OF assms(2)]])
qed

lemma mem_wake:
  assumes "mem_ok m D C qs" "C p = Some (M_snd i a d z)"
  shows "mem_ok m D (C(p := None)) qs" "extra m (C(p := None)) qs a z"
proof -
  show "mem_ok m D (C(p := None)) qs" by (rule mem_fewer [OF assms(1)]) (simp split: if_splits)
  obtain own where own: "owned m D C qs own" using assms(1) unfolding mem_ok_def by blast
  note ok = ownedD [OF own]
  have a: "own a = Sender p" by (rule ok(7) [OF assms(2)])
  have "a \<notin> fst ` queue_blocks qs"
  proof
    assume "a \<in> fst ` queue_blocks qs"
    then obtain j x where "active qs j" "x \<in> set (msgs_of qs j)" "a = msg_buf x" by (auto simp: queue_blocks_def)
    then show False using ok(6) a by simp
  qed
  moreover have "a \<notin> fst ` sender_blocks (C(p := None))"
  proof
    assume "a \<in> fst ` sender_blocks (C(p := None))"
    then obtain y q j e where "(C(p := None)) q = Some (M_snd j a e y)" by (auto simp: sender_blocks_def)
    then have "q \<noteq> p" "C q = Some (M_snd j a e y)" by (simp_all split: if_splits)
    then show False using ok(7) [of q j a e y] a by simp
  qed
  moreover have "{(a, z)} \<subseteq> sender_blocks C" using assms(2) by (auto simp: sender_blocks_def)
  then have "bp.held m {(a, z)}" by (rule held_sub [OF ok(3)])
  ultimately show "extra m (C(p := None)) qs a z" by (simp add: extra_def image_Un)
qed

text \<open>A block enters a queue at its end and leaves it at its front.\<close>

lemma active_upd: "i < length qs \<Longrightarrow> msgid q' = msgid (qs ! i) \<Longrightarrow> active (qs[i := q']) j = active qs j"
  by (cases "j = i") (simp_all add: active_def)

lemma mem_put:
  assumes "mem_ok m D C qs" "extra m C qs a z" "active qs i" "msgid q' = msgid (qs ! i)"
    and "q_list (msg_q q') = msgs_of qs i @ [x]" "x = \<lparr>msg_buf = a, msg_len = z\<rparr>" "length bs = unat z"
  shows "mem_ok (poke a bs m) (D(a \<mapsto> bs)) C (qs[i := q'])"
proof -
  obtain own where own: "owned m D C qs own" using assms(1) unfolding mem_ok_def by blast
  note ok = ownedD [OF own]
  let ?qs = "qs[i := q']"
  have i: "i < length qs" using assms(3) by (simp add: active_def)
  note act = active_upd [OF i assms(4)]
  have ms: "msgs_of ?qs j = (if j = i then msgs_of qs i @ [x] else msgs_of qs j)" for j using i assms(5) by simp
  have old_or_new: "y \<in> set (msgs_of qs j) \<or> j = i \<and> y = x" if "y \<in> set (msgs_of ?qs j)" for y j using that by (auto simp: ms split: if_splits)
  note out = extra_not_queued [OF assms(2)]
  have "queue_blocks ?qs \<subseteq> insert (a, z) (queue_blocks qs)"
  proof
    fix u
    assume "u \<in> queue_blocks ?qs"
    then obtain j y where y: "active qs j" "y \<in> set (msgs_of ?qs j)" "u = (msg_buf y, msg_len y)" by (auto simp: queue_blocks_def act)
    show "u \<in> insert (a, z) (queue_blocks qs)"
      using old_or_new [OF y(2)] queue_block_in [OF y(1), of y] y(3) assms(6) by auto
  qed
  moreover have "bp.held m (insert (a, z) (queue_blocks qs))" using assms(2) ok(2) held_insert [of m "(a, z)" "queue_blocks qs"] by (simp add: extra_def)
  ultimately have "bp.held m (queue_blocks ?qs)" by (rule held_sub [rotated])
  then have "bp.held m (insert (a, z) (queue_blocks ?qs \<union> sender_blocks C))"
    using assms(2) ok(3) held_insert [of m "(a, z)" "queue_blocks ?qs \<union> sender_blocks C"] by (simp add: extra_def held_Un)
  from bp.held_fill [OF ok(1) this, of a z bs] held_insert [of "poke a bs m" "(a, z)" "queue_blocks ?qs \<union> sender_blocks C"]
  have mem: "bm_good (poke a bs m)" "bp.held (poke a bs m) (queue_blocks ?qs)" "bp.held (poke a bs m) (sender_blocks C)"
    by (simp_all add: held_Un)
  show ?thesis
  proof (rule mem_okI [OF mem, where own = "own(a := In_queue i)"])
    fix j
    assume "active ?qs j"
    then have aj: "active qs j" using act by simp
    have "a \<notin> msg_buf ` set (msgs_of qs i)" using out [OF assms(3)] by auto
    then show "distinct (map msg_buf (msgs_of ?qs j))" using ok(4) [OF aj] assms(6) by (auto simp: ms)
    fix y
    assume y: "y \<in> set (msgs_of ?qs j)"
    show "\<exists>cs. (D(a \<mapsto> bs)) (msg_buf y) = Some cs \<and> length cs = unat (msg_len y)"
      using old_or_new [OF y]
    proof
      assume o: "y \<in> set (msgs_of qs j)"
      show ?thesis using ok(5) [OF aj o] out [OF aj o] by simp
    qed (use assms(6,7) in simp)
    show "(own(a := In_queue i)) (msg_buf y) = In_queue j"
      using old_or_new [OF y]
    proof
      assume o: "y \<in> set (msgs_of qs j)"
      show ?thesis using ok(6) [OF aj o] out [OF aj o] by simp
    qed (use assms(6) in simp)
  next
    fix p j b e y
    assume "C p = Some (M_snd j b e y)"
    from ok(7) [OF this] extra_not_sent [OF assms(2) this] show "(own(a := In_queue i)) b = Sender p" by simp
  qed
qed

lemma mem_get:
  assumes "mem_ok m D C qs" "active qs i" "msgid q' = msgid (qs ! i)" "msgs_of qs i = x # xs" "q_list (msg_q q') = xs"
  shows "mem_ok m D C (qs[i := q'])" "extra m C (qs[i := q']) (msg_buf x) (msg_len x)"
proof -
  obtain own where own: "owned m D C qs own" using assms(1) unfolding mem_ok_def by blast
  note ok = ownedD [OF own]
  let ?qs = "qs[i := q']"
  have i: "i < length qs" using assms(2) by (simp add: active_def)
  note act = active_upd [OF i assms(3)]
  have ms: "msgs_of ?qs j = (if j = i then xs else msgs_of qs j)" for j using i assms(5) by simp
  have sub: "y \<in> set (msgs_of qs j)" if "y \<in> set (msgs_of ?qs j)" for y j using that assms(4) by (auto simp: ms split: if_splits)
  have d: "distinct (msg_buf x # map msg_buf xs)" using ok(4) [OF assms(2)] assms(4) by simp
  have "queue_blocks ?qs \<subseteq> queue_blocks qs"
  proof
    fix u
    assume "u \<in> queue_blocks ?qs"
    then obtain j y where "active qs j" "y \<in> set (msgs_of ?qs j)" "u = (msg_buf y, msg_len y)" by (auto simp: queue_blocks_def act)
    then show "u \<in> queue_blocks qs" using queue_block_in sub by blast
  qed
  then have qb: "bp.held m (queue_blocks ?qs)" by (rule held_sub [OF ok(2)])
  show "mem_ok m D C ?qs"
  proof (rule mem_okI [where own = own, OF ok(1) qb ok(3) _ _ _ ok(7)])
    fix j
    assume "active ?qs j"
    then have aj: "active qs j" using act by simp
    show "distinct (map msg_buf (msgs_of ?qs j))" using ok(4) [OF aj] d by (simp add: ms)
    fix y
    assume y: "y \<in> set (msgs_of ?qs j)"
    show "\<exists>bs. D (msg_buf y) = Some bs \<and> length bs = unat (msg_len y)" by (rule ok(5) [OF aj sub [OF y]])
    show "own (msg_buf y) = In_queue j" by (rule ok(6) [OF aj sub [OF y]])
  qed
  have o: "own (msg_buf x) = In_queue i" using ok(6) [OF assms(2)] assms(4) by simp
  have "msg_buf x \<notin> fst ` sender_blocks C"
  proof
    assume "msg_buf x \<in> fst ` sender_blocks C"
    then obtain y q j e where "C q = Some (M_snd j (msg_buf x) e y)" by (auto simp: sender_blocks_def)
    then show False using ok(7) o by simp
  qed
  moreover have "msg_buf x \<notin> fst ` queue_blocks ?qs"
  proof
    assume "msg_buf x \<in> fst ` queue_blocks ?qs"
    then obtain j y where y: "active qs j" "y \<in> set (msgs_of ?qs j)" "msg_buf y = msg_buf x" by (auto simp: queue_blocks_def act)
    then have "j = i" using ok(6) [OF y(1) sub [OF y(2)]] o by simp
    then show False using y(2,3) d by (metis distinct.simps(2) imageI list.set_map ms)
  qed
  moreover have "{(msg_buf x, msg_len x)} \<subseteq> queue_blocks qs" using queue_block_in [OF assms(2), of x] assms(4) by simp
  then have "bp.held m {(msg_buf x, msg_len x)}" by (rule held_sub [OF ok(2)])
  ultimately show "extra m C ?qs (msg_buf x) (msg_len x)" by (simp add: extra_def image_Un)
qed

section \<open>The invariant of the message queues\<close>

definition senders :: "(pid \<Rightarrow> mcont option) \<Rightarrow> nat \<Rightarrow> pid set" where
  "senders C i = {p. \<exists>b d z. C p = Some (M_snd i b d z)}"

definition receivers :: "(pid \<Rightarrow> mcont option) \<Rightarrow> nat \<Rightarrow> pid set" where
  "receivers C i = {p. \<exists>z f. C p = Some (M_rcv i z f)}"

text \<open>
  The semaphores count: the free places are those of the ring less the suspended senders, and the messages
  less the suspended receivers. Inside a call one of the equations is off by one, by \<open>df\<close> or \<open>de\<close>. \<open>L\<close> limits
  the length of the messages.
\<close>

definition queue_ok :: "int \<Rightarrow> int \<Rightarrow> u32 \<Rightarrow> kernel \<Rightarrow> (pid \<Rightarrow> mcont option) \<Rightarrow> nat \<Rightarrow> msgid_ds \<Rightarrow> bool" where
  "queue_ok df de L k C i q \<longleftrightarrow>
     q_ok (msg_q q) \<and> unat (max_items (msg_q q)) \<le> 127 \<and> msem k (unat (mq_full q)) \<and> msem k (unat (mq_empty q)) \<and>
     mq_full q \<noteq> mq_empty q \<and> (\<forall>x \<in> set (q_list (msg_q q)). msg_len x \<le> L) \<and>
     semw k (unat (mq_full q)) \<subseteq> senders C i \<and> semw k (unat (mq_empty q)) \<subseteq> receivers C i \<and>
     mval k (unat (mq_full q)) + int (card (senders C i)) + int (length (q_list (msg_q q))) = int (unat (max_items (msg_q q))) - df \<and>
     mval k (unat (mq_empty q)) + int (card (receivers C i)) = int (length (q_list (msg_q q))) - de"

text \<open>No semaphore belongs to two queues.\<close>

definition sems_apart :: "msgid_ds list \<Rightarrow> bool" where
  "sems_apart qs \<longleftrightarrow>
     (\<forall>i j. active qs i \<and> active qs j \<and> i \<noteq> j \<longrightarrow> {mq_full (qs ! i), mq_empty (qs ! i)} \<inter> {mq_full (qs ! j), mq_empty (qs ! j)} = {})"

text \<open>A process that is suspended in a message call waits for the semaphore of this call.\<close>

definition cont_rel :: "u32 \<Rightarrow> msgid_ds list \<Rightarrow> kcont option \<Rightarrow> mcont option \<Rightarrow> bool" where
  "cont_rel L qs kc mc =
     (case mc of
        None \<Rightarrow> kc = None \<or> kc = Some K_sleep
      | Some (M_snd i b d z) \<Rightarrow> active qs i \<and> kc = Some (K_sem_wait (unat (mq_full (qs ! i)))) \<and> unat z \<le> length d \<and> z \<le> L
      | Some (M_rcv i z f) \<Rightarrow> active qs i \<and> kc = Some (K_sem_wait (unat (mq_empty (qs ! i)))) \<and> L \<le> z)"

definition queues_ok :: "nat \<Rightarrow> int \<Rightarrow> int \<Rightarrow> u32 \<Rightarrow> kernel \<Rightarrow> (pid \<Rightarrow> mcont option) \<Rightarrow> msgid_ds list \<Rightarrow> bool" where
  "queues_ok i0 df de L k C qs \<longleftrightarrow>
     sems_apart qs \<and>
     (\<forall>i. active qs i \<longrightarrow> queue_ok (if i = i0 then df else 0) (if i = i0 then de else 0) L k C i (qs ! i)) \<and>
     (\<forall>p. cont_rel L qs (conts k p) (C p))"

definition msg_inv :: "nat \<Rightarrow> int \<Rightarrow> int \<Rightarrow> u32 \<Rightarrow> msgsys \<Rightarrow> bool" where
  "msg_inv i0 df de L s \<longleftrightarrow>
     sync_inv False (ms_kern s) \<and> mem_ok (ms_mem s) (ms_data s) (ms_conts s) (ms_heap s) \<and>
     queues_ok i0 df de L (ms_kern s) (ms_conts s) (ms_heap s)"

lemma msg_invD:
  assumes "msg_inv i0 df de L s"
  shows "sync_inv False (ms_kern s)" "mem_ok (ms_mem s) (ms_data s) (ms_conts s) (ms_heap s)"
    "queues_ok i0 df de L (ms_kern s) (ms_conts s) (ms_heap s)"
  using assms by (simp_all add: msg_inv_def)

lemma queues_okD:
  assumes "queues_ok i0 df de L k C qs"
  shows "sems_apart qs" "active qs i \<Longrightarrow> queue_ok (if i = i0 then df else 0) (if i = i0 then de else 0) L k C i (qs ! i)"
    "cont_rel L qs (conts k p) (C p)"
  using assms by (simp_all add: queues_ok_def)

lemma queues_okI:
  assumes "sems_apart qs" "\<And>i. active qs i \<Longrightarrow> queue_ok (if i = i0 then df else 0) (if i = i0 then de else 0) L k C i (qs ! i)"
    "\<And>p. cont_rel L qs (conts k p) (C p)"
  shows "queues_ok i0 df de L k C qs"
  using assms by (simp add: queues_ok_def)

lemma queue_okD:
  assumes "queue_ok df de L k C i q"
  shows "q_ok (msg_q q)" "unat (max_items (msg_q q)) \<le> 127" "msem k (unat (mq_full q))" "msem k (unat (mq_empty q))"
    "mq_full q \<noteq> mq_empty q" "\<forall>x \<in> set (q_list (msg_q q)). msg_len x \<le> L"
    "semw k (unat (mq_full q)) \<subseteq> senders C i" "semw k (unat (mq_empty q)) \<subseteq> receivers C i"
    "mval k (unat (mq_full q)) + int (card (senders C i)) + int (length (q_list (msg_q q))) = int (unat (max_items (msg_q q))) - df"
    "mval k (unat (mq_empty q)) + int (card (receivers C i)) = int (length (q_list (msg_q q))) - de"
  using assms unfolding queue_ok_def by blast+

text \<open>The number of waiting processes bounds the values from below.\<close>

lemma room_left:
  assumes "sync_inv False k" "queue_ok df de L k C i q"
  shows "0 \<le> mval k (unat (mq_full q)) + int (card (senders C i))" "0 \<le> mval k (unat (mq_empty q)) + int (card (receivers C i))"
proof -
  note q = queue_okD [OF assms(2)]
  have "card (semw k (unat (mq_full q))) \<le> card (senders C i)" "card (semw k (unat (mq_empty q))) \<le> card (receivers C i)"
    using q(7,8) by (auto intro: card_mono)
  then show "0 \<le> mval k (unat (mq_full q)) + int (card (senders C i))" "0 \<le> mval k (unat (mq_empty q)) + int (card (receivers C i))"
    using waiting_value(1) [OF assms(1) q(3)] waiting_value(1) [OF assms(1) q(4)] by linarith+
qed

text \<open>The kernel changes a semaphore of one queue.\<close>

lemma queue_ok_kern:
  assumes "queue_ok df de L k C i q" "kgoes k d j W Cc k'" "\<And>x. W x \<subseteq> semw k x"
    and "df' = (if j = unat (mq_full q) then df - d else df)" "de' = (if j = unat (mq_empty q) then de - d else de)"
  shows "queue_ok df' de' L k' C i q"
proof -
  note q = queue_okD [OF assms(1)]
  have k: "\<And>i. msem k' i = msem k i" "\<And>i. msem k i \<Longrightarrow> mval k' i = mval k i + (if i = j then d else 0)" "\<And>i. semw k' i = W i"
    using assms(2) by (simp_all add: kgoes_def)
  have "semw k' (unat (mq_full q)) \<subseteq> senders C i" "semw k' (unat (mq_empty q)) \<subseteq> receivers C i" using q(7,8) k(3) assms(3) by blast+
  moreover have "mval k' (unat (mq_full q)) = mval k (unat (mq_full q)) + (if j = unat (mq_full q) then d else 0)"
      "mval k' (unat (mq_empty q)) = mval k (unat (mq_empty q)) + (if j = unat (mq_empty q) then d else 0)"
    using k(2) [OF q(3)] k(2) [OF q(4)] by simp_all
  ultimately show ?thesis using q(1-6,9,10) k(1) assms(4,5) unfolding queue_ok_def by auto
qed

lemma sem_of_one_queue:
  assumes "sems_apart qs" "active qs i" "active qs j" "u \<in> {mq_full (qs ! i), mq_empty (qs ! i)}" "u \<in> {mq_full (qs ! j), mq_empty (qs ! j)}"
  shows "i = j"
  using assms unfolding sems_apart_def by blast

lemma queues_ok_kern:
  assumes "queues_ok i0 df de L k C qs" "kgoes k d (unat u) W Cc k'" "\<And>x. W x \<subseteq> semw k x" "\<And>p. cont_rel L qs (Cc p) (C p)"
    and "active qs i0" "u = mq_full (qs ! i0) \<and> df' = df - d \<and> de' = de \<or> u = mq_empty (qs ! i0) \<and> df' = df \<and> de' = de - d"
  shows "queues_ok i0 df' de' L k' C qs"
proof (rule queues_okI)
  note qs = queues_okD [OF assms(1)]
  show "sems_apart qs" by (rule qs(1))
  show "cont_rel L qs (conts k' p) (C p)" for p using assms(2,4) by (simp add: kgoes_def)
  fix i
  assume i: "active qs i"
  have mine: "mq_full (qs ! i0) \<noteq> mq_empty (qs ! i0)" using queue_okD(5) [OF qs(2) [OF assms(5)]] .
  have other: "u \<noteq> mq_full (qs ! i) \<and> u \<noteq> mq_empty (qs ! i)" if "i \<noteq> i0"
    using sem_of_one_queue [OF qs(1) assms(5) i, of u] assms(6) that by blast
  show "queue_ok (if i = i0 then df' else 0) (if i = i0 then de' else 0) L k' C i (qs ! i)"
    by (rule queue_ok_kern [OF qs(2) [OF i] assms(2,3)]) (use assms(6) other mine in \<open>auto simp: word_unat_eq_iff [symmetric]\<close>)
qed

text \<open>A step of the kernel that changes no semaphore.\<close>

lemma queues_ok_same:
  assumes "queues_ok i0 df de L k C qs" "kgoes k 0 j (semw k) Cc k'" "\<And>p. cont_rel L qs (Cc p) (C p)"
  shows "queues_ok i0 df de L k' C qs"
proof (rule queues_okI)
  note qs = queues_okD [OF assms(1)]
  show "sems_apart qs" by (rule qs(1))
  show "cont_rel L qs (conts k' p) (C p)" for p using assms(2,3) by (simp add: kgoes_def)
  show "queue_ok (if i = i0 then df else 0) (if i = i0 then de else 0) L k' C i (qs ! i)" if "active qs i" for i
    by (rule queue_ok_kern [OF qs(2) [OF that] assms(2)]) simp_all
qed

lemma msg_inv_kern:
  assumes "msg_inv i0 df de L s" "kgoes (ms_kern s) 0 j (semw (ms_kern s)) (conts (ms_kern s)) k'"
  shows "msg_inv i0 df de L (s\<lparr>ms_kern := k'\<rparr>)"
  using msg_invD [OF assms(1)] queues_ok_same [OF msg_invD(3) [OF assms(1)] assms(2) queues_okD(3) [OF msg_invD(3) [OF assms(1)]]] assms(2)
  by (simp add: msg_inv_def kgoes_def)

text \<open>The contents of a queue.\<close>

definition contents :: "msgsys \<Rightarrow> nat \<Rightarrow> u8 list list" where
  "contents s i = map (\<lambda>x. the (ms_data s (msg_buf x))) (msgs_of (ms_heap s) i)"

lemma ms_fail_ok:
  assumes "msg_inv i0 df de L s"
  shows "\<exists>k'. ms_fail e s = Some (Ret (- 1), s\<lparr>ms_kern := k'\<rparr>) \<and> msg_inv i0 df de L (s\<lparr>ms_kern := k'\<rparr>) \<and>
     idle_task_pid k' = idle_task_pid (ms_kern s)"
proof -
  obtain k' where k': "kerrno e (ms_kern s) = Some k'" "kgoes (ms_kern s) 0 0 (semw (ms_kern s)) (conts (ms_kern s)) k'"
    using kg_errno [OF msg_invD(1) [OF assms], of e 0] by blast
  then show ?thesis using msg_inv_kern [OF assms k'(2)] by (auto simp: ms_fail_def kgoes_def)
qed

end
