(* ===== verification/Kern_Deliver.thy ===== *)
theory Kern_Deliver
  imports Kern_Msg_Inv
begin

text \<open>
  Messages between processes: under every interleaving of sends, receives, new queues, sleeping, continued calls and
  timer interrupts that meets the conditions \<open>mevent_ok\<close> the kernel keeps its message queues well formed and delivers every message once and in order.
\<close>

section \<open>Storing a message and taking it out\<close>

text \<open>A call changes the contents of queue \<open>i\<close> to \<open>xs\<close> and no other queue.\<close>

definition changes :: "nat \<Rightarrow> u8 list list \<Rightarrow> msgsys \<Rightarrow> msgsys \<Rightarrow> bool" where
  "changes i xs s s' \<longleftrightarrow>
     idle_task_pid (ms_kern s') = idle_task_pid (ms_kern s) \<and> active (ms_heap s') = active (ms_heap s) \<and>
     length (ms_heap s') = length (ms_heap s) \<and> (\<forall>j. \<not> active (ms_heap s) j \<longrightarrow> ms_heap s' ! j = ms_heap s ! j) \<and>
     (\<forall>j. active (ms_heap s) j \<longrightarrow> contents s' j = (if j = i then xs else contents s j))"

lemma changes_trans: "changes i xs s s1 \<Longrightarrow> changes i ys s1 s2 \<Longrightarrow> changes i ys s s2"
  by (simp add: changes_def)

lemma changes_same:
  assumes "idle_task_pid (ms_kern s') = idle_task_pid (ms_kern s)" "ms_heap s' = ms_heap s" "ms_data s' = ms_data s"
  shows "changes i (contents s i) s s'"
  using assms by (simp add: changes_def contents_def)

text \<open>The ring of one queue changes, and its counts with it.\<close>

lemma cont_rel_upd:
  assumes "i < length qs" "msgid q' = msgid (qs ! i)" "mq_full q' = mq_full (qs ! i)" "mq_empty q' = mq_empty (qs ! i)"
  shows "cont_rel L (qs[i := q']) kc mc = cont_rel L qs kc mc"
proof -
  have "mq_full (qs[i := q'] ! j) = mq_full (qs ! j)" "mq_empty (qs[i := q'] ! j) = mq_empty (qs ! j)" for j
    using assms by (cases "j = i"; simp)+
  then show ?thesis by (simp add: cont_rel_def active_upd [OF assms(1,2)] split: option.split mcont.split)
qed

lemma queues_ok_ring:
  assumes "queues_ok i df de L k C qs" "active qs i" "msgid q' = msgid (qs ! i)" "mq_full q' = mq_full (qs ! i)" "mq_empty q' = mq_empty (qs ! i)"
    and "q_ok (msg_q q')" "max_items (msg_q q') = max_items (msg_q (qs ! i))" "\<forall>x \<in> set (q_list (msg_q q')). msg_len x \<le> L"
    and "n = int (length (q_list (msg_q q'))) - int (length (msgs_of qs i))"
  shows "queues_ok i (df - n) (de + n) L k C (qs[i := q'])"
proof (rule queues_okI)
  note qs = queues_okD [OF assms(1)]
  have i: "i < length qs" using assms(2) by (simp add: active_def)
  note act = active_upd [OF i assms(3)]
  have sem: "mq_full (qs[i := q'] ! j) = mq_full (qs ! j)" "mq_empty (qs[i := q'] ! j) = mq_empty (qs ! j)" for j
    using assms(4,5) i by (cases "j = i"; simp)+
  show "sems_apart (qs[i := q'])" using qs(1) by (simp add: sems_apart_def act sem)
  show "cont_rel L (qs[i := q']) (conts k p) (C p)" for p using qs(3) cont_rel_upd [OF i assms(3-5)] by simp
  fix j
  assume "active (qs[i := q']) j"
  then have j: "active qs j" using act by simp
  show "queue_ok (if j = i then df - n else 0) (if j = i then de + n else 0) L k C j (qs[i := q'] ! j)"
  proof (cases "j = i")
    case True
    have "queue_ok df de L k C i (qs ! i)" using qs(2) [OF assms(2)] by simp
    then show ?thesis using True i assms(4-9) by (simp add: queue_ok_def)
  qed (use qs(2) [OF j] in simp)
qed

lemma queues_ok_0: "queues_ok i 0 0 L k C qs = queues_ok 0 0 0 L k C qs"
  by (simp add: queues_ok_def)

lemma msg_inv_0: "msg_inv i 0 0 L s = msg_inv 0 0 0 L s"
  using queues_ok_0 [of i] by (simp add: msg_inv_def)

lemma upd_inactive: "active qs i \<Longrightarrow> \<not> active qs j \<Longrightarrow> qs[i := q'] ! j = qs ! j"
  by (cases "j = i") simp_all

lemma put_ok:
  assumes "msg_inv i 1 0 L s" "active (ms_heap s) i" "extra (ms_mem s) (ms_conts s) (ms_heap s) a z" "unat z \<le> length d" "z \<le> L"
  shows "\<exists>s'. msg_put i a d z s = Some (Ret 0, s') \<and> msg_inv 0 0 0 L s' \<and> changes i (contents s i @ [take (unat z) d]) s s' \<and>
     ms_conts s' = ms_conts s"
proof -
  note inv = msg_invD [OF assms(1)]
  define bs where "bs = take (unat z) d"
  define x where "x = \<lparr>msg_buf = a, msg_len = z\<rparr>"
  have len: "length bs = unat z" using assms(4) by (simp add: bs_def)
  have i: "i < length (ms_heap s)" using assms(2) by (simp add: active_def)
  have qi: "queue_ok 1 0 L (ms_kern s) (ms_conts s) i (ms_heap s ! i)" using queues_okD(2) [OF inv(3) assms(2)] by simp
  note q = queue_okD [OF qi]
  have room: "unat (item_count (msg_q (ms_heap s ! i))) < unat (max_items (msg_q (ms_heap s ! i)))"
    using room_left(1) [OF inv(1) qi] q(9) unfolding length_q_list by linarith
  obtain r where r: "enq (msg_q (ms_heap s ! i)) x = Some r" "q_ok r" "max_items r = max_items (msg_q (ms_heap s ! i))"
      "q_list r = msgs_of (ms_heap s) i @ [x]"
    using enq_list [OF q(1), of x] room by auto
  define q' where "q' = (ms_heap s ! i)\<lparr>msg_q := r, mq_stats := (mq_stats (ms_heap s ! i))\<lparr>msg_lspid := sys_get_currentPID (ms_kern s),
                 msg_qnum := msg_qnum (mq_stats (ms_heap s ! i)) + 1\<rparr>\<rparr>"
  have q': "msgid q' = msgid (ms_heap s ! i)" "mq_full q' = mq_full (ms_heap s ! i)" "mq_empty q' = mq_empty (ms_heap s ! i)" "msg_q q' = r"
    by (simp_all add: q'_def)
  have "queues_ok i (1 - 1) (0 + 1) L (ms_kern s) (ms_conts s) ((ms_heap s)[i := q'])"
    by (rule queues_ok_ring [OF inv(3) assms(2) q'(1-3)])
      (use r q(6) assms(5) arg_cong [OF r(4), of length] in \<open>auto simp: q'(4) x_def\<close>)
  then have ring: "queues_ok i 0 1 L (ms_kern s) (ms_conts s) ((ms_heap s)[i := q'])" by simp
  have act: "active ((ms_heap s)[i := q']) = active (ms_heap s)" using active_upd [OF i q'(1)] by auto
  have "mval (ms_kern s) (unat (mq_empty (ms_heap s ! i))) < 127" using q(2,10) room unfolding length_q_list by linarith
  then obtain k' W where p: "sys_sem_post (Some (mq_empty (ms_heap s ! i))) (ms_kern s) = Some (Ret 0, k')"
      "kgoes (ms_kern s) 1 (unat (mq_empty (ms_heap s ! i))) W (conts (ms_kern s)) k'" "\<And>j. W j \<subseteq> semw (ms_kern s) j"
    using kg_post [OF inv(1) q(4)] by blast
  have ok: "queues_ok i 0 0 L k' (ms_conts s) ((ms_heap s)[i := q'])"
    by (rule queues_ok_kern [OF ring p(2,3)]) (use queues_okD(3) [OF ring] assms(2) i q'(3) in \<open>simp_all add: act\<close>)
  define s' where "s' = s\<lparr>ms_mem := poke a bs (ms_mem s), ms_data := (ms_data s)(a \<mapsto> bs), ms_heap := (ms_heap s)[i := q'], ms_kern := k'\<rparr>"
  have "msg_put i a d z s = Some (Ret 0, s')"
    using assms(4) i r(1) p(1) by (simp add: msg_put_def store_msg_def Let_def arr_get_in arr_set_in upd_msgq_def msg_sem_def s'_def q'_def bs_def x_def)
  moreover have "mem_ok (ms_mem s') (ms_data s') (ms_conts s') (ms_heap s')"
    using mem_put [OF inv(2) assms(3,2) q'(1) _ x_def len] r(4) q'(4) by (simp add: s'_def)
  then have "msg_inv 0 0 0 L s'" using ok p(2) queues_ok_0 [of i] by (simp add: msg_inv_def s'_def kgoes_def)
  moreover have "contents s' j = (if j = i then contents s i @ [bs] else contents s j)" if "active (ms_heap s) j" for j
    using extra_not_queued [OF assms(3) that] i r(4) q'(4) by (auto simp: contents_def s'_def x_def)
  then have "changes i (contents s i @ [bs]) s s'" using p(2) act upd_inactive [OF assms(2)] by (simp add: changes_def s'_def kgoes_def)
  ultimately show ?thesis by (auto simp: s'_def bs_def)
qed

lemma get_ok:
  assumes "msg_inv i 0 1 L s" "active (ms_heap s) i" "L \<le> z"
  shows "\<exists>bs xs s'. contents s i = bs # xs \<and> msg_get i z f s = Some (Ret (sint (of_nat (length bs) :: u32)), Some bs, s') \<and>
     msg_inv 0 0 0 L s' \<and> changes i xs s s' \<and> ms_conts s' = ms_conts s"
proof -
  note inv = msg_invD [OF assms(1)]
  have i: "i < length (ms_heap s)" using assms(2) by (simp add: active_def)
  have qi: "queue_ok 0 1 L (ms_kern s) (ms_conts s) i (ms_heap s ! i)" using queues_okD(2) [OF inv(3) assms(2)] by simp
  note q = queue_okD [OF qi]
  have some: "0 < length (msgs_of (ms_heap s) i)" using room_left(2) [OF inv(1) qi] q(10) by linarith
  then obtain x xs where xs: "msgs_of (ms_heap s) i = x # xs" by (cases "msgs_of (ms_heap s) i") auto
  then obtain r where r: "deq (msg_q (ms_heap s ! i)) = Some (Some x, r)" "q_ok r" "max_items r = max_items (msg_q (ms_heap s ! i))"
      "q_list r = xs"
    using deq_list [OF q(1)] by auto
  have small: "\<not> msg_len x > z" using q(6) xs assms(3) by (auto simp: not_less intro: order.trans)
  obtain bs where bs: "ms_data s (msg_buf x) = Some bs" "length bs = unat (msg_len x)"
    using inv(2) assms(2) xs ownedD(5) unfolding mem_ok_def by (metis list.set_intros(1))
  define q' where "q' = (ms_heap s ! i)\<lparr>msg_q := r, mq_stats := (mq_stats (ms_heap s ! i))\<lparr>msg_lrpid := sys_get_currentPID (ms_kern s),
                            msg_qnum := msg_qnum (mq_stats (ms_heap s ! i)) - 1\<rparr>\<rparr>"
  have q': "msgid q' = msgid (ms_heap s ! i)" "mq_full q' = mq_full (ms_heap s ! i)" "mq_empty q' = mq_empty (ms_heap s ! i)" "msg_q q' = r"
    by (simp_all add: q'_def)
  have "queues_ok i (0 - (- 1)) (1 + (- 1)) L (ms_kern s) (ms_conts s) ((ms_heap s)[i := q'])"
    by (rule queues_ok_ring [OF inv(3) assms(2) q'(1-3)])
      (use r q(6) xs arg_cong [OF r(4), of length] arg_cong [OF xs, of length] in \<open>auto simp: q'(4)\<close>)
  then have ring: "queues_ok i 1 0 L (ms_kern s) (ms_conts s) ((ms_heap s)[i := q'])" by simp
  have act: "active ((ms_heap s)[i := q']) = active (ms_heap s)" using active_upd [OF i q'(1)] by auto
  note mem = mem_get [OF inv(2) assms(2) q'(1) xs]
  obtain m' where m': "sys_buffree MEMBUF_ANY (msg_buf x) (ms_mem s) = Some m'"
      "mem_ok m' ((ms_data s)(msg_buf x := None)) (ms_conts s) ((ms_heap s)[i := q'])"
    using mem_free [OF mem(1,2)] r(4) q'(4) by blast
  have "mval (ms_kern s) (unat (mq_full (ms_heap s ! i))) < 127" using q(2,9) some by linarith
  then obtain k' W where p: "sys_sem_post (Some (mq_full (ms_heap s ! i))) (ms_kern s) = Some (Ret 0, k')"
      "kgoes (ms_kern s) 1 (unat (mq_full (ms_heap s ! i))) W (conts (ms_kern s)) k'" "\<And>j. W j \<subseteq> semw (ms_kern s) j"
    using kg_post [OF inv(1) q(3)] by blast
  have ok: "queues_ok i 0 0 L k' (ms_conts s) ((ms_heap s)[i := q'])"
    by (rule queues_ok_kern [OF ring p(2,3)]) (use queues_okD(3) [OF ring] assms(2) i q'(2) in \<open>simp_all add: act\<close>)
  define s' where "s' = s\<lparr>ms_mem := m', ms_data := (ms_data s)(msg_buf x := None), ms_heap := (ms_heap s)[i := q'], ms_kern := k'\<rparr>"
  have "msg_get i z f s = Some (Ret (sint (msg_len x)), Some bs, s')"
    using i r(1) p(1) small bs m'(1)
    by (simp add: msg_get_def arr_get_in arr_set_in upd_msgq_def load_msg_def MSGQ_FREE_def msg_sem_def s'_def q'_def)
  moreover have "of_nat (length bs) = msg_len x" using bs(2) by simp
  moreover have "msg_inv 0 0 0 L s'" using ok p(2) queues_ok_0 [of i] m'(2) by (simp add: msg_inv_def s'_def kgoes_def)
  moreover have cont: "contents s i = bs # map (\<lambda>x. the (ms_data s (msg_buf x))) xs" using xs bs(1) by (simp add: contents_def)
  moreover have "contents s' j = (if j = i then map (\<lambda>x. the (ms_data s (msg_buf x))) xs else contents s j)" if "active (ms_heap s) j" for j
    using extra_not_queued [OF mem(2), of j] that act i r(4) q'(4) by (auto simp: contents_def s'_def)
  then have "changes i (map (\<lambda>x. the (ms_data s (msg_buf x))) xs) s s'" using p(2) act upd_inactive [OF assms(2)] by (simp add: changes_def s'_def kgoes_def)
  moreover have "ms_conts s' = ms_conts s" by (simp add: s'_def)
  ultimately show ?thesis by auto
qed

section \<open>Calls that wait and go on\<close>

lemma senders_upd: "senders (C(p := mc)) i = (if \<exists>b d z. mc = Some (M_snd i b d z) then insert p (senders C i) else senders C i - {p})"
  by (auto simp: senders_def)

lemma receivers_upd: "receivers (C(p := mc)) i = (if \<exists>z f. mc = Some (M_rcv i z f) then insert p (receivers C i) else receivers C i - {p})"
  by (auto simp: receivers_def)

lemma no_cont: "C p = None \<Longrightarrow> p \<notin> senders C i" "C p = None \<Longrightarrow> p \<notin> receivers C i"
  by (simp_all add: senders_def receivers_def)

definition waits_for :: "u32 \<Rightarrow> msgid_ds list \<Rightarrow> nat \<Rightarrow> mcont \<Rightarrow> u32 \<Rightarrow> bool" where
  "waits_for L qs i mc u \<longleftrightarrow>
     (\<exists>b d z. mc = M_snd i b d z \<and> u = mq_full (qs ! i) \<and> unat z \<le> length d \<and> z \<le> L) \<or> (\<exists>z f. mc = M_rcv i z f \<and> u = mq_empty (qs ! i) \<and> L \<le> z)"

lemma queues_ok_block:
  assumes "queues_ok i 0 0 L k C qs" "active qs i" "C p = None" "waits_for L qs i mc u"
    and "kgoes k (- 1) (unat u) ((semw k)(unat u := insert p (semw k (unat u)))) ((conts k)(p := Some (K_sem_wait (unat u)))) k'"
  shows "queues_ok i 0 0 L k' (C(p \<mapsto> mc)) qs"
proof (rule queues_okI)
  note qs = queues_okD [OF assms(1)] and out = no_cont [of C p, OF assms(3)]
  have k: "\<And>i. msem k' i = msem k i" "\<And>i. msem k i \<Longrightarrow> mval k' i = mval k i + (if i = unat u then - 1 else 0)"
      "\<And>i. semw k' i = ((semw k)(unat u := insert p (semw k (unat u)))) i" "conts k' = (conts k)(p := Some (K_sem_wait (unat u)))"
    using assms(5) by (simp_all add: kgoes_def)
  show "sems_apart qs" by (rule qs(1))
  show "cont_rel L qs (conts k' x) ((C(p \<mapsto> mc)) x)" for x
    using qs(3) [of x] assms(2,4) by (auto simp: k(4) cont_rel_def waits_for_def)
  fix j
  assume j: "active qs j"
  note q = queue_okD [OF qs(2) [OF j]]
  show "queue_ok (if j = i then 0 else 0) (if j = i then 0 else 0) L k' (C(p \<mapsto> mc)) j (qs ! j)"
  proof (cases "j = i")
    case True
    show ?thesis
      using q assms(4) out by (auto simp: True waits_for_def queue_ok_def k senders_upd receivers_upd word_unat_eq_iff [symmetric])
  next
    case False
    then have u: "u \<noteq> mq_full (qs ! j)" "u \<noteq> mq_empty (qs ! j)"
      using sem_of_one_queue [OF qs(1) assms(2) j, of u] assms(4) by (auto simp: waits_for_def)
    have "senders (C(p \<mapsto> mc)) j = senders C j" "receivers (C(p \<mapsto> mc)) j = receivers C j"
      using False assms(4) out by (auto simp: senders_upd receivers_upd waits_for_def)
    then show ?thesis using q u False by (simp add: queue_ok_def k word_unat_eq_iff [symmetric])
  qed
qed

text \<open>A call that goes on has a place or a message, which is not counted until the call is over.\<close>

lemma queues_ok_wake:
  assumes "queues_ok i 0 0 L k C qs" "active qs i" "C p = Some mc" "waits_for L qs i mc u" "\<And>j. p \<notin> semw k j"
    and "kgoes k 0 j0 (semw k) ((conts k)(p := None)) k'"
  shows "queues_ok i (if u = mq_full (qs ! i) then 1 else 0) (if u = mq_full (qs ! i) then 0 else 1) L k' (C(p := None)) qs"
proof (rule queues_okI)
  note qs = queues_okD [OF assms(1)]
  have k: "\<And>i. msem k' i = msem k i" "\<And>i. msem k i \<Longrightarrow> mval k' i = mval k i"
      "\<And>i. semw k' i = semw k i" "conts k' = (conts k)(p := None)"
    using assms(6) by (simp_all add: kgoes_def)
  show "sems_apart qs" by (rule qs(1))
  show "cont_rel L qs (conts k' x) ((C(p := None)) x)" for x using qs(3) [of x] by (simp add: k(4) cont_rel_def)
  fix j
  assume j: "active qs j"
  note q = queue_okD [OF qs(2) [OF j]]
  have w: "semw k' (unat (mq_full (qs ! j))) \<subseteq> senders C j - {p}" "semw k' (unat (mq_empty (qs ! j))) \<subseteq> receivers C j - {p}"
    using q(7,8) assms(5) k(3) by auto
  have in_queue: "p \<in> senders C j \<longleftrightarrow> j = i \<and> u = mq_full (qs ! i)" "p \<in> receivers C j \<longleftrightarrow> j = i \<and> u \<noteq> mq_full (qs ! i)"
    using assms(3,4) queue_okD(5) [OF qs(2) [OF assms(2)]] by (auto simp: senders_def receivers_def waits_for_def)
  have "int (card (senders C j - {p})) = int (card (senders C j)) - (if j = i \<and> u = mq_full (qs ! i) then 1 else 0)"
    "int (card (receivers C j - {p})) = int (card (receivers C j)) - (if j = i \<and> u \<noteq> mq_full (qs ! i) then 1 else 0)"
    using in_queue card_gt_0_iff [of "senders C j"] card_gt_0_iff [of "receivers C j"] by (auto simp: card_Diff_singleton_if of_nat_diff)
  then show "queue_ok (if j = i then if u = mq_full (qs ! i) then 1 else 0 else 0) (if j = i then if u = mq_full (qs ! i) then 0 else 1 else 0)
      L k' (C(p := None)) j (qs ! j)"
    using q w by (auto simp: queue_ok_def k senders_upd receivers_upd)
qed

section \<open>The calls\<close>

definition same_contents :: "msgsys \<Rightarrow> msgsys \<Rightarrow> bool" where
  "same_contents s s' \<longleftrightarrow>
     idle_task_pid (ms_kern s') = idle_task_pid (ms_kern s) \<and> active (ms_heap s') = active (ms_heap s) \<and>
     length (ms_heap s') = length (ms_heap s) \<and> (\<forall>j. \<not> active (ms_heap s) j \<longrightarrow> ms_heap s' ! j = ms_heap s ! j) \<and>
     (\<forall>j. active (ms_heap s) j \<longrightarrow> contents s' j = contents s j)"

lemma same_refl: "ms_heap s' = ms_heap s \<Longrightarrow> ms_data s' = ms_data s \<Longrightarrow> idle_task_pid (ms_kern s') = idle_task_pid (ms_kern s) \<Longrightarrow> same_contents s s'"
  by (simp add: same_contents_def contents_def)

lemma same_then: "same_contents s s1 \<Longrightarrow> same_contents s1 s2 \<Longrightarrow> same_contents s s2"
  by (simp add: same_contents_def)

lemma same_changes: "same_contents s s1 \<Longrightarrow> changes i xs s1 s2 \<Longrightarrow> changes i xs s s2"
  by (simp add: same_contents_def changes_def)

lemma fail_same:
  assumes "msg_inv 0 0 0 L s"
  shows "\<exists>s'. ms_fail e s = Some (Ret (- 1), s') \<and> msg_inv 0 0 0 L s' \<and> same_contents s s'"
proof -
  obtain k' where k': "ms_fail e s = Some (Ret (- 1), s\<lparr>ms_kern := k'\<rparr>)" "msg_inv 0 0 0 L (s\<lparr>ms_kern := k'\<rparr>)" "idle_task_pid k' = idle_task_pid (ms_kern s)"
    using ms_fail_ok [OF assms, of e] by blast
  then show ?thesis using same_refl [of "s\<lparr>ms_kern := k'\<rparr>" s] by auto
qed

lemma malloc_ok:
  assumes "msg_inv 0 0 0 L s"
  shows "\<exists>a s'. MSGQ_MALLOC z s = Some (a, s') \<and> msg_inv 0 0 0 L s' \<and> same_contents s s' \<and>
     ms_kern s' = ms_kern s \<and> ms_heap s' = ms_heap s \<and> ms_conts s' = ms_conts s \<and> (a \<noteq> 0 \<longrightarrow> extra (ms_mem s') (ms_conts s') (ms_heap s') a z)"
proof -
  note inv = msg_invD [OF assms]
  obtain a m' where m': "sys_bufmalloc MEMBUF_ANY z (ms_mem s) = Some (a, m')" "mem_ok m' (ms_data s) (ms_conts s) (ms_heap s)"
      "a \<noteq> 0 \<longrightarrow> extra m' (ms_conts s) (ms_heap s) a z"
    using mem_alloc [OF inv(2), of z] by blast
  have "msg_inv 0 0 0 L (s\<lparr>ms_mem := m'\<rparr>)" using inv m'(2) by (simp add: msg_inv_def)
  moreover have "same_contents s (s\<lparr>ms_mem := m'\<rparr>)" by (rule same_refl) simp_all
  ultimately show ?thesis using m' by (auto simp: MSGQ_MALLOC_def)
qed

lemma free_ok:
  assumes "msg_inv 0 0 0 L s" "extra (ms_mem s) (ms_conts s) (ms_heap s) a z"
  shows "\<exists>s'. MSGQ_FREE a s = Some s' \<and> msg_inv 0 0 0 L s' \<and> same_contents s s' \<and> ms_kern s' = ms_kern s"
proof -
  note inv = msg_invD [OF assms(1)]
  obtain m' where m': "sys_buffree MEMBUF_ANY a (ms_mem s) = Some m'" "mem_ok m' ((ms_data s)(a := None)) (ms_conts s) (ms_heap s)"
    using mem_free [OF inv(2) assms(2)] by blast
  let ?s = "s\<lparr>ms_mem := m', ms_data := (ms_data s)(a := None)\<rparr>"
  have "contents ?s j = contents s j" if "active (ms_heap s) j" for j
    using extra_not_queued [OF assms(2) that] by (auto simp: contents_def)
  then have "same_contents s ?s" by (simp add: same_contents_def)
  moreover have "msg_inv 0 0 0 L ?s" using inv m'(2) by (simp add: msg_inv_def)
  ultimately show ?thesis using m'(1) by (simp add: MSGQ_FREE_def)
qed

text \<open>Taking a place or a message without waiting.\<close>

lemma msg_inv_take:
  assumes "msg_inv 0 0 0 L s" "active (ms_heap s) i" "kgoes (ms_kern s) (- 1) (unat u) (semw (ms_kern s)) (conts (ms_kern s)) k'"
    and "u = mq_full (ms_heap s ! i) \<and> df = 1 \<and> de = 0 \<or> u = mq_empty (ms_heap s ! i) \<and> df = 0 \<and> de = 1"
  shows "msg_inv i df de L (s\<lparr>ms_kern := k'\<rparr>)"
proof -
  note inv = msg_invD [OF assms(1) [folded msg_inv_0 [of i]]]
  have "queues_ok i df de L k' (ms_conts s) (ms_heap s)"
    by (rule queues_ok_kern [OF inv(3) assms(3) _ queues_okD(3) [OF inv(3)] assms(2)]) (use assms(4) in auto)
  then show ?thesis using inv(1,2) assms(3) by (simp add: msg_inv_def kgoes_def)
qed

lemma good_queue: "\<not> msg_bad mid s \<Longrightarrow> active (ms_heap s) (nat mid)"
  by (auto simp: msg_bad_def active_def nat_less_iff)

text \<open>What a send leads to: the message is in the queue, or the queues are as before.\<close>

definition sends :: "nat \<Rightarrow> u8 list \<Rightarrow> msgsys \<Rightarrow> kres \<Rightarrow> msgsys \<Rightarrow> bool" where
  "sends i bs s r s' \<longleftrightarrow>
     (if r = Ret 0 then active (ms_heap s) i \<and> changes i (contents s i @ [bs]) s s' else same_contents s s')"

definition gets :: "nat \<Rightarrow> msgsys \<Rightarrow> kres \<Rightarrow> u8 list option \<Rightarrow> msgsys \<Rightarrow> bool" where
  "gets i s r m s' \<longleftrightarrow>
     (case m of
        Some bs \<Rightarrow> r = Ret (sint (of_nat (length bs) :: u32)) \<and> active (ms_heap s) i \<and> (\<exists>xs. contents s i = bs # xs \<and> changes i xs s s')
      | None \<Rightarrow> (r = Blocked \<or> r = Ret (- 1)) \<and> same_contents s s')"

lemma trysend_ok:
  assumes "msg_inv 0 0 0 L s" "active (ms_heap s) i" "extra (ms_mem s) (ms_conts s) (ms_heap s) a z" "unat z \<le> length d" "z \<le> L"
  shows "\<exists>v s1 r s'. msg_sem (sys_sem_trywait (Some (mq_full (ms_heap s ! i)))) s = Some (Ret v, s1) \<and>
     (if v < 0 then do { s \<leftarrow> MSGQ_FREE a s1; ms_fail EAGAIN s } else msg_put i a d z s1) = Some (r, s') \<and>
     msg_inv 0 0 0 L s' \<and> sends i (take (unat z) d) s r s'"
proof -
  note inv = msg_invD [OF assms(1)]
  let ?u = "mq_full (ms_heap s ! i)" and ?k = "ms_kern s"
  note q = queue_okD [OF queues_okD(2) [OF inv(3) assms(2)]]
  obtain k' where k': "sys_sem_trywait (Some ?u) ?k = Some (Ret (if mval ?k (unat ?u) > 0 then 0 else - 1), k')"
      "kgoes ?k (if mval ?k (unat ?u) > 0 then - 1 else 0) (unat ?u) (semw ?k) (conts ?k) k'"
    using kg_trywait [OF inv(1) q(3)] by blast
  define s1 where "s1 = s\<lparr>ms_kern := k'\<rparr>"
  have same1: "same_contents s s1" by (rule same_refl) (use k'(2) in \<open>simp_all add: s1_def kgoes_def\<close>)
  have ex1: "extra (ms_mem s1) (ms_conts s1) (ms_heap s1) a z" using assms(3) by (simp add: s1_def)
  have act1: "active (ms_heap s1) i" using assms(2) by (simp add: s1_def)
  have call: "msg_sem (sys_sem_trywait (Some ?u)) s = Some (Ret (if mval ?k (unat ?u) > 0 then 0 else - 1), s1)"
    using k'(1) by (simp add: msg_sem_def s1_def)
  show ?thesis
  proof (cases "mval ?k (unat ?u) > 0")
    case True
    then have "kgoes ?k (- 1) (unat ?u) (semw ?k) (conts ?k) k'" using k'(2) by simp
    then have "msg_inv i 1 0 L s1" unfolding s1_def by (rule msg_inv_take [OF assms(1,2)]) simp
    from put_ok [OF this act1 ex1 assms(4,5)] obtain s' where s': "msg_put i a d z s1 = Some (Ret 0, s')" "msg_inv 0 0 0 L s'"
        "changes i (contents s1 i @ [take (unat z) d]) s1 s'" by blast
    have "contents s1 i = contents s i" using same1 assms(2) by (simp add: same_contents_def)
    then have "sends i (take (unat z) d) s (Ret 0) s'" using same_changes [OF same1 s'(3)] assms(2) by (simp add: sends_def)
    then show ?thesis using call s'(1,2) True by auto
  next
    case False
    then have "kgoes ?k 0 (unat ?u) (semw ?k) (conts ?k) k'" using k'(2) by simp
    then have "msg_inv 0 0 0 L s1" unfolding s1_def by (rule msg_inv_kern [OF assms(1)])
    from free_ok [OF this ex1] obtain s2 where s2: "MSGQ_FREE a s1 = Some s2" "msg_inv 0 0 0 L s2" "same_contents s1 s2" by blast
    obtain s3 where s3: "ms_fail EAGAIN s2 = Some (Ret (- 1), s3)" "msg_inv 0 0 0 L s3" "same_contents s2 s3" using fail_same [OF s2(2)] by blast
    have "sends i (take (unat z) d) s (Ret (- 1)) s3" using same_then [OF same1 same_then [OF s2(3) s3(3)]] by (simp add: sends_def)
    then show ?thesis using call s2(1) s3(1,2) False by auto
  qed
qed

lemma snd_end_eq:
  assumes "active (ms_heap s) i"
  shows "snd_end i a d z 0 s = msg_put i a d z s"
  using assms by (simp add: snd_end_def arr_get_in active_def)

text \<open>A call that finds no place or no message is suspended.\<close>

lemma msg_inv_block:
  assumes "msg_inv 0 0 0 L s" "active (ms_heap s) i" "ms_conts s p = None" "waits_for L (ms_heap s) i mc u"
    and "kgoes (ms_kern s) (- 1) (unat u) ((semw (ms_kern s))(unat u := insert p (semw (ms_kern s) (unat u))))
       ((conts (ms_kern s))(p := Some (K_sem_wait (unat u)))) k'"
    and "mem_ok (ms_mem s) (ms_data s) ((ms_conts s)(p \<mapsto> mc)) (ms_heap s)" "s' = s\<lparr>ms_kern := k', ms_conts := (ms_conts s)(p \<mapsto> mc)\<rparr>"
  shows "msg_inv 0 0 0 L s'" "same_contents s s'"
proof -
  note inv = msg_invD [OF assms(1) [folded msg_inv_0 [of i]]]
  have "queues_ok i 0 0 L k' ((ms_conts s)(p \<mapsto> mc)) (ms_heap s)" by (rule queues_ok_block [OF inv(3) assms(2-5)])
  then show "msg_inv 0 0 0 L s'" using assms(5,6) queues_ok_0 [of i] by (simp add: assms(7) msg_inv_def kgoes_def)
  show "same_contents s s'" by (rule same_refl) (use assms(5) in \<open>simp_all add: assms(7) kgoes_def\<close>)
qed

lemma waitsend_ok:
  assumes "msg_inv 0 0 0 L s" "active (ms_heap s) i" "extra (ms_mem s) (ms_conts s) (ms_heap s) a z" "unat z \<le> length d" "z \<le> L"
    and "current_pid (ms_kern s) \<noteq> idle_task_pid (ms_kern s)" "ms_conts s (current_pid (ms_kern s)) = None"
  shows "\<exists>r1 s1 r s'. msg_sem (sys_sem_wait_x (Some (mq_full (ms_heap s ! i)))) s = Some (r1, s1) \<and>
     (case r1 of
        Ret v \<Rightarrow> snd_end i a d z v s1
      | Blocked \<Rightarrow> Some (Blocked, s1\<lparr>ms_conts := (ms_conts s1)(current_pid (ms_kern s) \<mapsto> M_snd i a d z)\<rparr>)) = Some (r, s') \<and>
     msg_inv 0 0 0 L s' \<and> sends i (take (unat z) d) s r s'"
proof -
  note inv = msg_invD [OF assms(1)]
  let ?u = "mq_full (ms_heap s ! i)" and ?k = "ms_kern s" and ?p = "current_pid (ms_kern s)"
  note q = queue_okD [OF queues_okD(2) [OF inv(3) assms(2)]]
  obtain k' where k': "sys_sem_wait_x (Some ?u) ?k = Some (if mval ?k (unat ?u) > 0 then Ret 0 else Blocked, k')"
      "kgoes ?k (- 1) (unat ?u) (if mval ?k (unat ?u) > 0 then semw ?k else (semw ?k)(unat ?u := insert ?p (semw ?k (unat ?u))))
       (if mval ?k (unat ?u) > 0 then conts ?k else (conts ?k)(?p := Some (K_sem_wait (unat ?u)))) k'"
    using kg_wait [OF inv(1) assms(6) q(3)] by blast
  define s1 where "s1 = s\<lparr>ms_kern := k'\<rparr>"
  have call: "msg_sem (sys_sem_wait_x (Some ?u)) s = Some (if mval ?k (unat ?u) > 0 then Ret 0 else Blocked, s1)"
    using k'(1) by (simp add: msg_sem_def s1_def)
  show ?thesis
  proof (cases "mval ?k (unat ?u) > 0")
    case True
    have same1: "same_contents s s1" by (rule same_refl) (use k'(2) in \<open>simp_all add: s1_def kgoes_def\<close>)
    have ex1: "extra (ms_mem s1) (ms_conts s1) (ms_heap s1) a z" and act1: "active (ms_heap s1) i" using assms(2,3) by (simp_all add: s1_def)
    have "kgoes ?k (- 1) (unat ?u) (semw ?k) (conts ?k) k'" using k'(2) True by simp
    then have "msg_inv i 1 0 L s1" unfolding s1_def by (rule msg_inv_take [OF assms(1,2)]) simp
    from put_ok [OF this act1 ex1 assms(4,5)] obtain s' where s': "msg_put i a d z s1 = Some (Ret 0, s')" "msg_inv 0 0 0 L s'"
        "changes i (contents s1 i @ [take (unat z) d]) s1 s'" by blast
    have "contents s1 i = contents s i" using same1 assms(2) by (simp add: same_contents_def)
    then have "sends i (take (unat z) d) s (Ret 0) s'" using same_changes [OF same1 s'(3)] assms(2) by (simp add: sends_def)
    then show ?thesis using call s'(1,2) snd_end_eq [OF act1, of a d z] True by auto
  next
    case False
    have w: "waits_for L (ms_heap s) i (M_snd i a d z) ?u" using assms(4,5) by (simp add: waits_for_def)
    have k: "kgoes ?k (- 1) (unat ?u) ((semw ?k)(unat ?u := insert ?p (semw ?k (unat ?u)))) ((conts ?k)(?p := Some (K_sem_wait (unat ?u)))) k'"
      using k'(2) False by simp
    note b = msg_inv_block [OF assms(1,2,7) w k mem_wait [OF inv(2) assms(3)] refl]
    then show ?thesis using call False by (auto simp: s1_def sends_def)
  qed
qed

lemma send_ok:
  assumes "msg_inv 0 0 0 L s" "current_pid (ms_kern s) \<noteq> idle_task_pid (ms_kern s)" "ms_conts s (current_pid (ms_kern s)) = None"
    and "unat z \<le> length d" "z \<le> L"
  shows "\<exists>r s'. sys_msgsnd mid d z f s = Some (r, s') \<and> msg_inv 0 0 0 L s' \<and> sends (nat mid) (take (unat z) d) s r s'"
proof (cases "msg_bad mid s")
  case True
  obtain s' where "ms_fail EINVAL s = Some (Ret (- 1), s')" "msg_inv 0 0 0 L s'" "same_contents s s'" using fail_same [OF assms(1)] by blast
  then show ?thesis using True by (simp add: sys_msgsnd_def sends_def)
next
  case False
  note act = good_queue [OF False]
  obtain a s1 where s1: "MSGQ_MALLOC z s = Some (a, s1)" "msg_inv 0 0 0 L s1" "same_contents s s1" "ms_kern s1 = ms_kern s" "ms_heap s1 = ms_heap s"
      "ms_conts s1 = ms_conts s" "a \<noteq> 0 \<longrightarrow> extra (ms_mem s1) (ms_conts s1) (ms_heap s1) a z"
    using malloc_ok [OF assms(1), of z] by blast
  have back_to: "sends (nat mid) bs s1 r s' \<Longrightarrow> sends (nat mid) bs s r s'" for bs r s'
    using s1(3) act same_then [OF s1(3)] same_changes [OF s1(3)] by (auto simp: sends_def same_contents_def split: if_splits)
  have act1: "active (ms_heap s1) (nat mid)" using act s1(5) by simp
  have get: "arr_get (ms_heap s1) (nat mid) = Some (ms_heap s1 ! nat mid)" using act1 by (simp add: arr_get_in active_def)
  consider "a = 0" | "a \<noteq> 0" "f AND IPC_NOWAIT \<noteq> 0" | "a \<noteq> 0" "f AND IPC_NOWAIT = 0" by blast
  then show ?thesis
  proof cases
    case 1
    obtain s' where "ms_fail ENOSPC s1 = Some (Ret (- 1), s')" "msg_inv 0 0 0 L s'" "same_contents s1 s'" using fail_same [OF s1(2)] by blast
    then show ?thesis using 1 s1(1) False same_then [OF s1(3)] by (simp add: sys_msgsnd_def sends_def)
  next
    case 2
    then have ex: "extra (ms_mem s1) (ms_conts s1) (ms_heap s1) a z" using s1(7) by simp
    show ?thesis using trysend_ok [OF s1(2) act1 ex assms(4,5)] 2 s1(1) False get back_to by (auto simp: sys_msgsnd_def)
  next
    case 3
    then have ex: "extra (ms_mem s1) (ms_conts s1) (ms_heap s1) a z" using s1(7) by simp
    have "current_pid (ms_kern s1) \<noteq> idle_task_pid (ms_kern s1)" "ms_conts s1 (current_pid (ms_kern s1)) = None" using assms(2,3) s1(4,6) by simp_all
    from waitsend_ok [OF s1(2) act1 ex assms(4,5) this] show ?thesis
      using 3 s1(1) False get back_to by (auto simp: sys_msgsnd_def)
  qed
qed

text \<open>Receiving.\<close>

lemma rcv_end_eq:
  assumes "active (ms_heap s) i"
  shows "rcv_end i z f 0 s = msg_get i z f s"
  using assms by (simp add: rcv_end_def arr_get_in active_def)

lemma taken_ok:
  assumes "msg_inv 0 0 0 L s" "active (ms_heap s) i" "L \<le> z"
    and "kgoes (ms_kern s) (- 1) (unat (mq_empty (ms_heap s ! i))) (semw (ms_kern s)) (conts (ms_kern s)) k'"
  shows "\<exists>r m s'. msg_get i z f (s\<lparr>ms_kern := k'\<rparr>) = Some (r, m, s') \<and> msg_inv 0 0 0 L s' \<and> gets i s r m s'"
proof -
  let ?s = "s\<lparr>ms_kern := k'\<rparr>"
  have same: "same_contents s ?s" by (rule same_refl) (use assms(4) in \<open>simp_all add: kgoes_def\<close>)
  have "msg_inv i 0 1 L ?s" by (rule msg_inv_take [OF assms(1,2,4)]) simp
  from get_ok [OF this _ assms(3), of f] assms(2) obtain bs xs s' where s': "contents ?s i = bs # xs"
      "msg_get i z f ?s = Some (Ret (sint (of_nat (length bs) :: u32)), Some bs, s')" "msg_inv 0 0 0 L s'" "changes i xs ?s s'" by auto
  have "contents ?s i = contents s i" using same assms(2) by (simp add: same_contents_def)
  then have "contents s i = bs # xs" using s'(1) by metis
  then have "gets i s (Ret (sint (of_nat (length bs) :: u32))) (Some bs) s'"
    using assms(2) same_changes [OF same s'(4)] by (simp add: gets_def)
  then show ?thesis using s'(2,3) by blast
qed

lemma recv_ok:
  assumes "msg_inv 0 0 0 L s" "current_pid (ms_kern s) \<noteq> idle_task_pid (ms_kern s)" "ms_conts s (current_pid (ms_kern s)) = None" "L \<le> z"
  shows "\<exists>r m s'. sys_msgrcv mid z f s = Some (r, m, s') \<and> msg_inv 0 0 0 L s' \<and> gets (nat mid) s r m s'"
proof (cases "msg_bad mid s")
  case True
  obtain s' where "ms_fail EINVAL s = Some (Ret (- 1), s')" "msg_inv 0 0 0 L s'" "same_contents s s'" using fail_same [OF assms(1)] by blast
  then show ?thesis using True by (simp add: sys_msgrcv_def gets_def)
next
  case False
  note act = good_queue [OF False] and inv = msg_invD [OF assms(1)]
  let ?i = "nat mid" and ?k = "ms_kern s" and ?p = "current_pid (ms_kern s)"
  let ?u = "mq_empty (ms_heap s ! ?i)"
  have get: "arr_get (ms_heap s) ?i = Some (ms_heap s ! ?i)" using act by (simp add: arr_get_in active_def)
  note q = queue_okD [OF queues_okD(2) [OF inv(3) act]]
  show ?thesis
  proof (cases "f = IPC_NOWAIT")
    case True
    obtain k' where k': "sys_sem_trywait (Some ?u) ?k = Some (Ret (if mval ?k (unat ?u) > 0 then 0 else - 1), k')"
        "kgoes ?k (if mval ?k (unat ?u) > 0 then - 1 else 0) (unat ?u) (semw ?k) (conts ?k) k'"
      using kg_trywait [OF inv(1) q(4)] by blast
    show ?thesis
    proof (cases "mval ?k (unat ?u) > 0")
      case pos: True
      then have "kgoes ?k (- 1) (unat ?u) (semw ?k) (conts ?k) k'" using k'(2) by simp
      from taken_ok [OF assms(1) act assms(4) this, of f] show ?thesis
        using k'(1) pos False True get by (simp add: sys_msgrcv_def msg_sem_def)
    next
      case neg: False
      then have g: "kgoes ?k 0 (unat ?u) (semw ?k) (conts ?k) k'" using k'(2) by simp
      then have "same_contents s (s\<lparr>ms_kern := k'\<rparr>)" by (intro same_refl) (simp_all add: kgoes_def)
      then show ?thesis using k'(1) neg False True get msg_inv_kern [OF assms(1) g] by (simp add: sys_msgrcv_def msg_sem_def gets_def)
    qed
  next
    case wait: False
    obtain k' where k': "sys_sem_wait_x (Some ?u) ?k = Some (if mval ?k (unat ?u) > 0 then Ret 0 else Blocked, k')"
        "kgoes ?k (- 1) (unat ?u) (if mval ?k (unat ?u) > 0 then semw ?k else (semw ?k)(unat ?u := insert ?p (semw ?k (unat ?u))))
         (if mval ?k (unat ?u) > 0 then conts ?k else (conts ?k)(?p := Some (K_sem_wait (unat ?u)))) k'"
      using kg_wait [OF inv(1) assms(2) q(4)] by blast
    show ?thesis
    proof (cases "mval ?k (unat ?u) > 0")
      case True
      then have "kgoes ?k (- 1) (unat ?u) (semw ?k) (conts ?k) k'" using k'(2) by simp
      from taken_ok [OF assms(1) act assms(4) this, of f] show ?thesis
        using k'(1) True False wait get rcv_end_eq [of "s\<lparr>ms_kern := k'\<rparr>" ?i z f] act by (simp add: sys_msgrcv_def msg_sem_def)
    next
      case neg: False
      have w: "waits_for L (ms_heap s) ?i (M_rcv ?i z f) ?u" using assms(4) by (simp add: waits_for_def)
      have k: "kgoes ?k (- 1) (unat ?u) ((semw ?k)(unat ?u := insert ?p (semw ?k (unat ?u)))) ((conts ?k)(?p := Some (K_sem_wait (unat ?u)))) k'"
        using k'(2) neg by simp
      have mem: "mem_ok (ms_mem s) (ms_data s) ((ms_conts s)(?p \<mapsto> M_rcv ?i z f)) (ms_heap s)"
        by (rule mem_fewer [OF inv(2)]) (simp split: if_splits)
      note b = msg_inv_block [OF assms(1) act assms(3) w k mem refl]
      then show ?thesis using k'(1) neg False wait get by (simp add: sys_msgrcv_def msg_sem_def gets_def)
    qed
  qed
qed

text \<open>A suspended call goes on.\<close>

definition goes_on :: "msgsys \<Rightarrow> kres \<Rightarrow> u8 list option \<Rightarrow> msgsys \<Rightarrow> bool" where
  "goes_on s r m s' =
     (case ms_conts s (current_pid (ms_kern s)) of
        None \<Rightarrow> m = None \<and> same_contents s s'
      | Some (M_snd i a d z) \<Rightarrow> m = None \<and> sends i (take (unat z) d) s r s'
      | Some (M_rcv i z f) \<Rightarrow> gets i s r m s')"

lemma msg_inv_wake:
  assumes "msg_inv 0 0 0 L s" "ms_conts s (current_pid (ms_kern s)) = Some mc"
  shows "\<exists>i u s1. active (ms_heap s) i \<and> waits_for L (ms_heap s) i mc u \<and> msg_sem resume s = Some (Ret 0, s1) \<and>
     ms_heap s1 = ms_heap s \<and> ms_mem s1 = ms_mem s \<and> ms_data s1 = ms_data s \<and> ms_conts s1 = ms_conts s \<and> same_contents s s1 \<and>
     sync_inv False (ms_kern s1) \<and>
     queues_ok i (if u = mq_full (ms_heap s ! i) then 1 else 0) (if u = mq_full (ms_heap s ! i) then 0 else 1) L (ms_kern s1)
       ((ms_conts s)(current_pid (ms_kern s) := None)) (ms_heap s)"
proof -
  let ?p = "current_pid (ms_kern s)" and ?k = "ms_kern s"
  note inv0 = msg_invD [OF assms(1)]
  have rel: "cont_rel L (ms_heap s) (conts ?k ?p) (Some mc)" using queues_okD(3) [OF inv0(3), of ?p] assms(2) by simp
  have "\<exists>i u. active (ms_heap s) i \<and> waits_for L (ms_heap s) i mc u \<and> conts ?k ?p = Some (K_sem_wait (unat u)) \<and> u \<in> {mq_full (ms_heap s ! i), mq_empty (ms_heap s ! i)}"
    using rel by (cases mc) (auto simp: cont_rel_def waits_for_def)
  then obtain i u where i: "active (ms_heap s) i" "waits_for L (ms_heap s) i mc u" "conts ?k ?p = Some (K_sem_wait (unat u))"
      "u \<in> {mq_full (ms_heap s ! i), mq_empty (ms_heap s ! i)}" by blast
  note inv = msg_invD [OF assms(1) [folded msg_inv_0 [of i]]]
  have "msem ?k (unat u)" using queue_okD(3,4) [OF queues_okD(2) [OF inv(3) i(1)]] i(4) by auto
  then obtain k' where k': "resume ?k = Some (Ret 0, k')" "kgoes ?k 0 0 (semw ?k) ((conts ?k)(?p := None)) k'"
    using kg_resume [OF inv(1) i(3), of 0] by blast
  have "?p \<notin> semw ?k j" for j using cur_not_waiting(1) [OF kern_okD(1) [OF sync_invD(1) [OF inv(1)]]] by (simp add: waiters_wset)
  from queues_ok_wake [OF inv(3) i(1) assms(2) i(2) this k'(2)]
  have "queues_ok i (if u = mq_full (ms_heap s ! i) then 1 else 0) (if u = mq_full (ms_heap s ! i) then 0 else 1) L k' ((ms_conts s)(?p := None)) (ms_heap s)" .
  moreover have "same_contents s (s\<lparr>ms_kern := k'\<rparr>)" by (rule same_refl) (use k'(2) in \<open>simp_all add: kgoes_def\<close>)
  moreover have "msg_sem resume s = Some (Ret 0, s\<lparr>ms_kern := k'\<rparr>)" using k'(1) by (simp add: msg_sem_def)
  moreover have "sync_inv False k'" using k'(2) by (simp add: kgoes_def)
  ultimately show ?thesis using i(1,2) by (intro exI [of _ i] exI [of _ u] exI [of _ "s\<lparr>ms_kern := k'\<rparr>"]) simp
qed

lemma resume_snd_ok:
  assumes "msg_inv 0 0 0 L s" "ms_conts s (current_pid (ms_kern s)) = Some (M_snd i a d z)"
  shows "\<exists>r m s'. msg_resume s = Some (r, m, s') \<and> msg_inv 0 0 0 L s' \<and> goes_on s r m s'"
proof -
  let ?p = "current_pid (ms_kern s)"
  note inv0 = msg_invD [OF assms(1)]
  obtain i' u s1 where w: "active (ms_heap s) i'" "waits_for L (ms_heap s) i' (M_snd i a d z) u" "msg_sem resume s = Some (Ret 0, s1)"
     "ms_heap s1 = ms_heap s" "ms_mem s1 = ms_mem s" "ms_data s1 = ms_data s" "ms_conts s1 = ms_conts s" "same_contents s s1" "sync_inv False (ms_kern s1)"
     "queues_ok i' (if u = mq_full (ms_heap s ! i') then 1 else 0) (if u = mq_full (ms_heap s ! i') then 0 else 1) L (ms_kern s1)
       ((ms_conts s)(?p := None)) (ms_heap s)"
    using msg_inv_wake [OF assms] by blast
  have i: "i' = i" "u = mq_full (ms_heap s ! i)" "unat z \<le> length d" "z \<le> L" using w(2) by (auto simp: waits_for_def)
  define s2 where "s2 = s1\<lparr>ms_conts := (ms_conts s1)(?p := None)\<rparr>"
  have act: "active (ms_heap s2) i" using w(1,4) i(1) by (simp add: s2_def)
  have inv2: "msg_inv i 1 0 L s2" using w(4-7,9,10) i(1,2) mem_wake(1) [OF inv0(2) assms(2)] by (simp add: msg_inv_def s2_def)
  have ex: "extra (ms_mem s2) (ms_conts s2) (ms_heap s2) a z" using mem_wake(2) [OF inv0(2) assms(2)] w(4,5,7) by (simp add: s2_def)
  obtain s' where s': "msg_put i a d z s2 = Some (Ret 0, s')" "msg_inv 0 0 0 L s'" "changes i (contents s2 i @ [take (unat z) d]) s2 s'"
    using put_ok [OF inv2 act ex i(3,4)] by blast
  have "same_contents s s2" using w(4,6,8) by (simp add: same_contents_def s2_def contents_def)
  moreover have "contents s2 i = contents s i" using w(4,6) by (simp add: contents_def s2_def)
  ultimately have "sends i (take (unat z) d) s (Ret 0) s'" using same_changes [OF _ s'(3)] w(1) i(1) by (simp add: sends_def)
  moreover have "msg_resume s = Some (Ret 0, None, s')"
    using w(3) assms(2) snd_end_eq [OF act, of a d z] s'(1) by (simp add: msg_resume_def Let_def s2_def)
  ultimately show ?thesis using s'(2) assms(2) by (simp add: goes_on_def)
qed

lemma resume_rcv_ok:
  assumes "msg_inv 0 0 0 L s" "ms_conts s (current_pid (ms_kern s)) = Some (M_rcv i z f)"
  shows "\<exists>r m s'. msg_resume s = Some (r, m, s') \<and> msg_inv 0 0 0 L s' \<and> goes_on s r m s'"
proof -
  let ?p = "current_pid (ms_kern s)"
  note inv0 = msg_invD [OF assms(1)]
  obtain i' u s1 where w: "active (ms_heap s) i'" "waits_for L (ms_heap s) i' (M_rcv i z f) u" "msg_sem resume s = Some (Ret 0, s1)"
     "ms_heap s1 = ms_heap s" "ms_mem s1 = ms_mem s" "ms_data s1 = ms_data s" "ms_conts s1 = ms_conts s" "same_contents s s1" "sync_inv False (ms_kern s1)"
     "queues_ok i' (if u = mq_full (ms_heap s ! i') then 1 else 0) (if u = mq_full (ms_heap s ! i') then 0 else 1) L (ms_kern s1)
       ((ms_conts s)(?p := None)) (ms_heap s)"
    using msg_inv_wake [OF assms] by blast
  have i: "i' = i" "u = mq_empty (ms_heap s ! i)" "L \<le> z" using w(2) by (auto simp: waits_for_def)
  have "mq_full (ms_heap s ! i) \<noteq> mq_empty (ms_heap s ! i)" using queue_okD(5) [OF queues_okD(2) [OF inv0(3) w(1)]] i(1) by simp
  then have u: "u \<noteq> mq_full (ms_heap s ! i)" using i(2) by simp
  define s2 where "s2 = s1\<lparr>ms_conts := (ms_conts s1)(?p := None)\<rparr>"
  have act: "active (ms_heap s2) i" using w(1,4) i(1) by (simp add: s2_def)
  have "mem_ok (ms_mem s) (ms_data s) ((ms_conts s)(?p := None)) (ms_heap s)" by (rule mem_fewer [OF inv0(2)]) (simp split: if_splits)
  then have inv2: "msg_inv i 0 1 L s2" using w(4-7,9,10) i(1) u by (simp add: msg_inv_def s2_def)
  obtain bs xs s' where s': "contents s2 i = bs # xs" "msg_get i z f s2 = Some (Ret (sint (of_nat (length bs) :: u32)), Some bs, s')"
      "msg_inv 0 0 0 L s'" "changes i xs s2 s'"
    using get_ok [OF inv2 act i(3), of f] by blast
  have "same_contents s s2" using w(4,6,8) by (simp add: same_contents_def s2_def contents_def)
  moreover have "contents s i = bs # xs" using s'(1) w(4,6) by (simp add: contents_def s2_def)
  ultimately have "gets i s (Ret (sint (of_nat (length bs) :: u32))) (Some bs) s'" using same_changes [OF _ s'(4)] w(1) i(1) by (simp add: gets_def)
  moreover have "msg_resume s = Some (Ret (sint (of_nat (length bs) :: u32)), Some bs, s')"
    using w(3) assms(2) rcv_end_eq [OF act, of z f] s'(2) by (simp add: msg_resume_def Let_def s2_def)
  ultimately show ?thesis using s'(3) assms(2) by (simp add: goes_on_def)
qed

lemma resume_sleep_ok:
  assumes "msg_inv 0 0 0 L s" "conts (ms_kern s) (current_pid (ms_kern s)) \<noteq> None" "ms_conts s (current_pid (ms_kern s)) = None"
  shows "\<exists>r m s'. msg_resume s = Some (r, m, s') \<and> msg_inv 0 0 0 L s' \<and> goes_on s r m s'"
proof -
  let ?p = "current_pid (ms_kern s)" and ?k = "ms_kern s"
  note inv = msg_invD [OF assms(1)]
  have c: "conts ?k ?p = Some K_sleep" using queues_okD(3) [OF inv(3), of ?p] assms(2,3) by (simp add: cont_rel_def)
  then obtain k' where k': "resume ?k = Some (Ret 0, k')" "kgoes ?k 0 0 (semw ?k) ((conts ?k)(?p := None)) k'"
    using kg_resume [OF inv(1) c, of 0] by blast
  have same: "(ms_conts s)(?p := None) = ms_conts s" using assms(3) by auto
  have "cont_rel L (ms_heap s) (((conts ?k)(?p := None)) x) (ms_conts s x)" for x
    using queues_okD(3) [OF inv(3), of x] assms(3) by (simp add: cont_rel_def)
  from queues_ok_same [OF inv(3) k'(2) this] have "msg_inv 0 0 0 L (s\<lparr>ms_kern := k'\<rparr>)" using inv(2) k'(2) by (simp add: msg_inv_def kgoes_def)
  moreover have "same_contents s (s\<lparr>ms_kern := k'\<rparr>)" by (rule same_refl) (use k'(2) in \<open>simp_all add: kgoes_def\<close>)
  moreover have "msg_resume s = Some (Ret 0, None, s\<lparr>ms_kern := k'\<rparr>)"
    using k'(1) assms(3) same by (simp add: msg_resume_def Let_def msg_sem_def)
  ultimately show ?thesis using assms(3) by (simp add: goes_on_def)
qed

section \<open>A new queue\<close>

lemma filter_update:
  assumes "i < length xs" "P (xs ! i)" "\<not> P y"
  shows "length (filter P xs) = Suc (length (filter P (xs[i := y])))"
  using assms
proof (induction xs arbitrary: i)
  case (Cons x xs)
  then show ?case by (cases i) auto
qed simp

definition free_sems :: "kernel \<Rightarrow> nat" where
  "free_sems k = length (filter (\<lambda>x. fst x = 255) (sems k))"

lemma some_free: "0 < free_sems k \<Longrightarrow> \<exists>x \<in> set (sem_heap k). sem_id x = 255"
  unfolding free_sems_def length_greater_0_conv filter_empty_conv by (auto simp: sem_rest_def)

text \<open>A new semaphore was not in use, nobody waits for it, and it has the given value.\<close>

lemma kg_init:
  assumes "sync_inv False k" "val \<le> 127" "length (sem_heap k) \<le> 255" "0 < free_sems k"
  shows "\<exists>v k'. sys_sem_init 0 val k = Some (Ret 0, Some v, k') \<and> sync_inv False k' \<and> idle_task_pid k' = idle_task_pid k \<and>
     conts k' = conts k \<and> length (sem_heap k') = length (sem_heap k) \<and> free_sems k = Suc (free_sems k') \<and> \<not> msem k (unat v) \<and>
     (\<forall>i. msem k' i = (msem k i \<or> i = unat v)) \<and> (\<forall>i. msem k i \<longrightarrow> mval k' i = mval k i) \<and> mval k' (unat v) = int (unat val) \<and>
     (\<forall>i. semw k' i = semw k i) \<and> semw k (unat v) = {}"
proof -
  have sems_counted: "sems_ok (wview k) (sems k)" using sync_invD(5) [OF assms(1)] by simp
  have empty: "semw k i = {}" if "i < length (sem_heap k)" "sem_id (sem_heap k ! i) = 255" for i
  proof -
    have "sem_ok (wview k) i (sems k ! i)" using sems_counted that(1) by (simp only: sems_ok_def length_map)
    then show ?thesis using that by (simp add: sem_ok_def sem_rest_def waiters_wset)
  qed
  obtain x where x: "x \<in> set (sem_heap k)" "sem_id x = 255" using some_free [OF assms(4)] by blast
  obtain r m sv k' where k': "sys_sem_init 0 val k = Some (Ret r, m, k')" "becomes False k (wview k) sv (mutexes k) k'" "conts k' = conts k"
      "r = - 1 \<and> m = None \<and> sv = sems k \<and> (\<forall>x \<in> set (sem_heap k). sem_id x \<noteq> 255) \<or>
       r = 0 \<and> (\<exists>i < length (sem_heap k). sem_id (sem_heap k ! i) = 255 \<and> m = Some (of_nat i) \<and>
        sv = (sems k)[i := (of_nat i, ucast val, if (0 :: int) = 0 then current_pid k else 255, False)])"
    using sem_init_ok [OF sync_invD(1) [OF assms(1)] empty, of 0 val] by blast
  then obtain i where i: "i < length (sem_heap k)" "sem_id (sem_heap k ! i) = 255" "r = 0" "m = Some (of_nat i)"
      "sv = (sems k)[i := (of_nat i, ucast val, current_pid k, False)]" using x by auto
  have small: "i < 255" using i(1) assms(3) by simp
  then have u: "unat (of_nat i :: u32) = i" and id: "(of_nat i :: u8) \<noteq> 255" by (auto simp: unat_of_nat word_unat_eq_iff)
  have sv: "sint (ucast val :: u8) = int (unat val)"
  proof -
    have "sint (of_nat n :: u8) = int n" if "n < 128" for n using that by (simp add: signed_of_nat signed_take_bit_int_eq_self)
    from this [of "unat val"] show ?thesis using assms(2) by (simp add: word_le_nat_alt)
  qed
  have views: "views_ok False (wview k) sv (mutexes k)"
  proof -
    have "sems_ok (wview k) sv"
      unfolding i(5) by (rule sems_ok_with [OF sems_counted i(1)])
        (use empty [OF i(1,2)] sv in \<open>simp_all add: sem_ok_def waiters_wset\<close>)
    then show ?thesis using sync_invD(2) [OF assms(1)] by (auto simp: views_ok_def)
  qed
  note eq = becomes_eqD [OF k'(2)]
  have len: "length (sem_heap k') = length (sem_heap k)" using arg_cong [OF eq(4), of length] by (simp add: i(5))
  have rest: "sem_rest (sem_heap k' ! j) = (if j = i then (of_nat i, ucast val, current_pid k, False) else sem_rest (sem_heap k ! j))"
    if "j < length (sem_heap k)" for j
    using arg_cong [OF eq(4), of "\<lambda>xs. xs ! j"] i(1) that len by (auto simp: i(5) nth_list_update)
  have m: "msem k' j = (msem k j \<or> j = i)" "msem k j \<Longrightarrow> mval k' j = mval k j" "mval k' i = int (unat val)" for j
    using rest [of j] rest [OF i(1)] i(1,2) len id sv by (auto simp: msem_def mval_def sem_rest_def split: if_splits)
  have "free_sems k = Suc (free_sems k')"
    using filter_update [of i "sems k" "\<lambda>x. fst x = 255" "(of_nat i, ucast val, current_pid k, False)"] i(1,2,5) eq id
    by (simp add: free_sems_def sem_rest_def)
  moreover have "\<not> msem k i" using i(2) by (simp add: msem_def)
  moreover have "semw k' j = semw k j" for j using eq by (simp add: waiters_wset)
  ultimately show ?thesis
    using k'(1,3) i(3,4) u m len empty [OF i(1,2)] eq sync_becomes [OF k'(2) views] by (intro exI [of _ "of_nat i"] exI [of _ k']) simp
qed

text \<open>The rings of the queues that are not in use are as the start left them.\<close>

definition rings_ok :: "msgid_ds list \<Rightarrow> bool" where
  "rings_ok qs \<longleftrightarrow>
     (\<forall>i < length qs. \<not> active qs i \<longrightarrow>
        0 < unat (msgq_len (qs ! i)) \<and> unat (msgq_len (qs ! i)) \<le> 127 \<and> max_items (msg_q (qs ! i)) = msgq_len (qs ! i) \<and>
        unat (msgq_len (qs ! i)) \<le> length (q_items (msg_q (qs ! i))))"

lemma no_calls:
  assumes "queues_ok i0 df de L k C qs" "\<not> active qs i"
  shows "senders C i = {}" "receivers C i = {}"
proof -
  have rel: "cont_rel L qs (conts k p) (C p)" for p by (rule queues_okD(3) [OF assms(1)])
  have "C p \<noteq> Some (M_snd i b d z)" "C p \<noteq> Some (M_rcv i z f)" for p b d z f using rel [of p] assms(2) by (auto simp: cont_rel_def)
  then show "senders C i = {}" "receivers C i = {}" by (simp_all add: senders_def receivers_def)
qed

lemma queues_ok_new:
  assumes "queues_ok 0 0 0 L k C qs" "i < length qs" "\<not> active qs i" "msgid q \<noteq> - 1"
    and "q_ok (msg_q q)" "q_list (msg_q q) = []" "unat (max_items (msg_q q)) \<le> 127" "mval k' (unat (mq_full q)) = int (unat (max_items (msg_q q)))"
      "mval k' (unat (mq_empty q)) = 0" "mq_full q \<noteq> mq_empty q"
    and "\<not> msem k (unat (mq_full q))" "\<not> msem k (unat (mq_empty q))" "msem k' (unat (mq_full q))" "msem k' (unat (mq_empty q))"
      "semw k (unat (mq_full q)) = {}" "semw k (unat (mq_empty q)) = {}"
    and "\<And>j. msem k j \<Longrightarrow> msem k' j" "\<And>j. msem k j \<Longrightarrow> mval k' j = mval k j" "\<And>j. semw k' j = semw k j" "conts k' = conts k"
  shows "queues_ok 0 0 0 L k' C (qs[i := q])"
proof (rule queues_okI)
  note qs = queues_okD [OF assms(1)] and none = no_calls [OF assms(1,3)]
  have act: "active (qs[i := q]) j = (active qs j \<or> j = i)" for j using assms(2,4) by (auto simp: active_def nth_list_update)
  have old: "qs[i := q] ! j = qs ! j" "j \<noteq> i" if "active qs j" for j using assms(3) that by (cases "j = i"; simp)+
  have new: "qs[i := q] ! i = q" using assms(2) by simp
  have sem: "msem k (unat (mq_full (qs ! j)))" "msem k (unat (mq_empty (qs ! j)))" if "active qs j" for j
    using queue_okD(3,4) [OF qs(2) [OF that]] by blast+
  have apart: "{mq_full q, mq_empty q} \<inter> {mq_full (qs ! j), mq_empty (qs ! j)} = {}" if "active qs j" for j
    using sem [OF that] assms(11,12) by auto
  show "sems_apart (qs[i := q])"
    unfolding sems_apart_def
  proof (intro allI impI)
    fix a b
    assume ab: "active (qs[i := q]) a \<and> active (qs[i := q]) b \<and> a \<noteq> b"
    show "{mq_full (qs[i := q] ! a), mq_empty (qs[i := q] ! a)} \<inter> {mq_full (qs[i := q] ! b), mq_empty (qs[i := q] ! b)} = {}"
    proof (cases "a = i \<or> b = i")
      case True
      then show ?thesis using ab apart [of a] apart [of b] old(1) [of a] old(1) [of b] new by (auto simp: act)
    next
      case False
      then have "active qs a" "active qs b" using ab by (auto simp: act)
      then show ?thesis using qs(1) ab old(1) by (simp add: sems_apart_def)
    qed
  qed
  show "cont_rel L (qs[i := q]) (conts k' p) (C p)" for p
    using qs(3) [of p] old act by (auto simp: cont_rel_def assms(20) split: option.splits mcont.splits)
  fix j
  assume "active (qs[i := q]) j"
  then consider "j = i" | "active qs j" "j \<noteq> i" using act by blast
  then have "queue_ok 0 0 L k' C j (qs[i := q] ! j)"
  proof cases
    case 1
    have len: "item_count (msg_q q) = 0" using arg_cong [OF assms(6), of length] by (simp add: unat_eq_0)
    show ?thesis unfolding 1 new queue_ok_def using assms(5-19) none len by simp
  next
    case 2
    note q = queue_okD [OF qs(2) [OF 2(1)]] and s = sem [OF 2(1)]
    show ?thesis unfolding old(1) [OF 2(1)] queue_ok_def using q assms(17) s assms(18) [OF s(1)] assms(18) [OF s(2)] assms(19) by simp
  qed
  then show "queue_ok (if j = 0 then 0 else 0) (if j = 0 then 0 else 0) L k' C j (qs[i := q] ! j)" by simp
qed

lemma mem_new:
  assumes "mem_ok m D C qs" "i < length qs" "\<not> active qs i" "q_list (msg_q q) = []"
  shows "mem_ok m D C (qs[i := q])"
proof -
  obtain own where own: "owned m D C qs own" using assms(1) unfolding mem_ok_def by blast
  note ok = ownedD [OF own]
  have old: "active qs j \<and> msgs_of (qs[i := q]) j = msgs_of qs j \<or> msgs_of (qs[i := q]) j = []" if "active (qs[i := q]) j" for j
    using that assms(2,4) by (cases "j = i") (auto simp: active_def)
  have "queue_blocks (qs[i := q]) \<subseteq> queue_blocks qs" using old unfolding queue_blocks_def by fastforce
  then have "bp.held m (queue_blocks (qs[i := q]))" by (rule held_sub [OF ok(2)])
  then show ?thesis
  proof (rule mem_okI [where own = own, OF ok(1) _ ok(3) _ _ _ ok(7)])
    fix j
    assume j: "active (qs[i := q]) j"
    show "distinct (map msg_buf (msgs_of (qs[i := q]) j))" using old [OF j] ok(4) [of j] by auto
    fix x
    assume x: "x \<in> set (msgs_of (qs[i := q]) j)"
    then have "active qs j" "x \<in> set (msgs_of qs j)" using old [OF j] by auto
    then show "\<exists>bs. D (msg_buf x) = Some bs \<and> length bs = unat (msg_len x)" "own (msg_buf x) = In_queue j" using ok(5,6) by blast+
  qed
qed

definition grows :: "msgsys \<Rightarrow> msgsys \<Rightarrow> bool" where
  "grows s s' \<longleftrightarrow>
     idle_task_pid (ms_kern s') = idle_task_pid (ms_kern s) \<and> rings_ok (ms_heap s') \<and>
     (\<forall>j. active (ms_heap s) j \<longrightarrow> active (ms_heap s') j \<and> contents s' j = contents s j) \<and>
     (\<forall>j. active (ms_heap s') j \<and> \<not> active (ms_heap s) j \<longrightarrow> contents s' j = [])"

lemma rings_ok_same:
  assumes "rings_ok (ms_heap s)" "same_contents s s'"
  shows "rings_ok (ms_heap s')"
  using assms by (simp add: rings_ok_def same_contents_def)

lemma same_grows: "same_contents s s' \<Longrightarrow> rings_ok (ms_heap s) \<Longrightarrow> grows s s'"
  using rings_ok_same by (simp add: grows_def same_contents_def)

lemma qinit_ok:
  assumes "0 < unat (max_items q)" "unat (max_items q) \<le> length (q_items q)"
  shows "q_ok (qinit q)" "q_list (qinit q) = []"
  using assms by (simp_all add: q_ok_def q_list_def qinit_def)

lemma new_queue_ok:
  assumes "msg_inv 0 0 0 L s" "rings_ok (ms_heap s)" "i < length (ms_heap s)" "\<not> active (ms_heap s) i"
    and "length (sem_heap (ms_kern s)) \<le> 255" "2 \<le> free_sems (ms_kern s)"
  shows "\<exists>v1 k1 v2 k2. sys_sem_init 0 (ucast (msgq_len (ms_heap s ! i))) (ms_kern s) = Some (Ret 0, Some v1, k1) \<and>
     sys_sem_init 0 0 k1 = Some (Ret 0, Some v2, k2) \<and>
     (\<forall>q. msgid q \<noteq> - 1 \<and> mq_full q = v1 \<and> mq_empty q = v2 \<and> msg_q q = qinit (msg_q (ms_heap s ! i)) \<longrightarrow>
        msg_inv 0 0 0 L (s\<lparr>ms_kern := k2, ms_heap := (ms_heap s)[i := q]\<rparr>) \<and> grows s (s\<lparr>ms_kern := k2, ms_heap := (ms_heap s)[i := q]\<rparr>))"
proof -
  note inv = msg_invD [OF assms(1)]
  let ?m = "msgq_len (ms_heap s ! i)" and ?k = "ms_kern s"
  have ring: "0 < unat ?m" "unat ?m \<le> 127" "max_items (msg_q (ms_heap s ! i)) = ?m" "unat ?m \<le> length (q_items (msg_q (ms_heap s ! i)))"
    using assms(2-4) by (auto simp: rings_ok_def)
  have val: "unat (ucast ?m :: u32) = unat ?m" "(ucast ?m :: u32) \<le> 127" using ring(2) by (simp_all add: word_le_nat_alt unsigned_ucast_eq take_bit_nat_eq_self)
  obtain v1 k1 where k1: "sys_sem_init 0 (ucast ?m) ?k = Some (Ret 0, Some v1, k1)" "sync_inv False k1" "idle_task_pid k1 = idle_task_pid ?k"
     "conts k1 = conts ?k" "length (sem_heap k1) = length (sem_heap ?k)" "free_sems ?k = Suc (free_sems k1)" "\<not> msem ?k (unat v1)"
     "\<forall>i. msem k1 i = (msem ?k i \<or> i = unat v1)" "\<forall>i. msem ?k i \<longrightarrow> mval k1 i = mval ?k i" "mval k1 (unat v1) = int (unat ?m)"
     "\<forall>i. semw k1 i = semw ?k i" "semw ?k (unat v1) = {}"
    using kg_init [OF inv(1) val(2) assms(5)] assms(6) val(1) by auto
  obtain v2 k2 where k2: "sys_sem_init 0 0 k1 = Some (Ret 0, Some v2, k2)" "sync_inv False k2" "idle_task_pid k2 = idle_task_pid k1"
     "conts k2 = conts k1" "\<not> msem k1 (unat v2)"
     "\<forall>i. msem k2 i = (msem k1 i \<or> i = unat v2)" "\<forall>i. msem k1 i \<longrightarrow> mval k2 i = mval k1 i" "mval k2 (unat v2) = 0"
     "\<forall>i. semw k2 i = semw k1 i" "semw k1 (unat v2) = {}"
    using kg_init [OF k1(2), of 0] k1(5,6) assms(5,6) by auto
  have "msg_inv 0 0 0 L (s\<lparr>ms_kern := k2, ms_heap := (ms_heap s)[i := q]\<rparr>) \<and> grows s (s\<lparr>ms_kern := k2, ms_heap := (ms_heap s)[i := q]\<rparr>)"
    if q: "msgid q \<noteq> - 1" "mq_full q = v1" "mq_empty q = v2" "msg_q q = qinit (msg_q (ms_heap s ! i))" for q
  proof -
    have r: "q_ok (msg_q q)" "q_list (msg_q q) = []" "max_items (msg_q q) = ?m"
      using qinit_ok [of "msg_q (ms_heap s ! i)"] ring q(4) by (simp_all add: qinit_def)
    have "v1 \<noteq> v2" using k1(8) k2(5) by auto
    then have "queues_ok 0 0 0 L k2 (ms_conts s) ((ms_heap s)[i := q])"
      using queues_ok_new [OF inv(3) assms(3,4) q(1) r(1,2), of k2] q(2,3) r(3) ring(2) k1 k2 by simp
    moreover have act: "active ((ms_heap s)[i := q]) j = (active (ms_heap s) j \<or> j = i)" for j
      using assms(3) q(1) by (auto simp: active_def nth_list_update)
    have "contents (s\<lparr>ms_kern := k2, ms_heap := (ms_heap s)[i := q]\<rparr>) j = (if j = i then [] else contents s j)" for j
      using r(2) assms(3) by (simp add: contents_def)
    moreover have "rings_ok ((ms_heap s)[i := q])" using assms(2,3) unfolding rings_ok_def by (simp add: act nth_list_update)
    ultimately show ?thesis
      using mem_new [OF inv(2) assms(3,4) r(2)] k1(3) k2(2,3) assms(4) act by (auto simp: msg_inv_def grows_def)
  qed
  then show ?thesis using k1(1) k2(1) by blast
qed

text \<open>The request is for a queue that does not exist yet, and there is an entry for it.\<close>

definition makes_queue :: "u32 \<Rightarrow> u32 \<Rightarrow> msgsys \<Rightarrow> bool" where
  "makes_queue key flg s \<longleftrightarrow>
     \<not> get_msgid_by_key key (ms_heap s) < length (ms_heap s) \<and> key \<noteq> IPC_PRIVATE \<and> flg AND IPC_CREAT \<noteq> 0 \<and>
     scan_table (\<lambda>q. msgid q = - 1) 0 (ms_heap s) \<noteq> length (ms_heap s)"

lemma msgget_ok:
  assumes "msg_inv 0 0 0 L s" "rings_ok (ms_heap s)"
    and "makes_queue key flg s \<longrightarrow> length (sem_heap (ms_kern s)) \<le> 255 \<and> 2 \<le> free_sems (ms_kern s)"
  shows "\<exists>r s'. sys_msgget key flg s = Some (Ret r, s') \<and> msg_inv 0 0 0 L s' \<and> grows s s'"
proof -
  have fail: "\<exists>r s'. ms_fail e s = Some (Ret r, s') \<and> msg_inv 0 0 0 L s' \<and> grows s s'" for e
  proof -
    obtain s' where "ms_fail e s = Some (Ret (- 1), s')" "msg_inv 0 0 0 L s'" "same_contents s s'" using fail_same [OF assms(1)] by blast
    then show ?thesis using same_grows [OF _ assms(2)] by blast
  qed
  have same: "grows s s" by (rule same_grows [OF same_refl assms(2)]) simp_all
  define i where "i = scan_table (\<lambda>q. msgid q = - 1) 0 (ms_heap s)"
  show ?thesis
  proof (cases "get_msgid_by_key key (ms_heap s) < length (ms_heap s) \<or> key = IPC_PRIVATE \<or> flg AND IPC_CREAT = 0 \<or> i = length (ms_heap s)")
    case True
    then show ?thesis using fail same assms(1) by (auto simp: sys_msgget_def Let_def simp flip: i_def)
  next
    case False
    have i: "i < length (ms_heap s)" "\<not> active (ms_heap s) i"
      using False scan_table_le [of "\<lambda>q. msgid q = - 1" 0 "ms_heap s"] scan_table_sat [of "\<lambda>q. msgid q = - 1" "ms_heap s"] by (simp_all add: i_def active_def)
    have room: "length (sem_heap (ms_kern s)) \<le> 255" "2 \<le> free_sems (ms_kern s)"
      using False assms(3) by (auto simp: makes_queue_def i_def)
    obtain v1 k1 v2 k2 where new: "sys_sem_init 0 (ucast (msgq_len (ms_heap s ! i))) (ms_kern s) = Some (Ret 0, Some v1, k1)"
       "sys_sem_init 0 0 k1 = Some (Ret 0, Some v2, k2)"
       "\<And>q. msgid q \<noteq> - 1 \<and> mq_full q = v1 \<and> mq_empty q = v2 \<and> msg_q q = qinit (msg_q (ms_heap s ! i)) \<Longrightarrow>
          msg_inv 0 0 0 L (s\<lparr>ms_kern := k2, ms_heap := (ms_heap s)[i := q]\<rparr>) \<and> grows s (s\<lparr>ms_kern := k2, ms_heap := (ms_heap s)[i := q]\<rparr>)"
      using new_queue_ok [OF assms(1,2) i room] by blast
    define q where "q = (ms_heap s ! i)\<lparr>msgid := int i, mq_key := key, mq_full := v1, mq_empty := v2, msg_q := qinit (msg_q (ms_heap s ! i)),
      mq_stats := (mq_stats (ms_heap s ! i))\<lparr>msg_qnum := 0, msg_lspid := 0, msg_lrpid := 0\<rparr>\<rparr>"
    have "sys_msgget key flg s = Some (Ret (int i), s\<lparr>ms_kern := k2, ms_heap := (ms_heap s)[i := q]\<rparr>)"
      using False i(1) new(1,2) by (simp add: sys_msgget_def Let_def upd_msgq_def arr_get_in arr_set_in msg_sem_init_def q_def flip: i_def)
    then show ?thesis using new(3) [of q] by (auto simp: q_def)
  qed
qed

section \<open>Processes, messages and interrupts as steps\<close>

datatype mevent =
    M_tick
  | M_resume
  | M_sleep u32
  | M_get u32 u32
  | M_send int "u8 list" u32 u32
  | M_recv int u32 u32

text \<open>A call that returns leaves the kernel, as in \<open>leave\<close>.\<close>

definition ms_leave :: "(kres \<times> 'm \<times> msgsys) option \<Rightarrow> (kres \<times> 'm \<times> msgsys) option" where
  "ms_leave r =
     do { (v, m, s) \<leftarrow> r;
          case v of Blocked \<Rightarrow> Some (v, m, s) | Ret _ \<Rightarrow> do { k \<leftarrow> sys_exit (ms_kern s); Some (v, m, s\<lparr>ms_kern := k\<rparr>) } }"

definition no_out :: "(kres \<times> msgsys) option \<Rightarrow> (kres \<times> u8 list option \<times> msgsys) option" where
  "no_out r = map_option (\<lambda>(v, s). (v, None, s)) r"

fun mstep :: "mevent \<Rightarrow> msgsys \<Rightarrow> (kres \<times> u8 list option \<times> msgsys) option" where
  "mstep M_tick s = do { k \<leftarrow> timer_irq (ms_kern s); Some (Ret 0, None, s\<lparr>ms_kern := k\<rparr>) }"
| "mstep M_resume s = ms_leave (msg_resume s)"
| "mstep (M_sleep ms) s = ms_leave (no_out (msg_sem (sys_sleep ms) s))"
| "mstep (M_get key flg) s = ms_leave (no_out (sys_msgget key flg s))"
| "mstep (M_send mid msgp msgsz flg) s = ms_leave (no_out (sys_msgsnd mid msgp msgsz flg s))"
| "mstep (M_recv mid msgsz flg) s = ms_leave (sys_msgrcv mid msgsz flg s)"

fun menabled :: "mevent \<Rightarrow> msgsys \<Rightarrow> bool" where
  "menabled M_tick s = (conts (ms_kern s) (current_pid (ms_kern s)) = None)"
| "menabled M_resume s = (conts (ms_kern s) (current_pid (ms_kern s)) \<noteq> None)"
| "menabled _ s = (current_pid (ms_kern s) \<noteq> idle_task_pid (ms_kern s) \<and> conts (ms_kern s) (current_pid (ms_kern s)) = None)"

text \<open>
  What the callers have to respect: no message is longer than \<open>L\<close>, and every receiver has room for \<open>L\<close> bytes, since a
  message that is too long takes a place of the queue for ever. A new queue finds its two semaphores, since \<^verbatim>\<open>sys_msgget\<close>
  leaves a queue without them behind otherwise; a semaphore has a number below 255.
\<close>

fun mevent_ok :: "u32 \<Rightarrow> mevent \<Rightarrow> msgsys \<Rightarrow> bool" where
  "mevent_ok L (M_get key flg) s =
     (makes_queue key flg s \<longrightarrow> length (sem_heap (ms_kern s)) \<le> 255 \<and> 2 \<le> free_sems (ms_kern s))"
| "mevent_ok L (M_send mid msgp msgsz flg) s = (unat msgsz \<le> length msgp \<and> msgsz \<le> L)"
| "mevent_ok L (M_recv mid msgsz flg) s = (L \<le> msgsz)"
| "mevent_ok L _ s = True"

text \<open>The messages that were sent and received, in the order in which the calls were completed.\<close>

datatype mlabel = Sent nat "u8 list" | Got nat "u8 list"

definition call_of :: "mevent \<Rightarrow> msgsys \<Rightarrow> mcont option" where
  "call_of ev s =
     (case ev of
        M_send mid d z f \<Rightarrow> Some (M_snd (nat mid) 0 d z)
      | M_recv mid z f \<Rightarrow> Some (M_rcv (nat mid) z f)
      | M_resume \<Rightarrow> ms_conts s (current_pid (ms_kern s))
      | _ \<Rightarrow> None)"

definition log_of :: "mcont option \<Rightarrow> kres \<Rightarrow> u8 list option \<Rightarrow> mlabel list" where
  "log_of c r m =
     (case c of
        None \<Rightarrow> []
      | Some (M_snd i a d z) \<Rightarrow> if r = Ret 0 then [Sent i (take (unat z) d)] else []
      | Some (M_rcv i z f) \<Rightarrow> case m of None \<Rightarrow> [] | Some bs \<Rightarrow> [Got i bs])"

definition sent :: "nat \<Rightarrow> mlabel list \<Rightarrow> u8 list list" where
  "sent i log = concat (map (\<lambda>l. case l of Sent j bs \<Rightarrow> if j = i then [bs] else [] | Got j bs \<Rightarrow> []) log)"

definition got :: "nat \<Rightarrow> mlabel list \<Rightarrow> u8 list list" where
  "got i log = concat (map (\<lambda>l. case l of Got j bs \<Rightarrow> if j = i then [bs] else [] | Sent j bs \<Rightarrow> []) log)"

inductive mreach :: "u32 \<Rightarrow> msgsys \<Rightarrow> mlabel list \<Rightarrow> msgsys \<Rightarrow> bool" for L s0 where
  start: "mreach L s0 [] s0"
| step: "mreach L s0 log s \<Longrightarrow> menabled ev s \<Longrightarrow> mevent_ok L ev s \<Longrightarrow> mstep ev s = Some (r, m, s') \<Longrightarrow>
     mreach L s0 (log @ log_of (call_of ev s) r m) s'"

text \<open>The start, with a block memory that is already set up.\<close>

definition msg_start :: "kconfig \<Rightarrow> kernel \<Rightarrow> bufmem \<Rightarrow> u8 \<Rightarrow> u32 \<Rightarrow> msg_t list list \<Rightarrow> msgid_ds list \<Rightarrow> msgsys option" where
  "msg_start c k0 m capacity max_bytes mems qs =
     do { k \<leftarrow> xilkernel_init c k0;
          Some \<lparr>ms_kern = k, ms_mem = m, ms_heap = msgq_init capacity max_bytes mems qs, ms_data = (\<lambda>_. None), ms_conts = (\<lambda>_. None)\<rparr> }"

definition msg_config_ok :: "kconfig \<Rightarrow> kernel \<Rightarrow> bufmem \<Rightarrow> u8 \<Rightarrow> msg_t list list \<Rightarrow> msgid_ds list \<Rightarrow> bool" where
  "msg_config_ok c k0 m capacity mems qs \<longleftrightarrow>
     config_ok c k0 \<and> bm_good m \<and> 0 < unat capacity \<and> unat capacity \<le> 127 \<and> length mems = length qs \<and>
     (\<forall>mem \<in> set mems. unat capacity \<le> length mem)"

section \<open>The start has the invariant\<close>

lemma proc_create_conts: "proc_create prio s = Some (p, s') \<Longrightarrow> conts s' = conts s"
  by (auto simp: proc_create_def Let_def split: if_splits bind_splits)

lemma se_process_init_conts:
  "se_process_init prios s = Some (r, s') \<Longrightarrow> conts s = (\<lambda>_. None) \<Longrightarrow> conts s' = (\<lambda>_. None)"
proof (induction prios arbitrary: s)
  case (Cons prio prios)
  then obtain v s1 where "sys_elf_process_create prio s = Some (v, s1)" by (auto split: bind_splits)
  moreover from this have "conts s1 = (\<lambda>_. None)"
    using Cons.prems(2) proc_create_conts [of prio s] by (auto simp: sys_elf_process_create_def split: bind_splits if_splits)
  ultimately show ?case using Cons.prems(1) Cons.IH [of s1] by (auto split: kres.splits if_splits)
qed simp

lemma init_conts:
  assumes "xilkernel_init c s = Some s'" "config_ok c s"
  shows "conts s' = (\<lambda>_. None)"
proof -
  have "conts (init_tables c s) = (\<lambda>_. None)" using assms(2) by (simp add: config_ok_def init_tables_def sem_heap_init_def pthread_mutex_heap_init_def)
  then show ?thesis
    using assms(1) proc_create_conts [of "cfg_prio_lowest c" "init_tables c s"] se_process_init_conts [of "cfg_init_prios c"]
    by (auto simp: xilkernel_init_def init_idle_task_def upd_proc_def split: bind_splits)
qed

lemma start_inv:
  assumes "msg_config_ok c k0 m capacity mems qs"
  shows "\<exists>s. msg_start c k0 m capacity max_bytes mems qs = Some s \<and> msg_inv 0 0 0 L s \<and> rings_ok (ms_heap s) \<and> (\<forall>i. \<not> active (ms_heap s) i)"
proof -
  have cfg: "config_ok c k0" "bm_good m" "0 < unat capacity" "unat capacity \<le> 127" "length mems = length qs"
      "\<forall>mem \<in> set mems. unat capacity \<le> length mem"
    using assms by (simp_all add: msg_config_ok_def)
  obtain k where k: "xilkernel_init c k0 = Some k" "sync_inv False k" using xilkernel_init_inv [OF cfg(1)] by blast
  note none = init_conts [OF k(1) cfg(1)]
  define hs where "hs = msgq_init capacity max_bytes mems qs"
  have len: "length hs = length qs" using cfg(5) by (simp add: hs_def msgq_init_def)
  have h: "msgid (hs ! i) = - 1" "msgq_len (hs ! i) = capacity" "msg_q (hs ! i) = alloc_q (mems ! i) capacity 8" if "i < length qs" for i
    using that cfg(5) by (simp_all add: hs_def msgq_init_def)
  have off: "\<not> active hs i" for i using h(1) len by (auto simp: active_def)
  have "queues_ok 0 0 0 L k (\<lambda>_. None) hs" using off none by (simp add: queues_ok_def sems_apart_def cont_rel_def)
  moreover have "mem_ok m (\<lambda>_. None) (\<lambda>_. None) hs"
    unfolding mem_ok_def owned_def bp.held_def using off cfg(2) by (simp add: queue_blocks_def sender_blocks_def)
  moreover have "rings_ok hs" using cfg(3-6) h len by (simp add: rings_ok_def alloc_q_def)
  ultimately show ?thesis using k off by (simp add: msg_start_def msg_inv_def flip: hs_def)
qed

section \<open>Every step delivers\<close>

definition delivers :: "msgsys \<Rightarrow> mlabel list \<Rightarrow> msgsys \<Rightarrow> bool" where
  "delivers s l s' \<longleftrightarrow>
     rings_ok (ms_heap s') \<and>
     (\<forall>i. active (ms_heap s) i \<longrightarrow> active (ms_heap s') i \<and> contents s i @ sent i l = got i l @ contents s' i) \<and>
     (\<forall>i. \<not> active (ms_heap s) i \<longrightarrow> sent i l = [] \<and> got i l = [] \<and> (active (ms_heap s') i \<longrightarrow> contents s' i = []))"

lemma log_simps [simp]:
  "sent i [] = []" "got i [] = []" "sent i (l @ l') = sent i l @ sent i l'" "got i (l @ l') = got i l @ got i l'"
  "sent i [Sent j bs] = (if j = i then [bs] else [])" "got i [Sent j bs] = []"
  "sent i [Got j bs] = []" "got i [Got j bs] = (if j = i then [bs] else [])"
  by (simp_all add: sent_def got_def)

lemma delivers_grows: "grows s s' \<Longrightarrow> delivers s [] s'"
  by (simp add: grows_def delivers_def)

lemma delivers_same: "same_contents s s' \<Longrightarrow> rings_ok (ms_heap s) \<Longrightarrow> delivers s [] s'"
  using delivers_grows same_grows by blast

lemma delivers_then:
  assumes "delivers s l s1" "same_contents s1 s2"
  shows "delivers s l s2"
  using assms rings_ok_same [OF _ assms(2)] by (auto simp: delivers_def same_contents_def)

lemma rings_ok_changes: "rings_ok (ms_heap s) \<Longrightarrow> changes i xs s s' \<Longrightarrow> rings_ok (ms_heap s')"
  by (simp add: rings_ok_def changes_def)

lemma delivers_sends:
  assumes "sends i (take (unat z) d) s r s'" "rings_ok (ms_heap s)"
  shows "delivers s (log_of (Some (M_snd i a d z)) r m) s'"
proof (cases "r = Ret 0")
  case True
  then have "active (ms_heap s) i" "changes i (contents s i @ [take (unat z) d]) s s'" using assms(1) by (simp_all add: sends_def)
  then show ?thesis using True rings_ok_changes [OF assms(2)] by (auto simp: delivers_def changes_def log_of_def)
next
  case False
  then show ?thesis using assms delivers_same by (simp add: sends_def log_of_def)
qed

lemma delivers_gets:
  assumes "gets i s r m s'" "rings_ok (ms_heap s)"
  shows "delivers s (log_of (Some (M_rcv i z f)) r m) s'"
proof (cases m)
  case (Some bs)
  then obtain xs where "active (ms_heap s) i" "contents s i = bs # xs" "changes i xs s s'" using assms(1) by (auto simp: gets_def)
  then show ?thesis using Some rings_ok_changes [OF assms(2)] by (auto simp: delivers_def changes_def log_of_def)
next
  case None
  then show ?thesis using assms delivers_same by (simp add: gets_def log_of_def)
qed

text \<open>Leaving the kernel, interrupts and sleeping leave the queues alone.\<close>

lemma kern_same:
  assumes "msg_inv 0 0 0 L s" "kgoes (ms_kern s) 0 j (semw (ms_kern s)) (conts (ms_kern s)) k'"
  shows "msg_inv 0 0 0 L (s\<lparr>ms_kern := k'\<rparr>)" "same_contents s (s\<lparr>ms_kern := k'\<rparr>)"
proof -
  show "msg_inv 0 0 0 L (s\<lparr>ms_kern := k'\<rparr>)" by (rule msg_inv_kern [OF assms])
  show "same_contents s (s\<lparr>ms_kern := k'\<rparr>)" by (rule same_refl) (use assms(2) in \<open>simp_all add: kgoes_def\<close>)
qed

lemma leave_ok:
  assumes "r = Some (v, m, s')" "msg_inv 0 0 0 L s'" "delivers s l s'"
  shows "\<exists>s''. ms_leave r = Some (v, m, s'') \<and> msg_inv 0 0 0 L s'' \<and> delivers s l s''"
proof (cases v)
  case Blocked
  then show ?thesis using assms by (simp add: ms_leave_def)
next
  case (Ret n)
  obtain k' where k': "sys_exit (ms_kern s') = Some k'" "kgoes (ms_kern s') 0 0 (semw (ms_kern s')) (conts (ms_kern s')) k'"
    using kg_exit [OF msg_invD(1) [OF assms(2)]] by blast
  then show ?thesis using assms(1) Ret kern_same [OF assms(2) k'(2)] delivers_then [OF assms(3)] by (simp add: ms_leave_def)
qed

lemma sleep_msg_ok:
  assumes "msg_inv 0 0 0 L s" "current_pid (ms_kern s) \<noteq> idle_task_pid (ms_kern s)" "ms_conts s (current_pid (ms_kern s)) = None"
  shows "\<exists>s'. msg_sem (sys_sleep ms) s = Some (Blocked, s') \<and> msg_inv 0 0 0 L s' \<and> same_contents s s'"
proof -
  note inv = msg_invD [OF assms(1)]
  let ?k = "ms_kern s" and ?p = "current_pid (ms_kern s)"
  obtain k' where k': "sys_sleep ms ?k = Some (Blocked, k')" "kgoes ?k 0 0 (semw ?k) ((conts ?k)(?p := Some K_sleep)) k'"
    using kg_sleep [OF inv(1) assms(2)] by blast
  have "cont_rel L (ms_heap s) (((conts ?k)(?p := Some K_sleep)) x) (ms_conts s x)" for x
    using queues_okD(3) [OF inv(3), of x] assms(3) by (simp add: cont_rel_def)
  from queues_ok_same [OF inv(3) k'(2) this] have "msg_inv 0 0 0 L (s\<lparr>ms_kern := k'\<rparr>)" using inv(2) k'(2) by (simp add: msg_inv_def kgoes_def)
  moreover have "same_contents s (s\<lparr>ms_kern := k'\<rparr>)" by (rule same_refl) (use k'(2) in \<open>simp_all add: kgoes_def\<close>)
  ultimately show ?thesis using k'(1) by (simp add: msg_sem_def)
qed

lemma resume_ok:
  assumes "msg_inv 0 0 0 L s" "conts (ms_kern s) (current_pid (ms_kern s)) \<noteq> None"
  shows "\<exists>r m s'. msg_resume s = Some (r, m, s') \<and> msg_inv 0 0 0 L s' \<and> goes_on s r m s'"
proof (cases "ms_conts s (current_pid (ms_kern s))")
  case None
  then show ?thesis by (rule resume_sleep_ok [OF assms])
next
  case (Some c)
  then show ?thesis using resume_snd_ok [OF assms(1)] resume_rcv_ok [OF assms(1)] by (cases c) simp_all
qed

lemma delivers_goes_on:
  assumes "goes_on s r m s'" "rings_ok (ms_heap s)"
  shows "delivers s (log_of (call_of M_resume s) r m) s'"
proof (cases "ms_conts s (current_pid (ms_kern s))")
  case None
  then show ?thesis using assms delivers_same by (simp add: goes_on_def call_of_def log_of_def)
next
  case (Some c)
  then show ?thesis using assms delivers_sends delivers_gets by (cases c) (simp_all add: goes_on_def call_of_def)
qed

lemma mstep_ok:
  assumes "msg_inv 0 0 0 L s" "rings_ok (ms_heap s)" "menabled ev s" "mevent_ok L ev s"
  shows "\<exists>r m s'. mstep ev s = Some (r, m, s') \<and> msg_inv 0 0 0 L s' \<and> delivers s (log_of (call_of ev s) r m) s'"
proof -
  note inv = msg_invD [OF assms(1)]
  have free: "ms_conts s (current_pid (ms_kern s)) = None" if "conts (ms_kern s) (current_pid (ms_kern s)) = None"
    using queues_okD(3) [OF inv(3), of "current_pid (ms_kern s)"] that by (auto simp: cont_rel_def split: option.splits mcont.splits)
  show ?thesis
  proof (cases ev)
    case M_tick
    obtain k' where k': "timer_irq (ms_kern s) = Some k'" "kgoes (ms_kern s) 0 0 (semw (ms_kern s)) (conts (ms_kern s)) k'"
      using kg_irq [OF inv(1)] by blast
    then show ?thesis using M_tick kern_same [OF assms(1) k'(2)] delivers_same [OF _ assms(2)] by (simp add: call_of_def log_of_def)
  next
    case M_resume
    then obtain r m s' where s': "msg_resume s = Some (r, m, s')" "msg_inv 0 0 0 L s'" "goes_on s r m s'"
      using resume_ok [OF assms(1)] assms(3) by auto
    from leave_ok [OF s'(1,2) delivers_goes_on [OF s'(3) assms(2)]] show ?thesis unfolding M_resume mstep.simps by blast
  next
    case (M_sleep ms)
    then obtain s' where s': "msg_sem (sys_sleep ms) s = Some (Blocked, s')" "msg_inv 0 0 0 L s'" "same_contents s s'"
      using sleep_msg_ok [OF assms(1)] assms(3) free by auto
    then show ?thesis using M_sleep delivers_same [OF s'(3) assms(2)] by (simp add: no_out_def ms_leave_def call_of_def log_of_def)
  next
    case (M_get key flg)
    then obtain r s' where s': "sys_msgget key flg s = Some (Ret r, s')" "msg_inv 0 0 0 L s'" "grows s s'"
      using msgget_ok [OF assms(1,2), of key flg] assms(4) by auto
    have "no_out (sys_msgget key flg s) = Some (Ret r, None, s')" using s'(1) by (simp add: no_out_def)
    from leave_ok [OF this s'(2) delivers_grows [OF s'(3)]] show ?thesis using M_get by (auto simp: call_of_def log_of_def)
  next
    case (M_send mid d z f)
    then obtain r s' where s': "sys_msgsnd mid d z f s = Some (r, s')" "msg_inv 0 0 0 L s'" "sends (nat mid) (take (unat z) d) s r s'"
      using send_ok [OF assms(1), of z d mid f] assms(3,4) free by auto
    have "no_out (sys_msgsnd mid d z f s) = Some (r, None, s')" using s'(1) by (simp add: no_out_def)
    from leave_ok [OF this s'(2) delivers_sends [OF s'(3) assms(2), where a = 0 and m = None]] show ?thesis using M_send by (auto simp: call_of_def)
  next
    case (M_recv mid z f)
    then obtain r m s' where s': "sys_msgrcv mid z f s = Some (r, m, s')" "msg_inv 0 0 0 L s'" "gets (nat mid) s r m s'"
      using recv_ok [OF assms(1), of z mid f] assms(3,4) free by auto
    from leave_ok [OF s'(1,2) delivers_gets [OF s'(3) assms(2), where z = z and f = f]] show ?thesis using M_recv by (auto simp: call_of_def)
  qed
qed

lemma mreach_inv:
  assumes "mreach L s0 log s" "msg_inv 0 0 0 L s0" "rings_ok (ms_heap s0)" "\<And>i. \<not> active (ms_heap s0) i"
  shows "msg_inv 0 0 0 L s \<and> rings_ok (ms_heap s) \<and> (\<forall>i. active (ms_heap s) i \<longrightarrow> sent i log = got i log @ contents s i) \<and>
     (\<forall>i. \<not> active (ms_heap s) i \<longrightarrow> sent i log = [] \<and> got i log = [])"
  using assms(1)
proof (induction rule: mreach.induct)
  case start
  then show ?case using assms(2-4) by simp
next
  case (step log s ev r m s')
  then obtain r' m' s'' where st: "mstep ev s = Some (r', m', s'')" "msg_inv 0 0 0 L s''" "delivers s (log_of (call_of ev s) r' m') s''"
    using mstep_ok by blast
  then have eq: "r' = r" "m' = m" "s'' = s'" using step.hyps(4) by auto
  have d: "delivers s (log_of (call_of ev s) r m) s'" using st(3) unfolding eq .
  have "sent i (log @ log_of (call_of ev s) r m) = got i (log @ log_of (call_of ev s) r m) @ contents s' i" if "active (ms_heap s') i" for i
    using d step.IH that by (cases "active (ms_heap s) i") (auto simp: delivers_def)
  moreover have "sent i (log @ log_of (call_of ev s) r m) = [] \<and> got i (log @ log_of (call_of ev s) r m) = []" if "\<not> active (ms_heap s') i" for i
    using d step.IH that by (cases "active (ms_heap s) i") (auto simp: delivers_def)
  moreover have "rings_ok (ms_heap s')" using d by (simp add: delivers_def)
  ultimately show ?case using st(2) eq by blast
qed

section \<open>Properties\<close>

text \<open>A run of given events, each of which has to be possible and allowed.\<close>

fun mrun :: "u32 \<Rightarrow> mevent list \<Rightarrow> mlabel list \<times> msgsys \<Rightarrow> (mlabel list \<times> msgsys) option" where
  "mrun L [] (log, s) = Some (log, s)"
| "mrun L (ev # evs) (log, s) =
     (if menabled ev s \<and> mevent_ok L ev s then
        do { (r, m, s') \<leftarrow> mstep ev s; mrun L evs (log @ log_of (call_of ev s) r m, s') }
      else None)"

lemma mrun_reach: "mrun L evs (log, s) = Some (log', s') \<Longrightarrow> mreach L s0 log s \<Longrightarrow> mreach L s0 log' s'"
proof (induction evs arbitrary: log s)
  case (Cons ev evs)
  then obtain r m s1 where "menabled ev s" "mevent_ok L ev s" "mstep ev s = Some (r, m, s1)"
      "mrun L evs (log @ log_of (call_of ev s) r m, s1) = Some (log', s')"
    by (auto split: if_splits bind_splits)
  then show ?case using Cons.IH mreach.step [OF Cons.prems(2)] by blast
qed simp

definition demo_pool :: bufmem where
  "demo_pool = snd (bufmalloc_init [(16, 2)] 4096 bm_blank)"

definition demo_queues :: "msgid_ds list" where
  "demo_queues = [\<lparr>msgid = 0, mq_key = 0, msgq_len = 0, mq_full = 0, mq_empty = 0, msg_q = alloc_q [] 0 8,
     mq_stats = \<lparr>msg_qnum = 0, msg_qbytes = 0, msg_lspid = 0, msg_lrpid = 0\<rparr>\<rparr>]"

definition demo_start :: "msgsys option" where
  "demo_start = msg_start demo_config demo_memory demo_pool 1 100 [[\<lparr>msg_buf = 0, msg_len = 0\<rparr>]] demo_queues"

lemma demo_msg_ok: "msg_config_ok demo_config demo_memory demo_pool 1 [[\<lparr>msg_buf = 0, msg_len = 0\<rparr>]] demo_queues"
proof -
  obtain m where m: "bufmalloc_init [(16, 2)] 4096 bm_blank = ([0], m)" "bm_ok m ((\<lambda>_. [])(0 := map (\<lambda>k. 4096 + 16 * of_nat k) [0..<nat 2]))"
    using bm_init_one [of bm_blank 4096 2 16] by (auto simp: bm_blank_def)
  then have "demo_pool = m" by (simp add: demo_pool_def)
  moreover have "\<forall>p \<in> set (mbufheap demo_pool). nblks p < 2 ^ 31" by code_simp
  ultimately have "bm_good demo_pool" using m(2) by (auto simp: bm_good_def)
  then show ?thesis using demo_ok by (simp add: msg_config_ok_def demo_queues_def)
qed

declare free_loop.simps [code] force_loop.simps [code]

text \<open>
  Property C37: messages are delivered once and in order, under the conditions of \<open>mevent_ok\<close>. The kernel starts in every
  configuration \<open>msg_config_ok\<close> describes: the one of the kernel, a block memory in order, and rings of 1 to 127 places.
  In every state that is then reached by the events \<open>mevent\<close> (sends, receives, requests for queues, sleeping processes,
  suspended calls that go on, timer interrupts), interleaved in any way that meets \<open>mevent_ok\<close>, the messages sent to a queue
  are those received from it, in the same order, followed by those it holds. A sender that found the queue full and
  a receiver that found it empty are included; their calls are completed later. And every event that is possible and
  meets \<open>mevent_ok\<close> ends: a call returns or is suspended, a suspended call goes on.

  The conditions: no message is longer than a number \<open>L\<close> or than its buffer, and every receiver takes at least \<open>L\<close> bytes
  (else a message can be lost together with its place in the queue, \<open>too_long_message_takes_place\<close>); a request that makes
  a new queue finds two free semaphores in a table of at most 255 (else a queue stays half made, \<open>half_made_queue\<close>).
  Semaphore calls of the processes themselves and the removal of a queue (\<open>removed_queue_corrupts_pool\<close>) are not among the events.
\<close>

theorem messages_in_order:
  assumes "msg_config_ok c k0 m capacity mems qs"
  shows "\<exists>s0. msg_start c k0 m capacity max_bytes mems qs = Some s0 \<and>
     (\<forall>L log s. mreach L s0 log s \<longrightarrow>
        (\<forall>i. active (ms_heap s) i \<longrightarrow> sent i log = got i log @ contents s i) \<and>
        (\<forall>ev. menabled ev s \<and> mevent_ok L ev s \<longrightarrow> mstep ev s \<noteq> None))"
proof -
  have start: "\<exists>s. msg_start c k0 m capacity max_bytes mems qs = Some s \<and> msg_inv 0 0 0 L s \<and> rings_ok (ms_heap s) \<and> (\<forall>i. \<not> active (ms_heap s) i)" for L
    by (rule start_inv [OF assms])
  obtain s0 where s0: "msg_start c k0 m capacity max_bytes mems qs = Some s0" using start [of 0] by blast
  have "(\<forall>i. active (ms_heap s) i \<longrightarrow> sent i log = got i log @ contents s i) \<and> (\<forall>ev. menabled ev s \<and> mevent_ok L ev s \<longrightarrow> mstep ev s \<noteq> None)"
    if r: "mreach L s0 log s" for L log s
  proof -
    have inv: "msg_inv 0 0 0 L s \<and> rings_ok (ms_heap s) \<and> (\<forall>i. active (ms_heap s) i \<longrightarrow> sent i log = got i log @ contents s i)"
      using mreach_inv [OF r] start [of L] s0 by simp
    have "mstep ev s \<noteq> None" if "menabled ev s" "mevent_ok L ev s" for ev using mstep_ok [OF _ _ that] inv by fastforce
    then show ?thesis using inv by blast
  qed
  then show ?thesis using s0 by blast
qed

text \<open>
  The queue has one place: the second send is suspended until the other process has taken the first message.
\<close>

definition demo_messages :: "(mlabel list \<times> msgsys) option" where
  "demo_messages = do { s \<leftarrow> demo_start; mrun 16 [M_tick, M_get 7 1, M_send 0 [1, 2, 3] 3 0, M_send 0 [4] 1 0, M_recv 0 16 0, M_resume] ([], s) }"

theorem messages_in_order_witness:
  "\<exists>log s. demo_messages = Some (log, s) \<and> sent 0 log = got 0 log @ contents s 0 \<and> got 0 log = [[1, 2, 3]] \<and> contents s 0 = [[4]] \<and>
     mstep M_tick s \<noteq> None"
proof -
  have val: "case demo_messages of None \<Rightarrow> False
      | Some (log, s) \<Rightarrow> msgid (ms_heap s ! 0) \<noteq> - 1 \<and> 0 < length (ms_heap s) \<and> got 0 log = [[1, 2, 3]] \<and> contents s 0 = [[4]] \<and> menabled M_tick s"
    by code_simp
  then obtain log s where run: "demo_messages = Some (log, s)" by (cases demo_messages) auto
  then obtain s0 where s0: "demo_start = Some s0" "mrun 16 [M_tick, M_get 7 1, M_send 0 [1, 2, 3] 3 0, M_send 0 [4] 1 0, M_recv 0 16 0, M_resume] ([], s0) = Some (log, s)"
    unfolding demo_messages_def by (auto split: bind_splits)
  have v: "active (ms_heap s) 0" "got 0 log = [[1, 2, 3]]" "contents s 0 = [[4]]" "menabled M_tick s"
    using val unfolding run active_def by simp_all
  from messages_in_order [OF demo_msg_ok, of 100] s0(1)
  have "mreach 16 s0 log s \<Longrightarrow> sent 0 log = got 0 log @ contents s 0 \<and> mstep M_tick s \<noteq> None"
    using v(1,4) unfolding demo_start_def by (metis mevent_ok.simps(4) option.inject)
  then show ?thesis using run v(2-4) mrun_reach [OF s0(2) mreach.start] by (intro exI [of _ log] exI [of _ s]) simp
qed

text \<open>
  A message that is longer than the receiver allows is dropped, but its place in the queue is not given back and it is still
  counted: a queue of one place is then full for ever, although it is empty.
\<close>

lemma too_long_message_takes_place:
  "(do { s \<leftarrow> demo_start; (_, s) \<leftarrow> mrun 16 [M_tick, M_get 7 1, M_send 0 [1, 2, 3] 3 0] ([], s);
         (r, out, s) \<leftarrow> mstep (M_recv 0 2 0) s; (r', _, s) \<leftarrow> mstep (M_send 0 [1] 1 IPC_NOWAIT) s;
         Some (r, out, r', contents s 0, msg_qnum (mq_stats (ms_heap s ! 0))) }) = Some (Ret (- 1), None, Ret (- 1), [], 1)"
  by code_simp

text \<open>
  With one semaphore left, a request for a new queue fails with -1, but the entry stays in use with the semaphore taken:
  the next request finds the queue under its key.
\<close>

lemma half_made_queue:
  "(do { s \<leftarrow> demo_start; (_, s) \<leftarrow> mrun 16 [M_tick] ([], s); (_, _, k) \<leftarrow> sys_sem_init 1 0 (ms_kern s);
         (r, _, s) \<leftarrow> mstep (M_get 7 1) (s\<lparr>ms_kern := k\<rparr>); (r', _, s) \<leftarrow> mstep (M_get 7 1) s;
         Some (r, r', free_sems (ms_kern s)) }) = Some (Ret (- 1), Ret 0, 0)"
  by code_simp

text \<open>
  Removing a queue that holds a message destroys the block memory. The loop counts the ring down twice for each
  message, so that the count wraps below zero and the block of the last message is freed again and again. In
  a run with one message and a pool of two blocks, 87 blocks are then free in this pool, and the block
  at its head is linked to itself: two allocations get the same block.
\<close>

theorem removed_queue_corrupts_pool:
  "(do { s \<leftarrow> demo_start; (_, s) \<leftarrow> mrun 16 [M_tick, M_get 7 1, M_send 0 [1, 2, 3] 3 0] ([], s);
         (r, _, s) \<leftarrow> sys_msgctl 0 IPC_RMID True s;
         (a, m) \<leftarrow> sys_bufmalloc MEMBUF_ANY 16 (ms_mem s); (b, m) \<leftarrow> sys_bufmalloc MEMBUF_ANY 16 m;
         Some (r, map (\<lambda>p. (nblks p, nfree p)) (filter mb_active (mbufheap (ms_mem s))), bm_mem (ms_mem s) 4096, a, b) }) =
   Some (Ret 0, [(2, 87)], 4096, 4096, 4096)"
  by code_simp

end
