(* ===== verification/Kern_Thread.thy ===== *)
theory Kern_Thread
  imports Kern_Props
begin

text \<open>
  Threads of the kernel: \<^verbatim>\<open>src/bsp/xilkernel_v4_00_a/src/src/sys/pthread.c\<close>, the stacks of \<^verbatim>\<open>mem.c\<close>, \<^verbatim>\<open>sys_kill\<close> of
  \<^verbatim>\<open>process.c\<close>, \<^verbatim>\<open>kb_pthread_init\<close> of \<^verbatim>\<open>main.c\<close> and the attribute functions of \<^verbatim>\<open>syscall/libpthread.c\<close>.

  A thread is a process with an entry in the table \<open>thread_info_list\<close>, to which the process points; pointers into the tables are
  indices. The header \<^verbatim>\<open>pthread.h\<close> belongs to the tool chain: its constants are a parameter, with what the tools generate for the
  stacks and the priorities. The queue of a thread that is joined lies in its entry, so that blocking there is
  written out for it. \<open>th_sp\<close> has the stack pointer a new context starts with. A call that is suspended in \<^verbatim>\<open>sys_pthread_join\<close>
  goes on as \<open>th_conts\<close> says; for the kernel below it returns from \<^verbatim>\<open>suspend\<close>, like one that slept. \<open>None\<close> is, besides what it stands for in
  the kernel, the use of a null pointer.
\<close>

section \<open>Data\<close>

record pthread_h =
  PTHREAD_CREATE_DETACHED :: u32
  PTHREAD_CREATE_JOINABLE :: u32
  PTHREAD_SCOPE_SYSTEM :: u32
  PRIO_LOWEST :: int
  thread_stack_mem :: u32
  PTHREAD_STACK_SIZE :: u32
  SSTACK_PTR_ADJUST :: u32

definition PTHREAD_INVALID :: u32 where "PTHREAD_INVALID = 0xFF"
definition PTHREAD_STATE_ALIVE :: u8 where "PTHREAD_STATE_ALIVE = 1"
definition PTHREAD_STATE_EXIT :: u8 where "PTHREAD_STATE_EXIT = 2"
definition PTHREAD_STATE_DETACHED :: u8 where "PTHREAD_STATE_DETACHED = 3"
definition PRIO_HIGHEST :: int where "PRIO_HIGHEST = 0"

record pthread_attr =
  contentionscope :: u32
  sched_priority :: int
  detachstate :: u32
  stackaddr :: u32
  stacksize :: u32

record pthread_info =
  pt_allocated :: bool
  pt_parent :: "pid option"
  tid :: int
  retval :: u32
  start_func :: u32
  pt_param :: u32
  pt_state :: u8
  join_thread :: "int option"
  joinq :: "pid kqueue"
  mem_id :: int
  thread_attr :: pthread_attr

text \<open>Behind \<^verbatim>\<open>process_block\<close> in \<^verbatim>\<open>sys_pthread_join\<close>: the thread that is joined, and whether its value is wanted.\<close>

datatype tcont = T_join nat bool

record thrsys =
  th_kern :: kernel
  thread_info_list :: "pthread_info list"
  thread_stack_memid :: "bool list"
  default_attr :: pthread_attr
  th_sp :: "pid \<Rightarrow> u32"
  th_conts :: "pid \<Rightarrow> tcont option"

section \<open>Attributes\<close>

text \<open>A null pointer is \<open>None\<close>; the result is the value returned and what is stored.\<close>

definition fresh_attr :: "pthread_h \<Rightarrow> pthread_attr" where
  "fresh_attr h = \<lparr>contentionscope = PTHREAD_SCOPE_SYSTEM h, sched_priority = PRIO_LOWEST h, detachstate = PTHREAD_CREATE_DETACHED h,
     stackaddr = 0, stacksize = 0\<rparr>"

definition pthread_attr_init :: "pthread_h \<Rightarrow> pthread_attr option \<Rightarrow> int \<times> pthread_attr option" where
  "pthread_attr_init h attr = (case attr of None \<Rightarrow> (errno_val EINVAL, None) | Some _ \<Rightarrow> (0, Some (fresh_attr h)))"

definition pthread_attr_destroy :: "pthread_attr option \<Rightarrow> int \<times> pthread_attr option" where
  "pthread_attr_destroy attr =
     (case attr of
        None \<Rightarrow> (errno_val EINVAL, None)
      | Some _ \<Rightarrow> (0, Some \<lparr>contentionscope = PTHREAD_INVALID, sched_priority = uint PTHREAD_INVALID, detachstate = PTHREAD_INVALID,
          stackaddr = 0, stacksize = 0\<rparr>))"

definition pthread_attr_setschedparam :: "pthread_h \<Rightarrow> int option \<Rightarrow> pthread_attr option \<Rightarrow> int \<times> pthread_attr option" where
  "pthread_attr_setschedparam h spar attr =
     (case (attr, spar) of
        (Some a, Some p) \<Rightarrow>
          if p < PRIO_HIGHEST \<or> p > PRIO_LOWEST h then (errno_val ENOTSUP, Some a) else (0, Some (a\<lparr>sched_priority := p\<rparr>))
      | _ \<Rightarrow> (errno_val EINVAL, attr))"

definition pthread_attr_getschedparam :: "bool \<Rightarrow> pthread_attr option \<Rightarrow> int \<times> int option" where
  "pthread_attr_getschedparam spar_null attr =
     (case attr of
        None \<Rightarrow> (errno_val EINVAL, None)
      | Some a \<Rightarrow> if spar_null then (errno_val EINVAL, None) else (0, Some (sched_priority a)))"

definition is_detachstate :: "pthread_h \<Rightarrow> u32 \<Rightarrow> bool" where
  "is_detachstate h d \<longleftrightarrow> d = PTHREAD_CREATE_DETACHED h \<or> d = PTHREAD_CREATE_JOINABLE h"

definition pthread_attr_getdetachstate :: "pthread_h \<Rightarrow> pthread_attr option \<Rightarrow> int \<times> u32 option" where
  "pthread_attr_getdetachstate h attr =
     (case attr of
        None \<Rightarrow> (errno_val EINVAL, None)
      | Some a \<Rightarrow> if \<not> is_detachstate h (detachstate a) then (errno_val EINVAL, None) else (0, Some (detachstate a)))"

definition pthread_attr_setdetachstate :: "pthread_h \<Rightarrow> u32 \<Rightarrow> pthread_attr option \<Rightarrow> int \<times> pthread_attr option" where
  "pthread_attr_setdetachstate h dstate attr =
     (case attr of
        None \<Rightarrow> (errno_val EINVAL, None)
      | Some a \<Rightarrow> if \<not> is_detachstate h dstate then (errno_val EINVAL, attr) else (0, Some (a\<lparr>detachstate := dstate\<rparr>)))"

definition pthread_attr_getstack :: "pthread_attr option \<Rightarrow> int \<times> (u32 \<times> u32) option" where
  "pthread_attr_getstack attr = (case attr of None \<Rightarrow> (errno_val EINVAL, None) | Some a \<Rightarrow> (0, Some (stackaddr a, stacksize a)))"

definition SALIGN :: u32 where "SALIGN = 7"

definition pthread_attr_setstack :: "u32 \<Rightarrow> u32 \<Rightarrow> pthread_attr option \<Rightarrow> int \<times> pthread_attr option" where
  "pthread_attr_setstack addr siz attr =
     (case attr of
        None \<Rightarrow> (errno_val EINVAL, None)
      | Some a \<Rightarrow>
          if addr AND SALIGN \<noteq> 0 then (errno_val EINVAL, attr) else (0, Some (a\<lparr>stackaddr := addr, stacksize := siz\<rparr>)))"

section \<open>Stacks and the table of threads\<close>

definition bss_mem_init :: "bool list \<Rightarrow> bool list" where
  "bss_mem_init ms = map (\<lambda>_. False) ms"

text \<open>The identifier, or \<open>- 1\<close>, with the end of the stack and the table.\<close>

definition alloc_bss_mem :: "pthread_h \<Rightarrow> bool list \<Rightarrow> int \<times> u32 \<times> bool list" where
  "alloc_bss_mem h ms =
     (let i = scan_table Not 0 ms
      in if i < length ms then
           (let start = thread_stack_mem h + PTHREAD_STACK_SIZE h * of_nat i in (int i, start + PTHREAD_STACK_SIZE h, ms[i := True]))
         else (- 1, 0, ms))"

definition free_bss_mem :: "int \<Rightarrow> bool list \<Rightarrow> bool list option" where
  "free_bss_mem i ms = (if i < 0 then None else arr_set ms (nat i) False)"

definition upd_thread :: "nat \<Rightarrow> (pthread_info \<Rightarrow> pthread_info) \<Rightarrow> thrsys \<Rightarrow> thrsys option" where
  "upd_thread i f s =
     do { t \<leftarrow> arr_get (thread_info_list s) i; ts \<leftarrow> arr_set (thread_info_list s) i (f t); Some (s\<lparr>thread_info_list := ts\<rparr>) }"

text \<open>The join queue has one place, a byte of the entry.\<close>

definition fresh_joinq :: "pthread_info \<Rightarrow> pid kqueue" where
  "fresh_joinq t = alloc_q (q_items (joinq t)) 1 1"

definition pthread_init :: "pthread_h \<Rightarrow> thrsys \<Rightarrow> thrsys" where
  "pthread_init h s =
     s\<lparr>thread_stack_memid := bss_mem_init (thread_stack_memid s), default_attr := fresh_attr h,
       thread_info_list := map2 (\<lambda>i t. t\<lparr>pt_allocated := False, pt_state := PTHREAD_STATE_DETACHED, join_thread := None, tid := int i,
         mem_id := - 1, thread_attr := fresh_attr h, pt_parent := None, joinq := fresh_joinq t\<rparr>)
         [0..<length (thread_info_list s)] (thread_info_list s)\<rparr>"

definition invalidate_thread_info :: "nat \<Rightarrow> thrsys \<Rightarrow> thrsys option" where
  "invalidate_thread_info i s =
     do { s \<leftarrow> upd_thread i (\<lambda>t. t\<lparr>pt_allocated := False, join_thread := None, start_func := 0, pt_param := 0, retval := 0, pt_parent := None,
                 pt_state := PTHREAD_STATE_DETACHED, joinq := qinit (fresh_joinq t)\<rparr>) s;
          t \<leftarrow> arr_get (thread_info_list s) i;
          s \<leftarrow> (if mem_id t \<noteq> - 1 then
                 do { ms \<leftarrow> free_bss_mem (mem_id t) (thread_stack_memid s);
                      upd_thread i (\<lambda>t. t\<lparr>mem_id := - 1\<rparr>) (s\<lparr>thread_stack_memid := ms\<rparr>) }
               else Some s);
          upd_thread i (\<lambda>t. t\<lparr>thread_attr := default_attr s\<rparr>) s }"

definition pthread_get_info :: "int \<Rightarrow> thrsys \<Rightarrow> nat option" where
  "pthread_get_info thr s = (if thr \<ge> 0 \<and> thr < int (length (thread_info_list s)) then Some (nat thr) else None)"

section \<open>Blocking in the queue of a thread\<close>

definition th_do :: "(kernel \<Rightarrow> kernel option) \<Rightarrow> thrsys \<Rightarrow> thrsys option" where
  "th_do f s = do { k \<leftarrow> f (th_kern s); Some (s\<lparr>th_kern := k\<rparr>) }"

definition join_block :: "nat \<Rightarrow> thrsys \<Rightarrow> thrsys option" where
  "join_block i s =
     do { t \<leftarrow> arr_get (thread_info_list s) i;
          q \<leftarrow> prio_penq (ptable (th_kern s)) (joinq t) (current_pid (th_kern s));
          s \<leftarrow> upd_thread i (\<lambda>t. t\<lparr>joinq := q\<rparr>) s;
          s \<leftarrow> th_do (\<lambda>k. upd_proc (current_pid k) (\<lambda>pr. pr\<lparr>blockq := Some (Join_q i), pr_state := PROC_WAIT\<rparr>) k) s;
          th_do (suspend K_sleep) s }"

text \<open>The rest of \<^verbatim>\<open>process_unblock\<close>, when the queue has given a process.\<close>

definition process_wake :: "pid \<Rightarrow> kernel \<Rightarrow> kernel option" where
  "process_wake p s =
     do { pr \<leftarrow> get_proc (ptable s) p;
          s \<leftarrow> (if pr_state pr = PROC_TIMED_WAIT then
                 do { (ms, s) \<leftarrow> remove_tmr p s; upd_proc p (\<lambda>pr. pr\<lparr>remain := ms\<rparr>) s }
               else Some s);
          s \<leftarrow> upd_proc p (\<lambda>pr. pr\<lparr>pr_state := PROC_READY, blockq := None\<rparr>) s;
          s \<leftarrow> enq_ready p s;
          Some (s\<lparr>resched := True\<rparr>) }"

definition join_unblock :: "nat \<Rightarrow> thrsys \<Rightarrow> thrsys option" where
  "join_unblock i s =
     do { t \<leftarrow> arr_get (thread_info_list s) i;
          (p, q) \<leftarrow> prio_pdeq (ptable (th_kern s)) (joinq t);
          s \<leftarrow> upd_thread i (\<lambda>t. t\<lparr>joinq := q\<rparr>) s;
          if p = 255 then Some s else th_do (process_wake p) s }"

section \<open>Operations\<close>

text \<open>Pointers to the parent: \<open>None\<close> is a null pointer.\<close>

definition parent_do :: "nat \<Rightarrow> (pid \<Rightarrow> kernel \<Rightarrow> kernel option) \<Rightarrow> thrsys \<Rightarrow> thrsys option" where
  "parent_do i f s = do { t \<leftarrow> arr_get (thread_info_list s) i; p \<leftarrow> pt_parent t; th_do (f p) s }"

text \<open>A stack of the pool, unless the attributes name one: whether there was one, its end and the new state.\<close>

definition thread_stack :: "pthread_h \<Rightarrow> pthread_attr \<Rightarrow> nat \<Rightarrow> thrsys \<Rightarrow> (bool \<times> u32 \<times> thrsys) option" where
  "thread_stack h a i s =
     (if stackaddr a = 0 then
        (case alloc_bss_mem h (thread_stack_memid s) of
           (m, bss_end, ms) \<Rightarrow>
             do { s \<leftarrow> upd_thread i (\<lambda>t. t\<lparr>mem_id := sint (word_of_int m :: u8)\<rparr>) (s\<lparr>thread_stack_memid := ms\<rparr>);
                  t \<leftarrow> arr_get (thread_info_list s) i; Some (mem_id t \<noteq> - 1, bss_end, s) })
      else Some (True, 0, s))"

text \<open>\<^verbatim>\<open>setup_initial_context\<close> for the process of the thread, and the pointers between the two.\<close>

definition thread_context :: "nat \<Rightarrow> pid \<Rightarrow> u32 \<Rightarrow> thrsys \<Rightarrow> thrsys option" where
  "thread_context i p sp s =
     do { s \<leftarrow> th_do (\<lambda>k. upd_proc p (\<lambda>pr. pr\<lparr>pr_thread := Some i\<rparr>) (k\<lparr>conts := (conts k)(p := None)\<rparr>))
                 (s\<lparr>th_sp := (th_sp s)(p := sp), th_conts := (th_conts s)(p := None)\<rparr>);
          upd_thread i (\<lambda>t. t\<lparr>pt_parent := Some p\<rparr>) s }"

definition sys_pthread_create ::
  "pthread_h \<Rightarrow> bool \<Rightarrow> pthread_attr option \<Rightarrow> u32 \<Rightarrow> u32 \<Rightarrow> thrsys \<Rightarrow> (int \<times> int option \<times> thrsys) option" where
  "sys_pthread_create h thread_null attr func param s =
     (if thread_null then Some (- 1, None, s)
      else if (case attr of
                 None \<Rightarrow> False
               | Some a \<Rightarrow> sched_priority a > PRIO_LOWEST h \<or> sched_priority a < PRIO_HIGHEST \<or>
                   contentionscope a \<noteq> PTHREAD_SCOPE_SYSTEM h \<or> \<not> is_detachstate h (detachstate a))
      then Some (errno_val EINVAL, None, s)
      else
        (let a = (case attr of None \<Rightarrow> default_attr s | Some a \<Rightarrow> a);
             i = scan_table (\<lambda>t. \<not> pt_allocated t) 0 (thread_info_list s)
         in if i = length (thread_info_list s) then Some (errno_val EAGAIN, None, s)
            else
              do { s \<leftarrow> upd_thread i (\<lambda>t. t\<lparr>pt_allocated := True, pt_state := PTHREAD_STATE_ALIVE, start_func := func, pt_param := param,
                          join_thread := None, thread_attr := a, joinq := qinit (joinq t)\<rparr>) s;
                   (found, bss_end, s) \<leftarrow> thread_stack h a i s;
                   if \<not> found then do { s \<leftarrow> invalidate_thread_info i s; Some (errno_val EAGAIN, None, s) }
                   else
                     do { (p, k) \<leftarrow> proc_create (word_of_int (sched_priority a)) (th_kern s);
                          if p = 255 then
                            do { s \<leftarrow> invalidate_thread_info i (s\<lparr>th_kern := k\<rparr>); Some (errno_val EAGAIN, None, s) }
                          else
                            do { s \<leftarrow> thread_context i p
                                   (if stackaddr a = 0 then bss_end + SSTACK_PTR_ADJUST h else stackaddr a + stacksize a + SSTACK_PTR_ADJUST h)
                                   (s\<lparr>th_kern := k\<rparr>);
                                 t \<leftarrow> arr_get (thread_info_list s) i;
                                 Some (0, Some (tid t), s) } } }))"

text \<open>The common part of the end of a thread, up to the state of its process.\<close>

definition thread_over :: "pthread_h \<Rightarrow> nat \<Rightarrow> u32 \<Rightarrow> (thrsys \<Rightarrow> thrsys option) \<Rightarrow> thrsys \<Rightarrow> thrsys option" where
  "thread_over h i v dead s =
     do { s \<leftarrow> upd_thread i (\<lambda>t. t\<lparr>retval := v, pt_state := PTHREAD_STATE_EXIT\<rparr>) s;
          t \<leftarrow> arr_get (thread_info_list s) i;
          s \<leftarrow> (if join_thread t \<noteq> None then join_unblock i s else Some s);
          if detachstate (thread_attr t) = PTHREAD_CREATE_DETACHED h then
            do { s \<leftarrow> parent_do i process_invalidate s; invalidate_thread_info i s }
          else dead s }"

definition sys_pthread_exit :: "pthread_h \<Rightarrow> u32 \<Rightarrow> thrsys \<Rightarrow> (kres \<times> thrsys) option" where
  "sys_pthread_exit h v s =
     do { pr \<leftarrow> get_proc (ptable (th_kern s)) (current_pid (th_kern s));
          i \<leftarrow> pr_thread pr;
          s \<leftarrow> thread_over h i v (th_do (\<lambda>k. upd_proc (current_pid k) (\<lambda>pr. pr\<lparr>pr_state := PROC_DEAD\<rparr>) k)) s;
          s \<leftarrow> th_do (suspend K_sleep) s;
          Some (Blocked, s) }"

definition pthread_terminate :: "pthread_h \<Rightarrow> nat \<Rightarrow> thrsys \<Rightarrow> thrsys option" where
  "pthread_terminate h i s = thread_over h i 0 (parent_do i (\<lambda>p. upd_proc p (\<lambda>pr. pr\<lparr>pr_state := PROC_DEAD\<rparr>))) s"

definition sys_pthread_self :: "thrsys \<Rightarrow> int option" where
  "sys_pthread_self s =
     (if current_pid (th_kern s) = 255 then Some (- 1)
      else
        do { pr \<leftarrow> get_proc (ptable (th_kern s)) (current_pid (th_kern s)); i \<leftarrow> pr_thread pr;
             t \<leftarrow> arr_get (thread_info_list s) i; Some (tid t) })"

text \<open>The end of \<^verbatim>\<open>sys_pthread_join\<close>; \<open>out\<close> is what was stored through \<^verbatim>\<open>retval\<close> so far.\<close>

definition join_reclaim :: "nat \<Rightarrow> bool \<Rightarrow> u32 option \<Rightarrow> thrsys \<Rightarrow> (kres \<times> u32 option \<times> thrsys) option" where
  "join_reclaim i wanted out s =
     do { t \<leftarrow> arr_get (thread_info_list s) i;
          if pt_state t \<noteq> PTHREAD_STATE_DETACHED then
            do { s \<leftarrow> parent_do i process_invalidate s; s \<leftarrow> invalidate_thread_info i s;
                 Some (Ret 0, if wanted then Some (retval t) else None, s) }
          else Some (Ret 0, out, s) }"

definition join_end :: "nat \<Rightarrow> bool \<Rightarrow> thrsys \<Rightarrow> (kres \<times> u32 option \<times> thrsys) option" where
  "join_end i wanted s =
     do { t \<leftarrow> arr_get (thread_info_list s) i; join_reclaim i wanted (if wanted then Some (retval t) else None) s }"

definition sys_pthread_join :: "int \<Rightarrow> bool \<Rightarrow> thrsys \<Rightarrow> (kres \<times> u32 option \<times> thrsys) option" where
  "sys_pthread_join target wanted s =
     do { cur \<leftarrow> sys_pthread_self s;
          case pthread_get_info target s of
            None \<Rightarrow> Some (Ret (errno_val ESRCH), None, s)
          | Some i \<Rightarrow>
              do { t \<leftarrow> arr_get (thread_info_list s) i;
                   if pt_state t = PTHREAD_STATE_ALIVE then
                     (if join_thread t \<noteq> None then Some (Ret (errno_val EINVAL), None, s)
                      else
                        (let c = current_pid (th_kern s)
                         in do { s \<leftarrow> upd_thread i (\<lambda>t. t\<lparr>join_thread := (if pthread_get_info cur s = None then None else Some cur)\<rparr>) s;
                                 s \<leftarrow> join_block i s;
                                 Some (Blocked, None, s\<lparr>th_conts := (th_conts s)(c \<mapsto> T_join i wanted)\<rparr>) }))
                   else if pt_state t = PTHREAD_STATE_DETACHED then Some (Ret (errno_val ESRCH), None, s)
                   else join_reclaim i wanted None s } }"

definition sys_pthread_detach :: "int \<Rightarrow> thrsys \<Rightarrow> (int \<times> thrsys) option" where
  "sys_pthread_detach thread s =
     (case pthread_get_info thread s of
        None \<Rightarrow> Some (errno_val ESRCH, s)
      | Some i \<Rightarrow>
          do { t \<leftarrow> arr_get (thread_info_list s) i;
               s \<leftarrow> (if pt_state t = PTHREAD_STATE_EXIT then
                      do { s \<leftarrow> parent_do i process_invalidate s; invalidate_thread_info i s }
                    else upd_thread i (\<lambda>t. t\<lparr>thread_attr := (thread_attr t)\<lparr>detachstate := ucast PTHREAD_STATE_DETACHED\<rparr>\<rparr>) s);
               Some (0, s) })"

definition sys_pthread_equal :: "int \<Rightarrow> int \<Rightarrow> thrsys \<Rightarrow> int" where
  "sys_pthread_equal a b s = (if pthread_get_info a s = pthread_get_info b s then 1 else 0)"

definition sys_pthread_getschedparam :: "int \<Rightarrow> bool \<Rightarrow> bool \<Rightarrow> thrsys \<Rightarrow> (int \<times> int option) option" where
  "sys_pthread_getschedparam thread policy_null param_null s =
     (case pthread_get_info thread s of
        None \<Rightarrow> Some (errno_val ESRCH, None)
      | Some i \<Rightarrow>
          if param_null \<or> policy_null then Some (errno_val EINVAL, None)
          else
            do { t \<leftarrow> arr_get (thread_info_list s) i; p \<leftarrow> pt_parent t; pr \<leftarrow> get_proc (ptable (th_kern s)) p;
                 Some (0, Some (priority pr)) })"

text \<open>The queue a process is blocked in, wherever it lies.\<close>

definition th_get_queue :: "qref \<Rightarrow> thrsys \<Rightarrow> pid kqueue option" where
  "th_get_queue r s = (case r of Join_q i \<Rightarrow> map_option joinq (arr_get (thread_info_list s) i) | _ \<Rightarrow> get_queue r (th_kern s))"

definition th_put_queue :: "qref \<Rightarrow> pid kqueue \<Rightarrow> thrsys \<Rightarrow> thrsys option" where
  "th_put_queue r q s = (case r of Join_q i \<Rightarrow> upd_thread i (\<lambda>t. t\<lparr>joinq := q\<rparr>) s | _ \<Rightarrow> th_do (put_queue r q) s)"

definition set_priority :: "pid \<Rightarrow> int \<Rightarrow> thrsys \<Rightarrow> thrsys option" where
  "set_priority p v s = th_do (upd_proc p (\<lambda>pr. pr\<lparr>priority := sint (word_of_int v :: u8)\<rparr>)) s"

text \<open>The process \<open>p\<close> with the entry \<open>pr\<close> gets a new priority, and its new place in the queue it is in.\<close>

definition reprioritise :: "pid \<Rightarrow> process_struct \<Rightarrow> int \<Rightarrow> thrsys \<Rightarrow> (int \<times> thrsys) option" where
  "reprioritise p pr v s =
     (if pr_pid pr = current_pid (th_kern s) \<or> pr_state pr = PROC_DELAY then do { s \<leftarrow> set_priority p v s; Some (0, s) }
      else if pr_state pr = PROC_READY then
        do { j \<leftarrow> (if priority pr < 0 then None else Some (nat (priority pr)));
             q \<leftarrow> arr_get (ready_q (th_kern s)) j;
             (r, q) \<leftarrow> pdelq q (pr_pid pr);
             qs \<leftarrow> arr_set (ready_q (th_kern s)) j q;
             s \<leftarrow> Some (s\<lparr>th_kern := (th_kern s)\<lparr>ready_q := qs\<rparr>\<rparr>);
             if r < 0 then Some (- 1, s)
             else do { s \<leftarrow> set_priority p v s; s \<leftarrow> th_do (enq_ready p) s; Some (0, s) } }
      else if pr_state pr = PROC_WAIT \<or> pr_state pr = PROC_TIMED_WAIT then
        do { b \<leftarrow> blockq pr; q \<leftarrow> th_get_queue b s;
             (r, pt, q) \<leftarrow> prio_pdelq (ptable (th_kern s)) q (pr_pid pr);
             s \<leftarrow> th_put_queue b q (s\<lparr>th_kern := (th_kern s)\<lparr>ptable := pt\<rparr>\<rparr>);
             if r < 0 then Some (- 1, s)
             else
               do { s \<leftarrow> set_priority p v s;
                    q \<leftarrow> prio_penq (ptable (th_kern s)) q (pr_pid pr);
                    s \<leftarrow> th_put_queue b q s; Some (0, s) } }
      else Some (0, s))"

definition sys_pthread_setschedparam :: "pthread_h \<Rightarrow> int \<Rightarrow> int \<Rightarrow> thrsys \<Rightarrow> (int \<times> thrsys) option" where
  "sys_pthread_setschedparam h thread v s =
     (case pthread_get_info thread s of
        None \<Rightarrow> Some (errno_val ESRCH, s)
      | Some i \<Rightarrow>
          if v > PRIO_LOWEST h \<or> v < PRIO_HIGHEST then Some (errno_val EINVAL, s)
          else
            do { t \<leftarrow> arr_get (thread_info_list s) i; p \<leftarrow> pt_parent t; pr \<leftarrow> get_proc (ptable (th_kern s)) p;
                 (r, s) \<leftarrow> reprioritise p pr v s;
                 if r < 0 then Some (r, s) else Some (0, s\<lparr>th_kern := (th_kern s)\<lparr>resched := True\<rparr>\<rparr>) })"

text \<open>A process that is killed leaves the queue and the timer it has.\<close>

definition unlink_proc :: "pid \<Rightarrow> process_struct \<Rightarrow> thrsys \<Rightarrow> thrsys option" where
  "unlink_proc p pr s =
     (if pr_state pr = PROC_READY then
        do { j \<leftarrow> (if priority pr < 0 then None else Some (nat (priority pr)));
             q \<leftarrow> arr_get (ready_q (th_kern s)) j; (_, q) \<leftarrow> pdelq q p;
             qs \<leftarrow> arr_set (ready_q (th_kern s)) j q; Some (s\<lparr>th_kern := (th_kern s)\<lparr>ready_q := qs\<rparr>\<rparr>) }
      else if pr_state pr = PROC_WAIT \<or> pr_state pr = PROC_TIMED_WAIT then
        do { b \<leftarrow> blockq pr; q \<leftarrow> th_get_queue b s; (_, pt, q) \<leftarrow> prio_pdelq (ptable (th_kern s)) q p;
             s \<leftarrow> th_put_queue b q (s\<lparr>th_kern := (th_kern s)\<lparr>ptable := pt\<rparr>\<rparr>);
             if pr_state pr = PROC_TIMED_WAIT then th_do (\<lambda>k. map_option snd (remove_tmr p k)) s else Some s }
      else if pr_state pr = PROC_DELAY then th_do (\<lambda>k. map_option snd (remove_tmr p k)) s
      else Some s)"

text \<open>\<^verbatim>\<open>sys_kill\<close>; \<open>p\<close> indexes the table, which is not checked.\<close>

definition sys_kill :: "pthread_h \<Rightarrow> pid \<Rightarrow> thrsys \<Rightarrow> (kres \<times> thrsys) option" where
  "sys_kill h p s =
     do { pr \<leftarrow> get_proc (ptable (th_kern s)) p;
          if \<not> is_allocated pr then Some (Ret (- 1), s)
          else if p = current_pid (th_kern s) then
            (case pr_thread pr of
               Some _ \<Rightarrow> sys_pthread_exit h 0 s
             | None \<Rightarrow> do { (r, k) \<leftarrow> sys_elf_exit (th_kern s); Some (r, s\<lparr>th_kern := k\<rparr>) })
          else
            do { s \<leftarrow> unlink_proc p pr s;
                 s \<leftarrow> (case pr_thread pr of Some i \<Rightarrow> pthread_terminate h i s | None \<Rightarrow> th_do (process_invalidate p) s);
                 Some (Ret 0, s\<lparr>th_kern := (th_kern s)\<lparr>resched := True\<rparr>\<rparr>) } }"

text \<open>A suspended call goes on; the other calls of the kernel as in \<open>resume\<close>.\<close>

definition th_resume :: "thrsys \<Rightarrow> (kres \<times> u32 option \<times> thrsys) option" where
  "th_resume s =
     (let c = current_pid (th_kern s)
      in do { (r, k) \<leftarrow> resume (th_kern s);
              let s' = s\<lparr>th_kern := k, th_conts := (th_conts s)(c := None)\<rparr>;
              case th_conts s c of
                None \<Rightarrow> Some (r, None, s')
              | Some (T_join i wanted) \<Rightarrow> join_end i wanted s' })"

text \<open>The threads started first: function and priority of each.\<close>

fun kb_pthread_init :: "pthread_h \<Rightarrow> (u32 \<times> int) list \<Rightarrow> thrsys \<Rightarrow> (int \<times> thrsys) option" where
  "kb_pthread_init h [] s = Some (0, s)"
| "kb_pthread_init h ((f, prio) # inits) s =
     do { (r, _, s) \<leftarrow> sys_pthread_create h False (Some ((default_attr s)\<lparr>sched_priority := prio\<rparr>)) f 0 s;
          if r \<noteq> 0 then Some (- 1, s) else kb_pthread_init h inits s }"

section \<open>Who has which stack\<close>

text \<open>
  Every thread with a stack of the pool is allocated and has it for itself, and every stack that is marked belongs to a thread.
\<close>

definition stacks :: "(bool \<times> int) list \<Rightarrow> bool list \<Rightarrow> bool" where
  "stacks xs ms \<longleftrightarrow>
     length ms = length xs \<and> length xs \<le> 127 \<and>
     (\<forall>i < length xs. snd (xs ! i) \<noteq> - 1 \<longrightarrow>
        fst (xs ! i) \<and> 0 \<le> snd (xs ! i) \<and> snd (xs ! i) < int (length xs) \<and> ms ! nat (snd (xs ! i))) \<and>
     (\<forall>i < length xs. \<forall>j < length xs. i \<noteq> j \<and> snd (xs ! i) = snd (xs ! j) \<longrightarrow> snd (xs ! i) = - 1) \<and>
     (\<forall>m < length xs. ms ! m \<longrightarrow> (\<exists>i < length xs. snd (xs ! i) = int m))"

abbreviation tview :: "thrsys \<Rightarrow> (bool \<times> int) list" where
  "tview s \<equiv> map (\<lambda>t. (pt_allocated t, mem_id t)) (thread_info_list s)"

definition stacks_ok :: "thrsys \<Rightarrow> bool" where
  "stacks_ok s \<longleftrightarrow> stacks (tview s) (thread_stack_memid s)"

lemma stacksD:
  assumes "stacks xs ms"
  shows "length ms = length xs" "length xs \<le> 127"
    "i < length xs \<Longrightarrow> snd (xs ! i) \<noteq> - 1 \<Longrightarrow> fst (xs ! i) \<and> 0 \<le> snd (xs ! i) \<and> snd (xs ! i) < int (length xs) \<and> ms ! nat (snd (xs ! i))"
    "i < length xs \<Longrightarrow> j < length xs \<Longrightarrow> i \<noteq> j \<Longrightarrow> snd (xs ! i) = snd (xs ! j) \<Longrightarrow> snd (xs ! i) = - 1"
    "m < length xs \<Longrightarrow> ms ! m \<Longrightarrow> \<exists>i < length xs. snd (xs ! i) = int m"
  using assms unfolding stacks_def by blast+

lemma stacksI:
  assumes "length ms = length xs" "length xs \<le> 127"
    "\<And>i. i < length xs \<Longrightarrow> snd (xs ! i) \<noteq> - 1 \<Longrightarrow> fst (xs ! i) \<and> 0 \<le> snd (xs ! i) \<and> snd (xs ! i) < int (length xs) \<and> ms ! nat (snd (xs ! i))"
    "\<And>i j. i < length xs \<Longrightarrow> j < length xs \<Longrightarrow> i \<noteq> j \<Longrightarrow> snd (xs ! i) = snd (xs ! j) \<Longrightarrow> snd (xs ! i) = - 1"
    "\<And>m. m < length xs \<Longrightarrow> ms ! m \<Longrightarrow> \<exists>i < length xs. snd (xs ! i) = int m"
  shows "stacks xs ms"
  using assms unfolding stacks_def by blast

text \<open>Entry \<open>i\<close> takes or gives back the stack \<open>m\<close>.\<close>

lemma entry_upd:
  assumes "i < length xs" "ys = xs[i := (b, m)]"
  shows "length ys = length xs" "fst (ys ! j) = (if j = i then b else fst (xs ! j))" "snd (ys ! j) = (if j = i then m else snd (xs ! j))"
  using assms by (simp_all add: nth_list_update)

lemma stacks_take:
  assumes "stacks xs ms" "i < length xs" "snd (xs ! i) = - 1" "m < length xs" "\<not> ms ! m"
  shows "stacks (xs[i := (True, int m)]) (ms[m := True])"
proof -
  note ok = stacksD [OF assms(1)]
  define ys where "ys = xs[i := (True, int m)]"
  note ys = entry_upd [OF assms(2) ys_def]
  have other: "snd (xs ! j) \<noteq> int m" if "j < length xs" for j using ok(3) [OF that] assms(5) by auto
  have mark: "ms[m := True] ! p = (p = m \<or> ms ! p)" for p using ok(1) assms(4) by (simp add: nth_list_update)
  have "stacks ys (ms[m := True])"
  proof (rule stacksI)
    fix j
    assume "j < length ys" "snd (ys ! j) \<noteq> - 1"
    then show "fst (ys ! j) \<and> 0 \<le> snd (ys ! j) \<and> snd (ys ! j) < int (length ys) \<and> ms[m := True] ! nat (snd (ys ! j))"
      using ok(3) [of j] assms(4) unfolding ys mark by (cases "j = i") simp_all
  next
    fix j k
    assume "j < length ys" "k < length ys" "j \<noteq> k" "snd (ys ! j) = snd (ys ! k)"
    then show "snd (ys ! j) = - 1"
      using ok(4) [of j k] other [of j] other [of k] unfolding ys by (cases "j = i"; cases "k = i") simp_all
  next
    fix p
    assume p: "p < length ys" "ms[m := True] ! p"
    show "\<exists>j < length ys. snd (ys ! j) = int p"
    proof (cases "p = m")
      case True
      then show ?thesis using assms(2) by (intro exI [of _ i]) (simp add: ys)
    next
      case False
      then obtain j where "j < length xs" "snd (xs ! j) = int p" using ok(5) [of p] p unfolding ys mark by auto
      moreover from this have "j \<noteq> i" using assms(3) by auto
      ultimately show ?thesis by (intro exI [of _ j]) (simp add: ys)
    qed
  qed (use ok(1,2) in \<open>simp_all add: ys\<close>)
  then show ?thesis by (simp add: ys_def)
qed

lemma stacks_give:
  assumes "stacks xs ms" "i < length xs" "snd (xs ! i) = int m" "m < length xs"
  shows "stacks (xs[i := (False, - 1)]) (ms[m := False])"
proof -
  note ok = stacksD [OF assms(1)]
  define ys where "ys = xs[i := (False, - 1 :: int)]"
  note ys = entry_upd [OF assms(2) ys_def]
  have other: "snd (xs ! j) \<noteq> int m" if "j < length xs" "j \<noteq> i" for j using ok(4) [OF that(1) assms(2) that(2)] assms(3) by auto
  have mark: "ms[m := False] ! p = (p \<noteq> m \<and> ms ! p)" for p using ok(1) assms(4) by (simp add: nth_list_update)
  have "stacks ys (ms[m := False])"
  proof (rule stacksI)
    fix j
    assume j: "j < length ys" "snd (ys ! j) \<noteq> - 1"
    then have n: "j < length xs" "j \<noteq> i" "snd (xs ! j) \<noteq> - 1" unfolding ys by (simp_all split: if_splits)
    then have "nat (snd (xs ! j)) \<noteq> m" using other [OF n(1,2)] ok(3) [OF n(1,3)] by (simp add: nat_eq_iff)
    then show "fst (ys ! j) \<and> 0 \<le> snd (ys ! j) \<and> snd (ys ! j) < int (length ys) \<and> ms[m := False] ! nat (snd (ys ! j))"
      using ok(3) [OF n(1,3)] n(2) unfolding ys mark by simp
  next
    fix j k
    assume "j < length ys" "k < length ys" "j \<noteq> k" "snd (ys ! j) = snd (ys ! k)"
    then show "snd (ys ! j) = - 1" using ok(4) [of j k] unfolding ys by (simp split: if_splits)
  next
    fix p
    assume p: "p < length ys" "ms[m := False] ! p"
    then obtain j where "j < length xs" "snd (xs ! j) = int p" using ok(5) [of p] unfolding ys mark by auto
    moreover from this have "j \<noteq> i" using assms(3) p(2) by (auto simp: mark)
    ultimately show "\<exists>j < length ys. snd (ys ! j) = int p" by (intro exI [of _ j]) (simp add: ys)
  qed (use ok(1,2) in \<open>simp_all add: ys\<close>)
  then show ?thesis by (simp add: ys_def)
qed

lemma stacks_mark:
  assumes "stacks xs ms" "i < length xs" "snd (xs ! i) = - 1"
  shows "stacks (xs[i := (b, - 1)]) ms"
proof -
  note ok = stacksD [OF assms(1)]
  define ys where "ys = xs[i := (b, - 1 :: int)]"
  note ys = entry_upd [OF assms(2) ys_def]
  have s: "snd (ys ! j) = snd (xs ! j)" for j using assms(3) by (simp add: ys)
  have f: "fst (ys ! j) = fst (xs ! j)" if "snd (xs ! j) \<noteq> - 1" for j using that assms(3) by (auto simp: ys)
  have "stacks ys ms"
  proof (rule stacksI)
    fix j
    assume "j < length ys" "snd (ys ! j) \<noteq> - 1"
    then show "fst (ys ! j) \<and> 0 \<le> snd (ys ! j) \<and> snd (ys ! j) < int (length ys) \<and> ms ! nat (snd (ys ! j))"
      using ok(3) [of j] f [of j] unfolding s ys(1) by simp
  next
    fix j k
    assume "j < length ys" "k < length ys" "j \<noteq> k" "snd (ys ! j) = snd (ys ! k)"
    then show "snd (ys ! j) = - 1" unfolding s ys(1) by (rule ok(4))
  next
    fix p
    assume "p < length ys" "ms ! p"
    then show "\<exists>j < length ys. snd (ys ! j) = int p" unfolding s ys(1) by (rule ok(5))
  qed (use ok(1,2) in \<open>simp_all add: ys\<close>)
  then show ?thesis by (simp add: ys_def)
qed

section \<open>The operations keep it\<close>

text \<open>Most steps leave the stacks and the allocation of the entries alone.\<close>

definition quiet :: "thrsys \<Rightarrow> thrsys \<Rightarrow> bool" where
  "quiet s s' \<longleftrightarrow> tview s' = tview s \<and> thread_stack_memid s' = thread_stack_memid s"

lemma quiet_refl [simp]: "quiet s s"
  by (simp add: quiet_def)

lemma quiet_trans: "quiet s s1 \<Longrightarrow> quiet s1 s2 \<Longrightarrow> quiet s s2"
  by (simp add: quiet_def)

lemma quiet_stacks: "quiet s s' \<Longrightarrow> stacks_ok s \<Longrightarrow> stacks_ok s'"
  by (simp add: quiet_def stacks_ok_def)

lemma upd_thread_eq:
  assumes "upd_thread i f s = Some s'"
  shows "i < length (thread_info_list s)" "s' = s\<lparr>thread_info_list := (thread_info_list s)[i := f (thread_info_list s ! i)]\<rparr>"
  using assms by (auto simp: upd_thread_def arr_get_def arr_set_def split: bind_splits if_splits)

lemma quiet_upd:
  assumes "upd_thread i f s = Some s'" "\<And>t. pt_allocated (f t) = pt_allocated t" "\<And>t. mem_id (f t) = mem_id t"
  shows "quiet s s'"
  using upd_thread_eq [OF assms(1)] assms(2,3) by (simp add: quiet_def map_update list_update_same_conv)

lemma quiet_do: "th_do f s = Some s' \<Longrightarrow> quiet s s'"
  by (auto simp: th_do_def quiet_def split: bind_splits)

lemma quiet_kern [simp]: "quiet s (s\<lparr>th_kern := k\<rparr>)" "quiet s (s\<lparr>th_conts := c\<rparr>)" "quiet s (s\<lparr>th_sp := a\<rparr>)"
  by (simp_all add: quiet_def)

lemma quiet_parent: "parent_do i f s = Some s' \<Longrightarrow> quiet s s'"
  using quiet_do by (auto simp: parent_do_def split: bind_splits)

lemma quiet_joinq: "upd_thread i (\<lambda>t. t\<lparr>joinq := q\<rparr>) s = Some s' \<Longrightarrow> quiet s s'"
  by (erule quiet_upd) simp_all

lemma quiet_join_unblock:
  assumes "join_unblock i s = Some s'"
  shows "quiet s s'"
proof -
  obtain p q s1 where s1: "upd_thread i (\<lambda>t. t\<lparr>joinq := q\<rparr>) s = Some s1" "(if p = 255 then Some s1 else th_do (process_wake p) s1) = Some s'"
    using assms by (auto simp: join_unblock_def split: bind_splits)
  have "quiet s1 s'" using s1(2) quiet_do [of "process_wake p" s1 s'] by (simp split: if_splits)
  then show ?thesis by (rule quiet_trans [OF quiet_joinq [OF s1(1)]])
qed

lemma quiet_join_block:
  assumes "join_block i s = Some s'"
  shows "quiet s s'"
proof -
  obtain q s1 s2 where s: "upd_thread i (\<lambda>t. t\<lparr>joinq := q\<rparr>) s = Some s1"
      "th_do (\<lambda>k. upd_proc (current_pid k) (\<lambda>pr. pr\<lparr>blockq := Some (Join_q i), pr_state := PROC_WAIT\<rparr>) k) s1 = Some s2" "th_do (suspend K_sleep) s2 = Some s'"
    using assms by (auto simp: join_block_def split: bind_splits)
  show ?thesis by (rule quiet_trans [OF quiet_joinq [OF s(1)] quiet_trans [OF quiet_do [OF s(2)] quiet_do [OF s(3)]]])
qed

lemma invalidate_stacks:
  assumes "invalidate_thread_info i s = Some s'" "stacks_ok s"
  shows "stacks_ok s'"
proof -
  define f where "f = (\<lambda>t :: pthread_info. t\<lparr>pt_allocated := False, join_thread := None, start_func := 0, pt_param := 0, retval := 0, pt_parent := None,
                 pt_state := PTHREAD_STATE_DETACHED, joinq := qinit (fresh_joinq t)\<rparr>)"
  obtain s1 where s1: "upd_thread i f s = Some s1" using assms(1) by (auto simp: invalidate_thread_info_def f_def split: bind_splits)
  note u = upd_thread_eq [OF s1]
  let ?m = "mem_id (thread_info_list s ! i)"
  have i: "i < length (tview s)" "snd (tview s ! i) = ?m" using u(1) by simp_all
  have ok: "stacks (tview s) (thread_stack_memid s)" using assms(2) by (simp add: stacks_ok_def)
  have t1: "arr_get (thread_info_list s1) i = Some (f (thread_info_list s ! i))" using u by (simp add: arr_get_def)
  show ?thesis
  proof (cases "?m = - 1")
    case True
    then have q: "upd_thread i (\<lambda>t. t\<lparr>thread_attr := default_attr s1\<rparr>) s1 = Some s'"
      using assms(1) s1 t1 by (simp add: invalidate_thread_info_def f_def)
    have "tview s1 = (tview s)[i := (False, - 1)]" "thread_stack_memid s1 = thread_stack_memid s" using u True by (simp_all add: map_update f_def)
    then have "stacks_ok s1" using stacks_mark [OF ok i(1), of False] i(2) True by (simp add: stacks_ok_def)
    then show ?thesis by (rule quiet_stacks [OF quiet_upd [OF q], rotated 2]) simp_all
  next
    case False
    then have m: "0 \<le> ?m" "?m < int (length (tview s))" using stacksD(3) [OF ok i(1)] i(2) by simp_all
    then have free: "free_bss_mem ?m (thread_stack_memid s) = Some ((thread_stack_memid s)[nat ?m := False])"
      using stacksD(1) [OF ok] by (simp add: free_bss_mem_def arr_set_def nat_less_iff)
    define s2 where "s2 = s1\<lparr>thread_stack_memid := (thread_stack_memid s)[nat ?m := False]\<rparr>"
    obtain s3 where s3: "upd_thread i (\<lambda>t. t\<lparr>mem_id := - 1\<rparr>) s2 = Some s3" "upd_thread i (\<lambda>t. t\<lparr>thread_attr := default_attr s3\<rparr>) s3 = Some s'"
      using assms(1) s1 t1 False free u(2) by (auto simp: invalidate_thread_info_def f_def s2_def split: bind_splits)
    have "tview s3 = (tview s)[i := (False, - 1)]" "thread_stack_memid s3 = (thread_stack_memid s)[nat ?m := False]"
      using upd_thread_eq [OF s3(1)] u by (simp_all add: s2_def map_update f_def)
    then have "stacks_ok s3" using stacks_give [OF ok i(1), of "nat ?m"] i(2) m by (simp add: stacks_ok_def nat_less_iff)
    then show ?thesis by (rule quiet_stacks [OF quiet_upd [OF s3(2)], rotated 2]) simp_all
  qed
qed

lemma reclaim_stacks:
  assumes "parent_do i f s = Some s1" "invalidate_thread_info i s1 = Some s2" "stacks_ok s"
  shows "stacks_ok s2"
  using invalidate_stacks [OF assms(2)] quiet_stacks [OF quiet_parent [OF assms(1)] assms(3)] by blast

lemma thread_over_stacks:
  assumes "thread_over h i v dead s = Some s'" "\<And>s s'. dead s = Some s' \<Longrightarrow> quiet s s'" "stacks_ok s"
  shows "stacks_ok s'"
proof -
  obtain s1 and t :: pthread_info and s2 where s: "upd_thread i (\<lambda>t. t\<lparr>retval := v, pt_state := PTHREAD_STATE_EXIT\<rparr>) s = Some s1"
      "(if join_thread t \<noteq> None then join_unblock i s1 else Some s1) = Some s2"
      "(if detachstate (thread_attr t) = PTHREAD_CREATE_DETACHED h then do { s \<leftarrow> parent_do i process_invalidate s2; invalidate_thread_info i s }
        else dead s2) = Some s'"
    using assms(1) unfolding thread_over_def bind_eq_Some_conv by blast
  have "quiet s s1" by (rule quiet_upd [OF s(1)]) simp_all
  moreover have "quiet s1 s2" using s(2) quiet_join_unblock by (auto split: if_splits)
  ultimately have ok: "stacks_ok s2" using quiet_stacks assms(3) by blast
  show ?thesis
  proof (cases "detachstate (thread_attr t) = PTHREAD_CREATE_DETACHED h")
    case True
    then show ?thesis using s(3) reclaim_stacks [OF _ _ ok] by (auto split: bind_splits)
  next
    case False
    then show ?thesis using s(3) assms(2) quiet_stacks [OF _ ok] by simp
  qed
qed

lemma exit_stacks:
  assumes "sys_pthread_exit h v s = Some (r, s')" "stacks_ok s"
  shows "stacks_ok s'"
proof -
  obtain i s1 where s1: "thread_over h i v (th_do (\<lambda>k. upd_proc (current_pid k) (\<lambda>pr. pr\<lparr>pr_state := PROC_DEAD\<rparr>) k)) s = Some s1"
      "th_do (suspend K_sleep) s1 = Some s'"
    using assms(1) by (auto simp: sys_pthread_exit_def split: bind_splits)
  have "stacks_ok s1" by (rule thread_over_stacks [OF s1(1) _ assms(2)]) (rule quiet_do)
  then show ?thesis by (rule quiet_stacks [OF quiet_do [OF s1(2)]])
qed

lemma terminate_stacks: "pthread_terminate h i s = Some s' \<Longrightarrow> stacks_ok s \<Longrightarrow> stacks_ok s'"
  unfolding pthread_terminate_def by (rule thread_over_stacks) (auto intro: quiet_parent)

lemma join_reclaim_stacks: "join_reclaim i w out s = Some (r, out', s') \<Longrightarrow> stacks_ok s \<Longrightarrow> stacks_ok s'"
  using reclaim_stacks [of i process_invalidate s] by (auto simp: join_reclaim_def split: bind_splits if_splits)

lemma join_stacks:
  assumes "sys_pthread_join target wanted s = Some (r, out, s')" "stacks_ok s"
  shows "stacks_ok s'"
proof -
  consider "s' = s" | i out' where "join_reclaim i wanted out' s = Some (r, out, s')"
    | i g s1 s2 c where "upd_thread i (\<lambda>t. t\<lparr>join_thread := g\<rparr>) s = Some s1" "join_block i s1 = Some s2" "s' = s2\<lparr>th_conts := c\<rparr>"
    using assms(1) by (auto simp: sys_pthread_join_def Let_def split: bind_splits option.splits if_splits)
  then show ?thesis
  proof cases
    case 1
    then show ?thesis using assms(2) by simp
  next
    case 2
    then show ?thesis using join_reclaim_stacks assms(2) by blast
  next
    case 3
    have "quiet s s1" by (rule quiet_upd [OF 3(1)]) simp_all
    then have "quiet s s2" by (rule quiet_trans [OF _ quiet_join_block [OF 3(2)]])
    then show ?thesis using assms(2) quiet_stacks 3(3) quiet_trans quiet_kern(2) by metis
  qed
qed

lemma resume_stacks: "th_resume s = Some (r, out, s') \<Longrightarrow> stacks_ok s \<Longrightarrow> stacks_ok s'"
  using join_reclaim_stacks by (auto simp: th_resume_def Let_def join_end_def stacks_ok_def split: bind_splits option.splits tcont.splits)

lemma detach_stacks:
  assumes "sys_pthread_detach thread s = Some (r, s')" "stacks_ok s"
  shows "stacks_ok s'"
proof (cases "pthread_get_info thread s")
  case None
  then show ?thesis using assms by (simp add: sys_pthread_detach_def)
next
  case (Some i)
  then consider s1 where "parent_do i process_invalidate s = Some s1" "invalidate_thread_info i s1 = Some s'"
    | d where "upd_thread i (\<lambda>t. t\<lparr>thread_attr := (thread_attr t)\<lparr>detachstate := d\<rparr>\<rparr>) s = Some s'"
    using assms(1) by (auto simp: sys_pthread_detach_def split: bind_splits if_splits)
  then show ?thesis
  proof cases
    case 1
    then show ?thesis by (rule reclaim_stacks [OF _ _ assms(2)])
  next
    case 2
    then show ?thesis by (rule quiet_stacks [OF quiet_upd assms(2)]) simp_all
  qed
qed

lemma quiet_put: "th_put_queue b q s = Some s' \<Longrightarrow> quiet s s'"
  using quiet_joinq quiet_do by (auto simp: th_put_queue_def split: qref.splits)

lemma quiet_set_priority: "set_priority p v s = Some s' \<Longrightarrow> quiet s s'"
  using quiet_do by (simp add: set_priority_def)

lemma quiet_from_kern: "quiet (s\<lparr>th_kern := k\<rparr>) s' \<Longrightarrow> quiet s s'"
  by (simp add: quiet_def)

lemma quiet_reprioritise:
  assumes "reprioritise p pr v s = Some (r, s')"
  shows "quiet s s'"
proof -
  consider "pr_pid pr = current_pid (th_kern s) \<or> pr_state pr = PROC_DELAY" | "pr_pid pr \<noteq> current_pid (th_kern s)" "pr_state pr = PROC_READY"
    | "pr_pid pr \<noteq> current_pid (th_kern s)" "pr_state pr = PROC_WAIT \<or> pr_state pr = PROC_TIMED_WAIT"
    | "\<not> (pr_pid pr = current_pid (th_kern s) \<or> pr_state pr \<in> {PROC_DELAY, PROC_READY, PROC_WAIT, PROC_TIMED_WAIT})" by blast
  then show ?thesis
  proof cases
    case 1
    then show ?thesis using assms quiet_set_priority by (auto simp: reprioritise_def bind_eq_Some_conv)
  next
    case 2
    then obtain qs and r' :: int where r: "(if r' < 0 then Some (- 1, s\<lparr>th_kern := (th_kern s)\<lparr>ready_q := qs\<rparr>\<rparr>)
        else do { s \<leftarrow> set_priority p v (s\<lparr>th_kern := (th_kern s)\<lparr>ready_q := qs\<rparr>\<rparr>); s \<leftarrow> th_do (enq_ready p) s; Some (0, s) }) = Some (r, s')"
      using assms by (auto simp: reprioritise_def bind_eq_Some_conv)
    show ?thesis
    proof (cases "r' < 0")
      case False
      then obtain s1 where s1: "set_priority p v (s\<lparr>th_kern := (th_kern s)\<lparr>ready_q := qs\<rparr>\<rparr>) = Some s1" "th_do (enq_ready p) s1 = Some s'"
        using r by (auto simp: bind_eq_Some_conv)
      show ?thesis by (rule quiet_trans [OF quiet_from_kern [OF quiet_set_priority [OF s1(1)]] quiet_do [OF s1(2)]])
    qed (use r in auto)
  next
    case 3
    then obtain b q pt and r' :: int and s1 where r: "th_put_queue b q (s\<lparr>th_kern := (th_kern s)\<lparr>ptable := pt\<rparr>\<rparr>) = Some s1"
        "(if r' < 0 then Some (- 1, s1)
          else do { s \<leftarrow> set_priority p v s1; q \<leftarrow> prio_penq (ptable (th_kern s)) q (pr_pid pr); s \<leftarrow> th_put_queue b q s; Some (0, s) }) = Some (r, s')"
      using assms by (auto simp: reprioritise_def bind_eq_Some_conv)
    have q1: "quiet s s1" by (rule quiet_from_kern [OF quiet_put [OF r(1)]])
    show ?thesis
    proof (cases "r' < 0")
      case False
      then obtain s2 q' where s2: "set_priority p v s1 = Some s2" "th_put_queue b q' s2 = Some s'"
        using r(2) by (auto simp: bind_eq_Some_conv)
      show ?thesis by (rule quiet_trans [OF q1 quiet_trans [OF quiet_set_priority [OF s2(1)] quiet_put [OF s2(2)]]])
    qed (use r(2) q1 in auto)
  next
    case 4
    then show ?thesis using assms by (simp add: reprioritise_def)
  qed
qed

lemma setschedparam_stacks:
  assumes "sys_pthread_setschedparam h thread v s = Some (r, s')" "stacks_ok s"
  shows "stacks_ok s'"
proof -
  consider "s' = s" | p pr r' s1 where "reprioritise p pr v s = Some (r', s1)" "s' = s1 \<or> s' = s1\<lparr>th_kern := (th_kern s1)\<lparr>resched := True\<rparr>\<rparr>"
    using assms(1) unfolding sys_pthread_setschedparam_def by (auto split: bind_splits if_splits option.splits)
  then show ?thesis
  proof cases
    case 2
    have "quiet s s'" using quiet_trans [OF quiet_reprioritise [OF 2(1)]] 2(2) by auto
    then show ?thesis by (rule quiet_stacks [OF _ assms(2)])
  qed (use assms(2) in simp)
qed

lemma quiet_unlink:
  assumes "unlink_proc p pr s = Some s'"
  shows "quiet s s'"
proof -
  consider "pr_state pr = PROC_READY" | "pr_state pr = PROC_WAIT \<or> pr_state pr = PROC_TIMED_WAIT" | "pr_state pr = PROC_DELAY"
    | "pr_state pr \<notin> {PROC_DELAY, PROC_READY, PROC_WAIT, PROC_TIMED_WAIT}" by blast
  then show ?thesis
  proof cases
    case 1
    then obtain qs where "s' = s\<lparr>th_kern := (th_kern s)\<lparr>ready_q := qs\<rparr>\<rparr>" using assms by (auto simp: unlink_proc_def bind_eq_Some_conv)
    then show ?thesis by simp
  next
    case 2
    then obtain b q pt s1 where r: "th_put_queue b q (s\<lparr>th_kern := (th_kern s)\<lparr>ptable := pt\<rparr>\<rparr>) = Some s1"
        "(if pr_state pr = PROC_TIMED_WAIT then th_do (\<lambda>k. map_option snd (remove_tmr p k)) s1 else Some s1) = Some s'"
      using assms by (auto simp: unlink_proc_def bind_eq_Some_conv)
    have "quiet s1 s'" using r(2) quiet_do by (cases "pr_state pr = PROC_TIMED_WAIT") auto
    then show ?thesis by (rule quiet_trans [OF quiet_from_kern [OF quiet_put [OF r(1)]]])
  next
    case 3
    then show ?thesis using assms quiet_do by (auto simp: unlink_proc_def)
  next
    case 4
    then show ?thesis using assms by (simp add: unlink_proc_def)
  qed
qed

lemma kill_stacks:
  assumes "sys_kill h p s = Some (r, s')" "stacks_ok s"
  shows "stacks_ok s'"
proof -
  consider "s' = s" | v where "sys_pthread_exit h v s = Some (r, s')" | k where "s' = s\<lparr>th_kern := k\<rparr>"
    | pr i s1 s2 k where "unlink_proc p pr s = Some s1" "pthread_terminate h i s1 = Some s2" "s' = s2\<lparr>th_kern := k\<rparr>"
    | pr f s1 s2 k where "unlink_proc p pr s = Some s1" "th_do f s1 = Some s2" "s' = s2\<lparr>th_kern := k\<rparr>"
    using assms(1) unfolding sys_kill_def by (auto split: bind_splits if_splits option.splits)
  then show ?thesis
  proof cases
    case 2
    then show ?thesis by (rule exit_stacks [OF _ assms(2)])
  next
    case 4
    have "stacks_ok s2" by (rule terminate_stacks [OF 4(2) quiet_stacks [OF quiet_unlink [OF 4(1)] assms(2)]])
    then show ?thesis using 4(3) by (simp add: stacks_ok_def)
  next
    case 5
    have "stacks_ok s2" by (rule quiet_stacks [OF quiet_do [OF 5(2)] quiet_stacks [OF quiet_unlink [OF 5(1)] assms(2)]])
    then show ?thesis using 5(3) by (simp add: stacks_ok_def)
  qed (use assms(2) in \<open>simp_all add: stacks_ok_def\<close>)
qed

text \<open>A new thread.\<close>

lemma thread_stack_stacks:
  assumes "thread_stack h a i s = Some (found, e, s')" "stacks_ok s" "i < length (thread_info_list s)"
    "pt_allocated (thread_info_list s ! i)" "mem_id (thread_info_list s ! i) = - 1"
  shows "stacks_ok s'"
proof (cases "stackaddr a = 0")
  case False
  then show ?thesis using assms(1,2) by (simp add: thread_stack_def)
next
  case True
  obtain m e' ms where al: "alloc_bss_mem h (thread_stack_memid s) = (m, e', ms)" by (cases "alloc_bss_mem h (thread_stack_memid s)")
  have up: "upd_thread i (\<lambda>t. t\<lparr>mem_id := sint (word_of_int m :: u8)\<rparr>) (s\<lparr>thread_stack_memid := ms\<rparr>) = Some s'"
    using assms(1) True al by (auto simp: thread_stack_def split: bind_splits)
  have ok: "stacks (tview s) (thread_stack_memid s)" using assms(2) by (simp add: stacks_ok_def)
  have view: "tview s' = (tview s)[i := (True, sint (word_of_int m :: u8))]" "thread_stack_memid s' = ms"
    using upd_thread_eq [OF up] assms(4) by (simp_all add: map_update)
  define j where "j = scan_table Not 0 (thread_stack_memid s)"
  show ?thesis
  proof (cases "j < length (thread_stack_memid s)")
    case True
    have mj: "m = int j" "ms = (thread_stack_memid s)[j := True]" using al True by (simp_all add: alloc_bss_mem_def Let_def flip: j_def)
    have "j < 127" using True stacksD(1,2) [OF ok] by simp
    then have "sint (word_of_int m :: u8) = int j" unfolding mj(1) by (simp add: signed_of_nat signed_take_bit_int_eq_self)
    moreover have "\<not> thread_stack_memid s ! j" using scan_table_sat [of Not "thread_stack_memid s"] True by (simp add: j_def)
    ultimately show ?thesis
      using stacks_take [OF ok, of i j] assms(3,5) True stacksD(1) [OF ok] by (simp add: stacks_ok_def view mj(2))
  next
    case False
    then have "m = - 1" "ms = thread_stack_memid s" using al by (simp_all add: alloc_bss_mem_def Let_def flip: j_def)
    then show ?thesis using stacks_mark [OF ok, of i True] assms(3,5) by (simp add: stacks_ok_def view)
  qed
qed

lemma quiet_context:
  assumes "thread_context i p sp s = Some s'"
  shows "quiet s s'"
proof -
  obtain f s1 where s1: "th_do f (s\<lparr>th_sp := (th_sp s)(p := sp), th_conts := (th_conts s)(p := None)\<rparr>) = Some s1"
      "upd_thread i (\<lambda>t. t\<lparr>pt_parent := Some p\<rparr>) s1 = Some s'"
    using assms by (auto simp: thread_context_def split: bind_splits)
  have "quiet s s1" using quiet_do [OF s1(1)] by (simp add: quiet_def)
  moreover have "quiet s1 s'" by (rule quiet_upd [OF s1(2)]) simp_all
  ultimately show ?thesis by (rule quiet_trans)
qed

lemma create_parts:
  assumes "sys_pthread_create h thread_null attr func param s = Some (r, out, s')" "a = (case attr of None \<Rightarrow> default_attr s | Some a \<Rightarrow> a)"
    "i = scan_table (\<lambda>t. \<not> pt_allocated t) 0 (thread_info_list s)"
    "g = (\<lambda>t :: pthread_info. t\<lparr>pt_allocated := True, pt_state := PTHREAD_STATE_ALIVE, start_func := func, pt_param := param,
                          join_thread := None, thread_attr := a, joinq := qinit (joinq t)\<rparr>)"
  shows "s' = s \<or> (\<exists>s1 found e s2. i \<noteq> length (thread_info_list s) \<and> upd_thread i g s = Some s1 \<and> thread_stack h a i s1 = Some (found, e, s2) \<and>
      ((\<exists>k. invalidate_thread_info i (s2\<lparr>th_kern := k\<rparr>) = Some s') \<or> (\<exists>p sp k. thread_context i p sp (s2\<lparr>th_kern := k\<rparr>) = Some s')))"
proof (cases "s' = s")
  case False
  define bad where "bad = (case attr of
                 None \<Rightarrow> False
               | Some a \<Rightarrow> sched_priority a > PRIO_LOWEST h \<or> sched_priority a < PRIO_HIGHEST \<or>
                   contentionscope a \<noteq> PTHREAD_SCOPE_SYSTEM h \<or> \<not> is_detachstate h (detachstate a))"
  have ok: "\<not> thread_null" "\<not> bad" "i \<noteq> length (thread_info_list s)"
    using assms(1) False by (auto simp: sys_pthread_create_def Let_def simp flip: bad_def assms(2,3) split: if_splits)
  obtain s1 found e s2 where s: "upd_thread i g s = Some s1" "thread_stack h a i s1 = Some (found, e, s2)" and
     rest: "(if \<not> found then do { s \<leftarrow> invalidate_thread_info i s2; Some (errno_val EAGAIN, None, s) }
       else
         do { (p, k) \<leftarrow> proc_create (word_of_int (sched_priority a)) (th_kern s2);
              if p = 255 then do { s \<leftarrow> invalidate_thread_info i (s2\<lparr>th_kern := k\<rparr>); Some (errno_val EAGAIN, None, s) }
              else
                do { s \<leftarrow> thread_context i p
                       (if stackaddr a = 0 then e + SSTACK_PTR_ADJUST h else stackaddr a + stacksize a + SSTACK_PTR_ADJUST h) (s2\<lparr>th_kern := k\<rparr>);
                     t \<leftarrow> arr_get (thread_info_list s) i; Some (0, Some (tid t), s) } }) = Some (r, out, s')"
    using assms(1) ok unfolding sys_pthread_create_def Let_def bad_def [symmetric] assms(2) [symmetric] assms(3) [symmetric] assms(4) [symmetric]
    by (auto simp: bind_eq_Some_conv simp del: errno_val.simps)
  have "(\<exists>k. invalidate_thread_info i (s2\<lparr>th_kern := k\<rparr>) = Some s') \<or> (\<exists>p sp k. thread_context i p sp (s2\<lparr>th_kern := k\<rparr>) = Some s')"
  proof (cases found)
    case True
    then obtain p k where "(if p = 255 then do { s \<leftarrow> invalidate_thread_info i (s2\<lparr>th_kern := k\<rparr>); Some (errno_val EAGAIN, None, s) }
        else
          do { s \<leftarrow> thread_context i p
                 (if stackaddr a = 0 then e + SSTACK_PTR_ADJUST h else stackaddr a + stacksize a + SSTACK_PTR_ADJUST h) (s2\<lparr>th_kern := k\<rparr>);
               t \<leftarrow> arr_get (thread_info_list s) i; Some (0, Some (tid t), s) }) = Some (r, out, s')"
      using rest by (auto simp: bind_eq_Some_conv simp del: errno_val.simps)
    then show ?thesis by (cases "p = 255") (auto simp: bind_eq_Some_conv)
  next
    case no: False
    have "s2\<lparr>th_kern := th_kern s2\<rparr> = s2" by simp
    moreover have "invalidate_thread_info i s2 = Some s'" using rest no by (auto simp: bind_eq_Some_conv)
    ultimately show ?thesis by metis
  qed
  then show ?thesis using ok(3) s by blast
qed simp

lemma create_stacks:
  assumes "sys_pthread_create h thread_null attr func param s = Some (r, out, s')" "stacks_ok s"
  shows "stacks_ok s'"
proof -
  define a where "a = (case attr of None \<Rightarrow> default_attr s | Some a \<Rightarrow> a)"
  define i where "i = scan_table (\<lambda>t. \<not> pt_allocated t) 0 (thread_info_list s)"
  define g where "g = (\<lambda>t :: pthread_info. t\<lparr>pt_allocated := True, pt_state := PTHREAD_STATE_ALIVE, start_func := func, pt_param := param,
                          join_thread := None, thread_attr := a, joinq := qinit (joinq t)\<rparr>)"
  show ?thesis
  proof (cases "s' = s")
    case True
    then show ?thesis using assms(2) by simp
  next
    case False
    then obtain s1 found e s2 where s: "i \<noteq> length (thread_info_list s)" "upd_thread i g s = Some s1" "thread_stack h a i s1 = Some (found, e, s2)"
        "(\<exists>k. invalidate_thread_info i (s2\<lparr>th_kern := k\<rparr>) = Some s') \<or> (\<exists>p sp k. thread_context i p sp (s2\<lparr>th_kern := k\<rparr>) = Some s')"
      using create_parts [OF assms(1) a_def i_def g_def] by blast
    note u = upd_thread_eq [OF s(2)]
    have ok: "stacks (tview s) (thread_stack_memid s)" using assms(2) by (simp add: stacks_ok_def)
    have "\<not> pt_allocated (thread_info_list s ! i)" using scan_table_sat [of "\<lambda>t. \<not> pt_allocated t" "thread_info_list s"] u(1) by (simp add: i_def)
    then have m: "mem_id (thread_info_list s ! i) = - 1" using stacksD(3) [OF ok, of i] u(1) by auto
    have "tview s1 = (tview s)[i := (True, - 1)]" "thread_stack_memid s1 = thread_stack_memid s" using u m by (simp_all add: map_update g_def)
    then have "stacks_ok s1" using stacks_mark [OF ok, of i True] u(1) m by (simp add: stacks_ok_def)
    then have "stacks_ok s2" using thread_stack_stacks [OF s(3)] u m by (simp add: g_def)
    then have "stacks_ok (s2\<lparr>th_kern := k\<rparr>)" for k by (simp add: stacks_ok_def)
    then show ?thesis using s(4) invalidate_stacks quiet_context quiet_stacks by blast
  qed
qed

section \<open>Properties\<close>

text \<open>The calls in any order; between them the rest of the system may change the kernel in any way.\<close>

inductive treach :: "pthread_h \<Rightarrow> thrsys \<Rightarrow> thrsys \<Rightarrow> bool" for h s0 where
  start: "treach h s0 (pthread_init h s0)"
| kern: "treach h s0 s \<Longrightarrow> treach h s0 (s\<lparr>th_kern := k\<rparr>)"
| create: "treach h s0 s \<Longrightarrow> sys_pthread_create h thread_null attr func param s = Some (r, out, s') \<Longrightarrow> treach h s0 s'"
| exit: "treach h s0 s \<Longrightarrow> sys_pthread_exit h v s = Some (res, s') \<Longrightarrow> treach h s0 s'"
| join: "treach h s0 s \<Longrightarrow> sys_pthread_join target wanted s = Some (res, val, s') \<Longrightarrow> treach h s0 s'"
| resume: "treach h s0 s \<Longrightarrow> th_resume s = Some (res, val, s') \<Longrightarrow> treach h s0 s'"
| detach: "treach h s0 s \<Longrightarrow> sys_pthread_detach thread s = Some (r, s') \<Longrightarrow> treach h s0 s'"
| setschedparam: "treach h s0 s \<Longrightarrow> sys_pthread_setschedparam h thread prio s = Some (r, s') \<Longrightarrow> treach h s0 s'"
| kill: "treach h s0 s \<Longrightarrow> sys_kill h p s = Some (res, s') \<Longrightarrow> treach h s0 s'"

lemma init_stacks:
  assumes "length (thread_stack_memid s) = length (thread_info_list s)" "length (thread_info_list s) \<le> 127"
  shows "stacks_ok (pthread_init h s)"
  using assms by (simp add: stacks_ok_def stacks_def pthread_init_def bss_mem_init_def)

lemma treach_stacks:
  assumes "treach h s0 s" "length (thread_stack_memid s0) = length (thread_info_list s0)" "length (thread_info_list s0) \<le> 127"
  shows "stacks_ok s"
  using assms(1)
proof (induction rule: treach.induct)
  case start
  then show ?case by (rule init_stacks [OF assms(2,3)])
next
  case (kern s k)
  then show ?case by (simp add: stacks_ok_def)
qed (blast intro: create_stacks exit_stacks join_stacks resume_stacks detach_stacks setschedparam_stacks kill_stacks)+

text \<open>The memory of stack \<open>m\<close>.\<close>

definition stack_area :: "pthread_h \<Rightarrow> int \<Rightarrow> u32 set" where
  "stack_area h m =
     (let start = thread_stack_mem h + PTHREAD_STACK_SIZE h * of_nat (nat m)
      in {a. unat start \<le> unat a \<and> unat a < unat start + unat (PTHREAD_STACK_SIZE h)})"

lemma stack_start:
  assumes "unat (thread_stack_mem h) + n * unat (PTHREAD_STACK_SIZE h) \<le> 2 ^ 32" "m < n" "0 < unat (PTHREAD_STACK_SIZE h)"
  shows "unat (thread_stack_mem h + PTHREAD_STACK_SIZE h * of_nat m :: u32) = unat (thread_stack_mem h) + m * unat (PTHREAD_STACK_SIZE h)"
proof -
  have "m * unat (PTHREAD_STACK_SIZE h) < n * unat (PTHREAD_STACK_SIZE h)" using assms(2,3) by simp
  then have "unat (thread_stack_mem h) + m * unat (PTHREAD_STACK_SIZE h) < 2 ^ 32" using assms(1) by linarith
  moreover have "unat (of_nat N :: u32) = N" if "N < 2 ^ 32" for N using that by (simp add: unat_of_nat)
  ultimately have "unat (of_nat (unat (thread_stack_mem h) + m * unat (PTHREAD_STACK_SIZE h)) :: u32) = unat (thread_stack_mem h) + m * unat (PTHREAD_STACK_SIZE h)"
    by blast
  moreover have "(of_nat (unat (thread_stack_mem h) + m * unat (PTHREAD_STACK_SIZE h)) :: u32) = thread_stack_mem h + PTHREAD_STACK_SIZE h * of_nat m"
    by (simp add: mult.commute)
  ultimately show ?thesis by (simp add: mult.commute)
qed

lemma areas_apart:
  assumes "unat (thread_stack_mem h) + n * unat (PTHREAD_STACK_SIZE h) \<le> 2 ^ 32" "0 \<le> m" "m < int n" "0 \<le> k" "k < int n" "m < k"
  shows "stack_area h m \<inter> stack_area h k = {}"
proof (cases "unat (PTHREAD_STACK_SIZE h) = 0")
  case True
  then show ?thesis by (auto simp: stack_area_def Let_def)
next
  case False
  have mk: "nat m < n" "nat k < n" "nat m + 1 \<le> nat k" using assms(2-6) by linarith+
  have "(nat m + 1) * unat (PTHREAD_STACK_SIZE h) \<le> nat k * unat (PTHREAD_STACK_SIZE h)" using mk(3) by (rule mult_right_mono) simp
  then show ?thesis
    using stack_start [OF assms(1) mk(1)] stack_start [OF assms(1) mk(2)] False by (auto simp: stack_area_def Let_def)
qed

text \<open>
  Property C38: threads have their stacks for themselves. After any sequence of calls that create, end, join, detach, kill
  or reprioritise threads, whatever the rest of the kernel does, two threads with stacks of the pool are
  allocated and have stacks that do not overlap, and every stack that is taken belongs to a thread, so that none is lost.
\<close>

theorem threads_own_stacks:
  assumes "treach h s0 s" "length (thread_stack_memid s0) = length (thread_info_list s0)" "length (thread_info_list s0) \<le> 127"
    and "unat (thread_stack_mem h) + length (thread_info_list s) * unat (PTHREAD_STACK_SIZE h) \<le> 2 ^ 32"
  shows "(\<forall>i < length (thread_info_list s). \<forall>j < length (thread_info_list s).
       i \<noteq> j \<and> mem_id (thread_info_list s ! i) \<noteq> - 1 \<and> mem_id (thread_info_list s ! j) \<noteq> - 1 \<longrightarrow>
       pt_allocated (thread_info_list s ! i) \<and> stack_area h (mem_id (thread_info_list s ! i)) \<inter> stack_area h (mem_id (thread_info_list s ! j)) = {}) \<and>
     (\<forall>m < length (thread_stack_memid s). thread_stack_memid s ! m \<longrightarrow> (\<exists>i < length (thread_info_list s). mem_id (thread_info_list s ! i) = int m))"
proof -
  let ?n = "length (thread_info_list s)" and ?m = "\<lambda>i. mem_id (thread_info_list s ! i)"
  have "stacks (tview s) (thread_stack_memid s)" using treach_stacks [OF assms(1-3)] by (simp add: stacks_ok_def)
  note ok = stacksD [OF this, simplified]
  have "pt_allocated (thread_info_list s ! i) \<and> stack_area h (?m i) \<inter> stack_area h (?m j) = {}"
    if ij: "i < ?n" "j < ?n" "i \<noteq> j" "?m i \<noteq> - 1" "?m j \<noteq> - 1" for i j
  proof -
    have r: "0 \<le> ?m i" "?m i < int ?n" "0 \<le> ?m j" "?m j < int ?n" "pt_allocated (thread_info_list s ! i)"
      using ok(3) [of i] ok(3) [of j] ij by simp_all
    have "?m i \<noteq> ?m j" using ok(4) [of i j] ij by auto
    then show ?thesis
      using areas_apart [OF assms(4) r(1-4)] areas_apart [OF assms(4) r(3,4,1,2)] r(5) by (cases "?m i < ?m j") (auto simp: Int_commute)
  qed
  moreover have "\<exists>i < ?n. ?m i = int m" if m: "m < length (thread_stack_memid s)" "thread_stack_memid s ! m" for m
    using ok(5) [of m] ok(1) m by auto
  ultimately show ?thesis by blast
qed

text \<open>Two threads, of which the first joins the second.\<close>

definition demo_h :: pthread_h where
  "demo_h = \<lparr>PTHREAD_CREATE_DETACHED = 0, PTHREAD_CREATE_JOINABLE = 1, PTHREAD_SCOPE_SYSTEM = 1, PRIO_LOWEST = 3, thread_stack_mem = 65536,
     PTHREAD_STACK_SIZE = 1000, SSTACK_PTR_ADJUST = - 16\<rparr>"

definition demo_threads :: "kernel \<Rightarrow> thrsys" where
  "demo_threads k = \<lparr>th_kern = k,
     thread_info_list = replicate 3 \<lparr>pt_allocated = False, pt_parent = None, tid = 0, retval = 0, start_func = 0, pt_param = 0, pt_state = 0,
       join_thread = None, joinq = alloc_q [0] 0 0, mem_id = 0,
       thread_attr = \<lparr>contentionscope = 0, sched_priority = 0, detachstate = 0, stackaddr = 0, stacksize = 0\<rparr>\<rparr>,
     thread_stack_memid = replicate 3 True, default_attr = \<lparr>contentionscope = 0, sched_priority = 0, detachstate = 0, stackaddr = 0, stacksize = 0\<rparr>,
     th_sp = (\<lambda>_. 0), th_conts = (\<lambda>_. None)\<rparr>"

definition demo_tstart :: "thrsys option" where
  "demo_tstart =
     do { k \<leftarrow> xilkernel_init (demo_config\<lparr>cfg_init_prios := []\<rparr>) demo_memory;
          (_, s) \<leftarrow> kb_pthread_init demo_h [(256, 0)] (pthread_init demo_h (demo_threads k));
          th_do timer_irq s }"

definition demo_join :: "pthread_attr option \<Rightarrow> (kres \<times> u32 option \<times> thrsys) option" where
  "demo_join attr =
     do { s \<leftarrow> demo_tstart; (_, _, s) \<leftarrow> sys_pthread_create demo_h False attr 512 0 s;
          (_, _, s) \<leftarrow> sys_pthread_join 1 True s; (_, s) \<leftarrow> sys_pthread_exit demo_h 42 s; th_resume s }"

theorem threads_own_stacks_witness:
  "\<exists>r v s. demo_join None = Some (r, v, s) \<and> mem_id (thread_info_list s ! 0) = 0 \<and>
     (\<forall>m < length (thread_stack_memid s). thread_stack_memid s ! m \<longrightarrow> (\<exists>i < length (thread_info_list s). mem_id (thread_info_list s ! i) = int m))"
proof -
  have val: "case demo_join None of None \<Rightarrow> False | Some (r, v, s) \<Rightarrow> length (thread_info_list s) = 3 \<and> mem_id (thread_info_list s ! 0) = 0" by code_simp
  then obtain r v s where run: "demo_join None = Some (r, v, s)" by (cases "demo_join None") auto
  then have v: "length (thread_info_list s) = 3" "mem_id (thread_info_list s ! 0) = 0" using val by simp_all
  obtain s1 s2 s3 s4 k k' where s: "sys_pthread_create demo_h False (Some ((default_attr (pthread_init demo_h (demo_threads k)))\<lparr>sched_priority := 0\<rparr>)) 256 0
        (pthread_init demo_h (demo_threads k)) = Some s1"
      "sys_pthread_create demo_h False None 512 0 ((snd (snd s1))\<lparr>th_kern := k'\<rparr>) = Some s2"
      "sys_pthread_join 1 True (snd (snd s2)) = Some s3" "sys_pthread_exit demo_h 42 (snd (snd s3)) = Some s4" "th_resume (snd s4) = Some (r, v, s)"
    using run by (auto simp: demo_join_def demo_tstart_def bind_eq_Some_conv th_do_def split: if_splits)
  have "treach demo_h (demo_threads k) (snd (snd s1))" using s(1) treach.start treach.create by (metis prod.collapse)
  then have "treach demo_h (demo_threads k) (snd (snd s2))" using s(2) treach.kern treach.create by (metis prod.collapse)
  then have "treach demo_h (demo_threads k) (snd (snd s3))" using s(3) treach.join by (metis prod.collapse)
  then have "treach demo_h (demo_threads k) (snd s4)" using s(4) treach.exit by (metis prod.collapse)
  then have "treach demo_h (demo_threads k) s" using s(5) treach.resume by blast
  from threads_own_stacks [OF this] v have "\<forall>m < length (thread_stack_memid s). thread_stack_memid s ! m \<longrightarrow> (\<exists>i < length (thread_info_list s). mem_id (thread_info_list s ! i) = int m)"
    by (simp add: demo_threads_def demo_h_def)
  then show ?thesis using run v(2) by blast
qed

text \<open>
  A joined thread hands over its value when it was created joinable. With the default attributes its entry is cleared before the
  joining thread runs again, which then reads 0.
\<close>

lemma join_gives_value:
  "map_option (\<lambda>(r, v, s). (r, v)) (demo_join (Some ((fresh_attr demo_h)\<lparr>detachstate := 1\<rparr>))) = Some (Ret 0, Some 42)"
  "map_option (\<lambda>(r, v, s). (r, v)) (demo_join None) = Some (Ret 0, Some 0)"
  by code_simp+

text \<open>
  \<^verbatim>\<open>sys_pthread_detach\<close> stores the state 3 where \<^verbatim>\<open>sys_pthread_exit\<close> looks for \<^verbatim>\<open>PTHREAD_CREATE_DETACHED\<close>: the entry, the stack and the process
  of a thread that was detached while it ran are never given back.
\<close>

lemma detached_thread_stays:
  "(do { s \<leftarrow> demo_tstart; (_, _, s) \<leftarrow> sys_pthread_create demo_h False None 512 0 s; (r, s) \<leftarrow> sys_pthread_detach 1 s;
         s \<leftarrow> th_do (\<lambda>k. map_option snd (sys_sleep 5 k)) s; (_, s) \<leftarrow> sys_pthread_exit demo_h 42 s;
         Some (r, thread_stack_memid s, map pt_allocated (thread_info_list s), map is_allocated (ptable (th_kern s))) }) =
   Some (0, [True, True, False], [True, True, False], [True, True, True, False])"
  by code_simp

end
