(* ===== verification/Spec2Isabelle.thy ===== *)
theory Spec2Isabelle
  imports Firmware Kern_Deliver Kern_Thread
begin

text \<open>
  Verification library of VP2motion, a motion controller on an FPGA with a PowerPC 405: hardware that drives
  stepper motors, firmware that plans moves, a boot loader that reads programs from an SD card, and the xilkernel
  operating system that the repository carries for the same board.

  \<^bold>\<open>The program and its parts.\<close> The firmware \<^verbatim>\<open>src/sdloader/src/main.c\<close> runs a main loop. In each round it takes at most
  one byte from the serial line for the console (\<^verbatim>\<open>cmdline.c\<close>), executes a complete command, and calls the planner
  (\<^verbatim>\<open>steppers.c\<close>). The planner keeps a queue of targets and programs the axis controller through its driver
  (\<^verbatim>\<open>motion.c\<close>, \<^verbatim>\<open>motion.h\<close>); the controller itself is Verilog (\<^verbatim>\<open>src/pcores/motion_v1_00_a\<close>). The boot command opens a file of the
  FAT file system (\<^verbatim>\<open>ff.c\<close>), which reads sectors (\<^verbatim>\<open>diskio.c\<close>) from an SD card (\<^verbatim>\<open>mmc.c\<close>) over the SPI driver
  (\<^verbatim>\<open>src/drivers/spi_v2_00_a\<close>). The kernel (\<^verbatim>\<open>src/bsp/xilkernel_v4_00_a\<close>) has a priority scheduler, software timers, semaphores,
  mutexes, message queues, shared memory, block memory and threads.

  \<^bold>\<open>The theories and what they model.\<close>

  \<^item> Shared: \<open>Prelude\<close> (C integers as words, arrays with checked access, table searches, the functions of
    \<^verbatim>\<open>string.h\<close>, the collections of facts), \<open>Fifo\<close> (the contract of a bounded queue), \<open>Mmio\<close> (registers reached by a state
    transformer that stands for the hardware), \<open>Binary64\<close> (the C type \<^verbatim>\<open>double\<close> with rounding).
  \<^item> Motion: \<open>Motion_HW\<close> (\<^verbatim>\<open>acc_profile_gen.v\<close>, \<^verbatim>\<open>acc_step_gen.v\<close>, \<^verbatim>\<open>motor_step_gen.v\<close>, \<^verbatim>\<open>user_logic.v\<close>; one step is one
    clock cycle), \<open>Motion_Drv\<close> (\<^verbatim>\<open>motion.c\<close>, the accessors of \<^verbatim>\<open>motion.h\<close>, \<^verbatim>\<open>motion_selftest.c\<close>), \<open>Steppers\<close> (\<^verbatim>\<open>steppers.c\<close>).
  \<^item> Console: \<open>Cmdline\<close> (\<^verbatim>\<open>cmdline.c\<close>: line editor, history, command table, argument parser).
  \<^item> Storage: \<open>Spi_Drv\<close> (\<^verbatim>\<open>xspi.c\<close> with options, statistics and self test), \<open>Sd_Card\<close> (\<^verbatim>\<open>mmc.c\<close>, \<^verbatim>\<open>diskio.c\<close>, the display in
    \<^verbatim>\<open>osram.c\<close>), \<open>Fat_Fs\<close> (the functions of \<^verbatim>\<open>ff.c\<close> that the configuration compiles), \<open>Fat_Table\<close>, \<open>Fat_File\<close>, \<open>Fat_Dir\<close>, \<open>Fat_Name\<close>,
    \<open>Fat_Path\<close>, \<open>Fat_Mount\<close> (what they do on a volume), \<open>Fat_Sd\<close> (the same on the SD card).
  \<^item> Firmware: \<open>Boot\<close> (\<^verbatim>\<open>bootelf\<close>), \<open>Firmware\<close> (the command handlers, the initialisation and the main loop of \<^verbatim>\<open>main.c\<close>).
  \<^item> Kernel model: \<open>Kern_Queue\<close> (\<^verbatim>\<open>queue.c\<close>), \<open>Kern_Mem\<close> (\<^verbatim>\<open>bufmalloc.c\<close>), \<open>Kern_Proc\<close> (\<^verbatim>\<open>sched.c\<close>, \<^verbatim>\<open>process.c\<close>,
    \<^verbatim>\<open>timer.c\<close>, the timer interrupt, \<^verbatim>\<open>elf.c\<close>), \<open>Kern_Sync\<close> (\<^verbatim>\<open>semaphore.c\<close>, \<^verbatim>\<open>mutex.c\<close>), \<open>Kern_Boot\<close> (\<^verbatim>\<open>main.c\<close>), \<open>Kern_Shm\<close> (\<^verbatim>\<open>shm.c\<close>),
    \<open>Kern_Msg\<close> (\<^verbatim>\<open>msg.c\<close>), \<open>Kern_Thread\<close> (\<^verbatim>\<open>pthread.c\<close>, \<^verbatim>\<open>sys_kill\<close>, the stacks of \<^verbatim>\<open>mem.c\<close>, the attribute functions of \<^verbatim>\<open>libpthread.c\<close>).
  \<^item> Kernel proofs: \<open>Kern_Sched\<close>, \<open>Kern_Time\<close>, \<open>Kern_Ops\<close>, \<open>Kern_Steps\<close>, \<open>Kern_Calls\<close>, \<open>Kern_System\<close> build up the invariant from the
    scheduler to the whole system of calls; \<open>Kern_Props\<close> has the properties. \<open>Kern_Blocks\<close>, \<open>Kern_Msg_Inv\<close>, \<open>Kern_Deliver\<close> do the
    same for messages.

  \<^bold>\<open>How state and operations correspond to the code.\<close> A C structure is a record with the fields of the source, a table of the
  source is a list, and a pointer into a table is an index. Integers that can overflow are words of their width; a process
  identifier is a byte, 255 is \<^verbatim>\<open>-1\<close>. An operation takes and returns the state. It yields \<open>None\<close> exactly where the C
  program has no defined effect or does not go on: an access outside an array, a null pointer, a value that does not fit its
  type, a loop that never ends, the halt of the kernel. Errors that the code returns are values. Hardware, the
  card and the serial line are parameters of the definitions. A system call that blocks is split where the process
  is suspended: the rest is a continuation (\<open>kcont\<close>, \<open>mcont\<close>, \<open>tcont\<close>) that runs when the scheduler picks the process again.

  \<^bold>\<open>Loops.\<close> Loops over data are recursive functions with termination proofs. Loops that wait for
  hardware, and loops of the code whose end is not obvious (\<open>force_loop\<close>, \<open>free_loop\<close>), are partial functions whose value \<open>None\<close> is
  divergence, so that a theorem with a result says that they end. Loops that count down in the source (\<^verbatim>\<open>MMC_TIMEOUT\<close>) have
  exactly its bound.

  \<^bold>\<open>Interfaces.\<close> Each locale states what one part relies on and is interpreted on the definitions of
  the other: \<open>bounded_fifo\<close> (the move queue of the planner, the rings of the kernel), \<open>prio_queue\<close> (the wait queues), \<open>motion_port\<close> (the
  registers of the axis controller), \<open>spi_core\<close> (the register description of the SPI core), \<open>disk_image\<close> (what the file system
  needs of a disk; \<open>sd_system\<close> shows that the card provides it), \<open>uart_rx\<close> (the receiver of the serial line),
  \<open>block_pool\<close> (what the message queues need of the block memory).

  \<^bold>\<open>What is shown.\<close>

  \<^item> Motion: the controller follows the closed form of a constant-jerk motion as long as a segment runs, ends it in the right
    cycle and loads the next; steps follow the position; the driver leaves exactly the requested values; the
    planner hands over each target once and in order, refuses an eleventh target, and its queue stays well formed for any
    hardware. The planner has no defined effect for a target whose coefficients do not fit their registers or whose debug text
    (\<open>debug_sprintf\<close>) does not fit its buffer, and only for such a target.
  \<^item> Console: the handler refines an editor on lists, the terminal shows what the editor holds after every byte (an
    ENTER that starts a command leaves a blank row for the prompt that follows the command), and a submitted line can be
    recalled. A typed command queues exactly the move it names. A round of the main loop keeps console and planner well formed,
    except that \<^verbatim>\<open>bootelf\<close> runs foreign code, that \<^verbatim>\<open>wr\<close> may hit the memory of the firmware itself (\<open>bd_ram\<close> says which
    addresses these are; such a write has no defined effect in the model), and that a move may have no plan.
  \<^item> Storage: a polled transfer ends and exchanges exactly the bytes; what is mounted is a volume laid out as its boot record says;
    sectors, FAT entries, directory searches, paths, seeks and file contents are those the on-disk structures define, errors included; the boot loader puts every segment of the
    program into memory.
  \<^item> Kernel: rings are lists, wait queues are ordered by urgency, free lists stay well formed, whether a pool is named
    or not. From the start on, under every interleaving of continued calls, interrupts and calls that meet \<open>call_ok\<close>, no process
    is lost, nothing gets stuck, the most urgent process runs, sleepers wake with the tick that ends their time, semaphores count
    their waiters (without timed waits), mutexes keep owner, type and count. Messages arrive once and in order as long as
    \<open>mevent_ok\<close> is met; a segment of shared memory is found by its key after any later calls but its removal; threads have
    their stacks for themselves.

  Theorems beside the properties prove defects of the code, most of them on a concrete run outside the conditions above. Motion:
  \<open>planned_velocity_drift\<close>, \<open>zero_duration_undefined\<close>, \<open>debug_text_overflows\<close>. Kernel: \<open>destroyed_mutex_loses_process\<close>,
  \<open>unchecked_priority\<close>, \<open>large_semaphore_is_negative\<close>, \<open>timed_wait_loses_post\<close>, \<open>long_sleep_is_short\<close>. Messages:
  \<open>too_long_message_takes_place\<close>, \<open>half_made_queue\<close>, \<open>removed_queue_corrupts_pool\<close>. Threads: \<open>detached_thread_stays\<close>.

  \<^bold>\<open>What the theorems ask for.\<close> A configuration of the kernel is suitable (\<open>config_ok\<close>) when its queues hold all processes,
  there are at most 128 priorities, the configured ones exist, and there are at least as many timers as processes. The flag \<open>tw\<close> says whether timed waits are used; the counts of the semaphores are right
  without them. \<open>call_ok\<close>, \<open>event_ok\<close> and \<open>mevent_ok\<close> say what callers must respect because the code does
  not check it: existing priorities, no destruction of a mutex that somebody waits for, semaphore values within a signed char;
  messages that fit every receiver and two free semaphores for a new queue. The named calls of semaphores, \<^verbatim>\<open>sys_kill\<close>, the
  thread calls and the removal of message queues are modelled, but not part of the systems these theorems step through
  (\<open>Kern_Thread\<close> has a system of its own).

  \<^bold>\<open>Not modelled.\<close>

  \<^item> The text the command handlers print and the debug output (the output of the line editor is modelled, and the length
    of the debug text of the planner, which is built in a buffer).
  \<^item> Registers, exception vectors and the assembly stubs of the kernel (\<^verbatim>\<open>entry405.S\<close>, \<^verbatim>\<open>syscall.S\<close>, \<^verbatim>\<open>intr.c\<close>, \<^verbatim>\<open>xtrace.c\<close>): they
    save contexts; the decisions they take are part of the scheduler and the timer interrupt.
  \<^item> The statistics of the kernel (\<^verbatim>\<open>sys_get_kernel_stats\<close>), which only read its tables, and its port to the MicroBlaze, which
    this system does not build; round-robin scheduling, which the configuration compiles out.
  \<^item> The parts of \<^verbatim>\<open>ff.c\<close> that the configuration compiles out (writing, long names, formatting) and the code page tables.
  \<^item> The lwIP network stack and the vendor's UART core, which are third-party code that no application of the
    repository changes; the generated memory tests and the code generators of the tools.
\<close>

end
